(* ===== verification/Prelude.thy ===== *)
theory Prelude
  imports Main "HOL-Library.Word" "HOL-Library.Monad_Syntax"
begin

text \<open>
  Shared material of the development: the machine types of the 32-bit ARM target
  (\<open>u32\<close> for \<open>unsigned int\<close>, \<open>size_t\<close>, \<open>VTOP_TASK_ID\<close> and pointers), the execution
  type \<open>run\<close> (\<open>None\<close> is a process that was ended by \<open>ASSERT\<close>, that is
  \<open>MSG_FATAL\<close> and \<open>exit(1)\<close>, or a use of a pointer that names no live object), the linear scan
  \<open>scan\<close> that the tables' \<open>for\<close> loops perform, C string helpers, and the list and word
  lemmas the components share.
\<close>

named_theorems step_defs \<open>definitions that are unfolded to execute one operation\<close>
named_theorems inv_intros \<open>preservation lemmas for the components' invariants\<close>

type_synonym u8 = "8 word"
type_synonym u16 = "16 word"
type_synonym u32 = "32 word"
type_synonym s32 = int
type_synonym 'a run = "'a option"

abbreviation aborted :: "'a run \<Rightarrow> bool" where
  "aborted r \<equiv> r = None"

definition HI_SUCCESS :: s32 where
  "HI_SUCCESS = 0"

definition HI_FAILURE :: s32 where
  "HI_FAILURE = -1"

text \<open>The \<open>for\<close> loop that looks for the first element of an array with a property.\<close>

fun scan :: "('a \<Rightarrow> bool) \<Rightarrow> 'a list \<Rightarrow> nat option" where
  "scan P [] = None"
| "scan P (x # xs) = (if P x then Some 0 else map_option Suc (scan P xs))"

text \<open>
  A loop that collects the elements with a property and leaves as soon as the number
  collected reaches \<open>lim\<close>; the test comes after the element, as in the source.
\<close>

fun collect_upto :: "nat \<Rightarrow> ('a \<Rightarrow> bool) \<Rightarrow> nat \<Rightarrow> 'a list \<Rightarrow> 'a list" where
  "collect_upto lim P n [] = []"
| "collect_upto lim P n (x # xs) =
     (let n' = (if P x then Suc n else n);
          rest = (if lim \<le> n' then [] else collect_upto lim P n' xs)
      in if P x then x # rest else rest)"

text \<open>A loop that performs a fallible operation for each element.\<close>

fun iter :: "('a \<Rightarrow> 's \<Rightarrow> 's run) \<Rightarrow> 'a list \<Rightarrow> 's \<Rightarrow> 's run" where
  "iter f [] s = Some s"
| "iter f (x # xs) s = Option.bind (f x s) (iter f xs)"

text \<open>A loop of operations that return an error code and that is left at the first negative one.\<close>

fun until_err :: "('a \<Rightarrow> 's \<Rightarrow> s32 \<times> 's) \<Rightarrow> 'a list \<Rightarrow> 's \<Rightarrow> s32 \<times> 's" where
  "until_err f [] s = (0, s)"
| "until_err f (x # xs) s = (case f x s of (r, s') \<Rightarrow> if r < 0 then (r, s') else until_err f xs s')"

text \<open>\<open>strncpy\<close> of a NUL-free string into an array of \<open>n\<close> bytes that ends in NUL.\<close>

definition strcut :: "nat \<Rightarrow> string \<Rightarrow> string" where
  "strcut n s = take (n - 1) s"

definition strncmp_eq :: "nat \<Rightarrow> string \<Rightarrow> string \<Rightarrow> bool" where
  "strncmp_eq n a b \<longleftrightarrow> take n a = take n b"

section \<open>Scans\<close>

lemma scan_None_iff: "scan P xs = None \<longleftrightarrow> (\<forall>x \<in> set xs. \<not> P x)"
  by (induction xs) auto

lemma scan_Some_iff:
  "scan P xs = Some i \<longleftrightarrow> i < length xs \<and> P (xs ! i) \<and> (\<forall>j < i. \<not> P (xs ! j))"
proof (induction xs arbitrary: i)
  case Nil
  then show ?case by simp
next
  case (Cons x xs)
  show ?case
  proof (cases i)
    case 0
    then show ?thesis by auto
  next
    case (Suc k)
    have "(\<forall>j < Suc k. \<not> P ((x # xs) ! j)) \<longleftrightarrow> \<not> P x \<and> (\<forall>j < k. \<not> P (xs ! j))"
      by (auto simp: less_Suc_eq_0_disj)
    with Suc Cons show ?thesis by auto
  qed
qed

lemma scan_SomeD:
  assumes "scan P xs = Some i"
  shows "i < length xs" and "P (xs ! i)" and "j < i \<Longrightarrow> \<not> P (xs ! j)"
  using assms by (auto simp: scan_Some_iff)

lemma scan_exists: "x \<in> set xs \<Longrightarrow> P x \<Longrightarrow> \<exists>i. scan P xs = Some i"
  by (metis not_None_eq scan_None_iff)

lemma scan_cong: "(\<And>x. x \<in> set xs \<Longrightarrow> P x = Q x) \<Longrightarrow> scan P xs = scan Q xs"
  by (induction xs) auto

lemma scan_unique:
  assumes "i < length xs" and "P (xs ! i)"
    and "\<And>j. j < length xs \<Longrightarrow> P (xs ! j) \<Longrightarrow> j = i"
  shows "scan P xs = Some i"
  unfolding scan_Some_iff
proof (intro conjI allI impI)
  fix j assume "j < i"
  with assms(1) assms(3) [of j] show "\<not> P (xs ! j)" by auto
qed (use assms in blast)+

lemma collect_upto_filter:
  "n + length (filter P xs) \<le> lim \<Longrightarrow> collect_upto lim P n xs = filter P xs"
proof (induction xs arbitrary: n)
  case Nil
  then show ?case by simp
next
  case (Cons x xs)
  let ?n = "if P x then Suc n else n"
  have le: "?n + length (filter P xs) \<le> lim" using Cons.prems by (simp split: if_splits)
  have "lim \<le> ?n \<Longrightarrow> length (filter P xs) = 0" using le by linarith
  then have "(if lim \<le> ?n then [] else collect_upto lim P ?n xs) = filter P xs"
    using Cons.IH [OF le] by (metis length_0_conv)
  then show ?case by (auto simp: Let_def split: if_splits)
qed

lemma collect_upto_prefix: "set (collect_upto lim P n xs) \<subseteq> {x \<in> set xs. P x}"
  by (induction xs arbitrary: n) (auto simp: Let_def split: if_splits)

section \<open>Lists\<close>

lemma filter_update_count:
  assumes "i < length xs"
  shows "length (filter P (xs[i := y])) + (if P (xs ! i) then 1 else 0)
       = length (filter P xs) + (if P y then 1 else 0)"
  using assms
proof (induction xs arbitrary: i)
  case (Cons x xs)
  then show ?case by (cases i) auto
qed simp

lemma count_less_of_gap: "i < length xs \<Longrightarrow> \<not> P (xs ! i) \<Longrightarrow> length (filter P xs) < length xs"
  by (meson length_filter_less nth_mem)

lemma count_pos: "x \<in> set xs \<Longrightarrow> P x \<Longrightarrow> 0 < length (filter P xs)"
  by (induction xs) auto

lemma map_eqI: "(\<And>x v. f x = Some v \<longleftrightarrow> g x = Some v) \<Longrightarrow> f = g"
  by (rule ext) (metis not_None_eq)

section \<open>Words\<close>

lemma unat_of_nat_u32: "i < 2 ^ 32 \<Longrightarrow> unat (of_nat i :: u32) = i"
  by (simp add: unsigned_of_nat take_bit_nat_eq_self)

lemma of_nat_inj_u32: "i < 2 ^ 32 \<Longrightarrow> j < 2 ^ 32 \<Longrightarrow> (of_nat i :: u32) = of_nat j \<Longrightarrow> i = j"
  by (metis unat_of_nat_u32)

end
