(* ===== verification/Msg_Types.thy ===== *)
theory Msg_Types
  imports Prelude
begin

text \<open>
  The public data of the message system, from \<open>include/common/msg_interface.h\<close> and
  \<open>common/msg_misc.h\<close>: error codes, message flags, the user message block, the inner block
  that the system copies around, and the copy into a queue's buffer.
\<close>

unbundle bit_operations_syntax

section \<open>Error codes\<close>

text \<open>
  \<open>SCP_DEF_ERR\<close> packs a level (3 bits) and an error id (13 bits) below the module id
  \<open>0xA2010000\<close>; the result is read as a signed \<open>int\<close>.
\<close>

definition SCP_DEF_ERR :: "u32 \<Rightarrow> u32 \<Rightarrow> s32" where
  "SCP_DEF_ERR level errid =
     sint ((0xA2010000 OR push_bit 13 (level AND 0x7) OR (errid AND 0x1FFF)) :: u32)"

definition VTOP_LOG_LEVEL_ERROR :: u32 where
  "VTOP_LOG_LEVEL_ERROR = 4"

definition VTOP_MSG_ERR_GENERAL :: s32 where
  "VTOP_MSG_ERR_GENERAL = SCP_DEF_ERR VTOP_LOG_LEVEL_ERROR 0x000"

definition VTOP_MSG_ERR_NOMEM :: s32 where
  "VTOP_MSG_ERR_NOMEM = SCP_DEF_ERR VTOP_LOG_LEVEL_ERROR 0x002"

definition VTOP_MSG_ERR_NULLPTR :: s32 where
  "VTOP_MSG_ERR_NULLPTR = SCP_DEF_ERR VTOP_LOG_LEVEL_ERROR 0x003"

definition VTOP_MSG_ERR_INVALIDPARA :: s32 where
  "VTOP_MSG_ERR_INVALIDPARA = SCP_DEF_ERR VTOP_LOG_LEVEL_ERROR 0x004"

definition VTOP_MSG_ERR_VERSION :: s32 where
  "VTOP_MSG_ERR_VERSION = SCP_DEF_ERR VTOP_LOG_LEVEL_ERROR 0x005"

definition VTOP_MSG_ERR_NOSHMMEM :: s32 where
  "VTOP_MSG_ERR_NOSHMMEM = SCP_DEF_ERR VTOP_LOG_LEVEL_ERROR 0x100"

definition VTOP_MSG_ERR_SHMATTCH :: s32 where
  "VTOP_MSG_ERR_SHMATTCH = SCP_DEF_ERR VTOP_LOG_LEVEL_ERROR 0x103"

definition VTOP_MSG_ERR_DSNOTEXIST :: s32 where
  "VTOP_MSG_ERR_DSNOTEXIST = SCP_DEF_ERR VTOP_LOG_LEVEL_ERROR 0x201"

definition VTOP_MSG_ERR_PROCNOTEXIST :: s32 where
  "VTOP_MSG_ERR_PROCNOTEXIST = SCP_DEF_ERR VTOP_LOG_LEVEL_ERROR 0x301"

definition VTOP_MSG_ERR_TASKEXIST :: s32 where
  "VTOP_MSG_ERR_TASKEXIST = SCP_DEF_ERR VTOP_LOG_LEVEL_ERROR 0x400"

definition VTOP_MSG_ERR_TASKNOTEXIST :: s32 where
  "VTOP_MSG_ERR_TASKNOTEXIST = SCP_DEF_ERR VTOP_LOG_LEVEL_ERROR 0x401"

definition VTOP_MSG_ERR_TASKFULL :: s32 where
  "VTOP_MSG_ERR_TASKFULL = SCP_DEF_ERR VTOP_LOG_LEVEL_ERROR 0x402"

definition VTOP_MSG_ERR_SUBEXIST :: s32 where
  "VTOP_MSG_ERR_SUBEXIST = SCP_DEF_ERR VTOP_LOG_LEVEL_ERROR 0x600"

definition VTOP_MSG_ERR_SUBNOTEXIST :: s32 where
  "VTOP_MSG_ERR_SUBNOTEXIST = SCP_DEF_ERR VTOP_LOG_LEVEL_ERROR 0x601"

definition VTOP_MSG_ERR_SUBFULL :: s32 where
  "VTOP_MSG_ERR_SUBFULL = SCP_DEF_ERR VTOP_LOG_LEVEL_ERROR 0x602"

definition VTOP_MSG_ERR_SUBMEMBERFULL :: s32 where
  "VTOP_MSG_ERR_SUBMEMBERFULL = SCP_DEF_ERR VTOP_LOG_LEVEL_ERROR 0x603"

definition VTOP_MSG_ERR_TIMEOUT :: s32 where
  "VTOP_MSG_ERR_TIMEOUT = SCP_DEF_ERR VTOP_LOG_LEVEL_ERROR 0x701"

definition VTOP_MSG_ERR_RESPTIMEOUT :: s32 where
  "VTOP_MSG_ERR_RESPTIMEOUT = SCP_DEF_ERR VTOP_LOG_LEVEL_ERROR 0x702"

definition VTOP_MSG_ERR_MSGRCV :: s32 where
  "VTOP_MSG_ERR_MSGRCV = SCP_DEF_ERR VTOP_LOG_LEVEL_ERROR 0x703"

definition VTOP_MSG_ERR_MSGSND :: s32 where
  "VTOP_MSG_ERR_MSGSND = SCP_DEF_ERR VTOP_LOG_LEVEL_ERROR 0x704"

definition VTOP_MSG_ERR_MSGSIZE :: s32 where
  "VTOP_MSG_ERR_MSGSIZE = SCP_DEF_ERR VTOP_LOG_LEVEL_ERROR 0x705"

lemmas err_defs =
  VTOP_MSG_ERR_GENERAL_def VTOP_MSG_ERR_NOMEM_def VTOP_MSG_ERR_NULLPTR_def
  VTOP_MSG_ERR_INVALIDPARA_def VTOP_MSG_ERR_VERSION_def VTOP_MSG_ERR_NOSHMMEM_def
  VTOP_MSG_ERR_SHMATTCH_def VTOP_MSG_ERR_DSNOTEXIST_def VTOP_MSG_ERR_PROCNOTEXIST_def
  VTOP_MSG_ERR_TASKEXIST_def VTOP_MSG_ERR_TASKNOTEXIST_def VTOP_MSG_ERR_TASKFULL_def
  VTOP_MSG_ERR_SUBEXIST_def VTOP_MSG_ERR_SUBNOTEXIST_def VTOP_MSG_ERR_SUBFULL_def
  VTOP_MSG_ERR_SUBMEMBERFULL_def VTOP_MSG_ERR_TIMEOUT_def VTOP_MSG_ERR_RESPTIMEOUT_def
  VTOP_MSG_ERR_MSGRCV_def VTOP_MSG_ERR_MSGSND_def VTOP_MSG_ERR_MSGSIZE_def
  VTOP_LOG_LEVEL_ERROR_def

section \<open>Identifiers, flags and sizes\<close>

text \<open>\<open>VTOP_TASK_ID\<close> is a C \<open>int\<close> that starts at 0; it is kept as its 32 bits.\<close>

definition VTOP_INVALID_TASK_ID :: u32 where
  "VTOP_INVALID_TASK_ID = - 1"

definition VTOP_MAX_TASK_ID :: u32 where
  "VTOP_MAX_TASK_ID = 0xffff0000"

definition VTOP_INVALID_MSG_TYPE :: u32 where
  "VTOP_INVALID_MSG_TYPE = 0xFFFFFFFF"

definition VTOP_MSG_MAX_MSG_SIZE :: u32 where
  "VTOP_MSG_MAX_MSG_SIZE = 4096"

definition VTOP_MSG_MAX_TASK_NAME_LEN :: nat where
  "VTOP_MSG_MAX_TASK_NAME_LEN = 16"

definition VTOP_MSG_PRIO_HIGH :: u32 where
  "VTOP_MSG_PRIO_HIGH = 2"

definition VTOP_MSG_PRIO_DEFAULT :: u32 where
  "VTOP_MSG_PRIO_DEFAULT = 1"

definition VTOP_MSG_PRIO_SYN :: u32 where
  "VTOP_MSG_PRIO_SYN = 3"

definition VTOP_MSG_PRIO_RSP :: u32 where
  "VTOP_MSG_PRIO_RSP = 4"

definition VTOP_MSG_FLG_SYNC :: u32 where
  "VTOP_MSG_FLG_SYNC = 0x00000001"

definition VTOP_MSG_FLG_ASYNC :: u32 where
  "VTOP_MSG_FLG_ASYNC = 0x00000002"

definition VTOP_MSG_FLG_RESP :: u32 where
  "VTOP_MSG_FLG_RESP = 0x00000010"

definition VTOP_MSG_FLG_P2P :: u32 where
  "VTOP_MSG_FLG_P2P = 0x00000100"

definition VTOP_MSG_FLG_SP :: u32 where
  "VTOP_MSG_FLG_SP = 0x00000200"

definition VTOP_MSG_FLG_DSC_SND :: u32 where
  "VTOP_MSG_FLG_DSC_SND = 0x00002000"

definition VTOP_MSG_isSyncMsg :: "u32 \<Rightarrow> bool" where
  "VTOP_MSG_isSyncMsg flag \<longleftrightarrow> flag AND VTOP_MSG_FLG_SYNC \<noteq> 0"

definition VTOP_MSG_isASyncMsg :: "u32 \<Rightarrow> bool" where
  "VTOP_MSG_isASyncMsg flag \<longleftrightarrow> flag AND VTOP_MSG_FLG_ASYNC \<noteq> 0"

definition VTOP_MSG_isSPMsg :: "u32 \<Rightarrow> bool" where
  "VTOP_MSG_isSPMsg flag \<longleftrightarrow> flag AND VTOP_MSG_FLG_SP \<noteq> 0"

lemmas flag_defs =
  VTOP_MSG_FLG_SYNC_def VTOP_MSG_FLG_ASYNC_def VTOP_MSG_FLG_RESP_def VTOP_MSG_FLG_P2P_def
  VTOP_MSG_FLG_SP_def VTOP_MSG_FLG_DSC_SND_def VTOP_MSG_isSyncMsg_def VTOP_MSG_isASyncMsg_def
  VTOP_MSG_isSPMsg_def

section \<open>Messages\<close>

text \<open>\<open>pMsgBody\<close> is \<open>None\<close> for \<open>NULL\<close> and otherwise the bytes the pointer leads to.\<close>

record VTOP_MSG_S_Block =
  sndTaskId :: u32
  rcvTaskId :: u32
  msgType :: u32
  msgID :: u32
  ulPrio :: u32
  ulFlag :: u32
  ulMsgLen :: u32
  pMsgBody :: "u8 list option"

record VTOP_MSG_S_InnerBlock =
  msg :: VTOP_MSG_S_Block
  resp2id :: u32
  magic :: u32
  privData :: s32

text \<open>\<open>sizeof(VTOP_MSG_S_InnerBlock)\<close>: eight words of the user block and three more.\<close>

definition MSG_INNER_HEAD_LEN :: u32 where
  "MSG_INNER_HEAD_LEN = 44"

text \<open>
  \<open>MSG_COPY2BUF\<close>: the inner block is copied; a body of positive length is copied behind it and
  the copy's \<open>pMsgBody\<close> is redirected to these bytes.
\<close>

definition MSG_COPY2BUF :: "VTOP_MSG_S_InnerBlock \<Rightarrow> VTOP_MSG_S_InnerBlock" where
  "MSG_COPY2BUF m =
     (if ulMsgLen (msg m) > 0
      then m\<lparr>msg := (msg m)\<lparr>pMsgBody :=
               map_option (take (unat (ulMsgLen (msg m)))) (pMsgBody (msg m))\<rparr>\<rparr>
      else m)"

text \<open>The body test that \<open>MSG_QueuePut\<close> and \<open>CHECK_MSG_BODY\<close> share.\<close>

definition body_mismatch :: "VTOP_MSG_S_Block \<Rightarrow> bool" where
  "body_mismatch b \<longleftrightarrow>
     (pMsgBody b = None \<and> ulMsgLen b \<noteq> 0) \<or> (pMsgBody b \<noteq> None \<and> ulMsgLen b = 0)"

section \<open>Facts\<close>

lemma scp_def_err_bit31: "bit ((0xA2010000 OR push_bit 13 (level AND 0x7) OR (errid AND 0x1FFF)) :: u32) 31"
  by (simp add: bit_or_iff)

lemma scp_def_err_negative [simp]: "SCP_DEF_ERR level errid < 0"
  unfolding SCP_DEF_ERR_def using scp_def_err_bit31 [of level errid]
  by (simp only: bit_last_iff [symmetric, where ?'a = 32, simplified])

lemma err_codes_negative [simp]:
  "VTOP_MSG_ERR_GENERAL < 0" "VTOP_MSG_ERR_NOMEM < 0" "VTOP_MSG_ERR_NULLPTR < 0"
  "VTOP_MSG_ERR_INVALIDPARA < 0" "VTOP_MSG_ERR_VERSION < 0" "VTOP_MSG_ERR_NOSHMMEM < 0"
  "VTOP_MSG_ERR_SHMATTCH < 0" "VTOP_MSG_ERR_DSNOTEXIST < 0" "VTOP_MSG_ERR_PROCNOTEXIST < 0"
  "VTOP_MSG_ERR_TASKEXIST < 0" "VTOP_MSG_ERR_TASKNOTEXIST < 0" "VTOP_MSG_ERR_TASKFULL < 0"
  "VTOP_MSG_ERR_SUBEXIST < 0" "VTOP_MSG_ERR_SUBNOTEXIST < 0" "VTOP_MSG_ERR_SUBFULL < 0"
  "VTOP_MSG_ERR_SUBMEMBERFULL < 0" "VTOP_MSG_ERR_TIMEOUT < 0" "VTOP_MSG_ERR_RESPTIMEOUT < 0"
  "VTOP_MSG_ERR_MSGRCV < 0" "VTOP_MSG_ERR_MSGSND < 0" "VTOP_MSG_ERR_MSGSIZE < 0"
  unfolding err_defs by (rule scp_def_err_negative)+

lemmas err_codes_nonzero [simp] = err_codes_negative [THEN less_imp_neq]

lemma copy2buf_keeps [simp]:
  "msgType (msg (MSG_COPY2BUF m)) = msgType (msg m)"
  "rcvTaskId (msg (MSG_COPY2BUF m)) = rcvTaskId (msg m)"
  "sndTaskId (msg (MSG_COPY2BUF m)) = sndTaskId (msg m)"
  "ulFlag (msg (MSG_COPY2BUF m)) = ulFlag (msg m)"
  "ulMsgLen (msg (MSG_COPY2BUF m)) = ulMsgLen (msg m)"
  "msgID (msg (MSG_COPY2BUF m)) = msgID (msg m)"
  "privData (MSG_COPY2BUF m) = privData m"
  by (simp_all add: MSG_COPY2BUF_def)

lemma copy2buf_idem [simp]: "MSG_COPY2BUF (MSG_COPY2BUF m) = MSG_COPY2BUF m"
  by (simp add: MSG_COPY2BUF_def option.map_comp comp_def)

end
