(* ===== verification/Msg_Buffer.thy ===== *)
theory Msg_Buffer
  imports Msg_Types
begin

text \<open>
  The block allocator of \<open>common/msg_buffer.c\<close>: one malloc'ed memory cut into up to four levels of
  equal blocks, each block with a head (\<open>MB_HEAD_S\<close>) that says whether it is in use and to which
  level and position it belongs. Sizes and addresses are 32-bit words that wrap as \<open>size_t\<close> and
  pointers of the target do. \<open>heads\<close> is the memory of the block heads, by address.
\<close>

section \<open>Data\<close>

definition VTOP_MSG_BL_BUTT :: nat where
  "VTOP_MSG_BL_BUTT = 4"

definition MSG_MAX_BLK_NUM :: u32 where
  "MSG_MAX_BLK_NUM = 16 * 1024"

definition MSG_MAX_BLK_SIZE :: u32 where
  "MSG_MAX_BLK_SIZE = 256 * 1024"

text \<open>The head of a block: three words, then \<open>QNODE_S node\<close> (a pointer and two list links).\<close>

record MB_HEAD_S =
  flag :: s32
  buffer_id :: u32
  block_id :: u32
  priv_data :: u32

definition MB_HEAD_LEN :: u32 where
  "MB_HEAD_LEN = 24"

definition QNODE_OFFSET :: u32 where
  "QNODE_OFFSET = 12"

definition MB_NAME_SIZE :: nat where
  "MB_NAME_SIZE = 16"

record VTOP_MSG_S_Buffer =
  blockNum :: "u32 list"
  blockSize :: "u32 list"
  bufName :: string

record MSG_BUFFER_S =
  pMsg :: "u32 list option"
  blocksize :: u32
  blocknum :: u32
  buffersize :: u32
  used :: u32

record MB_CONTEXT_S =
  mb :: "MSG_BUFFER_S list"
  total_size :: u32
  total_num :: u32
  mb_num :: u32
  s_pMsgBuf :: u32
  mbName :: string
  heads :: "u32 \<Rightarrow> MB_HEAD_S"

text \<open>
  What the \<open>malloc\<close> calls of \<open>MB_Init\<close> return: whether the context was allocated, the address of
  the block memory, and whether the pointer array of level \<open>i\<close> was allocated.
\<close>

record MB_MALLOC =
  ctx_ok :: bool
  buf_at :: "u32 option"
  pmsg_ok :: "nat \<Rightarrow> bool"

definition zero_head :: MB_HEAD_S where
  "zero_head = \<lparr>flag = 0, buffer_id = 0, block_id = 0, priv_data = 0\<rparr>"

definition zero_level :: MSG_BUFFER_S where
  "zero_level = \<lparr>pMsg = None, blocksize = 0, blocknum = 0, buffersize = 0, used = 0\<rparr>"

section \<open>Initialisation\<close>

definition MB_BLOCK_SIZE :: "VTOP_MSG_S_Buffer \<Rightarrow> nat \<Rightarrow> u32" where
  "MB_BLOCK_SIZE b i = MB_HEAD_LEN + blockSize b ! i"

text \<open>The parameter checks of \<open>MB_Init\<close>: an error, or the number of levels \<open>bufLevel\<close>.\<close>

definition mb_check :: "VTOP_MSG_S_Buffer \<Rightarrow> s32 + nat" where
  "mb_check b =
     (if list_ex (\<lambda>n. n > MSG_MAX_BLK_NUM) (blockNum b) then Inl VTOP_MSG_ERR_INVALIDPARA
      else if list_all (\<lambda>n. n = 0) (blockNum b) then Inl VTOP_MSG_ERR_INVALIDPARA
      else if list_ex (\<lambda>s. s > MSG_MAX_BLK_SIZE) (blockSize b) then Inl VTOP_MSG_ERR_INVALIDPARA
      else let bufLevel = length (filter (\<lambda>s. s > 0) (blockSize b)) in
        if bufLevel = 0 then Inl VTOP_MSG_ERR_INVALIDPARA
        else if list_ex (\<lambda>s. s = 0) (take bufLevel (blockSize b)) then Inl VTOP_MSG_ERR_INVALIDPARA
        else if list_ex (\<lambda>i. blockSize b ! (i - 1) \<ge> blockSize b ! i) [1..<bufLevel]
        then Inl VTOP_MSG_ERR_INVALIDPARA
        else Inr bufLevel)"

definition each_mb_size :: "VTOP_MSG_S_Buffer \<Rightarrow> nat \<Rightarrow> u32" where
  "each_mb_size b i = blockNum b ! i * MB_BLOCK_SIZE b i"

primrec buffer_size :: "VTOP_MSG_S_Buffer \<Rightarrow> nat \<Rightarrow> u32" where
  "buffer_size b 0 = 0"
| "buffer_size b (Suc i) = buffer_size b i + each_mb_size b i"

primrec pMbHead :: "u32 \<Rightarrow> VTOP_MSG_S_Buffer \<Rightarrow> nat \<Rightarrow> u32" where
  "pMbHead base b 0 = base"
| "pMbHead base b (Suc i) = pMbHead base b i + each_mb_size b i"

text \<open>The pointers \<open>pMsg[j] = pMbHead[i] + j * blocksize\<close> of one level.\<close>

definition level_ptrs :: "u32 \<Rightarrow> VTOP_MSG_S_Buffer \<Rightarrow> nat \<Rightarrow> u32 list" where
  "level_ptrs base b i =
     map (\<lambda>j. pMbHead base b i + of_nat j * MB_BLOCK_SIZE b i) [0..<unat (blockNum b ! i)]"

fun init_heads :: "nat \<Rightarrow> nat \<Rightarrow> u32 list \<Rightarrow> (u32 \<Rightarrow> MB_HEAD_S) \<Rightarrow> (u32 \<Rightarrow> MB_HEAD_S)" where
  "init_heads i j [] h = h"
| "init_heads i j (a # as) h =
     init_heads i (Suc j) as (h(a := (h a)\<lparr>buffer_id := of_nat i, block_id := of_nat j\<rparr>))"

definition mb_init_level ::
  "MB_MALLOC \<Rightarrow> u32 \<Rightarrow> VTOP_MSG_S_Buffer \<Rightarrow> nat \<Rightarrow> MB_CONTEXT_S \<Rightarrow> MB_CONTEXT_S option" where
  "mb_init_level m base b i ctx =
     (let bs = MB_BLOCK_SIZE b i; bn = blockNum b ! i;
          lvl = \<lparr>pMsg = None, blocksize = bs, blocknum = bn, buffersize = bs * bn, used = 0\<rparr>;
          totals = ctx\<lparr>total_num := total_num ctx + bn, total_size := total_size ctx + bn * bs\<rparr>
      in if bs * bn > 0
         then if \<not> pmsg_ok m i then None
              else let ps = level_ptrs base b i in
                Some (totals\<lparr>mb := (mb ctx)[i := lvl\<lparr>pMsg := Some ps\<rparr>],
                             heads := init_heads i 0 ps (heads ctx)\<rparr>)
         else Some (totals\<lparr>mb := (mb ctx)[i := lvl]\<rparr>))"

fun mb_init_levels ::
  "MB_MALLOC \<Rightarrow> u32 \<Rightarrow> VTOP_MSG_S_Buffer \<Rightarrow> nat list \<Rightarrow> MB_CONTEXT_S \<Rightarrow> MB_CONTEXT_S option" where
  "mb_init_levels m base b [] ctx = Some ctx"
| "mb_init_levels m base b (i # is) ctx =
     Option.bind (mb_init_level m base b i ctx) (mb_init_levels m base b is)"

definition mb_ctx0 :: "u32 \<Rightarrow> VTOP_MSG_S_Buffer \<Rightarrow> nat \<Rightarrow> MB_CONTEXT_S" where
  "mb_ctx0 base b n =
     \<lparr>mb = replicate VTOP_MSG_BL_BUTT zero_level, total_size = 0, total_num = 0,
      mb_num = of_nat n, s_pMsgBuf = base, mbName = strcut MB_NAME_SIZE (bufName b),
      heads = (\<lambda>_. zero_head)\<rparr>"

text \<open>
  \<open>MB_Init\<close>. \<open>hp\<close> says that the out pointer \<open>pHandle\<close> is not \<open>NULL\<close>; a failed pointer array is
  followed by \<open>MB_Deinit\<close>, which releases the context and the block memory. The two \<open>ASSERT\<close>s end
  the process (\<open>None\<close>).
\<close>

definition MB_Init ::
  "MB_MALLOC \<Rightarrow> bool \<Rightarrow> VTOP_MSG_S_Buffer option \<Rightarrow> (s32 + MB_CONTEXT_S) run" where
  "MB_Init m hp pBuffer =
     (if \<not> hp then Some (Inl VTOP_MSG_ERR_INVALIDPARA)
      else case pBuffer of None \<Rightarrow> Some (Inl VTOP_MSG_ERR_INVALIDPARA)
      | Some b \<Rightarrow>
       (case mb_check b of Inl e \<Rightarrow> Some (Inl e)
        | Inr n \<Rightarrow>
         if \<not> ctx_ok m then Some (Inl VTOP_MSG_ERR_NOMEM)
         else (case buf_at m of None \<Rightarrow> Some (Inl VTOP_MSG_ERR_NOMEM)
         | Some base \<Rightarrow>
           if pMbHead base b (n - 1) + each_mb_size b (n - 1) \<noteq> base + buffer_size b n then None
           else (case mb_init_levels m base b [0..<n] (mb_ctx0 base b n) of
               None \<Rightarrow> Some (Inl VTOP_MSG_ERR_NOMEM)
             | Some ctx \<Rightarrow>
                 if buffer_size b n \<noteq> total_size ctx then None else Some (Inr ctx)))))"

section \<open>Allocation and release\<close>

definition lvl_blocks :: "MSG_BUFFER_S \<Rightarrow> u32 list" where
  "lvl_blocks l = (case pMsg l of None \<Rightarrow> [] | Some ps \<Rightarrow> take (unat (blocknum l)) ps)"

definition level_for :: "MB_CONTEXT_S \<Rightarrow> u32 \<Rightarrow> nat option" where
  "level_for ctx sz =
     scan (\<lambda>l. buffersize l > 0 \<and> sz + MB_HEAD_LEN \<le> blocksize l)
       (take (unat (mb_num ctx)) (mb ctx))"

text \<open>\<open>MB_Alloc\<close>: the first level whose blocks are large enough, then its first unused block.\<close>

definition MB_Alloc :: "MB_CONTEXT_S \<Rightarrow> u32 \<Rightarrow> u32 option \<times> MB_CONTEXT_S" where
  "MB_Alloc ctx sz =
     (case level_for ctx sz of None \<Rightarrow> (None, ctx)
      | Some i \<Rightarrow>
        let l = mb ctx ! i in
        (case scan (\<lambda>a. flag (heads ctx a) = 0) (lvl_blocks l) of None \<Rightarrow> (None, ctx)
         | Some j \<Rightarrow>
           let a = lvl_blocks l ! j in
           (Some (a + MB_HEAD_LEN),
            ctx\<lparr>heads := (heads ctx)(a := (heads ctx a)\<lparr>flag := 1\<rparr>),
                mb := (mb ctx)[i := l\<lparr>used := used l + 1\<rparr>]\<rparr>)))"

definition MB_GetQNode :: "u32 \<Rightarrow> u32" where
  "MB_GetQNode pMbBody = pMbBody - MB_HEAD_LEN + QNODE_OFFSET"

definition MB_Free :: "MB_CONTEXT_S \<Rightarrow> u32 option \<Rightarrow> MB_CONTEXT_S run" where
  "MB_Free ctx p =
     (case p of None \<Rightarrow> None
      | Some p' \<Rightarrow>
        let a = p' - MB_HEAD_LEN; h = heads ctx a; k = unat (buffer_id h) in
        if flag h \<noteq> 1 then None
        else Some (ctx\<lparr>heads := (heads ctx)(a := h\<lparr>flag := 0\<rparr>),
                       mb := (mb ctx)[k := (mb ctx ! k)\<lparr>used := used (mb ctx ! k) - 1\<rparr>]\<rparr>))"

definition MB_GetTotalUsed :: "MB_CONTEXT_S \<Rightarrow> u32" where
  "MB_GetTotalUsed ctx =
     sum_list (map (\<lambda>i. if buffersize (mb ctx ! i) > 0 then used (mb ctx ! i) else 0)
       [0..<VTOP_MSG_BL_BUTT])"

definition MB_GetTotalSize :: "MB_CONTEXT_S \<Rightarrow> u32" where
  "MB_GetTotalSize ctx = total_size ctx"

definition MB_GetTotalNum :: "MB_CONTEXT_S \<Rightarrow> u32" where
  "MB_GetTotalNum ctx = total_num ctx"

text \<open>\<open>MB_GetUsed\<close> counts the blocks in use by walking over the heads.\<close>

definition MB_GetUsed :: "MB_CONTEXT_S \<Rightarrow> u32 \<Rightarrow> u32" where
  "MB_GetUsed ctx buffer_id' =
     of_nat (length (filter (\<lambda>a. flag (heads ctx a) = 1) (lvl_blocks (mb ctx ! unat buffer_id'))))"

text \<open>\<open>MB_Deinit\<close>: the calls of \<open>free\<close> in their order, by the object that is released.\<close>

datatype mb_object = PtrArray nat | BlockMemory u32 | Context

definition MB_Deinit :: "MB_CONTEXT_S option \<Rightarrow> mb_object list" where
  "MB_Deinit handle =
     (case handle of None \<Rightarrow> []
      | Some ctx \<Rightarrow>
          map PtrArray (filter (\<lambda>i. pMsg (mb ctx ! i) \<noteq> None) [0..<unat (mb_num ctx)]) @
          [BlockMemory (s_pMsgBuf ctx), Context])"

section \<open>Invariant\<close>

definition level_ok :: "(u32 \<Rightarrow> MB_HEAD_S) \<Rightarrow> nat \<Rightarrow> MSG_BUFFER_S \<Rightarrow> bool" where
  "level_ok h i l \<longleftrightarrow>
     length (lvl_blocks l) = unat (blocknum l) \<and>
     (buffersize l > 0 \<longleftrightarrow> blocknum l > 0) \<and>
     (\<forall>j < length (lvl_blocks l).
        (flag (h (lvl_blocks l ! j)) = 0 \<or> flag (h (lvl_blocks l ! j)) = 1) \<and>
        buffer_id (h (lvl_blocks l ! j)) = of_nat i \<and>
        block_id (h (lvl_blocks l ! j)) = of_nat j) \<and>
     used l = of_nat (length (filter (\<lambda>a. flag (h a) = 1) (lvl_blocks l)))"

definition mb_ok :: "MB_CONTEXT_S \<Rightarrow> bool" where
  "mb_ok ctx \<longleftrightarrow>
     length (mb ctx) = VTOP_MSG_BL_BUTT \<and> unat (mb_num ctx) \<le> VTOP_MSG_BL_BUTT \<and>
     (\<forall>i < VTOP_MSG_BL_BUTT. level_ok (heads ctx) i (mb ctx ! i))"

text \<open>The block of a body pointer is one of the context's and is in use.\<close>

definition mb_block :: "MB_CONTEXT_S \<Rightarrow> u32 \<Rightarrow> bool" where
  "mb_block ctx a \<longleftrightarrow> (\<exists>i < VTOP_MSG_BL_BUTT. a \<in> set (lvl_blocks (mb ctx ! i)))"

definition mb_live :: "MB_CONTEXT_S \<Rightarrow> u32 \<Rightarrow> bool" where
  "mb_live ctx p \<longleftrightarrow>
     mb_block ctx (p - MB_HEAD_LEN) \<and> flag (heads ctx (p - MB_HEAD_LEN)) = 1"

section \<open>Levels and blocks\<close>

lemma bl_butt [simp]: "VTOP_MSG_BL_BUTT = 4"
  by (simp add: VTOP_MSG_BL_BUTT_def)

lemma lvl_blocks_used [simp]: "lvl_blocks (l\<lparr>used := u\<rparr>) = lvl_blocks l"
  by (simp add: lvl_blocks_def split: option.split)

lemma mb_ok_level: "mb_ok ctx \<Longrightarrow> i < 4 \<Longrightarrow> level_ok (heads ctx) i (mb ctx ! i)"
  by (simp add: mb_ok_def)

lemma mb_ok_length [simp]: "mb_ok ctx \<Longrightarrow> length (mb ctx) = 4"
  by (simp add: mb_ok_def)

lemma level_okD:
  assumes "level_ok h i l" and "a \<in> set (lvl_blocks l)"
  shows "flag (h a) = 0 \<or> flag (h a) = 1" and "buffer_id (h a) = of_nat i"
  using assms by (auto simp: level_ok_def in_set_conv_nth)

text \<open>The head of a block names its level and its position, so no block occurs twice.\<close>

lemma level_distinct:
  assumes "level_ok h i l"
  shows "distinct (lvl_blocks l)"
proof (rule ccontr)
  assume "\<not> distinct (lvl_blocks l)"
  then obtain j k where jk: "j < length (lvl_blocks l)" "k < length (lvl_blocks l)" "j \<noteq> k"
    and eq: "lvl_blocks l ! j = lvl_blocks l ! k"
    by (auto simp: distinct_conv_nth)
  have len: "length (lvl_blocks l) < 2 ^ 32"
    using assms unsigned_less [of "blocknum l"] by (simp add: level_ok_def)
  have "(of_nat j :: u32) = of_nat k"
    using assms jk eq by (metis level_ok_def)
  then have "j = k" using jk len by (intro of_nat_inj_u32) auto
  with jk show False by simp
qed

lemma level_unique:
  assumes ok: "mb_ok ctx" and "i < 4" "k < 4"
    and "a \<in> set (lvl_blocks (mb ctx ! i))" "a \<in> set (lvl_blocks (mb ctx ! k))"
  shows "i = k"
proof -
  have "(of_nat i :: u32) = of_nat k"
    using assms level_okD(2) mb_ok_level by metis
  then show ?thesis using assms(2,3) by (intro of_nat_inj_u32) auto
qed

lemma block_level:
  assumes ok: "mb_ok ctx" and "i < 4" and "a \<in> set (lvl_blocks (mb ctx ! i))"
  shows "unat (buffer_id (heads ctx a)) = i"
  using level_okD(2) [OF mb_ok_level [OF ok assms(2)] assms(3)] assms(2)
  by (simp add: unat_of_nat_u32)

text \<open>Setting or clearing one flag and moving the counter keeps a level consistent.\<close>

lemma filter_flag_upd:
  assumes "distinct as" and "a \<in> set as"
  shows "length (filter (\<lambda>x. flag ((h(a := y)) x) = 1) as) + (if flag (h a) = 1 then 1 else 0)
       = length (filter (\<lambda>x. flag (h x) = 1) as) + (if flag y = 1 then 1 else 0)"
  using assms
proof (induction as)
  case (Cons x xs)
  show ?case
  proof (cases "x = a")
    case True
    with Cons.prems have "a \<notin> set xs" by simp
    then have "filter (\<lambda>x. flag ((h(a := y)) x) = 1) xs = filter (\<lambda>x. flag (h x) = 1) xs"
      by (intro filter_cong) auto
    with True show ?thesis by simp
  next
    case False
    with Cons show ?thesis by auto
  qed
qed simp

lemma level_ok_other:
  assumes "level_ok h i l" and "a \<notin> set (lvl_blocks l)"
  shows "level_ok (h(a := y)) i l"
proof -
  have "\<And>j. j < length (lvl_blocks l) \<Longrightarrow> lvl_blocks l ! j \<noteq> a"
    using assms(2) nth_mem by blast
  moreover have "filter (\<lambda>x. flag ((h(a := y)) x) = 1) (lvl_blocks l) = filter (\<lambda>x. flag (h x) = 1) (lvl_blocks l)"
    using assms(2) by (intro filter_cong) auto
  ultimately show ?thesis using assms(1) by (simp add: level_ok_def)
qed

lemma used_arith:
  fixes u v :: u32 and x f :: s32
  assumes "c' + (if x = 1 then 1 else 0) = c + (if f = 1 then (1::nat) else 0)"
    and "x = 0 \<or> x = 1" and "f = 0 \<or> f = 1" and "v = of_nat c" and "u = v + of_int f - of_int x"
  shows "u = of_nat c'"
  using assms by (elim disjE) auto

lemma level_ok_flag:
  assumes ok: "level_ok h i l" and a: "a \<in> set (lvl_blocks l)" and f: "f = 0 \<or> f = 1"
    and u: "u = used l + of_int f - of_int (flag (h a))"
  shows "level_ok (h(a := (h a)\<lparr>flag := f\<rparr>)) i (l\<lparr>used := u\<rparr>)"
proof -
  let ?h = "h(a := (h a)\<lparr>flag := f\<rparr>)"
  let ?c = "\<lambda>h. length (filter (\<lambda>x. flag (h x) = 1) (lvl_blocks l))"
  have fa: "flag (h a) = 0 \<or> flag (h a) = 1" using level_okD(1) [OF ok a] .
  have cnt: "?c ?h + (if flag (h a) = 1 then 1 else 0) = ?c h + (if f = 1 then 1 else 0)"
    using filter_flag_upd [OF level_distinct [OF ok] a, of h "(h a)\<lparr>flag := f\<rparr>"] by simp
  have uh: "used l = of_nat (?c h)" using ok by (simp add: level_ok_def)
  have "u = of_nat (?c ?h)" by (rule used_arith [OF cnt fa f uh u])
  then show ?thesis using ok f fa by (auto simp: level_ok_def)
qed

lemma mb_ok_flag:
  assumes ok: "mb_ok ctx" and i: "i < 4" and a: "a \<in> set (lvl_blocks (mb ctx ! i))"
    and f: "f = 0 \<or> f = 1"
    and u: "u = used (mb ctx ! i) + of_int f - of_int (flag (heads ctx a))"
  shows "mb_ok (ctx\<lparr>heads := (heads ctx)(a := (heads ctx a)\<lparr>flag := f\<rparr>),
                     mb := (mb ctx)[i := (mb ctx ! i)\<lparr>used := u\<rparr>]\<rparr>)"
proof -
  have "level_ok ((heads ctx)(a := (heads ctx a)\<lparr>flag := f\<rparr>)) k
          ((mb ctx)[i := (mb ctx ! i)\<lparr>used := u\<rparr>] ! k)" if k: "k < 4" for k
  proof (cases "k = i")
    case True
    with level_ok_flag [OF mb_ok_level [OF ok i] a f u] ok i show ?thesis by simp
  next
    case False
    then have "a \<notin> set (lvl_blocks (mb ctx ! k))"
      using level_unique [OF ok i k a] by auto
    with False level_ok_other [OF mb_ok_level [OF ok k]] show ?thesis by simp
  qed
  with ok show ?thesis by (simp add: mb_ok_def)
qed

section \<open>Allocation and release\<close>

lemma level_forD:
  assumes "mb_ok ctx" and "level_for ctx sz = Some i"
  shows "i < 4" and "i < unat (mb_num ctx)" and "buffersize (mb ctx ! i) > 0"
    and "sz + MB_HEAD_LEN \<le> blocksize (mb ctx ! i)"
    and "k < i \<Longrightarrow> \<not> (buffersize (mb ctx ! k) > 0 \<and> sz + MB_HEAD_LEN \<le> blocksize (mb ctx ! k))"
  using assms scan_SomeD [OF assms(2) [unfolded level_for_def]]
  by (auto simp: mb_ok_def word_neq_0_conv not_le)

text \<open>What a successful \<open>MB_Alloc\<close> did.\<close>

lemma MB_Alloc_Some:
  assumes ok: "mb_ok ctx" and "MB_Alloc ctx sz = (Some p, ctx')"
  obtains i a where "level_for ctx sz = Some i" and "i < 4"
    and "a \<in> set (lvl_blocks (mb ctx ! i))" and "flag (heads ctx a) = 0" and "p = a + MB_HEAD_LEN"
    and "ctx' = ctx\<lparr>heads := (heads ctx)(a := (heads ctx a)\<lparr>flag := 1\<rparr>),
                    mb := (mb ctx)[i := (mb ctx ! i)\<lparr>used := used (mb ctx ! i) + 1\<rparr>]\<rparr>"
proof -
  from assms(2) obtain i j where i: "level_for ctx sz = Some i"
    and j: "scan (\<lambda>a. flag (heads ctx a) = 0) (lvl_blocks (mb ctx ! i)) = Some j"
    and p: "p = lvl_blocks (mb ctx ! i) ! j + MB_HEAD_LEN"
    and c: "ctx' = ctx\<lparr>heads := (heads ctx)(lvl_blocks (mb ctx ! i) ! j :=
                  (heads ctx (lvl_blocks (mb ctx ! i) ! j))\<lparr>flag := 1\<rparr>),
              mb := (mb ctx)[i := (mb ctx ! i)\<lparr>used := used (mb ctx ! i) + 1\<rparr>]\<rparr>"
    by (auto simp: MB_Alloc_def Let_def split: option.splits)
  show thesis
    using i p c scan_SomeD(1,2) [OF j] level_forD(1) [OF ok i] by (intro that) auto
qed

lemma MB_Alloc_None [simp]: "MB_Alloc ctx sz = (None, ctx') \<Longrightarrow> ctx' = ctx"
  by (auto simp: MB_Alloc_def Let_def split: option.splits)

lemma blocks_of_upd [simp]:
  "i < length ls \<Longrightarrow> lvl_blocks (ls[i := (ls ! i)\<lparr>used := u\<rparr>] ! k) = lvl_blocks (ls ! k)"
  by (cases "k = i") auto

lemma mb_block_upd [simp]:
  "i < length (mb ctx) \<Longrightarrow>
   mb_block (ctx\<lparr>heads := h, mb := (mb ctx)[i := (mb ctx ! i)\<lparr>used := u\<rparr>]\<rparr>) a = mb_block ctx a"
  by (simp add: mb_block_def)

lemma MB_Alloc_ok [inv_intros]:
  assumes ok: "mb_ok ctx" and al: "MB_Alloc ctx sz = (r, ctx')"
  shows "mb_ok ctx'"
proof (cases r)
  case None
  with assms show ?thesis by (auto dest: MB_Alloc_None)
next
  case (Some p)
  from MB_Alloc_Some [OF ok al [unfolded Some]] show ?thesis
    by (metis add_0_right mb_ok_flag [OF ok] of_int_0 of_int_1 diff_zero)
qed

lemma MB_Free_Some:
  assumes ok: "mb_ok ctx" and live: "mb_live ctx p"
  obtains i where "i < 4" and "p - MB_HEAD_LEN \<in> set (lvl_blocks (mb ctx ! i))"
    and "MB_Free ctx (Some p) = Some (ctx\<lparr>
           heads := (heads ctx)(p - MB_HEAD_LEN := (heads ctx (p - MB_HEAD_LEN))\<lparr>flag := 0\<rparr>),
           mb := (mb ctx)[i := (mb ctx ! i)\<lparr>used := used (mb ctx ! i) - 1\<rparr>]\<rparr>)"
proof -
  from live obtain i where "i < 4" and a: "p - MB_HEAD_LEN \<in> set (lvl_blocks (mb ctx ! i))"
    and f: "flag (heads ctx (p - MB_HEAD_LEN)) = 1"
    by (auto simp: mb_live_def mb_block_def)
  moreover have "unat (buffer_id (heads ctx (p - MB_HEAD_LEN))) = i"
    by (rule block_level [OF ok]) fact+
  ultimately show thesis by (intro that) (simp_all add: MB_Free_def Let_def)
qed

lemma MB_Free_ok [inv_intros]:
  assumes ok: "mb_ok ctx" and live: "mb_live ctx p" and "MB_Free ctx (Some p) = Some ctx'"
  shows "mb_ok ctx'"
proof -
  have f: "flag (heads ctx (p - MB_HEAD_LEN)) = 1" using live by (simp add: mb_live_def)
  from MB_Free_Some [OF ok live] assms(3) obtain i where "i < 4"
    and "p - MB_HEAD_LEN \<in> set (lvl_blocks (mb ctx ! i))"
    and "ctx' = ctx\<lparr>
           heads := (heads ctx)(p - MB_HEAD_LEN := (heads ctx (p - MB_HEAD_LEN))\<lparr>flag := 0\<rparr>),
           mb := (mb ctx)[i := (mb ctx ! i)\<lparr>used := used (mb ctx ! i) - 1\<rparr>]\<rparr>"
    by (metis option.sel)
  then show ?thesis
    using mb_ok_flag [OF ok, of i "p - MB_HEAD_LEN" 0 "used (mb ctx ! i) - 1"] f by simp
qed

lemma MB_Alloc_live:
  assumes "mb_ok ctx" and "MB_Alloc ctx sz = (Some p, ctx')"
  shows "mb_live ctx' p" and "\<not> mb_live ctx p"
    and "q \<noteq> p \<Longrightarrow> mb_live ctx' q = mb_live ctx q"
    and "mb_block ctx' a = mb_block ctx a"
    and "priv_data (heads ctx' a) = priv_data (heads ctx a)"
proof -
  from MB_Alloc_Some [OF assms] obtain i b where i: "i < 4"
    and b: "b \<in> set (lvl_blocks (mb ctx ! i))" "flag (heads ctx b) = 0" and p: "p = b + MB_HEAD_LEN"
    and c: "ctx' = ctx\<lparr>heads := (heads ctx)(b := (heads ctx b)\<lparr>flag := 1\<rparr>),
                    mb := (mb ctx)[i := (mb ctx ! i)\<lparr>used := used (mb ctx ! i) + 1\<rparr>]\<rparr>" .
  have blk: "mb_block ctx' x = mb_block ctx x" for x using i assms(1) by (simp add: c)
  have "mb_block ctx b" using i b by (auto simp: mb_block_def)
  then show "mb_live ctx' p" using blk by (simp add: mb_live_def c p)
  show "\<not> mb_live ctx p" using b by (simp add: mb_live_def p)
  have "q - MB_HEAD_LEN \<noteq> b" if "q \<noteq> p" using that p by (metis diff_add_cancel)
  then show "q \<noteq> p \<Longrightarrow> mb_live ctx' q = mb_live ctx q" using blk by (simp add: mb_live_def c)
  show "mb_block ctx' a = mb_block ctx a" by (rule blk)
  show "priv_data (heads ctx' a) = priv_data (heads ctx a)" by (simp add: c)
qed

lemma MB_Free_live:
  assumes ok: "mb_ok ctx" and live: "mb_live ctx p" and fr: "MB_Free ctx (Some p) = Some ctx'"
  shows "\<not> mb_live ctx' p"
    and "q \<noteq> p \<Longrightarrow> mb_live ctx' q = mb_live ctx q"
    and "mb_block ctx' a = mb_block ctx a"
    and "priv_data (heads ctx' a) = priv_data (heads ctx a)"
  by (rule MB_Free_Some [OF ok live]; use ok fr in \<open>auto simp: mb_live_def mb_block_def\<close>)+

lemma MB_Free_succeeds: "mb_ok ctx \<Longrightarrow> mb_live ctx p \<Longrightarrow> \<exists>ctx'. MB_Free ctx (Some p) = Some ctx'"
  by (metis MB_Free_Some)

text \<open>A block that was never handed out, or is handed back already, cannot be released.\<close>

lemma MB_Free_not_live: "mb_block ctx (p - MB_HEAD_LEN) \<Longrightarrow> \<not> mb_live ctx p \<Longrightarrow> MB_Free ctx (Some p) = None"
  by (simp add: MB_Free_def mb_live_def Let_def)

lemma MB_Alloc_None_iff:
  assumes "mb_ok ctx"
  shows "MB_Alloc ctx sz = (None, ctx) \<longleftrightarrow>
    (\<forall>i < unat (mb_num ctx). buffersize (mb ctx ! i) = 0 \<or> blocksize (mb ctx ! i) < sz + MB_HEAD_LEN) \<or>
    (\<exists>i. level_for ctx sz = Some i \<and> (\<forall>a \<in> set (lvl_blocks (mb ctx ! i)). mb_live ctx (a + MB_HEAD_LEN)))"
proof -
  have len: "length (take (unat (mb_num ctx)) (mb ctx)) = unat (mb_num ctx)"
    using assms by (simp add: mb_ok_def)
  have none: "level_for ctx sz = None \<longleftrightarrow>
    (\<forall>i < unat (mb_num ctx). buffersize (mb ctx ! i) = 0 \<or> blocksize (mb ctx ! i) < sz + MB_HEAD_LEN)"
    unfolding level_for_def scan_None_iff all_set_conv_all_nth len
    by (auto simp: word_gt_0 not_le)
  have full: "(\<forall>a \<in> set (lvl_blocks (mb ctx ! i)). flag (heads ctx a) \<noteq> 0) \<longleftrightarrow>
    (\<forall>a \<in> set (lvl_blocks (mb ctx ! i)). mb_live ctx (a + MB_HEAD_LEN))"
    if "level_for ctx sz = Some i" for i
  proof (rule ball_cong [OF refl])
    fix a assume a: "a \<in> set (lvl_blocks (mb ctx ! i))"
    have i: "i < 4" by (rule level_forD(1) [OF assms that])
    have "mb_block ctx a" using i a by (auto simp: mb_block_def)
    then show "(flag (heads ctx a) \<noteq> 0) = mb_live ctx (a + MB_HEAD_LEN)"
      using level_okD(1) [OF mb_ok_level [OF assms i] a] by (auto simp: mb_live_def)
  qed
  show ?thesis
  proof (cases "level_for ctx sz")
    case None
    with none show ?thesis by (simp add: MB_Alloc_def)
  next
    case (Some i)
    have "MB_Alloc ctx sz = (None, ctx) \<longleftrightarrow> (\<forall>a \<in> set (lvl_blocks (mb ctx ! i)). flag (heads ctx a) \<noteq> 0)"
    proof (cases "scan (\<lambda>a. flag (heads ctx a) = 0) (lvl_blocks (mb ctx ! i))")
      case None
      then have "\<forall>a \<in> set (lvl_blocks (mb ctx ! i)). flag (heads ctx a) \<noteq> 0"
        by (simp add: scan_None_iff)
      with Some None show ?thesis by (simp add: MB_Alloc_def Let_def)
    next
      case found: (Some j)
      have "\<not> (\<forall>a \<in> set (lvl_blocks (mb ctx ! i)). flag (heads ctx a) \<noteq> 0)"
        using scan_SomeD(1,2) [OF found] nth_mem by blast
      with Some found show ?thesis by (simp add: MB_Alloc_def Let_def)
    qed
    with Some none full [OF Some] show ?thesis by auto
  qed
qed

section \<open>The pool interface\<close>

text \<open>
  What the queues rely on: handing out a block that was free, taking back one that is in use, and
  nothing else changing. \<open>live\<close> is the set of handed-out blocks.
\<close>

locale block_pool =
  fixes ok :: "'c \<Rightarrow> bool"
    and live :: "'c \<Rightarrow> 'p \<Rightarrow> bool"
    and alloc :: "'c \<Rightarrow> 'n \<Rightarrow> 'p option \<times> 'c"
    and release :: "'p \<Rightarrow> 'c \<Rightarrow> 'c run"
  assumes alloc_none: "alloc c n = (None, c') \<Longrightarrow> c' = c"
    and alloc_ok: "ok c \<Longrightarrow> alloc c n = (r, c') \<Longrightarrow> ok c'"
    and alloc_live: "ok c \<Longrightarrow> alloc c n = (Some p, c') \<Longrightarrow> live c' q \<longleftrightarrow> live c q \<or> q = p"
    and alloc_fresh: "ok c \<Longrightarrow> alloc c n = (Some p, c') \<Longrightarrow> \<not> live c p"
    and release_some: "ok c \<Longrightarrow> live c p \<Longrightarrow> \<exists>c'. release p c = Some c'"
    and release_ok: "ok c \<Longrightarrow> live c p \<Longrightarrow> release p c = Some c' \<Longrightarrow> ok c'"
    and release_live: "ok c \<Longrightarrow> live c p \<Longrightarrow> release p c = Some c' \<Longrightarrow> live c' q \<longleftrightarrow> live c q \<and> q \<noteq> p"
begin

lemma release_all:
  assumes "ok c" and "distinct ps" and "\<forall>p \<in> set ps. live c p"
  shows "\<exists>c'. iter release ps c = Some c' \<and> ok c' \<and> (\<forall>q. live c' q \<longleftrightarrow> live c q \<and> q \<notin> set ps)"
  using assms
proof (induction ps arbitrary: c)
  case (Cons p ps)
  then have lp: "live c p" by simp
  then obtain c1 where c1: "release p c = Some c1" using Cons.prems release_some by blast
  have ok1: "ok c1" by (rule release_ok [OF Cons.prems(1) lp c1])
  have l1: "live c1 q \<longleftrightarrow> live c q \<and> q \<noteq> p" for q by (rule release_live [OF Cons.prems(1) lp c1])
  have "\<exists>c'. iter release ps c1 = Some c' \<and> ok c' \<and> (\<forall>q. live c' q \<longleftrightarrow> live c1 q \<and> q \<notin> set ps)"
    by (rule Cons.IH) (use Cons.prems ok1 l1 in auto)
  then show ?case using l1 by (auto simp: c1)
qed simp

lemma release_fresh:
  assumes "ok c" and "alloc c n = (Some p, c')"
  shows "\<exists>c''. release p c' = Some c'' \<and> ok c'' \<and> (\<forall>q. live c'' q = live c q)"
proof -
  have ok': "ok c'" by (rule alloc_ok [OF assms])
  have l': "live c' p" using alloc_live [OF assms] by blast
  obtain c'' where "release p c' = Some c''" using release_some [OF ok' l'] by blast
  then show ?thesis
    using release_ok [OF ok' l'] release_live [OF ok' l'] alloc_live [OF assms] alloc_fresh [OF assms]
    by blast
qed

end

interpretation pool: block_pool mb_ok mb_live MB_Alloc "\<lambda>p c. MB_Free c (Some p)"
proof unfold_locales
  fix c n c' p q r
  show "MB_Alloc c n = (None, c') \<Longrightarrow> c' = c" by simp
  show "mb_ok c \<Longrightarrow> MB_Alloc c n = (r, c') \<Longrightarrow> mb_ok c'" by (rule MB_Alloc_ok)
  show "mb_ok c \<Longrightarrow> MB_Alloc c n = (Some p, c') \<Longrightarrow> mb_live c' q \<longleftrightarrow> mb_live c q \<or> q = p"
    using MB_Alloc_live by metis
  show "mb_ok c \<Longrightarrow> MB_Alloc c n = (Some p, c') \<Longrightarrow> \<not> mb_live c p" by (rule MB_Alloc_live)
  show "mb_ok c \<Longrightarrow> mb_live c p \<Longrightarrow> \<exists>c'. MB_Free c (Some p) = Some c'" by (rule MB_Free_succeeds)
  show "mb_ok c \<Longrightarrow> mb_live c p \<Longrightarrow> MB_Free c (Some p) = Some c' \<Longrightarrow> mb_ok c'" by (rule MB_Free_ok)
  show "mb_ok c \<Longrightarrow> mb_live c p \<Longrightarrow> MB_Free c (Some p) = Some c' \<Longrightarrow> mb_live c' q \<longleftrightarrow> mb_live c q \<and> q \<noteq> p"
    using MB_Free_live by metis
qed

section \<open>Initialisation: where the blocks lie\<close>

text \<open>The exact size of a level and the offset of a block, as natural numbers that do not wrap.\<close>

definition lvl_bytes :: "VTOP_MSG_S_Buffer \<Rightarrow> nat \<Rightarrow> nat" where
  "lvl_bytes b i = unat (blockNum b ! i) * unat (MB_BLOCK_SIZE b i)"

definition lvl_start :: "VTOP_MSG_S_Buffer \<Rightarrow> nat \<Rightarrow> nat" where
  "lvl_start b i = (\<Sum>k < i. lvl_bytes b k)"

definition blk_start :: "VTOP_MSG_S_Buffer \<Rightarrow> nat \<Rightarrow> nat \<Rightarrow> nat" where
  "blk_start b i j = lvl_start b i + j * unat (MB_BLOCK_SIZE b i)"

definition blk_addr :: "u32 \<Rightarrow> VTOP_MSG_S_Buffer \<Rightarrow> nat \<Rightarrow> nat \<Rightarrow> u32" where
  "blk_addr base b i j = pMbHead base b i + of_nat j * MB_BLOCK_SIZE b i"

text \<open>The block memory ends below \<open>2 ^ 32\<close>: the sizes did not wrap and the region is real.\<close>

definition no_wrap :: "u32 \<Rightarrow> VTOP_MSG_S_Buffer \<Rightarrow> nat \<Rightarrow> bool" where
  "no_wrap base b n \<longleftrightarrow> unat base + lvl_start b n < 2 ^ 32"

lemma lvl_start_Suc [simp]: "lvl_start b (Suc i) = lvl_start b i + lvl_bytes b i"
  by (simp add: lvl_start_def)

lemma lvl_start_0 [simp]: "lvl_start b 0 = 0"
  by (simp add: lvl_start_def)

lemma lvl_start_mono: "i \<le> k \<Longrightarrow> lvl_start b i \<le> lvl_start b k"
  unfolding lvl_start_def by (rule sum_mono2) auto

lemma each_mb_size_of_nat: "each_mb_size b i = of_nat (lvl_bytes b i)"
  by (simp add: each_mb_size_def lvl_bytes_def)

lemma buffer_size_of_nat: "buffer_size b i = of_nat (lvl_start b i)"
  by (induction i) (simp_all add: each_mb_size_of_nat)

lemma pMbHead_of_nat: "pMbHead base b i = base + of_nat (lvl_start b i)"
  by (induction i) (simp_all add: each_mb_size_of_nat)

lemma blk_addr_of_nat: "blk_addr base b i j = of_nat (unat base + blk_start b i j)"
  by (simp add: blk_addr_def pMbHead_of_nat blk_start_def)

lemma blk_start_fits:
  assumes "i < n" and "j < unat (blockNum b ! i)"
  shows "blk_start b i j + unat (MB_BLOCK_SIZE b i) \<le> lvl_start b n"
proof -
  have "Suc j * unat (MB_BLOCK_SIZE b i) \<le> lvl_bytes b i"
    unfolding lvl_bytes_def using assms(2) by (intro mult_le_mono1) simp
  moreover have "lvl_start b (Suc i) \<le> lvl_start b n" using assms(1) by (intro lvl_start_mono) simp
  ultimately show ?thesis by (simp add: blk_start_def)
qed

lemma unat_blk_addr:
  assumes "no_wrap base b n" and "i < n" and "j < unat (blockNum b ! i)"
  shows "unat (blk_addr base b i j) = unat base + blk_start b i j"
  unfolding blk_addr_of_nat
  by (rule unat_of_nat_u32) (use assms blk_start_fits [OF assms(2,3)] in \<open>simp add: no_wrap_def\<close>)

text \<open>Two different blocks: one of them ends before the other starts.\<close>

lemma blk_order:
  assumes "i < n" "j < unat (blockNum b ! i)" "k < n" "l < unat (blockNum b ! k)"
    and "(i, j) \<noteq> (k, l)"
  shows "blk_start b i j + unat (MB_BLOCK_SIZE b i) \<le> blk_start b k l \<or>
         blk_start b k l + unat (MB_BLOCK_SIZE b k) \<le> blk_start b i j"
proof -
  have later: "blk_start b i j + unat (MB_BLOCK_SIZE b i) \<le> blk_start b k l"
    if "i < k" "j < unat (blockNum b ! i)" for i j k l
    using blk_start_fits [OF that] by (simp add: blk_start_def)
  have same: "blk_start b i j + unat (MB_BLOCK_SIZE b i) \<le> blk_start b i l" if "j < l" for i j l
  proof -
    have "Suc j * unat (MB_BLOCK_SIZE b i) \<le> l * unat (MB_BLOCK_SIZE b i)"
      using that by (intro mult_le_mono1) simp
    then show ?thesis by (simp add: blk_start_def)
  qed
  consider "i < k" | "k < i" | "i = k" "j < l" | "i = k" "l < j" using assms(5) by fastforce
  then show ?thesis using later same assms by cases auto
qed

lemma blk_addr_inj:
  assumes nw: "no_wrap base b n" and pos: "MB_BLOCK_SIZE b i > 0" "MB_BLOCK_SIZE b k > 0"
    and ij: "i < n" "j < unat (blockNum b ! i)" and kl: "k < n" "l < unat (blockNum b ! k)"
    and eq: "blk_addr base b i j = blk_addr base b k l"
  shows "(i, j) = (k, l)"
proof (rule ccontr)
  assume "(i, j) \<noteq> (k, l)"
  note ord = blk_order [OF ij kl this]
  have "blk_start b i j = blk_start b k l"
    using unat_blk_addr [OF nw ij] unat_blk_addr [OF nw kl] eq by simp
  moreover have "unat (MB_BLOCK_SIZE b i) > 0" "unat (MB_BLOCK_SIZE b k) > 0"
    using pos by (simp_all add: unat_gt_0 word_neq_0_conv)
  ultimately show False using ord by simp
qed

section \<open>Initialisation: the loop\<close>

lemma init_heads_other: "a \<notin> set ps \<Longrightarrow> init_heads i j ps h a = h a"
  by (induction i j ps h rule: init_heads.induct) auto

lemma init_heads_nth:
  "distinct ps \<Longrightarrow> k < length ps \<Longrightarrow>
   init_heads i j ps h (ps ! k) = (h (ps ! k))\<lparr>buffer_id := of_nat i, block_id := of_nat (j + k)\<rparr>"
proof (induction i j ps h arbitrary: k rule: init_heads.induct)
  case (2 i j a as h)
  show ?case
  proof (cases k)
    case 0
    with 2 show ?thesis by (simp add: init_heads_other)
  next
    case (Suc m)
    with "2.prems" have m: "distinct as" "m < length as" "as ! m \<noteq> a" by auto
    from "2.IH" [OF m(1,2)] Suc m(3) show ?thesis by (simp del: fun_upd_apply add: fun_upd_other)
  qed
qed simp

lemma level_ptrs_simps [simp]:
  "length (level_ptrs base b i) = unat (blockNum b ! i)"
  "j < unat (blockNum b ! i) \<Longrightarrow> level_ptrs base b i ! j = blk_addr base b i j"
  by (simp_all add: level_ptrs_def blk_addr_def)

lemma set_level_ptrs: "set (level_ptrs base b i) = blk_addr base b i ` {..<unat (blockNum b ! i)}"
  by (auto simp: level_ptrs_def blk_addr_def)

lemma mb_init_levels_snoc:
  "mb_init_levels m base b (is @ [i]) ctx =
   Option.bind (mb_init_levels m base b is ctx) (mb_init_level m base b i)"
  by (induction "is" arbitrary: ctx) (auto split: bind_split)

text \<open>The level that the loop stores: with a positive size, its pointers.\<close>

definition lvl_of :: "u32 \<Rightarrow> VTOP_MSG_S_Buffer \<Rightarrow> nat \<Rightarrow> MSG_BUFFER_S" where
  "lvl_of base b i =
     \<lparr>pMsg = (if blockNum b ! i > 0 then Some (level_ptrs base b i) else None),
      blocksize = MB_BLOCK_SIZE b i, blocknum = blockNum b ! i,
      buffersize = MB_BLOCK_SIZE b i * blockNum b ! i, used = 0\<rparr>"

definition init_inv :: "u32 \<Rightarrow> VTOP_MSG_S_Buffer \<Rightarrow> nat \<Rightarrow> nat \<Rightarrow> MB_CONTEXT_S \<Rightarrow> bool" where
  "init_inv base b n k ctx \<longleftrightarrow>
     mb ctx = map (lvl_of base b) [0..<k] @ replicate (4 - k) zero_level \<and>
     mb_num ctx = of_nat n \<and>
     (\<forall>i < k. \<forall>j < unat (blockNum b ! i). heads ctx (blk_addr base b i j) =
        zero_head\<lparr>buffer_id := of_nat i, block_id := of_nat j\<rparr>) \<and>
     (\<forall>a. (\<forall>i < k. \<forall>j < unat (blockNum b ! i). a \<noteq> blk_addr base b i j) \<longrightarrow>
        heads ctx a = zero_head)"

definition geom_ok :: "u32 \<Rightarrow> VTOP_MSG_S_Buffer \<Rightarrow> nat \<Rightarrow> bool" where
  "geom_ok base b n \<longleftrightarrow> n \<le> 4 \<and> no_wrap base b n \<and> (\<forall>i < n. MB_BLOCK_SIZE b i > 0)"

lemma buffersize_pos_iff:
  assumes "geom_ok base b n" and "i < n"
  shows "MB_BLOCK_SIZE b i * blockNum b ! i > 0 \<longleftrightarrow> blockNum b ! i > 0"
proof -
  have "lvl_start b (Suc i) \<le> lvl_start b n" using assms(2) by (intro lvl_start_mono) simp
  then have "lvl_bytes b i < 2 ^ 32" using assms(1) by (simp add: geom_ok_def no_wrap_def)
  then have "unat (MB_BLOCK_SIZE b i * blockNum b ! i) = lvl_bytes b i"
    by (simp add: lvl_bytes_def unat_word_ariths mult.commute)
  moreover have "unat (MB_BLOCK_SIZE b i) > 0"
    using assms by (simp add: geom_ok_def unat_gt_0 word_neq_0_conv)
  ultimately show ?thesis by (auto simp: word_less_nat_alt lvl_bytes_def)
qed

lemma mb_list_upd:
  assumes "k < 4"
  shows "(map f [0..<k] @ replicate (4 - k) z)[k := f k] = map f [0..<Suc k] @ replicate (4 - Suc k) z"
proof -
  have "replicate (4 - k) z = z # replicate (4 - Suc k) z"
    using assms by (metis Suc_diff_Suc replicate_Suc)
  then show ?thesis by (simp add: list_update_append)
qed

lemma init_inv_step:
  assumes g: "geom_ok base b n" and k: "k < n" and inv: "init_inv base b n k ctx"
    and st: "mb_init_level m base b k ctx = Some ctx'"
  shows "init_inv base b n (Suc k) ctx'"
proof -
  let ?N = "\<lambda>i. unat (blockNum b ! i)"
  have k4: "k < 4" using g k by (simp add: geom_ok_def)
  have inj: "(i, j) = (i', j')"
    if "i < n" "j < ?N i" "i' < n" "j' < ?N i'" "blk_addr base b i j = blk_addr base b i' j'" for i j i' j'
    by (rule blk_addr_inj [OF _ _ _ that]) (use that g in \<open>auto simp: geom_ok_def\<close>)
  have dist: "distinct (level_ptrs base b k)"
    unfolding distinct_conv_nth using inj k by auto
  let ?h = "init_heads k 0 (level_ptrs base b k) (heads ctx)"
  have mbs: "(mb ctx)[k := lvl_of base b k] = map (lvl_of base b) [0..<Suc k] @ replicate (4 - Suc k) zero_level"
    using inv mb_list_upd [OF k4] by (simp add: init_inv_def)
  have old: "heads ctx (blk_addr base b k j) = zero_head" if j: "j < ?N k" for j
  proof -
    have "blk_addr base b k j \<noteq> blk_addr base b i j'" if "i < k" "j' < ?N i" for i j'
      using inj [of k j i j'] k that j by auto
    then show ?thesis using inv by (simp add: init_inv_def)
  qed
  have new: "?h (blk_addr base b k j) = zero_head\<lparr>buffer_id := of_nat k, block_id := of_nat j\<rparr>"
    if "j < ?N k" for j
    using init_heads_nth [OF dist, of j k 0] that old by simp
  have keep: "?h (blk_addr base b i j) = heads ctx (blk_addr base b i j)" if "i < k" "j < ?N i" for i j
  proof (intro init_heads_other notI)
    assume "blk_addr base b i j \<in> set (level_ptrs base b k)"
    then obtain j' where "j' < ?N k" "blk_addr base b i j = blk_addr base b k j'"
      by (auto simp: set_level_ptrs)
    with inj [of i j k j'] k that show False by auto
  qed
  show ?thesis
  proof (cases "blockNum b ! k > 0")
    case True
    then have "MB_BLOCK_SIZE b k * blockNum b ! k > 0" using buffersize_pos_iff [OF g k] by simp
    with st True have m': "mb ctx' = (mb ctx)[k := lvl_of base b k]" and h': "heads ctx' = ?h"
      and n': "mb_num ctx' = mb_num ctx"
      by (auto simp: mb_init_level_def Let_def lvl_of_def split: if_splits)
    have "heads ctx' a = zero_head" if "\<forall>i < Suc k. \<forall>j < ?N i. a \<noteq> blk_addr base b i j" for a
      unfolding h' using that inv by (subst init_heads_other) (auto simp: init_inv_def set_level_ptrs)
    then show ?thesis
      using inv new keep n' mbs unfolding init_inv_def m' h' by (auto simp: less_Suc_eq)
  next
    case False
    then have "\<not> MB_BLOCK_SIZE b k * blockNum b ! k > 0" using buffersize_pos_iff [OF g k] by simp
    with st False have m': "mb ctx' = (mb ctx)[k := lvl_of base b k]" and h': "heads ctx' = heads ctx"
      and n': "mb_num ctx' = mb_num ctx"
      by (auto simp: mb_init_level_def Let_def lvl_of_def split: if_splits)
    show ?thesis
      using inv False n' mbs unfolding init_inv_def m' h' by (auto simp: less_Suc_eq word_gt_0)
  qed
qed

lemma init_inv_loop:
  assumes g: "geom_ok base b n"
  shows "k \<le> n \<Longrightarrow> mb_init_levels m base b [0..<k] (mb_ctx0 base b n) = Some ctx \<Longrightarrow>
         init_inv base b n k ctx"
proof (induction k arbitrary: ctx)
  case 0
  then show ?case by (auto simp: init_inv_def mb_ctx0_def)
next
  case (Suc k)
  then obtain c where "mb_init_levels m base b [0..<k] (mb_ctx0 base b n) = Some c"
    and "mb_init_level m base b k c = Some ctx"
    by (auto simp: mb_init_levels_snoc bind_eq_Some_conv)
  with Suc show ?case by (intro init_inv_step [OF g]) auto
qed

lemma lvl_blocks_lvl_of [simp]: "lvl_blocks (lvl_of base b i) = level_ptrs base b i"
  by (auto simp: lvl_blocks_def lvl_of_def level_ptrs_def word_gt_0)

lemma lvl_blocks_zero [simp]: "lvl_blocks zero_level = []"
  by (simp add: lvl_blocks_def zero_level_def)

lemma zero_level_ok: "level_ok h i zero_level"
  by (simp add: level_ok_def zero_level_def lvl_blocks_def)

lemma init_inv_mb_nth:
  assumes "init_inv base b n k ctx" and "i < 4" and "k \<le> 4"
  shows "mb ctx ! i = (if i < k then lvl_of base b i else zero_level)"
  using assms by (auto simp: init_inv_def nth_append)

lemma init_inv_mb_ok:
  assumes g: "geom_ok base b n" and inv: "init_inv base b n n ctx"
  shows "mb_ok ctx"
proof -
  have n4: "n \<le> 4" using g by (simp add: geom_ok_def)
  have "level_ok (heads ctx) i (mb ctx ! i)" if i: "i < 4" for i
  proof (cases "i < n")
    case True
    have h: "heads ctx (level_ptrs base b i ! j) = zero_head\<lparr>buffer_id := of_nat i, block_id := of_nat j\<rparr>"
      if "j < unat (blockNum b ! i)" for j
      using inv True that by (simp add: init_inv_def)
    have "flag (heads ctx a) = 0" if a: "a \<in> set (level_ptrs base b i)" for a
      using a h by (auto simp: in_set_conv_nth zero_head_def)
    then have none: "filter (\<lambda>a. flag (heads ctx a) = 1) (level_ptrs base b i) = []"
      by (simp add: filter_empty_conv)
    have "level_ok (heads ctx) i (lvl_of base b i)"
      unfolding level_ok_def lvl_blocks_lvl_of none
      using h buffersize_pos_iff [OF g True] by (simp add: lvl_of_def zero_head_def)
    with True show ?thesis by (simp add: init_inv_mb_nth [OF inv i n4])
  next
    case False
    then show ?thesis by (simp add: init_inv_mb_nth [OF inv i n4] zero_level_ok)
  qed
  moreover have "length (mb ctx) = 4" using inv n4 by (simp add: init_inv_def)
  moreover have "unat (mb_num ctx) \<le> 4" using inv n4 by (simp add: init_inv_def unat_of_nat_u32)
  ultimately show ?thesis by (simp add: mb_ok_def)
qed

lemma mb_init_levels_total:
  "mb_init_levels m base b [0..<k] ctx = Some ctx' \<Longrightarrow> total_size ctx' = total_size ctx + buffer_size b k"
proof (induction k arbitrary: ctx')
  case (Suc k)
  then obtain c where "mb_init_levels m base b [0..<k] ctx = Some c"
    and "mb_init_level m base b k c = Some ctx'"
    by (auto simp: mb_init_levels_snoc bind_eq_Some_conv)
  with Suc.IH [of c] show ?case
    by (auto simp: mb_init_level_def Let_def each_mb_size_def split: if_splits)
qed simp

section \<open>The initialised context\<close>

lemma mb_checkD:
  assumes "mb_check b = Inr n"
  shows "0 < n" and "n \<le> length (blockSize b)"
    and "s \<in> set (blockSize b) \<Longrightarrow> s \<le> MSG_MAX_BLK_SIZE"
    and "k \<in> set (blockNum b) \<Longrightarrow> k \<le> MSG_MAX_BLK_NUM"
    and "i < n \<Longrightarrow> blockSize b ! i > 0"
    and "0 < i \<Longrightarrow> i < n \<Longrightarrow> blockSize b ! (i - 1) < blockSize b ! i"
proof -
  have n: "n = length (filter (\<lambda>s. s > 0) (blockSize b))"
    using assms by (auto simp: mb_check_def Let_def split: if_splits)
  show "0 < n" and le: "n \<le> length (blockSize b)"
    using assms by (auto simp: mb_check_def Let_def split: if_splits)
  show "s \<in> set (blockSize b) \<Longrightarrow> s \<le> MSG_MAX_BLK_SIZE"
    and "k \<in> set (blockNum b) \<Longrightarrow> k \<le> MSG_MAX_BLK_NUM"
    using assms by (auto simp: mb_check_def Let_def list_ex_iff not_less split: if_splits)
  have "\<forall>x \<in> set (take n (blockSize b)). x \<noteq> 0"
    using assms by (auto simp: mb_check_def Let_def list_ex_iff split: if_splits)
  then show "i < n \<Longrightarrow> blockSize b ! i > 0"
    using le by (metis in_set_conv_nth length_take min.absorb2 nth_take word_neq_0_conv)
  show "0 < i \<Longrightarrow> i < n \<Longrightarrow> blockSize b ! (i - 1) < blockSize b ! i"
    using assms by (auto simp: mb_check_def Let_def list_ex_iff not_le split: if_splits)
qed

lemma block_size_no_wrap: "s \<le> MSG_MAX_BLK_SIZE \<Longrightarrow> unat (MB_HEAD_LEN + s) = 24 + unat s"
  by (simp add: MSG_MAX_BLK_SIZE_def MB_HEAD_LEN_def word_le_nat_alt unat_word_ariths)

lemma MB_Init_Inr:
  assumes "MB_Init m hp pb = Some (Inr ctx)"
  obtains b n base where "hp" and "pb = Some b" and "mb_check b = Inr n" and "buf_at m = Some base"
    and "mb_init_levels m base b [0..<n] (mb_ctx0 base b n) = Some ctx"
  using assms by (auto simp: MB_Init_def split: if_splits option.splits sum.splits)

lemma mb_check_geom:
  assumes "mb_check b = Inr n" and "length (blockSize b) = 4" and "no_wrap base b n"
  shows "geom_ok base b n"
proof -
  have "MB_BLOCK_SIZE b i > 0" if "i < n" for i
  proof -
    have "blockSize b ! i \<le> MSG_MAX_BLK_SIZE" using mb_checkD(2,3) [OF assms(1)] that by simp
    from block_size_no_wrap [OF this] show ?thesis
      by (simp add: MB_BLOCK_SIZE_def word_less_nat_alt)
  qed
  then show ?thesis using assms mb_checkD(2) [OF assms(1)] by (simp add: geom_ok_def)
qed

section \<open>Properties\<close>

lemma MB_Init_assert_end:
  "mb_check b = Inr n \<Longrightarrow> pMbHead base b (n - Suc 0) + each_mb_size b (n - Suc 0) = base + buffer_size b n"
  using mb_checkD(1) [of b n]
  by (cases n) (simp_all add: pMbHead_of_nat buffer_size_of_nat each_mb_size_of_nat)

lemma MB_Init_assert_total:
  "mb_init_levels m base b [0..<n] (mb_ctx0 base b n) = Some ctx \<Longrightarrow> total_size ctx = buffer_size b n"
  by (drule mb_init_levels_total) (simp add: mb_ctx0_def)

lemma mb_init_levels_succeeds: "\<forall>i. pmsg_ok m i \<Longrightarrow> \<exists>c. mb_init_levels m base b is ctx = Some c"
  by (induction "is" arbitrary: ctx) (auto simp: mb_init_level_def Let_def)

lemma MB_Init_succeeds:
  assumes "mb_check b = Inr n" and "ctx_ok m" and "buf_at m = Some base" and "\<forall>i. pmsg_ok m i"
  shows "\<exists>ctx. MB_Init m True (Some b) = Some (Inr ctx)"
  using assms mb_init_levels_succeeds [OF assms(4), of base b "[0..<n]" "mb_ctx0 base b n"]
  by (auto simp: MB_Init_def MB_Init_assert_end MB_Init_assert_total)

text \<open>
  \<open>MB_Init\<close> never ends the process: whatever the parameters and the allocator's answers,
  and even where the 32-bit sizes wrap, both of its \<open>ASSERT\<close>s hold and it returns an error code
  or a context.
\<close>

theorem MB_Init_never_aborts: "\<exists>r. MB_Init m hp pBuffer = Some r"
  by (auto simp: MB_Init_def MB_Init_assert_end MB_Init_assert_total split: option.splits sum.splits)

text \<open>The bytes of a block, from its head to its end.\<close>

definition valid_blk :: "MB_CONTEXT_S \<Rightarrow> nat \<Rightarrow> nat \<Rightarrow> bool" where
  "valid_blk ctx i j \<longleftrightarrow> i < VTOP_MSG_BL_BUTT \<and> j < length (lvl_blocks (mb ctx ! i))"

definition blk_range :: "MB_CONTEXT_S \<Rightarrow> nat \<Rightarrow> nat \<Rightarrow> nat set" where
  "blk_range ctx i j =
     (let a = unat (lvl_blocks (mb ctx ! i) ! j) in {a ..< a + unat (blocksize (mb ctx ! i))})"

text \<open>The request fits into the address space behind \<open>base\<close>.\<close>

definition fits_memory :: "u32 \<Rightarrow> VTOP_MSG_S_Buffer \<Rightarrow> bool" where
  "fits_memory base b \<longleftrightarrow> length (blockSize b) = VTOP_MSG_BL_BUTT \<and>
     unat base + (\<Sum>i < VTOP_MSG_BL_BUTT. unat (blockNum b ! i) * (24 + unat (blockSize b ! i))) < 2 ^ 32"

lemma fits_memory_no_wrap:
  assumes chk: "mb_check b = Inr n" and fits: "fits_memory base b"
  shows "no_wrap base b n"
proof -
  have n4: "n \<le> 4" using mb_checkD(2) [OF chk] fits by (simp add: fits_memory_def)
  have bytes: "lvl_bytes b i = unat (blockNum b ! i) * (24 + unat (blockSize b ! i))" if "i < n" for i
    using block_size_no_wrap [of "blockSize b ! i"] mb_checkD(2,3) [OF chk] that
    by (simp add: lvl_bytes_def MB_BLOCK_SIZE_def)
  have "lvl_start b n = (\<Sum>i < n. unat (blockNum b ! i) * (24 + unat (blockSize b ! i)))"
    unfolding lvl_start_def using bytes by (intro sum.cong) auto
  also have "\<dots> \<le> (\<Sum>i < 4. unat (blockNum b ! i) * (24 + unat (blockSize b ! i)))"
    using n4 by (intro sum_mono2) auto
  finally show ?thesis using fits by (simp add: no_wrap_def fits_memory_def)
qed

lemma MB_Init_geometry:
  assumes init: "MB_Init m hp (Some b) = Some (Inr ctx)" and base: "buf_at m = Some base"
    and fits: "fits_memory base b"
  obtains n where "mb_check b = Inr n" and "geom_ok base b n" and "init_inv base b n n ctx"
    and "unat (total_size ctx) = lvl_start b n"
proof -
  from MB_Init_Inr [OF init] base obtain n where chk: "mb_check b = Inr n"
    and loop: "mb_init_levels m base b [0..<n] (mb_ctx0 base b n) = Some ctx" by auto
  have nw: "no_wrap base b n" by (rule fits_memory_no_wrap [OF chk fits])
  have g: "geom_ok base b n"
    by (rule mb_check_geom [OF chk _ nw]) (use fits in \<open>simp add: fits_memory_def\<close>)
  have "unat (total_size ctx) = lvl_start b n"
    using nw mb_init_levels_total [OF loop]
    by (simp add: mb_ctx0_def buffer_size_of_nat unat_of_nat_u32 no_wrap_def)
  with chk g init_inv_loop [OF g order_refl loop] show thesis by (rule that)
qed

lemma init_inv_block:
  assumes g: "geom_ok base b n" and inv: "init_inv base b n n ctx" and v: "valid_blk ctx i j"
  shows "i < n" and "j < unat (blockNum b ! i)"
    and "blk_range ctx i j = {unat base + blk_start b i j ..<
           unat base + blk_start b i j + unat (MB_BLOCK_SIZE b i)}"
    and "flag (heads ctx (lvl_blocks (mb ctx ! i) ! j)) = 0"
proof -
  have lvl: "mb ctx ! i = (if i < n then lvl_of base b i else zero_level)"
    using v g by (intro init_inv_mb_nth [OF inv]) (auto simp: valid_blk_def geom_ok_def)
  then show i: "i < n" and j: "j < unat (blockNum b ! i)"
    using v by (auto simp: valid_blk_def split: if_splits)
  have a: "lvl_blocks (mb ctx ! i) ! j = blk_addr base b i j" using lvl i j by simp
  show "blk_range ctx i j = {unat base + blk_start b i j ..<
           unat base + blk_start b i j + unat (MB_BLOCK_SIZE b i)}"
    using lvl i a unat_blk_addr [OF _ i j, of base] g
    by (simp add: blk_range_def geom_ok_def Let_def) (simp add: lvl_of_def)
  show "flag (heads ctx (lvl_blocks (mb ctx ! i) ! j)) = 0"
    using inv i j unfolding a by (simp add: init_inv_def zero_head_def)
qed

lemma init_inv_no_live: "geom_ok base b n \<Longrightarrow> init_inv base b n n ctx \<Longrightarrow> \<not> mb_live ctx p"
  using init_inv_block(4) by (fastforce simp: mb_live_def mb_block_def in_set_conv_nth valid_blk_def)

text \<open>
  C35: When the requested blocks fit into the address space, an initialised context satisfies the
  allocator's invariant, no block is in use, and the byte ranges of any two different blocks are disjoint
  and lie inside the allocated block memory.
\<close>

theorem MB_Init_blocks_disjoint:
  assumes init: "MB_Init m hp (Some b) = Some (Inr ctx)" and base: "buf_at m = Some base"
    and fits: "fits_memory base b"
  shows "mb_ok ctx \<and> (\<forall>p. \<not> mb_live ctx p) \<and>
    (\<forall>i j. valid_blk ctx i j \<longrightarrow>
       blk_range ctx i j \<subseteq> {unat base ..< unat base + unat (total_size ctx)}) \<and>
    (\<forall>i j k l. valid_blk ctx i j \<and> valid_blk ctx k l \<and> (i, j) \<noteq> (k, l) \<longrightarrow>
       blk_range ctx i j \<inter> blk_range ctx k l = {})"
proof -
  from MB_Init_geometry [OF assms] obtain n where g: "geom_ok base b n"
    and inv: "init_inv base b n n ctx" and tot: "unat (total_size ctx) = lvl_start b n" .
  note blk = init_inv_block [OF g inv]
  have "\<not> mb_live ctx p" for p by (rule init_inv_no_live [OF g inv])
  moreover have "blk_range ctx i j \<subseteq> {unat base ..< unat base + unat (total_size ctx)}"
    if "valid_blk ctx i j" for i j
    using blk_start_fits [OF blk(1,2) [OF that]] by (auto simp: blk(3) [OF that] tot)
  moreover have "blk_range ctx i j \<inter> blk_range ctx k l = {}"
    if "valid_blk ctx i j" "valid_blk ctx k l" "(i, j) \<noteq> (k, l)" for i j k l
    using blk_order [OF blk(1,2) [OF that(1)] blk(1,2) [OF that(2)] that(3)]
    by (auto simp: blk(3) [OF that(1)] blk(3) [OF that(2)])
  ultimately show ?thesis using init_inv_mb_ok [OF g inv] by blast
qed

text \<open>A small request: two levels with two and one blocks, at address \<open>0x1000\<close>.\<close>

definition sample_malloc :: MB_MALLOC where
  "sample_malloc = \<lparr>ctx_ok = True, buf_at = Some 0x1000, pmsg_ok = (\<lambda>_. True)\<rparr>"

definition sample_buffer :: VTOP_MSG_S_Buffer where
  "sample_buffer = \<lparr>blockNum = [2, 1, 0, 0], blockSize = [8, 16, 0, 0], bufName = ''sample''\<rparr>"

definition sample_ctx :: MB_CONTEXT_S where
  "sample_ctx = (case MB_Init sample_malloc True (Some sample_buffer) of
     Some (Inr c) \<Rightarrow> c | _ \<Rightarrow> mb_ctx0 0 sample_buffer 0)"

lemma sample_check: "mb_check sample_buffer = Inr 2"
  by (simp add: mb_check_def sample_buffer_def MSG_MAX_BLK_NUM_def MSG_MAX_BLK_SIZE_def Let_def)

lemma sample_buf_at: "buf_at sample_malloc = Some 0x1000"
  by (simp add: sample_malloc_def)

lemma sample_init: "MB_Init sample_malloc True (Some sample_buffer) = Some (Inr sample_ctx)"
  using MB_Init_succeeds [OF sample_check _ sample_buf_at]
  by (auto simp: sample_ctx_def sample_malloc_def)

lemma sample_fits: "fits_memory 0x1000 sample_buffer"
  by (simp add: fits_memory_def sample_buffer_def lessThan_nat_numeral lessThan_Suc)

lemma sample_geom: "geom_ok 0x1000 sample_buffer 2" and sample_inv: "init_inv 0x1000 sample_buffer 2 2 sample_ctx"
proof -
  from MB_Init_Inr [OF sample_init] have loop:
    "mb_init_levels sample_malloc 0x1000 sample_buffer [0..<2] (mb_ctx0 0x1000 sample_buffer 2) = Some sample_ctx"
    by (auto simp: sample_check sample_buf_at)
  show g: "geom_ok 0x1000 sample_buffer 2"
    by (rule mb_check_geom [OF sample_check _ fits_memory_no_wrap [OF sample_check sample_fits]])
       (simp add: sample_buffer_def)
  show "init_inv 0x1000 sample_buffer 2 2 sample_ctx"
    by (rule init_inv_loop [OF g order_refl loop])
qed

lemma sample_ctx_ok: "mb_ok sample_ctx"
  by (rule init_inv_mb_ok [OF sample_geom sample_inv])

lemma sample_mb: "mb sample_ctx = [lvl_of 0x1000 sample_buffer 0, lvl_of 0x1000 sample_buffer 1, zero_level, zero_level]"
  and sample_mb_num: "mb_num sample_ctx = 2"
  using sample_inv by (simp_all add: init_inv_def upt_rec numeral_2_eq_2)

theorem MB_Init_blocks_disjoint_witness:
  "mb_ok sample_ctx \<and> blk_range sample_ctx 0 0 \<inter> blk_range sample_ctx 1 0 = {}"
proof -
  have "valid_blk sample_ctx 0 0" "valid_blk sample_ctx 1 0"
    by (simp_all add: valid_blk_def sample_mb) (simp_all add: sample_buffer_def)
  with MB_Init_blocks_disjoint [OF sample_init sample_buf_at sample_fits] show ?thesis by fastforce
qed

text \<open>
  The sizes are not checked against the address space: \<open>MB_Init\<close> accepts the largest
  request its checks allow (16384 blocks of 262144 bytes), the 32-bit product wraps, the memory it
  allocates has 393216 bytes, and the third block starts behind the end of that memory.
\<close>

theorem MB_Init_size_wraps:
  assumes "b = \<lparr>blockNum = [16384, 0, 0, 0], blockSize = [262144, 0, 0, 0], bufName = nm\<rparr>"
  shows "mb_check b = Inr 1 \<and> unat (buffer_size b 1) = 393216 \<and>
    unat (pMbHead base b 0 + of_nat 2 * MB_BLOCK_SIZE b 0 - base) = 524336"
  using assms by (simp add: mb_check_def each_mb_size_def MB_BLOCK_SIZE_def MB_HEAD_LEN_def
    MSG_MAX_BLK_NUM_def MSG_MAX_BLK_SIZE_def Let_def)

theorem MB_Init_size_wraps_witness:
  "unat (buffer_size \<lparr>blockNum = [16384, 0, 0, 0], blockSize = [262144, 0, 0, 0], bufName = ''x''\<rparr> 1) = 393216"
  using MB_Init_size_wraps [OF refl, of "''x''"] by blast

text \<open>
  A successful \<open>MB_Alloc\<close> keeps the invariant, hands out a block that was not in use, leaves all
  other blocks as they were, and takes it from the first level whose blocks are large enough for the
  request and the head.
\<close>

theorem MB_Alloc_best_fit:
  assumes "mb_ok ctx" and "MB_Alloc ctx sz = (Some p, ctx')"
  shows "mb_ok ctx' \<and> mb_live ctx' p \<and> \<not> mb_live ctx p \<and>
    (\<forall>q. q \<noteq> p \<longrightarrow> mb_live ctx' q = mb_live ctx q) \<and>
    (\<exists>i < unat (mb_num ctx). p - MB_HEAD_LEN \<in> set (lvl_blocks (mb ctx ! i)) \<and>
       sz + MB_HEAD_LEN \<le> blocksize (mb ctx ! i) \<and>
       (\<forall>k < i. buffersize (mb ctx ! k) > 0 \<longrightarrow> blocksize (mb ctx ! k) < sz + MB_HEAD_LEN))"
proof -
  from MB_Alloc_Some [OF assms] obtain i a where i: "level_for ctx sz = Some i"
    and a: "a \<in> set (lvl_blocks (mb ctx ! i))" and p: "p = a + MB_HEAD_LEN" .
  note l = level_forD [OF assms(1) i]
  have "\<exists>i < unat (mb_num ctx). p - MB_HEAD_LEN \<in> set (lvl_blocks (mb ctx ! i)) \<and>
       sz + MB_HEAD_LEN \<le> blocksize (mb ctx ! i) \<and>
       (\<forall>k < i. buffersize (mb ctx ! k) > 0 \<longrightarrow> blocksize (mb ctx ! k) < sz + MB_HEAD_LEN)"
    using a p l(2,4) l(5) by (intro exI [of _ i]) (auto simp: not_le)
  then show ?thesis using MB_Alloc_ok [OF assms] MB_Alloc_live [OF assms] by blast
qed

lemma sample_alloc: "fst (MB_Alloc sample_ctx 9) = Some 0x1058"
proof -
  have ptrs: "level_ptrs 0x1000 sample_buffer (Suc 0) = [0x1040]"
    by (simp add: level_ptrs_def sample_buffer_def MB_BLOCK_SIZE_def MB_HEAD_LEN_def each_mb_size_def)
  have "flag (heads sample_ctx 0x1040) = 0"
    using init_inv_block(4) [OF sample_geom sample_inv, of 1 0]
    by (simp add: valid_blk_def sample_mb ptrs)
  moreover have "level_for sample_ctx 9 = Some 1"
    by (simp add: level_for_def sample_mb sample_mb_num)
       (simp add: lvl_of_def sample_buffer_def MB_BLOCK_SIZE_def MB_HEAD_LEN_def)
  ultimately show ?thesis by (simp add: MB_Alloc_def sample_mb Let_def ptrs MB_HEAD_LEN_def)
qed

theorem MB_Alloc_best_fit_witness: "mb_live (snd (MB_Alloc sample_ctx 9)) 0x1058"
  using MB_Alloc_best_fit [OF sample_ctx_ok] sample_alloc by (metis prod.collapse)

text \<open>
  \<open>MB_Alloc\<close> returns \<open>NULL\<close> exactly when no level has large enough blocks or when every
  block of the first such level is in use; it does not fall back to a level with larger blocks,
  and the context is unchanged.
\<close>

theorem MB_Alloc_fails_iff:
  assumes "mb_ok ctx"
  shows "MB_Alloc ctx sz = (None, ctx) \<longleftrightarrow>
    (\<forall>i < unat (mb_num ctx). buffersize (mb ctx ! i) = 0 \<or> blocksize (mb ctx ! i) < sz + MB_HEAD_LEN) \<or>
    (\<exists>i. level_for ctx sz = Some i \<and> (\<forall>a \<in> set (lvl_blocks (mb ctx ! i)). mb_live ctx (a + MB_HEAD_LEN)))"
  using assms by (rule MB_Alloc_None_iff)

theorem MB_Alloc_fails_iff_witness: "MB_Alloc sample_ctx 100 = (None, sample_ctx)"
proof -
  have "\<forall>i < unat (mb_num sample_ctx).
      buffersize (mb sample_ctx ! i) = 0 \<or> blocksize (mb sample_ctx ! i) < 100 + MB_HEAD_LEN"
    by (auto simp: sample_mb_num sample_mb less_2_cases_iff)
       (simp_all add: lvl_of_def sample_buffer_def MB_BLOCK_SIZE_def MB_HEAD_LEN_def)
  then show ?thesis using MB_Alloc_fails_iff [OF sample_ctx_ok] by blast
qed

text \<open>
  Releasing the block that was just allocated succeeds and gives back the very same context:
  flags, level counters and all block heads.
\<close>

theorem MB_Free_MB_Alloc:
  assumes ok: "mb_ok ctx" and al: "MB_Alloc ctx sz = (Some p, ctx')"
  shows "MB_Free ctx' (Some p) = Some ctx"
proof -
  from MB_Alloc_Some [OF assms] obtain i a where i: "i < 4"
    and a: "a \<in> set (lvl_blocks (mb ctx ! i))" "flag (heads ctx a) = 0" and p: "p = a + MB_HEAD_LEN"
    and c: "ctx' = ctx\<lparr>heads := (heads ctx)(a := (heads ctx a)\<lparr>flag := 1\<rparr>),
                    mb := (mb ctx)[i := (mb ctx ! i)\<lparr>used := used (mb ctx ! i) + 1\<rparr>]\<rparr>" .
  have k: "unat (buffer_id (heads ctx a)) = i" by (rule block_level [OF ok i a(1)])
  have h: "(heads ctx a)\<lparr>flag := 0\<rparr> = heads ctx a" using a(2) by simp
  show ?thesis
    using i ok k h by (simp add: c p MB_Free_def Let_def)
qed

theorem MB_Free_MB_Alloc_witness:
  "MB_Free (snd (MB_Alloc sample_ctx 9)) (Some 0x1058) = Some sample_ctx"
  using MB_Free_MB_Alloc [OF sample_ctx_ok] sample_alloc by (metis prod.collapse)

text \<open>
  Under the invariant, counting the used heads (\<open>MB_GetUsed\<close>) and the incremental counter
  agree on every level, and a block that is not in use can be released a second time only by ending
  the process.
\<close>

theorem MB_GetUsed_counter:
  assumes "mb_ok ctx" and "i < VTOP_MSG_BL_BUTT"
  shows "MB_GetUsed ctx (of_nat i) = used (mb ctx ! i) \<and>
    (\<forall>p. mb_block ctx (p - MB_HEAD_LEN) \<and> \<not> mb_live ctx p \<longrightarrow> aborted (MB_Free ctx (Some p)))"
proof -
  have "unat (of_nat i :: u32) = i" using assms(2) by (intro unat_of_nat_u32) simp
  then have "MB_GetUsed ctx (of_nat i) = used (mb ctx ! i)"
    using assms by (simp add: MB_GetUsed_def mb_ok_def level_ok_def)
  then show ?thesis using MB_Free_not_live by blast
qed

theorem MB_GetUsed_counter_witness: "MB_GetUsed sample_ctx 1 = used (mb sample_ctx ! 1)"
  using MB_GetUsed_counter [OF sample_ctx_ok, of 1] by simp

end
