(* ===== verification/Linux_List.thy ===== *)
theory Linux_List
  imports Prelude
begin

text \<open>
  The intrusive doubly linked lists of \<open>common/linux_list.h\<close>, on an explicit memory of \<open>next\<close> and
  \<open>prev\<close> links. \<open>ring m h xs\<close> says that the list with head \<open>h\<close> holds the nodes \<open>xs\<close> in order. The
  lemmas show that the pointer operations implement the operations on lists of nodes with which
  the queue components are modelled.
\<close>

record list_head =
  lnext :: "u32 \<Rightarrow> u32"
  lprev :: "u32 \<Rightarrow> u32"

definition INIT_LIST_HEAD :: "list_head \<Rightarrow> u32 \<Rightarrow> list_head" where
  "INIT_LIST_HEAD m p = m\<lparr>lnext := (lnext m)(p := p), lprev := (lprev m)(p := p)\<rparr>"

text \<open>\<open>__list_add\<close> and \<open>__list_del\<close>, with the assignments in the source's order.\<close>

definition list_insert :: "list_head \<Rightarrow> u32 \<Rightarrow> u32 \<Rightarrow> u32 \<Rightarrow> list_head" where
  "list_insert m new pr nx =
     m\<lparr>lnext := (lnext m)(new := nx, pr := new),
       lprev := (lprev m)(nx := new, new := pr)\<rparr>"

definition list_add :: "list_head \<Rightarrow> u32 \<Rightarrow> u32 \<Rightarrow> list_head" where
  "list_add m new h = list_insert m new h (lnext m h)"

definition list_add_tail :: "list_head \<Rightarrow> u32 \<Rightarrow> u32 \<Rightarrow> list_head" where
  "list_add_tail m new h = list_insert m new (lprev m h) h"

definition list_unlink :: "list_head \<Rightarrow> u32 \<Rightarrow> u32 \<Rightarrow> list_head" where
  "list_unlink m pr nx = m\<lparr>lprev := (lprev m)(nx := pr), lnext := (lnext m)(pr := nx)\<rparr>"

definition list_del :: "list_head \<Rightarrow> u32 \<Rightarrow> list_head" where
  "list_del m entry = list_unlink m (lprev m entry) (lnext m entry)"

definition list_del_init :: "list_head \<Rightarrow> u32 \<Rightarrow> list_head" where
  "list_del_init m entry = INIT_LIST_HEAD (list_del m entry) entry"

definition list_empty :: "list_head \<Rightarrow> u32 \<Rightarrow> bool" where
  "list_empty m h \<longleftrightarrow> lnext m h = h"

text \<open>
  \<open>list_for_each\<close>: the nodes visited from \<open>p\<close> until the head is met; \<open>None\<close> when the fuel does not
  suffice. \<open>walk_ring\<close> below shows that one unit more than the number of nodes is enough.
\<close>

fun list_for_each :: "nat \<Rightarrow> list_head \<Rightarrow> u32 \<Rightarrow> u32 \<Rightarrow> u32 list option" where
  "list_for_each 0 m h p = None"
| "list_for_each (Suc fuel) m h p =
     (if p = h then Some [] else map_option (Cons p) (list_for_each fuel m h (lnext m p)))"

section \<open>Rings\<close>

fun linked :: "list_head \<Rightarrow> u32 list \<Rightarrow> bool" where
  "linked m (x # y # zs) \<longleftrightarrow> lnext m x = y \<and> lprev m y = x \<and> linked m (y # zs)"
| "linked m zs \<longleftrightarrow> True"

definition ring :: "list_head \<Rightarrow> u32 \<Rightarrow> u32 list \<Rightarrow> bool" where
  "ring m h xs \<longleftrightarrow> distinct (h # xs) \<and> linked m (h # xs @ [h])"

lemma linked_append:
  "linked m (xs @ [y] @ zs) \<longleftrightarrow> linked m (xs @ [y]) \<and> linked m (y # zs)"
  by (induction m "xs @ [y]" arbitrary: xs rule: linked.induct)
     (auto simp: Cons_eq_append_conv append_eq_Cons_conv)

lemma linked_snoc:
  "zs \<noteq> [] \<Longrightarrow> linked m (zs @ [y]) \<longleftrightarrow> linked m zs \<and> lnext m (last zs) = y \<and> lprev m y = last zs"
  by (induction m zs rule: linked.induct) auto

lemma ring_alt:
  "ring m h xs \<longleftrightarrow> distinct (h # xs) \<and> linked m (h # xs) \<and>
     lnext m (last (h # xs)) = h \<and> lprev m h = last (h # xs)"
  using linked_snoc [of "h # xs" m h] by (simp add: ring_def)

lemma linked_cong:
  assumes "\<And>x. x \<in> set (butlast zs) \<Longrightarrow> lnext m' x = lnext m x"
    and "\<And>x. x \<in> set (tl zs) \<Longrightarrow> lprev m' x = lprev m x"
  shows "linked m' zs = linked m zs"
  using assms
proof (induction m zs rule: linked.induct)
  case (1 m x y zs)
  have "linked m' (y # zs) = linked m (y # zs)"
    by (rule 1) (use "1.prems" in \<open>auto split: if_splits dest: list.set_sel(2)\<close>)
  with "1.prems" show ?case by simp
qed simp_all

lemma ring_init: "ring (INIT_LIST_HEAD m h) h []"
  by (simp add: ring_def INIT_LIST_HEAD_def)

lemma ring_first: "ring m h (x # xs) \<Longrightarrow> lnext m h = x"
  by (simp add: ring_def)

lemma ring_empty_iff: "ring m h xs \<Longrightarrow> list_empty m h \<longleftrightarrow> xs = []"
  by (cases xs) (auto simp: ring_def list_empty_def)

lemma distinct_butlast_last: "distinct (z # zs) \<Longrightarrow> x \<in> set (butlast (z # zs)) \<Longrightarrow> x \<noteq> last (z # zs)"
  by (metis append_butlast_last_id distinct_append disjoint_iff list.distinct(1) list.set_intros(1))

lemma ring_add_tail:
  assumes r: "ring m h xs" and n: "n \<notin> set (h # xs)"
  shows "ring (list_add_tail m n h) h (xs @ [n])"
proof -
  let ?m = "list_add_tail m n h" and ?p = "last (h # xs)"
  note ra = r [unfolded ring_alt]
  have next': "lnext ?m x = (if x = ?p then n else if x = n then h else lnext m x)" for x
    using ra by (simp add: list_add_tail_def list_insert_def)
  have prev': "lprev ?m x = (if x = n then ?p else if x = h then n else lprev m x)" for x
    using ra by (simp add: list_add_tail_def list_insert_def)
  have pn: "?p \<noteq> n" using n by (metis last_in_set list.distinct(1))
  have "linked ?m (h # xs) = linked m (h # xs)"
  proof (rule linked_cong)
    show "lnext ?m x = lnext m x" if "x \<in> set (butlast (h # xs))" for x
      using distinct_butlast_last [of h xs x] that in_set_butlastD [OF that] n ra by (auto simp: next')
    show "lprev ?m x = lprev m x" if "x \<in> set (tl (h # xs))" for x
      using that n ra by (auto simp: prev')
  qed
  then have "linked ?m ((h # xs) @ [n])"
    using ra pn by (subst linked_snoc) (simp_all add: next' prev')
  then show ?thesis using ra n pn unfolding ring_alt by (auto simp: next' prev')
qed

lemma ring_del:
  assumes r: "ring m h (xs @ n # ys)"
  shows "ring (list_del m n) h (xs @ ys)"
proof -
  let ?m = "list_del m n" and ?p = "last (h # xs)" and ?q = "hd (ys @ [h])"
  have d: "distinct (h # xs @ n # ys)" and l: "linked m ((h # xs) @ [n] @ (ys @ [h]))"
    using r by (simp_all add: ring_def)
  from l have l1: "linked m ((h # xs) @ [n])" and l2: "linked m (n # ys @ [h])"
    by (simp_all add: linked_append [of m "h # xs" n "ys @ [h]", simplified])
  from l1 have p: "lprev m n = ?p" and l3: "linked m (h # xs)" by (simp_all add: linked_snoc del: append_Cons)
  have q: "lnext m n = ?q" and l4: "linked m (ys @ [h])" using l2 by (cases ys; simp)+
  have next': "lnext ?m x = (if x = ?p then ?q else lnext m x)" for x
    by (simp add: list_del_def list_unlink_def p q)
  have prev': "lprev ?m x = (if x = ?q then ?p else lprev m x)" for x
    by (simp add: list_del_def list_unlink_def p q)
  have "linked ?m (h # xs) = linked m (h # xs)"
  proof (rule linked_cong)
    show "lnext ?m x = lnext m x" if "x \<in> set (butlast (h # xs))" for x
      using distinct_butlast_last [of h xs x] that d by (auto simp: next')
    show "lprev ?m x = lprev m x" if "x \<in> set (tl (h # xs))" for x
      using that d by (cases ys) (auto simp: prev')
  qed
  moreover have "linked ?m (ys @ [h]) = linked m (ys @ [h])"
  proof (rule linked_cong)
    show "lnext ?m x = lnext m x" if "x \<in> set (butlast (ys @ [h]))" for x
    proof -
      have "?p \<in> set (h # xs)" by (rule last_in_set) simp
      with that d have "x \<noteq> ?p" by auto
      then show ?thesis by (simp only: next' if_False)
    qed
    show "lprev ?m x = lprev m x" if "x \<in> set (tl (ys @ [h]))" for x
      using that d by (cases ys) (auto simp: prev')
  qed
  ultimately have "linked ?m ((h # xs) @ [?q])" and "linked ?m (ys @ [h])"
    using l3 l4 by (simp_all add: linked_snoc next' prev' del: append_Cons)
  then have "linked ?m ((h # xs) @ ys @ [h])"
    using linked_append [of ?m "h # xs" ?q "tl ys @ [h]"] by (cases ys) (simp_all del: linked.simps(1))
  then show ?thesis using d by (simp add: ring_def)
qed

lemma for_each_linked:
  assumes "linked m (p # ys @ [h])" and "h \<notin> set (p # ys)" and "length ys + 1 < fuel"
  shows "list_for_each fuel m h p = Some (p # ys)"
  using assms
proof (induction ys arbitrary: p fuel)
  case Nil
  then obtain f where "fuel = Suc (Suc f)" by (metis Suc_eq_plus1 Suc_lessE less_imp_Suc_add)
  with Nil show ?case by simp
next
  case (Cons y ys)
  then obtain f where f: "fuel = Suc f" by (cases fuel) auto
  have "list_for_each f m h y = Some (y # ys)" by (rule Cons.IH) (use Cons.prems f in auto)
  with Cons.prems f show ?case by auto
qed

lemma ring_for_each:
  assumes "ring m h xs" and "length xs < fuel"
  shows "list_for_each fuel m h (lnext m h) = Some xs"
proof (cases xs)
  case Nil
  with assms show ?thesis by (cases fuel) (auto simp: ring_def)
next
  case (Cons y ys)
  with assms show ?thesis using for_each_linked [of m y ys h fuel] by (simp add: ring_def)
qed

section \<open>The list interface\<close>

text \<open>What the queues rely on: a represented sequence, appending, unlinking and reading the first node.\<close>

locale node_list =
  fixes repr :: "'m \<Rightarrow> 'n \<Rightarrow> 'n list \<Rightarrow> bool"
    and init :: "'m \<Rightarrow> 'n \<Rightarrow> 'm"
    and add_tail :: "'m \<Rightarrow> 'n \<Rightarrow> 'n \<Rightarrow> 'm"
    and del :: "'m \<Rightarrow> 'n \<Rightarrow> 'm"
    and first :: "'m \<Rightarrow> 'n \<Rightarrow> 'n"
    and is_empty :: "'m \<Rightarrow> 'n \<Rightarrow> bool"
  assumes repr_init: "repr (init m h) h []"
    and repr_distinct: "repr m h xs \<Longrightarrow> distinct (h # xs)"
    and repr_add_tail: "repr m h xs \<Longrightarrow> n \<notin> set (h # xs) \<Longrightarrow> repr (add_tail m n h) h (xs @ [n])"
    and repr_del: "repr m h (xs @ n # ys) \<Longrightarrow> repr (del m n) h (xs @ ys)"
    and repr_first: "repr m h (x # xs) \<Longrightarrow> first m h = x"
    and repr_is_empty: "repr m h xs \<Longrightarrow> is_empty m h \<longleftrightarrow> xs = []"
begin

text \<open>Taking the first node of a non-empty list.\<close>

fun drain :: "nat \<Rightarrow> 'm \<Rightarrow> 'n \<Rightarrow> 'n list" where
  "drain 0 m h = []"
| "drain (Suc k) m h = (if is_empty m h then [] else first m h # drain k (del m (first m h)) h)"

lemma repr_del_mem: "repr m h xs \<Longrightarrow> n \<in> set xs \<Longrightarrow> repr (del m n) h (remove1 n xs)"
proof -
  assume r: "repr m h xs" and "n \<in> set xs"
  then obtain us vs where xs: "xs = us @ n # vs" by (metis split_list)
  moreover have "n \<notin> set us" using repr_distinct [OF r] xs by auto
  ultimately show ?thesis using r repr_del by (simp add: remove1_append)
qed

lemma repr_fill:
  "repr m h xs \<Longrightarrow> distinct (h # xs @ ns) \<Longrightarrow> repr (fold (\<lambda>n m. add_tail m n h) ns m) h (xs @ ns)"
proof (induction ns arbitrary: m xs)
  case (Cons n ns)
  have "repr (add_tail m n h) h (xs @ [n])" using Cons.prems by (intro repr_add_tail) auto
  from Cons.IH [OF this] Cons.prems show ?case by simp
qed simp

lemma repr_drain: "repr m h xs \<Longrightarrow> drain (length xs) m h = xs"
proof (induction xs arbitrary: m)
  case (Cons x xs)
  have "repr (del m x) h xs" using repr_del [of m h "[]" x xs] Cons.prems by simp
  then show ?case using Cons repr_is_empty repr_first by auto
qed simp

lemma fifo:
  assumes "distinct (h # ns)"
  shows "drain (length ns) (fold (\<lambda>n m. add_tail m n h) ns (init m h)) h = ns"
  using repr_drain repr_fill [OF repr_init] assms by simp

end

interpretation ll: node_list ring INIT_LIST_HEAD list_add_tail list_del lnext list_empty
proof unfold_locales
  show "distinct (h # xs)" if "ring m h xs" for m h xs using that unfolding ring_def by (rule conjunct1)
qed (fact ring_init ring_add_tail ring_del ring_first ring_empty_iff)+

section \<open>Properties\<close>

text \<open>
  Pointer lists implement sequences: nodes that are appended one by one to an initialised head
  and of which one is then unlinked are visited by \<open>list_for_each\<close> in the order in which they were
  appended, without the unlinked one, and the traversal ends at the head.
\<close>

theorem list_traversal:
  assumes "distinct (h # ns)" and "n \<in> set ns" and "length ns \<le> fuel"
    and "m' = list_del (fold (\<lambda>x m. list_add_tail m x h) ns (INIT_LIST_HEAD m h)) n"
  shows "list_for_each fuel m' h (lnext m' h) = Some (remove1 n ns)"
proof (rule ring_for_each)
  have "ring (fold (\<lambda>x m. list_add_tail m x h) ns (INIT_LIST_HEAD m h)) h ns"
    using ll.repr_fill [OF ll.repr_init, of h ns] assms(1) by simp
  from ll.repr_del_mem [OF this assms(2)] show "ring m' h (remove1 n ns)" by (simp add: assms(4))
  have "0 < length ns" using assms(2) by (cases ns) auto
  with assms(2,3) show "length (remove1 n ns) < fuel" unfolding length_remove1 if_P [OF assms(2)] by linarith
qed

theorem list_traversal_witness:
  "let m' = list_del (fold (\<lambda>x m. list_add_tail m x 16) [20, 24, 28]
              (INIT_LIST_HEAD \<lparr>lnext = \<lambda>_. 0, lprev = \<lambda>_. 0\<rparr> 16)) 24
   in list_for_each 3 m' 16 (lnext m' 16) = Some [20, 28]"
  using list_traversal [of 16 "[20, 24, 28]" 24 3] by (simp add: Let_def)

end
