(* ===== verification/Msg_Queue.thy ===== *)
theory Msg_Queue
  imports Msg_Buffer Linux_List
begin

text \<open>
  The message queues of \<open>common/msg_queue.c\<close>. A queue owns a buffer context; a queued message lives
  in one of its blocks, and the block's head holds the list node. \<open>qlist\<close> is the sequence of the
  nodes' addresses (the theory of linked lists shows that the pointer structure represents such
  sequences) and \<open>bodies\<close> the memory of the block bodies. Handles are addresses in a store of
  queues; 0 is \<open>NULL\<close>, and the use of a handle that names no queue is \<open>None\<close>. Each operation runs
  under the queue's lock and is one atomic step.
\<close>

section \<open>Data and operations\<close>

record MSG_QUEUE_S =
  num :: s32
  qlist :: "u32 list"
  bufHandle :: MB_CONTEXT_S
  bodies :: "u32 \<Rightarrow> VTOP_MSG_S_InnerBlock"

type_synonym queues = "u32 \<rightharpoonup> MSG_QUEUE_S"

text \<open>What the \<open>malloc\<close> calls of \<open>MSG_QueueInit\<close> return.\<close>

record QUEUE_MALLOC =
  queue_at :: "u32 option"
  queue_mb :: MB_MALLOC

text \<open>\<open>pNode->priv_data\<close> of a node, which is embedded in its block's head.\<close>

definition node_priv :: "MB_CONTEXT_S \<Rightarrow> u32 \<Rightarrow> u32" where
  "node_priv ctx n = priv_data (heads ctx (n - QNODE_OFFSET))"

definition set_node_priv :: "MB_CONTEXT_S \<Rightarrow> u32 \<Rightarrow> u32 \<Rightarrow> MB_CONTEXT_S" where
  "set_node_priv ctx n p =
     (let a = n - QNODE_OFFSET in
      ctx\<lparr>heads := (heads ctx)(a := (heads ctx a)\<lparr>priv_data := p\<rparr>)\<rparr>)"

definition queue_buffer :: "string \<Rightarrow> VTOP_MSG_S_Buffer" where
  "queue_buffer name = \<lparr>blockNum = [128, 8, 0, 0], blockSize = [256, 512, 0, 0], bufName = name\<rparr>"

definition MSG_QueueInit ::
  "QUEUE_MALLOC \<Rightarrow> (u32 \<Rightarrow> VTOP_MSG_S_InnerBlock) \<Rightarrow> string \<Rightarrow> u32 \<Rightarrow> queues \<Rightarrow> ((s32 + u32) \<times> queues) run" where
  "MSG_QueueInit m mem name bufsize qs =
     (if bufsize < 1024 then Some (Inl HI_FAILURE, qs)
      else case queue_at m of None \<Rightarrow> Some (Inl (-1), qs)
      | Some h \<Rightarrow>
        do {
          r \<leftarrow> MB_Init (queue_mb m) True (Some (queue_buffer name));
          Some (case r of Inl _ \<Rightarrow> (Inl (-1), qs)
                | Inr ctx \<Rightarrow>
                  (Inr h, qs(h \<mapsto> \<lparr>num = 0, qlist = [], bufHandle = ctx, bodies = mem\<rparr>)))
        })"

text \<open>The locked part of \<open>MSG_QueuePut\<close>.\<close>

definition queue_put :: "MSG_QUEUE_S \<Rightarrow> VTOP_MSG_S_InnerBlock \<Rightarrow> s32 \<times> MSG_QUEUE_S" where
  "queue_put q pm =
     (case MB_Alloc (bufHandle q) (ulMsgLen (msg pm) + MSG_INNER_HEAD_LEN) of
        (None, ctx) \<Rightarrow> (-1, q\<lparr>bufHandle := ctx\<rparr>)
      | (Some pBuf, ctx) \<Rightarrow>
          let pNode = MB_GetQNode pBuf in
          (HI_SUCCESS,
           q\<lparr>bodies := (bodies q)(pBuf := MSG_COPY2BUF pm),
             bufHandle := set_node_priv ctx pNode pBuf,
             qlist := qlist q @ [pNode],
             num := num q + 1\<rparr>))"

definition MSG_QueuePut ::
  "u32 \<Rightarrow> VTOP_MSG_S_InnerBlock option \<Rightarrow> queues \<Rightarrow> (s32 \<times> queues) run" where
  "MSG_QueuePut handle pMsg' qs =
     (if handle = 0 then Some (VTOP_MSG_ERR_INVALIDPARA, qs)
      else case pMsg' of None \<Rightarrow> Some (VTOP_MSG_ERR_INVALIDPARA, qs)
      | Some pm \<Rightarrow>
        if ulMsgLen (msg pm) > VTOP_MSG_MAX_MSG_SIZE then Some (VTOP_MSG_ERR_MSGSIZE, qs)
        else if body_mismatch (msg pm) then Some (VTOP_MSG_ERR_INVALIDPARA, qs)
        else do {
          q \<leftarrow> qs handle;
          let (ret, q') = queue_put q pm;
          Some (ret, qs(handle \<mapsto> q'))
        })"

text \<open>The locked part of \<open>MSG_QueueGet\<close>: the body pointer of the first node, or nothing.\<close>

definition queue_get :: "MSG_QUEUE_S \<Rightarrow> u32 option \<times> MSG_QUEUE_S" where
  "queue_get q =
     (case qlist q of [] \<Rightarrow> (None, q)
      | n # ns \<Rightarrow> (Some (node_priv (bufHandle q) n), q\<lparr>qlist := ns, num := num q - 1\<rparr>))"

definition MSG_QueueGet :: "u32 \<Rightarrow> bool \<Rightarrow> queues \<Rightarrow> ((s32 + u32) \<times> queues) run" where
  "MSG_QueueGet handle pp qs =
     (if handle = 0 \<or> \<not> pp then Some (Inl VTOP_MSG_ERR_INVALIDPARA, qs)
      else do {
        q \<leftarrow> qs handle;
        Some (case queue_get q of
            (Some p, q') \<Rightarrow> (Inr p, qs(handle \<mapsto> q'))
          | (None, q') \<Rightarrow> (Inl HI_FAILURE, qs))
      })"

text \<open>
  The loop of \<open>MSG_QueueGetMerge\<close> over the nodes behind the first: a message of the merged type
  is unlinked, the message held so far is released, and this one is held instead.
\<close>

fun merge_loop :: "u32 \<Rightarrow> u32 list \<Rightarrow> u32 \<Rightarrow> MSG_QUEUE_S \<Rightarrow> (u32 \<times> MSG_QUEUE_S) run" where
  "merge_loop t [] lastp q = Some (lastp, q)"
| "merge_loop t (n # ns) lastp q =
     (let p = node_priv (bufHandle q) n in
      if t = msgType (msg (bodies q p))
      then do {
        ctx \<leftarrow> MB_Free (bufHandle q) (Some lastp);
        merge_loop t ns p (q\<lparr>qlist := remove1 n (qlist q), num := num q - 1, bufHandle := ctx\<rparr>)
      }
      else merge_loop t ns lastp q)"

definition MSG_QueueGetMerge :: "u32 \<Rightarrow> u32 \<Rightarrow> queues \<Rightarrow> ((s32 + u32) \<times> queues) run" where
  "MSG_QueueGetMerge handle t qs =
     (if handle = 0 then Some (Inl HI_FAILURE, qs)
      else do {
        q \<leftarrow> qs handle;
        case queue_get q of
          (None, _) \<Rightarrow> Some (Inl HI_FAILURE, qs)
        | (Some p, q') \<Rightarrow> do {
            (lastp, q'') \<leftarrow> merge_loop t (qlist q') p q';
            Some (Inr lastp, qs(handle \<mapsto> q''))
          }
      })"

text \<open>The locked part of \<open>MSG_QueueFree\<close>.\<close>

definition queue_release :: "u32 \<Rightarrow> MSG_QUEUE_S \<Rightarrow> MSG_QUEUE_S run" where
  "queue_release p q = map_option (\<lambda>ctx. q\<lparr>bufHandle := ctx\<rparr>) (MB_Free (bufHandle q) (Some p))"

definition MSG_QueueFree :: "u32 \<Rightarrow> u32 option \<Rightarrow> queues \<Rightarrow> queues run" where
  "MSG_QueueFree handle pMsg' qs =
     (if handle = 0 then Some qs
      else case pMsg' of None \<Rightarrow> Some qs
      | Some p \<Rightarrow> do {
          q \<leftarrow> qs handle;
          q' \<leftarrow> queue_release p q;
          Some (qs(handle \<mapsto> q'))
        })"

text \<open>The loop of \<open>MSG_QueueRemove\<close>; \<open>num\<close> is not touched.\<close>

definition queue_drop :: "u32 \<Rightarrow> MSG_QUEUE_S \<Rightarrow> MSG_QUEUE_S run" where
  "queue_drop n q = do {
     ctx \<leftarrow> MB_Free (bufHandle q) (Some (node_priv (bufHandle q) n));
     Some (q\<lparr>qlist := remove1 n (qlist q), bufHandle := ctx\<rparr>)
   }"

definition MSG_QueueRemove :: "u32 \<Rightarrow> queues \<Rightarrow> queues run" where
  "MSG_QueueRemove handle qs =
     (if handle = 0 then Some qs
      else do {
        q \<leftarrow> qs handle;
        q' \<leftarrow> iter queue_drop (qlist q) q;
        Some (qs(handle \<mapsto> q'))
      })"

text \<open>\<open>MSG_QueueDeinit\<close>: the queue and its buffer context are released and leave the store.\<close>

definition MSG_QueueDeinit :: "u32 \<Rightarrow> queues \<Rightarrow> queues run" where
  "MSG_QueueDeinit handle qs =
     (if handle = 0 then Some qs
      else do {
        qs' \<leftarrow> MSG_QueueRemove handle qs;
        Some (qs'(handle := None))
      })"

section \<open>Invariant and abstraction\<close>

text \<open>
  Every queued node sits in a block that is in use and points to that block's body. The abstract
  queue is the sequence of the stored messages; \<open>outstanding\<close> are the blocks that a receiver got and
  has not released.
\<close>

definition qptrs :: "MSG_QUEUE_S \<Rightarrow> u32 list" where
  "qptrs q = map (node_priv (bufHandle q)) (qlist q)"

definition queue_wf :: "MSG_QUEUE_S \<Rightarrow> bool" where
  "queue_wf q \<longleftrightarrow> mb_ok (bufHandle q) \<and> distinct (qlist q) \<and>
     (\<forall>n \<in> set (qlist q). n = MB_GetQNode (node_priv (bufHandle q) n) \<and>
        mb_live (bufHandle q) (node_priv (bufHandle q) n))"

definition queue_ok :: "MSG_QUEUE_S \<Rightarrow> bool" where
  "queue_ok q \<longleftrightarrow> queue_wf q \<and> num q = int (length (qlist q))"

definition queue_abs :: "MSG_QUEUE_S \<Rightarrow> VTOP_MSG_S_InnerBlock list" where
  "queue_abs q = map (bodies q) (qptrs q)"

definition outstanding :: "MSG_QUEUE_S \<Rightarrow> u32 \<Rightarrow> bool" where
  "outstanding q p \<longleftrightarrow> mb_live (bufHandle q) p \<and> p \<notin> set (qptrs q)"

section \<open>Facts about nodes\<close>

lemma qnode_eq [simp]: "MB_GetQNode p - QNODE_OFFSET = p - MB_HEAD_LEN"
  by (simp add: MB_GetQNode_def)

lemma qnode_inj [simp]: "MB_GetQNode p = MB_GetQNode p' \<longleftrightarrow> p = p'"
  by (simp add: MB_GetQNode_def)

lemma set_priv_ok [simp]: "mb_ok (set_node_priv ctx n p) = mb_ok ctx"
proof -
  let ?h = "(heads ctx)(n - QNODE_OFFSET := (heads ctx (n - QNODE_OFFSET))\<lparr>priv_data := p\<rparr>)"
  have "flag (?h a) = flag (heads ctx a)" "buffer_id (?h a) = buffer_id (heads ctx a)"
    "block_id (?h a) = block_id (heads ctx a)" for a by simp_all
  then have "level_ok ?h i l = level_ok (heads ctx) i l" for i l
    unfolding level_ok_def by presburger
  then show ?thesis by (simp add: mb_ok_def set_node_priv_def Let_def)
qed

lemma set_priv_live [simp]: "mb_live (set_node_priv ctx n p) q = mb_live ctx q"
  by (simp add: mb_live_def mb_block_def set_node_priv_def Let_def)

lemma node_priv_set [simp]:
  "node_priv (set_node_priv ctx n p) n' = (if n' = n then p else node_priv ctx n')"
  by (simp add: node_priv_def set_node_priv_def Let_def)

lemma queue_okD: "queue_ok q \<Longrightarrow> queue_wf q"
  by (simp add: queue_ok_def)

lemma qptrs_distinct: "queue_wf q \<Longrightarrow> distinct (qptrs q)"
  unfolding qptrs_def distinct_map queue_ok_def queue_wf_def by (metis inj_onI)

lemma qptrs_live: "queue_wf q \<Longrightarrow> p \<in> set (qptrs q) \<Longrightarrow> mb_live (bufHandle q) p"
  by (auto simp: qptrs_def queue_ok_def queue_wf_def)

lemma priv_alloc:
  assumes "mb_ok ctx" and "MB_Alloc ctx sz = (r, ctx')"
  shows "node_priv ctx' n = node_priv ctx n"
proof (cases r)
  case None
  with assms have "ctx' = ctx" using MB_Alloc_None by blast
  then show ?thesis by simp
next
  case (Some p)
  with assms MB_Alloc_live(5) show ?thesis by (metis node_priv_def)
qed

lemma priv_free:
  assumes "mb_ok ctx" and "mb_live ctx p" and "MB_Free ctx (Some p) = Some ctx'"
  shows "node_priv ctx' n = node_priv ctx n"
  using MB_Free_live(4) [OF assms] by (simp add: node_priv_def)

section \<open>Put and get\<close>

lemma queue_put_cases:
  assumes ok: "queue_ok q" and put: "queue_put q pm = (ret, q')"
  obtains (full) "ret = -1" and "q' = q" and "fst (MB_Alloc (bufHandle q) (ulMsgLen (msg pm) + MSG_INNER_HEAD_LEN)) = None"
  | (stored) p ctx where "ret = HI_SUCCESS"
    and "MB_Alloc (bufHandle q) (ulMsgLen (msg pm) + MSG_INNER_HEAD_LEN) = (Some p, ctx)"
    and "\<not> mb_live (bufHandle q) p"
    and "q' = q\<lparr>bodies := (bodies q)(p := MSG_COPY2BUF pm),
             bufHandle := set_node_priv ctx (MB_GetQNode p) p,
             qlist := qlist q @ [MB_GetQNode p], num := num q + 1\<rparr>"
proof (cases "MB_Alloc (bufHandle q) (ulMsgLen (msg pm) + MSG_INNER_HEAD_LEN)")
  case (Pair r ctx)
  show thesis
  proof (cases r)
    case None
    with Pair have "ctx = bufHandle q" using MB_Alloc_None by blast
    with Pair None put show thesis by (intro full) (auto simp: queue_put_def)
  next
    case (Some p)
    with Pair have "\<not> mb_live (bufHandle q) p" using ok by (auto simp: queue_ok_def queue_wf_def dest: MB_Alloc_live(2))
    with Pair Some put show thesis by (intro stored) (auto simp: queue_put_def Let_def)
  qed
qed

lemma queue_put_stored:
  assumes ok: "queue_ok q" and put: "queue_put q pm = (HI_SUCCESS, q')"
  shows "queue_ok q'" and "queue_abs q' = queue_abs q @ [MSG_COPY2BUF pm]"
    and "outstanding q' p = outstanding q p"
    and "mb_live (bufHandle q) p \<Longrightarrow> bodies q' p = bodies q p"
proof -
  from queue_put_cases [OF ok put] obtain b ctx
    where al: "MB_Alloc (bufHandle q) (ulMsgLen (msg pm) + MSG_INNER_HEAD_LEN) = (Some b, ctx)"
      and nl: "\<not> mb_live (bufHandle q) b"
      and q': "q' = q\<lparr>bodies := (bodies q)(b := MSG_COPY2BUF pm),
             bufHandle := set_node_priv ctx (MB_GetQNode b) b,
             qlist := qlist q @ [MB_GetQNode b], num := num q + 1\<rparr>"
    by (auto simp: HI_SUCCESS_def)
  have mb: "mb_ok (bufHandle q)" using ok by (simp add: queue_ok_def queue_wf_def)
  have priv: "node_priv ctx n = node_priv (bufHandle q) n" for n by (rule priv_alloc [OF mb al])
  have live: "mb_live ctx x \<longleftrightarrow> mb_live (bufHandle q) x \<or> x = b" for x by (rule pool.alloc_live [OF mb al])
  have new: "MB_GetQNode b \<notin> set (qlist q)" using ok nl by (auto simp: queue_ok_def queue_wf_def)
  have ptrs: "qptrs q' = qptrs q @ [b]" using new by (auto simp: qptrs_def q' priv)
  have nb: "b \<notin> set (qptrs q)" using qptrs_live [OF queue_okD [OF ok]] nl by blast
  show "queue_ok q'"
    using ok new pool.alloc_ok [OF mb al] by (auto simp: queue_ok_def queue_wf_def q' priv live)
  show "queue_abs q' = queue_abs q @ [MSG_COPY2BUF pm]"
    unfolding queue_abs_def ptrs using nb by (auto simp: q')
  show "outstanding q' p = outstanding q p"
    using nl by (auto simp: outstanding_def ptrs) (simp_all add: q' live)
  show "mb_live (bufHandle q) p \<Longrightarrow> bodies q' p = bodies q p" using nl by (auto simp: q')
qed

lemma queue_put_ok [inv_intros]: "queue_ok q \<Longrightarrow> queue_put q pm = (ret, q') \<Longrightarrow> queue_ok q'"
  by (metis queue_put_cases queue_put_stored(1))

text \<open>Taking a node out of the list makes its block outstanding.\<close>

lemma queue_unlink:
  assumes wf: "queue_wf q" and l: "qlist q = pre @ n # ns" and q': "q' = q\<lparr>qlist := pre @ ns, num := k\<rparr>"
  shows "queue_wf q'" and "outstanding q' x \<longleftrightarrow> outstanding q x \<or> x = node_priv (bufHandle q) n"
proof -
  let ?p = "node_priv (bufHandle q) n"
  show "queue_wf q'" using wf by (auto simp: queue_wf_def l q')
  have set: "set (qptrs q) = insert ?p (set (qptrs q'))" by (simp add: qptrs_def l q')
  have "?p \<notin> set (qptrs q')" "mb_live (bufHandle q) ?p"
    using qptrs_distinct [OF wf] qptrs_live [OF wf, of ?p] by (auto simp: qptrs_def l q')
  then show "outstanding q' x \<longleftrightarrow> outstanding q x \<or> x = ?p"
    unfolding outstanding_def set by (auto simp: q')
qed

lemma queue_get_some:
  assumes ok: "queue_ok q" and get: "queue_get q = (Some p, q')"
  shows "queue_ok q'" and "queue_abs q = bodies q p # queue_abs q'"
    and "outstanding q' x \<longleftrightarrow> outstanding q x \<or> x = p" and "bodies q' = bodies q"
    and "bufHandle q' = bufHandle q"
proof -
  from get obtain n ns where l: "qlist q = [] @ n # ns" and p: "p = node_priv (bufHandle q) n"
    and q': "q' = q\<lparr>qlist := [] @ ns, num := num q - 1\<rparr>"
    by (auto simp: queue_get_def split: list.splits)
  note un = queue_unlink [OF queue_okD [OF ok] l q']
  show "queue_ok q'" using ok un(1) by (simp add: queue_ok_def l) (simp add: q')
  show "queue_abs q = bodies q p # queue_abs q'" by (simp add: queue_abs_def qptrs_def l q' p)
  show "bodies q' = bodies q" "bufHandle q' = bufHandle q" by (simp_all add: q')
  show "outstanding q' x \<longleftrightarrow> outstanding q x \<or> x = p" using un(2) p by simp
qed

lemma queue_get_none_iff: "fst (queue_get q) = None \<longleftrightarrow> queue_abs q = []"
  by (simp add: queue_get_def queue_abs_def qptrs_def split: list.split)

section \<open>Release\<close>

lemma queue_free_outstanding:
  assumes wf: "queue_wf q" and p: "outstanding q p"
  obtains ctx where "MB_Free (bufHandle q) (Some p) = Some ctx"
    and "queue_wf (q\<lparr>bufHandle := ctx\<rparr>)" and "\<And>n. node_priv ctx n = node_priv (bufHandle q) n"
    and "\<And>x. outstanding (q\<lparr>bufHandle := ctx\<rparr>) x \<longleftrightarrow> outstanding q x \<and> x \<noteq> p"
proof -
  have mb: "mb_ok (bufHandle q)" and l: "mb_live (bufHandle q) p" and np: "p \<notin> set (qptrs q)"
    using wf p by (simp_all add: queue_wf_def outstanding_def)
  obtain ctx where c: "MB_Free (bufHandle q) (Some p) = Some ctx" using MB_Free_succeeds [OF mb l] by blast
  have priv: "node_priv ctx n = node_priv (bufHandle q) n" for n by (rule priv_free [OF mb l c])
  have live: "mb_live ctx x \<longleftrightarrow> mb_live (bufHandle q) x \<and> x \<noteq> p" for x by (rule pool.release_live [OF mb l c])
  have "queue_wf (q\<lparr>bufHandle := ctx\<rparr>)"
    using wf np MB_Free_ok [OF mb l c] by (auto simp: queue_wf_def priv live qptrs_def)
  moreover have "outstanding (q\<lparr>bufHandle := ctx\<rparr>) x \<longleftrightarrow> outstanding q x \<and> x \<noteq> p" for x
    using np by (auto simp: outstanding_def qptrs_def priv live)
  ultimately show thesis using c priv by (intro that)
qed

lemma queue_abs_bufHandle:
  "(\<And>n. node_priv ctx n = node_priv (bufHandle q) n) \<Longrightarrow> queue_abs (q\<lparr>bufHandle := ctx\<rparr>) = queue_abs q"
  by (simp add: queue_abs_def qptrs_def)

text \<open>The messages of a sequence of nodes.\<close>

definition msgs :: "MSG_QUEUE_S \<Rightarrow> u32 list \<Rightarrow> VTOP_MSG_S_InnerBlock list" where
  "msgs q ns = map (\<lambda>n. bodies q (node_priv (bufHandle q) n)) ns"

lemma queue_abs_msgs: "queue_abs q = msgs q (qlist q)"
  by (simp add: queue_abs_def qptrs_def msgs_def)

lemma queue_drop_spec:
  assumes wf: "queue_wf q" and l: "qlist q = n # ns"
  obtains q' where "queue_drop n q = Some q'" and "queue_wf q'" and "qlist q' = ns"
    and "\<And>x. outstanding q' x = outstanding q x"
proof -
  let ?p = "node_priv (bufHandle q) n" and ?q = "q\<lparr>qlist := [] @ ns, num := num q\<rparr>"
  have l': "qlist q = [] @ n # ns" using l by simp
  have no: "\<not> outstanding q ?p" by (simp add: outstanding_def qptrs_def l)
  note un = queue_unlink [OF wf l' refl, of "num q"]
  have out: "outstanding ?q ?p" using un(2) by blast
  from queue_free_outstanding [OF un(1) out] obtain ctx where
    f: "MB_Free (bufHandle q) (Some ?p) = Some ctx" and w: "queue_wf (?q\<lparr>bufHandle := ctx\<rparr>)"
    and "\<And>m. node_priv ctx m = node_priv (bufHandle q) m"
    and o: "\<And>x. outstanding (?q\<lparr>bufHandle := ctx\<rparr>) x \<longleftrightarrow> outstanding ?q x \<and> x \<noteq> ?p" by auto
  show thesis
  proof (rule that)
    show "queue_drop n q = Some (?q\<lparr>bufHandle := ctx\<rparr>)" using f by (simp add: queue_drop_def l)
    show "outstanding (?q\<lparr>bufHandle := ctx\<rparr>) x = outstanding q x" for x using o un(2) no by auto
  qed (use w in simp_all)
qed

lemma queue_remove_all:
  assumes "queue_wf q"
  shows "\<exists>q'. iter queue_drop (qlist q) q = Some q' \<and> queue_wf q' \<and> qlist q' = [] \<and>
    (\<forall>x. outstanding q' x = outstanding q x)"
  using assms
proof (induction "qlist q" arbitrary: q)
  case (Cons n ns)
  from queue_drop_spec [OF Cons.prems Cons.hyps(2) [symmetric]] obtain q1
    where q1: "queue_drop n q = Some q1" "queue_wf q1" "qlist q1 = ns"
      and o1: "\<And>x. outstanding q1 x = outstanding q x" by blast
  from Cons.hyps(1) [OF q1(3) [symmetric] q1(2)] show ?case
    using q1 o1 by (simp add: Cons.hyps(2) [symmetric])
qed simp

section \<open>Merging\<close>

lemma merge_loop_spec:
  assumes "queue_ok q" and "outstanding q lastp" and "qlist q = pre @ ns"
  shows "\<exists>lp q'. merge_loop t ns lastp q = Some (lp, q') \<and> queue_ok q' \<and> bodies q' = bodies q \<and>
    queue_abs q' = msgs q pre @ filter (\<lambda>m. msgType (msg m) \<noteq> t) (msgs q ns) \<and>
    bodies q lp = last (bodies q lastp # filter (\<lambda>m. msgType (msg m) = t) (msgs q ns)) \<and>
    (\<forall>x. outstanding q' x \<longleftrightarrow> outstanding q x \<and> x \<noteq> lastp \<or> x = lp)"
  using assms
proof (induction ns arbitrary: q lastp pre)
  case Nil
  then show ?case by (auto simp: queue_abs_msgs msgs_def)
next
  case (Cons n ns)
  let ?p = "node_priv (bufHandle q) n" and ?b = "bodies q (node_priv (bufHandle q) n)"
  show ?case
  proof (cases "msgType (msg ?b) = t")
    case False
    have "qlist q = (pre @ [n]) @ ns" using Cons.prems by simp
    from Cons.IH [OF Cons.prems(1,2) this] False show ?thesis by (simp add: msgs_def)
  next
    case True
    let ?q = "q\<lparr>qlist := pre @ ns, num := num q - 1\<rparr>"
    note wf = queue_okD [OF Cons.prems(1)]
    note un = queue_unlink [OF wf Cons.prems(3) refl, of "num q - 1"]
    have out: "outstanding ?q lastp" using un(2) Cons.prems(2) by blast
    from queue_free_outstanding [OF un(1) out] obtain ctx where
      f: "MB_Free (bufHandle q) (Some lastp) = Some ctx" and w: "queue_wf (?q\<lparr>bufHandle := ctx\<rparr>)"
      and pr: "\<And>m. node_priv ctx m = node_priv (bufHandle q) m"
      and o: "\<And>x. outstanding (?q\<lparr>bufHandle := ctx\<rparr>) x \<longleftrightarrow> outstanding ?q x \<and> x \<noteq> lastp" by auto
    let ?q1 = "?q\<lparr>bufHandle := ctx\<rparr>"
    have ok1: "queue_ok ?q1" using w Cons.prems(1,3) by (simp add: queue_ok_def)
    have np: "?p \<noteq> lastp" "\<not> outstanding q ?p"
      using Cons.prems(2,3) by (auto simp: outstanding_def qptrs_def)
    have o1: "outstanding ?q1 x \<longleftrightarrow> (outstanding q x \<or> x = ?p) \<and> x \<noteq> lastp" for x using o un(2) by simp
    have "outstanding ?q1 ?p" using o1 np by simp
    have "n \<notin> set pre" using wf Cons.prems(3) by (simp add: queue_wf_def)
    then have step: "merge_loop t (n # ns) lastp q = merge_loop t ns ?p ?q1"
      using True f Cons.prems(3) by (simp add: Let_def remove1_append)
    have ms: "msgs ?q1 ks = msgs q ks" for ks by (simp add: msgs_def pr)
    from Cons.IH [OF ok1 \<open>outstanding ?q1 ?p\<close>, of pre] obtain lp q' where
      m: "merge_loop t ns ?p ?q1 = Some (lp, q')" and m1: "queue_ok q'" "bodies q' = bodies q"
      "queue_abs q' = msgs q pre @ filter (\<lambda>m. msgType (msg m) \<noteq> t) (msgs q ns)"
      "bodies q lp = last (?b # filter (\<lambda>m. msgType (msg m) = t) (msgs q ns))"
      and m2: "\<forall>x. outstanding q' x \<longleftrightarrow> outstanding ?q1 x \<and> x \<noteq> ?p \<or> x = lp"
      unfolding ms by auto
    have "outstanding q' x \<longleftrightarrow> outstanding q x \<and> x \<noteq> lastp \<or> x = lp" for x
      using m2 o1 np by auto
    with m m1 True show ?thesis unfolding step by (auto simp: msgs_def)
  qed
qed

section \<open>The queue interface\<close>

text \<open>
  What the rest of the message system relies on: a bounded queue of copies. \<open>inv\<close> relates a queue to
  the history of its use: what was accepted is what was received followed by what is still queued,
  and the receiver holds exactly the outstanding blocks.
\<close>

locale message_queue =
  fixes ok :: "'q \<Rightarrow> bool"
    and abs :: "'q \<Rightarrow> 'm list"
    and out :: "'q \<Rightarrow> 'p \<Rightarrow> bool"
    and content :: "'q \<Rightarrow> 'p \<Rightarrow> 'm"
    and copy :: "'m \<Rightarrow> 'm"
    and put :: "'q \<Rightarrow> 'm \<Rightarrow> s32 \<times> 'q"
    and get :: "'q \<Rightarrow> 'p option \<times> 'q"
    and rel :: "'p \<Rightarrow> 'q \<Rightarrow> 'q run"
  assumes put_stored: "ok q \<Longrightarrow> put q m = (HI_SUCCESS, q') \<Longrightarrow>
      ok q' \<and> abs q' = abs q @ [copy m] \<and> (\<forall>p. out q' p = out q p)"
    and put_full: "ok q \<Longrightarrow> put q m = (r, q') \<Longrightarrow> r \<noteq> HI_SUCCESS \<Longrightarrow> q' = q"
    and get_some: "ok q \<Longrightarrow> get q = (Some p, q') \<Longrightarrow>
      ok q' \<and> abs q = content q p # abs q' \<and> (\<forall>x. out q' x \<longleftrightarrow> out q x \<or> x = p) \<and> \<not> out q p"
    and get_none: "get q = (None, q') \<Longrightarrow> q' = q \<and> abs q = []"
    and rel_out: "ok q \<Longrightarrow> out q p \<Longrightarrow>
      \<exists>q'. rel p q = Some q' \<and> ok q' \<and> abs q' = abs q \<and> (\<forall>x. out q' x \<longleftrightarrow> out q x \<and> x \<noteq> p)"
begin

definition inv :: "'q \<Rightarrow> 'p list \<Rightarrow> 'm list \<Rightarrow> 'm list \<Rightarrow> bool" where
  "inv q held sent rcvd \<longleftrightarrow>
     ok q \<and> distinct held \<and> (\<forall>x. out q x \<longleftrightarrow> x \<in> set held) \<and> sent = rcvd @ abs q"

lemma inv_put:
  assumes "inv q held sent rcvd" and "put q m = (r, q')"
  shows "inv q' held (if r = HI_SUCCESS then sent @ [copy m] else sent) rcvd"
proof (cases "r = HI_SUCCESS")
  case True
  then show ?thesis using put_stored [of q m q'] assms by (simp add: inv_def)
next
  case False
  then show ?thesis using put_full [of q m r q'] assms by (simp add: inv_def)
qed

lemma inv_get:
  assumes "inv q held sent rcvd" and "get q = (Some p, q')"
  shows "inv q' (p # held) sent (rcvd @ [content q p])"
  using get_some [of q p q'] assms by (auto simp: inv_def)

lemma inv_rel:
  assumes "inv q held sent rcvd" and "p \<in> set held"
  shows "\<exists>q'. rel p q = Some q' \<and> inv q' (remove1 p held) sent rcvd"
proof -
  have "ok q" "out q p" using assms by (simp_all add: inv_def)
  from rel_out [OF this] show ?thesis using assms by (auto simp: inv_def)
qed

end

lemma queue_release_spec:
  assumes ok: "queue_ok q" and p: "outstanding q p"
  shows "\<exists>q'. queue_release p q = Some q' \<and> queue_ok q' \<and> queue_abs q' = queue_abs q \<and>
    (\<forall>x. outstanding q' x \<longleftrightarrow> outstanding q x \<and> x \<noteq> p)"
proof -
  from queue_free_outstanding [OF queue_okD [OF ok] p] obtain ctx where
    "MB_Free (bufHandle q) (Some p) = Some ctx" "queue_wf (q\<lparr>bufHandle := ctx\<rparr>)"
    "\<And>n. node_priv ctx n = node_priv (bufHandle q) n"
    "\<And>x. outstanding (q\<lparr>bufHandle := ctx\<rparr>) x \<longleftrightarrow> outstanding q x \<and> x \<noteq> p" by auto
  then show ?thesis using ok queue_abs_bufHandle [of ctx q]
    by (auto simp: queue_release_def queue_ok_def)
qed

lemma queue_get_outstanding:
  assumes "queue_ok q" and "queue_get q = (Some p, q')"
  shows "\<not> outstanding q p"
  using assms by (auto simp: queue_get_def outstanding_def qptrs_def split: list.splits)

interpretation mq: message_queue queue_ok queue_abs outstanding bodies MSG_COPY2BUF
  queue_put queue_get queue_release
proof unfold_locales
  fix q m q' r p
  show "queue_ok q \<Longrightarrow> queue_put q m = (HI_SUCCESS, q') \<Longrightarrow>
      queue_ok q' \<and> queue_abs q' = queue_abs q @ [MSG_COPY2BUF m] \<and> (\<forall>p. outstanding q' p = outstanding q p)"
    using queue_put_stored by blast
  show "queue_ok q \<Longrightarrow> queue_put q m = (r, q') \<Longrightarrow> r \<noteq> HI_SUCCESS \<Longrightarrow> q' = q"
    by (metis queue_put_cases)
  show "queue_ok q \<Longrightarrow> queue_get q = (Some p, q') \<Longrightarrow> queue_ok q' \<and> queue_abs q = bodies q p # queue_abs q' \<and>
      (\<forall>x. outstanding q' x \<longleftrightarrow> outstanding q x \<or> x = p) \<and> \<not> outstanding q p"
    using queue_get_some queue_get_outstanding by blast
  show "queue_get q = (None, q') \<Longrightarrow> q' = q \<and> queue_abs q = []"
    by (auto simp: queue_get_def queue_abs_msgs msgs_def split: list.splits)
  show "queue_ok q \<Longrightarrow> outstanding q p \<Longrightarrow> \<exists>q'. queue_release p q = Some q' \<and> queue_ok q' \<and>
      queue_abs q' = queue_abs q \<and> (\<forall>x. outstanding q' x \<longleftrightarrow> outstanding q x \<and> x \<noteq> p)"
    by (rule queue_release_spec)
qed

section \<open>Histories of a queue\<close>

text \<open>
  One queue in use: the store, the body pointers its receiver holds, and the messages that were
  accepted and received so far. Any interleaving of the senders' and the receiver's operations is
  a sequence of these steps, because each of them runs under the queue's lock.
\<close>

record queue_state =
  store :: queues
  held :: "u32 list"
  sent :: "VTOP_MSG_S_InnerBlock list"
  rcvd :: "VTOP_MSG_S_InnerBlock list"

inductive qstep :: "u32 \<Rightarrow> queue_state \<Rightarrow> queue_state \<Rightarrow> bool" for h where
  put: "MSG_QueuePut h (Some m) (store s) = Some (ret, qs) \<Longrightarrow>
    qstep h s (s\<lparr>store := qs, sent := (if ret = HI_SUCCESS then sent s @ [MSG_COPY2BUF m] else sent s)\<rparr>)"
| get: "MSG_QueueGet h True (store s) = Some (Inr p, qs) \<Longrightarrow> store s h = Some q \<Longrightarrow>
    qstep h s (s\<lparr>store := qs, held := p # held s, rcvd := rcvd s @ [bodies q p]\<rparr>)"
| get_empty: "MSG_QueueGet h True (store s) = Some (Inl e, qs) \<Longrightarrow> qstep h s (s\<lparr>store := qs\<rparr>)"
| free: "p \<in> set (held s) \<Longrightarrow> MSG_QueueFree h (Some p) (store s) = Some qs \<Longrightarrow>
    qstep h s (s\<lparr>store := qs, held := remove1 p (held s)\<rparr>)"

inductive_cases qstepE: "qstep h s s'"

inductive qreach :: "u32 \<Rightarrow> queue_state \<Rightarrow> bool" for h where
  init: "MSG_QueueInit m mem nm sz qs = Some (Inr h, qs') \<Longrightarrow> h \<noteq> 0 \<Longrightarrow>
    buf_at (queue_mb m) = Some base \<Longrightarrow> fits_memory base (queue_buffer nm) \<Longrightarrow>
    qreach h \<lparr>store = qs', held = [], sent = [], rcvd = []\<rparr>"
| step: "qreach h s \<Longrightarrow> qstep h s s' \<Longrightarrow> qreach h s'"

text \<open>The block sizes of a context never change.\<close>

definition lvl_shape :: "MSG_BUFFER_S \<Rightarrow> u32 \<times> u32 \<times> u32" where
  "lvl_shape l = (blocksize l, blocknum l, buffersize l)"

definition mb_shape :: "MB_CONTEXT_S \<Rightarrow> (u32 \<times> u32 \<times> u32) list \<times> u32" where
  "mb_shape ctx = (map lvl_shape (mb ctx), mb_num ctx)"

lemma lvl_shape_used [simp]: "lvl_shape (l\<lparr>used := u\<rparr>) = lvl_shape l"
  by (simp add: lvl_shape_def)

lemma map_shape_upd: "map lvl_shape (ls[i := (ls ! i)\<lparr>used := u\<rparr>]) = map lvl_shape ls"
  by (cases "i < length ls") (simp_all add: map_update list_update_same_conv list_update_beyond)

lemma MB_Alloc_shape: "MB_Alloc ctx sz = (r, ctx') \<Longrightarrow> mb_shape ctx' = mb_shape ctx"
  unfolding MB_Alloc_def Let_def
  by (clarsimp simp: mb_shape_def map_shape_upd split: option.splits)

lemma MB_Free_shape: "MB_Free ctx (Some p) = Some ctx' \<Longrightarrow> mb_shape ctx' = mb_shape ctx"
  by (auto simp: MB_Free_def mb_shape_def Let_def map_shape_upd split: if_splits)

definition qshape :: "MSG_QUEUE_S \<Rightarrow> bool" where
  "qshape q \<longleftrightarrow> mb_shape (bufHandle q) = ([(280, 128, 35840), (536, 8, 4288), (0, 0, 0), (0, 0, 0)], 2)"

definition qinv :: "u32 \<Rightarrow> queue_state \<Rightarrow> bool" where
  "qinv h s \<longleftrightarrow> h \<noteq> 0 \<and> (\<exists>q. store s h = Some q \<and> mq.inv q (held s) (sent s) (rcvd s) \<and> qshape q)"

lemma set_priv_shape [simp]: "mb_shape (set_node_priv ctx n p) = mb_shape ctx"
  by (simp add: mb_shape_def set_node_priv_def Let_def)

lemma qshape_put: "qshape q \<Longrightarrow> queue_put q m = (r, q') \<Longrightarrow> qshape q'"
  by (auto simp: qshape_def queue_put_def Let_def dest!: MB_Alloc_shape split: prod.splits option.splits)

lemma qshape_get: "qshape q \<Longrightarrow> queue_get q = (r, q') \<Longrightarrow> qshape q'"
  by (auto simp: qshape_def queue_get_def split: list.splits)

lemma qshape_release: "qshape q \<Longrightarrow> queue_release p q = Some q' \<Longrightarrow> qshape q'"
  by (auto simp: qshape_def queue_release_def dest!: MB_Free_shape)

lemma queue_check: "mb_check (queue_buffer nm) = Inr 2"
  by (simp add: mb_check_def queue_buffer_def MSG_MAX_BLK_NUM_def MSG_MAX_BLK_SIZE_def Let_def)

lemma queue_fits: "unat base + 40128 < 2 ^ 32 \<Longrightarrow> fits_memory base (queue_buffer nm)"
  by (simp add: fits_memory_def queue_buffer_def lessThan_nat_numeral lessThan_Suc)

lemma MSG_QueueInit_Inr:
  assumes "MSG_QueueInit m mem nm sz qs = Some (Inr h, qs')"
  obtains ctx where "MB_Init (queue_mb m) True (Some (queue_buffer nm)) = Some (Inr ctx)"
    and "queue_at m = Some h" and "1024 \<le> sz"
    and "qs' = qs(h \<mapsto> \<lparr>num = 0, qlist = [], bufHandle = ctx, bodies = mem\<rparr>)"
  using assms by (auto simp: MSG_QueueInit_def split: if_splits option.splits sum.splits bind_splits)

lemma new_queue:
  assumes init: "MSG_QueueInit m mem nm sz qs = Some (Inr h, qs')"
    and "buf_at (queue_mb m) = Some base" and "fits_memory base (queue_buffer nm)"
  obtains q where "qs' = qs(h \<mapsto> q)" and "queue_ok q" and "queue_abs q = []"
    and "\<And>p. \<not> outstanding q p" and "qshape q"
proof -
  from MSG_QueueInit_Inr [OF init] obtain ctx where
    mi: "MB_Init (queue_mb m) True (Some (queue_buffer nm)) = Some (Inr ctx)"
    and qs': "qs' = qs(h \<mapsto> \<lparr>num = 0, qlist = [], bufHandle = ctx, bodies = mem\<rparr>)" .
  from MB_Init_geometry [OF mi assms(2,3)] queue_check obtain
    g: "geom_ok base (queue_buffer nm) 2" and i: "init_inv base (queue_buffer nm) 2 2 ctx"
    by (metis sum.inject(2))
  have "mb_shape ctx = ([(280, 128, 35840), (536, 8, 4288), (0, 0, 0), (0, 0, 0)], 2)"
    using i by (simp add: init_inv_def mb_shape_def lvl_shape_def upt_rec lvl_of_def MB_BLOCK_SIZE_def MB_HEAD_LEN_def
        queue_buffer_def zero_level_def numeral_2_eq_2)
  then show thesis
    using init_inv_mb_ok [OF g i] init_inv_no_live [OF g i] qs'
    by (intro that) (auto simp: queue_ok_def queue_wf_def queue_abs_msgs msgs_def outstanding_def qshape_def)
qed

lemma qinv_put:
  assumes "qinv h s" and "MSG_QueuePut h (Some m) (store s) = Some (ret, qs)"
  shows "qinv h (s\<lparr>store := qs, sent := (if ret = HI_SUCCESS then sent s @ [MSG_COPY2BUF m] else sent s)\<rparr>)"
proof -
  from assms(1) obtain q where q: "h \<noteq> 0" "store s h = Some q" "mq.inv q (held s) (sent s) (rcvd s)" "qshape q"
    by (auto simp: qinv_def)
  obtain r q' where put: "queue_put q m = (r, q')" by force
  show ?thesis
  proof (cases "ulMsgLen (msg m) > VTOP_MSG_MAX_MSG_SIZE \<or> body_mismatch (msg m)")
    case True
    then have "qs = store s" "ret \<noteq> HI_SUCCESS" using assms(2) q
      by (auto simp: MSG_QueuePut_def HI_SUCCESS_def split: if_splits)
    with assms(1) show ?thesis by (simp add: qinv_def)
  next
    case False
    then have "ret = r" "qs = (store s)(h \<mapsto> q')" using assms(2) q put
      by (auto simp: MSG_QueuePut_def)
    with q mq.inv_put [OF q(3) put] qshape_put [OF q(4) put] show ?thesis by (auto simp: qinv_def)
  qed
qed

lemma qinv_get:
  assumes "qinv h s" and "MSG_QueueGet h True (store s) = Some (Inr p, qs)" and "store s h = Some q"
  shows "qinv h (s\<lparr>store := qs, held := p # held s, rcvd := rcvd s @ [bodies q p]\<rparr>)"
proof -
  from assms(1,3) have q: "h \<noteq> 0" "mq.inv q (held s) (sent s) (rcvd s)" "qshape q" by (auto simp: qinv_def)
  from assms(2,3) q(1) obtain q' where get: "queue_get q = (Some p, q')" and "qs = (store s)(h \<mapsto> q')"
    by (auto simp: MSG_QueueGet_def split: prod.splits option.splits)
  with q mq.inv_get [OF q(2) get] qshape_get [OF q(3) get] show ?thesis by (auto simp: qinv_def)
qed

lemma qinv_free:
  assumes "qinv h s" and "p \<in> set (held s)"
  shows "\<exists>qs. MSG_QueueFree h (Some p) (store s) = Some qs \<and>
    qinv h (s\<lparr>store := qs, held := remove1 p (held s)\<rparr>)"
proof -
  from assms(1) obtain q where q: "h \<noteq> 0" "store s h = Some q" "mq.inv q (held s) (sent s) (rcvd s)" "qshape q"
    by (auto simp: qinv_def)
  from mq.inv_rel [OF q(3) assms(2)] obtain q' where r: "queue_release p q = Some q'"
    and i: "mq.inv q' (remove1 p (held s)) (sent s) (rcvd s)" by blast
  then show ?thesis using q(1,2) qshape_release [OF q(4) r] by (simp add: MSG_QueueFree_def qinv_def)
qed

lemma qinv_step:
  assumes "qinv h s" and "qstep h s s'"
  shows "qinv h s'"
  using assms(2)
proof (cases rule: qstep.cases)
  case (get_empty e qs)
  then have "qs = store s" using assms(1)
    by (auto simp: MSG_QueueGet_def qinv_def split: prod.splits option.splits)
  with get_empty assms(1) show ?thesis by simp
next
  case (free p qs)
  with qinv_free [OF assms(1), of p] show ?thesis by auto
qed (use assms(1) qinv_put qinv_get in blast)+

lemma qreach_qinv: "qreach h s \<Longrightarrow> qinv h s"
proof (induction rule: qreach.induct)
  case (init m mem nm sz qs qs' base)
  from new_queue [OF init(1,3,4)] obtain q where "qs' = qs(h \<mapsto> q)" "queue_ok q" "queue_abs q = []"
    "\<And>p. \<not> outstanding q p" "qshape q" by blast
  with init(2) show ?case by (simp add: qinv_def mq.inv_def)
next
  case (step s s')
  then show ?case by (blast intro: qinv_step)
qed

section \<open>Capacity\<close>

text \<open>The number of messages of a given length that a queue can hold.\<close>

definition queue_capacity_of :: "u32 \<Rightarrow> nat" where
  "queue_capacity_of len = (if len \<le> 212 then 128 else if len \<le> 468 then 8 else 0)"

lemma qshape_levels:
  assumes "qshape q"
  shows "length (mb (bufHandle q)) = 4" "mb_num (bufHandle q) = 2"
    and "lvl_shape (mb (bufHandle q) ! 0) = (280, 128, 35840)"
    and "lvl_shape (mb (bufHandle q) ! 1) = (536, 8, 4288)"
proof -
  have m: "map lvl_shape (mb (bufHandle q)) = [(280, 128, 35840), (536, 8, 4288), (0, 0, 0), (0, 0, 0)]"
    and "mb_num (bufHandle q) = 2" using assms by (simp_all add: qshape_def mb_shape_def)
  then show "mb_num (bufHandle q) = 2" by blast
  show l: "length (mb (bufHandle q)) = 4" using arg_cong [OF m, of length] by simp
  show "lvl_shape (mb (bufHandle q) ! 0) = (280, 128, 35840)"
    "lvl_shape (mb (bufHandle q) ! 1) = (536, 8, 4288)"
    using arg_cong [OF m, of "\<lambda>l. l ! 0"] arg_cong [OF m, of "\<lambda>l. l ! 1"] l by simp_all
qed

lemma len_no_wrap:
  assumes "(len :: u32) \<le> VTOP_MSG_MAX_MSG_SIZE"
  shows "len + MSG_INNER_HEAD_LEN + MB_HEAD_LEN \<le> 280 \<longleftrightarrow> len \<le> 212"
    and "len + MSG_INNER_HEAD_LEN + MB_HEAD_LEN \<le> 536 \<longleftrightarrow> len \<le> 468"
proof -
  have l: "unat len \<le> 4096" using assms by (simp add: VTOP_MSG_MAX_MSG_SIZE_def word_le_nat_alt)
  have "unat (len + MSG_INNER_HEAD_LEN + MB_HEAD_LEN) = unat len + 68"
    using l by (simp add: MSG_INNER_HEAD_LEN_def MB_HEAD_LEN_def unat_word_ariths)
  then show "len + MSG_INNER_HEAD_LEN + MB_HEAD_LEN \<le> 280 \<longleftrightarrow> len \<le> 212"
    "len + MSG_INNER_HEAD_LEN + MB_HEAD_LEN \<le> 536 \<longleftrightarrow> len \<le> 468"
    by (simp_all add: word_le_nat_alt)
qed

lemma queue_level_for:
  assumes "qshape q" and "len \<le> VTOP_MSG_MAX_MSG_SIZE"
  shows "level_for (bufHandle q) (len + MSG_INNER_HEAD_LEN) =
    (if len \<le> 212 then Some 0 else if len \<le> 468 then Some 1 else None)"
proof -
  note sh = qshape_levels [OF assms(1)]
  obtain a b c d where m: "mb (bufHandle q) = [a, b, c, d]"
    using sh(1) by (auto simp: length_Suc_conv numeral_eq_Suc)
  have "lvl_shape a = (280, 128, 35840)" "lvl_shape b = (536, 8, 4288)" using sh(3,4) by (simp_all add: m)
  then have "blocksize a = 280" "buffersize a > 0" "blocksize b = 536" "buffersize b > 0"
    by (simp_all add: lvl_shape_def)
  then show ?thesis
    using len_no_wrap [OF assms(2)] sh(2) by (simp add: level_for_def m)
qed

lemma live_level_bound:
  assumes ok: "queue_ok q" and i: "i < 4" and "\<forall>x. outstanding q x \<longrightarrow> x \<in> set hs"
    and all: "\<forall>a \<in> set (lvl_blocks (mb (bufHandle q) ! i)). mb_live (bufHandle q) (a + MB_HEAD_LEN)"
  shows "unat (blocknum (mb (bufHandle q) ! i)) \<le> length hs + length (qlist q)"
proof -
  let ?bs = "lvl_blocks (mb (bufHandle q) ! i)"
  have lv: "level_ok (heads (bufHandle q)) i (mb (bufHandle q) ! i)"
    using ok i by (auto simp: queue_ok_def queue_wf_def intro: mb_ok_level)
  have "(\<lambda>a. a + MB_HEAD_LEN) ` set ?bs \<subseteq> set (hs @ qptrs q)"
    using all assms(3) by (auto simp: outstanding_def)
  then have "card ((\<lambda>a. a + MB_HEAD_LEN) ` set ?bs) \<le> card (set (hs @ qptrs q))"
    by (rule card_mono [OF finite_set])
  also have "\<dots> \<le> length hs + length (qlist q)"
    using card_length [of "hs @ qptrs q"] by (simp add: qptrs_def)
  also have "card ((\<lambda>a. a + MB_HEAD_LEN) ` set ?bs) = length ?bs"
    using level_distinct [OF lv] by (simp add: card_image inj_on_def distinct_card)
  finally show ?thesis using lv by (simp add: level_ok_def)
qed

lemma queue_put_capacity:
  assumes ok: "queue_ok q" and sh: "qshape q" and len: "ulMsgLen (msg m) \<le> VTOP_MSG_MAX_MSG_SIZE"
    and out: "\<forall>x. outstanding q x \<longrightarrow> x \<in> set hs"
    and cap: "length hs + length (qlist q) < queue_capacity_of (ulMsgLen (msg m))"
  shows "fst (queue_put q m) = HI_SUCCESS"
proof (rule ccontr)
  let ?sz = "ulMsgLen (msg m) + MSG_INNER_HEAD_LEN"
  obtain r q' where put: "queue_put q m = (r, q')" by force
  assume "fst (queue_put q m) \<noteq> HI_SUCCESS"
  then have "r \<noteq> HI_SUCCESS" using put by simp
  with queue_put_cases [OF ok put] have "fst (MB_Alloc (bufHandle q) ?sz) = None" by blast
  then have none: "MB_Alloc (bufHandle q) ?sz = (None, bufHandle q)" using MB_Alloc_None by (metis prod.collapse)
  obtain i where i: "level_for (bufHandle q) ?sz = Some i" and i2: "i = 0 \<or> i = 1"
    and bn: "unat (blocknum (mb (bufHandle q) ! i)) = queue_capacity_of (ulMsgLen (msg m))"
    using queue_level_for [OF sh len] qshape_levels(3,4) [OF sh] cap
    by (auto simp: queue_capacity_of_def lvl_shape_def split: if_splits)
  have mb: "mb_ok (bufHandle q)" using ok by (simp add: queue_ok_def queue_wf_def)
  have "\<forall>a \<in> set (lvl_blocks (mb (bufHandle q) ! i)). mb_live (bufHandle q) (a + MB_HEAD_LEN)"
    using MB_Alloc_None_iff [OF mb, of ?sz] none i level_forD(2,3,4) [OF mb i]
    by (auto simp: not_less [symmetric])
  from live_level_bound [OF ok _ out this] i2 bn cap show False by auto
qed

lemma merge_first:
  assumes "h \<noteq> 0" and "qs h = Some q" and "queue_ok q" and "queue_abs q = m # ms"
  shows "\<exists>p q'. MSG_QueueGetMerge h t qs = Some (Inr p, qs(h \<mapsto> q')) \<and> queue_ok q' \<and>
    queue_abs q' = filter (\<lambda>x. msgType (msg x) \<noteq> t) ms \<and>
    bodies q' p = last (m # filter (\<lambda>x. msgType (msg x) = t) ms) \<and>
    (\<forall>x. outstanding q' x \<longleftrightarrow> outstanding q x \<or> x = p)"
proof -
  obtain p q1 where get: "queue_get q = (Some p, q1)"
    using assms(4) queue_get_none_iff [of q] by (metis list.distinct(1) not_None_eq prod.collapse)
  note g = queue_get_some [OF assms(3) get]
  have ms: "m = bodies q p" "ms = msgs q1 (qlist q1)" using g(2) assms(4) by (simp_all add: queue_abs_msgs)
  have "outstanding q1 p" using g(3) by blast
  from merge_loop_spec [OF g(1) this, of "[]" "qlist q1" t] obtain lp q' where
    m: "merge_loop t (qlist q1) p q1 = Some (lp, q')" "queue_ok q'" "bodies q' = bodies q1"
    "queue_abs q' = filter (\<lambda>m. msgType (msg m) \<noteq> t) ms"
    "bodies q1 lp = last (m # filter (\<lambda>m. msgType (msg m) = t) ms)"
    and o: "\<forall>x. outstanding q' x \<longleftrightarrow> outstanding q1 x \<and> x \<noteq> p \<or> x = lp"
    using g(4) by (auto simp: ms msgs_def)
  have "outstanding q' x \<longleftrightarrow> outstanding q x \<or> x = lp" for x
    using o g(3) queue_get_outstanding [OF assms(3) get] by auto
  then show ?thesis using m assms(1,2) get by (auto simp: MSG_QueueGetMerge_def)
qed

section \<open>Samples\<close>

definition sample_block :: "u32 \<Rightarrow> VTOP_MSG_S_Block" where
  "sample_block t = \<lparr>sndTaskId = 1, rcvTaskId = 2, msgType = t, msgID = 7, ulPrio = 1, ulFlag = 0x102,
     ulMsgLen = 2, pMsgBody = Some [0x61, 0x62]\<rparr>"

definition sample_msg :: "u32 \<Rightarrow> VTOP_MSG_S_InnerBlock" where
  "sample_msg t = \<lparr>msg = sample_block t, resp2id = 0, magic = 0x7fff, privData = 0\<rparr>"

definition sample_qmalloc :: QUEUE_MALLOC where
  "sample_qmalloc = \<lparr>queue_at = Some 0x100, queue_mb = sample_malloc\<rparr>"

definition sample_store :: queues where
  "sample_store = (case MSG_QueueInit sample_qmalloc (\<lambda>_. sample_msg 0) ''q'' 4096 Map.empty of
     Some (Inr _, qs) \<Rightarrow> qs | _ \<Rightarrow> Map.empty)"

definition sample_state :: queue_state where
  "sample_state = \<lparr>store = sample_store, held = [], sent = [], rcvd = []\<rparr>"

lemma sample_store_init:
  "MSG_QueueInit sample_qmalloc (\<lambda>_. sample_msg 0) ''q'' 4096 Map.empty = Some (Inr 0x100, sample_store)"
proof -
  have a: "queue_at sample_qmalloc = Some 0x100" "ctx_ok (queue_mb sample_qmalloc)"
    "buf_at (queue_mb sample_qmalloc) = Some 0x1000" "\<forall>i. pmsg_ok (queue_mb sample_qmalloc) i"
    by (simp_all add: sample_qmalloc_def sample_malloc_def)
  then obtain ctx where "MB_Init (queue_mb sample_qmalloc) True (Some (queue_buffer ''q'')) = Some (Inr ctx)"
    using MB_Init_succeeds [OF queue_check] by metis
  with a(1) show ?thesis by (simp add: sample_store_def MSG_QueueInit_def)
qed

lemma sample_reach: "qreach 0x100 sample_state"
  unfolding sample_state_def
  by (rule qreach.init [OF sample_store_init, where base = "0x1000"])
     (simp_all add: sample_qmalloc_def sample_malloc_def queue_fits)

lemma sample_queue:
  obtains q where "sample_store = [0x100 \<mapsto> q]" and "queue_ok q" and "queue_abs q = []"
    and "\<And>p. \<not> outstanding q p" and "qshape q"
proof (rule new_queue [OF sample_store_init])
  show "buf_at (queue_mb sample_qmalloc) = Some 0x1000" by (simp add: sample_qmalloc_def sample_malloc_def)
  show "fits_memory 0x1000 (queue_buffer ''q'')" by (simp add: queue_fits)
qed (use that in auto)

text \<open>A queue that holds a given short sequence of messages.\<close>

lemma sample_filled:
  assumes "length ms \<le> 8" and "\<forall>m \<in> set ms. ulMsgLen (msg m) \<le> 212"
  shows "\<exists>q. queue_ok q \<and> qshape q \<and> queue_abs q = map MSG_COPY2BUF ms \<and> (\<forall>p. \<not> outstanding q p)"
  using assms
proof (induction ms rule: rev_induct)
  case Nil
  then show ?case by (metis sample_queue list.simps(8))
next
  case (snoc m ms)
  then obtain q where q: "queue_ok q" "qshape q" "queue_abs q = map MSG_COPY2BUF ms" "\<forall>p. \<not> outstanding q p"
    by auto
  have len: "length (qlist q) = length ms" using arg_cong [OF q(3), of length] by (simp add: queue_abs_msgs msgs_def)
  have m: "ulMsgLen (msg m) \<le> 212" using snoc.prems by simp
  then have "ulMsgLen (msg m) \<le> VTOP_MSG_MAX_MSG_SIZE"
    unfolding VTOP_MSG_MAX_MSG_SIZE_def by (rule order_trans) simp
  then have "fst (queue_put q m) = HI_SUCCESS"
    by (rule queue_put_capacity [OF q(1,2), where hs = "[]"])
       (use q(4) len m snoc.prems in \<open>auto simp: queue_capacity_of_def\<close>)
  then obtain q' where put: "queue_put q m = (HI_SUCCESS, q')" by (metis prod.collapse)
  show ?case using queue_put_stored [OF q(1) put] qshape_put [OF q(2) put] q(3,4) by auto
qed

section \<open>Properties\<close>

text \<open>
  C34: In every state that a queue reaches, under any interleaving of put, get and free, its invariant
  holds, what was accepted equals what was received followed by what is queued (nothing is lost,
  duplicated or reordered), and the blocks in use outside the queue are exactly those the receiver holds.
\<close>

theorem queue_history:
  assumes "qreach h s"
  shows "\<exists>q. store s h = Some q \<and> queue_ok q \<and> sent s = rcvd s @ queue_abs q \<and>
    distinct (held s) \<and> (\<forall>p. outstanding q p \<longleftrightarrow> p \<in> set (held s))"
  using qreach_qinv [OF assms] by (auto simp: qinv_def mq.inv_def)

theorem queue_history_witness:
  "\<exists>q. store sample_state 0x100 = Some q \<and> sent sample_state = rcvd sample_state @ queue_abs q"
  using queue_history [OF sample_reach] by blast

text \<open>
  In a reachable state no operation ends the process or touches a dangling block: put, get and the
  merging get return for all arguments, every held block can be released, and the queue can be destroyed,
  after which its handle is gone and all other queues are as before.
\<close>

theorem queue_never_aborts:
  assumes "qreach h s"
  shows "\<not> aborted (MSG_QueuePut h pm (store s)) \<and> \<not> aborted (MSG_QueueGet h pp (store s)) \<and>
    \<not> aborted (MSG_QueueGetMerge h t (store s)) \<and>
    (\<forall>p \<in> set (held s). \<not> aborted (MSG_QueueFree h (Some p) (store s))) \<and>
    MSG_QueueDeinit h (store s) = Some ((store s)(h := None))"
proof -
  from qreach_qinv [OF assms] obtain q where h: "h \<noteq> 0" and q: "store s h = Some q" and ok: "queue_ok q"
    by (auto simp: qinv_def mq.inv_def)
  have "\<not> aborted (MSG_QueueGetMerge h t (store s))"
  proof (cases "queue_get q")
    case (Pair r q')
    show ?thesis
    proof (cases r)
      case None
      with Pair h q show ?thesis by (simp add: MSG_QueueGetMerge_def)
    next
      case (Some p)
      note g = queue_get_some [OF ok Pair [unfolded Some]]
      have "outstanding q' p" using g(3) by blast
      from merge_loop_spec [OF g(1) this, of "[]" "qlist q'" t] Pair Some h q
      show ?thesis by (auto simp: MSG_QueueGetMerge_def)
    qed
  qed
  moreover have "\<not> aborted (MSG_QueuePut h pm (store s))" "\<not> aborted (MSG_QueueGet h pp (store s))"
    using h q by (auto simp: MSG_QueuePut_def MSG_QueueGet_def split: option.split prod.split)
  moreover have "MSG_QueueDeinit h (store s) = Some ((store s)(h := None))"
    using queue_remove_all [OF queue_okD [OF ok]] h q
    by (auto simp: MSG_QueueDeinit_def MSG_QueueRemove_def)
  ultimately show ?thesis using qinv_free [OF qreach_qinv [OF assms]] by blast
qed

theorem queue_never_aborts_witness: "MSG_QueueDeinit 0x100 sample_store = Some (sample_store(0x100 := None))"
  using queue_never_aborts [OF sample_reach] by (simp add: sample_state_def)

text \<open>
  Capacity: a well-formed message is accepted by a reachable queue as long as fewer than 128 blocks
  (body up to 212 bytes) or 8 blocks (body up to 468 bytes) are queued or held.
\<close>

theorem queue_capacity:
  assumes "qreach h s" and "store s h = Some q"
    and "ulMsgLen (msg m) \<le> VTOP_MSG_MAX_MSG_SIZE" and "\<not> body_mismatch (msg m)"
    and "length (held s) + length (queue_abs q) < queue_capacity_of (ulMsgLen (msg m))"
  shows "\<exists>q'. MSG_QueuePut h (Some m) (store s) = Some (HI_SUCCESS, (store s)(h \<mapsto> q')) \<and>
    queue_abs q' = queue_abs q @ [MSG_COPY2BUF m]"
proof -
  from qreach_qinv [OF assms(1)] assms(2) have h: "h \<noteq> 0" and ok: "queue_ok q" and sh: "qshape q"
    and out: "\<forall>x. outstanding q x \<longrightarrow> x \<in> set (held s)" by (auto simp: qinv_def mq.inv_def)
  have "length (held s) + length (qlist q) < queue_capacity_of (ulMsgLen (msg m))"
    using assms(5) by (simp add: queue_abs_msgs msgs_def)
  from queue_put_capacity [OF ok sh assms(3) out this] obtain q' where
    put: "queue_put q m = (HI_SUCCESS, q')" by (metis prod.collapse)
  then show ?thesis using h assms queue_put_stored(2) [OF ok put] by (auto simp: MSG_QueuePut_def not_less)
qed

theorem queue_capacity_witness:
  "\<exists>q'. MSG_QueuePut 0x100 (Some (sample_msg 5)) sample_store = Some (HI_SUCCESS, sample_store(0x100 \<mapsto> q')) \<and>
     queue_abs q' = [MSG_COPY2BUF (sample_msg 5)]"
proof -
  obtain q where q: "store sample_state 0x100 = Some q" and "queue_abs q = []"
    by (metis fun_upd_same queue_state.select_convs(1) sample_queue sample_state_def)
  with queue_capacity [OF sample_reach q, of "sample_msg 5"] show ?thesis
    by (simp add: sample_state_def sample_msg_def sample_block_def body_mismatch_def
        VTOP_MSG_MAX_MSG_SIZE_def queue_capacity_of_def)
qed

text \<open>
  A message whose body has more than 468 bytes passes the length check of 4096 bytes but can never be
  stored, not even in an empty queue: \<open>MSG_QueuePut\<close> returns -1 and leaves the store unchanged.
\<close>

theorem queue_rejects_long:
  assumes "qreach h s" and "468 < ulMsgLen (msg m)" and "ulMsgLen (msg m) \<le> VTOP_MSG_MAX_MSG_SIZE"
    and "\<not> body_mismatch (msg m)"
  shows "MSG_QueuePut h (Some m) (store s) = Some (-1, store s)"
proof -
  from qreach_qinv [OF assms(1)] obtain q where h: "h \<noteq> 0" and q: "store s h = Some q" and sh: "qshape q"
    by (auto simp: qinv_def mq.inv_def)
  have "level_for (bufHandle q) (ulMsgLen (msg m) + MSG_INNER_HEAD_LEN) = None"
    using queue_level_for [OF sh assms(3)] assms(2) by (auto dest: order.strict_trans2)
  then have "queue_put q m = (-1, q)" by (simp add: queue_put_def MB_Alloc_def)
  then show ?thesis using h q assms(3,4) by (auto simp: MSG_QueuePut_def not_less)
qed

theorem queue_rejects_long_witness:
  "MSG_QueuePut 0x100 (Some ((sample_msg 5)\<lparr>msg := (sample_block 5)\<lparr>ulMsgLen := 1000\<rparr>\<rparr>)) sample_store
     = Some (-1, sample_store)"
  using queue_rejects_long [OF sample_reach, of "(sample_msg 5)\<lparr>msg := (sample_block 5)\<lparr>ulMsgLen := 1000\<rparr>\<rparr>"]
  by (simp add: sample_state_def sample_block_def body_mismatch_def VTOP_MSG_MAX_MSG_SIZE_def)

text \<open>
  The merging get takes the first message \<open>m\<close> and all later messages of the merged type out of the
  queue, hands out the last of them (\<open>m\<close> when there is none), keeps the others in their order and
  releases every block it does not hand out.
\<close>

theorem MSG_QueueGetMerge_spec:
  assumes "h \<noteq> 0" and "qs h = Some q" and "queue_ok q" and "queue_abs q = m # ms"
  shows "\<exists>p q'. MSG_QueueGetMerge h t qs = Some (Inr p, qs(h \<mapsto> q')) \<and> queue_ok q' \<and>
    queue_abs q' = filter (\<lambda>x. msgType (msg x) \<noteq> t) ms \<and>
    bodies q' p = last (m # filter (\<lambda>x. msgType (msg x) = t) ms) \<and>
    (\<forall>x. outstanding q' x \<longleftrightarrow> outstanding q x \<or> x = p)"
  using assms by (rule merge_first)

theorem MSG_QueueGetMerge_spec_witness:
  "\<exists>q p q'. queue_abs q = map MSG_COPY2BUF [sample_msg 5, sample_msg 9, sample_msg 5] \<and>
     MSG_QueueGetMerge 0x100 5 [0x100 \<mapsto> q] = Some (Inr p, [0x100 \<mapsto> q']) \<and>
     queue_abs q' = [MSG_COPY2BUF (sample_msg 9)]"
proof -
  obtain q where q: "queue_ok q" "queue_abs q = map MSG_COPY2BUF [sample_msg 5, sample_msg 9, sample_msg 5]"
    using sample_filled [of "[sample_msg 5, sample_msg 9, sample_msg 5]"]
    by (auto simp: sample_msg_def sample_block_def)
  with MSG_QueueGetMerge_spec [where h = "0x100" and qs = "[0x100 \<mapsto> q]" and q = q and t = 5]
  show ?thesis by (auto simp: sample_msg_def sample_block_def)
qed

text \<open>
  The merging get loses a message: when the first message is of another type than the merged one
  and a later message is of that type, the first message is neither handed out nor queued any more,
  although only messages of the merged type are to be filtered.
\<close>

theorem MSG_QueueGetMerge_loses_first:
  assumes "h \<noteq> 0" and "qs h = Some q" and "queue_ok q" and "queue_abs q = m # ms"
    and "msgType (msg m) \<noteq> t" and "\<exists>x \<in> set ms. msgType (msg x) = t" and "m \<notin> set ms"
  shows "\<exists>p q'. MSG_QueueGetMerge h t qs = Some (Inr p, qs(h \<mapsto> q')) \<and>
    bodies q' p \<noteq> m \<and> m \<notin> set (queue_abs q') \<and> (\<forall>x. outstanding q' x \<longleftrightarrow> outstanding q x \<or> x = p)"
proof -
  let ?f = "filter (\<lambda>x. msgType (msg x) = t) ms"
  from merge_first [of h qs q m ms t] assms(1-4) obtain p q' where
    r: "MSG_QueueGetMerge h t qs = Some (Inr p, qs(h \<mapsto> q'))" and "queue_ok q'"
    "queue_abs q' = filter (\<lambda>x. msgType (msg x) \<noteq> t) ms" "bodies q' p = last (m # ?f)"
    and o: "\<forall>x. outstanding q' x \<longleftrightarrow> outstanding q x \<or> x = p" by blast
  moreover have "?f \<noteq> []" using assms(6) by (auto simp: filter_empty_conv)
  then have "last (m # ?f) \<in> set ?f" by (metis last_ConsR last_in_set)
  then have "last (m # ?f) \<noteq> m" using assms(5) by auto
  ultimately show ?thesis using assms(7) by auto
qed

theorem MSG_QueueGetMerge_loses_first_witness:
  "\<exists>q p q'. queue_abs q = map MSG_COPY2BUF [sample_msg 9, sample_msg 5] \<and>
     MSG_QueueGetMerge 0x100 5 [0x100 \<mapsto> q] = Some (Inr p, [0x100 \<mapsto> q']) \<and>
     bodies q' p \<noteq> MSG_COPY2BUF (sample_msg 9) \<and> MSG_COPY2BUF (sample_msg 9) \<notin> set (queue_abs q')"
proof -
  obtain q where q: "queue_ok q" "queue_abs q = map MSG_COPY2BUF [sample_msg 9, sample_msg 5]"
    using sample_filled [of "[sample_msg 9, sample_msg 5]"] by (auto simp: sample_msg_def sample_block_def)
  have ne: "MSG_COPY2BUF (sample_msg 9) \<noteq> MSG_COPY2BUF (sample_msg 5)"
    by (simp add: MSG_COPY2BUF_def sample_msg_def sample_block_def)
  show ?thesis
    using MSG_QueueGetMerge_loses_first [where h = "0x100" and qs = "[0x100 \<mapsto> q]" and q = q and t = 5] q ne
    by (auto simp: sample_msg_def sample_block_def)
qed

end
