(* ===== verification/Msg_State.thy ===== *)
theory Msg_State
  imports Msg_Queue
begin

text \<open>
  The shared state of the message system: the head of the shared memory with the task and the
  subscription table behind it, the response slots, the per-task data and the server queue; and the
  operations of \<open>common/msg_misc.c\<close>. The tables are lists of their units; \<open>SHM_Init_layout\<close> shows that
  the computed positions keep them apart in the allocated memory.
\<close>

section \<open>Data\<close>

datatype TASK_OWNER_E = TASK_OWNER_TASK | TASK_OWNER_BUTT

record MSG_TAB_TASK_S =
  taskName :: string
  taskId :: u32
  owner :: TASK_OWNER_E
  msgtype :: u32
  handle :: u32

record MSG_TAB_SUB_S =
  subType :: u32
  taskIdList :: "u32 list"

record MSG_SHM_S =
  maxTaskNum :: u32
  maxSubNum :: u32
  maxTaskNumInSub :: u32
  taskTabPos :: u32
  subTabPos :: u32
  counter_taskId :: u32
  counter_msgId :: u32
  version :: string
  taskTab :: "MSG_TAB_TASK_S list"
  subTab :: "MSG_TAB_SUB_S list"

record VTOP_MSG_S_Config =
  ulMaxTask :: u32
  ulMaxSub :: u32
  ulMaxMem :: u32
  cfgBlockNum :: "u32 list"

datatype MSG_RSPMNG_STATE_E =
  MSG_RSPMNG_STATE_FREE | MSG_RSPMNG_STATE_IDLE | MSG_RSPMNG_STATE_ACTIVE | MSG_RSPMNG_STATE_BUTT

record MSG_RSPMNG_S =
  buf :: VTOP_MSG_S_InnerBlock
  enState :: MSG_RSPMNG_STATE_E

text \<open>The registered handler and log function are user code; a task refers to them by number.\<close>

record MSGTASK_DATA =
  dataTaskId :: u32
  pMsgHandler :: "nat option"
  pTaskLog :: "nat option"
  Sndfd :: s32
  Rcvfd :: s32

record msg_sys =
  g_MsgShmAddr :: "MSG_SHM_S option"
  qstore :: queues
  g_TaskData :: "MSGTASK_DATA list option"
  s_MsgRspMng :: "MSG_RSPMNG_S list"
  s_bFilterInited :: bool
  s_msgSvrQueueHandle :: u32
  s_bStopMsgProc :: bool

definition VTOP_MSG_DEFAULT_MAX_TASK :: u32 where
  "VTOP_MSG_DEFAULT_MAX_TASK = 32"

definition VTOP_MSG_DEFAULT_MAX_SUB :: u32 where
  "VTOP_MSG_DEFAULT_MAX_SUB = 64"

definition VTOP_MSG_VERSION :: string where
  "VTOP_MSG_VERSION = ''V1.1.0.0(R)''"

definition VTOP_MSG_MAX_VERSION_SIZE :: nat where
  "VTOP_MSG_MAX_VERSION_SIZE = 32"

text \<open>The sizes of the C structures on the 32-bit target.\<close>

definition sizeof_SHM :: u32 where
  "sizeof_SHM = 60"

definition sizeof_TASK :: u32 where
  "sizeof_TASK = 32"

definition GET_VALUE :: "u32 \<Rightarrow> u32 \<Rightarrow> u32" where
  "GET_VALUE a b = (if a \<noteq> 0 then a else b)"

definition TASK_TAB_CalcSize :: "u32 \<Rightarrow> u32" where
  "TASK_TAB_CalcSize maxTask = (if maxTask = 0 then 0 else maxTask * sizeof_TASK)"

definition SUBTABCalcUnitSize :: "u32 \<Rightarrow> u32" where
  "SUBTABCalcUnitSize maxTaskInSub = 4 + 4 + 4 * maxTaskInSub"

definition SUB_TAB_CalcSize :: "u32 \<Rightarrow> u32 \<Rightarrow> u32" where
  "SUB_TAB_CalcSize maxSub maxTaskInSub =
     (if maxSub = 0 \<or> maxTaskInSub = 0 then 0 else maxSub * SUBTABCalcUnitSize maxTaskInSub)"

text \<open>Units as \<open>memset\<close> leaves them.\<close>

definition zero_task :: MSG_TAB_TASK_S where
  "zero_task = \<lparr>taskName = [], taskId = 0, owner = TASK_OWNER_TASK, msgtype = 0, handle = 0\<rparr>"

definition zero_sub :: "nat \<Rightarrow> MSG_TAB_SUB_S" where
  "zero_sub n = \<lparr>subType = 0, taskIdList = replicate n 0\<rparr>"

definition MAX_MSG_RSP_NUM :: nat where
  "MAX_MSG_RSP_NUM = 128"

definition zero_block :: VTOP_MSG_S_Block where
  "zero_block = \<lparr>sndTaskId = 0, rcvTaskId = 0, msgType = 0, msgID = 0, ulPrio = 0, ulFlag = 0,
     ulMsgLen = 0, pMsgBody = None\<rparr>"

definition zero_rsp :: MSG_RSPMNG_S where
  "zero_rsp = \<lparr>buf = \<lparr>msg = zero_block, resp2id = 0, magic = 0, privData = 0\<rparr>, enState = MSG_RSPMNG_STATE_FREE\<rparr>"

text \<open>The state before the message system is started: C's zero-initialised static variables.\<close>

definition sys0 :: msg_sys where
  "sys0 = \<lparr>g_MsgShmAddr = None, qstore = Map.empty, g_TaskData = None,
     s_MsgRspMng = replicate MAX_MSG_RSP_NUM zero_rsp, s_bFilterInited = False,
     s_msgSvrQueueHandle = 0, s_bStopMsgProc = False\<rparr>"

section \<open>Shared memory\<close>

definition SHM_Exist :: "msg_sys \<Rightarrow> bool" where
  "SHM_Exist s \<longleftrightarrow> g_MsgShmAddr s \<noteq> None"

text \<open>
  The sizes are computed in 32 bits, so they can be smaller than what the numbers of units ask for. A table has the
  units that lie in the \<open>len\<close> bytes that were allocated: of \<open>cnt\<close> units of \<open>sz\<close> bytes from \<open>pos\<close> on, \<open>units_in\<close>.
\<close>

definition units_in :: "u32 \<Rightarrow> u32 \<Rightarrow> nat \<Rightarrow> u32 \<Rightarrow> nat" where
  "units_in len pos sz cnt = min (unat cnt) ((unat len - unat pos) div sz)"

definition shm_of_config :: "VTOP_MSG_S_Config \<Rightarrow> MSG_SHM_S" where
  "shm_of_config c =
     (let mt = GET_VALUE (ulMaxTask c) VTOP_MSG_DEFAULT_MAX_TASK;
          ms = GET_VALUE (ulMaxSub c) VTOP_MSG_DEFAULT_MAX_SUB;
          tt_size = TASK_TAB_CalcSize mt;
          st_size = SUB_TAB_CalcSize ms mt;
          len = sizeof_SHM + tt_size + st_size
      in \<lparr>maxTaskNum = mt, maxSubNum = ms, maxTaskNumInSub = mt,
          taskTabPos = sizeof_SHM, subTabPos = sizeof_SHM + tt_size,
          counter_taskId = 0, counter_msgId = 0,
          version = strcut VTOP_MSG_MAX_VERSION_SIZE VTOP_MSG_VERSION,
          taskTab = replicate (units_in len sizeof_SHM 32 mt) zero_task,
          subTab = replicate (units_in len (sizeof_SHM + tt_size) (8 + 4 * unat mt) ms) (zero_sub (unat mt))\<rparr>)"

definition shm_len :: "MSG_SHM_S \<Rightarrow> u32" where
  "shm_len h = sizeof_SHM + TASK_TAB_CalcSize (maxTaskNum h) +
     SUB_TAB_CalcSize (maxSubNum h) (maxTaskNumInSub h)"

text \<open>
  \<open>SHM_Init\<close>: a \<open>NULL\<close> configuration ends the process; when \<open>malloc\<close> fails (\<open>ok\<close> is false) it still
  returns 0 and leaves the shared memory as it was. The head is copied to memory of \<open>shm_len\<close> bytes, which has to have room for it.
\<close>

definition SHM_Init :: "bool \<Rightarrow> VTOP_MSG_S_Config option \<Rightarrow> msg_sys \<Rightarrow> (s32 \<times> msg_sys) run" where
  "SHM_Init ok pMsgConfig s =
     (case pMsgConfig of None \<Rightarrow> None
      | Some c \<Rightarrow>
        if \<not> ok then Some (0, s)
        else if shm_len (shm_of_config c) < sizeof_SHM then None
        else Some (0, s\<lparr>g_MsgShmAddr := Some (shm_of_config c)\<rparr>))"

definition SHM_DeInit :: "msg_sys \<Rightarrow> s32 \<times> msg_sys" where
  "SHM_DeInit s = (0, s\<lparr>g_MsgShmAddr := None\<rparr>)"

definition TASK_TAB_GetMaxTaskNum :: "msg_sys \<Rightarrow> s32 + u32" where
  "TASK_TAB_GetMaxTaskNum s =
     (case g_MsgShmAddr s of None \<Rightarrow> Inl VTOP_MSG_ERR_SHMATTCH | Some h \<Rightarrow> Inr (maxTaskNum h))"

definition SUB_TAB_GetMaxSubNum :: "msg_sys \<Rightarrow> s32 + u32 \<times> u32" where
  "SUB_TAB_GetMaxSubNum s =
     (case g_MsgShmAddr s of None \<Rightarrow> Inl VTOP_MSG_ERR_SHMATTCH
      | Some h \<Rightarrow> Inr (maxSubNum h, maxTaskNumInSub h))"

text \<open>\<open>getMsgID\<close> takes the counter and increments it; at \<open>2 ^ 32\<close> it wraps to 0.\<close>

definition getMsgID :: "msg_sys \<Rightarrow> (s32 + u32) \<times> msg_sys" where
  "getMsgID s =
     (case g_MsgShmAddr s of None \<Rightarrow> (Inl VTOP_MSG_ERR_SHMATTCH, s)
      | Some h \<Rightarrow> (Inr (counter_msgId h),
                   s\<lparr>g_MsgShmAddr := Some (h\<lparr>counter_msgId := counter_msgId h + 1\<rparr>)\<rparr>))"

section \<open>Layout\<close>

text \<open>The bytes that the head and both tables take, and whether they fit into the address space.\<close>

definition shm_bytes :: "MSG_SHM_S \<Rightarrow> nat" where
  "shm_bytes h = 60 + 32 * unat (maxTaskNum h) + unat (maxSubNum h) * (8 + 4 * unat (maxTaskNum h))"

definition shm_fits :: "VTOP_MSG_S_Config \<Rightarrow> bool" where
  "shm_fits c \<longleftrightarrow> shm_bytes (shm_of_config c) < 2 ^ 32"

lemma shm_config_nums: "maxTaskNum (shm_of_config c) \<noteq> 0" "maxSubNum (shm_of_config c) \<noteq> 0"
    "maxTaskNumInSub (shm_of_config c) = maxTaskNum (shm_of_config c)"
  by (simp_all add: shm_of_config_def Let_def GET_VALUE_def VTOP_MSG_DEFAULT_MAX_TASK_def VTOP_MSG_DEFAULT_MAX_SUB_def)

lemma shm_config_sizes:
  assumes h: "h = shm_of_config c"
  shows "shm_len h = of_nat (shm_bytes h)" "subTabPos h = of_nat (60 + 32 * unat (maxTaskNum h))" "taskTabPos h = 60"
    "length (taskTab h) = min (unat (maxTaskNum h)) ((unat (shm_len h) - 60) div 32)"
    "length (subTab h) = min (unat (maxSubNum h)) ((unat (shm_len h) - unat (subTabPos h)) div (8 + 4 * unat (maxTaskNum h)))"
proof -
  let ?t = "unat (maxTaskNum h)" and ?s = "unat (maxSubNum h)"
  note n = shm_config_nums [of c, folded h]
  have tt: "TASK_TAB_CalcSize (maxTaskNum h) = of_nat (32 * ?t)"
    using n by (simp add: TASK_TAB_CalcSize_def sizeof_TASK_def mult.commute)
  have st: "SUB_TAB_CalcSize (maxSubNum h) (maxTaskNumInSub h) = of_nat (?s * (8 + 4 * ?t))"
    using n by (simp add: SUB_TAB_CalcSize_def SUBTABCalcUnitSize_def)
  show "shm_len h = of_nat (shm_bytes h)"
    unfolding shm_len_def tt st by (simp add: sizeof_SHM_def shm_bytes_def)
  show sp: "subTabPos h = of_nat (60 + 32 * ?t)" and "taskTabPos h = 60"
    unfolding of_nat_add tt [symmetric] by (simp_all add: h shm_of_config_def Let_def sizeof_SHM_def)
  show "length (taskTab h) = min ?t ((unat (shm_len h) - 60) div 32)"
    "length (subTab h) = min ?s ((unat (shm_len h) - unat (subTabPos h)) div (8 + 4 * ?t))"
    by (simp_all add: h shm_len_def shm_of_config_def Let_def units_in_def sizeof_SHM_def)
qed

text \<open>The tables are complete exactly when everything fits; otherwise the memory is too short for one of them.\<close>

lemma shm_complete:
  assumes "shm_fits c" and h: "h = shm_of_config c"
  shows "length (taskTab h) = unat (maxTaskNum h)" "length (subTab h) = unat (maxSubNum h)"
    "unat (shm_len h) = shm_bytes h" "unat (subTabPos h) = 60 + 32 * unat (maxTaskNum h)"
proof -
  note z = shm_config_sizes [OF h]
  have f: "shm_bytes h < 2 ^ 32" using assms by (simp add: shm_fits_def)
  show len: "unat (shm_len h) = shm_bytes h" unfolding z(1) by (rule unat_of_nat_u32 [OF f])
  show pos: "unat (subTabPos h) = 60 + 32 * unat (maxTaskNum h)"
    unfolding z(2) using f by (intro unat_of_nat_u32) (simp add: shm_bytes_def)
  show "length (taskTab h) = unat (maxTaskNum h)" unfolding z(4) len by (simp add: shm_bytes_def div_mult_self1 less_eq_div_iff_mult_less_eq)
  show "length (subTab h) = unat (maxSubNum h)" unfolding z(5) len pos by (simp add: shm_bytes_def)
qed

lemma shm_head: "shm_fits c \<Longrightarrow> \<not> shm_len (shm_of_config c) < sizeof_SHM"
  using shm_complete(3) [OF _ refl, of c] by (simp add: word_less_nat_alt sizeof_SHM_def shm_bytes_def)

lemma shm_short:
  assumes "\<not> shm_fits c" and h: "h = shm_of_config c" and "sizeof_SHM \<le> shm_len h" and t: "length (taskTab h) = unat (maxTaskNum h)"
  shows "length (subTab h) < unat (maxSubNum h)"
proof (rule ccontr)
  let ?t = "unat (maxTaskNum h)" and ?s = "unat (maxSubNum h)" and ?l = "unat (shm_len h)"
  assume a: "\<not> length (subTab h) < ?s"
  note z = shm_config_sizes [OF h]
  have l: "60 \<le> ?l" "?l < 2 ^ 32"
    using assms(3) unsigned_less [of "shm_len h"] by (simp_all add: word_le_nat_alt sizeof_SHM_def)
  have "?t \<le> (?l - 60) div 32" using t z(4) by linarith
  then have tl: "60 + 32 * ?t \<le> ?l" using l(1) by (simp add: less_eq_div_iff_mult_less_eq)
  then have pos: "unat (subTabPos h) = 60 + 32 * ?t" unfolding z(2) using l(2) by (intro unat_of_nat_u32) linarith
  have "?s \<le> (?l - (60 + 32 * ?t)) div (8 + 4 * ?t)" using a z(5) unfolding pos by linarith
  then have "?s * (8 + 4 * ?t) \<le> ?l - (60 + 32 * ?t)" by (simp add: less_eq_div_iff_mult_less_eq)
  then have "shm_bytes h \<le> ?l" using tl unfolding shm_bytes_def by linarith
  then show False using assms(1) l(2) h by (simp add: shm_fits_def)
qed

text \<open>
  When the requested tables fit into the address space, the task table lies behind the head, the
  subscription table directly behind the task table, and the last subscription unit ends where the allocated
  memory ends: no unit of one table overlaps the head or the other table.
\<close>

theorem SHM_Init_layout:
  assumes h: "h = shm_of_config c" and fits: "shm_fits c"
  shows "unat (taskTabPos h) = 60 \<and>
    unat (subTabPos h) = unat (taskTabPos h) + 32 * length (taskTab h) \<and>
    unat (shm_len h) = unat (subTabPos h) + length (subTab h) * (8 + 4 * unat (maxTaskNumInSub h)) \<and>
    (\<forall>u \<in> set (subTab h). length (taskIdList u) = unat (maxTaskNumInSub h))"
proof -
  have "\<forall>u \<in> set (subTab h). length (taskIdList u) = unat (maxTaskNumInSub h)"
    by (auto simp: h shm_of_config_def Let_def zero_sub_def)
  then show ?thesis
    using shm_complete [OF fits h] shm_config_sizes(3) [OF h] shm_config_nums(3) [of c, folded h] by (simp add: shm_bytes_def)
qed

definition default_config :: VTOP_MSG_S_Config where
  "default_config = \<lparr>ulMaxTask = 0, ulMaxSub = 0, ulMaxMem = 0, cfgBlockNum = [0, 0, 0, 0]\<rparr>"

lemma default_config_fits: "shm_fits default_config"
  by (simp add: shm_fits_def shm_bytes_def shm_of_config_def default_config_def Let_def GET_VALUE_def VTOP_MSG_DEFAULT_MAX_TASK_def
      VTOP_MSG_DEFAULT_MAX_SUB_def)

theorem SHM_Init_layout_witness: "unat (subTabPos (shm_of_config default_config)) = 60 + 32 * 32"
  using SHM_Init_layout [OF refl default_config_fits] shm_complete(4) [OF default_config_fits refl]
  by (simp add: shm_of_config_def default_config_def Let_def GET_VALUE_def VTOP_MSG_DEFAULT_MAX_TASK_def)

end
