(* ===== verification/Msg_Taskmng.thy ===== *)
theory Msg_Taskmng
  imports Msg_State
begin

text \<open>
  The task table of \<open>common/msg_taskmng.c\<close>. Every operation takes the table lock; a POSIX mutex returns
  0 or a positive error number, so the \<open>ret < 0\<close> branches after the lock calls are never taken and
  each operation is one step. The table is shown to implement a finite map from task ids to
  units, in which every unit owns a queue of its own.
\<close>

section \<open>Operations\<close>

definition TASKTABInitUnit :: MSG_TAB_TASK_S where
  "TASKTABInitUnit = zero_task\<lparr>taskId := VTOP_INVALID_TASK_ID, handle := 0\<rparr>"

definition TASKGetAddr :: "msg_sys \<Rightarrow> s32 + MSG_SHM_S" where
  "TASKGetAddr s = (case g_MsgShmAddr s of None \<Rightarrow> Inl VTOP_MSG_ERR_SHMATTCH | Some h \<Rightarrow> Inr h)"

definition set_task :: "MSG_SHM_S \<Rightarrow> nat \<Rightarrow> MSG_TAB_TASK_S \<Rightarrow> msg_sys \<Rightarrow> msg_sys" where
  "set_task h i u s = s\<lparr>g_MsgShmAddr := Some (h\<lparr>taskTab := (taskTab h)[i := u]\<rparr>)\<rparr>"

text \<open>The loops of \<open>TASK_TAB_Init\<close> and \<open>TASK_TAB_DeInit\<close> write \<open>maxTaskNum\<close> units, also when the memory has fewer.\<close>

definition init_tasks :: "MSG_SHM_S \<Rightarrow> msg_sys \<Rightarrow> (s32 \<times> msg_sys) run" where
  "init_tasks h s =
     (if length (taskTab h) < unat (maxTaskNum h) then None
      else Some (0, s\<lparr>g_MsgShmAddr := Some (h\<lparr>taskTab := map (\<lambda>_. TASKTABInitUnit) (taskTab h)\<rparr>)\<rparr>))"

definition TASK_TAB_Init :: "msg_sys \<Rightarrow> (s32 \<times> msg_sys) run" where
  "TASK_TAB_Init s =
     (case TASKGetAddr s of Inl e \<Rightarrow> Some (VTOP_MSG_ERR_SHMATTCH, s) | Inr h \<Rightarrow> init_tasks h s)"

definition TASK_TAB_DeInit :: "msg_sys \<Rightarrow> (s32 \<times> msg_sys) run" where
  "TASK_TAB_DeInit s =
     (case TASK_TAB_GetMaxTaskNum s of Inl e \<Rightarrow> Some (e, s)
      | Inr n \<Rightarrow> (case TASKGetAddr s of Inl e \<Rightarrow> Some (VTOP_MSG_ERR_SHMATTCH, s) | Inr h \<Rightarrow> init_tasks h s))"

definition TASK_TAB_GetTaskList :: "u32 \<Rightarrow> msg_sys \<Rightarrow> s32 + u32 list" where
  "TASK_TAB_GetTaskList pNum s =
     (case TASKGetAddr s of Inl e \<Rightarrow> Inl e
      | Inr h \<Rightarrow> Inr (collect_upto (unat pNum) (\<lambda>i. i \<noteq> VTOP_INVALID_TASK_ID) 0 (map taskId (taskTab h))))"

text \<open>
  \<open>TASK_TAB_Add2\<close>: the first free unit gets the next id and a queue. When the queue cannot be created
  the unit keeps the id, but the caller is told that there is no task.
\<close>

definition next_task_id :: "u32 \<Rightarrow> u32" where
  "next_task_id c = (if c \<ge> VTOP_MAX_TASK_ID then 0 else c + 1)"

definition MSG_DEFAULT_QUEUE_SIZE :: u32 where
  "MSG_DEFAULT_QUEUE_SIZE = 32 * 1024"

definition TASK_TAB_Add2 ::
  "QUEUE_MALLOC \<Rightarrow> (u32 \<Rightarrow> VTOP_MSG_S_InnerBlock) \<Rightarrow> string \<Rightarrow> TASK_OWNER_E \<Rightarrow> msg_sys \<Rightarrow> (u32 \<times> msg_sys) run" where
  "TASK_TAB_Add2 m mem name own s =
     (case TASKGetAddr s of Inl e \<Rightarrow> Some (VTOP_INVALID_TASK_ID, s)
      | Inr h \<Rightarrow>
       (case scan (\<lambda>u. taskId u = VTOP_INVALID_TASK_ID) (taskTab h) of
          None \<Rightarrow> Some (VTOP_INVALID_TASK_ID, s)
        | Some i \<Rightarrow>
          let tid = counter_taskId h;
              h' = h\<lparr>counter_taskId := next_task_id tid\<rparr>;
              u = (taskTab h ! i)\<lparr>taskId := tid, msgtype := VTOP_INVALID_MSG_TYPE,
                     taskName := strcut VTOP_MSG_MAX_TASK_NAME_LEN name, owner := own\<rparr>
          in do {
            (r, qs) \<leftarrow> MSG_QueueInit m mem (taskName u) MSG_DEFAULT_QUEUE_SIZE (qstore s);
            Some (case r of
                Inl _ \<Rightarrow> (VTOP_INVALID_TASK_ID, set_task h' i u (s\<lparr>qstore := qs\<rparr>))
              | Inr q \<Rightarrow> (tid, set_task h' i (u\<lparr>handle := q\<rparr>) (s\<lparr>qstore := qs\<rparr>)))
          }))"

definition TASK_TAB_Add ::
  "QUEUE_MALLOC \<Rightarrow> (u32 \<Rightarrow> VTOP_MSG_S_InnerBlock) \<Rightarrow> string \<Rightarrow> msg_sys \<Rightarrow> (u32 \<times> msg_sys) run" where
  "TASK_TAB_Add m mem name s = TASK_TAB_Add2 m mem name TASK_OWNER_TASK s"

text \<open>The loop that all operations on a given task share.\<close>

definition find_task :: "MSG_SHM_S \<Rightarrow> u32 \<Rightarrow> nat option" where
  "find_task h tid = scan (\<lambda>u. taskId u = tid) (taskTab h)"

definition TASK_TAB_Del :: "u32 \<Rightarrow> msg_sys \<Rightarrow> (s32 \<times> msg_sys) run" where
  "TASK_TAB_Del tid s =
     (case TASKGetAddr s of Inl e \<Rightarrow> Some (e, s)
      | Inr h \<Rightarrow>
       (case find_task h tid of None \<Rightarrow> Some (VTOP_MSG_ERR_TASKNOTEXIST, s)
        | Some i \<Rightarrow> do {
            qs \<leftarrow> MSG_QueueDeinit (handle (taskTab h ! i)) (qstore s);
            Some (0, set_task h i TASKTABInitUnit (s\<lparr>qstore := qs\<rparr>))
          }))"

definition TASK_TAB_Id2Name :: "u32 \<Rightarrow> msg_sys \<Rightarrow> s32 + string" where
  "TASK_TAB_Id2Name tid s =
     (case TASKGetAddr s of Inl e \<Rightarrow> Inl e
      | Inr h \<Rightarrow>
       (case find_task h tid of None \<Rightarrow> Inl VTOP_MSG_ERR_TASKNOTEXIST
        | Some i \<Rightarrow> Inr (strcut VTOP_MSG_MAX_TASK_NAME_LEN (taskName (taskTab h ! i)))))"

definition TASK_TAB_Name2Id :: "string \<Rightarrow> msg_sys \<Rightarrow> u32" where
  "TASK_TAB_Name2Id name s =
     (case TASKGetAddr s of Inl e \<Rightarrow> VTOP_INVALID_TASK_ID
      | Inr h \<Rightarrow>
       (case scan (\<lambda>u. strncmp_eq VTOP_MSG_MAX_TASK_NAME_LEN (taskName u) name) (taskTab h) of
          None \<Rightarrow> VTOP_INVALID_TASK_ID
        | Some i \<Rightarrow> taskId (taskTab h ! i)))"

definition TASK_TAB_IsTaskExist :: "string \<Rightarrow> msg_sys \<Rightarrow> bool" where
  "TASK_TAB_IsTaskExist name s \<longleftrightarrow> TASK_TAB_Name2Id name s \<noteq> VTOP_INVALID_TASK_ID"

definition TASK_TAB_IsTaskIdExist :: "u32 \<Rightarrow> msg_sys \<Rightarrow> bool" where
  "TASK_TAB_IsTaskIdExist tid s =
     (case TASKGetAddr s of Inl e \<Rightarrow> False | Inr h \<Rightarrow> find_task h tid \<noteq> None)"

definition TASK_TAB_GetHandle :: "u32 \<Rightarrow> msg_sys \<Rightarrow> u32" where
  "TASK_TAB_GetHandle tid s =
     (case TASKGetAddr s of Inl e \<Rightarrow> 0
      | Inr h \<Rightarrow> (case find_task h tid of None \<Rightarrow> 0 | Some i \<Rightarrow> handle (taskTab h ! i)))"

definition TASK_TAB_SetMerge :: "u32 \<Rightarrow> u32 \<Rightarrow> msg_sys \<Rightarrow> s32 \<times> msg_sys" where
  "TASK_TAB_SetMerge tid t s =
     (case TASKGetAddr s of Inl e \<Rightarrow> (e, s)
      | Inr h \<Rightarrow>
       (case find_task h tid of None \<Rightarrow> (VTOP_MSG_ERR_TASKNOTEXIST, s)
        | Some i \<Rightarrow> (0, set_task h i ((taskTab h ! i)\<lparr>msgtype := t\<rparr>) s)))"

text \<open>\<open>TASK_TAB_GetMerge\<close> returns a message type; its error code is converted to one, too.\<close>

definition TASK_TAB_GetMerge :: "u32 \<Rightarrow> msg_sys \<Rightarrow> u32" where
  "TASK_TAB_GetMerge tid s =
     (case TASKGetAddr s of Inl e \<Rightarrow> of_int e
      | Inr h \<Rightarrow>
       (case find_task h tid of None \<Rightarrow> of_int VTOP_MSG_ERR_TASKNOTEXIST
        | Some i \<Rightarrow> msgtype (taskTab h ! i)))"

section \<open>Invariant\<close>

definition used_unit :: "MSG_TAB_TASK_S \<Rightarrow> bool" where
  "used_unit u \<longleftrightarrow> taskId u \<noteq> VTOP_INVALID_TASK_ID"

text \<open>
  Ids of used units are below the counter (so it has not wrapped) and are not repeated, free units have no
  queue and no name, and the queues of different units are different live queues, none of them
  the server's.
\<close>

definition unit_ok :: "queues \<Rightarrow> u32 \<Rightarrow> u32 \<Rightarrow> MSG_TAB_TASK_S \<Rightarrow> bool" where
  "unit_ok qs svr cnt u \<longleftrightarrow>
     (if used_unit u
      then taskId u < cnt \<and> length (taskName u) < VTOP_MSG_MAX_TASK_NAME_LEN \<and>
           (handle u \<noteq> 0 \<longrightarrow> handle u \<noteq> svr \<and> (\<exists>q. qs (handle u) = Some q \<and> queue_ok q \<and> qshape q))
      else handle u = 0 \<and> taskName u = [])"

definition no_clash :: "MSG_TAB_TASK_S list \<Rightarrow> bool" where
  "no_clash us \<longleftrightarrow> (\<forall>i < length us. \<forall>j < length us. i \<noteq> j \<longrightarrow>
     (used_unit (us ! i) \<longrightarrow> taskId (us ! i) \<noteq> taskId (us ! j)) \<and>
     (handle (us ! i) \<noteq> 0 \<longrightarrow> handle (us ! i) \<noteq> handle (us ! j)))"

definition queue_at_ok :: "queues \<Rightarrow> u32 \<Rightarrow> bool" where
  "queue_at_ok qs a \<longleftrightarrow> (\<exists>q. qs a = Some q \<and> queue_ok q \<and> qshape q)"

definition task_inv :: "msg_sys \<Rightarrow> bool" where
  "task_inv s \<longleftrightarrow>
     (s_msgSvrQueueHandle s \<noteq> 0 \<longrightarrow> queue_at_ok (qstore s) (s_msgSvrQueueHandle s)) \<and>
     (case g_MsgShmAddr s of None \<Rightarrow> True
      | Some h \<Rightarrow> length (taskTab h) = unat (maxTaskNum h) \<and> counter_taskId h \<le> VTOP_MAX_TASK_ID \<and>
          (\<forall>u \<in> set (taskTab h). unit_ok (qstore s) (s_msgSvrQueueHandle s) (counter_taskId h) u) \<and>
          no_clash (taskTab h))"

text \<open>The map that the table implements.\<close>

definition task_map :: "msg_sys \<Rightarrow> u32 \<rightharpoonup> MSG_TAB_TASK_S" where
  "task_map s tid =
     (case g_MsgShmAddr s of None \<Rightarrow> None
      | Some h \<Rightarrow> if tid = VTOP_INVALID_TASK_ID then None
                  else map_option (\<lambda>i. taskTab h ! i) (find_task h tid))"

text \<open>
  What the code relies on of \<open>malloc\<close>: a new queue is at an address that is not \<open>NULL\<close> and holds no
  other live queue, and the block memory lies inside the address space.
\<close>

definition malloc_ok :: "QUEUE_MALLOC \<Rightarrow> queues \<Rightarrow> bool" where
  "malloc_ok m qs \<longleftrightarrow>
     (\<forall>a. queue_at m = Some a \<longrightarrow> a \<noteq> 0 \<and> qs a = None) \<and>
     (\<forall>b. buf_at (queue_mb m) = Some b \<longrightarrow> unat b + 40128 < 2 ^ 32)"

text \<open>What the operations on the table leave alone: everything but the units, the id counter and the queues.\<close>

definition task_frame :: "msg_sys \<Rightarrow> msg_sys" where
  "task_frame s = s\<lparr>qstore := Map.empty,
     g_MsgShmAddr := map_option (\<lambda>h. h\<lparr>taskTab := [], counter_taskId := 0\<rparr>) (g_MsgShmAddr s)\<rparr>"

section \<open>Lookup\<close>

lemma no_clashD:
  assumes "no_clash us" and "i < length us" and "j < length us" and "i \<noteq> j"
  shows "used_unit (us ! i) \<Longrightarrow> taskId (us ! i) \<noteq> taskId (us ! j)"
    and "handle (us ! i) \<noteq> 0 \<Longrightarrow> handle (us ! i) \<noteq> handle (us ! j)"
  using assms by (auto simp: no_clash_def)

lemma find_task_iff:
  assumes "no_clash (taskTab h)" and "tid \<noteq> VTOP_INVALID_TASK_ID"
  shows "find_task h tid = Some i \<longleftrightarrow> i < length (taskTab h) \<and> taskId (taskTab h ! i) = tid"
proof
  assume "find_task h tid = Some i"
  then show "i < length (taskTab h) \<and> taskId (taskTab h ! i) = tid"
    using scan_SomeD(1,2) unfolding find_task_def by fast
next
  assume i: "i < length (taskTab h) \<and> taskId (taskTab h ! i) = tid"
  show "find_task h tid = Some i"
    unfolding find_task_def
  proof (rule scan_unique)
    show "j = i" if "j < length (taskTab h)" "taskId (taskTab h ! j) = tid" for j
      using no_clashD(1) [OF assms(1), of i j] i that assms(2) by (auto simp: used_unit_def)
  qed (use i in auto)
qed

lemma find_task_Some: "find_task h tid = Some i \<Longrightarrow> i < length (taskTab h) \<and> taskId (taskTab h ! i) = tid"
  using scan_SomeD(1,2) unfolding find_task_def by fast

lemma TASKGetAddr_simps [simp]:
  "g_MsgShmAddr s = Some h \<Longrightarrow> TASKGetAddr s = Inr h"
  "g_MsgShmAddr s = None \<Longrightarrow> TASKGetAddr s = Inl VTOP_MSG_ERR_SHMATTCH"
  by (simp_all add: TASKGetAddr_def)

lemma task_invD:
  assumes "task_inv s" and "g_MsgShmAddr s = Some h"
  shows "length (taskTab h) = unat (maxTaskNum h)" and "counter_taskId h \<le> VTOP_MAX_TASK_ID"
    and "i < length (taskTab h) \<Longrightarrow> unit_ok (qstore s) (s_msgSvrQueueHandle s) (counter_taskId h) (taskTab h ! i)"
    and "no_clash (taskTab h)"
  using assms by (auto simp: task_inv_def)

lemma task_map_iff:
  assumes "task_inv s" and "g_MsgShmAddr s = Some h"
  shows "task_map s tid = Some u \<longleftrightarrow>
    tid \<noteq> VTOP_INVALID_TASK_ID \<and> (\<exists>i < length (taskTab h). taskTab h ! i = u \<and> taskId u = tid)"
  using find_task_iff [OF task_invD(4) [OF assms], of tid] assms(2)
  by (auto simp: task_map_def)

lemma task_map_None: "g_MsgShmAddr s = None \<Longrightarrow> task_map s tid = None"
  by (simp add: task_map_def)

text \<open>The queries are lookups in the map.\<close>

lemma GetHandle_map:
  "tid \<noteq> VTOP_INVALID_TASK_ID \<Longrightarrow> TASK_TAB_GetHandle tid s = (case task_map s tid of None \<Rightarrow> 0 | Some u \<Rightarrow> handle u)"
  by (simp add: TASK_TAB_GetHandle_def task_map_def TASKGetAddr_def split: option.split)

lemma IsTaskIdExist_map:
  "tid \<noteq> VTOP_INVALID_TASK_ID \<Longrightarrow> TASK_TAB_IsTaskIdExist tid s \<longleftrightarrow> task_map s tid \<noteq> None"
  by (simp add: TASK_TAB_IsTaskIdExist_def task_map_def TASKGetAddr_def split: option.split)

lemma GetMerge_map:
  "tid \<noteq> VTOP_INVALID_TASK_ID \<Longrightarrow> g_MsgShmAddr s = Some h \<Longrightarrow>
   TASK_TAB_GetMerge tid s = (case task_map s tid of None \<Rightarrow> of_int VTOP_MSG_ERR_TASKNOTEXIST | Some u \<Rightarrow> msgtype u)"
  by (simp add: TASK_TAB_GetMerge_def task_map_def split: option.split)

lemma Id2Name_map:
  "tid \<noteq> VTOP_INVALID_TASK_ID \<Longrightarrow> g_MsgShmAddr s = Some h \<Longrightarrow>
   TASK_TAB_Id2Name tid s = (case task_map s tid of None \<Rightarrow> Inl VTOP_MSG_ERR_TASKNOTEXIST
      | Some u \<Rightarrow> Inr (strcut VTOP_MSG_MAX_TASK_NAME_LEN (taskName u)))"
  by (simp add: TASK_TAB_Id2Name_def task_map_def split: option.split)

lemma task_map_queue:
  assumes "task_inv s" and "task_map s tid = Some u"
  shows "taskId u = tid" and "tid \<noteq> VTOP_INVALID_TASK_ID" and "length (taskName u) < VTOP_MSG_MAX_TASK_NAME_LEN"
    and "handle u \<noteq> 0 \<Longrightarrow> queue_at_ok (qstore s) (handle u) \<and> handle u \<noteq> s_msgSvrQueueHandle s"
proof -
  obtain h where h: "g_MsgShmAddr s = Some h" using assms(2) task_map_None by (cases "g_MsgShmAddr s") auto
  from assms obtain i where i: "i < length (taskTab h)" "taskTab h ! i = u" "taskId u = tid"
    and t: "tid \<noteq> VTOP_INVALID_TASK_ID" by (auto simp: task_map_iff [OF assms(1) h])
  show "taskId u = tid" "tid \<noteq> VTOP_INVALID_TASK_ID" by fact+
  show "length (taskName u) < VTOP_MSG_MAX_TASK_NAME_LEN"
    "handle u \<noteq> 0 \<Longrightarrow> queue_at_ok (qstore s) (handle u) \<and> handle u \<noteq> s_msgSvrQueueHandle s"
    using task_invD(3) [OF assms(1) h i(1)] i t
    by (auto simp: unit_ok_def used_unit_def queue_at_ok_def)
qed

section \<open>Changing one unit\<close>

lemma task_inv_set:
  assumes inv: "task_inv s" and h: "g_MsgShmAddr s = Some h" and i: "i < length (taskTab h)"
    and h': "taskTab h' = taskTab h" "maxTaskNum h' = maxTaskNum h" "counter_taskId h \<le> counter_taskId h'"
      "counter_taskId h' \<le> VTOP_MAX_TASK_ID"
    and qs: "\<And>a. a \<noteq> 0 \<Longrightarrow> a \<noteq> handle (taskTab h ! i) \<Longrightarrow> queue_at_ok (qstore s) a \<Longrightarrow> queue_at_ok qs a"
    and u: "unit_ok qs (s_msgSvrQueueHandle s) (counter_taskId h') u"
    and id: "\<And>j. j < length (taskTab h) \<Longrightarrow> j \<noteq> i \<Longrightarrow> used_unit u \<Longrightarrow> taskId u \<noteq> taskId (taskTab h ! j)"
    and hd: "\<And>j. j < length (taskTab h) \<Longrightarrow> j \<noteq> i \<Longrightarrow> handle u \<noteq> 0 \<Longrightarrow> handle u \<noteq> handle (taskTab h ! j)"
  shows "task_inv (set_task h' i u (s\<lparr>qstore := qs\<rparr>))"
proof -
  note D = task_invD [OF inv h]
  let ?us = "(taskTab h)[i := u]" and ?svr = "s_msgSvrQueueHandle s"
  have svr: "?svr \<noteq> 0 \<longrightarrow> queue_at_ok qs ?svr"
  proof
    assume n: "?svr \<noteq> 0"
    have "?svr \<noteq> handle (taskTab h ! i)" using D(3) [OF i] n by (auto simp: unit_ok_def split: if_splits)
    then show "queue_at_ok qs ?svr" using inv n qs by (auto simp: task_inv_def)
  qed
  have units: "unit_ok qs ?svr (counter_taskId h') (?us ! j)" if j: "j < length (taskTab h)" for j
  proof (cases "j = i")
    case True
    then show ?thesis using u i by simp
  next
    case False
    have ok: "unit_ok (qstore s) ?svr (counter_taskId h) (taskTab h ! j)" using D(3) [OF j] .
    have "handle (taskTab h ! j) \<noteq> 0 \<Longrightarrow> handle (taskTab h ! j) \<noteq> handle (taskTab h ! i)"
      using no_clashD(2) [OF D(4) j i False] .
    then show ?thesis using ok qs [of "handle (taskTab h ! j)"] False h'(3)
      by (auto simp: unit_ok_def queue_at_ok_def split: if_splits dest: order.strict_trans2)
  qed
  have "no_clash ?us" unfolding no_clash_def
  proof (intro allI impI)
    fix j k assume jk: "j < length ?us" "k < length ?us" "j \<noteq> k"
    consider "j = i" | "k = i" "j \<noteq> i" | "j \<noteq> i" "k \<noteq> i" by blast
    then show "(used_unit (?us ! j) \<longrightarrow> taskId (?us ! j) \<noteq> taskId (?us ! k)) \<and>
      (handle (?us ! j) \<noteq> 0 \<longrightarrow> handle (?us ! j) \<noteq> handle (?us ! k))"
    proof cases
      case 1
      then show ?thesis using jk id hd i by auto
    next
      case 2
      then show ?thesis using jk id [of j] hd [of j] i by (auto simp: used_unit_def)
    next
      case 3
      then show ?thesis using jk no_clashD [OF D(4), of j k] by auto
    qed
  qed
  then show ?thesis using svr units D(1) h' by (auto simp: task_inv_def set_task_def in_set_conv_nth)
qed

lemma task_map_set:
  assumes inv: "task_inv s" and inv': "task_inv (set_task h' i u (s\<lparr>qstore := qs\<rparr>))"
    and h: "g_MsgShmAddr s = Some h" and i: "i < length (taskTab h)" and h': "taskTab h' = taskTab h"
  shows "task_map (set_task h' i u (s\<lparr>qstore := qs\<rparr>)) =
    (\<lambda>x. if x = taskId u \<and> used_unit u then Some u
         else if x = taskId (taskTab h ! i) then None else task_map s x)"
proof -
  let ?s = "set_task h' i u (s\<lparr>qstore := qs\<rparr>)"
  let ?t = "\<lambda>x. if x = taskId u \<and> used_unit u then Some u
         else if x = taskId (taskTab h ! i) then None else task_map s x"
  have g: "g_MsgShmAddr ?s = Some (h'\<lparr>taskTab := (taskTab h)[i := u]\<rparr>)" by (simp add: set_task_def h')
  note D = task_invD(4) [OF inv h]
  have m: "task_map ?s x = Some v \<longleftrightarrow> x \<noteq> VTOP_INVALID_TASK_ID \<and>
      (\<exists>j < length (taskTab h). (taskTab h)[i := u] ! j = v \<and> taskId v = x)" for x v
    using task_map_iff [OF inv' g] by simp
  have n: "?t x = Some v \<longleftrightarrow> x \<noteq> VTOP_INVALID_TASK_ID \<and>
      (\<exists>j < length (taskTab h). (taskTab h)[i := u] ! j = v \<and> taskId v = x)" for x v
  proof (cases "x = VTOP_INVALID_TASK_ID")
    case True
    then show ?thesis by (auto simp: used_unit_def task_map_def h)
  next
    case x: False
    note inv'D = task_invD(4) [OF inv' g]
    show ?thesis
    proof (cases "x = taskId u \<and> used_unit u")
      case True
      have "(taskTab h)[i := u] ! j = u"
        if "j < length (taskTab h)" "taskId ((taskTab h)[i := u] ! j) = x" for j
        using no_clashD(1) [OF inv'D, of i j] that i True by (cases "j = i") auto
      then have "(\<exists>j < length (taskTab h). (taskTab h)[i := u] ! j = v \<and> taskId v = x) \<longleftrightarrow> v = u"
        using True i by (metis nth_list_update_eq)
      then show ?thesis using True x by auto
    next
      case nu: False
      then have nu': "taskId u \<noteq> x" using x by (auto simp: used_unit_def)
      show ?thesis
      proof (cases "x = taskId (taskTab h ! i)")
        case True
        have "taskId ((taskTab h)[i := u] ! j) \<noteq> x" if "j < length (taskTab h)" for j
          using no_clashD(1) [OF D i that] nu' True x i by (cases "j = i") (auto simp: used_unit_def)
        then show ?thesis using nu True by auto
      next
        case False
        have "(\<exists>j < length (taskTab h). taskTab h ! j = v \<and> taskId v = x) \<longleftrightarrow>
          (\<exists>j < length (taskTab h). (taskTab h)[i := u] ! j = v \<and> taskId v = x)"
          using False nu' by (metis nth_list_update_eq nth_list_update_neq)
        then show ?thesis using nu False x task_map_iff [OF inv h, of x v] by auto
      qed
    qed
  qed
  show ?thesis by (rule map_eqI) (simp only: m n)
qed

section \<open>Adding and removing tasks\<close>

lemma next_task_id_mono: "c < VTOP_MAX_TASK_ID \<Longrightarrow> c < next_task_id c \<and> next_task_id c \<le> VTOP_MAX_TASK_ID"
  by (auto simp: next_task_id_def VTOP_MAX_TASK_ID_def word_less_nat_alt word_le_nat_alt unat_word_ariths)

lemma strcut_len: "0 < n \<Longrightarrow> length (strcut n x) < n"
  by (simp add: strcut_def)

text \<open>Filling a free unit with the next id, with a new queue \<open>q\<close> at \<open>a\<close> or without one.\<close>

lemma add_unit:
  assumes inv: "task_inv s" and h: "g_MsgShmAddr s = Some h" and cnt: "counter_taskId h < VTOP_MAX_TASK_ID"
    and i: "i < length (taskTab h)" and free: "taskId (taskTab h ! i) = VTOP_INVALID_TASK_ID"
    and u: "taskId u = counter_taskId h" "length (taskName u) < VTOP_MSG_MAX_TASK_NAME_LEN"
    and q: "(if handle u = 0 then qs = qstore s else qstore s (handle u) = None \<and>
              (\<exists>q. qs = (qstore s)(handle u \<mapsto> q) \<and> queue_ok q \<and> qshape q))"
    and s': "s' = set_task (h\<lparr>counter_taskId := next_task_id (counter_taskId h)\<rparr>) i u (s\<lparr>qstore := qs\<rparr>)"
  shows "task_inv s'" and "task_map s' = (task_map s)(counter_taskId h \<mapsto> u)"
    and "task_map s (counter_taskId h) = None"
proof -
  note D = task_invD [OF inv h]
  let ?c = "counter_taskId h"
  have cv: "?c \<noteq> VTOP_INVALID_TASK_ID" using cnt by (auto simp: VTOP_MAX_TASK_ID_def VTOP_INVALID_TASK_ID_def)
  have id: "?c \<noteq> taskId (taskTab h ! j)" if "j < length (taskTab h)" for j
    using D(3) [OF that] cv by (auto simp: unit_ok_def used_unit_def split: if_splits)
  have hcnt: "?c < next_task_id ?c" "next_task_id ?c \<le> VTOP_MAX_TASK_ID" using next_task_id_mono [OF cnt] by auto
  have new: "handle u \<noteq> 0 \<Longrightarrow> \<not> queue_at_ok (qstore s) (handle u)" using q by (simp add: queue_at_ok_def)
  have svr: "handle u \<noteq> 0 \<Longrightarrow> handle u \<noteq> s_msgSvrQueueHandle s" using inv new by (auto simp: task_inv_def)
  show inv': "task_inv s'" unfolding s'
  proof (rule task_inv_set [OF inv h i])
    let ?h = "h\<lparr>counter_taskId := next_task_id ?c\<rparr>"
    show "unit_ok qs (s_msgSvrQueueHandle s) (counter_taskId ?h) u"
      using hcnt cv u svr q by (auto simp: unit_ok_def used_unit_def)
    show "queue_at_ok qs x" if "queue_at_ok (qstore s) x" for x
      using that q new by (auto simp: queue_at_ok_def split: if_splits)
    show "handle u \<noteq> handle (taskTab h ! j)" if "j < length (taskTab h)" "handle u \<noteq> 0" for j
      using D(3) [OF that(1)] that new by (auto simp: unit_ok_def queue_at_ok_def split: if_splits)
    show "taskId u \<noteq> taskId (taskTab h ! j)" if "j < length (taskTab h)" for j using id [OF that] u by simp
  qed (use hcnt in \<open>auto simp: less_imp_le\<close>)
  have "task_map s VTOP_INVALID_TASK_ID = None" by (simp add: task_map_def h)
  then show "task_map s' = (task_map s)(?c \<mapsto> u)"
    using task_map_set [OF inv inv' [unfolded s'] h i] cv u free unfolding s'
    by (auto simp: used_unit_def fun_eq_iff)
  show "task_map s ?c = None"
  proof (cases "task_map s ?c")
    case (Some v)
    then obtain j where "j < length (taskTab h)" "taskId (taskTab h ! j) = ?c"
      by (auto simp: task_map_iff [OF inv h])
    then show ?thesis using id [of j] by simp
  qed
qed

lemma QueueInit_fail: "MSG_QueueInit m mem nm sz qs = Some (Inl e, qs') \<Longrightarrow> qs' = qs"
  by (auto simp: MSG_QueueInit_def split: if_splits option.splits sum.splits bind_splits)

lemma QueueInit_new:
  assumes ml: "malloc_ok m qs" and ini: "MSG_QueueInit m mem nm sz qs = Some (Inr a, qs')"
  obtains q where "a \<noteq> 0" and "qs a = None" and "qs' = qs(a \<mapsto> q)" and "queue_ok q" and "qshape q"
    and "queue_abs q = []" and "\<And>p. \<not> outstanding q p"
proof -
  from MSG_QueueInit_Inr [OF ini] obtain ctx where
    mb: "MB_Init (queue_mb m) True (Some (queue_buffer nm)) = Some (Inr ctx)" and a: "queue_at m = Some a" by blast
  obtain base where base: "buf_at (queue_mb m) = Some base" using MB_Init_Inr [OF mb] by blast
  have fits: "fits_memory base (queue_buffer nm)" using ml base by (intro queue_fits) (simp add: malloc_ok_def)
  show thesis
    by (rule new_queue [OF ini base fits]) (use ml a that in \<open>auto simp: malloc_ok_def\<close>)
qed

text \<open>What \<open>TASK_TAB_Add2\<close> did, as long as the id counter has not reached its end.\<close>

lemma Add2_cases:
  assumes inv: "task_inv s" and h: "g_MsgShmAddr s = Some h" and cnt: "counter_taskId h < VTOP_MAX_TASK_ID"
    and ml: "malloc_ok m (qstore s)" and add: "TASK_TAB_Add2 m mem name own s = Some (r, s')"
  obtains
    (full) "r = VTOP_INVALID_TASK_ID" and "s' = s" and "\<forall>u \<in> set (taskTab h). used_unit u"
  | (noqueue) u where "r = VTOP_INVALID_TASK_ID" and "task_inv s'" and "task_frame s' = task_frame s"
      and "qstore s' = qstore s" and "task_map s' = (task_map s)(counter_taskId h \<mapsto> u)" and "handle u = 0"
  | (added) u q where "r = counter_taskId h" and "task_inv s'" and "task_frame s' = task_frame s"
      and "task_map s r = None" and "task_map s' = (task_map s)(r \<mapsto> u)" and "taskName u = strcut VTOP_MSG_MAX_TASK_NAME_LEN name"
      and "msgtype u = VTOP_INVALID_MSG_TYPE" and "handle u \<noteq> 0" and "qstore s (handle u) = None"
      and "qstore s' = (qstore s)(handle u \<mapsto> q)" and "queue_abs q = []" and "\<And>p. \<not> outstanding q p"
proof (cases "scan (\<lambda>u. taskId u = VTOP_INVALID_TASK_ID) (taskTab h)")
  case None
  then have "\<forall>u \<in> set (taskTab h). used_unit u" by (simp add: scan_None_iff used_unit_def)
  moreover have "r = VTOP_INVALID_TASK_ID" "s' = s" using add h None by (auto simp: TASK_TAB_Add2_def)
  ultimately show thesis by (intro full)
next
  case (Some i)
  then have i: "i < length (taskTab h)" and free: "taskId (taskTab h ! i) = VTOP_INVALID_TASK_ID"
    using scan_SomeD(1,2) by fast+
  let ?c = "counter_taskId h" and ?n = "strcut VTOP_MSG_MAX_TASK_NAME_LEN name"
  let ?u = "(taskTab h ! i)\<lparr>taskId := ?c, msgtype := VTOP_INVALID_MSG_TYPE, taskName := ?n, owner := own\<rparr>"
  have fu: "handle ?u = 0" using task_invD(3) [OF inv h i] free by (simp add: unit_ok_def used_unit_def)
  have len: "length ?n < VTOP_MSG_MAX_TASK_NAME_LEN"
    by (rule strcut_len) (simp add: VTOP_MSG_MAX_TASK_NAME_LEN_def)
  note au = add_unit [OF inv h cnt i free]
  from add h Some obtain res qs where ini: "MSG_QueueInit m mem ?n MSG_DEFAULT_QUEUE_SIZE (qstore s) = Some (res, qs)"
    by (auto simp: TASK_TAB_Add2_def Let_def split: bind_splits)
  let ?s = "\<lambda>u. set_task (h\<lparr>counter_taskId := next_task_id ?c\<rparr>) i u (s\<lparr>qstore := qs\<rparr>)"
  show thesis
  proof (cases res)
    case (Inl e)
    have qs: "qs = qstore s" using QueueInit_fail ini Inl by blast
    have s': "s' = ?s ?u" and r: "r = VTOP_INVALID_TASK_ID"
      using add h Some ini Inl by (auto simp: TASK_TAB_Add2_def Let_def)
    show thesis
      using au(1,2) [OF _ _ _ s'] fu len qs r s' by (intro noqueue [of ?u]) (auto simp: set_task_def task_frame_def h)
  next
    case (Inr a)
    let ?ua = "?u\<lparr>handle := a\<rparr>"
    have s': "s' = ?s ?ua" and r: "r = ?c" using add h Some ini Inr by (auto simp: TASK_TAB_Add2_def Let_def)
    from QueueInit_new [OF ml ini [unfolded Inr]] obtain q where q: "a \<noteq> 0" "qstore s a = None"
      "qs = (qstore s)(a \<mapsto> q)" "queue_ok q" "qshape q" "queue_abs q = []" "\<And>p. \<not> outstanding q p" by blast
    then have side: "if handle ?ua = 0 then qs = qstore s else qstore s (handle ?ua) = None \<and>
       (\<exists>q. qs = (qstore s)(handle ?ua \<mapsto> q) \<and> queue_ok q \<and> qshape q)" by auto
    show thesis
      using au [OF _ _ side s'] len q r s' by (intro added [of ?ua q]) (auto simp: set_task_def task_frame_def h)
  qed
qed

lemma QueueDeinit_ok: "a \<noteq> 0 \<Longrightarrow> queue_at_ok qs a \<Longrightarrow> MSG_QueueDeinit a qs = Some (qs(a := None))"
  using queue_remove_all [OF queue_okD] by (fastforce simp: queue_at_ok_def MSG_QueueDeinit_def MSG_QueueRemove_def)

lemma Del_cases:
  assumes inv: "task_inv s" and u: "task_map s tid = Some u"
  obtains s' where "TASK_TAB_Del tid s = Some (0, s')" and "task_inv s'"
    and "task_map s' = (task_map s)(tid := None)" and "task_frame s' = task_frame s"
    and "qstore s' = (if handle u = 0 then qstore s else (qstore s)(handle u := None))"
proof -
  obtain h where h: "g_MsgShmAddr s = Some h" using u task_map_None by (cases "g_MsgShmAddr s") auto
  have tid: "tid \<noteq> VTOP_INVALID_TASK_ID" "taskId u = tid" using task_map_queue [OF inv u] by auto
  obtain i where f: "find_task h tid = Some i" and ui: "u = taskTab h ! i"
    using u h tid by (auto simp: task_map_def)
  have i: "i < length (taskTab h)" using find_task_Some [OF f] by simp
  let ?qs = "if handle u = 0 then qstore s else (qstore s)(handle u := None)"
  have dq: "MSG_QueueDeinit (handle u) (qstore s) = Some ?qs"
  proof (cases "handle u = 0")
    case False
    then show ?thesis using QueueDeinit_ok task_map_queue(4) [OF inv u] by simp
  qed (simp add: MSG_QueueDeinit_def)
  let ?s = "set_task h i TASKTABInitUnit (s\<lparr>qstore := ?qs\<rparr>)"
  have d: "TASK_TAB_Del tid s = Some (0, ?s)" using h f dq ui by (simp add: TASK_TAB_Del_def)
  have inv': "task_inv ?s"
    by (rule task_inv_set [OF inv h i])
       (use task_invD(2) [OF inv h] ui in \<open>auto simp: unit_ok_def used_unit_def TASKTABInitUnit_def zero_task_def queue_at_ok_def\<close>)
  have m: "task_map ?s = (task_map s)(tid := None)"
    using task_map_set [OF inv inv' h i] ui tid
    by (auto simp: fun_eq_iff used_unit_def TASKTABInitUnit_def)
  show thesis by (rule that [OF d inv' m]) (simp_all add: set_task_def task_frame_def h)
qed

lemma Del_missing:
  assumes "g_MsgShmAddr s = Some h" and "tid \<noteq> VTOP_INVALID_TASK_ID" and "task_map s tid = None"
  shows "TASK_TAB_Del tid s = Some (VTOP_MSG_ERR_TASKNOTEXIST, s)"
  using assms by (simp add: TASK_TAB_Del_def task_map_def)

lemma SetMerge_cases:
  assumes inv: "task_inv s" and u: "task_map s tid = Some u"
  obtains s' where "TASK_TAB_SetMerge tid t s = (0, s')" and "task_inv s'"
    and "task_map s' = (task_map s)(tid \<mapsto> u\<lparr>msgtype := t\<rparr>)" and "qstore s' = qstore s"
    and "task_frame s' = task_frame s"
proof -
  obtain h where h: "g_MsgShmAddr s = Some h" using u task_map_None by (cases "g_MsgShmAddr s") auto
  have tid: "tid \<noteq> VTOP_INVALID_TASK_ID" "taskId u = tid" using task_map_queue [OF inv u] by auto
  obtain i where f: "find_task h tid = Some i" and ui: "u = taskTab h ! i"
    using u h tid by (auto simp: task_map_def)
  have i: "i < length (taskTab h)" using find_task_Some [OF f] by simp
  let ?s = "set_task h i (u\<lparr>msgtype := t\<rparr>) (s\<lparr>qstore := qstore s\<rparr>)"
  have d: "TASK_TAB_SetMerge tid t s = (0, ?s)" using h f ui by (simp add: TASK_TAB_SetMerge_def)
  note D = task_invD [OF inv h]
  have inv': "task_inv ?s"
  proof (rule task_inv_set [OF inv h i])
    show "unit_ok (qstore s) (s_msgSvrQueueHandle s) (counter_taskId h) (u\<lparr>msgtype := t\<rparr>)"
      using D(3) [OF i] ui by (simp add: unit_ok_def used_unit_def)
  qed (use no_clashD [OF D(4) i] D(2) ui in \<open>auto simp: used_unit_def\<close>)
  have m: "task_map ?s = (task_map s)(tid \<mapsto> u\<lparr>msgtype := t\<rparr>)"
    using task_map_set [OF inv inv' h i] ui tid by (auto simp: fun_eq_iff used_unit_def)
  show thesis by (rule that [OF d inv' m]) (simp_all add: set_task_def task_frame_def h)
qed

text \<open>A table fresh from \<open>TASK_TAB_Init\<close>.\<close>

lemma task_inv_init:
  assumes "g_MsgShmAddr s = Some (shm_of_config c)" and fits: "shm_fits c"
    and "s_msgSvrQueueHandle s \<noteq> 0 \<longrightarrow> queue_at_ok (qstore s) (s_msgSvrQueueHandle s)"
    and s': "s' = s\<lparr>g_MsgShmAddr := Some ((shm_of_config c)\<lparr>taskTab := map (\<lambda>_. TASKTABInitUnit) (taskTab (shm_of_config c))\<rparr>)\<rparr>"
  shows "TASK_TAB_Init s = Some (0, s')" and "task_inv s'" and "task_map s' = Map.empty"
proof -
  let ?h = "shm_of_config c"
  have n: "length (taskTab ?h) = unat (maxTaskNum ?h)" using shm_complete(1) [OF fits] by simp
  have c: "counter_taskId ?h = 0" by (simp add: shm_of_config_def Let_def)
  show "TASK_TAB_Init s = Some (0, s')" using assms(1) n by (simp add: TASK_TAB_Init_def init_tasks_def s')
  show inv: "task_inv s'"
    using assms(3) n c by (simp add: task_inv_def s' no_clash_def unit_ok_def used_unit_def TASKTABInitUnit_def zero_task_def)
  show "task_map s' = Map.empty"
    by (rule map_eqI, subst task_map_iff [OF inv]) (auto simp: s' TASKTABInitUnit_def)
qed

text \<open>Without room for all units the initialisation writes outside of the memory.\<close>

lemma TASK_TAB_Init_short: "g_MsgShmAddr s = Some h \<Longrightarrow> length (taskTab h) < unat (maxTaskNum h) \<Longrightarrow> TASK_TAB_Init s = None"
  by (simp add: TASK_TAB_Init_def init_tasks_def)

section \<open>Samples\<close>

definition small_config :: VTOP_MSG_S_Config where
  "small_config = \<lparr>ulMaxTask = 2, ulMaxSub = 2, ulMaxMem = 0, cfgBlockNum = [0, 0, 0, 0]\<rparr>"

lemma small_shm:
  "shm_of_config small_config = \<lparr>maxTaskNum = 2, maxSubNum = 2, maxTaskNumInSub = 2, taskTabPos = 60, subTabPos = 124,
     counter_taskId = 0, counter_msgId = 0, version = strcut VTOP_MSG_MAX_VERSION_SIZE VTOP_MSG_VERSION,
     taskTab = [zero_task, zero_task], subTab = [zero_sub 2, zero_sub 2]\<rparr>"
proof -
  have two: "replicate 2 x = [x, x]" for x :: 'a by (simp add: numeral_2_eq_2)
  show ?thesis
    by (simp add: shm_of_config_def Let_def small_config_def GET_VALUE_def TASK_TAB_CalcSize_def SUB_TAB_CalcSize_def SUBTABCalcUnitSize_def
        sizeof_SHM_def sizeof_TASK_def units_in_def two)
qed

lemma small_fits: "shm_fits small_config"
  by (simp add: shm_fits_def shm_bytes_def small_shm)

definition sample_sys :: msg_sys where
  "sample_sys = snd (the (TASK_TAB_Init (sys0\<lparr>g_MsgShmAddr := Some (shm_of_config small_config)\<rparr>)))"

definition sample_shm :: MSG_SHM_S where
  "sample_shm = (shm_of_config small_config)\<lparr>taskTab := [TASKTABInitUnit, TASKTABInitUnit]\<rparr>"

lemma sample_sys_eq: "sample_sys = sys0\<lparr>g_MsgShmAddr := Some sample_shm\<rparr>"
  by (simp add: sample_sys_def TASK_TAB_Init_def init_tasks_def sample_shm_def small_shm)

lemma sample_sys_inv: "task_inv sample_sys" "task_map sample_sys = Map.empty"
  and sample_sys_shm: "g_MsgShmAddr sample_sys = Some sample_shm"
proof -
  let ?s = "sys0\<lparr>g_MsgShmAddr := Some (shm_of_config small_config)\<rparr>"
  have a: "g_MsgShmAddr ?s = Some (shm_of_config small_config)"
    "s_msgSvrQueueHandle ?s \<noteq> 0 \<longrightarrow> queue_at_ok (qstore ?s) (s_msgSvrQueueHandle ?s)"
    by (simp_all add: sys0_def)
  have "sample_sys = ?s\<lparr>g_MsgShmAddr := Some ((shm_of_config small_config)\<lparr>taskTab := map (\<lambda>_. TASKTABInitUnit) (taskTab (shm_of_config small_config))\<rparr>)\<rparr>"
    by (simp add: sample_sys_eq sample_shm_def small_shm)
  from task_inv_init(2,3) [OF a(1) small_fits a(2) this] show "task_inv sample_sys" "task_map sample_sys = Map.empty" .
  show "g_MsgShmAddr sample_sys = Some sample_shm" by (simp add: sample_sys_eq)
qed

lemma sample_qstore [simp]: "qstore sample_sys = Map.empty"
  by (simp add: sample_sys_eq sys0_def)

lemma sample_counter [simp]: "counter_taskId sample_shm = 0"
  by (simp add: sample_shm_def small_shm)

lemma sample_malloc_ok: "malloc_ok sample_qmalloc Map.empty"
  by (simp add: malloc_ok_def sample_qmalloc_def sample_malloc_def)

lemma QueueInit_sample: "\<exists>qs'. MSG_QueueInit sample_qmalloc mem nm 32768 qs = Some (Inr 0x100, qs')"
proof -
  have a: "queue_at sample_qmalloc = Some 0x100" "ctx_ok (queue_mb sample_qmalloc)"
    "buf_at (queue_mb sample_qmalloc) = Some 0x1000" "\<forall>i. pmsg_ok (queue_mb sample_qmalloc) i"
    by (simp_all add: sample_qmalloc_def sample_malloc_def)
  then obtain ctx where "MB_Init (queue_mb sample_qmalloc) True (Some (queue_buffer nm)) = Some (Inr ctx)"
    using MB_Init_succeeds [OF queue_check] by metis
  with a(1) show ?thesis by (simp add: MSG_QueueInit_def)
qed

lemma sample_add: "\<exists>s'. TASK_TAB_Add2 sample_qmalloc mem name own sample_sys = Some (0, s')"
proof -
  obtain qs where "MSG_QueueInit sample_qmalloc mem (strcut VTOP_MSG_MAX_TASK_NAME_LEN name)
      MSG_DEFAULT_QUEUE_SIZE Map.empty = Some (Inr 0x100, qs)"
    unfolding MSG_DEFAULT_QUEUE_SIZE_def using QueueInit_sample by force
  moreover have "scan (\<lambda>u. taskId u = VTOP_INVALID_TASK_ID) (taskTab sample_shm) = Some 0"
    by (simp add: sample_shm_def TASKTABInitUnit_def)
  ultimately show ?thesis by (simp add: TASK_TAB_Add2_def sample_sys_shm Let_def)
qed

section \<open>Properties\<close>

text \<open>
  A successful registration in the task table returns the next id, which no task has, keeps
  the table's invariant and all other tasks and queues, and gives the new task an empty queue of
  its own and its (cut) name.
\<close>

theorem TASK_TAB_Add2_registers:
  assumes "task_inv s" and "g_MsgShmAddr s = Some h" and "counter_taskId h < VTOP_MAX_TASK_ID"
    and "malloc_ok m (qstore s)" and "TASK_TAB_Add2 m mem name own s = Some (r, s')"
    and "r \<noteq> VTOP_INVALID_TASK_ID"
  shows "task_inv s' \<and> r = counter_taskId h \<and> task_map s r = None \<and>
    (\<forall>x. x \<noteq> r \<longrightarrow> task_map s' x = task_map s x) \<and>
    TASK_TAB_Id2Name r s' = Inr (strcut VTOP_MSG_MAX_TASK_NAME_LEN name) \<and>
    TASK_TAB_GetHandle r s' \<noteq> 0 \<and>
    (\<exists>q. qstore s' = (qstore s)(TASK_TAB_GetHandle r s' \<mapsto> q) \<and> queue_abs q = [])"
  using assms(1-5)
proof (cases rule: Add2_cases)
  case (added u q)
  have h: "TASK_TAB_GetHandle r s' = handle u" using GetHandle_map [OF assms(6), of s'] added by simp
  obtain h' where "g_MsgShmAddr s' = Some h'"
    using added(3) assms(2) by (cases "g_MsgShmAddr s'") (auto simp: task_frame_def dest!: arg_cong [of _ _ g_MsgShmAddr])
  then have "TASK_TAB_Id2Name r s' = Inr (strcut VTOP_MSG_MAX_TASK_NAME_LEN name)"
    using Id2Name_map [OF assms(6), of s'] added by (simp add: strcut_def)
  then show ?thesis using added h by auto
qed (use assms(6) in simp_all)

theorem TASK_TAB_Add2_registers_witness:
  "\<exists>s'. TASK_TAB_Add2 sample_qmalloc (\<lambda>_. sample_msg 0) ''ui'' TASK_OWNER_TASK sample_sys = Some (0, s') \<and>
     task_inv s' \<and> TASK_TAB_Id2Name 0 s' = Inr ''ui''"
proof -
  obtain s' where s': "TASK_TAB_Add2 sample_qmalloc (\<lambda>_. sample_msg 0) ''ui'' TASK_OWNER_TASK sample_sys = Some (0, s')"
    using sample_add by blast
  show ?thesis
    using TASK_TAB_Add2_registers [OF sample_sys_inv(1) sample_sys_shm _ _ s'] sample_malloc_ok s'
    by (simp add: VTOP_MAX_TASK_ID_def VTOP_INVALID_TASK_ID_def strcut_def VTOP_MSG_MAX_TASK_NAME_LEN_def)
qed

text \<open>
  Deleting a registered task succeeds without ending the process, whatever its queue holds: the task
  and its queue are gone, and all other tasks, queues and the rest of the system are as before.
\<close>

theorem TASK_TAB_Del_removes:
  assumes "task_inv s" and "task_map s tid = Some u"
  shows "\<exists>s'. TASK_TAB_Del tid s = Some (0, s') \<and> task_inv s' \<and> task_frame s' = task_frame s \<and>
    task_map s' = (task_map s)(tid := None) \<and> \<not> TASK_TAB_IsTaskIdExist tid s' \<and>
    (\<forall>a. a \<noteq> handle u \<longrightarrow> qstore s' a = qstore s a) \<and> (handle u \<noteq> 0 \<longrightarrow> qstore s' (handle u) = None)"
proof -
  obtain s' where s': "TASK_TAB_Del tid s = Some (0, s')" "task_inv s'" "task_map s' = (task_map s)(tid := None)"
    "task_frame s' = task_frame s" "qstore s' = (if handle u = 0 then qstore s else (qstore s)(handle u := None))"
    by (rule Del_cases [OF assms]) auto
  then show ?thesis using IsTaskIdExist_map [OF task_map_queue(2) [OF assms], of s'] by auto
qed

theorem TASK_TAB_Del_removes_witness:
  "\<exists>s s'. task_map s 0 \<noteq> None \<and> TASK_TAB_Del 0 s = Some (0, s') \<and> task_map s' 0 = None"
proof -
  obtain s where s: "TASK_TAB_Add2 sample_qmalloc (\<lambda>_. sample_msg 0) ''ui'' TASK_OWNER_TASK sample_sys = Some (0, s)"
    using sample_add by blast
  obtain u where u: "task_inv s" "task_map s 0 = Some u"
    by (rule Add2_cases [OF sample_sys_inv(1) sample_sys_shm _ _ s])
       (use sample_malloc_ok in \<open>auto simp: VTOP_MAX_TASK_ID_def VTOP_INVALID_TASK_ID_def\<close>)
  show ?thesis using TASK_TAB_Del_removes [OF u] u(2) by auto
qed

text \<open>
  The id counter wraps to 0 behind \<open>VTOP_MAX_TASK_ID\<close>, and \<open>TASK_TAB_Add2\<close> does not check that the
  counter's value is unused: with task 0 still registered and the counter back at 0, a further
  registration succeeds with the id 0 again.
\<close>

theorem TASK_TAB_id_reuse:
  assumes "g_MsgShmAddr s = Some h" and "counter_taskId h = next_task_id VTOP_MAX_TASK_ID"
    and "find_task h 0 = Some k" and "scan (\<lambda>u. taskId u = VTOP_INVALID_TASK_ID) (taskTab h) = Some i"
    and "MSG_QueueInit m mem (strcut VTOP_MSG_MAX_TASK_NAME_LEN name) MSG_DEFAULT_QUEUE_SIZE (qstore s) = Some (Inr a, qs)"
  shows "\<exists>s' h'. TASK_TAB_Add2 m mem name own s = Some (0, s') \<and> g_MsgShmAddr s' = Some h' \<and> i \<noteq> k \<and>
    taskId (taskTab h' ! k) = 0 \<and> taskId (taskTab h' ! i) = 0"
proof -
  have c: "counter_taskId h = 0" using assms(2) by (simp add: next_task_id_def)
  have k: "k < length (taskTab h)" "taskId (taskTab h ! k) = 0" using find_task_Some [OF assms(3)] by auto
  have i: "i < length (taskTab h)" "taskId (taskTab h ! i) = VTOP_INVALID_TASK_ID"
    using scan_SomeD(1,2) [OF assms(4)] by auto
  have ne: "i \<noteq> k" using k i by (auto simp: VTOP_INVALID_TASK_ID_def)
  show ?thesis using assms(1,4,5) c k i ne by (simp add: TASK_TAB_Add2_def Let_def set_task_def)
qed

definition wrapped_sys :: msg_sys where
  "wrapped_sys = sample_sys\<lparr>g_MsgShmAddr :=
     Some (sample_shm\<lparr>taskTab := [TASKTABInitUnit\<lparr>taskId := 0\<rparr>, TASKTABInitUnit]\<rparr>)\<rparr>"

theorem TASK_TAB_id_reuse_witness:
  "\<exists>s'. TASK_TAB_Add2 sample_qmalloc (\<lambda>_. sample_msg 0) ''ui'' TASK_OWNER_TASK wrapped_sys = Some (0, s')"
proof -
  let ?h = "sample_shm\<lparr>taskTab := [TASKTABInitUnit\<lparr>taskId := 0\<rparr>, TASKTABInitUnit]\<rparr>"
  have h: "g_MsgShmAddr wrapped_sys = Some ?h" by (simp add: wrapped_sys_def)
  have c: "counter_taskId ?h = next_task_id VTOP_MAX_TASK_ID" by (simp add: next_task_id_def)
  have f: "find_task ?h 0 = Some 0" by (simp add: find_task_def)
  have n: "scan (\<lambda>u. taskId u = VTOP_INVALID_TASK_ID) (taskTab ?h) = Some 1"
    by (simp add: VTOP_INVALID_TASK_ID_def TASKTABInitUnit_def)
  obtain qs where q: "MSG_QueueInit sample_qmalloc (\<lambda>_. sample_msg 0) (strcut VTOP_MSG_MAX_TASK_NAME_LEN ''ui'')
      MSG_DEFAULT_QUEUE_SIZE (qstore wrapped_sys) = Some (Inr 0x100, qs)"
    unfolding MSG_DEFAULT_QUEUE_SIZE_def using QueueInit_sample by force
  from TASK_TAB_id_reuse [OF h c f n q] show ?thesis by blast
qed

text \<open>
  When the queue of a new task cannot be created, \<open>TASK_TAB_Add2\<close> reports failure, but the unit stays
  occupied: the table holds a task with the consumed id that has no queue and that its owner does not know.
\<close>

theorem TASK_TAB_Add2_leaks_unit:
  assumes "task_inv s" and "g_MsgShmAddr s = Some h" and "counter_taskId h < VTOP_MAX_TASK_ID"
    and "malloc_ok m (qstore s)" and "queue_at m = None" and "\<exists>u \<in> set (taskTab h). \<not> used_unit u"
  shows "\<exists>s' u. TASK_TAB_Add2 m mem name own s = Some (VTOP_INVALID_TASK_ID, s') \<and>
    task_map s' = (task_map s)(counter_taskId h \<mapsto> u) \<and> handle u = 0"
proof -
  have q: "MSG_QueueInit m mem nm MSG_DEFAULT_QUEUE_SIZE qs = Some (Inl (-1), qs)" for nm qs
    using assms(5) by (simp add: MSG_QueueInit_def MSG_DEFAULT_QUEUE_SIZE_def)
  have "\<exists>i. scan (\<lambda>u. taskId u = VTOP_INVALID_TASK_ID) (taskTab h) = Some i"
    using assms(6) by (auto simp: used_unit_def intro: scan_exists)
  then obtain s' where s': "TASK_TAB_Add2 m mem name own s = Some (VTOP_INVALID_TASK_ID, s')"
    using assms(2) q by (auto simp: TASK_TAB_Add2_def Let_def)
  have c: "counter_taskId h \<noteq> VTOP_INVALID_TASK_ID"
    using assms(3) by (auto simp: VTOP_MAX_TASK_ID_def VTOP_INVALID_TASK_ID_def)
  show ?thesis by (rule Add2_cases [OF assms(1-4) s']) (use s' c assms(6) in auto)
qed

theorem TASK_TAB_Add2_leaks_unit_witness:
  "\<exists>s'. TASK_TAB_Add2 (sample_qmalloc\<lparr>queue_at := None\<rparr>) (\<lambda>_. sample_msg 0) ''ui'' TASK_OWNER_TASK sample_sys
     = Some (VTOP_INVALID_TASK_ID, s') \<and> task_map s' 0 \<noteq> None"
proof -
  have m: "malloc_ok (sample_qmalloc\<lparr>queue_at := None\<rparr>) (qstore sample_sys)"
    by (simp add: malloc_ok_def sample_qmalloc_def sample_malloc_def)
  have u: "\<exists>u \<in> set (taskTab sample_shm). \<not> used_unit u"
    by (simp add: sample_shm_def used_unit_def TASKTABInitUnit_def)
  show ?thesis
    using TASK_TAB_Add2_leaks_unit [OF sample_sys_inv(1) sample_sys_shm _ m _ u, of "\<lambda>_. sample_msg 0" "''ui''" TASK_OWNER_TASK]
    by (auto simp: VTOP_MAX_TASK_ID_def)
qed

end
