(* ===== verification/Msg_Submng.thy ===== *)
theory Msg_Submng
  imports Msg_Taskmng
begin

text \<open>
  The subscription table of \<open>common/msg_submng.c\<close>: units of a message type with an array of task
  ids. The table is shown to implement a relation between message types and registered tasks.
\<close>

section \<open>Operations\<close>

definition SUBGetAddr :: "msg_sys \<Rightarrow> s32 + MSG_SHM_S" where
  "SUBGetAddr s = (case g_MsgShmAddr s of None \<Rightarrow> Inl VTOP_MSG_ERR_SHMATTCH | Some h \<Rightarrow> Inr h)"

definition set_sub :: "MSG_SHM_S \<Rightarrow> nat \<Rightarrow> MSG_TAB_SUB_S \<Rightarrow> msg_sys \<Rightarrow> msg_sys" where
  "set_sub h k u s = s\<lparr>g_MsgShmAddr := Some (h\<lparr>subTab := (subTab h)[k := u]\<rparr>)\<rparr>"

definition SUBTABInitUnit :: "nat \<Rightarrow> MSG_TAB_SUB_S" where
  "SUBTABInitUnit n = \<lparr>subType = VTOP_INVALID_MSG_TYPE, taskIdList = replicate n VTOP_INVALID_TASK_ID\<rparr>"

text \<open>The loop of \<open>SUB_TAB_Init\<close> writes \<open>maxSubNum\<close> units, also when the memory has fewer.\<close>

definition SUB_TAB_Init :: "msg_sys \<Rightarrow> (s32 \<times> msg_sys) run" where
  "SUB_TAB_Init s =
     (case SUBGetAddr s of Inl e \<Rightarrow> Some (VTOP_MSG_ERR_SHMATTCH, s)
      | Inr h \<Rightarrow>
        if length (subTab h) < unat (maxSubNum h) then None
        else Some (0, s\<lparr>g_MsgShmAddr := Some (h\<lparr>subTab := map (\<lambda>_. SUBTABInitUnit (unat (maxTaskNumInSub h))) (subTab h)\<rparr>)\<rparr>))"

definition SUB_TAB_IsExist :: "u32 \<Rightarrow> msg_sys \<Rightarrow> nat option" where
  "SUB_TAB_IsExist t s =
     (case SUBGetAddr s of Inl e \<Rightarrow> None | Inr h \<Rightarrow> scan (\<lambda>u. subType u = t) (subTab h))"

definition SUB_TAB_Add :: "u32 \<Rightarrow> u32 \<Rightarrow> msg_sys \<Rightarrow> s32 \<times> msg_sys" where
  "SUB_TAB_Add t tid s =
     (if \<not> TASK_TAB_IsTaskIdExist tid s then (VTOP_MSG_ERR_TASKNOTEXIST, s)
      else case SUBGetAddr s of Inl e \<Rightarrow> (e, s)
      | Inr h \<Rightarrow>
       (case SUB_TAB_IsExist t s of
          Some k \<Rightarrow>
            let u = subTab h ! k in
            if scan (\<lambda>i. i = tid) (taskIdList u) \<noteq> None then (VTOP_MSG_ERR_SUBEXIST, s)
            else (case scan (\<lambda>i. i = VTOP_INVALID_TASK_ID) (taskIdList u) of
                Some j \<Rightarrow> (0, set_sub h k (u\<lparr>taskIdList := (taskIdList u)[j := tid]\<rparr>) s)
              | None \<Rightarrow> (VTOP_MSG_ERR_SUBMEMBERFULL, s))
        | None \<Rightarrow>
            (case scan (\<lambda>u. subType u = VTOP_INVALID_MSG_TYPE) (subTab h) of
                Some k \<Rightarrow> (0, set_sub h k ((subTab h ! k)\<lparr>subType := t,
                                taskIdList := (taskIdList (subTab h ! k))[0 := tid]\<rparr>) s)
              | None \<Rightarrow> (VTOP_MSG_ERR_SUBFULL, s))))"

definition SUB_TAB_Del :: "u32 \<Rightarrow> u32 \<Rightarrow> msg_sys \<Rightarrow> s32 \<times> msg_sys" where
  "SUB_TAB_Del t tid s =
     (if \<not> TASK_TAB_IsTaskIdExist tid s then (VTOP_MSG_ERR_TASKNOTEXIST, s)
      else case SUBGetAddr s of Inl e \<Rightarrow> (e, s)
      | Inr h \<Rightarrow>
       (case SUB_TAB_IsExist t s of None \<Rightarrow> (VTOP_MSG_ERR_SUBNOTEXIST, s)
        | Some k \<Rightarrow>
            let u = subTab h ! k in
            (case scan (\<lambda>i. i = tid) (taskIdList u) of None \<Rightarrow> (VTOP_MSG_ERR_SUBNOTEXIST, s)
             | Some j \<Rightarrow>
               let ids = (taskIdList u)[j := VTOP_INVALID_TASK_ID];
                   t' = (if scan (\<lambda>i. i \<noteq> VTOP_INVALID_TASK_ID) ids = None
                         then VTOP_INVALID_MSG_TYPE else subType u)
               in (0, set_sub h k (u\<lparr>taskIdList := ids, subType := t'\<rparr>) s))))"

text \<open>\<open>SUB_TAB_Sub2Task\<close> and \<open>SUB_TAB_Task2Sub\<close>, with the room \<open>*pNum\<close> of the result array.\<close>

definition SUB_TAB_Sub2Task :: "u32 \<Rightarrow> u32 \<Rightarrow> msg_sys \<Rightarrow> s32 + u32 list" where
  "SUB_TAB_Sub2Task t pNum s =
     (case SUBGetAddr s of Inl e \<Rightarrow> Inl e
      | Inr h \<Rightarrow>
       (case SUB_TAB_IsExist t s of None \<Rightarrow> Inl VTOP_MSG_ERR_SUBNOTEXIST
        | Some k \<Rightarrow> Inr (collect_upto (unat pNum) (\<lambda>i. i \<noteq> VTOP_INVALID_TASK_ID) 0
                           (taskIdList (subTab h ! k)))))"

definition sub_members :: "MSG_TAB_SUB_S list \<Rightarrow> (u32 \<times> u32) list" where
  "sub_members us = concat (map (\<lambda>u. map (Pair (subType u)) (taskIdList u))
     (filter (\<lambda>u. subType u \<noteq> VTOP_INVALID_MSG_TYPE) us))"

definition SUB_TAB_Task2Sub :: "u32 \<Rightarrow> u32 \<Rightarrow> msg_sys \<Rightarrow> s32 + u32 list" where
  "SUB_TAB_Task2Sub tid pNum s =
     (if \<not> TASK_TAB_IsTaskIdExist tid s then Inl VTOP_MSG_ERR_TASKNOTEXIST
      else case SUBGetAddr s of Inl e \<Rightarrow> Inl e
      | Inr h \<Rightarrow> Inr (map fst (collect_upto (unat pNum) (\<lambda>(t, i). i = tid) 0 (sub_members (subTab h)))))"

text \<open>
  \<open>SUB_TAB_DeInit\<close> on the memory of the table, as 32-bit words from the table's address \<open>base\<close> on. It
  steps by \<open>sizeof(MSG_TAB_SUB_S)\<close>, two words, and not by the size of a unit.
\<close>

definition init_unit_at :: "u32 \<Rightarrow> nat \<Rightarrow> nat \<Rightarrow> u32 list \<Rightarrow> u32 list" where
  "init_unit_at base n w ws =
     fold (\<lambda>j ws. ws[w + 2 + j := VTOP_INVALID_TASK_ID]) [0..<n]
       (ws[w := VTOP_INVALID_MSG_TYPE, w + 1 := base + of_nat (4 * w) + 8])"

definition SUB_TAB_DeInit :: "u32 \<Rightarrow> nat \<Rightarrow> nat \<Rightarrow> u32 list \<Rightarrow> u32 list" where
  "SUB_TAB_DeInit base maxSub n ws = fold (\<lambda>k. init_unit_at base n (2 * k)) [0..<maxSub] ws"

text \<open>
  The table as the words of its memory: the message type of a unit, the pointer to its array and the array, which lies behind the pointer.
  Reading the words back follows the pointer, as the operations do; a pointer to outside of the table has nothing to read.
\<close>

definition unit_words :: "u32 \<Rightarrow> nat \<Rightarrow> nat \<Rightarrow> MSG_TAB_SUB_S \<Rightarrow> u32 list" where
  "unit_words base n k u = subType u # (base + of_nat (4 * (k * (n + 2) + 2))) # taskIdList u"

definition tab_words :: "u32 \<Rightarrow> nat \<Rightarrow> MSG_TAB_SUB_S list \<Rightarrow> u32 list" where
  "tab_words base n us = concat (map (\<lambda>(k, u). unit_words base n k u) (enumerate 0 us))"

definition unit_of_words :: "u32 \<Rightarrow> nat \<Rightarrow> u32 list \<Rightarrow> nat \<Rightarrow> MSG_TAB_SUB_S" where
  "unit_of_words base n ws k =
     \<lparr>subType = ws ! (k * (n + 2)), taskIdList = take n (drop (unat (ws ! (k * (n + 2) + 1) - base) div 4) ws)\<rparr>"

definition tab_of_words :: "u32 \<Rightarrow> nat \<Rightarrow> nat \<Rightarrow> u32 list \<Rightarrow> MSG_TAB_SUB_S list" where
  "tab_of_words base n m ws = map (unit_of_words base n ws) [0..<m]"

text \<open>\<open>SUB_TAB_DeInit\<close> on the state. Its last write is to the word \<open>2 * maxSub + n - 1\<close> of the table.\<close>

definition SUB_TAB_DeInit_sys :: "u32 \<Rightarrow> msg_sys \<Rightarrow> (s32 \<times> msg_sys) run" where
  "SUB_TAB_DeInit_sys base s =
     (case SUB_TAB_GetMaxSubNum s of Inl e \<Rightarrow> Some (e, s)
      | Inr (maxSub, maxTaskInSub) \<Rightarrow>
        (case SUBGetAddr s of Inl e \<Rightarrow> Some (e, s)
         | Inr h \<Rightarrow>
           (let n = unat maxTaskInSub; ws = tab_words base n (subTab h) in
            if maxSub \<noteq> 0 \<and> length ws < 2 * unat maxSub + n then None
            else Some (0, s\<lparr>g_MsgShmAddr := Some (h\<lparr>subTab := tab_of_words base n (length (subTab h)) (SUB_TAB_DeInit base (unat maxSub) n ws)\<rparr>)\<rparr>))))"

section \<open>Invariant\<close>

definition valid_ids :: "u32 list \<Rightarrow> u32 list" where
  "valid_ids is = filter (\<lambda>i. i \<noteq> VTOP_INVALID_TASK_ID) is"

definition sub_ok :: "nat \<Rightarrow> MSG_TAB_SUB_S \<Rightarrow> bool" where
  "sub_ok n u \<longleftrightarrow> length (taskIdList u) = n \<and> distinct (valid_ids (taskIdList u)) \<and>
     (subType u = VTOP_INVALID_MSG_TYPE \<longrightarrow> valid_ids (taskIdList u) = [])"

definition types_distinct :: "MSG_TAB_SUB_S list \<Rightarrow> bool" where
  "types_distinct us \<longleftrightarrow> (\<forall>i < length us. \<forall>j < length us. i \<noteq> j \<longrightarrow>
     subType (us ! i) \<noteq> VTOP_INVALID_MSG_TYPE \<longrightarrow> subType (us ! i) \<noteq> subType (us ! j))"

text \<open>The relation that the table implements: which tasks subscribe to which types.\<close>

definition unit_subs :: "MSG_TAB_SUB_S \<Rightarrow> (u32 \<times> u32) set" where
  "unit_subs u = (if subType u = VTOP_INVALID_MSG_TYPE then {}
     else Pair (subType u) ` set (valid_ids (taskIdList u)))"

definition tab_subs :: "MSG_TAB_SUB_S list \<Rightarrow> (u32 \<times> u32) set" where
  "tab_subs us = (\<Union>u \<in> set us. unit_subs u)"

definition subs :: "msg_sys \<Rightarrow> (u32 \<times> u32) set" where
  "subs s = (case g_MsgShmAddr s of None \<Rightarrow> {} | Some h \<Rightarrow> tab_subs (subTab h))"

definition sub_inv :: "msg_sys \<Rightarrow> bool" where
  "sub_inv s \<longleftrightarrow>
     (case g_MsgShmAddr s of None \<Rightarrow> True
      | Some h \<Rightarrow> length (subTab h) = unat (maxSubNum h) \<and> maxTaskNumInSub h = maxTaskNum h \<and> maxTaskNum h \<noteq> 0 \<and>
          (\<forall>u \<in> set (subTab h). sub_ok (unat (maxTaskNumInSub h)) u) \<and> types_distinct (subTab h) \<and>
          (\<forall>(t, i) \<in> tab_subs (subTab h). task_map s i \<noteq> None))"

section \<open>The ids of one unit\<close>

lemma valid_ids_split:
  "j < length ids \<Longrightarrow> valid_ids ids = valid_ids (take j ids) @ valid_ids [ids ! j] @ valid_ids (drop (Suc j) ids)"
  by (subst id_take_nth_drop [of j ids]) (simp_all add: valid_ids_def)

lemma valid_ids_upd:
  "j < length ids \<Longrightarrow> valid_ids (ids[j := y]) = valid_ids (take j ids) @ valid_ids [y] @ valid_ids (drop (Suc j) ids)"
  by (simp add: upd_conv_take_nth_drop valid_ids_def)

lemma set_valid_ids: "set (valid_ids ids) = set ids - {VTOP_INVALID_TASK_ID}"
  by (auto simp: valid_ids_def)

lemma valid_ids_add:
  assumes "j < length ids" and "ids ! j = VTOP_INVALID_TASK_ID" and "i \<noteq> VTOP_INVALID_TASK_ID"
    and "i \<notin> set ids" and "distinct (valid_ids ids)"
  shows "distinct (valid_ids (ids[j := i]))" and "set (valid_ids (ids[j := i])) = insert i (set (valid_ids ids))"
proof -
  have e: "valid_ids [i] = [i]" "valid_ids [ids ! j] = []" using assms(2,3) by (simp_all add: valid_ids_def)
  have n: "i \<notin> set (valid_ids ids)" using assms(4) by (simp add: set_valid_ids)
  note u = valid_ids_upd [OF assms(1), of i, unfolded e] valid_ids_split [OF assms(1), unfolded e]
  show "distinct (valid_ids (ids[j := i]))" using assms(5) n unfolding u(1) by (simp add: u(2))
  show "set (valid_ids (ids[j := i])) = insert i (set (valid_ids ids))" unfolding u(1) by (subst u(2)) simp
qed

lemma valid_ids_del:
  assumes "j < length ids" and "ids ! j \<noteq> VTOP_INVALID_TASK_ID" and "distinct (valid_ids ids)"
  shows "distinct (valid_ids (ids[j := VTOP_INVALID_TASK_ID]))"
    and "set (valid_ids (ids[j := VTOP_INVALID_TASK_ID])) = set (valid_ids ids) - {ids ! j}"
proof -
  have e: "valid_ids [VTOP_INVALID_TASK_ID] = []" "valid_ids [ids ! j] = [ids ! j]"
    using assms(2) by (simp_all add: valid_ids_def)
  note u = valid_ids_upd [OF assms(1), of VTOP_INVALID_TASK_ID, unfolded e] valid_ids_split [OF assms(1), unfolded e]
  have d: "distinct (valid_ids (take j ids) @ [ids ! j] @ valid_ids (drop (Suc j) ids))"
    using assms(3) u(2) by simp
  show "distinct (valid_ids (ids[j := VTOP_INVALID_TASK_ID]))" using d unfolding u(1) by simp
  show "set (valid_ids (ids[j := VTOP_INVALID_TASK_ID])) = set (valid_ids ids) - {ids ! j}"
    using d unfolding u(1) by (subst u(2)) auto
qed

section \<open>Units of the table\<close>

lemma SUBGetAddr_simps [simp]:
  "g_MsgShmAddr s = Some h \<Longrightarrow> SUBGetAddr s = Inr h"
  "g_MsgShmAddr s = None \<Longrightarrow> SUBGetAddr s = Inl VTOP_MSG_ERR_SHMATTCH"
  by (simp_all add: SUBGetAddr_def)

lemma set_sub_tasks:
  assumes "g_MsgShmAddr s = Some h"
  shows "task_map (set_sub h k u s) = task_map s" and "task_inv (set_sub h k u s) = task_inv s"
    and "TASK_TAB_IsTaskIdExist tid (set_sub h k u s) = TASK_TAB_IsTaskIdExist tid s"
  using assms
  by (simp_all add: task_map_def task_inv_def set_sub_def find_task_def TASK_TAB_IsTaskIdExist_def TASKGetAddr_def fun_eq_iff)

lemma types_distinctD:
  "types_distinct us \<Longrightarrow> i < length us \<Longrightarrow> j < length us \<Longrightarrow> i \<noteq> j \<Longrightarrow>
   subType (us ! i) \<noteq> VTOP_INVALID_MSG_TYPE \<Longrightarrow> subType (us ! i) \<noteq> subType (us ! j)"
  by (auto simp: types_distinct_def)

lemma IsExist_iff:
  assumes "g_MsgShmAddr s = Some h" and "types_distinct (subTab h)" and "t \<noteq> VTOP_INVALID_MSG_TYPE"
  shows "SUB_TAB_IsExist t s = Some k \<longleftrightarrow> k < length (subTab h) \<and> subType (subTab h ! k) = t"
proof
  assume "SUB_TAB_IsExist t s = Some k"
  then show "k < length (subTab h) \<and> subType (subTab h ! k) = t"
    using assms(1) scan_SomeD(1,2) [of "\<lambda>u. subType u = t" "subTab h" k] by (simp add: SUB_TAB_IsExist_def)
next
  assume k: "k < length (subTab h) \<and> subType (subTab h ! k) = t"
  have "scan (\<lambda>u. subType u = t) (subTab h) = Some k"
  proof (rule scan_unique)
    show "j = k" if "j < length (subTab h)" "subType (subTab h ! j) = t" for j
      using types_distinctD [OF assms(2), of k j] k that assms(3) by auto
  qed (use k in auto)
  then show "SUB_TAB_IsExist t s = Some k" using assms(1) by (simp add: SUB_TAB_IsExist_def)
qed

lemma in_tab_subs: "p \<in> tab_subs us \<longleftrightarrow> (\<exists>j < length us. p \<in> unit_subs (us ! j))"
  unfolding tab_subs_def set_conv_nth by blast

lemma tab_subs_upd:
  assumes d: "types_distinct us" and k: "k < length us"
  shows "tab_subs (us[k := u]) = (tab_subs us - unit_subs (us ! k)) \<union> unit_subs u"
proof -
  have "p \<notin> unit_subs (us ! k)" if "j < length us" "j \<noteq> k" "p \<in> unit_subs (us ! j)" for j p
    using types_distinctD [OF d that(1) k that(2)] that(3) by (auto simp: unit_subs_def split: if_splits)
  then have other: "p \<in> tab_subs us - unit_subs (us ! k) \<longleftrightarrow> (\<exists>j < length us. j \<noteq> k \<and> p \<in> unit_subs (us ! j))" for p
    unfolding Diff_iff in_tab_subs by blast
  have upd: "p \<in> tab_subs (us[k := u]) \<longleftrightarrow> (\<exists>j < length us. j \<noteq> k \<and> p \<in> unit_subs (us ! j)) \<or> p \<in> unit_subs u" for p
    unfolding in_tab_subs length_list_update using k by (metis nth_list_update_eq nth_list_update_neq)
  show ?thesis by (rule set_eqI) (simp only: upd other Un_iff)
qed

lemma sub_invD:
  assumes "sub_inv s" and "g_MsgShmAddr s = Some h"
  shows "length (subTab h) = unat (maxSubNum h)" and "maxTaskNumInSub h = maxTaskNum h" and "maxTaskNum h \<noteq> 0"
    and "k < length (subTab h) \<Longrightarrow> sub_ok (unat (maxTaskNumInSub h)) (subTab h ! k)"
    and "types_distinct (subTab h)" and "(t, i) \<in> subs s \<Longrightarrow> task_map s i \<noteq> None"
  using assms by (auto simp: sub_inv_def subs_def)

lemma sub_inv_set:
  assumes inv: "sub_inv s" and h: "g_MsgShmAddr s = Some h" and k: "k < length (subTab h)"
    and u: "sub_ok (unat (maxTaskNumInSub h)) u"
    and ty: "\<And>j. j < length (subTab h) \<Longrightarrow> j \<noteq> k \<Longrightarrow> subType u \<noteq> VTOP_INVALID_MSG_TYPE \<Longrightarrow> subType u \<noteq> subType (subTab h ! j)"
    and reg: "\<forall>p \<in> unit_subs u. task_map s (snd p) \<noteq> None"
  shows "sub_inv (set_sub h k u s)"
    and "subs (set_sub h k u s) = (subs s - unit_subs (subTab h ! k)) \<union> unit_subs u"
proof -
  note D = sub_invD [OF inv h]
  let ?us = "(subTab h)[k := u]"
  have g: "g_MsgShmAddr (set_sub h k u s) = Some (h\<lparr>subTab := ?us\<rparr>)" by (simp add: set_sub_def)
  show sb: "subs (set_sub h k u s) = (subs s - unit_subs (subTab h ! k)) \<union> unit_subs u"
    using tab_subs_upd [OF D(5) k] by (simp add: subs_def g h)
  have "types_distinct ?us"
    unfolding types_distinct_def
  proof (intro allI impI)
    fix i j assume ij: "i < length ?us" "j < length ?us" "i \<noteq> j" "subType (?us ! i) \<noteq> VTOP_INVALID_MSG_TYPE"
    consider "i = k" | "j = k" "i \<noteq> k" | "i \<noteq> k" "j \<noteq> k" by blast
    then show "subType (?us ! i) \<noteq> subType (?us ! j)"
    proof cases
      case 1
      then show ?thesis using ty [of j] ij by auto
    next
      case 2
      then show ?thesis using ty [of i] ij k by auto
    next
      case 3
      then show ?thesis using types_distinctD [OF D(5), of i j] ij by auto
    qed
  qed
  moreover have "sub_ok (unat (maxTaskNumInSub h)) (?us ! j)" if "j < length (subTab h)" for j
    using D(4) [OF that] u k by (cases "j = k") auto
  moreover have "task_map s i \<noteq> None" if "(t, i) \<in> tab_subs ?us" for t i
  proof -
    have "(t, i) \<in> subs s \<or> (t, i) \<in> unit_subs u" using that sb by (auto simp: subs_def g)
    then show ?thesis using D(6) reg by fastforce
  qed
  ultimately show "sub_inv (set_sub h k u s)"
    using D(1-3) by (auto simp: sub_inv_def g set_sub_tasks [OF h] in_set_conv_nth)
qed

section \<open>Subscribing and unsubscribing\<close>

lemma card_tasks:
  assumes "task_inv s" and "g_MsgShmAddr s = Some h"
  shows "finite (dom (task_map s))" and "card (dom (task_map s)) \<le> unat (maxTaskNum h)"
proof -
  have sub: "dom (task_map s) \<subseteq> taskId ` set (taskTab h)"
    by (auto simp: dom_def task_map_iff [OF assms])
  then show "finite (dom (task_map s))" by (rule finite_subset) simp
  have "card (dom (task_map s)) \<le> card (taskId ` set (taskTab h))" by (rule card_mono [OF _ sub]) simp
  also have "\<dots> \<le> length (taskTab h)" using card_image_le card_length le_trans by blast
  finally show "card (dom (task_map s)) \<le> unat (maxTaskNum h)" using task_invD(1) [OF assms] by simp
qed

text \<open>A unit has as many places as there can be tasks, so a registered task always finds one.\<close>

lemma member_room:
  assumes inv: "task_inv s" "sub_inv s" and h: "g_MsgShmAddr s = Some h" and k: "k < length (subTab h)"
    and ty: "subType (subTab h ! k) \<noteq> VTOP_INVALID_MSG_TYPE"
    and new: "tid \<notin> set (taskIdList (subTab h ! k))" and reg: "task_map s tid \<noteq> None"
  shows "VTOP_INVALID_TASK_ID \<in> set (taskIdList (subTab h ! k))"
proof (rule ccontr)
  let ?ids = "taskIdList (subTab h ! k)"
  assume ni: "VTOP_INVALID_TASK_ID \<notin> set ?ids"
  have v: "valid_ids ?ids = ?ids" using ni by (auto simp: valid_ids_def filter_id_conv)
  have ok: "length ?ids = unat (maxTaskNum h)" "distinct ?ids"
    using sub_invD(2) [OF inv(2) h] sub_invD(4) [OF inv(2) h k] unfolding sub_ok_def v by auto
  have "insert tid (set ?ids) \<subseteq> dom (task_map s)"
  proof
    fix i assume "i \<in> insert tid (set ?ids)"
    then show "i \<in> dom (task_map s)"
    proof
      assume "i \<in> set ?ids"
      then have "(subType (subTab h ! k), i) \<in> subs s"
        using ty k v h by (auto simp: subs_def in_tab_subs unit_subs_def)
      then show ?thesis using sub_invD(6) [OF inv(2) h] by blast
    qed (use reg in blast)
  qed
  then have "card (insert tid (set ?ids)) \<le> unat (maxTaskNum h)"
    using card_tasks [OF inv(1) h] card_mono le_trans by blast
  then show False using new ok by (simp add: distinct_card)
qed

lemma subs_unit:
  assumes "g_MsgShmAddr s = Some h" and "types_distinct (subTab h)" and "k < length (subTab h)"
    and "subType (subTab h ! k) = t" and "t \<noteq> VTOP_INVALID_MSG_TYPE" and "i \<noteq> VTOP_INVALID_TASK_ID"
  shows "(t, i) \<in> subs s \<longleftrightarrow> i \<in> set (taskIdList (subTab h ! k))"
proof
  assume "(t, i) \<in> subs s"
  then obtain j where "j < length (subTab h)" "(t, i) \<in> unit_subs (subTab h ! j)"
    using assms(1) by (auto simp: subs_def in_tab_subs)
  then show "i \<in> set (taskIdList (subTab h ! k))"
    using types_distinctD [OF assms(2,3), of j] assms(4,5)
    by (cases "j = k") (auto simp: unit_subs_def set_valid_ids split: if_splits)
next
  assume "i \<in> set (taskIdList (subTab h ! k))"
  then have "(t, i) \<in> unit_subs (subTab h ! k)" using assms by (simp add: unit_subs_def set_valid_ids)
  then show "(t, i) \<in> subs s" using assms(1,3) by (auto simp: subs_def in_tab_subs)
qed

lemma subs_no_type:
  assumes "g_MsgShmAddr s = Some h" and "SUB_TAB_IsExist t s = None"
  shows "(t, i) \<notin> subs s"
  using assms by (auto simp: SUB_TAB_IsExist_def scan_None_iff subs_def tab_subs_def unit_subs_def split: if_splits)

text \<open>\<open>SUB_TAB_Add\<close> to an existing unit, and to a free one.\<close>

lemma Add_member:
  assumes inv: "task_inv s" "sub_inv s" and h: "g_MsgShmAddr s = Some h"
    and t: "t \<noteq> VTOP_INVALID_MSG_TYPE" and tid: "tid \<noteq> VTOP_INVALID_TASK_ID" "task_map s tid \<noteq> None"
    and new: "(t, tid) \<notin> subs s" and k: "SUB_TAB_IsExist t s = Some k"
  obtains s' where "SUB_TAB_Add t tid s = (0, s')" and "task_inv s'" and "sub_inv s'" and "task_map s' = task_map s"
    and "subs s' = insert (t, tid) (subs s)" and "\<exists>j u. s' = set_sub h j u s"
proof -
  note D = sub_invD [OF inv(2) h]
  have kk: "k < length (subTab h)" "subType (subTab h ! k) = t" using k IsExist_iff [OF h D(5) t] by auto
  let ?u = "subTab h ! k" and ?ids = "taskIdList (subTab h ! k)"
  have n: "tid \<notin> set ?ids" using new subs_unit [OF h D(5) kk t tid(1)] by blast
  have ex: "TASK_TAB_IsTaskIdExist tid s" using IsTaskIdExist_map tid by blast
  have "VTOP_INVALID_TASK_ID \<in> set ?ids" using member_room [OF inv h kk(1) _ n tid(2)] kk t by simp
  then obtain j where j: "scan (\<lambda>i. i = VTOP_INVALID_TASK_ID) ?ids = Some j"
    using scan_exists [of VTOP_INVALID_TASK_ID ?ids "\<lambda>i. i = VTOP_INVALID_TASK_ID"] by blast
  then have jj: "j < length ?ids" "?ids ! j = VTOP_INVALID_TASK_ID" using scan_SomeD(1,2) by fast+
  let ?v = "?u\<lparr>taskIdList := ?ids[j := tid]\<rparr>"
  have ok: "length ?ids = unat (maxTaskNumInSub h)" "distinct (valid_ids ?ids)"
    using D(4) [OF kk(1)] by (simp_all add: sub_ok_def)
  note va = valid_ids_add [OF jj tid(1) n ok(2)]
  have us: "unit_subs ?v = insert (t, tid) (unit_subs ?u)" using va t kk by (simp add: unit_subs_def)
  have s: "SUB_TAB_Add t tid s = (0, set_sub h k ?v s)"
    using ex h k j n by (simp add: SUB_TAB_Add_def Let_def scan_None_iff)
  have in_subs: "unit_subs ?u \<subseteq> subs s" using h kk by (auto simp: subs_def in_tab_subs)
  have okv: "sub_ok (unat (maxTaskNumInSub h)) ?v" using ok va kk t by (simp add: sub_ok_def)
  have ty: "subType ?v \<noteq> subType (subTab h ! j)" if "j < length (subTab h)" "j \<noteq> k" for j
    using types_distinctD [OF D(5) kk(1) that(1)] that kk t by simp
  have reg: "\<forall>p \<in> unit_subs ?v. task_map s (snd p) \<noteq> None" using tid in_subs D(6) unfolding us by fastforce
  note si = sub_inv_set [OF inv(2) h kk(1) okv ty reg]
  show thesis
    by (rule that [OF s _ si(1)]) (use inv set_sub_tasks [OF h] si(2) us in_subs in auto)
qed

lemma Add_unit:
  assumes inv: "task_inv s" "sub_inv s" and h: "g_MsgShmAddr s = Some h"
    and t: "t \<noteq> VTOP_INVALID_MSG_TYPE" and tid: "tid \<noteq> VTOP_INVALID_TASK_ID" "task_map s tid \<noteq> None"
    and none: "SUB_TAB_IsExist t s = None"
    and k: "scan (\<lambda>u. subType u = VTOP_INVALID_MSG_TYPE) (subTab h) = Some k"
  obtains s' where "SUB_TAB_Add t tid s = (0, s')" and "task_inv s'" and "sub_inv s'" and "task_map s' = task_map s"
    and "subs s' = insert (t, tid) (subs s)" and "\<exists>j u. s' = set_sub h j u s"
proof -
  note D = sub_invD [OF inv(2) h]
  have kk: "k < length (subTab h)" "subType (subTab h ! k) = VTOP_INVALID_MSG_TYPE"
    using scan_SomeD(1,2) [OF k] by auto
  let ?u = "subTab h ! k" and ?ids = "taskIdList (subTab h ! k)"
  have ex: "TASK_TAB_IsTaskIdExist tid s" using IsTaskIdExist_map tid by blast
  have ok: "length ?ids = unat (maxTaskNumInSub h)" "valid_ids ?ids = []"
    using D(4) [OF kk(1)] kk by (simp_all add: sub_ok_def)
  have all: "\<forall>i \<in> set ?ids. i = VTOP_INVALID_TASK_ID" using ok(2) by (auto simp: valid_ids_def filter_empty_conv)
  have len: "0 < length ?ids" using ok(1) D(2,3) by (simp add: unat_gt_0)
  have n: "tid \<notin> set ?ids" using all tid by auto
  have "?ids ! 0 = VTOP_INVALID_TASK_ID" using all len nth_mem by blast
  note va = valid_ids_add [OF len this tid(1) n]
  let ?v = "?u\<lparr>subType := t, taskIdList := ?ids[0 := tid]\<rparr>"
  have us: "unit_subs ?v = {(t, tid)}" "unit_subs ?u = {}" using va ok t kk by (simp_all add: unit_subs_def)
  have s: "SUB_TAB_Add t tid s = (0, set_sub h k ?v s)" using ex h none k by (simp add: SUB_TAB_Add_def)
  have okv: "sub_ok (unat (maxTaskNumInSub h)) ?v" using ok va t by (simp add: sub_ok_def)
  have ty: "subType ?v \<noteq> subType (subTab h ! j)" if "j < length (subTab h)" for j
    using none h that nth_mem by (fastforce simp: SUB_TAB_IsExist_def scan_None_iff)
  have reg: "\<forall>p \<in> unit_subs ?v. task_map s (snd p) \<noteq> None" using tid by (simp add: us)
  note si = sub_inv_set [OF inv(2) h kk(1) okv ty reg]
  show thesis by (rule that [OF s _ si(1)]) (use inv set_sub_tasks [OF h] si(2) us in auto)
qed

lemma Del_member:
  assumes inv: "task_inv s" "sub_inv s" and h: "g_MsgShmAddr s = Some h" and p: "(t, tid) \<in> subs s"
  obtains s' where "SUB_TAB_Del t tid s = (0, s')" and "task_inv s'" and "sub_inv s'" and "task_map s' = task_map s"
    and "subs s' = subs s - {(t, tid)}" and "\<exists>j u. s' = set_sub h j u s"
proof -
  note D = sub_invD [OF inv(2) h]
  from p h obtain k where kk: "k < length (subTab h)" "subType (subTab h ! k) = t"
    and t: "t \<noteq> VTOP_INVALID_MSG_TYPE" and tid: "tid \<noteq> VTOP_INVALID_TASK_ID"
    and mem: "tid \<in> set (taskIdList (subTab h ! k))"
    by (auto simp: subs_def in_tab_subs unit_subs_def set_valid_ids split: if_splits)
  have k: "SUB_TAB_IsExist t s = Some k" using IsExist_iff [OF h D(5) t] kk by blast
  let ?u = "subTab h ! k" and ?ids = "taskIdList (subTab h ! k)"
  have ex: "TASK_TAB_IsTaskIdExist tid s" using IsTaskIdExist_map [OF tid] D(6) [OF p] by blast
  obtain j where j: "scan (\<lambda>i. i = tid) ?ids = Some j"
    using scan_exists [of tid ?ids "\<lambda>i. i = tid"] mem by blast
  then have jj: "j < length ?ids" "?ids ! j = tid" using scan_SomeD(1,2) by fast+
  have ok: "length ?ids = unat (maxTaskNumInSub h)" "distinct (valid_ids ?ids)"
    using D(4) [OF kk(1)] by (simp_all add: sub_ok_def)
  have "?ids ! j \<noteq> VTOP_INVALID_TASK_ID" using jj tid by simp
  note vd = valid_ids_del [OF jj(1) this ok(2), unfolded jj(2)]
  let ?ids' = "?ids[j := VTOP_INVALID_TASK_ID]"
  let ?v = "?u\<lparr>taskIdList := ?ids', subType := if valid_ids ?ids' = [] then VTOP_INVALID_MSG_TYPE else t\<rparr>"
  have empty: "scan (\<lambda>i. i \<noteq> VTOP_INVALID_TASK_ID) ?ids' = None \<longleftrightarrow> valid_ids ?ids' = []"
    by (simp add: scan_None_iff valid_ids_def filter_empty_conv)
  have s: "SUB_TAB_Del t tid s = (0, set_sub h k ?v s)"
    using ex h k j kk by (simp add: SUB_TAB_Del_def Let_def empty)
  have u: "unit_subs ?u = Pair t ` set (valid_ids ?ids)" and v: "unit_subs ?v = Pair t ` set (valid_ids ?ids')"
    using t kk by (simp_all add: unit_subs_def)
  have us: "unit_subs ?v = unit_subs ?u - {(t, tid)}" unfolding u v vd(2) by blast
  have in_subs: "unit_subs ?u \<subseteq> subs s" using h kk by (auto simp: subs_def in_tab_subs)
  have okv: "sub_ok (unat (maxTaskNumInSub h)) ?v" using ok vd t by (simp add: sub_ok_def)
  have ty: "subType ?v \<noteq> subType (subTab h ! j)"
    if "j < length (subTab h)" "j \<noteq> k" "subType ?v \<noteq> VTOP_INVALID_MSG_TYPE" for j
    using types_distinctD [OF D(5) kk(1) that(1)] that kk t by (auto split: if_splits)
  have reg: "\<forall>p \<in> unit_subs ?v. task_map s (snd p) \<noteq> None" using in_subs D(6) unfolding us by fastforce
  have pu: "(t, tid) \<in> unit_subs ?u" using mem tid by (simp add: u set_valid_ids)
  note si = sub_inv_set [OF inv(2) h kk(1) okv ty reg]
  show thesis by (rule that [OF s _ si(1)]) (use inv set_sub_tasks [OF h] si(2) us in_subs pu in auto)
qed

lemma Del_nonmember:
  assumes inv: "sub_inv s" and h: "g_MsgShmAddr s = Some h" and t: "t \<noteq> VTOP_INVALID_MSG_TYPE"
    and tid: "tid \<noteq> VTOP_INVALID_TASK_ID" and p: "(t, tid) \<notin> subs s"
  shows "SUB_TAB_Del t tid s =
    (if task_map s tid = None then VTOP_MSG_ERR_TASKNOTEXIST else VTOP_MSG_ERR_SUBNOTEXIST, s)"
proof (cases "SUB_TAB_IsExist t s")
  case None
  then show ?thesis using h tid by (simp add: SUB_TAB_Del_def IsTaskIdExist_map)
next
  case (Some k)
  note D = sub_invD(5) [OF inv h]
  have kk: "k < length (subTab h)" "subType (subTab h ! k) = t" using Some IsExist_iff [OF h D t] by auto
  have "scan (\<lambda>i. i = tid) (taskIdList (subTab h ! k)) = None"
    using p subs_unit [OF h D kk t tid] by (auto simp: scan_None_iff)
  with Some show ?thesis using h tid by (simp add: SUB_TAB_Del_def IsTaskIdExist_map Let_def)
qed

section \<open>Queries\<close>

lemma Sub2Task_all:
  assumes inv: "sub_inv s" and h: "g_MsgShmAddr s = Some h" and t: "t \<noteq> VTOP_INVALID_MSG_TYPE"
    and room: "maxTaskNum h \<le> pNum" and ex: "SUB_TAB_IsExist t s \<noteq> None"
  shows "\<exists>ids. SUB_TAB_Sub2Task t pNum s = Inr ids \<and> distinct ids \<and> set ids = {i. (t, i) \<in> subs s}"
proof -
  note D = sub_invD [OF inv h]
  obtain k where k: "SUB_TAB_IsExist t s = Some k" using ex by blast
  then have kk: "k < length (subTab h)" "subType (subTab h ! k) = t" using IsExist_iff [OF h D(5) t] by auto
  let ?ids = "taskIdList (subTab h ! k)"
  have ok: "length ?ids = unat (maxTaskNumInSub h)" "distinct (valid_ids ?ids)"
    using D(4) [OF kk(1)] by (simp_all add: sub_ok_def)
  have "length (filter (\<lambda>i. i \<noteq> VTOP_INVALID_TASK_ID) ?ids) \<le> unat pNum"
    using length_filter_le [of _ ?ids] ok(1) D(2) room by (metis le_trans word_le_nat_alt)
  then have "SUB_TAB_Sub2Task t pNum s = Inr (valid_ids ?ids)"
    using h k by (simp add: SUB_TAB_Sub2Task_def collect_upto_filter valid_ids_def)
  moreover have "i \<in> set (valid_ids ?ids) \<longleftrightarrow> (t, i) \<in> subs s" for i
  proof (cases "i = VTOP_INVALID_TASK_ID")
    case True
    then show ?thesis by (auto simp: set_valid_ids subs_def h in_tab_subs unit_subs_def split: if_splits)
  next
    case False
    then show ?thesis using subs_unit [OF h D(5) kk t False] by (simp add: set_valid_ids)
  qed
  ultimately show ?thesis using ok(2) by blast
qed

lemma filter_eq_distinct: "distinct (filter P xs) \<Longrightarrow> P x \<Longrightarrow> filter (\<lambda>y. y = x) xs = (if x \<in> set xs then [x] else [])"
proof (induction xs)
  case (Cons y ys)
  then show ?case by (cases "y = x") (auto split: if_splits)
qed simp

lemma types_of_task:
  assumes "\<forall>u \<in> set us. sub_ok n u" and "i \<noteq> VTOP_INVALID_TASK_ID"
  shows "map fst (filter (\<lambda>(t, j). j = i) (sub_members us)) =
    map subType (filter (\<lambda>u. subType u \<noteq> VTOP_INVALID_MSG_TYPE \<and> i \<in> set (taskIdList u)) us)"
  using assms(1)
proof (induction us)
  case (Cons u us)
  have "filter (\<lambda>j. j = i) (taskIdList u) = (if i \<in> set (taskIdList u) then [i] else [])"
    by (rule filter_eq_distinct [of "\<lambda>i. i \<noteq> VTOP_INVALID_TASK_ID"])
       (use Cons.prems assms(2) in \<open>auto simp: sub_ok_def valid_ids_def\<close>)
  with Cons show ?case by (simp add: sub_members_def filter_map comp_def)
qed (simp add: sub_members_def)

lemma types_distinct_Cons: "types_distinct (u # us) \<Longrightarrow> types_distinct us \<and>
    (subType u \<noteq> VTOP_INVALID_MSG_TYPE \<longrightarrow> subType u \<notin> subType ` set us)"
proof -
  assume d: "types_distinct (u # us)"
  have "types_distinct us"
    unfolding types_distinct_def
  proof (intro allI impI)
    fix i j assume "i < length us" "j < length us" "i \<noteq> j" "subType (us ! i) \<noteq> VTOP_INVALID_MSG_TYPE"
    then show "subType (us ! i) \<noteq> subType (us ! j)" using types_distinctD [OF d, of "Suc i" "Suc j"] by simp
  qed
  moreover have "subType u \<noteq> subType (us ! j)" if "subType u \<noteq> VTOP_INVALID_MSG_TYPE" "j < length us" for j
    using types_distinctD [OF d, of 0 "Suc j"] that by simp
  ultimately show ?thesis unfolding image_iff by (metis in_set_conv_nth)
qed

lemma distinct_types: "types_distinct us \<Longrightarrow>
    distinct (map subType (filter (\<lambda>u. subType u \<noteq> VTOP_INVALID_MSG_TYPE \<and> P u) us))"
proof (induction us)
  case (Cons u us)
  then show ?case using types_distinct_Cons [OF Cons.prems] by auto
qed simp

lemma Task2Sub_all:
  assumes inv: "sub_inv s" and h: "g_MsgShmAddr s = Some h"
    and tid: "tid \<noteq> VTOP_INVALID_TASK_ID" "task_map s tid \<noteq> None"
  shows "\<exists>ts. SUB_TAB_Task2Sub tid (maxSubNum h) s = Inr ts \<and> distinct ts \<and> set ts = {t. (t, tid) \<in> subs s}"
proof -
  note D = sub_invD [OF inv h]
  let ?f = "filter (\<lambda>u. subType u \<noteq> VTOP_INVALID_MSG_TYPE \<and> tid \<in> set (taskIdList u)) (subTab h)"
  have ty: "map fst (filter (\<lambda>(t, j). j = tid) (sub_members (subTab h))) = map subType ?f"
    by (rule types_of_task [OF _ tid(1)]) (use D(4) in \<open>auto simp: in_set_conv_nth\<close>)
  have "length (filter (\<lambda>(t, j). j = tid) (sub_members (subTab h))) \<le> unat (maxSubNum h)"
  proof -
    have "length (filter (\<lambda>(t, j). j = tid) (sub_members (subTab h))) = length ?f"
      using arg_cong [OF ty, of length] by (simp only: length_map)
    also have "\<dots> \<le> length (subTab h)" by (rule length_filter_le)
    finally show ?thesis using D(1) by simp
  qed
  then have "SUB_TAB_Task2Sub tid (maxSubNum h) s = Inr (map subType ?f)"
    using h IsTaskIdExist_map [OF tid(1)] tid(2) by (simp add: SUB_TAB_Task2Sub_def collect_upto_filter ty)
  moreover have "set (map subType ?f) = {t. (t, tid) \<in> subs s}"
    using tid(1) by (auto simp: subs_def h tab_subs_def unit_subs_def set_valid_ids split: if_splits)
  ultimately show ?thesis using distinct_types [OF D(5), of "\<lambda>u. tid \<in> set (taskIdList u)"] by blast
qed

section \<open>The subscription interface\<close>

text \<open>What the task component relies on: membership of a relation, changed by one pair at a time.\<close>

locale subscriptions =
  fixes inv :: "'s \<Rightarrow> bool"
    and rel :: "'s \<Rightarrow> ('t \<times> 'k) set"
    and frame :: "'s \<Rightarrow> 'f"
    and known :: "'s \<Rightarrow> 't \<Rightarrow> 'k \<Rightarrow> bool"
    and add :: "'t \<Rightarrow> 'k \<Rightarrow> 's \<Rightarrow> s32 \<times> 's"
    and del :: "'t \<Rightarrow> 'k \<Rightarrow> 's \<Rightarrow> s32 \<times> 's"
  assumes add_law: "inv s \<Longrightarrow> known s t k \<Longrightarrow> add t k s = (r, s') \<Longrightarrow>
      (r = 0 \<and> (t, k) \<notin> rel s \<and> inv s' \<and> rel s' = insert (t, k) (rel s) \<and> frame s' = frame s) \<or> (r < 0 \<and> s' = s)"
    and del_law: "inv s \<Longrightarrow> (t, k) \<in> rel s \<Longrightarrow>
      \<exists>s'. del t k s = (0, s') \<and> inv s' \<and> rel s' = rel s - {(t, k)} \<and> frame s' = frame s"
begin

lemma add_del:
  assumes "inv s" and "known s t k" and "add t k s = (0, s')"
  shows "\<exists>s''. del t k s' = (0, s'') \<and> inv s'' \<and> rel s'' = rel s \<and> frame s'' = frame s"
proof -
  have a: "(t, k) \<notin> rel s" "inv s'" "rel s' = insert (t, k) (rel s)" "frame s' = frame s"
    using add_law [OF assms] by auto
  then show ?thesis using del_law [of s' t k] by auto
qed

lemma del_all:
  assumes "inv s" and "distinct ts" and "\<forall>t \<in> set ts. (t, k) \<in> rel s"
  shows "\<exists>s'. until_err (\<lambda>t. del t k) ts s = (0, s') \<and> inv s' \<and> rel s' = rel s - set ts \<times> {k} \<and> frame s' = frame s"
  using assms
proof (induction ts arbitrary: s)
  case (Cons t ts)
  from del_law [of s t k] Cons.prems obtain s1 where s1: "del t k s = (0, s1)" "inv s1" "rel s1 = rel s - {(t, k)}"
    "frame s1 = frame s" by auto
  have "\<exists>s'. until_err (\<lambda>t. del t k) ts s1 = (0, s') \<and> inv s' \<and> rel s' = rel s1 - set ts \<times> {k} \<and> frame s' = frame s1"
    by (rule Cons.IH) (use Cons.prems s1 in auto)
  then show ?case using s1 by auto
qed auto

end

text \<open>Everything but the units of the subscription table.\<close>

definition sub_frame :: "msg_sys \<Rightarrow> msg_sys" where
  "sub_frame s = s\<lparr>g_MsgShmAddr := map_option (\<lambda>h. h\<lparr>subTab := []\<rparr>) (g_MsgShmAddr s)\<rparr>"

definition tabs_inv :: "msg_sys \<Rightarrow> bool" where
  "tabs_inv s \<longleftrightarrow> g_MsgShmAddr s \<noteq> None \<and> task_inv s \<and> sub_inv s"

definition sub_known :: "msg_sys \<Rightarrow> u32 \<Rightarrow> u32 \<Rightarrow> bool" where
  "sub_known s t tid \<longleftrightarrow> t \<noteq> VTOP_INVALID_MSG_TYPE \<and> tid \<noteq> VTOP_INVALID_TASK_ID"

lemma set_sub_frame: "g_MsgShmAddr s = Some h \<Longrightarrow>
   sub_frame (set_sub h k u s) = sub_frame s \<and> g_MsgShmAddr (set_sub h k u s) \<noteq> None"
  by (simp add: sub_frame_def set_sub_def)

text \<open>All outcomes of \<open>SUB_TAB_Add\<close>.\<close>

lemma Add_outcome:
  assumes inv: "tabs_inv s" and kn: "sub_known s t tid" and h: "g_MsgShmAddr s = Some h"
    and add: "SUB_TAB_Add t tid s = (r, s')"
  shows "if task_map s tid = None then r = VTOP_MSG_ERR_TASKNOTEXIST \<and> s' = s
    else if (t, tid) \<in> subs s then r = VTOP_MSG_ERR_SUBEXIST \<and> s' = s
    else if SUB_TAB_IsExist t s = None \<and> (\<forall>u \<in> set (subTab h). subType u \<noteq> VTOP_INVALID_MSG_TYPE)
    then r = VTOP_MSG_ERR_SUBFULL \<and> s' = s
    else r = 0 \<and> tabs_inv s' \<and> subs s' = insert (t, tid) (subs s) \<and> sub_frame s' = sub_frame s"
proof -
  have i: "task_inv s" "sub_inv s" and t: "t \<noteq> VTOP_INVALID_MSG_TYPE" and tid: "tid \<noteq> VTOP_INVALID_TASK_ID"
    using inv kn by (simp_all add: tabs_inv_def sub_known_def)
  note D = sub_invD(5) [OF i(2) h]
  consider (notask) "task_map s tid = None"
    | (member) "task_map s tid \<noteq> None" "(t, tid) \<in> subs s"
    | (full) "task_map s tid \<noteq> None" "(t, tid) \<notin> subs s" "SUB_TAB_IsExist t s = None"
        "\<forall>u \<in> set (subTab h). subType u \<noteq> VTOP_INVALID_MSG_TYPE"
    | (unit) k where "task_map s tid \<noteq> None" "(t, tid) \<notin> subs s" "SUB_TAB_IsExist t s = Some k"
    | (new) "task_map s tid \<noteq> None" "(t, tid) \<notin> subs s" "SUB_TAB_IsExist t s = None"
        "\<exists>u \<in> set (subTab h). subType u = VTOP_INVALID_MSG_TYPE" by blast
  then show ?thesis
  proof cases
    case notask
    then show ?thesis using add IsTaskIdExist_map [OF tid] by (simp add: SUB_TAB_Add_def)
  next
    case member
    then obtain k where k: "SUB_TAB_IsExist t s = Some k" using subs_no_type [OF h] by (cases "SUB_TAB_IsExist t s") auto
    then have kk: "k < length (subTab h)" "subType (subTab h ! k) = t" using IsExist_iff [OF h D t] by auto
    have "scan (\<lambda>i. i = tid) (taskIdList (subTab h ! k)) \<noteq> None"
      using member subs_unit [OF h D kk t tid] by (auto simp: scan_None_iff)
    then show ?thesis using add member k h IsTaskIdExist_map [OF tid] by (auto simp: SUB_TAB_Add_def Let_def)
  next
    case full
    then have "scan (\<lambda>u. subType u = VTOP_INVALID_MSG_TYPE) (subTab h) = None" by (simp add: scan_None_iff)
    then show ?thesis using add full h IsTaskIdExist_map [OF tid] by (auto simp: SUB_TAB_Add_def)
  next
    case unit
    obtain s1 j u where s1: "SUB_TAB_Add t tid s = (0, s1)" "task_inv s1" "sub_inv s1"
      "subs s1 = insert (t, tid) (subs s)" "s1 = set_sub h j u s"
      using Add_member [OF i h t tid unit] by metis
    then show ?thesis using add unit set_sub_frame [OF h] by (simp add: tabs_inv_def)
  next
    case new
    then obtain k where k: "scan (\<lambda>u. subType u = VTOP_INVALID_MSG_TYPE) (subTab h) = Some k"
      using scan_exists [of _ "subTab h" "\<lambda>u. subType u = VTOP_INVALID_MSG_TYPE"] by blast
    obtain s1 j u where s1: "SUB_TAB_Add t tid s = (0, s1)" "task_inv s1" "sub_inv s1"
      "subs s1 = insert (t, tid) (subs s)" "s1 = set_sub h j u s"
      using Add_unit [OF i h t tid new(1,3) k] by metis
    then show ?thesis using add new set_sub_frame [OF h] by (auto simp: tabs_inv_def)
  qed
qed

interpretation st: subscriptions tabs_inv subs sub_frame sub_known SUB_TAB_Add SUB_TAB_Del
proof unfold_locales
  fix s t k r s'
  assume inv: "tabs_inv s" and kn: "sub_known s t k" and add: "SUB_TAB_Add t k s = (r, s')"
  obtain h where h: "g_MsgShmAddr s = Some h" using inv by (auto simp: tabs_inv_def)
  show "(r = 0 \<and> (t, k) \<notin> subs s \<and> tabs_inv s' \<and> subs s' = insert (t, k) (subs s) \<and> sub_frame s' = sub_frame s) \<or>
    (r < 0 \<and> s' = s)"
    using Add_outcome [OF inv kn h add] by (auto split: if_splits)
next
  fix s t k
  assume inv: "tabs_inv s" and p: "(t, k) \<in> subs s"
  obtain h where h: "g_MsgShmAddr s = Some h" using inv by (auto simp: tabs_inv_def)
  have i: "task_inv s" "sub_inv s" using inv by (simp_all add: tabs_inv_def)
  obtain s' j u where "SUB_TAB_Del t k s = (0, s')" "task_inv s'" "sub_inv s'" "subs s' = subs s - {(t, k)}"
    "s' = set_sub h j u s" using Del_member [OF i h p] by metis
  then show "\<exists>s'. SUB_TAB_Del t k s = (0, s') \<and> tabs_inv s' \<and> subs s' = subs s - {(t, k)} \<and> sub_frame s' = sub_frame s"
    using set_sub_frame [OF h] by (simp add: tabs_inv_def)
qed

text \<open>A table fresh from \<open>SUB_TAB_Init\<close>.\<close>

lemma sub_inv_init:
  assumes h: "g_MsgShmAddr s = Some h" and "length (subTab h) = unat (maxSubNum h)"
    and "maxTaskNumInSub h = maxTaskNum h" and "maxTaskNum h \<noteq> 0" and ti: "task_inv s"
    and s': "s' = s\<lparr>g_MsgShmAddr := Some (h\<lparr>subTab := map (\<lambda>_. SUBTABInitUnit (unat (maxTaskNumInSub h))) (subTab h)\<rparr>)\<rparr>"
  shows "SUB_TAB_Init s = Some (0, s')" and "tabs_inv s'" and "subs s' = {}" and "task_map s' = task_map s" and "qstore s' = qstore s"
proof -
  let ?us = "map (\<lambda>_. SUBTABInitUnit (unat (maxTaskNumInSub h))) (subTab h)"
  show "SUB_TAB_Init s = Some (0, s')" using h assms(2) by (simp add: SUB_TAB_Init_def s')
  show tm: "task_map s' = task_map s" by (simp add: s' task_map_def find_task_def h fun_eq_iff)
  show "qstore s' = qstore s" by (simp add: s')
  have us: "tab_subs ?us = {}" by (auto simp: tab_subs_def unit_subs_def SUBTABInitUnit_def)
  then show "subs s' = {}" by (simp add: subs_def s')
  have "task_inv s'" using ti h by (simp add: task_inv_def s')
  then show "tabs_inv s'"
    using assms(2-4) us by (simp add: tabs_inv_def sub_inv_def s' sub_ok_def SUBTABInitUnit_def valid_ids_def types_distinct_def)
qed

text \<open>Without room for all units the initialisation writes outside of the memory.\<close>

lemma SUB_TAB_Init_short: "g_MsgShmAddr s = Some h \<Longrightarrow> length (subTab h) < unat (maxSubNum h) \<Longrightarrow> SUB_TAB_Init s = None"
  by (simp add: SUB_TAB_Init_def)

text \<open>The words of a table whose arrays have \<open>n\<close> entries, and their reading back.\<close>

lemma length_tab_words: "\<forall>u \<in> set us. length (taskIdList u) = n \<Longrightarrow> length (tab_words base n us) = length us * (n + 2)"
proof -
  assume a: "\<forall>u \<in> set us. length (taskIdList u) = n"
  have "length (concat (map (\<lambda>(k, u). unit_words base n k u) (enumerate i us))) = length us * (n + 2)" for i
    using a by (induction us arbitrary: i) (auto simp: unit_words_def)
  then show ?thesis by (simp add: tab_words_def)
qed

lemma tab_words_snoc: "tab_words base n (us @ [u]) = tab_words base n us @ unit_words base n (length us) u"
  by (simp add: tab_words_def enumerate_append_eq)

lemma tab_words_roundtrip:
  assumes "\<forall>u \<in> set us. length (taskIdList u) = n" and "4 * (length us * (n + 2)) < 2 ^ 32"
  shows "tab_of_words base n (length us) (tab_words base n us @ rest) = us"
  using assms
proof (induction us arbitrary: rest rule: rev_induct)
  case Nil
  then show ?case by (simp add: tab_of_words_def)
next
  case (snoc u us)
  let ?k = "length us" and ?ws = "tab_words base n us @ unit_words base n (length us) u @ rest"
  have l: "length (tab_words base n us) = ?k * (n + 2)" and n: "length (taskIdList u) = n"
    using snoc.prems(1) length_tab_words by auto
  have "4 * (?k * (n + 2) + 2) < 2 ^ 32" using snoc.prems(2) by simp
  from unat_of_nat_u32 [OF this] have p: "unat (base + of_nat (4 * (?k * (n + 2) + 2)) - base) div 4 = ?k * (n + 2) + 2"
    unfolding add_diff_cancel_left' by (metis nonzero_mult_div_cancel_left zero_neq_numeral)
  have w: "?ws ! (?k * (n + 2)) = subType u" "?ws ! (?k * (n + 2) + 1) = base + of_nat (4 * (?k * (n + 2) + 2))"
    using l by (simp_all add: nth_append unit_words_def)
  have a: "take n (drop (?k * (n + 2) + 2) ?ws) = taskIdList u" using l n by (simp add: unit_words_def)
  have u: "unit_of_words base n ?ws ?k = u" unfolding unit_of_words_def w p a by simp
  have "tab_of_words base n ?k ?ws = us" using snoc by simp
  then show ?case using u by (simp add: tab_words_snoc tab_of_words_def)
qed

text \<open>On a complete table the clean-up stays inside of the memory.\<close>

lemma SUB_TAB_DeInit_returns:
  assumes h: "g_MsgShmAddr s = Some h" and m: "length (subTab h) = unat (maxSubNum h)"
    and n: "\<forall>u \<in> set (subTab h). length (taskIdList u) = unat (maxTaskNumInSub h)"
  shows "\<exists>us. SUB_TAB_DeInit_sys base s = Some (0, s\<lparr>g_MsgShmAddr := Some (h\<lparr>subTab := us\<rparr>)\<rparr>)"
proof -
  let ?n = "unat (maxTaskNumInSub h)" and ?m = "unat (maxSubNum h)"
  have l: "length (tab_words base ?n (subTab h)) = ?m * (?n + 2)" using length_tab_words [OF n] m by simp
  have "2 * ?m + ?n \<le> ?m * (?n + 2)" if "maxSubNum h \<noteq> 0"
  proof -
    have "0 < ?m" using that by (simp add: unat_gt_0)
    then have "?n \<le> ?m * ?n" by simp
    then show ?thesis by (simp add: add_mult_distrib2)
  qed
  then show ?thesis using h l by (auto simp: SUB_TAB_DeInit_sys_def SUB_TAB_GetMaxSubNum_def Let_def)
qed

section \<open>Samples\<close>

text \<open>Two registered tasks, 0 and 1, and an empty subscription table.\<close>

definition two_tasks :: msg_sys where
  "two_tasks = sample_sys\<lparr>g_MsgShmAddr := Some (sample_shm\<lparr>counter_taskId := 2,
     taskTab := [TASKTABInitUnit\<lparr>taskId := 0, taskName := ''a''\<rparr>, TASKTABInitUnit\<lparr>taskId := 1, taskName := ''b''\<rparr>]\<rparr>)\<rparr>"

definition sample_subs :: msg_sys where
  "sample_subs = snd (the (SUB_TAB_Init two_tasks))"

lemma sample_shm_nums: "maxTaskNum sample_shm = 2" "maxSubNum sample_shm = 2" "maxTaskNumInSub sample_shm = 2"
    "length (subTab sample_shm) = 2"
  by (simp_all add: sample_shm_def small_shm)

lemma sample_svr: "s_msgSvrQueueHandle sample_sys = 0"
  by (simp add: sample_sys_eq sys0_def)

lemma two_tasks_inv: "task_inv two_tasks"
  by (simp add: task_inv_def two_tasks_def sample_svr sample_shm_nums unit_ok_def used_unit_def TASKTABInitUnit_def
      zero_task_def VTOP_INVALID_TASK_ID_def VTOP_MSG_MAX_TASK_NAME_LEN_def no_clash_def less_Suc_eq VTOP_MAX_TASK_ID_def)

lemma sample_subs_ok: "tabs_inv sample_subs" "subs sample_subs = {}" "task_map sample_subs = task_map two_tasks"
proof -
  have a: "g_MsgShmAddr two_tasks = Some (sample_shm\<lparr>counter_taskId := 2,
     taskTab := [TASKTABInitUnit\<lparr>taskId := 0, taskName := ''a''\<rparr>, TASKTABInitUnit\<lparr>taskId := 1, taskName := ''b''\<rparr>]\<rparr>)"
    by (simp add: two_tasks_def)
  have c: "length (subTab sample_shm) = unat (maxSubNum sample_shm)" "maxTaskNumInSub sample_shm = maxTaskNum sample_shm"
    "maxTaskNum sample_shm \<noteq> 0" by (simp_all add: sample_shm_nums)
  note si = sub_inv_init [OF a _ _ _ two_tasks_inv refl]
  show "tabs_inv sample_subs" "subs sample_subs = {}" "task_map sample_subs = task_map two_tasks"
    using si c by (simp_all add: sample_subs_def)
qed

lemma sample_subs_task: "task_map sample_subs 0 \<noteq> None" "task_map sample_subs 1 \<noteq> None"
  by (simp_all add: sample_subs_ok(3) task_map_def two_tasks_def VTOP_INVALID_TASK_ID_def find_task_def)

lemma sample_subs_shm: "\<exists>h. g_MsgShmAddr sample_subs = Some h \<and> maxTaskNum h = 2 \<and> maxSubNum h = 2 \<and>
    (\<exists>u \<in> set (subTab h). subType u = VTOP_INVALID_MSG_TYPE)"
  by (simp add: sample_subs_def SUB_TAB_Init_def two_tasks_def sample_shm_def small_shm SUBTABInitUnit_def)

section \<open>Properties\<close>

text \<open>
  C9: Subscribing implements insertion into the relation of types and tasks: every outcome of
  \<open>SUB_TAB_Add\<close> for a valid type and id. In particular the error \<open>VTOP_MSG_ERR_SUBMEMBERFULL\<close> never
  occurs: a registered task always finds a free place in the unit of a type.
\<close>

theorem SUB_TAB_Add_refines:
  assumes "tabs_inv s" and "g_MsgShmAddr s = Some h" and "t \<noteq> VTOP_INVALID_MSG_TYPE"
    and "tid \<noteq> VTOP_INVALID_TASK_ID" and "SUB_TAB_Add t tid s = (r, s')"
  shows "if task_map s tid = None then r = VTOP_MSG_ERR_TASKNOTEXIST \<and> s' = s
    else if (t, tid) \<in> subs s then r = VTOP_MSG_ERR_SUBEXIST \<and> s' = s
    else if SUB_TAB_IsExist t s = None \<and> (\<forall>u \<in> set (subTab h). subType u \<noteq> VTOP_INVALID_MSG_TYPE)
    then r = VTOP_MSG_ERR_SUBFULL \<and> s' = s
    else r = 0 \<and> tabs_inv s' \<and> subs s' = insert (t, tid) (subs s) \<and> sub_frame s' = sub_frame s"
  by (rule Add_outcome [OF assms(1) _ assms(2,5)]) (use assms(3,4) in \<open>simp add: sub_known_def\<close>)

theorem SUB_TAB_Add_refines_witness:
  "fst (SUB_TAB_Add 7 1 sample_subs) = 0 \<and> subs (snd (SUB_TAB_Add 7 1 sample_subs)) = {(7, 1)}"
proof -
  obtain h where h: "g_MsgShmAddr sample_subs = Some h" "\<exists>u \<in> set (subTab h). subType u = VTOP_INVALID_MSG_TYPE"
    using sample_subs_shm by blast
  show ?thesis
    using SUB_TAB_Add_refines [OF sample_subs_ok(1) h(1), of 7 1 "fst (SUB_TAB_Add 7 1 sample_subs)" "snd (SUB_TAB_Add 7 1 sample_subs)"]
      sample_subs_task(2) h(2) sample_subs_ok(2)
    by (auto simp: VTOP_INVALID_MSG_TYPE_def VTOP_INVALID_TASK_ID_def split: if_splits)
qed

text \<open>
  Unsubscribing implements deletion from the relation: it removes exactly the pair of the type and
  the task, keeps the invariant and everything outside the table, frees the unit of a type without
  subscribers, and reports pairs that are not in the relation without changing anything.
\<close>

theorem SUB_TAB_Del_refines:
  assumes "tabs_inv s" and "t \<noteq> VTOP_INVALID_MSG_TYPE" and "tid \<noteq> VTOP_INVALID_TASK_ID"
    and "SUB_TAB_Del t tid s = (r, s')"
  shows "if (t, tid) \<in> subs s
    then r = 0 \<and> tabs_inv s' \<and> subs s' = subs s - {(t, tid)} \<and> sub_frame s' = sub_frame s
    else r = (if task_map s tid = None then VTOP_MSG_ERR_TASKNOTEXIST else VTOP_MSG_ERR_SUBNOTEXIST) \<and> s' = s"
proof (cases "(t, tid) \<in> subs s")
  case True
  then show ?thesis using st.del_law [OF assms(1) True] assms(4) by auto
next
  case False
  obtain h where h: "g_MsgShmAddr s = Some h" using assms(1) by (auto simp: tabs_inv_def)
  have "sub_inv s" using assms(1) by (simp add: tabs_inv_def)
  from Del_nonmember [OF this h assms(2,3) False] False assms(4) show ?thesis by auto
qed

theorem SUB_TAB_Del_refines_witness: "SUB_TAB_Del 7 1 sample_subs = (VTOP_MSG_ERR_SUBNOTEXIST, sample_subs)"
  using SUB_TAB_Del_refines [OF sample_subs_ok(1), of 7 1 "fst (SUB_TAB_Del 7 1 sample_subs)" "snd (SUB_TAB_Del 7 1 sample_subs)"]
    sample_subs_ok(2) sample_subs_task(2)
  by (auto simp: VTOP_INVALID_MSG_TYPE_def VTOP_INVALID_TASK_ID_def prod_eq_iff)

text \<open>
  Given room for all tasks, \<open>SUB_TAB_Sub2Task\<close> returns each subscriber of a type exactly once.
\<close>

theorem SUB_TAB_Sub2Task_exact:
  assumes "tabs_inv s" and "g_MsgShmAddr s = Some h" and "t \<noteq> VTOP_INVALID_MSG_TYPE" and "maxTaskNum h \<le> pNum"
    and "(t, tid) \<in> subs s"
  shows "\<exists>ids. SUB_TAB_Sub2Task t pNum s = Inr ids \<and> distinct ids \<and> set ids = {i. (t, i) \<in> subs s}"
proof -
  have "SUB_TAB_IsExist t s \<noteq> None" using subs_no_type [OF assms(2)] assms(5) by blast
  moreover have "sub_inv s" using assms(1) by (simp add: tabs_inv_def)
  ultimately show ?thesis using Sub2Task_all assms(2-4) by blast
qed

lemma sample_subscribed:
  obtains s h where "tabs_inv s" and "g_MsgShmAddr s = Some h" and "maxTaskNum h = 2" and "subs s = {(7, 1)}"
    and "SUB_TAB_Add 7 1 sample_subs = (0, s)"
proof -
  obtain h where h: "g_MsgShmAddr sample_subs = Some h" "maxTaskNum h = 2"
    "\<exists>u \<in> set (subTab h). subType u = VTOP_INVALID_MSG_TYPE" using sample_subs_shm by blast
  obtain r s where a: "SUB_TAB_Add 7 1 sample_subs = (r, s)" by force
  have k: "sub_known sample_subs 7 1" by (simp add: sub_known_def VTOP_INVALID_MSG_TYPE_def VTOP_INVALID_TASK_ID_def)
  have s: "r = 0" "tabs_inv s" "subs s = {(7, 1)}" "sub_frame s = sub_frame sample_subs"
    using Add_outcome [OF sample_subs_ok(1) k h(1) a] sample_subs_ok(2) sample_subs_task(2) h(3) by (auto split: if_splits)
  have "map_option maxTaskNum (g_MsgShmAddr s) = map_option maxTaskNum (g_MsgShmAddr sample_subs)"
    using arg_cong [OF s(4), of "\<lambda>s. map_option maxTaskNum (g_MsgShmAddr s)"]
    by (simp add: sub_frame_def option.map_comp comp_def)
  then obtain h' where "g_MsgShmAddr s = Some h'" "maxTaskNum h' = 2" using h by auto
  then show thesis using s a by (intro that) auto
qed

theorem SUB_TAB_Sub2Task_exact_witness: "\<exists>s. subs s = {(7, 1)} \<and> SUB_TAB_Sub2Task 7 2 s = Inr [1]"
proof -
  obtain s h where s: "tabs_inv s" "g_MsgShmAddr s = Some h" "maxTaskNum h = 2" "subs s = {(7, 1)}"
    using sample_subscribed by metis
  have "\<exists>ids. SUB_TAB_Sub2Task 7 2 s = Inr ids \<and> distinct ids \<and> set ids = {i. (7, i) \<in> subs s}"
    by (rule SUB_TAB_Sub2Task_exact [OF s(1,2)]) (use s in \<open>auto simp: VTOP_INVALID_MSG_TYPE_def\<close>)
  then obtain ids where "SUB_TAB_Sub2Task 7 2 s = Inr ids" "distinct ids" "set ids = {1}" using s(4) by auto
  moreover from this(2,3) have "ids = [1]" by (cases ids) (auto simp: subset_singleton_iff distinct_length_2_or_more)
  ultimately show ?thesis using s(4) by blast
qed

text \<open>
  \<open>SUB_TAB_DeInit\<close> does not reset the table: it steps over the units with the size of the two fixed
  fields instead of the size of a unit, so the type of every unit that lies behind the words it
  touches, such as the sixth of the default table, stays what it was.
\<close>

theorem SUB_TAB_DeInit_incomplete:
  assumes "2 * maxSub + n \<le> k * (n + 2)"
  shows "SUB_TAB_DeInit base maxSub n ws ! (k * (n + 2)) = ws ! (k * (n + 2))"
proof -
  have one: "init_unit_at base n w ws ! x = ws ! x" if "w + 2 + n \<le> x" for w x ws
  proof -
    have "fold (\<lambda>j ws. ws[w + 2 + j := VTOP_INVALID_TASK_ID]) [0..<m] ys ! x = ys ! x" if "m \<le> n" for m ys
      using that \<open>w + 2 + n \<le> x\<close> by (induction m) auto
    then show ?thesis using that by (simp add: init_unit_at_def)
  qed
  have "fold (\<lambda>k. init_unit_at base n (2 * k)) [0..<m] ws ! (k * (n + 2)) = ws ! (k * (n + 2))" if "m \<le> maxSub" for m
    using that
  proof (induction m)
    case (Suc m)
    then have "2 * m + 2 + n \<le> k * (n + 2)" using assms by linarith
    from one [OF this] Suc show ?case by simp
  qed simp
  then show ?thesis by (simp add: SUB_TAB_DeInit_def)
qed

theorem SUB_TAB_DeInit_incomplete_witness:
  "SUB_TAB_DeInit 0x2000 64 32 (replicate 2176 7) ! (5 * (32 + 2)) = 7"
  using SUB_TAB_DeInit_incomplete [of 64 32 5 "0x2000" "replicate 2176 7"] by simp

end
