(* ===== verification/Msg_Rspmng.thy ===== *)
theory Msg_Rspmng
  imports Msg_State
begin

text \<open>
  The response slots of \<open>common/msg_rspmng.c\<close>. A synchronous request reserves a slot, the responder
  stores its answer there and the requester reads and frees it. Handles are array indices (\<open>int\<close>).
\<close>

section \<open>Operations\<close>

definition MAX_MSG_RSP_SIZE :: u32 where
  "MAX_MSG_RSP_SIZE = 512"

definition MSG_RSPMNG_Init :: "msg_sys \<Rightarrow> s32 \<times> msg_sys" where
  "MSG_RSPMNG_Init s =
     (if s_bFilterInited s then (HI_SUCCESS, s)
      else (HI_SUCCESS, s\<lparr>s_MsgRspMng := replicate MAX_MSG_RSP_NUM zero_rsp, s_bFilterInited := True\<rparr>))"

text \<open>\<open>MSG_RSPMNG_Deinit\<close> does nothing, initialised or not.\<close>

definition MSG_RSPMNG_Deinit :: "msg_sys \<Rightarrow> msg_sys" where
  "MSG_RSPMNG_Deinit s = (if \<not> s_bFilterInited s then s else s)"

definition FLTR_HANDLE_VALID :: "int \<Rightarrow> bool" where
  "FLTR_HANDLE_VALID h \<longleftrightarrow> \<not> (h < 0 \<or> h \<ge> int MAX_MSG_RSP_NUM)"

definition slot :: "int \<Rightarrow> msg_sys \<Rightarrow> MSG_RSPMNG_S" where
  "slot h s = s_MsgRspMng s ! nat h"

definition set_slot :: "int \<Rightarrow> MSG_RSPMNG_S \<Rightarrow> msg_sys \<Rightarrow> msg_sys" where
  "set_slot h r s = s\<lparr>s_MsgRspMng := (s_MsgRspMng s)[nat h := r]\<rparr>"

definition MSG_RSPMNG_New :: "bool \<Rightarrow> msg_sys \<Rightarrow> (s32 + int) \<times> msg_sys" where
  "MSG_RSPMNG_New hp s =
     (if \<not> hp then (Inl HI_FAILURE, s)
      else if \<not> s_bFilterInited s then (Inl HI_FAILURE, s)
      else case scan (\<lambda>r. enState r = MSG_RSPMNG_STATE_FREE) (s_MsgRspMng s) of
          None \<Rightarrow> (Inl HI_FAILURE, s)
        | Some i \<Rightarrow> (Inr (int i), set_slot (int i) ((slot (int i) s)\<lparr>enState := MSG_RSPMNG_STATE_IDLE\<rparr>) s))"

definition MSG_RSPMNG_Delete :: "int \<Rightarrow> msg_sys \<Rightarrow> s32 \<times> msg_sys" where
  "MSG_RSPMNG_Delete h s =
     (if \<not> s_bFilterInited s then (HI_FAILURE, s)
      else if \<not> FLTR_HANDLE_VALID h then (HI_FAILURE, s)
      else (HI_SUCCESS, set_slot h ((slot h s)\<lparr>enState := MSG_RSPMNG_STATE_FREE\<rparr>) s))"

text \<open>\<open>MSG_RSPMNG_GetState\<close> does not check its handle; reading outside the array is \<open>None\<close>.\<close>

definition MSG_RSPMNG_GetState :: "int \<Rightarrow> msg_sys \<Rightarrow> MSG_RSPMNG_STATE_E run" where
  "MSG_RSPMNG_GetState h s = (if FLTR_HANDLE_VALID h then Some (enState (slot h s)) else None)"

definition MSG_RSPMNG_GetData :: "int \<Rightarrow> msg_sys \<Rightarrow> s32 + VTOP_MSG_S_InnerBlock" where
  "MSG_RSPMNG_GetData h s =
     (if \<not> FLTR_HANDLE_VALID h then Inl HI_FAILURE
      else if enState (slot h s) \<noteq> MSG_RSPMNG_STATE_ACTIVE then Inl HI_FAILURE
      else Inr (buf (slot h s)))"

text \<open>
  \<open>MSG_RSPMNG_PutData\<close>: a slot in the wrong state is logged (and its lock released once more than it was
  taken), and then the answer is stored all the same.
\<close>

definition MSG_RSPMNG_PutData :: "int \<Rightarrow> VTOP_MSG_S_InnerBlock \<Rightarrow> msg_sys \<Rightarrow> s32 \<times> msg_sys" where
  "MSG_RSPMNG_PutData h pm s =
     (if \<not> s_bFilterInited s then (HI_FAILURE, s)
      else if \<not> FLTR_HANDLE_VALID h then (HI_FAILURE, s)
      else if ulMsgLen (msg pm) > MAX_MSG_RSP_SIZE then (VTOP_MSG_ERR_MSGSIZE, s)
      else (HI_SUCCESS, set_slot h \<lparr>buf = MSG_COPY2BUF pm, enState = MSG_RSPMNG_STATE_ACTIVE\<rparr> s))"

section \<open>Facts\<close>

definition rsp_ok :: "msg_sys \<Rightarrow> bool" where
  "rsp_ok s \<longleftrightarrow> s_bFilterInited s \<and> length (s_MsgRspMng s) = MAX_MSG_RSP_NUM"

text \<open>The handles whose slot is not free.\<close>

definition taken :: "msg_sys \<Rightarrow> int set" where
  "taken s = {h. FLTR_HANDLE_VALID h \<and> enState (slot h s) \<noteq> MSG_RSPMNG_STATE_FREE}"

lemma rsp_num [simp]: "MAX_MSG_RSP_NUM = 128"
  by (simp add: MAX_MSG_RSP_NUM_def)

lemma slot_set:
  "rsp_ok s \<Longrightarrow> FLTR_HANDLE_VALID h \<Longrightarrow> 0 \<le> k \<Longrightarrow> slot k (set_slot h r s) = (if k = h then r else slot k s)"
  by (auto simp: slot_def set_slot_def rsp_ok_def FLTR_HANDLE_VALID_def nat_less_iff)

lemma rsp_ok_set [simp]: "rsp_ok (set_slot h r s) = rsp_ok s"
  by (simp add: rsp_ok_def set_slot_def)

lemma inited_set [simp]: "s_bFilterInited (set_slot h r s) = s_bFilterInited s"
  by (simp add: set_slot_def)

lemma valid_nonneg: "FLTR_HANDLE_VALID h \<Longrightarrow> 0 \<le> h"
  by (simp add: FLTR_HANDLE_VALID_def)

lemma taken_set:
  assumes "rsp_ok s" and "FLTR_HANDLE_VALID h"
  shows "taken (set_slot h r s) =
    (if enState r = MSG_RSPMNG_STATE_FREE then taken s - {h} else insert h (taken s))"
  using assms by (auto simp: taken_def slot_set valid_nonneg split: if_splits)

lemma New_cases:
  assumes ok: "rsp_ok s"
  obtains (none) "MSG_RSPMNG_New True s = (Inl HI_FAILURE, s)" and "\<forall>h. FLTR_HANDLE_VALID h \<longrightarrow> h \<in> taken s"
  | (some) h where "MSG_RSPMNG_New True s = (Inr h, set_slot h ((slot h s)\<lparr>enState := MSG_RSPMNG_STATE_IDLE\<rparr>) s)"
      and "FLTR_HANDLE_VALID h" and "h \<notin> taken s"
proof (cases "scan (\<lambda>r. enState r = MSG_RSPMNG_STATE_FREE) (s_MsgRspMng s)")
  case None
  then have "\<forall>r \<in> set (s_MsgRspMng s). enState r \<noteq> MSG_RSPMNG_STATE_FREE" by (simp add: scan_None_iff)
  then have "enState (slot h s) \<noteq> MSG_RSPMNG_STATE_FREE" if "FLTR_HANDLE_VALID h" for h
    using that ok by (simp add: slot_def rsp_ok_def FLTR_HANDLE_VALID_def nat_less_iff)
  with None ok show thesis by (intro none) (auto simp: MSG_RSPMNG_New_def rsp_ok_def taken_def)
next
  case (Some i)
  have "i < 128" "enState (s_MsgRspMng s ! i) = MSG_RSPMNG_STATE_FREE"
    using scan_SomeD(1,2) [OF Some] ok by (auto simp: rsp_ok_def)
  with Some ok show thesis
    by (intro some [of "int i"]) (auto simp: MSG_RSPMNG_New_def rsp_ok_def taken_def slot_def FLTR_HANDLE_VALID_def)
qed

lemma PutData_ok:
  "rsp_ok s \<Longrightarrow> FLTR_HANDLE_VALID h \<Longrightarrow> ulMsgLen (msg pm) \<le> MAX_MSG_RSP_SIZE \<Longrightarrow>
   MSG_RSPMNG_PutData h pm s = (HI_SUCCESS, set_slot h \<lparr>buf = MSG_COPY2BUF pm, enState = MSG_RSPMNG_STATE_ACTIVE\<rparr> s)"
  by (auto simp: MSG_RSPMNG_PutData_def rsp_ok_def)

lemma rsp_ok_init: "rsp_ok (snd (MSG_RSPMNG_Init sys0))"
  by (simp add: MSG_RSPMNG_Init_def sys0_def rsp_ok_def)

section \<open>Properties\<close>

text \<open>
  One exchange through a slot: reserving takes a handle that nobody has (or fails only when
  all 128 are taken), nothing can be read before the answer is stored, the stored answer is read back as a copy,
  and freeing gives the slot back; no other slot is touched.
\<close>

theorem rsp_exchange:
  assumes "rsp_ok s" and "taken s \<noteq> {0..127}" and "ulMsgLen (msg pm) \<le> MAX_MSG_RSP_SIZE"
  shows "\<exists>h s1. MSG_RSPMNG_New True s = (Inr h, s1) \<and> h \<notin> taken s \<and> taken s1 = insert h (taken s) \<and>
    MSG_RSPMNG_GetData h s1 = Inl HI_FAILURE \<and>
    (\<exists>s2. MSG_RSPMNG_PutData h pm s1 = (HI_SUCCESS, s2) \<and> MSG_RSPMNG_GetData h s2 = Inr (MSG_COPY2BUF pm) \<and>
       (\<forall>k. FLTR_HANDLE_VALID k \<and> k \<noteq> h \<longrightarrow> slot k s2 = slot k s) \<and>
       (\<exists>s3. MSG_RSPMNG_Delete h s2 = (HI_SUCCESS, s3) \<and> rsp_ok s3 \<and> taken s3 = taken s))"
  using assms(1)
proof (cases rule: New_cases)
  case none
  then have "taken s = {0..127}" by (auto simp: taken_def FLTR_HANDLE_VALID_def)
  with assms(2) show ?thesis by blast
next
  case (some h)
  let ?s1 = "set_slot h ((slot h s)\<lparr>enState := MSG_RSPMNG_STATE_IDLE\<rparr>) s"
  let ?s2 = "set_slot h \<lparr>buf = MSG_COPY2BUF pm, enState = MSG_RSPMNG_STATE_ACTIVE\<rparr> ?s1"
  have ok: "rsp_ok ?s1" "rsp_ok ?s2" using assms(1) by simp_all
  have h0: "0 \<le> h" using some(2) by (rule valid_nonneg)
  have g1: "MSG_RSPMNG_GetData h ?s1 = Inl HI_FAILURE" and g2: "MSG_RSPMNG_GetData h ?s2 = Inr (MSG_COPY2BUF pm)"
    using some(2) h0 by (simp_all add: MSG_RSPMNG_GetData_def slot_set assms(1) ok)
  have t1: "taken ?s1 = insert h (taken s)" by (simp add: taken_set [OF assms(1) some(2)])
  have p: "MSG_RSPMNG_PutData h pm ?s1 = (HI_SUCCESS, ?s2)" by (rule PutData_ok [OF ok(1) some(2) assms(3)])
  have f: "\<forall>k. FLTR_HANDLE_VALID k \<and> k \<noteq> h \<longrightarrow> slot k ?s2 = slot k s"
    using some(2) by (simp add: slot_set assms(1) ok valid_nonneg)
  have d: "MSG_RSPMNG_Delete h ?s2 = (HI_SUCCESS, set_slot h ((slot h ?s2)\<lparr>enState := MSG_RSPMNG_STATE_FREE\<rparr>) ?s2)"
    using ok(2) some(2) by (simp add: MSG_RSPMNG_Delete_def rsp_ok_def)
  have "taken (set_slot h ((slot h ?s2)\<lparr>enState := MSG_RSPMNG_STATE_FREE\<rparr>) ?s2) = taken s"
    using some(2,3) by (simp add: taken_set [OF ok(2)] taken_set [OF ok(1)] t1)
  then show ?thesis using some(1,3) t1 g1 p g2 f d ok(2) by (metis rsp_ok_set)
qed

lemma taken_init: "taken (snd (MSG_RSPMNG_Init sys0)) = {}"
proof -
  have "enState (replicate 128 zero_rsp ! nat h) = MSG_RSPMNG_STATE_FREE" if "FLTR_HANDLE_VALID h" for h
  proof -
    have "nat h < 128" using that by (auto simp: FLTR_HANDLE_VALID_def)
    then show ?thesis by (simp add: zero_rsp_def)
  qed
  then show ?thesis by (auto simp: taken_def MSG_RSPMNG_Init_def sys0_def slot_def)
qed

theorem rsp_exchange_witness:
  "\<exists>h s1 s2. MSG_RSPMNG_New True (snd (MSG_RSPMNG_Init sys0)) = (Inr h, s1) \<and>
     MSG_RSPMNG_PutData h (sample_msg 3) s1 = (HI_SUCCESS, s2) \<and> MSG_RSPMNG_GetData h s2 = Inr (MSG_COPY2BUF (sample_msg 3))"
proof -
  have "ulMsgLen (msg (sample_msg 3)) \<le> MAX_MSG_RSP_SIZE"
    by (simp add: sample_msg_def sample_block_def MAX_MSG_RSP_SIZE_def)
  moreover have "taken (snd (MSG_RSPMNG_Init sys0)) \<noteq> {0..127}" by (simp add: taken_init)
  ultimately show ?thesis using rsp_exchange [OF rsp_ok_init] by metis
qed

text \<open>
  A late answer leaks its slot: \<open>MSG_RSPMNG_PutData\<close> does not refuse a slot that its requester has
  already freed. After one late answer to each of the 128 handles all slots are taken although no request
  is pending, and no slot can be reserved any more.
\<close>

theorem rsp_late_leak:
  assumes "rsp_ok s" and "ulMsgLen (msg pm) \<le> MAX_MSG_RSP_SIZE"
    and "s' = fold (\<lambda>h s. snd (MSG_RSPMNG_PutData h pm s)) (map int [0..<128]) s"
  shows "rsp_ok s' \<and> taken s' = {0..127} \<and> MSG_RSPMNG_New True s' = (Inl HI_FAILURE, s')"
proof -
  let ?f = "\<lambda>h s. snd (MSG_RSPMNG_PutData h pm s)"
  have "rsp_ok (fold ?f (map int [0..<n]) s) \<and> {0..<int n} \<subseteq> taken (fold ?f (map int [0..<n]) s)" if "n \<le> 128" for n
    using that
  proof (induction n)
    case (Suc n)
    let ?t = "fold ?f (map int [0..<n]) s"
    have v: "FLTR_HANDLE_VALID (int n)" using Suc.prems by (simp add: FLTR_HANDLE_VALID_def)
    have ih: "rsp_ok ?t" "{0..<int n} \<subseteq> taken ?t" using Suc by auto
    have "{0..<int (Suc n)} = insert (int n) {0..<int n}" by auto
    then show ?case using ih PutData_ok [OF ih(1) v assms(2)] taken_set [OF ih(1) v] by auto
  qed (use assms(1) in simp)
  from this [of 128] have ok: "rsp_ok s'" and t: "{0..<128} \<subseteq> taken s'" using assms(3) by simp_all
  have all: "taken s' = {0..127}"
  proof
    show "taken s' \<subseteq> {0..127}" by (auto simp: taken_def FLTR_HANDLE_VALID_def)
    show "{0..127} \<subseteq> taken s'" using t by (auto simp: subset_eq)
  qed
  have "MSG_RSPMNG_New True s' = (Inl HI_FAILURE, s')"
    using ok by (cases rule: New_cases) (use all in \<open>auto simp: FLTR_HANDLE_VALID_def\<close>)
  with ok all show ?thesis by blast
qed

theorem rsp_late_leak_witness:
  "fst (MSG_RSPMNG_New True (fold (\<lambda>h s. snd (MSG_RSPMNG_PutData h (sample_msg 3) s)) (map int [0..<128])
     (snd (MSG_RSPMNG_Init sys0)))) = Inl HI_FAILURE"
  using rsp_late_leak [OF rsp_ok_init _ refl, of "sample_msg 3"]
  by (simp add: sample_msg_def sample_block_def MAX_MSG_RSP_SIZE_def)

end
