(* ===== verification/Msg_Com.thy ===== *)
theory Msg_Com
  imports Msg_Submng Msg_Rspmng
begin

text \<open>
  Sending, \<open>common/msg_com.c\<close>: asynchronous and synchronous point-to-point messages, the synchronous
  answer, and publication through the server queue. \<open>junk\<close> is the uninitialised \<open>innerMsg\<close> on the
  sender's stack, of which the code sets only some fields. Each function returns the user's block, too,
  since it stores the message id there.
\<close>

section \<open>Asynchronous messages\<close>

definition MSG_SET_FLAG :: "u32 \<Rightarrow> u32 \<Rightarrow> u32" where
  "MSG_SET_FLAG flags f = flags OR f"

text \<open>The inner block of an asynchronous message: flags set from scratch, a priority out of range replaced.\<close>

definition async_inner :: "VTOP_MSG_S_InnerBlock \<Rightarrow> VTOP_MSG_S_Block \<Rightarrow> u32 \<Rightarrow> VTOP_MSG_S_InnerBlock" where
  "async_inner junk b f =
     junk\<lparr>msg := b\<lparr>ulFlag := MSG_SET_FLAG (MSG_SET_FLAG 0 VTOP_MSG_FLG_ASYNC) f,
                   ulPrio := (if ulPrio b > VTOP_MSG_PRIO_HIGH then VTOP_MSG_PRIO_DEFAULT else ulPrio b)\<rparr>\<rparr>"

definition send_async ::
  "VTOP_MSG_S_InnerBlock \<Rightarrow> u32 \<Rightarrow> VTOP_MSG_S_Block \<Rightarrow> u32 \<Rightarrow> msg_sys \<Rightarrow> (s32 \<times> VTOP_MSG_S_Block \<times> msg_sys) run" where
  "send_async junk h b f s =
     (if h = 0 then Some (VTOP_MSG_ERR_TASKNOTEXIST, b, s)
      else case getMsgID s of
        (Inl e, s1) \<Rightarrow> Some (e, b, s1)
      | (Inr mid, s1) \<Rightarrow>
          let b' = b\<lparr>msgID := mid\<rparr> in do {
            (ret, qs) \<leftarrow> MSG_QueuePut h (Some (async_inner junk b' f)) (qstore s1);
            Some (ret, b', s1\<lparr>qstore := qs\<rparr>)
          })"

definition MSG_SendAsyncMsg ::
  "VTOP_MSG_S_InnerBlock \<Rightarrow> VTOP_MSG_S_Block \<Rightarrow> u32 \<Rightarrow> msg_sys \<Rightarrow> (s32 \<times> VTOP_MSG_S_Block \<times> msg_sys) run" where
  "MSG_SendAsyncMsg junk b asynMsgFlag s =
     (if asynMsgFlag \<noteq> VTOP_MSG_FLG_P2P then None
      else send_async junk (TASK_TAB_GetHandle (rcvTaskId b) s) b asynMsgFlag s)"

definition MSG_PublishMsg ::
  "VTOP_MSG_S_InnerBlock \<Rightarrow> VTOP_MSG_S_Block \<Rightarrow> msg_sys \<Rightarrow> (s32 \<times> VTOP_MSG_S_Block \<times> msg_sys) run" where
  "MSG_PublishMsg junk b s = send_async junk (s_msgSvrQueueHandle s) b VTOP_MSG_FLG_SP s"

section \<open>Synchronous messages\<close>

definition sync_inner :: "VTOP_MSG_S_InnerBlock \<Rightarrow> VTOP_MSG_S_Block \<Rightarrow> int \<Rightarrow> VTOP_MSG_S_InnerBlock" where
  "sync_inner junk b h =
     junk\<lparr>msg := b\<lparr>ulFlag := MSG_SET_FLAG (MSG_SET_FLAG (MSG_SET_FLAG 0 VTOP_MSG_FLG_SYNC) VTOP_MSG_FLG_P2P)
                                VTOP_MSG_FLG_DSC_SND,
                   ulPrio := VTOP_MSG_PRIO_SYN\<rparr>,
          privData := h\<rparr>"

text \<open>\<open>MSG_SendSyncMsg\<close> up to the waiting loop: an error, or the response handle to wait on.\<close>

definition send_sync_begin ::
  "VTOP_MSG_S_InnerBlock \<Rightarrow> VTOP_MSG_S_Block \<Rightarrow> msg_sys \<Rightarrow> ((s32 + int) \<times> VTOP_MSG_S_Block \<times> msg_sys) run" where
  "send_sync_begin junk b s =
     (let qh = TASK_TAB_GetHandle (rcvTaskId b) s in
      if qh = 0 then Some (Inl VTOP_MSG_ERR_TASKNOTEXIST, b, s)
      else case getMsgID s of
        (Inl e, s1) \<Rightarrow> Some (Inl e, b, s1)
      | (Inr mid, s1) \<Rightarrow>
          let b' = b\<lparr>msgID := mid\<rparr> in
          (case MSG_RSPMNG_New True s1 of
             (Inl _, s2) \<Rightarrow> Some (Inl VTOP_MSG_ERR_NOMEM, b', s2)
           | (Inr h, s2) \<Rightarrow> do {
               (ret, qs) \<leftarrow> MSG_QueuePut qh (Some (sync_inner junk b' h)) (qstore s2);
               let s3 = s2\<lparr>qstore := qs\<rparr>;
               Some (if ret \<noteq> HI_SUCCESS then (Inl ret, b', snd (MSG_RSPMNG_Delete h s3)) else (Inr h, b', s3))
             }))"

text \<open>
  One round of the waiting loop. \<open>clock_ms\<close> is the time in milliseconds as the code computes it, in 32 bits
  that wrap; the difference is read as a signed number. The answer is copied to a new buffer
  (\<open>mal\<close> says that its \<open>malloc\<close> succeeds) whose body pointer is set even for an empty body.
\<close>

datatype sync_result = Answer VTOP_MSG_S_InnerBlock | Failed s32 | Waiting

definition clock_ms :: "u32 \<Rightarrow> u32 \<Rightarrow> u32" where
  "clock_ms sec usec = sec * 1000 + usec div 1000"

definition sync_answer :: "VTOP_MSG_S_InnerBlock \<Rightarrow> VTOP_MSG_S_InnerBlock" where
  "sync_answer pm =
     (let m = MSG_COPY2BUF pm in
      m\<lparr>msg := (msg m)\<lparr>pMsgBody := (if ulMsgLen (msg m) > 0 then pMsgBody (msg m) else Some [])\<rparr>\<rparr>)"

definition sync_poll :: "bool \<Rightarrow> int \<Rightarrow> u32 \<Rightarrow> u32 \<Rightarrow> int \<Rightarrow> msg_sys \<Rightarrow> sync_result \<times> msg_sys" where
  "sync_poll mal timeout startTime curTime h s =
     (case MSG_RSPMNG_GetData h s of
        Inr pm \<Rightarrow>
          (if mal then Answer (sync_answer pm) else Failed VTOP_MSG_ERR_NOMEM, snd (MSG_RSPMNG_Delete h s))
      | Inl _ \<Rightarrow>
          if timeout > 0
          then if sint (curTime - startTime) < timeout then (Waiting, s)
               else (Failed VTOP_MSG_ERR_RESPTIMEOUT, snd (MSG_RSPMNG_Delete h s))
          else if timeout < 0 then (Waiting, s)
          else (Failed VTOP_MSG_ERR_RESPTIMEOUT, snd (MSG_RSPMNG_Delete h s)))"

text \<open>
  The waiting loop, for a finite sequence of rounds: between two rounds other threads change the system
  (\<open>env\<close>) and time passes. \<open>Waiting\<close> is the result when the sequence ends first.
\<close>

fun sync_wait ::
  "bool \<Rightarrow> int \<Rightarrow> u32 \<Rightarrow> int \<Rightarrow> (u32 \<times> (msg_sys \<Rightarrow> msg_sys)) list \<Rightarrow> msg_sys \<Rightarrow> sync_result \<times> msg_sys" where
  "sync_wait mal timeout startTime h [] s = (Waiting, s)"
| "sync_wait mal timeout startTime h ((curTime, env) # rounds) s =
     (case sync_poll mal timeout startTime curTime h s of
        (Waiting, s') \<Rightarrow> sync_wait mal timeout startTime h rounds (env s')
      | r \<Rightarrow> r)"

definition MSG_SendSyncMsg ::
  "VTOP_MSG_S_InnerBlock \<Rightarrow> VTOP_MSG_S_Block \<Rightarrow> bool \<Rightarrow> int \<Rightarrow> u32 \<Rightarrow> (u32 \<times> (msg_sys \<Rightarrow> msg_sys)) list \<Rightarrow>
   msg_sys \<Rightarrow> (sync_result \<times> VTOP_MSG_S_Block \<times> msg_sys) run" where
  "MSG_SendSyncMsg junk b mal timeout startTime rounds s = do {
     (r, b', s1) \<leftarrow> send_sync_begin junk b s;
     Some (case r of Inl e \<Rightarrow> (Failed e, b', s1)
           | Inr h \<Rightarrow> (case sync_wait mal timeout startTime h rounds s1 of (res, s2) \<Rightarrow> (res, b', s2)))
   }"

definition sync_rsp_inner ::
  "VTOP_MSG_S_InnerBlock \<Rightarrow> VTOP_MSG_S_InnerBlock \<Rightarrow> VTOP_MSG_S_Block \<Rightarrow> VTOP_MSG_S_InnerBlock" where
  "sync_rsp_inner junk pm rsp =
     junk\<lparr>msg := rsp\<lparr>ulFlag := MSG_SET_FLAG (MSG_SET_FLAG 0 VTOP_MSG_FLG_RESP) VTOP_MSG_FLG_P2P,
                     ulPrio := VTOP_MSG_PRIO_RSP,
                     sndTaskId := rcvTaskId (msg pm), rcvTaskId := sndTaskId (msg pm),
                     msgType := msgType (msg pm)\<rparr>,
          resp2id := msgID (msg pm), privData := privData pm\<rparr>"

definition MSG_SendSyncRsp ::
  "VTOP_MSG_S_InnerBlock \<Rightarrow> VTOP_MSG_S_InnerBlock \<Rightarrow> VTOP_MSG_S_Block \<Rightarrow> msg_sys \<Rightarrow>
   s32 \<times> VTOP_MSG_S_Block \<times> msg_sys" where
  "MSG_SendSyncRsp junk pm rsp s =
     (case getMsgID s of
        (Inl e, s1) \<Rightarrow> (e, rsp, s1)
      | (Inr mid, s1) \<Rightarrow>
          let rsp' = rsp\<lparr>msgID := mid\<rparr>; inner = sync_rsp_inner junk pm rsp' in
          (case MSG_RSPMNG_PutData (privData inner) inner s1 of
             (ret, s2) \<Rightarrow> (if ret \<noteq> HI_SUCCESS then VTOP_MSG_ERR_MSGSND else ret, rsp', s2)))"

section \<open>The running system\<close>

definition sys_inv :: "msg_sys \<Rightarrow> bool" where
  "sys_inv s \<longleftrightarrow> tabs_inv s \<and> rsp_ok s"

lemma getMsgID_running:
  assumes "tabs_inv s"
  obtains c s1 where "getMsgID s = (Inr c, s1)" and "tabs_inv s1" and "task_map s1 = task_map s" and "subs s1 = subs s"
    and "qstore s1 = qstore s" and "s_MsgRspMng s1 = s_MsgRspMng s" and "s_bFilterInited s1 = s_bFilterInited s"
    and "s_msgSvrQueueHandle s1 = s_msgSvrQueueHandle s" and "g_TaskData s1 = g_TaskData s"
    and "map_option counter_msgId (g_MsgShmAddr s) = Some c" and "map_option counter_msgId (g_MsgShmAddr s1) = Some (c + 1)"
proof -
  obtain h where h: "g_MsgShmAddr s = Some h" using assms by (auto simp: tabs_inv_def)
  let ?s = "s\<lparr>g_MsgShmAddr := Some (h\<lparr>counter_msgId := counter_msgId h + 1\<rparr>)\<rparr>"
  have m: "task_map ?s = task_map s" by (simp add: task_map_def find_task_def h fun_eq_iff)
  have "tabs_inv ?s" using assms h m by (auto simp: tabs_inv_def task_inv_def sub_inv_def)
  then show thesis
    by (intro that [of "counter_msgId h" ?s]) (simp_all add: getMsgID_def h m subs_def)
qed

lemma queue_at_ok_upd: "queue_ok q \<Longrightarrow> qshape q \<Longrightarrow> queue_at_ok qs x \<Longrightarrow> queue_at_ok (qs(a \<mapsto> q)) x"
  by (auto simp: queue_at_ok_def)

lemma task_map_qstore [simp]: "task_map (s\<lparr>qstore := qs\<rparr>) = task_map s"
  by (simp add: task_map_def fun_eq_iff)

lemma subs_qstore [simp]: "subs (s\<lparr>qstore := qs\<rparr>) = subs s"
  by (simp add: subs_def)

lemma tabs_inv_queue [inv_intros]:
  assumes "tabs_inv s" and "queue_ok q" and "qshape q"
  shows "tabs_inv (s\<lparr>qstore := (qstore s)(a \<mapsto> q)\<rparr>)"
proof -
  note up = queue_at_ok_upd [OF assms(2,3)]
  have "unit_ok ((qstore s)(a \<mapsto> q)) svr c u" if "unit_ok (qstore s) svr c u" for svr c u
    using that up [of "qstore s" "handle u" a] by (auto simp: unit_ok_def queue_at_ok_def split: if_splits)
  then show ?thesis using assms(1) up
    by (auto simp: tabs_inv_def task_inv_def sub_inv_def split: option.splits)
qed

lemma QueuePut_cases:
  assumes "h \<noteq> 0" and "qs h = Some q" and "queue_ok q" and "qshape q"
  obtains ret q' where "MSG_QueuePut h (Some m) qs = Some (ret, qs(h \<mapsto> q'))" and "queue_ok q'" and "qshape q'"
    and "queue_abs q' = queue_abs q @ (if ret = HI_SUCCESS then [MSG_COPY2BUF m] else [])"
    and "\<forall>x. outstanding q' x = outstanding q x"
proof (cases "ulMsgLen (msg m) > VTOP_MSG_MAX_MSG_SIZE \<or> body_mismatch (msg m)")
  case True
  have eq: "qs(h \<mapsto> q) = qs" using assms(2) by auto
  let ?e = "if ulMsgLen (msg m) > VTOP_MSG_MAX_MSG_SIZE then VTOP_MSG_ERR_MSGSIZE else VTOP_MSG_ERR_INVALIDPARA"
  obtain e where "MSG_QueuePut h (Some m) qs = Some (e, qs)" "e \<noteq> HI_SUCCESS"
    by (rule that [of ?e]) (use assms(1) True in \<open>auto simp: MSG_QueuePut_def HI_SUCCESS_def\<close>)
  with eq assms show thesis by (intro that [of e q]) auto
next
  case False
  obtain r q' where put: "queue_put q m = (r, q')" by force
  have "MSG_QueuePut h (Some m) qs = Some (r, qs(h \<mapsto> q'))" using assms(1,2) False put by (simp add: MSG_QueuePut_def)
  moreover have "queue_abs q' = queue_abs q @ (if r = HI_SUCCESS then [MSG_COPY2BUF m] else [])"
    using mq.put_stored [OF assms(3), of m q'] mq.put_full [OF assms(3) put] put by auto
  moreover have "\<forall>x. outstanding q' x = outstanding q x"
    using mq.put_stored [OF assms(3), of m q'] mq.put_full [OF assms(3) put] put by auto
  ultimately show thesis using queue_put_ok [OF assms(3) put] qshape_put [OF assms(4) put] by (intro that)
qed

lemma send_async_running:
  assumes inv: "tabs_inv s" and h: "h \<noteq> 0" and q: "qstore s h = Some q" "queue_ok q" "qshape q"
  obtains ret b' s' q' mid where "send_async junk h b f s = Some (ret, b', s')" and "b' = b\<lparr>msgID := mid\<rparr>"
    and "map_option counter_msgId (g_MsgShmAddr s) = Some mid"
    and "tabs_inv s'" and "task_map s' = task_map s" and "subs s' = subs s" and "qstore s' = (qstore s)(h \<mapsto> q')"
    and "queue_abs q' = queue_abs q @ (if ret = HI_SUCCESS then [MSG_COPY2BUF (async_inner junk b' f)] else [])"
    and "s_MsgRspMng s' = s_MsgRspMng s" and "s_msgSvrQueueHandle s' = s_msgSvrQueueHandle s" and "g_TaskData s' = g_TaskData s"
    and "queue_ok q'" and "s_bFilterInited s' = s_bFilterInited s" and "\<forall>x. outstanding q' x = outstanding q x"
proof -
  obtain c s1 where s1: "getMsgID s = (Inr c, s1)" "tabs_inv s1" "task_map s1 = task_map s" "subs s1 = subs s"
    "qstore s1 = qstore s" "s_MsgRspMng s1 = s_MsgRspMng s" "s_bFilterInited s1 = s_bFilterInited s"
    "s_msgSvrQueueHandle s1 = s_msgSvrQueueHandle s" "g_TaskData s1 = g_TaskData s"
    "map_option counter_msgId (g_MsgShmAddr s) = Some c" by (rule getMsgID_running [OF inv])
  let ?b = "b\<lparr>msgID := c\<rparr>"
  have q1: "qstore s1 h = Some q" using q s1(5) by simp
  obtain ret q' where p: "MSG_QueuePut h (Some (async_inner junk ?b f)) (qstore s1) = Some (ret, (qstore s1)(h \<mapsto> q'))"
    "queue_ok q'" "qshape q'"
    "queue_abs q' = queue_abs q @ (if ret = HI_SUCCESS then [MSG_COPY2BUF (async_inner junk ?b f)] else [])"
    "\<forall>x. outstanding q' x = outstanding q x"
    by (rule QueuePut_cases [where h = h and qs = "qstore s1", OF h q1 q(2,3)])
  let ?s = "s1\<lparr>qstore := (qstore s1)(h \<mapsto> q')\<rparr>"
  have "send_async junk h b f s = Some (ret, ?b, ?s)" using h s1(1) p(1) by (simp add: send_async_def Let_def)
  then show thesis using tabs_inv_queue [OF s1(2) p(2,3)] s1 p by (intro that [of ret ?b ?s c q']) auto
qed

section \<open>Properties of asynchronous messages\<close>

lemma async_inner_simps [simp]:
  "pMsgBody (msg (async_inner junk b f)) = pMsgBody b" "msgType (msg (async_inner junk b f)) = msgType b"
  "ulMsgLen (msg (async_inner junk b f)) = ulMsgLen b" "rcvTaskId (msg (async_inner junk b f)) = rcvTaskId b"
  "sndTaskId (msg (async_inner junk b f)) = sndTaskId b" "msgID (msg (async_inner junk b f)) = msgID b"
  "ulFlag (msg (async_inner junk b f)) = VTOP_MSG_FLG_ASYNC OR f"
  by (simp_all add: async_inner_def MSG_SET_FLAG_def)

text \<open>
  C8: Sending an asynchronous message to a registered task with a queue never ends the process. On success
  exactly one copy of the block, with the next message id, is appended to the receiver's queue; on failure no queue
  changes its contents. All other queues, the tables and the response slots are left as they were, and the
  system's invariant is kept.
\<close>

theorem async_delivery:
  assumes "sys_inv s" and "task_map s (rcvTaskId b) = Some u" and "handle u \<noteq> 0" and "qstore s (handle u) = Some q"
  shows "\<exists>ret b' s' q' mid. MSG_SendAsyncMsg junk b VTOP_MSG_FLG_P2P s = Some (ret, b', s') \<and>
    b' = b\<lparr>msgID := mid\<rparr> \<and> map_option counter_msgId (g_MsgShmAddr s) = Some mid \<and> sys_inv s' \<and>
    qstore s' = (qstore s)(handle u \<mapsto> q') \<and>
    queue_abs q' = queue_abs q @
      (if ret = HI_SUCCESS then [MSG_COPY2BUF (async_inner junk b' VTOP_MSG_FLG_P2P)] else []) \<and>
    task_map s' = task_map s \<and> subs s' = subs s \<and> s_MsgRspMng s' = s_MsgRspMng s"
proof -
  have inv: "tabs_inv s" "task_inv s" using assms(1) by (simp_all add: sys_inv_def tabs_inv_def)
  note tq = task_map_queue [OF inv(2) assms(2)]
  have q: "queue_ok q" "qshape q" using tq(4) [OF assms(3)] assms(4) by (auto simp: queue_at_ok_def)
  have h: "TASK_TAB_GetHandle (rcvTaskId b) s = handle u" using GetHandle_map [OF tq(2)] assms(2) by simp
  obtain ret b' s' q' mid where r: "send_async junk (handle u) b VTOP_MSG_FLG_P2P s = Some (ret, b', s')"
    "b' = b\<lparr>msgID := mid\<rparr>" "map_option counter_msgId (g_MsgShmAddr s) = Some mid"
    "tabs_inv s'" "task_map s' = task_map s" "subs s' = subs s" "qstore s' = (qstore s)(handle u \<mapsto> q')"
    "queue_abs q' = queue_abs q @ (if ret = HI_SUCCESS then [MSG_COPY2BUF (async_inner junk b' VTOP_MSG_FLG_P2P)] else [])"
    "s_MsgRspMng s' = s_MsgRspMng s" "s_bFilterInited s' = s_bFilterInited s"
    by (rule send_async_running [OF inv(1) assms(3,4) q])
  have "sys_inv s'" using assms(1) r(4,9,10) by (simp add: sys_inv_def rsp_ok_def)
  moreover have "MSG_SendAsyncMsg junk b VTOP_MSG_FLG_P2P s = Some (ret, b', s')"
    using h r(1) by (simp add: MSG_SendAsyncMsg_def)
  ultimately show ?thesis using r(2,3,5-9) by blast
qed

section \<open>Synchronous messages\<close>

text \<open>What a successful start of a synchronous request did.\<close>

lemma send_sync_begin_Inr:
  assumes "send_sync_begin junk b s = Some (Inr h, b', s')"
  obtains mid s1 s2 qs where "getMsgID s = (Inr mid, s1)" and "b' = b\<lparr>msgID := mid\<rparr>"
    and "MSG_RSPMNG_New True s1 = (Inr h, s2)" and "s' = s2\<lparr>qstore := qs\<rparr>"
    and "MSG_QueuePut (TASK_TAB_GetHandle (rcvTaskId b) s) (Some (sync_inner junk b' h)) (qstore s2) = Some (HI_SUCCESS, qs)"
  using assms
  by (auto simp: send_sync_begin_def Let_def split: if_splits prod.splits sum.splits bind_splits)

lemma getMsgID_rsp:
  assumes "getMsgID s = (Inr c, s1)"
  shows "s_MsgRspMng s1 = s_MsgRspMng s" and "s_bFilterInited s1 = s_bFilterInited s"
    and "map_option counter_msgId (g_MsgShmAddr s) = Some c" and "map_option counter_msgId (g_MsgShmAddr s1) = Some (c + 1)"
  using assms by (auto simp: getMsgID_def split: option.splits)

lemma rsp_ok_cong: "s_MsgRspMng s' = s_MsgRspMng s \<Longrightarrow> s_bFilterInited s' = s_bFilterInited s \<Longrightarrow> rsp_ok s' = rsp_ok s"
  by (simp add: rsp_ok_def)

lemma GetData_cong: "s_MsgRspMng s' = s_MsgRspMng s \<Longrightarrow> MSG_RSPMNG_GetData h s' = MSG_RSPMNG_GetData h s"
  by (simp add: MSG_RSPMNG_GetData_def slot_def)

lemma New_Inr:
  assumes "rsp_ok s" and "MSG_RSPMNG_New True s = (Inr h, s')"
  shows "FLTR_HANDLE_VALID h" and "h \<notin> taken s"
    and "s' = set_slot h ((slot h s)\<lparr>enState := MSG_RSPMNG_STATE_IDLE\<rparr>) s" and "rsp_ok s'"
    and "MSG_RSPMNG_GetData h s' = Inl HI_FAILURE"
proof -
  have a: "FLTR_HANDLE_VALID h \<and> h \<notin> taken s \<and> s' = set_slot h ((slot h s)\<lparr>enState := MSG_RSPMNG_STATE_IDLE\<rparr>) s"
    using assms(1) by (cases rule: New_cases) (use assms(2) in auto)
  then show "FLTR_HANDLE_VALID h" "h \<notin> taken s" "s' = set_slot h ((slot h s)\<lparr>enState := MSG_RSPMNG_STATE_IDLE\<rparr>) s"
    by blast+
  show "rsp_ok s'" using a assms(1) by simp
  show "MSG_RSPMNG_GetData h s' = Inl HI_FAILURE"
    using a assms(1) by (simp add: MSG_RSPMNG_GetData_def slot_set valid_nonneg)
qed

lemma Delete_ok:
  assumes "rsp_ok s" and "FLTR_HANDLE_VALID h"
  shows "MSG_RSPMNG_Delete h s = (HI_SUCCESS, set_slot h ((slot h s)\<lparr>enState := MSG_RSPMNG_STATE_FREE\<rparr>) s)"
    and "taken (snd (MSG_RSPMNG_Delete h s)) = taken s - {h}"
  using assms by (simp_all add: MSG_RSPMNG_Delete_def rsp_ok_def taken_set [OF assms])

lemma send_sync_begin_slot:
  assumes ok: "rsp_ok s" and beg: "send_sync_begin junk b s = Some (Inr h, b', s')"
  shows "rsp_ok s'" and "FLTR_HANDLE_VALID h" and "h \<notin> taken s" and "taken s' = insert h (taken s)"
    and "s_MsgRspMng s' = (s_MsgRspMng s)[nat h := (slot h s)\<lparr>enState := MSG_RSPMNG_STATE_IDLE\<rparr>]"
    and "map_option counter_msgId (g_MsgShmAddr s) = Some (msgID b')"
    and "map_option counter_msgId (g_MsgShmAddr s') = Some (msgID b' + 1)"
proof -
  from send_sync_begin_Inr [OF beg] obtain mid s1 s2 qs where
    g: "getMsgID s = (Inr mid, s1)" and b': "b' = b\<lparr>msgID := mid\<rparr>" and n: "MSG_RSPMNG_New True s1 = (Inr h, s2)"
    and s': "s' = s2\<lparr>qstore := qs\<rparr>" by metis
  note gm = getMsgID_rsp [OF g]
  have ok1: "rsp_ok s1" using ok rsp_ok_cong [OF gm(1,2)] by simp
  have t1: "taken s1 = taken s" and sl: "slot h s1 = slot h s" using gm(1) by (simp_all add: taken_def slot_def)
  note nw = New_Inr [OF ok1 n]
  show "rsp_ok s'" using nw(4) by (simp add: s' rsp_ok_def)
  show "FLTR_HANDLE_VALID h" "h \<notin> taken s" using nw(1,2) t1 by simp_all
  have "taken s' = taken s2" by (simp add: s' taken_def slot_def)
  then show "taken s' = insert h (taken s)" using nw(3) taken_set [OF ok1 nw(1)] t1 by simp
  show "s_MsgRspMng s' = (s_MsgRspMng s)[nat h := (slot h s)\<lparr>enState := MSG_RSPMNG_STATE_IDLE\<rparr>]"
    using nw(3) sl gm(1) by (simp add: s' set_slot_def)
  show "map_option counter_msgId (g_MsgShmAddr s) = Some (msgID b')"
    "map_option counter_msgId (g_MsgShmAddr s') = Some (msgID b' + 1)"
    using gm(3,4) nw(3) by (simp_all add: b' s' set_slot_def)
qed

text \<open>An answer that fits is stored in the request's slot.\<close>

lemma SendSyncRsp_ok:
  assumes g: "getMsgID s = (Inr mid, s1)" and ok: "rsp_ok s" and v: "FLTR_HANDLE_VALID (privData pm)"
    and len: "ulMsgLen rsp \<le> MAX_MSG_RSP_SIZE"
  shows "\<exists>s'. MSG_SendSyncRsp junk pm rsp s = (HI_SUCCESS, rsp\<lparr>msgID := mid\<rparr>, s') \<and> rsp_ok s' \<and>
    MSG_RSPMNG_GetData (privData pm) s' = Inr (MSG_COPY2BUF (sync_rsp_inner junk pm (rsp\<lparr>msgID := mid\<rparr>)))"
proof -
  let ?i = "sync_rsp_inner junk pm (rsp\<lparr>msgID := mid\<rparr>)"
  note gm = getMsgID_rsp [OF g]
  have ok1: "rsp_ok s1" using ok rsp_ok_cong [OF gm(1,2)] by simp
  have pd: "privData ?i = privData pm" and ln: "ulMsgLen (msg ?i) \<le> MAX_MSG_RSP_SIZE"
    using len by (simp_all add: sync_rsp_inner_def)
  let ?s = "set_slot (privData pm) \<lparr>buf = MSG_COPY2BUF ?i, enState = MSG_RSPMNG_STATE_ACTIVE\<rparr> s1"
  have "MSG_SendSyncRsp junk pm rsp s = (HI_SUCCESS, rsp\<lparr>msgID := mid\<rparr>, ?s)"
    using g PutData_ok [OF ok1 v ln] pd by (simp add: MSG_SendSyncRsp_def Let_def)
  moreover have "MSG_RSPMNG_GetData (privData pm) ?s = Inr (MSG_COPY2BUF ?i)"
    using v ok1 by (simp add: MSG_RSPMNG_GetData_def slot_set valid_nonneg)
  ultimately show ?thesis using ok1 by auto
qed

lemma sync_poll_answer:
  assumes "MSG_RSPMNG_GetData h s = Inr pm"
  shows "fst (sync_poll True timeout st ct h s) = Answer (sync_answer pm)"
  using assms by (simp add: sync_poll_def)

section \<open>Properties of synchronous messages\<close>

text \<open>
  C6: The answer to a synchronous request reaches its requester: for a request that was queued, an answer
  of at most 512 bytes to the queued message is stored in the reserved slot, and the requester's next poll returns
  it with the request's message id in \<open>resp2id\<close>, the request's type, the roles exchanged, and the
  answer's body.
\<close>

theorem sync_roundtrip:
  assumes ok: "rsp_ok s" and beg: "send_sync_begin junk b s = Some (Inr h, b', s1)"
    and pm: "pm = MSG_COPY2BUF (sync_inner junk b' h)" and len: "ulMsgLen rsp \<le> MAX_MSG_RSP_SIZE"
    and ans: "MSG_SendSyncRsp junk' pm rsp s1 = (r, rsp', s2)"
  shows "r = HI_SUCCESS \<and> MSG_RSPMNG_GetData h s1 = Inl HI_FAILURE \<and>
    (\<exists>m. fst (sync_poll True timeout st ct h s2) = Answer m \<and> resp2id m = msgID b' \<and>
       msgType (msg m) = msgType b \<and> rcvTaskId (msg m) = sndTaskId b \<and> sndTaskId (msg m) = rcvTaskId b \<and>
       ulMsgLen (msg m) = ulMsgLen rsp \<and>
       pMsgBody (msg m) = (if ulMsgLen rsp > 0 then map_option (take (unat (ulMsgLen rsp))) (pMsgBody rsp) else Some []))"
proof -
  note sb = send_sync_begin_slot [OF ok beg]
  obtain m0 where b': "b' = b\<lparr>msgID := m0\<rparr>" by (rule send_sync_begin_Inr [OF beg])
  obtain mid s3 where g: "getMsgID s1 = (Inr mid, s3)" using sb(7) by (auto simp: getMsgID_def)
  have pd: "privData pm = h" by (simp add: pm sync_inner_def)
  have v: "FLTR_HANDLE_VALID (privData pm)" using sb(2) pd by simp
  from SendSyncRsp_ok [OF g sb(1) v len, of junk'] obtain s' where
    r: "MSG_SendSyncRsp junk' pm rsp s1 = (HI_SUCCESS, rsp\<lparr>msgID := mid\<rparr>, s')"
    and d: "MSG_RSPMNG_GetData h s' = Inr (MSG_COPY2BUF (sync_rsp_inner junk' pm (rsp\<lparr>msgID := mid\<rparr>)))"
    unfolding pd by blast
  have "slot h s1 = (slot h s)\<lparr>enState := MSG_RSPMNG_STATE_IDLE\<rparr>"
    using sb(2,5) ok by (simp add: slot_def rsp_ok_def FLTR_HANDLE_VALID_def nat_less_iff)
  then have nd: "MSG_RSPMNG_GetData h s1 = Inl HI_FAILURE" by (simp add: MSG_RSPMNG_GetData_def)
  have p: "resp2id (sync_rsp_inner junk' pm r) = msgID b'" "msgType (msg (sync_rsp_inner junk' pm r)) = msgType b"
    "rcvTaskId (msg (sync_rsp_inner junk' pm r)) = sndTaskId b" "sndTaskId (msg (sync_rsp_inner junk' pm r)) = rcvTaskId b"
    "ulMsgLen (msg (sync_rsp_inner junk' pm r)) = ulMsgLen r" "pMsgBody (msg (sync_rsp_inner junk' pm r)) = pMsgBody r" for r
    by (simp_all add: sync_rsp_inner_def pm sync_inner_def b' MSG_COPY2BUF_def)
  have c: "resp2id (MSG_COPY2BUF x) = resp2id x" for x by (simp add: MSG_COPY2BUF_def)
  let ?m = "sync_answer (MSG_COPY2BUF (sync_rsp_inner junk' pm (rsp\<lparr>msgID := mid\<rparr>)))"
  have "resp2id ?m = msgID b'" "msgType (msg ?m) = msgType b" "rcvTaskId (msg ?m) = sndTaskId b"
    "sndTaskId (msg ?m) = rcvTaskId b" "ulMsgLen (msg ?m) = ulMsgLen rsp"
    by (simp_all add: sync_answer_def Let_def c p)
  moreover have "pMsgBody (msg ?m) =
      (if ulMsgLen rsp > 0 then map_option (take (unat (ulMsgLen rsp))) (pMsgBody rsp) else Some [])"
    by (simp add: sync_answer_def Let_def MSG_COPY2BUF_def p option.map_comp comp_def)
  moreover have "fst (sync_poll True timeout st ct h s') = Answer ?m" by (rule sync_poll_answer [OF d])
  ultimately show ?thesis using r nd ans by simp
qed

section \<open>Samples\<close>

definition idle_sys :: msg_sys where
  "idle_sys = snd (the (SUB_TAB_Init (snd (the (TASK_TAB_Init (snd (MSG_RSPMNG_Init
     (sys0\<lparr>g_MsgShmAddr := Some (shm_of_config small_config)\<rparr>))))))))"

lemma idle_sys_eq:
  "idle_sys = (snd (MSG_RSPMNG_Init sys0))\<lparr>g_MsgShmAddr := Some (sample_shm\<lparr>subTab := [SUBTABInitUnit 2, SUBTABInitUnit 2]\<rparr>)\<rparr>"
  by (simp add: idle_sys_def SUB_TAB_Init_def TASK_TAB_Init_def init_tasks_def MSG_RSPMNG_Init_def sys0_def small_shm sample_shm_def)

lemma task_frameD:
  assumes f: "task_frame s' = task_frame s"
  shows "s_MsgRspMng s' = s_MsgRspMng s" and "s_bFilterInited s' = s_bFilterInited s"
    and "s_msgSvrQueueHandle s' = s_msgSvrQueueHandle s" and "g_TaskData s' = g_TaskData s"
    and "g_MsgShmAddr s = None \<longleftrightarrow> g_MsgShmAddr s' = None"
    and "g_MsgShmAddr s = Some h \<Longrightarrow> g_MsgShmAddr s' = Some h' \<Longrightarrow> subTab h' = subTab h \<and> maxSubNum h' = maxSubNum h \<and>
      maxTaskNumInSub h' = maxTaskNumInSub h \<and> maxTaskNum h' = maxTaskNum h \<and> version h' = version h \<and>
      counter_msgId h' = counter_msgId h"
proof -
  show "s_MsgRspMng s' = s_MsgRspMng s" using arg_cong [OF f, of s_MsgRspMng] by (simp add: task_frame_def)
  show "s_bFilterInited s' = s_bFilterInited s" using arg_cong [OF f, of s_bFilterInited] by (simp add: task_frame_def)
  show "s_msgSvrQueueHandle s' = s_msgSvrQueueHandle s"
    using arg_cong [OF f, of s_msgSvrQueueHandle] by (simp add: task_frame_def)
  show "g_TaskData s' = g_TaskData s" using arg_cong [OF f, of g_TaskData] by (simp add: task_frame_def)
  have g: "map_option (\<lambda>h. h\<lparr>taskTab := [], counter_taskId := 0\<rparr>) (g_MsgShmAddr s')
      = map_option (\<lambda>h. h\<lparr>taskTab := [], counter_taskId := 0\<rparr>) (g_MsgShmAddr s)"
    using arg_cong [OF f, of g_MsgShmAddr] by (simp add: task_frame_def)
  then show "g_MsgShmAddr s = None \<longleftrightarrow> g_MsgShmAddr s' = None" by (metis option.map_disc_iff)
  assume "g_MsgShmAddr s = Some h" "g_MsgShmAddr s' = Some h'"
  then have e: "h'\<lparr>taskTab := [], counter_taskId := 0\<rparr> = h\<lparr>taskTab := [], counter_taskId := 0\<rparr>" using g by simp
  show "subTab h' = subTab h \<and> maxSubNum h' = maxSubNum h \<and> maxTaskNumInSub h' = maxTaskNumInSub h \<and>
      maxTaskNum h' = maxTaskNum h \<and> version h' = version h \<and> counter_msgId h' = counter_msgId h"
    using arg_cong [OF e, of subTab] arg_cong [OF e, of maxSubNum] arg_cong [OF e, of maxTaskNumInSub]
      arg_cong [OF e, of maxTaskNum] arg_cong [OF e, of version] arg_cong [OF e, of counter_msgId] by simp
qed

text \<open>A change of the task table keeps the subscriptions as long as no subscriber disappears.\<close>

lemma tabs_inv_frame:
  assumes inv: "tabs_inv s" and ti: "task_inv s'" and f: "task_frame s' = task_frame s"
    and keep: "\<forall>(t, i) \<in> subs s. task_map s' i \<noteq> None"
  shows "tabs_inv s'" and "subs s' = subs s"
proof -
  obtain h where h: "g_MsgShmAddr s = Some h" using inv by (auto simp: tabs_inv_def)
  then obtain h' where h': "g_MsgShmAddr s' = Some h'" using task_frameD(5) [OF f] by (cases "g_MsgShmAddr s'") auto
  note e = task_frameD(6) [OF f h h']
  show "subs s' = subs s" using e h h' by (simp add: subs_def)
  have "sub_inv s'" using inv e h h' keep by (auto simp: tabs_inv_def sub_inv_def subs_def)
  then show "tabs_inv s'" using ti h' by (simp add: tabs_inv_def)
qed

lemma idle_sys_inv: "sys_inv idle_sys" "task_map idle_sys = Map.empty" "qstore idle_sys = Map.empty" "subs idle_sys = {}"
  and idle_slots: "s_MsgRspMng idle_sys = replicate 128 zero_rsp"
proof -
  let ?a = "snd (MSG_RSPMNG_Init (sys0\<lparr>g_MsgShmAddr := Some (shm_of_config small_config)\<rparr>))"
  let ?b = "?a\<lparr>g_MsgShmAddr := Some ((shm_of_config small_config)\<lparr>taskTab := map (\<lambda>_. TASKTABInitUnit) (taskTab (shm_of_config small_config))\<rparr>)\<rparr>"
  have a: "g_MsgShmAddr ?a = Some (shm_of_config small_config)" "s_msgSvrQueueHandle ?a = 0" "rsp_ok ?a"
    "qstore ?a = Map.empty" by (simp_all add: MSG_RSPMNG_Init_def sys0_def rsp_ok_def)
  note b = task_inv_init [OF a(1) small_fits _ refl]
  note si = sub_inv_init [where s = ?b, OF _ _ _ _ _ refl]
  have e: "idle_sys = snd (the (SUB_TAB_Init ?b))" using b(1) a(2) by (simp add: idle_sys_def)
  have S: "tabs_inv idle_sys" "subs idle_sys = {}" "task_map idle_sys = Map.empty" "qstore idle_sys = Map.empty"
    using si b(2,3) a by (simp_all add: e small_shm)
  show "task_map idle_sys = Map.empty" "qstore idle_sys = Map.empty" "subs idle_sys = {}" by (fact S)+
  show sl: "s_MsgRspMng idle_sys = replicate 128 zero_rsp" by (simp add: idle_sys_eq MSG_RSPMNG_Init_def sys0_def)
  have "rsp_ok idle_sys" by (simp add: idle_sys_eq MSG_RSPMNG_Init_def sys0_def rsp_ok_def)
  then show "sys_inv idle_sys" using S(1) by (simp add: sys_inv_def)
qed

lemma idle_shm: "\<exists>h. g_MsgShmAddr idle_sys = Some h \<and> counter_taskId h = 0 \<and> version h = VTOP_MSG_VERSION \<and>
    scan (\<lambda>u. taskId u = VTOP_INVALID_TASK_ID) (taskTab h) = Some 0"
  by (simp add: idle_sys_eq sample_shm_def small_shm TASKTABInitUnit_def)
     (simp add: strcut_def VTOP_MSG_VERSION_def VTOP_MSG_MAX_VERSION_SIZE_def)

text \<open>A system with one task, 0, whose queue is empty.\<close>

lemma sample_running:
  obtains s u q where "sys_inv s" and "task_map s = [0 \<mapsto> u]" and "handle u \<noteq> 0" and "qstore s = [handle u \<mapsto> q]"
    and "queue_ok q" and "qshape q" and "queue_abs q = []" and "\<And>p. \<not> outstanding q p" and "subs s = {}"
    and "msgtype u = VTOP_INVALID_MSG_TYPE" and "taken s = {}"
proof -
  obtain h where h: "g_MsgShmAddr idle_sys = Some h" "counter_taskId h = 0"
    "scan (\<lambda>u. taskId u = VTOP_INVALID_TASK_ID) (taskTab h) = Some 0" using idle_shm by blast
  obtain qs where "MSG_QueueInit sample_qmalloc (\<lambda>_. sample_msg 0) (strcut VTOP_MSG_MAX_TASK_NAME_LEN ''ui'')
      MSG_DEFAULT_QUEUE_SIZE Map.empty = Some (Inr 0x100, qs)"
    unfolding MSG_DEFAULT_QUEUE_SIZE_def using QueueInit_sample by force
  then obtain s where add: "TASK_TAB_Add2 sample_qmalloc (\<lambda>_. sample_msg 0) ''ui'' TASK_OWNER_TASK idle_sys = Some (0, s)"
    using h by (auto simp: TASK_TAB_Add2_def Let_def idle_sys_inv)
  have i: "task_inv idle_sys" "tabs_inv idle_sys" "rsp_ok idle_sys"
    using idle_sys_inv(1) by (simp_all add: sys_inv_def tabs_inv_def)
  have c: "counter_taskId h < VTOP_MAX_TASK_ID" "malloc_ok sample_qmalloc (qstore idle_sys)"
    using h(2) sample_malloc_ok by (simp_all add: VTOP_MAX_TASK_ID_def idle_sys_inv(3))
  from i(1) h(1) c add show thesis
  proof (cases rule: Add2_cases)
    case (added u q)
    have "tabs_inv s" "subs s = {}" using tabs_inv_frame [OF i(2) added(2,3)] idle_sys_inv(4) by auto
    moreover have "rsp_ok s" using i(3) task_frameD(1,2) [OF added(3)] by (simp add: rsp_ok_def)
    moreover have "taken s = taken (snd (MSG_RSPMNG_Init sys0))"
      using task_frameD(1) [OF added(3)] idle_slots by (simp add: taken_def slot_def MSG_RSPMNG_Init_def sys0_def)
    moreover have "queue_ok q" "qshape q"
      using task_map_queue(4) [OF added(2), of 0 u] added by (auto simp: queue_at_ok_def)
    ultimately show thesis
      using added h(2) by (intro that [of s u q]) (auto simp: sys_inv_def idle_sys_inv taken_init)
  qed (simp_all add: VTOP_INVALID_TASK_ID_def)
qed

lemma queue_accepts:
  assumes "queue_ok q" "qshape q" "length (queue_abs q) < 128" "\<forall>p. \<not> outstanding q p" and "h \<noteq> 0" "qs h = Some q"
    and "ulMsgLen (msg m) \<le> 212" "\<not> body_mismatch (msg m)"
  shows "\<exists>q'. MSG_QueuePut h (Some m) qs = Some (HI_SUCCESS, qs(h \<mapsto> q')) \<and> queue_ok q' \<and> qshape q' \<and>
    queue_abs q' = queue_abs q @ [MSG_COPY2BUF m] \<and> (\<forall>p. \<not> outstanding q' p)"
proof -
  have l: "ulMsgLen (msg m) \<le> VTOP_MSG_MAX_MSG_SIZE"
    unfolding VTOP_MSG_MAX_MSG_SIZE_def by (rule order_trans [OF assms(7)]) simp
  have "length (qlist q) < 128" using assms(3) by (simp add: queue_abs_msgs msgs_def)
  then have "fst (queue_put q m) = HI_SUCCESS"
    by (intro queue_put_capacity [OF assms(1,2) l, where hs = "[]"]) (use assms(4,7) in \<open>auto simp: queue_capacity_of_def\<close>)
  then obtain q' where put: "queue_put q m = (HI_SUCCESS, q')" by (metis prod.collapse)
  have "MSG_QueuePut h (Some m) qs = Some (HI_SUCCESS, qs(h \<mapsto> q'))"
    using assms(5,6,8) l put by (simp add: MSG_QueuePut_def) (simp add: not_less [symmetric])
  then show ?thesis using queue_put_stored [OF assms(1) put] qshape_put [OF assms(2) put] assms(4) by auto
qed

lemma set_slot_tabs [simp]:
  "task_map (set_slot h r s) = task_map s" "qstore (set_slot h r s) = qstore s" "subs (set_slot h r s) = subs s"
  "g_MsgShmAddr (set_slot h r s) = g_MsgShmAddr s" "s_msgSvrQueueHandle (set_slot h r s) = s_msgSvrQueueHandle s"
  by (simp_all add: set_slot_def task_map_def find_task_def subs_def fun_eq_iff)

lemma tabs_inv_set_slot [simp]: "tabs_inv (set_slot h r s) = tabs_inv s"
  by (cases "g_MsgShmAddr s") (simp_all add: tabs_inv_def task_inv_def sub_inv_def)

text \<open>A synchronous request can be started while there are a free slot and room in the receiver's queue.\<close>

lemma sync_begin_succeeds:
  assumes inv: "sys_inv s" and u: "task_map s (rcvTaskId b) = Some u" "handle u \<noteq> 0" "qstore s (handle u) = Some q"
    and q: "length (queue_abs q) < 128" "\<forall>p. \<not> outstanding q p" and free: "taken s \<noteq> {0..127}"
    and len: "ulMsgLen b \<le> 212" "\<not> body_mismatch b"
  shows "\<exists>h b' s' q'. send_sync_begin junk b s = Some (Inr h, b', s') \<and> sys_inv s' \<and> task_map s' = task_map s \<and>
    qstore s' = (qstore s)(handle u \<mapsto> q') \<and> queue_abs q' = queue_abs q @ [MSG_COPY2BUF (sync_inner junk b' h)] \<and>
    (\<forall>p. \<not> outstanding q' p)"
proof -
  have ti: "tabs_inv s" "task_inv s" and ok: "rsp_ok s" using inv by (simp_all add: sys_inv_def tabs_inv_def)
  note tq = task_map_queue [OF ti(2) u(1)]
  have qk: "queue_ok q" "qshape q" using tq(4) [OF u(2)] u(3) by (auto simp: queue_at_ok_def)
  obtain c s1 where g: "getMsgID s = (Inr c, s1)" "tabs_inv s1" "task_map s1 = task_map s" "qstore s1 = qstore s"
    by (rule getMsgID_running [OF ti(1)])
  note gm = getMsgID_rsp [OF g(1)]
  have ok1: "rsp_ok s1" and t1: "taken s1 = taken s" using ok rsp_ok_cong [OF gm(1,2)] gm(1) by (simp_all add: taken_def slot_def)
  obtain h where n: "MSG_RSPMNG_New True s1 = (Inr h, set_slot h ((slot h s1)\<lparr>enState := MSG_RSPMNG_STATE_IDLE\<rparr>) s1)"
    using ok1
  proof (cases rule: New_cases)
    case none
    then have "taken s1 = {0..127}" by (auto simp: taken_def FLTR_HANDLE_VALID_def)
    then show ?thesis using free t1 by simp
  qed
  let ?s2 = "set_slot h ((slot h s1)\<lparr>enState := MSG_RSPMNG_STATE_IDLE\<rparr>) s1" and ?b = "b\<lparr>msgID := c\<rparr>"
  have q2: "qstore ?s2 = qstore s" "task_map ?s2 = task_map s" "tabs_inv ?s2"
    using g by simp_all
  let ?m = "sync_inner junk ?b h"
  have lm: "ulMsgLen (msg ?m) \<le> 212" "\<not> body_mismatch (msg ?m)" using len by (simp_all add: sync_inner_def body_mismatch_def)
  obtain q' where p: "MSG_QueuePut (handle u) (Some ?m) (qstore s) = Some (HI_SUCCESS, (qstore s)(handle u \<mapsto> q'))"
    "queue_ok q'" "qshape q'" "queue_abs q' = queue_abs q @ [MSG_COPY2BUF ?m]" "\<forall>p. \<not> outstanding q' p"
    using queue_accepts [where h = "handle u" and qs = "qstore s", OF qk q u(2,3) lm] by blast
  let ?s3 = "?s2\<lparr>qstore := (qstore ?s2)(handle u \<mapsto> q')\<rparr>"
  have "TASK_TAB_GetHandle (rcvTaskId b) s = handle u" using GetHandle_map [OF tq(2)] u(1) by simp
  then have "send_sync_begin junk b s = Some (Inr h, ?b, ?s3)"
    using g(1) n p(1) q2(1) u(2) by (simp add: send_sync_begin_def Let_def)
  moreover have "sys_inv ?s3" using tabs_inv_queue [OF q2(3) p(2,3)] ok1 by (simp add: sys_inv_def rsp_ok_def set_slot_def)
  moreover have "task_map ?s3 = task_map s" "qstore ?s3 = (qstore s)(handle u \<mapsto> q')" using q2(1,2) by simp_all
  ultimately show ?thesis using p(4,5) by blast
qed

theorem async_delivery_witness:
  "\<exists>s u q' s' b'. MSG_SendAsyncMsg (sample_msg 0) ((sample_block 5)\<lparr>rcvTaskId := 0\<rparr>) VTOP_MSG_FLG_P2P s = Some (HI_SUCCESS, b', s') \<and>
     task_map s 0 = Some u \<and> qstore s' (handle u) = Some q' \<and> length (queue_abs q') = 1"
proof -
  let ?b = "(sample_block 5)\<lparr>rcvTaskId := 0\<rparr>"
  obtain s u q where s: "sys_inv s" "task_map s = [0 \<mapsto> u]" "handle u \<noteq> 0" "qstore s = [handle u \<mapsto> q]"
    "queue_ok q" "qshape q" "queue_abs q = []" "\<And>p. \<not> outstanding q p"
    by (rule sample_running) blast
  have u: "task_map s (rcvTaskId ?b) = Some u" and q: "qstore s (handle u) = Some q" using s by simp_all
  obtain ret b' s' q' mid where r: "MSG_SendAsyncMsg (sample_msg 0) ?b VTOP_MSG_FLG_P2P s = Some (ret, b', s')"
    "b' = ?b\<lparr>msgID := mid\<rparr>" "qstore s' = (qstore s)(handle u \<mapsto> q')"
    "queue_abs q' = queue_abs q @ (if ret = HI_SUCCESS then [MSG_COPY2BUF (async_inner (sample_msg 0) b' VTOP_MSG_FLG_P2P)] else [])"
    "map_option counter_msgId (g_MsgShmAddr s) = Some mid"
    using async_delivery [OF s(1) u s(3) q] by metis
  have ab: "length (queue_abs q) < 128" and out: "\<forall>p. \<not> outstanding q p" using s(7,8) by simp_all
  obtain qs' where "MSG_QueuePut (handle u) (Some (async_inner (sample_msg 0) b' VTOP_MSG_FLG_P2P)) (qstore s) = Some (HI_SUCCESS, qs')"
    using queue_accepts [where m = "async_inner (sample_msg 0) b' VTOP_MSG_FLG_P2P" and h = "handle u" and qs = "qstore s",
        OF s(5,6) ab out s(3) q]
    by (auto simp: r(2) sample_block_def body_mismatch_def)
  moreover have "tabs_inv s" "task_inv s" using s(1) by (simp_all add: sys_inv_def tabs_inv_def)
  moreover have "TASK_TAB_GetHandle 0 s = handle u" using GetHandle_map [of 0 s] s(2) by (simp add: VTOP_INVALID_TASK_ID_def)
  ultimately have "ret = HI_SUCCESS" using r(1,2,5) s(3)
    by (auto simp: MSG_SendAsyncMsg_def send_async_def Let_def getMsgID_def tabs_inv_def split: option.splits)
  then show ?thesis using r s(2,7) by (intro exI conjI) auto
qed

definition sample_request :: VTOP_MSG_S_Block where
  "sample_request = (sample_block 5)\<lparr>rcvTaskId := 0\<rparr>"

lemma sample_request_ok: "ulMsgLen sample_request \<le> 212" "\<not> body_mismatch sample_request" "rcvTaskId sample_request = 0"
  by (simp_all add: sample_request_def sample_block_def body_mismatch_def)

lemma sample_sync_begin:
  obtains s u q h b' s1 q1 where "sys_inv s" and "taken s = {}"
    and "send_sync_begin (sample_msg 0) sample_request s = Some (Inr h, b', s1)" and "sys_inv s1"
    and "task_map s1 0 = Some u" and "handle u \<noteq> 0" and "qstore s1 (handle u) = Some q1" and "length (queue_abs q1) = 1"
    and "\<forall>p. \<not> outstanding q1 p"
proof -
  obtain s u q where s: "sys_inv s" "task_map s = [0 \<mapsto> u]" "handle u \<noteq> 0" "qstore s = [handle u \<mapsto> q]"
    "queue_abs q = []" "\<And>p. \<not> outstanding q p" and free: "taken s = {}"
    by (rule sample_running) blast
  have a: "task_map s (rcvTaskId sample_request) = Some u" "qstore s (handle u) = Some q" "length (queue_abs q) < 128"
    "\<forall>p. \<not> outstanding q p" "taken s \<noteq> {0..127}" using s free by (simp_all add: sample_request_ok)
  from sync_begin_succeeds [OF s(1) a(1) s(3) a(2-5) sample_request_ok(1,2), of "sample_msg 0"] show thesis
    using that s free by auto
qed

theorem sync_roundtrip_witness:
  "\<exists>s h b' s1 rsp' s2 m. send_sync_begin (sample_msg 0) sample_request s = Some (Inr h, b', s1) \<and>
     MSG_SendSyncRsp (sample_msg 0) (MSG_COPY2BUF (sync_inner (sample_msg 0) b' h)) (sample_block 0) s1 = (HI_SUCCESS, rsp', s2) \<and>
     fst (sync_poll True 100 0 0 h s2) = Answer m \<and> resp2id m = msgID b' \<and> pMsgBody (msg m) = Some [0x61, 0x62]"
proof -
  obtain s h b' s1 where inv: "sys_inv s"
    and beg: "send_sync_begin (sample_msg 0) sample_request s = Some (Inr h, b', s1)"
    by (rule sample_sync_begin)
  let ?pm = "MSG_COPY2BUF (sync_inner (sample_msg 0) b' h)"
  obtain r rsp' s2 where ans: "MSG_SendSyncRsp (sample_msg 0) ?pm (sample_block 0) s1 = (r, rsp', s2)"
    by (cases "MSG_SendSyncRsp (sample_msg 0) ?pm (sample_block 0) s1")
  have ok: "rsp_ok s" using inv by (simp add: sys_inv_def)
  have len: "ulMsgLen (sample_block 0) \<le> MAX_MSG_RSP_SIZE" by (simp add: sample_block_def MAX_MSG_RSP_SIZE_def)
  from sync_roundtrip [OF ok beg refl len ans, of 100 0 0] obtain m where
    "r = HI_SUCCESS" "fst (sync_poll True 100 0 0 h s2) = Answer m" "resp2id m = msgID b'"
    "pMsgBody (msg m) = (if ulMsgLen (sample_block 0) > 0
       then map_option (take (unat (ulMsgLen (sample_block 0)))) (pMsgBody (sample_block 0)) else Some [])" by blast
  moreover from this(4) have "pMsgBody (msg m) = Some [0x61, 0x62]" by (simp add: sample_block_def)
  ultimately show ?thesis using beg ans by blast
qed

text \<open>
  Waiting for an answer is bounded: with a timeout of 0 or more, the loop has ended once a round starts
  after the timeout has passed, whatever the other threads do; and when the others keep the slot
  array in order, the requester's slot is free again when the loop has ended.
\<close>

theorem sync_wait_bounded:
  assumes "timeout \<ge> 0" and "timeout \<le> sint (curTime - startTime)" and "rsp_ok s" and "FLTR_HANDLE_VALID h"
    and "\<forall>(c, env) \<in> set rounds. \<forall>x. rsp_ok x \<longrightarrow> rsp_ok (env x)"
    and "sync_wait mal timeout startTime h (rounds @ [(curTime, env')]) s = (r, s')"
  shows "r \<noteq> Waiting \<and> rsp_ok s' \<and> h \<notin> taken s'"
  using assms(3,5,6)
proof (induction rounds arbitrary: s)
  case Nil
  have "taken (snd (MSG_RSPMNG_Delete h s)) = taken s - {h}" "rsp_ok (snd (MSG_RSPMNG_Delete h s))"
    using Delete_ok [OF Nil.prems(1) assms(4)] Nil.prems(1) by simp_all
  then show ?case using Nil.prems assms(1,2)
    by (auto simp: sync_poll_def split: sum.splits if_splits)
next
  case (Cons ce rounds)
  obtain c env where ce: "ce = (c, env)" by (cases ce)
  have d: "taken (snd (MSG_RSPMNG_Delete h s)) = taken s - {h}" "rsp_ok (snd (MSG_RSPMNG_Delete h s))"
    using Delete_ok [OF Cons.prems(1) assms(4)] Cons.prems(1) by simp_all
  show ?case
  proof (cases "sync_poll mal timeout startTime c h s")
    case (Pair res s1)
    show ?thesis
    proof (cases "res = Waiting")
      case True
      then have "s1 = s" using Pair by (auto simp: sync_poll_def split: sum.splits if_splits)
      moreover have "rsp_ok (env s)" using Cons.prems(1,2) ce by auto
      ultimately show ?thesis using Cons.IH [of "env s"] Cons.prems True Pair ce by simp
    next
      case False
      have "s1 = snd (MSG_RSPMNG_Delete h s)" using Pair False by (auto simp: sync_poll_def split: sum.splits if_splits)
      moreover have "r = res" "s' = s1" using Cons.prems(3) Pair False ce by (auto split: sync_result.splits)
      ultimately show ?thesis using False d by simp
    qed
  qed
qed

theorem sync_wait_bounded_witness:
  "fst (sync_wait True 500 0 0 ([(100, id)] @ [(1000, id)]) (snd (MSG_RSPMNG_Init sys0))) \<noteq> Waiting"
proof -
  obtain r s' where w: "sync_wait True 500 0 0 ([(100, id)] @ [(1000, id)]) (snd (MSG_RSPMNG_Init sys0)) = (r, s')" by force
  have e: "(500 :: int) \<le> sint ((1000 :: u32) - 0)" by simp
  have v: "FLTR_HANDLE_VALID 0" by (simp add: FLTR_HANDLE_VALID_def)
  from sync_wait_bounded [OF _ e rsp_ok_init v _ w] w show ?thesis by simp
qed

text \<open>
  C37: A late answer reaches the wrong requester: after a request has timed out, the next request gets the same
  slot, because the first free one is taken, and the late answer to the first request is stored there
  and returned to the second requester, although \<open>resp2id\<close> names the first request.
\<close>

theorem sync_misdelivery:
  assumes ok: "rsp_ok s" and b1: "send_sync_begin junk b1 s = Some (Inr h, b1', s1)"
    and to: "sync_poll True 0 st ct h s1 = (Failed VTOP_MSG_ERR_RESPTIMEOUT, s2)"
    and b2: "send_sync_begin junk b2 s2 = Some (Inr h2, b2', s3)"
    and late: "MSG_SendSyncRsp junk (MSG_COPY2BUF (sync_inner junk b1' h)) rsp s3 = (HI_SUCCESS, rsp', s4)"
    and len: "ulMsgLen rsp \<le> MAX_MSG_RSP_SIZE"
  shows "h2 = h \<and> msgID b2' = msgID b1' + 1 \<and>
    (\<exists>m. fst (sync_poll True timeout st' ct' h2 s4) = Answer m \<and> resp2id m = msgID b1')"
proof -
  note p1 = send_sync_begin_slot [OF ok b1]
  have s2: "s2 = set_slot h ((slot h s1)\<lparr>enState := MSG_RSPMNG_STATE_FREE\<rparr>) s1"
    using to Delete_ok(1) [OF p1(1,2)] by (auto simp: sync_poll_def split: sum.splits)
  have ok2: "rsp_ok s2" using p1(1) by (simp add: s2)
  note p2 = send_sync_begin_slot [OF ok2 b2]
  have n: "nat h < 128" "length (s_MsgRspMng s) = 128" using p1(2) ok by (auto simp: FLTR_HANDLE_VALID_def rsp_ok_def)
  have fr: "enState (slot h s) = MSG_RSPMNG_STATE_FREE" using p1(2,3) by (simp add: taken_def)
  have "slot h s1 = (slot h s)\<lparr>enState := MSG_RSPMNG_STATE_IDLE\<rparr>" using p1(5) n by (simp add: slot_def)
  then have "(slot h s1)\<lparr>enState := MSG_RSPMNG_STATE_FREE\<rparr> = slot h s" using fr by simp
  then have same: "s_MsgRspMng s2 = s_MsgRspMng s" using p1(5) n by (simp add: s2 set_slot_def slot_def)
  have scan: "h' = h''" if "send_sync_begin junk x t = Some (Inr h', x', t')" "send_sync_begin junk y v = Some (Inr h'', y', v')"
    "s_MsgRspMng t = s_MsgRspMng v" for h' h'' x x' y y' t t' v v'
    by (rule send_sync_begin_Inr [OF that(1)], rule send_sync_begin_Inr [OF that(2)])
       (use that(3) in \<open>auto simp: MSG_RSPMNG_New_def getMsgID_rsp(1) split: if_splits option.splits\<close>)
  have h2: "h2 = h" by (rule scan [OF b2 b1 same])
  have "map_option counter_msgId (g_MsgShmAddr s2) = Some (msgID b1' + 1)" using p1(7) by (simp add: s2 set_slot_def)
  then have ids: "msgID b2' = msgID b1' + 1" using p2(6) by simp
  obtain mid s5 where g: "getMsgID s3 = (Inr mid, s5)" using p2(7) by (auto simp: getMsgID_def)
  let ?pm = "MSG_COPY2BUF (sync_inner junk b1' h)"
  have pd: "privData ?pm = h" by (simp add: sync_inner_def)
  from SendSyncRsp_ok [OF g p2(1), of ?pm rsp junk] late len p2(2) h2
  have d: "MSG_RSPMNG_GetData h s4 = Inr (MSG_COPY2BUF (sync_rsp_inner junk ?pm (rsp\<lparr>msgID := mid\<rparr>)))"
    unfolding pd by auto
  have "resp2id (sync_answer (MSG_COPY2BUF (sync_rsp_inner junk ?pm (rsp\<lparr>msgID := mid\<rparr>)))) = msgID b1'"
    by (simp add: sync_answer_def Let_def MSG_COPY2BUF_def sync_rsp_inner_def sync_inner_def)
  then show ?thesis using sync_poll_answer [OF d] h2 ids by auto
qed

theorem sync_misdelivery_witness:
  "\<exists>h b1' s1 s2 b2' s3 rsp' s4 m. sync_poll True 0 0 0 h s1 = (Failed VTOP_MSG_ERR_RESPTIMEOUT, s2) \<and>
     send_sync_begin (sample_msg 0) sample_request s2 = Some (Inr h, b2', s3) \<and>
     MSG_SendSyncRsp (sample_msg 0) (MSG_COPY2BUF (sync_inner (sample_msg 0) b1' h)) (sample_block 0) s3 = (HI_SUCCESS, rsp', s4) \<and>
     fst (sync_poll True 0 0 0 h s4) = Answer m \<and> resp2id m \<noteq> msgID b2'"
proof -
  obtain s u q h b1' s1 q1 where s: "sys_inv s" "taken s = {}"
    "send_sync_begin (sample_msg 0) sample_request s = Some (Inr h, b1', s1)" "sys_inv s1"
    "task_map s1 0 = Some u" "handle u \<noteq> 0" "qstore s1 (handle u) = Some q1" "length (queue_abs q1) = 1"
    "\<forall>p. \<not> outstanding q1 p" by (rule sample_sync_begin)
  have ok: "rsp_ok s" "rsp_ok s1" using s by (simp_all add: sys_inv_def)
  note p1 = send_sync_begin_slot [OF ok(1) s(3)]
  let ?s2 = "snd (MSG_RSPMNG_Delete h s1)"
  have "slot h s1 = (slot h s)\<lparr>enState := MSG_RSPMNG_STATE_IDLE\<rparr>"
    using p1(2,5) ok by (simp add: slot_def rsp_ok_def FLTR_HANDLE_VALID_def nat_less_iff)
  then have to: "sync_poll True 0 0 0 h s1 = (Failed VTOP_MSG_ERR_RESPTIMEOUT, ?s2)"
    by (simp add: sync_poll_def MSG_RSPMNG_GetData_def)
  have s2: "qstore ?s2 = qstore s1" "task_map ?s2 = task_map s1" "taken ?s2 = {}" "sys_inv ?s2"
    using Delete_ok [OF ok(2) p1(2)] p1(3,4) s(2,4) ok(2)
    by (simp_all add: sys_inv_def)
  have a: "task_map ?s2 (rcvTaskId sample_request) = Some u" "qstore ?s2 (handle u) = Some q1" "length (queue_abs q1) < 128"
    "taken ?s2 \<noteq> {0..127}" using s s2 by (simp_all add: sample_request_ok)
  obtain h2 b2' s3 where b2: "send_sync_begin (sample_msg 0) sample_request ?s2 = Some (Inr h2, b2', s3)"
    using sync_begin_succeeds [OF s2(4) a(1) s(6) a(2,3) s(9) a(4) sample_request_ok(1,2), of "sample_msg 0"] by blast
  have ok2: "rsp_ok ?s2" using s2(4) by (simp add: sys_inv_def)
  note p2 = send_sync_begin_slot [OF ok2 b2]
  obtain mid s5 where g: "getMsgID s3 = (Inr mid, s5)" using p2(7) by (auto simp: getMsgID_def)
  let ?pm = "MSG_COPY2BUF (sync_inner (sample_msg 0) b1' h)"
  have v: "FLTR_HANDLE_VALID (privData ?pm)" using p1(2) by (simp add: sync_inner_def)
  have len: "ulMsgLen (sample_block 0) \<le> MAX_MSG_RSP_SIZE" by (simp add: sample_block_def MAX_MSG_RSP_SIZE_def)
  obtain s4 where late: "MSG_SendSyncRsp (sample_msg 0) ?pm (sample_block 0) s3 = (HI_SUCCESS, (sample_block 0)\<lparr>msgID := mid\<rparr>, s4)"
    using SendSyncRsp_ok [OF g p2(1) v len] by blast
  from sync_misdelivery [OF ok(1) s(3) to b2 late len, of 0 0 0] show ?thesis using to b2 late by force
qed

end
