(* ===== verification/Msg_Task.thy ===== *)
theory Msg_Task
  imports Msg_Com
begin

text \<open>
  The programming interface of the message system, \<open>common/msg_task.c\<close>: registration of tasks, receiving
  and dispatching messages, and the checks in front of the send and subscribe operations. A \<open>NULL\<close> argument is
  \<open>None\<close>; the results of \<open>malloc\<close> and the registered handlers, which are user code, are arguments.
\<close>

section \<open>Per-task data\<close>

text \<open>
  \<open>g_TaskData\<close> is the head of a list of entries that is created with the first entry and released with the last
  one. \<open>mhead\<close> and \<open>mnew\<close> say whether the two calls of \<open>malloc\<close> succeed.
\<close>

definition addTaskData :: "bool \<Rightarrow> bool \<Rightarrow> MSGTASK_DATA \<Rightarrow> msg_sys \<Rightarrow> s32 \<times> msg_sys" where
  "addTaskData mhead mnew d s =
     (if g_TaskData s = None \<and> \<not> mhead then (VTOP_MSG_ERR_NOMEM, s)
      else let l = (case g_TaskData s of None \<Rightarrow> [] | Some l \<Rightarrow> l); s1 = s\<lparr>g_TaskData := Some l\<rparr> in
      if scan (\<lambda>pos. dataTaskId pos = dataTaskId d) l \<noteq> None then (VTOP_MSG_ERR_GENERAL, s1)
      else if \<not> mnew then (VTOP_MSG_ERR_NOMEM, s1)
      else (0, s1\<lparr>g_TaskData := Some (l @ [d])\<rparr>))"

definition getTaskData :: "u32 \<Rightarrow> msg_sys \<Rightarrow> MSGTASK_DATA option" where
  "getTaskData tid s =
     (case g_TaskData s of None \<Rightarrow> None
      | Some l \<Rightarrow> map_option (\<lambda>i. l ! i) (scan (\<lambda>pos. dataTaskId pos = tid) l))"

definition delTaskData :: "u32 \<Rightarrow> msg_sys \<Rightarrow> s32 \<times> msg_sys" where
  "delTaskData tid s =
     (case g_TaskData s of None \<Rightarrow> (VTOP_MSG_ERR_GENERAL, s)
      | Some l \<Rightarrow>
        let found = scan (\<lambda>pos. dataTaskId pos = tid) l;
            l' = (case found of None \<Rightarrow> l | Some i \<Rightarrow> take i l @ drop (Suc i) l)
        in (if found = None then VTOP_MSG_ERR_GENERAL else 0,
            s\<lparr>g_TaskData := (if l' = [] then None else Some l')\<rparr>))"

section \<open>Versions\<close>

definition VTOP_MSG_GetVersion :: string where
  "VTOP_MSG_GetVersion = VTOP_MSG_VERSION"

definition VTOP_MSG_GetProcVersion :: "msg_sys \<Rightarrow> string option" where
  "VTOP_MSG_GetProcVersion s = map_option version (g_MsgShmAddr s)"

definition VTOP_MSG_IsVersionMatch :: "msg_sys \<Rightarrow> bool" where
  "VTOP_MSG_IsVersionMatch s =
     (case VTOP_MSG_GetProcVersion s of None \<Rightarrow> False
      | Some v \<Rightarrow> strncmp_eq (length VTOP_MSG_VERSION + 1) VTOP_MSG_VERSION v)"

section \<open>Registration\<close>

text \<open>The outcomes of \<open>malloc\<close> during a registration: the task's queue, and the two of \<open>addTaskData\<close>.\<close>

record REG_MALLOC =
  reg_queue :: QUEUE_MALLOC
  reg_head :: bool
  reg_data :: bool

definition VTOP_MSG_RegisterX ::
  "REG_MALLOC \<Rightarrow> (u32 \<Rightarrow> VTOP_MSG_S_InnerBlock) \<Rightarrow> string option \<Rightarrow> nat option \<Rightarrow> nat option \<Rightarrow> bool \<Rightarrow> TASK_OWNER_E \<Rightarrow>
   msg_sys \<Rightarrow> ((s32 + u32) \<times> msg_sys) run" where
  "VTOP_MSG_RegisterX m mem name hnd lg pTaskId own s =
     (case name of None \<Rightarrow> Some (Inl VTOP_MSG_ERR_NULLPTR, s)
      | Some nm \<Rightarrow>
        if \<not> pTaskId then Some (Inl VTOP_MSG_ERR_NULLPTR, s)
        else if length nm \<ge> VTOP_MSG_MAX_TASK_NAME_LEN then Some (Inl VTOP_MSG_ERR_INVALIDPARA, s)
        else if \<not> SHM_Exist s then Some (Inl VTOP_MSG_ERR_PROCNOTEXIST, s)
        else if \<not> VTOP_MSG_IsVersionMatch s then Some (Inl VTOP_MSG_ERR_VERSION, s)
        else if TASK_TAB_IsTaskExist nm s then Some (Inl VTOP_MSG_ERR_TASKEXIST, s)
        else do {
          (tid, s1) \<leftarrow> TASK_TAB_Add2 (reg_queue m) mem nm own s;
          if tid = VTOP_INVALID_TASK_ID then Some (Inl VTOP_MSG_ERR_TASKFULL, s1)
          else case addTaskData (reg_head m) (reg_data m)
                      \<lparr>dataTaskId = tid, pMsgHandler = hnd, pTaskLog = lg, Sndfd = -1, Rcvfd = -1\<rparr> s1 of
            (ret, s2) \<Rightarrow>
              if ret < 0 then do {
                (r, s3) \<leftarrow> TASK_TAB_Del tid s2;
                Some (Inl (if r < 0 then r else VTOP_MSG_ERR_GENERAL), s3)
              }
              else Some (Inr tid, s2)
        })"

definition VTOP_MSG_Register ::
  "REG_MALLOC \<Rightarrow> (u32 \<Rightarrow> VTOP_MSG_S_InnerBlock) \<Rightarrow> string option \<Rightarrow> nat option \<Rightarrow> nat option \<Rightarrow> bool \<Rightarrow>
   msg_sys \<Rightarrow> ((s32 + u32) \<times> msg_sys) run" where
  "VTOP_MSG_Register m mem name hnd lg pTaskId s =
     VTOP_MSG_RegisterX m mem name hnd lg pTaskId TASK_OWNER_TASK s"

text \<open>The socket of the task's entry is marked as closed.\<close>

definition reset_rcv :: "u32 \<Rightarrow> msg_sys \<Rightarrow> msg_sys" where
  "reset_rcv tid s = s\<lparr>g_TaskData := map_option (\<lambda>l.
     (case scan (\<lambda>pos. dataTaskId pos = tid) l of None \<Rightarrow> l
      | Some i \<Rightarrow> l[i := (l ! i)\<lparr>Rcvfd := -1\<rparr>])) (g_TaskData s)\<rparr>"

text \<open>
  \<open>VTOP_MSG_UnRegister\<close>; \<open>mal\<close> says that the array for the task's subscriptions can be allocated. When
  \<open>SUB_TAB_Task2Sub\<close> fails, its error is ignored and the loop runs over the array that \<open>memset\<close> cleared.
\<close>

definition VTOP_MSG_UnRegister :: "bool \<Rightarrow> u32 \<Rightarrow> msg_sys \<Rightarrow> (s32 \<times> msg_sys) run" where
  "VTOP_MSG_UnRegister mal tid s =
     (if tid = VTOP_INVALID_TASK_ID then Some (VTOP_MSG_ERR_INVALIDPARA, s)
      else if \<not> SHM_Exist s then Some (VTOP_MSG_ERR_PROCNOTEXIST, s)
      else if \<not> TASK_TAB_IsTaskIdExist tid s then Some (VTOP_MSG_ERR_TASKNOTEXIST, s)
      else case getTaskData tid s of None \<Rightarrow> Some (VTOP_MSG_ERR_DSNOTEXIST, s)
      | Some _ \<Rightarrow>
        let s0 = reset_rcv tid s in
        (case SUB_TAB_GetMaxSubNum s0 of Inl e \<Rightarrow> Some (e, s0)
         | Inr (maxSub, maxTaskInSub) \<Rightarrow>
           if \<not> mal then Some (VTOP_MSG_ERR_NOMEM, s0)
           else
             let types = (case SUB_TAB_Task2Sub tid maxSub s0 of
                            Inl _ \<Rightarrow> replicate (unat maxSub) 0 | Inr ts \<Rightarrow> ts) in
             (case until_err (\<lambda>t. SUB_TAB_Del t tid) types s0 of (ret, s1) \<Rightarrow>
                if ret < 0 then Some (ret, s1)
                else do {
                  (r, s2) \<leftarrow> TASK_TAB_Del tid s1;
                  if r < 0 then Some (VTOP_MSG_ERR_TASKNOTEXIST, s2)
                  else case delTaskData tid s2 of (r', s3) \<Rightarrow>
                    Some (if r' < 0 then VTOP_MSG_ERR_GENERAL else 0, s3)
                })))"

definition VTOP_MSG_GetTaskId :: "string option \<Rightarrow> msg_sys \<Rightarrow> u32" where
  "VTOP_MSG_GetTaskId name s =
     (case name of None \<Rightarrow> VTOP_INVALID_TASK_ID
      | Some nm \<Rightarrow> if \<not> SHM_Exist s then VTOP_INVALID_TASK_ID else TASK_TAB_Name2Id nm s)"

definition VTOP_MSG_GetTaskName :: "u32 \<Rightarrow> bool \<Rightarrow> msg_sys \<Rightarrow> s32 + string" where
  "VTOP_MSG_GetTaskName tid pName s =
     (if tid = VTOP_INVALID_TASK_ID then Inl VTOP_MSG_ERR_INVALIDPARA
      else if \<not> pName then Inl VTOP_MSG_ERR_NULLPTR
      else if \<not> SHM_Exist s then Inl VTOP_MSG_ERR_PROCNOTEXIST
      else TASK_TAB_Id2Name tid s)"

section \<open>Receiving\<close>

text \<open>The choice between merging and plain reception that \<open>VTOP_MSG_Recv\<close> and \<open>VTOP_MSG_GetAndDispatch\<close> share.\<close>

definition take_msg :: "u32 \<Rightarrow> u32 \<Rightarrow> msg_sys \<Rightarrow> ((s32 + u32) \<times> msg_sys) run" where
  "take_msg tid hdl s =
     (let t = TASK_TAB_GetMerge tid s in do {
        (r, qs) \<leftarrow> (if t \<noteq> VTOP_INVALID_MSG_TYPE then MSG_QueueGetMerge hdl t (qstore s)
                    else MSG_QueueGet hdl True (qstore s));
        Some (r, s\<lparr>qstore := qs\<rparr>)
      })"

definition VTOP_MSG_Recv :: "u32 \<Rightarrow> msg_sys \<Rightarrow> ((s32 + u32) \<times> msg_sys) run" where
  "VTOP_MSG_Recv tid s =
     (if tid = VTOP_INVALID_TASK_ID then Some (Inl VTOP_MSG_ERR_INVALIDPARA, s)
      else if \<not> SHM_Exist s then Some (Inl VTOP_MSG_ERR_PROCNOTEXIST, s)
      else let hdl = TASK_TAB_GetHandle tid s in
      if hdl = 0 then Some (Inl VTOP_MSG_ERR_TASKNOTEXIST, s)
      else do {
        (r, s1) \<leftarrow> take_msg tid hdl s;
        Some (case r of Inl _ \<Rightarrow> Inl VTOP_MSG_ERR_MSGRCV | Inr p \<Rightarrow> Inr p, s1)
      })"

text \<open>\<open>VTOP_MSG_RecvFree\<close> on a pointer and the block it leads to, whose receiver names the queue.\<close>

definition VTOP_MSG_RecvFree :: "(u32 \<times> VTOP_MSG_S_Block) option \<Rightarrow> msg_sys \<Rightarrow> (s32 \<times> msg_sys) run" where
  "VTOP_MSG_RecvFree pMsg' s =
     (case pMsg' of None \<Rightarrow> Some (VTOP_MSG_ERR_INVALIDPARA, s)
      | Some (p, b) \<Rightarrow>
        if rcvTaskId b = VTOP_INVALID_TASK_ID then Some (VTOP_MSG_ERR_INVALIDPARA, s)
        else if \<not> SHM_Exist s then Some (VTOP_MSG_ERR_PROCNOTEXIST, s)
        else let hdl = TASK_TAB_GetHandle (rcvTaskId b) s in
        if hdl = 0 then Some (VTOP_MSG_ERR_TASKNOTEXIST, s)
        else do {
          qs \<leftarrow> MSG_QueueFree hdl (Some p) (qstore s);
          Some (HI_SUCCESS, s\<lparr>qstore := qs\<rparr>)
        })"

text \<open>
  \<open>VTOP_MSG_GetAndDispatch\<close>: \<open>run_handler k b\<close> is what the \<open>k\<close>-th registered handler does to the system
  when it is called with the block \<open>b\<close>.
\<close>

definition VTOP_MSG_GetAndDispatch ::
  "(nat \<Rightarrow> VTOP_MSG_S_Block \<Rightarrow> msg_sys \<Rightarrow> msg_sys run) \<Rightarrow> u32 \<Rightarrow> msg_sys \<Rightarrow> (s32 \<times> msg_sys) run" where
  "VTOP_MSG_GetAndDispatch run_handler tid s =
     (if tid = VTOP_INVALID_TASK_ID then Some (VTOP_MSG_ERR_INVALIDPARA, s)
      else if \<not> SHM_Exist s then Some (VTOP_MSG_ERR_PROCNOTEXIST, s)
      else case getTaskData tid s of None \<Rightarrow> Some (VTOP_MSG_ERR_TASKNOTEXIST, s)
      | Some d \<Rightarrow>
        let hdl = TASK_TAB_GetHandle tid s in
        if hdl = 0 then Some (VTOP_MSG_ERR_TASKNOTEXIST, s)
        else do {
          (r, s1) \<leftarrow> take_msg tid hdl s;
          case r of Inl _ \<Rightarrow> Some (VTOP_MSG_ERR_TIMEOUT, s1)
          | Inr p \<Rightarrow> do {
              q \<leftarrow> qstore s1 hdl;
              s2 \<leftarrow> (case pMsgHandler d of None \<Rightarrow> Some s1 | Some k \<Rightarrow> run_handler k (msg (bodies q p)) s1);
              qs \<leftarrow> MSG_QueueFree hdl (Some p) (qstore s2);
              Some (HI_SUCCESS, s2\<lparr>qstore := qs\<rparr>)
            }
        })"

section \<open>Sending and subscribing\<close>

definition CHECK_MSG_BODY :: "VTOP_MSG_S_Block \<Rightarrow> u32 \<Rightarrow> s32 option" where
  "CHECK_MSG_BODY b sz =
     (if body_mismatch b then Some VTOP_MSG_ERR_INVALIDPARA
      else if ulMsgLen b > sz then Some VTOP_MSG_ERR_MSGSIZE else None)"

text \<open>
  \<open>VTOP_MSG_SynSend\<close>. \<open>pResp\<close> says that the caller passed a place for the answer; the last arguments are
  those of \<open>MSG_SendSyncMsg\<close>.
\<close>

definition VTOP_MSG_SynSend ::
  "VTOP_MSG_S_InnerBlock \<Rightarrow> VTOP_MSG_S_Block option \<Rightarrow> bool \<Rightarrow> bool \<Rightarrow> int \<Rightarrow> u32 \<Rightarrow> (u32 \<times> (msg_sys \<Rightarrow> msg_sys)) list \<Rightarrow>
   msg_sys \<Rightarrow> (sync_result \<times> VTOP_MSG_S_Block option \<times> msg_sys) run" where
  "VTOP_MSG_SynSend junk pMsg' pResp mal timeout startTime rounds s =
     (case pMsg' of None \<Rightarrow> Some (Failed VTOP_MSG_ERR_NULLPTR, pMsg', s)
      | Some b \<Rightarrow>
        if \<not> pResp then Some (Failed VTOP_MSG_ERR_NULLPTR, pMsg', s)
        else case CHECK_MSG_BODY b VTOP_MSG_MAX_MSG_SIZE of Some e \<Rightarrow> Some (Failed e, pMsg', s)
        | None \<Rightarrow>
          if \<not> SHM_Exist s then Some (Failed VTOP_MSG_ERR_PROCNOTEXIST, pMsg', s)
          else if \<not> TASK_TAB_IsTaskIdExist (rcvTaskId b) s then Some (Failed VTOP_MSG_ERR_TASKNOTEXIST, pMsg', s)
          else do {
            (r, b', s') \<leftarrow> MSG_SendSyncMsg junk b mal timeout startTime rounds s;
            Some (r, Some b', s')
          })"

definition VTOP_MSG_SendResp ::
  "VTOP_MSG_S_InnerBlock \<Rightarrow> VTOP_MSG_S_InnerBlock option \<Rightarrow> VTOP_MSG_S_Block option \<Rightarrow> msg_sys \<Rightarrow>
   s32 \<times> VTOP_MSG_S_Block option \<times> msg_sys" where
  "VTOP_MSG_SendResp junk pMsg' pMsgResp s =
     (case pMsg' of None \<Rightarrow> (VTOP_MSG_ERR_NULLPTR, pMsgResp, s)
      | Some pm \<Rightarrow>
        (case pMsgResp of None \<Rightarrow> (VTOP_MSG_ERR_NULLPTR, pMsgResp, s)
         | Some rsp \<Rightarrow>
           if \<not> VTOP_MSG_isSyncMsg (ulFlag (msg pm)) then (VTOP_MSG_ERR_INVALIDPARA, pMsgResp, s)
           else case CHECK_MSG_BODY rsp VTOP_MSG_MAX_MSG_SIZE of Some e \<Rightarrow> (e, pMsgResp, s)
           | None \<Rightarrow>
             if \<not> SHM_Exist s then (VTOP_MSG_ERR_PROCNOTEXIST, pMsgResp, s)
             else if getTaskData (rcvTaskId (msg pm)) s = None then (VTOP_MSG_ERR_TASKNOTEXIST, pMsgResp, s)
             else (case MSG_SendSyncRsp junk pm rsp s of (ret, rsp', s') \<Rightarrow> (ret, Some rsp', s'))))"

text \<open>
  \<open>VTOP_MSG_SynRespFree\<close> on the set of addresses of live heap objects: it is given the body pointer
  of an answer, which \<open>MSG_SendSyncMsg\<close> placed behind the inner block in the same heap object.
\<close>

definition VTOP_MSG_SynRespFree :: "u32 option \<Rightarrow> u32 set \<Rightarrow> (s32 \<times> u32 set) run" where
  "VTOP_MSG_SynRespFree body heap =
     (case body of None \<Rightarrow> Some (VTOP_MSG_ERR_NULLPTR, heap)
      | Some p \<Rightarrow> let pBuf = p - MSG_INNER_HEAD_LEN in
                  if pBuf = 0 then Some (0, heap)
                  else if pBuf \<in> heap then Some (0, heap - {pBuf}) else None)"

definition VTOP_MSG_SetMerge :: "u32 \<Rightarrow> u32 \<Rightarrow> msg_sys \<Rightarrow> s32 \<times> msg_sys" where
  "VTOP_MSG_SetMerge tid t s =
     (if tid = VTOP_INVALID_TASK_ID then (VTOP_MSG_ERR_INVALIDPARA, s)
      else if \<not> SHM_Exist s then (VTOP_MSG_ERR_PROCNOTEXIST, s)
      else TASK_TAB_SetMerge tid t s)"

definition VTOP_MSG_AsynSend ::
  "VTOP_MSG_S_InnerBlock \<Rightarrow> VTOP_MSG_S_Block option \<Rightarrow> msg_sys \<Rightarrow> (s32 \<times> VTOP_MSG_S_Block option \<times> msg_sys) run" where
  "VTOP_MSG_AsynSend junk pMsg' s =
     (case pMsg' of None \<Rightarrow> Some (VTOP_MSG_ERR_NULLPTR, pMsg', s)
      | Some b \<Rightarrow>
        (case CHECK_MSG_BODY b VTOP_MSG_MAX_MSG_SIZE of Some e \<Rightarrow> Some (e, pMsg', s)
         | None \<Rightarrow>
           if \<not> SHM_Exist s then Some (VTOP_MSG_ERR_PROCNOTEXIST, pMsg', s)
           else if \<not> TASK_TAB_IsTaskIdExist (rcvTaskId b) s then Some (VTOP_MSG_ERR_TASKNOTEXIST, pMsg', s)
           else do {
             (r, b', s') \<leftarrow> MSG_SendAsyncMsg junk b VTOP_MSG_FLG_P2P s;
             Some (r, Some b', s')
           }))"

definition VTOP_MSG_Subscribe :: "u32 \<Rightarrow> u32 \<Rightarrow> msg_sys \<Rightarrow> s32 \<times> msg_sys" where
  "VTOP_MSG_Subscribe tid t s =
     (if tid = VTOP_INVALID_TASK_ID then (VTOP_MSG_ERR_INVALIDPARA, s)
      else if t = VTOP_INVALID_MSG_TYPE then (VTOP_MSG_ERR_INVALIDPARA, s)
      else if \<not> SHM_Exist s then (VTOP_MSG_ERR_PROCNOTEXIST, s)
      else SUB_TAB_Add t tid s)"

definition VTOP_MSG_UnSubscribe :: "u32 \<Rightarrow> u32 \<Rightarrow> msg_sys \<Rightarrow> s32 \<times> msg_sys" where
  "VTOP_MSG_UnSubscribe tid t s =
     (if tid = VTOP_INVALID_TASK_ID then (VTOP_MSG_ERR_INVALIDPARA, s)
      else if t = VTOP_INVALID_MSG_TYPE then (VTOP_MSG_ERR_INVALIDPARA, s)
      else if \<not> SHM_Exist s then (VTOP_MSG_ERR_PROCNOTEXIST, s)
      else SUB_TAB_Del t tid s)"

definition VTOP_MSG_Publish ::
  "VTOP_MSG_S_InnerBlock \<Rightarrow> VTOP_MSG_S_Block option \<Rightarrow> msg_sys \<Rightarrow> (s32 \<times> VTOP_MSG_S_Block option \<times> msg_sys) run" where
  "VTOP_MSG_Publish junk pMsg' s =
     (case pMsg' of None \<Rightarrow> Some (VTOP_MSG_ERR_NULLPTR, pMsg', s)
      | Some b \<Rightarrow>
        if \<not> SHM_Exist s then Some (VTOP_MSG_ERR_PROCNOTEXIST, pMsg', s)
        else if SUB_TAB_IsExist (msgType b) s = None then Some (VTOP_MSG_ERR_SUBNOTEXIST, pMsg', s)
        else do {
          (r, b', s') \<leftarrow> MSG_PublishMsg junk b s;
          Some (r, Some b', s')
        })"

section \<open>Invariant\<close>

definition data_of :: "msg_sys \<Rightarrow> MSGTASK_DATA list" where
  "data_of s = (case g_TaskData s of None \<Rightarrow> [] | Some l \<Rightarrow> l)"

text \<open>Every entry belongs to a registered task and no task has two; nonempty task names are unique.\<close>

definition data_ok :: "msg_sys \<Rightarrow> bool" where
  "data_ok s \<longleftrightarrow> distinct (map dataTaskId (data_of s)) \<and> (\<forall>d \<in> set (data_of s). task_map s (dataTaskId d) \<noteq> None)"

definition names_ok :: "msg_sys \<Rightarrow> bool" where
  "names_ok s \<longleftrightarrow> (\<forall>i j u v. task_map s i = Some u \<longrightarrow> task_map s j = Some v \<longrightarrow>
     taskName u = taskName v \<longrightarrow> taskName u \<noteq> [] \<longrightarrow> i = j)"

definition api_inv :: "msg_sys \<Rightarrow> bool" where
  "api_inv s \<longleftrightarrow> sys_inv s \<and> data_ok s \<and> names_ok s"

lemma api_invD:
  assumes "api_inv s"
  shows "sys_inv s" and "tabs_inv s" and "task_inv s" and "sub_inv s" and "rsp_ok s" and "data_ok s" and "names_ok s"
    and "SHM_Exist s" and "\<exists>h. g_MsgShmAddr s = Some h"
  using assms by (auto simp: api_inv_def sys_inv_def tabs_inv_def SHM_Exist_def)

lemma data_upd_tabs [simp]:
  "task_map (s\<lparr>g_TaskData := x\<rparr>) = task_map s" "subs (s\<lparr>g_TaskData := x\<rparr>) = subs s"
  "rsp_ok (s\<lparr>g_TaskData := x\<rparr>) = rsp_ok s"
  by (simp_all add: task_map_def fun_eq_iff subs_def rsp_ok_def)

lemma data_upd_inv [simp]: "tabs_inv (s\<lparr>g_TaskData := x\<rparr>) = tabs_inv s" "task_inv (s\<lparr>g_TaskData := x\<rparr>) = task_inv s"
  by (cases "g_MsgShmAddr s"; simp add: tabs_inv_def task_inv_def sub_inv_def)+

lemma data_upd_sys [simp]: "sys_inv (s\<lparr>g_TaskData := x\<rparr>) = sys_inv s"
  by (simp add: sys_inv_def)

lemma scan_distinct:
  assumes "distinct (map f l)" and "d \<in> set l"
  shows "\<exists>i. scan (\<lambda>x. f x = f d) l = Some i \<and> i < length l \<and> l ! i = d"
proof -
  obtain i where i: "i < length l" "l ! i = d" using assms(2) by (auto simp: in_set_conv_nth)
  have "scan (\<lambda>x. f x = f d) l = Some i"
    by (rule scan_unique) (use i assms(1) in \<open>auto simp: distinct_conv_nth\<close>)
  then show ?thesis using i by blast
qed

lemma getTaskData_iff:
  assumes "distinct (map dataTaskId (data_of s))"
  shows "getTaskData tid s = Some d \<longleftrightarrow> d \<in> set (data_of s) \<and> dataTaskId d = tid"
proof
  assume "getTaskData tid s = Some d"
  then show "d \<in> set (data_of s) \<and> dataTaskId d = tid"
    by (auto simp: getTaskData_def data_of_def scan_Some_iff split: option.splits)
next
  assume d: "d \<in> set (data_of s) \<and> dataTaskId d = tid"
  then obtain i where "scan (\<lambda>x. dataTaskId x = tid) (data_of s) = Some i" "data_of s ! i = d"
    using scan_distinct [OF assms] by blast
  then show "getTaskData tid s = Some d" using d by (auto simp: getTaskData_def data_of_def split: option.splits)
qed

lemma data_upd_self [simp]: "\<exists>x. s = s\<lparr>g_TaskData := x\<rparr>"
  by (rule exI [of _ "g_TaskData s"]) simp

lemma addTaskData_ok:
  assumes "addTaskData mh mn d s = (r, s')"
  shows "(r = 0 \<and> s' = s\<lparr>g_TaskData := Some (data_of s @ [d])\<rparr> \<and> dataTaskId d \<notin> dataTaskId ` set (data_of s)) \<or>
    (r < 0 \<and> data_of s' = data_of s \<and> (\<exists>x. s' = s\<lparr>g_TaskData := x\<rparr>))"
  using assms by (auto simp: addTaskData_def Let_def data_of_def scan_None_iff split: option.splits if_splits)

lemma delTaskData_ok:
  assumes "distinct (map dataTaskId (data_of s))" and "d \<in> set (data_of s)"
  shows "\<exists>x. delTaskData (dataTaskId d) s = (0, s\<lparr>g_TaskData := x\<rparr>) \<and> distinct (map dataTaskId (data_of (s\<lparr>g_TaskData := x\<rparr>))) \<and>
    set (data_of (s\<lparr>g_TaskData := x\<rparr>)) = set (data_of s) - {d}"
proof -
  let ?l = "data_of s"
  obtain i where i: "scan (\<lambda>x. dataTaskId x = dataTaskId d) ?l = Some i" "i < length ?l" "?l ! i = d"
    using scan_distinct [OF assms] by blast
  let ?l' = "take i ?l @ drop (Suc i) ?l"
  have sp: "?l = take i ?l @ d # drop (Suc i) ?l" using id_take_nth_drop [OF i(2)] i(3) by simp
  have "distinct (map dataTaskId (take i ?l @ d # drop (Suc i) ?l))" using assms(1) sp by simp
  then have ds: "distinct (map dataTaskId ?l')" "d \<notin> set ?l'" by auto
  have st: "set ?l = insert d (set ?l')" by (subst sp) simp
  have g: "g_TaskData s = Some ?l" using assms(2) by (cases "g_TaskData s") (simp_all add: data_of_def)
  let ?x = "if ?l' = [] then None else Some ?l'"
  have "delTaskData (dataTaskId d) s = (0, s\<lparr>g_TaskData := ?x\<rparr>)"
    unfolding delTaskData_def Let_def g by (simp add: i)
  moreover have "data_of (s\<lparr>g_TaskData := ?x\<rparr>) = ?l'" by (simp add: data_of_def)
  ultimately show ?thesis using ds st by auto
qed

section \<open>Names\<close>

lemma strcut_short: "length nm < VTOP_MSG_MAX_TASK_NAME_LEN \<Longrightarrow> strcut VTOP_MSG_MAX_TASK_NAME_LEN nm = nm"
  by (simp add: strcut_def VTOP_MSG_MAX_TASK_NAME_LEN_def)

lemma unit_name_match:
  assumes "unit_ok qs svr c u" and "nm \<noteq> []" and "length nm < VTOP_MSG_MAX_TASK_NAME_LEN"
  shows "strncmp_eq VTOP_MSG_MAX_TASK_NAME_LEN (taskName u) nm \<longleftrightarrow> used_unit u \<and> taskName u = nm"
  using assms by (auto simp: unit_ok_def strncmp_eq_def VTOP_MSG_MAX_TASK_NAME_LEN_def split: if_splits)

lemma Name2Id_cases:
  assumes inv: "task_inv s" and h: "g_MsgShmAddr s = Some h"
    and nm: "nm \<noteq> []" "length nm < VTOP_MSG_MAX_TASK_NAME_LEN"
  obtains (none) "TASK_TAB_Name2Id nm s = VTOP_INVALID_TASK_ID" and "\<forall>i u. task_map s i = Some u \<longrightarrow> taskName u \<noteq> nm"
  | (found) u where "task_map s (TASK_TAB_Name2Id nm s) = Some u" and "taskName u = nm"
proof (cases "scan (\<lambda>u. strncmp_eq VTOP_MSG_MAX_TASK_NAME_LEN (taskName u) nm) (taskTab h)")
  case None
  have "taskName u \<noteq> nm" if "task_map s i = Some u" for i u
  proof
    assume n: "taskName u = nm"
    from that obtain j where "j < length (taskTab h)" "taskTab h ! j = u" by (auto simp: task_map_iff [OF inv h])
    then have "u \<in> set (taskTab h)" by auto
    with None n show False by (auto simp: scan_None_iff strncmp_eq_def)
  qed
  then show thesis using None h by (intro none) (auto simp: TASK_TAB_Name2Id_def)
next
  case (Some j)
  note j = scan_SomeD(1,2) [OF Some]
  have "used_unit (taskTab h ! j) \<and> taskName (taskTab h ! j) = nm"
    using unit_name_match [OF task_invD(3) [OF inv h j(1)] nm] j(2) by simp
  moreover from this have "task_map s (taskId (taskTab h ! j)) = Some (taskTab h ! j)"
    using j(1) by (auto simp: task_map_iff [OF inv h] used_unit_def)
  moreover have "TASK_TAB_Name2Id nm s = taskId (taskTab h ! j)" using Some h by (simp add: TASK_TAB_Name2Id_def)
  ultimately show thesis by (intro found) auto
qed

lemma Name2Id_unique:
  assumes "task_inv s" and "names_ok s" and u: "task_map s tid = Some u" "taskName u \<noteq> []"
  shows "TASK_TAB_Name2Id (taskName u) s = tid"
proof -
  obtain h where h: "g_MsgShmAddr s = Some h" using u(1) task_map_None by (cases "g_MsgShmAddr s") auto
  from assms(1) h u(2) task_map_queue(3) [OF assms(1) u(1)] show ?thesis
  proof (cases rule: Name2Id_cases)
    case none
    then show ?thesis using u(1) by blast
  next
    case (found v)
    then show ?thesis using assms(2) u unfolding names_ok_def by metis
  qed
qed

section \<open>Registration\<close>

lemma task_upd_inv:
  assumes "names_ok s" and "task_map s' = (task_map s)(tid \<mapsto> u)"
    and "\<forall>i v. task_map s i = Some v \<longrightarrow> taskName v \<noteq> taskName u"
  shows "names_ok s'"
  using assms unfolding names_ok_def by (auto split: if_splits) metis

lemma names_ok_del: "names_ok s \<Longrightarrow> task_map s' = (task_map s)(tid := None) \<Longrightarrow> names_ok s'"
  unfolding names_ok_def by (auto split: if_splits)

lemma RegisterX_Inr:
  assumes "VTOP_MSG_RegisterX m mem name hnd lg pt own s = Some (Inr tid, s')"
  obtains nm s1 where "name = Some nm" and "length nm < VTOP_MSG_MAX_TASK_NAME_LEN" and "\<not> TASK_TAB_IsTaskExist nm s"
    and "TASK_TAB_Add2 (reg_queue m) mem nm own s = Some (tid, s1)" and "tid \<noteq> VTOP_INVALID_TASK_ID"
    and "s' = s1\<lparr>g_TaskData := Some (data_of s1 @ [\<lparr>dataTaskId = tid, pMsgHandler = hnd, pTaskLog = lg, Sndfd = -1, Rcvfd = -1\<rparr>])\<rparr>"
proof -
  from assms obtain nm s1 r s2 where a: "name = Some nm" "length nm < VTOP_MSG_MAX_TASK_NAME_LEN"
    "\<not> TASK_TAB_IsTaskExist nm s" "TASK_TAB_Add2 (reg_queue m) mem nm own s = Some (tid, s1)" "tid \<noteq> VTOP_INVALID_TASK_ID"
    "addTaskData (reg_head m) (reg_data m) \<lparr>dataTaskId = tid, pMsgHandler = hnd, pTaskLog = lg, Sndfd = -1, Rcvfd = -1\<rparr> s1 = (r, s2)"
    "\<not> r < 0" "s' = s2"
    by (auto simp: VTOP_MSG_RegisterX_def not_le split: option.splits if_splits prod.splits bind_splits)
  then show thesis using addTaskData_ok [OF a(6)] by (intro that [OF a(1-5)]) auto
qed

text \<open>
  C1: Registering a task succeeds with an id no task had, and afterwards the name leads to the id and the id to the
  name. The interface's invariant holds, the new task has an empty queue, no subscription and its handler,
  and all other tasks, their queues, their data and the subscriptions are as before. A second registration of
  the name is refused.
\<close>

theorem Register_roundtrip:
  assumes inv: "api_inv s" and h: "g_MsgShmAddr s = Some h" and cnt: "counter_taskId h < VTOP_MAX_TASK_ID"
    and ml: "malloc_ok (reg_queue m) (qstore s)" and nm: "nm \<noteq> []"
    and reg: "VTOP_MSG_Register m mem (Some nm) hnd lg True s = Some (Inr tid, s')"
  shows "api_inv s' \<and> task_map s tid = None \<and> (\<forall>i. i \<noteq> tid \<longrightarrow> task_map s' i = task_map s i) \<and>
    VTOP_MSG_GetTaskId (Some nm) s' = tid \<and> VTOP_MSG_GetTaskName tid True s' = Inr nm \<and>
    (\<exists>q. qstore s' = (qstore s)(TASK_TAB_GetHandle tid s' \<mapsto> q) \<and> queue_abs q = []) \<and> subs s' = subs s \<and>
    map_option pMsgHandler (getTaskData tid s') = Some hnd \<and>
    (\<forall>i. i \<noteq> tid \<longrightarrow> getTaskData i s' = getTaskData i s) \<and>
    fst (the (VTOP_MSG_Register m' mem' (Some nm) hnd' lg' True s')) \<in> {Inl VTOP_MSG_ERR_TASKEXIST, Inl VTOP_MSG_ERR_VERSION}"
proof -
  note I = api_invD [OF inv]
  obtain s1 where len: "length nm < VTOP_MSG_MAX_TASK_NAME_LEN" and ne: "\<not> TASK_TAB_IsTaskExist nm s"
    and add: "TASK_TAB_Add2 (reg_queue m) mem nm TASK_OWNER_TASK s = Some (tid, s1)" and t: "tid \<noteq> VTOP_INVALID_TASK_ID"
    and s': "s' = s1\<lparr>g_TaskData := Some (data_of s1 @ [\<lparr>dataTaskId = tid, pMsgHandler = hnd, pTaskLog = lg, Sndfd = -1, Rcvfd = -1\<rparr>])\<rparr>"
    using RegisterX_Inr [OF reg [unfolded VTOP_MSG_Register_def]] by (metis option.inject)
  let ?d = "\<lparr>dataTaskId = tid, pMsgHandler = hnd, pTaskLog = lg, Sndfd = -1, Rcvfd = -1\<rparr>"
  from I(3) h cnt ml add obtain u q where A: "task_inv s1" "task_frame s1 = task_frame s" "task_map s tid = None"
    "task_map s1 = (task_map s)(tid \<mapsto> u)" "taskName u = strcut VTOP_MSG_MAX_TASK_NAME_LEN nm"
    "qstore s1 = (qstore s)(handle u \<mapsto> q)" "queue_abs q = []"
    by (cases rule: Add2_cases) (use t in auto)
  have un: "taskName u = nm" using A(5) strcut_short [OF len] by simp
  have "\<forall>(x, i) \<in> subs s. task_map s1 i \<noteq> None" using I(4) h by (auto simp: A(4) sub_inv_def subs_def)
  then have tb: "tabs_inv s1" "subs s1 = subs s" using tabs_inv_frame [OF I(2) A(1,2)] by blast+
  have d1: "data_of s1 = data_of s" using task_frameD(4) [OF A(2)] by (simp add: data_of_def)
  have r1: "rsp_ok s1" using I(5) task_frameD(1,2) [OF A(2)] by (simp add: rsp_ok_def)
  have old: "\<forall>i v. task_map s i = Some v \<longrightarrow> taskName v \<noteq> nm"
    using I(3) h nm len
  proof (cases rule: Name2Id_cases)
    case (found u)
    then show ?thesis using ne task_map_queue(2) [OF I(3)] by (auto simp: TASK_TAB_IsTaskExist_def)
  qed blast
  have nok: "names_ok s'" using I(7) A(4) old un by (intro task_upd_inv [of s s' tid u]) (auto simp: s')
  have dat: "data_of s' = data_of s @ [?d]" using d1 by (simp add: s' data_of_def)
  have ids: "\<forall>d \<in> set (data_of s). dataTaskId d \<noteq> tid" using I(6) A(3) by (auto simp: data_ok_def)
  have tm: "task_map s' = (task_map s)(tid \<mapsto> u)" by (simp add: s' A(4))
  have dok: "data_ok s'" using I(6) ids by (auto simp: data_ok_def dat tm)
  have inv': "api_inv s'" using tb(1) r1 nok dok by (simp add: api_inv_def sys_inv_def s')
  note I' = api_invD [OF inv']
  obtain h' where h': "g_MsgShmAddr s' = Some h'" using I'(9) by blast
  have id: "TASK_TAB_Name2Id nm s' = tid" using Name2Id_unique [OF I'(3,7), of tid u] tm un nm by simp
  have name: "TASK_TAB_Id2Name tid s' = Inr nm" using Id2Name_map [OF t h'] tm un strcut_short [OF len] by simp
  have hd: "TASK_TAB_GetHandle tid s' = handle u" using GetHandle_map [OF t, of s'] tm by simp
  have di: "distinct (map dataTaskId (data_of s))" "distinct (map dataTaskId (data_of s'))"
    using I(6) dok by (simp_all add: data_ok_def)
  have "(\<lambda>i. getTaskData i s') = (\<lambda>i. getTaskData i s)(tid \<mapsto> ?d)"
    by (rule map_eqI) (use ids in \<open>auto simp: getTaskData_iff [OF di(1)] getTaskData_iff [OF di(2)] dat\<close>)
  from fun_cong [OF this] have g: "getTaskData i s' = (if i = tid then Some ?d else getTaskData i s)" for i by simp
  have again: "fst (the (VTOP_MSG_Register m' mem' (Some nm) hnd' lg' True s')) \<in> {Inl VTOP_MSG_ERR_TASKEXIST, Inl VTOP_MSG_ERR_VERSION}"
    using len I'(8) id t by (auto simp: VTOP_MSG_Register_def VTOP_MSG_RegisterX_def TASK_TAB_IsTaskExist_def)
  show ?thesis
    using inv' A(3) tm id name hd g again I'(8) t A(6,7) tb(2)
    by (auto simp: VTOP_MSG_GetTaskId_def VTOP_MSG_GetTaskName_def s')
qed

lemma idle_api: "api_inv idle_sys" "g_TaskData idle_sys = None"
proof -
  show d: "g_TaskData idle_sys = None"
    by (simp add: idle_sys_eq MSG_RSPMNG_Init_def sys0_def)
  then show "api_inv idle_sys" using idle_sys_inv by (simp add: api_inv_def data_ok_def data_of_def names_ok_def)
qed

definition sample_reg :: REG_MALLOC where
  "sample_reg = \<lparr>reg_queue = sample_qmalloc, reg_head = True, reg_data = True\<rparr>"

lemma sample_register:
  "\<exists>s'. VTOP_MSG_Register sample_reg (\<lambda>_. sample_msg 0) (Some ''ui'') (Some 1) None True idle_sys = Some (Inr 0, s')"
proof -
  obtain h where h: "g_MsgShmAddr idle_sys = Some h" "counter_taskId h = 0" "version h = VTOP_MSG_VERSION"
    "scan (\<lambda>u. taskId u = VTOP_INVALID_TASK_ID) (taskTab h) = Some 0" using idle_shm by blast
  obtain qs where "MSG_QueueInit sample_qmalloc (\<lambda>_. sample_msg 0) (strcut VTOP_MSG_MAX_TASK_NAME_LEN ''ui'')
      MSG_DEFAULT_QUEUE_SIZE Map.empty = Some (Inr 0x100, qs)"
    unfolding MSG_DEFAULT_QUEUE_SIZE_def using QueueInit_sample by force
  then obtain s where add: "TASK_TAB_Add2 sample_qmalloc (\<lambda>_. sample_msg 0) ''ui'' TASK_OWNER_TASK idle_sys = Some (0, s)"
    and d: "g_TaskData s = None"
    using h idle_api(2) by (auto simp: TASK_TAB_Add2_def Let_def idle_sys_inv set_task_def)
  have nm: "(''ui'' :: string) \<noteq> []" "length ''ui'' < VTOP_MSG_MAX_TASK_NAME_LEN" by (simp_all add: VTOP_MSG_MAX_TASK_NAME_LEN_def)
  have "TASK_TAB_Name2Id ''ui'' idle_sys = VTOP_INVALID_TASK_ID"
    using api_invD(3) [OF idle_api(1)] h(1) nm by (cases rule: Name2Id_cases) (simp_all add: idle_sys_inv)
  moreover have "VTOP_MSG_IsVersionMatch idle_sys"
    using h by (simp add: VTOP_MSG_IsVersionMatch_def VTOP_MSG_GetProcVersion_def strncmp_eq_def)
  ultimately show ?thesis
    using add d nm api_invD(8) [OF idle_api(1)]
    by (simp add: VTOP_MSG_Register_def VTOP_MSG_RegisterX_def sample_reg_def TASK_TAB_IsTaskExist_def
        addTaskData_def VTOP_INVALID_TASK_ID_def)
qed

theorem Register_roundtrip_witness:
  "\<exists>s'. VTOP_MSG_Register sample_reg (\<lambda>_. sample_msg 0) (Some ''ui'') (Some 1) None True idle_sys = Some (Inr 0, s') \<and>
     api_inv s' \<and> VTOP_MSG_GetTaskId (Some ''ui'') s' = 0 \<and> VTOP_MSG_GetTaskName 0 True s' = Inr ''ui''"
proof -
  obtain s' where reg: "VTOP_MSG_Register sample_reg (\<lambda>_. sample_msg 0) (Some ''ui'') (Some 1) None True idle_sys = Some (Inr 0, s')"
    using sample_register by blast
  obtain h where h: "g_MsgShmAddr idle_sys = Some h" "counter_taskId h < VTOP_MAX_TASK_ID"
    using idle_shm by (auto simp: VTOP_MAX_TASK_ID_def)
  have ml: "malloc_ok (reg_queue sample_reg) (qstore idle_sys)" using sample_malloc_ok by (simp add: sample_reg_def idle_sys_inv)
  have nm: "''ui'' \<noteq> []" by simp
  from Register_roundtrip [OF idle_api(1) h ml nm reg] reg show ?thesis by blast
qed

text \<open>A system with one registered task, 0, that has the handler 1 and an empty queue.\<close>

lemma registered_sample:
  obtains s u q d where "api_inv s" and "task_map s = [0 \<mapsto> u]" and "handle u \<noteq> 0" and "qstore s = [handle u \<mapsto> q]"
    and "queue_abs q = []" and "getTaskData 0 s = Some d" and "pMsgHandler d = Some 1" and "subs s = {}" and "taken s = {}"
    and "queue_ok q" and "qshape q" and "\<And>p. \<not> outstanding q p" and "msgtype u = VTOP_INVALID_MSG_TYPE"
proof -
  obtain s u q where s: "sys_inv s" "task_map s = [0 \<mapsto> u]" "handle u \<noteq> 0" "qstore s = [handle u \<mapsto> q]" "queue_ok q" "qshape q"
    "queue_abs q = []" "\<And>p. \<not> outstanding q p" "subs s = {}" "msgtype u = VTOP_INVALID_MSG_TYPE" "taken s = {}"
    by (rule sample_running) blast
  let ?d = "\<lparr>dataTaskId = 0, pMsgHandler = Some 1, pTaskLog = None, Sndfd = -1, Rcvfd = -1\<rparr>"
  let ?s = "snd (addTaskData True True ?d (s\<lparr>g_TaskData := None\<rparr>))"
  have e: "?s = s\<lparr>g_TaskData := Some [?d]\<rparr>" by (simp add: addTaskData_def)
  have "api_inv ?s" unfolding e using s(1,2) by (simp add: api_inv_def data_ok_def data_of_def names_ok_def)
  moreover have "getTaskData 0 ?s = Some ?d" unfolding e by (simp add: getTaskData_def)
  moreover have "taken ?s = {}" unfolding e using s(11) by (simp add: taken_def slot_def)
  ultimately show thesis unfolding e using s by (intro that [of _ u q ?d]) auto
qed

section \<open>Removal\<close>

lemma reset_rcv_data:
  assumes "distinct (map dataTaskId (data_of s))" and "d \<in> set (data_of s)"
  shows "map dataTaskId (data_of (reset_rcv (dataTaskId d) s)) = map dataTaskId (data_of s)"
    and "set (data_of (reset_rcv (dataTaskId d) s)) = insert (d\<lparr>Rcvfd := -1\<rparr>) (set (data_of s) - {d})"
proof -
  obtain i where i: "scan (\<lambda>x. dataTaskId x = dataTaskId d) (data_of s) = Some i" "i < length (data_of s)" "data_of s ! i = d"
    using scan_distinct [OF assms] by blast
  have g: "g_TaskData s = Some (data_of s)" using assms(2) by (cases "g_TaskData s") (simp_all add: data_of_def)
  have l: "data_of (reset_rcv (dataTaskId d) s) = (data_of s)[i := d\<lparr>Rcvfd := -1\<rparr>]"
    unfolding reset_rcv_def g using i by (simp add: data_of_def)
  show "map dataTaskId (data_of (reset_rcv (dataTaskId d) s)) = map dataTaskId (data_of s)"
    unfolding l map_update using i(2,3) by (metis MSGTASK_DATA.select_convs(1) MSGTASK_DATA.surjective MSGTASK_DATA.update_convs(5) list_update_id nth_map)
  show "set (data_of (reset_rcv (dataTaskId d) s)) = insert (d\<lparr>Rcvfd := -1\<rparr>) (set (data_of s) - {d})"
    unfolding l using set_update_distinct [of "data_of s" i] assms(1) i(2,3) by (metis distinct_map)
qed

lemma reset_rcv_keeps [simp]:
  "task_map (reset_rcv tid s) = task_map s" "subs (reset_rcv tid s) = subs s" "tabs_inv (reset_rcv tid s) = tabs_inv s"
  "qstore (reset_rcv tid s) = qstore s" "s_MsgRspMng (reset_rcv tid s) = s_MsgRspMng s"
  "s_bFilterInited (reset_rcv tid s) = s_bFilterInited s" "g_MsgShmAddr (reset_rcv tid s) = g_MsgShmAddr s"
  by (simp_all add: reset_rcv_def)

lemma sub_frameD:
  assumes f: "sub_frame s' = sub_frame s"
  shows "qstore s' = qstore s" and "s_MsgRspMng s' = s_MsgRspMng s" and "s_bFilterInited s' = s_bFilterInited s"
    and "g_TaskData s' = g_TaskData s" and "task_map s' = task_map s"
proof -
  show "qstore s' = qstore s" using arg_cong [OF f, of qstore] by (simp add: sub_frame_def)
  show "s_MsgRspMng s' = s_MsgRspMng s" using arg_cong [OF f, of s_MsgRspMng] by (simp add: sub_frame_def)
  show "s_bFilterInited s' = s_bFilterInited s" using arg_cong [OF f, of s_bFilterInited] by (simp add: sub_frame_def)
  show "g_TaskData s' = g_TaskData s" using arg_cong [OF f, of g_TaskData] by (simp add: sub_frame_def)
  have "map_option (\<lambda>h. h\<lparr>subTab := []\<rparr>) (g_MsgShmAddr s') = map_option (\<lambda>h. h\<lparr>subTab := []\<rparr>) (g_MsgShmAddr s)"
    using arg_cong [OF f, of g_MsgShmAddr] by (simp add: sub_frame_def)
  from arg_cong [OF this, of "map_option taskTab"]
  have "map_option taskTab (g_MsgShmAddr s') = map_option taskTab (g_MsgShmAddr s)" by (simp add: option.map_comp comp_def)
  then show "task_map s' = task_map s"
    by (auto simp: task_map_def find_task_def fun_eq_iff split: option.splits)
qed

text \<open>What removing a task does, with the calls it makes.\<close>

lemma UnRegister_outcome:
  assumes inv: "api_inv s" and gd: "getTaskData tid s = Some d"
  shows "\<exists>s'. VTOP_MSG_UnRegister True tid s = Some (0, s') \<and> api_inv s' \<and> task_map s' = (task_map s)(tid := None) \<and>
    subs s' = {(t, i) \<in> subs s. i \<noteq> tid} \<and> getTaskData tid s' = None \<and> (\<forall>i. i \<noteq> tid \<longrightarrow> getTaskData i s' = getTaskData i s) \<and>
    (\<forall>a. a \<noteq> TASK_TAB_GetHandle tid s \<longrightarrow> qstore s' a = qstore s a) \<and>
    (TASK_TAB_GetHandle tid s \<noteq> 0 \<longrightarrow> qstore s' (TASK_TAB_GetHandle tid s) = None) \<and> s_MsgRspMng s' = s_MsgRspMng s"
proof -
  note I = api_invD [OF inv]
  have di: "distinct (map dataTaskId (data_of s))" using I(6) by (simp add: data_ok_def)
  have d: "d \<in> set (data_of s)" "dataTaskId d = tid" using gd getTaskData_iff [OF di] by auto
  obtain u where u: "task_map s tid = Some u" using I(6) d by (auto simp: data_ok_def)
  note tq = task_map_queue [OF I(3) u]
  obtain h where h: "g_MsgShmAddr s = Some h" using I(9) by blast
  let ?s0 = "reset_rcv tid s" and ?d = "d\<lparr>Rcvfd := -1\<rparr>"
  note rd = reset_rcv_data [OF di d(1), unfolded d(2)]
  have "tabs_inv ?s0" using I(2) by simp
  then have t0: "tabs_inv ?s0" "sub_inv ?s0" unfolding tabs_inv_def by blast+
  obtain ts where ts: "SUB_TAB_Task2Sub tid (maxSubNum h) ?s0 = Inr ts" "distinct ts" "set ts = {t. (t, tid) \<in> subs s}"
    using Task2Sub_all [OF t0(2), of h tid] h tq(2) u by auto
  have "\<forall>t \<in> set ts. (t, tid) \<in> subs ?s0" using ts(3) by simp
  from st.del_all [OF t0(1) ts(2) this] obtain s1 where s1: "until_err (\<lambda>t. SUB_TAB_Del t tid) ts ?s0 = (0, s1)"
    "tabs_inv s1" "subs s1 = subs s - set ts \<times> {tid}" "sub_frame s1 = sub_frame ?s0" by auto
  note f1 = sub_frameD [OF s1(4)]
  have u1: "task_inv s1" "task_map s1 tid = Some u" using s1(2) f1(5) u by (simp_all add: tabs_inv_def)
  obtain s2 where s2: "TASK_TAB_Del tid s1 = Some (0, s2)" "task_inv s2" "task_map s2 = (task_map s1)(tid := None)"
    "task_frame s2 = task_frame s1" "qstore s2 = (if handle u = 0 then qstore s1 else (qstore s1)(handle u := None))"
    by (rule Del_cases [OF u1])
  have sb: "subs s1 = {(t, i) \<in> subs s. i \<noteq> tid}" using s1(3) ts(3) by auto
  have "\<forall>(t, i) \<in> subs s. task_map s i \<noteq> None" using I(4) h by (auto simp: sub_inv_def subs_def)
  then have "\<forall>(t, i) \<in> subs s1. task_map s2 i \<noteq> None" unfolding sb s2(3) f1(5) by auto
  note tb = tabs_inv_frame [OF s1(2) s2(2,4) this]
  have g2: "g_TaskData s2 = g_TaskData ?s0" using task_frameD(4) [OF s2(4)] f1(4) by simp
  then have d2: "data_of s2 = data_of ?s0" by (simp add: data_of_def)
  have "distinct (map dataTaskId (data_of s2))" "?d \<in> set (data_of s2)" using rd di by (simp_all add: d2)
  from delTaskData_ok [OF this] obtain x where x: "delTaskData tid s2 = (0, s2\<lparr>g_TaskData := x\<rparr>)"
    "distinct (map dataTaskId (data_of (s2\<lparr>g_TaskData := x\<rparr>)))" "set (data_of (s2\<lparr>g_TaskData := x\<rparr>)) = set (data_of s2) - {?d}"
    using d(2) by auto
  let ?s = "s2\<lparr>g_TaskData := x\<rparr>"
  have others: "e \<in> set (data_of s) - {d} \<longleftrightarrow> e \<in> set (data_of s) \<and> dataTaskId e \<noteq> tid" for e
    using di d by (auto simp: distinct_map dest: inj_onD)
  have st: "set (data_of ?s) = {e \<in> set (data_of s). dataTaskId e \<noteq> tid}"
    unfolding x(3) d2 rd(2) using others d(2) by auto
  have tm: "task_map ?s = (task_map s)(tid := None)" using s2(3) f1(5) by simp
  have rsp: "s_MsgRspMng ?s = s_MsgRspMng s" "s_bFilterInited ?s = s_bFilterInited s"
    using task_frameD(1,2) [OF s2(4)] f1(2,3) by simp_all
  have run: "VTOP_MSG_UnRegister True tid s = Some (0, ?s)"
    using tq(2) I(8) IsTaskIdExist_map [OF tq(2), of s] u gd h ts(1) s1(1) s2(1) x(1)
    by (simp add: VTOP_MSG_UnRegister_def Let_def SUB_TAB_GetMaxSubNum_def)
  have "sys_inv ?s" using tb(1) rsp I(5) by (simp add: sys_inv_def rsp_ok_def)
  moreover have "data_ok ?s" using x(2) st tm I(6) by (auto simp: data_ok_def)
  moreover have "names_ok ?s" by (rule names_ok_del [OF I(7) tm])
  ultimately have api: "api_inv ?s" by (simp add: api_inv_def)
  have "(\<lambda>i. getTaskData i ?s) = (\<lambda>i. getTaskData i s)(tid := None)"
    by (rule map_eqI) (auto simp: getTaskData_iff [OF di] getTaskData_iff [OF x(2)] st)
  from fun_cong [OF this] have gi: "getTaskData i ?s = (if i = tid then None else getTaskData i s)" for i by simp
  have hd: "TASK_TAB_GetHandle tid s = handle u" using GetHandle_map [OF tq(2), of s] u by simp
  have "subs ?s = {(t, i) \<in> subs s. i \<noteq> tid}" using tb(2) sb by simp
  moreover have "qstore ?s = (if handle u = 0 then qstore s else (qstore s)(handle u := None))" using s2(5) f1(1) by simp
  ultimately show ?thesis using run api tm gi hd rsp(1) by auto
qed

text \<open>
  C7: Removing a registered task succeeds without ending the process. The task, its queue with all its messages,
  its data and all its subscriptions are gone; the other tasks, queues, data and subscriptions and the response slots
  are as before, and the interface's invariant holds.
\<close>

theorem UnRegister_removes:
  assumes inv: "api_inv s" and gd: "getTaskData tid s = Some d"
  shows "\<exists>s'. VTOP_MSG_UnRegister True tid s = Some (0, s') \<and> api_inv s' \<and> task_map s' = (task_map s)(tid := None) \<and>
    subs s' = {(t, i) \<in> subs s. i \<noteq> tid} \<and> getTaskData tid s' = None \<and> (\<forall>i. i \<noteq> tid \<longrightarrow> getTaskData i s' = getTaskData i s) \<and>
    (\<forall>a. a \<noteq> TASK_TAB_GetHandle tid s \<longrightarrow> qstore s' a = qstore s a) \<and>
    (TASK_TAB_GetHandle tid s \<noteq> 0 \<longrightarrow> qstore s' (TASK_TAB_GetHandle tid s) = None) \<and> s_MsgRspMng s' = s_MsgRspMng s"
  by (rule UnRegister_outcome [OF assms])

theorem UnRegister_removes_witness:
  "\<exists>s s'. api_inv s \<and> TASK_TAB_IsTaskIdExist 0 s \<and> VTOP_MSG_UnRegister True 0 s = Some (0, s') \<and> api_inv s' \<and> getTaskData 0 s' = None"
proof -
  obtain s u q d where s: "api_inv s" "task_map s = [0 \<mapsto> u]" "handle u \<noteq> 0" "qstore s = [handle u \<mapsto> q]" "queue_abs q = []"
    "getTaskData 0 s = Some d" by (rule registered_sample) blast
  have "TASK_TAB_IsTaskIdExist 0 s" using IsTaskIdExist_map [of 0 s] s(2) by (simp add: VTOP_INVALID_TASK_ID_def)
  with UnRegister_removes [OF s(1,6)] s(1) show ?thesis by blast
qed

section \<open>Receiving\<close>

lemma api_queue_upd:
  assumes "api_inv s" and "queue_ok q" and "qshape q"
  shows "api_inv (s\<lparr>qstore := (qstore s)(a \<mapsto> q)\<rparr>)"
  using api_invD [OF assms(1)] tabs_inv_queue [OF api_invD(2) [OF assms(1)] assms(2,3)]
  by (simp add: api_inv_def sys_inv_def rsp_ok_def data_ok_def data_of_def names_ok_def)

text \<open>What plain reception from a task's queue does.\<close>

lemma take_msg_plain:
  assumes inv: "api_inv s" and u: "task_map s tid = Some u" "handle u \<noteq> 0" "msgtype u = VTOP_INVALID_MSG_TYPE"
    and q: "qstore s (handle u) = Some q"
  obtains (empty) "take_msg tid (handle u) s = Some (Inl HI_FAILURE, s)" and "queue_abs q = []"
  | (got) p q' where "take_msg tid (handle u) s = Some (Inr p, s\<lparr>qstore := (qstore s)(handle u \<mapsto> q')\<rparr>)" and "queue_ok q'"
      and "qshape q'" and "queue_abs q = bodies q' p # queue_abs q'" and "\<not> outstanding q p"
      and "\<And>x. outstanding q' x \<longleftrightarrow> outstanding q x \<or> x = p"
proof -
  note I = api_invD [OF inv] and tq = task_map_queue [OF api_invD(3) [OF inv] u(1)]
  obtain h where h: "g_MsgShmAddr s = Some h" using I(9) by blast
  have qk: "queue_ok q" "qshape q" using tq(4) [OF u(2)] q by (auto simp: queue_at_ok_def)
  have mg: "TASK_TAB_GetMerge tid s = VTOP_INVALID_MSG_TYPE" using GetMerge_map [OF tq(2) h] u by simp
  obtain r q' where get: "queue_get q = (r, q')" by force
  show thesis
  proof (cases r)
    case None
    have "s\<lparr>qstore := qstore s\<rparr> = s" by simp
    then show thesis using None get mq.get_none [of q q'] u(2) q mg
      by (intro empty) (simp_all add: take_msg_def MSG_QueueGet_def)
  next
    case (Some p)
    note g = mq.get_some [OF qk(1), of p q'] queue_get_some(4) [OF qk(1), of p q']
    show thesis using Some get g u(2) q mg qshape_get [OF qk(2) get]
      by (intro got [of p q']) (auto simp: take_msg_def MSG_QueueGet_def)
  qed
qed

lemma QueueFree_outstanding:
  assumes "a \<noteq> 0" and "qs a = Some q" and "queue_ok q" and "outstanding q p"
  shows "\<exists>q'. MSG_QueueFree a (Some p) qs = Some (qs(a \<mapsto> q')) \<and> queue_release p q = Some q' \<and> queue_ok q' \<and> queue_abs q' = queue_abs q \<and>
    (\<forall>x. outstanding q' x \<longleftrightarrow> outstanding q x \<and> x \<noteq> p)"
  using queue_release_spec [OF assms(3,4)] assms(1,2) by (auto simp: MSG_QueueFree_def)

lemma AsynSend_accepted:
  assumes "VTOP_MSG_AsynSend junk (Some b) s = Some (HI_SUCCESS, b', s')"
  shows "\<exists>b1. b' = Some b1 \<and> MSG_SendAsyncMsg junk b VTOP_MSG_FLG_P2P s = Some (HI_SUCCESS, b1, s') \<and> \<not> body_mismatch b"
  using assms by (auto simp: VTOP_MSG_AsynSend_def CHECK_MSG_BODY_def HI_SUCCESS_def split: if_splits option.splits bind_splits)

text \<open>
  C3: A message sent to a task with an empty queue is the one the task receives: \<open>VTOP_MSG_Recv\<close> returns a block with the
  sender, type, id, length and body that were sent, \<open>VTOP_MSG_RecvFree\<close> on it succeeds, and then the queue is as empty and
  the blocks are as free as before. The interface's invariant holds throughout.
\<close>

theorem AsynSend_Recv:
  assumes inv: "api_inv s" and u: "task_map s (rcvTaskId b) = Some u" "handle u \<noteq> 0" "msgtype u = VTOP_INVALID_MSG_TYPE"
    and q: "qstore s (handle u) = Some q" "queue_abs q = []"
    and snd: "VTOP_MSG_AsynSend junk (Some b) s = Some (HI_SUCCESS, b', s1)"
  shows "\<exists>p s2 q2 s3 q3. VTOP_MSG_Recv (rcvTaskId b) s1 = Some (Inr p, s2) \<and> qstore s2 (handle u) = Some q2 \<and>
    map_option msgID b' = Some (msgID (msg (bodies q2 p))) \<and> sndTaskId (msg (bodies q2 p)) = sndTaskId b \<and>
    msgType (msg (bodies q2 p)) = msgType b \<and> ulMsgLen (msg (bodies q2 p)) = ulMsgLen b \<and>
    pMsgBody (msg (bodies q2 p)) = map_option (take (unat (ulMsgLen b))) (pMsgBody b) \<and>
    VTOP_MSG_RecvFree (Some (p, msg (bodies q2 p))) s2 = Some (HI_SUCCESS, s3) \<and> qstore s3 = (qstore s)(handle u \<mapsto> q3) \<and>
    queue_abs q3 = [] \<and> (\<forall>x. outstanding q3 x = outstanding q x) \<and> api_inv s1 \<and> api_inv s2 \<and> api_inv s3"
proof -
  note I = api_invD [OF inv] and tq = task_map_queue [OF api_invD(3) [OF inv] u(1)]
  have qk: "queue_ok q" "qshape q" using tq(4) [OF u(2)] q by (auto simp: queue_at_ok_def)
  obtain b1 where b1: "b' = Some b1" "MSG_SendAsyncMsg junk b VTOP_MSG_FLG_P2P s = Some (HI_SUCCESS, b1, s1)" "\<not> body_mismatch b"
    using AsynSend_accepted [OF snd] by blast
  have hd: "TASK_TAB_GetHandle (rcvTaskId b) s = handle u" using GetHandle_map [OF tq(2), of s] u(1) by simp
  obtain ret b'' s'' q1 mid where r: "send_async junk (handle u) b VTOP_MSG_FLG_P2P s = Some (ret, b'', s'')"
    "b'' = b\<lparr>msgID := mid\<rparr>" "tabs_inv s''" "task_map s'' = task_map s" "qstore s'' = (qstore s)(handle u \<mapsto> q1)"
    "queue_abs q1 = queue_abs q @ (if ret = HI_SUCCESS then [MSG_COPY2BUF (async_inner junk b'' VTOP_MSG_FLG_P2P)] else [])"
    "s_MsgRspMng s'' = s_MsgRspMng s" "g_TaskData s'' = g_TaskData s" "s_bFilterInited s'' = s_bFilterInited s"
    "\<forall>x. outstanding q1 x = outstanding q x"
    by (rule send_async_running [OF I(2) u(2) q(1) qk]) blast
  have e: "ret = HI_SUCCESS" "b'' = b1" "s'' = s1" using r(1) b1(2) hd by (simp_all add: MSG_SendAsyncMsg_def)
  have api1: "api_inv s1" using I r(3,4,7-9) unfolding e
    by (simp add: api_inv_def sys_inv_def rsp_ok_def data_ok_def data_of_def names_ok_def)
  have u1: "task_map s1 (rcvTaskId b) = Some u" and qs1: "qstore s1 (handle u) = Some q1" using u(1) r(4,5) by (simp_all add: e)
  let ?m = "MSG_COPY2BUF (async_inner junk b1 VTOP_MSG_FLG_P2P)"
  have a1: "queue_abs q1 = [?m]" using r(6) q(2) by (simp add: e)
  from api1 u1 u(2,3) qs1 show ?thesis
  proof (cases rule: take_msg_plain)
    case empty
    then show ?thesis using a1 by simp
  next
    case (got p q2)
    let ?s2 = "s1\<lparr>qstore := (qstore s1)(handle u \<mapsto> q2)\<rparr>"
    have bp: "bodies q2 p = ?m" "queue_abs q2 = []" using got(4) a1 by simp_all
    have hd1: "TASK_TAB_GetHandle (rcvTaskId b) x = handle u" if "task_map x = task_map s1" for x
      using GetHandle_map [OF tq(2), of x] that u1 by simp
    have rec: "VTOP_MSG_Recv (rcvTaskId b) s1 = Some (Inr p, ?s2)"
      using tq(2) api_invD(8) [OF api1] hd1 [of s1] u(2) got(1) by (simp add: VTOP_MSG_Recv_def Let_def)
    have api2: "api_inv ?s2" by (rule api_queue_upd [OF api1 got(2,3)])
    have q2: "qstore ?s2 (handle u) = Some q2" "outstanding q2 p" using got(6) by simp_all
    obtain q3 where q3: "MSG_QueueFree (handle u) (Some p) (qstore ?s2) = Some ((qstore ?s2)(handle u \<mapsto> q3))"
      "queue_release p q2 = Some q3" "queue_ok q3" "queue_abs q3 = queue_abs q2" "\<forall>x. outstanding q3 x \<longleftrightarrow> outstanding q2 x \<and> x \<noteq> p"
      using QueueFree_outstanding [where a = "handle u" and qs = "qstore ?s2", OF u(2) q2(1) got(2) q2(2)] by blast
    let ?s3 = "?s2\<lparr>qstore := (qstore ?s2)(handle u \<mapsto> q3)\<rparr>"
    have rcv: "rcvTaskId (msg (bodies q2 p)) = rcvTaskId b" using r(2) by (simp add: bp e)
    have fr: "VTOP_MSG_RecvFree (Some (p, msg (bodies q2 p))) ?s2 = Some (HI_SUCCESS, ?s3)"
      using tq(2) api_invD(8) [OF api2] hd1 [of ?s2] u(2) q3(1) rcv by (simp add: VTOP_MSG_RecvFree_def Let_def)
    have api3: "api_inv ?s3" by (rule api_queue_upd [OF api2 q3(3) qshape_release [OF got(3) q3(2)]])
    have out: "\<forall>x. outstanding q3 x = outstanding q x" using q3(5) got(5,6) r(10) by blast
    have body: "pMsgBody (msg (bodies q2 p)) = map_option (take (unat (ulMsgLen b))) (pMsgBody b)"
      using b1(3) r(2) by (cases "ulMsgLen b = 0") (auto simp: bp e MSG_COPY2BUF_def body_mismatch_def word_neq_0_conv)
    show ?thesis
      by (rule exI [of _ p], rule exI [of _ ?s2], rule exI [of _ q2], rule exI [of _ ?s3], rule exI [of _ q3])
         (use rec q2(1) bp b1(1) r(2,5) fr q3(4) out api1 api2 api3 body in \<open>simp add: e\<close>)
  qed
qed

text \<open>A send is accepted as long as the receiver's queue has a block for it.\<close>

lemma AsynSend_succeeds:
  assumes inv: "api_inv s" and u: "task_map s (rcvTaskId b) = Some u" "handle u \<noteq> 0" "qstore s (handle u) = Some q"
    and q: "length (queue_abs q) < 128" "\<forall>p. \<not> outstanding q p" and len: "ulMsgLen b \<le> 212" "\<not> body_mismatch b"
  shows "\<exists>b' s'. VTOP_MSG_AsynSend junk (Some b) s = Some (HI_SUCCESS, b', s')"
proof -
  note I = api_invD [OF inv] and tq = task_map_queue [OF api_invD(3) [OF inv] u(1)]
  have qk: "queue_ok q" "qshape q" using tq(4) [OF u(2)] u(3) by (auto simp: queue_at_ok_def)
  obtain c s1 where g: "getMsgID s = (Inr c, s1)" "qstore s1 = qstore s" by (rule getMsgID_running [OF I(2)])
  let ?m = "async_inner junk (b\<lparr>msgID := c\<rparr>) VTOP_MSG_FLG_P2P"
  have lm: "ulMsgLen (msg ?m) \<le> 212" "\<not> body_mismatch (msg ?m)" using len by (simp_all add: body_mismatch_def)
  obtain q' where "MSG_QueuePut (handle u) (Some ?m) (qstore s) = Some (HI_SUCCESS, (qstore s)(handle u \<mapsto> q'))"
    using queue_accepts [where h = "handle u" and qs = "qstore s", OF qk q u(2,3) lm] by blast
  moreover have "TASK_TAB_GetHandle (rcvTaskId b) s = handle u" "TASK_TAB_IsTaskIdExist (rcvTaskId b) s"
    using GetHandle_map [OF tq(2), of s] IsTaskIdExist_map [OF tq(2), of s] u(1) by simp_all
  moreover have "\<not> ulMsgLen b > VTOP_MSG_MAX_MSG_SIZE"
    unfolding not_less VTOP_MSG_MAX_MSG_SIZE_def by (rule order_trans [OF len(1)]) simp
  ultimately show ?thesis using g I(8) u(2) len(2)
    by (simp add: VTOP_MSG_AsynSend_def CHECK_MSG_BODY_def MSG_SendAsyncMsg_def send_async_def Let_def)
qed

theorem AsynSend_Recv_witness:
  "\<exists>s b' s1 p s2. VTOP_MSG_AsynSend (sample_msg 0) (Some sample_request) s = Some (HI_SUCCESS, b', s1) \<and>
     VTOP_MSG_Recv 0 s1 = Some (Inr p, s2) \<and> api_inv s2"
proof -
  obtain s u q d where s: "api_inv s" "task_map s = [0 \<mapsto> u]" "handle u \<noteq> 0" "qstore s = [handle u \<mapsto> q]" "queue_abs q = []"
    "msgtype u = VTOP_INVALID_MSG_TYPE" "\<And>p. \<not> outstanding q p" by (rule registered_sample) blast
  have a: "task_map s (rcvTaskId sample_request) = Some u" "qstore s (handle u) = Some q" "length (queue_abs q) < 128" "\<forall>p. \<not> outstanding q p"
    using s by (simp_all add: sample_request_ok)
  obtain b' s1 where snd: "VTOP_MSG_AsynSend (sample_msg 0) (Some sample_request) s = Some (HI_SUCCESS, b', s1)"
    using AsynSend_succeeds [OF s(1) a(1) s(3) a(2-4) sample_request_ok(1,2)] by blast
  from AsynSend_Recv [OF s(1) a(1) s(3,6) a(2) s(5) snd] snd show ?thesis unfolding sample_request_ok(3) by blast
qed

section \<open>Dispatching\<close>

text \<open>
  What \<open>VTOP_MSG_GetAndDispatch\<close> relies on of a handler: called with a message, it returns, leaves the task's queue in order
  and does not itself release blocks that were handed out.
\<close>

definition handler_ok :: "(nat \<Rightarrow> VTOP_MSG_S_Block \<Rightarrow> msg_sys \<Rightarrow> msg_sys run) \<Rightarrow> nat \<Rightarrow> u32 \<Rightarrow> bool" where
  "handler_ok run_handler k a \<longleftrightarrow> (\<forall>b x q. qstore x a = Some q \<longrightarrow> queue_ok q \<longrightarrow>
     (\<exists>x' q'. run_handler k b x = Some x' \<and> qstore x' a = Some q' \<and> queue_ok q' \<and> (\<forall>p. outstanding q p \<longrightarrow> outstanding q' p)))"

text \<open>
  C5: Dispatching to a task calls its handler exactly with the oldest message, after that message has left the queue, and
  releases exactly the message's block afterwards, whatever the handler did to the system; with an empty queue nothing
  happens and the timeout code is returned.
\<close>

theorem GetAndDispatch_handles:
  assumes inv: "api_inv s" and u: "task_map s tid = Some u" "handle u \<noteq> 0" "msgtype u = VTOP_INVALID_MSG_TYPE"
    and q: "qstore s (handle u) = Some q" and d: "getTaskData tid s = Some d" "pMsgHandler d = Some k"
    and hk: "handler_ok run_handler k (handle u)"
  shows "(case queue_abs q of
      [] \<Rightarrow> VTOP_MSG_GetAndDispatch run_handler tid s = Some (VTOP_MSG_ERR_TIMEOUT, s)
    | m # ms \<Rightarrow> (\<exists>q1 s2 q2 q3 p. queue_abs q1 = ms \<and>
        run_handler k (msg m) (s\<lparr>qstore := (qstore s)(handle u \<mapsto> q1)\<rparr>) = Some s2 \<and> qstore s2 (handle u) = Some q2 \<and>
        VTOP_MSG_GetAndDispatch run_handler tid s = Some (HI_SUCCESS, s2\<lparr>qstore := (qstore s2)(handle u \<mapsto> q3)\<rparr>) \<and>
        queue_abs q3 = queue_abs q2 \<and> (\<forall>x. outstanding q1 x \<longleftrightarrow> outstanding q x \<or> x = p) \<and>
        (\<forall>x. outstanding q3 x \<longleftrightarrow> outstanding q2 x \<and> x \<noteq> p)))"
proof -
  note I = api_invD [OF inv] and tq = task_map_queue [OF api_invD(3) [OF inv] u(1)]
  have hd: "TASK_TAB_GetHandle tid s = handle u" using GetHandle_map [OF tq(2), of s] u(1) by simp
  from inv u q show ?thesis
  proof (cases rule: take_msg_plain)
    case empty
    then show ?thesis using tq(2) I(8) d hd u(2) by (simp add: VTOP_MSG_GetAndDispatch_def Let_def)
  next
    case (got p q1)
    let ?s1 = "s\<lparr>qstore := (qstore s)(handle u \<mapsto> q1)\<rparr>"
    have q1: "qstore ?s1 (handle u) = Some q1" "outstanding q1 p" using got(6) by simp_all
    obtain s2 q2 where s2: "run_handler k (msg (bodies q1 p)) ?s1 = Some s2" "qstore s2 (handle u) = Some q2" "queue_ok q2" "outstanding q2 p"
      using hk q1 got(2) unfolding handler_ok_def by blast
    obtain q3 where q3: "MSG_QueueFree (handle u) (Some p) (qstore s2) = Some ((qstore s2)(handle u \<mapsto> q3))"
      "queue_abs q3 = queue_abs q2" "\<forall>x. outstanding q3 x \<longleftrightarrow> outstanding q2 x \<and> x \<noteq> p"
      using QueueFree_outstanding [where a = "handle u" and qs = "qstore s2", OF u(2) s2(2-4)] by blast
    have "VTOP_MSG_GetAndDispatch run_handler tid s = Some (HI_SUCCESS, s2\<lparr>qstore := (qstore s2)(handle u \<mapsto> q3)\<rparr>)"
      using tq(2) I(8) d hd u(2) got(1) s2(1) q3(1) by (simp add: VTOP_MSG_GetAndDispatch_def Let_def)
    then show ?thesis unfolding got(4) list.case using s2 q3 got(6) by blast
  qed
qed

theorem GetAndDispatch_handles_witness:
  "\<exists>s. api_inv s \<and> VTOP_MSG_GetAndDispatch (\<lambda>_ _ x. Some x) 0 s = Some (VTOP_MSG_ERR_TIMEOUT, s)"
proof -
  obtain s u q d where s: "api_inv s" "task_map s = [0 \<mapsto> u]" "handle u \<noteq> 0" "qstore s = [handle u \<mapsto> q]" "queue_abs q = []"
    "getTaskData 0 s = Some d" "pMsgHandler d = Some 1" "msgtype u = VTOP_INVALID_MSG_TYPE" by (rule registered_sample) blast
  have a: "task_map s 0 = Some u" "qstore s (handle u) = Some q" using s by simp_all
  have hk: "handler_ok (\<lambda>_ _ x. Some x) 1 (handle u)" by (auto simp: handler_ok_def)
  from GetAndDispatch_handles [OF s(1) a(1) s(3,8) a(2) s(6,7) hk] s(1,5) show ?thesis by auto
qed

section \<open>Before the start\<close>

text \<open>
  Without a running message system no call changes anything: with valid arguments each returns the code for a missing
  message process, or an invalid task id.
\<close>

theorem api_not_started:
  assumes "\<not> SHM_Exist s" and "length nm < VTOP_MSG_MAX_TASK_NAME_LEN" and "tid \<noteq> VTOP_INVALID_TASK_ID" and "t \<noteq> VTOP_INVALID_MSG_TYPE"
    and "\<not> body_mismatch b" and "ulMsgLen b \<le> VTOP_MSG_MAX_MSG_SIZE"
  shows "VTOP_MSG_Register m mem (Some nm) hnd lg True s = Some (Inl VTOP_MSG_ERR_PROCNOTEXIST, s) \<and>
    VTOP_MSG_UnRegister mal tid s = Some (VTOP_MSG_ERR_PROCNOTEXIST, s) \<and>
    VTOP_MSG_GetTaskId (Some nm) s = VTOP_INVALID_TASK_ID \<and> VTOP_MSG_Recv tid s = Some (Inl VTOP_MSG_ERR_PROCNOTEXIST, s) \<and>
    VTOP_MSG_GetAndDispatch run_handler tid s = Some (VTOP_MSG_ERR_PROCNOTEXIST, s) \<and>
    VTOP_MSG_AsynSend junk (Some b) s = Some (VTOP_MSG_ERR_PROCNOTEXIST, Some b, s) \<and>
    VTOP_MSG_SynSend junk (Some b) True mal timeout st rounds s = Some (Failed VTOP_MSG_ERR_PROCNOTEXIST, Some b, s) \<and>
    VTOP_MSG_Publish junk (Some b) s = Some (VTOP_MSG_ERR_PROCNOTEXIST, Some b, s) \<and>
    VTOP_MSG_Subscribe tid t s = (VTOP_MSG_ERR_PROCNOTEXIST, s) \<and> VTOP_MSG_UnSubscribe tid t s = (VTOP_MSG_ERR_PROCNOTEXIST, s) \<and>
    VTOP_MSG_SetMerge tid t s = (VTOP_MSG_ERR_PROCNOTEXIST, s)"
proof -
  have c: "CHECK_MSG_BODY b VTOP_MSG_MAX_MSG_SIZE = None" using assms(5,6) by (simp add: CHECK_MSG_BODY_def not_less)
  show ?thesis using assms(1-4) c
    by (simp add: VTOP_MSG_Register_def VTOP_MSG_RegisterX_def VTOP_MSG_UnRegister_def VTOP_MSG_GetTaskId_def VTOP_MSG_Recv_def
        VTOP_MSG_GetAndDispatch_def VTOP_MSG_AsynSend_def VTOP_MSG_SynSend_def VTOP_MSG_Publish_def VTOP_MSG_Subscribe_def
        VTOP_MSG_UnSubscribe_def VTOP_MSG_SetMerge_def not_le)
qed

theorem api_not_started_witness: "VTOP_MSG_AsynSend (sample_msg 0) (Some sample_request) sys0 = Some (VTOP_MSG_ERR_PROCNOTEXIST, Some sample_request, sys0)"
proof -
  have a: "\<not> SHM_Exist sys0" "length ''ui'' < VTOP_MSG_MAX_TASK_NAME_LEN" "(0 :: u32) \<noteq> VTOP_INVALID_TASK_ID" "(0 :: u32) \<noteq> VTOP_INVALID_MSG_TYPE"
    by (simp_all add: SHM_Exist_def sys0_def VTOP_MSG_MAX_TASK_NAME_LEN_def VTOP_INVALID_TASK_ID_def VTOP_INVALID_MSG_TYPE_def)
  have l: "ulMsgLen sample_request \<le> VTOP_MSG_MAX_MSG_SIZE" by (simp add: sample_request_def sample_block_def VTOP_MSG_MAX_MSG_SIZE_def)
  from api_not_started [OF a sample_request_ok(2) l] show ?thesis by blast
qed

end
