(* ===== verification/Msg_Proc.thy ===== *)
theory Msg_Proc
  imports Msg_Task
begin

text \<open>
  The message server, \<open>common/msg_proc.c\<close>: its start with the clean-up after a failure, the thread that takes
  published messages from the server's queue, and their distribution to the subscribers.
\<close>

section \<open>Distribution\<close>

definition MSG_GetSvrHandle :: "msg_sys \<Rightarrow> u32" where
  "MSG_GetSvrHandle s = s_msgSvrQueueHandle s"

text \<open>\<open>pMsg->msg.rcvTaskId = i\<close> for the message at \<open>p\<close>, which is in the server queue's memory.\<close>

definition set_rcv :: "u32 \<Rightarrow> u32 \<Rightarrow> MSG_QUEUE_S \<Rightarrow> MSG_QUEUE_S" where
  "set_rcv p i q = q\<lparr>bodies := (bodies q)(p := (bodies q p)\<lparr>msg := (msg (bodies q p))\<lparr>rcvTaskId := i\<rparr>\<rparr>)\<rparr>"

text \<open>
  The server's thread holds no lock over a round; each function that it calls takes and gives back its own. Other threads can run between them, which
  is what the functions of this record stand for: after the message was taken, after the subscribers were found, before and after the handle of a
  subscriber is looked up, before the message is given back, and after the round.
\<close>

record switches =
  at_get :: "msg_sys \<Rightarrow> msg_sys"
  at_sub :: "msg_sys \<Rightarrow> msg_sys"
  at_handle :: "u32 \<Rightarrow> msg_sys \<Rightarrow> msg_sys"
  at_put :: "u32 \<Rightarrow> msg_sys \<Rightarrow> msg_sys"
  at_free :: "msg_sys \<Rightarrow> msg_sys"
  at_end :: "msg_sys \<Rightarrow> msg_sys"

definition undisturbed :: switches where
  "undisturbed = \<lparr>at_get = id, at_sub = id, at_handle = (\<lambda>_. id), at_put = (\<lambda>_. id), at_free = id, at_end = id\<rparr>"

lemma undisturbed_simps [simp]:
  "at_get undisturbed s = s" "at_sub undisturbed s = s" "at_handle undisturbed i s = s" "at_put undisturbed i s = s"
  "at_free undisturbed s = s" "at_end undisturbed s = s"
  by (simp_all add: undisturbed_def)

text \<open>The body of the loop over the subscribers: \<open>a\<close> is the server queue, \<open>p\<close> the message, \<open>i\<close> the subscriber.\<close>

definition sp_put :: "switches \<Rightarrow> u32 \<Rightarrow> u32 \<Rightarrow> u32 \<Rightarrow> msg_sys \<Rightarrow> msg_sys run" where
  "sp_put w a p i s = do {
     q \<leftarrow> qstore s a;
     let s1 = at_handle w i (s\<lparr>qstore := (qstore s)(a \<mapsto> set_rcv p i q)\<rparr>);
     let h = TASK_TAB_GetHandle i s1;
     if h = 0 then Some s1
     else do {
       let s2 = at_put w i s1;
       q2 \<leftarrow> qstore s2 a;
       (ret, qs) \<leftarrow> MSG_QueuePut h (Some (bodies q2 p)) (qstore s2);
       Some (s2\<lparr>qstore := qs\<rparr>)
     }
   }"

text \<open>\<open>dispatch_SP\<close>: the room for the subscribers is passed to \<open>SUB_TAB_Sub2Task\<close> as 0.\<close>

definition dispatch_SP :: "switches \<Rightarrow> u32 \<Rightarrow> u32 \<Rightarrow> msg_sys \<Rightarrow> msg_sys run" where
  "dispatch_SP w a p s = do {
     q \<leftarrow> qstore s a;
     case SUB_TAB_Sub2Task (msgType (msg (bodies q p))) 0 s of
       Inl _ \<Rightarrow> Some s
     | Inr taskList \<Rightarrow> iter (sp_put w a p) taskList (at_sub w s)
   }"

text \<open>One round of the server's loop, and the thread for a sequence of rounds.\<close>

definition rcv_dispatch :: "switches \<Rightarrow> msg_sys \<Rightarrow> msg_sys run" where
  "rcv_dispatch w s = do {
     (r, qs) \<leftarrow> MSG_QueueGet (s_msgSvrQueueHandle s) True (qstore s);
     case r of Inl _ \<Rightarrow> Some (s\<lparr>qstore := qs\<rparr>)
     | Inr p \<Rightarrow> do {
         let s1 = at_get w (s\<lparr>qstore := qs\<rparr>);
         let a = s_msgSvrQueueHandle s;
         q \<leftarrow> qstore s1 a;
         let flags = ulFlag (msg (bodies q p));
         if \<not> (VTOP_MSG_isASyncMsg flags \<and> VTOP_MSG_isSPMsg flags) then None
         else do {
           s2 \<leftarrow> dispatch_SP w a p s1;
           let s3 = at_free w s2;
           qs3 \<leftarrow> MSG_QueueFree (s_msgSvrQueueHandle s3) (Some p) (qstore s3);
           Some (s3\<lparr>qstore := qs3\<rparr>)
         }
       }
   }"

fun rcv_loop :: "switches list \<Rightarrow> msg_sys \<Rightarrow> msg_sys run" where
  "rcv_loop [] s = Some s"
| "rcv_loop (w # ws) s =
     (if s_bStopMsgProc s then Some s else Option.bind (rcv_dispatch w s) (\<lambda>s'. rcv_loop ws (at_end w s')))"

definition MSG_PROC_RcvAndDispatch :: "bool \<Rightarrow> switches list \<Rightarrow> msg_sys \<Rightarrow> msg_sys run" where
  "MSG_PROC_RcvAndDispatch mal ws s =
     (if g_MsgShmAddr s = None then Some s else if \<not> mal then Some s else rcv_loop ws s)"

section \<open>Start\<close>

text \<open>The clean-up labels, from the last to the first. \<open>base\<close> is the address of the subscription table.\<close>

definition deinit_TASK_TAB :: "msg_sys \<Rightarrow> msg_sys run" where
  "deinit_TASK_TAB s = do { (r, s1) \<leftarrow> TASK_TAB_DeInit s; Some (snd (SHM_DeInit s1)) }"

definition deinit_SUB_TAB :: "u32 \<Rightarrow> msg_sys \<Rightarrow> msg_sys run" where
  "deinit_SUB_TAB base s = do { (r, s1) \<leftarrow> SUB_TAB_DeInit_sys base s; deinit_TASK_TAB s1 }"

definition deinit_RSPMNG :: "u32 \<Rightarrow> msg_sys \<Rightarrow> msg_sys run" where
  "deinit_RSPMNG base s = deinit_SUB_TAB base (MSG_RSPMNG_Deinit s)"

text \<open>
  \<open>VTOP_MSG_Main\<close>. \<open>mshm\<close> is the outcome of \<open>malloc\<close> in \<open>SHM_Init\<close>, \<open>mq\<close> that of the server queue, \<open>thr\<close> what
  \<open>HI_PthreadCreate\<close> returns. A \<open>NULL\<close> configuration is replaced by one of zeros.
\<close>

definition VTOP_MSG_Main ::
  "bool \<Rightarrow> QUEUE_MALLOC \<Rightarrow> (u32 \<Rightarrow> VTOP_MSG_S_InnerBlock) \<Rightarrow> s32 \<Rightarrow> u32 \<Rightarrow> VTOP_MSG_S_Config option \<Rightarrow>
   msg_sys \<Rightarrow> (s32 \<times> msg_sys) run" where
  "VTOP_MSG_Main mshm mq mem thr base cfg s =
     (if SHM_Exist s then Some (HI_SUCCESS, s)
      else do {
        (r, s1) \<leftarrow> SHM_Init mshm (Some (case cfg of None \<Rightarrow> default_config | Some c \<Rightarrow> c)) s;
        if r < 0 then Some (r, snd (SHM_DeInit s1))
        else do {
          (r2, s2) \<leftarrow> TASK_TAB_Init s1;
          if r2 < 0 then map_option (Pair r2) (deinit_TASK_TAB s2)
          else do {
            (r3, s3) \<leftarrow> SUB_TAB_Init s2;
            if r3 < 0 then map_option (Pair r3) (deinit_SUB_TAB base s3)
            else case MSG_RSPMNG_Init s3 of (r4, s4) \<Rightarrow>
              if r4 < 0 then map_option (Pair r4) (deinit_RSPMNG base s4)
              else if g_MsgShmAddr s4 = None then map_option (Pair r4) (deinit_SUB_TAB base s4)
              else do {
                (r5, qs) \<leftarrow> MSG_QueueInit mq mem ''MSGSVR'' (32 * 1024) (qstore s4);
                let s5 = s4\<lparr>qstore := qs\<rparr>;
                case r5 of
                  Inl e \<Rightarrow> map_option (Pair e) (deinit_RSPMNG base s5)
                | Inr h \<Rightarrow>
                  (let s6 = s5\<lparr>s_msgSvrQueueHandle := h, s_bStopMsgProc := False\<rparr> in
                   if thr < 0 then map_option (Pair thr) (deinit_RSPMNG base s6) else Some (HI_SUCCESS, s6))
              }
          }
        }
      })"

definition VTOP_MSG_Destroy :: "bool \<Rightarrow> msg_sys \<Rightarrow> s32 \<times> msg_sys" where
  "VTOP_MSG_Destroy bExitByForce s = (0, s)"

section \<open>The running server\<close>

text \<open>Everything in the server's queue was published.\<close>

definition sp_flags :: "VTOP_MSG_S_InnerBlock \<Rightarrow> bool" where
  "sp_flags m \<longleftrightarrow> VTOP_MSG_isASyncMsg (ulFlag (msg m)) \<and> VTOP_MSG_isSPMsg (ulFlag (msg m))"

definition svr_inv :: "msg_sys \<Rightarrow> bool" where
  "svr_inv s \<longleftrightarrow> s_msgSvrQueueHandle s \<noteq> 0 \<and>
     (\<exists>q. qstore s (s_msgSvrQueueHandle s) = Some q \<and> (\<forall>m \<in> set (queue_abs q). sp_flags m))"

text \<open>The message that a subscriber gets, and its delivery: it is put at the end of the queue, or the queue has no room for it.\<close>

definition addressed :: "u32 \<Rightarrow> VTOP_MSG_S_InnerBlock \<Rightarrow> VTOP_MSG_S_InnerBlock" where
  "addressed i m = m\<lparr>msg := (msg m)\<lparr>rcvTaskId := i\<rparr>\<rparr>"

definition queue_room :: "MSG_QUEUE_S \<Rightarrow> VTOP_MSG_S_InnerBlock \<Rightarrow> bool" where
  "queue_room v m \<longleftrightarrow> length (queue_abs v) < 128 \<and> (\<forall>p. \<not> outstanding v p) \<and> ulMsgLen (msg m) \<le> 212 \<and> \<not> body_mismatch (msg m)"

definition delivered_to :: "VTOP_MSG_S_InnerBlock \<Rightarrow> MSG_QUEUE_S \<Rightarrow> MSG_QUEUE_S \<Rightarrow> bool" where
  "delivered_to m v v' \<longleftrightarrow> queue_abs v' = queue_abs v @ [MSG_COPY2BUF m] \<or> queue_abs v' = queue_abs v \<and> \<not> queue_room v m"

text \<open>The task in the first slot of the first unit for a message type.\<close>

definition first_subscriber :: "u32 \<Rightarrow> msg_sys \<Rightarrow> u32 option" where
  "first_subscriber t s =
     (case g_MsgShmAddr s of None \<Rightarrow> None
      | Some h \<Rightarrow> (case filter (\<lambda>u. subType u = t) (subTab h) of [] \<Rightarrow> None
         | u # _ \<Rightarrow> (case taskIdList u of [] \<Rightarrow> None | i # _ \<Rightarrow> if i = VTOP_INVALID_TASK_ID then None else Some i)))"

lemma svr_queue:
  assumes "api_inv s" and "svr_inv s"
  obtains q where "qstore s (s_msgSvrQueueHandle s) = Some q" and "queue_ok q" and "qshape q"
    and "\<forall>m \<in> set (queue_abs q). sp_flags m" and "s_msgSvrQueueHandle s \<noteq> 0"
  using api_invD(3) [OF assms(1)] assms(2) by (auto simp: task_inv_def svr_inv_def queue_at_ok_def)

lemma set_rcv_keeps [simp]:
  "queue_ok (set_rcv p i q) = queue_ok q" "qshape (set_rcv p i q) = qshape q"
  "outstanding (set_rcv p i q) x = outstanding q x" "qptrs (set_rcv p i q) = qptrs q"
  by (simp_all add: set_rcv_def queue_ok_def queue_wf_def qshape_def outstanding_def qptrs_def)

lemma set_rcv_abs: "p \<notin> set (qptrs q) \<Longrightarrow> queue_abs (set_rcv p i q) = queue_abs q"
  by (auto simp: queue_abs_def set_rcv_def qptrs_def)

text \<open>With room 0, only the first slot of a subscription unit is reported.\<close>

lemma collect_upto_0: "collect_upto 0 P 0 xs = (case xs of [] \<Rightarrow> [] | x # _ \<Rightarrow> if P x then [x] else [])"
  by (cases xs) (simp_all add: Let_def)

lemma Sub2Task_registered:
  assumes inv: "tabs_inv s" and r: "SUB_TAB_Sub2Task t pNum s = Inr ids" and i: "i \<in> set ids"
  shows "(t, i) \<in> subs s \<and> (\<exists>u. task_map s i = Some u)"
proof -
  obtain h where h: "g_MsgShmAddr s = Some h" and si: "sub_inv s" using inv by (auto simp: tabs_inv_def)
  note D = sub_invD [OF si h]
  obtain k where k: "scan (\<lambda>u. subType u = t) (subTab h) = Some k"
    and ids: "ids = collect_upto (unat pNum) (\<lambda>i. i \<noteq> VTOP_INVALID_TASK_ID) 0 (taskIdList (subTab h ! k))"
    using r h by (auto simp: SUB_TAB_Sub2Task_def SUB_TAB_IsExist_def split: option.splits)
  have kk: "k < length (subTab h)" "subType (subTab h ! k) = t" using scan_SomeD(1,2) [OF k] by auto
  have iv: "i \<in> set (valid_ids (taskIdList (subTab h ! k)))"
    using i collect_upto_prefix unfolding ids set_valid_ids by fastforce
  then have t: "t \<noteq> VTOP_INVALID_MSG_TYPE" using D(4) [OF kk(1)] kk(2) by (auto simp: sub_ok_def)
  have "(t, i) \<in> subs s" using iv kk t by (auto simp: subs_def h in_tab_subs unit_subs_def)
  then show ?thesis using si h by (auto simp: sub_inv_def subs_def)
qed

lemma sp_put_ok:
  assumes inv: "api_inv s" and a: "a = s_msgSvrQueueHandle s" "a \<noteq> 0"
    and q: "qstore s a = Some q" "queue_ok q" "qshape q" "outstanding q p" and u: "task_map s i = Some u"
  obtains s' q' ret m where "sp_put undisturbed a p i s = Some s'" and "api_inv s'" and "task_map s' = task_map s" and "subs s' = subs s"
    and "s_msgSvrQueueHandle s' = a" and "qstore s' a = Some q'" and "queue_ok q'" and "qshape q'" and "queue_abs q' = queue_abs q"
    and "\<forall>x. outstanding q' x = outstanding q x"
    and "\<And>x. x \<noteq> a \<Longrightarrow> x \<noteq> handle u \<Longrightarrow> qstore s' x = qstore s x" and "handle u = 0 \<Longrightarrow> qstore s' 0 = qstore s 0"
    and "m = (bodies q p)\<lparr>msg := (msg (bodies q p))\<lparr>rcvTaskId := i\<rparr>\<rparr>"
    and "handle u \<noteq> 0 \<longrightarrow> (\<exists>v v'. qstore s (handle u) = Some v \<and> qstore s' (handle u) = Some v' \<and>
      queue_abs v' = queue_abs v @ (if ret = HI_SUCCESS then [MSG_COPY2BUF m] else []) \<and> (queue_room v m \<longrightarrow> ret = HI_SUCCESS))"
proof -
  note tq = task_map_queue [OF api_invD(3) [OF inv] u]
  let ?q = "set_rcv p i q"
  let ?s1 = "s\<lparr>qstore := (qstore s)(a \<mapsto> ?q)\<rparr>"
  have np: "p \<notin> set (qptrs q)" using q(4) by (simp add: outstanding_def)
  have api1: "api_inv ?s1" by (rule api_queue_upd [OF inv]) (simp_all add: q)
  have hd: "TASK_TAB_GetHandle i ?s1 = handle u" using GetHandle_map [OF tq(2), of ?s1] u by simp
  have m: "bodies ?q p = (bodies q p)\<lparr>msg := (msg (bodies q p))\<lparr>rcvTaskId := i\<rparr>\<rparr>" by (simp add: set_rcv_def)
  show thesis
  proof (cases "handle u = 0")
    case True
    then have "sp_put undisturbed a p i s = Some ?s1" using q(1) hd by (simp add: sp_put_def Let_def)
    then show thesis
      by (rule that [of _ ?q]) (use api1 a q set_rcv_abs [OF np] True in auto)
  next
    case False
    note qu = tq(4) [OF False]
    obtain v where v: "qstore ?s1 (handle u) = Some v" "queue_ok v" "qshape v" "qstore s (handle u) = Some v"
      using qu a(1) by (auto simp: queue_at_ok_def)
    obtain ret v' where p: "MSG_QueuePut (handle u) (Some (bodies ?q p)) (qstore ?s1) = Some (ret, (qstore ?s1)(handle u \<mapsto> v'))"
      "queue_ok v'" "qshape v'" "queue_abs v' = queue_abs v @ (if ret = HI_SUCCESS then [MSG_COPY2BUF (bodies ?q p)] else [])"
      by (rule QueuePut_cases [where h = "handle u" and qs = "qstore ?s1", OF False v(1-3)])
    have full: "queue_room v (bodies ?q p) \<longrightarrow> ret = HI_SUCCESS"
      using queue_accepts [where h = "handle u" and qs = "qstore ?s1" and m = "bodies ?q p", OF v(2,3) _ _ False v(1)] p(1)
      unfolding queue_room_def by fastforce
    let ?s2 = "?s1\<lparr>qstore := (qstore ?s1)(handle u \<mapsto> v')\<rparr>"
    have run: "sp_put undisturbed a p i s = Some ?s2" using q(1) hd False p(1) by (simp add: sp_put_def Let_def)
    have api2: "api_inv ?s2" by (rule api_queue_upd [OF api1 p(2,3)])
    have ne: "handle u \<noteq> a" using qu a(1) by simp
    show thesis
      by (rule that [OF run api2, where q' = ?q and ret = ret])
         (use a q ne v(4) p(4) m False full set_rcv_abs [OF np] in auto)
  qed
qed

lemma Publish_accepted:
  assumes "VTOP_MSG_Publish junk (Some b) s = Some (HI_SUCCESS, b', s')"
  shows "\<exists>b1. b' = Some b1 \<and> send_async junk (s_msgSvrQueueHandle s) b VTOP_MSG_FLG_SP s = Some (HI_SUCCESS, b1, s') \<and>
    SUB_TAB_IsExist (msgType b) s \<noteq> None"
  using assms by (auto simp: VTOP_MSG_Publish_def MSG_PublishMsg_def HI_SUCCESS_def split: if_splits option.splits bind_splits)

text \<open>The state after a successful publication through an empty server queue.\<close>

lemma Publish_state:
  assumes inv: "api_inv s" "svr_inv s" and q: "qstore s (s_msgSvrQueueHandle s) = Some q" "queue_abs q = []"
    and pub: "VTOP_MSG_Publish junk (Some b) s = Some (HI_SUCCESS, b', s1)"
  obtains b1 q1 where "api_inv s1" and "svr_inv s1" and "task_map s1 = task_map s" and "subs s1 = subs s"
    and "s_msgSvrQueueHandle s1 = s_msgSvrQueueHandle s" and "qstore s1 = (qstore s)(s_msgSvrQueueHandle s \<mapsto> q1)"
    and "queue_abs q1 = [MSG_COPY2BUF (async_inner junk b1 VTOP_MSG_FLG_SP)]" and "b' = Some b1" and "\<exists>mid. b1 = b\<lparr>msgID := mid\<rparr>"
proof -
  note I = api_invD [OF inv(1)]
  obtain qk: "queue_ok q" "qshape q" and a: "s_msgSvrQueueHandle s \<noteq> 0" by (rule svr_queue [OF inv]) (use q in auto)
  obtain b1 where b1: "b' = Some b1" "send_async junk (s_msgSvrQueueHandle s) b VTOP_MSG_FLG_SP s = Some (HI_SUCCESS, b1, s1)"
    using Publish_accepted [OF pub] by blast
  obtain ret b'' s'' q1 mid where r: "send_async junk (s_msgSvrQueueHandle s) b VTOP_MSG_FLG_SP s = Some (ret, b'', s'')"
    "b'' = b\<lparr>msgID := mid\<rparr>" "tabs_inv s''" "task_map s'' = task_map s" "subs s'' = subs s"
    "qstore s'' = (qstore s)(s_msgSvrQueueHandle s \<mapsto> q1)"
    "queue_abs q1 = queue_abs q @ (if ret = HI_SUCCESS then [MSG_COPY2BUF (async_inner junk b'' VTOP_MSG_FLG_SP)] else [])"
    "s_MsgRspMng s'' = s_MsgRspMng s" "s_msgSvrQueueHandle s'' = s_msgSvrQueueHandle s" "g_TaskData s'' = g_TaskData s"
    "s_bFilterInited s'' = s_bFilterInited s"
    by (rule send_async_running [OF I(2) a q(1) qk]) blast
  have e: "ret = HI_SUCCESS" "b'' = b1" "s'' = s1" using r(1) b1(2) by simp_all
  have api: "api_inv s1" using I r(3,4,8-11) unfolding e
    by (simp add: api_inv_def sys_inv_def rsp_ok_def data_ok_def data_of_def names_ok_def)
  have fl: "sp_flags (MSG_COPY2BUF (async_inner junk b1 VTOP_MSG_FLG_SP))" by (simp add: sp_flags_def flag_defs)
  have "svr_inv s1" using r(6,7,9) a q(2) fl by (simp add: svr_inv_def e)
  then show thesis using api r(2-10) b1(1) q(2) by (intro that [of q1 b1]) (auto simp: e)
qed

lemma Sub2Task_qstore [simp]: "SUB_TAB_Sub2Task t n (s\<lparr>qstore := qs\<rparr>) = SUB_TAB_Sub2Task t n s"
  by (cases "g_MsgShmAddr s") (simp_all add: SUB_TAB_Sub2Task_def SUBGetAddr_def SUB_TAB_IsExist_def)

lemma task_handles_differ:
  assumes "task_inv s" and "task_map s j = Some v" and "task_map s i = Some u" and "j \<noteq> i" and "handle v \<noteq> 0"
  shows "handle v \<noteq> handle u"
proof -
  obtain h where h: "g_MsgShmAddr s = Some h" using assms(2) task_map_None by (cases "g_MsgShmAddr s") auto
  obtain m n where "m < length (taskTab h)" "taskTab h ! m = v" "taskId v = j" "n < length (taskTab h)" "taskTab h ! n = u" "taskId u = i"
    using assms(2,3) by (auto simp: task_map_iff [OF assms(1) h])
  then show ?thesis using no_clashD(2) [OF task_invD(4) [OF assms(1) h], of m n] assms(4,5) by blast
qed

lemma filter_scan: "scan P xs = Some k \<Longrightarrow> \<exists>ys. filter P xs = (xs ! k) # ys"
  by (induction xs arbitrary: k) (auto split: if_splits)

lemma Sub2Task_first_subscriber:
  "SUB_TAB_Sub2Task t 0 s = Inr [i] \<longleftrightarrow> first_subscriber t s = Some i"
  "SUB_TAB_Sub2Task t 0 s = Inr ids \<Longrightarrow> ids = (case first_subscriber t s of None \<Rightarrow> [] | Some i \<Rightarrow> [i])"
proof -
  have "(case SUB_TAB_Sub2Task t 0 s of Inl _ \<Rightarrow> first_subscriber t s = None
     | Inr ids \<Rightarrow> ids = (case first_subscriber t s of None \<Rightarrow> [] | Some i \<Rightarrow> [i]))"
  proof (cases "g_MsgShmAddr s")
    case None
    then show ?thesis by (simp add: SUB_TAB_Sub2Task_def first_subscriber_def)
  next
    case (Some h)
    show ?thesis
    proof (cases "scan (\<lambda>u. subType u = t) (subTab h)")
      case None
      then have "filter (\<lambda>u. subType u = t) (subTab h) = []" by (simp add: scan_None_iff filter_empty_conv)
      then show ?thesis using Some None by (simp add: SUB_TAB_Sub2Task_def SUB_TAB_IsExist_def first_subscriber_def)
    next
      case k: (Some k)
      obtain us where "filter (\<lambda>u. subType u = t) (subTab h) = (subTab h ! k) # us" using filter_scan [OF k] by blast
      then show ?thesis using Some k
        by (cases "taskIdList (subTab h ! k)") (auto simp: SUB_TAB_Sub2Task_def SUB_TAB_IsExist_def first_subscriber_def collect_upto_0)
    qed
  qed
  then show "SUB_TAB_Sub2Task t 0 s = Inr [i] \<longleftrightarrow> first_subscriber t s = Some i"
    "SUB_TAB_Sub2Task t 0 s = Inr ids \<Longrightarrow> ids = (case first_subscriber t s of None \<Rightarrow> [] | Some i \<Rightarrow> [i])"
    by (auto split: sum.splits option.splits)
qed

lemma first_subscriber_qstore [simp]: "first_subscriber t (s\<lparr>qstore := qs\<rparr>) = first_subscriber t s"
  by (simp add: first_subscriber_def)

text \<open>What \<open>dispatch_SP\<close> does with a message that was taken from the server's queue, when no other thread runs.\<close>

lemma dispatch_SP_ok:
  assumes inv: "api_inv s" and a: "a = s_msgSvrQueueHandle s" "a \<noteq> 0"
    and q: "qstore s a = Some q" "queue_ok q" "qshape q" "outstanding q p" and t: "t = msgType (msg (bodies q p))"
  obtains s' q' where "dispatch_SP undisturbed a p s = Some s'" and "api_inv s'" and "task_map s' = task_map s" and "subs s' = subs s"
    and "s_msgSvrQueueHandle s' = a" and "qstore s' a = Some q'" and "queue_ok q'" and "qshape q'" and "queue_abs q' = queue_abs q"
    and "\<forall>x. outstanding q' x = outstanding q x"
    and "\<forall>j v. task_map s j = Some v \<longrightarrow> first_subscriber t s \<noteq> Some j \<longrightarrow> handle v \<noteq> 0 \<longrightarrow> qstore s' (handle v) = qstore s (handle v)"
    and "\<forall>i u. first_subscriber t s = Some i \<longrightarrow> task_map s i = Some u \<longrightarrow> handle u \<noteq> 0 \<longrightarrow>
      (\<exists>v v'. qstore s (handle u) = Some v \<and> qstore s' (handle u) = Some v' \<and> delivered_to (addressed i (bodies q p)) v v')"
proof (cases "first_subscriber t s")
  case None
  have "dispatch_SP undisturbed a p s = Some s"
  proof (cases "SUB_TAB_Sub2Task t 0 s")
    case (Inr ids)
    then have "ids = []" using None Sub2Task_first_subscriber(2) [OF Inr] by simp
    then show ?thesis using Inr q(1) t by (simp add: dispatch_SP_def)
  qed (use q(1) t in \<open>simp add: dispatch_SP_def\<close>)
  then show thesis by (rule that [of s q]) (use inv a q None in auto)
next
  case (Some i)
  have st: "SUB_TAB_Sub2Task t 0 s = Inr [i]" using Some by (simp add: Sub2Task_first_subscriber)
  obtain u where u: "task_map s i = Some u" using Sub2Task_registered [OF api_invD(2) [OF inv] st] by auto
  obtain s' q' ret m where r: "sp_put undisturbed a p i s = Some s'" "api_inv s'" "task_map s' = task_map s" "subs s' = subs s"
    "s_msgSvrQueueHandle s' = a" "qstore s' a = Some q'" "queue_ok q'" "qshape q'" "queue_abs q' = queue_abs q"
    "\<forall>x. outstanding q' x = outstanding q x" "\<And>x. x \<noteq> a \<Longrightarrow> x \<noteq> handle u \<Longrightarrow> qstore s' x = qstore s x"
    "m = (bodies q p)\<lparr>msg := (msg (bodies q p))\<lparr>rcvTaskId := i\<rparr>\<rparr>"
    "handle u \<noteq> 0 \<longrightarrow> (\<exists>v v'. qstore s (handle u) = Some v \<and> qstore s' (handle u) = Some v' \<and>
      queue_abs v' = queue_abs v @ (if ret = HI_SUCCESS then [MSG_COPY2BUF m] else []) \<and> (queue_room v m \<longrightarrow> ret = HI_SUCCESS))"
    by (rule sp_put_ok [OF inv a q u]) blast
  have run: "dispatch_SP undisturbed a p s = Some s'" using q(1) t st r(1) by (simp add: dispatch_SP_def)
  have other: "qstore s' (handle v) = qstore s (handle v)"
    if "task_map s j = Some v" "j \<noteq> i" "handle v \<noteq> 0" for j v
  proof -
    have "handle v \<noteq> a" using task_map_queue(4) [OF api_invD(3) [OF inv] that(1)] that(3) a(1) by auto
    moreover have "handle v \<noteq> handle u" by (rule task_handles_differ [OF api_invD(3) [OF inv] that(1) u that(2,3)])
    ultimately show ?thesis by (rule r(11))
  qed
  show thesis by (rule that [OF run r(2-10)]) (use Some u other r(12,13) in \<open>auto simp: delivered_to_def addressed_def\<close>)
qed

text \<open>One round of the server takes the oldest published message and distributes it.\<close>

lemma rcv_dispatch_ok:
  assumes inv: "api_inv s" "svr_inv s" and a: "a = s_msgSvrQueueHandle s" and q: "qstore s a = Some q"
  obtains (empty) "rcv_dispatch undisturbed s = Some s" and "queue_abs q = []"
  | (round) m s' q' where "queue_abs q = m # queue_abs q'" and "rcv_dispatch undisturbed s = Some s'" and "api_inv s'" and "svr_inv s'"
    and "task_map s' = task_map s" and "subs s' = subs s" and "s_msgSvrQueueHandle s' = a" and "qstore s' a = Some q'"
    and "\<forall>x. outstanding q' x = outstanding q x"
    and "\<forall>j v. task_map s j = Some v \<longrightarrow> first_subscriber (msgType (msg m)) s \<noteq> Some j \<longrightarrow> handle v \<noteq> 0 \<longrightarrow> qstore s' (handle v) = qstore s (handle v)"
    and "\<forall>i u. first_subscriber (msgType (msg m)) s = Some i \<longrightarrow> task_map s i = Some u \<longrightarrow> handle u \<noteq> 0 \<longrightarrow>
      (\<exists>v v'. qstore s (handle u) = Some v \<and> qstore s' (handle u) = Some v' \<and> delivered_to (addressed i m) v v')"
proof -
  obtain qk: "queue_ok q" "qshape q" "\<forall>m \<in> set (queue_abs q). sp_flags m" and a0: "a \<noteq> 0"
    by (rule svr_queue [OF inv]) (use q a in auto)
  obtain r q1 where get: "queue_get q = (r, q1)" by force
  show thesis
  proof (cases r)
    case None
    then have "MSG_QueueGet a True (qstore s) = Some (Inl HI_FAILURE, qstore s)" using get q a0 by (simp add: MSG_QueueGet_def)
    then show thesis using mq.get_none [of q q1] get None a by (intro empty) (simp_all add: rcv_dispatch_def Let_def)
  next
    case (Some p)
    note g = mq.get_some [OF qk(1), of p q1] and gb = queue_get_some(4) [OF qk(1), of p q1]
    let ?s1 = "s\<lparr>qstore := (qstore s)(a \<mapsto> q1)\<rparr>"
    have G: "queue_ok q1" "qshape q1" "queue_abs q = bodies q1 p # queue_abs q1" "outstanding q1 p" "\<not> outstanding q p"
      "\<forall>x. outstanding q1 x \<longleftrightarrow> outstanding q x \<or> x = p"
      using g gb get Some qshape_get [OF qk(2) get] by auto
    have api1: "api_inv ?s1" by (rule api_queue_upd [OF inv(1) G(1,2)])
    have a1: "a = s_msgSvrQueueHandle ?s1" "qstore ?s1 a = Some q1" using a by simp_all
    obtain s2 q2 where D: "dispatch_SP undisturbed a p ?s1 = Some s2" "api_inv s2" "task_map s2 = task_map ?s1" "subs s2 = subs ?s1"
      "s_msgSvrQueueHandle s2 = a" "qstore s2 a = Some q2" "queue_ok q2" "qshape q2" "queue_abs q2 = queue_abs q1"
      "\<forall>x. outstanding q2 x = outstanding q1 x"
      "\<forall>j v. task_map ?s1 j = Some v \<longrightarrow> first_subscriber (msgType (msg (bodies q1 p))) ?s1 \<noteq> Some j \<longrightarrow> handle v \<noteq> 0 \<longrightarrow>
        qstore s2 (handle v) = qstore ?s1 (handle v)"
      "\<forall>i u. first_subscriber (msgType (msg (bodies q1 p))) ?s1 = Some i \<longrightarrow> task_map ?s1 i = Some u \<longrightarrow> handle u \<noteq> 0 \<longrightarrow>
        (\<exists>v v'. qstore ?s1 (handle u) = Some v \<and> qstore s2 (handle u) = Some v' \<and> delivered_to (addressed i (bodies q1 p)) v v')"
      by (rule dispatch_SP_ok [OF api1 a1(1) a0 a1(2) G(1,2,4) refl])
    have o2: "outstanding q2 p" using D(10) G(4) by simp
    obtain q3 where F: "MSG_QueueFree a (Some p) (qstore s2) = Some ((qstore s2)(a \<mapsto> q3))" "queue_release p q2 = Some q3" "queue_ok q3"
      "queue_abs q3 = queue_abs q2" "\<forall>x. outstanding q3 x \<longleftrightarrow> outstanding q2 x \<and> x \<noteq> p"
      using QueueFree_outstanding [where a = a and qs = "qstore s2", OF a0 D(6,7) o2] by blast
    let ?s3 = "s2\<lparr>qstore := (qstore s2)(a \<mapsto> q3)\<rparr>"
    have fl: "VTOP_MSG_isASyncMsg (ulFlag (msg (bodies q1 p)))" "VTOP_MSG_isSPMsg (ulFlag (msg (bodies q1 p)))"
      using qk(3) G(3) by (auto simp: sp_flags_def)
    have "MSG_QueueGet a True (qstore s) = Some (Inr p, (qstore s)(a \<mapsto> q1))" using get Some q a0 by (simp add: MSG_QueueGet_def)
    then have run: "rcv_dispatch undisturbed s = Some ?s3" using a fl D(1,5) F(1) by (simp add: rcv_dispatch_def Let_def)
    have api3: "api_inv ?s3" by (rule api_queue_upd [OF D(2) F(3) qshape_release [OF D(8) F(2)]])
    have svr3: "svr_inv ?s3" using a0 D(5,9) F(4) G(3) qk(3) by (simp add: svr_inv_def)
    have na: "handle v \<noteq> a" if "task_map s j = Some v" "handle v \<noteq> 0" for j v
      using task_map_queue(4) [OF api_invD(3) [OF inv(1)] that(1)] that(2) a by auto
    have tg: "first_subscriber t ?s1 = first_subscriber t s" for t by simp
    show thesis
    proof (rule round [OF _ run api3 svr3])
      show "queue_abs q = bodies q1 p # queue_abs q3" using G(3) D(9) F(4) by simp
      show "\<forall>x. outstanding q3 x = outstanding q x" using F(5) D(10) G(5,6) by blast
      show "\<forall>j v. task_map s j = Some v \<longrightarrow> first_subscriber (msgType (msg (bodies q1 p))) s \<noteq> Some j \<longrightarrow> handle v \<noteq> 0 \<longrightarrow>
          qstore ?s3 (handle v) = qstore s (handle v)"
        using D(11) na unfolding tg by simp
      show "\<forall>i u. first_subscriber (msgType (msg (bodies q1 p))) s = Some i \<longrightarrow> task_map s i = Some u \<longrightarrow> handle u \<noteq> 0 \<longrightarrow>
          (\<exists>v v'. qstore s (handle u) = Some v \<and> qstore ?s3 (handle u) = Some v' \<and> delivered_to (addressed i (bodies q1 p)) v v')"
        using D(12) na unfolding tg by simp
    qed (use D(3-6) in auto)
  qed
qed

section \<open>Properties of the server\<close>

lemma send_async_subscriber: "send_async junk h b f s = Some (r, b', s') \<Longrightarrow> first_subscriber t s' = first_subscriber t s"
  by (auto simp: send_async_def getMsgID_def first_subscriber_def Let_def split: if_splits option.splits bind_splits)

lemma QueuePut_matches: "MSG_QueuePut h (Some m) qs = Some (HI_SUCCESS, qs') \<Longrightarrow> \<not> body_mismatch (msg m)"
  using err_codes_negative by (auto simp: MSG_QueuePut_def HI_SUCCESS_def split: if_splits)

lemma send_async_matches: "send_async junk h b f s = Some (HI_SUCCESS, b', s') \<Longrightarrow> \<not> body_mismatch b"
  using QueuePut_matches err_codes_negative
  by (fastforce simp: send_async_def getMsgID_def Let_def async_inner_def body_mismatch_def HI_SUCCESS_def split: if_splits option.splits bind_splits)

lemma addressed_fields:
  assumes "\<not> body_mismatch b" and "b1 = b\<lparr>msgID := mid\<rparr>" and "m = MSG_COPY2BUF (addressed i (MSG_COPY2BUF (async_inner junk b1 f)))"
  shows "rcvTaskId (msg m) = i" "sndTaskId (msg m) = sndTaskId b" "msgType (msg m) = msgType b" "ulMsgLen (msg m) = ulMsgLen b"
    "pMsgBody (msg m) = map_option (take (unat (ulMsgLen b))) (pMsgBody b)"
  using assms by (auto simp: addressed_def async_inner_def MSG_COPY2BUF_def body_mismatch_def option.map_comp comp_def word_gt_0)

text \<open>
  C36: A published message is distributed to one subscriber only: of the subscribers of its type, the one in the first
  slot of the unit gets exactly one copy, addressed to it and with the sender, type, length and body that were published, if its queue has room. The
  queue of every other task, subscriber or not, is left as it was, also when the first slot is empty and other tasks subscribe. The server's queue is
  empty again and the invariants hold. (No other thread runs during the round.)
\<close>

theorem publish_first_only:
  assumes inv: "api_inv s" "svr_inv s" and q: "qstore s (s_msgSvrQueueHandle s) = Some q" "queue_abs q = []"
    and pub: "VTOP_MSG_Publish junk (Some b) s = Some (HI_SUCCESS, b', s1)"
  shows "\<exists>s2 q2. rcv_dispatch undisturbed s1 = Some s2 \<and> api_inv s2 \<and> svr_inv s2 \<and> subs s2 = subs s \<and>
    qstore s2 (s_msgSvrQueueHandle s) = Some q2 \<and> queue_abs q2 = [] \<and>
    (\<forall>j v. task_map s j = Some v \<longrightarrow> first_subscriber (msgType b) s \<noteq> Some j \<longrightarrow> handle v \<noteq> 0 \<longrightarrow> qstore s2 (handle v) = qstore s (handle v)) \<and>
    (\<forall>i u v. first_subscriber (msgType b) s = Some i \<longrightarrow> task_map s i = Some u \<longrightarrow> handle u \<noteq> 0 \<longrightarrow> qstore s (handle u) = Some v \<longrightarrow>
      length (queue_abs v) < 128 \<longrightarrow> (\<forall>p. \<not> outstanding v p) \<longrightarrow> ulMsgLen b \<le> 212 \<longrightarrow>
      (\<exists>v' m. qstore s2 (handle u) = Some v' \<and> queue_abs v' = queue_abs v @ [m] \<and> rcvTaskId (msg m) = i \<and> sndTaskId (msg m) = sndTaskId b \<and>
        msgType (msg m) = msgType b \<and> ulMsgLen (msg m) = ulMsgLen b \<and> pMsgBody (msg m) = map_option (take (unat (ulMsgLen b))) (pMsgBody b)))"
proof -
  let ?a = "s_msgSvrQueueHandle s"
  obtain b1 q1 mid where P: "api_inv s1" "svr_inv s1" "task_map s1 = task_map s" "subs s1 = subs s" "s_msgSvrQueueHandle s1 = ?a"
    "qstore s1 = (qstore s)(?a \<mapsto> q1)" "queue_abs q1 = [MSG_COPY2BUF (async_inner junk b1 VTOP_MSG_FLG_SP)]" "b1 = b\<lparr>msgID := mid\<rparr>"
    by (rule Publish_state [OF inv q pub]) blast
  let ?m = "MSG_COPY2BUF (async_inner junk b1 VTOP_MSG_FLG_SP)"
  obtain c where snd: "send_async junk ?a b VTOP_MSG_FLG_SP s = Some (HI_SUCCESS, c, s1)" using Publish_accepted [OF pub] by blast
  note fs = send_async_subscriber [OF snd] and bm = send_async_matches [OF snd]
  have mt: "msgType (msg ?m) = msgType b" using P(8) by simp
  have na: "handle v \<noteq> ?a" if "task_map s j = Some v" "handle v \<noteq> 0" for j v
    using task_map_queue(4) [OF api_invD(3) [OF inv(1)] that(1)] that(2) by auto
  have q1: "?a = s_msgSvrQueueHandle s1" "qstore s1 ?a = Some q1" using P(5,6) by simp_all
  from P(1,2) q1 show ?thesis
  proof (cases rule: rcv_dispatch_ok)
    case empty
    then show ?thesis using P(7) by simp
  next
    case (round m s2 q2)
    have m: "m = ?m" "queue_abs q2 = []" using round(1) P(7) by simp_all
    have others: "\<forall>j v. task_map s j = Some v \<longrightarrow> first_subscriber (msgType b) s \<noteq> Some j \<longrightarrow> handle v \<noteq> 0 \<longrightarrow> qstore s2 (handle v) = qstore s (handle v)"
      using round(10) na P(3,6) mt m(1) fs by simp
    have target: "\<exists>v' m. qstore s2 (handle u) = Some v' \<and> queue_abs v' = queue_abs v @ [m] \<and> rcvTaskId (msg m) = i \<and> sndTaskId (msg m) = sndTaskId b \<and>
        msgType (msg m) = msgType b \<and> ulMsgLen (msg m) = ulMsgLen b \<and> pMsgBody (msg m) = map_option (take (unat (ulMsgLen b))) (pMsgBody b)"
      if tg: "first_subscriber (msgType b) s = Some i" "task_map s i = Some u" "handle u \<noteq> 0" "qstore s (handle u) = Some v"
        "length (queue_abs v) < 128" "\<forall>p. \<not> outstanding v p" "ulMsgLen b \<le> 212" for i u v
    proof -
      have v1: "qstore s1 (handle u) = Some v" using tg(4) na [OF tg(2,3)] P(6) by simp
      obtain v' where v: "qstore s2 (handle u) = Some v'" "delivered_to (addressed i ?m) v v'"
        using round(11) tg(1-3) P(3) mt m(1) fs v1 by fastforce
      have "queue_room v (addressed i ?m)"
        using tg(5-7) bm P(8) by (auto simp: queue_room_def addressed_def body_mismatch_def MSG_COPY2BUF_def async_inner_def)
      then have "queue_abs v' = queue_abs v @ [MSG_COPY2BUF (addressed i ?m)]" using v(2) by (simp add: delivered_to_def)
      then show ?thesis using v(1) addressed_fields [OF bm P(8) refl, of i junk VTOP_MSG_FLG_SP] by auto
    qed
    have "subs s2 = subs s" using round(6) P(4) by simp
    with round(2-4,8) m(2) others target show ?thesis by blast
  qed
qed

section \<open>The server among other threads\<close>

text \<open>
  What the other threads keep while the server holds a message: the invariants, the server's queue and the message, which only the server knows.
  Between the look-up of a handle and its use also the tasks with their queues.
\<close>

definition others_keep :: "(msg_sys \<Rightarrow> msg_sys) \<Rightarrow> bool" where
  "others_keep f \<longleftrightarrow> (\<forall>s. api_inv s \<and> svr_inv s \<longrightarrow> api_inv (f s) \<and> svr_inv (f s) \<and> s_msgSvrQueueHandle (f s) = s_msgSvrQueueHandle s \<and>
     (\<forall>q p. qstore s (s_msgSvrQueueHandle s) = Some q \<and> outstanding q p \<longrightarrow>
        (\<exists>q'. qstore (f s) (s_msgSvrQueueHandle s) = Some q' \<and> outstanding q' p \<and> bodies q' p = bodies q p)))"

definition tasks_stay :: "(msg_sys \<Rightarrow> msg_sys) \<Rightarrow> bool" where
  "tasks_stay f \<longleftrightarrow> (\<forall>s i u. api_inv s \<and> svr_inv s \<and> task_map s i = Some u \<longrightarrow> (\<exists>u'. task_map (f s) i = Some u' \<and> handle u' = handle u))"

definition well_behaved :: "switches \<Rightarrow> bool" where
  "well_behaved w \<longleftrightarrow> others_keep (at_get w) \<and> others_keep (at_sub w) \<and> (\<forall>i. others_keep (at_handle w i) \<and> others_keep (at_put w i) \<and> tasks_stay (at_put w i)) \<and>
     others_keep (at_free w) \<and> others_keep (at_end w)"

definition held :: "u32 \<Rightarrow> u32 \<Rightarrow> msg_sys \<Rightarrow> bool" where
  "held a p s \<longleftrightarrow> api_inv s \<and> svr_inv s \<and> s_msgSvrQueueHandle s = a \<and> (\<exists>q. qstore s a = Some q \<and> outstanding q p)"

lemma held_keep: "others_keep f \<Longrightarrow> held a p s \<Longrightarrow> held a p (f s)"
  unfolding others_keep_def held_def by blast

lemma task_stays: "well_behaved w \<Longrightarrow> held a p s \<Longrightarrow> task_map s i = Some u \<Longrightarrow> \<exists>u'. task_map (at_put w j s) i = Some u' \<and> handle u' = handle u"
  unfolding well_behaved_def tasks_stay_def held_def by blast

lemma held_addressed:
  assumes h: "held a p s" and q: "qstore s a = Some q"
  shows "held a p (s\<lparr>qstore := (qstore s)(a \<mapsto> set_rcv p i q)\<rparr>)"
proof -
  have H: "api_inv s" "svr_inv s" "s_msgSvrQueueHandle s = a" "outstanding q p" using h q by (auto simp: held_def)
  obtain ok: "queue_ok q" "qshape q" "\<forall>m \<in> set (queue_abs q). sp_flags m" "a \<noteq> 0" by (rule svr_queue [OF H(1,2)]) (use H(3) q in auto)
  have "p \<notin> set (qptrs q)" using H(4) by (simp add: outstanding_def)
  from set_rcv_abs [OF this] show ?thesis
    using api_queue_upd [OF H(1), of "set_rcv p i q" a] ok H by (simp add: held_def svr_inv_def)
qed

lemma held_put:
  assumes h: "held a p s" and u: "task_map s i = Some u" "handle u \<noteq> 0"
  shows "\<exists>ret qs. MSG_QueuePut (handle u) (Some m) (qstore s) = Some (ret, qs) \<and> held a p (s\<lparr>qstore := qs\<rparr>)"
proof -
  have H: "api_inv s" "svr_inv s" "s_msgSvrQueueHandle s = a" using h by (auto simp: held_def)
  obtain v where v: "qstore s (handle u) = Some v" "queue_ok v" "qshape v" and na: "handle u \<noteq> a"
    using task_map_queue(4) [OF api_invD(3) [OF H(1)] u] H(3) by (auto simp: queue_at_ok_def)
  obtain ret v' where put: "MSG_QueuePut (handle u) (Some m) (qstore s) = Some (ret, (qstore s)(handle u \<mapsto> v'))" "queue_ok v'" "qshape v'"
    by (rule QueuePut_cases [where h = "handle u" and qs = "qstore s", OF u(2) v]) blast
  have "held a p (s\<lparr>qstore := (qstore s)(handle u \<mapsto> v')\<rparr>)"
    using api_queue_upd [OF H(1) put(2,3)] h na by (auto simp: held_def svr_inv_def)
  then show ?thesis using put(1) by blast
qed

lemma sp_put_held:
  assumes w: "well_behaved w" and h: "held a p s" and i: "i \<noteq> VTOP_INVALID_TASK_ID"
  shows "\<exists>s'. sp_put w a p i s = Some s' \<and> held a p s'"
proof -
  obtain q where q: "qstore s a = Some q" using h by (auto simp: held_def)
  let ?s1 = "at_handle w i (s\<lparr>qstore := (qstore s)(a \<mapsto> set_rcv p i q)\<rparr>)" and ?s2 = "at_put w i (at_handle w i (s\<lparr>qstore := (qstore s)(a \<mapsto> set_rcv p i q)\<rparr>))"
  have h1: "held a p ?s1" using held_keep [OF _ held_addressed [OF h q]] w by (simp add: well_behaved_def)
  have h2: "held a p ?s2" using held_keep [OF _ h1] w by (simp add: well_behaved_def)
  show ?thesis
  proof (cases "TASK_TAB_GetHandle i ?s1 = 0")
    case True
    then show ?thesis using q h1 by (simp add: sp_put_def Let_def)
  next
    case False
    then obtain u where u: "task_map ?s1 i = Some u" "handle u = TASK_TAB_GetHandle i ?s1"
      using GetHandle_map [OF i, of ?s1] by (cases "task_map ?s1 i") auto
    obtain u' where u': "task_map ?s2 i = Some u'" "handle u' = handle u"
      using task_stays [OF w h1 u(1)] by blast
    obtain q2 where q2: "qstore ?s2 a = Some q2" using h2 by (auto simp: held_def)
    obtain ret qs where "MSG_QueuePut (handle u') (Some (bodies q2 p)) (qstore ?s2) = Some (ret, qs)" "held a p (?s2\<lparr>qstore := qs\<rparr>)"
      using held_put [OF h2 u'(1), of "bodies q2 p"] u'(2) u(2) False by auto
    then show ?thesis using q False u'(2) u(2) q2 by (simp add: sp_put_def Let_def)
  qed
qed

lemma iter_sp_put_held: "well_behaved w \<Longrightarrow> held a p s \<Longrightarrow> VTOP_INVALID_TASK_ID \<notin> set ids \<Longrightarrow> \<exists>s'. iter (sp_put w a p) ids s = Some s' \<and> held a p s'"
proof (induction ids arbitrary: s)
  case (Cons i ids)
  obtain s1 where s1: "sp_put w a p i s = Some s1" "held a p s1" using sp_put_held [OF Cons.prems(1,2), of i] Cons.prems(3) by auto
  from Cons.IH [OF Cons.prems(1) s1(2)] s1(1) Cons.prems(3) show ?case by simp
qed simp

lemma dispatch_SP_held:
  assumes w: "well_behaved w" and h: "held a p s"
  shows "\<exists>s'. dispatch_SP w a p s = Some s' \<and> held a p s'"
proof -
  obtain q where q: "qstore s a = Some q" using h by (auto simp: held_def)
  have h1: "held a p (at_sub w s)" using held_keep [OF _ h] w by (simp add: well_behaved_def)
  show ?thesis
  proof (cases "SUB_TAB_Sub2Task (msgType (msg (bodies q p))) 0 s")
    case (Inl e)
    then show ?thesis using q h by (simp add: dispatch_SP_def)
  next
    case (Inr ids)
    then have "VTOP_INVALID_TASK_ID \<notin> set ids"
      using Sub2Task_registered [OF _ Inr, of VTOP_INVALID_TASK_ID] task_map_queue(2) h by (auto simp: held_def dest: api_invD(2,3))
    from iter_sp_put_held [OF w h1 this] show ?thesis using q Inr by (simp add: dispatch_SP_def)
  qed
qed

lemma rcv_dispatch_held:
  assumes w: "well_behaved w" and inv: "api_inv s" "svr_inv s"
  shows "\<exists>s'. rcv_dispatch w s = Some s' \<and> api_inv s' \<and> svr_inv s'"
proof -
  let ?a = "s_msgSvrQueueHandle s"
  obtain q where q: "qstore s ?a = Some q" and ok: "queue_ok q" "qshape q" "\<forall>m \<in> set (queue_abs q). sp_flags m" and a: "?a \<noteq> 0"
    by (rule svr_queue [OF inv])
  obtain r q1 where get: "queue_get q = (r, q1)" by force
  show ?thesis
  proof (cases r)
    case None
    then show ?thesis using get q a inv by (simp add: rcv_dispatch_def MSG_QueueGet_def)
  next
    case (Some p)
    let ?s = "s\<lparr>qstore := (qstore s)(?a \<mapsto> q1)\<rparr>"
    have G: "queue_ok q1" "qshape q1" "queue_abs q = bodies q1 p # queue_abs q1" "outstanding q1 p"
      using mq.get_some [OF ok(1), of p q1] queue_get_some(4) [OF ok(1), of p q1] get Some qshape_get [OF ok(2) get] by auto
    have s: "MSG_QueueGet ?a True (qstore s) = Some (Inr p, (qstore s)(?a \<mapsto> q1))" using get Some q a by (simp add: MSG_QueueGet_def)
    have h: "held ?a p ?s" using api_queue_upd [OF inv(1) G(1,2)] G(3,4) ok(3) a by (simp add: held_def svr_inv_def)
    let ?s1 = "at_get w ?s"
    have g: "others_keep (at_get w)" using w by (simp add: well_behaved_def)
    obtain q2 where q2: "qstore ?s1 ?a = Some q2" "bodies q2 p = bodies q1 p"
      using g h G(4) unfolding others_keep_def held_def by fastforce
    obtain s2 where s2: "dispatch_SP w ?a p ?s1 = Some s2" "held ?a p s2" using dispatch_SP_held [OF w held_keep [OF g h]] by blast
    have h3: "held ?a p (at_free w s2)" using held_keep [OF _ s2(2)] w by (simp add: well_behaved_def)
    then obtain q3 where q3: "qstore (at_free w s2) ?a = Some q3" "outstanding q3 p" and H: "api_inv (at_free w s2)" "svr_inv (at_free w s2)" "s_msgSvrQueueHandle (at_free w s2) = ?a"
      by (auto simp: held_def)
    obtain ok3: "queue_ok q3" "qshape q3" "\<forall>m \<in> set (queue_abs q3). sp_flags m" by (rule svr_queue [OF H(1,2)]) (use H(3) q3 in auto)
    obtain q4 where F: "MSG_QueueFree ?a (Some p) (qstore (at_free w s2)) = Some ((qstore (at_free w s2))(?a \<mapsto> q4))" "queue_release p q3 = Some q4" "queue_ok q4"
      "queue_abs q4 = queue_abs q3"
      using QueueFree_outstanding [where a = ?a and qs = "qstore (at_free w s2)", OF a q3(1) ok3(1) q3(2)] by blast
    have "VTOP_MSG_isASyncMsg (ulFlag (msg (bodies q2 p)))" "VTOP_MSG_isSPMsg (ulFlag (msg (bodies q2 p)))"
      using ok(3) G(3) q2(2) by (auto simp: sp_flags_def)
    then have "rcv_dispatch w s = Some ((at_free w s2)\<lparr>qstore := (qstore (at_free w s2))(?a \<mapsto> q4)\<rparr>)"
      using s q2(1) s2(1) F(1) H(3) by (simp add: rcv_dispatch_def Let_def)
    moreover have "svr_inv ((at_free w s2)\<lparr>qstore := (qstore (at_free w s2))(?a \<mapsto> q4)\<rparr>)" using a H(3) F(4) ok3(3) by (simp add: svr_inv_def)
    ultimately show ?thesis using api_queue_upd [OF H(1) F(3) qshape_release [OF ok3(2) F(2)]] by blast
  qed
qed

text \<open>
  C4: The server thread never runs into its assertion or a bad pointer: whatever the other threads do between its calls, as long as they keep the
  invariants, the server's queue and the message that the server holds, and remove no task between the look-up of a queue and its use, every number
  of rounds completes and the invariants hold afterwards.
\<close>

theorem server_runs:
  assumes "api_inv s" and "svr_inv s" and "\<forall>w \<in> set ws. well_behaved w"
  shows "\<exists>s'. MSG_PROC_RcvAndDispatch mal ws s = Some s' \<and> api_inv s' \<and> svr_inv s'"
proof -
  have "\<exists>s'. rcv_loop ws s = Some s' \<and> api_inv s' \<and> svr_inv s'" using assms
  proof (induction ws arbitrary: s)
    case (Cons w ws)
    have w: "well_behaved w" using Cons.prems(3) by simp
    obtain s1 where s1: "rcv_dispatch w s = Some s1" "api_inv s1" "svr_inv s1" using rcv_dispatch_held [OF w Cons.prems(1,2)] by blast
    have "api_inv (at_end w s1)" "svr_inv (at_end w s1)" using w s1(2,3) by (simp_all add: well_behaved_def others_keep_def)
    from Cons.IH [OF this] show ?case using Cons.prems s1(1) by simp
  qed simp
  then show ?thesis using assms(1,2) by (auto simp: MSG_PROC_RcvAndDispatch_def)
qed

text \<open>
  Nothing keeps the last of these conditions: a receiver that unregisters itself between the look-up of its queue and the use takes the queue
  with it, and the server puts the message into memory that was freed.
\<close>

theorem server_uses_freed_queue:
  assumes inv: "api_inv s" "svr_inv s" and q: "qstore s (s_msgSvrQueueHandle s) = Some q" "queue_abs q = m # ms"
    and m: "ulMsgLen (msg m) \<le> VTOP_MSG_MAX_MSG_SIZE" "\<not> body_mismatch (msg m)"
    and i: "first_subscriber (msgType (msg m)) s = Some i" "getTaskData i s = Some d" "TASK_TAB_GetHandle i s \<noteq> 0"
  shows "rcv_dispatch (undisturbed\<lparr>at_put := (\<lambda>j s. snd (the (VTOP_MSG_UnRegister True j s)))\<rparr>) s = None"
proof -
  let ?a = "s_msgSvrQueueHandle s" and ?w = "undisturbed\<lparr>at_put := (\<lambda>j s. snd (the (VTOP_MSG_UnRegister True j s)))\<rparr>"
  obtain ok: "queue_ok q" "qshape q" "\<forall>m \<in> set (queue_abs q). sp_flags m" and a: "?a \<noteq> 0" by (rule svr_queue [OF inv]) (use q in auto)
  obtain r q1 where get: "queue_get q = (r, q1)" by force
  then obtain p where r: "r = Some p" using mq.get_none [of q q1] q(2) by (cases r) auto
  have G: "queue_ok q1" "qshape q1" "m = bodies q1 p" "outstanding q1 p"
    using mq.get_some [OF ok(1), of p q1] queue_get_some(4) [OF ok(1), of p q1] get r qshape_get [OF ok(2) get] q(2) by auto
  let ?s1 = "s\<lparr>qstore := (qstore s)(?a \<mapsto> q1)\<rparr>" and ?s2 = "s\<lparr>qstore := (qstore s)(?a \<mapsto> set_rcv p i q1)\<rparr>"
  have s: "MSG_QueueGet ?a True (qstore s) = Some (Inr p, (qstore s)(?a \<mapsto> q1))" using get r q(1) a by (simp add: MSG_QueueGet_def)
  have api: "api_inv ?s2" by (rule api_queue_upd [OF inv(1)]) (simp_all add: G)
  have h: "TASK_TAB_GetHandle i ?s2 = TASK_TAB_GetHandle i s" by (simp add: TASK_TAB_GetHandle_def TASKGetAddr_def)
  have "getTaskData i ?s2 = Some d" using i(2) by (simp add: getTaskData_def)
  from UnRegister_outcome [OF api this] obtain s3 where s3: "VTOP_MSG_UnRegister True i ?s2 = Some (0, s3)"
    "\<forall>x. x \<noteq> TASK_TAB_GetHandle i s \<longrightarrow> qstore s3 x = qstore ?s2 x" "qstore s3 (TASK_TAB_GetHandle i s) = None"
    using i(3) h by auto
  obtain u where u: "task_map s i = Some u" using api_invD(6) [OF inv(1)] i(2) getTaskData_iff [of s] by (auto simp: data_ok_def)
  note tq = task_map_queue [OF api_invD(3) [OF inv(1)] u]
  have "?a \<noteq> TASK_TAB_GetHandle i s" using GetHandle_map [OF tq(2), of s] u tq(4) i(3) by auto
  then have q3: "qstore s3 ?a = Some (set_rcv p i q1)" using s3(2) by simp
  have "MSG_QueuePut (TASK_TAB_GetHandle i s) (Some (bodies (set_rcv p i q1) p)) (qstore s3) = None"
    using s3(3) i(3) m G(3) by (auto simp: MSG_QueuePut_def set_rcv_def body_mismatch_def)
  then have sp: "sp_put ?w ?a p i ?s1 = None" using s3(1) q3 h i(3) by (simp add: sp_put_def Let_def)
  have "SUB_TAB_Sub2Task (msgType (msg m)) 0 s = Inr [i]" using i(1) by (simp add: Sub2Task_first_subscriber)
  then have "dispatch_SP ?w ?a p ?s1 = None" using sp G(3) by (simp add: dispatch_SP_def)
  then show ?thesis using s by (simp add: rcv_dispatch_def Let_def)
qed

lemma QueueInit_total: "\<exists>r qs'. MSG_QueueInit m mem nm sz qs = Some (r, qs') \<and> (\<forall>e. r = Inl e \<longrightarrow> e < 0 \<and> qs' = qs)"
proof -
  have "\<exists>r. MB_Init (queue_mb m) True (Some (queue_buffer nm)) = Some r"
    by (auto simp: MB_Init_def MB_Init_assert_end MB_Init_assert_total split: option.splits sum.splits)
  then show ?thesis by (auto simp: MSG_QueueInit_def HI_FAILURE_def split: option.splits sum.splits)
qed

lemma slots_upd:
  "task_map (s\<lparr>s_MsgRspMng := x, s_bFilterInited := y\<rparr>) = task_map s" "subs (s\<lparr>s_MsgRspMng := x, s_bFilterInited := y\<rparr>) = subs s"
  "tabs_inv (s\<lparr>s_MsgRspMng := x, s_bFilterInited := y\<rparr>) = tabs_inv s"
proof -
  show m: "task_map (s\<lparr>s_MsgRspMng := x, s_bFilterInited := y\<rparr>) = task_map s" by (simp add: task_map_def fun_eq_iff)
  show "subs (s\<lparr>s_MsgRspMng := x, s_bFilterInited := y\<rparr>) = subs s" by (simp add: subs_def)
  show "tabs_inv (s\<lparr>s_MsgRspMng := x, s_bFilterInited := y\<rparr>) = tabs_inv s"
    by (cases "g_MsgShmAddr s") (simp_all add: tabs_inv_def task_inv_def sub_inv_def m)
qed

text \<open>Without tasks, a new queue may become the server's.\<close>

lemma api_svr_upd:
  assumes "api_inv s" and "task_map s = Map.empty" and "queue_ok q" and "qshape q"
  shows "api_inv (s\<lparr>qstore := (qstore s)(a \<mapsto> q), s_msgSvrQueueHandle := a, s_bStopMsgProc := b\<rparr>)"
proof -
  let ?s = "s\<lparr>qstore := (qstore s)(a \<mapsto> q), s_msgSvrQueueHandle := a, s_bStopMsgProc := b\<rparr>"
  note I = api_invD [OF assms(1)]
  obtain h where h: "g_MsgShmAddr s = Some h" using I(9) by blast
  have free: "\<not> used_unit u" if "u \<in> set (taskTab h)" for u
  proof
    assume "used_unit u"
    then have "task_map s (taskId u) = Some u"
      using that by (auto simp: task_map_iff [OF I(3) h] used_unit_def in_set_conv_nth)
    then show False using assms(2) by simp
  qed
  have m: "task_map ?s = task_map s" by (simp add: task_map_def fun_eq_iff)
  have "task_inv ?s" using I(3) h free assms(3,4) by (auto simp: task_inv_def queue_at_ok_def unit_ok_def)
  moreover have "sub_inv ?s" using I(4) h m by (auto simp: sub_inv_def)
  ultimately have "sys_inv ?s" using I(5) h by (simp add: sys_inv_def tabs_inv_def rsp_ok_def)
  then show ?thesis using I(6,7) m by (simp add: api_inv_def data_ok_def data_of_def names_ok_def)
qed

text \<open>The shared memory after the two tables were initialised.\<close>

definition started_shm :: "VTOP_MSG_S_Config \<Rightarrow> MSG_SHM_S" where
  "started_shm c = (let h = shm_of_config c in
     h\<lparr>taskTab := map (\<lambda>_. TASKTABInitUnit) (taskTab h),
       subTab := map (\<lambda>_. SUBTABInitUnit (unat (maxTaskNumInSub h))) (subTab h)\<rparr>)"

lemma started_shm_nums:
  assumes "shm_fits c"
  shows "length (taskTab (started_shm c)) = unat (maxTaskNum (started_shm c))" "length (subTab (started_shm c)) = unat (maxSubNum (started_shm c))"
    "\<forall>u \<in> set (subTab (started_shm c)). length (taskIdList u) = unat (maxTaskNumInSub (started_shm c))"
  using shm_complete(1,2) [OF assms refl] by (auto simp: started_shm_def Let_def SUBTABInitUnit_def)

text \<open>On complete tables the clean-up runs to its end, and the message system is gone.\<close>

lemma deinit_gone:
  assumes "shm_fits c" and "g_MsgShmAddr s = Some (started_shm c)"
  shows "\<exists>s'. deinit_RSPMNG base s = Some s' \<and> \<not> SHM_Exist s'"
proof -
  note n = started_shm_nums [OF assms(1)]
  obtain us where "SUB_TAB_DeInit_sys base s = Some (0, s\<lparr>g_MsgShmAddr := Some ((started_shm c)\<lparr>subTab := us\<rparr>)\<rparr>)"
    using SUB_TAB_DeInit_returns [OF assms(2) n(2,3)] by blast
  then show ?thesis using n(1)
    by (simp add: deinit_RSPMNG_def deinit_SUB_TAB_def deinit_TASK_TAB_def MSG_RSPMNG_Deinit_def TASK_TAB_DeInit_def TASK_TAB_GetMaxTaskNum_def
        init_tasks_def SHM_DeInit_def SHM_Exist_def)
qed

lemma Main_tables:
  assumes fits: "shm_fits c" and "g_TaskData s = None" and "length (s_MsgRspMng s) = MAX_MSG_RSP_NUM" and "s_msgSvrQueueHandle s = 0"
    and s1: "s1 = s\<lparr>g_MsgShmAddr := Some (shm_of_config c)\<rparr>"
  obtains s2 s3 s4 where "TASK_TAB_Init s1 = Some (0, s2)" and "SUB_TAB_Init s2 = Some (0, s3)" and "MSG_RSPMNG_Init s3 = (HI_SUCCESS, s4)"
    and "api_inv s4" and "task_map s4 = Map.empty" and "subs s4 = {}" and "qstore s4 = qstore s" and "s_msgSvrQueueHandle s4 = 0"
    and "g_MsgShmAddr s4 = Some (started_shm c)"
proof -
  let ?h = "(shm_of_config c)\<lparr>taskTab := map (\<lambda>_. TASKTABInitUnit) (taskTab (shm_of_config c))\<rparr>"
  let ?s2 = "s1\<lparr>g_MsgShmAddr := Some ?h\<rparr>" and ?s3 = "s1\<lparr>g_MsgShmAddr := Some (started_shm c)\<rparr>"
  have ti: "TASK_TAB_Init s1 = Some (0, ?s2)" "task_inv ?s2" "task_map ?s2 = Map.empty"
    using task_inv_init [OF _ fits _ refl, of s1] assms(4) by (simp_all add: s1)
  have n: "length (subTab ?h) = unat (maxSubNum ?h)" "maxTaskNumInSub ?h = maxTaskNum ?h" "maxTaskNum ?h \<noteq> 0"
    using shm_complete(2) [OF fits refl] shm_config_nums [of c] by simp_all
  have s3: "?s3 = ?s2\<lparr>g_MsgShmAddr := Some (?h\<lparr>subTab := map (\<lambda>_. SUBTABInitUnit (unat (maxTaskNumInSub ?h))) (subTab ?h)\<rparr>)\<rparr>"
    by (simp add: started_shm_def Let_def)
  have si: "SUB_TAB_Init ?s2 = Some (0, ?s3)" "tabs_inv ?s3" "subs ?s3 = {}" "task_map ?s3 = Map.empty"
    using sub_inv_init [OF _ n ti(2) s3] ti(3) by simp_all
  obtain s4 where w: "MSG_RSPMNG_Init ?s3 = (HI_SUCCESS, s4)" by (cases "s_bFilterInited ?s3") (auto simp: MSG_RSPMNG_Init_def)
  have f: "s4 = ?s3 \<or> s4 = ?s3\<lparr>s_MsgRspMng := replicate MAX_MSG_RSP_NUM zero_rsp, s_bFilterInited := True\<rparr>"
    using w by (auto simp: MSG_RSPMNG_Init_def split: if_splits)
  have rk: "rsp_ok s4" using w assms(3) by (auto simp: MSG_RSPMNG_Init_def rsp_ok_def s1 split: if_splits)
  have e: "tabs_inv s4 = tabs_inv ?s3" "task_map s4 = task_map ?s3" "subs s4 = subs ?s3" "g_TaskData s4 = None" "qstore s4 = qstore s"
    "s_msgSvrQueueHandle s4 = 0" "g_MsgShmAddr s4 = Some (started_shm c)"
    using f assms(2,4) slots_upd [where s = ?s3] by (auto simp: s1)
  have "api_inv s4" using si(2,4) e rk by (simp add: api_inv_def sys_inv_def data_ok_def data_of_def names_ok_def)
  then show thesis using ti(1) si w e by (intro that [of ?s2 ?s3 s4]) auto
qed

text \<open>A start that succeeds.\<close>

lemma Main_started:
  assumes "\<not> SHM_Exist s" and "g_TaskData s = None" and "length (s_MsgRspMng s) = MAX_MSG_RSP_NUM" and "s_msgSvrQueueHandle s = 0"
    and "malloc_ok mq (qstore s)" and "c = (case cfg of None \<Rightarrow> default_config | Some c \<Rightarrow> c)" and fits: "shm_fits c"
    and qi: "MSG_QueueInit mq mem ''MSGSVR'' (32 * 1024) (qstore s) = Some (Inr a, qs)" and "\<not> thr < 0"
  obtains s' q where "VTOP_MSG_Main True mq mem thr base cfg s = Some (HI_SUCCESS, s')" and "api_inv s'" and "svr_inv s'"
    and "task_map s' = Map.empty" and "subs s' = {}" and "s_msgSvrQueueHandle s' = a" and "a \<noteq> 0" and "qstore s' = (qstore s)(a \<mapsto> q)"
    and "queue_abs q = []" and "queue_ok q" and "qshape q" and "\<forall>p. \<not> outstanding q p" and "g_MsgShmAddr s' = Some (started_shm c)"
proof -
  obtain s2 s3 s4 where T: "TASK_TAB_Init (s\<lparr>g_MsgShmAddr := Some (shm_of_config c)\<rparr>) = Some (0, s2)" "SUB_TAB_Init s2 = Some (0, s3)"
    "MSG_RSPMNG_Init s3 = (HI_SUCCESS, s4)" "api_inv s4" "task_map s4 = Map.empty" "subs s4 = {}" "qstore s4 = qstore s"
    "s_msgSvrQueueHandle s4 = 0" "g_MsgShmAddr s4 = Some (started_shm c)" by (rule Main_tables [OF fits assms(2-4) refl])
  obtain q where q: "a \<noteq> 0" "qs = (qstore s)(a \<mapsto> q)" "queue_ok q" "qshape q" "queue_abs q = []" "\<And>p. \<not> outstanding q p"
    by (rule QueueInit_new [OF assms(5) qi]) blast
  let ?s6 = "s4\<lparr>qstore := qs, s_msgSvrQueueHandle := a, s_bStopMsgProc := False\<rparr>"
  have "api_inv ?s6" using T q api_svr_upd [OF T(4) _ q(3,4), where a = a] by simp
  moreover have "svr_inv ?s6" using q by (simp add: svr_inv_def)
  moreover have "task_map ?s6 = Map.empty" "subs ?s6 = {}" using T(5,6) by (simp_all add: task_map_def subs_def fun_eq_iff)
  moreover have "VTOP_MSG_Main True mq mem thr base cfg s = Some (HI_SUCCESS, ?s6)"
    using assms(1,6,9) T(1-3,7,9) qi shm_head [OF fits] by (simp add: VTOP_MSG_Main_def SHM_Init_def HI_SUCCESS_def Let_def)
  ultimately show thesis using q T(9) by (intro that [of ?s6 q]) auto
qed

text \<open>Tables that do not fit into the address space: an initialisation leaves the memory that was allocated.\<close>

lemma Main_overflows:
  assumes "\<not> SHM_Exist s" and "c = (case cfg of None \<Rightarrow> default_config | Some c \<Rightarrow> c)" and "\<not> shm_fits c"
  shows "VTOP_MSG_Main True mq mem thr base cfg s = None"
proof (cases "shm_len (shm_of_config c) < sizeof_SHM")
  case True
  then show ?thesis using assms(1,2) by (simp add: VTOP_MSG_Main_def SHM_Init_def)
next
  case head: False
  let ?h = "shm_of_config c" and ?s1 = "s\<lparr>g_MsgShmAddr := Some (shm_of_config c)\<rparr>"
  have i: "SHM_Init True (Some (case cfg of None \<Rightarrow> default_config | Some c \<Rightarrow> c)) s = Some (0, ?s1)"
    using head assms(2) by (simp add: SHM_Init_def)
  show ?thesis
  proof (cases "length (taskTab ?h) < unat (maxTaskNum ?h)")
    case True
    then show ?thesis using assms(1) i TASK_TAB_Init_short [of ?s1 ?h] by (simp add: VTOP_MSG_Main_def)
  next
    case False
    let ?h2 = "?h\<lparr>taskTab := map (\<lambda>_. TASKTABInitUnit) (taskTab ?h)\<rparr>"
    have t: "TASK_TAB_Init ?s1 = Some (0, ?s1\<lparr>g_MsgShmAddr := Some ?h2\<rparr>)" using False by (simp add: TASK_TAB_Init_def init_tasks_def)
    have "length (taskTab ?h) = unat (maxTaskNum ?h)" using False shm_config_sizes(4) [of ?h c] by simp
    then have "length (subTab ?h) < unat (maxSubNum ?h)" using shm_short [OF assms(3) refl] head by simp
    then have "SUB_TAB_Init (?s1\<lparr>g_MsgShmAddr := Some ?h2\<rparr>) = None" by (intro SUB_TAB_Init_short [of _ ?h2]) simp_all
    then show ?thesis using assms(1) i t by (simp add: VTOP_MSG_Main_def)
  qed
qed

text \<open>
  C2: \<open>VTOP_MSG_Main\<close> returns when the tables of the configuration fit into the address space or their memory cannot be allocated. On failure the message system
  does not exist afterwards. On success the interface's and the server's invariants hold, there are no tasks and no subscriptions, the server's queue is
  empty, and no other queue has changed. When the tables do not fit, the size that is allocated has wrapped around and the start writes outside of the memory.
\<close>

theorem Main_outcome:
  assumes "\<not> SHM_Exist s" and "g_TaskData s = None" and "length (s_MsgRspMng s) = MAX_MSG_RSP_NUM" and "s_msgSvrQueueHandle s = 0"
    and "malloc_ok mq (qstore s)" and c: "c = (case cfg of None \<Rightarrow> default_config | Some c \<Rightarrow> c)"
  shows "if mshm \<and> \<not> shm_fits c then VTOP_MSG_Main mshm mq mem thr base cfg s = None
    else \<exists>ret s'. VTOP_MSG_Main mshm mq mem thr base cfg s = Some (ret, s') \<and> (ret < 0 \<longrightarrow> \<not> SHM_Exist s') \<and>
      (ret \<ge> 0 \<longrightarrow> ret = HI_SUCCESS \<and> api_inv s' \<and> svr_inv s' \<and> task_map s' = Map.empty \<and> subs s' = {} \<and>
        (\<exists>q. qstore s' = (qstore s)(MSG_GetSvrHandle s' \<mapsto> q) \<and> queue_abs q = [] \<and> (\<forall>p. \<not> outstanding q p)))"
proof (cases mshm)
  case False
  have g: "g_MsgShmAddr s = None" using assms(1) by (simp add: SHM_Exist_def)
  have "deinit_TASK_TAB s = Some s" using g by (simp add: deinit_TASK_TAB_def TASK_TAB_DeInit_def TASK_TAB_GetMaxTaskNum_def SHM_DeInit_def)
  then have "VTOP_MSG_Main mshm mq mem thr base cfg s = Some (VTOP_MSG_ERR_SHMATTCH, s)"
    using False assms(1) g by (simp add: VTOP_MSG_Main_def SHM_Init_def TASK_TAB_Init_def TASKGetAddr_def)
  moreover have "0 \<le> VTOP_MSG_ERR_SHMATTCH \<longrightarrow> P" for P using err_codes_negative(7) by linarith
  ultimately show ?thesis using assms(1) False by auto
next
  case mshm: True
  show ?thesis
  proof (cases "shm_fits c")
    case False
    then show ?thesis using mshm Main_overflows [OF assms(1) c] by simp
  next
    case fits: True
    obtain s2 s3 s4 where T: "TASK_TAB_Init (s\<lparr>g_MsgShmAddr := Some (shm_of_config c)\<rparr>) = Some (0, s2)"
      "SUB_TAB_Init s2 = Some (0, s3)" "MSG_RSPMNG_Init s3 = (HI_SUCCESS, s4)" "qstore s4 = qstore s"
      "g_MsgShmAddr s4 = Some (started_shm c)" by (rule Main_tables [OF fits assms(2-4) refl])
    have gone: "\<exists>s'. deinit_RSPMNG base (s4\<lparr>qstore := x\<rparr>) = Some s' \<and> \<not> SHM_Exist s'"
      "\<exists>s'. deinit_RSPMNG base (s4\<lparr>qstore := x, s_msgSvrQueueHandle := y, s_bStopMsgProc := z\<rparr>) = Some s' \<and> \<not> SHM_Exist s'" for x y z
      by (rule deinit_gone [OF fits], simp add: T(5))+
    obtain r qs where qi: "MSG_QueueInit mq mem ''MSGSVR'' (32 * 1024) (qstore s) = Some (r, qs)" "\<forall>e. r = Inl e \<longrightarrow> e < 0 \<and> qs = qstore s"
      using QueueInit_total by blast
    show ?thesis
    proof (cases "thr < 0 \<or> (\<exists>e. r = Inl e)")
      case True
      then show ?thesis using mshm fits assms(1) c T qi gone(1) [where x = qs] gone(2) [where x = qs] shm_head [OF fits]
        by (cases r) (auto simp: VTOP_MSG_Main_def SHM_Init_def HI_SUCCESS_def Let_def)
    next
      case False
      then obtain a where a: "r = Inr a" and th: "\<not> thr < 0" by (cases r) auto
      show ?thesis
        by (rule Main_started [OF assms(1-5) c fits qi(1) [unfolded a] th, where base = base])
           (use mshm fits in \<open>auto simp: HI_SUCCESS_def MSG_GetSvrHandle_def\<close>)
    qed
  qed
qed

section \<open>Samples\<close>

definition svr_qmalloc :: QUEUE_MALLOC where
  "svr_qmalloc = sample_qmalloc\<lparr>queue_at := Some 0x200\<rparr>"

lemma svr_malloc_ok: "malloc_ok svr_qmalloc Map.empty"
  by (simp add: svr_qmalloc_def malloc_ok_def sample_qmalloc_def sample_malloc_def)

lemma sys0_start: "\<not> SHM_Exist sys0" "g_TaskData sys0 = None" "length (s_MsgRspMng sys0) = MAX_MSG_RSP_NUM" "s_msgSvrQueueHandle sys0 = 0"
  "malloc_ok svr_qmalloc (qstore sys0)"
  using svr_malloc_ok by (simp_all add: SHM_Exist_def sys0_def)

lemma svr_QueueInit: "\<exists>qs'. MSG_QueueInit svr_qmalloc mem nm (32 * 1024) qs = Some (Inr 0x200, qs')"
proof -
  obtain qs' where "MSG_QueueInit sample_qmalloc mem nm 32768 qs = Some (Inr 0x100, qs')" using QueueInit_sample by blast
  from MSG_QueueInit_Inr [OF this] obtain ctx where "MB_Init (queue_mb sample_qmalloc) True (Some (queue_buffer nm)) = Some (Inr ctx)" by blast
  then show ?thesis by (simp add: MSG_QueueInit_def svr_qmalloc_def)
qed

text \<open>The default configuration starts; with room for \<open>2 ^ 27\<close> tasks the size wraps around.\<close>

definition huge_config :: VTOP_MSG_S_Config where
  "huge_config = default_config\<lparr>ulMaxTask := 0x08000000\<rparr>"

theorem Main_outcome_witness:
  "(\<exists>s'. VTOP_MSG_Main True svr_qmalloc (\<lambda>_. sample_msg 0) 0 0x5000 None sys0 = Some (HI_SUCCESS, s') \<and> api_inv s' \<and> svr_inv s') \<and>
   VTOP_MSG_Main True svr_qmalloc (\<lambda>_. sample_msg 0) 0 0x5000 (Some huge_config) sys0 = None"
proof
  obtain qs where "MSG_QueueInit svr_qmalloc (\<lambda>_. sample_msg 0) ''MSGSVR'' (32 * 1024) (qstore sys0) = Some (Inr 0x200, qs)"
    using svr_QueueInit by blast
  then obtain s0 where "VTOP_MSG_Main True svr_qmalloc (\<lambda>_. sample_msg 0) 0 0x5000 None sys0 = Some (HI_SUCCESS, s0)"
    by (rule Main_started [OF sys0_start _ default_config_fits, where thr = 0 and cfg = None and base = "0x5000", rotated]) simp_all
  with Main_outcome [OF sys0_start refl, where mshm = True and mem = "\<lambda>_. sample_msg 0" and thr = 0 and base = "0x5000" and cfg = None] default_config_fits
  show "\<exists>s'. VTOP_MSG_Main True svr_qmalloc (\<lambda>_. sample_msg 0) 0 0x5000 None sys0 = Some (HI_SUCCESS, s') \<and> api_inv s' \<and> svr_inv s'"
    by (auto simp: HI_SUCCESS_def)
  have "\<not> shm_fits huge_config"
    by (simp add: shm_fits_def shm_bytes_def shm_of_config_def huge_config_def default_config_def Let_def GET_VALUE_def VTOP_MSG_DEFAULT_MAX_SUB_def)
  with Main_outcome [OF sys0_start refl, where mshm = True and mem = "\<lambda>_. sample_msg 0" and thr = 0 and base = "0x5000" and cfg = "Some huge_config"]
  show "VTOP_MSG_Main True svr_qmalloc (\<lambda>_. sample_msg 0) 0 0x5000 (Some huge_config) sys0 = None" by simp
qed

text \<open>A started system, with a task 0 that subscribes to the type 5.\<close>

lemma started_sample:
  obtains s q where "api_inv s" and "svr_inv s" and "task_map s = Map.empty" and "subs s = {}" and "s_msgSvrQueueHandle s = 0x200"
    and "qstore s = [0x200 \<mapsto> q]" and "queue_abs q = []" and "\<forall>p. \<not> outstanding q p" and "g_MsgShmAddr s = Some (started_shm small_config)"
proof -
  obtain qs where qi: "MSG_QueueInit svr_qmalloc (\<lambda>_. sample_msg 0) ''MSGSVR'' (32 * 1024) (qstore sys0) = Some (Inr 0x200, qs)"
    using svr_QueueInit by blast
  have e: "qstore sys0 = Map.empty" by (simp add: sys0_def)
  show thesis
    by (rule Main_started [OF sys0_start _ small_fits qi, where cfg = "Some small_config" and thr = 0])
       (use that e in auto)
qed

lemma started_shm_small: "counter_taskId (started_shm small_config) = 0"
  "scan (\<lambda>u. taskId u = VTOP_INVALID_TASK_ID) (taskTab (started_shm small_config)) = Some 0"
  "\<exists>u \<in> set (subTab (started_shm small_config)). subType u = VTOP_INVALID_MSG_TYPE"
  by (simp_all add: started_shm_def small_shm Let_def TASKTABInitUnit_def SUBTABInitUnit_def)

lemma subscribed_sample:
  obtains s u v q where "api_inv s" and "svr_inv s" and "task_map s = [0 \<mapsto> u]" and "handle u \<noteq> 0" and "qstore s (handle u) = Some v"
    and "subs s = {(5, 0)}" and "qstore s (s_msgSvrQueueHandle s) = Some q" and "queue_abs q = []" and "\<forall>p. \<not> outstanding q p"
    and "queue_abs v = []" and "\<forall>p. \<not> outstanding v p" and "first_subscriber 5 s = Some 0"
proof -
  obtain s0 q where S: "api_inv s0" "svr_inv s0" "task_map s0 = Map.empty" "subs s0 = {}" "s_msgSvrQueueHandle s0 = 0x200"
    "qstore s0 = [0x200 \<mapsto> q]" "queue_abs q = []" "\<forall>p. \<not> outstanding q p" "g_MsgShmAddr s0 = Some (started_shm small_config)"
    by (rule started_sample)
  note I = api_invD [OF S(1)]
  obtain qs where "MSG_QueueInit sample_qmalloc (\<lambda>_. sample_msg 0) (strcut VTOP_MSG_MAX_TASK_NAME_LEN ''ui'')
      MSG_DEFAULT_QUEUE_SIZE (qstore s0) = Some (Inr 0x100, qs)"
    unfolding MSG_DEFAULT_QUEUE_SIZE_def using QueueInit_sample by force
  then obtain s1 where add: "TASK_TAB_Add2 sample_qmalloc (\<lambda>_. sample_msg 0) ''ui'' TASK_OWNER_TASK s0 = Some (0, s1)"
    using S(9) started_shm_small by (auto simp: TASK_TAB_Add2_def Let_def)
  have ml: "malloc_ok sample_qmalloc (qstore s0)" by (simp add: S(6) malloc_ok_def sample_qmalloc_def sample_malloc_def)
  have c: "counter_taskId (started_shm small_config) < VTOP_MAX_TASK_ID" by (simp add: started_shm_small VTOP_MAX_TASK_ID_def)
  from I(3) S(9) c ml add obtain u v where A: "task_inv s1" "task_frame s1 = task_frame s0" "task_map s1 = (task_map s0)(0 \<mapsto> u)"
    "handle u \<noteq> 0" "qstore s0 (handle u) = None" "qstore s1 = (qstore s0)(handle u \<mapsto> v)" "queue_abs v = []" "\<forall>p. \<not> outstanding v p"
    by (cases rule: Add2_cases) (auto simp: VTOP_INVALID_TASK_ID_def)
  have tb: "tabs_inv s1" "subs s1 = {}" using tabs_inv_frame [OF I(2) A(1,2)] S(4) by auto
  note fr = task_frameD [OF A(2)]
  obtain h1 where h1: "g_MsgShmAddr s1 = Some h1" using tb(1) by (auto simp: tabs_inv_def)
  have fu: "\<exists>u \<in> set (subTab h1). subType u = VTOP_INVALID_MSG_TYPE" using fr(6) [OF S(9) h1] started_shm_small(3) by simp
  obtain r s where sub: "SUB_TAB_Add 5 0 s1 = (r, s)" by force
  have kn: "sub_known s1 5 0" by (simp add: sub_known_def VTOP_INVALID_MSG_TYPE_def VTOP_INVALID_TASK_ID_def)
  have R: "tabs_inv s" "subs s = {(5, 0)}" "sub_frame s = sub_frame s1"
    using Add_outcome [OF tb(1) kn h1 sub] A(3) tb(2) fu by (auto split: if_splits)
  note sf = sub_frameD [OF R(3)]
  have svr: "s_msgSvrQueueHandle s = 0x200" using arg_cong [OF R(3), of s_msgSvrQueueHandle] fr(3) S(5) by (simp add: sub_frame_def)
  have rk: "rsp_ok s" using I(5) sf(2,3) fr(1,2) by (simp add: rsp_ok_def)
  have tm: "task_map s = [0 \<mapsto> u]" using sf(5) A(3) S(3) by simp
  have dt: "data_of s = []" using sf(4) fr(4) I(6) S(3) by (auto simp: data_ok_def data_of_def split: option.splits)
  have api: "api_inv s" using R(1) rk dt tm by (simp add: api_inv_def sys_inv_def data_ok_def names_ok_def)
  have q: "qstore s (handle u) = Some v" "qstore s (s_msgSvrQueueHandle s) = Some q"
    using sf(1) A(5,6) S(6) by (auto simp: svr split: if_splits)
  have ex: "TASK_TAB_IsTaskIdExist 0 s1" using IsTaskIdExist_map [of 0 s1] A(3) by (simp add: VTOP_INVALID_TASK_ID_def)
  have tab: "subTab h1 = [SUBTABInitUnit 2, SUBTABInitUnit 2]" using fr(6) [OF S(9) h1] by (simp add: started_shm_def small_shm Let_def)
  have two: "SUBTABInitUnit 2 = \<lparr>subType = VTOP_INVALID_MSG_TYPE, taskIdList = [VTOP_INVALID_TASK_ID, VTOP_INVALID_TASK_ID]\<rparr>"
    by (simp add: SUBTABInitUnit_def numeral_2_eq_2)
  have ne: "VTOP_INVALID_MSG_TYPE \<noteq> 5" "VTOP_INVALID_TASK_ID \<noteq> 0" by (simp_all add: VTOP_INVALID_MSG_TYPE_def VTOP_INVALID_TASK_ID_def)
  have "s = set_sub h1 0 \<lparr>subType = 5, taskIdList = [0, VTOP_INVALID_TASK_ID]\<rparr> s1"
    using sub ex h1 tab ne by (simp add: SUB_TAB_Add_def SUB_TAB_IsExist_def two)
  then have "first_subscriber 5 s = Some 0" using tab ne by (simp add: set_sub_def first_subscriber_def)
  moreover have "svr_inv s" using q(2) S(7) svr by (simp add: svr_inv_def)
  ultimately show thesis using api tm A(4,7,8) q R(2) S(7,8) by (intro that [of s u v q]) auto
qed

lemma subs_known_type: "tabs_inv s \<Longrightarrow> (t, i) \<in> subs s \<Longrightarrow> SUB_TAB_IsExist t s \<noteq> None"
  by (auto simp: tabs_inv_def subs_def tab_subs_def unit_subs_def SUB_TAB_IsExist_def SUBGetAddr_def scan_exists split: option.splits if_splits)

lemma Publish_succeeds:
  assumes inv: "api_inv s" "svr_inv s" and q: "qstore s (s_msgSvrQueueHandle s) = Some q" "length (queue_abs q) < 128" "\<forall>p. \<not> outstanding q p"
    and len: "ulMsgLen b \<le> 212" "\<not> body_mismatch b" and ex: "SUB_TAB_IsExist (msgType b) s \<noteq> None"
  shows "\<exists>b' s'. VTOP_MSG_Publish junk (Some b) s = Some (HI_SUCCESS, b', s')"
proof -
  note I = api_invD [OF inv(1)]
  obtain qk: "queue_ok q" "qshape q" and a: "s_msgSvrQueueHandle s \<noteq> 0" by (rule svr_queue [OF inv]) (use q in auto)
  obtain c s1 where g: "getMsgID s = (Inr c, s1)" "qstore s1 = qstore s" by (rule getMsgID_running [OF I(2)])
  let ?m = "async_inner junk (b\<lparr>msgID := c\<rparr>) VTOP_MSG_FLG_SP"
  have lm: "ulMsgLen (msg ?m) \<le> 212" "\<not> body_mismatch (msg ?m)" using len by (simp_all add: body_mismatch_def)
  obtain q' where "MSG_QueuePut (s_msgSvrQueueHandle s) (Some ?m) (qstore s) = Some (HI_SUCCESS, (qstore s)(s_msgSvrQueueHandle s \<mapsto> q'))"
    using queue_accepts [where h = "s_msgSvrQueueHandle s" and qs = "qstore s", OF qk q(2,3) a q(1) lm] by blast
  then show ?thesis using g I(8) a ex by (auto simp: VTOP_MSG_Publish_def MSG_PublishMsg_def send_async_def Let_def)
qed

text \<open>A thread that publishes keeps what the server relies on.\<close>

definition publisher :: "VTOP_MSG_S_InnerBlock \<Rightarrow> VTOP_MSG_S_Block \<Rightarrow> msg_sys \<Rightarrow> msg_sys" where
  "publisher junk b s = (case VTOP_MSG_Publish junk (Some b) s of None \<Rightarrow> s | Some (ret, b', s') \<Rightarrow> s')"

lemma QueuePut_bodies:
  assumes "MSG_QueuePut h (Some m) qs = Some (ret, qs')" and "qs h = Some q" "qs' h = Some q'" "queue_ok q" "outstanding q p"
  shows "bodies q' p = bodies q p"
proof (cases "q' = q")
  case False
  then have "snd (queue_put q m) = q'" using assms(1-3) by (auto simp: MSG_QueuePut_def split: if_splits prod.splits)
  then obtain r where put: "queue_put q m = (r, q')" by (metis prod.collapse)
  have "mb_live (bufHandle q) p" using assms(5) by (simp add: outstanding_def)
  then show ?thesis using put queue_put_stored(4) [OF assms(4), of m q' p]
    by (cases "MB_Alloc (bufHandle q) (ulMsgLen (msg m) + MSG_INNER_HEAD_LEN)") (auto simp: queue_put_def Let_def split: option.splits)
qed simp

lemma publisher_keeps:
  assumes inv: "api_inv s" "svr_inv s"
  shows "api_inv (publisher junk b s)" "svr_inv (publisher junk b s)" "s_msgSvrQueueHandle (publisher junk b s) = s_msgSvrQueueHandle s"
    "task_map (publisher junk b s) = task_map s"
    "qstore s (s_msgSvrQueueHandle s) = Some q \<Longrightarrow> outstanding q p \<Longrightarrow>
     \<exists>q'. qstore (publisher junk b s) (s_msgSvrQueueHandle s) = Some q' \<and> outstanding q' p \<and> bodies q' p = bodies q p"
proof -
  let ?a = "s_msgSvrQueueHandle s"
  note I = api_invD [OF inv(1)]
  obtain q0 where q0: "qstore s ?a = Some q0" and ok: "queue_ok q0" "qshape q0" "\<forall>m \<in> set (queue_abs q0). sp_flags m" and a: "?a \<noteq> 0" by (rule svr_queue [OF inv])
  obtain ret b' s' q' mid where r: "send_async junk ?a b VTOP_MSG_FLG_SP s = Some (ret, b', s')" "tabs_inv s'" "task_map s' = task_map s"
    "subs s' = subs s" "qstore s' = (qstore s)(?a \<mapsto> q')" "queue_abs q' = queue_abs q0 @ (if ret = HI_SUCCESS then [MSG_COPY2BUF (async_inner junk b' VTOP_MSG_FLG_SP)] else [])"
    "s_MsgRspMng s' = s_MsgRspMng s" "s_msgSvrQueueHandle s' = ?a" "g_TaskData s' = g_TaskData s" "s_bFilterInited s' = s_bFilterInited s"
    "\<forall>x. outstanding q' x = outstanding q0 x"
    by (rule send_async_running [OF I(2) a q0 ok(1,2)]) blast
  have pub: "publisher junk b s = s' \<or> publisher junk b s = s"
    using r(1) by (auto simp: publisher_def VTOP_MSG_Publish_def MSG_PublishMsg_def split: option.splits bind_splits)
  have api: "api_inv s'" using I r(2,3,7-10) by (simp add: api_inv_def sys_inv_def rsp_ok_def data_ok_def data_of_def names_ok_def)
  have "sp_flags (MSG_COPY2BUF (async_inner junk b' VTOP_MSG_FLG_SP))" by (simp add: sp_flags_def flag_defs)
  then have svr: "svr_inv s'" using r(5,6,8) a ok(3) by (auto simp: svr_inv_def)
  show "api_inv (publisher junk b s)" "svr_inv (publisher junk b s)" "s_msgSvrQueueHandle (publisher junk b s) = ?a"
    "task_map (publisher junk b s) = task_map s" using pub api svr inv r(3,8) by auto
  have body: "bodies q' p = bodies q0 p" if "outstanding q0 p"
  proof -
    obtain c s1 where g: "getMsgID s = (Inr c, s1)" "qstore s1 = qstore s" by (rule getMsgID_running [OF I(2)])
    obtain m where "MSG_QueuePut ?a (Some m) (qstore s) = Some (ret, qstore s')"
      using r(1) a g by (auto simp: send_async_def Let_def split: bind_splits)
    then show ?thesis by (rule QueuePut_bodies) (use q0 r(5) ok(1) that in auto)
  qed
  show "\<exists>q'. qstore (publisher junk b s) ?a = Some q' \<and> outstanding q' p \<and> bodies q' p = bodies q p"
    if "qstore s ?a = Some q" "outstanding q p" using pub that q0 r(5,11) body by auto
qed

lemma publisher_well_behaved:
  "well_behaved \<lparr>at_get = publisher j b, at_sub = publisher j b, at_handle = (\<lambda>_. publisher j b), at_put = (\<lambda>_. publisher j b),
     at_free = publisher j b, at_end = publisher j b\<rparr>"
proof -
  have "others_keep (publisher j b)" unfolding others_keep_def using publisher_keeps [where junk = j and b = b] by blast
  moreover have "tasks_stay (publisher j b)" unfolding tasks_stay_def using publisher_keeps(4) by fastforce
  ultimately show ?thesis by (simp add: well_behaved_def)
qed

theorem publish_first_only_witness:
  "\<exists>s u v b' s1 s2 v' m. subs s = {(5, 0)} \<and> task_map s = [0 \<mapsto> u] \<and> qstore s (handle u) = Some v \<and> queue_abs v = [] \<and>
     VTOP_MSG_Publish (sample_msg 0) (Some (sample_block 5)) s = Some (HI_SUCCESS, b', s1) \<and>
     rcv_dispatch undisturbed s1 = Some s2 \<and> qstore s2 (handle u) = Some v' \<and> queue_abs v' = [m] \<and> rcvTaskId (msg m) = 0 \<and> msgType (msg m) = 5"
proof -
  obtain s u v q where s: "api_inv s" "svr_inv s" "subs s = {(5, 0)}" "qstore s (s_msgSvrQueueHandle s) = Some q" "queue_abs q = []"
    "\<forall>p. \<not> outstanding q p" "task_map s = [0 \<mapsto> u]" "handle u \<noteq> 0" "qstore s (handle u) = Some v" "queue_abs v = []" "\<forall>p. \<not> outstanding v p"
    "first_subscriber 5 s = Some 0" by (rule subscribed_sample)
  have b: "ulMsgLen (sample_block 5) \<le> 212" "\<not> body_mismatch (sample_block 5)" "msgType (sample_block 5) = 5"
    by (simp_all add: sample_block_def body_mismatch_def)
  have ex: "SUB_TAB_IsExist 5 s \<noteq> None" using subs_known_type [OF api_invD(2) [OF s(1)], of 5 0] s(3) by simp
  obtain b' s1 where pub: "VTOP_MSG_Publish (sample_msg 0) (Some (sample_block 5)) s = Some (HI_SUCCESS, b', s1)"
    using Publish_succeeds [OF s(1,2,4) _ s(6) b(1,2)] s(5) ex b(3) by force
  from publish_first_only [OF s(1,2,4,5) pub] obtain s2 v' m where "rcv_dispatch undisturbed s1 = Some s2" "qstore s2 (handle u) = Some v'"
    "queue_abs v' = [m]" "rcvTaskId (msg m) = 0" "msgType (msg m) = 5"
    using s(7-12) b by fastforce
  with pub s(3,7,9,10) show ?thesis by blast
qed

text \<open>The server runs while another thread publishes between any two of its calls.\<close>

theorem server_runs_witness:
  "\<exists>s s'. svr_inv s \<and> MSG_PROC_RcvAndDispatch True (replicate 3 \<lparr>at_get = publisher (sample_msg 0) (sample_block 5), at_sub = publisher (sample_msg 0) (sample_block 5),
     at_handle = (\<lambda>_. publisher (sample_msg 0) (sample_block 5)), at_put = (\<lambda>_. publisher (sample_msg 0) (sample_block 5)),
     at_free = publisher (sample_msg 0) (sample_block 5), at_end = publisher (sample_msg 0) (sample_block 5)\<rparr>) s = Some s' \<and> svr_inv s'"
proof -
  let ?w = "\<lparr>at_get = publisher (sample_msg 0) (sample_block 5), at_sub = publisher (sample_msg 0) (sample_block 5),
     at_handle = (\<lambda>_. publisher (sample_msg 0) (sample_block 5)), at_put = (\<lambda>_. publisher (sample_msg 0) (sample_block 5)),
     at_free = publisher (sample_msg 0) (sample_block 5), at_end = publisher (sample_msg 0) (sample_block 5)\<rparr>"
  obtain s q where s: "api_inv s" "svr_inv s" by (rule subscribed_sample)
  have "\<forall>w \<in> set (replicate 3 ?w). well_behaved w" using publisher_well_behaved by simp
  from server_runs [OF s this, of True] s(2) show ?thesis by blast
qed

end
