(* ===== verification/Hashmap.thy ===== *)
theory Hashmap
  imports Prelude "HOL-Library.Multiset"
begin

text \<open>
  The hash map of \<open>cutils/hashmap.c\<close>. Keys and values are \<open>void*\<close>, 32-bit words with 0 for \<open>NULL\<close>; a bucket is the list of the
  entries of its chain. The user's \<open>hash\<close> and \<open>equals\<close> functions are fields of the map, as in the source; \<open>hm_contract\<close> is what
  the code relies on of them. The map is shown to implement a finite map on the classes of equal keys.
\<close>

unbundle bit_operations_syntax

section \<open>Operations\<close>

record Entry =
  key :: u32
  hash :: u32
  val :: u32

record Hashmap =
  buckets :: "Entry list list"
  bucketCount :: u32
  hash_fn :: "u32 \<Rightarrow> u32"
  equals :: "u32 \<Rightarrow> u32 \<Rightarrow> bool"
  hm_size :: u32

text \<open>The loop of \<open>hashmapCreate\<close>: double until the count exceeds the minimum. A loop that does not end is \<open>None\<close>.\<close>

partial_function (option) grow_count :: "u32 \<Rightarrow> u32 \<Rightarrow> u32 option" where
  "grow_count minimum n = (if n \<le> minimum then grow_count minimum (push_bit 1 n) else Some n)"

text \<open>\<open>mal\<close> and \<open>cal\<close> say whether \<open>malloc\<close> and \<open>calloc\<close> succeed; \<open>None\<close> inside the result is \<open>NULL\<close>.\<close>

definition hashmapCreate :: "bool \<Rightarrow> bool \<Rightarrow> u32 \<Rightarrow> (u32 \<Rightarrow> u32) \<Rightarrow> (u32 \<Rightarrow> u32 \<Rightarrow> bool) \<Rightarrow> Hashmap option run" where
  "hashmapCreate mal cal initialCapacity h eq =
     (if \<not> mal then Some None
      else do {
        n \<leftarrow> grow_count (initialCapacity * 4 div 3) 1;
        Some (if \<not> cal then None
              else Some \<lparr>buckets = replicate (unat n) [], bucketCount = n, hash_fn = h, equals = eq, hm_size = 0\<rparr>)
      })"

definition hashKey :: "(u32 \<Rightarrow> u32) \<Rightarrow> u32 \<Rightarrow> u32" where
  "hashKey f k =
     (let h0 = f k;
          h1 = h0 + NOT (push_bit 9 h0);
          h2 = h1 XOR drop_bit 14 h1;
          h3 = h2 + push_bit 4 h2
      in h3 XOR drop_bit 10 h3)"

definition hashmapSize :: "Hashmap \<Rightarrow> u32" where
  "hashmapSize m = hm_size m"

definition calculateIndex :: "u32 \<Rightarrow> u32 \<Rightarrow> u32" where
  "calculateIndex n h = h AND (n - 1)"

text \<open>Moving an entry to the front of its new bucket.\<close>

definition move_entry :: "u32 \<Rightarrow> Entry \<Rightarrow> Entry list list \<Rightarrow> Entry list list" where
  "move_entry n e bs = (let i = unat (calculateIndex n (hash e)) in bs[i := e # bs ! i])"

definition expandIfNecessary :: "bool \<Rightarrow> Hashmap \<Rightarrow> Hashmap" where
  "expandIfNecessary cal m =
     (if hm_size m > bucketCount m * 3 div 4
      then let n = push_bit 1 (bucketCount m) in
        if \<not> cal then m
        else m\<lparr>buckets := fold (fold (move_entry n)) (buckets m) (replicate (unat n) []), bucketCount := n\<rparr>
      else m)"

fun hash_bytes :: "u32 \<Rightarrow> u8 list \<Rightarrow> u32" where
  "hash_bytes h [] = h"
| "hash_bytes h (c # cs) = hash_bytes (h * 31 + ucast c) cs"

definition hashmapHash :: "u8 list \<Rightarrow> u32" where
  "hashmapHash bytes = hash_bytes (of_nat (length bytes)) bytes"

definition createEntry :: "u32 \<Rightarrow> u32 \<Rightarrow> u32 \<Rightarrow> Entry" where
  "createEntry k h v = \<lparr>key = k, hash = h, val = v\<rparr>"

definition equalKeys :: "u32 \<Rightarrow> u32 \<Rightarrow> u32 \<Rightarrow> u32 \<Rightarrow> (u32 \<Rightarrow> u32 \<Rightarrow> bool) \<Rightarrow> bool" where
  "equalKeys ka ha kb hb eq = (if ka = kb then True else if ha \<noteq> hb then False else eq ka kb)"

text \<open>The loop along a chain that all operations share: the position of the first entry with an equal key.\<close>

definition find_entry :: "(u32 \<Rightarrow> u32 \<Rightarrow> bool) \<Rightarrow> u32 \<Rightarrow> u32 \<Rightarrow> Entry list \<Rightarrow> nat option" where
  "find_entry eq k h c = scan (\<lambda>e. equalKeys (key e) (hash e) k h eq) c"

definition key_hash :: "Hashmap \<Rightarrow> u32 \<Rightarrow> u32" where
  "key_hash m k = hashKey (hash_fn m) k"

definition key_index :: "Hashmap \<Rightarrow> u32 \<Rightarrow> nat" where
  "key_index m k = unat (calculateIndex (bucketCount m) (key_hash m k))"

definition hashmapPut :: "bool \<Rightarrow> bool \<Rightarrow> u32 \<Rightarrow> u32 \<Rightarrow> Hashmap \<Rightarrow> u32 \<times> Hashmap" where
  "hashmapPut mal cal k v m =
     (let i = key_index m k; c = buckets m ! i in
      case find_entry (equals m) k (key_hash m k) c of
        None \<Rightarrow>
          if \<not> mal then (0, m)
          else (0, expandIfNecessary cal (m\<lparr>buckets := (buckets m)[i := c @ [createEntry k (key_hash m k) v]],
                                            hm_size := hm_size m + 1\<rparr>))
      | Some j \<Rightarrow> (val (c ! j), m\<lparr>buckets := (buckets m)[i := c[j := (c ! j)\<lparr>val := v\<rparr>]]\<rparr>))"

definition hashmapGet :: "u32 \<Rightarrow> Hashmap \<Rightarrow> u32" where
  "hashmapGet k m =
     (let c = buckets m ! key_index m k in
      case find_entry (equals m) k (key_hash m k) c of None \<Rightarrow> 0 | Some j \<Rightarrow> val (c ! j))"

definition hashmapContainsKey :: "u32 \<Rightarrow> Hashmap \<Rightarrow> bool" where
  "hashmapContainsKey k m = (find_entry (equals m) k (key_hash m k) (buckets m ! key_index m k) \<noteq> None)"

text \<open>\<open>hashmapMemoize\<close>; \<open>initialValue\<close> is the user's function, applied to the context.\<close>

definition hashmapMemoize :: "bool \<Rightarrow> bool \<Rightarrow> u32 \<Rightarrow> (u32 \<Rightarrow> u32) \<Rightarrow> Hashmap \<Rightarrow> u32 \<times> Hashmap" where
  "hashmapMemoize mal cal k initialValue m =
     (let i = key_index m k; c = buckets m ! i in
      case find_entry (equals m) k (key_hash m k) c of
        None \<Rightarrow>
          if \<not> mal then (0, m)
          else (initialValue k,
                expandIfNecessary cal (m\<lparr>buckets := (buckets m)[i := c @ [createEntry k (key_hash m k) (initialValue k)]],
                                         hm_size := hm_size m + 1\<rparr>))
      | Some j \<Rightarrow> (val (c ! j), m))"

definition hashmapRemove :: "u32 \<Rightarrow> Hashmap \<Rightarrow> u32 \<times> Hashmap" where
  "hashmapRemove k m =
     (let i = key_index m k; c = buckets m ! i in
      case find_entry (equals m) k (key_hash m k) c of
        None \<Rightarrow> (0, m)
      | Some j \<Rightarrow> (val (c ! j), m\<lparr>buckets := (buckets m)[i := take j c @ drop (Suc j) c], hm_size := hm_size m - 1\<rparr>))"

text \<open>\<open>hashmapForEach\<close>: the user's function sees the entries in the order of the buckets until it returns false.\<close>

fun for_each :: "(u32 \<Rightarrow> u32 \<Rightarrow> 'c \<Rightarrow> bool \<times> 'c) \<Rightarrow> Entry list \<Rightarrow> 'c \<Rightarrow> 'c" where
  "for_each cb [] ctx = ctx"
| "for_each cb (e # es) ctx = (case cb (key e) (val e) ctx of (b, ctx') \<Rightarrow> if \<not> b then ctx' else for_each cb es ctx')"

definition hashmapForEach :: "(u32 \<Rightarrow> u32 \<Rightarrow> 'c \<Rightarrow> bool \<times> 'c) \<Rightarrow> Hashmap \<Rightarrow> 'c \<Rightarrow> 'c" where
  "hashmapForEach cb m ctx = for_each cb (concat (buckets m)) ctx"

definition hashmapCurrentCapacity :: "Hashmap \<Rightarrow> u32" where
  "hashmapCurrentCapacity m = bucketCount m * 3 div 4"

text \<open>One collision for every entry that has a next one.\<close>

fun chain_collisions :: "Entry list \<Rightarrow> u32" where
  "chain_collisions [] = 0"
| "chain_collisions (e # es) = (if es \<noteq> [] then 1 else 0) + chain_collisions es"

definition hashmapCountCollisions :: "Hashmap \<Rightarrow> u32" where
  "hashmapCountCollisions m = fold (\<lambda>c n. n + chain_collisions c) (buckets m) 0"

section \<open>Invariant and abstraction\<close>

text \<open>What the code relies on of the user's functions: an equivalence that the hash respects.\<close>

definition hm_contract :: "(u32 \<Rightarrow> u32) \<Rightarrow> (u32 \<Rightarrow> u32 \<Rightarrow> bool) \<Rightarrow> bool" where
  "hm_contract h eq \<longleftrightarrow> (\<forall>a. eq a a) \<and> (\<forall>a b. eq a b \<longrightarrow> eq b a) \<and> (\<forall>a b c. eq a b \<longrightarrow> eq b c \<longrightarrow> eq a c) \<and>
     (\<forall>a b. eq a b \<longrightarrow> h a = h b)"

definition ents :: "Hashmap \<Rightarrow> Entry multiset" where
  "ents m = mset (concat (buckets m))"

definition keys_for :: "(u32 \<Rightarrow> u32 \<Rightarrow> bool) \<Rightarrow> u32 \<Rightarrow> Entry multiset \<Rightarrow> Entry multiset" where
  "keys_for eq k M = {#e \<in># M. eq (key e) k#}"

text \<open>The bucket count is a power of two, every entry is in the bucket of its hash, and no two entries have equal keys.\<close>

definition placed :: "(u32 \<Rightarrow> u32) \<Rightarrow> u32 \<Rightarrow> Entry list list \<Rightarrow> bool" where
  "placed h n bs \<longleftrightarrow> length bs = unat n \<and>
     (\<forall>i < length bs. \<forall>e \<in> set (bs ! i). hash e = hashKey h (key e) \<and> unat (calculateIndex n (hashKey h (key e))) = i)"

definition hm_ok :: "Hashmap \<Rightarrow> bool" where
  "hm_ok m \<longleftrightarrow> hm_contract (hash_fn m) (equals m) \<and> (\<exists>j < 32. bucketCount m = 2 ^ j) \<and> placed (hash_fn m) (bucketCount m) (buckets m) \<and>
     (\<forall>k. size (keys_for (equals m) k (ents m)) \<le> 1) \<and> hm_size m = of_nat (size (ents m))"

definition hm_lookup :: "Hashmap \<Rightarrow> u32 \<rightharpoonup> u32" where
  "hm_lookup m k =
     (let c = buckets m ! key_index m k in map_option (\<lambda>j. val (c ! j)) (find_entry (equals m) k (key_hash m k) c))"

section \<open>Indices and chains\<close>

lemma unat_pow2: "j < 32 \<Longrightarrow> unat ((2 :: u32) ^ j) = 2 ^ j"
proof -
  assume "j < 32"
  then have "(2 :: nat) ^ j < 2 ^ 32" by (rule power_strict_increasing) simp
  then show ?thesis using unat_of_nat_u32 [of "2 ^ j"] by simp
qed

lemma index_bound:
  assumes "j < 32"
  shows "unat (calculateIndex (2 ^ j) h) < 2 ^ j"
proof -
  have "calculateIndex (2 ^ j) h = take_bit j h"
    by (simp add: calculateIndex_def take_bit_eq_mask mask_eq_exp_minus_1)
  then show ?thesis by (simp add: unsigned_take_bit_eq)
qed

lemma key_index_bound: "hm_ok m \<Longrightarrow> key_index m k < length (buckets m)"
  using index_bound by (auto simp: hm_ok_def key_index_def placed_def unat_pow2)

lemma hm_contractD:
  assumes "hm_contract h eq"
  shows "eq a a" and "eq a b \<Longrightarrow> eq b a" and "eq a b \<Longrightarrow> eq b c \<Longrightarrow> eq a c" and "eq a b \<Longrightarrow> hashKey h a = hashKey h b"
proof -
  note d = assms [unfolded hm_contract_def]
  show "eq a a" by (rule d [THEN conjunct1, rule_format])
  show "eq a b \<Longrightarrow> eq b a" by (rule d [THEN conjunct2, THEN conjunct1, rule_format])
  show "eq a b \<Longrightarrow> eq b c \<Longrightarrow> eq a c" by (rule d [THEN conjunct2, THEN conjunct2, THEN conjunct1, rule_format])
  assume "eq a b"
  then have "h a = h b" by (rule d [THEN conjunct2, THEN conjunct2, THEN conjunct2, rule_format])
  then show "hashKey h a = hashKey h b" by (simp add: hashKey_def)
qed

lemma equalKeys_iff:
  assumes "hm_contract h eq" and "ha = hashKey h a"
  shows "equalKeys a ha k (hashKey h k) eq \<longleftrightarrow> eq a k"
  using hm_contractD(1) [OF assms(1), of k] hm_contractD(4) [OF assms(1), of a k] assms(2) by (simp add: equalKeys_def) blast

lemma placedD:
  assumes "placed h n bs" and "i < length bs" and "e \<in> set (bs ! i)"
  shows "hash e = hashKey h (key e)" and "unat (calculateIndex n (hashKey h (key e))) = i"
  using assms by (auto simp: placed_def)

lemma concat_bucket: "e \<in> set (concat bs) \<longleftrightarrow> (\<exists>i < length bs. e \<in> set (bs ! i))"
  unfolding set_concat UN_iff by (metis in_set_conv_nth)

text \<open>Looking for a key in its bucket finds exactly the entries of the map with an equal key.\<close>

lemma find_in_bucket:
  assumes ok: "hm_ok m" and c: "c = buckets m ! key_index m k"
  shows "find_entry (equals m) k (key_hash m k) c = scan (\<lambda>e. equals m (key e) k) c"
    and "e \<in># ents m \<Longrightarrow> equals m (key e) k \<Longrightarrow> e \<in> set c"
proof -
  have pl: "placed (hash_fn m) (bucketCount m) (buckets m)" and ct: "hm_contract (hash_fn m) (equals m)"
    using ok by (simp_all add: hm_ok_def)
  show "find_entry (equals m) k (key_hash m k) c = scan (\<lambda>e. equals m (key e) k) c"
    unfolding find_entry_def key_hash_def
    by (rule scan_cong, rule equalKeys_iff [OF ct]) (use placedD(1) [OF pl key_index_bound [OF ok]] c in blast)
  assume e: "e \<in># ents m" "equals m (key e) k"
  then obtain i where i: "i < length (buckets m)" "e \<in> set (buckets m ! i)" unfolding ents_def set_mset_mset concat_bucket by blast
  have "hashKey (hash_fn m) (key e) = hashKey (hash_fn m) k" using hm_contractD(4) [OF ct e(2)] .
  then have "i = key_index m k" using placedD(2) [OF pl i] by (simp add: key_index_def key_hash_def)
  then show "e \<in> set c" using i c by simp
qed

lemma bucket_ents: "i < length (buckets m) \<Longrightarrow> e \<in> set (buckets m ! i) \<Longrightarrow> e \<in># ents m"
  by (auto simp: ents_def)

lemma keys_for_unique:
  assumes "size (keys_for eq k M) \<le> 1" and "a \<in># M" "b \<in># M" and "eq (key a) k" "eq (key b) k"
  shows "a = b"
proof -
  have ab: "a \<in># keys_for eq k M" "b \<in># keys_for eq k M" using assms by (simp_all add: keys_for_def)
  then have "size (keys_for eq k M) = 1" using assms(1) by (metis One_nat_def Suc_leI le_antisym nonempty_has_size empty_iff set_mset_empty)
  then obtain x where "keys_for eq k M = {#x#}" using size_1_singleton_mset by blast
  then show ?thesis using ab by simp
qed

lemma hm_lookup_iff:
  assumes ok: "hm_ok m"
  shows "hm_lookup m k = Some v \<longleftrightarrow> (\<exists>e. e \<in># ents m \<and> equals m (key e) k \<and> val e = v)"
proof -
  let ?c = "buckets m ! key_index m k"
  note f = find_in_bucket [OF ok refl, where k = k]
  have u: "size (keys_for (equals m) k (ents m)) \<le> 1" using ok by (simp add: hm_ok_def)
  show ?thesis
  proof
    assume "hm_lookup m k = Some v"
    then obtain j where j: "scan (\<lambda>e. equals m (key e) k) ?c = Some j" "v = val (?c ! j)" by (auto simp: hm_lookup_def Let_def f(1))
    then have "?c ! j \<in># ents m" using bucket_ents [OF key_index_bound [OF ok]] nth_mem [OF scan_SomeD(1) [OF j(1)]] by blast
    then show "\<exists>e. e \<in># ents m \<and> equals m (key e) k \<and> val e = v" using scan_SomeD(2) [OF j(1)] j(2) by blast
  next
    assume "\<exists>e. e \<in># ents m \<and> equals m (key e) k \<and> val e = v"
    then obtain e where e: "e \<in># ents m" "equals m (key e) k" "val e = v" by blast
    obtain j where j: "scan (\<lambda>e. equals m (key e) k) ?c = Some j" using scan_exists [OF f(2) [OF e(1,2)], where P = "\<lambda>e. equals m (key e) k"] e(2) by auto
    have "?c ! j \<in># ents m" using bucket_ents [OF key_index_bound [OF ok]] nth_mem [OF scan_SomeD(1) [OF j]] by blast
    then have "?c ! j = e" by (rule keys_for_unique [where eq = "equals m", OF u _ e(1) _ e(2)]) (rule scan_SomeD(2) [OF j])
    then show "hm_lookup m k = Some v" using j e(3) by (simp add: hm_lookup_def Let_def f(1))
  qed
qed

section \<open>Changing a bucket\<close>

lemma concat_upd:
  "i < length bs \<Longrightarrow> mset (concat (bs[i := c])) + mset (bs ! i) = mset (concat bs) + mset c"
proof (induction bs arbitrary: i)
  case (Cons b bs)
  then show ?case by (cases i) (simp_all add: add.commute add.left_commute)
qed simp

lemma placed_upd:
  assumes "placed h n bs" and "i < length bs" 
    and "\<forall>e \<in> set c. hash e = hashKey h (key e) \<and> unat (calculateIndex n (hashKey h (key e))) = i"
  shows "placed h n (bs[i := c])"
  using assms by (auto simp: placed_def nth_list_update)

lemma move_entry_ok:
  assumes "placed h (2 ^ j) bs" and "j < 32" and "hash e = hashKey h (key e)"
  shows "placed h (2 ^ j) (move_entry (2 ^ j) e bs)" and "mset (concat (move_entry (2 ^ j) e bs)) = add_mset e (mset (concat bs))"
proof -
  let ?i = "unat (calculateIndex (2 ^ j) (hashKey h (key e)))"
  have i: "?i < length bs" using index_bound [OF assms(2)] assms(1) by (simp add: placed_def unat_pow2 [OF assms(2)])
  show "placed h (2 ^ j) (move_entry (2 ^ j) e bs)"
    unfolding move_entry_def Let_def assms(3)
    by (rule placed_upd [OF assms(1) i]) (use placedD [OF assms(1) i] assms(3) in auto)
  show "mset (concat (move_entry (2 ^ j) e bs)) = add_mset e (mset (concat bs))"
    using concat_upd [OF i, of "e # bs ! ?i"] unfolding move_entry_def Let_def assms(3) by simp
qed

lemma move_all_ok:
  assumes "placed h (2 ^ j) bs" and "j < 32" and "\<forall>e \<in> set es. hash e = hashKey h (key e)"
  shows "placed h (2 ^ j) (fold (move_entry (2 ^ j)) es bs) \<and> mset (concat (fold (move_entry (2 ^ j)) es bs)) = mset es + mset (concat bs)"
  using assms
proof (induction es arbitrary: bs)
  case (Cons e es)
  have e: "hash e = hashKey h (key e)" using Cons.prems(3) by simp
  note mv = move_entry_ok [OF Cons.prems(1,2) e]
  show ?case using Cons.IH [OF mv(1) Cons.prems(2)] Cons.prems(3) mv(2) by simp
qed simp

lemma fold_fold: "fold (fold f) xss a = fold f (concat xss) a"
  by (induction xss arbitrary: a) simp_all

text \<open>\<open>calloc\<close> fails when the size of its array does not fit into a \<open>size_t\<close>.\<close>

definition calloc_fits :: "bool \<Rightarrow> Hashmap \<Rightarrow> bool" where
  "calloc_fits cal m \<longleftrightarrow> (cal \<longrightarrow> 8 * unat (bucketCount m) < 2 ^ 32)"

lemma expand_ok:
  assumes ok: "hm_ok m" and cf: "calloc_fits cal m"
  shows "hm_ok (expandIfNecessary cal m)" and "ents (expandIfNecessary cal m) = ents m"
    and "equals (expandIfNecessary cal m) = equals m" and "hash_fn (expandIfNecessary cal m) = hash_fn m"
    and "hm_size (expandIfNecessary cal m) = hm_size m"
proof -
  show e: "equals (expandIfNecessary cal m) = equals m" "hash_fn (expandIfNecessary cal m) = hash_fn m"
    "hm_size (expandIfNecessary cal m) = hm_size m" by (simp_all add: expandIfNecessary_def Let_def)
  have "hm_ok (expandIfNecessary cal m) \<and> ents (expandIfNecessary cal m) = ents m"
  proof (cases "cal \<and> hm_size m > bucketCount m * 3 div 4")
    case False
    then show ?thesis using ok by (auto simp: expandIfNecessary_def Let_def)
  next
    case True
    obtain j where j: "j < 32" "bucketCount m = 2 ^ j" using ok by (auto simp: hm_ok_def)
    have "(8 :: nat) * 2 ^ j < 2 ^ 32" using cf True j by (simp add: calloc_fits_def unat_pow2)
    then have "(2 :: nat) ^ (j + 3) < 2 ^ 32" by (simp add: power_add mult.commute)
    then have j1: "Suc j < 32" using power_less_imp_less_exp [of "2 :: nat" "j + 3" 32] by simp
    have n: "push_bit 1 (bucketCount m) = 2 ^ Suc j" by (simp add: j(2) push_bit_eq_mult)
    let ?bs = "fold (move_entry (2 ^ Suc j)) (concat (buckets m)) (replicate (unat ((2 :: u32) ^ Suc j)) [])"
    have new: "placed (hash_fn m) (2 ^ Suc j) (replicate (unat ((2 :: u32) ^ Suc j)) [])" by (simp add: placed_def)
    have hs: "\<forall>e \<in> set (concat (buckets m)). hash e = hashKey (hash_fn m) (key e)"
      using ok placedD(1) unfolding hm_ok_def concat_bucket Ball_def by blast
    note mv = move_all_ok [OF new j1 hs]
    have x: "expandIfNecessary cal m = m\<lparr>buckets := ?bs, bucketCount := 2 ^ Suc j\<rparr>"
      using True n by (simp add: expandIfNecessary_def Let_def fold_fold)
    have "ents (expandIfNecessary cal m) = ents m" using mv by (simp add: x ents_def)
    moreover from this have "hm_ok (expandIfNecessary cal m)" using ok mv j1 e unfolding hm_ok_def
      by (auto simp: x intro: exI [of _ "Suc j"])
    ultimately show ?thesis by blast
  qed
  then show "hm_ok (expandIfNecessary cal m)" "ents (expandIfNecessary cal m) = ents m" by simp_all
qed

lemma keys_for_empty: "keys_for eq k M = {#} \<longleftrightarrow> (\<forall>x. x \<in># M \<longrightarrow> \<not> eq (key x) k)"
  by (induction M) (auto simp: keys_for_def)

lemma createEntry_sel [simp]: "key (createEntry k h v) = k" "hash (createEntry k h v) = h" "val (createEntry k h v) = v"
  by (simp_all add: createEntry_def)

text \<open>What the search for a key says about the whole map.\<close>

lemma find_cases:
  assumes ok: "hm_ok m" and c: "c = buckets m ! key_index m k"
  obtains (none) "find_entry (equals m) k (key_hash m k) c = None" and "\<forall>x. x \<in># ents m \<longrightarrow> \<not> equals m (key x) k"
  | (some) j M where "find_entry (equals m) k (key_hash m k) c = Some j" and "j < length c" and "ents m = add_mset (c ! j) M"
      and "equals m (key (c ! j)) k" and "\<forall>x. x \<in># M \<longrightarrow> \<not> equals m (key x) k"
proof (cases "scan (\<lambda>e. equals m (key e) k) c")
  case None
  note f = find_in_bucket [OF ok c]
  have "\<not> equals m (key x) k" if x: "x \<in># ents m" for x
  proof
    assume "equals m (key x) k"
    with f(2) [OF x this] None show False by (auto simp: scan_None_iff)
  qed
  then show thesis using None f(1) by (intro none) auto
next
  case (Some j)
  note f = find_in_bucket [OF ok c]
  have j: "j < length c" "equals m (key (c ! j)) k" using scan_SomeD(1,2) [OF Some] by simp_all
  have "c ! j \<in># ents m" using bucket_ents [OF key_index_bound [OF ok]] nth_mem [OF j(1)] c by blast
  then obtain M where M: "ents m = add_mset (c ! j) M" by (metis insert_DiffM)
  have "size (keys_for (equals m) k (ents m)) \<le> 1" using ok by (simp add: hm_ok_def)
  then have "keys_for (equals m) k M = {#}" using j(2) by (simp add: M keys_for_def)
  then have "\<forall>x. x \<in># M \<longrightarrow> \<not> equals m (key x) k" by (simp add: keys_for_empty)
  then show thesis using Some f(1) j M by (intro some [of j M]) auto
qed

lemma keys_for_add:
  assumes ct: "hm_contract h eq" and u: "\<forall>x. size (keys_for eq x M) \<le> 1" and n: "\<forall>x. x \<in># M \<longrightarrow> \<not> eq (key x) (key e)"
  shows "size (keys_for eq x (add_mset e M)) \<le> 1"
proof (cases "eq (key e) x")
  case True
  have "\<not> eq (key y) x" if "y \<in># M" for y
    using hm_contractD(3) [OF ct, of "key y" x "key e"] hm_contractD(2) [OF ct True] n that by blast
  then have "keys_for eq x M = {#}" by (simp add: keys_for_empty)
  then show ?thesis using True by (simp add: keys_for_def)
next
  case False
  then show ?thesis using u by (simp add: keys_for_def)
qed

text \<open>A change of one bucket that keeps the bucket's entries placed, with the entries of the whole map given.\<close>

lemma bucket_change:
  assumes ok: "hm_ok m" and i: "i = key_index m k" and c': "\<forall>e \<in> set c'. e \<in> set (buckets m ! i) \<or>
      (hash e = hashKey (hash_fn m) (key e) \<and> unat (calculateIndex (bucketCount m) (hashKey (hash_fn m) (key e))) = i)"
    and m': "m' = m\<lparr>buckets := (buckets m)[i := c'], hm_size := n\<rparr>" and n: "n = of_nat (size (ents m'))"
    and u: "\<forall>x. size (keys_for (equals m) x (ents m')) \<le> 1"
  shows "hm_ok m'" and "ents m' + mset (buckets m ! i) = ents m + mset c'"
proof -
  have pl: "placed (hash_fn m) (bucketCount m) (buckets m)" and ib: "i < length (buckets m)"
    using ok key_index_bound [OF ok] i by (simp_all add: hm_ok_def)
  have "placed (hash_fn m) (bucketCount m) ((buckets m)[i := c'])"
    by (rule placed_upd [OF pl ib]) (use c' placedD [OF pl ib] in blast)
  then show "hm_ok m'" using ok n u by (simp add: hm_ok_def m')
  show "ents m' + mset (buckets m ! i) = ents m + mset c'" using concat_upd [OF ib, of c'] by (simp add: m' ents_def)
qed

lemma ents_change:
  assumes "hm_ok m" and "i = key_index m k"
  shows "ents (m\<lparr>buckets := (buckets m)[i := c'], hm_size := n\<rparr>) + mset (buckets m ! i) = ents m + mset c'"
  using concat_upd [OF key_index_bound [OF assms(1)], of k c'] assms(2) by (simp add: ents_def)

lemma lookup_insert:
  assumes ok: "hm_ok m" "hm_ok m'" and eq: "equals m' = equals m" and e': "ents m' = add_mset e' M" "equals m (key e') k"
    and e: "ents m = M \<or> (\<exists>e. ents m = add_mset e M \<and> equals m (key e) k)" and n: "\<forall>x. x \<in># M \<longrightarrow> \<not> equals m (key x) k"
  shows "hm_lookup m' = (\<lambda>x. if equals m k x then Some (val e') else hm_lookup m x)"
proof (rule map_eqI)
  fix x v
  have ct: "hm_contract (hash_fn m) (equals m)" using ok by (simp add: hm_ok_def)
  note E = hm_contractD [OF ct]
  show "hm_lookup m' x = Some v \<longleftrightarrow> (if equals m k x then Some (val e') else hm_lookup m x) = Some v"
  proof (cases "equals m k x")
    case True
    have "\<not> equals m (key y) x" if "y \<in># M" for y using E(3) [of "key y" x k] E(2) [OF True] n that by blast
    moreover have "equals m (key e') x" using E(3) [OF e'(2) True] .
    ultimately show ?thesis using True by (auto simp: hm_lookup_iff [OF ok(2)] eq e')
  next
    case False
    have "\<not> equals m (key a) x" if "equals m (key a) k" for a using E(3) [of k "key a" x] E(2) [OF that] False by blast
    then show ?thesis using False e e'(2) by (auto simp: hm_lookup_iff [OF ok(2)] hm_lookup_iff [OF ok(1)] eq e'(1))
  qed
qed

lemma insert_new:
  assumes ok: "hm_ok m" and none: "\<forall>x. x \<in># ents m \<longrightarrow> \<not> equals m (key x) k" and i: "i = key_index m k"
    and m': "m' = m\<lparr>buckets := (buckets m)[i := buckets m ! i @ [createEntry k (key_hash m k) v]], hm_size := hm_size m + 1\<rparr>"
  shows "hm_ok m'" and "ents m' = add_mset (createEntry k (key_hash m k) v) (ents m)"
proof -
  let ?e = "createEntry k (key_hash m k) v"
  have ct: "hm_contract (hash_fn m) (equals m)" and u: "\<forall>x. size (keys_for (equals m) x (ents m)) \<le> 1"
    and sz: "hm_size m = of_nat (size (ents m))" using ok by (simp_all add: hm_ok_def)
  show en: "ents m' = add_mset ?e (ents m)"
    using ents_change [OF ok i, where c' = "buckets m ! i @ [?e]" and n = "hm_size m + 1"] by (simp add: m')
  have "\<forall>x. size (keys_for (equals m) x (ents m')) \<le> 1" using keys_for_add [OF ct u, of ?e] none by (simp add: en)
  then show "hm_ok m'"
    by (intro bucket_change(1) [OF ok i _ m']) (auto simp: en sz key_hash_def i key_index_def)
qed

section \<open>Specification of the operations\<close>

lemma Put_spec:
  assumes ok: "hm_ok m" and cf: "calloc_fits cal m" and mal: "mal \<or> hm_lookup m k \<noteq> None" and put: "hashmapPut mal cal k v m = (old, m')"
  shows "hm_ok m' \<and> hm_lookup m' = (\<lambda>x. if equals m k x then Some v else hm_lookup m x) \<and>
    old = (case hm_lookup m k of None \<Rightarrow> 0 | Some w \<Rightarrow> w) \<and> equals m' = equals m \<and> hash_fn m' = hash_fn m \<and>
    hm_size m' = (if hm_lookup m k = None then hm_size m + 1 else hm_size m)"
proof -
  let ?i = "key_index m k"
  let ?c = "buckets m ! ?i"
  have ct: "hm_contract (hash_fn m) (equals m)" and u: "\<forall>x. size (keys_for (equals m) x (ents m)) \<le> 1"
    and sz: "hm_size m = of_nat (size (ents m))" using ok by (simp_all add: hm_ok_def)
  from ok refl [of ?c] show ?thesis
  proof (cases rule: find_cases)
    case none
    let ?e = "createEntry k (key_hash m k) v"
    let ?m = "m\<lparr>buckets := (buckets m)[?i := ?c @ [?e]], hm_size := hm_size m + 1\<rparr>"
    note I = insert_new [OF ok none(2) refl, of ?m v]
    have cf': "calloc_fits cal ?m" using cf by (simp add: calloc_fits_def)
    note X = expand_ok [OF I(1) cf', simplified]
    have nl: "hm_lookup m k = None" using none(1) by (simp add: hm_lookup_def Let_def)
    have r: "old = 0" "m' = expandIfNecessary cal ?m" using put none(1) mal nl by (auto simp: hashmapPut_def Let_def)
    have "hm_lookup m' = (\<lambda>x. if equals m k x then Some (val ?e) else hm_lookup m x)"
      by (rule lookup_insert [where M = "ents m" and k = k, OF ok]) (use X I r none(2) hm_contractD(1) [OF ct] in auto)
    then show ?thesis using X r nl by (auto simp: fun_eq_iff)
  next
    case (some j M)
    let ?e = "(?c ! j)\<lparr>val := v\<rparr>"
    have cj: "?c ! j \<in> set ?c" using some(2) by simp
    have r: "old = val (?c ! j)" "m' = m\<lparr>buckets := (buckets m)[?i := ?c[j := ?e]], hm_size := hm_size m\<rparr>"
      using put some(1) by (auto simp: hashmapPut_def Let_def)
    have ms: "mset (?c[j := ?e]) = add_mset ?e (mset ?c - {#?c ! j#})" using mset_update [OF some(2)] .
    obtain C where C: "mset ?c = add_mset (?c ! j) C" using cj by (metis insert_DiffM set_mset_mset)
    have en: "ents m' = add_mset ?e M"
      using ents_change [OF ok refl, where k = k and c' = "?c[j := ?e]" and n = "hm_size m"] some(3) unfolding r(2) ms C by simp
    have sk: "size (keys_for (equals m) x (ents m')) = size (keys_for (equals m) x (ents m))" for x
      by (simp add: en some(3) keys_for_def)
    have pl: "placed (hash_fn m) (bucketCount m) (buckets m)" using ok by (simp add: hm_ok_def)
    have ok': "hm_ok m'"
    proof (rule bucket_change(1) [OF ok refl _ r(2)])
      show "\<forall>e \<in> set (?c[j := ?e]). e \<in> set ?c \<or>
          (hash e = hashKey (hash_fn m) (key e) \<and> unat (calculateIndex (bucketCount m) (hashKey (hash_fn m) (key e))) = ?i)"
        using placedD [OF pl key_index_bound [OF ok] cj] by (auto dest: set_update_subset_insert [THEN subsetD])
    qed (use u sk sz en some(3) in simp_all)
    have "hm_lookup m' = (\<lambda>x. if equals m k x then Some (val ?e) else hm_lookup m x)"
      by (rule lookup_insert [where M = M and k = k, OF ok ok' _ en]) (use r some(3-5) in auto)
    moreover have "hm_lookup m k = Some (val (?c ! j))" using some(1) by (simp add: hm_lookup_def Let_def)
    ultimately show ?thesis using ok' r by (auto simp: fun_eq_iff)
  qed
qed

lemma Remove_spec:
  assumes ok: "hm_ok m" and rem: "hashmapRemove k m = (old, m')"
  shows "hm_ok m' \<and> hm_lookup m' = (\<lambda>x. if equals m k x then None else hm_lookup m x) \<and>
    old = (case hm_lookup m k of None \<Rightarrow> 0 | Some w \<Rightarrow> w) \<and> equals m' = equals m \<and> hash_fn m' = hash_fn m \<and> bucketCount m' = bucketCount m \<and>
    hm_size m' = (if hm_lookup m k = None then hm_size m else hm_size m - 1)"
proof -
  let ?i = "key_index m k"
  let ?c = "buckets m ! ?i"
  have ct: "hm_contract (hash_fn m) (equals m)" and u: "\<forall>x. size (keys_for (equals m) x (ents m)) \<le> 1"
    and sz: "hm_size m = of_nat (size (ents m))" using ok by (simp_all add: hm_ok_def)
  note E = hm_contractD [OF ct]
  from ok refl [of ?c] show ?thesis
  proof (cases rule: find_cases)
    case none
    then have "old = 0" "m' = m" "hm_lookup m k = None" using rem by (auto simp: hashmapRemove_def hm_lookup_def Let_def)
    moreover have "hm_lookup m x = None" if "equals m k x" for x
    proof (cases "hm_lookup m x")
      case (Some w)
      then obtain e where "e \<in># ents m" "equals m (key e) x" by (auto simp: hm_lookup_iff [OF ok])
      then show ?thesis using none(2) E(3) [of "key e" x k] E(2) [OF that] by blast
    qed
    ultimately show ?thesis using ok by (auto simp: fun_eq_iff)
  next
    case (some j M)
    let ?c' = "take j ?c @ drop (Suc j) ?c"
    have r: "old = val (?c ! j)" "m' = m\<lparr>buckets := (buckets m)[?i := ?c'], hm_size := hm_size m - 1\<rparr>"
      using rem some(1) by (auto simp: hashmapRemove_def Let_def)
    have "mset ?c = add_mset (?c ! j) (mset ?c')" by (subst id_take_nth_drop [OF some(2)]) simp
    then have en: "ents m' = M" using ents_change [OF ok refl, where k = k and c' = ?c' and n = "hm_size m - 1"] some(3) unfolding r(2) by simp
    have "\<forall>x. size (keys_for (equals m) x (ents m')) \<le> 1"
    proof
      fix x
      have "size (keys_for (equals m) x M) \<le> size (keys_for (equals m) x (ents m))" by (simp add: some(3) keys_for_def)
      then show "size (keys_for (equals m) x (ents m')) \<le> 1" using u unfolding en by (meson le_trans)
    qed
    then have ok': "hm_ok m'"
      by (intro bucket_change(1) [OF ok refl _ r(2)]) (auto simp: en sz some(3) dest: in_set_takeD in_set_dropD)
    have "hm_lookup m' = (\<lambda>x. if equals m k x then None else hm_lookup m x)"
    proof (rule map_eqI)
      fix x w
      have eq: "equals m' = equals m" by (simp add: r(2))
      show "hm_lookup m' x = Some w \<longleftrightarrow> (if equals m k x then None else hm_lookup m x) = Some w"
      proof (cases "equals m k x")
        case True
        have "\<not> equals m (key y) x" if "y \<in># M" for y using E(3) [of "key y" x k] E(2) [OF True] some(5) that by blast
        then show ?thesis using True by (auto simp: hm_lookup_iff [OF ok'] en eq)
      next
        case False
        have "\<not> equals m (key (?c ! j)) x" using E(3) [of k "key (?c ! j)" x] E(2) [OF some(4)] False by blast
        then show ?thesis using False by (auto simp: hm_lookup_iff [OF ok'] hm_lookup_iff [OF ok] en eq some(3))
      qed
    qed
    moreover have "hm_lookup m k = Some (val (?c ! j))" using some(1) by (simp add: hm_lookup_def Let_def)
    ultimately show ?thesis using ok' r by simp
  qed
qed

section \<open>The map interface\<close>

text \<open>A finite map on classes of equal keys, as clients of the hash map see it.\<close>

locale class_map =
  fixes ok :: "'m \<Rightarrow> bool"
    and lookup :: "'m \<Rightarrow> 'k \<Rightarrow> 'v option"
    and eqv :: "'m \<Rightarrow> 'k \<Rightarrow> 'k \<Rightarrow> bool"
    and put :: "'k \<Rightarrow> 'v \<Rightarrow> 'm \<Rightarrow> 'm"
    and del :: "'k \<Rightarrow> 'm \<Rightarrow> 'm"
  assumes put_ok: "ok m \<Longrightarrow> ok (put k v m)"
    and put_eqv: "ok m \<Longrightarrow> eqv (put k v m) = eqv m"
    and put_lookup: "ok m \<Longrightarrow> lookup (put k v m) x = (if eqv m k x then Some v else lookup m x)"
    and del_ok: "ok m \<Longrightarrow> ok (del k m)"
    and del_lookup: "ok m \<Longrightarrow> lookup (del k m) x = (if eqv m k x then None else lookup m x)"
    and lookup_eqv: "ok m \<Longrightarrow> eqv m k x \<Longrightarrow> lookup m x = lookup m k"
begin

definition puts :: "('k \<times> 'v) list \<Rightarrow> 'm \<Rightarrow> 'm" where
  "puts kvs m = fold (\<lambda>(k, v). put k v) kvs m"

lemma puts_ok: "ok m \<Longrightarrow> ok (puts kvs m) \<and> eqv (puts kvs m) = eqv m"
proof (induction kvs arbitrary: m)
  case (Cons kv kvs)
  obtain k v where kv: "kv = (k, v)" by force
  show ?case using Cons.IH [of "put k v m"] put_ok [OF Cons.prems] put_eqv [OF Cons.prems] by (simp add: puts_def kv)
qed (simp add: puts_def)

lemma puts_lookup:
  assumes "ok m"
  shows "lookup (puts kvs m) x = (case find (\<lambda>(k, v). eqv m k x) (rev kvs) of None \<Rightarrow> lookup m x | Some (k, v) \<Rightarrow> Some v)"
proof (induction kvs rule: rev_induct)
  case (snoc kv kvs)
  obtain k v where kv: "kv = (k, v)" by force
  have p: "puts (kvs @ [kv]) m = put k v (puts kvs m)" by (simp add: puts_def kv)
  note q = puts_ok [OF assms, of kvs]
  show ?case using put_lookup [of "puts kvs m" k v x] q snoc unfolding p by (simp add: kv)
qed (simp add: puts_def)

lemma put_del:
  assumes "ok m" and "lookup m k = None"
  shows "lookup (del k (put k v m)) = lookup m"
  using put_ok [OF assms(1)] put_eqv [OF assms(1)] put_lookup [OF assms(1)] del_lookup lookup_eqv [OF assms(1)] assms(2)
  by (auto simp: fun_eq_iff)

end

text \<open>Putting and removing, with a \<open>calloc\<close> that succeeds whenever the size fits.\<close>

definition hm_put :: "u32 \<Rightarrow> u32 \<Rightarrow> Hashmap \<Rightarrow> Hashmap" where
  "hm_put k v m = snd (hashmapPut True (8 * unat (bucketCount m) < 2 ^ 32) k v m)"

definition hm_del :: "u32 \<Rightarrow> Hashmap \<Rightarrow> Hashmap" where
  "hm_del k m = snd (hashmapRemove k m)"

lemma hm_put_spec:
  assumes "hm_ok m"
  shows "hm_ok (hm_put k v m)" and "equals (hm_put k v m) = equals m"
    and "hm_lookup (hm_put k v m) x = (if equals m k x then Some v else hm_lookup m x)"
proof -
  have "calloc_fits (8 * unat (bucketCount m) < 2 ^ 32) m" by (simp add: calloc_fits_def)
  from Put_spec [OF assms this, of True k v] show "hm_ok (hm_put k v m)" "equals (hm_put k v m) = equals m"
    "hm_lookup (hm_put k v m) x = (if equals m k x then Some v else hm_lookup m x)"
    by (cases "hashmapPut True (8 * unat (bucketCount m) < 2 ^ 32) k v m"; simp add: hm_put_def)+
qed

interpretation hm: class_map hm_ok hm_lookup equals hm_put hm_del
proof unfold_locales
  fix m k v x
  assume ok: "hm_ok m"
  show "hm_ok (hm_put k v m)" "equals (hm_put k v m) = equals m"
    "hm_lookup (hm_put k v m) x = (if equals m k x then Some v else hm_lookup m x)" by (rule hm_put_spec [OF ok])+
  show "hm_ok (hm_del k m)" "hm_lookup (hm_del k m) x = (if equals m k x then None else hm_lookup m x)"
    using Remove_spec [OF ok, of k] by (cases "hashmapRemove k m"; simp add: hm_del_def)+
  assume e: "equals m k x"
  have ct: "hm_contract (hash_fn m) (equals m)" using ok by (simp add: hm_ok_def)
  note E = hm_contractD [OF ct]
  have "equals m (key y) x \<longleftrightarrow> equals m (key y) k" for y using E(3) [of "key y" k x] E(3) [of "key y" x k] E(2) e by blast
  then have "hm_lookup m x = Some w \<longleftrightarrow> hm_lookup m k = Some w" for w unfolding hm_lookup_iff [OF ok] by blast
  then show "hm_lookup m x = hm_lookup m k" by (metis not_None_eq)
qed

section \<open>Creation\<close>

lemma grow_count_ends:
  assumes "unat minimum < 2 ^ 31" and "i < 32"
  shows "\<exists>j. j < 32 \<and> grow_count minimum (2 ^ i) = Some (2 ^ j) \<and> minimum < 2 ^ j"
  using assms(2)
proof (induction "32 - i" arbitrary: i)
  case (Suc d)
  show ?case
  proof (cases "(2 :: u32) ^ i \<le> minimum")
    case True
    have "(2 :: nat) ^ i < 2 ^ 31" using True assms(1) by (simp add: word_le_nat_alt unat_pow2 [OF Suc.prems])
    then have i: "Suc i < 32" using power_less_imp_less_exp [of "2 :: nat" i 31] by simp
    have "d = 32 - Suc i" using Suc.hyps(2) by simp
    from Suc.hyps(1) [OF this i] show ?thesis
      using True by (subst grow_count.simps) (simp add: push_bit_eq_mult mult.commute)
  next
    case False
    then have "grow_count minimum (2 ^ i) = Some (2 ^ i)" by (subst grow_count.simps) simp
    then show ?thesis using False Suc.prems by (auto simp: not_le)
  qed
qed simp

lemma create_minimum: "unat (cap * 4 div 3 :: u32) < 2 ^ 31"
proof -
  have "unat (cap * 4 div 3) = unat (cap * 4) div 3" by (simp add: unat_div)
  moreover have "unat (cap * 4) < 2 ^ 32" using unsigned_less [of "cap * 4"] by simp
  ultimately show ?thesis by simp
qed

lemma Create_cases:
  obtains (fails) "hashmapCreate mal cal cap h eq = Some None"
  | (made) j where "hashmapCreate mal cal cap h eq = Some (Some \<lparr>buckets = replicate (2 ^ j) [], bucketCount = 2 ^ j, hash_fn = h, equals = eq, hm_size = 0\<rparr>)"
      and "j < 32" and "cap * 4 div 3 < 2 ^ j" and "mal" and "cal"
proof -
  obtain j where j: "j < 32" "grow_count (cap * 4 div 3) (2 ^ 0) = Some (2 ^ j)" "cap * 4 div 3 < 2 ^ j"
    using grow_count_ends [OF create_minimum, of 0 cap] by auto
  then show thesis using fails made [of j]
    by (cases mal; cases cal) (auto simp: hashmapCreate_def unat_pow2)
qed

lemma created_ok:
  assumes "hm_contract h eq" and "j < 32"
  shows "hm_ok \<lparr>buckets = replicate (2 ^ j) [], bucketCount = 2 ^ j, hash_fn = h, equals = eq, hm_size = 0\<rparr>"
    and "hm_lookup \<lparr>buckets = replicate (2 ^ j) [], bucketCount = 2 ^ j, hash_fn = h, equals = eq, hm_size = 0\<rparr> = Map.empty"
proof -
  let ?m = "\<lparr>buckets = replicate (2 ^ j) [], bucketCount = 2 ^ j, hash_fn = h, equals = eq, hm_size = 0\<rparr>"
  have e: "ents ?m = {#}" by (simp add: ents_def concat_replicate_trivial)
  show ok: "hm_ok ?m" using assms e by (auto simp: hm_ok_def placed_def unat_pow2 keys_for_def)
  show "hm_lookup ?m = Map.empty" by (rule map_eqI) (simp add: hm_lookup_iff [OF ok] e)
qed

lemma hashmapGet_lookup: "hashmapGet k m = (case hm_lookup m k of None \<Rightarrow> 0 | Some v \<Rightarrow> v)"
  by (simp add: hashmapGet_def hm_lookup_def Let_def split: option.split)

lemma hashmapContainsKey_lookup: "hashmapContainsKey k m \<longleftrightarrow> hm_lookup m k \<noteq> None"
  by (simp add: hashmapContainsKey_def hm_lookup_def Let_def)

lemma sample_map: "\<exists>m. hashmapCreate True True 3 id (=) = Some (Some m) \<and> hm_ok m \<and> equals m = (=) \<and> hm_lookup m = Map.empty"
proof -
  have ct: "hm_contract id (=)" by (auto simp: hm_contract_def)
  show ?thesis by (rule Create_cases [of True True 3 id "(=)"]) (use created_ok [OF ct] in \<open>auto simp: hashmapCreate_def split: bind_splits\<close>)
qed

section \<open>Properties\<close>

text \<open>
  C10: The hash map implements a finite map on the classes of equal keys. \<open>hashmapPut\<close> (when it can allocate or the key is present)
  binds exactly the keys equal to the given one and returns the old value, or \<open>NULL\<close>; \<open>hashmapRemove\<close> unbinds
  exactly those; \<open>hashmapGet\<close> and \<open>hashmapContainsKey\<close> read the map; the size counts the classes; the representation invariant
  is kept, also when the table grows.
\<close>

theorem hashmap_refines_map:
  assumes "hm_ok m" and "calloc_fits cal m" and "mal \<or> hashmapContainsKey k m"
    and "hashmapPut mal cal k v m = (old, m1)" and "hashmapRemove k m = (old', m2)"
  shows "hm_ok m1 \<and> hm_ok m2 \<and> old = hashmapGet k m \<and> old' = hashmapGet k m \<and>
    (\<forall>x. hashmapContainsKey x m1 \<longleftrightarrow> equals m k x \<or> hashmapContainsKey x m) \<and>
    (\<forall>x. hashmapContainsKey x m2 \<longleftrightarrow> \<not> equals m k x \<and> hashmapContainsKey x m) \<and>
    (\<forall>x. hashmapGet x m1 = (if equals m k x then v else hashmapGet x m)) \<and>
    (\<forall>x. hashmapGet x m2 = (if equals m k x then 0 else hashmapGet x m)) \<and>
    hashmapSize m1 = (if hashmapContainsKey k m then hashmapSize m else hashmapSize m + 1) \<and>
    hashmapSize m2 = (if hashmapContainsKey k m then hashmapSize m - 1 else hashmapSize m)"
proof -
  have "mal \<or> hm_lookup m k \<noteq> None" using assms(3) by (simp add: hashmapContainsKey_lookup)
  from Put_spec [OF assms(1,2) this assms(4)] Remove_spec [OF assms(1,5)] show ?thesis
    by (auto simp: hashmapGet_lookup hashmapContainsKey_lookup hashmapSize_def)
qed

text \<open>
  \<open>hashmapCreate\<close> ends for every capacity, although the computation of the minimum may wrap: the number of buckets is a power of
  two above the minimum, and with a lawful pair of functions the new map is well formed and empty.
\<close>

theorem hashmapCreate_total:
  "\<exists>r. hashmapCreate mal cal cap h eq = Some r \<and>
     (\<forall>m. r = Some m \<longrightarrow> (\<exists>j < 32. bucketCount m = 2 ^ j) \<and> cap * 4 div 3 < bucketCount m \<and>
        (hm_contract h eq \<longrightarrow> hm_ok m \<and> hm_lookup m = Map.empty \<and> hashmapSize m = 0))"
  by (rule Create_cases [of mal cal cap h eq]) (use created_ok in \<open>auto simp: hashmapSize_def\<close>)

theorem hashmapCreate_total_witness: "\<exists>m. hashmapCreate True True 3 id (=) = Some (Some m) \<and> hm_ok m"
proof -
  have ct: "hm_contract id (=)" by (auto simp: hm_contract_def)
  show ?thesis using hashmapCreate_total [of True True 3 id "(=)"] sample_map ct by auto
qed

text \<open>
  After any sequence of insertions into a new map, \<open>hashmapGet\<close> returns the value that was inserted last under an equal key, and
  \<open>NULL\<close> when there was none, however often the table has grown in between.
\<close>

theorem hashmap_last_put:
  assumes "hm_contract h eq" and "hashmapCreate True True cap h eq = Some (Some m)"
  shows "hashmapGet x (fold (\<lambda>(k, v). hm_put k v) kvs m) = (case find (\<lambda>(k, v). eq k x) (rev kvs) of None \<Rightarrow> 0 | Some (k, v) \<Rightarrow> v)"
proof -
  have m: "hm_ok m" "hm_lookup m = Map.empty" "equals m = eq"
    by (rule Create_cases [of True True cap h eq]; use assms created_ok in auto)+
  show ?thesis using hm.puts_lookup [OF m(1), of kvs x] m(2,3)
    by (auto simp: hashmapGet_lookup hm.puts_def split: option.splits)
qed

theorem hashmap_last_put_witness:
  "\<exists>m. hashmapCreate True True 3 id (=) = Some (Some m) \<and> hashmapGet 1 (fold (\<lambda>(k, v). hm_put k v) [(1, 10), (2, 20), (1, 30)] m) = 30"
proof -
  obtain m where m: "hashmapCreate True True 3 id (=) = Some (Some m)" using sample_map by blast
  have ct: "hm_contract id (=)" by (auto simp: hm_contract_def)
  show ?thesis using hashmap_last_put [OF ct m, of 1 "[(1, 10), (2, 20), (1, 30)]"] m by auto
qed

theorem hashmap_refines_map_witness:
  "\<exists>m m1. hm_ok m \<and> snd (hashmapPut True False 1 10 m) = m1 \<and> hashmapGet 1 m1 = 10 \<and> hashmapSize m1 = hashmapSize m + 1"
proof -
  obtain m where m: "hm_ok m" "equals m = (=)" "hm_lookup m = Map.empty" using sample_map by blast
  have cf: "calloc_fits False m" by (simp add: calloc_fits_def)
  obtain old m1 where p: "hashmapPut True False 1 10 m = (old, m1)" by force
  obtain old' m2 where r: "hashmapRemove 1 m = (old', m2)" by force
  have "\<not> hashmapContainsKey 1 m" using m(3) by (simp add: hashmapContainsKey_lookup)
  then show ?thesis using hashmap_refines_map [OF m(1) cf _ p r] m p by auto
qed

end
