(* ===== verification/Cutils_Array.thy ===== *)
theory Cutils_Array
  imports Prelude
begin

text \<open>
  The growable pointer array of \<open>cutils/array.c\<close>. \<open>contents\<close> are the allocated cells; \<open>size\<close> and \<open>capacity\<close> are C \<open>int\<close>s. \<open>mal\<close> is the
  outcome of \<open>malloc\<close> or \<open>realloc\<close> and \<open>fresh\<close> what uninitialised cells hold. A failed \<open>assert\<close> and an access outside of the cells
  are \<open>None\<close>. The array is shown to implement lists, but for \<open>arraySetSize\<close>.
\<close>

section \<open>Operations\<close>

record Array =
  contents :: "u32 list"
  arr_size :: int
  capacity :: int

definition INITIAL_CAPACITY :: int where
  "INITIAL_CAPACITY = 4"

definition MAX_CAPACITY :: int where
  "MAX_CAPACITY = 0x3FFFFFFF"

definition int32 :: "int \<Rightarrow> int" where
  "int32 x = signed_take_bit 31 x"

text \<open>\<open>arrayCreate\<close> is \<open>None\<close> for the null pointer of a failed \<open>calloc\<close>; a null \<open>contents\<close> is the empty list of cells.\<close>

definition arrayCreate :: "bool \<Rightarrow> Array option" where
  "arrayCreate mal = (if mal then Some \<lparr>contents = [], arr_size = 0, capacity = 0\<rparr> else None)"

text \<open>The loop that doubles the capacity; a loop that does not end is \<open>None\<close>.\<close>

partial_function (option) grow_cap :: "int \<Rightarrow> int \<Rightarrow> int option" where
  "grow_cap cap n =
     (if n < cap
      then let n2 = int32 (n * 2); n' = (if n2 < n \<or> n2 > MAX_CAPACITY then MAX_CAPACITY else n2) in grow_cap cap n'
      else Some n)"

definition ensureCapacity :: "bool \<Rightarrow> (nat \<Rightarrow> u32) \<Rightarrow> int \<Rightarrow> Array \<Rightarrow> (s32 \<times> Array) run" where
  "ensureCapacity mal fresh cap a =
     (if cap > capacity a
      then if cap > MAX_CAPACITY then Some (-1, a)
      else do {
        n \<leftarrow> grow_cap cap (if capacity a = 0 then INITIAL_CAPACITY else capacity a);
        Some (if n < 0 \<or> n > MAX_CAPACITY then (-1, a)
              else if \<not> mal then (-1, a)
              else (0, a\<lparr>capacity := n, contents := contents a @ map fresh [length (contents a)..<nat n]\<rparr>))
      }
      else Some (0, a))"

definition arrayAdd :: "bool \<Rightarrow> (nat \<Rightarrow> u32) \<Rightarrow> u32 \<Rightarrow> Array \<Rightarrow> (s32 \<times> Array) run" where
  "arrayAdd mal fresh p a = do {
     (r, a1) \<leftarrow> ensureCapacity mal fresh (int32 (arr_size a + 1)) a;
     if r < 0 then Some (r, a1)
     else if nat (arr_size a) < length (contents a1)
       then Some (0, a1\<lparr>contents := (contents a1)[nat (arr_size a) := p], arr_size := int32 (arr_size a + 1)\<rparr>)
       else None
   }"

definition checkBounds :: "Array \<Rightarrow> int \<Rightarrow> bool" where
  "checkBounds a index \<longleftrightarrow> index < arr_size a \<and> index \<ge> 0"

definition arrayGet :: "int \<Rightarrow> Array \<Rightarrow> u32 run" where
  "arrayGet index a = (if checkBounds a index \<and> nat index < length (contents a) then Some (contents a ! nat index) else None)"

text \<open>The shift copies the cells behind \<open>index\<close> up to the old size one place down.\<close>

definition arrayRemove :: "int \<Rightarrow> Array \<Rightarrow> (u32 \<times> Array) run" where
  "arrayRemove index a = do {
     p \<leftarrow> arrayGet index a;
     let newSize = arr_size a - 1;
     let i = nat index;
     let c = contents a;
     let c' = (if index \<noteq> newSize
               then take i c @ take (nat (newSize - index)) (drop (i + 1) c) @ drop (i + nat (newSize - index)) c
               else c);
     Some (p, a\<lparr>contents := c', arr_size := newSize\<rparr>)
   }"

definition arraySet :: "int \<Rightarrow> u32 \<Rightarrow> Array \<Rightarrow> (u32 \<times> Array) run" where
  "arraySet index p a = do {
     old \<leftarrow> arrayGet index a;
     Some (old, a\<lparr>contents := (contents a)[nat index := p]\<rparr>)
   }"

text \<open>\<open>memset\<close> of \<open>n\<close> cells from the cell \<open>i\<close> on.\<close>

definition zero_cells :: "nat \<Rightarrow> nat \<Rightarrow> u32 list \<Rightarrow> u32 list run" where
  "zero_cells i n c = (if i + n \<le> length c then Some (take i c @ replicate n 0 @ drop (i + n) c) else None)"

text \<open>\<open>arraySetSize\<close> adds the old size to the cell pointer four times too much: \<open>sizeof(void*)\<close> is counted twice.\<close>

definition arraySetSize :: "bool \<Rightarrow> (nat \<Rightarrow> u32) \<Rightarrow> int \<Rightarrow> Array \<Rightarrow> (s32 \<times> Array) run" where
  "arraySetSize mal fresh newSize a =
     (if newSize < 0 then None
      else if newSize > arr_size a
      then do {
        (r, a1) \<leftarrow> ensureCapacity mal fresh newSize a;
        if r < 0 then Some (r, a1)
        else do {
          c \<leftarrow> zero_cells (4 * nat (arr_size a)) (nat (newSize - arr_size a)) (contents a1);
          Some (0, a1\<lparr>contents := c, arr_size := newSize\<rparr>)
        }
      }
      else Some (0, a\<lparr>arr_size := newSize\<rparr>))"

definition arraySize :: "Array \<Rightarrow> int" where
  "arraySize a = arr_size a"

definition arrayUnwrap :: "Array \<Rightarrow> u32 list" where
  "arrayUnwrap a = contents a"

section \<open>Invariant\<close>

definition arr_ok :: "Array \<Rightarrow> bool" where
  "arr_ok a \<longleftrightarrow> 0 \<le> arr_size a \<and> arr_size a \<le> capacity a \<and> capacity a \<le> MAX_CAPACITY \<and> length (contents a) = nat (capacity a)"

definition arr_list :: "Array \<Rightarrow> u32 list" where
  "arr_list a = take (nat (arr_size a)) (contents a)"

lemma int32_small: "0 \<le> x \<Longrightarrow> x < 2 ^ 31 \<Longrightarrow> int32 x = x"
  by (simp add: int32_def signed_take_bit_int_eq_self)

lemma arr_list_length: "arr_ok a \<Longrightarrow> length (arr_list a) = nat (arr_size a)"
  by (auto simp: arr_ok_def arr_list_def min_def nat_le_eq_zle)

lemma arr_list_nth: "arr_ok a \<Longrightarrow> i < nat (arr_size a) \<Longrightarrow> arr_list a ! i = contents a ! i"
  by (simp add: arr_list_def)

text \<open>The doubling never overflows an \<open>int\<close> and ends.\<close>

lemma grow_cap_ends:
  assumes "0 < n" and "n \<le> MAX_CAPACITY" and "cap \<le> MAX_CAPACITY"
  shows "\<exists>m. grow_cap cap n = Some m \<and> n \<le> m \<and> cap \<le> m \<and> m \<le> MAX_CAPACITY"
  using assms(1,2)
proof (induction "nat (MAX_CAPACITY - n)" arbitrary: n rule: less_induct)
  case less
  show ?case
  proof (cases "n < cap")
    case True
    have w: "int32 (n * 2) = n * 2" using less.prems by (intro int32_small) (simp_all add: MAX_CAPACITY_def)
    let ?n = "if n * 2 < n \<or> n * 2 > MAX_CAPACITY then MAX_CAPACITY else n * 2"
    have n: "n < ?n" "?n \<le> MAX_CAPACITY" using less.prems True assms(3) by auto
    have "nat (MAX_CAPACITY - ?n) < nat (MAX_CAPACITY - n)" using n by linarith
    from less.hyps [OF this] n less.prems obtain m where "grow_cap cap ?n = Some m" "?n \<le> m" "cap \<le> m" "m \<le> MAX_CAPACITY" by force
    moreover have "grow_cap cap n = grow_cap cap ?n" using True by (subst grow_cap.simps) (simp add: w Let_def)
    ultimately show ?thesis using n by (intro exI [of _ m]) simp
  next
    case False
    then show ?thesis using less.prems by (subst grow_cap.simps) auto
  qed
qed

lemma ensureCapacity_ok:
  assumes ok: "arr_ok a" and cap: "0 \<le> cap"
  shows "\<exists>r a'. ensureCapacity mal fresh cap a = Some (r, a') \<and> (r = 0 \<or> r = -1 \<and> a' = a) \<and> arr_ok a' \<and> arr_size a' = arr_size a \<and>
    arr_list a' = arr_list a \<and> (r = 0 \<longrightarrow> cap \<le> capacity a') \<and> (mal \<and> cap \<le> MAX_CAPACITY \<longrightarrow> r = 0)"
proof (cases "capacity a < cap \<and> cap \<le> MAX_CAPACITY")
  case False
  then show ?thesis using ok by (auto simp: ensureCapacity_def)
next
  case True
  let ?s = "if capacity a = 0 then INITIAL_CAPACITY else capacity a"
  have s: "0 < ?s" "?s \<le> MAX_CAPACITY" "cap \<le> MAX_CAPACITY" using ok True by (auto simp: arr_ok_def INITIAL_CAPACITY_def MAX_CAPACITY_def)
  obtain m where m: "grow_cap cap ?s = Some m" "?s \<le> m" "cap \<le> m" "m \<le> MAX_CAPACITY" using grow_cap_ends [OF s] by blast
  let ?a = "a\<lparr>capacity := m, contents := contents a @ map fresh [length (contents a)..<nat m]\<rparr>"
  have run: "ensureCapacity mal fresh cap a = Some (if mal then (0, ?a) else (-1, a))"
    using True m s(1) by (simp add: ensureCapacity_def)
  have sz: "nat (arr_size a) \<le> length (contents a)" using ok by (auto simp: arr_ok_def nat_le_eq_zle)
  have "arr_ok ?a" using ok True m by (auto simp: arr_ok_def)
  moreover have "arr_list ?a = arr_list a" using sz by (simp add: arr_list_def)
  ultimately show ?thesis using run ok m by (cases mal) auto
qed


section \<open>The operations on the list of an array\<close>

lemma arrayAdd_ok:
  assumes ok: "arr_ok a"
  shows "\<exists>r a'. arrayAdd mal fresh p a = Some (r, a') \<and> arr_ok a' \<and>
    (r = 0 \<and> arr_list a' = arr_list a @ [p] \<or> r = -1 \<and> a' = a) \<and> (mal \<and> int (length (arr_list a)) < MAX_CAPACITY \<longrightarrow> r = 0)"
proof -
  have w: "int32 (arr_size a + 1) = arr_size a + 1" using ok by (intro int32_small) (auto simp: arr_ok_def MAX_CAPACITY_def)
  from ok have "0 \<le> arr_size a + 1" by (simp add: arr_ok_def)
  from ensureCapacity_ok [OF ok this, of mal fresh] obtain r a1 where e:
      "ensureCapacity mal fresh (arr_size a + 1) a = Some (r, a1)" "r = 0 \<or> r = -1 \<and> a1 = a" "arr_ok a1" "arr_size a1 = arr_size a"
      "arr_list a1 = arr_list a" "r = 0 \<longrightarrow> arr_size a + 1 \<le> capacity a1" "mal \<and> arr_size a + 1 \<le> MAX_CAPACITY \<longrightarrow> r = 0" by blast
  have len: "int (length (arr_list a)) = arr_size a" using ok by (simp add: arr_list_length arr_ok_def)
  show ?thesis
  proof (cases "r = 0")
    case False
    then show ?thesis using e len ok by (auto simp: arrayAdd_def w)
  next
    case True
    let ?i = "nat (arr_size a)"
    have i: "?i < length (contents a1)" using e True by (auto simp: arr_ok_def)
    let ?a = "a1\<lparr>contents := (contents a1)[?i := p], arr_size := arr_size a + 1\<rparr>"
    have run: "arrayAdd mal fresh p a = Some (0, ?a)" using e True i by (simp add: arrayAdd_def w)
    have "arr_ok ?a" using e True ok by (auto simp: arr_ok_def)
    moreover have "arr_list ?a = arr_list a @ [p]"
      using i ok e by (auto simp: arr_list_def arr_ok_def nat_add_distrib take_Suc_conv_app_nth Suc_nat_eq_nat_zadd1 [symmetric] add.commute)
    ultimately show ?thesis using run by auto
  qed
qed

lemma arrayGet_ok:
  "arr_ok a \<Longrightarrow> arrayGet i a = (if 0 \<le> i \<and> i < int (length (arr_list a)) then Some (arr_list a ! nat i) else None)"
  by (auto simp: arrayGet_def checkBounds_def arr_list_length arr_list_nth arr_ok_def)

lemma arraySet_ok:
  assumes ok: "arr_ok a"
  shows "if 0 \<le> i \<and> i < int (length (arr_list a))
     then \<exists>a'. arraySet i p a = Some (arr_list a ! nat i, a') \<and> arr_ok a' \<and> arr_list a' = (arr_list a)[nat i := p]
     else arraySet i p a = None"
  using ok by (auto simp: arraySet_def arrayGet_ok arr_ok_def arr_list_def take_update_swap)

lemma take_shift:
  assumes "i < n" and "n \<le> length c"
  shows "take (n - 1) (take i c @ take (n - 1 - i) (drop (i + 1) c) @ zs) = take i (take n c) @ drop (i + 1) (take n c)"
proof -
  have "length (take i c @ take (n - 1 - i) (drop (i + 1) c)) = n - 1" using assms by simp
  then have "take (n - 1) ((take i c @ take (n - 1 - i) (drop (i + 1) c)) @ zs) = take i c @ take (n - 1 - i) (drop (i + 1) c)"
    by (metis append_eq_conv_conj)
  then show ?thesis using assms by (simp add: drop_take min_def)
qed

lemma arrayRemove_ok:
  assumes ok: "arr_ok a"
  shows "if 0 \<le> i \<and> i < int (length (arr_list a))
     then \<exists>a'. arrayRemove i a = Some (arr_list a ! nat i, a') \<and> arr_ok a' \<and>
       arr_list a' = take (nat i) (arr_list a) @ drop (nat i + 1) (arr_list a)
     else arrayRemove i a = None"
proof (cases "0 \<le> i \<and> i < int (length (arr_list a))")
  case False
  then show ?thesis using ok by (auto simp: arrayRemove_def arrayGet_ok)
next
  case True
  let ?n = "nat (arr_size a)" and ?i = "nat i" and ?c = "contents a"
  let ?l = "take ?i ?c @ take (?n - 1 - ?i) (drop (?i + 1) ?c) @ drop (?i + (?n - 1 - ?i)) ?c"
  have n: "?i < ?n" "?n \<le> length ?c" using ok True by (auto simp: arr_list_length arr_ok_def nat_le_eq_zle)
  have d: "nat (arr_size a - 1 - i) = ?n - 1 - ?i" "nat (arr_size a - 1) = ?n - 1" using True ok by (auto simp: arr_ok_def)
  let ?c' = "if i \<noteq> arr_size a - 1 then ?l else ?c"
  have run: "arrayRemove i a = Some (arr_list a ! ?i, a\<lparr>contents := ?c', arr_size := arr_size a - 1\<rparr>)"
    using True ok by (simp add: arrayRemove_def arrayGet_ok d Let_def)
  have len: "length ?c' = length ?c" using n by auto
  have "arr_ok (a\<lparr>contents := ?c', arr_size := arr_size a - 1\<rparr>)" using ok n len by (auto simp: arr_ok_def)
  moreover have "take (?n - 1) ?c' = take ?i (take ?n ?c) @ drop (?i + 1) (take ?n ?c)"
  proof (cases "i = arr_size a - 1")
    case True
    then have "?i = ?n - 1" by simp
    then show ?thesis using True n by (simp add: min_def)
  next
    case False
    then show ?thesis using take_shift [OF n] by simp
  qed
  ultimately show ?thesis using True run d by (auto simp: arr_list_def)
qed


section \<open>Arrays implement lists\<close>

datatype arr_op = OpAdd u32 | OpGet int | OpSet int u32 | OpRemove int

text \<open>The reference: what the operations do to a list, with the result of the call; \<open>None\<close> is a failed assertion.\<close>

fun list_op :: "arr_op \<Rightarrow> u32 list \<Rightarrow> (u32 \<times> u32 list) option" where
  "list_op (OpAdd p) xs = Some (0, xs @ [p])"
| "list_op (OpGet i) xs = (if 0 \<le> i \<and> i < int (length xs) then Some (xs ! nat i, xs) else None)"
| "list_op (OpSet i p) xs = (if 0 \<le> i \<and> i < int (length xs) then Some (xs ! nat i, xs[nat i := p]) else None)"
| "list_op (OpRemove i) xs =
     (if 0 \<le> i \<and> i < int (length xs) then Some (xs ! nat i, take (nat i) xs @ drop (nat i + 1) xs) else None)"

fun array_op :: "(nat \<Rightarrow> u32) \<Rightarrow> arr_op \<Rightarrow> Array \<Rightarrow> (u32 \<times> Array) run" where
  "array_op fresh (OpAdd p) a = map_option (\<lambda>(r, a'). (word_of_int r, a')) (arrayAdd True fresh p a)"
| "array_op fresh (OpGet i) a = map_option (\<lambda>p. (p, a)) (arrayGet i a)"
| "array_op fresh (OpSet i p) a = arraySet i p a"
| "array_op fresh (OpRemove i) a = arrayRemove i a"

fun run_ops :: "('op \<Rightarrow> 'a \<Rightarrow> ('r \<times> 'a) option) \<Rightarrow> 'op list \<Rightarrow> 'a \<Rightarrow> ('r list \<times> 'a) option" where
  "run_ops f [] a = Some ([], a)"
| "run_ops f (x # xs) a = (case f x a of None \<Rightarrow> None | Some (r, a') \<Rightarrow>
     (case run_ops f xs a' of None \<Rightarrow> None | Some (rs, a'') \<Rightarrow> Some (r # rs, a'')))"

text \<open>
  What a client relies on: every operation on the representation does what the reference does on the list, as long as the list has room
  for one more element. From that one-step law any sequence of calls refines the same sequence on lists.
\<close>

locale list_refinement =
  fixes inv :: "'a \<Rightarrow> bool"
    and lst :: "'a \<Rightarrow> u32 list"
    and step :: "arr_op \<Rightarrow> 'a \<Rightarrow> (u32 \<times> 'a) option"
    and limit :: nat
  assumes step_fails: "inv a \<Longrightarrow> length (lst a) < limit \<Longrightarrow> list_op x (lst a) = None \<Longrightarrow> step x a = None"
    and step_refines: "inv a \<Longrightarrow> length (lst a) < limit \<Longrightarrow> list_op x (lst a) = Some (r, xs) \<Longrightarrow>
      \<exists>a'. step x a = Some (r, a') \<and> inv a' \<and> lst a' = xs"
begin

lemma list_op_length: "list_op x xs = Some (r, ys) \<Longrightarrow> length ys \<le> Suc (length xs)"
  by (cases x) (auto split: if_splits)

lemma run_refines:
  "inv a \<Longrightarrow> length (lst a) + length ops \<le> limit \<Longrightarrow>
   (case run_ops list_op ops (lst a) of
      None \<Rightarrow> run_ops step ops a = None
    | Some (rs, xs) \<Rightarrow> \<exists>a'. run_ops step ops a = Some (rs, a') \<and> inv a' \<and> lst a' = xs)"
proof (induction ops arbitrary: a)
  case Nil
  then show ?case by simp
next
  case (Cons x ops)
  have room: "length (lst a) < limit" using Cons.prems by simp
  show ?case
  proof (cases "list_op x (lst a)")
    case None
    then show ?thesis using step_fails [OF Cons.prems(1) room] by simp
  next
    case (Some p)
    obtain r xs where p: "p = (r, xs)" by (cases p)
    with step_refines [OF Cons.prems(1) room] Some obtain a' where a': "step x a = Some (r, a')" "inv a'" "lst a' = xs" by blast
    have "length (lst a') + length ops \<le> limit" using list_op_length [of x "lst a" r xs] Some p a' Cons.prems by simp
    from Cons.IH [OF a'(2) this] show ?thesis using Some p a' by (auto split: option.splits)
  qed
qed

end

lemma array_op_fails: "arr_ok a \<Longrightarrow> list_op x (arr_list a) = None \<Longrightarrow> array_op fresh x a = None"
  using arraySet_ok arrayRemove_ok by (cases x) (fastforce simp: arrayGet_ok split: if_splits)+

lemma array_op_refines:
  assumes "arr_ok a" and "length (arr_list a) < nat MAX_CAPACITY" and "list_op x (arr_list a) = Some (r, xs)"
  shows "\<exists>a'. array_op fresh x a = Some (r, a') \<and> arr_ok a' \<and> arr_list a' = xs"
proof (cases x)
  case (OpAdd p)
  have "int (length (arr_list a)) < MAX_CAPACITY" using assms(2) by simp
  then show ?thesis using arrayAdd_ok [OF assms(1), of True fresh p] assms(3) OpAdd by fastforce
next
  case (OpGet i)
  then show ?thesis using assms by (auto simp: arrayGet_ok split: if_splits)
next
  case (OpSet i p)
  then show ?thesis using arraySet_ok [OF assms(1), of i p] assms(3) by (auto split: if_splits)
next
  case (OpRemove i)
  then show ?thesis using arrayRemove_ok [OF assms(1), of i] assms(3) by (auto split: if_splits)
qed

interpretation arr: list_refinement arr_ok arr_list "array_op fresh" "nat MAX_CAPACITY" for fresh
  by unfold_locales (auto intro: array_op_fails array_op_refines)

text \<open>
  C31: The array implements lists: on a well formed array any sequence of arrayAdd, arrayGet, arraySet and arrayRemove returns exactly what the
  same sequence returns on the list of its elements, aborts exactly when an index is out of the list, and leaves a well formed array that
  holds the list, as long as memory lasts and the elements fit the largest capacity.
\<close>

theorem array_refines_list:
  assumes "arr_ok a" and "length (arr_list a) + length ops \<le> nat MAX_CAPACITY"
  shows "case run_ops list_op ops (arr_list a) of
      None \<Rightarrow> run_ops (array_op fresh) ops a = None
    | Some (rs, xs) \<Rightarrow> \<exists>a'. run_ops (array_op fresh) ops a = Some (rs, a') \<and> arr_ok a' \<and> arr_list a' = xs"
  using assms by (rule arr.run_refines)

theorem array_refines_list_witness:
  "\<exists>a'. run_ops (array_op (\<lambda>_. 7)) [OpAdd 1, OpAdd 2, OpAdd 3, OpRemove 0, OpSet 1 9, OpGet 0] (the (arrayCreate True))
     = Some ([0, 0, 0, 1, 3, 2], a') \<and> arr_ok a' \<and> arr_list a' = [2, 9]"
  using array_refines_list [of "the (arrayCreate True)" "[OpAdd 1, OpAdd 2, OpAdd 3, OpRemove 0, OpSet 1 9, OpGet 0]" "\<lambda>_. 7"]
  by (simp add: arrayCreate_def arr_ok_def arr_list_def MAX_CAPACITY_def)

text \<open>
  arrayAdd on a well formed array always returns: 0 with the pointer appended, or -1 with the array unchanged when memory or the largest
  capacity is exhausted; the doubling loop ends, no int overflows, and every store is inside of the cells.
\<close>

theorem arrayAdd_total:
  assumes "arr_ok a"
  shows "\<exists>r a'. arrayAdd mal fresh p a = Some (r, a') \<and> arr_ok a' \<and>
    (r = 0 \<and> arr_list a' = arr_list a @ [p] \<or> r = -1 \<and> a' = a \<and> (\<not> mal \<or> arraySize a = MAX_CAPACITY))"
proof -
  have "arraySize a = int (length (arr_list a))" "arraySize a \<le> MAX_CAPACITY"
    using assms by (auto simp: arr_list_length arr_ok_def arraySize_def)
  then show ?thesis using arrayAdd_ok [OF assms, of mal fresh p] by (smt (verit) one_neq_neg_one zero_neq_neg_one)
qed

theorem arrayAdd_total_witness:
  "\<exists>r a'. arrayAdd False (\<lambda>_. 0) 5 (the (arrayCreate True)) = Some (r, a') \<and> arr_ok a' \<and>
    (r = 0 \<and> arr_list a' = [5] \<or> r = -1 \<and> a' = the (arrayCreate True))"
  using arrayAdd_total [of "the (arrayCreate True)" False "\<lambda>_. 0" 5]
  by (auto simp: arrayCreate_def arr_ok_def arr_list_def MAX_CAPACITY_def)

text \<open>
  arraySetSize clears the wrong cells. Whenever a non-empty array is enlarged within its capacity and four times the old size plus the
  number of new entries exceeds the capacity, the memset writes behind the end of the cells; an array of two entries out of four
  enlarged to three is the smallest case.
\<close>

theorem arraySetSize_overruns:
  assumes "arr_ok a" and "arr_size a < n" and "n \<le> capacity a" and "capacity a < 4 * arr_size a + (n - arr_size a)"
  shows "arraySetSize mal fresh n a = None"
  using assms by (auto simp: arraySetSize_def ensureCapacity_def zero_cells_def arr_ok_def)

theorem arraySetSize_overruns_witness:
  "arraySetSize True (\<lambda>_. 0) 3 \<lparr>contents = [1, 2, 0, 0], arr_size = 2, capacity = 4\<rparr> = None"
  by (rule arraySetSize_overruns) (simp_all add: arr_ok_def MAX_CAPACITY_def)

end
