(* ===== verification/Hi_Msg_Queue.thy ===== *)
theory Hi_Msg_Queue
  imports Prelude
begin

text \<open>
  The in-process message queue of \<open>common/hi_msg_queue.c\<close>: a pool of equal blocks that circulate between a free list and a queue, each a
  singly linked chain with a counting semaphore. The store holds the queues and the header words of the allocated blocks by address; an
  access to any other address is \<open>Crash\<close>, and a call that does not return in the given state is \<open>Blocks\<close>. The addresses that \<open>malloc\<close> returns,
  whether a signal interrupts \<open>sem_wait\<close>, and what other threads do between two polls of a timed wait are arguments. The mutexes
  do not fail; the sections they guard are single steps.
\<close>

unbundle bit_operations_syntax

section \<open>Data\<close>

datatype 'a mq_out = Ret 'a | Blocks | Crash

primrec mq_bind :: "'a mq_out \<Rightarrow> ('a \<Rightarrow> 'b mq_out) \<Rightarrow> 'b mq_out" where
  "mq_bind (Ret x) f = f x"
| "mq_bind Blocks f = Blocks"
| "mq_bind Crash f = Crash"

type_synonym headers = "u32 \<rightharpoonup> u32"

record message_half_t =
  message_half_head :: u32
  message_half_tail :: u32
  message_half_sem :: nat

record message_queue_t =
  message_queue_free :: message_half_t
  message_queue_queue :: message_half_t
  message_queue_memory :: u32

record mq_store =
  mq_at :: "u32 \<rightharpoonup> message_queue_t"
  hdr_next :: headers
  blk_size :: "u32 \<rightharpoonup> nat"

definition sizeof_hdr :: u32 where
  "sizeof_hdr = 4"

section \<open>A half of a queue\<close>

text \<open>The guarded section of \<open>message_half_add\<close> on the header at \<open>Message\<close>.\<close>

definition half_link :: "u32 \<Rightarrow> message_half_t \<Rightarrow> headers \<Rightarrow> (message_half_t \<times> headers) mq_out" where
  "half_link Message h nx =
     (if nx Message = None then Crash
      else let nx1 = nx(Message \<mapsto> 0) in
        if message_half_head h = 0
        then Ret (h\<lparr>message_half_head := Message, message_half_tail := Message\<rparr>, nx1)
        else if nx1 (message_half_tail h) = None then Crash
        else Ret (h\<lparr>message_half_tail := Message\<rparr>, nx1(message_half_tail h \<mapsto> Message)))"

definition half_post :: "message_half_t \<Rightarrow> message_half_t" where
  "half_post h = h\<lparr>message_half_sem := message_half_sem h + 1\<rparr>"

text \<open>\<open>sem_wait\<close>: a signal ends it without a decrement, and nothing reads its status.\<close>

definition half_wait :: "bool \<Rightarrow> message_half_t \<Rightarrow> message_half_t mq_out" where
  "half_wait intr h =
     (if message_half_sem h > 0 then Ret (h\<lparr>message_half_sem := message_half_sem h - 1\<rparr>)
      else if intr then Ret h else Blocks)"

text \<open>The guarded section of \<open>message_half_remove\<close>.\<close>

definition half_unlink :: "message_half_t \<Rightarrow> headers \<Rightarrow> (u32 \<times> message_half_t) mq_out" where
  "half_unlink h nx =
     (let Message = message_half_head h in
      if Message = 0 then Crash
      else case nx Message of None \<Rightarrow> Crash | Some n \<Rightarrow> Ret (Message, h\<lparr>message_half_head := n\<rparr>))"

definition message_half_add :: "u32 \<Rightarrow> message_half_t \<Rightarrow> headers \<Rightarrow> (message_half_t \<times> headers) mq_out" where
  "message_half_add UsrMessage h nx =
     (if UsrMessage = 0 then Ret (h, nx)
      else mq_bind (half_link (UsrMessage - sizeof_hdr) h nx) (\<lambda>(h1, nx1). Ret (half_post h1, nx1)))"

definition message_half_remove :: "bool \<Rightarrow> message_half_t \<Rightarrow> headers \<Rightarrow> (u32 \<times> message_half_t) mq_out" where
  "message_half_remove intr h nx =
     mq_bind (half_wait intr h) (\<lambda>h1. mq_bind (half_unlink h1 nx) (\<lambda>(Message, h2). Ret (Message + sizeof_hdr, h2)))"

section \<open>Queue operations\<close>

definition message_send :: "u32 \<Rightarrow> u32 \<Rightarrow> mq_store \<Rightarrow> mq_store mq_out" where
  "message_send q Message s =
     (if q = 0 then Ret s
      else case mq_at s q of None \<Rightarrow> Crash | Some Q \<Rightarrow>
        mq_bind (message_half_add Message (message_queue_queue Q) (hdr_next s)) (\<lambda>(h, nx).
          Ret (s\<lparr>mq_at := (mq_at s)(q \<mapsto> Q\<lparr>message_queue_queue := h\<rparr>), hdr_next := nx\<rparr>)))"

definition message_receive :: "bool \<Rightarrow> u32 \<Rightarrow> mq_store \<Rightarrow> (u32 \<times> mq_store) mq_out" where
  "message_receive intr q s =
     (if q = 0 then Ret (0, s)
      else case mq_at s q of None \<Rightarrow> Crash | Some Q \<Rightarrow>
        mq_bind (message_half_remove intr (message_queue_queue Q) (hdr_next s)) (\<lambda>(m, h).
          Ret (m, s\<lparr>mq_at := (mq_at s)(q \<mapsto> Q\<lparr>message_queue_queue := h\<rparr>)\<rparr>)))"

definition message_claim :: "bool \<Rightarrow> u32 \<Rightarrow> mq_store \<Rightarrow> (u32 \<times> mq_store) mq_out" where
  "message_claim intr q s =
     (if q = 0 then Ret (0, s)
      else case mq_at s q of None \<Rightarrow> Crash | Some Q \<Rightarrow>
        mq_bind (message_half_remove intr (message_queue_free Q) (hdr_next s)) (\<lambda>(m, h).
          Ret (m, s\<lparr>mq_at := (mq_at s)(q \<mapsto> Q\<lparr>message_queue_free := h\<rparr>)\<rparr>)))"

definition message_release :: "u32 \<Rightarrow> u32 \<Rightarrow> mq_store \<Rightarrow> mq_store mq_out" where
  "message_release q Message s =
     (if q = 0 then Ret s
      else case mq_at s q of None \<Rightarrow> Crash | Some Q \<Rightarrow>
        mq_bind (message_half_add Message (message_queue_free Q) (hdr_next s)) (\<lambda>(h, nx).
          Ret (s\<lparr>mq_at := (mq_at s)(q \<mapsto> Q\<lparr>message_queue_free := h\<rparr>), hdr_next := nx\<rparr>)))"

section \<open>Creation and deletion\<close>

definition needed_size :: "u32 \<Rightarrow> u32" where
  "needed_size ElementSize = ((ElementSize + 3) AND (NOT 3)) + sizeof_hdr"

text \<open>
  The loop of \<open>message_init_generic\<close>, \<open>n\<close> rounds to go: the previous link is the head of the free half (\<open>None\<close>) or a header (\<open>Some\<close>). The result is the
  head, the headers, and the last link and block.
\<close>

definition set_link :: "u32 option \<Rightarrow> u32 \<Rightarrow> u32 \<Rightarrow> headers \<Rightarrow> (u32 \<times> headers) mq_out" where
  "set_link PrevMsgP v hp nx =
     (case PrevMsgP of None \<Rightarrow> Ret (v, nx) | Some p \<Rightarrow> if nx p = None then Crash else Ret (hp, nx(p \<mapsto> v)))"

primrec init_loop :: "nat \<Rightarrow> u32 \<Rightarrow> u32 option \<Rightarrow> u32 \<Rightarrow> u32 \<Rightarrow> headers \<Rightarrow> (u32 \<times> headers \<times> u32 option \<times> u32) mq_out" where
  "init_loop 0 Needed PrevMsgP CurrMsg hp nx = Ret (hp, nx, PrevMsgP, CurrMsg)"
| "init_loop (Suc n) Needed PrevMsgP CurrMsg hp nx =
     mq_bind (set_link PrevMsgP CurrMsg hp nx) (\<lambda>(hp1, nx1). init_loop n Needed (Some CurrMsg) (CurrMsg + Needed) hp1 nx1)"

definition message_init_generic :: "u32 \<Rightarrow> u32 \<Rightarrow> u32 \<Rightarrow> u32 \<Rightarrow> mq_store \<Rightarrow> (bool \<times> mq_store) mq_out" where
  "message_init_generic q memory ElementSize NoElements s =
     (if q = 0 \<or> memory = 0 then Ret (False, s)
      else case mq_at s q of None \<Rightarrow> Crash | Some Q \<Rightarrow>
        mq_bind (init_loop (unat NoElements - 1) (needed_size ElementSize) None memory (message_half_head (message_queue_free Q)) (hdr_next s))
          (\<lambda>(hp, nx, PrevMsgP, CurrMsg).
        mq_bind (set_link PrevMsgP CurrMsg hp nx) (\<lambda>(hp1, nx1).
          if nx1 CurrMsg = None then Crash
          else Ret (True, s\<lparr>mq_at := (mq_at s)(q \<mapsto>
              \<lparr>message_queue_free = \<lparr>message_half_head = hp1, message_half_tail = CurrMsg, message_half_sem = unat NoElements\<rparr>,
               message_queue_queue = \<lparr>message_half_head = 0, message_half_tail = 0, message_half_sem = 0\<rparr>,
               message_queue_memory = memory\<rparr>), hdr_next := nx1(CurrMsg \<mapsto> 0)\<rparr>))))"

definition message_init_queue :: "u32 \<Rightarrow> u32 \<Rightarrow> u32 \<Rightarrow> u32 \<Rightarrow> mq_store \<Rightarrow> (bool \<times> mq_store) mq_out" where
  "message_init_queue q memory ElementSize NoElements s = message_init_generic q memory ElementSize NoElements s"

text \<open>
  \<open>malloc\<close> of \<open>n\<close> bytes at \<open>p\<close> makes every word inside of the \<open>n\<close> bytes a header that may be accessed, with arbitrary contents, and \<open>free\<close> takes
  them away.
\<close>

definition in_block :: "u32 \<Rightarrow> nat \<Rightarrow> u32 \<Rightarrow> bool" where
  "in_block p n x \<longleftrightarrow> p \<le> x \<and> unat x + 4 \<le> unat p + n"

definition alloc_words :: "u32 \<Rightarrow> nat \<Rightarrow> u32 \<Rightarrow> mq_store \<Rightarrow> mq_store" where
  "alloc_words p n junk s =
     s\<lparr>hdr_next := (\<lambda>x. if in_block p n x then Some junk else hdr_next s x), blk_size := (blk_size s)(p \<mapsto> n)\<rparr>"

definition free_words :: "u32 \<Rightarrow> mq_store \<Rightarrow> mq_store mq_out" where
  "free_words p s =
     (if p = 0 then Ret s
      else case blk_size s p of None \<Rightarrow> Crash | Some n \<Rightarrow>
        Ret (s\<lparr>hdr_next := (\<lambda>x. if in_block p n x then None else hdr_next s x), blk_size := (blk_size s)(p := None)\<rparr>))"

text \<open>\<open>mem\<close> and \<open>q\<close> are the addresses the two \<open>malloc\<close> calls return.\<close>

definition message_create_generic :: "u32 \<Rightarrow> u32 \<Rightarrow> u32 \<Rightarrow> u32 \<Rightarrow> u32 \<Rightarrow> mq_store \<Rightarrow> (u32 \<times> mq_store) mq_out" where
  "message_create_generic mem q junk ElementSize0 NoElements s =
     (let ElementSize = (ElementSize0 + 3) AND (NOT 3); Needed = ElementSize + sizeof_hdr in
      if mem = 0 then Ret (0, s)
      else let s1 = alloc_words mem (unat (Needed * NoElements)) junk s in
        if q = 0 then mq_bind (free_words mem s1) (\<lambda>s2. Ret (0, s2))
        else let h = \<lparr>message_half_head = junk, message_half_tail = junk, message_half_sem = 0\<rparr>;
                 s2 = s1\<lparr>mq_at := (mq_at s1)(q \<mapsto> \<lparr>message_queue_free = h, message_queue_queue = h, message_queue_memory = junk\<rparr>)\<rparr> in
          mq_bind (message_init_generic q mem ElementSize NoElements s2) (\<lambda>(ok, s3). Ret (q, s3)))"

definition message_create_queue :: "u32 \<Rightarrow> u32 \<Rightarrow> u32 \<Rightarrow> u32 \<Rightarrow> u32 \<Rightarrow> mq_store \<Rightarrow> (u32 \<times> mq_store) mq_out" where
  "message_create_queue mem q junk ElementSize NoElements s = message_create_generic mem q junk ElementSize NoElements s"

definition message_delete_queue :: "u32 \<Rightarrow> mq_store \<Rightarrow> mq_store mq_out" where
  "message_delete_queue q s =
     (if q = 0 then Ret s
      else case mq_at s q of None \<Rightarrow> Crash | Some Q \<Rightarrow>
        mq_bind (free_words (message_queue_memory Q) s) (\<lambda>s1. Ret (s1\<lparr>mq_at := (mq_at s1)(q := None)\<rparr>)))"

section \<open>Timed waits\<close>

text \<open>
  \<open>semaphore_wait_timeout\<close>: \<open>avail k\<close> says whether the semaphore is positive at the \<open>k\<close>th poll. The counter is an \<open>int\<close>, compared as an unsigned number;
  its overflow is undefined. The result is the status and the number of polls that failed.
\<close>

function wait_loop :: "(nat \<Rightarrow> bool) \<Rightarrow> u32 \<Rightarrow> int \<Rightarrow> nat \<Rightarrow> (bool \<times> nat) mq_out" where
  "wait_loop avail time_out_ms time_out k =
     (if 0 \<le> time_out \<and> time_out \<le> uint time_out_ms
      then if avail k then Ret (True, k)
      else if time_out = uint time_out_ms then Ret (False, k)
      else if time_out + 10 \<ge> 2 ^ 31 then Crash
      else wait_loop avail time_out_ms (time_out + 10) (k + 1)
      else Ret (False, k))"
  by pat_completeness auto
termination
  by (relation "measure (\<lambda>(avail, ms, t, k). nat (2 ^ 31 - t))") auto

declare wait_loop.simps [simp del]

definition semaphore_wait_timeout :: "(nat \<Rightarrow> bool) \<Rightarrow> u32 \<Rightarrow> (bool \<times> nat) mq_out" where
  "semaphore_wait_timeout avail time_out_ms = wait_loop avail time_out_ms 0 0"

text \<open>
  \<open>env k\<close> is what the half and the headers are, as other threads have left them at the \<open>k\<close>th poll, and \<open>None\<close> when the queue is gone, in
  which case the poll is an invalid access. The result is the message, the poll that ended the wait, and the half.
\<close>

definition message_half_remove_timeout ::
    "(nat \<Rightarrow> (message_half_t \<times> headers) option) \<Rightarrow> u32 \<Rightarrow> (u32 \<times> nat \<times> message_half_t) mq_out" where
  "message_half_remove_timeout env time_out =
     mq_bind (semaphore_wait_timeout (\<lambda>k. case env k of None \<Rightarrow> True | Some (h, nx) \<Rightarrow> message_half_sem h > 0) time_out) (\<lambda>(ok, k).
       case env k of None \<Rightarrow> Crash | Some (h, nx) \<Rightarrow>
         if \<not> ok then Ret (0, k, h)
         else mq_bind (half_unlink (h\<lparr>message_half_sem := message_half_sem h - 1\<rparr>) nx) (\<lambda>(Message, h2).
           Ret (Message + sizeof_hdr, k, h2)))"

definition message_receive_timeout :: "(nat \<Rightarrow> mq_store) \<Rightarrow> u32 \<Rightarrow> u32 \<Rightarrow> (u32 \<times> mq_store) mq_out" where
  "message_receive_timeout env q time_out =
     (if q = 0 then Ret (0, env 0)
      else mq_bind (message_half_remove_timeout
          (\<lambda>k. map_option (\<lambda>Q. (message_queue_queue Q, hdr_next (env k))) (mq_at (env k) q)) time_out) (\<lambda>(m, k, h).
        Ret (m, (env k)\<lparr>mq_at := (mq_at (env k))(q := map_option (\<lambda>Q. Q\<lparr>message_queue_queue := h\<rparr>) (mq_at (env k) q))\<rparr>)))"

definition message_claim_timeout :: "(nat \<Rightarrow> mq_store) \<Rightarrow> u32 \<Rightarrow> u32 \<Rightarrow> (u32 \<times> mq_store) mq_out" where
  "message_claim_timeout env q time_out =
     (if q = 0 then Ret (0, env 0)
      else mq_bind (message_half_remove_timeout
          (\<lambda>k. map_option (\<lambda>Q. (message_queue_free Q, hdr_next (env k))) (mq_at (env k) q)) time_out) (\<lambda>(m, k, h).
        Ret (m, (env k)\<lparr>mq_at := (mq_at (env k))(q := map_option (\<lambda>Q. Q\<lparr>message_queue_free := h\<rparr>) (mq_at (env k) q))\<rparr>)))"

section \<open>Interface\<close>

text \<open>For a timed call \<open>env 0\<close> is the store at the call; for an untimed one only that is used.\<close>

definition HI_MsgQueueCreate :: "u32 \<Rightarrow> u32 \<Rightarrow> u32 \<Rightarrow> u32 \<Rightarrow> u32 \<Rightarrow> mq_store \<Rightarrow> (u32 \<times> mq_store) mq_out" where
  "HI_MsgQueueCreate mem q junk MessageSize Messages s = message_create_queue mem q junk MessageSize Messages s"

definition HI_MsgQueueDestroy :: "u32 \<Rightarrow> mq_store \<Rightarrow> mq_store mq_out" where
  "HI_MsgQueueDestroy Queue s = message_delete_queue Queue s"

definition HI_MsgClaim :: "bool \<Rightarrow> u32 \<Rightarrow> u32 \<Rightarrow> (nat \<Rightarrow> mq_store) \<Rightarrow> (u32 \<times> mq_store) mq_out" where
  "HI_MsgClaim intr Queue Timeout_MS env =
     (if Timeout_MS = 0 then message_claim intr Queue (env 0) else message_claim_timeout env Queue Timeout_MS)"

definition HI_MsgSend :: "u32 \<Rightarrow> u32 \<Rightarrow> mq_store \<Rightarrow> mq_store mq_out" where
  "HI_MsgSend Queue Message s = message_send Queue Message s"

definition HI_MsgReceive :: "bool \<Rightarrow> u32 \<Rightarrow> u32 \<Rightarrow> (nat \<Rightarrow> mq_store) \<Rightarrow> (u32 \<times> mq_store) mq_out" where
  "HI_MsgReceive intr Queue Timeout_MS env =
     (if Timeout_MS = 0 then message_receive intr Queue (env 0) else message_receive_timeout env Queue Timeout_MS)"

definition HI_MsgRelease :: "u32 \<Rightarrow> u32 \<Rightarrow> mq_store \<Rightarrow> mq_store mq_out" where
  "HI_MsgRelease Queue Message s = message_release Queue Message s"

definition HI_MsgGetAmount :: "u32 \<Rightarrow> mq_store \<Rightarrow> s32 mq_out" where
  "HI_MsgGetAmount Queue s =
     (case mq_at s Queue of None \<Rightarrow> Crash | Some Q \<Rightarrow> Ret (int (message_half_sem (message_queue_queue Q))))"

section \<open>Chains\<close>

primrec chain :: "headers \<Rightarrow> u32 \<Rightarrow> u32 list \<Rightarrow> bool" where
  "chain nx p [] \<longleftrightarrow> p = 0"
| "chain nx p (x # xs) \<longleftrightarrow> p = x \<and> x \<noteq> 0 \<and> (case nx x of None \<Rightarrow> False | Some n \<Rightarrow> chain nx n xs)"

text \<open>The list \<open>xs\<close> of headers is what the half links; the tail is only meaningful while there is one.\<close>

definition half_repr :: "message_half_t \<Rightarrow> headers \<Rightarrow> u32 list \<Rightarrow> bool" where
  "half_repr h nx xs \<longleftrightarrow> chain nx (message_half_head h) xs \<and> distinct xs \<and> (xs \<noteq> [] \<longrightarrow> message_half_tail h = last xs)"

lemma chain_cong: "(\<And>x. x \<in> set xs \<Longrightarrow> nx' x = nx x) \<Longrightarrow> chain nx' p xs = chain nx p xs"
  by (induction xs arbitrary: p) (auto split: option.splits)

lemma chain_nonzero: "chain nx p xs \<Longrightarrow> 0 \<notin> set xs"
  by (induction xs arbitrary: p) (auto split: option.splits)

lemma chain_dom: "chain nx p xs \<Longrightarrow> x \<in> set xs \<Longrightarrow> nx x \<noteq> None"
  by (induction xs arbitrary: p) (auto split: option.splits)

lemma chain_snoc:
  "chain nx p xs \<Longrightarrow> xs \<noteq> [] \<Longrightarrow> distinct xs \<Longrightarrow> m \<noteq> 0 \<Longrightarrow> m \<notin> set xs \<Longrightarrow> chain (nx(m \<mapsto> 0, last xs \<mapsto> m)) p (xs @ [m])"
proof (induction xs arbitrary: p)
  case (Cons x xs)
  then show ?case
  proof (cases "xs = []")
    case False
    with Cons show ?thesis by (auto split: option.splits)
  qed (auto split: option.splits)
qed simp

lemma half_link_repr:
  assumes r: "half_repr h nx xs" and m: "m \<noteq> 0" "m \<notin> set xs" "nx m \<noteq> None"
  shows "\<exists>h' nx'. half_link m h nx = Ret (h', nx') \<and> half_repr h' nx' (xs @ [m]) \<and> message_half_sem h' = message_half_sem h \<and>
    (\<forall>x. x \<notin> insert m (set xs) \<longrightarrow> nx' x = nx x) \<and> dom nx' = dom nx"
proof (cases "xs = []")
  case True
  then show ?thesis using r m by (auto simp: half_link_def half_repr_def)
next
  case False
  from r False have l: "last xs \<in> set xs" "message_half_tail h = last xs" "chain nx (message_half_head h) xs" "distinct xs"
    by (auto simp: half_repr_def)
  from l have "message_half_head h \<noteq> 0" "nx (last xs) \<noteq> None" using False chain_dom [OF l(3) l(1)] by (cases xs; auto)+
  then have "half_link m h nx = Ret (h\<lparr>message_half_tail := m\<rparr>, nx(m \<mapsto> 0, last xs \<mapsto> m))"
    using m l by (auto simp: half_link_def Let_def)
  moreover have "half_repr (h\<lparr>message_half_tail := m\<rparr>) (nx(m \<mapsto> 0, last xs \<mapsto> m)) (xs @ [m])"
    using chain_snoc [OF l(3) False l(4) m(1,2)] l m by (auto simp: half_repr_def)
  moreover have "dom (nx(m \<mapsto> 0, last xs \<mapsto> m)) = dom nx" using m \<open>nx (last xs) \<noteq> None\<close> by auto
  ultimately show ?thesis using l by auto
qed

lemma half_unlink_repr:
  assumes "half_repr h nx (x # xs)"
  shows "\<exists>h'. half_unlink h nx = Ret (x, h') \<and> half_repr h' nx xs \<and> message_half_sem h' = message_half_sem h"
  using assms by (auto simp: half_repr_def half_unlink_def split: option.splits)

lemma half_unlink_empty: "half_repr h nx [] \<Longrightarrow> half_unlink h nx = Crash"
  by (simp add: half_repr_def half_unlink_def)

lemma half_repr_frame: "half_repr h nx xs \<Longrightarrow> (\<And>x. x \<in> set xs \<Longrightarrow> nx' x = nx x) \<Longrightarrow> half_repr h nx' xs"
  using chain_cong [of xs nx' nx] by (simp add: half_repr_def)


section \<open>The layout of a new queue\<close>

primrec blocks_from :: "nat \<Rightarrow> u32 \<Rightarrow> u32 \<Rightarrow> u32 list" where
  "blocks_from 0 D c = [c]"
| "blocks_from (Suc n) D c = c # blocks_from n D (c + D)"

lemma blocks_from_eq: "blocks_from n D c = map (\<lambda>j. c + of_nat j * D) [0..<Suc n]"
proof (induction n arbitrary: c)
  case (Suc n)
  have "map (\<lambda>j. c + of_nat j * D) [0..<Suc (Suc n)] = c # map (\<lambda>j. c + of_nat (Suc j) * D) [0..<Suc n]"
    by (simp only: map_upt_Suc) (simp del: upt_Suc)
  then show ?case using Suc.IH by (simp del: upt_Suc add: algebra_simps)
qed simp

lemma blocks_from_ne [simp]: "blocks_from n D c \<noteq> []"
  by (cases n) auto

lemma blocks_from_hd [simp]: "hd (blocks_from n D c) = c"
  by (cases n) auto

text \<open>Running the loop behind a first link and closing the chain.\<close>

lemma init_loop_chain:
  assumes "distinct (p # blocks_from n D c)" and "0 \<notin> set (blocks_from n D c)" and "set (p # blocks_from n D c) \<subseteq> dom nx"
  shows "\<exists>nx1 p' nx2. init_loop n D (Some p) c hp nx = Ret (hp, nx1, Some p', last (blocks_from n D c)) \<and>
    set_link (Some p') (last (blocks_from n D c)) hp nx1 = Ret (hp, nx2) \<and> nx2 (last (blocks_from n D c)) \<noteq> None \<and>
    (let nx3 = nx2(last (blocks_from n D c) \<mapsto> 0) in nx3 p = Some c \<and> chain nx3 c (blocks_from n D c) \<and> dom nx \<subseteq> dom nx3 \<and>
       (\<forall>x. x \<notin> set (p # blocks_from n D c) \<longrightarrow> nx3 x = nx x))"
  using assms
proof (induction n arbitrary: p c nx)
  case 0
  then show ?case by (auto simp: set_link_def Let_def)
next
  case (Suc n)
  let ?bs = "blocks_from n D (c + D)" and ?nx = "nx(p \<mapsto> c)"
  have "distinct (c # ?bs)" "0 \<notin> set ?bs" "set (c # ?bs) \<subseteq> dom ?nx" using Suc.prems by auto
  from Suc.IH [OF this] obtain nx1 p' nx2 where ih: "init_loop n D (Some c) (c + D) hp ?nx = Ret (hp, nx1, Some p', last ?bs)"
      "set_link (Some p') (last ?bs) hp nx1 = Ret (hp, nx2)" "nx2 (last ?bs) \<noteq> None"
      "(nx2(last ?bs \<mapsto> 0)) c = Some (c + D)" "chain (nx2(last ?bs \<mapsto> 0)) (c + D) ?bs" "dom ?nx \<subseteq> dom (nx2(last ?bs \<mapsto> 0))"
      "\<forall>x. x \<notin> set (c # ?bs) \<longrightarrow> (nx2(last ?bs \<mapsto> 0)) x = ?nx x" unfolding Let_def by blast
  have "dom nx \<subseteq> dom (nx2(last ?bs \<mapsto> 0))" using ih(6) by auto
  moreover have "set_link (Some p) c hp nx = Ret (hp, ?nx)" using Suc.prems by (auto simp: set_link_def)
  moreover have "(nx2(last ?bs \<mapsto> 0)) p = Some c" using ih(7) Suc.prems by auto
  moreover have "\<forall>x. x \<notin> set (p # c # ?bs) \<longrightarrow> (nx2(last ?bs \<mapsto> 0)) x = nx x" using ih(7) by auto
  ultimately show ?case using ih Suc.prems
    by - (rule exI [of _ nx1], rule exI [of _ p'], rule exI [of _ nx2], simp add: Let_def del: fun_upd_apply)
qed

lemma init_loop_first:
  assumes "distinct (blocks_from n D c)" and "0 \<notin> set (blocks_from n D c)" and "set (blocks_from n D c) \<subseteq> dom nx"
  shows "\<exists>hp1 nx1 p' nx2. init_loop n D None c hp nx = Ret (hp1, nx1, p', last (blocks_from n D c)) \<and>
    set_link p' (last (blocks_from n D c)) hp1 nx1 = Ret (c, nx2) \<and> nx2 (last (blocks_from n D c)) \<noteq> None \<and>
    chain (nx2(last (blocks_from n D c) \<mapsto> 0)) c (blocks_from n D c) \<and> dom nx \<subseteq> dom (nx2(last (blocks_from n D c) \<mapsto> 0))"
proof (cases n)
  case 0
  then show ?thesis using assms by (auto simp: set_link_def)
next
  case (Suc k)
  let ?bs = "blocks_from k D (c + D)"
  have "distinct (c # ?bs)" "0 \<notin> set ?bs" "set (c # ?bs) \<subseteq> dom nx" using Suc assms by auto
  from init_loop_chain [OF this, of c] obtain nx1 p' nx2 where r: "init_loop k D (Some c) (c + D) c nx = Ret (c, nx1, Some p', last ?bs)"
      "set_link (Some p') (last ?bs) c nx1 = Ret (c, nx2)" "nx2 (last ?bs) \<noteq> None" "(nx2(last ?bs \<mapsto> 0)) c = Some (c + D)"
      "chain (nx2(last ?bs \<mapsto> 0)) (c + D) ?bs" "dom nx \<subseteq> dom (nx2(last ?bs \<mapsto> 0))" unfolding Let_def by blast
  have "init_loop n D None c hp nx = Ret (c, nx1, Some p', last (blocks_from n D c))" using r(1) Suc by (simp add: set_link_def)
  moreover have "c \<noteq> 0" using assms(2) Suc by simp
  ultimately show ?thesis using r(2-) Suc
    by - (rule exI [of _ c], rule exI [of _ nx1], rule exI [of _ "Some p'"], rule exI [of _ nx2], simp del: fun_upd_apply)
qed


lemma and_not_3: "unat ((x :: u32) AND NOT 3) = 4 * (unat x div 4)"
proof -
  have m: "(3 :: u32) = mask 2" by (simp add: mask_eq_exp_minus_1)
  have "x AND NOT (mask 2) = push_bit 2 (drop_bit 2 x)"
    by (rule bit_word_eqI) (auto simp: bit_push_bit_iff bit_drop_bit_eq bit_and_iff bit_not_iff bit_mask_iff not_less
      elim!: back_subst [of "bit x"])
  then have "unat (x AND NOT 3) = take_bit 32 (4 * (unat x div 4))"
    unfolding m by (simp add: unat_word_ariths unat_div take_bit_eq_mod push_bit_eq_mult drop_bit_eq_div mult.commute mod_mult_right_eq)
  also have "\<dots> = 4 * (unat x div 4)"
    by (rule take_bit_nat_eq_self, rule le_less_trans [of _ "unat x"]) (use unsigned_less [of x] in simp_all)
  finally show ?thesis .
qed

lemma needed_size_round: "needed_size ((x + 3) AND NOT 3) = needed_size x"
proof -
  let ?y = "(x + 3) AND NOT 3"
  have d: "unat ?y = 4 * (unat (x + 3) div 4)" by (rule and_not_3)
  have "unat (x + 3) < 4294967296" using unsigned_less [of "x + 3"] by simp
  then have "unat (x + 3) div 4 < 1073741824" by (intro less_mult_imp_div_less) simp
  then have "unat ?y + 3 < 4294967296" unfolding d by linarith
  then have "unat (?y + 3) = unat ?y + 3" by (simp add: unat_add_lem [THEN iffD1])
  then have "unat ((?y + 3) AND NOT 3) = unat ?y" unfolding and_not_3 by simp
  then have "(?y + 3) AND NOT 3 = ?y" by (simp only: unsigned_word_eqI)
  then show ?thesis by (simp add: needed_size_def)
qed

lemma needed_size_room:
  assumes "x \<le> 0xFFFFFFF8"
  shows "unat x + 4 \<le> unat (needed_size x)"
proof -
  have x: "unat x \<le> 0xFFFFFFF8" using assms by (simp add: word_le_nat_alt)
  then have n: "unat (x + 3) = unat x + 3" by (simp add: unat_add_lem [THEN iffD1])
  then have "unat (x + 3) div 4 \<le> 4294967291 div 4" using x by (intro div_le_mono) simp
  then have "unat x \<le> unat ((x + 3) AND NOT 3)" "unat ((x + 3) AND NOT 3) \<le> 0xFFFFFFF8" unfolding and_not_3 using n by simp_all
  then show ?thesis by (simp add: needed_size_def sizeof_hdr_def unat_add_lem [THEN iffD1])
qed

lemma unat_block:
  assumes "unat c + unat D * n \<le> 2 ^ 32" and "j < n" and "0 < unat D"
  shows "unat ((c :: u32) + of_nat j * D) = unat c + j * unat D"
proof -
  have "(j + 1) * unat D \<le> n * unat D" using assms(2) by (intro mult_right_mono) auto
  then have j: "unat c + j * unat D < 2 ^ 32" using assms by (simp add: mult.commute)
  have "unat (c + of_nat j * D) = (unat c + j * unat D) mod 2 ^ 32"
    by (simp add: unat_word_ariths unat_of_nat mod_mult_left_eq mod_add_right_eq)
  then show ?thesis using j by simp
qed


lemma blocks_layout:
  assumes "unat c + unat D * Suc n \<le> 2 ^ 32" and "4 \<le> unat D" and "c \<noteq> 0" and "\<And>x. in_block c (unat D * Suc n) x \<Longrightarrow> nx x \<noteq> None"
  shows "distinct (blocks_from n D c)" and "0 \<notin> set (blocks_from n D c)" and "set (blocks_from n D c) \<subseteq> dom nx"
proof -
  have u: "unat (c + of_nat j * D) = unat c + j * unat D" if "j < Suc n" for j
    using unat_block [OF assms(1) that] assms(2) by simp
  have "inj_on (\<lambda>j. c + of_nat j * D) {0..<Suc n}"
  proof (rule inj_onI)
    fix i j assume "i \<in> {0..<Suc n}" "j \<in> {0..<Suc n}" "c + of_nat i * D = c + of_nat j * D"
    then have "unat c + i * unat D = unat c + j * unat D" using u [of i] u [of j] by auto
    then show "i = j" using assms(2) by simp
  qed
  then show "distinct (blocks_from n D c)" unfolding blocks_from_eq by (simp only: distinct_map distinct_upt set_upt simp_thms)
  show "0 \<notin> set (blocks_from n D c)"
    unfolding blocks_from_eq using u assms(3) by (auto simp del: upt_Suc simp: unat_eq_0 [symmetric])
  have "nx (c + of_nat j * D) \<noteq> None" if "j < Suc n" for j
  proof (rule assms(4))
    have "j * unat D \<le> n * unat D" using that by (intro mult_right_mono) auto
    then show "in_block c (unat D * Suc n) (c + of_nat j * D)"
      unfolding in_block_def word_le_nat_alt u [OF that] mult_Suc_right mult.commute [of "unat D"] using assms(2)
      by (intro conjI) linarith+
  qed
  then show "set (blocks_from n D c) \<subseteq> dom nx" unfolding blocks_from_eq by (auto simp del: upt_Suc)
qed

text \<open>
  HI_MsgQueueCreate with at least one message, when the blocks fit the address space, lays the requested number of blocks out behind
  one another, each with room for its header and a message of the requested size, links all of them in order on the free half with
  the semaphore at their number, and leaves the queue half empty.
\<close>

theorem MsgQueueCreate_layout:
  assumes "mem \<noteq> 0" and "q \<noteq> 0" and "0 < NoElements" and "ElementSize \<le> 0xFFFFFFF8"
    and fits: "unat mem + unat (needed_size ElementSize) * unat NoElements \<le> 2 ^ 32"
    and bs: "bs = map (\<lambda>j. mem + of_nat j * needed_size ElementSize) [0..<unat NoElements]"
  shows "\<exists>s' Q. HI_MsgQueueCreate mem q junk ElementSize NoElements s = Ret (q, s') \<and> mq_at s' q = Some Q \<and>
    half_repr (message_queue_free Q) (hdr_next s') bs \<and> message_half_sem (message_queue_free Q) = length bs \<and>
    half_repr (message_queue_queue Q) (hdr_next s') [] \<and> message_half_sem (message_queue_queue Q) = 0 \<and>
    message_queue_memory Q = mem \<and>
    (\<forall>j < length bs. unat (bs ! j) = unat mem + j * unat (needed_size ElementSize)) \<and>
    unat ElementSize + 4 \<le> unat (needed_size ElementSize)"
proof -
  let ?D = "needed_size ElementSize" and ?ES = "(ElementSize + 3) AND NOT 3"
  have room: "unat ElementSize + 4 \<le> unat ?D" by (rule needed_size_room [OF assms(4)])
  obtain n where n: "unat NoElements = Suc n" using assms(3) by (metis not0_implies_Suc unat_eq_zero word_less_nat_alt less_irrefl unat_0)
  have "unat mem \<noteq> 0" using assms(1) by (simp add: unat_eq_0)
  then have "unat ?D * unat NoElements < 2 ^ 32" using fits by linarith
  then have prod: "unat (?D * NoElements) = unat ?D * Suc n" by (simp add: unat_word_ariths n)
  let ?nx = "\<lambda>x. if in_block mem (unat ?D * Suc n) x then Some junk else hdr_next s x"
  have e: "bs = blocks_from n ?D mem" unfolding bs n blocks_from_eq ..
  have D4: "4 \<le> unat ?D" using room by simp
  have "in_block mem (unat ?D * Suc n) x \<Longrightarrow> ?nx x \<noteq> None" for x by simp
  note L = blocks_layout [where nx = ?nx, OF fits [unfolded n] D4 assms(1) this]
  obtain hp1 nx1 p' nx2 where r: "init_loop n ?D None mem junk ?nx = Ret (hp1, nx1, p', last bs)"
      "set_link p' (last bs) hp1 nx1 = Ret (mem, nx2)" "nx2 (last bs) \<noteq> None" "chain (nx2(last bs \<mapsto> 0)) mem bs"
    using init_loop_first [OF L, of junk] unfolding e by blast
  have d: "distinct bs" "bs \<noteq> []" "length bs = Suc n" using L(1) n by (simp_all add: e) (simp add: e [symmetric] bs)
  have D: "((ElementSize + 3) AND - 4) + sizeof_hdr = ?D" "needed_size ((ElementSize + 3) AND - 4) = ?D"
    using needed_size_round [of ElementSize] by (simp_all add: needed_size_def)
  have u: "\<forall>j < length bs. unat (bs ! j) = unat mem + j * unat ?D"
    using unat_block [OF fits] D4 by (auto simp: bs)
  show ?thesis
    using r d u room assms(1,2)
    by (simp add: HI_MsgQueueCreate_def message_create_queue_def message_create_generic_def message_init_generic_def Let_def alloc_words_def
        D prod n half_repr_def fun_upd_same del: fun_upd_apply)
qed


theorem MsgQueueCreate_layout_witness:
  "\<exists>s' Q. HI_MsgQueueCreate 0x1000 0x2000 7 5 2 \<lparr>mq_at = Map.empty, hdr_next = Map.empty, blk_size = Map.empty\<rparr> = Ret (0x2000, s') \<and>
    mq_at s' 0x2000 = Some Q \<and> half_repr (message_queue_free Q) (hdr_next s') [0x1000, 0x100C] \<and>
    message_half_sem (message_queue_free Q) = 2"
proof -
  let ?s = "\<lparr>mq_at = Map.empty, hdr_next = Map.empty, blk_size = Map.empty\<rparr>"
  have "[0..<unat (2 :: u32)] = [0, 1]" by (simp add: upt_rec)
  then have "\<exists>s' Q. HI_MsgQueueCreate 0x1000 0x2000 7 5 2 ?s = Ret (0x2000, s') \<and> mq_at s' 0x2000 = Some Q \<and>
      half_repr (message_queue_free Q) (hdr_next s') [0x1000, 0x100C] \<and>
      message_half_sem (message_queue_free Q) = length [0x1000 :: u32, 0x100C] \<and>
      half_repr (message_queue_queue Q) (hdr_next s') [] \<and> message_half_sem (message_queue_queue Q) = 0 \<and>
      message_queue_memory Q = 0x1000 \<and>
      (\<forall>j < length [0x1000 :: u32, 0x100C]. unat ([0x1000 :: u32, 0x100C] ! j) = unat (0x1000 :: u32) + j * unat (needed_size 5)) \<and>
      unat (5 :: u32) + 4 \<le> unat (needed_size 5)"
    by (intro MsgQueueCreate_layout) (simp_all add: needed_size_def sizeof_hdr_def)
  then show ?thesis by (elim exE conjE) (intro exI conjI, assumption+, simp)
qed

text \<open>
  HI_MsgQueueCreate does not check its sizes: whenever the block size times the number of messages is zero in 32 bits, for no
  messages or for a product that wraps round, it writes the header of the first message outside of the memory it has allocated.
\<close>

theorem MsgQueueCreate_overruns:
  assumes "mem \<noteq> 0" and "q \<noteq> 0" and "needed_size ElementSize * NoElements = 0" and "hdr_next s mem = None"
  shows "HI_MsgQueueCreate mem q junk ElementSize NoElements s = Crash"
proof -
  have D: "((ElementSize + 3) AND - 4) + sizeof_hdr = needed_size ElementSize" "needed_size ((ElementSize + 3) AND - 4) = needed_size ElementSize"
    using needed_size_round [of ElementSize] by (simp_all add: needed_size_def)
  have b: "\<not> in_block mem 0 x" for x by (auto simp: in_block_def word_le_nat_alt)
  have i: "mq_bind (init_loop n D None mem hp (hdr_next s)) (\<lambda>(hp, nx, p, c). mq_bind (set_link p c hp nx) (\<lambda>(hp1, nx1).
      if nx1 c = None then Crash else f hp1 nx1 c)) = Crash" for n D hp f
    using assms(4) by (cases n; cases "n - 1") (auto simp: set_link_def)
  show ?thesis
    using assms
    by (simp add: i HI_MsgQueueCreate_def message_create_queue_def message_create_generic_def message_init_generic_def Let_def alloc_words_def
        D b cong: if_cong)
qed

theorem MsgQueueCreate_overruns_witness:
  "HI_MsgQueueCreate 0x1000 0x2000 7 0xFFFC 0x10000 \<lparr>mq_at = Map.empty, hdr_next = Map.empty, blk_size = Map.empty\<rparr> = Crash"
  by (rule MsgQueueCreate_overruns) (simp_all add: needed_size_def sizeof_hdr_def)

section \<open>Interleaved threads\<close>

text \<open>
  Threads between the steps of a call: \<open>posting i\<close> of them have linked a message and not yet posted the semaphore of the half \<open>i\<close>, \<open>taking i\<close> have passed the
  semaphore and not yet unlinked a message; \<open>held\<close> are the messages that threads own. A wait on an empty semaphore may be ended by a signal; \<open>early i\<close> counts the waits on the
  half \<open>i\<close> that ended so, without a decrement, since the start. An unlink that crashes ends the process and has no step.
\<close>

datatype half_id = FreeHalf | QueueHalf

primrec get_half :: "half_id \<Rightarrow> message_queue_t \<Rightarrow> message_half_t" where
  "get_half FreeHalf Q = message_queue_free Q"
| "get_half QueueHalf Q = message_queue_queue Q"

primrec set_half :: "half_id \<Rightarrow> message_half_t \<Rightarrow> message_queue_t \<Rightarrow> message_queue_t" where
  "set_half FreeHalf h Q = Q\<lparr>message_queue_free := h\<rparr>"
| "set_half QueueHalf h Q = Q\<lparr>message_queue_queue := h\<rparr>"

record mq_threads =
  the_queue :: message_queue_t
  headers_of :: headers
  posting :: "half_id \<Rightarrow> nat"
  taking :: "half_id \<Rightarrow> nat"
  held :: "u32 set"
  early :: "half_id \<Rightarrow> nat"

inductive mq_step :: "mq_threads \<Rightarrow> mq_threads \<Rightarrow> bool" where
  link: "m \<in> held c \<Longrightarrow> half_link m (get_half i (the_queue c)) (headers_of c) = Ret (h, nx) \<Longrightarrow>
    mq_step c (c\<lparr>the_queue := set_half i h (the_queue c), headers_of := nx, posting := (posting c)(i := posting c i + 1), held := held c - {m}\<rparr>)"
| post: "posting c i > 0 \<Longrightarrow>
    mq_step c (c\<lparr>the_queue := set_half i (half_post (get_half i (the_queue c))) (the_queue c), posting := (posting c)(i := posting c i - 1)\<rparr>)"
| wait: "half_wait intr (get_half i (the_queue c)) = Ret h \<Longrightarrow>
    mq_step c (c\<lparr>the_queue := set_half i h (the_queue c), taking := (taking c)(i := taking c i + 1),
      early := (early c)(i := early c i + (if message_half_sem (get_half i (the_queue c)) = 0 then 1 else 0))\<rparr>)"
| unlink: "taking c i > 0 \<Longrightarrow> half_unlink (get_half i (the_queue c)) (headers_of c) = Ret (m, h) \<Longrightarrow>
    mq_step c (c\<lparr>the_queue := set_half i h (the_queue c), taking := (taking c)(i := taking c i - 1), held := insert m (held c)\<rparr>)"

text \<open>Every message is on exactly one half or held, and a half links as many as its semaphore and the threads under way account for, less the waits that ended early.\<close>

definition mq_inv :: "u32 set \<Rightarrow> (half_id \<Rightarrow> u32 list) \<Rightarrow> mq_threads \<Rightarrow> bool" where
  "mq_inv B ls c \<longleftrightarrow>
     (\<forall>i. half_repr (get_half i (the_queue c)) (headers_of c) (ls i)) \<and>
     (\<forall>i. length (ls i) + early c i = message_half_sem (get_half i (the_queue c)) + taking c i + posting c i) \<and>
     (\<forall>i. set (ls i) \<inter> held c = {}) \<and> (\<forall>i j. i \<noteq> j \<longrightarrow> set (ls i) \<inter> set (ls j) = {}) \<and>
     held c \<union> (\<Union>i. set (ls i)) = B \<and> 0 \<notin> held c \<and> held c \<subseteq> dom (headers_of c)"

lemma get_set_half [simp]: "get_half i (set_half j h Q) = (if i = j then h else get_half i Q)"
  by (cases i; cases j) auto

lemma all_half_id: "(\<forall>i. P i) \<longleftrightarrow> P FreeHalf \<and> P QueueHalf"
  by (metis half_id.exhaust)

lemma UN_half_id: "(\<Union>i. f i) = f FreeHalf \<union> f QueueHalf"
  by (auto, metis half_id.exhaust)

lemma mq_inv_unlink:
  assumes inv: "mq_inv B ls c" and t: "early c i < message_half_sem (get_half i (the_queue c)) + taking c i + posting c i"
  shows "\<exists>x xs h. ls i = x # xs \<and> half_unlink (get_half i (the_queue c)) (headers_of c) = Ret (x, h) \<and>
    half_repr h (headers_of c) xs \<and> message_half_sem h = message_half_sem (get_half i (the_queue c))"
proof -
  from inv have "length (ls i) + early c i = message_half_sem (get_half i (the_queue c)) + taking c i + posting c i" by (simp add: mq_inv_def)
  with t have "length (ls i) > 0" by linarith
  then obtain x xs where x: "ls i = x # xs" by (cases "ls i") auto
  with inv have "half_repr (get_half i (the_queue c)) (headers_of c) (x # xs)" unfolding mq_inv_def by metis
  from half_unlink_repr [OF this] x show ?thesis by blast
qed

lemma mq_inv_crash:
  assumes "mq_inv B ls c" and "\<not> early c i < message_half_sem (get_half i (the_queue c)) + taking c i + posting c i"
  shows "half_unlink (get_half i (the_queue c)) (headers_of c) = Crash"
proof -
  from assms(1) have "length (ls i) + early c i = message_half_sem (get_half i (the_queue c)) + taking c i + posting c i" by (simp add: mq_inv_def)
  with assms(2) have "length (ls i) = 0" by linarith
  then have "ls i = []" by simp
  then have "half_repr (get_half i (the_queue c)) (headers_of c) []" using assms(1) unfolding mq_inv_def by metis
  then show ?thesis by (simp add: half_repr_def half_unlink_def)
qed

lemma mq_inv_link:
  assumes inv: "mq_inv B ls c" and m: "m \<in> held c"
  shows "\<exists>h nx. half_link m (get_half i (the_queue c)) (headers_of c) = Ret (h, nx) \<and> half_repr h nx (ls i @ [m]) \<and>
    message_half_sem h = message_half_sem (get_half i (the_queue c)) \<and> (\<forall>x. x \<notin> insert m (set (ls i)) \<longrightarrow> nx x = headers_of c x) \<and>
    dom nx = dom (headers_of c)"
proof (rule half_link_repr)
  show "half_repr (get_half i (the_queue c)) (headers_of c) (ls i)" using inv unfolding mq_inv_def by metis
  show "m \<noteq> 0" "m \<notin> set (ls i)" "headers_of c m \<noteq> None" using inv m unfolding mq_inv_def by blast+
qed


lemma mq_inv_step:
  assumes "mq_step c c'" and inv: "mq_inv B ls c"
  shows "\<exists>ls'. mq_inv B ls' c'"
  using assms(1)
proof cases
  case (link m i h nx)
  note L = mq_inv_link [OF inv link(2), of i]
  from L link have r: "half_repr h nx (ls i @ [m])" "message_half_sem h = message_half_sem (get_half i (the_queue c))"
      "\<And>x. x \<notin> insert m (set (ls i)) \<Longrightarrow> nx x = headers_of c x" "dom nx = dom (headers_of c)" by auto
  have keep: "half_repr (get_half j (the_queue c)) nx (ls j)" if "j \<noteq> i" for j
  proof (rule half_repr_frame)
    show "half_repr (get_half j (the_queue c)) (headers_of c) (ls j)" using inv unfolding mq_inv_def by metis
    show "nx x = headers_of c x" if "x \<in> set (ls j)" for x using inv link(2) that \<open>j \<noteq> i\<close> unfolding mq_inv_def by (intro r(3)) blast
  qed
  have "mq_inv B (ls(i := ls i @ [m])) c'"
    using inv link(1,2) r keep by (auto simp: mq_inv_def split: if_splits)
  then show ?thesis by blast
next
  case (post i)
  then have "mq_inv B ls c'" using inv by (auto simp: mq_inv_def half_post_def half_repr_def)
  then show ?thesis by blast
next
  case (wait intr i h)
  then have "mq_inv B ls c'" using inv by (auto simp: mq_inv_def half_wait_def half_repr_def split: if_splits)
  then show ?thesis by blast
next
  case (unlink i m h)
  have "early c i < message_half_sem (get_half i (the_queue c)) + taking c i + posting c i"
    using mq_inv_crash [OF inv, of i] unlink(3) by auto
  from mq_inv_unlink [OF inv this] unlink obtain xs where x: "ls i = m # xs" "half_repr h (headers_of c) xs"
      "message_half_sem h = message_half_sem (get_half i (the_queue c))" by auto
  from inv have "half_repr (get_half i (the_queue c)) (headers_of c) (m # xs)" using x unfolding mq_inv_def by metis
  then have m: "m \<noteq> 0" "m \<in> dom (headers_of c)" "m \<notin> set xs" by (auto simp: half_repr_def split: option.splits)
  have "mq_inv B (ls(i := xs)) c'"
    using inv unlink(1,2) x m by (cases i) (auto simp: mq_inv_def all_half_id UN_half_id)
  then show ?thesis by blast
qed

lemma mq_inv_steps: "mq_step\<^sup>*\<^sup>* c c' \<Longrightarrow> mq_inv B ls c \<Longrightarrow> \<exists>ls'. mq_inv B ls' c'"
  by (induction rule: rtranclp_induct) (auto dest: mq_inv_step)


text \<open>
  C14: However the threads that send, receive, claim and release on a new queue interleave, and however signals interrupt their waits, every message is at any moment on exactly one of
  the two halves or held by a thread, and a held message can always be linked. A thread that has passed the semaphore finds a message to unlink exactly when fewer waits on its half have ended early than its
  semaphore and the calls under way account for, so always when none was interrupted; otherwise it follows a null pointer.
\<close>

theorem mq_interleaving_safe:
  assumes "half_repr (message_queue_free Q) nx bs" and "message_half_sem (message_queue_free Q) = length bs"
    and "half_repr (message_queue_queue Q) nx []" and "message_half_sem (message_queue_queue Q) = 0"
    and steps: "mq_step\<^sup>*\<^sup>* \<lparr>the_queue = Q, headers_of = nx, posting = (\<lambda>_. 0), taking = (\<lambda>_. 0), held = {}, early = (\<lambda>_. 0)\<rparr> c"
  shows "(\<exists>ls. mq_inv (set bs) ls c) \<and>
    (\<forall>i. taking c i > 0 \<longrightarrow> early c i = 0 \<longrightarrow> (\<exists>m h. half_unlink (get_half i (the_queue c)) (headers_of c) = Ret (m, h))) \<and>
    (\<forall>i. if early c i < message_half_sem (get_half i (the_queue c)) + taking c i + posting c i
         then \<exists>m h. half_unlink (get_half i (the_queue c)) (headers_of c) = Ret (m, h)
         else half_unlink (get_half i (the_queue c)) (headers_of c) = Crash) \<and>
    (\<forall>i. \<forall>m \<in> held c. \<exists>h nx'. half_link m (get_half i (the_queue c)) (headers_of c) = Ret (h, nx'))"
proof -
  let ?ls = "\<lambda>i. case i of FreeHalf \<Rightarrow> bs | QueueHalf \<Rightarrow> []"
  have "mq_inv (set bs) ?ls \<lparr>the_queue = Q, headers_of = nx, posting = (\<lambda>_. 0), taking = (\<lambda>_. 0), held = {}, early = (\<lambda>_. 0)\<rparr>"
    using assms(1-4) by (auto simp: mq_inv_def split: half_id.splits)
  from mq_inv_steps [OF steps this] obtain ls where inv: "mq_inv (set bs) ls c" ..
  have found: "\<exists>m h. half_unlink (get_half i (the_queue c)) (headers_of c) = Ret (m, h)"
    if "early c i < message_half_sem (get_half i (the_queue c)) + taking c i + posting c i" for i
    using mq_inv_unlink [OF inv that] by blast
  have "\<forall>i. if early c i < message_half_sem (get_half i (the_queue c)) + taking c i + posting c i
         then \<exists>m h. half_unlink (get_half i (the_queue c)) (headers_of c) = Ret (m, h)
         else half_unlink (get_half i (the_queue c)) (headers_of c) = Crash"
    using found mq_inv_crash [OF inv] by simp
  moreover have "\<forall>i. taking c i > 0 \<longrightarrow> early c i = 0 \<longrightarrow> (\<exists>m h. half_unlink (get_half i (the_queue c)) (headers_of c) = Ret (m, h))"
    using found by simp
  ultimately show ?thesis using inv mq_inv_link [OF inv] by blast
qed

text \<open>One block: a thread that has claimed it has passed the semaphore; another one, interrupted in its wait, will crash when it comes second.\<close>

theorem mq_interleaving_safe_witness:
  "\<exists>d. mq_step\<^sup>*\<^sup>* \<lparr>the_queue = \<lparr>message_queue_free = \<lparr>message_half_head = 16, message_half_tail = 16, message_half_sem = 1\<rparr>,
        message_queue_queue = \<lparr>message_half_head = 0, message_half_tail = 0, message_half_sem = 0\<rparr>, message_queue_memory = 16\<rparr>,
      headers_of = [16 \<mapsto> 0], posting = (\<lambda>_. 0), taking = (\<lambda>_. 0), held = {}, early = (\<lambda>_. 0)\<rparr> d \<and>
    taking d FreeHalf = 2 \<and> early d FreeHalf = 1 \<and> (\<exists>ls. mq_inv {16} ls d) \<and> (\<exists>m h. half_unlink (get_half FreeHalf (the_queue d)) (headers_of d) = Ret (m, h))"
proof -
  let ?h = "\<lambda>n. \<lparr>message_half_head = 16, message_half_tail = 16, message_half_sem = n\<rparr>"
  let ?e = "\<lparr>message_half_head = 0, message_half_tail = 0, message_half_sem = 0\<rparr>"
  let ?Q = "\<lambda>n. \<lparr>message_queue_free = ?h n, message_queue_queue = ?e, message_queue_memory = 16\<rparr>"
  let ?c = "\<lparr>the_queue = ?Q 1, headers_of = [16 \<mapsto> 0], posting = (\<lambda>_. 0), taking = (\<lambda>_. 0), held = {}, early = (\<lambda>_. 0)\<rparr>"
  let ?d = "?c\<lparr>the_queue := ?Q 0, taking := (\<lambda>_. 0)(FreeHalf := 1)\<rparr>"
  let ?f = "?d\<lparr>taking := (\<lambda>_. 0)(FreeHalf := 2), early := (\<lambda>_. 0)(FreeHalf := 1)\<rparr>"
  have "mq_step ?c ?d" using mq_step.wait [of False FreeHalf ?c "?h 0"] by (simp add: half_wait_def fun_upd_idem)
  moreover have "mq_step ?d ?f" using mq_step.wait [of True FreeHalf ?d "?h 0"] by (simp add: half_wait_def numeral_2_eq_2)
  ultimately have steps: "mq_step\<^sup>*\<^sup>* ?c ?f" by (meson r_into_rtranclp rtranclp_trans)
  have start: "half_repr (message_queue_free (?Q 1)) [16 \<mapsto> 0] [16]" "message_half_sem (message_queue_free (?Q 1)) = length [16]"
    "half_repr (message_queue_queue (?Q 1)) [16 \<mapsto> 0] []" "message_half_sem (message_queue_queue (?Q 1)) = 0"
    by (simp_all add: half_repr_def)
  note safe = mq_interleaving_safe [OF start steps]
  have "\<exists>ls. mq_inv {16} ls ?f" using safe [THEN conjunct1] by simp
  moreover have "\<exists>m h. half_unlink (get_half FreeHalf (the_queue ?f)) (headers_of ?f) = Ret (m, h)"
    using safe [THEN conjunct2, THEN conjunct2, THEN conjunct1, THEN spec, of FreeHalf] by simp
  ultimately have "\<exists>ls. mq_inv {16} ls ?f" "\<exists>m h. half_unlink (get_half FreeHalf (the_queue ?f)) (headers_of ?f) = Ret (m, h)" by blast+
  then show ?thesis using steps by (intro exI [of _ ?f]) simp
qed

section \<open>First in, first out\<close>

primrec mq_adds :: "('m \<Rightarrow> 's \<Rightarrow> 's mq_out) \<Rightarrow> 'm list \<Rightarrow> 's \<Rightarrow> 's mq_out" where
  "mq_adds add [] s = Ret s"
| "mq_adds add (m # ms) s = mq_bind (add m s) (mq_adds add ms)"

primrec mq_removes :: "('s \<Rightarrow> ('m \<times> 's) mq_out) \<Rightarrow> nat \<Rightarrow> 's \<Rightarrow> ('m list \<times> 's) mq_out" where
  "mq_removes remove 0 s = Ret ([], s)"
| "mq_removes remove (Suc n) s = mq_bind (remove s) (\<lambda>(m, s1). mq_bind (mq_removes remove n s1) (\<lambda>(ms, s2). Ret (m # ms, s2)))"

text \<open>What a user of one half relies on: it is a list, entered at the end and left at the front, and leaving waits while it is empty.\<close>

locale msg_fifo =
  fixes rep :: "'s \<Rightarrow> 'm list \<Rightarrow> bool"
    and usable :: "'m \<Rightarrow> 's \<Rightarrow> bool"
    and add :: "'m \<Rightarrow> 's \<Rightarrow> 's mq_out"
    and remove :: "'s \<Rightarrow> ('m \<times> 's) mq_out"
  assumes add_law: "rep s xs \<Longrightarrow> usable m s \<Longrightarrow> m \<notin> set xs \<Longrightarrow> \<exists>s'. add m s = Ret s' \<and> rep s' (xs @ [m]) \<and> (\<forall>x. usable x s \<longrightarrow> usable x s')"
    and remove_law: "rep s (x # xs) \<Longrightarrow> \<exists>s'. remove s = Ret (x, s') \<and> rep s' xs"
    and remove_empty: "rep s [] \<Longrightarrow> remove s = Blocks"
begin

lemma adds_law:
  "rep s xs \<Longrightarrow> distinct (xs @ ms) \<Longrightarrow> (\<And>m. m \<in> set ms \<Longrightarrow> usable m s) \<Longrightarrow> \<exists>s'. mq_adds add ms s = Ret s' \<and> rep s' (xs @ ms)"
proof (induction ms arbitrary: s xs)
  case (Cons m ms)
  from Cons.prems have "usable m s" "m \<notin> set xs" by auto
  from add_law [OF Cons.prems(1) this] obtain s' where s': "add m s = Ret s'" "rep s' (xs @ [m])" "\<forall>x. usable x s \<longrightarrow> usable x s'" by blast
  have "distinct ((xs @ [m]) @ ms)" "\<And>x. x \<in> set ms \<Longrightarrow> usable x s'" using Cons.prems s'(3) by auto
  from Cons.IH [OF s'(2) this] s'(1) show ?case by simp
qed simp

lemma removes_law: "rep s (xs @ ys) \<Longrightarrow> \<exists>s'. mq_removes remove (length xs) s = Ret (xs, s') \<and> rep s' ys"
proof (induction xs arbitrary: s)
  case (Cons x xs)
  from remove_law [of s x "xs @ ys"] Cons.prems obtain s1 where s1: "remove s = Ret (x, s1)" "rep s1 (xs @ ys)" by auto
  from Cons.IH [OF s1(2)] s1(1) show ?case by auto
qed simp

lemma in_order:
  assumes "rep s xs" and "distinct (xs @ ms)" and "\<And>m. m \<in> set ms \<Longrightarrow> usable m s"
  shows "\<exists>s1 s2. mq_adds add ms s = Ret s1 \<and> mq_removes remove (length (xs @ ms)) s1 = Ret (xs @ ms, s2) \<and> remove s2 = Blocks"
proof -
  from adds_law [OF assms] obtain s1 where s1: "mq_adds add ms s = Ret s1" "rep s1 ((xs @ ms) @ [])" by auto
  from removes_law [OF s1(2)] s1(1) show ?thesis using remove_empty by blast
qed

end


text \<open>The calls on one half: send and receive on the queue, release and claim on the free half. \<open>os\<close> are the messages of the other half.\<close>

primrec other_half :: "half_id \<Rightarrow> half_id" where
  "other_half FreeHalf = QueueHalf"
| "other_half QueueHalf = FreeHalf"

primrec api_add :: "half_id \<Rightarrow> u32 \<Rightarrow> u32 \<Rightarrow> mq_store \<Rightarrow> mq_store mq_out" where
  "api_add FreeHalf q = HI_MsgRelease q"
| "api_add QueueHalf q = HI_MsgSend q"

primrec api_remove :: "half_id \<Rightarrow> u32 \<Rightarrow> mq_store \<Rightarrow> (u32 \<times> mq_store) mq_out" where
  "api_remove FreeHalf q = (\<lambda>s. HI_MsgClaim False q 0 (\<lambda>_. s))"
| "api_remove QueueHalf q = (\<lambda>s. HI_MsgReceive False q 0 (\<lambda>_. s))"

definition mq_rep :: "half_id \<Rightarrow> u32 \<Rightarrow> u32 list \<Rightarrow> mq_store \<Rightarrow> u32 list \<Rightarrow> bool" where
  "mq_rep i q os s us \<longleftrightarrow> q \<noteq> 0 \<and> (\<exists>Q xs. mq_at s q = Some Q \<and> us = map (\<lambda>x. x + sizeof_hdr) xs \<and>
     half_repr (get_half i Q) (hdr_next s) xs \<and> message_half_sem (get_half i Q) = length xs \<and>
     half_repr (get_half (other_half i) Q) (hdr_next s) os \<and> message_half_sem (get_half (other_half i) Q) = length os \<and>
     set xs \<inter> set os = {})"

definition mq_usable :: "u32 list \<Rightarrow> u32 \<Rightarrow> mq_store \<Rightarrow> bool" where
  "mq_usable os m s \<longleftrightarrow> m \<noteq> 0 \<and> m \<noteq> sizeof_hdr \<and> hdr_next s (m - sizeof_hdr) \<noteq> None \<and> m - sizeof_hdr \<notin> set os"

lemma api_add_eq:
  "q \<noteq> 0 \<Longrightarrow> mq_at s q = Some Q \<Longrightarrow> api_add i q m s = mq_bind (message_half_add m (get_half i Q) (hdr_next s)) (\<lambda>(h, nx).
     Ret (s\<lparr>mq_at := (mq_at s)(q \<mapsto> set_half i h Q), hdr_next := nx\<rparr>))"
  by (cases i) (simp_all add: HI_MsgRelease_def HI_MsgSend_def message_release_def message_send_def)

lemma api_remove_eq:
  "q \<noteq> 0 \<Longrightarrow> mq_at s q = Some Q \<Longrightarrow> api_remove i q s = mq_bind (message_half_remove False (get_half i Q) (hdr_next s)) (\<lambda>(m, h).
     Ret (m, s\<lparr>mq_at := (mq_at s)(q \<mapsto> set_half i h Q)\<rparr>))"
  by (cases i) (simp_all add: HI_MsgClaim_def HI_MsgReceive_def message_claim_def message_receive_def)

lemma other_half_neq [simp]: "other_half i \<noteq> i"
  by (cases i) auto

lemma api_add_law:
  assumes "mq_rep i q os s us" and u: "mq_usable os m s" and "m \<notin> set us"
  shows "\<exists>s'. api_add i q m s = Ret s' \<and> mq_rep i q os s' (us @ [m]) \<and> (\<forall>x. mq_usable os x s \<longrightarrow> mq_usable os x s')"
proof -
  from assms(1) obtain Q xs where Q: "q \<noteq> 0" "mq_at s q = Some Q" "us = map (\<lambda>x. x + sizeof_hdr) xs"
      "half_repr (get_half i Q) (hdr_next s) xs" "message_half_sem (get_half i Q) = length xs"
      "half_repr (get_half (other_half i) Q) (hdr_next s) os" "message_half_sem (get_half (other_half i) Q) = length os"
      "set xs \<inter> set os = {}" unfolding mq_rep_def by blast
  let ?m = "m - sizeof_hdr"
  have "?m \<notin> set xs"
  proof
    assume "?m \<in> set xs"
    then have "?m + sizeof_hdr \<in> set us" unfolding Q(3) set_map by (rule image_eqI [OF refl])
    then show False using assms(3) by simp
  qed
  moreover have m: "m \<noteq> 0" "?m \<noteq> 0" "hdr_next s ?m \<noteq> None" "?m \<notin> set os" using u by (auto simp: mq_usable_def)
  ultimately obtain h nx where h: "half_link ?m (get_half i Q) (hdr_next s) = Ret (h, nx)" "half_repr h nx (xs @ [?m])"
      "message_half_sem h = message_half_sem (get_half i Q)" "\<forall>x. x \<notin> insert ?m (set xs) \<longrightarrow> nx x = hdr_next s x" "dom nx = dom (hdr_next s)"
    using half_link_repr [OF Q(4)] by blast
  let ?s = "s\<lparr>mq_at := (mq_at s)(q \<mapsto> set_half i (half_post h) Q), hdr_next := nx\<rparr>"
  have run: "api_add i q m s = Ret ?s" using Q(1,2) m(1) h(1) by (simp add: api_add_eq message_half_add_def)
  have "nx x = hdr_next s x" if "x \<in> set os" for x using h(4) [rule_format, of x] Q(8) m(4) that by auto
  then have "half_repr (get_half (other_half i) Q) nx os" by (rule half_repr_frame [OF Q(6)])
  then have "mq_rep i q os ?s (us @ [m])"
    unfolding mq_rep_def using Q h m
    by (intro conjI exI [of _ "set_half i (half_post h) Q"] exI [of _ "xs @ [?m]"]) (auto simp: half_post_def half_repr_def)
  moreover have "\<forall>x. mq_usable os x s \<longrightarrow> mq_usable os x ?s" using h(5) by (auto simp: mq_usable_def dom_def)
  ultimately show ?thesis using run by blast
qed

lemma api_remove_law:
  assumes "mq_rep i q os s (x # us)"
  shows "\<exists>s'. api_remove i q s = Ret (x, s') \<and> mq_rep i q os s' us"
proof -
  from assms obtain Q y xs where Q: "q \<noteq> 0" "mq_at s q = Some Q" "x = y + sizeof_hdr" "us = map (\<lambda>x. x + sizeof_hdr) xs"
      "half_repr (get_half i Q) (hdr_next s) (y # xs)" "message_half_sem (get_half i Q) = length (y # xs)"
      "half_repr (get_half (other_half i) Q) (hdr_next s) os" "message_half_sem (get_half (other_half i) Q) = length os"
      "set (y # xs) \<inter> set os = {}" unfolding mq_rep_def by (auto simp: Cons_eq_map_conv)
  let ?h = "(get_half i Q)\<lparr>message_half_sem := length xs\<rparr>"
  have "half_repr ?h (hdr_next s) (y # xs)" using Q(5) by (simp add: half_repr_def)
  from half_unlink_repr [OF this] obtain h where h: "half_unlink ?h (hdr_next s) = Ret (y, h)" "half_repr h (hdr_next s) xs"
      "message_half_sem h = length xs" by auto
  have "api_remove i q s = Ret (x, s\<lparr>mq_at := (mq_at s)(q \<mapsto> set_half i h Q)\<rparr>)"
    using Q h(1) by (simp add: api_remove_eq message_half_remove_def half_wait_def)
  moreover have "mq_rep i q os (s\<lparr>mq_at := (mq_at s)(q \<mapsto> set_half i h Q)\<rparr>) us"
    unfolding mq_rep_def using Q h by (intro conjI exI [of _ "set_half i h Q"] exI [of _ xs]) auto
  ultimately show ?thesis by blast
qed

lemma api_remove_empty: "mq_rep i q os s [] \<Longrightarrow> api_remove i q s = Blocks"
  by (auto simp: mq_rep_def api_remove_eq message_half_remove_def half_wait_def)

interpretation hmq: msg_fifo "mq_rep i q os" "mq_usable os" "api_add i q" "api_remove i q" for i q os
  by unfold_locales (blast intro: api_add_law api_remove_law api_remove_empty)+


text \<open>
  C32: A message queue keeps the order of its messages: after any number of HI_MsgSend calls with distinct messages, HI_MsgReceive returns the
  messages that were waiting and then the sent ones, in the order they were sent, and then waits; the same holds of HI_MsgRelease and
  HI_MsgClaim on the free half. The other half is not disturbed.
\<close>

theorem msg_queue_fifo:
  assumes "mq_rep i q os s us" and "distinct (us @ ms)" and "\<And>m. m \<in> set ms \<Longrightarrow> mq_usable os m s"
  shows "\<exists>s1 s2. mq_adds (api_add i q) ms s = Ret s1 \<and> mq_removes (api_remove i q) (length (us @ ms)) s1 = Ret (us @ ms, s2) \<and>
    api_remove i q s2 = Blocks"
  using assms by (rule hmq.in_order)

theorem msg_queue_fifo_witness:
  "\<exists>s s1 s2. mq_adds (api_add QueueHalf 8) [20, 36] s = Ret s1 \<and>
    mq_removes (api_remove QueueHalf 8) 2 s1 = Ret ([20, 36], s2) \<and> api_remove QueueHalf 8 s2 = Blocks"
proof -
  let ?e = "\<lparr>message_half_head = 0, message_half_tail = 0, message_half_sem = 0\<rparr>"
  let ?Q = "\<lparr>message_queue_free = ?e, message_queue_queue = ?e, message_queue_memory = 16\<rparr>"
  let ?s = "\<lparr>mq_at = [8 \<mapsto> ?Q], hdr_next = [16 \<mapsto> 0, 32 \<mapsto> 0], blk_size = [16 \<mapsto> 32]\<rparr>"
  have "mq_rep QueueHalf 8 [] ?s []" by (simp add: mq_rep_def half_repr_def)
  moreover have "mq_usable [] m ?s" if "m \<in> set [20, 36]" for m using that by (auto simp: mq_usable_def sizeof_hdr_def)
  ultimately have "\<exists>s1 s2. mq_adds (api_add QueueHalf 8) [20, 36] ?s = Ret s1 \<and>
      mq_removes (api_remove QueueHalf 8) (length ([] @ [20 :: u32, 36])) s1 = Ret ([] @ [20, 36], s2) \<and> api_remove QueueHalf 8 s2 = Blocks"
    by (intro msg_queue_fifo [where os = "[]"]) auto
  moreover have "length ([] @ [20 :: u32, 36]) = 2" by simp
  ultimately show ?thesis unfolding append_Nil by metis
qed

text \<open>A signal that ends the unchecked \<open>sem_wait\<close> of a receive on an empty queue leads to an access through the null pointer.\<close>

theorem MsgReceive_interrupted:
  assumes "mq_rep QueueHalf q os s []"
  shows "HI_MsgReceive True q 0 (\<lambda>_. s) = Crash"
  using assms
  by (auto simp: mq_rep_def HI_MsgReceive_def message_receive_def message_half_remove_def half_wait_def half_unlink_def half_repr_def)

section \<open>Bounded waits\<close>

lemma wait_loop_bounded:
  assumes "unat ms + 10 < 2 ^ 31" and "10 * k \<le> unat ms + 9"
  shows "\<exists>ok n. wait_loop avail ms (10 * int k) k = Ret (ok, n) \<and> 10 * n \<le> unat ms + 9 \<and>
    (ok \<longleftrightarrow> (\<exists>j \<ge> k. 10 * j \<le> unat ms \<and> avail j)) \<and> (ok \<longrightarrow> avail n \<and> 10 * n \<le> unat ms \<and> (\<forall>j. k \<le> j \<and> j < n \<longrightarrow> \<not> avail j))"
  using assms(2)
proof (induction "unat ms + 9 - 10 * k" arbitrary: k rule: less_induct)
  case less
  have "uint ms = int (unat ms)" by simp
  then have ui: "10 * int k \<le> uint ms \<longleftrightarrow> 10 * k \<le> unat ms" "10 * int k = uint ms \<longleftrightarrow> 10 * k = unat ms" by linarith+
  show ?case
  proof (cases "10 * k < unat ms \<and> \<not> avail k")
    case False
    have "wait_loop avail ms (10 * int k) k = Ret (10 * k \<le> unat ms \<and> avail k, k)"
      unfolding wait_loop.simps [of avail ms "10 * int k" k] using False by (simp add: ui) linarith
    moreover have "\<not> avail j" if "\<not> (10 * k \<le> unat ms \<and> avail k)" "k \<le> j" "10 * j \<le> unat ms" for j
    proof -
      have "\<not> avail k" using that by linarith
      then have "j = k" using False that by linarith
      with \<open>\<not> avail k\<close> show ?thesis by simp
    qed
    ultimately show ?thesis using less.prems by auto
  next
    case True
    have "wait_loop avail ms (10 * int k) k = wait_loop avail ms (10 * int k + 10) (k + 1)"
      unfolding wait_loop.simps [of avail ms "10 * int k" k] using True assms(1) by (simp add: ui)
    also have "10 * int k + 10 = 10 * int (k + 1)" by simp
    finally have step: "wait_loop avail ms (10 * int k) k = wait_loop avail ms (10 * int (k + 1)) (k + 1)" .
    have "unat ms + 9 - 10 * (k + 1) < unat ms + 9 - 10 * k" "10 * (k + 1) \<le> unat ms + 9" using True by auto
    from less.hyps [OF this] obtain ok n where ih: "wait_loop avail ms (10 * int (k + 1)) (k + 1) = Ret (ok, n)" "10 * n \<le> unat ms + 9"
        "ok \<longleftrightarrow> (\<exists>j \<ge> k + 1. 10 * j \<le> unat ms \<and> avail j)"
        "ok \<longrightarrow> avail n \<and> 10 * n \<le> unat ms \<and> (\<forall>j. k + 1 \<le> j \<and> j < n \<longrightarrow> \<not> avail j)" by blast
    have later: "k \<le> j \<Longrightarrow> avail j \<Longrightarrow> k + 1 \<le> j" for j using True by (cases "j = k") auto
    have ex: "(\<exists>j \<ge> k. 10 * j \<le> unat ms \<and> avail j) \<longleftrightarrow> (\<exists>j \<ge> k + 1. 10 * j \<le> unat ms \<and> avail j)"
    proof
      assume "\<exists>j \<ge> k. 10 * j \<le> unat ms \<and> avail j"
      then show "\<exists>j \<ge> k + 1. 10 * j \<le> unat ms \<and> avail j" using later by blast
    next
      assume "\<exists>j \<ge> k + 1. 10 * j \<le> unat ms \<and> avail j"
      then show "\<exists>j \<ge> k. 10 * j \<le> unat ms \<and> avail j" by (meson le_add1 le_trans)
    qed
    have first: "ok \<longrightarrow> avail n \<and> 10 * n \<le> unat ms \<and> (\<forall>j. k \<le> j \<and> j < n \<longrightarrow> \<not> avail j)" using ih(4) later by blast
    show ?thesis
      by (rule exI [of _ ok], rule exI [of _ n], intro conjI)
        (rule ih(1) [folded step], rule ih(2), unfold ex, rule ih(3), rule first)
  qed
qed

text \<open>
  C33: The polling wait of a timed claim or receive always returns for a timeout below the int range: it succeeds exactly when the semaphore
  is available at one of the polls at 0, 10, 20, ... milliseconds within the timeout, and then at the first of these, and otherwise
  fails after at most the timeout rounded up to 10 milliseconds.
\<close>

theorem wait_timeout_bounded:
  assumes "unat ms + 10 < 2 ^ 31"
  shows "\<exists>ok n. semaphore_wait_timeout avail ms = Ret (ok, n) \<and> 10 * n \<le> unat ms + 9 \<and>
    (ok \<longleftrightarrow> (\<exists>j. 10 * j \<le> unat ms \<and> avail j)) \<and> (ok \<longrightarrow> avail n \<and> (\<forall>j < n. \<not> avail j))"
  using wait_loop_bounded [OF assms, of 0 avail] unfolding semaphore_wait_timeout_def by auto

theorem wait_timeout_bounded_witness:
  "\<exists>n. semaphore_wait_timeout (\<lambda>k. k = 2) 25 = Ret (True, n) \<and> n = 2"
  using wait_timeout_bounded [of 25 "\<lambda>k. k = 2"] by auto

end
