(* ===== verification/Bit_Fields.thy ===== *)
theory Bit_Fields
  imports Prelude
begin

text \<open>
  Masks and shifts as arithmetic, for the text encodings: a masked field is a quotient and a remainder, and putting a field next to lower bits is
  an addition.
\<close>

unbundle bit_operations_syntax

section \<open>Fields\<close>

lemma and_field: "(x :: nat) AND (2 ^ k * (2 ^ m - 1)) = 2 ^ k * (x div 2 ^ k mod 2 ^ m)"
proof -
  have "x AND push_bit k (mask m) = push_bit k (take_bit m (drop_bit k x))"
    by (rule bit_eqI) (auto simp: bit_simps)
  then show ?thesis by (simp add: push_bit_eq_mult take_bit_eq_mod drop_bit_eq_div mask_eq_exp_minus_1 mult.commute)
qed

lemma or_low:
  assumes "x < 2 ^ k"
  shows "(x :: nat) OR (2 ^ k * y) = x + 2 ^ k * y"
proof -
  have "take_bit k x AND push_bit k y = 0" by (rule bit_eqI) (auto simp: bit_and_iff bit_take_bit_iff bit_push_bit_iff)
  then have "x AND push_bit k y = 0" using assms by (simp add: take_bit_nat_eq_self)
  then show ?thesis by (simp add: disjunctive_add_eq_or push_bit_eq_mult mult.commute)
qed

lemmas and_30 = and_field [of _ 1 4, simplified]
  and and_192 = and_field [of _ 6 2, simplified]
  and and_63 = and_field [of _ 0 6, simplified]
  and and_31 = and_field [of _ 0 5, simplified]
  and and_15 = and_field [of _ 0 4, simplified]
  and and_7 = and_field [of _ 0 3, simplified]
  and and_255 = and_field [of _ 0 8, simplified]
  and and_1023 = and_field [of _ 0 10, simplified]

section \<open>Widths\<close>

lemma unat_u16: "unat (c :: u16) < 65536" "unat (ucast c :: u32) = unat c"
proof -
  show c: "unat c < 65536" using unsigned_less [of c] by simp
  then show "unat (ucast c :: u32) = unat c" by (simp add: unsigned_ucast_eq take_bit_eq_mod)
qed

lemma unat_byte: "unat (ucast (x :: u32) :: u8) = unat x mod 256"
  by (simp add: unsigned_ucast_eq take_bit_eq_mod)

lemma sint_of_nat_small: "n < 2 ^ 31 \<Longrightarrow> sint (of_nat n :: u32) = int n"
  by (simp add: signed_of_nat signed_take_bit_int_eq_self)

lemmas or_low_nums = or_low [of _ 5 7, simplified] or_low [of _ 6 3, simplified] or_low [of _ 7 1, simplified]

lemma digits64: "n div 4096 * 4096 + n div 64 mod 64 * 64 + n mod 64 = (n :: nat)"
proof -
  have "n div 4096 = n div 64 div 64" by (simp add: div_mult2_eq [symmetric])
  then show ?thesis using div_mult_mod_eq [of "n div 64" 64] div_mult_mod_eq [of n 64] by linarith
qed

lemma mod_64_add_128: "(k mod 64 + 128) mod 64 = k mod (64 :: nat)"
  using mod_mult_self1 [of "k mod 64" 2 64] by simp

end
