(* ===== verification/Cutils_Jstring.thy ===== *)
theory Cutils_Jstring
  imports Bit_Fields
begin

text \<open>
  Conversion between UTF-16 and Java's modified UTF-8, \<open>cutils/strdup16to8.c\<close> and \<open>cutils/strdup8to16.c\<close>. A source string is the list of the
  units from the pointer on, and reading behind its end is \<open>None\<close>; a function that writes returns the units it writes. The library shows that
  the two directions are inverse on all strings, and that the measuring functions never give less than what is then written.
\<close>

unbundle bit_operations_syntax

section \<open>UTF-16 to UTF-8\<close>

definition SIZE_MAX :: u32 where
  "SIZE_MAX = 0xFFFFFFFF"

definition unit_bytes :: "u16 \<Rightarrow> u32" where
  "unit_bytes c = (if c > 0x07ff then 3 else if c > 0x7f \<or> c = 0 then 2 else 1)"

primrec len_fast :: "nat \<Rightarrow> u16 list \<Rightarrow> u32 \<Rightarrow> u32 run" where
  "len_fast 0 s utf8Len = Some utf8Len"
| "len_fast (Suc n) s utf8Len = (case s of [] \<Rightarrow> None | c # cs \<Rightarrow> len_fast n cs (utf8Len + unit_bytes c))"

primrec len_slow :: "nat \<Rightarrow> u16 list \<Rightarrow> u32 \<Rightarrow> u32 run" where
  "len_slow 0 s utf8Len = Some (if utf8Len = SIZE_MAX then SIZE_MAX - 1 else utf8Len)"
| "len_slow (Suc n) s utf8Len =
     (case s of [] \<Rightarrow> None | c # cs \<Rightarrow>
        let utf8Len1 = utf8Len + unit_bytes c in
        if utf8Len1 < utf8Len then Some (SIZE_MAX - 1) else len_slow n cs utf8Len1)"

definition strnlen16to8 :: "u16 list \<Rightarrow> u32 \<Rightarrow> u32 run" where
  "strnlen16to8 utf16Str len =
     (if len < (SIZE_MAX - 1) div 3 then len_fast (unat len) utf16Str 0 else len_slow (unat len) utf16Str 0)"

definition enc_unit :: "u16 \<Rightarrow> u8 list" where
  "enc_unit c =
     (let uic = ucast c :: u32 in
      if uic > 0x07ff
      then [ucast (drop_bit 12 uic OR 0xe0), ucast ((drop_bit 6 uic AND 0x3f) OR 0x80), ucast ((uic AND 0x3f) OR 0x80)]
      else if uic > 0x7f \<or> uic = 0
      then [ucast (drop_bit 6 uic OR 0xc0), ucast ((uic AND 0x3f) OR 0x80)]
      else [ucast uic])"

text \<open>The loop; the branch that would end it at a zero unit comes after a test that excludes it.\<close>

primrec cpy16_loop :: "nat \<Rightarrow> u16 list \<Rightarrow> u8 list run" where
  "cpy16_loop 0 s = Some []"
| "cpy16_loop (Suc n) s =
     (case s of [] \<Rightarrow> None | c # cs \<Rightarrow> map_option (\<lambda>bs. enc_unit c @ bs) (cpy16_loop n cs))"

definition strncpy16to8 :: "u16 list \<Rightarrow> u32 \<Rightarrow> u8 list run" where
  "strncpy16to8 utf16Str len = map_option (\<lambda>bs. bs @ [0]) (cpy16_loop (unat len) utf16Str)"

text \<open>\<open>mal\<close> is the outcome of \<open>malloc\<close>; the inner \<open>None\<close> is the null pointer. More bytes than were allocated are an invalid access.\<close>

definition strndup16to8 :: "bool \<Rightarrow> u16 list option \<Rightarrow> u32 \<Rightarrow> u8 list option run" where
  "strndup16to8 mal s n =
     (case s of None \<Rightarrow> Some None | Some us \<Rightarrow> do {
        len \<leftarrow> strnlen16to8 us n;
        if len \<ge> SIZE_MAX - 1 then Some None
        else if \<not> mal then Some None
        else do {
          bs \<leftarrow> strncpy16to8 us n;
          if length bs \<le> unat (len + 1) then Some (Some bs) else None
        }
      })"

section \<open>UTF-8 to UTF-16\<close>

definition UTF16_REPLACEMENT_CHAR :: u32 where
  "UTF16_REPLACEMENT_CHAR = 0xfffd"

definition UNICODE_UPPER_LIMIT :: u32 where
  "UNICODE_UPPER_LIMIT = 0x10fffd"

definition UTF8_SEQ_LENGTH :: "u8 \<Rightarrow> nat" where
  "UTF8_SEQ_LENGTH ch = unat (drop_bit (unat (drop_bit 3 (ucast ch :: u32) AND 0x1e)) (0xe5000000 :: u32) AND 3) + 1"

text \<open>The number of continuation bytes that are still expected is an \<open>int\<close>; its overflow is undefined.\<close>

fun len8_loop :: "u8 list \<Rightarrow> int \<Rightarrow> u32 \<Rightarrow> u32 run" where
  "len8_loop [] expected len = None"
| "len8_loop (ic # s) expected len =
     (if ic = 0 then Some len
      else if ic AND 0xc0 = 0x80
      then if expected = - (2 ^ 31) then None
        else len8_loop s (expected - 1) (if expected - 1 < 0 then len + 1 else len)
      else let expected1 = int (UTF8_SEQ_LENGTH ic) - 1 in
        len8_loop s expected1 (if expected1 = 3 then len + 1 + 1 else len + 1))"

definition strlen8to16 :: "u8 list \<Rightarrow> u32 run" where
  "strlen8to16 utf8Str = len8_loop utf8Str 0 0"

definition leaderMask :: "u32 list" where
  "leaderMask = [0xff, 0x1f, 0x0f, 0x07]"

primrec get_rest :: "nat \<Rightarrow> u32 \<Rightarrow> u8 list \<Rightarrow> (u32 \<times> u8 list) run" where
  "get_rest 0 ret s = Some (ret, s)"
| "get_rest (Suc n) ret s =
     (case s of [] \<Rightarrow> None | c # cs \<Rightarrow>
        if c = 0 then Some (UTF16_REPLACEMENT_CHAR, s)
        else if c AND 0xc0 \<noteq> 0x80 then Some (UTF16_REPLACEMENT_CHAR, s)
        else get_rest n (push_bit 6 ret OR (0x3f AND ucast c)) cs)"

definition getUtf32FromUtf8 :: "u8 list \<Rightarrow> (u32 \<times> u8 list) run" where
  "getUtf32FromUtf8 s =
     (case s of [] \<Rightarrow> None | c # cs \<Rightarrow>
        if c AND 0xc0 = 0x80 then Some (UTF16_REPLACEMENT_CHAR, cs)
        else let seq_len = UTF8_SEQ_LENGTH c; ret = ucast c AND leaderMask ! (seq_len - 1) in
          if c = 0 then Some (ret, s) else get_rest (seq_len - 1) ret cs)"

text \<open>The units that one decoded character is stored as.\<close>

definition put_units :: "u32 \<Rightarrow> u16 list" where
  "put_units ret =
     (if ret \<le> 0xffff then [ucast ret]
      else if ret \<le> UNICODE_UPPER_LIMIT
      then [ucast (0xd800 OR drop_bit 10 (ret - 0x10000)), ucast (0xdc00 OR ((ret - 0x10000) AND 0x3ff))]
      else [ucast UTF16_REPLACEMENT_CHAR])"

lemma get_rest_length: "get_rest n ret s = Some (r, s') \<Longrightarrow> length s' \<le> length s"
  by (induction n arbitrary: ret s) (auto split: list.splits if_splits, fastforce)

lemma getUtf32FromUtf8_shorter:
  "getUtf32FromUtf8 (c # s) = Some (r, s') \<Longrightarrow> c \<noteq> 0 \<Longrightarrow> length s' < length (c # s)"
  by (auto simp: getUtf32FromUtf8_def Let_def dest: get_rest_length split: if_splits)

function (sequential) strcpy8to16 :: "u8 list \<Rightarrow> u16 list run" where
  "strcpy8to16 [] = None"
| "strcpy8to16 (c # s) =
     (if c = 0 then Some []
      else case getUtf32FromUtf8 (c # s) of
        None \<Rightarrow> None
      | Some (ret, s') \<Rightarrow> map_option (\<lambda>us. put_units ret @ us) (strcpy8to16 s'))"
  by pat_completeness auto
termination
  by (relation "measure length") (auto dest: getUtf32FromUtf8_shorter)

text \<open>\<open>strcpylen8to16\<close> goes on until it has read \<open>length\<close> bytes; a loop that does not end is \<open>None\<close>.\<close>

partial_function (option) cpylen_loop :: "u8 list \<Rightarrow> int \<Rightarrow> u16 list option" where
  "cpylen_loop s n =
     (if n \<le> 0 then Some []
      else do {
        (ret, s') \<leftarrow> getUtf32FromUtf8 s;
        us \<leftarrow> cpylen_loop s' (n - int (length s - length s'));
        Some (put_units ret @ us)
      })"

definition strcpylen8to16 :: "u8 list \<Rightarrow> int \<Rightarrow> u16 list run" where
  "strcpylen8to16 utf8Str len = cpylen_loop utf8Str len"

definition strdup8to16 :: "bool \<Rightarrow> u8 list option \<Rightarrow> u16 list option run" where
  "strdup8to16 mal s =
     (case s of None \<Rightarrow> Some None | Some bs \<Rightarrow> do {
        len \<leftarrow> strlen8to16 bs;
        if len \<noteq> 0 \<and> SIZE_MAX div len < 2 then Some None
        else do {
          us \<leftarrow> strcpy8to16 bs;
          if length us \<le> (if mal then unat len else 0) then Some (if mal then Some us else None) else None
        }
      })"


section \<open>Lead and continuation bytes\<close>

lemma SEQ_LENGTH:
  "UTF8_SEQ_LENGTH c = (if unat c < 0xC0 then 1 else if unat c < 0xE0 then 2 else if unat c < 0xF0 then 3 else 4)"
proof -
  have c: "unat c < 256" using unsigned_less [of c] by simp
  have "unat (drop_bit 3 (ucast c :: u32) AND 0x1e) = unat c div 8 AND 30"
    using c by (simp add: unsigned_and_eq unat_div unsigned_ucast_eq drop_bit_eq_div take_bit_eq_mod)
  also have "\<dots> = 2 * (unat c div 16)" using c by (simp add: and_30 div_mult2_eq [symmetric] less_mult_imp_div_less)
  finally have u: "UTF8_SEQ_LENGTH c = unat (drop_bit (2 * (unat c div 16)) (0xe5000000 :: u32) AND 3) + 1"
    by (simp only: UTF8_SEQ_LENGTH_def)
  have "list_all (\<lambda>k. unat (drop_bit (2 * k) (0xe5000000 :: u32) AND 3) + 1 =
      (if k < 0xC then 1 else if k < 0xE then 2 else if k < 0xF then 3 else 4)) [0..<16]" by code_simp
  moreover have "unat c div 16 \<in> set [0..<16]" using c by (simp add: less_mult_imp_div_less)
  ultimately have "UTF8_SEQ_LENGTH c =
      (if unat c div 16 < 0xC then 1 else if unat c div 16 < 0xE then 2 else if unat c div 16 < 0xF then 3 else 4)"
    unfolding u list_all_iff by blast
  then show ?thesis by (simp add: div_less_iff_less_mult)
qed

lemma cont_byte: "c AND 0xc0 = (0x80 :: u8) \<longleftrightarrow> 128 \<le> unat c \<and> unat c < 192"
proof -
  have c: "unat c < 256" using unsigned_less [of c] by simp
  then have "unat c div 64 mod 4 = unat c div 64" by (simp add: less_mult_imp_div_less)
  then have "unat (c AND 0xc0) = 64 * (unat c div 64)" by (simp add: unsigned_and_eq and_192)
  then have "c AND 0xc0 = 0x80 \<longleftrightarrow> unat c div 64 = 2" by (simp add: word_unat_eq_iff)
  also have "\<dots> \<longleftrightarrow> 128 \<le> unat c \<and> unat c < 192" using div_mult_mod_eq [of "unat c" 64] mod_less_divisor [of 64 "unat c"] by linarith
  finally show ?thesis .
qed

lemma unat_shift_mask:
  assumes "unat r < 2 ^ 26"
  shows "unat (push_bit 6 r OR (0x3f AND ucast (c :: u8)) :: u32) = unat r * 64 + unat c mod 64"
proof -
  have c: "unat c < 256" using unsigned_less [of c] by simp
  then have "unat (0x3f AND ucast c :: u32) = unat c mod 64"
    by (simp add: unsigned_and_eq and.commute [of 63] and_63 unsigned_ucast_eq take_bit_eq_mod)
  moreover have "unat (push_bit 6 r) = unat r * 64"
    using assms by (simp add: push_bit_eq_mult unat_word_ariths)
  ultimately show ?thesis
    using or_low [of "unat c mod 64" 6 "unat r"] by (simp add: unsigned_or_eq or.commute mult.commute)
qed


section \<open>One unit\<close>

lemma enc_unit_unat:
  "map unat (enc_unit c) =
     (if unat c > 0x7ff then [unat c div 4096 + 224, unat c div 64 mod 64 + 128, unat c mod 64 + 128]
      else if unat c > 0x7f \<or> unat c = 0 then [unat c div 64 + 192, unat c mod 64 + 128]
      else [unat c])"
proof -
  note n = unat_u16 [of c]
  have u: "ucast c > (k :: u32) \<longleftrightarrow> unat c > unat k" "ucast c = (0 :: u32) \<longleftrightarrow> unat c = 0" for k
    using n(2) by (simp_all add: word_less_nat_alt word_unat_eq_iff)
  have d: "unat c div 4096 < 16" using n(1) by (simp add: less_mult_imp_div_less)
  have b1: "unat (ucast (drop_bit 12 (ucast c :: u32) OR 0xe0) :: u8) = unat c div 4096 + 224"
    using n d by (simp add: unat_byte unsigned_or_eq unat_div drop_bit_eq_div or_low_nums)
  have b2: "unat (ucast ((drop_bit 6 (ucast c :: u32) AND 0x3f) OR 0x80) :: u8) = unat c div 64 mod 64 + 128"
    using n by (simp add: unat_byte unsigned_or_eq unsigned_and_eq unat_div drop_bit_eq_div and_63 or_low_nums mod_mod_cancel)
  have b3: "unat (ucast ((ucast c AND 0x3f) OR 0x80 :: u32) :: u8) = unat c mod 64 + 128"
    using n by (simp add: unat_byte unsigned_or_eq unsigned_and_eq and_63 or_low_nums mod_mod_cancel)
  have b4: "unat (ucast (drop_bit 6 (ucast c :: u32) OR 0xc0) :: u8) = unat c div 64 + 192" if "unat c \<le> 0x7ff"
  proof -
    have "unat c div 64 < 32" using that by (simp add: less_mult_imp_div_less)
    then show ?thesis using n by (simp add: unat_byte unsigned_or_eq unat_div drop_bit_eq_div or_low_nums)
  qed
  have b5: "unat (ucast (ucast c :: u32) :: u8) = unat c" if "unat c \<le> 0x7f"
    using that n by (simp add: unat_byte)
  show ?thesis unfolding enc_unit_def Let_def using b1 b2 b3 b4 b5 by (auto simp: u)
qed

lemma enc_unit_length: "length (enc_unit c) = unat (unit_bytes c)"
  by (simp add: enc_unit_def unit_bytes_def Let_def word_less_nat_alt unat_u16 word_unat_eq_iff)

lemma getUtf32_enc_unit: "getUtf32FromUtf8 (enc_unit c @ s) = Some (ucast c, s) \<and> hd (enc_unit c) \<noteq> 0"
proof -
  note n = unat_u16 [of c] and e = enc_unit_unat [of c]
  have n6: "unat c div 64 < 1024" "unat c div 4096 < 16" using n(1) by (simp_all add: less_mult_imp_div_less)
  consider (three) "unat c > 0x7ff" | (two) "unat c \<le> 0x7ff" "unat c > 0x7f \<or> unat c = 0" | (one) "unat c \<le> 0x7f" "unat c \<noteq> 0" by linarith
  then show ?thesis
  proof cases
    case three
    then obtain x y z where b: "enc_unit c = [x, y, z]" "unat x = unat c div 4096 + 224" "unat y = unat c div 64 mod 64 + 128" "unat z = unat c mod 64 + 128"
      using e by auto
    have "(k + 224) mod 16 = k" if "k < 16" for k :: nat using that mod_mult_self1 [of k 14 16] by simp
    then have x: "unat (ucast x AND 0x0f :: u32) = unat c div 4096"
      using n6 b(2) by (simp add: unsigned_and_eq and_15 unsigned_ucast_eq take_bit_eq_mod)
    have m: "unat y mod 64 = unat c div 64 mod 64" "unat z mod 64 = unat c mod 64" unfolding b by (rule mod_64_add_128)+
    have k: "unat c div 64 mod 64 < 64" by simp
    define r where "r = push_bit 6 (ucast x AND 0x0f) OR (0x3f AND ucast y :: u32)"
    have r: "unat r = unat c div 4096 * 64 + unat c div 64 mod 64"
      unfolding r_def using n6 by (subst unat_shift_mask) (simp_all add: x m)
    then have "unat (push_bit 6 r OR (0x3f AND ucast z)) = unat r * 64 + unat z mod 64"
      using n6 k by (intro unat_shift_mask) simp
    then have "unat (push_bit 6 r OR (0x3f AND ucast z)) = unat c" unfolding r m using digits64 [of "unat c"] by simp
    then have "push_bit 6 (push_bit 6 (ucast x AND 0x0f) OR (0x3f AND ucast y)) OR (0x3f AND ucast z) = (ucast c :: u32)"
      unfolding r_def [symmetric] using n(2) by (simp add: word_unat_eq_iff)
    moreover have "y AND 0xc0 = 0x80" "z AND 0xc0 = 0x80" "x AND 0xc0 \<noteq> 0x80" "UTF8_SEQ_LENGTH x = Suc (Suc (Suc 0))"
      unfolding cont_byte SEQ_LENGTH b(2-4) using n6(2) by auto
    moreover have "x \<noteq> 0" "y \<noteq> 0" "z \<noteq> 0" using b(2-4) by auto
    ultimately show ?thesis using b(1) by (simp add: getUtf32FromUtf8_def Let_def leaderMask_def)
  next
    case two
    then obtain x y where b: "enc_unit c = [x, y]" "unat x = unat c div 64 + 192" "unat y = unat c mod 64 + 128"
      using e by auto
    have l: "unat c div 64 < 32" using two by (simp add: less_mult_imp_div_less)
    have "(k + 192) mod 32 = k" if "k < 32" for k :: nat using that mod_mult_self1 [of k 6 32] by simp
    then have x: "unat (ucast x AND 0x1f :: u32) = unat c div 64"
      using l b(2) by (simp add: unsigned_and_eq and_31 unsigned_ucast_eq take_bit_eq_mod)
    have "unat c div 64 * 64 + unat c mod 64 = unat c" by (rule div_mult_mod_eq)
    then have "unat (push_bit 6 (ucast x AND 0x1f) OR (0x3f AND ucast y) :: u32) = unat c"
      using l x b(3) by (subst unat_shift_mask) (simp_all add: mod_64_add_128)
    then have "push_bit 6 (ucast x AND 0x1f) OR (0x3f AND ucast y) = (ucast c :: u32)"
      using n(2) by (simp add: word_unat_eq_iff)
    then show ?thesis
      using b l by (auto simp: getUtf32FromUtf8_def cont_byte SEQ_LENGTH Let_def leaderMask_def)
  next
    case one
    then obtain x where b: "enc_unit c = [x]" "unat x = unat c" using e by auto
    then have "unat (ucast x AND 0xff :: u32) = unat c"
      using one by (simp add: unsigned_and_eq and_255 unsigned_ucast_eq take_bit_eq_mod)
    then have "ucast x AND 0xff = (ucast c :: u32)" using n(2) by (simp add: word_unat_eq_iff)
    then show ?thesis
      using b one by (auto simp: getUtf32FromUtf8_def cont_byte SEQ_LENGTH Let_def leaderMask_def)
  qed
qed


section \<open>Strings\<close>

lemma put_units_unit: "put_units (ucast (c :: u16)) = [c]"
proof -
  have "ucast c \<le> (0xffff :: u32)" using unat_u16 [of c] by (simp add: word_le_nat_alt)
  moreover have "ucast (ucast c :: u32) = c"
    by (rule bit_word_eqI) (simp add: bit_ucast_iff)
  ultimately show ?thesis by (simp add: put_units_def)
qed

lemma enc_unit_Cons: "\<exists>x xs. enc_unit c = x # xs \<and> x \<noteq> 0"
  using getUtf32_enc_unit [of c "[]"] by (cases "enc_unit c") (auto simp: getUtf32FromUtf8_def)

lemma cpy16_loop_eq: "n \<le> length us \<Longrightarrow> cpy16_loop n us = Some (concat (map enc_unit (take n us)))"
  by (induction n arbitrary: us) (auto simp: take_Suc_conv_app_nth neq_Nil_conv Suc_le_length_iff)

lemma strcpy8to16_enc: "strcpy8to16 (concat (map enc_unit us) @ 0 # rest) = Some us"
proof (induction us)
  case Nil
  show ?case by simp
next
  case (Cons c us)
  obtain x xs where x: "enc_unit c = x # xs" "x \<noteq> 0" using enc_unit_Cons by blast
  let ?s = "concat (map enc_unit us) @ 0 # rest"
  have "getUtf32FromUtf8 (x # (xs @ ?s)) = Some (ucast c, ?s)" using getUtf32_enc_unit [of c ?s] x(1) by simp
  then have "strcpy8to16 (x # (xs @ ?s)) = Some (c # us)" using x(2) Cons.IH by (simp add: put_units_unit)
  then show ?case using x(1) by simp
qed

text \<open>The number of bytes, without a bound.\<close>

definition enc_size :: "u16 list \<Rightarrow> nat" where
  "enc_size us = length (concat (map enc_unit us))"

lemma enc_size_simps [simp]: "enc_size [] = 0" "enc_size (c # us) = unat (unit_bytes c) + enc_size us"
  by (simp_all add: enc_size_def enc_unit_length)

lemma unit_bytes_bounds: "1 \<le> unat (unit_bytes c)" "unat (unit_bytes c) \<le> 3"
  by (simp_all add: unit_bytes_def)

lemma enc_size_le: "enc_size us \<le> 3 * length us"
proof (induction us)
  case (Cons c us)
  then show ?case using unit_bytes_bounds(2) [of c] by simp
qed simp

lemma len_fast_eq:
  "n \<le> length us \<Longrightarrow> unat a + enc_size (take n us) < 2 ^ 32 \<Longrightarrow> \<exists>L. len_fast n us a = Some L \<and> unat L = unat a + enc_size (take n us)"
proof (induction n arbitrary: us a)
  case (Suc n)
  then obtain c cs where us: "us = c # cs" "n \<le> length cs" by (auto simp: Suc_le_length_iff)
  have "unat (a + unit_bytes c) = unat a + unat (unit_bytes c)" using Suc.prems us by (intro unat_add_lem [THEN iffD1]) simp
  then show ?case using Suc.IH [of cs "a + unit_bytes c"] Suc.prems us by (simp add: add.assoc)
qed simp

lemma nat_power_32: "(2 :: nat) ^ 32 = 4294967296"
  by simp

lemma len_slow_eq:
  "n \<le> length us \<Longrightarrow> \<exists>L. len_slow n us a = Some L \<and> unat L = min (unat a + enc_size (take n us)) (2 ^ 32 - 2)"
proof (induction n arbitrary: us a)
  case 0
  have "unat a < 2 ^ 32" using unsigned_less [of a] by simp
  moreover have "a \<noteq> SIZE_MAX \<Longrightarrow> unat a \<noteq> 2 ^ 32 - 1" by (auto simp: SIZE_MAX_def word_unat_eq_iff)
  ultimately show ?case by (cases "a = SIZE_MAX") (auto simp: SIZE_MAX_def)
next
  case (Suc n)
  then obtain c cs where us: "us = c # cs" "n \<le> length cs" by (auto simp: Suc_le_length_iff)
  note ub = unit_bytes_bounds [of c]
  show ?case
  proof (cases "unat a + unat (unit_bytes c) < 2 ^ 32")
    case True
    then have e: "unat (a + unit_bytes c) = unat a + unat (unit_bytes c)" by (intro unat_add_lem [THEN iffD1]) simp
    then have "\<not> a + unit_bytes c < a" by (simp add: word_less_nat_alt)
    then show ?thesis using Suc.IH [OF us(2), of "a + unit_bytes c"] us e by (simp add: Let_def add.assoc)
  next
    case False
    have "unat a < 2 ^ 32" using unsigned_less [of a] by simp
    then have "unat (a + unit_bytes c) = unat a + unat (unit_bytes c) - 2 ^ 32"
      using False ub by (simp add: unat_word_ariths) (simp add: mod_if)
    then have "a + unit_bytes c < a" using \<open>unat a < 2 ^ 32\<close> ub False
      unfolding word_less_nat_alt by (simp only: nat_power_32)
    then show ?thesis using us False by (simp add: Let_def SIZE_MAX_def)
  qed
qed


lemma strnlen16to8_eq:
  assumes "unat n \<le> length us"
  shows "\<exists>L. strnlen16to8 us n = Some L \<and> unat L = min (enc_size (take (unat n) us)) (2 ^ 32 - 2)"
proof (cases "n < (SIZE_MAX - 1) div 3")
  case True
  have "unat n < 1431655764" using True by (simp add: SIZE_MAX_def word_less_nat_alt)
  moreover have "enc_size (take (unat n) us) \<le> 3 * unat n" using enc_size_le [of "take (unat n) us"] assms by simp
  ultimately have "enc_size (take (unat n) us) < 2 ^ 32 - 2" by simp
  then show ?thesis using True len_fast_eq [OF assms, of 0] by (simp add: strnlen16to8_def)
next
  case False
  then show ?thesis using len_slow_eq [OF assms, of 0] by (simp add: strnlen16to8_def)
qed

text \<open>
  strnlen16to8 measures exactly what strncpy16to8 writes before the final zero, with SIZE_MAX - 1 for everything larger; so strndup16to8 never
  writes behind the memory it allocates, and refuses strings whose encoding does not fit.
\<close>

theorem strndup16to8_fits:
  assumes "unat n \<le> length us"
  shows "\<exists>L bs. strnlen16to8 us n = Some L \<and> strncpy16to8 us n = Some bs \<and> unat L = min (length bs - 1) (2 ^ 32 - 2) \<and>
    strndup16to8 mal (Some us) n = Some (if mal \<and> length bs < 2 ^ 32 - 1 then Some bs else None)"
proof -
  let ?bs = "concat (map enc_unit (take (unat n) us)) @ [0]"
  have bs: "strncpy16to8 us n = Some ?bs" using cpy16_loop_eq [OF assms] by (simp add: strncpy16to8_def)
  have len: "length ?bs = enc_size (take (unat n) us) + 1" by (simp add: enc_size_def)
  obtain L where L: "strnlen16to8 us n = Some L" "unat L = min (enc_size (take (unat n) us)) (2 ^ 32 - 2)"
    using strnlen16to8_eq [OF assms] by blast
  have c0: "length (concat (map enc_unit (take (unat n) us))) = enc_size (take (unat n) us)" by (simp add: enc_size_def)
  have c: "SIZE_MAX - 1 \<le> L \<longleftrightarrow> \<not> length ?bs < 2 ^ 32 - 1" using L(2) by (auto simp: c0 SIZE_MAX_def word_le_nat_alt)
  have "unat (L + 1) = unat L + 1" if "\<not> SIZE_MAX - 1 \<le> L"
    using that by (intro unat_add_lem [THEN iffD1, THEN trans]) (simp_all add: SIZE_MAX_def word_le_nat_alt)
  then have "length ?bs \<le> unat (L + 1)" if "\<not> SIZE_MAX - 1 \<le> L" using that L(2) len c by simp
  then have "strndup16to8 mal (Some us) n = Some (if mal \<and> length ?bs < 2 ^ 32 - 1 then Some ?bs else None)"
    using L(1) bs c by (auto simp: strndup16to8_def)
  then show ?thesis using L bs len by auto
qed

theorem strndup16to8_fits_witness:
  "\<exists>L bs. strnlen16to8 [0x41, 0, 0x20AC] 3 = Some L \<and> strncpy16to8 [0x41, 0, 0x20AC] 3 = Some bs \<and>
    unat L = min (length bs - 1) (2 ^ 32 - 2)"
  using strndup16to8_fits [of 3 "[0x41, 0, 0x20AC]" True] by auto

text \<open>
  C30: Java's modified UTF-8 is a faithful encoding of all strings of UTF-16 units, with zeros and unpaired surrogates: strcpy8to16 reads back what
  strncpy16to8 has written, up to the final zero and whatever follows it.
\<close>

theorem jstring_roundtrip:
  assumes "unat n = length us"
  shows "\<exists>bs. strncpy16to8 us n = Some bs \<and> strcpy8to16 (bs @ rest) = Some us"
  using cpy16_loop_eq [of "unat n" us] strcpy8to16_enc [of us rest] assms by (simp add: strncpy16to8_def)

theorem jstring_roundtrip_witness:
  "\<exists>bs. strncpy16to8 [0, 0xD800, 0x41] 3 = Some bs \<and> strcpy8to16 (bs @ [7]) = Some [0, 0xD800, 0x41]"
  by (rule jstring_roundtrip) simp


section \<open>Measuring UTF-8\<close>

text \<open>The count of \<open>strlen8to16\<close>, without a bound.\<close>

fun cnt8 :: "u8 list \<Rightarrow> int \<Rightarrow> nat" where
  "cnt8 [] e = 0"
| "cnt8 (c # s) e =
     (if c = 0 then 0
      else if c AND 0xc0 = 0x80 then (if e - 1 < 0 then 1 else 0) + cnt8 s (e - 1)
      else (if UTF8_SEQ_LENGTH c = 4 then 2 else 1) + cnt8 s (int (UTF8_SEQ_LENGTH c) - 1))"

lemma cnt8_le: "cnt8 s e \<le> 2 * length s"
  by (induction s e rule: cnt8.induct) auto

lemma len8_loop_eq:
  assumes "0 \<in> set s" and "int (length s) \<le> e + 2 ^ 31 \<and> length s \<le> 2 ^ 31" and "unat L + cnt8 s e < 2 ^ 32"
  shows "\<exists>M. len8_loop s e L = Some M \<and> unat M = unat L + cnt8 s e"
  using assms
proof (induction s e L rule: len8_loop.induct)
  case (2 c s e L)
  have add1: "unat (L + 1) = unat L + 1" if "unat L + 1 < 2 ^ 32" using that by (intro unat_add_lem [THEN iffD1, THEN trans]) simp_all
  consider (nul) "c = 0" | (cont) "c \<noteq> 0" "c AND 0xc0 = 0x80" | (lead) "c \<noteq> 0" "c AND 0xc0 \<noteq> 0x80" by blast
  then show ?case
  proof cases
    case nul
    then show ?thesis by simp
  next
    case cont
    let ?L = "if e - 1 < 0 then L + 1 else L"
    have L: "unat ?L = unat L + (if e - 1 < 0 then 1 else 0)" using add1 2(5) cont by auto
    have "\<exists>M. len8_loop s (e - 1) ?L = Some M \<and> unat M = unat ?L + cnt8 s (e - 1)"
      using 2(3-5) cont L by (intro 2(1)) auto
    moreover have "e \<noteq> - (2 ^ 31)" using 2(4) by auto
    ultimately show ?thesis using cont L by auto
  next
    case lead
    let ?n = "int (UTF8_SEQ_LENGTH c) - 1"
    let ?L = "if ?n = 3 then L + 1 + 1 else L + 1"
    have n3: "?n = 3 \<longleftrightarrow> UTF8_SEQ_LENGTH c = 4" by auto
    have a: "unat (L + 1) = unat L + 1" using 2(5) lead by (intro add1) (auto split: if_splits)
    have L: "unat ?L = unat L + (if UTF8_SEQ_LENGTH c = 4 then 2 else 1)"
    proof (cases "UTF8_SEQ_LENGTH c = 4")
      case True
      then have "unat (L + 1 + 1) = unat (L + 1) + 1" using 2(5) lead a by (intro unat_add_lem [THEN iffD1, THEN trans]) simp_all
      then show ?thesis using True a by simp
    next
      case False
      then show ?thesis using a by auto
    qed
    have "\<exists>M. len8_loop s ?n ?L = Some M \<and> unat M = unat ?L + cnt8 s ?n"
      using 2(3-5) lead L by (intro 2(2)) (auto simp: SEQ_LENGTH)
    then show ?thesis using lead L by (auto simp: Let_def)
  qed
qed simp


definition cont_hd :: "u8 list \<Rightarrow> bool" where
  "cont_hd s \<longleftrightarrow> (case s of [] \<Rightarrow> False | c # _ \<Rightarrow> c AND 0xc0 = 0x80)"

text \<open>
  Between two characters the count goes on with no continuation bytes expected, or at a byte that is not one; a character of fewer than four bytes
  is at most \<open>0xffff\<close>.
\<close>

lemma get_rest_cnt8:
  assumes "0 \<in> set s" and "unat r < 2 ^ m" and "m + 6 * k \<le> 32"
  shows "\<exists>r' s' e. get_rest k r s = Some (r', s') \<and> 0 \<in> set s' \<and> cnt8 s (int k) = cnt8 s' e \<and> (e \<le> 0 \<or> \<not> cont_hd s') \<and>
    (unat r' < 2 ^ (m + 6 * k) \<or> r' = UTF16_REPLACEMENT_CHAR)"
  using assms
proof (induction k arbitrary: r s m)
  case 0
  then show ?case by (auto intro!: exI [of _ "0 :: int"])
next
  case (Suc k)
  obtain c cs where s: "s = c # cs" using Suc.prems(1) by (cases s) auto
  show ?case
  proof (cases "c \<noteq> 0 \<and> c AND 0xc0 = 0x80")
    case False
    then have "get_rest (Suc k) r s = Some (UTF16_REPLACEMENT_CHAR, s)" "\<not> cont_hd s" using s by (auto simp: cont_hd_def)
    then show ?thesis using Suc.prems(1) by auto
  next
    case True
    let ?r = "push_bit 6 r OR (0x3f AND ucast c)"
    have "(2 :: nat) ^ m \<le> 2 ^ 26" using Suc.prems(3) by (intro power_increasing) auto
    then have "unat ?r = unat r * 64 + unat c mod 64" using Suc.prems(2) by (intro unat_shift_mask) linarith
    moreover have "unat c mod 64 < 64" by simp
    moreover have "(unat r + 1) * 64 \<le> 2 ^ m * 64" using Suc.prems(2) by (intro mult_right_mono) auto
    ultimately have "unat ?r < 2 ^ (m + 6)" by (simp add: power_add)
    moreover have "0 \<in> set cs" using True s Suc.prems(1) by auto
    moreover have "m + 6 + 6 * k \<le> 32" using Suc.prems(3) by simp
    ultimately obtain r' s' e where ih: "get_rest k ?r cs = Some (r', s')" "0 \<in> set s'" "cnt8 cs (int k) = cnt8 s' e" "e \<le> 0 \<or> \<not> cont_hd s'"
        "unat r' < 2 ^ (m + 6 + 6 * k) \<or> r' = UTF16_REPLACEMENT_CHAR"
      using Suc.IH [of cs ?r "m + 6"] by blast
    have "get_rest (Suc k) r s = Some (r', s')" using True s ih(1) by simp
    moreover have "cnt8 s (int (Suc k)) = cnt8 s' e" using True s ih(3) by simp
    moreover have "m + 6 + 6 * k = m + 6 * Suc k" by simp
    ultimately show ?thesis using ih by metis
  qed
qed

lemma put_units_length: "length (put_units r) \<le> (if unat r < 65536 then 1 else 2)"
  by (auto simp: put_units_def word_le_nat_alt)

lemma unat_lead:
  assumes "c AND 0xc0 \<noteq> (0x80 :: u8)"
  shows "unat (ucast c AND leaderMask ! (UTF8_SEQ_LENGTH c - 1) :: u32) < 2 ^ (if UTF8_SEQ_LENGTH c = 1 then 8 else 7 - UTF8_SEQ_LENGTH c)"
  by (auto simp: SEQ_LENGTH leaderMask_def unsigned_and_eq and_255 and_31 and_15 and_7)

lemma getUtf32_cnt8:
  assumes "0 \<in> set (c # s)" and "c \<noteq> 0" and "e \<le> 0 \<or> \<not> cont_hd (c # s)"
  shows "\<exists>r s' e'. getUtf32FromUtf8 (c # s) = Some (r, s') \<and> 0 \<in> set s' \<and> (e' \<le> 0 \<or> \<not> cont_hd s') \<and>
    length (put_units r) + cnt8 s' e' \<le> cnt8 (c # s) e"
proof (cases "c AND 0xc0 = 0x80")
  case True
  then have e: "e \<le> 0" using assms(3) by (simp add: cont_hd_def)
  have "length (put_units UTF16_REPLACEMENT_CHAR) = 1" by (simp add: put_units_def UTF16_REPLACEMENT_CHAR_def)
  then show ?thesis using True e assms by (auto simp: getUtf32FromUtf8_def intro!: exI [of _ "e - 1"])
next
  case False
  let ?k = "UTF8_SEQ_LENGTH c" let ?m = "if ?k = 1 then 8 else 7 - ?k" let ?r = "ucast c AND leaderMask ! (?k - 1) :: u32"
  have k: "?k \<in> {1, 2, 3, 4}" by (simp add: SEQ_LENGTH)
  have "0 \<in> set s" "unat ?r < 2 ^ ?m" "?m + 6 * (?k - 1) \<le> 32" using assms unat_lead [OF False] k by auto
  from get_rest_cnt8 [OF this] obtain r s' e' where g: "get_rest (?k - 1) ?r s = Some (r, s')" "0 \<in> set s'"
      "cnt8 s (int (?k - 1)) = cnt8 s' e'" "e' \<le> 0 \<or> \<not> cont_hd s'" "unat r < 2 ^ (?m + 6 * (?k - 1)) \<or> r = UTF16_REPLACEMENT_CHAR" by blast
  have "length (put_units r) \<le> (if ?k = 4 then 2 else 1)"
  proof (cases "?k = 4")
    case True
    then show ?thesis using put_units_length [of r] by (auto split: if_splits)
  next
    case False
    then have "?m + 6 * (?k - 1) \<le> 16" using k by auto
    then have "(2 :: nat) ^ (?m + 6 * (?k - 1)) \<le> 2 ^ 16" by (intro power_increasing) auto
    then have "unat r < 65536" using g(5) by (auto simp: UTF16_REPLACEMENT_CHAR_def)
    then show ?thesis using put_units_length [of r] False by simp
  qed
  moreover have "getUtf32FromUtf8 (c # s) = Some (r, s')" using False assms(2) g(1) by (simp add: getUtf32FromUtf8_def Let_def)
  moreover have "int (?k - 1) = int ?k - 1" using k by auto
  then have "cnt8 (c # s) e = (if ?k = 4 then 2 else 1) + cnt8 s' e'" using False assms(2) g(3) by simp
  ultimately show ?thesis using g(2,4) by (intro exI [of _ r] exI [of _ s'] exI [of _ e']) simp
qed


lemma strcpy8to16_cnt8:
  "0 \<in> set s \<Longrightarrow> e \<le> 0 \<or> \<not> cont_hd s \<Longrightarrow> \<exists>us. strcpy8to16 s = Some us \<and> length us \<le> cnt8 s e"
proof (induction "length s" arbitrary: s e rule: less_induct)
  case less
  obtain c cs where s: "s = c # cs" using less.prems(1) by (cases s) auto
  show ?case
  proof (cases "c = 0")
    case True
    then show ?thesis using s by simp
  next
    case False
    obtain r s' e' where g: "getUtf32FromUtf8 (c # cs) = Some (r, s')" "0 \<in> set s'" "e' \<le> 0 \<or> \<not> cont_hd s'"
        "length (put_units r) + cnt8 s' e' \<le> cnt8 (c # cs) e"
      using getUtf32_cnt8 [of c cs e] less.prems s False by blast
    have "length s' < length s" using getUtf32FromUtf8_shorter [OF g(1) False] s by simp
    from less.hyps [OF this g(2,3)] obtain us where "strcpy8to16 s' = Some us" "length us \<le> cnt8 s' e'" by blast
    then show ?thesis using s False g(1,4) by simp
  qed
qed

text \<open>
  For every zero-terminated byte string of less than 2^31 bytes, valid or not, strlen8to16 and strcpy8to16 return, and strcpy8to16 writes at
  most as many units as strlen8to16 has counted: strdup8to16 never writes behind the memory it allocates.
\<close>

theorem strdup8to16_fits:
  assumes "0 \<in> set s" and "length s \<le> 2 ^ 31 - 1"
  shows "\<exists>L us. strlen8to16 s = Some L \<and> strcpy8to16 s = Some us \<and> length us \<le> unat L \<and>
    strdup8to16 True (Some s) = Some (if L \<noteq> 0 \<and> SIZE_MAX div L < 2 then None else Some us)"
proof -
  have "cnt8 s 0 < 2 ^ 32" using cnt8_le [of s 0] assms(2) by simp
  then obtain L where L: "strlen8to16 s = Some L" "unat L = cnt8 s 0"
    using len8_loop_eq [of s 0 0] assms by (auto simp: strlen8to16_def)
  moreover obtain us where us: "strcpy8to16 s = Some us" "length us \<le> cnt8 s 0" using strcpy8to16_cnt8 [OF assms(1), of 0] by blast
  ultimately show ?thesis by (simp add: strdup8to16_def)
qed

theorem strdup8to16_fits_witness:
  "\<exists>L us. strlen8to16 [0xF0, 0x9F, 0x41, 0x80, 0] = Some L \<and> strcpy8to16 [0xF0, 0x9F, 0x41, 0x80, 0] = Some us \<and> length us \<le> unat L"
  using strdup8to16_fits [of "[0xF0, 0x9F, 0x41, 0x80, 0]"] by auto

text \<open>
  \<open>getUtf32FromUtf8\<close> does not move past a zero byte, so \<open>strcpylen8to16\<close>, which goes by a length, never returns from a string with a zero byte
  inside of that length: it writes zeros without end.
\<close>

theorem strcpylen8to16_zero_diverges:
  assumes "0 < n"
  shows "strcpylen8to16 (0 # s) n = None"
proof -
  have z: "getUtf32FromUtf8 (0 # s) = Some (0, 0 # s)" by (simp add: getUtf32FromUtf8_def Let_def)
  have "t = 0 # s \<longrightarrow> m \<le> 0" if "cpylen_loop t m = Some us" for t m us
    using that by (rule cpylen_loop.raw_induct [rotated]) (auto simp: z bind_eq_Some_conv split: if_splits)
  then show ?thesis using assms by (cases "strcpylen8to16 (0 # s) n") (fastforce simp: strcpylen8to16_def)+
qed

end
