(* ===== verification/Utils_Unicode.thy ===== *)
theory Utils_Unicode
  imports Cutils_Jstring
begin

text \<open>
  The text encodings of \<open>utils/Unicode.cpp\<close>: UTF-8, UTF-16 and UTF-32. A source is the list of the units from the pointer on, with its length apart where
  the code may read behind that length; reading behind the list is \<open>None\<close>. A function that writes returns what it writes from the
  destination on. A null pointer is \<open>None\<close> of an option. \<open>char\<close> is unsigned.
\<close>

section \<open>UTF-32\<close>

definition kByteMask :: u32 where
  "kByteMask = 0xBF"

definition kByteMark :: u32 where
  "kByteMark = 0x80"

definition kUnicodeSurrogateStart :: u32 where
  "kUnicodeSurrogateStart = 0xD800"

definition kUnicodeSurrogateEnd :: u32 where
  "kUnicodeSurrogateEnd = 0xDFFF"

definition kUnicodeMaxCodepoint :: u32 where
  "kUnicodeMaxCodepoint = 0x10FFFF"

definition kFirstByteMark :: "u32 list" where
  "kFirstByteMark = [0, 0, 0xC0, 0xE0, 0xF0]"

definition utf32_codepoint_utf8_length :: "u32 \<Rightarrow> nat" where
  "utf32_codepoint_utf8_length srcChar =
     (if srcChar < 0x80 then 1
      else if srcChar < 0x800 then 2
      else if srcChar < 0x10000
      then if srcChar < kUnicodeSurrogateStart \<or> srcChar > kUnicodeSurrogateEnd then 3 else 0
      else if srcChar \<le> kUnicodeMaxCodepoint then 4
      else 0)"

text \<open>The cases of the switch fall through: \<open>n\<close> of the bytes are still to be written, from the last to the first.\<close>

fun put_bytes :: "nat \<Rightarrow> nat \<Rightarrow> u32 \<Rightarrow> u8 list" where
  "put_bytes bytes 0 srcChar = []"
| "put_bytes bytes (Suc 0) srcChar = [ucast (srcChar OR kFirstByteMark ! bytes)]"
| "put_bytes bytes (Suc (Suc n)) srcChar =
     put_bytes bytes (Suc n) (drop_bit 6 srcChar) @ [ucast ((srcChar OR kByteMark) AND kByteMask)]"

definition utf32_codepoint_to_utf8 :: "u32 \<Rightarrow> nat \<Rightarrow> u8 list" where
  "utf32_codepoint_to_utf8 srcChar bytes = (if bytes \<le> 4 then put_bytes bytes bytes srcChar else [])"

fun strlen32 :: "u32 list \<Rightarrow> nat run" where
  "strlen32 [] = None"
| "strlen32 (c # s) = (if c \<noteq> 0 then map_option Suc (strlen32 s) else Some 0)"

fun strnlen32 :: "u32 list \<Rightarrow> nat \<Rightarrow> nat run" where
  "strnlen32 s 0 = Some 0"
| "strnlen32 [] (Suc n) = None"
| "strnlen32 (c # s) (Suc n) = (if c \<noteq> 0 then map_option Suc (strnlen32 s n) else Some 0)"

text \<open>
  The loop of \<open>utf32_at_internal\<close> over the leading ones of the first byte: the mask is bit \<open>k\<close> for \<open>Suc k\<close>, and zero for 0. The result is
  the number of bytes, the bits to ignore, the mask and the value.
\<close>

primrec at_loop :: "nat \<Rightarrow> u8 \<Rightarrow> nat \<Rightarrow> u32 \<Rightarrow> u32 \<Rightarrow> u8 list \<Rightarrow> (nat \<times> u32 \<times> u32 \<times> u32) run" where
  "at_loop 0 first_char num_to_read to_ignore_mask utf32 cur = Some (num_to_read, to_ignore_mask, 0, utf32)"
| "at_loop (Suc k) first_char num_to_read to_ignore_mask utf32 cur =
     (let msk = push_bit k 1 in
      if ucast first_char AND msk = 0 then Some (num_to_read, to_ignore_mask, msk, utf32)
      else case cur of [] \<Rightarrow> None | c # cs \<Rightarrow>
        at_loop k first_char (num_to_read + 1) (to_ignore_mask OR msk) (push_bit 6 utf32 + (ucast c AND 0x3F)) cs)"

text \<open>A shift by 32 or more, for the first bytes 0xFE and 0xFF, is undefined.\<close>

definition utf32_at_internal :: "u8 list \<Rightarrow> (u32 \<times> nat) run" where
  "utf32_at_internal cur =
     (case cur of [] \<Rightarrow> None | first_char # cs \<Rightarrow>
        if first_char AND 0x80 = 0 then Some (ucast first_char, 1)
        else do {
          (num_to_read, to_ignore_mask, msk, utf32) \<leftarrow> at_loop 7 first_char 1 0xFFFFFF80 (ucast first_char) cs;
          if 6 * (num_to_read - 1) \<ge> 32 then None
          else Some (utf32 AND NOT (push_bit (6 * (num_to_read - 1)) (to_ignore_mask OR msk)), num_to_read)
        })"

definition utf32_from_utf8_at :: "u8 list \<Rightarrow> u32 \<Rightarrow> u32 \<Rightarrow> (s32 \<times> u32 option) run" where
  "utf32_from_utf8_at src src_len index =
     (if index \<ge> src_len then Some (-1, None)
      else do {
        (c, num_read) \<leftarrow> utf32_at_internal (drop (unat index) src);
        let ret = sint c;
        Some (ret, if ret \<ge> 0 then Some (index + of_nat num_read) else None)
      })"

definition utf32_to_utf8_length :: "u32 list option \<Rightarrow> s32" where
  "utf32_to_utf8_length src =
     (case src of None \<Rightarrow> -1 | Some cs \<Rightarrow>
        if cs = [] then -1
        else sint (fold (\<lambda>c ret. ret + of_nat (utf32_codepoint_utf8_length c)) cs (0 :: u32)))"

definition utf32_to_utf8 :: "u32 list option \<Rightarrow> bool \<Rightarrow> u8 list" where
  "utf32_to_utf8 src dst =
     (case src of None \<Rightarrow> [] | Some cs \<Rightarrow>
        if cs = [] \<or> \<not> dst then []
        else concat (map (\<lambda>c. utf32_codepoint_to_utf8 c (utf32_codepoint_utf8_length c)) cs) @ [0])"

section \<open>UTF-16\<close>

fun strcmp16 :: "u16 list \<Rightarrow> u16 list \<Rightarrow> s32 run" where
  "strcmp16 (a # s1) (b # s2) = (let d = int (unat a) - int (unat b) in if d \<noteq> 0 \<or> a = 0 then Some d else strcmp16 s1 s2)"
| "strcmp16 _ _ = None"

fun strncmp16 :: "u16 list \<Rightarrow> u16 list \<Rightarrow> nat \<Rightarrow> s32 run" where
  "strncmp16 s1 s2 0 = Some 0"
| "strncmp16 (a # s1) (b # s2) (Suc n) =
     (let d = int (unat a) - int (unat b) in if d \<noteq> 0 \<or> a = 0 then Some d else strncmp16 s1 s2 n)"
| "strncmp16 _ _ (Suc n) = None"

fun strcpy16 :: "u16 list \<Rightarrow> u16 list run" where
  "strcpy16 [] = None"
| "strcpy16 (ch # p) = (if ch = 0 then Some [ch] else map_option ((#) ch) (strcpy16 p))"

fun strlen16 :: "u16 list \<Rightarrow> nat run" where
  "strlen16 [] = None"
| "strlen16 (c # s) = (if c \<noteq> 0 then map_option Suc (strlen16 s) else Some 0)"

text \<open>The copied unit is tested after it was stored in a \<open>char\<close>.\<close>

fun ncpy16_loop :: "u16 list \<Rightarrow> nat \<Rightarrow> u16 list run" where
  "ncpy16_loop p 0 = Some []"
| "ncpy16_loop [] (Suc n) = None"
| "ncpy16_loop (c # p) (Suc n) = (let ch = ucast c :: u8 in if ch = 0 then Some [c] else map_option ((#) c) (ncpy16_loop p n))"

definition strncpy16 :: "u16 list \<Rightarrow> nat \<Rightarrow> u16 list run" where
  "strncpy16 src n = map_option (\<lambda>us. us @ [0]) (ncpy16_loop src n)"

fun strnlen16 :: "u16 list \<Rightarrow> nat \<Rightarrow> nat run" where
  "strnlen16 s 0 = Some 0"
| "strnlen16 [] (Suc n) = None"
| "strnlen16 (c # s) (Suc n) = (if c \<noteq> 0 then map_option Suc (strnlen16 s n) else Some 0)"

text \<open>The lists hold the units of the two lengths.\<close>

fun strzcmp16 :: "u16 list \<Rightarrow> u16 list \<Rightarrow> s32" where
  "strzcmp16 (a # s1) (b # s2) = (let d = int (unat a) - int (unat b) in if d \<noteq> 0 then d else strzcmp16 s1 s2)"
| "strzcmp16 [] (b # s2) = 0 - int (unat b)"
| "strzcmp16 (a # s1) [] = int (unat a) - 0"
| "strzcmp16 [] [] = 0"

definition ntohs :: "u16 \<Rightarrow> u16" where
  "ntohs x = (push_bit 8 x AND 0xff00) OR (drop_bit 8 x AND 255)"

fun strzcmp16_h_n :: "u16 list \<Rightarrow> u16 list \<Rightarrow> s32" where
  "strzcmp16_h_n (a # s1) (b # s2) =
     (let c2 = ntohs b; d = int (unat a) - int (unat c2) in if d \<noteq> 0 then d else strzcmp16_h_n s1 s2)"
| "strzcmp16_h_n [] (b # s2) = 0 - int (unat (ntohs b))"
| "strzcmp16_h_n (a # s1) [] = int (unat a) - 0"
| "strzcmp16_h_n [] [] = 0"

definition hi_sur :: "u16 \<Rightarrow> bool" where
  "hi_sur c \<longleftrightarrow> c AND 0xFC00 = 0xD800"

definition lo_sur :: "u16 \<Rightarrow> bool" where
  "lo_sur c \<longleftrightarrow> c AND 0xFC00 = 0xDC00"

definition sur_pair :: "u16 \<Rightarrow> u16 \<Rightarrow> u32" where
  "sur_pair a b = (push_bit 10 (ucast a - 0xD800) OR (ucast b - 0xDC00)) + 0x10000"

definition put_cp :: "u32 \<Rightarrow> u8 list" where
  "put_cp utf32 = utf32_codepoint_to_utf8 utf32 (utf32_codepoint_utf8_length utf32)"

fun u16to8_loop :: "u16 list \<Rightarrow> u8 list" where
  "u16to8_loop [] = []"
| "u16to8_loop [a] = put_cp (ucast a)"
| "u16to8_loop (a # b # s) =
     (if hi_sur a \<and> lo_sur b then put_cp (sur_pair a b) @ u16to8_loop s else put_cp (ucast a) @ u16to8_loop (b # s))"

definition utf16_to_utf8 :: "u16 list option \<Rightarrow> bool \<Rightarrow> u8 list" where
  "utf16_to_utf8 src dst = (case src of None \<Rightarrow> [] | Some us \<Rightarrow> if us = [] \<or> \<not> dst then [] else u16to8_loop us @ [0])"

text \<open>The second test of the condition moves the pointer, also when it fails.\<close>

fun u16len_loop :: "u16 list \<Rightarrow> u32 \<Rightarrow> u32" where
  "u16len_loop [] ret = ret"
| "u16len_loop [a] ret = ret + of_nat (utf32_codepoint_utf8_length (ucast a))"
| "u16len_loop (a # b # s) ret =
     (if hi_sur a
      then if lo_sur b then u16len_loop s (ret + 4) else u16len_loop s (ret + of_nat (utf32_codepoint_utf8_length (ucast b)))
      else u16len_loop (b # s) (ret + of_nat (utf32_codepoint_utf8_length (ucast a))))"

definition utf16_to_utf8_length :: "u16 list option \<Rightarrow> s32" where
  "utf16_to_utf8_length src = (case src of None \<Rightarrow> -1 | Some us \<Rightarrow> if us = [] then -1 else sint (u16len_loop us 0))"

section \<open>UTF-8\<close>

text \<open>The inner loop of \<open>utf8_length\<close>: at most four bytes; \<open>Inl\<close> is the return with -1.\<close>

primrec len_char :: "nat \<Rightarrow> u8 \<Rightarrow> nat \<Rightarrow> u32 \<Rightarrow> u32 \<Rightarrow> u8 list \<Rightarrow> (unit + nat \<times> u32 \<times> u32 \<times> u32 \<times> u8 list) run" where
  "len_char 0 first_char num_to_read to_ignore_mask utf32 cur =
     Some (Inr (num_to_read, to_ignore_mask, push_bit (7 - num_to_read) 1, utf32, cur))"
| "len_char (Suc k) first_char num_to_read to_ignore_mask utf32 cur =
     (let msk = push_bit (7 - num_to_read) 1 in
      if ucast first_char AND msk = 0 then Some (Inr (num_to_read, to_ignore_mask, msk, utf32, cur))
      else case cur of [] \<Rightarrow> None | c # cs \<Rightarrow>
        if c AND 0xC0 \<noteq> 0x80 then Some (Inl ())
        else len_char k first_char (num_to_read + 1) (to_ignore_mask OR msk) (push_bit 6 utf32 + (ucast c AND 0x3F)) cs)"

lemma len_char_length: "len_char k f n i u cur = Some (Inr (n', i', m, u', cur')) \<Longrightarrow> length cur' \<le> length cur"
  by (induction k arbitrary: n i u cur) (auto simp: Let_def split: if_splits list.splits, fastforce)

function (sequential) utf8_len_loop :: "u8 list \<Rightarrow> u32 \<Rightarrow> s32 run" where
  "utf8_len_loop [] ret = None"
| "utf8_len_loop (first_char # cur) ret =
     (if first_char = 0 then Some (sint ret)
      else if first_char AND 0x80 = 0 then utf8_len_loop cur (ret + 1)
      else if first_char AND 0x40 = 0 then Some (-1)
      else case len_char 4 first_char 1 0x80 0 cur of
        None \<Rightarrow> None
      | Some (Inl _) \<Rightarrow> Some (-1)
      | Some (Inr (num_to_read, to_ignore_mask, msk, utf32, cur')) \<Rightarrow>
          if num_to_read = 5 then Some (-1)
          else let utf32' = utf32 OR push_bit (6 * (num_to_read - 1)) (NOT (to_ignore_mask OR msk) AND ucast first_char) in
            if utf32' > kUnicodeMaxCodepoint then Some (-1)
            else utf8_len_loop cur' (ret + of_nat num_to_read))"
  by pat_completeness auto
termination
  by (relation "measure (length \<circ> fst)") (auto dest: len_char_length)

definition utf8_length :: "u8 list \<Rightarrow> s32 run" where
  "utf8_length src = utf8_len_loop src 0"

definition utf8_codepoint_len :: "u8 \<Rightarrow> nat" where
  "utf8_codepoint_len ch = unat (drop_bit (unat (drop_bit 3 (ucast ch :: u32) AND 0x1e)) (0xe5000000 :: u32) AND 3) + 1"

definition utf8_shift_and_mask :: "u32 \<Rightarrow> u8 \<Rightarrow> u32" where
  "utf8_shift_and_mask codePoint byte = push_bit 6 codePoint OR (0x3F AND ucast byte)"


text \<open>The leading ones from bit \<open>k\<close> on, for \<open>Suc k\<close>.\<close>

primrec skip_loop :: "nat \<Rightarrow> u8 \<Rightarrow> nat \<Rightarrow> nat" where
  "skip_loop 0 first_char num_to_skip = num_to_skip"
| "skip_loop (Suc k) first_char num_to_skip =
     (if first_char AND push_bit k 1 = 0 then num_to_skip else skip_loop k first_char (num_to_skip + 1))"

text \<open>\<open>cur\<close> is the memory from the pointer on, and \<open>n\<close> the number of bytes up to the end, less than 0 when the pointer has passed it.\<close>

function u8to32_len_loop :: "u8 list \<Rightarrow> int \<Rightarrow> u32 \<Rightarrow> u32 run" where
  "u8to32_len_loop cur n ret =
     (if n \<le> 0 then Some ret
      else case cur of [] \<Rightarrow> None | first_char # cs \<Rightarrow>
        let num_to_skip = (if first_char AND 0x80 = 0 then 1 else skip_loop 7 first_char 1) in
        u8to32_len_loop (drop num_to_skip cur) (n - int num_to_skip) (ret + 1))"
  by pat_completeness auto

lemma skip_loop_ge: "n \<le> skip_loop k c n"
  by (induction k arbitrary: n) (auto intro: Suc_leD)

termination u8to32_len_loop
proof (relation "measure (\<lambda>(cur, n, ret). nat n)", goal_cases)
  case (2 cur n ret first_char cs num_to_skip)
  then show ?case using skip_loop_ge [of 1 7 first_char] by (auto split: if_splits)
qed simp

definition utf8_to_utf32_length :: "u8 list option \<Rightarrow> int \<Rightarrow> u32 run" where
  "utf8_to_utf32_length src src_len =
     (case src of None \<Rightarrow> Some 0 | Some s \<Rightarrow> if src_len = 0 then Some 0 else u8to32_len_loop s src_len 0)"

lemma at_loop_num: "at_loop k c n i u cur = Some (n', r) \<Longrightarrow> n \<le> n'"
  by (induction k arbitrary: n i u cur) (auto simp: Let_def split: if_splits list.splits, fastforce)

lemma utf32_at_internal_num: "utf32_at_internal cur = Some (c, k) \<Longrightarrow> 1 \<le> k"
  by (auto simp: utf32_at_internal_def bind_eq_Some_conv dest!: at_loop_num split: list.splits if_splits)

function u8to32_loop :: "u8 list \<Rightarrow> int \<Rightarrow> u32 list run" where
  "u8to32_loop cur n =
     (if n \<le> 0 then Some []
      else case utf32_at_internal cur of
        None \<Rightarrow> None
      | Some (c, num_read) \<Rightarrow> map_option ((#) c) (u8to32_loop (drop num_read cur) (n - int num_read)))"
  by pat_completeness auto
termination
  by (relation "measure (nat \<circ> snd)") (auto dest: utf32_at_internal_num)

definition utf8_to_utf32 :: "u8 list option \<Rightarrow> int \<Rightarrow> bool \<Rightarrow> u32 list run" where
  "utf8_to_utf32 src src_len dst =
     (case src of None \<Rightarrow> Some [] | Some s \<Rightarrow>
        if src_len = 0 \<or> \<not> dst then Some [] else map_option (\<lambda>cs. cs @ [0]) (u8to32_loop s src_len))"

fun utf8_to_utf32_codepoint :: "u8 list \<Rightarrow> nat \<Rightarrow> u32 run" where
  "utf8_to_utf32_codepoint src n =
     (if n = 1 then (case src of a # _ \<Rightarrow> Some (ucast a) | _ \<Rightarrow> None)
      else if n = 2 then (case src of a # b # _ \<Rightarrow> Some (utf8_shift_and_mask (ucast a AND 0x1f) b) | _ \<Rightarrow> None)
      else if n = 3 then (case src of a # b # c # _ \<Rightarrow> Some (utf8_shift_and_mask (utf8_shift_and_mask (ucast a AND 0x0f) b) c) | _ \<Rightarrow> None)
      else if n = 4
      then (case src of a # b # c # d # _ \<Rightarrow>
        Some (utf8_shift_and_mask (utf8_shift_and_mask (utf8_shift_and_mask (ucast a AND 0x07) b) c) d) | _ \<Rightarrow> None)
      else Some 0xffff)"

lemma utf8_codepoint_len_ge: "1 \<le> utf8_codepoint_len c"
  by (simp add: utf8_codepoint_len_def)

function u8to16_len_loop :: "u8 list \<Rightarrow> int \<Rightarrow> u32 \<Rightarrow> s32 run" where
  "u8to16_len_loop u8cur n u16measuredLen =
     (if n \<le> 0 then Some (if n \<noteq> 0 then -1 else sint u16measuredLen)
      else case u8cur of [] \<Rightarrow> None | c # _ \<Rightarrow>
        let u8charLen = utf8_codepoint_len c in
        (case utf8_to_utf32_codepoint u8cur u8charLen of
           None \<Rightarrow> None
         | Some codepoint \<Rightarrow>
             u8to16_len_loop (drop u8charLen u8cur) (n - int u8charLen)
               (if codepoint > 0xFFFF then u16measuredLen + 1 + 1 else u16measuredLen + 1)))"
  by pat_completeness auto
termination
proof (relation "measure (\<lambda>(cur, n, ret). nat n)", goal_cases)
  case (2 cur n ret c cs)
  then show ?case using utf8_codepoint_len_ge [of c] by auto
qed simp

definition utf8_to_utf16_length :: "u8 list \<Rightarrow> int \<Rightarrow> s32 run" where
  "utf8_to_utf16_length u8str u8len = u8to16_len_loop u8str u8len 0"

definition cp_units :: "u32 \<Rightarrow> u16 list" where
  "cp_units codepoint =
     (if codepoint \<le> 0xFFFF then [ucast codepoint]
      else let c = codepoint - 0x10000 in [ucast (drop_bit 10 c + 0xD800), ucast ((c AND 0x3FF) + 0xDC00)])"

function utf8_to_utf16_no_null_terminator :: "u8 list \<Rightarrow> int \<Rightarrow> u16 list run" where
  "utf8_to_utf16_no_null_terminator u8cur n =
     (if n \<le> 0 then Some []
      else case u8cur of [] \<Rightarrow> None | c # _ \<Rightarrow>
        let u8len = utf8_codepoint_len c in
        (case utf8_to_utf32_codepoint u8cur u8len of
           None \<Rightarrow> None
         | Some codepoint \<Rightarrow>
             map_option (\<lambda>us. cp_units codepoint @ us) (utf8_to_utf16_no_null_terminator (drop u8len u8cur) (n - int u8len))))"
  by pat_completeness auto
termination
proof (relation "measure (\<lambda>(cur, n). nat n)", goal_cases)
  case (2 cur n c cs)
  then show ?case using utf8_codepoint_len_ge [of c] by auto
qed simp

definition utf8_to_utf16 :: "u8 list \<Rightarrow> int \<Rightarrow> u16 list run" where
  "utf8_to_utf16 u8str u8len = map_option (\<lambda>us. us @ [0]) (utf8_to_utf16_no_null_terminator u8str u8len)"

text \<open>\<open>utf8_to_utf16_n\<close> with room for \<open>m\<close> units: what is written, and the distance of the returned pointer.\<close>

function utf8_to_utf16_n :: "u8 list \<Rightarrow> int \<Rightarrow> nat \<Rightarrow> (u16 list \<times> nat) run" where
  "utf8_to_utf16_n u8cur n m =
     (if n \<le> 0 \<or> m = 0 then Some ([], 0)
      else case u8cur of [] \<Rightarrow> None | c # _ \<Rightarrow>
        let u8len = utf8_codepoint_len c in
        (case utf8_to_utf32_codepoint u8cur u8len of
           None \<Rightarrow> None
         | Some codepoint \<Rightarrow>
             if codepoint > 0xFFFF \<and> m = 1 then Some (take 1 (cp_units codepoint), 0)
             else map_option (\<lambda>(us, k). (cp_units codepoint @ us, length (cp_units codepoint) + k))
                    (utf8_to_utf16_n (drop u8len u8cur) (n - int u8len) (m - length (cp_units codepoint)))))"
  by pat_completeness auto
termination
proof (relation "measure (\<lambda>(cur, n, m). nat n)", goal_cases)
  case (2 cur n m c cs)
  then show ?case using utf8_codepoint_len_ge [of c] by auto
qed simp

declare u8to32_len_loop.simps [simp del] u8to32_loop.simps [simp del] u8to16_len_loop.simps [simp del]
  utf8_to_utf16_no_null_terminator.simps [simp del] utf8_to_utf16_n.simps [simp del] utf8_to_utf32_codepoint.simps [simp del]


section \<open>The bytes of a code point\<close>

definition cp_valid :: "u32 \<Rightarrow> bool" where
  "cp_valid c \<longleftrightarrow> c \<le> kUnicodeMaxCodepoint \<and> \<not> (kUnicodeSurrogateStart \<le> c \<and> c \<le> kUnicodeSurrogateEnd)"

lemma cp_valid_unat: "cp_valid c \<longleftrightarrow> unat c < 0x110000 \<and> \<not> (0xD800 \<le> unat c \<and> unat c < 0xE000)"
  by (auto simp: cp_valid_def kUnicodeMaxCodepoint_def kUnicodeSurrogateStart_def kUnicodeSurrogateEnd_def word_le_nat_alt)

lemma cp_length:
  "cp_valid c \<Longrightarrow> utf32_codepoint_utf8_length c = (if unat c < 0x80 then 1 else if unat c < 0x800 then 2 else if unat c < 0x10000 then 3 else 4)"
  by (auto simp: utf32_codepoint_utf8_length_def cp_valid_unat kUnicodeMaxCodepoint_def kUnicodeSurrogateStart_def kUnicodeSurrogateEnd_def
      word_le_nat_alt word_less_nat_alt)

lemma or_and_or: "(x OR a) AND (m OR a) = (x AND m) OR (a :: u32)"
  by (rule bit_word_eqI) (auto simp: bit_or_iff bit_and_iff)

lemma cont_byte_unat: "unat (ucast ((x OR kByteMark) AND kByteMask) :: u8) = unat x mod 64 + 128"
proof -
  have e: "kByteMask = 0x3f OR kByteMark" by (simp add: kByteMask_def kByteMark_def)
  have "(x OR kByteMark) AND kByteMask = (x AND 0x3f) OR kByteMark" unfolding e by (rule or_and_or)
  then show ?thesis by (simp add: kByteMark_def unat_byte unsigned_or_eq unsigned_and_eq and_63 or_low_nums mod_mod_cancel)
qed

lemma unat_byte_or: "unat (ucast (x OR y :: u32) :: u8) = (unat x OR unat y) mod 256"
  unfolding unat_byte by (simp only: unsigned_or_eq)

lemma unat_drop_6:
  "unat (drop_bit 6 (x :: u32)) = unat x div 64"
  "unat (drop_bit 12 (x :: u32)) = unat x div 64 div 64"
  "unat (drop_bit 18 (x :: u32)) = unat x div 64 div 64 div 64"
  by (simp_all add: drop_bit_eq_div unat_div div_mult2_eq [symmetric])

lemma put_bytes_nums:
  "put_bytes b 1 x = [ucast (x OR kFirstByteMark ! b)]"
  "put_bytes b 2 x = put_bytes b 1 (drop_bit 6 x) @ [ucast ((x OR kByteMark) AND kByteMask)]"
  "put_bytes b 3 x = put_bytes b 2 (drop_bit 6 x) @ [ucast ((x OR kByteMark) AND kByteMask)]"
  "put_bytes b 4 x = put_bytes b 3 (drop_bit 6 x) @ [ucast ((x OR kByteMark) AND kByteMask)]"
  by (simp_all only: eval_nat_numeral BitM.simps put_bytes.simps One_nat_def)

text \<open>The numbers of the bytes.\<close>

definition cp_bytes :: "nat \<Rightarrow> nat list" where
  "cp_bytes n =
     (if n < 0x80 then [n]
      else if n < 0x800 then [n div 64 + 192, n mod 64 + 128]
      else if n < 0x10000 then [n div 64 div 64 + 224, n div 64 mod 64 + 128, n mod 64 + 128]
      else [n div 64 div 64 div 64 + 240, n div 64 div 64 mod 64 + 128, n div 64 mod 64 + 128, n mod 64 + 128])"

lemma put_cp_bytes:
  assumes "cp_valid c"
  shows "map unat (put_cp c) = cp_bytes (unat c)"
proof -
  let ?n = "unat c"
  have n: "?n < 0x110000" using assms by (simp add: cp_valid_unat)
  have o: "(x :: nat) OR 240 = x + 240" if "x < 16" for x using or_low [of x 4 15] that by simp
  note w = put_cp_def utf32_codepoint_to_utf8_def cp_length [OF assms] cp_bytes_def put_bytes_nums cont_byte_unat unat_byte_or kFirstByteMark_def
    unat_drop_6
  consider "?n < 0x80" | "0x80 \<le> ?n" "?n < 0x800" | "0x800 \<le> ?n" "?n < 0x10000" | "0x10000 \<le> ?n" by linarith
  then show ?thesis
  proof cases
    case 1
    then show ?thesis by (simp add: w unat_byte)
  next
    case 2
    moreover from 2 have "?n div 64 < 32" by (simp add: less_mult_imp_div_less)
    ultimately show ?thesis by (simp add: w or_low_nums)
  next
    case 3
    moreover from 3 have "?n div 64 div 64 < 16" by (simp add: less_mult_imp_div_less)
    ultimately show ?thesis by (simp add: w or_low_nums)
  next
    case 4
    moreover have "?n div 64 div 64 div 64 < 8" using n by (simp add: less_mult_imp_div_less)
    ultimately show ?thesis by (simp add: w o)
  qed
qed


lemma cp_bytes_length: "length (cp_bytes n) = (if n < 0x80 then 1 else if n < 0x800 then 2 else if n < 0x10000 then 3 else 4)"
  by (simp add: cp_bytes_def)

lemma put_cp_length: "cp_valid c \<Longrightarrow> length (put_cp c) = utf32_codepoint_utf8_length c"
  using put_cp_bytes [of c] cp_bytes_length [of "unat c"] by (metis cp_length length_map)

section \<open>Decoding\<close>

lemma codepoint_len_eq: "utf8_codepoint_len = UTF8_SEQ_LENGTH"
  by (simp add: fun_eq_iff utf8_codepoint_len_def UTF8_SEQ_LENGTH_def)

lemma shift_and_mask_unat:
  assumes "unat r < 2 ^ 26"
  shows "unat (utf8_shift_and_mask r c) = unat r * 64 + unat c mod 64"
  unfolding utf8_shift_and_mask_def by (rule unat_shift_mask [OF assms])

lemma unat_u8: "unat (ucast (c :: u8) :: u32) = unat c"
proof -
  have "unat c < 256" using unsigned_less [of c] by simp
  then show ?thesis by (simp add: unsigned_ucast_eq take_bit_eq_mod)
qed

lemma unat_div_64: "unat (c :: u32) div 64 < 2 ^ 26"
proof -
  have "unat c < 4294967296" using unsigned_less [of c] by simp
  then show ?thesis by (simp add: less_mult_imp_div_less)
qed

lemma unat_and_low:
  "unat (ucast (c :: u8) AND 0x1f :: u32) = unat c mod 32"
  "unat (ucast (c :: u8) AND 0x0f :: u32) = unat c mod 16"
  "unat (ucast (c :: u8) AND 0x07 :: u32) = unat c mod 8"
  by (simp_all only: unsigned_and_eq unat_u8) (simp_all add: and_31 and_15 and_7)

lemma mod_add_lead:
  "x < 32 \<Longrightarrow> (x + 192) mod 32 = x" "x < 16 \<Longrightarrow> (x + 224) mod 16 = x" "x < 8 \<Longrightarrow> (x + 240) mod 8 = (x :: nat)"
  using mod_mult_self1 [of x 6 32] mod_mult_self1 [of x 14 16] mod_mult_self1 [of x 30 8] by simp_all

lemma base64_eq: "n div 64 * 64 + n mod 64 = (n :: nat)"
  by (rule div_mult_mod_eq)

lemma cp_valid_cases [consumes 1, case_names one two three four]:
  assumes "cp_valid c"
    and "unat c < 0x80 \<Longrightarrow> P"
    and "\<And>x y. put_cp c = [x, y] \<Longrightarrow> unat c div 64 < 32 \<Longrightarrow> unat x = unat c div 64 + 192 \<Longrightarrow> unat y = unat c mod 64 + 128 \<Longrightarrow> P"
    and "\<And>x y z. put_cp c = [x, y, z] \<Longrightarrow> unat c div 64 div 64 < 16 \<Longrightarrow> unat x = unat c div 64 div 64 + 224 \<Longrightarrow>
      unat y = unat c div 64 mod 64 + 128 \<Longrightarrow> unat z = unat c mod 64 + 128 \<Longrightarrow> P"
    and "\<And>x y z w. put_cp c = [x, y, z, w] \<Longrightarrow> unat c div 64 div 64 div 64 < 8 \<Longrightarrow> unat x = unat c div 64 div 64 div 64 + 240 \<Longrightarrow>
      unat y = unat c div 64 div 64 mod 64 + 128 \<Longrightarrow> unat z = unat c div 64 mod 64 + 128 \<Longrightarrow> unat w = unat c mod 64 + 128 \<Longrightarrow> P"
  shows P
proof -
  let ?n = "unat c"
  have n: "?n < 0x110000" using assms(1) by (simp add: cp_valid_unat)
  note b = put_cp_bytes [OF assms(1)]
  consider "?n < 0x80" | "0x80 \<le> ?n" "?n < 0x800" | "0x800 \<le> ?n" "?n < 0x10000" | "0x10000 \<le> ?n" by linarith
  then show P
  proof cases
    case 1
    then show ?thesis by (rule assms(2))
  next
    case 2
    moreover from 2 have "?n div 64 < 32" by (simp add: less_mult_imp_div_less)
    ultimately show ?thesis using b assms(3) by (auto simp: cp_bytes_def)
  next
    case 3
    moreover from 3 have "?n div 64 div 64 < 16" by (simp add: less_mult_imp_div_less)
    ultimately show ?thesis using b assms(4) by (auto simp: cp_bytes_def)
  next
    case 4
    moreover have "?n div 64 div 64 div 64 < 8" using n by (simp add: less_mult_imp_div_less)
    ultimately show ?thesis using b assms(5) by (auto simp: cp_bytes_def)
  qed
qed

lemma put_cp_one: "unat c < 0x80 \<Longrightarrow> put_cp c = [ucast c]"
  using put_bytes_nums(1) by (simp add: put_cp_def utf32_codepoint_to_utf8_def utf32_codepoint_utf8_length_def word_less_nat_alt kFirstByteMark_def)


lemma codepoint_put_cp:
  assumes "cp_valid c"
  shows "\<exists>x xs. put_cp c = x # xs \<and> utf8_codepoint_len x = length (put_cp c) \<and>
    utf8_to_utf32_codepoint (put_cp c @ s) (length (put_cp c)) = Some c"
  using assms
proof (cases rule: cp_valid_cases)
  case one
  have u: "unat (ucast c :: u8) = unat c" using one by (simp add: unat_byte)
  then have "unat (ucast (ucast c :: u8) :: u32) = unat c" unfolding unat_u8 .
  then have "ucast (ucast c :: u8) = c" by (simp only: unsigned_word_eqI)
  then show ?thesis using one u by (simp add: put_cp_one codepoint_len_eq SEQ_LENGTH utf8_to_utf32_codepoint.simps)
next
  case (two x y)
  have "unat (utf8_shift_and_mask (ucast x AND 0x1f) y) = unat c"
    using two by (simp add: shift_and_mask_unat unat_and_low mod_add_lead mod_64_add_128 base64_eq)
  then have "utf8_shift_and_mask (ucast x AND 0x1f) y = c" by (simp only: unsigned_word_eqI)
  then show ?thesis using two by (simp add: codepoint_len_eq SEQ_LENGTH utf8_to_utf32_codepoint.simps)
next
  case (three x y z)
  have 1: "unat (utf8_shift_and_mask (ucast x AND 0x0f) y) = unat c div 64"
    using three by (simp add: shift_and_mask_unat unat_and_low mod_add_lead mod_64_add_128 base64_eq)
  then have "unat (utf8_shift_and_mask (utf8_shift_and_mask (ucast x AND 0x0f) y) z) = unat c"
    using three unat_div_64 [of c] by (subst shift_and_mask_unat) (simp_all add: mod_64_add_128 base64_eq)
  then have "utf8_shift_and_mask (utf8_shift_and_mask (ucast x AND 0x0f) y) z = c" by (simp only: unsigned_word_eqI)
  then show ?thesis using three by (simp add: codepoint_len_eq SEQ_LENGTH utf8_to_utf32_codepoint.simps)
next
  case (four x y z w)
  have 1: "unat (utf8_shift_and_mask (ucast x AND 0x07) y) = unat c div 64 div 64"
    using four by (simp add: shift_and_mask_unat unat_and_low mod_add_lead mod_64_add_128 base64_eq)
  have b: "unat c div 64 < 2 ^ 26" by (rule unat_div_64)
  have "unat c div 64 div 64 < 2 ^ 26" by (rule le_less_trans [OF div_le_dividend b])
  then have 2: "unat (utf8_shift_and_mask (utf8_shift_and_mask (ucast x AND 0x07) y) z) = unat c div 64"
    using four by (subst shift_and_mask_unat) (simp_all add: 1 mod_64_add_128 base64_eq)
  have "unat (utf8_shift_and_mask (utf8_shift_and_mask (utf8_shift_and_mask (ucast x AND 0x07) y) z) w) = unat c"
    using four b by (subst shift_and_mask_unat) (simp_all add: 2 mod_64_add_128 base64_eq)
  then have "utf8_shift_and_mask (utf8_shift_and_mask (utf8_shift_and_mask (ucast x AND 0x07) y) z) w = c" by (simp only: unsigned_word_eqI)
  then show ?thesis using four by (simp add: codepoint_len_eq SEQ_LENGTH utf8_to_utf32_codepoint.simps)
qed

text \<open>Tests of single bits, and the masks of \<open>utf32_at_internal\<close>.\<close>

lemma and_bit_eq_0: "(ucast (f :: u8) :: u32) AND push_bit k 1 = 0 \<longleftrightarrow> even (unat f div 2 ^ k)"
proof -
  have "(ucast f :: u32) AND push_bit k 1 = 0 \<longleftrightarrow> \<not> bit (ucast f :: u32) k"
    by (simp add: push_bit_eq_mult and_exp_eq_0_iff_not_bit)
  also have "\<dots> \<longleftrightarrow> \<not> bit f k" by (auto simp: bit_ucast_iff dest: bit_imp_le_length)
  also have "bit f k \<longleftrightarrow> bit (unat f) k" by (simp add: bit_unsigned_iff)
  finally show ?thesis by (simp add: bit_iff_odd)
qed


lemma unat_shift_add:
  assumes "unat r < 2 ^ 26"
  shows "unat (push_bit 6 r + (ucast (c :: u8) AND 0x3F) :: u32) = unat r * 64 + unat c mod 64"
proof -
  have "unat (ucast c AND 0x3F :: u32) = unat c mod 64" by (simp only: unsigned_and_eq unat_u8) (simp add: and_63)
  moreover have "unat (push_bit 6 r) = unat r * 64" using assms by (simp add: push_bit_eq_mult unat_word_ariths)
  moreover have "unat r * 64 + unat c mod 64 < 2 ^ 32"
  proof -
    have "unat c mod 64 < 64" by simp
    moreover have "(unat r + 1) * 64 \<le> 2 ^ 26 * 64" using assms by (intro mult_right_mono) auto
    ultimately show ?thesis by simp
  qed
  ultimately show ?thesis by (subst unat_add_lem [THEN iffD1]) simp_all
qed

lemma and_not_high:
  "unat (x AND NOT (push_bit 6 ((0xFFFFFF80 OR 0x40) OR 0x20)) :: u32) = unat x mod 2048"
  "unat (x AND NOT (push_bit 12 (((0xFFFFFF80 OR 0x40) OR 0x20) OR 0x10)) :: u32) = unat x mod 65536"
  "unat (x AND NOT (push_bit 18 ((((0xFFFFFF80 OR 0x40) OR 0x20) OR 0x10) OR 0x08)) :: u32) = unat x mod 2097152"
proof -
  have "NOT (push_bit 6 ((0xFFFFFF80 OR 0x40) OR 0x20)) = (0x7FF :: u32)" by code_simp
  moreover have "unat (x AND 0x7FF :: u32) = unat x mod 2048" by (simp add: unsigned_and_eq and_field [of _ 0 11, simplified])
  ultimately show "unat (x AND NOT (push_bit 6 ((0xFFFFFF80 OR 0x40) OR 0x20)) :: u32) = unat x mod 2048" by (simp only:)
  have "NOT (push_bit 12 (((0xFFFFFF80 OR 0x40) OR 0x20) OR 0x10)) = (0xFFFF :: u32)" by code_simp
  moreover have "unat (x AND 0xFFFF :: u32) = unat x mod 65536" by (simp add: unsigned_and_eq and_field [of _ 0 16, simplified])
  ultimately show "unat (x AND NOT (push_bit 12 (((0xFFFFFF80 OR 0x40) OR 0x20) OR 0x10)) :: u32) = unat x mod 65536" by (simp only:)
  have "NOT (push_bit 18 ((((0xFFFFFF80 OR 0x40) OR 0x20) OR 0x10) OR 0x08)) = (0x1FFFFF :: u32)" by code_simp
  moreover have "unat (x AND 0x1FFFFF :: u32) = unat x mod 2097152" by (simp add: unsigned_and_eq and_field [of _ 0 21, simplified])
  ultimately show "unat (x AND NOT (push_bit 18 ((((0xFFFFFF80 OR 0x40) OR 0x20) OR 0x10) OR 0x08)) :: u32) = unat x mod 2097152" by (simp only:)
qed


lemma mod_strip_lead:
  "n < 2048 \<Longrightarrow> (n + 6 * 2048) mod 2048 = n" "n < 65536 \<Longrightarrow> (n + 14 * 65536) mod 65536 = n" "n < 2097152 \<Longrightarrow> (n + 30 * 2097152) mod 2097152 = (n :: nat)"
  by (simp_all only: mod_mult_self1 mod_less)

lemma lead_bits:
  "x < 32 \<Longrightarrow> (x + 192) div 64 = 3" "x < 32 \<Longrightarrow> (x + 192) div 32 = 6"
  "x < 16 \<Longrightarrow> (x + 224) div 64 = 3" "x < 16 \<Longrightarrow> (x + 224) div 32 = 7" "x < 16 \<Longrightarrow> (x + 224) div 16 = 14"
  "x < 8 \<Longrightarrow> (x + 240) div 64 = 3" "x < 8 \<Longrightarrow> (x + 240) div 32 = 7" "x < 8 \<Longrightarrow> (x + 240) div 16 = 15" "x < 8 \<Longrightarrow> (x + 240) div 8 = (30 :: nat)"
  by (auto intro!: div_nat_eqI)

lemma at_loop_stop: "even (unat f div 2 ^ k) \<Longrightarrow> at_loop (Suc k) f n i u cur = Some (n, i, push_bit k 1, u)"
  by (simp only: at_loop.simps Let_def and_bit_eq_0 if_True)

lemma at_loop_go:
  "odd (unat f div 2 ^ k) \<Longrightarrow> at_loop (Suc k) f n i u (c # cs) = at_loop k f (n + 1) (i OR push_bit k 1) (push_bit 6 u + (ucast c AND 0x3F)) cs"
  by (simp only: at_loop.simps Let_def and_bit_eq_0 if_False list.case simp_thms)

lemmas at_loop_nums = at_loop_go [of _ 6, simplified] at_loop_go [of _ 5, simplified] at_loop_go [of _ 4, simplified]
  at_loop_stop [of _ 5, simplified] at_loop_stop [of _ 4, simplified] at_loop_stop [of _ 3, simplified]

lemma lead_high: "128 \<le> unat (x :: u8) \<Longrightarrow> x AND 0x80 \<noteq> 0"
proof -
  assume a: "128 \<le> unat x"
  have "unat x < 256" using unsigned_less [of x] by simp
  then have "unat x div 128 = 1" using a by (intro div_nat_eqI) simp_all
  then have "unat (x AND 0x80) = 128" by (simp add: unsigned_and_eq and_field [of _ 7 1, simplified])
  then show ?thesis by auto
qed

text \<open>One more continuation byte, with the marker bits of the first byte still at the top.\<close>

lemma shift_add_digit:
  assumes "unat u = a div 64 + m" and "a div 64 + m < 2 ^ 26" and "unat (z :: u8) = a mod 64 + 128"
  shows "unat (push_bit 6 u + (ucast z AND 0x3F) :: u32) = a + m * 64"
proof -
  have "unat (push_bit 6 u + (ucast z AND 0x3F) :: u32) = unat u * 64 + unat z mod 64" using assms(1,2) by (intro unat_shift_add) simp
  then show ?thesis unfolding assms(1,3) mod_64_add_128 using base64_eq [of a] by simp
qed

lemma less_of_div: "a div 64 < k \<Longrightarrow> a < k * (64 :: nat)"
  using base64_eq [of a] mod_less_divisor [of 64 a] by linarith

lemma at_internal_put_cp:
  assumes "cp_valid c"
  shows "utf32_at_internal (put_cp c @ s) = Some (c, length (put_cp c))"
  using assms
proof (cases rule: cp_valid_cases)
  case one
  have u: "unat (ucast c :: u8) = unat c" using one by (simp add: unat_byte)
  then have "unat (ucast (ucast c :: u8) :: u32) = unat c" unfolding unat_u8 .
  then have "ucast (ucast c :: u8) = c" by (simp only: unsigned_word_eqI)
  moreover have "(ucast c :: u8) AND 0x80 = 0"
  proof -
    have "unat c div 128 = 0" using one by simp
    then have "unat ((ucast c :: u8) AND 0x80) = 0" unfolding unsigned_and_eq u by (simp add: and_field [of _ 7 1, simplified])
    then show ?thesis by (simp add: unat_eq_0)
  qed
  ultimately show ?thesis using one by (simp add: put_cp_one utf32_at_internal_def)
next
  case (two x y)
  let ?u = "push_bit 6 (ucast x) + (ucast y AND 0x3F) :: u32"
  have u: "unat ?u = unat c + 6 * 2048" using shift_add_digit [of "ucast x" "unat c" 192 y] two by (simp add: unat_u8)
  have "unat c < 2048" using less_of_div [OF two(2)] by simp
  then have "unat (?u AND NOT (push_bit 6 ((0xFFFFFF80 OR 0x40) OR 0x20))) = unat c" unfolding and_not_high u by (rule mod_strip_lead)
  then have "?u AND NOT (push_bit 6 ((0xFFFFFF80 OR 0x40) OR 0x20)) = c" by (simp only: unsigned_word_eqI)
  then show ?thesis using two lead_high [of x] by (simp add: utf32_at_internal_def at_loop_nums lead_bits)
next
  case (three x y z)
  let ?u = "push_bit 6 (ucast x) + (ucast y AND 0x3F) :: u32"
  let ?v = "push_bit 6 ?u + (ucast z AND 0x3F) :: u32"
  have u: "unat ?u = unat c div 64 + 224 * 64" by (rule shift_add_digit [OF _ _ three(4)]) (use three(2,3) in \<open>simp_all add: unat_u8\<close>)
  have l: "unat c div 64 < 1024" using less_of_div [OF three(2)] by simp
  have "unat ?v = unat c + 224 * 64 * 64" by (rule shift_add_digit [OF u _ three(5)]) (use l in simp)
  then have v: "unat ?v = unat c + 14 * 65536" by simp
  have "unat c < 65536" using less_of_div [OF l] by simp
  then have "unat (?v AND NOT (push_bit 12 (((0xFFFFFF80 OR 0x40) OR 0x20) OR 0x10))) = unat c" unfolding and_not_high v by (rule mod_strip_lead)
  then have "?v AND NOT (push_bit 12 (((0xFFFFFF80 OR 0x40) OR 0x20) OR 0x10)) = c" by (simp only: unsigned_word_eqI)
  then show ?thesis using three lead_high [of x] by (simp add: utf32_at_internal_def at_loop_nums lead_bits)
next
  case (four x y z w)
  let ?u = "push_bit 6 (ucast x) + (ucast y AND 0x3F) :: u32"
  let ?v = "push_bit 6 ?u + (ucast z AND 0x3F) :: u32"
  let ?w = "push_bit 6 ?v + (ucast w AND 0x3F) :: u32"
  have u: "unat ?u = unat c div 64 div 64 + 240 * 64" by (rule shift_add_digit [OF _ _ four(4)]) (use four(2,3) in \<open>simp_all add: unat_u8\<close>)
  have l1: "unat c div 64 div 64 < 512" using less_of_div [OF four(2)] by simp
  have v: "unat ?v = unat c div 64 + 240 * 64 * 64" by (rule shift_add_digit [OF u _ four(5)]) (use l1 in simp)
  have l2: "unat c div 64 < 32768" using less_of_div [OF l1] by simp
  have "unat ?w = unat c + 240 * 64 * 64 * 64" by (rule shift_add_digit [OF v _ four(6)]) (use l2 in simp)
  then have w: "unat ?w = unat c + 30 * 2097152" by simp
  have "unat c < 2097152" using less_of_div [OF l2] by simp
  then have "unat (?w AND NOT (push_bit 18 ((((0xFFFFFF80 OR 0x40) OR 0x20) OR 0x10) OR 0x08))) = unat c"
    unfolding and_not_high w by (rule mod_strip_lead)
  then have "?w AND NOT (push_bit 18 ((((0xFFFFFF80 OR 0x40) OR 0x20) OR 0x10) OR 0x08)) = c" by (simp only: unsigned_word_eqI)
  moreover have "unat x div 64 = 3" "unat x div 32 = 7" "unat x div 16 = 15" "unat x div 8 = 30"
    unfolding four(3) by (rule lead_bits(6-9) [OF four(2)])+
  moreover have "x AND 0x80 \<noteq> 0" by (rule lead_high) (simp add: four(3))
  ultimately show ?thesis using four(1) by (simp add: utf32_at_internal_def at_loop_nums)
qed


section \<open>Surrogates\<close>

lemma sur_unat:
  "hi_sur a \<longleftrightarrow> 0xD800 \<le> unat a \<and> unat a < 0xDC00"
  "lo_sur a \<longleftrightarrow> 0xDC00 \<le> unat a \<and> unat a < 0xE000"
proof -
  have "unat a div 1024 < 64" using unat_u16 [of a] by (simp add: less_mult_imp_div_less)
  then have "unat (a AND 0xFC00) = 1024 * (unat a div 1024)"
    by (simp only: unsigned_and_eq) (simp add: and_field [of _ 10 6, simplified])
  then have h: "hi_sur a \<longleftrightarrow> unat a div 1024 = 54" and l: "lo_sur a \<longleftrightarrow> unat a div 1024 = 55"
    by (simp_all add: hi_sur_def lo_sur_def word_unat_eq_iff)
  note d = div_mult_mod_eq [of "unat a" 1024] mod_less_divisor [of 1024 "unat a"]
  show "hi_sur a \<longleftrightarrow> 0xD800 \<le> unat a \<and> unat a < 0xDC00" unfolding h using d by linarith
  show "lo_sur a \<longleftrightarrow> 0xDC00 \<le> unat a \<and> unat a < 0xE000" unfolding l using d by linarith
qed

lemma unat_u16_of: "unat (ucast (x :: u32) :: u16) = unat x mod 65536"
  by (simp add: unsigned_ucast_eq take_bit_eq_mod)

lemma unat_sub: "y \<le> unat (x :: u32) \<Longrightarrow> unat (x - of_nat y) = unat x - y"
proof -
  assume y: "y \<le> unat x"
  moreover have "unat x < 2 ^ 32" using unsigned_less [of x] by simp
  ultimately have "unat (of_nat y :: u32) = y" by (simp add: unat_of_nat)
  then show ?thesis using y by (simp add: unat_sub_if')
qed

text \<open>The units of a code point beyond the basic plane, as numbers, and back.\<close>

lemma cp_units_high:
  assumes "0x10000 \<le> unat c" and "unat c < 0x110000"
  shows "\<exists>a b. cp_units c = [a, b] \<and> unat a = (unat c - 0x10000) div 1024 + 0xD800 \<and> unat b = (unat c - 0x10000) mod 1024 + 0xDC00"
proof -
  let ?d = "c - 0x10000"
  have d: "unat ?d = unat c - 0x10000" using unat_sub [of "0x10000" c] assms(1) by simp
  have k: "(unat c - 0x10000) div 1024 < 1024" using assms(2) by (intro less_mult_imp_div_less) simp
  have m: "(unat c - 0x10000) mod 1024 < 1024" by simp
  have 1: "unat (drop_bit 10 ?d) = (unat c - 0x10000) div 1024" by (simp add: drop_bit_eq_div unat_div d)
  have 2: "unat (?d AND 0x3FF) = (unat c - 0x10000) mod 1024" by (simp only: unsigned_and_eq d) (simp add: and_1023)
  have "unat (drop_bit 10 ?d + 0xD800) = unat (drop_bit 10 ?d) + 0xD800" using 1 k by (subst unat_add_lem [THEN iffD1]) simp_all
  moreover have "unat ((?d AND 0x3FF) + 0xDC00) = unat (?d AND 0x3FF) + 0xDC00" using 2 m by (subst unat_add_lem [THEN iffD1]) simp_all
  moreover have "\<not> c \<le> 0xFFFF" using assms(1) by (simp add: word_le_nat_alt)
  moreover have "(x mod 1024 + 0xDC00) mod 65536 = x mod 1024 + 0xDC00" for x :: nat
    using mod_less_divisor [of 1024 x] by (intro mod_less) linarith
  ultimately show ?thesis using 1 2 k by (simp add: cp_units_def Let_def unat_u16_of)
qed

lemma unat_push_10: "unat (r :: u32) < 1024 \<Longrightarrow> unat (push_bit 10 r) = unat r * 1024"
  by (simp add: push_bit_eq_mult unat_word_ariths)

lemma sur_pair_unat:
  assumes "hi_sur a" and "lo_sur b"
  shows "unat (sur_pair a b) = (unat a - 0xD800) * 1024 + (unat b - 0xDC00) + 0x10000"
proof -
  let ?x = "unat a - 0xD800" and ?y = "unat b - 0xDC00"
  have x: "?x < 1024" "?y < 1024" using assms by (auto simp: sur_unat)
  have u: "unat (ucast a - 0xD800 :: u32) = ?x" "unat (ucast b - 0xDC00 :: u32) = ?y"
    using assms unat_sub [of "0xD800" "ucast a"] unat_sub [of "0xDC00" "ucast b"] by (auto simp: sur_unat unat_u16)
  have p: "unat (push_bit 10 (ucast a - 0xD800) :: u32) = ?x * 1024" using unat_push_10 [of "ucast a - 0xD800"] x(1) u(1) by (simp only:)
  have "?y OR ?x * 1024 = ?y + ?x * 1024" using or_low [of ?y 10 ?x] x by (simp add: mult.commute)
  then have o: "unat (push_bit 10 (ucast a - 0xD800) OR (ucast b - 0xDC00) :: u32) = ?x * 1024 + ?y"
    unfolding unsigned_or_eq p u by (simp add: or.commute)
  have "?x * 1024 + ?y < 1048576" using x by linarith
  then show ?thesis unfolding sur_pair_def using o by (subst unat_add_lem [THEN iffD1]) simp_all
qed

lemma cp_units_low: "unat c < 0x10000 \<Longrightarrow> cp_units c = [ucast c] \<and> ucast (ucast c :: u16) = c"
  using unat_u16(2) [of "ucast c"] by (auto simp: cp_units_def word_le_nat_alt unat_u16_of intro!: unsigned_word_eqI)


section \<open>Texts\<close>

definition utf16_of :: "u32 list \<Rightarrow> u16 list" where
  "utf16_of cs = concat (map cp_units cs)"

definition utf8_of :: "u32 list \<Rightarrow> u8 list" where
  "utf8_of cs = concat (map put_cp cs)"

lemma utf_of_simps [simp]:
  "utf16_of [] = []" "utf16_of (c # cs) = cp_units c @ utf16_of cs"
  "utf8_of [] = []" "utf8_of (c # cs) = put_cp c @ utf8_of cs"
  by (simp_all add: utf16_of_def utf8_of_def)

text \<open>A valid code point is one unit that is no surrogate, or a pair.\<close>

lemma cp_units_cases [consumes 1, case_names single pair]:
  assumes "cp_valid c"
    and "\<And>a. cp_units c = [a] \<Longrightarrow> ucast a = c \<Longrightarrow> \<not> hi_sur a \<Longrightarrow> unat c < 0x10000 \<Longrightarrow> P"
    and "\<And>a b. cp_units c = [a, b] \<Longrightarrow> hi_sur a \<Longrightarrow> lo_sur b \<Longrightarrow> sur_pair a b = c \<Longrightarrow> 0x10000 \<le> unat c \<Longrightarrow> P"
  shows P
proof (cases "unat c < 0x10000")
  case True
  from cp_units_low [OF this] have u: "cp_units c = [ucast c]" "ucast (ucast c :: u16) = c" by blast+
  have "unat (ucast c :: u16) = unat c" using True by (simp add: unat_u16_of)
  then have "\<not> hi_sur (ucast c)" using assms(1) by (auto simp: sur_unat cp_valid_unat)
  then show ?thesis using assms(2) u True by blast
next
  case False
  have n: "0x10000 \<le> unat c" "unat c < 0x110000" using False assms(1) by (auto simp: cp_valid_unat)
  obtain a b where ab: "cp_units c = [a, b]" "unat a = (unat c - 0x10000) div 1024 + 0xD800" "unat b = (unat c - 0x10000) mod 1024 + 0xDC00"
    using cp_units_high [OF n] by blast
  have k: "(unat c - 0x10000) div 1024 < 1024" "(unat c - 0x10000) mod 1024 < 1024" using n(2) by (auto intro: less_mult_imp_div_less)
  then have s: "hi_sur a" "lo_sur b" unfolding sur_unat ab by linarith+
  have "unat (sur_pair a b) = unat c"
    unfolding sur_pair_unat [OF s] ab using div_mult_mod_eq [of "unat c - 0x10000" 1024] n(1) by simp
  then have "sur_pair a b = c" by (simp only: unsigned_word_eqI)
  then show ?thesis using assms(3) ab(1) s n(1) by blast
qed

lemma u16to8_single: "\<not> hi_sur a \<Longrightarrow> u16to8_loop (a # s) = put_cp (ucast a) @ u16to8_loop s"
  by (cases s) auto

lemma u16to8_units: "(\<And>c. c \<in> set cs \<Longrightarrow> cp_valid c) \<Longrightarrow> u16to8_loop (utf16_of cs) = utf8_of cs"
proof (induction cs)
  case (Cons c cs)
  have IH: "u16to8_loop (utf16_of cs) = utf8_of cs" using Cons by simp
  have "cp_valid c" using Cons.prems by simp
  then show ?case by (cases rule: cp_units_cases) (auto simp: u16to8_single IH)
qed simp

lemma u16len_single: "\<not> hi_sur a \<Longrightarrow> u16len_loop (a # s) r = u16len_loop s (r + of_nat (utf32_codepoint_utf8_length (ucast a)))"
  by (cases s) auto

lemma u16len_units:
  "(\<And>c. c \<in> set cs \<Longrightarrow> cp_valid c) \<Longrightarrow> u16len_loop (utf16_of cs) r = r + of_nat (length (utf8_of cs))"
proof (induction cs arbitrary: r)
  case (Cons c cs)
  have IH: "u16len_loop (utf16_of cs) r = r + of_nat (length (utf8_of cs))" for r using Cons by simp
  have v: "cp_valid c" using Cons.prems by simp
  have "length (put_cp c) = 4" if "0x10000 \<le> unat c" using that v by (simp add: put_cp_length cp_length)
  moreover have "utf32_codepoint_utf8_length c = length (put_cp c)" using put_cp_length [OF v] by simp
  ultimately show ?case using v by (elim cp_units_cases) (auto simp: u16len_single IH)
qed simp

lemma u8to16_units:
  "(\<And>c. c \<in> set cs \<Longrightarrow> cp_valid c) \<Longrightarrow> utf8_to_utf16_no_null_terminator (utf8_of cs @ s) (int (length (utf8_of cs))) = Some (utf16_of cs)"
proof (induction cs)
  case Nil
  show ?case by (simp add: utf8_to_utf16_no_null_terminator.simps)
next
  case (Cons c cs)
  have v: "cp_valid c" using Cons.prems by simp
  obtain x xs where x: "put_cp c = x # xs" "utf8_codepoint_len x = length (put_cp c)"
      "utf8_to_utf32_codepoint (put_cp c @ utf8_of cs @ s) (length (put_cp c)) = Some c"
    using codepoint_put_cp [OF v] by blast
  have "utf8_to_utf16_no_null_terminator (utf8_of cs @ s) (int (length (utf8_of cs))) = Some (utf16_of cs)" using Cons by simp
  then show ?case using x by (subst utf8_to_utf16_no_null_terminator.simps) (simp add: Let_def)
qed

lemma u8to32_units:
  "(\<And>c. c \<in> set cs \<Longrightarrow> cp_valid c) \<Longrightarrow> u8to32_loop (utf8_of cs @ s) (int (length (utf8_of cs))) = Some cs"
proof (induction cs)
  case Nil
  show ?case by (simp add: u8to32_loop.simps)
next
  case (Cons c cs)
  have v: "cp_valid c" using Cons.prems by simp
  have "0 < length (put_cp c)" using codepoint_put_cp [OF v] by auto
  then have "\<not> int (length (put_cp c)) + int (length (utf8_of cs)) \<le> 0" by linarith
  then show ?case using Cons at_internal_put_cp [OF v, of "utf8_of cs @ s"] by (subst u8to32_loop.simps) simp
qed

lemma utf8_of_length: "(\<And>c. c \<in> set cs \<Longrightarrow> cp_valid c) \<Longrightarrow> length (utf8_of cs) = sum_list (map utf32_codepoint_utf8_length cs)"
  by (induction cs) (auto simp: put_cp_length)

lemma utf8_of_length_le: "length (utf8_of cs) \<le> 4 * length cs"
proof (induction cs)
  case (Cons c cs)
  have "length (put_bytes b n x) = n" for b n x by (induction b n x rule: put_bytes.induct) auto
  then have "length (put_cp c) \<le> 4" by (simp add: put_cp_def utf32_codepoint_to_utf8_def)
  then show ?case using Cons by simp
qed simp


text \<open>
  UTF-8 and UTF-32: for every text of valid code points utf32_to_utf8 writes the UTF-8 form and a zero, exactly one byte more than utf32_to_utf8_length
  says, and utf8_to_utf32 reads the same code points back.
\<close>

theorem utf32_utf8_roundtrip:
  assumes "\<And>c. c \<in> set cs \<Longrightarrow> cp_valid c" and "cs \<noteq> []" and "length cs < 2 ^ 29"
  shows "utf32_to_utf8_length (Some cs) = int (length (utf8_of cs)) \<and> utf32_to_utf8 (Some cs) True = utf8_of cs @ [0] \<and>
    utf8_to_utf32 (Some (utf8_of cs @ s)) (int (length (utf8_of cs))) True = Some (cs @ [0])"
proof -
  have "fold (\<lambda>c ret. ret + of_nat (utf32_codepoint_utf8_length c)) xs r = r + (of_nat (sum_list (map utf32_codepoint_utf8_length xs)) :: u32)" for xs r
    by (induction xs arbitrary: r) auto
  then have f: "fold (\<lambda>c ret. ret + of_nat (utf32_codepoint_utf8_length c)) cs (0 :: u32) = of_nat (length (utf8_of cs))"
    using utf8_of_length [of cs] assms(1) by simp
  have "length (utf8_of cs) < 2 ^ 31" using utf8_of_length_le [of cs] assms(3) by simp
  then have "sint (of_nat (length (utf8_of cs)) :: u32) = int (length (utf8_of cs))" by (rule sint_of_nat_small)
  moreover have "0 < length (utf8_of cs)" using assms(1,2) codepoint_put_cp [of "hd cs"] by (cases cs) auto
  moreover have "(\<lambda>c. utf32_codepoint_to_utf8 c (utf32_codepoint_utf8_length c)) = put_cp" by (simp add: fun_eq_iff put_cp_def)
  ultimately show ?thesis using assms f u8to32_units [of cs s]
    by (simp add: utf32_to_utf8_length_def utf32_to_utf8_def utf8_to_utf32_def utf8_of_def)
qed

theorem utf32_utf8_roundtrip_witness:
  "utf32_to_utf8 (Some [0x41, 0x20AC, 0x1F600]) True = utf8_of [0x41, 0x20AC, 0x1F600] @ [0] \<and>
    utf8_to_utf32 (Some (utf8_of [0x41, 0x20AC, 0x1F600])) (int (length (utf8_of [0x41, 0x20AC, 0x1F600]))) True = Some [0x41, 0x20AC, 0x1F600, 0]"
proof -
  have "cp_valid c" if "c \<in> set [0x41, 0x20AC, 0x1F600]" for c using that by (auto simp: cp_valid_unat)
  then show ?thesis using utf32_utf8_roundtrip [where cs = "[0x41, 0x20AC, 0x1F600]" and s = "[]"] by simp
qed

text \<open>
  C29: UTF-8 and UTF-16: for every text of valid code points utf16_to_utf8 turns its UTF-16 form into its UTF-8 form, which utf8_to_utf16 turns back, and
  utf16_to_utf8_length gives the number of bytes.
\<close>

theorem utf16_utf8_roundtrip:
  assumes "\<And>c. c \<in> set cs \<Longrightarrow> cp_valid c" and "cs \<noteq> []" and "length cs < 2 ^ 29"
  shows "utf16_to_utf8 (Some (utf16_of cs)) True = utf8_of cs @ [0] \<and>
    utf8_to_utf16 (utf8_of cs @ s) (int (length (utf8_of cs))) = Some (utf16_of cs @ [0]) \<and>
    utf16_to_utf8_length (Some (utf16_of cs)) = int (length (utf8_of cs))"
proof -
  have "utf16_of cs \<noteq> []" using assms(2) by (cases cs) (auto simp: cp_units_def Let_def)
  moreover have "length (utf8_of cs) < 2 ^ 31" using utf8_of_length_le [of cs] assms(3) by simp
  then have "sint (of_nat (length (utf8_of cs)) :: u32) = int (length (utf8_of cs))" by (rule sint_of_nat_small)
  ultimately show ?thesis using u16to8_units [OF assms(1)] u8to16_units [OF assms(1)] u16len_units [OF assms(1), of cs 0]
    by (simp add: utf16_to_utf8_def utf8_to_utf16_def utf16_to_utf8_length_def)
qed

theorem utf16_utf8_roundtrip_witness:
  "utf16_to_utf8 (Some (utf16_of [0x41, 0x1F600])) True = utf8_of [0x41, 0x1F600] @ [0] \<and>
    utf8_to_utf16 (utf8_of [0x41, 0x1F600]) (int (length (utf8_of [0x41, 0x1F600]))) = Some (utf16_of [0x41, 0x1F600] @ [0])"
proof -
  have "cp_valid c" if "c \<in> set [0x41, 0x1F600]" for c using that by (auto simp: cp_valid_unat)
  then show ?thesis using utf16_utf8_roundtrip [where cs = "[0x41, 0x1F600]" and s = "[]"] by simp
qed


text \<open>
  utf16_to_utf8_length skips a unit when a high surrogate is followed by something else than a low one: a text of a high surrogate, a second
  high surrogate and a low surrogate is measured as no bytes at all, while utf16_to_utf8 writes four bytes and a zero for it.
\<close>

theorem utf16_length_too_small:
  assumes "hi_sur a" and "hi_sur b" and "lo_sur c"
  shows "utf16_to_utf8_length (Some [a, b, c]) = 0 \<and> length (utf16_to_utf8 (Some [a, b, c]) True) = 5"
proof -
  have nb: "\<not> lo_sur b" using assms(2) by (auto simp: sur_unat)
  have z: "utf32_codepoint_utf8_length (ucast x) = 0" if "hi_sur x \<or> lo_sur x" for x :: u16
    using that unat_u16 [of x] by (auto simp: utf32_codepoint_utf8_length_def sur_unat word_less_nat_alt kUnicodeSurrogateStart_def kUnicodeSurrogateEnd_def)
  have s: "unat (sur_pair b c) \<ge> 0x10000" "unat (sur_pair b c) < 0x110000"
    using assms(2,3) unfolding sur_pair_unat [OF assms(2,3)] by (auto simp: sur_unat)
  then have v: "cp_valid (sur_pair b c)" by (simp add: cp_valid_unat)
  have "length (put_cp (sur_pair b c)) = 4" using s(1) put_cp_length [OF v] cp_length [OF v] by simp
  moreover have "put_cp (ucast a) = []" using z assms(1) by (simp add: put_cp_def utf32_codepoint_to_utf8_def)
  ultimately show ?thesis using assms nb z by (simp add: utf16_to_utf8_length_def utf16_to_utf8_def)
qed

theorem utf16_length_too_small_witness:
  "utf16_to_utf8_length (Some [0xD800, 0xD800, 0xDC00]) = 0 \<and> length (utf16_to_utf8 (Some [0xD800, 0xD800, 0xDC00]) True) = 5"
  by (rule utf16_length_too_small) (simp_all add: hi_sur_def lo_sur_def)

lemma u8to16_len_exact:
  "u8to16_len_loop u n (of_nat k) = Some L \<Longrightarrow> 0 \<le> L \<Longrightarrow> int k + 2 * n < 2 ^ 31 \<Longrightarrow>
   \<exists>us. utf8_to_utf16_no_null_terminator u n = Some us \<and> int k + int (length us) = L"
proof (induction "nat n" arbitrary: u n k rule: less_induct)
  case less
  show ?case
  proof (cases "n \<le> 0")
    case True
    have "k < 2 ^ 31" if "n = 0" using less.prems(3) that by simp
    then show ?thesis using less.prems True sint_of_nat_small [of k]
      by (auto simp: u8to16_len_loop.simps utf8_to_utf16_no_null_terminator.simps split: if_splits)
  next
    case False
    then obtain c cs where u: "u = c # cs" using less.prems(1) by (cases u) (auto simp: u8to16_len_loop.simps)
    let ?l = "utf8_codepoint_len c"
    obtain p where p: "utf8_to_utf32_codepoint u ?l = Some p"
      using less.prems(1) False u by (subst (asm) u8to16_len_loop.simps) (auto simp: Let_def split: option.splits)
    let ?k = "k + length (cp_units p)"
    have k: "(if p > 0xFFFF then of_nat k + 1 + 1 else of_nat k + 1) = (of_nat ?k :: u32)" by (auto simp: cp_units_def Let_def)
    have "length (cp_units p) \<le> 2" by (simp add: cp_units_def Let_def)
    then have lt: "int ?k + 2 * (n - int ?l) < 2 ^ 31" "nat (n - int ?l) < nat n"
      using utf8_codepoint_len_ge [of c] less.prems(3) False by auto
    have "u8to16_len_loop (drop ?l u) (n - int ?l) (of_nat ?k) = Some L"
      using less.prems(1) False u p k by (subst (asm) u8to16_len_loop.simps) (simp add: Let_def)
    from less.hyps [OF lt(2) this less.prems(2) lt(1)] obtain us where
        "utf8_to_utf16_no_null_terminator (drop ?l u) (n - int ?l) = Some us" "int ?k + int (length us) = L" by blast
    then show ?thesis using False u p by (subst utf8_to_utf16_no_null_terminator.simps) (simp add: Let_def)
  qed
qed

text \<open>
  utf8_to_utf16_length measures what is written: whenever it does not refuse the input, utf8_to_utf16_no_null_terminator returns on the same bytes and
  writes exactly that many units.
\<close>

theorem utf8_to_utf16_length_exact:
  assumes "utf8_to_utf16_length u n = Some L" and "0 \<le> L" and "n < 2 ^ 30"
  shows "\<exists>us. utf8_to_utf16_no_null_terminator u n = Some us \<and> int (length us) = L"
  using u8to16_len_exact [of u n 0 L] assms by (simp add: utf8_to_utf16_length_def)

theorem utf8_to_utf16_length_exact_witness:
  "\<exists>us. utf8_to_utf16_no_null_terminator [0xE2, 0x82, 0xAC] 3 = Some us \<and> int (length us) = 1"
proof (rule utf8_to_utf16_length_exact)
  show "utf8_to_utf16_length [0xE2, 0x82, 0xAC] 3 = Some 1" by code_simp
qed simp_all

text \<open>
  utf8_to_utf16_n with room for \<open>m\<close> units never writes more than \<open>m\<close> units, and the units before the pointer it returns are a prefix of what the
  conversion without a bound writes.
\<close>

theorem utf8_to_utf16_n_bounded:
  assumes "utf8_to_utf16_n u n m = Some (us, k)" and "utf8_to_utf16_no_null_terminator u n = Some full"
  shows "length us \<le> m \<and> k \<le> length us \<and> take k us = take k full \<and> k \<le> length full"
  using assms
proof (induction "nat n" arbitrary: u n m us k full rule: less_induct)
  case less
  show ?case
  proof (cases "n \<le> 0 \<or> m = 0")
    case True
    then show ?thesis using less.prems(1) by (auto simp: utf8_to_utf16_n.simps)
  next
    case False
    then obtain c cs where u: "u = c # cs" using less.prems(1) by (cases u) (auto simp: utf8_to_utf16_n.simps)
    let ?l = "utf8_codepoint_len c"
    obtain p where p: "utf8_to_utf32_codepoint u ?l = Some p"
      using less.prems(1) False u by (subst (asm) utf8_to_utf16_n.simps) (auto simp: Let_def split: option.splits)
    have l: "nat (n - int ?l) < nat n" using utf8_codepoint_len_ge [of c] False by auto
    obtain full' where f: "full = cp_units p @ full'" "utf8_to_utf16_no_null_terminator (drop ?l u) (n - int ?l) = Some full'"
      using less.prems(2) False u p by (subst (asm) utf8_to_utf16_no_null_terminator.simps) (auto simp: Let_def)
    show ?thesis
    proof (cases "p > 0xFFFF \<and> m = 1")
      case True
      then show ?thesis using less.prems(1) False u p by (subst (asm) utf8_to_utf16_n.simps) (auto simp: Let_def)
    next
      case no: False
      then have m: "length (cp_units p) \<le> m" using False by (auto simp: cp_units_def Let_def not_less)
      obtain us' k' where r: "utf8_to_utf16_n (drop ?l u) (n - int ?l) (m - length (cp_units p)) = Some (us', k')"
          "us = cp_units p @ us'" "k = length (cp_units p) + k'"
        using less.prems(1) False no u p by (subst (asm) utf8_to_utf16_n.simps) (auto simp: Let_def)
      from less.hyps [OF l r(1) f(2)] show ?thesis using r f m by auto
    qed
  qed
qed

theorem utf8_to_utf16_n_bounded_witness:
  "\<exists>us k. utf8_to_utf16_n [0x41, 0xF0, 0x9F, 0x98, 0x80] 5 2 = Some (us, k) \<and> length us \<le> 2"
proof -
  have "utf8_to_utf16_n [0x41, 0xF0, 0x9F, 0x98, 0x80] 5 2 = Some ([0x41, 0xD83D], 1)"
    "utf8_to_utf16_no_null_terminator [0x41, 0xF0, 0x9F, 0x98, 0x80] 5 = Some [0x41, 0xD83D, 0xDE00]" by code_simp+
  from utf8_to_utf16_n_bounded [OF this] this(1) show ?thesis by blast
qed

text \<open>\<open>strncpy16\<close> keeps the last unit in a \<open>char\<close>, so that it stops at any unit whose low byte is zero.\<close>

theorem strncpy16_stops_early:
  assumes "ucast c = (0 :: u8)"
  shows "strncpy16 (c # s) (Suc n) = Some [c, 0]"
  using assms by (simp add: strncpy16_def)

end
