(* ===== verification/Pe_Reltimer.thy ===== *)
theory Pe_Reltimer
  imports Bit_Fields
begin

text \<open>
  The relative timers: \<open>common/petimer.c\<close>, \<open>common/tsklet.c\<close> and \<open>common/pereltm.c\<close>. A wheel of 1024 buckets holds the running timers; a bucket has a list of
  the timers that are due at its next visit and a list of later ones, in which the field \<open>ticks_left\<close> of a timer counts the rounds after its predecessor.
  Calls of the user are deferred as tasklets to the timer thread. A linked list node is an element of a list of timer addresses, and the field
  \<open>tm_node\<close> of a timer names the bucket its node is in, \<open>None\<close> after \<open>list_init\<close>. An access to a timer that was freed, and linking a node twice,
  are \<open>None\<close>. The outcome of \<open>malloc\<close>, and what a callback asks for in its turn, are arguments. The results on them are in \<open>Pe_Wheel\<close>.
\<close>

unbundle bit_operations_syntax

section \<open>Data\<close>

definition TM_HASH_LEN :: u32 where
  "TM_HASH_LEN = 1024"

definition TM_HASH_MASK :: u32 where
  "TM_HASH_MASK = TM_HASH_LEN - 1"

definition TM_TMLEN_MASK :: u32 where
  "TM_TMLEN_MASK = NOT TM_HASH_MASK"

definition TM_HASH_FUNC :: "u32 \<Rightarrow> u32" where
  "TM_HASH_FUNC v = v AND TM_HASH_MASK"

definition MSEC_PER_TICK :: u32 where
  "MSEC_PER_TICK = 1000 div 100"

definition PETF_ONE_SHOOT :: u8 where
  "PETF_ONE_SHOOT = 1"

definition PETF_AUTO_FREE :: u8 where
  "PETF_AUTO_FREE = 2"

definition ENOMEM :: s32 where
  "ENOMEM = 12"

definition EINVAL :: s32 where
  "EINVAL = 22"

record tm_cb_t =
  tm_msec :: u32
  tm_timeout :: u32
  tm_arg :: u32
  tm_mode :: u8
  tm_sorted :: bool
  tm_node :: "nat option"

datatype tsklet =
    do_start_tm u32 u32 u32
  | do_stop_tm u32 u32 u32
  | do_free_tm u32
  | do_restart_tm u32

text \<open>\<open>calls\<close> is the sequence of the calls of user functions, with the timer for a timeout.\<close>

datatype ucall = Timeout u32 u32 u32 | Finallize u32 u32

record sync_block_t =
  tick_last :: u32
  zero_link :: "nat \<Rightarrow> u32 list"
  sorted_link :: "nat \<Rightarrow> (u32 \<times> u32) list"
  tms :: "u32 \<rightharpoonup> tm_cb_t"
  rel_tsklets :: "tsklet list"
  rel_inter_tsklets :: "tsklet list"
  calls :: "ucall list"

section \<open>Tasklets\<close>

definition tsklet_invokelater :: "bool \<Rightarrow> tsklet \<Rightarrow> tsklet list \<Rightarrow> s32 \<times> tsklet list" where
  "tsklet_invokelater mal task ts = (if \<not> mal then (ENOMEM, ts) else (0, ts @ [task]))"

fun tsklet_run :: "(tsklet \<Rightarrow> 's \<Rightarrow> 's run) \<Rightarrow> tsklet list \<Rightarrow> 's \<Rightarrow> 's run" where
  "tsklet_run f [] s = Some s"
| "tsklet_run f (x # xs) s = (case f x s of None \<Rightarrow> None | Some s1 \<Rightarrow> tsklet_run f xs s1)"

section \<open>The wheel\<close>

text \<open>
  The loop of \<open>_add2hash\<close> over the later timers of the bucket, with the insertion before the item where it stops.
\<close>

fun sorted_insert :: "u32 \<Rightarrow> u32 \<Rightarrow> (u32 \<times> u32) list \<Rightarrow> (u32 \<times> u32) list" where
  "sorted_insert t ticks_left [] = [(t, ticks_left)]"
| "sorted_insert t ticks_left ((x, xl) # xs) =
     (if ticks_left < xl then (t, ticks_left) # (x, xl - (ticks_left AND TM_TMLEN_MASK)) # xs
      else (x, xl) # sorted_insert t (ticks_left - (xl AND TM_TMLEN_MASK)) xs)"

definition ticks_of :: "u32 \<Rightarrow> u32" where
  "ticks_of msec = (let ttick = (msec + MSEC_PER_TICK div 2) div MSEC_PER_TICK in if ttick \<noteq> 0 then ttick else 1)"

definition add2hash :: "u32 \<Rightarrow> sync_block_t \<Rightarrow> sync_block_t run" where
  "add2hash t s =
     (case tms s t of None \<Rightarrow> None | Some c \<Rightarrow>
        if tm_node c \<noteq> None then None
        else let ttick = ticks_of (tm_msec c);
                 i = TM_HASH_FUNC (tick_last s + ttick);
                 ticks_left = i + ((ttick - 1) AND TM_TMLEN_MASK);
                 k = unat i in
          if ttick > TM_HASH_LEN
          then Some (s\<lparr>sorted_link := (sorted_link s)(k := sorted_insert t ticks_left (sorted_link s k)),
                       tms := (tms s)(t \<mapsto> c\<lparr>tm_sorted := True, tm_node := Some k\<rparr>)\<rparr>)
          else Some (s\<lparr>zero_link := (zero_link s)(k := zero_link s k @ [t]),
                       tms := (tms s)(t \<mapsto> c\<lparr>tm_sorted := False, tm_node := Some k\<rparr>)\<rparr>))"

text \<open>
  Unlinking a later timer gives its rounds to its successor. The test for the end of the list takes the bucket from the low bits of \<open>ticks_left\<close>; if it were
  another one, the list head would be taken for a timer.
\<close>

fun sorted_remove :: "u32 \<Rightarrow> nat \<Rightarrow> (u32 \<times> u32) list \<Rightarrow> (u32 \<times> u32) list run" where
  "sorted_remove t k [] = None"
| "sorted_remove t k ((x, xl) # xs) =
     (if x = t
      then (case xs of
              [] \<Rightarrow> if unat (TM_HASH_FUNC xl) = k then Some [] else None
            | (y, yl) # ys \<Rightarrow> Some ((y, yl + (xl AND TM_TMLEN_MASK)) # ys))
      else map_option ((#) (x, xl)) (sorted_remove t k xs))"

definition del_from_hash :: "u32 \<Rightarrow> sync_block_t \<Rightarrow> sync_block_t run" where
  "del_from_hash t s =
     (case tms s t of None \<Rightarrow> None | Some c \<Rightarrow>
        (case tm_node c of None \<Rightarrow> Some s | Some k \<Rightarrow>
           let tms1 = (tms s)(t \<mapsto> c\<lparr>tm_node := None\<rparr>) in
           if tm_sorted c
           then map_option (\<lambda>l. s\<lparr>sorted_link := (sorted_link s)(k := l), tms := tms1\<rparr>) (sorted_remove t k (sorted_link s k))
           else Some (s\<lparr>zero_link := (zero_link s)(k := filter (\<lambda>x. x \<noteq> t) (zero_link s k)), tms := tms1\<rparr>)))"

definition list_isinqueue :: "u32 \<Rightarrow> sync_block_t \<Rightarrow> bool run" where
  "list_isinqueue t s = map_option (\<lambda>c. tm_node c \<noteq> None) (tms s t)"

definition leave_hash :: "u32 \<Rightarrow> sync_block_t \<Rightarrow> sync_block_t run" where
  "leave_hash t s = do { q \<leftarrow> list_isinqueue t s; if q then del_from_hash t s else Some s }"

section \<open>The deferred calls\<close>

text \<open>\<open>_do_start_tm\<close>, \<open>_do_stop_tm\<close>, \<open>_do_free_tm\<close> and \<open>_do_restart_tm\<close>, with the request they get as its fields.\<close>

definition exec_start_tm :: "u32 \<Rightarrow> u32 \<Rightarrow> u32 \<Rightarrow> sync_block_t \<Rightarrow> sync_block_t run" where [simp]:
  "exec_start_tm t msec arg s = do {
     s1 \<leftarrow> leave_hash t s;
     c \<leftarrow> tms s1 t;
     add2hash t (s1\<lparr>tms := (tms s1)(t \<mapsto> c\<lparr>tm_msec := msec, tm_arg := arg\<rparr>)\<rparr>)
   }"

definition exec_stop_tm :: "u32 \<Rightarrow> u32 \<Rightarrow> u32 \<Rightarrow> sync_block_t \<Rightarrow> sync_block_t run" where [simp]:
  "exec_stop_tm t finallize arg s = do {
     s1 \<leftarrow> leave_hash t s;
     Some (if finallize \<noteq> 0 then s1\<lparr>calls := calls s1 @ [Finallize finallize arg]\<rparr> else s1)
   }"

definition exec_free_tm :: "u32 \<Rightarrow> sync_block_t \<Rightarrow> sync_block_t run" where [simp]:
  "exec_free_tm t s = do {
     s1 \<leftarrow> leave_hash t s;
     Some (s1\<lparr>tms := (tms s1)(t := None)\<rparr>)
   }"

definition exec_restart_tm :: "u32 \<Rightarrow> sync_block_t \<Rightarrow> sync_block_t run" where [simp]:
  "exec_restart_tm t s = add2hash t s"

primrec run_tsklet :: "tsklet \<Rightarrow> sync_block_t \<Rightarrow> sync_block_t run" where
  "run_tsklet (do_start_tm t msec arg) = exec_start_tm t msec arg"
| "run_tsklet (do_stop_tm t finallize arg) = exec_stop_tm t finallize arg"
| "run_tsklet (do_free_tm t) = exec_free_tm t"
| "run_tsklet (do_restart_tm t) = exec_restart_tm t"

section \<open>Calls of the user\<close>

text \<open>\<open>addr\<close> is the address of the new timer, 0 when \<open>malloc\<close> fails; the fields that are not set hold \<open>junk\<close>.\<close>

definition petimer_create_reltimer :: "u32 \<Rightarrow> u32 \<Rightarrow> bool \<Rightarrow> u32 \<Rightarrow> u32 \<Rightarrow> sync_block_t \<Rightarrow> u32 \<times> sync_block_t" where
  "petimer_create_reltimer addr junk junk_link timeout mode s =
     (if timeout = 0 then (0, s)
      else if addr = 0 then (0, s)
      else (addr, s\<lparr>tms := (tms s)(addr \<mapsto> \<lparr>tm_msec = junk, tm_timeout = timeout, tm_arg = junk, tm_mode = ucast mode,
        tm_sorted = junk_link, tm_node = None\<rparr>)\<rparr>))"

text \<open>\<open>mal1\<close> is the allocation of the request, \<open>mal2\<close> that of the tasklet.\<close>

definition petimer_start_reltimer :: "bool \<Rightarrow> bool \<Rightarrow> u32 \<Rightarrow> u32 \<Rightarrow> u32 \<Rightarrow> sync_block_t \<Rightarrow> s32 \<times> sync_block_t" where
  "petimer_start_reltimer mal1 mal2 t msec arg s =
     (if \<not> mal1 then (ENOMEM, s)
      else case tsklet_invokelater mal2 (do_start_tm t msec arg) (rel_tsklets s) of (ret, ts) \<Rightarrow> (ret, s\<lparr>rel_tsklets := ts\<rparr>))"

definition petimer_stop_reltimer_safe :: "bool \<Rightarrow> bool \<Rightarrow> u32 \<Rightarrow> u32 \<Rightarrow> u32 \<Rightarrow> sync_block_t \<Rightarrow> s32 \<times> sync_block_t" where
  "petimer_stop_reltimer_safe mal1 mal2 t finallize arg s =
     (if \<not> mal1 then (ENOMEM, s)
      else case tsklet_invokelater mal2 (do_stop_tm t finallize arg) (rel_tsklets s) of (ret, ts) \<Rightarrow> (ret, s\<lparr>rel_tsklets := ts\<rparr>))"

definition petimer_free_reltimer :: "bool \<Rightarrow> u32 \<Rightarrow> sync_block_t \<Rightarrow> s32 \<times> sync_block_t" where
  "petimer_free_reltimer mal t s =
     (case tsklet_invokelater mal (do_free_tm t) (rel_tsklets s) of (ret, ts) \<Rightarrow> (ret, s\<lparr>rel_tsklets := ts\<rparr>))"

definition petimer_start_reltimer_simple ::
    "u32 \<Rightarrow> u32 \<Rightarrow> bool \<Rightarrow> bool \<Rightarrow> bool \<Rightarrow> u32 \<Rightarrow> u32 \<Rightarrow> u32 \<Rightarrow> sync_block_t \<Rightarrow> s32 \<times> sync_block_t" where
  "petimer_start_reltimer_simple addr junk junk_link mal1 mal2 msec timeout arg s =
     (case petimer_create_reltimer addr junk junk_link timeout (ucast PETF_AUTO_FREE) s of (t, s1) \<Rightarrow>
        if t = 0 then (ENOMEM, s1) else petimer_start_reltimer mal1 mal2 t msec arg s1)"

text \<open>
  A call of the interface, by another thread or by a callback. A callback runs without the lock of the wheel; what it can do to the timers is a sequence of
  such calls.
\<close>

datatype request =
    Create u32 u32 bool u32 u32
  | Start bool bool u32 u32 u32
  | Stop bool bool u32 u32 u32
  | Free bool u32
  | Start_simple u32 u32 bool bool bool u32 u32 u32

fun run_request :: "request \<Rightarrow> sync_block_t \<Rightarrow> sync_block_t" where
  "run_request (Create addr junk junk_link timeout mode) s = snd (petimer_create_reltimer addr junk junk_link timeout mode s)"
| "run_request (Start mal1 mal2 t msec arg) s = snd (petimer_start_reltimer mal1 mal2 t msec arg s)"
| "run_request (Stop mal1 mal2 t finallize arg) s = snd (petimer_stop_reltimer_safe mal1 mal2 t finallize arg s)"
| "run_request (Free mal t) s = snd (petimer_free_reltimer mal t s)"
| "run_request (Start_simple addr junk junk_link mal1 mal2 msec timeout arg) s =
     snd (petimer_start_reltimer_simple addr junk junk_link mal1 mal2 msec timeout arg s)"

section \<open>The tick\<close>

type_synonym client = "sync_block_t \<Rightarrow> u32 \<Rightarrow> request list"

text \<open>\<open>cb\<close> gives the calls that the called function makes in its turn, and \<open>mok\<close> whether the tasklet for the restart can be allocated.\<close>

definition trigger_a_timer :: "client \<Rightarrow> (sync_block_t \<Rightarrow> u32 \<Rightarrow> bool) \<Rightarrow> u32 \<Rightarrow> sync_block_t \<Rightarrow> sync_block_t run" where
  "trigger_a_timer cb mok t s =
     (case tms s t of None \<Rightarrow> None | Some c \<Rightarrow>
        let s0 = s\<lparr>calls := calls s @ [Timeout t (tm_timeout c) (tm_arg c)]\<rparr>;
            s1 = fold run_request (cb s0 t) s0;
            s2 = s1\<lparr>zero_link := (\<lambda>k. filter (\<lambda>x. x \<noteq> t) (zero_link s1 k)),
                    sorted_link := (\<lambda>k. filter (\<lambda>x. fst x \<noteq> t) (sorted_link s1 k)),
                    tms := (tms s1)(t \<mapsto> c\<lparr>tm_node := None\<rparr>)\<rparr> in
        if tm_mode c AND PETF_AUTO_FREE \<noteq> 0 then Some (s2\<lparr>tms := (tms s2)(t := None)\<rparr>)
        else if tm_mode c AND PETF_ONE_SHOOT = 0
        then Some (s2\<lparr>rel_inter_tsklets := snd (tsklet_invokelater (mok s t) (do_restart_tm t) (rel_inter_tsklets s2))\<rparr>)
        else Some s2)"

fun zero_loop :: "client \<Rightarrow> (sync_block_t \<Rightarrow> u32 \<Rightarrow> bool) \<Rightarrow> u32 list \<Rightarrow> sync_block_t \<Rightarrow> sync_block_t run" where
  "zero_loop cb mok [] s = Some s"
| "zero_loop cb mok (t # ts) s = (case trigger_a_timer cb mok t s of None \<Rightarrow> None | Some s1 \<Rightarrow> zero_loop cb mok ts s1)"

text \<open>The loop over the later timers of the bucket \<open>k\<close>; the timer that is not due yet loses a round and ends it.\<close>

fun sorted_loop :: "client \<Rightarrow> (sync_block_t \<Rightarrow> u32 \<Rightarrow> bool) \<Rightarrow> nat \<Rightarrow> (u32 \<times> u32) list \<Rightarrow> sync_block_t \<Rightarrow> sync_block_t run" where
  "sorted_loop cb mok k [] s = Some s"
| "sorted_loop cb mok k ((t, xl) # xs) s =
     (if xl < TM_HASH_LEN
      then (case trigger_a_timer cb mok t s of None \<Rightarrow> None | Some s1 \<Rightarrow> sorted_loop cb mok k xs s1)
      else Some (s\<lparr>sorted_link := (sorted_link s)(k := map (\<lambda>(x, l). (x, if x = t then l - TM_HASH_LEN else l)) (sorted_link s k))\<rparr>))"

text \<open>The body of the loop of \<open>_reltm_trigger\<close>: the deferred calls, then the bucket of the tick.\<close>

definition tick_tsklets :: "sync_block_t \<Rightarrow> sync_block_t run" where
  "tick_tsklets s = do {
     s1 \<leftarrow> tsklet_run run_tsklet (rel_inter_tsklets s) (s\<lparr>rel_inter_tsklets := []\<rparr>);
     tsklet_run run_tsklet (rel_tsklets s1) (s1\<lparr>rel_tsklets := []\<rparr>)
   }"

definition tick_links :: "client \<Rightarrow> (sync_block_t \<Rightarrow> u32 \<Rightarrow> bool) \<Rightarrow> sync_block_t \<Rightarrow> sync_block_t run" where
  "tick_links cb mok s = do {
     let k = unat (TM_HASH_FUNC (tick_last s));
     s1 \<leftarrow> zero_loop cb mok (zero_link s k) s;
     s2 \<leftarrow> sorted_loop cb mok k (sorted_link s1 k) s1;
     Some (s2\<lparr>tick_last := tick_last s2 + 1\<rparr>)
   }"

definition reltm_tick :: "client \<Rightarrow> (sync_block_t \<Rightarrow> u32 \<Rightarrow> bool) \<Rightarrow> sync_block_t \<Rightarrow> sync_block_t run" where
  "reltm_tick cb mok s = Option.bind (tick_tsklets s) (tick_links cb mok)"

primrec reltm_trigger :: "client \<Rightarrow> (sync_block_t \<Rightarrow> u32 \<Rightarrow> bool) \<Rightarrow> nat \<Rightarrow> sync_block_t \<Rightarrow> sync_block_t run" where
  "reltm_trigger cb mok 0 s = Some s"
| "reltm_trigger cb mok (Suc escape) s = (case reltm_tick cb mok s of None \<Rightarrow> None | Some s1 \<Rightarrow> reltm_trigger cb mok escape s1)"

section \<open>Hooks\<close>

record 's petimer_hook_t =
  hook :: "'s \<Rightarrow> int \<Rightarrow> 's run"
  interval :: int
  escape :: int

definition petimer_register_tickhook ::
    "bool \<Rightarrow> ('s \<Rightarrow> int \<Rightarrow> 's run) option \<Rightarrow> int \<Rightarrow> 's petimer_hook_t list \<Rightarrow> s32 \<times> 's petimer_hook_t list" where
  "petimer_register_tickhook mal h tick hs =
     (case h of None \<Rightarrow> (EINVAL, hs) | Some f \<Rightarrow>
        if tick = 0 then (EINVAL, hs)
        else if \<not> mal then (ENOMEM, hs)
        else (0, \<lparr>hook = f, interval = tick, escape = 0\<rparr> # hs))"

fun trigger_timer :: "'s petimer_hook_t list \<Rightarrow> int \<Rightarrow> 's \<Rightarrow> ('s petimer_hook_t list \<times> 's) run" where
  "trigger_timer [] e s = Some ([], s)"
| "trigger_timer (h # hs) e s =
     (let h1 = h\<lparr>escape := escape h + e\<rparr> in
      case (if escape h1 \<ge> interval h1 then map_option (\<lambda>s1. (h1\<lparr>escape := 0\<rparr>, s1)) (hook h1 s (escape h1)) else Some (h1, s)) of
        None \<Rightarrow> None
      | Some (h2, s1) \<Rightarrow> map_option (\<lambda>(hs2, s2). (h2 # hs2, s2)) (trigger_timer hs e s1))"

text \<open>The first iterations of the thread: \<open>_trigger_timer\<close> after every sleep of a tick.\<close>

primrec petimer :: "nat \<Rightarrow> 's petimer_hook_t list \<times> 's \<Rightarrow> ('s petimer_hook_t list \<times> 's) run" where
  "petimer 0 st = Some st"
| "petimer (Suc n) st = Option.bind (trigger_timer (fst st) 1 (snd st)) (petimer n)"

text \<open>
  \<open>init_reltm\<close>; \<open>mh\<close> and \<open>mt\<close> are the allocations of the hook and of the wheel, \<open>t1\<close> and \<open>t2\<close> the results of the two \<open>pthread_mutex_init\<close>.
\<close>

definition init_reltm ::
    "client \<Rightarrow> (sync_block_t \<Rightarrow> u32 \<Rightarrow> bool) \<Rightarrow> bool \<Rightarrow> s32 \<Rightarrow> s32 \<Rightarrow> bool \<Rightarrow> sync_block_t petimer_hook_t list \<times> sync_block_t
      \<Rightarrow> s32 \<times> sync_block_t petimer_hook_t list \<times> sync_block_t" where
  "init_reltm cb mok mh t1 t2 mt st =
     (case petimer_register_tickhook mh (Some (\<lambda>s e. reltm_trigger cb mok (nat e) s)) 1 (fst st) of (ret, hs) \<Rightarrow>
        if ret \<noteq> 0 then (ret, hs, snd st)
        else let s1 = (snd st)\<lparr>rel_tsklets := []\<rparr> in
          if t1 \<noteq> 0 then (t1, hs, s1)
          else let s2 = s1\<lparr>rel_inter_tsklets := []\<rparr> in
            if t2 \<noteq> 0 then (t2, hs, s2)
            else let s3 = s2\<lparr>tick_last := 0\<rparr> in
              if \<not> mt then (ENOMEM, hs, s3)
              else (0, hs, s3\<lparr>zero_link := (\<lambda>_. []), sorted_link := (\<lambda>_. [])\<rparr>))"

text \<open>
  \<open>petimer_start\<close>. Its static variables are a record; \<open>blk\<close> is the block at \<open>s_sync_blk\<close>, and \<open>thr\<close> the result of \<open>pthread_create\<close>. The result has the
  value left in \<open>*sync\<close>.
\<close>

record petimer_static =
  init_flag :: bool
  s_sync_blk :: u32
  blk :: "(sync_block_t petimer_hook_t list \<times> sync_block_t) option"
  thread_runs :: bool

definition EBUSY :: s32 where
  "EBUSY = 16"

definition zero_sync_block :: sync_block_t where
  "zero_sync_block = \<lparr>tick_last = 0, zero_link = (\<lambda>_. []), sorted_link = (\<lambda>_. []), tms = Map.empty, rel_tsklets = [], rel_inter_tsklets = [], calls = []\<rparr>"

definition petimer_start ::
    "client \<Rightarrow> (sync_block_t \<Rightarrow> u32 \<Rightarrow> bool) \<Rightarrow> u32 \<Rightarrow> bool \<Rightarrow> s32 \<Rightarrow> s32 \<Rightarrow> bool \<Rightarrow> s32 \<Rightarrow> u32 \<Rightarrow> petimer_static
      \<Rightarrow> s32 \<times> u32 \<times> petimer_static" where
  "petimer_start cb mok addr mh t1 t2 mt thr sync st =
     (if sync \<noteq> 0 then (EBUSY, sync, st)
      else if \<not> init_flag st
      then if addr = 0 then (ENOMEM, sync, st)
        else (case init_reltm cb mok mh t1 t2 mt ([], zero_sync_block) of (ret, b) \<Rightarrow>
          if ret \<noteq> 0 then (ret, sync, st)
          else (thr, addr, st\<lparr>init_flag := True, s_sync_blk := addr, blk := Some b, thread_runs := thr = 0\<rparr>))
      else (0, s_sync_blk st, st))"

end
