(* ===== verification/Pe_Wheel.thy ===== *)
theory Pe_Wheel
  imports Pe_Reltimer
begin

text \<open>
  Results on the relative timers. The wheel is an implementation of a table of countdowns: \<open>remaining\<close> reads from the buckets in how many ticks a timer is
  called. Adding and removing a timer changes its own countdown only, and a tick calls the timers at zero and counts the others down.
\<close>

unbundle bit_operations_syntax

section \<open>Rounds\<close>

lemma hash_unat: "unat (TM_HASH_FUNC v) = unat v mod 1024"
proof -
  have "unat (1023 :: u32) = 1023" by code_simp
  then show ?thesis by (simp add: TM_HASH_FUNC_def TM_HASH_MASK_def TM_HASH_LEN_def unsigned_and_eq and_1023)
qed

definition rd :: "u32 \<Rightarrow> nat" where
  "rd v = unat v div 1024"

lemma rd_less: "rd v < 2 ^ 22"
proof -
  have "unat v < 2 ^ 22 * 1024" using unsigned_less [of v] by simp
  then show ?thesis unfolding rd_def by (rule less_mult_imp_div_less)
qed

lemma len_unat: "unat (v AND TM_TMLEN_MASK) = 1024 * rd v"
proof -
  have "TM_TMLEN_MASK = 0xFFFFFC00" by code_simp
  then have w: "TM_TMLEN_MASK = of_nat 4294966272" by simp
  have m: "unat TM_TMLEN_MASK = 2 ^ 10 * (2 ^ 22 - 1)" unfolding w by (subst unat_of_nat_u32) simp_all
  show ?thesis using rd_less [of v] by (simp only: unsigned_and_eq m and_field) (simp add: rd_def)
qed

lemma unat_split: "unat v = 1024 * rd v + unat v mod 1024"
  by (simp add: rd_def)

lemma rd_eqI: "unat v = 1024 * r + k \<Longrightarrow> k < 1024 \<Longrightarrow> rd v = r \<and> unat v mod 1024 = k"
  by (simp add: rd_def)

lemma less_rounds: "unat v mod 1024 = unat w mod 1024 \<Longrightarrow> v < w \<longleftrightarrow> rd v < rd w"
  unfolding word_less_nat_alt using unat_split [of v] unat_split [of w] by linarith

lemma sub_rounds:
  assumes "rd w \<le> rd v"
  shows "rd (v - (w AND TM_TMLEN_MASK)) = rd v - rd w" "unat (v - (w AND TM_TMLEN_MASK)) mod 1024 = unat v mod 1024"
proof -
  have le: "w AND TM_TMLEN_MASK \<le> v" unfolding word_le_nat_alt len_unat using assms unat_split [of v] by linarith
  have "unat (v - (w AND TM_TMLEN_MASK)) = unat v - 1024 * rd w" using unat_sub [OF le] by (simp add: len_unat)
  also have "\<dots> = 1024 * (rd v - rd w) + unat v mod 1024" using unat_split [of v] assms by (simp add: right_diff_distrib')
  finally show "rd (v - (w AND TM_TMLEN_MASK)) = rd v - rd w" "unat (v - (w AND TM_TMLEN_MASK)) mod 1024 = unat v mod 1024"
    using rd_eqI [of "v - (w AND TM_TMLEN_MASK)" "rd v - rd w" "unat v mod 1024"] by simp_all
qed

lemma add_rounds:
  assumes "rd w + rd v < 2 ^ 22"
  shows "rd (v + (w AND TM_TMLEN_MASK)) = rd v + rd w" "unat (v + (w AND TM_TMLEN_MASK)) mod 1024 = unat v mod 1024"
proof -
  have "unat v mod 1024 < 1024" by simp
  then have "unat v + unat (w AND TM_TMLEN_MASK) < 2 ^ 32" unfolding len_unat using unat_split [of v] assms by simp
  then have "unat (v + (w AND TM_TMLEN_MASK)) = 1024 * (rd v + rd w) + unat v mod 1024"
    using unat_split [of v] by (simp add: unat_word_ariths len_unat)
  then show "rd (v + (w AND TM_TMLEN_MASK)) = rd v + rd w" "unat (v + (w AND TM_TMLEN_MASK)) mod 1024 = unat v mod 1024"
    using rd_eqI [of "v + (w AND TM_TMLEN_MASK)" "rd v + rd w" "unat v mod 1024"] by simp_all
qed

lemma LEN_rounds: "v < TM_HASH_LEN \<longleftrightarrow> rd v = 0" "rd TM_HASH_LEN = 1" "TM_HASH_LEN AND TM_TMLEN_MASK = TM_HASH_LEN"
proof -
  have l: "unat TM_HASH_LEN = 1024" by code_simp
  show "v < TM_HASH_LEN \<longleftrightarrow> rd v = 0" unfolding word_less_nat_alt l by (simp add: rd_def div_eq_0_iff)
  show "rd TM_HASH_LEN = 1" by (simp add: rd_def l)
  show "TM_HASH_LEN AND TM_TMLEN_MASK = TM_HASH_LEN" by code_simp
qed

section \<open>The later timers of a bucket\<close>

text \<open>For every timer, the number of visits of the bucket before the one in which it is due.\<close>

fun due_rounds :: "nat \<Rightarrow> (u32 \<times> u32) list \<Rightarrow> (u32 \<times> nat) list" where
  "due_rounds a [] = []"
| "due_rounds a ((t, xl) # xs) = (t, a + rd xl) # due_rounds (a + rd xl) xs"

fun rins :: "u32 \<Rightarrow> nat \<Rightarrow> (u32 \<times> nat) list \<Rightarrow> (u32 \<times> nat) list" where
  "rins t r [] = [(t, r)]"
| "rins t r ((x, q) # xs) = (if r < q then (t, r) # (x, q) # xs else (x, q) # rins t r xs)"

definition same_low :: "nat \<Rightarrow> (u32 \<times> u32) list \<Rightarrow> bool" where
  "same_low k l = (\<forall>p \<in> set l. unat (snd p) mod 1024 = k)"

lemma same_low_simps [simp]: "same_low k []" "same_low k ((t, xl) # xs) \<longleftrightarrow> unat xl mod 1024 = k \<and> same_low k xs"
  by (simp_all add: same_low_def)

lemma due_rounds_fst: "map fst (due_rounds a l) = map fst l"
  by (induction a l rule: due_rounds.induct) simp_all

lemma due_rounds_fst_set: "fst ` set (due_rounds a l) = fst ` set l"
  by (metis due_rounds_fst set_map)

lemma due_rounds_ge: "p \<in> set (due_rounds a l) \<Longrightarrow> a \<le> snd p"
  by (induction a l rule: due_rounds.induct) (auto dest: le_trans [OF le_add1])

lemma due_rounds_sorted: "sorted (map snd (due_rounds a l))"
  by (induction a l rule: due_rounds.induct) (auto dest: due_rounds_ge)

lemma set_rins: "set (rins t r l) = insert (t, r) (set l)"
  by (induction t r l rule: rins.induct) auto

lemma fst_rins: "t \<notin> fst ` set l \<Longrightarrow> distinct (map fst l) \<Longrightarrow> distinct (map fst (rins t r l))"
  by (induction t r l rule: rins.induct) (auto simp: set_rins)

lemma map_of_rins: "t \<notin> fst ` set l \<Longrightarrow> map_of (rins t r l) = (map_of l)(t \<mapsto> r)"
  by (induction t r l rule: rins.induct) (auto simp: fun_eq_iff)

lemma due_insert:
  "same_low k l \<Longrightarrow> unat v mod 1024 = k \<Longrightarrow>
   due_rounds a (sorted_insert t v l) = rins t (a + rd v) (due_rounds a l) \<and> same_low k (sorted_insert t v l)"
proof (induction t v l arbitrary: a rule: sorted_insert.induct)
  case (2 t v x xl xs)
  have low: "unat v mod 1024 = unat xl mod 1024" using 2 by simp
  show ?case
  proof (cases "v < xl")
    case True
    then have "rd v \<le> rd xl" using less_rounds [OF low] by simp
    then show ?thesis using True less_rounds [OF low] 2 sub_rounds [of v xl] by simp
  next
    case False
    then have le: "rd xl \<le> rd v" using less_rounds [OF low] by simp
    show ?thesis using False less_rounds [OF low] 2 sub_rounds [OF le] le by simp
  qed
qed simp

lemma due_remove:
  "same_low k l \<Longrightarrow> distinct (map fst l) \<Longrightarrow> t \<in> fst ` set l \<Longrightarrow> \<forall>p \<in> set (due_rounds a l). snd p < 2 ^ 20 \<Longrightarrow>
   \<exists>l'. sorted_remove t k l = Some l' \<and> due_rounds a l' = filter (\<lambda>p. fst p \<noteq> t) (due_rounds a l) \<and> same_low k l'"
proof (induction t k l arbitrary: a rule: sorted_remove.induct)
  case (2 t k x xl xs)
  show ?case
  proof (cases "x = t")
    case True
    have nt: "filter (\<lambda>p. fst p \<noteq> t) (due_rounds b xs) = due_rounds b xs" for b
      using 2(3) True due_rounds_fst [of b xs] by (auto simp: filter_id_conv) (metis image_eqI fst_conv set_map)
    show ?thesis
    proof (cases xs)
      case Nil
      then show ?thesis using True 2 by (simp add: hash_unat)
    next
      case (Cons y ys)
      obtain y' yl where y: "y = (y', yl)" by (cases y)
      have "rd xl + rd yl < 2 ^ 22" using 2(5) Cons y by simp
      then show ?thesis using True 2 Cons y nt [of "a + rd xl"] add_rounds [of xl yl] by (simp add: add.assoc add.commute [of "rd yl"])
    qed
  next
    case False
    then obtain l' where "sorted_remove t k xs = Some l'" "due_rounds (a + rd xl) l' = filter (\<lambda>p. fst p \<noteq> t) (due_rounds (a + rd xl) xs)" "same_low k l'"
      using 2(1) [of "a + rd xl"] 2(2-5) by auto
    then show ?thesis using False 2 by simp
  qed
qed simp

section \<open>The wheel as a table of countdowns\<close>

definition place :: "sync_block_t \<Rightarrow> u32 \<Rightarrow> (bool \<times> nat) option" where
  "place s t = (case tms s t of None \<Rightarrow> None | Some c \<Rightarrow> map_option (Pair (tm_sorted c)) (tm_node c))"

definition dist :: "u32 \<Rightarrow> nat \<Rightarrow> nat" where
  "dist now k = (k + (1024 - unat now mod 1024)) mod 1024"

definition remaining :: "sync_block_t \<Rightarrow> u32 \<Rightarrow> nat option" where
  "remaining s t = (case place s t of None \<Rightarrow> None | Some (b, k) \<Rightarrow>
     Some (dist (tick_last s) k + 1024 * (if b then the (map_of (due_rounds 0 (sorted_link s k)) t) else 0)))"

definition bucket_ok :: "nat \<Rightarrow> (u32 \<times> u32) list \<Rightarrow> bool" where
  "bucket_ok k l = (same_low k l \<and> distinct (map fst l) \<and> (\<forall>p \<in> set (due_rounds 0 l). snd p < 2 ^ 20))"

text \<open>A timer is in the list its fields name and in no other, once; a bucket's later timers are within the 22 bits of their rounds.\<close>

definition wheel :: "sync_block_t \<Rightarrow> bool" where
  "wheel s =
     ((\<forall>k t. t \<in> set (zero_link s k) \<longleftrightarrow> place s t = Some (False, k)) \<and>
      (\<forall>k t. t \<in> fst ` set (sorted_link s k) \<longleftrightarrow> place s t = Some (True, k)) \<and>
      (\<forall>k. distinct (zero_link s k)) \<and>
      (\<forall>k. bucket_ok k (sorted_link s k)) \<and>
      (\<forall>t b k. place s t = Some (b, k) \<longrightarrow> k < 1024))"

definition frame :: "sync_block_t \<Rightarrow> sync_block_t \<Rightarrow> bool" where
  "frame s s' = (tick_last s' = tick_last s \<and> rel_tsklets s' = rel_tsklets s \<and> rel_inter_tsklets s' = rel_inter_tsklets s \<and> calls s' = calls s)"

lemma wheelD:
  assumes "wheel s"
  shows "t \<in> set (zero_link s k) \<longleftrightarrow> place s t = Some (False, k)" "t \<in> fst ` set (sorted_link s k) \<longleftrightarrow> place s t = Some (True, k)"
    "distinct (zero_link s k)" "bucket_ok k (sorted_link s k)" "place s t = Some (b, k) \<Longrightarrow> k < 1024"
  using assms unfolding wheel_def by blast+

lemma wheelI:
  assumes "\<And>k t. t \<in> set (zero_link s k) \<longleftrightarrow> place s t = Some (False, k)" "\<And>k t. t \<in> fst ` set (sorted_link s k) \<longleftrightarrow> place s t = Some (True, k)"
    "\<And>k. distinct (zero_link s k)" "\<And>k. bucket_ok k (sorted_link s k)" "\<And>t b k. place s t = Some (b, k) \<Longrightarrow> k < 1024"
  shows "wheel s"
  using assms unfolding wheel_def by blast

lemma wheel_cong:
  "zero_link s' = zero_link s \<Longrightarrow> sorted_link s' = sorted_link s \<Longrightarrow> place s' = place s \<Longrightarrow> wheel s' = wheel s"
  by (simp add: wheel_def)

lemma remaining_cong:
  "tick_last s' = tick_last s \<Longrightarrow> sorted_link s' = sorted_link s \<Longrightarrow> place s' = place s \<Longrightarrow> remaining s' = remaining s"
  by (rule ext) (simp add: remaining_def split: option.split)

definition delay :: "nat \<Rightarrow> nat" where
  "delay ttick = ttick mod 1024 + 1024 * ((ttick - 1) div 1024)"

lemma ticks_of_unat: "0 < unat (ticks_of m)" "unat (ticks_of m) < 2 ^ 29"
proof -
  have c: "unat (10 :: u32) = 10" by code_simp
  have "unat (m + 5) < 2 ^ 29 * 10" using unsigned_less [of "m + 5", where 'a = nat] by simp
  then have "unat ((m + 5) div 10) < 2 ^ 29" unfolding unat_div c by (rule less_mult_imp_div_less)
  then show "unat (ticks_of m) < 2 ^ 29" by (simp add: ticks_of_def MSEC_PER_TICK_def Let_def)
  show "0 < unat (ticks_of m)" by (simp add: ticks_of_def MSEC_PER_TICK_def Let_def unat_gt_0)
qed

lemma unat_add_mod: "unat (v + w :: u32) mod 1024 = (unat v mod 1024 + unat w mod 1024) mod 1024"
proof -
  have "(unat v + unat w) mod 2 ^ 32 mod 1024 = (unat v + unat w) mod 1024" by (rule mod_mod_cancel) simp
  then show ?thesis by (simp add: unat_word_ariths mod_add_eq)
qed

lemma dist_add: "dist now (unat (TM_HASH_FUNC (now + v))) = unat v mod 1024"
proof -
  have "(n + m) mod 1024 + (1024 - n) = (if n + m < 1024 then 1024 + m else m)" if "n < 1024" "m < 1024" for n m :: nat
    using that by (auto simp: mod_if)
  then show ?thesis by (simp add: dist_def hash_unat unat_add_mod)
qed

lemma dist_0: "k < 1024 \<Longrightarrow> dist now k = 0 \<longleftrightarrow> k = unat (TM_HASH_FUNC now)"
proof -
  have "(k + (1024 - n)) mod 1024 = 0 \<longleftrightarrow> k = n" if "n < 1024" "k < 1024" for n :: nat
    using that by (auto simp: mod_if)
  then show "k < 1024 \<Longrightarrow> dist now k = 0 \<longleftrightarrow> k = unat (TM_HASH_FUNC now)" by (simp add: dist_def hash_unat)
qed

lemma dist_Suc: "k < 1024 \<Longrightarrow> dist (now + 1) k = (if dist now k = 0 then 1023 else dist now k - 1)"
proof -
  have "(k + (1024 - (n + 1) mod 1024)) mod 1024 = (if (k + (1024 - n)) mod 1024 = 0 then 1023 else (k + (1024 - n)) mod 1024 - 1)"
    if "n < 1024" "k < 1024" for n :: nat
    using that by (auto simp: mod_if)
  then show "k < 1024 \<Longrightarrow> dist (now + 1) k = (if dist now k = 0 then 1023 else dist now k - 1)"
    using unat_add_mod [of now 1] by (simp add: dist_def)
qed

section \<open>Adding and removing\<close>

lemma place_upd: "place (s\<lparr>tms := (tms s)(t \<mapsto> c)\<rparr>) = (place s)(t := map_option (Pair (tm_sorted c)) (tm_node c))"
  by (rule ext) (simp add: place_def)

lemma bucket_insert:
  assumes "bucket_ok k l" "unat v mod 1024 = k" "t \<notin> fst ` set l" "rd v < 2 ^ 20"
  shows "bucket_ok k (sorted_insert t v l)" "fst ` set (sorted_insert t v l) = insert t (fst ` set l)"
    "map_of (due_rounds 0 (sorted_insert t v l)) = (map_of (due_rounds 0 l))(t \<mapsto> rd v)"
proof -
  have d: "due_rounds 0 (sorted_insert t v l) = rins t (rd v) (due_rounds 0 l)" "same_low k (sorted_insert t v l)"
    using due_insert [of k l v 0 t] assms by (auto simp: bucket_ok_def)
  note f = due_rounds_fst_set [of 0]
  have nt: "t \<notin> fst ` set (due_rounds 0 l)" using assms(3) f by simp
  show "fst ` set (sorted_insert t v l) = insert t (fst ` set l)" using f [of "sorted_insert t v l"] f [of l] by (simp add: d set_rins)
  show "map_of (due_rounds 0 (sorted_insert t v l)) = (map_of (due_rounds 0 l))(t \<mapsto> rd v)" by (simp add: d map_of_rins nt)
  have "distinct (map fst (due_rounds 0 (sorted_insert t v l)))"
    unfolding d using nt assms(1) by (intro fst_rins) (simp_all add: bucket_ok_def due_rounds_fst)
  then have "distinct (map fst (sorted_insert t v l))" unfolding due_rounds_fst .
  then show "bucket_ok k (sorted_insert t v l)" using d assms by (auto simp: bucket_ok_def set_rins)
qed

lemma add_rounds_low:
  assumes "ttick = ticks_of m" "i = TM_HASH_FUNC (now + ttick)" "v = i + ((ttick - 1) AND TM_TMLEN_MASK)"
  shows "rd v = (unat ttick - 1) div 1024" "unat v mod 1024 = unat i" "rd v < 2 ^ 20" "unat i < 1024"
proof -
  have i: "unat i < 1024" unfolding assms hash_unat by simp
  then have r0: "rd i = 0" by (simp add: rd_def)
  have "1 \<le> ttick" using ticks_of_unat(1) [of m] assms(1) by (simp add: word_le_nat_alt Suc_le_eq)
  then have u: "unat (ttick - 1) = unat ttick - 1" by (simp add: unat_sub)
  then have r: "rd (ttick - 1) = (unat ttick - 1) div 1024" by (simp add: rd_def)
  have b: "rd (ttick - 1) < 2 ^ 20" unfolding r using ticks_of_unat(2) [of m] assms(1) by (intro less_mult_imp_div_less) simp
  then show "rd v = (unat ttick - 1) div 1024" "unat v mod 1024 = unat i" "rd v < 2 ^ 20" "unat i < 1024"
    using add_rounds [of "ttick - 1" i] r0 r i by (simp_all add: assms(3))
qed

lemma add2hash_ok:
  assumes w: "wheel s" and c: "tms s t = Some c" "tm_node c = None"
  shows "\<exists>s' b k. add2hash t s = Some s' \<and> wheel s' \<and> remaining s' = (remaining s)(t \<mapsto> delay (unat (ticks_of (tm_msec c)))) \<and> frame s s' \<and>
     tms s' = (tms s)(t \<mapsto> c\<lparr>tm_sorted := b, tm_node := Some k\<rparr>)"
proof -
  define ttick i where "ttick = ticks_of (tm_msec c)" and "i = TM_HASH_FUNC (tick_last s + ttick)"
  define v where "v = i + ((ttick - 1) AND TM_TMLEN_MASK)"
  note low = add_rounds_low [OF ttick_def i_def v_def]
  have d: "dist (tick_last s) (unat i) = unat ttick mod 1024" unfolding i_def by (rule dist_add)
  have pn: "place s t = None" using c by (simp add: place_def)
  have nt: "t \<notin> fst ` set (sorted_link s k)" "t \<notin> set (zero_link s k)" for k using wheelD [OF w] pn by auto
  show ?thesis
  proof (cases "ttick > TM_HASH_LEN")
    case True
    define s' where "s' = s\<lparr>sorted_link := (sorted_link s)(unat i := sorted_insert t v (sorted_link s (unat i))),
      tms := (tms s)(t \<mapsto> c\<lparr>tm_sorted := True, tm_node := Some (unat i)\<rparr>)\<rparr>"
    have s': "add2hash t s = Some s'" using True c by (simp add: add2hash_def Let_def s'_def ttick_def i_def v_def)
    note b = bucket_insert [OF wheelD(4) [OF w] low(2) nt(1) low(3)]
    have pl: "place s' = (place s)(t \<mapsto> (True, unat i))" by (rule ext) (simp add: place_def s'_def)
    have sl: "zero_link s' = zero_link s" "sorted_link s' = (sorted_link s)(unat i := sorted_insert t v (sorted_link s (unat i)))" "tick_last s' = tick_last s"
      by (simp_all add: s'_def)
    have "wheel s'"
      by (rule wheelI) (use wheelD [OF w] b pn low(4) in \<open>auto simp: pl sl split: if_splits\<close>)
    moreover have "remaining s' = (remaining s)(t \<mapsto> delay (unat ttick))"
      by (rule ext) (use b(3) d low(1) nt in \<open>auto simp: remaining_def pl delay_def sl split: option.split\<close>)
    ultimately show ?thesis using s' by (auto simp: frame_def s'_def ttick_def)
  next
    case False
    define s' where "s' = s\<lparr>zero_link := (zero_link s)(unat i := zero_link s (unat i) @ [t]),
      tms := (tms s)(t \<mapsto> c\<lparr>tm_sorted := False, tm_node := Some (unat i)\<rparr>)\<rparr>"
    have s': "add2hash t s = Some s'" using False c by (simp add: add2hash_def Let_def s'_def ttick_def i_def)
    have pl: "place s' = (place s)(t \<mapsto> (False, unat i))" by (rule ext) (simp add: place_def s'_def)
    have sl: "zero_link s' = (zero_link s)(unat i := zero_link s (unat i) @ [t])" "sorted_link s' = sorted_link s" "tick_last s' = tick_last s"
      by (simp_all add: s'_def)
    have "wheel s'"
      by (rule wheelI) (use wheelD [OF w] pn nt low(4) in \<open>auto simp: pl sl split: if_splits\<close>)
    moreover have "(unat ttick - 1) div 1024 = 0" using False by (simp add: word_less_nat_alt TM_HASH_LEN_def not_less)
    then have "remaining s' = (remaining s)(t \<mapsto> delay (unat ttick))"
      by (intro ext) (use d in \<open>auto simp: remaining_def pl delay_def sl split: option.split\<close>)
    ultimately show ?thesis using s' by (auto simp: frame_def s'_def ttick_def)
  qed
qed

lemma map_of_filter_fst: "map_of (filter (\<lambda>p. fst p \<noteq> t) xs) = (map_of xs)(t := None)"
  by (induction xs) (auto simp: fun_eq_iff)

lemma bucket_filtered:
  assumes "bucket_ok k l" "due_rounds 0 l' = filter (\<lambda>p. fst p \<noteq> t) (due_rounds 0 l)" "same_low k l'"
  shows "bucket_ok k l' \<and> fst ` set l' = fst ` set l - {t} \<and> map_of (due_rounds 0 l') = (map_of (due_rounds 0 l))(t := None)"
proof -
  note f = due_rounds_fst_set [of 0]
  have "fst ` set l' = fst ` set (due_rounds 0 l) - {t}" unfolding f [of l', symmetric] assms(2) by auto
  then have "fst ` set l' = fst ` set l - {t}" unfolding f .
  moreover have "distinct (map fst (due_rounds 0 l'))" unfolding assms(2) using assms(1) by (simp add: bucket_ok_def due_rounds_fst distinct_map_filter)
  then have "distinct (map fst l')" unfolding due_rounds_fst .
  ultimately show ?thesis using assms by (auto simp: bucket_ok_def map_of_filter_fst)
qed

lemma unplaced_wheel:
  assumes w: "wheel s" and p: "place s t = Some (b, k)"
    and z: "zero_link s' = (\<lambda>j. filter (\<lambda>x. x \<noteq> t) (zero_link s j))"
    and l: "\<And>j. j \<noteq> k \<or> \<not> b \<Longrightarrow> sorted_link s' j = sorted_link s j"
    and lk: "b \<Longrightarrow> bucket_ok k (sorted_link s' k) \<and> fst ` set (sorted_link s' k) = fst ` set (sorted_link s k) - {t} \<and>
      map_of (due_rounds 0 (sorted_link s' k)) = (map_of (due_rounds 0 (sorted_link s k)))(t := None)"
    and pl: "place s' = (place s)(t := None)" and tl: "tick_last s' = tick_last s"
  shows "wheel s'" "remaining s' = (remaining s)(t := None)"
proof -
  have f: "fst ` set (sorted_link s' j) = fst ` set (sorted_link s j) - {t}" "bucket_ok j (sorted_link s' j)" for j
    using l [of j] lk wheelD(2) [OF w, of t j] wheelD(4) [OF w, of j] p by (cases "j = k \<and> b"; auto)+
  show "wheel s'"
    by (rule wheelI) (use wheelD [OF w] f in \<open>auto simp: z pl split: if_splits\<close>)
  have "remaining s' x = remaining s x" if "x \<noteq> t" for x
  proof (cases "place s x")
    case (Some q)
    then show ?thesis using that l [of "snd q"] lk by (cases "snd q = k \<and> b") (auto simp: remaining_def pl tl split: prod.split)
  qed (simp add: remaining_def pl that)
  then show "remaining s' = (remaining s)(t := None)" by (auto simp: fun_eq_iff remaining_def pl)
qed

lemma leave_hash_ok:
  assumes w: "wheel s" and c: "tms s t = Some c"
  shows "\<exists>s'. leave_hash t s = Some s' \<and> wheel s' \<and> remaining s' = (remaining s)(t := None) \<and> frame s s' \<and> tms s' = (tms s)(t \<mapsto> c\<lparr>tm_node := None\<rparr>)"
proof (cases "tm_node c")
  case None
  then have "remaining s t = None" using c by (simp add: remaining_def place_def)
  then have "remaining s = (remaining s)(t := None)" by (simp add: fun_upd_idem)
  moreover have "tms s = (tms s)(t \<mapsto> c\<lparr>tm_node := None\<rparr>)" using None c by (simp add: fun_upd_idem)
  ultimately show ?thesis using None c w by (simp add: leave_hash_def list_isinqueue_def frame_def)
next
  case (Some k)
  have p: "place s t = Some (tm_sorted c, k)" using c Some by (simp add: place_def)
  define tms1 where "tms1 = (tms s)(t \<mapsto> c\<lparr>tm_node := None\<rparr>)"
  have eq: "leave_hash t s = (if tm_sorted c
           then map_option (\<lambda>l. s\<lparr>sorted_link := (sorted_link s)(k := l), tms := tms1\<rparr>) (sorted_remove t k (sorted_link s k))
           else Some (s\<lparr>zero_link := (zero_link s)(k := filter (\<lambda>x. x \<noteq> t) (zero_link s k)), tms := tms1\<rparr>))"
    using c Some by (simp add: leave_hash_def list_isinqueue_def del_from_hash_def tms1_def Let_def)
  have zero: "(\<lambda>j. filter (\<lambda>x. x \<noteq> t) (zero_link s j)) = (if tm_sorted c then zero_link s else (zero_link s)(k := filter (\<lambda>x. x \<noteq> t) (zero_link s k)))"
    using wheelD(1) [OF w, of t] p by (auto simp: fun_eq_iff filter_id_conv)
  show ?thesis
  proof (cases "tm_sorted c")
    case True
    have "t \<in> fst ` set (sorted_link s k)" using wheelD(2) [OF w] p True by simp
    then obtain l' where l': "sorted_remove t k (sorted_link s k) = Some l'"
      "due_rounds 0 l' = filter (\<lambda>q. fst q \<noteq> t) (due_rounds 0 (sorted_link s k))" "same_low k l'"
      using due_remove [of k "sorted_link s k" t 0] wheelD(4) [OF w, of k] unfolding bucket_ok_def by blast
    define s' where "s' = s\<lparr>sorted_link := (sorted_link s)(k := l'), tms := tms1\<rparr>"
    have sl: "zero_link s' = (\<lambda>j. filter (\<lambda>x. x \<noteq> t) (zero_link s j))" "sorted_link s' = (sorted_link s)(k := l')" "tick_last s' = tick_last s"
      unfolding zero using True by (simp_all add: s'_def)
    have pl: "place s' = (place s)(t := None)" by (rule ext) (simp add: place_def s'_def tms1_def)
    have "wheel s' \<and> remaining s' = (remaining s)(t := None)"
      using unplaced_wheel [OF w p sl(1) _ _ pl sl(3)] bucket_filtered [OF wheelD(4) [OF w] l'(2,3)] True unfolding sl(2) by simp
    then show ?thesis using eq True l' by (simp add: s'_def frame_def tms1_def)
  next
    case False
    define s' where "s' = s\<lparr>zero_link := (zero_link s)(k := filter (\<lambda>x. x \<noteq> t) (zero_link s k)), tms := tms1\<rparr>"
    have sl: "zero_link s' = (\<lambda>j. filter (\<lambda>x. x \<noteq> t) (zero_link s j))" "sorted_link s' = sorted_link s" "tick_last s' = tick_last s"
      unfolding zero using False by (simp_all add: s'_def)
    have pl: "place s' = (place s)(t := None)" by (rule ext) (simp add: place_def s'_def tms1_def)
    have "wheel s' \<and> remaining s' = (remaining s)(t := None)"
      using unplaced_wheel [OF w p sl(1) _ _ pl sl(3)] False unfolding sl(2) by simp
    then show ?thesis using eq False by (simp add: s'_def frame_def tms1_def)
  qed
qed

section \<open>Deferred calls\<close>

primrec tsklet_timer :: "tsklet \<Rightarrow> u32" where
  "tsklet_timer (do_start_tm t msec arg) = t"
| "tsklet_timer (do_stop_tm t finallize arg) = t"
| "tsklet_timer (do_free_tm t) = t"
| "tsklet_timer (do_restart_tm t) = t"

text \<open>What a deferred call does to the table of countdowns; \<open>ms\<close> has the periods of the timers.\<close>

primrec count_tsklet :: "(u32 \<Rightarrow> u32) \<Rightarrow> tsklet \<Rightarrow> (u32 \<rightharpoonup> nat) \<Rightarrow> (u32 \<rightharpoonup> nat)" where
  "count_tsklet ms (do_start_tm t msec arg) m = m(t \<mapsto> delay (unat (ticks_of msec)))"
| "count_tsklet ms (do_stop_tm t finallize arg) m = m(t := None)"
| "count_tsklet ms (do_free_tm t) m = m(t := None)"
| "count_tsklet ms (do_restart_tm t) m = m(t \<mapsto> delay (unat (ticks_of (ms t))))"

definition msec_of :: "sync_block_t \<Rightarrow> u32 \<Rightarrow> u32" where
  "msec_of s t = (case tms s t of None \<Rightarrow> 0 | Some c \<Rightarrow> tm_msec c)"

definition table_after :: "sync_block_t \<Rightarrow> (u32 \<rightharpoonup> nat)" where
  "table_after s = fold (count_tsklet (msec_of s)) (rel_inter_tsklets s @ rel_tsklets s) (remaining s)"

primrec is_timeout :: "u32 \<Rightarrow> ucall \<Rightarrow> bool" where
  "is_timeout t (Timeout x f arg) = (x = t)"
| "is_timeout t (Finallize f arg) = False"

definition fired :: "u32 \<Rightarrow> sync_block_t \<Rightarrow> nat" where
  "fired t s = length (filter (is_timeout t) (calls s))"

definition quiet :: "sync_block_t \<Rightarrow> sync_block_t \<Rightarrow> bool" where
  "quiet s s' = (tick_last s' = tick_last s \<and> rel_tsklets s' = rel_tsklets s \<and> rel_inter_tsklets s' = rel_inter_tsklets s \<and> (\<forall>t. fired t s' = fired t s))"

text \<open>A timer is not used after the call that frees it.\<close>

fun tsks_ok :: "u32 set \<Rightarrow> tsklet list \<Rightarrow> bool" where
  "tsks_ok L [] = True"
| "tsks_ok L (do_start_tm t msec arg # xs) = (t \<in> L \<and> tsks_ok L xs)"
| "tsks_ok L (do_stop_tm t finallize arg # xs) = (t \<in> L \<and> tsks_ok L xs)"
| "tsks_ok L (do_free_tm t # xs) = (t \<in> L \<and> tsks_ok (L - {t}) xs)"
| "tsks_ok L (do_restart_tm t # xs) = False"

definition inter_ok :: "sync_block_t \<Rightarrow> bool" where
  "inter_ok s = (\<exists>ts. rel_inter_tsklets s = map do_restart_tm ts \<and> distinct ts \<and> (\<forall>t \<in> set ts. t \<in> dom (tms s) \<and> place s t = None))"

lemma quiet_trans: "quiet s s1 \<Longrightarrow> quiet s1 s2 \<Longrightarrow> quiet s s2"
  by (simp add: quiet_def)

lemma frame_quiet: "frame s s' \<Longrightarrow> quiet s s'"
  by (simp add: frame_def quiet_def fired_def)

lemma place_tms: "tms s' = tms s \<Longrightarrow> place s' = place s"
  by (simp add: place_def fun_eq_iff)

lemma place_None: "remaining s t = None \<longleftrightarrow> place s t = None"
  by (auto simp: remaining_def split: option.splits)

lemma start_ok:
  assumes "wheel s" "t \<in> dom (tms s)"
  shows "\<exists>s'. run_tsklet (do_start_tm t msec arg) s = Some s' \<and> wheel s' \<and> remaining s' = (remaining s)(t \<mapsto> delay (unat (ticks_of msec))) \<and>
    dom (tms s') = dom (tms s) \<and> quiet s s'"
proof -
  obtain c where c: "tms s t = Some c" using assms(2) by auto
  obtain s1 where s1: "leave_hash t s = Some s1" "wheel s1" "remaining s1 = (remaining s)(t := None)" "frame s s1"
    "tms s1 = (tms s)(t \<mapsto> c\<lparr>tm_node := None\<rparr>)"
    using leave_hash_ok [OF assms(1) c] by blast
  let ?s2 = "s1\<lparr>tms := (tms s1)(t \<mapsto> c\<lparr>tm_node := None, tm_msec := msec, tm_arg := arg\<rparr>)\<rparr>"
  have pl: "place ?s2 = place s1" by (rule ext) (simp add: place_def s1(5))
  have "wheel ?s2" "remaining ?s2 = remaining s1" using s1(2) wheel_cong [of ?s2 s1] remaining_cong [of ?s2 s1] pl by simp_all
  moreover obtain s' b k where s': "add2hash t ?s2 = Some s'" "wheel s'" "remaining s' = (remaining ?s2)(t \<mapsto> delay (unat (ticks_of msec)))" "frame ?s2 s'"
    "tms s' = (tms ?s2)(t \<mapsto> c\<lparr>tm_node := None, tm_msec := msec, tm_arg := arg\<rparr>\<lparr>tm_sorted := b, tm_node := Some k\<rparr>)"
    using add2hash_ok [OF \<open>wheel ?s2\<close>, of t "c\<lparr>tm_node := None, tm_msec := msec, tm_arg := arg\<rparr>"] by auto
  ultimately show ?thesis using s1 c assms(2) by (auto simp: quiet_def frame_def fired_def)
qed

lemma stop_ok:
  assumes "wheel s" "t \<in> dom (tms s)"
  shows "\<exists>s'. run_tsklet (do_stop_tm t finallize arg) s = Some s' \<and> wheel s' \<and> remaining s' = (remaining s)(t := None) \<and>
    dom (tms s') = dom (tms s) \<and> quiet s s'"
proof -
  obtain c where c: "tms s t = Some c" using assms(2) by auto
  obtain s1 where s1: "leave_hash t s = Some s1" "wheel s1" "remaining s1 = (remaining s)(t := None)" "frame s s1"
    "tms s1 = (tms s)(t \<mapsto> c\<lparr>tm_node := None\<rparr>)"
    using leave_hash_ok [OF assms(1) c] by blast
  let ?s2 = "s1\<lparr>calls := calls s1 @ [Finallize finallize arg]\<rparr>"
  have "wheel ?s2" "remaining ?s2 = remaining s1" using s1(2) wheel_cong [of ?s2 s1] remaining_cong [of ?s2 s1] place_tms [of ?s2 s1] by simp_all
  then show ?thesis using s1 c by (auto simp: quiet_def frame_def fired_def)
qed

lemma free_ok:
  assumes "wheel s" "t \<in> dom (tms s)"
  shows "\<exists>s'. run_tsklet (do_free_tm t) s = Some s' \<and> wheel s' \<and> remaining s' = (remaining s)(t := None) \<and>
    dom (tms s') = dom (tms s) - {t} \<and> quiet s s'"
proof -
  obtain c where c: "tms s t = Some c" using assms(2) by auto
  obtain s1 where s1: "leave_hash t s = Some s1" "wheel s1" "remaining s1 = (remaining s)(t := None)" "frame s s1"
    "tms s1 = (tms s)(t \<mapsto> c\<lparr>tm_node := None\<rparr>)"
    using leave_hash_ok [OF assms(1) c] by blast
  let ?s2 = "s1\<lparr>tms := (tms s1)(t := None)\<rparr>"
  have pl: "place ?s2 = place s1" by (rule ext) (simp add: place_def s1(5))
  have "wheel ?s2" "remaining ?s2 = remaining s1" using s1(2) wheel_cong [of ?s2 s1] remaining_cong [of ?s2 s1] pl by simp_all
  then show ?thesis using s1 c by (auto simp: quiet_def frame_def fired_def split: if_splits)
qed

lemma rel_run_ok:
  "wheel s \<Longrightarrow> tsks_ok (dom (tms s)) xs \<Longrightarrow>
   \<exists>s'. tsklet_run run_tsklet xs s = Some s' \<and> wheel s' \<and> remaining s' = fold (count_tsklet ms) xs (remaining s) \<and> quiet s s'"
proof (induction xs arbitrary: s)
  case (Cons x xs)
  have "\<exists>s1. run_tsklet x s = Some s1 \<and> wheel s1 \<and> remaining s1 = count_tsklet ms x (remaining s) \<and> quiet s s1 \<and> tsks_ok (dom (tms s1)) xs"
  proof (cases x)
    case (do_start_tm t m arg)
    then show ?thesis using start_ok [OF Cons.prems(1), of t m arg] Cons.prems(2) by auto
  next
    case (do_stop_tm t f arg)
    then show ?thesis using stop_ok [OF Cons.prems(1), of t f arg] Cons.prems(2) by auto
  next
    case (do_free_tm t)
    then show ?thesis using free_ok [OF Cons.prems(1), of t] Cons.prems(2) by auto
  qed (use Cons.prems(2) in simp)
  then obtain s1 where "run_tsklet x s = Some s1" "wheel s1" "remaining s1 = count_tsklet ms x (remaining s)" "quiet s s1" "tsks_ok (dom (tms s1)) xs" by blast
  then show ?case using Cons.IH [of s1] quiet_trans [of s s1] by fastforce
qed (simp add: quiet_def)

lemma inter_run_ok:
  "wheel s \<Longrightarrow> distinct ts \<Longrightarrow> \<forall>t \<in> set ts. t \<in> dom (tms s) \<and> place s t = None \<Longrightarrow> \<forall>t \<in> set ts. msec_of s t = ms t \<Longrightarrow>
   \<exists>s'. tsklet_run run_tsklet (map do_restart_tm ts) s = Some s' \<and> wheel s' \<and> remaining s' = fold (count_tsklet ms) (map do_restart_tm ts) (remaining s) \<and>
     quiet s s' \<and> dom (tms s') = dom (tms s)"
proof (induction ts arbitrary: s)
  case (Cons t ts)
  obtain c where c: "tms s t = Some c" "tm_node c = None" using Cons.prems(3) by (auto simp: place_def)
  obtain s1 b k where s1: "add2hash t s = Some s1" "wheel s1" "remaining s1 = (remaining s)(t \<mapsto> delay (unat (ticks_of (tm_msec c))))" "frame s s1"
    "tms s1 = (tms s)(t \<mapsto> c\<lparr>tm_sorted := b, tm_node := Some k\<rparr>)"
    using add2hash_ok [OF Cons.prems(1) c] by blast
  have "\<forall>x \<in> set ts. x \<in> dom (tms s1) \<and> place s1 x = None" "\<forall>x \<in> set ts. msec_of s1 x = ms x"
    using Cons.prems(2-4) by (auto simp: s1(5) place_def msec_of_def)
  then obtain s' where s': "tsklet_run run_tsklet (map do_restart_tm ts) s1 = Some s'" "wheel s'"
      "remaining s' = fold (count_tsklet ms) (map do_restart_tm ts) (remaining s1)" "quiet s1 s'" "dom (tms s') = dom (tms s1)"
    using Cons.IH [OF s1(2)] Cons.prems(2) by auto
  moreover have "ms t = tm_msec c" using Cons.prems(4) c by (simp add: msec_of_def)
  moreover have "dom (tms s1) = dom (tms s)" using c by (auto simp: s1(5))
  ultimately show ?case using s1 quiet_trans [OF frame_quiet [OF s1(4)]] by simp
qed (simp add: quiet_def)

lemma wheel_selectors [simp]:
  "wheel (s\<lparr>rel_tsklets := x\<rparr>) = wheel s" "wheel (s\<lparr>rel_inter_tsklets := x\<rparr>) = wheel s" "wheel (s\<lparr>tick_last := n\<rparr>) = wheel s"
  "remaining (s\<lparr>rel_tsklets := x\<rparr>) = remaining s" "remaining (s\<lparr>rel_inter_tsklets := x\<rparr>) = remaining s"
  "place (s\<lparr>rel_tsklets := x\<rparr>) = place s" "place (s\<lparr>rel_inter_tsklets := x\<rparr>) = place s" "place (s\<lparr>tick_last := n\<rparr>) = place s"
  by (intro wheel_cong remaining_cong place_tms; simp add: place_tms)+

lemma tick_tsklets_ok:
  assumes "wheel s" "inter_ok s" "tsks_ok (dom (tms s)) (rel_tsklets s)"
  shows "\<exists>s'. tick_tsklets s = Some s' \<and> wheel s' \<and> remaining s' = table_after s \<and> tick_last s' = tick_last s \<and>
    rel_tsklets s' = [] \<and> rel_inter_tsklets s' = [] \<and> (\<forall>t. fired t s' = fired t s)"
proof -
  obtain ts where ts: "rel_inter_tsklets s = map do_restart_tm ts" "distinct ts" "\<forall>t \<in> set ts. t \<in> dom (tms s) \<and> place s t = None"
    using assms(2) by (auto simp: inter_ok_def)
  let ?s0 = "s\<lparr>rel_inter_tsklets := []\<rparr>"
  obtain s1 where s1: "tsklet_run run_tsklet (map do_restart_tm ts) ?s0 = Some s1" "wheel s1"
     "remaining s1 = fold (count_tsklet (msec_of s)) (map do_restart_tm ts) (remaining s)" "quiet ?s0 s1" "dom (tms s1) = dom (tms s)"
    using inter_run_ok [of ?s0 ts "msec_of s"] assms(1) ts(2,3) by (auto simp: msec_of_def)
  have rel: "rel_tsklets s1 = rel_tsklets s" using s1(4) by (simp add: quiet_def)
  let ?s1 = "s1\<lparr>rel_tsklets := []\<rparr>"
  obtain s2 where "tsklet_run run_tsklet (rel_tsklets s) ?s1 = Some s2" "wheel s2"
     "remaining s2 = fold (count_tsklet (msec_of s)) (rel_tsklets s) (remaining s1)" "quiet ?s1 s2"
    using rel_run_ok [of ?s1 "rel_tsklets s" "msec_of s"] s1(2,5) assms(3) by auto
  then show ?thesis using s1 rel ts(1) by (simp add: tick_tsklets_def table_after_def quiet_def fired_def)
qed

section \<open>The clients\<close>

text \<open>The timers that stay allocated: those that do not free themselves, and those that have not been started.\<close>

definition kept :: "sync_block_t \<Rightarrow> u32 set" where
  "kept s = {t. \<exists>c. tms s t = Some c \<and> (tm_mode c AND PETF_AUTO_FREE = 0 \<or> tm_node c = None)}"

definition pending_ok :: "sync_block_t \<Rightarrow> bool" where
  "pending_ok s = tsks_ok (kept s) (rel_tsklets s)"

primrec fresh_req :: "request \<Rightarrow> sync_block_t \<Rightarrow> bool" where
  "fresh_req (Create addr junk junk_link timeout mode) s = (addr \<notin> dom (tms s))"
| "fresh_req (Start mal1 mal2 t msec arg) s = True"
| "fresh_req (Stop mal1 mal2 t finallize arg) s = True"
| "fresh_req (Free mal t) s = True"
| "fresh_req (Start_simple addr junk junk_link mal1 mal2 msec timeout arg) s = (addr \<notin> dom (tms s))"

fun fresh_reqs :: "request list \<Rightarrow> sync_block_t \<Rightarrow> bool" where
  "fresh_reqs [] s = True"
| "fresh_reqs (r # rs) s = (fresh_req r s \<and> fresh_reqs rs (run_request r s))"

text \<open>\<open>malloc\<close> gives unused memory, and the callbacks use no timer that is or will be freed.\<close>

definition client_ok :: "client \<Rightarrow> bool" where
  "client_ok cb = (\<forall>s t. fresh_reqs (cb s t) s \<and> (pending_ok s \<longrightarrow> pending_ok (fold run_request (cb s t) s)))"

definition good :: "sync_block_t \<Rightarrow> bool" where
  "good s = (wheel s \<and> inter_ok s \<and> pending_ok s)"

definition only_adds :: "sync_block_t \<Rightarrow> sync_block_t \<Rightarrow> bool" where
  "only_adds s s' = (zero_link s' = zero_link s \<and> sorted_link s' = sorted_link s \<and> tick_last s' = tick_last s \<and> calls s' = calls s \<and>
     rel_inter_tsklets s' = rel_inter_tsklets s \<and> place s' = place s \<and> (\<forall>t c. tms s t = Some c \<longrightarrow> tms s' t = Some c))"

lemma request_only_adds: "fresh_req r s \<Longrightarrow> only_adds s (run_request r s)"
  by (cases r) (auto simp: only_adds_def petimer_create_reltimer_def petimer_start_reltimer_def petimer_stop_reltimer_safe_def petimer_free_reltimer_def
    petimer_start_reltimer_simple_def tsklet_invokelater_def place_def fun_eq_iff dom_def)

lemma requests_only_add: "fresh_reqs rs s \<Longrightarrow> only_adds s (fold run_request rs s)"
proof (induction rs arbitrary: s)
  case (Cons r rs)
  then show ?case using request_only_adds [of r s] by (force simp: only_adds_def)
qed (simp add: only_adds_def)

lemma tsks_ok_mono: "tsks_ok L xs \<Longrightarrow> L \<subseteq> M \<Longrightarrow> tsks_ok M xs"
  by (induction L xs arbitrary: M rule: tsks_ok.induct) (auto, blast)

section \<open>Calling a timer\<close>

lemma gap_le_due: "p \<in> set l \<Longrightarrow> \<exists>r. (fst p, r) \<in> set (due_rounds a l) \<and> rd (snd p) \<le> r"
  by (induction a l rule: due_rounds.induct) auto

lemma due_filter:
  "\<forall>p \<in> set l. fst p = t \<longrightarrow> rd (snd p) = 0 \<Longrightarrow> due_rounds a (filter (\<lambda>p. fst p \<noteq> t) l) = filter (\<lambda>p. fst p \<noteq> t) (due_rounds a l)"
  by (induction a l rule: due_rounds.induct) auto

lemma due_zero_gap:
  assumes "bucket_ok k l" "map_of (due_rounds 0 l) t = Some 0"
  shows "\<forall>p \<in> set l. fst p = t \<longrightarrow> rd (snd p) = 0"
proof (intro ballI impI)
  fix p assume p: "p \<in> set l" "fst p = t"
  obtain r where r: "(t, r) \<in> set (due_rounds 0 l)" "rd (snd p) \<le> r" using gap_le_due [OF p(1), of 0] p(2) by auto
  have "map_of (due_rounds 0 l) t = Some r"
    using r(1) assms(1) by (intro map_of_is_SomeI) (simp_all add: bucket_ok_def due_rounds_fst)
  then show "rd (snd p) = 0" using r assms(2) by simp
qed

lemma due_zero_head:
  "distinct (map fst l) \<Longrightarrow> map_of (due_rounds 0 l) t = Some 0 \<longleftrightarrow> t \<in> fst ` set (takeWhile (\<lambda>p. snd p < TM_HASH_LEN) l)"
proof (induction l)
  case (Cons p l)
  obtain x xl where p: "p = (x, xl)" by (cases p)
  show ?case
  proof (cases "rd xl = 0")
    case True
    then show ?thesis using Cons by (auto simp: p LEN_rounds)
  next
    case False
    then have "map_of (due_rounds (rd xl) l) t \<noteq> Some 0" by (auto dest!: map_of_SomeD due_rounds_ge)
    then show ?thesis using False by (simp add: p LEN_rounds)
  qed
qed simp

lemma remaining_zero:
  assumes "wheel s"
  shows "remaining s t = Some 0 \<longleftrightarrow> (let k = unat (TM_HASH_FUNC (tick_last s)) in
    place s t = Some (False, k) \<or> place s t = Some (True, k) \<and> map_of (due_rounds 0 (sorted_link s k)) t = Some 0)"
proof (cases "place s t")
  case (Some q)
  obtain b k where q: "place s t = Some (b, k)" using Some by (cases q) simp
  have "\<exists>r. map_of (due_rounds 0 (sorted_link s k)) t = Some r" if b
  proof -
    have "t \<in> fst ` set (due_rounds 0 (sorted_link s k))"
      using wheelD(2) [OF assms, of t k] q that by (simp add: due_rounds_fst_set)
    then have "map_of (due_rounds 0 (sorted_link s k)) t \<noteq> None" unfolding map_of_eq_None_iff by simp
    then show ?thesis by (rule not_None_eq [THEN iffD1])
  qed
  moreover have "k < 1024" using wheelD(5) [OF assms q] .
  ultimately show ?thesis using dist_0 [of k "tick_last s"] q by (auto simp: remaining_def Let_def)
qed (simp add: remaining_def Let_def)

definition call_of :: "sync_block_t \<Rightarrow> u32 \<Rightarrow> ucall" where
  "call_of s t = (case tms s t of None \<Rightarrow> Timeout t 0 0 | Some c \<Rightarrow> Timeout t (tm_timeout c) (tm_arg c))"

text \<open>A timer that is called leaves its list, with all that is known of the others unchanged.\<close>

definition called :: "u32 \<Rightarrow> sync_block_t \<Rightarrow> sync_block_t \<Rightarrow> bool" where
  "called t s s' = (good s' \<and> remaining s' = (remaining s)(t := None) \<and> tick_last s' = tick_last s \<and>
     sorted_link s' = (\<lambda>j. filter (\<lambda>p. fst p \<noteq> t) (sorted_link s j)) \<and> calls s' = calls s @ [call_of s t] \<and>
     (\<forall>x c. x \<noteq> t \<longrightarrow> tms s x = Some c \<longrightarrow> tms s' x = Some c))"

lemma unlinked_wheel:
  assumes w: "wheel s" and r: "remaining s t = Some 0"
    and s': "zero_link s' = (\<lambda>j. filter (\<lambda>x. x \<noteq> t) (zero_link s j))" "sorted_link s' = (\<lambda>j. filter (\<lambda>p. fst p \<noteq> t) (sorted_link s j))"
      "place s' = (place s)(t := None)" "tick_last s' = tick_last s"
  shows "wheel s' \<and> remaining s' = (remaining s)(t := None)"
proof -
  obtain b k where p: "place s t = Some (b, k)" using r by (auto simp: remaining_def split: option.splits)
  have other: "sorted_link s' j = sorted_link s j" if "j \<noteq> k \<or> \<not> b" for j
    using wheelD(2) [OF w, of t j] that p by (auto simp: s'(2) filter_id_conv)
  have "due_rounds 0 (sorted_link s' k) = filter (\<lambda>p. fst p \<noteq> t) (due_rounds 0 (sorted_link s k))" if b
    using due_filter [OF due_zero_gap [OF wheelD(4) [OF w, of k]], of t 0] remaining_zero [OF w, of t] r p that by (simp add: s'(2) Let_def)
  moreover have "same_low k (sorted_link s' k)" using wheelD(4) [OF w, of k] by (simp add: s'(2) bucket_ok_def same_low_def)
  ultimately show ?thesis
    using unplaced_wheel [OF w p s'(1) other _ s'(3,4)] bucket_filtered [OF wheelD(4) [OF w, of k], where l' = "sorted_link s' k" and t = t] by simp
qed

lemma inter_invoke:
  assumes "inter_ok s" "place s t \<noteq> None" "\<And>x. x \<noteq> t \<Longrightarrow> x \<in> dom (tms s) \<Longrightarrow> x \<in> dom (tms s')" "place s' = (place s)(t := None)"
    "rel_inter_tsklets s' = rel_inter_tsklets s \<or> rel_inter_tsklets s' = rel_inter_tsklets s @ [do_restart_tm t] \<and> t \<in> dom (tms s')"
  shows "inter_ok s'"
proof -
  obtain ts where ts: "rel_inter_tsklets s = map do_restart_tm ts" "distinct ts" "\<forall>x \<in> set ts. x \<in> dom (tms s) \<and> place s x = None"
    using assms(1) by (auto simp: inter_ok_def)
  have nt: "t \<notin> set ts" using ts(3) assms(2) by auto
  have rest: "\<forall>x \<in> set ts. x \<in> dom (tms s') \<and> place s' x = None" using ts(3) nt assms(3,4) by (metis fun_upd_apply)
  show ?thesis
  proof (cases "rel_inter_tsklets s' = rel_inter_tsklets s")
    case True
    then show ?thesis unfolding inter_ok_def using ts rest by (intro exI [of _ ts]) simp
  next
    case False
    then show ?thesis unfolding inter_ok_def using ts rest nt assms(4,5) by (intro exI [of _ "ts @ [t]"]) auto
  qed
qed

lemma inter_ok_mono:
  "inter_ok s \<Longrightarrow> rel_inter_tsklets s' = rel_inter_tsklets s \<Longrightarrow> place s' = place s \<Longrightarrow> dom (tms s) \<subseteq> dom (tms s') \<Longrightarrow> inter_ok s'"
  unfolding inter_ok_def by (simp only:) (meson subsetD)

lemma client_step:
  assumes "good s" "client_ok cb"
  shows "good (fold run_request (cb s t) s)" "only_adds s (fold run_request (cb s t) s)" "remaining (fold run_request (cb s t) s) = remaining s"
proof -
  show o: "only_adds s (fold run_request (cb s t) s)" using assms(2) by (intro requests_only_add) (simp add: client_ok_def)
  then show "remaining (fold run_request (cb s t) s) = remaining s" by (intro remaining_cong) (simp_all add: only_adds_def)
  have "wheel (fold run_request (cb s t) s) = wheel s" using o by (intro wheel_cong) (simp_all add: only_adds_def)
  moreover have "inter_ok (fold run_request (cb s t) s)"
  proof (rule inter_ok_mono)
    show "inter_ok s" using assms(1) by (simp add: good_def)
    show "dom (tms s) \<subseteq> dom (tms (fold run_request (cb s t) s))" using o unfolding only_adds_def by blast
  qed (use o in \<open>simp_all add: only_adds_def\<close>)
  ultimately show "good (fold run_request (cb s t) s)" using assms by (simp add: good_def client_ok_def)
qed

lemma trigger_ok:
  assumes g: "good s" and cb: "client_ok cb" and r: "remaining s t = Some 0"
  shows "\<exists>s'. trigger_a_timer cb mok t s = Some s' \<and> called t s s'"
proof -
  obtain c where c: "tms s t = Some c" using r by (auto simp: remaining_def place_def split: option.splits)
  define s0 where "s0 = s\<lparr>calls := calls s @ [Timeout t (tm_timeout c) (tm_arg c)]\<rparr>"
  define s1 where "s1 = fold run_request (cb s0 t) s0"
  have p0: "place s0 = place s" by (rule place_tms) (simp add: s0_def)
  have sel: "zero_link s0 = zero_link s" "sorted_link s0 = sorted_link s" "tick_last s0 = tick_last s" "tms s0 = tms s"
    "rel_tsklets s0 = rel_tsklets s" "rel_inter_tsklets s0 = rel_inter_tsklets s" by (simp_all add: s0_def)
  have r0: "remaining s0 = remaining s" by (rule remaining_cong) (simp_all add: sel p0)
  have "wheel s0 = wheel s" by (rule wheel_cong) (simp_all add: sel p0)
  then have g0: "good s0" using g by (simp add: good_def inter_ok_def pending_ok_def kept_def sel p0)
  note s1 = client_step [OF g0 cb, of t, folded s1_def]
  have o: "zero_link s1 = zero_link s" "sorted_link s1 = sorted_link s" "tick_last s1 = tick_last s" "calls s1 = calls s @ [Timeout t (tm_timeout c) (tm_arg c)]"
    "rel_inter_tsklets s1 = rel_inter_tsklets s" "place s1 = place s" "\<And>x d. tms s x = Some d \<Longrightarrow> tms s1 x = Some d"
    using s1(2) p0 sel by (simp_all add: only_adds_def s0_def)
  define af where "af = (tm_mode c AND PETF_AUTO_FREE \<noteq> 0)"
  define ri where "ri = (if af \<or> tm_mode c AND PETF_ONE_SHOOT \<noteq> 0 \<or> \<not> mok s t then rel_inter_tsklets s else rel_inter_tsklets s @ [do_restart_tm t])"
  define s' where "s' = s1\<lparr>zero_link := (\<lambda>k. filter (\<lambda>x. x \<noteq> t) (zero_link s1 k)), sorted_link := (\<lambda>k. filter (\<lambda>x. fst x \<noteq> t) (sorted_link s1 k)),
    tms := (tms s1)(t := if af then None else Some (c\<lparr>tm_node := None\<rparr>)), rel_inter_tsklets := ri\<rparr>"
  have eq: "trigger_a_timer cb mok t s = Some s'"
    using c o(5) by (simp add: trigger_a_timer_def Let_def s0_def [symmetric] s1_def [symmetric] s'_def af_def ri_def tsklet_invokelater_def)
  have pl: "place s' = (place s1)(t := None)" by (rule ext) (simp add: place_def s'_def)
  have w: "wheel s' \<and> remaining s' = (remaining s1)(t := None)"
    using unlinked_wheel [of s1 t s', OF _ _ _ _ pl] s1(1,3) r0 r by (simp add: good_def s'_def)
  have ptn: "place s1 t \<noteq> None" using r r0 s1(3) place_None [of s1 t] by auto
  have ct: "tms s1 t = Some c" using o(7) [OF c] .
  have i: "inter_ok s'"
    by (rule inter_invoke [OF _ ptn _ pl]) (use s1(1) o(5) in \<open>auto simp: good_def s'_def ri_def\<close>)
  have "kept s' = kept s1" using ct ptn by (auto simp: kept_def s'_def af_def place_def)
  then have "pending_ok s'" using s1(1) by (simp add: good_def pending_ok_def s'_def)
  then have "good s'" using w i by (simp add: good_def)
  then show ?thesis using eq w r0 s1(3) o c by (auto simp: called_def s'_def call_of_def)
qed

lemma zero_loop_ok:
  assumes "client_ok cb"
  shows "good s \<Longrightarrow> distinct ts \<Longrightarrow> \<forall>t \<in> set ts. remaining s t = Some 0 \<Longrightarrow>
    \<exists>s'. zero_loop cb mok ts s = Some s' \<and> good s' \<and> remaining s' = (\<lambda>x. if x \<in> set ts then None else remaining s x) \<and> tick_last s' = tick_last s \<and>
      sorted_link s' = (\<lambda>j. filter (\<lambda>p. fst p \<notin> set ts) (sorted_link s j)) \<and> calls s' = calls s @ map (call_of s) ts \<and>
      (\<forall>x c. x \<notin> set ts \<longrightarrow> tms s x = Some c \<longrightarrow> tms s' x = Some c)"
proof (induction ts arbitrary: s)
  case (Cons t ts)
  obtain s1 where s1: "trigger_a_timer cb mok t s = Some s1" "called t s s1" using trigger_ok [OF Cons.prems(1) assms, of t mok] Cons.prems(3) by auto
  have "\<forall>x \<in> set ts. remaining s1 x = Some 0" using s1(2) Cons.prems(2,3) by (auto simp: called_def)
  then obtain s' where s': "zero_loop cb mok ts s1 = Some s'" "good s'" "remaining s' = (\<lambda>x. if x \<in> set ts then None else remaining s1 x)" "tick_last s' = tick_last s1"
      "sorted_link s' = (\<lambda>j. filter (\<lambda>p. fst p \<notin> set ts) (sorted_link s1 j))" "calls s' = calls s1 @ map (call_of s1) ts"
      "\<forall>x c. x \<notin> set ts \<longrightarrow> tms s1 x = Some c \<longrightarrow> tms s' x = Some c"
    using Cons.IH [of s1] s1(2) Cons.prems(2) unfolding called_def by auto
  have "call_of s1 x = call_of s x" if "x \<in> set ts" for x
  proof -
    have "remaining s x = Some 0" "x \<noteq> t" using that Cons.prems(2,3) by auto
    then obtain c where "tms s x = Some c" by (auto simp: remaining_def place_def split: option.splits)
    then show ?thesis using s1(2) \<open>x \<noteq> t\<close> by (simp add: called_def call_of_def)
  qed
  then have "map (call_of s1) ts = map (call_of s) ts" by simp
  then show ?case using s' s1 by (auto simp: called_def fun_eq_iff intro!: filter_cong)
qed simp

section \<open>A tick\<close>

definition lose_round :: "nat \<Rightarrow> (u32 \<times> u32) list \<Rightarrow> sync_block_t \<Rightarrow> sync_block_t" where
  "lose_round k xs s = (case xs of [] \<Rightarrow> s
     | (t, xl) # _ \<Rightarrow> s\<lparr>sorted_link := (sorted_link s)(k := map (\<lambda>(x, l). (x, if x = t then l - TM_HASH_LEN else l)) (sorted_link s k))\<rparr>)"

lemma sorted_loop_eq:
  "sorted_loop cb mok k xs s =
     map_option (lose_round k (dropWhile (\<lambda>p. snd p < TM_HASH_LEN) xs)) (zero_loop cb mok (map fst (takeWhile (\<lambda>p. snd p < TM_HASH_LEN) xs)) s)"
  by (induction cb mok k xs s rule: sorted_loop.induct) (auto simp: lose_round_def split: option.split)

lemma filter_takeWhile_rest:
  "distinct (map fst l) \<Longrightarrow> filter (\<lambda>p. fst p \<notin> set (map fst (takeWhile P l))) l = dropWhile P l"
proof (induction l)
  case (Cons x l)
  have ne: "fst y \<noteq> fst x" if "y \<in> set l" for y
  proof
    assume "fst y = fst x"
    then have "fst x \<in> fst ` set l" using that by (metis imageI)
    then show False using Cons.prems by simp
  qed
  have "filter (\<lambda>p. fst p \<notin> insert (fst x) (set (map fst (takeWhile P l)))) l = filter (\<lambda>p. fst p \<notin> set (map fst (takeWhile P l))) l"
    by (intro filter_cong) (auto dest: ne)
  also have "\<dots> = dropWhile P l" using Cons by simp
  finally show ?case by (simp only: takeWhile.simps dropWhile.simps filter.simps list.map list.set split: if_split) simp
qed simp

lemma due_lose_round:
  assumes "0 < rd xl"
  shows "due_rounds a ((t, xl - TM_HASH_LEN) # xs) = map (apsnd (\<lambda>r. r - 1)) (due_rounds a ((t, xl) # xs))"
    "unat (xl - TM_HASH_LEN) mod 1024 = unat xl mod 1024"
proof -
  have le: "rd TM_HASH_LEN \<le> rd xl" using assms by (simp add: LEN_rounds)
  have shift: "due_rounds b ys = map (apsnd (\<lambda>r. r - 1)) (due_rounds (Suc b) ys)" for b ys
    by (induction b ys rule: due_rounds.induct) simp_all
  show "unat (xl - TM_HASH_LEN) mod 1024 = unat xl mod 1024" using sub_rounds(2) [OF le] by (simp add: LEN_rounds)
  have "rd (xl - TM_HASH_LEN) = rd xl - 1" using sub_rounds(1) [OF le] by (simp add: LEN_rounds)
  then show "due_rounds a ((t, xl - TM_HASH_LEN) # xs) = map (apsnd (\<lambda>r. r - 1)) (due_rounds a ((t, xl) # xs))"
    using assms shift [of "a + (rd xl - 1)" xs] by simp
qed

lemma map_of_apsnd: "map_of (map (apsnd f) xs) t = map_option f (map_of xs t)"
  by (induction xs) auto

lemma lose_round_ok:
  assumes g: "good s" and hd: "\<And>t xl ys. sorted_link s k = (t, xl) # ys \<Longrightarrow> 0 < rd xl"
  defines "s' \<equiv> lose_round k (sorted_link s k) s"
  shows "good s'" "place s' = place s" "tick_last s' = tick_last s" "calls s' = calls s" "j \<noteq> k \<Longrightarrow> sorted_link s' j = sorted_link s j"
    "map_of (due_rounds 0 (sorted_link s' k)) t = map_option (\<lambda>r. r - 1) (map_of (due_rounds 0 (sorted_link s k)) t)"
proof -
  have w: "wheel s" using g by (simp add: good_def)
  have sel: "zero_link s' = zero_link s" "tick_last s' = tick_last s" "tms s' = tms s" "calls s' = calls s"
    "rel_tsklets s' = rel_tsklets s" "rel_inter_tsklets s' = rel_inter_tsklets s"
    by (simp_all add: s'_def lose_round_def split: list.split)
  show "tick_last s' = tick_last s" "calls s' = calls s" using sel by simp_all
  show pl: "place s' = place s" using sel(3) by (rule place_tms)
  show other: "sorted_link s' j = sorted_link s j" if "j \<noteq> k" for j using that by (simp add: s'_def lose_round_def split: list.split)
  have k: "due_rounds 0 (sorted_link s' k) = map (apsnd (\<lambda>r. r - 1)) (due_rounds 0 (sorted_link s k)) \<and> same_low k (sorted_link s' k) \<and>
    map fst (sorted_link s' k) = map fst (sorted_link s k)"
  proof (cases "sorted_link s k")
    case Nil
    then show ?thesis by (simp add: s'_def lose_round_def)
  next
    case (Cons p ys)
    obtain x xl where p: "p = (x, xl)" by (cases p)
    have b: "bucket_ok k ((x, xl) # ys)" using wheelD(4) [OF w, of k] Cons p by simp
    then have "map (\<lambda>(z, l). (z, if z = x then l - TM_HASH_LEN else l)) ys = ys" by (force simp: bucket_ok_def intro!: map_idI)
    then have eq: "sorted_link s' k = (x, xl - TM_HASH_LEN) # ys" using Cons p by (simp add: s'_def lose_round_def)
    have pos: "0 < rd xl" using hd [of x xl ys] Cons p by simp
    show ?thesis unfolding eq Cons p due_lose_round(1) [OF pos] using due_lose_round(2) [OF pos] b by (simp add: bucket_ok_def)
  qed
  then show "map_of (due_rounds 0 (sorted_link s' k)) t = map_option (\<lambda>r. r - 1) (map_of (due_rounds 0 (sorted_link s k)) t)" by (simp add: map_of_apsnd)
  have "bucket_ok k (sorted_link s' k)" using k wheelD(4) [OF w, of k] by (auto simp: bucket_ok_def less_imp_diff_less)
  moreover have "fst ` set (sorted_link s' j) = fst ` set (sorted_link s j)" for j
    using k other [of j] by (cases "j = k") (metis set_map, simp)
  ultimately have "wheel s'" using wheelD [OF w] other sel(1) pl by (intro wheelI) (metis)+
  then show "good s'" using g by (simp add: good_def inter_ok_def pending_ok_def kept_def sel pl)
qed

definition countdown :: "(u32 \<rightharpoonup> nat) \<Rightarrow> (u32 \<rightharpoonup> nat)" where
  "countdown m t = (case m t of Some (Suc n) \<Rightarrow> Some n | _ \<Rightarrow> None)"

lemma tick_remaining:
  assumes w: "wheel s" and k: "k = unat (TM_HASH_FUNC (tick_last s))"
    and p: "\<And>x. place s' x = (if remaining s x = Some 0 then None else place s x)" and t: "tick_last s' = tick_last s + 1"
    and other: "\<And>j. j \<noteq> k \<Longrightarrow> sorted_link s' j = sorted_link s j"
    and same: "\<And>x. remaining s x \<noteq> Some 0 \<Longrightarrow>
      map_of (due_rounds 0 (sorted_link s' k)) x = map_option (\<lambda>r. r - 1) (map_of (due_rounds 0 (sorted_link s k)) x)"
  shows "remaining s' = countdown (remaining s)"
proof
  fix x
  show "remaining s' x = countdown (remaining s) x"
  proof (cases "remaining s x = Some 0 \<or> place s x = None")
    case True
    then show ?thesis using p [of x] by (auto simp: countdown_def remaining_def)
  next
    case False
    then obtain b j where q: "place s x = Some (b, j)" by auto
    have j: "j < 1024" using wheelD(5) [OF w q] .
    obtain n where n: "remaining s x = Some (Suc n)" using False place_None [of s x] by (metis not0_implies_Suc not_None_eq)
    show ?thesis
    proof (cases "j = k")
      case True
      then have d: "dist (tick_last s) j = 0" using dist_0 [OF j] k by simp
      then have b: b using q n by (auto simp: remaining_def split: if_splits)
      have e: "map_of (due_rounds 0 (sorted_link s k)) x \<noteq> None"
        using wheelD(2) [OF w, of x k] q True b by (simp add: map_of_eq_None_iff due_rounds_fst_set)
      show ?thesis using n q p [of x] t b d dist_Suc [OF j, of "tick_last s"] same [of x] e True by (auto simp: remaining_def countdown_def)
    next
      case False
      then have "dist (tick_last s) j \<noteq> 0" using dist_0 [OF j] k by simp
      then show ?thesis using n q p [of x] t dist_Suc [OF j, of "tick_last s"] other [OF False] by (auto simp: remaining_def countdown_def)
    qed
  qed
qed

lemma due_dropWhile:
  "x \<notin> fst ` set (takeWhile (\<lambda>p. snd p < TM_HASH_LEN) l) \<Longrightarrow>
   map_of (due_rounds 0 (dropWhile (\<lambda>p. snd p < TM_HASH_LEN) l)) x = map_of (due_rounds 0 l) x"
proof (induction l)
  case (Cons p l)
  obtain y yl where p: "p = (y, yl)" by (cases p)
  show ?case using Cons by (cases "rd yl = 0") (simp_all add: p LEN_rounds)
qed simp

lemma filter_not_in: "(\<And>p. p \<in> set l \<Longrightarrow> fst p \<notin> T) \<Longrightarrow> filter (\<lambda>p. fst p \<notin> T) l = l"
  by (simp add: filter_id_conv)

lemma drain_links_ok:
  assumes g: "good s" and cb: "client_ok cb" and k: "k = unat (TM_HASH_FUNC (tick_last s))"
  shows "\<exists>s1 s2 ts. zero_loop cb mok (zero_link s k) s = Some s1 \<and>
    zero_loop cb mok (map fst (takeWhile (\<lambda>p. snd p < TM_HASH_LEN) (sorted_link s k))) s1 = Some s2 \<and> sorted_link s1 = sorted_link s \<and>
    good s2 \<and> distinct ts \<and> set ts = {t. remaining s t = Some 0} \<and> calls s2 = calls s @ map (call_of s) ts \<and> tick_last s2 = tick_last s \<and>
    (\<forall>x. place s2 x = (if remaining s x = Some 0 then None else place s x)) \<and> (\<forall>j. j \<noteq> k \<longrightarrow> sorted_link s2 j = sorted_link s j) \<and>
    sorted_link s2 k = dropWhile (\<lambda>p. snd p < TM_HASH_LEN) (sorted_link s k)"
proof -
  have w: "wheel s" using g by (simp add: good_def)
  let ?l = "sorted_link s k" and ?z = "zero_link s k"
  define ts2 where "ts2 = map fst (takeWhile (\<lambda>p. snd p < TM_HASH_LEN) ?l)"
  have dl: "distinct (map fst ?l)" using wheelD(4) [OF w] by (simp add: bucket_ok_def)
  have zp: "t \<in> set ?z \<longleftrightarrow> place s t = Some (False, k)" for t by (rule wheelD(1) [OF w])
  have "set ts2 \<subseteq> fst ` set ?l" by (auto simp: ts2_def dest: set_takeWhileD)
  then have sp: "t \<in> set ts2 \<longleftrightarrow> place s t = Some (True, k) \<and> map_of (due_rounds 0 ?l) t = Some 0" for t
    using wheelD(2) [OF w, of t k] due_zero_head [OF dl, of t] by (auto simp: ts2_def)
  have zero: "remaining s t = Some 0 \<longleftrightarrow> t \<in> set ?z \<or> t \<in> set ts2" for t unfolding remaining_zero [OF w] zp sp by (simp add: k Let_def)
  obtain s1 where s1: "zero_loop cb mok ?z s = Some s1" "good s1" "remaining s1 = (\<lambda>x. if x \<in> set ?z then None else remaining s x)" "tick_last s1 = tick_last s"
      "sorted_link s1 = (\<lambda>j. filter (\<lambda>p. fst p \<notin> set ?z) (sorted_link s j))" "calls s1 = calls s @ map (call_of s) ?z"
      "\<forall>x c. x \<notin> set ?z \<longrightarrow> tms s x = Some c \<longrightarrow> tms s1 x = Some c"
    using zero_loop_ok [OF cb g wheelD(3) [OF w], of k mok] zero by auto
  have spl: "place s (fst q) = Some (True, j)" if "q \<in> set (sorted_link s j)" for q j
    using imageI [OF that, of fst] unfolding wheelD(2) [OF w] .
  have sl: "sorted_link s1 = sorted_link s"
  proof
    fix j
    show "sorted_link s1 j = sorted_link s j"
      unfolding s1(5) by (intro filter_not_in) (simp add: spl zp)
  qed
  have disj: "t \<notin> set ?z" if "t \<in> set ts2" for t using that by (simp add: sp zp)
  have "distinct ts2" using dl unfolding ts2_def by (metis distinct_append map_append takeWhile_dropWhile_id)
  moreover have "\<forall>t \<in> set ts2. remaining s1 t = Some 0" using zero disj by (simp add: s1(3))
  ultimately obtain s2 where s2: "zero_loop cb mok ts2 s1 = Some s2" "good s2" "remaining s2 = (\<lambda>x. if x \<in> set ts2 then None else remaining s1 x)" "tick_last s2 = tick_last s1"
      "sorted_link s2 = (\<lambda>j. filter (\<lambda>p. fst p \<notin> set ts2) (sorted_link s1 j))" "calls s2 = calls s1 @ map (call_of s1) ts2"
      "\<forall>x c. x \<notin> set ts2 \<longrightarrow> tms s1 x = Some c \<longrightarrow> tms s2 x = Some c"
    using zero_loop_ok [OF cb s1(2), of ts2 mok] by auto
  have live: "\<exists>c. tms s t = Some c" if "place s t \<noteq> None" for t using that by (auto simp: place_def split: option.splits)
  have "call_of s1 t = call_of s t" if t: "t \<in> set ts2" for t
  proof -
    obtain c where "tms s t = Some c" using live [of t] sp [of t] t by auto
    then show ?thesis using disj [OF t] s1(7) by (simp add: call_of_def)
  qed
  then have c: "calls s2 = calls s @ map (call_of s) (?z @ ts2)" by (simp add: s2(6) s1(6))
  have p: "place s2 x = (if remaining s x = Some 0 then None else place s x)" for x
  proof (cases "remaining s x = Some 0 \<or> place s x = None")
    case True
    then have "remaining s2 x = None" using zero [of x] by (auto simp: s2(3) s1(3) place_None)
    then show ?thesis using True by (auto simp: place_None)
  next
    case False
    then show ?thesis using live [of x] s1(7) s2(7) zero [of x] by (auto simp: place_def)
  qed
  have "sorted_link s2 k = dropWhile (\<lambda>p. snd p < TM_HASH_LEN) ?l" unfolding s2(5) sl ts2_def by (rule filter_takeWhile_rest [OF dl])
  moreover have "sorted_link s2 j = sorted_link s j" if "j \<noteq> k" for j
    unfolding s2(5) sl using that by (intro filter_not_in) (simp add: spl sp)
  moreover have "distinct (?z @ ts2)" "set (?z @ ts2) = {t. remaining s t = Some 0}" using wheelD(3) [OF w] \<open>distinct ts2\<close> disj zero by auto
  moreover note s1(1,4) s2(1,2,4) sl c p
  ultimately show ?thesis unfolding ts2_def [symmetric]
    by - (rule exI [of _ s1], rule exI [of _ s2], rule exI [of _ "?z @ ts2"], simp)
qed

text \<open>A tick of the wheel is a tick of the table of countdowns, and calls every timer at zero once.\<close>

lemma tick_links_ok:
  assumes g: "good s" and cb: "client_ok cb"
  shows "\<exists>s' ts. tick_links cb mok s = Some s' \<and> good s' \<and> remaining s' = countdown (remaining s) \<and> tick_last s' = tick_last s + 1 \<and>
    distinct ts \<and> set ts = {t. remaining s t = Some 0} \<and> calls s' = calls s @ map (call_of s) ts"
proof -
  define k where "k = unat (TM_HASH_FUNC (tick_last s))"
  let ?rest = "dropWhile (\<lambda>p. snd p < TM_HASH_LEN) (sorted_link s k)"
  obtain s1 s2 ts where s1: "zero_loop cb mok (zero_link s k) s = Some s1"
    and s2: "zero_loop cb mok (map fst (takeWhile (\<lambda>p. snd p < TM_HASH_LEN) (sorted_link s k))) s1 = Some s2" "sorted_link s1 = sorted_link s"
      "good s2" "distinct ts" "set ts = {t. remaining s t = Some 0}" "calls s2 = calls s @ map (call_of s) ts" "tick_last s2 = tick_last s"
      "\<And>x. place s2 x = (if remaining s x = Some 0 then None else place s x)" "\<And>j. j \<noteq> k \<Longrightarrow> sorted_link s2 j = sorted_link s j"
      "sorted_link s2 k = ?rest"
    using drain_links_ok [OF g cb k_def, of mok] by blast
  have w: "wheel s" using g by (simp add: good_def)
  have pos: "0 < rd xl" if "sorted_link s2 k = (t, xl) # ys" for t xl ys
    using dropWhile_eq_Cons_conv [of "\<lambda>p. snd p < TM_HASH_LEN" "sorted_link s k"] that unfolding s2(10) by (simp add: LEN_rounds)
  define s3 where "s3 = lose_round k ?rest s2"
  define s' where "s' = s3\<lparr>tick_last := tick_last s3 + 1\<rparr>"
  have eq: "tick_links cb mok s = Some s'"
    by (simp add: tick_links_def Let_def k_def [symmetric] s1 sorted_loop_eq s2(1,2) s3_def s'_def)
  have s3: "good s3" "place s3 = place s2" "tick_last s3 = tick_last s2" "calls s3 = calls s2" "\<And>j. j \<noteq> k \<Longrightarrow> sorted_link s3 j = sorted_link s2 j"
    "\<And>x. map_of (due_rounds 0 (sorted_link s3 k)) x = map_option (\<lambda>r. r - 1) (map_of (due_rounds 0 ?rest) x)"
    using lose_round_ok [OF s2(3) pos, of k] unfolding s3_def s2(10) by auto
  have "good s'" using s3(1) by (simp add: good_def s'_def inter_ok_def pending_ok_def kept_def)
  moreover have "remaining s' = countdown (remaining s)"
  proof (rule tick_remaining [OF w k_def])
    show "place s' x = (if remaining s x = Some 0 then None else place s x)" for x using s2(8) s3(2) by (simp add: s'_def)
    show "tick_last s' = tick_last s + 1" using s2(7) s3(3) by (simp add: s'_def)
    show "sorted_link s' j = sorted_link s j" if "j \<noteq> k" for j using s2(9) s3(5) that by (simp add: s'_def)
    show "map_of (due_rounds 0 (sorted_link s' k)) x = map_option (\<lambda>r. r - 1) (map_of (due_rounds 0 (sorted_link s k)) x)" if x: "remaining s x \<noteq> Some 0" for x
    proof -
      have dl: "distinct (map fst (sorted_link s k))" using wheelD(4) [OF w] by (simp add: bucket_ok_def)
      have "x \<notin> fst ` set (takeWhile (\<lambda>p. snd p < TM_HASH_LEN) (sorted_link s k))"
      proof
        assume "x \<in> fst ` set (takeWhile (\<lambda>p. snd p < TM_HASH_LEN) (sorted_link s k))"
        then have "map_of (due_rounds 0 (sorted_link s k)) x = Some 0" using due_zero_head [OF dl] by simp
        moreover from this have "x \<in> fst ` set (sorted_link s k)" using due_rounds_fst_set [of 0 "sorted_link s k"] by (force dest: map_of_SomeD)
        ultimately show False using x remaining_zero [OF w, of x] wheelD(2) [OF w, of x k] by (simp add: k_def Let_def)
      qed
      then show ?thesis using s3(6) due_dropWhile by (simp add: s'_def)
    qed
  qed
  ultimately show ?thesis using eq s2(4-7) s3(3,4) by (intro exI [of _ s'] exI [of _ ts]) (simp add: s'_def)
qed

definition tick_spec :: "sync_block_t \<Rightarrow> sync_block_t \<Rightarrow> bool" where
  "tick_spec s s' = (good s' \<and> remaining s' = countdown (table_after s) \<and> tick_last s' = tick_last s + 1 \<and>
     (\<forall>t. fired t s' = fired t s + (if table_after s t = Some 0 then 1 else 0)))"

lemma length_filter_distinct: "distinct ts \<Longrightarrow> length (filter ((=) t) ts) = (if t \<in> set ts then 1 else 0)"
  by (induction ts) auto

lemma is_timeout_call: "is_timeout t (call_of s x) = (t = x)"
  by (auto simp: call_of_def split: option.split)

lemma kept_dom: "kept s \<subseteq> dom (tms s)"
  by (auto simp: kept_def)

lemma reltm_tick_ok:
  assumes "good s" "client_ok cb"
  shows "\<exists>s'. reltm_tick cb mok s = Some s' \<and> tick_spec s s'"
proof -
  have "tsks_ok (dom (tms s)) (rel_tsklets s)" using assms(1) tsks_ok_mono [OF _ kept_dom] by (simp add: good_def pending_ok_def)
  then obtain s1 where s1: "tick_tsklets s = Some s1" "wheel s1" "remaining s1 = table_after s" "tick_last s1 = tick_last s"
      "rel_tsklets s1 = []" "rel_inter_tsklets s1 = []" "\<forall>t. fired t s1 = fired t s"
    using tick_tsklets_ok [of s] assms(1) by (auto simp: good_def)
  have "good s1" using s1 by (simp add: good_def inter_ok_def pending_ok_def)
  then obtain s2 ts where s2: "tick_links cb mok s1 = Some s2" "good s2" "remaining s2 = countdown (remaining s1)" "tick_last s2 = tick_last s1 + 1"
      "distinct ts" "set ts = {t. remaining s1 t = Some 0}" "calls s2 = calls s1 @ map (call_of s1) ts"
    using tick_links_ok [OF _ assms(2), of s1 mok] by blast
  have "fired t s2 = fired t s1 + (if remaining s1 t = Some 0 then 1 else 0)" for t
    using s2(5,6) length_filter_distinct [of ts t] by (simp add: fired_def s2(7) filter_map o_def is_timeout_call)
  then show ?thesis using s1 s2 by (simp add: reltm_tick_def tick_spec_def)
qed

section \<open>A timer and the calls on it\<close>

definition calm :: "u32 \<Rightarrow> sync_block_t \<Rightarrow> bool" where
  "calm t s = (\<forall>x \<in> set (rel_tsklets s). tsklet_timer x \<noteq> t)"

primrec req_timer :: "request \<Rightarrow> u32" where
  "req_timer (Create addr junk junk_link timeout mode) = addr"
| "req_timer (Start mal1 mal2 t msec arg) = t"
| "req_timer (Stop mal1 mal2 t finallize arg) = t"
| "req_timer (Free mal t) = t"
| "req_timer (Start_simple addr junk junk_link mal1 mal2 msec timeout arg) = addr"

definition client_leaves :: "client \<Rightarrow> u32 \<Rightarrow> bool" where
  "client_leaves cb t = (\<forall>s x. \<forall>r \<in> set (cb s x). req_timer r \<noteq> t)"

definition auto_restart :: "u32 \<Rightarrow> u32 \<Rightarrow> sync_block_t \<Rightarrow> bool" where
  "auto_restart t msec s = (\<exists>c. tms s t = Some c \<and> tm_mode c AND PETF_AUTO_FREE = 0 \<and> tm_mode c AND PETF_ONE_SHOOT = 0 \<and> tm_msec c = msec)"

lemma request_other:
  "req_timer r \<noteq> t \<Longrightarrow> (calm t s \<longrightarrow> calm t (run_request r s)) \<and> tms (run_request r s) t = tms s t \<and> rel_inter_tsklets (run_request r s) = rel_inter_tsklets s"
  by (cases r) (auto simp: calm_def petimer_create_reltimer_def petimer_start_reltimer_def petimer_stop_reltimer_safe_def petimer_free_reltimer_def
    petimer_start_reltimer_simple_def tsklet_invokelater_def)

lemma requests_other:
  "\<forall>r \<in> set rs. req_timer r \<noteq> t \<Longrightarrow>
   (calm t s \<longrightarrow> calm t (fold run_request rs s)) \<and> tms (fold run_request rs s) t = tms s t \<and> rel_inter_tsklets (fold run_request rs s) = rel_inter_tsklets s"
proof (induction rs arbitrary: s)
  case (Cons r rs)
  then show ?case using request_other [of r t s] by simp
qed simp

lemma trigger_keeps:
  assumes "trigger_a_timer cb mok x s = Some s'" "client_leaves cb t"
  shows "calm t s \<Longrightarrow> calm t s'" "auto_restart t msec s \<Longrightarrow> auto_restart t msec s'" "set (rel_inter_tsklets s) \<subseteq> set (rel_inter_tsklets s')"
    "x = t \<Longrightarrow> auto_restart t msec s \<Longrightarrow> mok s t \<Longrightarrow> do_restart_tm t \<in> set (rel_inter_tsklets s')"
proof -
  obtain c where c: "tms s x = Some c" using assms(1) by (cases "tms s x") (auto simp: trigger_a_timer_def)
  define s0 where "s0 = s\<lparr>calls := calls s @ [Timeout x (tm_timeout c) (tm_arg c)]\<rparr>"
  define s1 where "s1 = fold run_request (cb s0 x) s0"
  have r: "(calm t s0 \<longrightarrow> calm t s1) \<and> tms s1 t = tms s0 t \<and> rel_inter_tsklets s1 = rel_inter_tsklets s0"
    unfolding s1_def using assms(2) by (intro requests_other) (auto simp: client_leaves_def)
  have "rel_tsklets s' = rel_tsklets s1" "x \<noteq> t \<Longrightarrow> tms s' t = tms s1 t" "set (rel_inter_tsklets s1) \<subseteq> set (rel_inter_tsklets s')"
    "tm_mode c AND PETF_AUTO_FREE = 0 \<Longrightarrow> tms s' x = Some (c\<lparr>tm_node := None\<rparr>)"
    "tm_mode c AND PETF_AUTO_FREE = 0 \<Longrightarrow> tm_mode c AND PETF_ONE_SHOOT = 0 \<Longrightarrow> mok s x \<Longrightarrow> do_restart_tm x \<in> set (rel_inter_tsklets s')"
    using assms(1) c by (auto simp: trigger_a_timer_def Let_def s0_def [symmetric] s1_def [symmetric] tsklet_invokelater_def split: if_splits)
  then show "calm t s \<Longrightarrow> calm t s'" "auto_restart t msec s \<Longrightarrow> auto_restart t msec s'" "set (rel_inter_tsklets s) \<subseteq> set (rel_inter_tsklets s')"
    "x = t \<Longrightarrow> auto_restart t msec s \<Longrightarrow> mok s t \<Longrightarrow> do_restart_tm t \<in> set (rel_inter_tsklets s')"
    using r c by (cases "x = t"; simp add: calm_def auto_restart_def s0_def)+
qed

lemma zero_loop_keeps:
  assumes "client_leaves cb t" "\<forall>s. mok s t"
  shows "zero_loop cb mok ts s = Some s' \<Longrightarrow>
    (calm t s \<longrightarrow> calm t s') \<and> set (rel_inter_tsklets s) \<subseteq> set (rel_inter_tsklets s') \<and>
    (auto_restart t msec s \<longrightarrow> auto_restart t msec s' \<and> (t \<in> set ts \<longrightarrow> do_restart_tm t \<in> set (rel_inter_tsklets s')))"
proof (induction ts arbitrary: s)
  case (Cons x ts)
  obtain s1 where s1: "trigger_a_timer cb mok x s = Some s1" "zero_loop cb mok ts s1 = Some s'" using Cons.prems by (auto split: option.splits)
  show ?case using trigger_keeps [OF s1(1) assms(1)] Cons.IH [OF s1(2)] assms(2) by (cases "x = t") (simp_all, blast+)
qed simp

lemma zero_loop_calm: "client_leaves cb t \<Longrightarrow> zero_loop cb mok ts s = Some s' \<Longrightarrow> calm t s \<Longrightarrow> calm t s'"
  by (induction ts arbitrary: s) (auto split: option.splits dest: trigger_keeps(1))

lemma lose_round_keeps: "calm t (lose_round k xs s) = calm t s" "auto_restart t msec (lose_round k xs s) = auto_restart t msec s"
    "rel_inter_tsklets (lose_round k xs s) = rel_inter_tsklets s"
  by (simp_all add: lose_round_def calm_def auto_restart_def split: list.split)

end
