(* ===== verification/Pe_Timing.thy ===== *)
theory Pe_Timing
  imports Pe_Wheel
begin

text \<open>
  When the relative timers are called. The counting is done once in locales, for any machine with a table of countdowns; the wheel is an instance
  of them, with the table after the deferred calls.
\<close>

unbundle bit_operations_syntax

section \<open>Countdowns\<close>

locale ticking =
  fixes step :: "'s \<Rightarrow> 's option" and steps :: "nat \<Rightarrow> 's \<Rightarrow> 's option" and ok :: "'s \<Rightarrow> 'k \<Rightarrow> bool"
    and rem :: "'s \<Rightarrow> 'k \<Rightarrow> nat option" and hits :: "'k \<Rightarrow> 's \<Rightarrow> nat"
  assumes steps_0: "steps 0 s = Some s"
    and steps_Suc: "steps (Suc n) s = Option.bind (step s) (steps n)"
    and step_Suc: "ok s t \<Longrightarrow> rem s t = Some (Suc n) \<Longrightarrow> \<exists>s'. step s = Some s' \<and> ok s' t \<and> rem s' t = Some n \<and> hits t s' = hits t s"
    and step_zero: "ok s t \<Longrightarrow> rem s t = Some 0 \<Longrightarrow> \<exists>s'. step s = Some s' \<and> ok s' t \<and> hits t s' = Suc (hits t s)"
begin

lemma wait: "ok s t \<Longrightarrow> rem s t = Some n \<Longrightarrow> \<exists>s'. steps n s = Some s' \<and> ok s' t \<and> rem s' t = Some 0 \<and> hits t s' = hits t s"
proof (induction n arbitrary: s)
  case (Suc n)
  then obtain s1 where "step s = Some s1" "ok s1 t" "rem s1 t = Some n" "hits t s1 = hits t s" using step_Suc by blast
  then show ?case using Suc.IH [of s1] by (auto simp: steps_Suc)
qed (simp add: steps_0)

lemma exact:
  assumes "ok s t" "rem s t = Some n"
  shows "\<exists>s1 s2. steps n s = Some s1 \<and> step s1 = Some s2 \<and> hits t s1 = hits t s \<and> hits t s2 = Suc (hits t s)"
proof -
  obtain s1 where "steps n s = Some s1" "ok s1 t" "rem s1 t = Some 0" "hits t s1 = hits t s" using wait [OF assms] by blast
  then show ?thesis using step_zero [of s1 t] by auto
qed

lemma steps_add: "steps (m + n) s = Option.bind (steps m s) (steps n)"
proof (induction m arbitrary: s)
  case (Suc m)
  then show ?case by (cases "step s") (simp_all add: steps_Suc)
qed (simp add: steps_0)

end

locale periodic_ticking = ticking +
  fixes period :: nat
  assumes step_again: "ok s t \<Longrightarrow> rem s t = Some 0 \<Longrightarrow> \<exists>s'. step s = Some s' \<and> ok s' t \<and> rem s' t = Some period \<and> hits t s' = Suc (hits t s)"
begin

lemma again:
  assumes "ok s t" "rem s t = Some period"
  shows "\<exists>s'. steps (Suc period) s = Some s' \<and> ok s' t \<and> rem s' t = Some period \<and> hits t s' = Suc (hits t s)"
proof -
  obtain s1 where s1: "steps period s = Some s1" "ok s1 t" "rem s1 t = Some 0" "hits t s1 = hits t s" using wait [OF assms] by blast
  then obtain s2 where "step s1 = Some s2" "ok s2 t" "rem s2 t = Some period" "hits t s2 = Suc (hits t s1)" using step_again by blast
  then show ?thesis using s1 steps_add [of period 1 s] by (simp add: steps_Suc steps_0)
qed

lemma every_period:
  "ok s t \<Longrightarrow> rem s t = Some period \<Longrightarrow>
   \<exists>s'. steps (m * Suc period) s = Some s' \<and> ok s' t \<and> rem s' t = Some period \<and> hits t s' = hits t s + m"
proof (induction m arbitrary: s)
  case (Suc m)
  obtain s1 where s1: "steps (Suc period) s = Some s1" "ok s1 t" "rem s1 t = Some period" "hits t s1 = Suc (hits t s)" using again [OF Suc.prems] by blast
  obtain s' where "steps (m * Suc period) s1 = Some s'" "ok s' t" "rem s' t = Some period" "hits t s' = hits t s1 + m" using Suc.IH [OF s1(2,3)] by blast
  then show ?case unfolding mult_Suc steps_add s1(1) using s1(4) by simp
qed (simp add: steps_0)

end

section \<open>The table after a tick\<close>

lemma count_other: "\<forall>x \<in> set xs. tsklet_timer x \<noteq> t \<Longrightarrow> fold (count_tsklet ms) xs m t = m t"
proof (induction xs arbitrary: m)
  case (Cons x xs)
  then show ?case by (cases x) auto
qed simp

lemma table_calm:
  assumes "inter_ok s" "calm t s" "remaining s t \<noteq> None"
  shows "table_after s t = remaining s t"
proof -
  have "\<forall>x \<in> set (rel_inter_tsklets s). tsklet_timer x \<noteq> t" using assms(1,3) by (auto simp: inter_ok_def place_None)
  then show ?thesis using assms(2) unfolding table_after_def by (intro count_other) (auto simp: calm_def)
qed

lemma table_restart:
  assumes "inter_ok s" "calm t s" "do_restart_tm t \<in> set (rel_inter_tsklets s)"
  shows "table_after s t = Some (delay (unat (ticks_of (msec_of s t))))"
proof -
  obtain ts where ts: "rel_inter_tsklets s = map do_restart_tm ts" "distinct ts" using assms(1) by (auto simp: inter_ok_def)
  then obtain us vs where uv: "ts = us @ t # vs" using assms(3) by (auto dest: split_list)
  then have "\<forall>x \<in> set (map do_restart_tm vs @ rel_tsklets s). tsklet_timer x \<noteq> t" using ts(2) assms(2) by (auto simp: calm_def)
  then have "fold (count_tsklet (msec_of s)) (map do_restart_tm vs @ rel_tsklets s) m t = m t" for m by (rule count_other)
  then show ?thesis by (simp add: table_after_def ts(1) uv)
qed

lemma tick_links_keeps:
  assumes "tick_links cb mok s = Some s'" "client_leaves cb t"
  shows "calm t s \<Longrightarrow> calm t s'"
    "\<forall>s. mok s t \<Longrightarrow> auto_restart t msec s \<Longrightarrow> auto_restart t msec s'"
proof -
  obtain k s1 s2 where s: "zero_loop cb mok (zero_link s k) s = Some s1" "sorted_loop cb mok k (sorted_link s1 k) s1 = Some s2" "s' = s2\<lparr>tick_last := tick_last s2 + 1\<rparr>"
    using assms(1) by (auto simp: tick_links_def Let_def bind_eq_Some_conv)
  let ?P = "\<lambda>p. snd p < TM_HASH_LEN"
  obtain s3 where s3: "zero_loop cb mok (map fst (takeWhile ?P (sorted_link s1 k))) s1 = Some s3" "s2 = lose_round k (dropWhile ?P (sorted_link s1 k)) s3"
    using s(2) by (auto simp: sorted_loop_eq)
  show "calm t s \<Longrightarrow> calm t s'"
    using zero_loop_calm [OF assms(2) s(1)] zero_loop_calm [OF assms(2) s3(1)] lose_round_keeps(1,2) by (simp add: s(3) s3(2) calm_def)
  show "\<forall>s. mok s t \<Longrightarrow> auto_restart t msec s \<Longrightarrow> auto_restart t msec s'"
    using zero_loop_keeps [OF assms(2) _ s(1), of msec] zero_loop_keeps [OF assms(2) _ s3(1), of msec] lose_round_keeps(1,2)
    by (simp add: s(3) s3(2) auto_restart_def)
qed

lemma tick_links_restart:
  assumes g: "good s" and cb: "client_ok cb" "client_leaves cb t" "\<forall>s. mok s t" and a: "auto_restart t msec s" "remaining s t = Some 0"
    and s': "tick_links cb mok s = Some s'"
  shows "do_restart_tm t \<in> set (rel_inter_tsklets s')"
proof -
  define k where "k = unat (TM_HASH_FUNC (tick_last s))"
  let ?P = "\<lambda>p. snd p < TM_HASH_LEN"
  obtain s1 s2 where s: "zero_loop cb mok (zero_link s k) s = Some s1" "zero_loop cb mok (map fst (takeWhile ?P (sorted_link s k))) s1 = Some s2"
      "sorted_link s1 = sorted_link s"
    using drain_links_ok [OF g cb(1) k_def, of mok] by blast
  have "rel_inter_tsklets s' = rel_inter_tsklets s2"
    using s' by (simp add: tick_links_def Let_def k_def [symmetric] s sorted_loop_eq) (auto simp: lose_round_keeps)
  moreover have w: "wheel s" using g by (simp add: good_def)
  have "t \<in> set (zero_link s k) \<or> t \<in> fst ` set (takeWhile ?P (sorted_link s k))"
    using a(2) wheelD(1,4) [OF w] due_zero_head [of "sorted_link s k" t] unfolding remaining_zero [OF w] by (auto simp: k_def Let_def bucket_ok_def)
  ultimately show ?thesis using zero_loop_keeps [OF cb(2,3) s(1), of msec] zero_loop_keeps [OF cb(2,3) s(2), of msec] a(1) by auto
qed

lemma leave_hash_other: "leave_hash x s = Some s' \<Longrightarrow> x \<noteq> t \<Longrightarrow> tms s' t = tms s t"
  by (auto simp: leave_hash_def list_isinqueue_def del_from_hash_def Let_def bind_eq_Some_conv split: option.splits if_splits)

lemma add2hash_keeps: "add2hash x s = Some s' \<Longrightarrow> auto_restart t msec s \<Longrightarrow> auto_restart t msec s'"
  by (auto simp: add2hash_def auto_restart_def Let_def split: option.splits if_splits)

lemma run_tsklet_keeps:
  assumes "run_tsklet x s = Some s'" "tsklet_timer x \<noteq> t \<or> x = do_restart_tm t" "auto_restart t msec s"
  shows "auto_restart t msec s'"
proof (cases x)
  case (do_restart_tm y)
  then show ?thesis using assms add2hash_keeps by simp
next
  case (do_start_tm y m a)
  then obtain s1 c where s1: "leave_hash y s = Some s1" "add2hash y (s1\<lparr>tms := (tms s1)(y \<mapsto> c\<lparr>tm_msec := m, tm_arg := a\<rparr>)\<rparr>) = Some s'"
    using assms(1) by (auto simp: bind_eq_Some_conv)
  have "auto_restart t msec (s1\<lparr>tms := (tms s1)(y \<mapsto> c\<lparr>tm_msec := m, tm_arg := a\<rparr>)\<rparr>)"
    using leave_hash_other [OF s1(1), of t] assms(2,3) do_start_tm by (auto simp: auto_restart_def)
  then show ?thesis using add2hash_keeps [OF s1(2)] by blast
qed (use assms leave_hash_other [of _ s _ t] in \<open>auto simp: bind_eq_Some_conv auto_restart_def\<close>)

lemma tsklet_run_keeps:
  "tsklet_run run_tsklet xs s = Some s' \<Longrightarrow> \<forall>x \<in> set xs. tsklet_timer x \<noteq> t \<or> x = do_restart_tm t \<Longrightarrow> auto_restart t msec s \<Longrightarrow> auto_restart t msec s'"
proof (induction xs arbitrary: s)
  case (Cons x xs)
  obtain s1 where "run_tsklet x s = Some s1" "tsklet_run run_tsklet xs s1 = Some s'" using Cons.prems(1) by (auto split: option.splits)
  then show ?case using Cons.IH [of s1] Cons.prems(2,3) run_tsklet_keeps [of x s s1 t msec] by simp
qed simp

lemma tick_tsklets_keeps:
  assumes "good s" "calm t s" "tick_tsklets s = Some s1" "auto_restart t msec s"
  shows "auto_restart t msec s1"
proof -
  obtain s2 where s2: "tsklet_run run_tsklet (rel_inter_tsklets s) (s\<lparr>rel_inter_tsklets := []\<rparr>) = Some s2"
      "tsklet_run run_tsklet (rel_tsklets s2) (s2\<lparr>rel_tsklets := []\<rparr>) = Some s1"
    using assms(3) by (auto simp: tick_tsklets_def bind_eq_Some_conv)
  obtain ts where ts: "rel_inter_tsklets s = map do_restart_tm ts" "distinct ts" "\<forall>x \<in> set ts. x \<in> dom (tms s) \<and> place s x = None"
    using assms(1) by (auto simp: good_def inter_ok_def)
  have "quiet (s\<lparr>rel_inter_tsklets := []\<rparr>) s2"
    using inter_run_ok [of "s\<lparr>rel_inter_tsklets := []\<rparr>" ts "msec_of s"] ts assms(1) s2(1) by (auto simp: good_def msec_of_def)
  then have rel: "rel_tsklets s2 = rel_tsklets s" by (simp add: quiet_def)
  have "auto_restart t msec s2"
    by (rule tsklet_run_keeps [OF s2(1)]) (use ts(1) assms(4) in \<open>auto simp: auto_restart_def\<close>)
  then show ?thesis
    by (intro tsklet_run_keeps [OF s2(2)]) (use rel assms(2) in \<open>auto simp: calm_def auto_restart_def\<close>)
qed

section \<open>The wheel counts\<close>

definition waits :: "client \<Rightarrow> sync_block_t \<Rightarrow> u32 \<Rightarrow> bool" where
  "waits cb s t = (good s \<and> client_ok cb \<and> client_leaves cb t)"

definition waits_again :: "client \<Rightarrow> (sync_block_t \<Rightarrow> u32 \<Rightarrow> bool) \<Rightarrow> u32 \<Rightarrow> sync_block_t \<Rightarrow> u32 \<Rightarrow> bool" where
  "waits_again cb mok msec s t = (waits cb s t \<and> (\<forall>s. mok s t) \<and> calm t s \<and> auto_restart t msec s)"

lemma tick_split:
  assumes "waits cb s t"
  shows "\<exists>s1 s'. tick_tsklets s = Some s1 \<and> tick_links cb mok s1 = Some s' \<and> reltm_tick cb mok s = Some s' \<and> tick_spec s s' \<and> good s1 \<and>
    remaining s1 = table_after s \<and> calm t s'"
proof -
  have g: "good s" "client_ok cb" "client_leaves cb t" using assms by (simp_all add: waits_def)
  obtain s' where s': "reltm_tick cb mok s = Some s'" "tick_spec s s'" using reltm_tick_ok [OF g(1,2)] by blast
  have "tsks_ok (dom (tms s)) (rel_tsklets s)" using g(1) tsks_ok_mono [OF _ kept_dom] by (simp add: good_def pending_ok_def)
  then obtain s1 where s1: "tick_tsklets s = Some s1" "wheel s1" "remaining s1 = table_after s" "rel_tsklets s1 = []" "rel_inter_tsklets s1 = []"
    using tick_tsklets_ok [of s] g(1) by (auto simp: good_def)
  then have l: "tick_links cb mok s1 = Some s'" using s'(1) by (simp add: reltm_tick_def)
  have "calm t s'" using tick_links_keeps(1) [OF l g(3)] s1(4) by (simp add: calm_def)
  then show ?thesis using s1 s' l by (auto simp: good_def inter_ok_def pending_ok_def)
qed

lemma tick_waits:
  assumes "waits cb s t" "table_after s t \<noteq> None"
  shows "\<exists>s'. reltm_tick cb mok s = Some s' \<and> waits cb s' t \<and> calm t s' \<and> tick_spec s s' \<and> (table_after s t \<noteq> Some 0 \<longrightarrow> table_after s' t = countdown (table_after s) t)"
proof -
  obtain s' where s': "reltm_tick cb mok s = Some s'" "tick_spec s s'" "calm t s'" using tick_split [OF assms(1), of mok] by blast
  have "waits cb s' t" using s'(2) assms(1) by (simp add: waits_def tick_spec_def)
  moreover have "table_after s' t = countdown (table_after s) t" if "table_after s t \<noteq> Some 0"
  proof -
    have "remaining s' t \<noteq> None" using s'(2) that assms(2) by (auto simp: tick_spec_def countdown_def split: nat.splits)
    then show ?thesis using table_calm [of s' t] s'(2,3) by (simp add: tick_spec_def good_def)
  qed
  ultimately show ?thesis using s' by blast
qed

lemma trigger_Suc: "reltm_trigger cb mok (Suc n) s = Option.bind (reltm_tick cb mok s) (reltm_trigger cb mok n)"
  by (cases "reltm_tick cb mok s") simp_all

interpretation wheel: ticking "reltm_tick cb mok" "reltm_trigger cb mok" "waits cb" table_after fired for cb mok
proof
  show "reltm_trigger cb mok (Suc n) s = Option.bind (reltm_tick cb mok s) (reltm_trigger cb mok n)" for n s by (rule trigger_Suc)
  show "\<exists>s'. reltm_tick cb mok s = Some s' \<and> waits cb s' t \<and> table_after s' t = Some n \<and> fired t s' = fired t s"
    if "waits cb s t" "table_after s t = Some (Suc n)" for s t n
    using tick_waits [OF that(1), of mok] that(2) by (auto simp: tick_spec_def countdown_def)
  show "\<exists>s'. reltm_tick cb mok s = Some s' \<and> waits cb s' t \<and> fired t s' = Suc (fired t s)" if "waits cb s t" "table_after s t = Some 0" for s t
    using tick_waits [OF that(1), of mok] that(2) by (auto simp: tick_spec_def)
qed simp

lemma tick_waits_again:
  assumes w: "waits_again cb mok msec s t" and n: "table_after s t = Some n"
  shows "\<exists>s'. reltm_tick cb mok s = Some s' \<and> waits_again cb mok msec s' t \<and> fired t s' = fired t s + (if n = 0 then 1 else 0) \<and>
    table_after s' t = Some (if n = 0 then delay (unat (ticks_of msec)) else n - 1)"
proof -
  have ws: "waits cb s t" and g: "good s" and cb: "client_ok cb" "client_leaves cb t" "\<forall>s. mok s t" and c: "calm t s" "auto_restart t msec s"
    using w by (simp_all add: waits_again_def waits_def)
  obtain s1 s' where s': "tick_tsklets s = Some s1" "tick_links cb mok s1 = Some s'" "reltm_tick cb mok s = Some s'" "tick_spec s s'" "good s1"
      "remaining s1 = table_after s" "calm t s'"
    using tick_split [OF ws, of mok] by blast
  have a1: "auto_restart t msec s1" by (rule tick_tsklets_keeps [OF g c(1) s'(1) c(2)])
  then have a: "auto_restart t msec s'" using tick_links_keeps(2) [OF s'(2) cb(2)] cb(3) by blast
  have i: "inter_ok s'" using s'(4) by (simp add: tick_spec_def good_def)
  have "table_after s' t = Some (if n = 0 then delay (unat (ticks_of msec)) else n - 1)"
  proof (cases n)
    case 0
    have "do_restart_tm t \<in> set (rel_inter_tsklets s')"
      by (rule tick_links_restart [OF s'(5) cb a1 _ s'(2)]) (simp add: s'(6) n 0)
    then show ?thesis using table_restart [OF i s'(7)] a 0 by (auto simp: auto_restart_def msec_of_def)
  next
    case (Suc m)
    then show ?thesis using table_calm [OF i s'(7)] s'(4) n by (simp add: tick_spec_def countdown_def)
  qed
  moreover have "waits_again cb mok msec s' t" using s'(4,7) a cb by (simp add: waits_again_def waits_def tick_spec_def)
  ultimately show ?thesis using s'(3,4) n by (auto simp: tick_spec_def)
qed

interpretation rewheel: periodic_ticking "reltm_tick cb mok" "reltm_trigger cb mok" "waits_again cb mok msec" table_after fired "delay (unat (ticks_of msec))"
  for cb mok msec
proof
  show "reltm_trigger cb mok (Suc n) s = Option.bind (reltm_tick cb mok s) (reltm_trigger cb mok n)" for n s by (rule trigger_Suc)
  show "\<exists>s'. reltm_tick cb mok s = Some s' \<and> waits_again cb mok msec s' t \<and> table_after s' t = Some n \<and> fired t s' = fired t s"
    if "waits_again cb mok msec s t" "table_after s t = Some (Suc n)" for s t n
    using tick_waits_again [OF that] by auto
  show "\<exists>s'. reltm_tick cb mok s = Some s' \<and> waits_again cb mok msec s' t \<and> fired t s' = Suc (fired t s)"
    if "waits_again cb mok msec s t" "table_after s t = Some 0" for s t
    using tick_waits_again [OF that] by auto
  show "\<exists>s'. reltm_tick cb mok s = Some s' \<and> waits_again cb mok msec s' t \<and> table_after s' t = Some (delay (unat (ticks_of msec))) \<and> fired t s' = Suc (fired t s)"
    if "waits_again cb mok msec s t" "table_after s t = Some 0" for s t
    using tick_waits_again [OF that] by auto
qed simp

lemma delay_eq: "0 < n \<Longrightarrow> delay n = (if 1024 dvd n then n - 1024 else n)"
proof -
  assume n: "0 < n"
  define q r where "q = n div 1024" and "r = n mod 1024"
  have e: "n = 1024 * q + r" "r < 1024" by (simp_all add: q_def r_def)
  show ?thesis
  proof (cases "r = 0")
    case True
    then obtain p where p: "q = Suc p" using n e by (cases q) auto
    have "n - 1 = 1023 + p * 1024" using e True p by simp
    then have "(n - 1) div 1024 = p" by simp
    then show ?thesis using e True p by (simp add: delay_def)
  next
    case False
    then have "n - 1 = (r - 1) + q * 1024" using e by simp
    then have "(n - 1) div 1024 = q" using e by simp
    moreover have "\<not> 1024 dvd n" using False by (simp add: r_def dvd_eq_mod_eq_0)
    moreover have "delay n = r + 1024 * ((n - 1) div 1024)" by (simp only: delay_def r_def)
    ultimately show ?thesis using e(1) by simp
  qed
qed

section \<open>Results\<close>

lemma good_unlinked:
  assumes "zero_link s = (\<lambda>_. [])" "sorted_link s = (\<lambda>_. [])" "\<And>t c. tms s t = Some c \<Longrightarrow> tm_node c = None" "inter_ok s" "pending_ok s"
  shows "good s"
proof -
  have "place s t = None" for t using assms(3) [of t] by (simp add: place_def split: option.split)
  then show ?thesis using assms by (simp add: good_def wheel_def bucket_ok_def)
qed

text \<open>
  C11: A tick of the wheel implements a tick of a table of countdowns: whatever the callbacks ask for, it runs to the end without touching a freed timer,
  the invariant holds again, every timer at zero after the deferred calls is called exactly once and no other, and all other countdowns go down by one.
\<close>

theorem reltm_tick_refines:
  assumes "good s" "client_ok cb"
  shows "\<exists>s'. reltm_tick cb mok s = Some s' \<and> good s' \<and> remaining s' = countdown (table_after s) \<and> tick_last s' = tick_last s + 1 \<and>
    (\<forall>t. fired t s' = fired t s + (if table_after s t = Some 0 then 1 else 0))"
  using reltm_tick_ok [OF assms, of mok] by (auto simp: tick_spec_def)

text \<open>
  C12: \<open>petimer_start_reltimer\<close> is exact to the tick: of a timer that is left alone until then, the function is called in the tick number \<open>n\<close> after the tick
  that takes up the call, \<open>n\<close> the rounded number of ticks, and not before. A multiple of 1024 ticks is the exception, with 1024 ticks less: the bucket of the
  current tick is emptied after the new timer was put into it.
\<close>

theorem reltimer_start_exact:
  assumes "petimer_start_reltimer mal1 mal2 t msec arg s = (0, s0)" "good s0" "client_ok cb" "client_leaves cb t"
    and "n = unat (ticks_of msec)"
  shows "\<exists>s1 s2. reltm_trigger cb mok (if 1024 dvd n then n - 1024 else n) s0 = Some s1 \<and> reltm_tick cb mok s1 = Some s2 \<and>
    fired t s1 = fired t s \<and> fired t s2 = Suc (fired t s)"
proof -
  have s0: "s0 = s\<lparr>rel_tsklets := rel_tsklets s @ [do_start_tm t msec arg]\<rparr>"
    using assms(1) by (simp add: petimer_start_reltimer_def tsklet_invokelater_def ENOMEM_def split: if_splits)
  then have "table_after s0 t = Some (delay n)" by (simp add: table_after_def assms(5))
  moreover have "delay n = (if 1024 dvd n then n - 1024 else n)" using delay_eq ticks_of_unat(1) assms(5) by simp
  moreover have "fired t s0 = fired t s" by (simp add: s0 fired_def)
  moreover have "waits cb s0 t" using assms(2-4) by (simp add: waits_def)
  ultimately show ?thesis using wheel.exact [of cb s0 t "delay n" mok] by simp
qed

text \<open>
  C13: A timer that restarts itself is called again and again, forever and with a fixed distance: \<open>m\<close> times in \<open>m\<close> times one more than its ticks, with the
  same exception. The extra tick is the one that takes up the restart.
\<close>

theorem reltimer_period:
  assumes "good s" "client_ok cb" "client_leaves cb t" "\<forall>s. mok s t" "calm t s" "auto_restart t msec s" "do_restart_tm t \<in> set (rel_inter_tsklets s)"
    and "n = unat (ticks_of msec)"
  shows "\<exists>s'. reltm_trigger cb mok (m * Suc (if 1024 dvd n then n - 1024 else n)) s = Some s' \<and> good s' \<and> fired t s' = fired t s + m"
proof -
  have w: "waits_again cb mok msec s t" using assms(1-6) by (simp add: waits_again_def waits_def)
  have "table_after s t = Some (delay n)"
    using table_restart [OF _ assms(5,7)] assms(1,6,8) by (auto simp: good_def auto_restart_def msec_of_def)
  moreover have "delay n = (if 1024 dvd n then n - 1024 else n)" using delay_eq ticks_of_unat(1) assms(8) by simp
  ultimately show ?thesis using rewheel.every_period [OF w, of m] assms(8) by (auto simp: waits_again_def waits_def)
qed

text \<open>
  The timer thread never stops and never touches freed memory: every number of its iterations after a successful \<open>petimer_start\<close>, with the calls of the
  user in between represented by the callbacks, runs to the end.
\<close>

theorem petimer_thread_runs:
  assumes "petimer_start cb mok addr mh t1 t2 mt thr 0 st = (0, sync, st')" "\<not> init_flag st" "client_ok cb"
  shows "\<exists>b hs s'. blk st' = Some b \<and> petimer n b = Some (hs, s') \<and> good s' \<and> tick_last s' = of_nat n"
proof -
  define f where "f = (\<lambda>s e. reltm_trigger cb mok (nat e) s)"
  define hs where "hs = [\<lparr>hook = f, interval = 1, escape = 0\<rparr>]"
  have b: "blk st' = Some (hs, zero_sync_block)"
    using assms(1,2) by (auto simp: petimer_start_def init_reltm_def petimer_register_tickhook_def Let_def ENOMEM_def zero_sync_block_def hs_def f_def
      split: if_splits prod.splits)
  have "good zero_sync_block" by (rule good_unlinked) (simp_all add: zero_sync_block_def inter_ok_def pending_ok_def)
  moreover have "\<exists>s'. petimer n (hs, s) = Some (hs, s') \<and> good s' \<and> tick_last s' = tick_last s + of_nat n" if "good s" for s
    using that
  proof (induction n arbitrary: s)
    case (Suc n)
    obtain s1 where s1: "reltm_tick cb mok s = Some s1" "tick_spec s s1" using reltm_tick_ok [OF Suc.prems assms(3)] by blast
    have t: "trigger_timer hs 1 s = Some (hs, s1)" using s1(1) by (simp add: hs_def f_def trigger_Suc)
    obtain s' where "petimer n (hs, s1) = Some (hs, s')" "good s'" "tick_last s' = tick_last s1 + of_nat n"
      using Suc.IH [of s1] s1(2) by (auto simp: tick_spec_def)
    then show ?case using t s1(2) by (simp add: tick_spec_def add.commute add.left_commute)
  qed simp
  ultimately show ?thesis using b by (fastforce simp: zero_sync_block_def)
qed

text \<open>A call of the interface keeps the invariant, and no countdown changes before the next tick, if its memory is new and it names no timer that is or will be freed.\<close>

theorem run_request_good:
  assumes "good s" "fresh_req r s" "pending_ok (run_request r s)"
  shows "good (run_request r s) \<and> remaining (run_request r s) = remaining s \<and> calls (run_request r s) = calls s"
proof -
  have o: "only_adds s (run_request r s)" by (rule request_only_adds [OF assms(2)])
  then have "wheel (run_request r s) = wheel s" "remaining (run_request r s) = remaining s"
    by (intro wheel_cong remaining_cong; simp add: only_adds_def)+
  moreover have "inter_ok (run_request r s)"
  proof (rule inter_ok_mono)
    show "inter_ok s" using assms(1) by (simp add: good_def)
    show "dom (tms s) \<subseteq> dom (tms (run_request r s))" using o unfolding only_adds_def by blast
  qed (use o in \<open>simp_all add: only_adds_def\<close>)
  ultimately show ?thesis using assms o by (simp add: good_def only_adds_def)
qed

section \<open>Examples\<close>

text \<open>A timer at address 4096 that restarts itself, and a callback that frees its timer.\<close>

definition ex_block :: "u32 \<Rightarrow> sync_block_t" where
  "ex_block msec = zero_sync_block\<lparr>tms := [4096 \<mapsto> \<lparr>tm_msec = msec, tm_timeout = 7, tm_arg = 8, tm_mode = 0, tm_sorted = False, tm_node = None\<rparr>]\<rparr>"

definition ex_free :: client where
  "ex_free s t = (if rel_tsklets s = [] \<and> t \<in> kept s then [Free True t] else [])"

lemma ex_kept: "kept (ex_block msec) = {4096}" "kept (ex_block msec\<lparr>rel_tsklets := x\<rparr>) = {4096}" "kept (ex_block msec\<lparr>rel_inter_tsklets := y\<rparr>) = {4096}"
  by (auto simp: kept_def ex_block_def split: if_splits)

lemma ex_free_ok: "client_ok ex_free"
  by (auto simp: client_ok_def ex_free_def petimer_free_reltimer_def tsklet_invokelater_def pending_ok_def kept_def)

lemma idle_client_ok: "client_ok (\<lambda>_ _. [])" "client_leaves (\<lambda>_ _. []) t"
  by (simp_all add: client_ok_def client_leaves_def)

lemma ex_start_good: "good (ex_block m\<lparr>rel_tsklets := [do_start_tm 4096 msec 9]\<rparr>)"
  by (rule good_unlinked) (simp_all add: ex_kept pending_ok_def, auto simp: ex_block_def zero_sync_block_def inter_ok_def split: if_splits)

lemma ex_restart_good: "good (ex_block m\<lparr>rel_inter_tsklets := [do_restart_tm 4096]\<rparr>)"
proof (rule good_unlinked)
  show "inter_ok (ex_block m\<lparr>rel_inter_tsklets := [do_restart_tm 4096]\<rparr>)"
    unfolding inter_ok_def by (rule exI [of _ "[4096]"]) (simp add: ex_block_def place_def)
qed (auto simp: pending_ok_def ex_block_def zero_sync_block_def split: if_splits)

lemma ex_ticks: "unat (ticks_of 30) = 3" "unat (ticks_of 10240) = 1024" "unat (ticks_of 1000) = 100"
  by code_simp+

theorem reltm_tick_refines_witness:
  "\<exists>s'. reltm_tick ex_free (\<lambda>_ _. True) (ex_block 0\<lparr>rel_tsklets := [do_start_tm 4096 10240 9]\<rparr>) = Some s' \<and> good s' \<and> fired 4096 s' = 1"
proof -
  have "table_after (ex_block 0\<lparr>rel_tsklets := [do_start_tm 4096 10240 9]\<rparr>) 4096 = Some 0"
    by (simp add: table_after_def ex_ticks delay_def ex_block_def zero_sync_block_def)
  moreover have f: "fired 4096 (ex_block 0\<lparr>rel_tsklets := [do_start_tm 4096 10240 9]\<rparr>) = 0" by (simp add: fired_def ex_block_def zero_sync_block_def)
  ultimately show ?thesis
    using reltm_tick_refines [OF ex_start_good [where m = 0 and msec = 10240] ex_free_ok, of "\<lambda>_ _. True"] f by auto
qed

theorem reltimer_start_exact_witness:
  "(\<exists>s1 s2. reltm_trigger (\<lambda>_ _. []) (\<lambda>_ _. True) 3 (ex_block 0\<lparr>rel_tsklets := [do_start_tm 4096 30 9]\<rparr>) = Some s1 \<and>
      reltm_tick (\<lambda>_ _. []) (\<lambda>_ _. True) s1 = Some s2 \<and> fired 4096 s1 = 0 \<and> fired 4096 s2 = 1) \<and>
   (\<exists>s2. reltm_tick (\<lambda>_ _. []) (\<lambda>_ _. True) (ex_block 0\<lparr>rel_tsklets := [do_start_tm 4096 10240 9]\<rparr>) = Some s2 \<and> fired 4096 s2 = 1)"
proof -
  have st: "petimer_start_reltimer True True 4096 m 9 (ex_block 0) = (0, ex_block 0\<lparr>rel_tsklets := [do_start_tm 4096 m 9]\<rparr>)" for m
    by (simp add: petimer_start_reltimer_def tsklet_invokelater_def ex_block_def zero_sync_block_def)
  have f: "fired 4096 (ex_block 0) = 0" by (simp add: fired_def ex_block_def zero_sync_block_def)
  show ?thesis
    using reltimer_start_exact [OF st ex_start_good idle_client_ok, of 3 30 "\<lambda>_ _. True"]
      reltimer_start_exact [OF st ex_start_good idle_client_ok, of 1024 10240 "\<lambda>_ _. True"] f
    by (auto simp: ex_ticks)
qed

theorem reltimer_period_witness:
  "\<exists>s'. reltm_trigger (\<lambda>_ _. []) (\<lambda>_ _. True) (50 * 101) (ex_block 1000\<lparr>rel_inter_tsklets := [do_restart_tm 4096]\<rparr>) = Some s' \<and> fired 4096 s' = 50"
proof -
  let ?s = "ex_block 1000\<lparr>rel_inter_tsklets := [do_restart_tm 4096]\<rparr>"
  have "calm 4096 ?s" "auto_restart 4096 1000 ?s" "do_restart_tm 4096 \<in> set (rel_inter_tsklets ?s)" "fired 4096 ?s = 0"
    by (simp_all add: calm_def auto_restart_def ex_block_def zero_sync_block_def fired_def)
  then show ?thesis
    using reltimer_period [OF ex_restart_good idle_client_ok, of "\<lambda>_ _. True" 4096 1000 1000 100 50] by (auto simp: ex_ticks)
qed

theorem petimer_thread_runs_witness:
  "\<exists>b hs s'. blk (snd (snd (petimer_start ex_free (\<lambda>_ _. True) 4096 True 0 0 True 0 0 \<lparr>init_flag = False, s_sync_blk = 0, blk = None, thread_runs = False\<rparr>))) = Some b \<and>
     petimer 1000 b = Some (hs, s') \<and> good s' \<and> tick_last s' = 1000"
  using petimer_thread_runs [of ex_free "\<lambda>_ _. True" 4096 True 0 0 True 0 "\<lparr>init_flag = False, s_sync_blk = 0, blk = None, thread_runs = False\<rparr>" _ _ 1000] ex_free_ok
  by (simp add: petimer_start_def init_reltm_def petimer_register_tickhook_def Let_def)

theorem run_request_good_witness:
  "good (run_request (Start True True 4096 30 9) (ex_block 0))"
proof -
  have "good (ex_block 0)"
    by (rule good_unlinked) (auto simp: pending_ok_def inter_ok_def ex_block_def zero_sync_block_def split: if_splits)
  moreover have "rel_tsklets (ex_block 0) = []" by (simp add: ex_block_def zero_sync_block_def)
  ultimately show ?thesis
    using run_request_good [of "ex_block 0" "Start True True 4096 30 9"]
    by (simp add: pending_ok_def petimer_start_reltimer_def tsklet_invokelater_def ex_kept)
qed

end
