(* ===== verification/Utils_Errors.thy ===== *)
theory Utils_Errors
  imports Prelude
begin

text \<open>The error codes of \<open>utils/Errors.h\<close>, with the numbers of \<open>errno\<close> on Linux.\<close>

definition NO_ERROR :: s32 where "NO_ERROR = 0"
definition UNKNOWN_ERROR :: s32 where "UNKNOWN_ERROR = -2147483648"
definition NO_MEMORY :: s32 where "NO_MEMORY = -12"
definition BAD_VALUE :: s32 where "BAD_VALUE = -22"
definition BAD_TYPE :: s32 where "BAD_TYPE = UNKNOWN_ERROR + 1"
definition NAME_NOT_FOUND :: s32 where "NAME_NOT_FOUND = -2"
definition BAD_INDEX :: s32 where "BAD_INDEX = -75"
definition NOT_ENOUGH_DATA :: s32 where "NOT_ENOUGH_DATA = -61"
definition FDS_NOT_ALLOWED :: s32 where "FDS_NOT_ALLOWED = UNKNOWN_ERROR + 7"

lemmas error_defs = NO_ERROR_def UNKNOWN_ERROR_def NO_MEMORY_def BAD_VALUE_def BAD_TYPE_def NAME_NOT_FOUND_def BAD_INDEX_def NOT_ENOUGH_DATA_def FDS_NOT_ALLOWED_def

end
