(* ===== verification/Utils_Vector.thy ===== *)
theory Utils_Vector
  imports Utils_Errors
begin

text \<open>
  \<open>utils/SharedBuffer.cpp\<close> and \<open>utils/VectorImpl.cpp\<close>: vectors whose storage is shared between copies and copied before it is changed. A buffer is known by the
  address of its data; its memory is a list of cells of the size of an item, \<open>None\<close> without a live item. Reading or destroying a dead cell, constructing over an item
  that has to be destroyed, and touching memory behind the end or after it was freed is \<open>None\<close>. The functions that depend on the type of the items follow
  \<open>TypeHelpers.h\<close>. The addresses that \<open>malloc\<close> and \<open>realloc\<close> return, 0 for a failure, are arguments.
\<close>

unbundle bit_operations_syntax

section \<open>Shared buffers\<close>

record 'a SharedBuffer =
  mRefs :: int
  mSize :: u32
  cells :: "'a option list"

type_synonym 'a heap = "u32 \<rightharpoonup> 'a SharedBuffer"

text \<open>The memory that \<open>malloc(sizeof(SharedBuffer) + size)\<close> has behind the header, in items of \<open>z\<close> bytes.\<close>

definition room :: "u32 \<Rightarrow> u32 \<Rightarrow> nat" where
  "room size_b z = (unat (16 + size_b) - 16) div unat z"

definition sb_alloc :: "u32 \<Rightarrow> u32 \<Rightarrow> u32 \<Rightarrow> 'a heap \<Rightarrow> u32 \<times> 'a heap" where
  "sb_alloc addr size_b z h =
     (if addr = 0 then (0, h) else (addr, h(addr \<mapsto> \<lparr>mRefs = 1, mSize = size_b, cells = replicate (room size_b z) None\<rparr>)))"

definition onlyOwner :: "'a SharedBuffer \<Rightarrow> bool" where
  "onlyOwner b = (mRefs b = 1)"

definition sb_acquire :: "u32 \<Rightarrow> 'a heap \<Rightarrow> 'a heap run" where
  "sb_acquire a h = map_option (\<lambda>b. h(a \<mapsto> b\<lparr>mRefs := mRefs b + 1\<rparr>)) (h a)"

text \<open>\<open>release\<close> with the flag \<open>keep\<close>; the result has the count before.\<close>

definition sb_release :: "bool \<Rightarrow> u32 \<Rightarrow> 'a heap \<Rightarrow> (int \<times> 'a heap) run" where
  "sb_release keep a h = map_option (\<lambda>b.
     if onlyOwner b \<or> mRefs b = 1 then (1, if keep then h(a \<mapsto> b\<lparr>mRefs := 0\<rparr>) else h(a := None))
     else (mRefs b, h(a \<mapsto> b\<lparr>mRefs := mRefs b - 1\<rparr>))) (h a)"

definition sb_dealloc :: "u32 \<Rightarrow> 'a heap \<Rightarrow> (int \<times> 'a heap) run" where
  "sb_dealloc a h = map_option (\<lambda>b. if mRefs b \<noteq> 0 then (-1, h) else (0, h(a := None))) (h a)"

definition attemptEdit :: "u32 \<Rightarrow> 'a heap \<Rightarrow> u32 run" where
  "attemptEdit a h = map_option (\<lambda>b. if onlyOwner b then a else 0) (h a)"

text \<open>\<open>re\<close> is the address that \<open>realloc\<close> returns and \<open>al\<close> that of \<open>alloc\<close>. \<open>realloc\<close> keeps the old cells as far as there is room.\<close>

definition recell :: "nat \<Rightarrow> 'a option list \<Rightarrow> 'a option list" where
  "recell n c = take n c @ replicate (n - length c) None"

definition editResize :: "u32 \<Rightarrow> u32 \<Rightarrow> u32 \<Rightarrow> u32 \<Rightarrow> u32 \<Rightarrow> 'a heap \<Rightarrow> (u32 \<times> 'a heap) run" where
  "editResize re al newSize z a h =
     (case h a of None \<Rightarrow> None | Some b \<Rightarrow>
        if onlyOwner b \<and> mSize b = newSize then Some (a, h)
        else if onlyOwner b \<and> re \<noteq> 0
        then Some (re, (h(a := None))(re \<mapsto> b\<lparr>mSize := newSize, cells := recell (room newSize z) (cells b)\<rparr>))
        else (case sb_alloc al newSize z h of (sb, h1) \<Rightarrow>
          if sb = 0 then Some (0, h)
          else (case h1 sb of None \<Rightarrow> None | Some n \<Rightarrow>
            let k = unat (if newSize < mSize b then newSize else mSize b) div unat z in
            if k \<le> length (cells n) \<and> k \<le> length (cells b)
            then map_option (\<lambda>(_, h2). (sb, h2)) (sb_release False a (h1(sb \<mapsto> n\<lparr>cells := take k (cells b) @ drop k (cells n)\<rparr>)))
            else None)))"

section \<open>Items\<close>

record traits =
  has_trivial_ctor :: bool
  has_trivial_dtor :: bool
  has_trivial_copy :: bool
  has_trivial_move :: bool

definition read_cells :: "nat \<Rightarrow> nat \<Rightarrow> 'a option list \<Rightarrow> 'a list run" where
  "read_cells i n c = (if i + n \<le> length c \<and> None \<notin> set (take n (drop i c)) then Some (map the (take n (drop i c))) else None)"

definition write_cells :: "traits \<Rightarrow> nat \<Rightarrow> 'a list \<Rightarrow> 'a option list \<Rightarrow> 'a option list run" where
  "write_cells t i xs c =
     (if i + length xs \<le> length c \<and> (has_trivial_dtor t \<or> set (take (length xs) (drop i c)) \<subseteq> {None})
      then Some (take i c @ map Some xs @ drop (i + length xs) c) else None)"

definition destroy_type :: "nat \<Rightarrow> nat \<Rightarrow> 'a option list \<Rightarrow> 'a option list run" where
  "destroy_type i n c = (if i + n \<le> length c \<and> None \<notin> set (take n (drop i c)) then Some (take i c @ replicate n None @ drop (i + n) c) else None)"

fun forward_loop :: "traits \<Rightarrow> nat \<Rightarrow> nat \<Rightarrow> nat \<Rightarrow> 'a option list \<Rightarrow> 'a option list run" where
  "forward_loop t d s 0 c = Some c"
| "forward_loop t d s (Suc n) c = do {
     xs \<leftarrow> read_cells (s + n) 1 c;
     c1 \<leftarrow> write_cells t (d + n) xs c;
     c2 \<leftarrow> destroy_type (s + n) 1 c1;
     forward_loop t d s n c2
   }"

fun backward_loop :: "traits \<Rightarrow> nat \<Rightarrow> nat \<Rightarrow> nat \<Rightarrow> 'a option list \<Rightarrow> 'a option list run" where
  "backward_loop t d s 0 c = Some c"
| "backward_loop t d s (Suc n) c = do {
     xs \<leftarrow> read_cells s 1 c;
     c1 \<leftarrow> write_cells t d xs c;
     c2 \<leftarrow> destroy_type s 1 c1;
     backward_loop t (d + 1) (s + 1) n c2
   }"

text \<open>Moving by \<open>memmove\<close>: the items end their life at the old place.\<close>

definition memmove_cells :: "traits \<Rightarrow> nat \<Rightarrow> nat \<Rightarrow> nat \<Rightarrow> 'a option list \<Rightarrow> 'a option list run" where
  "memmove_cells t d s n c = do {
     xs \<leftarrow> read_cells s n c;
     c1 \<leftarrow> destroy_type s n c;
     write_cells t d xs c1
   }"

definition memmovable :: "traits \<Rightarrow> bool" where
  "memmovable t = (has_trivial_dtor t \<and> has_trivial_copy t \<or> has_trivial_move t)"

definition move_forward_type :: "traits \<Rightarrow> nat \<Rightarrow> nat \<Rightarrow> nat \<Rightarrow> 'a option list \<Rightarrow> 'a option list run" where
  "move_forward_type t d s n c = (if memmovable t then memmove_cells t d s n c else forward_loop t d s n c)"

definition move_backward_type :: "traits \<Rightarrow> nat \<Rightarrow> nat \<Rightarrow> nat \<Rightarrow> 'a option list \<Rightarrow> 'a option list run" where
  "move_backward_type t d s n c = (if memmovable t then memmove_cells t d s n c else backward_loop t d s n c)"

section \<open>Vectors\<close>

record VectorImpl =
  mStorage :: u32
  mCount :: u32
  mFlags :: traits
  mItemSize :: u32

definition kMinVectorCapacity :: u32 where
  "kMinVectorCapacity = 4"

text \<open>A pointer to items: memory of the caller, or the cell of a buffer.\<close>

datatype 'a src = Ext "'a list" | At u32 nat

fun deref :: "'a src \<Rightarrow> nat \<Rightarrow> 'a heap \<Rightarrow> 'a list run" where
  "deref (Ext xs) n h = (if n \<le> length xs then Some (take n xs) else None)"
| "deref (At a i) n h = (if n = 0 then Some [] else do { b \<leftarrow> h a; read_cells i n (cells b) })"

text \<open>The cell at the byte offset \<open>i * mItemSize\<close>.\<close>

definition cell :: "VectorImpl \<Rightarrow> u32 \<Rightarrow> nat" where
  "cell v i = unat (i * mItemSize v) div unat (mItemSize v)"

definition on_cells :: "u32 \<Rightarrow> ('a option list \<Rightarrow> 'a option list run) \<Rightarrow> 'a heap \<Rightarrow> 'a heap run" where
  "on_cells a f h = do { b \<leftarrow> h a; c \<leftarrow> f (cells b); Some (h(a \<mapsto> b\<lparr>cells := c\<rparr>)) }"

definition do_copy :: "VectorImpl \<Rightarrow> u32 \<Rightarrow> nat \<Rightarrow> 'a src \<Rightarrow> nat \<Rightarrow> 'a heap \<Rightarrow> 'a heap run" where
  "do_copy v a i from n h = do { xs \<leftarrow> deref from n h; if n = 0 then Some h else on_cells a (write_cells (mFlags v) i xs) h }"

definition do_destroy :: "u32 \<Rightarrow> nat \<Rightarrow> nat \<Rightarrow> 'a heap \<Rightarrow> 'a heap run" where
  "do_destroy a i n h = (if n = 0 then Some h else on_cells a (destroy_type i n) h)"

definition capacity :: "VectorImpl \<Rightarrow> 'a heap \<Rightarrow> u32 run" where
  "capacity v h = (if mStorage v \<noteq> 0 then map_option (\<lambda>b. mSize b div mItemSize v) (h (mStorage v)) else Some 0)"

definition release_storage :: "VectorImpl \<Rightarrow> 'a heap \<Rightarrow> 'a heap run" where
  "release_storage v h =
     (if mStorage v \<noteq> 0 then do {
        (prev, h1) \<leftarrow> sb_release True (mStorage v) h;
        if prev = 1 then do {
          h2 \<leftarrow> do_destroy (mStorage v) 0 (unat (mCount v)) h1;
          (_, h3) \<leftarrow> sb_dealloc (mStorage v) h2;
          Some h3
        } else Some h1
      } else Some h)"

definition VectorImpl_copy :: "VectorImpl \<Rightarrow> 'a heap \<Rightarrow> (VectorImpl \<times> 'a heap) run" where
  "VectorImpl_copy rhs h = (if mStorage rhs \<noteq> 0 then map_option (Pair rhs) (sb_acquire (mStorage rhs) h) else Some (rhs, h))"

text \<open>The assignment to another object; \<open>None\<close> is also the failed check of the item sizes.\<close>

definition VectorImpl_assign :: "VectorImpl \<Rightarrow> VectorImpl \<Rightarrow> 'a heap \<Rightarrow> (VectorImpl \<times> 'a heap) run" where
  "VectorImpl_assign v rhs h =
     (if mItemSize v \<noteq> mItemSize rhs then None
      else do {
        h1 \<leftarrow> release_storage v h;
        if mCount rhs \<noteq> 0
        then map_option (Pair (v\<lparr>mStorage := mStorage rhs, mCount := mCount rhs\<rparr>)) (sb_acquire (mStorage rhs) h1)
        else Some (v\<lparr>mStorage := 0, mCount := 0\<rparr>, h1)
      })"

text \<open>When the copy cannot be allocated, the storage is returned as it is.\<close>

definition editArrayImpl :: "u32 \<Rightarrow> VectorImpl \<Rightarrow> 'a heap \<Rightarrow> (VectorImpl \<times> 'a heap) run" where
  "editArrayImpl al v h =
     (if mStorage v \<noteq> 0 then do {
        sb \<leftarrow> attemptEdit (mStorage v) h;
        if sb = 0 then do {
          cap \<leftarrow> capacity v h;
          let (sb1, h1) = sb_alloc al (cap * mItemSize v) (mItemSize v) h;
          if sb1 \<noteq> 0 then do {
            h2 \<leftarrow> do_copy v sb1 0 (At (mStorage v) 0) (unat (mCount v)) h1;
            h3 \<leftarrow> release_storage v h2;
            Some (v\<lparr>mStorage := sb1\<rparr>, h3)
          } else Some (v, h)
        } else Some (v, h)
      } else Some (v, h))"

text \<open>Whether \<open>itemLocation\<close> and \<open>editItemLocation\<close> give an address, with the cell then being that of the index.\<close>

definition itemLocation :: "u32 \<Rightarrow> VectorImpl \<Rightarrow> 'a heap \<Rightarrow> bool run" where
  "itemLocation index v h = map_option (\<lambda>cap. index < cap \<and> mStorage v \<noteq> 0) (capacity v h)"

definition editItemLocation :: "u32 \<Rightarrow> u32 \<Rightarrow> VectorImpl \<Rightarrow> 'a heap \<Rightarrow> (bool \<times> VectorImpl \<times> 'a heap) run" where
  "editItemLocation al index v h = do {
     cap \<leftarrow> capacity v h;
     if index < cap then map_option (\<lambda>(v1, h1). (mStorage v1 \<noteq> 0, v1, h1)) (editArrayImpl al v h) else Some (False, v, h)
   }"

definition grow_storage :: "u32 \<Rightarrow> u32 \<Rightarrow> u32 \<Rightarrow> u32 \<Rightarrow> u32 \<Rightarrow> VectorImpl \<Rightarrow> 'a heap \<Rightarrow> (bool \<times> VectorImpl \<times> 'a heap) run" where
  "grow_storage re al new_capacity where_b amount v h =
     (if mStorage v \<noteq> 0 \<and> mCount v = where_b \<and> has_trivial_copy (mFlags v) \<and> has_trivial_dtor (mFlags v)
      then map_option (\<lambda>(sb, h1). if sb \<noteq> 0 then (True, v\<lparr>mStorage := sb\<rparr>, h1) else (False, v, h1))
             (editResize re al (new_capacity * mItemSize v) (mItemSize v) (mStorage v) h)
      else let (sb, h1) = sb_alloc al (new_capacity * mItemSize v) (mItemSize v) h in
        if sb \<noteq> 0 then do {
          h2 \<leftarrow> if where_b \<noteq> 0 then do_copy v sb 0 (At (mStorage v) 0) (unat where_b) h1 else Some h1;
          h3 \<leftarrow> if where_b \<noteq> mCount v
               then do_copy v sb (cell v (where_b + amount)) (At (mStorage v) (cell v where_b)) (unat (mCount v - where_b)) h2 else Some h2;
          h4 \<leftarrow> release_storage v h3;
          Some (True, v\<lparr>mStorage := sb\<rparr>, h4)
        } else Some (False, v, h))"

definition grow :: "u32 \<Rightarrow> u32 \<Rightarrow> u32 \<Rightarrow> u32 \<Rightarrow> VectorImpl \<Rightarrow> 'a heap \<Rightarrow> (bool \<times> VectorImpl \<times> 'a heap) run" where
  "grow re al where_b amount v h = do {
     cap \<leftarrow> capacity v h;
     let new_size = mCount v + amount;
     (good, v1, h1) \<leftarrow>
       (if cap < new_size then grow_storage re al (max kMinVectorCapacity ((new_size * 3 + 1) div 2)) where_b amount v h
        else do {
          (v1, h1) \<leftarrow> editArrayImpl al v h;
          h2 \<leftarrow> if where_b \<noteq> mCount v
               then on_cells (mStorage v1) (move_forward_type (mFlags v) (cell v (where_b + amount)) (cell v where_b) (unat (mCount v - where_b))) h1 else Some h1;
          Some (True, v1, h2)
        });
     if good then do {
       let v2 = v1\<lparr>mCount := new_size\<rparr>;
       loc \<leftarrow> itemLocation where_b v2 h1;
       Some (loc, v2, h1)
     } else Some (False, v1, h1)
   }"

definition shrink_storage :: "u32 \<Rightarrow> u32 \<Rightarrow> u32 \<Rightarrow> u32 \<Rightarrow> u32 \<Rightarrow> u32 \<Rightarrow> VectorImpl \<Rightarrow> 'a heap \<Rightarrow> (bool \<times> VectorImpl \<times> 'a heap) run" where
  "shrink_storage re al new_capacity new_size where_b amount v h =
     (if where_b = new_size \<and> has_trivial_copy (mFlags v) \<and> has_trivial_dtor (mFlags v)
      then map_option (\<lambda>(sb, h1). if sb \<noteq> 0 then (True, v\<lparr>mStorage := sb\<rparr>, h1) else (False, v, h1))
             (editResize re al (new_capacity * mItemSize v) (mItemSize v) (mStorage v) h)
      else let (sb, h1) = sb_alloc al (new_capacity * mItemSize v) (mItemSize v) h in
        if sb \<noteq> 0 then do {
          h2 \<leftarrow> if where_b \<noteq> 0 then do_copy v sb 0 (At (mStorage v) 0) (unat where_b) h1 else Some h1;
          h3 \<leftarrow> if where_b \<noteq> new_size
               then do_copy v sb (cell v where_b) (At (mStorage v) (cell v (where_b + amount))) (unat (new_size - where_b)) h2 else Some h2;
          h4 \<leftarrow> release_storage v h3;
          Some (True, v\<lparr>mStorage := sb\<rparr>, h4)
        } else Some (False, v, h))"

definition shrink :: "u32 \<Rightarrow> u32 \<Rightarrow> u32 \<Rightarrow> u32 \<Rightarrow> VectorImpl \<Rightarrow> 'a heap \<Rightarrow> (VectorImpl \<times> 'a heap) run" where
  "shrink re al where_b amount v h =
     (if mStorage v = 0 then Some (v, h)
      else do {
        cap \<leftarrow> capacity v h;
        let new_size = mCount v - amount;
        (good, v1, h1) \<leftarrow>
          (if new_size * 3 < cap then shrink_storage re al (max kMinVectorCapacity (new_size * 2)) new_size where_b amount v h
           else do {
             (v1, h1) \<leftarrow> editArrayImpl al v h;
             h2 \<leftarrow> do_destroy (mStorage v1) (cell v where_b) (unat amount) h1;
             h3 \<leftarrow> if where_b \<noteq> new_size
                  then on_cells (mStorage v1) (move_backward_type (mFlags v) (cell v where_b) (cell v (where_b + amount)) (unat (new_size - where_b))) h2 else Some h2;
             Some (True, v1, h3)
           });
        Some (if good then (v1\<lparr>mCount := new_size\<rparr>, h1) else (v1, h1))
      })"

definition insertArrayAt :: "u32 \<Rightarrow> u32 \<Rightarrow> 'a src \<Rightarrow> u32 \<Rightarrow> u32 \<Rightarrow> VectorImpl \<Rightarrow> 'a heap \<Rightarrow> (s32 \<times> VectorImpl \<times> 'a heap) run" where
  "insertArrayAt re al array index len v h =
     (if index > mCount v then Some (BAD_INDEX, v, h)
      else do {
        (loc, v1, h1) \<leftarrow> grow re al index len v h;
        if loc then do {
          h2 \<leftarrow> do_copy v1 (mStorage v1) (cell v1 index) array (unat len) h1;
          Some (sint index, v1, h2)
        } else Some (NO_MEMORY, v1, h1)
      })"

definition insertVectorAt :: "u32 \<Rightarrow> u32 \<Rightarrow> VectorImpl \<Rightarrow> u32 \<Rightarrow> VectorImpl \<Rightarrow> 'a heap \<Rightarrow> (s32 \<times> VectorImpl \<times> 'a heap) run" where
  "insertVectorAt re al w index v h = insertArrayAt re al (At (mStorage w) 0) index (mCount w) v h"

definition appendVector :: "u32 \<Rightarrow> u32 \<Rightarrow> VectorImpl \<Rightarrow> VectorImpl \<Rightarrow> 'a heap \<Rightarrow> (s32 \<times> VectorImpl \<times> 'a heap) run" where
  "appendVector re al w v h = insertVectorAt re al w (mCount v) v h"

definition appendArray :: "u32 \<Rightarrow> u32 \<Rightarrow> 'a src \<Rightarrow> u32 \<Rightarrow> VectorImpl \<Rightarrow> 'a heap \<Rightarrow> (s32 \<times> VectorImpl \<times> 'a heap) run" where
  "appendArray re al array len v h = insertArrayAt re al array (mCount v) len v h"

text \<open>\<open>ini\<close> is a new item, or what uninitialised memory holds for a type with a trivial constructor.\<close>

definition insertAt :: "u32 \<Rightarrow> u32 \<Rightarrow> 'a \<Rightarrow> 'a src option \<Rightarrow> u32 \<Rightarrow> u32 \<Rightarrow> VectorImpl \<Rightarrow> 'a heap \<Rightarrow> (s32 \<times> VectorImpl \<times> 'a heap) run" where
  "insertAt re al ini item index numItems v h =
     (if index > mCount v then Some (BAD_INDEX, v, h)
      else do {
        (loc, v1, h1) \<leftarrow> grow re al index numItems v h;
        if loc then do {
          x \<leftarrow> (case item of None \<Rightarrow> Some ini | Some p \<Rightarrow> if numItems = 0 then Some ini else map_option hd (deref p 1 h1));
          h2 \<leftarrow> do_copy v1 (mStorage v1) (cell v1 index) (Ext (replicate (unat numItems) x)) (unat numItems) h1;
          Some (sint index, v1, h2)
        } else Some (NO_MEMORY, v1, h1)
      })"

definition vector_add :: "u32 \<Rightarrow> u32 \<Rightarrow> 'a \<Rightarrow> 'a src option \<Rightarrow> VectorImpl \<Rightarrow> 'a heap \<Rightarrow> (s32 \<times> VectorImpl \<times> 'a heap) run" where
  "vector_add re al ini item v h = insertAt re al ini item (mCount v) 1 v h"

definition replaceAt :: "u32 \<Rightarrow> 'a \<Rightarrow> 'a src option \<Rightarrow> u32 \<Rightarrow> VectorImpl \<Rightarrow> 'a heap \<Rightarrow> (s32 \<times> VectorImpl \<times> 'a heap) run" where
  "replaceAt al ini prototype index v h =
     (if index \<ge> mCount v then Some (BAD_INDEX, v, h)
      else do {
        (loc, v1, h1) \<leftarrow> editItemLocation al index v h;
        if loc \<and> prototype = Some (At (mStorage v1) (cell v1 index)) then Some (sint index, v1, h1)
        else if \<not> loc then Some (NO_MEMORY, v1, h1)
        else do {
          h2 \<leftarrow> do_destroy (mStorage v1) (cell v1 index) 1 h1;
          h3 \<leftarrow> do_copy v1 (mStorage v1) (cell v1 index) (case prototype of None \<Rightarrow> Ext [ini] | Some p \<Rightarrow> p) 1 h2;
          Some (sint index, v1, h3)
        }
      })"

definition removeItemsAt :: "u32 \<Rightarrow> u32 \<Rightarrow> u32 \<Rightarrow> u32 \<Rightarrow> VectorImpl \<Rightarrow> 'a heap \<Rightarrow> (s32 \<times> VectorImpl \<times> 'a heap) run" where
  "removeItemsAt re al index count v h =
     (if index + count > mCount v then Some (BAD_VALUE, v, h)
      else map_option (\<lambda>(v1, h1). (sint index, v1, h1)) (shrink re al index count v h))"

definition vector_pop :: "u32 \<Rightarrow> u32 \<Rightarrow> VectorImpl \<Rightarrow> 'a heap \<Rightarrow> (VectorImpl \<times> 'a heap) run" where
  "vector_pop re al v h = (if mCount v \<noteq> 0 then map_option snd (removeItemsAt re al (mCount v - 1) 1 v h) else Some (v, h))"

definition vector_clear :: "u32 \<Rightarrow> u32 \<Rightarrow> VectorImpl \<Rightarrow> 'a heap \<Rightarrow> (VectorImpl \<times> 'a heap) run" where
  "vector_clear re al v h = shrink re al 0 (mCount v) v h"

definition finish_vector :: "VectorImpl \<Rightarrow> 'a heap \<Rightarrow> (VectorImpl \<times> 'a heap) run" where
  "finish_vector v h = map_option (Pair (v\<lparr>mStorage := 0, mCount := 0\<rparr>)) (release_storage v h)"

definition setCapacity :: "u32 \<Rightarrow> u32 \<Rightarrow> VectorImpl \<Rightarrow> 'a heap \<Rightarrow> (s32 \<times> VectorImpl \<times> 'a heap) run" where
  "setCapacity al new_capacity v h = do {
     current_capacity \<leftarrow> capacity v h;
     if sint (new_capacity - mCount v) \<le> 0 then Some (sint current_capacity, v, h)
     else (case sb_alloc al (new_capacity * mItemSize v) (mItemSize v) h of (sb, h1) \<Rightarrow>
       if sb \<noteq> 0 then do {
         h2 \<leftarrow> do_copy v sb 0 (At (mStorage v) 0) (unat (mCount v)) h1;
         h3 \<leftarrow> release_storage v h2;
         Some (sint new_capacity, v\<lparr>mStorage := sb\<rparr>, h3)
       } else Some (NO_MEMORY, v, h))
   }"

definition vector_resize :: "u32 \<Rightarrow> u32 \<Rightarrow> 'a \<Rightarrow> u32 \<Rightarrow> VectorImpl \<Rightarrow> 'a heap \<Rightarrow> (s32 \<times> VectorImpl \<times> 'a heap) run" where
  "vector_resize re al ini size_b v h = do {
     (res, v1, h1) \<leftarrow>
       (if size_b > mCount v then insertAt re al ini None (mCount v) (size_b - mCount v) v h
        else if size_b < mCount v then removeItemsAt re al size_b (mCount v - size_b) v h
        else Some (NO_ERROR, v, h));
     Some (if res < 0 then res else sint size_b, v1, h1)
   }"

section \<open>Sorting\<close>

text \<open>The loop that moves the items greater than \<open>x\<close> up by one, starting with the item at \<open>j\<close>, and puts \<open>x\<close> into the gap.\<close>

definition sort_place :: "traits \<Rightarrow> 'a \<Rightarrow> nat \<Rightarrow> 'a option list \<Rightarrow> 'a option list run" where
  "sort_place t x j c = do { c1 \<leftarrow> destroy_type j 1 c; write_cells t j [x] c1 }"

definition sort_up :: "traits \<Rightarrow> nat \<Rightarrow> 'a option list \<Rightarrow> 'a option list run" where
  "sort_up t j c = do { c1 \<leftarrow> destroy_type (Suc j) 1 c; ys \<leftarrow> read_cells j 1 c1; write_cells t (Suc j) ys c1 }"

primrec sort_shift :: "traits \<Rightarrow> ('a \<Rightarrow> 'a \<Rightarrow> int) \<Rightarrow> 'a \<Rightarrow> nat \<Rightarrow> 'a option list \<Rightarrow> 'a option list run" where
  "sort_shift t cmp x 0 c = do { c1 \<leftarrow> sort_up t 0 c; sort_place t x 0 c1 }"
| "sort_shift t cmp x (Suc j) c = do {
     c1 \<leftarrow> sort_up t (Suc j) c;
     zs \<leftarrow> read_cells j 1 c1;
     if cmp (hd zs) x > 0 then sort_shift t cmp x j c1 else sort_place t x (Suc j) c1
   }"

text \<open>One round of the outer loop; \<open>temp\<close> is whether the temporary item is allocated, and a result other than \<open>NO_ERROR\<close> ends the loop.\<close>

definition sort_round :: "u32 \<Rightarrow> bool \<Rightarrow> ('a \<Rightarrow> 'a \<Rightarrow> int) \<Rightarrow> nat \<Rightarrow> bool \<Rightarrow> VectorImpl \<Rightarrow> 'a heap \<Rightarrow> (s32 \<times> bool \<times> VectorImpl \<times> 'a heap) run" where
  "sort_round al mal cmp i temp v h = do {
     xs \<leftarrow> deref (At (mStorage v) (i - 1)) 2 h;
     if cmp (xs ! 0) (xs ! 1) > 0 then
       if temp then map_option (\<lambda>h1. (NO_ERROR, True, v, h1)) (on_cells (mStorage v) (sort_shift (mFlags v) cmp (xs ! 1) (i - 1)) h)
       else do {
         (v1, h1) \<leftarrow> editArrayImpl al v h;
         if mStorage v1 = 0 then Some (NO_MEMORY, False, v1, h1)
         else if \<not> mal then Some (NO_MEMORY, False, v1, h1)
         else do {
           ys \<leftarrow> deref (At (mStorage v1) i) 1 h1;
           h2 \<leftarrow> on_cells (mStorage v1) (sort_shift (mFlags v1) cmp (hd ys) (i - 1)) h1;
           Some (NO_ERROR, True, v1, h2)
         }
       }
     else Some (NO_ERROR, temp, v, h)
   }"

fun sort_loop :: "u32 \<Rightarrow> bool \<Rightarrow> ('a \<Rightarrow> 'a \<Rightarrow> int) \<Rightarrow> nat list \<Rightarrow> bool \<Rightarrow> VectorImpl \<Rightarrow> 'a heap \<Rightarrow> (s32 \<times> VectorImpl \<times> 'a heap) run" where
  "sort_loop al mal cmp [] temp v h = Some (NO_ERROR, v, h)"
| "sort_loop al mal cmp (i # is) temp v h =
     (case sort_round al mal cmp i temp v h of None \<Rightarrow> None
      | Some (r, temp1, v1, h1) \<Rightarrow> if r \<noteq> NO_ERROR then Some (r, v1, h1) else sort_loop al mal cmp is temp1 v1 h1)"

definition vector_sort :: "u32 \<Rightarrow> bool \<Rightarrow> ('a \<Rightarrow> 'a \<Rightarrow> int) \<Rightarrow> VectorImpl \<Rightarrow> 'a heap \<Rightarrow> (s32 \<times> VectorImpl \<times> 'a heap) run" where
  "vector_sort al mal cmp v h =
     (let count = sint (mCount v) in if count > 1 then sort_loop al mal cmp [1..<nat count] False v h else Some (NO_ERROR, v, h))"

section \<open>Sorted vectors\<close>

text \<open>The binary search; \<open>f\<close> compares the item at an index with the one that is looked for.\<close>

function order_loop :: "(int \<Rightarrow> int run) \<Rightarrow> int \<Rightarrow> int \<Rightarrow> (s32 \<times> int) run" where
  "order_loop f l h =
     (if l \<le> h then
        let mid = l + (h - l) div 2 in
        (case f mid of None \<Rightarrow> None | Some c \<Rightarrow>
           if c = 0 then Some (mid, mid) else if c < 0 then order_loop f (mid + 1) h else order_loop f l (mid - 1))
      else Some (NAME_NOT_FOUND, l))"
  by pat_completeness auto
termination
  by (relation "measure (\<lambda>(f, l, h). nat (h + 1 - l))") (auto simp: Let_def)

definition indexOrderOf :: "('a \<Rightarrow> 'a \<Rightarrow> int) \<Rightarrow> 'a \<Rightarrow> VectorImpl \<Rightarrow> 'a heap \<Rightarrow> (s32 \<times> int) run" where
  "indexOrderOf cmp item v h =
     order_loop (\<lambda>mid. map_option (\<lambda>xs. cmp (hd xs) item) (deref (At (mStorage v) (nat mid)) 1 h)) 0 (sint (mCount v - 1))"

definition indexOf :: "('a \<Rightarrow> 'a \<Rightarrow> int) \<Rightarrow> 'a \<Rightarrow> VectorImpl \<Rightarrow> 'a heap \<Rightarrow> s32 run" where
  "indexOf cmp item v h = map_option fst (indexOrderOf cmp item v h)"

definition orderOf :: "('a \<Rightarrow> 'a \<Rightarrow> int) \<Rightarrow> 'a \<Rightarrow> VectorImpl \<Rightarrow> 'a heap \<Rightarrow> int run" where
  "orderOf cmp item v h = map_option snd (indexOrderOf cmp item v h)"

definition sorted_add :: "u32 \<Rightarrow> u32 \<Rightarrow> ('a \<Rightarrow> 'a \<Rightarrow> int) \<Rightarrow> 'a \<Rightarrow> VectorImpl \<Rightarrow> 'a heap \<Rightarrow> (s32 \<times> VectorImpl \<times> 'a heap) run" where
  "sorted_add re al cmp item v h = do {
     (index, order) \<leftarrow> indexOrderOf cmp item v h;
     if index < 0 then insertAt re al item (Some (Ext [item])) (word_of_int order) 1 v h
     else replaceAt al item (Some (Ext [item])) (word_of_int index) v h
   }"

definition sorted_remove_item :: "u32 \<Rightarrow> u32 \<Rightarrow> ('a \<Rightarrow> 'a \<Rightarrow> int) \<Rightarrow> 'a \<Rightarrow> VectorImpl \<Rightarrow> 'a heap \<Rightarrow> (s32 \<times> VectorImpl \<times> 'a heap) run" where
  "sorted_remove_item re al cmp item v h = do {
     i \<leftarrow> indexOf cmp item v h;
     if i \<ge> 0 then map_option (\<lambda>(_, v1, h1). (i, v1, h1)) (removeItemsAt re al (word_of_int i) 1 v h) else Some (i, v, h)
   }"

text \<open>\<open>als\<close> has the outcomes of the allocations of each addition.\<close>

fun merge_each :: "(nat \<Rightarrow> u32 \<times> u32) \<Rightarrow> ('a \<Rightarrow> 'a \<Rightarrow> int) \<Rightarrow> VectorImpl \<Rightarrow> nat list \<Rightarrow> VectorImpl \<Rightarrow> 'a heap \<Rightarrow> (s32 \<times> VectorImpl \<times> 'a heap) run" where
  "merge_each als cmp w [] v h = Some (NO_ERROR, v, h)"
| "merge_each als cmp w (i # is) v h =
     (case deref (At (mStorage w) i) 1 h of None \<Rightarrow> None | Some xs \<Rightarrow>
       (case sorted_add (fst (als i)) (snd (als i)) cmp (hd xs) v h of None \<Rightarrow> None
        | Some (err, v1, h1) \<Rightarrow> if err < 0 then Some (err, v1, h1) else merge_each als cmp w is v1 h1))"

definition merge_vector :: "(nat \<Rightarrow> u32 \<times> u32) \<Rightarrow> ('a \<Rightarrow> 'a \<Rightarrow> int) \<Rightarrow> VectorImpl \<Rightarrow> VectorImpl \<Rightarrow> 'a heap \<Rightarrow> (s32 \<times> VectorImpl \<times> 'a heap) run" where
  "merge_vector als cmp w v h = (if mCount w \<noteq> 0 then merge_each als cmp w [0..<unat (mCount w)] v h else Some (NO_ERROR, v, h))"

definition merge_sorted :: "(nat \<Rightarrow> u32 \<times> u32) \<Rightarrow> ('a \<Rightarrow> 'a \<Rightarrow> int) \<Rightarrow> VectorImpl \<Rightarrow> VectorImpl \<Rightarrow> 'a heap \<Rightarrow> (s32 \<times> VectorImpl \<times> 'a heap) run" where
  "merge_sorted als cmp w v h =
     (if mCount w \<noteq> 0 then do {
        last_w \<leftarrow> deref (At (mStorage w) (cell w (mCount w - 1))) 1 h;
        first_v \<leftarrow> deref (At (mStorage v) 0) 1 h;
        if cmp (hd last_w) (hd first_v) \<le> 0 then insertVectorAt (fst (als 0)) (snd (als 0)) w 0 v h
        else do {
          first_w \<leftarrow> deref (At (mStorage w) 0) 1 h;
          last_v \<leftarrow> deref (At (mStorage v) (cell v (mCount v - 1))) 1 h;
          if cmp (hd first_w) (hd last_v) \<ge> 0 then appendVector (fst (als 0)) (snd (als 0)) w v h
          else merge_vector als cmp w v h
        }
      } else Some (NO_ERROR, v, h))"

end
