(* ===== verification/Vector_Refine.thy ===== *)
theory Vector_Refine
  imports Utils_Vector
begin

text \<open>
  The vectors implement lists, and sharing is invisible: an operation on one vector has the effect of the list operation on it and none on the other
  vectors, whatever storage they share. No item is read, destroyed or overwritten at a wrong time.
\<close>

section \<open>Cells\<close>

lemma read_cells_live: "read_cells (length p) (length xs) (p @ map Some xs @ q) = Some xs"
  by (auto simp: read_cells_def o_def)

lemma read_cells_first: "n \<le> length xs \<Longrightarrow> read_cells 0 n (map Some xs @ q) = Some (take n xs)"
  by (auto simp: read_cells_def take_map o_def)

lemma write_cells_dead:
  "length xs = length m \<Longrightarrow> has_trivial_dtor t \<or> set m \<subseteq> {None} \<Longrightarrow> write_cells t (length p) xs (p @ m @ q) = Some (p @ map Some xs @ q)"
  by (simp add: write_cells_def)

lemma destroy_live: "destroy_type (length p) (length xs) (p @ map Some xs @ q) = Some (p @ replicate (length xs) None @ q)"
  by (auto simp: destroy_type_def)

lemma dead_replicate: "set (replicate n None) \<subseteq> {None}"
  by auto

lemma forward_loop_moves:
  "0 < a \<Longrightarrow> a \<le> length q \<Longrightarrow> has_trivial_dtor t \<or> set (take a q) \<subseteq> {None} \<Longrightarrow>
   \<exists>m. forward_loop t (length p + a) (length p) (length xs) (p @ map Some xs @ q) = Some (p @ m @ map Some xs @ drop a q) \<and> length m = a \<and>
     (has_trivial_dtor t \<or> set m \<subseteq> {None})"
proof (induction xs arbitrary: q rule: rev_induct)
  case Nil
  then show ?case by (intro exI [of _ "take a q"]) simp
next
  case (snoc x xs)
  obtain b where b: "a = Suc b" using snoc.prems(1) by (cases a) auto
  define q1 where "q1 = take b q" define y where "y = q ! b" define q2 where "q2 = drop a q"
  have q: "q = q1 @ y # q2" "length q1 = b" using snoc.prems(2) b by (simp_all add: q1_def y_def q2_def Cons_nth_drop_Suc)
  let ?p = "p @ map Some xs"
  have r: "read_cells (length p + length xs) 1 (p @ map Some (xs @ [x]) @ q) = Some [x]"
    using read_cells_live [of ?p "[x]" q] by simp
  have w: "write_cells t (length p + a + length xs) [x] (p @ map Some (xs @ [x]) @ q) = Some (?p @ [Some x] @ q1 @ Some x # q2)"
    using write_cells_dead [of "[x]" "[y]" t "?p @ Some x # q1" q2] snoc.prems(3) q b by (auto simp: ac_simps)
  have d: "destroy_type (length p + length xs) 1 (?p @ [Some x] @ q1 @ Some x # q2) = Some (p @ map Some xs @ None # q1 @ Some x # q2)"
    using destroy_live [of ?p "[x]" "q1 @ Some x # q2"] by simp
  have "\<exists>m. forward_loop t (length p + a) (length p) (length xs) (p @ map Some xs @ None # q1 @ Some x # q2) =
      Some (p @ m @ map Some xs @ Some x # q2) \<and> length m = a \<and> (has_trivial_dtor t \<or> set m \<subseteq> {None})"
    using snoc.IH [of "None # q1 @ Some x # q2"] snoc.prems(1,3) q b by auto
  then show ?case using r w d by (simp add: q2_def [symmetric])
qed

lemma backward_loop_moves:
  "0 < length m \<Longrightarrow> has_trivial_dtor t \<or> set m \<subseteq> {None} \<Longrightarrow>
   \<exists>m'. backward_loop t (length p) (length p + length m) (length xs) (p @ m @ map Some xs @ q) = Some (p @ map Some xs @ m' @ q) \<and> length m' = length m \<and>
     (has_trivial_dtor t \<or> set m' \<subseteq> {None})"
proof (induction xs arbitrary: p m)
  case (Cons x xs)
  obtain y m1 where m: "m = y # m1" using Cons.prems(1) by (cases m) auto
  have r: "read_cells (length p + length m) 1 (p @ m @ map Some (x # xs) @ q) = Some [x]"
    using read_cells_live [of "p @ m" "[x]" "map Some xs @ q"] by simp
  have w: "write_cells t (length p) [x] (p @ m @ map Some (x # xs) @ q) = Some (p @ Some x # m1 @ Some x # map Some xs @ q)"
    using write_cells_dead [of "[x]" "[y]" t p "m1 @ Some x # map Some xs @ q"] Cons.prems(2) m by auto
  have d: "destroy_type (length p + length m) 1 (p @ Some x # m1 @ Some x # map Some xs @ q) = Some ((p @ [Some x]) @ (m1 @ [None]) @ map Some xs @ q)"
    using destroy_live [of "p @ Some x # m1" "[x]" "map Some xs @ q"] m by simp
  have "\<exists>m'. backward_loop t (length (p @ [Some x])) (length (p @ [Some x]) + length (m1 @ [None])) (length xs) ((p @ [Some x]) @ (m1 @ [None]) @ map Some xs @ q) =
      Some ((p @ [Some x]) @ map Some xs @ m' @ q) \<and> length m' = length (m1 @ [None]) \<and> (has_trivial_dtor t \<or> set m' \<subseteq> {None})"
    by (rule Cons.IH) (use Cons.prems(2) m in auto)
  then show ?case using r w d m by simp
qed simp

lemma write_cells_at:
  "i + length xs \<le> length c \<Longrightarrow> has_trivial_dtor t \<or> set (take (length xs) (drop i c)) \<subseteq> {None} \<Longrightarrow>
   write_cells t (length p + i) xs (p @ c) = Some (p @ take i c @ map Some xs @ drop (i + length xs) c)"
  by (simp add: write_cells_def)

lemma gap_dead: "set (take n (drop a (replicate n None @ q))) \<subseteq> {None} \<union> set (take a q)"
proof (cases "a \<le> n")
  case False
  then have "take n (drop (a - n) q) = drop (a - n) (take a q)" by (simp add: take_drop)
  then show ?thesis using False by (auto dest: in_set_dropD)
qed auto

lemma move_forward_moves:
  assumes "0 < a" "a \<le> length q" "has_trivial_dtor t \<or> set (take a q) \<subseteq> {None}"
  shows "\<exists>m. move_forward_type t (length p + a) (length p) (length xs) (p @ map Some xs @ q) = Some (p @ m @ map Some xs @ drop a q) \<and> length m = a \<and>
     (has_trivial_dtor t \<or> set m \<subseteq> {None})"
proof (cases "memmovable t")
  case False
  then show ?thesis using forward_loop_moves [OF assms] by (simp add: move_forward_type_def)
next
  case True
  let ?c = "replicate (length xs) None @ q"
  have "has_trivial_dtor t \<or> set (take (length xs) (drop a ?c)) \<subseteq> {None}" using assms(3) gap_dead [of "length xs" a q] by blast
  then have w: "write_cells t (length p + a) xs (p @ ?c) = Some (p @ take a ?c @ map Some xs @ drop a q)"
    using write_cells_at [of a xs ?c t p] assms(2) by simp
  have "has_trivial_dtor t \<or> set (take a ?c) \<subseteq> {None}" using assms(3) by (auto dest: in_set_takeD) (meson in_mono set_take_subset_set_take diff_le_self singletonD)
  then show ?thesis using True w assms(2) read_cells_live [of p xs q] destroy_live [of p xs q]
    by (intro exI [of _ "take a ?c"]) (simp add: move_forward_type_def memmove_cells_def)
qed

lemma move_backward_moves:
  assumes "0 < length m" "has_trivial_dtor t \<or> set m \<subseteq> {None}"
  shows "\<exists>m'. move_backward_type t (length p) (length p + length m) (length xs) (p @ m @ map Some xs @ q) = Some (p @ map Some xs @ m' @ q) \<and>
     length m' = length m \<and> (has_trivial_dtor t \<or> set m' \<subseteq> {None})"
proof (cases "memmovable t")
  case False
  then show ?thesis using backward_loop_moves [OF assms] by (simp add: move_backward_type_def)
next
  case True
  let ?c = "m @ replicate (length xs) None"
  have "has_trivial_dtor t \<or> set (take (length xs) ?c) \<subseteq> {None}" "has_trivial_dtor t \<or> set (drop (length xs) ?c) \<subseteq> {None}"
    using assms(2) by (auto dest: in_set_takeD in_set_dropD)
  moreover from this have "write_cells t (length p) xs (p @ ?c @ q) = Some (p @ map Some xs @ drop (length xs) ?c @ q)"
    using write_cells_at [of 0 xs "?c @ q" t p] by simp
  moreover have "read_cells (length p + length m) (length xs) (p @ m @ map Some xs @ q) = Some xs"
    "destroy_type (length p + length m) (length xs) (p @ m @ map Some xs @ q) = Some (p @ ?c @ q)"
    using read_cells_live [of "p @ m" xs q] destroy_live [of "p @ m" xs q] by simp_all
  ultimately show ?thesis using True
    by (intro exI [of _ "drop (length xs) ?c"]) (simp add: move_backward_type_def memmove_cells_def)
qed

section \<open>Vectors and their owners\<close>

definition stores :: "VectorImpl \<Rightarrow> 'a SharedBuffer \<Rightarrow> 'a list \<Rightarrow> bool" where
  "stores v b xs = (\<exists>q. cells b = map Some xs @ q \<and> (has_trivial_dtor (mFlags v) \<or> set q \<subseteq> {None}) \<and>
     length (cells b) = unat (mSize b) div unat (mItemSize v) \<and> unat (mSize b) + 16 < 2 ^ 32)"

definition holds :: "VectorImpl \<Rightarrow> 'a heap \<Rightarrow> 'a list \<Rightarrow> bool" where
  "holds v h xs = (mItemSize v \<noteq> 0 \<and> length xs = unat (mCount v) \<and>
     (if mStorage v = 0 then xs = [] else \<exists>b. h (mStorage v) = Some b \<and> stores v b xs))"

definition owners :: "u32 \<Rightarrow> VectorImpl list \<Rightarrow> nat" where
  "owners a vs = length (filter (\<lambda>v. mStorage v = a) vs)"

text \<open>Every buffer counts the vectors that use it.\<close>

definition refs :: "'a heap \<Rightarrow> VectorImpl list \<Rightarrow> bool" where
  "refs h vs = (\<forall>a b. h a = Some b \<longrightarrow> a \<noteq> 0 \<and> mRefs b = int (owners a vs) \<and> 0 < owners a vs)"

definition all_hold :: "'a heap \<Rightarrow> VectorImpl list \<Rightarrow> bool" where
  "all_hold h vs = (\<forall>w \<in> set vs. \<exists>ys. holds w h ys)"

definition keeps :: "'a heap \<Rightarrow> 'a heap \<Rightarrow> VectorImpl list \<Rightarrow> bool" where
  "keeps h h' vs = (\<forall>w \<in> set vs. \<forall>ys. holds w h ys \<longrightarrow> holds w h' ys)"

text \<open>The state of a vector \<open>v\<close> among others, and what an operation leaves of it.\<close>

definition vec :: "VectorImpl \<Rightarrow> 'a heap \<Rightarrow> VectorImpl list \<Rightarrow> 'a list \<Rightarrow> bool" where
  "vec v h vs xs = (holds v h xs \<and> refs h (v # vs) \<and> all_hold h vs)"

definition becomes :: "VectorImpl \<Rightarrow> 'a heap \<Rightarrow> VectorImpl list \<Rightarrow> VectorImpl \<Rightarrow> 'a heap \<Rightarrow> 'a list \<Rightarrow> bool" where
  "becomes v h vs v' h' xs = (vec v' h' vs xs \<and> keeps h h' vs \<and> mFlags v' = mFlags v \<and> mItemSize v' = mItemSize v)"

lemma keeps_trans: "keeps h h1 vs \<Longrightarrow> keeps h1 h2 vs \<Longrightarrow> keeps h h2 vs"
  by (simp add: keeps_def)

lemma keeps_all_hold: "keeps h h' vs \<Longrightarrow> all_hold h vs \<Longrightarrow> all_hold h' vs"
  unfolding keeps_def all_hold_def by blast

lemma becomes_trans: "becomes v h vs v1 h1 xs \<Longrightarrow> becomes v1 h1 vs v2 h2 ys \<Longrightarrow> becomes v h vs v2 h2 ys"
  by (auto simp: becomes_def intro: keeps_trans)

lemma becomes_refl: "vec v h vs xs \<Longrightarrow> becomes v h vs v h xs"
  by (simp add: becomes_def keeps_def)

lemma holds_cong: "(mStorage w \<noteq> 0 \<Longrightarrow> h' (mStorage w) = h (mStorage w)) \<Longrightarrow> holds w h' ys = holds w h ys"
  by (simp add: holds_def)

lemma holds_refcount:
  assumes "h a = Some b" "cells b' = cells b" "mSize b' = mSize b"
  shows "holds w (h(a \<mapsto> b')) ys = holds w h ys"
  using assms by (auto simp: holds_def stores_def)

lemma owners_Cons: "owners a (v # vs) = (if mStorage v = a then 1 else 0) + owners a vs"
  by (simp add: owners_def)

lemma owners_pos: "0 < owners a vs \<longleftrightarrow> (\<exists>w \<in> set vs. mStorage w = a)"
  by (auto simp: owners_def filter_empty_conv)

lemma storage_dom: "holds w h ys \<Longrightarrow> mStorage w \<noteq> 0 \<Longrightarrow> h (mStorage w) \<noteq> None"
  by (auto simp: holds_def)

lemma fresh_unowned: "all_hold h vs \<Longrightarrow> h a = None \<Longrightarrow> a \<noteq> 0 \<Longrightarrow> owners a vs = 0"
  using owners_pos [of a vs] storage_dom unfolding all_hold_def by fastforce

lemma refsD: "refs h vs \<Longrightarrow> h a = Some b \<Longrightarrow> a \<noteq> 0 \<and> mRefs b = int (owners a vs) \<and> 0 < owners a vs"
  by (simp add: refs_def)

lemma refsI: "(\<And>a b. h a = Some b \<Longrightarrow> a \<noteq> 0 \<and> mRefs b = int (owners a vs) \<and> 0 < owners a vs) \<Longrightarrow> refs h vs"
  by (simp add: refs_def)

section \<open>Giving up storage\<close>

lemma release_storage_ok:
  assumes v: "holds v h xs" and r: "refs h (v # vs)"
  shows "\<exists>h'. release_storage v h = Some h' \<and> keeps h h' vs \<and> refs h' vs \<and> (\<forall>a. a \<noteq> mStorage v \<longrightarrow> h' a = h a)"
proof (cases "mStorage v = 0")
  case True
  have "refs h vs"
  proof (rule refsI)
    show "a \<noteq> 0 \<and> mRefs b = int (owners a vs) \<and> 0 < owners a vs" if "h a = Some b" for a b
      using refsD [OF r that] True by (simp add: owners_Cons split: if_splits)
  qed
  then show ?thesis using True by (simp add: release_storage_def keeps_def)
next
  case False
  let ?a = "mStorage v"
  obtain b q where b: "h ?a = Some b" "cells b = map Some xs @ q" "length xs = unat (mCount v)"
    using v False by (auto simp: holds_def stores_def)
  have rb: "mRefs b = 1 + int (owners ?a vs)" using r b(1) by (auto simp: refs_def owners_Cons)
  have other: "h x = Some y \<Longrightarrow> x \<noteq> ?a \<Longrightarrow> x \<noteq> 0 \<and> mRefs y = int (owners x vs) \<and> 0 < owners x vs" for x y
    using refsD [OF r, of x y] by (auto simp: owners_Cons)
  show ?thesis
  proof (cases "owners ?a vs = 0")
    case True
    have "destroy_type 0 (length xs) (cells b) = Some (replicate (length xs) None @ q)" using destroy_live [of "[]" xs q] b(2) by simp
    then have "release_storage v h = Some (h(?a := None))"
      using False True b rb by (simp add: release_storage_def sb_release_def onlyOwner_def do_destroy_def on_cells_def sb_dealloc_def)
    moreover have "keeps h (h(?a := None)) vs"
      unfolding keeps_def using True owners_pos [of ?a vs] by (metis fun_upd_other holds_cong less_irrefl_nat)
    moreover have "refs (h(?a := None)) vs" using other by (auto simp: refs_def)
    ultimately show ?thesis by (intro exI [of _ "h(?a := None)"]) simp
  next
    case n: False
    let ?h = "h(?a \<mapsto> b\<lparr>mRefs := mRefs b - 1\<rparr>)"
    have "release_storage v h = Some ?h" using False n b rb by (simp add: release_storage_def sb_release_def onlyOwner_def)
    moreover have "keeps h ?h vs" unfolding keeps_def using holds_refcount [of h ?a b "b\<lparr>mRefs := mRefs b - 1\<rparr>"] b(1) by simp
    moreover have "refs ?h vs" using other rb n False by (auto simp: refs_def)
    ultimately show ?thesis by (intro exI [of _ ?h]) simp
  qed
qed

text \<open>The new storage at \<open>sb\<close> replaces the old one.\<close>

lemma install_gen:
  assumes v: "vec v h vs xs" and sb: "sb \<noteq> 0" "h sb = None" and b: "mRefs b = 1"
  shows "\<exists>h'. release_storage v (h(sb \<mapsto> b)) = Some h' \<and> keeps h h' vs \<and> refs h' (v\<lparr>mStorage := sb, mCount := n\<rparr> # vs) \<and> h' sb = Some b"
proof -
  let ?v = "v\<lparr>mStorage := sb, mCount := n\<rparr>" and ?h = "h(sb \<mapsto> b)"
  have hv: "holds v h xs" "refs h (v # vs)" "all_hold h vs" using v by (simp_all add: vec_def)
  have nv: "mStorage v \<noteq> sb" using storage_dom [OF hv(1)] sb by auto
  have k: "keeps h ?h vs"
    unfolding keeps_def using storage_dom sb by (metis fun_upd_other holds_cong)
  have v1: "holds v ?h xs" using hv(1) holds_cong [of v ?h h] nv by simp
  have "owners sb vs = 0" using fresh_unowned [OF hv(3) sb(2,1)] .
  then have "refs ?h (v # ?v # vs)" using hv(2) sb b nv by (auto simp: refs_def owners_Cons split: if_splits)
  then obtain h' where h': "release_storage v ?h = Some h'" "keeps ?h h' (?v # vs)" "refs h' (?v # vs)" "\<forall>a. a \<noteq> mStorage v \<longrightarrow> h' a = ?h a"
    using release_storage_ok [OF v1] by blast
  have "keeps ?h h' vs" using h'(2) by (auto simp: keeps_def)
  then show ?thesis using h' nv keeps_trans [OF k] by auto
qed

lemma becomesI:
  assumes "vec v h vs xs" "keeps h h' vs" "refs h' (v' # vs)" "mStorage v' \<noteq> 0" "h' (mStorage v') = Some b" "stores v b ys" "length ys = unat (mCount v')"
    "mFlags v' = mFlags v" "mItemSize v' = mItemSize v"
  shows "becomes v h vs v' h' ys"
  using assms keeps_all_hold by (auto simp: becomes_def vec_def holds_def stores_def)

lemma install_ok:
  assumes v: "vec v h vs xs" and sb: "sb \<noteq> 0" "h sb = None" and b: "mRefs b = 1" "stores v b ys" "length ys = unat n"
  shows "\<exists>h'. release_storage v (h(sb \<mapsto> b)) = Some h' \<and> becomes v h vs (v\<lparr>mStorage := sb, mCount := n\<rparr>) h' ys \<and> h' sb = Some b"
proof -
  obtain h' where h': "release_storage v (h(sb \<mapsto> b)) = Some h'" "keeps h h' vs" "refs h' (v\<lparr>mStorage := sb, mCount := n\<rparr> # vs)" "h' sb = Some b"
    using install_gen [OF v sb b(1)] by blast
  then show ?thesis using becomesI [OF v h'(2,3) _ _ b(2)] sb b(3) by simp
qed

lemma own_gen:
  assumes v: "vec v h vs xs" and b: "mStorage v \<noteq> 0" "h (mStorage v) = Some b" "mRefs b = 1" and b': "mRefs b' = 1"
  shows "keeps h (h(mStorage v \<mapsto> b')) vs" "refs (h(mStorage v \<mapsto> b')) (v\<lparr>mCount := n\<rparr> # vs)"
proof -
  have r: "refs h (v # vs)" using v by (simp add: vec_def)
  have o: "owners (mStorage v) vs = 0" using refsD [OF r b(2)] b(3) by (simp add: owners_Cons)
  then have "mStorage w \<noteq> mStorage v" if "w \<in> set vs" for w using owners_pos [of "mStorage v" vs] that by auto
  then show "keeps h (h(mStorage v \<mapsto> b')) vs" unfolding keeps_def using holds_cong by (metis fun_upd_other)
  show "refs (h(mStorage v \<mapsto> b')) (v\<lparr>mCount := n\<rparr> # vs)"
  proof (rule refsI)
    fix a c assume "(h(mStorage v \<mapsto> b')) a = Some c"
    then show "a \<noteq> 0 \<and> mRefs c = int (owners a (v\<lparr>mCount := n\<rparr> # vs)) \<and> 0 < owners a (v\<lparr>mCount := n\<rparr> # vs)"
      using refsD [OF r, of a] b b' o by (auto simp: owners_Cons split: if_splits)
  qed
qed

section \<open>Copy before change\<close>

lemma room_fits: "unat s + 16 < 2 ^ 32 \<Longrightarrow> room s z = unat s div unat z"
proof -
  assume a: "unat s + 16 < 2 ^ 32"
  have c: "unat (16 :: u32) = 16" by code_simp
  have "unat (16 + s) = (unat (16 :: u32) + unat s) mod 2 ^ 32" by (simp add: unat_word_ariths)
  then have "unat (16 + s) = 16 + unat s" unfolding c using a by (simp add: add.commute)
  then show ?thesis by (simp add: room_def)
qed

lemma mult_fits: "unat m * unat z < 2 ^ 32 \<Longrightarrow> unat (m * z :: u32) = unat m * unat z"
  by (simp add: unat_word_ariths)

lemma cell_fits: "mItemSize v \<noteq> 0 \<Longrightarrow> unat i * unat (mItemSize v) < 2 ^ 32 \<Longrightarrow> cell v i = unat i"
  by (simp add: cell_def mult_fits unat_eq_0)

lemma capacity_stored:
  assumes "holds v h xs" "mStorage v \<noteq> 0" "h (mStorage v) = Some b"
  shows "capacity v h = Some (mSize b div mItemSize v)" "unat (mSize b div mItemSize v) = length (cells b)"
    "length (cells b) * unat (mItemSize v) + 16 < 2 ^ 32" "length xs \<le> length (cells b)"
proof -
  have s: "stores v b xs" using assms by (simp add: holds_def)
  show "capacity v h = Some (mSize b div mItemSize v)" using assms(2,3) by (simp add: capacity_def)
  show "unat (mSize b div mItemSize v) = length (cells b)" using s by (auto simp: stores_def unat_div)
  show "length xs \<le> length (cells b)" using s by (auto simp: stores_def)
  have l: "length (cells b) = unat (mSize b) div unat (mItemSize v)" "unat (mSize b) + 16 < 2 ^ 32" using s unfolding stores_def by blast+
  have "length (cells b) * unat (mItemSize v) \<le> unat (mSize b)" unfolding l(1) by (rule div_times_less_eq_dividend)
  then show "length (cells b) * unat (mItemSize v) + 16 < 2 ^ 32" using l(2) by linarith
qed

lemma new_stores:
  assumes "mItemSize v \<noteq> 0" "unat m * unat (mItemSize v) + 16 < 2 ^ 32" "length xs \<le> unat m"
  shows "stores v \<lparr>mRefs = 1, mSize = m * mItemSize v, cells = map Some xs @ replicate (unat m - length xs) None\<rparr> xs"
    "room (m * mItemSize v) (mItemSize v) = unat m" "m * mItemSize v div mItemSize v = m"
proof -
  have e: "unat (m * mItemSize v) = unat m * unat (mItemSize v)" by (rule mult_fits) (use assms(2) in simp)
  have z: "unat (mItemSize v) \<noteq> 0" using assms(1) by (simp add: unat_eq_0)
  show "stores v \<lparr>mRefs = 1, mSize = m * mItemSize v, cells = map Some xs @ replicate (unat m - length xs) None\<rparr> xs"
    using assms(2,3) z by (auto simp: stores_def e)
  show "room (m * mItemSize v) (mItemSize v) = unat m" using room_fits [of "m * mItemSize v" "mItemSize v"] assms(2) z by (simp add: e)
  show "m * mItemSize v div mItemSize v = m" using z by (simp add: word_unat_eq_iff unat_div e)
qed

definition usable :: "u32 \<Rightarrow> 'a heap \<Rightarrow> bool" where
  "usable a h = (a \<noteq> 0 \<and> h a = None)"

definition sole :: "VectorImpl \<Rightarrow> 'a heap \<Rightarrow> bool" where
  "sole v h = (\<exists>b. h (mStorage v) = Some b \<and> mRefs b = 1)"

lemma editArrayImpl_ok:
  assumes v: "vec v h vs xs" and al: "usable al h" and st: "mStorage v \<noteq> 0"
  shows "\<exists>v' h'. editArrayImpl al v h = Some (v', h') \<and> becomes v h vs v' h' xs \<and> mCount v' = mCount v \<and> mStorage v' \<noteq> 0 \<and> sole v' h' \<and>
    capacity v' h' = capacity v h"
proof -
  have hv: "holds v h xs" using v by (simp add: vec_def)
  obtain b where b: "h (mStorage v) = Some b" "stores v b xs" "length xs = unat (mCount v)" "mItemSize v \<noteq> 0" using hv st by (auto simp: holds_def)
  note cap = capacity_stored [OF hv st b(1)]
  show ?thesis
  proof (cases "mRefs b = 1")
    case True
    then show ?thesis using b st becomes_refl [OF v] by (simp add: editArrayImpl_def attemptEdit_def onlyOwner_def sole_def)
  next
    case False
    let ?m = "mSize b div mItemSize v"
    let ?b = "\<lparr>mRefs = 1, mSize = ?m * mItemSize v, cells = map Some xs @ replicate (unat ?m - length xs) None\<rparr>"
    have n: "stores v ?b xs" "room (?m * mItemSize v) (mItemSize v) = unat ?m" "?m * mItemSize v div mItemSize v = ?m" by (rule new_stores; use b(4) cap in simp)+
    have al': "al \<noteq> 0" "h al = None" "al \<noteq> mStorage v" using al b(1) by (auto simp: usable_def)
    obtain q where q: "cells b = map Some xs @ q" using b(2) by (auto simp: stores_def)
    have w: "write_cells (mFlags v) 0 xs (replicate (unat ?m) None) = Some (cells ?b)"
      using write_cells_at [of 0 xs "replicate (unat ?m) None" "mFlags v" "[]"] cap by (simp add: dead_replicate)
    have c: "do_copy v al 0 (At (mStorage v) 0) (unat (mCount v)) (h(al \<mapsto> \<lparr>mRefs = 1, mSize = ?m * mItemSize v, cells = replicate (unat ?m) None\<rparr>)) =
        Some (h(al \<mapsto> ?b))"
      using b(1,3) al' q w read_cells_first [of "length xs" xs q] by (cases "mCount v = 0") (simp_all add: do_copy_def on_cells_def unat_eq_0)
    obtain h' where h': "release_storage v (h(al \<mapsto> ?b)) = Some h'" "becomes v h vs (v\<lparr>mStorage := al, mCount := mCount v\<rparr>) h' xs" "h' al = Some ?b"
      using install_ok [OF v al'(1,2) _ n(1) b(3)] by auto
    have e: "editArrayImpl al v h = Some (v\<lparr>mStorage := al\<rparr>, h')"
      using st b(1) False cap(1) al'(1) c h'(1) n(2) by (simp add: editArrayImpl_def attemptEdit_def onlyOwner_def sb_alloc_def)
    have "capacity (v\<lparr>mStorage := al\<rparr>) h' = capacity v h"
      using cap(1) h'(3) al'(1) n(3) by (simp add: capacity_def)
    then show ?thesis using e h' al'(1) by (simp add: sole_def)
  qed
qed

section \<open>Resizing in place\<close>

definition re_usable :: "u32 \<Rightarrow> VectorImpl \<Rightarrow> 'a heap \<Rightarrow> bool" where
  "re_usable re v h = (re = 0 \<or> re = mStorage v \<or> h re = None)"

lemma realloc_ok:
  assumes v: "vec v h vs xs" and st: "mStorage v \<noteq> 0" "h (mStorage v) = Some b" "mRefs b = 1" and re: "re \<noteq> 0" "re_usable re v h" and b': "mRefs b' = 1"
  shows "keeps h ((h(mStorage v := None))(re \<mapsto> b')) vs" "refs ((h(mStorage v := None))(re \<mapsto> b')) (v\<lparr>mStorage := re\<rparr> # vs)"
proof -
  let ?h = "(h(mStorage v := None))(re \<mapsto> b')"
  have r: "refs h (v # vs)" and a: "all_hold h vs" using v by (simp_all add: vec_def)
  have o: "owners (mStorage v) vs = 0" using refsD [OF r st(2)] st(3) by (simp add: owners_Cons)
  have o2: "owners re vs = 0" using fresh_unowned [OF a] re o by (auto simp: re_usable_def)
  have "mStorage w \<noteq> mStorage v \<and> mStorage w \<noteq> re" if "w \<in> set vs" for w
    using owners_pos [of "mStorage v" vs] owners_pos [of re vs] o o2 that by auto
  then show "keeps h ?h vs" unfolding keeps_def using holds_cong by (metis fun_upd_other)
  show "refs ?h (v\<lparr>mStorage := re\<rparr> # vs)"
  proof (rule refsI)
    fix x c assume "?h x = Some c"
    then show "x \<noteq> 0 \<and> mRefs c = int (owners x (v\<lparr>mStorage := re\<rparr> # vs)) \<and> 0 < owners x (v\<lparr>mStorage := re\<rparr> # vs)"
      using refsD [OF r, of x] re b' o2 by (auto simp: owners_Cons split: if_splits)
  qed
qed

lemma sb_release_is:
  assumes "holds v h xs" "mStorage v \<noteq> 0"
  shows "release_storage v h = map_option snd (sb_release False (mStorage v) h)"
proof -
  obtain b q where b: "h (mStorage v) = Some b" "cells b = map Some xs @ q" "length xs = unat (mCount v)"
    using assms by (auto simp: holds_def stores_def)
  have "destroy_type 0 (length xs) (cells b) = Some (replicate (length xs) None @ q)" using destroy_live [of "[]" xs q] b(2) by simp
  then show ?thesis using assms(2) b
    by (simp add: release_storage_def sb_release_def onlyOwner_def do_destroy_def on_cells_def sb_dealloc_def)
qed

lemma min_div:
  assumes "0 < (z :: nat)"
  shows "(if m * z < s then m * z else s) div z = min m (s div z)"
proof (cases "m * z < s")
  case True
  then show ?thesis using div_le_mono [of "m * z" s z] assms by simp
next
  case False
  then show ?thesis using div_le_mono [of s "m * z" z] assms by simp
qed

lemma editResize_ok:
  assumes v: "vec v h vs xs" and st: "mStorage v \<noteq> 0" "h (mStorage v) = Some b" and al: "usable al h" and re: "re_usable re v h"
    and m: "unat m * unat (mItemSize v) + 16 < 2 ^ 32"
  shows "\<exists>sb h' b'. editResize re al (m * mItemSize v) (mItemSize v) (mStorage v) h = Some (sb, h') \<and> sb \<noteq> 0 \<and> keeps h h' vs \<and>
    refs h' (v\<lparr>mStorage := sb\<rparr> # vs) \<and> h' sb = Some b' \<and> mRefs b' = 1 \<and> mSize b' = m * mItemSize v \<and> cells b' = recell (unat m) (cells b)"
proof -
  have hv: "holds v h xs" "refs h (v # vs)" using v by (simp_all add: vec_def)
  have z: "mItemSize v \<noteq> 0" using hv(1) by (simp add: holds_def)
  note n = new_stores [OF z m, of "[]"]
  have e: "unat (m * mItemSize v) = unat m * unat (mItemSize v)" by (rule mult_fits) (use m in simp)
  have zn: "unat (mItemSize v) \<noteq> 0" using z by (simp add: unat_eq_0)
  have len: "length (cells b) = unat (mSize b) div unat (mItemSize v)" using hv(1) st by (auto simp: holds_def stores_def)
  show ?thesis
  proof (cases "mRefs b = 1 \<and> (mSize b = m * mItemSize v \<or> re \<noteq> 0)")
    case True
    show ?thesis
    proof (cases "mSize b = m * mItemSize v")
      case same: True
      then have "length (cells b) = unat m" using len zn by (simp add: e)
      then show ?thesis using True same st hv(2) by (simp add: editResize_def onlyOwner_def keeps_def recell_def)
    next
      case False
      let ?b = "b\<lparr>mSize := m * mItemSize v, cells := recell (unat m) (cells b)\<rparr>"
      have "editResize re al (m * mItemSize v) (mItemSize v) (mStorage v) h = Some (re, (h(mStorage v := None))(re \<mapsto> ?b))"
        using True False st n(2) by (simp add: editResize_def onlyOwner_def)
      then show ?thesis using True False realloc_ok [OF v st _ _ re, of ?b] by auto
    qed
  next
    case False
    define k where "k = unat (if m * mItemSize v < mSize b then m * mItemSize v else mSize b) div unat (mItemSize v)"
    let ?b = "\<lparr>mRefs = 1, mSize = m * mItemSize v, cells = take k (cells b) @ replicate (unat m - k) None\<rparr>"
    have k: "k = min (unat m) (length (cells b))"
      using min_div [of "unat (mItemSize v)" "unat m" "unat (mSize b)"] zn by (cases "unat m * unat (mItemSize v) < unat (mSize b)") (simp_all add: k_def len word_less_nat_alt e)
    have al': "al \<noteq> 0" "h al = None" "al \<noteq> mStorage v" using al st(2) by (auto simp: usable_def)
    obtain h' where h': "release_storage v (h(al \<mapsto> ?b)) = Some h'" "keeps h h' vs" "refs h' (v\<lparr>mStorage := al, mCount := mCount v\<rparr> # vs)" "h' al = Some ?b"
      using install_gen [OF v al'(1,2), where b = ?b and n = "mCount v"] by auto
    have "release_storage v (h(al \<mapsto> ?b)) = map_option snd (sb_release False (mStorage v) (h(al \<mapsto> ?b)))"
      using holds_cong [of v "h(al \<mapsto> ?b)" h] al'(3) hv(1) by (intro sb_release_is [OF _ st(1)]) auto
    then have "map_option (\<lambda>(_, h2). (al, h2)) (sb_release False (mStorage v) (h(al \<mapsto> ?b))) = Some (al, h')"
      using h'(1) by (cases "sb_release False (mStorage v) (h(al \<mapsto> ?b))") auto
    moreover have "\<not> (mRefs b = 1 \<and> (mSize b = m * mItemSize v))" "\<not> (mRefs b = 1 \<and> re \<noteq> 0)" using False by auto
    ultimately have "editResize re al (m * mItemSize v) (mItemSize v) (mStorage v) h = Some (al, h')"
      using st(2) al' n(2) k by (simp add: editResize_def onlyOwner_def sb_alloc_def Let_def k_def [symmetric])
    moreover have "cells ?b = recell (unat m) (cells b)" using k by (auto simp: recell_def min_def)
    ultimately show ?thesis using h' al'(1) by simp
  qed
qed

section \<open>Making room\<close>

text \<open>Room for \<open>n\<close> items between \<open>xs\<close> and \<open>ys\<close>, in storage of its own.\<close>

definition gap :: "VectorImpl \<Rightarrow> 'a heap \<Rightarrow> VectorImpl list \<Rightarrow> VectorImpl \<Rightarrow> 'a heap \<Rightarrow> 'a list \<Rightarrow> nat \<Rightarrow> 'a list \<Rightarrow> bool" where
  "gap v h vs v' h' xs n ys = (keeps h h' vs \<and> refs h' (v' # vs) \<and> mStorage v' \<noteq> 0 \<and> mFlags v' = mFlags v \<and> mItemSize v' = mItemSize v \<and>
     (\<exists>b m q. h' (mStorage v') = Some b \<and> mRefs b = 1 \<and> cells b = map Some xs @ m @ map Some ys @ q \<and> length m = n \<and>
        (has_trivial_dtor (mFlags v) \<or> set m \<subseteq> {None} \<and> set q \<subseteq> {None}) \<and>
        length (cells b) = unat (mSize b) div unat (mItemSize v) \<and> unat (mSize b) + 16 < 2 ^ 32))"

lemma gapI:
  assumes "keeps h h' vs" "refs h' (v' # vs)" "mStorage v' \<noteq> 0" "mFlags v' = mFlags v" "mItemSize v' = mItemSize v"
    "h' (mStorage v') = Some b" "mRefs b = 1" "cells b = map Some xs @ m @ map Some ys @ q" "length m = n"
    "has_trivial_dtor (mFlags v) \<or> set m \<subseteq> {None} \<and> set q \<subseteq> {None}"
    "length (cells b) = unat (mSize b) div unat (mItemSize v)" "unat (mSize b) + 16 < 2 ^ 32"
  shows "gap v h vs v' h' xs n ys"
  unfolding gap_def using assms by auto

text \<open>The two copies into a new buffer, of the items before and behind the place of the change.\<close>

lemma copy_parts:
  assumes z: "mItemSize v \<noteq> 0" and m: "unat m * unat (mItemSize v) + 16 < 2 ^ 32" "d + length ys \<le> unat m" "length xs \<le> d"
    and p: "p \<longleftrightarrow> xs \<noteq> []" "q \<longleftrightarrow> ys \<noteq> []" and a: "a \<noteq> al"
    and src: "xs \<noteq> [] \<Longrightarrow> deref (At a 0) (length xs) h = Some xs" "ys \<noteq> [] \<Longrightarrow> deref (At a i) (length ys) h = Some ys"
  shows "\<exists>h1. (if p then do_copy v al 0 (At a 0) (length xs) (h(al \<mapsto> \<lparr>mRefs = 1, mSize = s, cells = replicate (unat m) None\<rparr>))
      else Some (h(al \<mapsto> \<lparr>mRefs = 1, mSize = s, cells = replicate (unat m) None\<rparr>))) = Some h1 \<and>
    (if q then do_copy v al d (At a i) (length ys) h1 else Some h1) = Some (h(al \<mapsto> \<lparr>mRefs = 1, mSize = s,
       cells = map Some xs @ replicate (d - length xs) None @ map Some ys @ replicate (unat m - (d + length ys)) None\<rparr>))"
proof -
  let ?b0 = "\<lparr>mRefs = 1, mSize = s, cells = replicate (unat m) None\<rparr>" and ?r = "replicate (unat m - length xs) None"
  define b1 where "b1 = ?b0\<lparr>cells := map Some xs @ ?r\<rparr>"
  let ?q = "replicate (unat m - (d + length ys)) None"
  have src': "deref (At a j) n (h(al \<mapsto> b)) = deref (At a j) n h" for b j n using a by simp
  have "write_cells (mFlags v) 0 xs (replicate (unat m) None) = Some (map Some xs @ ?r)"
    using write_cells_at [of 0 xs "replicate (unat m) None" "mFlags v" "[]"] m by (simp add: dead_replicate)
  then have c1: "(if p then do_copy v al 0 (At a 0) (length xs) (h(al \<mapsto> ?b0)) else Some (h(al \<mapsto> ?b0))) = Some (h(al \<mapsto> b1))"
    using src(1) p(1) by (cases "xs = []") (simp_all only: do_copy_def src' on_cells_def b1_def, simp_all)
  have "write_cells (mFlags v) d ys (map Some xs @ ?r) = Some (map Some xs @ replicate (d - length xs) None @ map Some ys @ ?q)"
    using write_cells_at [of "d - length xs" ys ?r "mFlags v" "map Some xs"] m by (simp add: dead_replicate)
  then have "(if q then do_copy v al d (At a i) (length ys) (h(al \<mapsto> b1)) else Some (h(al \<mapsto> b1))) = Some (h(al \<mapsto> \<lparr>mRefs = 1, mSize = s,
       cells = map Some xs @ replicate (d - length xs) None @ map Some ys @ ?q\<rparr>))"
    using src(2) p(2) m by (cases "ys = []") (simp_all only: do_copy_def src' on_cells_def b1_def, simp_all add: replicate_add [symmetric])
  then show ?thesis using c1 by (intro exI [of _ "h(al \<mapsto> b1)"] conjI)
qed

lemma stored_parts:
  assumes "holds v h (xs @ zs @ ys)"
  shows "xs \<noteq> [] \<Longrightarrow> deref (At (mStorage v) 0) (length xs) h = Some xs" "ys \<noteq> [] \<Longrightarrow> deref (At (mStorage v) (length xs + length zs)) (length ys) h = Some ys"
proof -
  have e: "\<exists>b q. h (mStorage v) = Some b \<and> cells b = map Some (xs @ zs @ ys) @ q" if "xs \<noteq> [] \<or> ys \<noteq> []"
    using assms that by (auto simp: holds_def stores_def split: if_splits)
  show "deref (At (mStorage v) 0) (length xs) h = Some xs" if "xs \<noteq> []" using e that read_cells_first [of "length xs" xs] by auto
  show "deref (At (mStorage v) (length xs + length zs)) (length ys) h = Some ys" if "ys \<noteq> []"
    using e that read_cells_live [of "map Some (xs @ zs)" ys] by auto
qed

lemma gap_new:
  assumes v: "vec v h vs (xs @ ys)" and al: "usable al h" and m: "unat m * unat (mItemSize v) + 16 < 2 ^ 32" "length xs + n + length ys \<le> unat m"
    and w: "length xs = unat where_b" "unat (where_b + amount) = length xs + n"
    and t: "\<not> (mStorage v \<noteq> 0 \<and> mCount v = where_b \<and> has_trivial_copy (mFlags v) \<and> has_trivial_dtor (mFlags v))"
  shows "\<exists>v' h'. grow_storage re al m where_b amount v h = Some (True, v', h') \<and> gap v h vs (v'\<lparr>mCount := k\<rparr>) h' xs n ys"
proof -
  have hv: "holds v h (xs @ ys)" using v by (simp add: vec_def)
  have z: "mItemSize v \<noteq> 0" "unat (mItemSize v) \<noteq> 0" and c: "length xs + length ys = unat (mCount v)" using hv by (auto simp: holds_def unat_eq_0)
  have al': "al \<noteq> 0" "h al = None" "mStorage v \<noteq> al" using al storage_dom [OF hv] by (auto simp: usable_def)
  note ns = new_stores [OF z(1) m(1), of "[]", simplified]
  have fit: "i * unat (mItemSize v) < 2 ^ 32" if "i \<le> unat m" for i using that m(1) mult_le_mono1 [OF that, of "unat (mItemSize v)"] by linarith
  have cw: "cell v where_b = length xs" "cell v (where_b + amount) = length xs + n"
    using cell_fits [OF z(1), of where_b] cell_fits [OF z(1), of "where_b + amount"] fit [of "length xs"] fit [of "length xs + n"] w m(2) by auto
  have "where_b \<le> mCount v" using w(1) c by (simp add: word_le_nat_alt)
  then have u: "unat (mCount v - where_b) = length ys" using w(1) c by (simp add: unat_sub)
  have "where_b = 0 \<longleftrightarrow> length xs = 0" by (simp add: w(1) unat_eq_0)
  moreover have "where_b = mCount v \<longleftrightarrow> length ys = 0" unfolding word_unat_eq_iff using w(1) c by linarith
  ultimately have pq: "where_b \<noteq> 0 \<longleftrightarrow> xs \<noteq> []" "where_b \<noteq> mCount v \<longleftrightarrow> ys \<noteq> []" by simp_all
  have src: "xs \<noteq> [] \<Longrightarrow> deref (At (mStorage v) 0) (length xs) h = Some xs" "ys \<noteq> [] \<Longrightarrow> deref (At (mStorage v) (length xs)) (length ys) h = Some ys"
    using stored_parts [of v h xs "[]" ys] hv by (simp_all del: deref.simps)
  define b2 where "b2 = \<lparr>mRefs = 1, mSize = m * mItemSize v,
    cells = map Some xs @ replicate n None @ map Some ys @ replicate (unat m - (length xs + n + length ys)) None\<rparr>"
  let ?h0 = "h(al \<mapsto> \<lparr>mRefs = 1, mSize = m * mItemSize v, cells = replicate (unat m) None\<rparr>)"
  obtain h1 where h1: "(if where_b \<noteq> 0 then do_copy v al 0 (At (mStorage v) 0) (length xs) ?h0 else Some ?h0) = Some h1"
      "(if where_b \<noteq> mCount v then do_copy v al (length xs + n) (At (mStorage v) (length xs)) (length ys) h1 else Some h1) = Some (h(al \<mapsto> b2))"
    using copy_parts [OF z(1) m(1) _ _ pq al'(3) src, where d = "length xs + n" and s = "m * mItemSize v"] m(2)
    unfolding b2_def by auto
  obtain h' where h': "release_storage v (h(al \<mapsto> b2)) = Some h'" "keeps h h' vs" "refs h' (v\<lparr>mStorage := al, mCount := k\<rparr> # vs)" "h' al = Some b2"
    using install_gen [OF v al'(1,2), of b2 k] by (auto simp: b2_def)
  have e: "unat (m * mItemSize v) = unat m * unat (mItemSize v)" by (rule mult_fits) (use m in simp)
  have "gap v h vs (v\<lparr>mStorage := al, mCount := k\<rparr>) h' xs n ys"
    by (rule gapI [OF h'(2,3) _ _ _ _ _ _ _ _]) (use al'(1) h'(4) z m e in \<open>auto simp: b2_def\<close>)
  moreover have "grow_storage re al m where_b amount v h = Some (True, v\<lparr>mStorage := al\<rparr>, h')"
    using t al'(1) ns(2) cw u w(1) h1 h'(1) unfolding grow_storage_def sb_alloc_def by (simp only: if_False) simp
  ultimately show ?thesis by (intro exI [of _ "v\<lparr>mStorage := al\<rparr>"] exI [of _ h']) simp
qed

text \<open>There is no overflow in the computation of the new capacity.\<close>

definition fits :: "VectorImpl \<Rightarrow> nat \<Rightarrow> bool" where
  "fits v n = (let k = unat (mCount v) + n in 3 * k + 1 < 2 ^ 32 \<and> max 4 ((3 * k + 1) div 2) * unat (mItemSize v) + 16 < 2 ^ 32)"

definition new_cap :: "u32 \<Rightarrow> u32" where
  "new_cap new_size = max kMinVectorCapacity ((new_size * 3 + 1) div 2)"

lemma add_fits: "unat m + unat n < 2 ^ 32 \<Longrightarrow> unat (m + n :: u32) = unat m + unat n"
  by (simp add: unat_word_ariths)

lemma new_cap_unat:
  assumes "3 * unat k + 1 < 2 ^ 32"
  shows "unat (new_cap k) = max 4 ((3 * unat k + 1) div 2)" "unat k \<le> unat (new_cap k)"
proof -
  have c: "unat (3 :: u32) = 3" "unat (2 :: u32) = 2" "unat (1 :: u32) = 1" by code_simp+
  have "unat (k * 3) = 3 * unat k" using mult_fits [of k 3] assms by (simp add: c mult.commute)
  then have "unat (k * 3 + 1) = 3 * unat k + 1" using add_fits [of "k * 3" 1] assms by (simp add: c)
  then have "unat ((k * 3 + 1) div 2) = (3 * unat k + 1) div 2" by (simp add: unat_div c)
  then show e: "unat (new_cap k) = max 4 ((3 * unat k + 1) div 2)"
    by (simp add: new_cap_def kMinVectorCapacity_def max_def word_le_nat_alt)
  show "unat k \<le> unat (new_cap k)" unfolding e by simp
qed

lemma gap_location:
  assumes g: "gap v h vs v' h' xs n ys" and n: "0 < n" and w: "unat w = length xs"
  shows "itemLocation w v' h' = Some True"
proof -
  obtain b m q where b: "h' (mStorage v') = Some b" "cells b = map Some xs @ m @ map Some ys @ q" "length m = n"
    "length (cells b) = unat (mSize b) div unat (mItemSize v)" and s: "mStorage v' \<noteq> 0" "mItemSize v' = mItemSize v"
    using g unfolding gap_def by blast
  have "unat w < unat (mSize b div mItemSize v)" using b n w by (simp add: unat_div)
  then show ?thesis using b(1) s by (simp add: itemLocation_def capacity_def word_less_nat_alt)
qed

lemma grow_inplace:
  assumes v: "vec v h vs (xs @ ys)" and al: "usable al h" and w: "unat w = length xs" "unat (w + amount) = length xs + n" "0 < n"
    and c: "mStorage v \<noteq> 0" "capacity v h = Some cap" "length xs + n + length ys \<le> unat cap"
  shows "\<exists>v' h'. (do { (v1, h1) \<leftarrow> editArrayImpl al v h;
     h2 \<leftarrow> if w \<noteq> mCount v then on_cells (mStorage v1) (move_forward_type (mFlags v) (cell v (w + amount)) (cell v w) (unat (mCount v - w))) h1 else Some h1;
     Some (True, v1, h2) }) = Some (True, v', h') \<and> gap v h vs (v'\<lparr>mCount := k\<rparr>) h' xs n ys"
proof -
  obtain v1 h1 where e: "editArrayImpl al v h = Some (v1, h1)" "becomes v h vs v1 h1 (xs @ ys)" "mCount v1 = mCount v" "mStorage v1 \<noteq> 0" "sole v1 h1"
      "capacity v1 h1 = capacity v h"
    using editArrayImpl_ok [OF v al c(1)] by blast
  have f: "mFlags v1 = mFlags v" "mItemSize v1 = mItemSize v" and v1: "vec v1 h1 vs (xs @ ys)" "keeps h h1 vs" and hv: "holds v1 h1 (xs @ ys)"
    using e(2) by (simp_all add: becomes_def vec_def)
  obtain b where b: "h1 (mStorage v1) = Some b" "mRefs b = 1" using e(5) by (auto simp: sole_def)
  then obtain q where q: "cells b = map Some (xs @ ys) @ q" "has_trivial_dtor (mFlags v) \<or> set q \<subseteq> {None}"
      "length (cells b) = unat (mSize b) div unat (mItemSize v)" "unat (mSize b) + 16 < 2 ^ 32"
    using hv e(4) f by (auto simp: holds_def stores_def)
  note cs = capacity_stored [OF hv e(4) b(1)]
  have nq: "n \<le> length q" using cs(1,2) c(2,3) e(6) q(1) by simp
  have cnt: "length xs + length ys = unat (mCount v)" and z: "mItemSize v \<noteq> 0" using hv e(3) f by (auto simp: holds_def)
  have fit: "i * unat (mItemSize v) < 2 ^ 32" if "i \<le> length (cells b)" for i
    using cs(3) [unfolded f(2)] mult_le_mono1 [OF that, of "unat (mItemSize v)"] by linarith
  have cw: "cell v w = length xs" "cell v (w + amount) = length xs + n"
    using cell_fits [OF z, of w] cell_fits [OF z, of "w + amount"] fit [of "length xs"] fit [of "length xs + n"] w q(1) nq by auto
  show ?thesis
  proof (cases "w = mCount v")
    case True
    then have "ys = []" using w(1) cnt by simp
    have "gap v h vs (v1\<lparr>mCount := k\<rparr>) h1 xs n ys"
    proof (rule gapI [where m = "take n q" and q = "drop n q"])
      show "refs h1 (v1\<lparr>mCount := k\<rparr> # vs)" using own_gen(2) [OF v1(1) e(4) b(1,2,2), of k] b(1) by (simp add: fun_upd_idem)
    qed (use v1 e(4) f b q nq \<open>ys = []\<close> in \<open>auto dest: in_set_takeD in_set_dropD\<close>)
    then show ?thesis using True e(1) by (intro exI [of _ v1] exI [of _ h1]) simp
  next
    case False
    have "w \<le> mCount v" using w(1) cnt by (simp add: word_le_nat_alt)
    then have u: "unat (mCount v - w) = length ys" using w(1) cnt by (simp add: unat_sub)
    have "has_trivial_dtor (mFlags v) \<or> set (take n q) \<subseteq> {None}" using q(2) by (auto dest: in_set_takeD)
    then obtain m where m: "move_forward_type (mFlags v) (length (map Some xs) + n) (length (map Some xs)) (length ys) (map Some xs @ map Some ys @ q) =
        Some (map Some xs @ m @ map Some ys @ drop n q)" "length m = n" "has_trivial_dtor (mFlags v) \<or> set m \<subseteq> {None}"
      using move_forward_moves [OF w(3) nq, of "mFlags v" "map Some xs" ys] by blast
    define b' where "b' = b\<lparr>cells := map Some xs @ m @ map Some ys @ drop n q\<rparr>"
    have o: "on_cells (mStorage v1) (move_forward_type (mFlags v) (cell v (w + amount)) (cell v w) (unat (mCount v - w))) h1 = Some (h1(mStorage v1 \<mapsto> b'))"
      using b(1) q(1) m(1) cw u by (simp add: on_cells_def b'_def)
    have "mRefs b' = 1" using b(2) by (simp add: b'_def)
    then have kr: "keeps h1 (h1(mStorage v1 \<mapsto> b')) vs" "refs (h1(mStorage v1 \<mapsto> b')) (v1\<lparr>mCount := k\<rparr> # vs)"
      using own_gen [OF v1(1) e(4) b(1,2)] by blast+
    have "gap v h vs (v1\<lparr>mCount := k\<rparr>) (h1(mStorage v1 \<mapsto> b')) xs n ys"
      by (rule gapI [OF keeps_trans [OF v1(2) kr(1)] kr(2), where b = b' and m = m and q = "drop n q"])
        (use e(4) f b q m nq in \<open>auto simp: b'_def dest: in_set_dropD\<close>)
    then show ?thesis using False e(1) o by (intro exI [of _ v1] exI [of _ "h1(mStorage v1 \<mapsto> b')"]) simp
  qed
qed

lemma refs_count: "refs h (v\<lparr>mCount := k\<rparr> # vs) = refs h (v # vs)"
  by (simp add: refs_def owners_Cons)

lemma grow_resize:
  assumes v: "vec v h vs xs" and al: "usable al h" and re: "re_usable re v h" and m: "unat m * unat (mItemSize v) + 16 < 2 ^ 32" "length xs + n \<le> unat m"
    and t: "mStorage v \<noteq> 0" "has_trivial_copy (mFlags v)" "has_trivial_dtor (mFlags v)"
  shows "\<exists>v' h'. grow_storage re al m (mCount v) amount v h = Some (True, v', h') \<and> gap v h vs (v'\<lparr>mCount := k\<rparr>) h' xs n []"
proof -
  have hv: "holds v h xs" using v by (simp add: vec_def)
  obtain b q where b: "h (mStorage v) = Some b" "cells b = map Some xs @ q" using hv t(1) by (auto simp: holds_def stores_def)
  have z: "unat (mItemSize v) \<noteq> 0" using hv by (simp add: holds_def unat_eq_0)
  obtain sb h' b' where s: "editResize re al (m * mItemSize v) (mItemSize v) (mStorage v) h = Some (sb, h')" "sb \<noteq> 0" "keeps h h' vs"
      "refs h' (v\<lparr>mStorage := sb\<rparr> # vs)" "h' sb = Some b'" "mRefs b' = 1" "mSize b' = m * mItemSize v" "cells b' = recell (unat m) (cells b)"
    using editResize_ok [OF v t(1) b(1) al re m(1)] by blast
  have e: "unat (m * mItemSize v) = unat m * unat (mItemSize v)" by (rule mult_fits) (use m in simp)
  define r where "r = recell (unat m - length xs) q"
  have c: "cells b' = map Some xs @ r" "length r = unat m - length xs" using s(8) b(2) m(2) by (simp_all add: recell_def r_def)
  have "gap v h vs (v\<lparr>mStorage := sb, mCount := k\<rparr>) h' xs n []"
    by (rule gapI [OF s(3), where b = b' and m = "take n r" and q = "drop n r"])
      (use s(2,5-7) s(4) [THEN refs_count [THEN iffD2], of k] c m t(3) z e in auto)
  then show ?thesis using s(1,2) t by (intro exI [of _ "v\<lparr>mStorage := sb\<rparr>"] exI [of _ h']) (simp add: grow_storage_def)
qed

theorem grow_ok:
  assumes v: "vec v h vs (xs @ ys)" and al: "usable al h" and re: "re_usable re v h" and w: "unat w = length xs" and n: "0 < unat amount"
    and f: "fits v (unat amount)"
  shows "\<exists>v' h'. grow re al w amount v h = Some (True, v', h') \<and> mCount v' = mCount v + amount \<and> gap v h vs v' h' xs (unat amount) ys"
proof -
  have hv: "holds v h (xs @ ys)" using v by (simp add: vec_def)
  have cnt: "length xs + length ys = unat (mCount v)" using hv by (simp add: holds_def)
  define N where "N = mCount v + amount"
  have N: "unat N = length xs + length ys + unat amount" using add_fits [of "mCount v" amount] f cnt by (simp add: N_def fits_def Let_def)
  have wa: "unat (w + amount) = length xs + unat amount" using add_fits [of w amount] f cnt w by (simp add: fits_def Let_def)
  have f1: "3 * unat N + 1 < 2 ^ 32" "max 4 ((3 * unat N + 1) div 2) * unat (mItemSize v) + 16 < 2 ^ 32"
    using f N cnt by (simp_all add: fits_def Let_def add.commute)
  note nc = new_cap_unat [OF f1(1)]
  have M: "unat (new_cap N) * unat (mItemSize v) + 16 < 2 ^ 32" using f1(2) by (simp only: nc)
  have le: "length xs + unat amount + length ys \<le> unat (new_cap N)" using nc(2) N by simp
  obtain cap where cap: "capacity v h = Some cap" using hv by (auto simp: holds_def capacity_def split: if_splits)
  let ?triv = "mStorage v \<noteq> 0 \<and> mCount v = w \<and> has_trivial_copy (mFlags v) \<and> has_trivial_dtor (mFlags v)"
  have "\<exists>v1 h1. (if cap < N then grow_storage re al (new_cap N) w amount v h
        else do {
          (v1, h1) \<leftarrow> editArrayImpl al v h;
          h2 \<leftarrow> if w \<noteq> mCount v then on_cells (mStorage v1) (move_forward_type (mFlags v) (cell v (w + amount)) (cell v w) (unat (mCount v - w))) h1 else Some h1;
          Some (True, v1, h2)
        }) = Some (True, v1, h1) \<and> gap v h vs (v1\<lparr>mCount := N\<rparr>) h1 xs (unat amount) ys"
  proof (cases "cap < N")
    case True
    show ?thesis
    proof (cases ?triv)
      case t: True
      then have y: "ys = []" using cnt w by simp
      then show ?thesis using True t grow_resize [of v h vs xs al re "new_cap N" "unat amount" amount N] v al re M le by auto
    next
      case False
      show ?thesis using True False gap_new [OF v al M le w [symmetric] wa False, of re N] by auto
    qed
  next
    case False
    then have "unat N \<le> unat cap" by (simp add: word_less_nat_alt)
    then have c: "length xs + unat amount + length ys \<le> unat cap" "mStorage v \<noteq> 0" using N n cap by (auto simp: capacity_def)
    show ?thesis using grow_inplace [OF v al w wa n c(2) cap c(1), of N] False by simp
  qed
  then obtain v1 h1 where g: "(if cap < N then grow_storage re al (new_cap N) w amount v h
        else do {
          (v1, h1) \<leftarrow> editArrayImpl al v h;
          h2 \<leftarrow> if w \<noteq> mCount v then on_cells (mStorage v1) (move_forward_type (mFlags v) (cell v (w + amount)) (cell v w) (unat (mCount v - w))) h1 else Some h1;
          Some (True, v1, h2)
        }) = Some (True, v1, h1)" "gap v h vs (v1\<lparr>mCount := N\<rparr>) h1 xs (unat amount) ys" by blast
  have "itemLocation w (v1\<lparr>mCount := N\<rparr>) h1 = Some True" by (rule gap_location [OF g(2) n w])
  then have "grow re al w amount v h = Some (True, v1\<lparr>mCount := N\<rparr>, h1)"
    using g(1) unfolding grow_def cap N_def [symmetric] new_cap_def [symmetric] by (simp add: Let_def N_def [symmetric] new_cap_def [symmetric])
  then show ?thesis using g(2) by (simp add: N_def)
qed

section \<open>Insertion\<close>

lemma gap_fill:
  assumes v: "vec v h vs xs0" and g: "gap v h vs v' h' xs n ys" and w: "unat w = length xs" and c: "unat (mCount v') = length xs + n + length ys"
    and src: "deref src n h' = Some zs" "length zs = n" "0 < n"
  shows "\<exists>h2. do_copy v' (mStorage v') (cell v' w) src n h' = Some h2 \<and> becomes v h vs v' h2 (xs @ zs @ ys)"
proof -
  obtain b m q where b: "h' (mStorage v') = Some b" "mRefs b = 1" "cells b = map Some xs @ m @ map Some ys @ q" "length m = n"
      "has_trivial_dtor (mFlags v) \<or> set m \<subseteq> {None} \<and> set q \<subseteq> {None}"
      "length (cells b) = unat (mSize b) div unat (mItemSize v)" "unat (mSize b) + 16 < 2 ^ 32"
    and g': "keeps h h' vs" "refs h' (v' # vs)" "mStorage v' \<noteq> 0" "mFlags v' = mFlags v" "mItemSize v' = mItemSize v"
    using g unfolding gap_def by blast
  have z: "mItemSize v' \<noteq> 0" using v g'(5) by (simp add: vec_def holds_def)
  have "unat w * unat (mItemSize v') \<le> length (cells b) * unat (mItemSize v')" using w b(3) by (intro mult_le_mono1) simp
  also have "\<dots> \<le> unat (mSize b)" unfolding b(6) g'(5) by (rule div_times_less_eq_dividend)
  finally have cw: "cell v' w = length xs" using cell_fits [OF z, of w] b(7) w by simp
  define b' where "b' = b\<lparr>cells := map Some xs @ map Some zs @ map Some ys @ q\<rparr>"
  have "write_cells (mFlags v') (length (map Some xs)) zs (map Some xs @ m @ map Some ys @ q) = Some (map Some xs @ map Some zs @ map Some ys @ q)"
    by (rule write_cells_dead) (use src(2) b(4,5) g'(4) in auto)
  then have d: "do_copy v' (mStorage v') (cell v' w) src n h' = Some (h'(mStorage v' \<mapsto> b'))"
    using src b(1,3) cw by (simp add: do_copy_def on_cells_def b'_def)
  have st: "stores v b' (xs @ zs @ ys)" using b src(2) by (auto simp: stores_def b'_def)
  have o: "owners (mStorage v') vs = 0" using refsD [OF g'(2) b(1)] b(2) by (simp add: owners_Cons)
  then have nw: "mStorage w \<noteq> mStorage v'" if "w \<in> set vs" for w using owners_pos [of "mStorage v'" vs] that by auto
  have "keeps h' (h'(mStorage v' \<mapsto> b')) vs" unfolding keeps_def using holds_cong nw by (metis fun_upd_other)
  moreover have "refs (h'(mStorage v' \<mapsto> b')) (v' # vs)" using g'(2) b(1,2) by (auto simp: refs_def b'_def)
  ultimately have "becomes v h vs v' (h'(mStorage v' \<mapsto> b')) (xs @ zs @ ys)"
    using becomesI [OF v keeps_trans [OF g'(1)] _ g'(3) _ st] src(2) c g'(4,5) by simp
  then show ?thesis using d by blast
qed

lemma split_at: "i \<le> length xs \<Longrightarrow> \<exists>ys zs. xs = ys @ zs \<and> length ys = i \<and> take i xs = ys \<and> drop i xs = zs"
  by (rule exI [of _ "take i xs"], rule exI [of _ "drop i xs"]) simp

lemma insertAt_ok:
  assumes v: "vec v h vs xs" and al: "usable al h" "re_usable re v h" and f: "fits v (unat n)" "0 < unat n" and i: "unat i \<le> length xs"
    and p: "p = None \<and> x = ini \<or> p = Some (Ext [x])"
  shows "\<exists>v' h'. insertAt re al ini p i n v h = Some (sint i, v', h') \<and> becomes v h vs v' h' (take (unat i) xs @ replicate (unat n) x @ drop (unat i) xs)"
proof -
  obtain ys zs where yz: "xs = ys @ zs" "length ys = unat i" "take (unat i) xs = ys" "drop (unat i) xs = zs" using split_at [OF i] by blast
  have cnt: "length xs = unat (mCount v)" using v by (simp add: vec_def holds_def)
  then have le: "\<not> i > mCount v" using i by (simp add: word_less_nat_alt)
  obtain v1 h1 where g: "grow re al i n v h = Some (True, v1, h1)" "mCount v1 = mCount v + n" "gap v h vs v1 h1 ys (unat n) zs"
    using grow_ok [of v h vs ys zs al re i n] v al f yz by auto
  have c: "unat (mCount v1) = length ys + unat n + length zs"
    using add_fits [of "mCount v" n] f(1) cnt yz(1) by (simp add: g(2) fits_def Let_def)
  obtain h2 where h2: "do_copy v1 (mStorage v1) (cell v1 i) (Ext (replicate (unat n) x)) (unat n) h1 = Some h2" "becomes v h vs v1 h2 (ys @ replicate (unat n) x @ zs)"
    using gap_fill [OF v g(3) yz(2) [symmetric] c, of "Ext (replicate (unat n) x)"] f(2) by auto
  have "n \<noteq> 0" using f(2) by auto
  then have "insertAt re al ini p i n v h = Some (sint i, v1, h2)"
    using le g(1) h2(1) p by (auto simp: insertAt_def)
  then show ?thesis using h2(2) yz by auto
qed

lemma insertVectorAt_ok:
  assumes v: "vec v h vs xs" and al: "usable al h" "re_usable re v h" and w: "w \<in> set vs" "holds w h ws" "ws \<noteq> []" and f: "fits v (length ws)"
    and i: "unat i \<le> length xs"
  shows "\<exists>v' h'. insertVectorAt re al w i v h = Some (sint i, v', h') \<and> becomes v h vs v' h' (take (unat i) xs @ ws @ drop (unat i) xs)"
proof -
  obtain ys zs where yz: "xs = ys @ zs" "length ys = unat i" "take (unat i) xs = ys" "drop (unat i) xs = zs" using split_at [OF i] by blast
  have cnt: "length xs = unat (mCount v)" using v by (simp add: vec_def holds_def)
  then have le: "\<not> i > mCount v" using i by (simp add: word_less_nat_alt)
  have n1: "unat (mCount w) = length ws" using w(2) by (simp add: holds_def)
  then have n: "unat (mCount w) = length ws" "0 < unat (mCount w)" using w(3) by simp_all
  have f': "fits v (unat (mCount w))" using f n(1) by simp
  obtain v1 h1 where g: "grow re al i (mCount w) v h = Some (True, v1, h1)" "mCount v1 = mCount v + mCount w" "gap v h vs v1 h1 ys (unat (mCount w)) zs"
    using grow_ok [OF v [unfolded yz(1)] al yz(2) [symmetric] n(2) f'] by blast
  have c: "unat (mCount v1) = length ys + unat (mCount w) + length zs"
    using add_fits [of "mCount v" "mCount w"] f cnt yz(1) n by (simp add: g(2) fits_def Let_def)
  have "holds w h1 ws" using g(3) w(1,2) unfolding gap_def keeps_def by blast
  then have src: "deref (At (mStorage w) 0) (length ws) h1 = Some ws" using stored_parts(1) [of w h1 ws "[]" "[]"] w(3) by simp
  obtain h2 where h2: "do_copy v1 (mStorage v1) (cell v1 i) (At (mStorage w) 0) (unat (mCount w)) h1 = Some h2" "becomes v h vs v1 h2 (ys @ ws @ zs)"
    using gap_fill [OF v g(3) yz(2) [symmetric] c src [folded n1] n1 [symmetric] n(2)] by blast
  have "insertVectorAt re al w i v h = Some (sint i, v1, h2)"
    using le g(1) h2(1) by (simp add: insertVectorAt_def insertArrayAt_def)
  then show ?thesis using h2(2) yz by auto
qed

section \<open>Removal\<close>

lemma shrink_new:
  assumes v: "vec v h vs (xs @ zs @ ys)" and al: "usable al h" and m: "unat m * unat (mItemSize v) + 16 < 2 ^ 32" "length xs + length ys \<le> unat m"
    and w: "unat w = length xs" "unat (w + amount) = length xs + length zs" "unat k = length xs + length ys"
    and t: "\<not> (w = k \<and> has_trivial_copy (mFlags v) \<and> has_trivial_dtor (mFlags v))"
  shows "\<exists>v' h'. shrink_storage re al m k w amount v h = Some (True, v', h') \<and> becomes v h vs (v'\<lparr>mCount := k\<rparr>) h' (xs @ ys)"
proof -
  have hv: "holds v h (xs @ zs @ ys)" using v by (simp add: vec_def)
  have z: "mItemSize v \<noteq> 0" "unat (mItemSize v) \<noteq> 0" using hv by (auto simp: holds_def unat_eq_0)
  have al': "al \<noteq> 0" "h al = None" "mStorage v \<noteq> al" using al storage_dom [OF hv] by (auto simp: usable_def)
  note ns = new_stores [OF z(1) m(1), of "xs @ ys"]
  have "length xs * unat (mItemSize v) \<le> unat m * unat (mItemSize v)" by (rule mult_le_mono1) (use m(2) in simp)
  then have cw: "cell v w = length xs" using cell_fits [OF z(1), of w] m(1) unfolding w(1) by linarith
  have fit: "(length xs + length zs) * unat (mItemSize v) < 2 ^ 32" if y: "ys \<noteq> []"
  proof -
    obtain b where b: "mStorage v \<noteq> 0" "h (mStorage v) = Some b" using hv y by (auto simp: holds_def split: if_splits)
    have "(length xs + length zs) * unat (mItemSize v) \<le> length (cells b) * unat (mItemSize v)"
      using capacity_stored(4) [OF hv b] by (intro mult_le_mono1) simp
    then show ?thesis using capacity_stored(3) [OF hv b] by linarith
  qed
  have cw2: "cell v (w + amount) = length xs + length zs" if "ys \<noteq> []" using cell_fits [OF z(1), of "w + amount"] fit [OF that] w(2) by simp
  have "w = 0 \<longleftrightarrow> length xs = 0" by (simp add: w(1) [symmetric] unat_eq_0)
  moreover have "w = k \<longleftrightarrow> length ys = 0" unfolding word_unat_eq_iff using w by linarith
  ultimately have pq: "w \<noteq> 0 \<longleftrightarrow> xs \<noteq> []" "w \<noteq> k \<longleftrightarrow> ys \<noteq> []" by simp_all
  have u: "unat (k - w) = length ys" using unat_sub [of w k] w by (simp add: word_le_nat_alt)
  define b2 where "b2 = \<lparr>mRefs = 1, mSize = m * mItemSize v, cells = map Some (xs @ ys) @ replicate (unat m - length (xs @ ys)) None\<rparr>"
  let ?h0 = "h(al \<mapsto> \<lparr>mRefs = 1, mSize = m * mItemSize v, cells = replicate (unat m) None\<rparr>)"
  obtain h1 where h1: "(if w \<noteq> 0 then do_copy v al 0 (At (mStorage v) 0) (length xs) ?h0 else Some ?h0) = Some h1"
      "(if w \<noteq> k then do_copy v al (length xs) (At (mStorage v) (length xs + length zs)) (length ys) h1 else Some h1) = Some (h(al \<mapsto> b2))"
    using copy_parts [OF z(1) m(1) _ _ pq al'(3) stored_parts [OF hv], where d = "length xs" and s = "m * mItemSize v"] m(2)
    unfolding b2_def by auto
  obtain h' where h': "release_storage v (h(al \<mapsto> b2)) = Some h'" "becomes v h vs (v\<lparr>mStorage := al, mCount := k\<rparr>) h' (xs @ ys)"
    using install_ok [OF v al'(1,2), of b2 "xs @ ys" k] ns(1) m(2) w(3) by (auto simp: b2_def)
  have "(if w \<noteq> k then do_copy v al (cell v w) (At (mStorage v) (cell v (w + amount))) (unat (k - w)) h1 else Some h1) = Some (h(al \<mapsto> b2))"
    using h1(2) cw cw2 u pq(2) by (cases "w = k") simp_all
  then have "shrink_storage re al m k w amount v h = Some (True, v\<lparr>mStorage := al\<rparr>, h')"
    using t al'(1) ns(2) m(2) w(1) h1(1) h'(1) unfolding shrink_storage_def sb_alloc_def by (simp only: if_False) simp
  then show ?thesis using h'(2) by (intro exI [of _ "v\<lparr>mStorage := al\<rparr>"] exI [of _ h']) simp
qed

lemma shrink_resize:
  assumes v: "vec v h vs (xs @ zs)" and al: "usable al h" "re_usable re v h" and m: "unat m * unat (mItemSize v) + 16 < 2 ^ 32" "length xs \<le> unat m"
    and t: "mStorage v \<noteq> 0" "has_trivial_copy (mFlags v)" "has_trivial_dtor (mFlags v)" and k: "unat k = length xs"
  shows "\<exists>v' h'. shrink_storage re al m k k amount v h = Some (True, v', h') \<and> becomes v h vs (v'\<lparr>mCount := k\<rparr>) h' xs"
proof -
  have hv: "holds v h (xs @ zs)" using v by (simp add: vec_def)
  obtain b q where b: "h (mStorage v) = Some b" "cells b = map Some (xs @ zs) @ q" using hv t(1) by (auto simp: holds_def stores_def)
  have z: "unat (mItemSize v) \<noteq> 0" using hv by (simp add: holds_def unat_eq_0)
  obtain sb h' b' where s: "editResize re al (m * mItemSize v) (mItemSize v) (mStorage v) h = Some (sb, h')" "sb \<noteq> 0" "keeps h h' vs"
      "refs h' (v\<lparr>mStorage := sb\<rparr> # vs)" "h' sb = Some b'" "mRefs b' = 1" "mSize b' = m * mItemSize v" "cells b' = recell (unat m) (cells b)"
    using editResize_ok [OF v t(1) b(1) al m(1)] by blast
  have e: "unat (m * mItemSize v) = unat m * unat (mItemSize v)" by (rule mult_fits) (use m in simp)
  have "cells b' = map Some xs @ recell (unat m - length xs) (map Some zs @ q)" using s(8) b(2) m(2) by (simp add: recell_def)
  moreover have "length (recell (unat m - length xs) (map Some zs @ q)) = unat m - length xs" by (simp add: recell_def)
  ultimately have "stores v b' xs" using s(7) e z m t(3) by (auto simp: stores_def)
  moreover have "refs h' (v\<lparr>mStorage := sb, mCount := k\<rparr> # vs)" using s(4) by (simp add: refs_def owners_Cons)
  ultimately have "becomes v h vs (v\<lparr>mStorage := sb, mCount := k\<rparr>) h' xs" using becomesI [OF v s(3)] s(2,5) k by simp
  then show ?thesis using s(1,2) t by (intro exI [of _ "v\<lparr>mStorage := sb\<rparr>"] exI [of _ h']) (simp add: shrink_storage_def)
qed

lemma shrink_inplace:
  assumes v: "vec v h vs (xs @ zs @ ys)" and al: "usable al h" and s: "mStorage v \<noteq> 0" and n: "zs \<noteq> []"
    and w: "unat w = length xs" "unat (w + amount) = length xs + length zs" "unat k = length xs + length ys" "unat amount = length zs"
  shows "\<exists>v' h'. (do {
             (v1, h1) \<leftarrow> editArrayImpl al v h;
             h2 \<leftarrow> do_destroy (mStorage v1) (cell v w) (unat amount) h1;
             h3 \<leftarrow> if w \<noteq> k
                  then on_cells (mStorage v1) (move_backward_type (mFlags v) (cell v w) (cell v (w + amount)) (unat (k - w))) h2 else Some h2;
             Some (True, v1, h3)
           }) = Some (True, v', h') \<and> becomes v h vs (v'\<lparr>mCount := k\<rparr>) h' (xs @ ys)"
proof -
  obtain v1 h1 where e: "editArrayImpl al v h = Some (v1, h1)" "becomes v h vs v1 h1 (xs @ zs @ ys)" "mCount v1 = mCount v" "mStorage v1 \<noteq> 0" "sole v1 h1"
    using editArrayImpl_ok [OF v al s] by blast
  have f: "mFlags v1 = mFlags v" "mItemSize v1 = mItemSize v" and v1: "vec v1 h1 vs (xs @ zs @ ys)" "keeps h h1 vs" and hv: "holds v1 h1 (xs @ zs @ ys)"
    using e(2) by (simp_all add: becomes_def vec_def)
  obtain b where b: "h1 (mStorage v1) = Some b" "mRefs b = 1" using e(5) by (auto simp: sole_def)
  then obtain q where q: "cells b = map Some (xs @ zs @ ys) @ q" "has_trivial_dtor (mFlags v) \<or> set q \<subseteq> {None}"
      "length (cells b) = unat (mSize b) div unat (mItemSize v)" "unat (mSize b) + 16 < 2 ^ 32"
    using hv e(4) f by (auto simp: holds_def stores_def)
  note cs = capacity_stored [OF hv e(4) b(1)]
  have z: "mItemSize v \<noteq> 0" using hv f by (auto simp: holds_def)
  have fit: "i * unat (mItemSize v) < 2 ^ 32" if "i \<le> length (cells b)" for i
    using cs(3) [unfolded f(2)] mult_le_mono1 [OF that, of "unat (mItemSize v)"] by linarith
  have cw: "cell v w = length xs" "cell v (w + amount) = length xs + length zs"
    using cell_fits [OF z, of w] cell_fits [OF z, of "w + amount"] fit [of "length xs"] fit [of "length xs + length zs"] w q(1) by auto
  have "w = k \<longleftrightarrow> length ys = 0" unfolding word_unat_eq_iff using w by linarith
  then have y: "w \<noteq> k \<longleftrightarrow> ys \<noteq> []" by simp
  have u: "unat (k - w) = length ys" using unat_sub [of w k] w by (simp add: word_le_nat_alt)
  let ?m = "replicate (length zs) None"
  define b1 where "b1 = b\<lparr>cells := map Some xs @ ?m @ map Some ys @ q\<rparr>"
  have d: "do_destroy (mStorage v1) (cell v w) (unat amount) h1 = Some (h1(mStorage v1 \<mapsto> b1))"
    using destroy_live [of "map Some xs" zs "map Some ys @ q"] b(1) q(1) cw w(4) n by (simp add: do_destroy_def on_cells_def b1_def)
  obtain m where m: "move_backward_type (mFlags v) (length xs) (length xs + length zs) (length ys) (map Some xs @ ?m @ map Some ys @ q) =
      Some (map Some xs @ map Some ys @ m @ q)" "length m = length zs" "has_trivial_dtor (mFlags v) \<or> set m \<subseteq> {None}"
    using move_backward_moves [of ?m "mFlags v" "map Some xs" ys q] n dead_replicate by auto
  define r where "r = (if ys = [] then ?m @ q else m @ q)"
  define b2 where "b2 = b\<lparr>cells := map Some (xs @ ys) @ r\<rparr>"
  have o: "(if w \<noteq> k then on_cells (mStorage v1) (move_backward_type (mFlags v) (cell v w) (cell v (w + amount)) (unat (k - w))) (h1(mStorage v1 \<mapsto> b1))
      else Some (h1(mStorage v1 \<mapsto> b1))) = Some (h1(mStorage v1 \<mapsto> b2))"
    using m(1) cw u y by (simp add: on_cells_def b1_def b2_def r_def)
  have "mRefs b2 = 1" using b(2) by (simp add: b2_def)
  then have kr: "keeps h1 (h1(mStorage v1 \<mapsto> b2)) vs" "refs (h1(mStorage v1 \<mapsto> b2)) (v1\<lparr>mCount := k\<rparr> # vs)"
    using own_gen [OF v1(1) e(4) b] by blast+
  have st: "stores v b2 (xs @ ys)" using q m(2,3) by (auto simp: stores_def b2_def r_def)
  have "becomes v h vs (v1\<lparr>mCount := k\<rparr>) (h1(mStorage v1 \<mapsto> b2)) (xs @ ys)"
    using becomesI [OF v keeps_trans [OF v1(2) kr(1)] kr(2) _ _ st] e(4) f w(3) by simp
  then show ?thesis using e(1) d o by (intro exI [of _ v1] exI [of _ "h1(mStorage v1 \<mapsto> b2)"]) simp
qed

lemma shrink_ok:
  assumes v: "vec v h vs (xs @ zs @ ys)" and al: "usable al h" "re_usable re v h" and n: "zs \<noteq> []" and w: "unat w = length xs" "unat amount = length zs"
    and f: "3 * unat (mCount v) < 2 ^ 32" "4 * unat (mItemSize v) + 16 < 2 ^ 32"
  shows "\<exists>v' h'. shrink re al w amount v h = Some (v', h') \<and> becomes v h vs v' h' (xs @ ys)"
proof -
  have hv: "holds v h (xs @ zs @ ys)" using v by (simp add: vec_def)
  have cnt: "length xs + length zs + length ys = unat (mCount v)" using hv by (simp add: holds_def)
  have s: "mStorage v \<noteq> 0" using hv n by (auto simp: holds_def)
  obtain b where b: "h (mStorage v) = Some b" using storage_dom [OF hv s] by auto
  define cap where "cap = mSize b div mItemSize v"
  note cs = capacity_stored [OF hv s b, folded cap_def]
  define k where "k = mCount v - amount"
  have k: "unat k = length xs + length ys" using unat_sub [of amount "mCount v"] w cnt by (simp add: k_def word_le_nat_alt)
  have wa: "unat (w + amount) = length xs + length zs" using add_fits [of w amount] w cnt f(1) by simp
  have c3: "unat (3 :: u32) = 3" "unat (2 :: u32) = 2" "unat (4 :: u32) = 4" by code_simp+
  have k3: "unat (k * 3) = unat k * 3" "unat (k * 2) = unat k * 2" using mult_fits [of k 3] mult_fits [of k 2] k cnt f(1) by (simp_all add: c3)
  define m where "m = max kMinVectorCapacity (k * 2)"
  have um: "unat m = max 4 (unat k * 2)" by (simp add: m_def kMinVectorCapacity_def max_def word_le_nat_alt k3 c3)
  have "\<exists>v1 h1. (if k * 3 < cap then shrink_storage re al m k w amount v h
           else do {
             (v1, h1) \<leftarrow> editArrayImpl al v h;
             h2 \<leftarrow> do_destroy (mStorage v1) (cell v w) (unat amount) h1;
             h3 \<leftarrow> if w \<noteq> k
                  then on_cells (mStorage v1) (move_backward_type (mFlags v) (cell v w) (cell v (w + amount)) (unat (k - w))) h2 else Some h2;
             Some (True, v1, h3)
           }) = Some (True, v1, h1) \<and> becomes v h vs (v1\<lparr>mCount := k\<rparr>) h1 (xs @ ys)"
  proof (cases "k * 3 < cap")
    case True
    then have "unat k * 3 < length (cells b)" using cs(2) k3(1) by (simp add: word_less_nat_alt)
    then have le2: "unat k * 2 * unat (mItemSize v) \<le> length (cells b) * unat (mItemSize v)" by (intro mult_le_mono1) simp
    have M: "unat m * unat (mItemSize v) + 16 < 2 ^ 32"
    proof (cases "4 \<le> unat k * 2")
      case True
      then have e: "unat m = unat k * 2" unfolding um by (rule max_absorb2)
      show ?thesis unfolding e using cs(3) le2 by linarith
    next
      case False
      then show ?thesis using f(2) unfolding um by simp
    qed
    have le: "length xs + length ys \<le> unat m" unfolding um using k by simp
    show ?thesis
    proof (cases "w = k \<and> has_trivial_copy (mFlags v) \<and> has_trivial_dtor (mFlags v)")
      case t: True
      then have y: "ys = []" using w(1) k by simp
      then show ?thesis using True t shrink_resize [of v h vs xs zs al re m k amount] v al M le s k by auto
    next
      case False
      then show ?thesis using True shrink_new [OF v al(1) M le w(1) wa k False, of re] by simp
    qed
  next
    case False
    then show ?thesis using shrink_inplace [OF v al(1) s n w(1) wa k w(2)] by simp
  qed
  then obtain v1 h1 where g: "(if k * 3 < cap then shrink_storage re al m k w amount v h
           else do {
             (v1, h1) \<leftarrow> editArrayImpl al v h;
             h2 \<leftarrow> do_destroy (mStorage v1) (cell v w) (unat amount) h1;
             h3 \<leftarrow> if w \<noteq> k
                  then on_cells (mStorage v1) (move_backward_type (mFlags v) (cell v w) (cell v (w + amount)) (unat (k - w))) h2 else Some h2;
             Some (True, v1, h3)
           }) = Some (True, v1, h1)" "becomes v h vs (v1\<lparr>mCount := k\<rparr>) h1 (xs @ ys)" by blast
  have "shrink re al w amount v h = Some (v1\<lparr>mCount := k\<rparr>, h1)"
    using s unfolding shrink_def by (simp only: Let_def cs(1) Option.bind.bind_lunit k_def [symmetric] m_def [symmetric] g(1)) simp
  then show ?thesis using g(2) by simp
qed

lemma removeItemsAt_ok:
  assumes v: "vec v h vs xs" and al: "usable al h" "re_usable re v h" and n: "0 < unat n" "unat i + unat n \<le> length xs"
    and f: "3 * unat (mCount v) < 2 ^ 32" "4 * unat (mItemSize v) + 16 < 2 ^ 32"
  shows "\<exists>v' h'. removeItemsAt re al i n v h = Some (sint i, v', h') \<and> becomes v h vs v' h' (take (unat i) xs @ drop (unat i + unat n) xs)"
proof -
  define p where "p = take (unat i) xs"
  define m where "m = take (unat n) (drop (unat i) xs)"
  define q where "q = drop (unat i + unat n) xs"
  have xs: "xs = p @ m @ q" by (simp add: p_def m_def q_def) (metis append_take_drop_id drop_drop add.commute)
  have l: "unat i = length p" "unat n = length m" "m \<noteq> []" using n by (auto simp: p_def m_def)
  have cnt: "length xs = unat (mCount v)" using v by (simp add: vec_def holds_def)
  have "unat (i + n) = unat i + unat n" using add_fits [of i n] n(2) cnt f(1) by simp
  then have "\<not> i + n > mCount v" using n(2) cnt by (simp add: word_less_nat_alt)
  then show ?thesis using shrink_ok [OF v [unfolded xs] al l(3,1,2) f] unfolding p_def [symmetric] q_def [symmetric] by (auto simp: removeItemsAt_def)
qed

section \<open>Replacement\<close>

lemma own_update:
  assumes v: "vec v h vs xs" and s: "mStorage v \<noteq> 0" "h (mStorage v) = Some b" "mRefs b = 1" and y: "length ys = length xs"
    and c: "c = map Some ys @ drop (length xs) (cells b)"
  shows "becomes v h vs v (h(mStorage v \<mapsto> b\<lparr>cells := c\<rparr>)) ys"
proof -
  have hv: "holds v h xs" using v by (simp add: vec_def)
  have "stores v (b\<lparr>cells := c\<rparr>) ys" using hv s(1,2) y by (auto simp: holds_def stores_def c)
  moreover have "mRefs (b\<lparr>cells := c\<rparr>) = 1" using s(3) by simp
  then have "keeps h (h(mStorage v \<mapsto> b\<lparr>cells := c\<rparr>)) vs" "refs (h(mStorage v \<mapsto> b\<lparr>cells := c\<rparr>)) (v\<lparr>mCount := mCount v\<rparr> # vs)"
    using own_gen [OF v s] by blast+
  ultimately show ?thesis using becomesI [OF v] s(1) y hv by (simp add: holds_def)
qed

lemma replaceAt_ok:
  assumes v: "vec v h vs xs" and al: "usable al h" and i: "unat i < length xs" and p: "p = None \<and> x = ini \<or> p = Some (Ext [x])"
  shows "\<exists>v' h'. replaceAt al ini p i v h = Some (sint i, v', h') \<and> becomes v h vs v' h' (xs[unat i := x])"
proof -
  have hv: "holds v h xs" using v by (simp add: vec_def)
  have s: "mStorage v \<noteq> 0" and cnt: "length xs = unat (mCount v)" and z: "mItemSize v \<noteq> 0" using hv i by (auto simp: holds_def split: if_splits)
  obtain b0 where b0: "h (mStorage v) = Some b0" using storage_dom [OF hv s] by auto
  obtain v1 h1 where e: "editArrayImpl al v h = Some (v1, h1)" "becomes v h vs v1 h1 xs" "mCount v1 = mCount v" "mStorage v1 \<noteq> 0" "sole v1 h1"
    using editArrayImpl_ok [OF v al s] by blast
  have v1: "vec v1 h1 vs xs" and hv1: "holds v1 h1 xs" and f: "mFlags v1 = mFlags v" "mItemSize v1 = mItemSize v" using e(2) by (simp_all add: becomes_def vec_def)
  obtain b where b: "h1 (mStorage v1) = Some b" "mRefs b = 1" using e(5) by (auto simp: sole_def)
  obtain q where q: "cells b = map Some xs @ q" using hv1 e(4) b(1) by (auto simp: holds_def stores_def)
  note cs = capacity_stored [OF hv1 e(4) b(1)]
  have "unat i * unat (mItemSize v1) \<le> length (cells b) * unat (mItemSize v1)" using i cs(4) by (intro mult_le_mono1) simp
  then have "unat i * unat (mItemSize v1) < 2 ^ 32" using cs(3) by linarith
  then have cw: "cell v1 i = unat i" using cell_fits [of v1 i] z f(2) by simp
  define p1 where "p1 = take (unat i) xs" define y where "y = xs ! unat i" define p2 where "p2 = drop (Suc (unat i)) xs"
  have xs: "xs = p1 @ y # p2" "length p1 = unat i" using i by (simp_all add: p1_def y_def p2_def id_take_nth_drop [symmetric])
  have d: "do_destroy (mStorage v1) (unat i) 1 h1 = Some (h1(mStorage v1 \<mapsto> b\<lparr>cells := map Some p1 @ None # map Some p2 @ q\<rparr>))"
    using destroy_live [of "map Some p1" "[y]" "map Some p2 @ q"] b(1) q xs by (simp add: do_destroy_def on_cells_def)
  let ?h2 = "h1(mStorage v1 \<mapsto> b\<lparr>cells := map Some p1 @ Some x # map Some p2 @ q\<rparr>)"
  have w: "do_copy v1 (mStorage v1) (unat i) (Ext [x]) 1 (h1(mStorage v1 \<mapsto> b\<lparr>cells := map Some p1 @ None # map Some p2 @ q\<rparr>)) = Some ?h2"
    using write_cells_dead [of "[x]" "[None]" "mFlags v1" "map Some p1" "map Some p2 @ q"] xs(2) by (simp add: do_copy_def on_cells_def)
  have "becomes v1 h1 vs v1 ?h2 (xs[unat i := x])"
    by (rule own_update [OF v1 e(4) b]) (use xs q in \<open>simp_all add: list_update_append\<close>)
  then have be: "becomes v h vs v1 ?h2 (xs[unat i := x])" by (rule becomes_trans [OF e(2)])
  have "i < mSize b0 div mItemSize v"
    using capacity_stored(2,4) [OF hv s b0] i by (simp add: word_less_nat_alt)
  then have loc: "editItemLocation al i v h = Some (True, v1, h1)" using capacity_stored(1) [OF hv s b0] e(1,4) by (simp add: editItemLocation_def)
  have "\<not> i \<ge> mCount v" using i cnt by (simp add: word_le_nat_alt)
  then have "replaceAt al ini p i v h = Some (sint i, v1, ?h2)" using loc p d w cw by (auto simp: replaceAt_def)
  then show ?thesis using be by blast
qed

end
