(* ===== verification/Vector_Values.thy ===== *)
theory Vector_Values
  imports Vector_Refine Bit_Fields "HOL-Library.Multiset"
begin

text \<open>
  Sorting, sorted vectors, and sequences of operations on several vectors that share storage, with the lists they stand for.
\<close>

section \<open>Stable insertion\<close>

text \<open>Insertion from the end, on the reversed list.\<close>

fun rins :: "('a \<Rightarrow> 'a \<Rightarrow> int) \<Rightarrow> 'a \<Rightarrow> 'a list \<Rightarrow> 'a list" where
  "rins cmp x [] = [x]"
| "rins cmp x (y # r) = (if cmp y x > 0 then y # rins cmp x r else x # y # r)"

definition isort :: "('a \<Rightarrow> 'a \<Rightarrow> int) \<Rightarrow> 'a list \<Rightarrow> 'a list" where
  "isort cmp xs = rev (fold (rins cmp) xs [])"

lemma mset_rins: "mset (rins cmp x r) = add_mset x (mset r)"
  by (induction cmp x r rule: rins.induct) auto

lemma length_rins: "length (rins cmp x r) = Suc (length r)"
  by (induction cmp x r rule: rins.induct) auto

lemma set_rins_eq: "set (rins cmp x r) = insert x (set r)"
  by (induction cmp x r rule: rins.induct) auto

text \<open>The comparison follows a key.\<close>

definition by_key :: "('a \<Rightarrow> 'a \<Rightarrow> int) \<Rightarrow> ('a \<Rightarrow> 'k :: linorder) \<Rightarrow> bool" where
  "by_key cmp key = (\<forall>a b. (0 < cmp a b \<longleftrightarrow> key b < key a) \<and> (cmp a b < 0 \<longleftrightarrow> key a < key b))"

lemma sorted_rins:
  assumes "by_key cmp key"
  shows "sorted (map key (rev r)) \<Longrightarrow> sorted (map key (rev (rins cmp x r)))"
proof (induction r)
  case (Cons y r)
  have k: "0 < cmp a b \<longleftrightarrow> key b < key a" for a b using assms by (simp add: by_key_def)
  show ?case using Cons by (auto simp: k sorted_append set_rins_eq not_less dest: less_imp_le intro: order_trans)
qed simp

lemma stable_rins:
  assumes "by_key cmp key"
  shows "filter (\<lambda>y. key y = k) (rins cmp x r) = (if key x = k then x # filter (\<lambda>y. key y = k) r else filter (\<lambda>y. key y = k) r)"
proof (induction r)
  case (Cons y r)
  have "0 < cmp a b \<longleftrightarrow> key b < key a" for a b using assms by (simp add: by_key_def)
  then show ?case using Cons by auto
qed simp

lemma isort_props:
  assumes "by_key cmp key"
  shows "mset (isort cmp xs) = mset xs \<and> sorted (map key (isort cmp xs)) \<and> filter (\<lambda>y. key y = k) (isort cmp xs) = filter (\<lambda>y. key y = k) xs"
  unfolding isort_def
proof (induction xs rule: rev_induct)
  case (snoc x xs)
  let ?r = "fold (rins cmp) xs []"
  have f: "filter (\<lambda>y. key y = k) (rev l) = rev (filter (\<lambda>y. key y = k) l)" for l by (simp add: rev_filter)
  have "filter (\<lambda>y. key y = k) ?r = rev (filter (\<lambda>y. key y = k) xs)" using snoc f by (metis rev_rev_ident)
  then have "filter (\<lambda>y. key y = k) (rev (rins cmp x ?r)) = filter (\<lambda>y. key y = k) (xs @ [x])"
    unfolding f stable_rins [OF assms] by simp
  then show ?case using snoc sorted_rins [OF assms, of ?r x] by (simp add: mset_rins)
qed simp

lemma isort_sort_key:
  assumes "by_key cmp key"
  shows "isort cmp xs = sort_key key xs"
proof -
  have "sort_key key xs = isort cmp xs"
    using isort_props [OF assms, of xs] by (intro properties_for_sort_key) (auto simp: eq_commute)
  then show ?thesis by simp
qed

section \<open>Sorting in memory\<close>

lemma sort_up_ok: "sort_up t (length ys) (map Some (ys @ [y, x]) @ q) = Some (map Some (ys @ [y, y]) @ q)"
proof -
  have "destroy_type (Suc (length ys)) 1 (map Some (ys @ [y, x]) @ q) = Some (map Some (ys @ [y]) @ None # q)"
    using destroy_live [of "map Some (ys @ [y])" "[x]" q] by simp
  moreover have "read_cells (length ys) 1 (map Some (ys @ [y]) @ None # q) = Some [y]" using read_cells_live [of "map Some ys" "[y]" "None # q"] by simp
  moreover have "write_cells t (Suc (length ys)) [y] (map Some (ys @ [y]) @ None # q) = Some (map Some (ys @ [y, y]) @ q)"
    using write_cells_dead [of "[y]" "[None]" t "map Some (ys @ [y])" q] by simp
  ultimately show ?thesis by (simp add: sort_up_def)
qed

lemma sort_place_ok: "sort_place t x (length ys) (map Some (ys @ z # zs) @ q) = Some (map Some (ys @ x # zs) @ q)"
proof -
  have "destroy_type (length ys) 1 (map Some (ys @ z # zs) @ q) = Some (map Some ys @ None # map Some zs @ q)"
    using destroy_live [of "map Some ys" "[z]" "map Some zs @ q"] by simp
  moreover have "write_cells t (length ys) [x] (map Some ys @ None # map Some zs @ q) = Some (map Some (ys @ x # zs) @ q)"
    using write_cells_dead [of "[x]" "[None]" t "map Some ys" "map Some zs @ q"] by simp
  ultimately show ?thesis by (simp add: sort_place_def)
qed

lemma sort_shift_ok: "sort_shift t cmp x (length r) (map Some (rev r @ [y, z]) @ q) = Some (map Some (rev (rins cmp x r) @ [y]) @ q)"
proof (induction r arbitrary: y z q)
  case Nil
  show ?case using sort_up_ok [of t "[]" y z q] sort_place_ok [of t x "[]" y "[y]" q] by simp
next
  case (Cons u r)
  have up: "sort_up t (Suc (length r)) (map Some (rev (u # r) @ [y, z]) @ q) = Some (map Some (rev r @ [u, y, y]) @ q)"
    using sort_up_ok [of t "rev (u # r)" y z q] by simp
  have rd: "read_cells (length r) 1 (map Some (rev r @ [u, y, y]) @ q) = Some [u]"
    using read_cells_live [of "map Some (rev r)" "[u]" "Some y # Some y # q"] by simp
  show ?case
  proof (cases "cmp u x > 0")
    case True
    then show ?thesis using up rd Cons [of u y "Some y # q"] by simp
  next
    case False
    then show ?thesis using up rd sort_place_ok [of t x "rev (u # r)" y "[y]" q] by simp
  qed
qed

lemma rins_greater: "cmp y x > 0 \<Longrightarrow> rev (rins cmp x (y # r)) = rev (rins cmp x r) @ [y]"
  by simp

lemma sort_round_ok:
  assumes v: "vec v h vs (rev (y # r) @ x # zs)" and s: "temp \<Longrightarrow> sole v h" "\<not> temp \<Longrightarrow> usable al h"
  shows "\<exists>temp' v' h'. sort_round al True cmp (Suc (length r)) temp v h = Some (NO_ERROR, temp', v', h') \<and>
    becomes v h vs v' h' (rev (rins cmp x (y # r)) @ zs) \<and> (temp' \<longrightarrow> sole v' h') \<and> (\<not> temp' \<longrightarrow> usable al h') \<and> mCount v' = mCount v"
proof -
  have hv: "holds v h (rev (y # r) @ x # zs)" using v by (simp add: vec_def)
  then have st: "mStorage v \<noteq> 0" by (auto simp: holds_def split: if_splits)
  then obtain b q where b: "h (mStorage v) = Some b" "cells b = map Some (rev (y # r) @ x # zs) @ q" using hv by (auto simp: holds_def stores_def)
  have rd: "deref (At (mStorage v) (length r)) 2 h = Some [y, x]"
    using read_cells_live [of "map Some (rev r)" "[y, x]" "map Some zs @ q"] b by (simp add: numeral_2_eq_2)
  have shift: "\<exists>h2. on_cells (mStorage w) (sort_shift (mFlags w) cmp x (length r)) h1 = Some h2 \<and> becomes w h1 vs w h2 (rev (rins cmp x (y # r)) @ zs) \<and> sole w h2"
    if w: "vec w h1 vs (rev (y # r) @ x # zs)" "sole w h1" and g: "cmp y x > 0" for w h1
  proof -
    have hw: "holds w h1 (rev (y # r) @ x # zs)" using w by (simp add: vec_def)
    then have sw: "mStorage w \<noteq> 0" by (auto simp: holds_def split: if_splits)
    obtain b where b: "h1 (mStorage w) = Some b" "mRefs b = 1" using w(2) by (auto simp: sole_def)
    then obtain q where q: "cells b = map Some (rev (y # r) @ x # zs) @ q" using hw sw by (auto simp: holds_def stores_def)
    let ?c = "map Some (rev (rins cmp x (y # r)) @ zs) @ q"
    have "sort_shift (mFlags w) cmp x (length r) (cells b) = Some ?c"
      using sort_shift_ok [of "mFlags w" cmp x r y x "map Some zs @ q"] q rins_greater [of cmp y x r] g by simp
    then have o: "on_cells (mStorage w) (sort_shift (mFlags w) cmp x (length r)) h1 = Some (h1(mStorage w \<mapsto> b\<lparr>cells := ?c\<rparr>))"
      using b(1) by (simp add: on_cells_def)
    have "becomes w h1 vs w (h1(mStorage w \<mapsto> b\<lparr>cells := ?c\<rparr>)) (rev (rins cmp x (y # r)) @ zs)"
      by (rule own_update [OF w(1) sw b]) (use q in \<open>simp_all add: length_rins\<close>)
    then show ?thesis using o b(2) by (intro exI [of _ "h1(mStorage w \<mapsto> b\<lparr>cells := ?c\<rparr>)"]) (simp add: sole_def)
  qed
  show ?thesis
  proof (cases "cmp y x > 0")
    case False
    then show ?thesis using rd becomes_refl [OF v] s by (intro exI [of _ temp] exI [of _ v] exI [of _ h]) (simp add: sort_round_def)
  next
    case g: True
    show ?thesis
    proof (cases temp)
      case True
      then obtain h2 where "on_cells (mStorage v) (sort_shift (mFlags v) cmp x (length r)) h = Some h2" "becomes v h vs v h2 (rev (rins cmp x (y # r)) @ zs)" "sole v h2"
        using shift [OF v _ g] s(1) by blast
      then show ?thesis using rd g True by (intro exI [of _ True] exI [of _ v] exI [of _ h2]) (simp add: sort_round_def)
    next
      case False
      obtain v1 h1 where e: "editArrayImpl al v h = Some (v1, h1)" "becomes v h vs v1 h1 (rev (y # r) @ x # zs)" "mCount v1 = mCount v" "mStorage v1 \<noteq> 0" "sole v1 h1"
        using editArrayImpl_ok [OF v s(2) [OF False] st] by blast
      have v1: "vec v1 h1 vs (rev (y # r) @ x # zs)" using e(2) by (simp add: becomes_def)
      then obtain b1 q1 where "h1 (mStorage v1) = Some b1" "cells b1 = map Some (rev (y # r) @ x # zs) @ q1"
        using e(4) by (auto simp: vec_def holds_def stores_def)
      then have rd1: "deref (At (mStorage v1) (Suc (length r))) 1 h1 = Some [x]"
        using read_cells_live [of "map Some (rev (y # r))" "[x]" "map Some zs @ q1"] by simp
      obtain h2 where "on_cells (mStorage v1) (sort_shift (mFlags v1) cmp x (length r)) h1 = Some h2" "becomes v1 h1 vs v1 h2 (rev (rins cmp x (y # r)) @ zs)" "sole v1 h2"
        using shift [OF v1 e(5) g] by blast
      then show ?thesis using rd rd1 g False e becomes_trans [OF e(2)]
        by (intro exI [of _ True] exI [of _ v1] exI [of _ h2]) (simp add: sort_round_def del: deref.simps)
    qed
  qed
qed

lemma sort_loop_ok:
  "vec v h vs (rev r @ zs) \<Longrightarrow> r \<noteq> [] \<Longrightarrow> (temp \<Longrightarrow> sole v h) \<Longrightarrow> (\<not> temp \<Longrightarrow> usable al h) \<Longrightarrow>
   \<exists>v' h'. sort_loop al True cmp [length r..<length r + length zs] temp v h = Some (NO_ERROR, v', h') \<and> becomes v h vs v' h' (rev (fold (rins cmp) zs r))"
proof (induction zs arbitrary: v h r temp)
  case Nil
  then show ?case using becomes_refl by auto
next
  case (Cons x zs)
  obtain y r' where r: "r = y # r'" using Cons.prems(2) by (cases r) auto
  obtain temp1 v1 h1 where 1: "sort_round al True cmp (length r) temp v h = Some (NO_ERROR, temp1, v1, h1)"
      "becomes v h vs v1 h1 (rev (rins cmp x r) @ zs)" "temp1 \<longrightarrow> sole v1 h1" "\<not> temp1 \<longrightarrow> usable al h1"
    using sort_round_ok [of v h vs y r' x zs temp al cmp] Cons.prems r by auto
  have "vec v1 h1 vs (rev (rins cmp x r) @ zs)" using 1(2) by (simp add: becomes_def)
  then obtain v2 h2 where 2: "sort_loop al True cmp [length (rins cmp x r)..<length (rins cmp x r) + length zs] temp1 v1 h1 = Some (NO_ERROR, v2, h2)"
      "becomes v1 h1 vs v2 h2 (rev (fold (rins cmp) zs (rins cmp x r)))"
    using Cons.IH [of v1 h1 "rins cmp x r" temp1] 1(3,4) length_rins [of cmp x r] by (metis length_0_conv nat.distinct(1))
  have "[length r..<length r + length (x # zs)] = length r # [Suc (length r)..<Suc (length r) + length zs]" 
    using upt_conv_Cons [of "length r" "length r + length (x # zs)"] by (simp del: upt_Suc)
  then show ?case using 1(1) 2 becomes_trans [OF 1(2)] by (simp add: length_rins)
qed

lemma vector_sort_ok:
  assumes v: "vec v h vs xs" and al: "usable al h" and c: "unat (mCount v) < 2 ^ 31"
  shows "\<exists>v' h'. vector_sort al True cmp v h = Some (NO_ERROR, v', h') \<and> becomes v h vs v' h' (isort cmp xs)"
proof -
  have cnt: "length xs = unat (mCount v)" using v by (simp add: vec_def holds_def)
  have si: "sint (mCount v) = int (length xs)" using sint_of_nat_small [of "unat (mCount v)"] c cnt by simp
  show ?thesis
  proof (cases xs)
    case Nil
    then show ?thesis using becomes_refl [OF v] si by (simp add: vector_sort_def isort_def)
  next
    case (Cons x zs)
    have "\<exists>v' h'. sort_loop al True cmp [1..<Suc (length zs)] False v h = Some (NO_ERROR, v', h') \<and> becomes v h vs v' h' (isort cmp xs)"
      using sort_loop_ok [of v h vs "[x]" zs False al cmp] v al Cons by (simp add: isort_def del: upt_Suc)
    moreover have "nat (sint (mCount v)) = Suc (length zs)" "1 < sint (mCount v) \<or> zs = []" using si Cons by auto
    moreover have "zs = [] \<Longrightarrow> isort cmp xs = xs" using Cons by (simp add: isort_def)
    ultimately show ?thesis using becomes_refl [OF v] si Cons by (auto simp: vector_sort_def Let_def simp del: upt_Suc)
  qed
qed

section \<open>Binary search\<close>

definition key_sorted :: "('a \<Rightarrow> 'k :: linorder) \<Rightarrow> 'a list \<Rightarrow> bool" where
  "key_sorted key xs = sorted_wrt (\<lambda>a b. key a < key b) xs"

lemma order_loop_ok:
  fixes key :: "'a \<Rightarrow> 'k :: linorder"
  assumes "key_sorted key xs" "by_key cmp key" "\<And>i. 0 \<le> i \<Longrightarrow> i < int (length xs) \<Longrightarrow> f i = Some (cmp (xs ! nat i) x)"
  shows "0 \<le> l \<Longrightarrow> l \<le> h + 1 \<Longrightarrow> h < int (length xs) \<Longrightarrow> (\<And>i. i < nat l \<Longrightarrow> key (xs ! i) < key x) \<Longrightarrow>
    (\<And>i. h < int i \<Longrightarrow> i < length xs \<Longrightarrow> key x < key (xs ! i)) \<Longrightarrow>
    \<exists>r n. order_loop f l h = Some (r, int n) \<and> n \<le> length xs \<and> (\<forall>i < n. key (xs ! i) < key x) \<and> (\<forall>i. n < i \<longrightarrow> i < length xs \<longrightarrow> key x < key (xs ! i)) \<and>
      (r = int n \<and> n < length xs \<and> key (xs ! n) = key x \<or> r = NAME_NOT_FOUND \<and> (n < length xs \<longrightarrow> key x < key (xs ! n)))"
proof (induction "nat (h + 1 - l)" arbitrary: l h rule: less_induct)
  case less
  have lt: "key (xs ! i) < key (xs ! j)" if "i < j" "j < length xs" for i j
    using assms(1) that unfolding key_sorted_def by (simp add: sorted_wrt_iff_nth_less)
  show ?case
  proof (cases "l \<le> h")
    case False
    then have "l = h + 1" using less.prems by simp
    then show ?thesis using less.prems False by (intro exI [of _ NAME_NOT_FOUND] exI [of _ "nat l"]) (auto simp: order_loop.simps [of f l h])
  next
    case True
    define m where "m = l + (h - l) div 2"
    have m: "l \<le> m" "m \<le> h" "0 \<le> m" "m < int (length xs)" using True less.prems(1,3) by (simp_all add: m_def)
    have f: "f m = Some (cmp (xs ! nat m) x)" using assms(3) m by simp
    have below: "key (xs ! i) < key (xs ! nat m)" if "i < nat m" for i using lt [of i "nat m"] that m by simp
    have above: "key (xs ! nat m) < key (xs ! i)" if "m < int i" "i < length xs" for i using lt [of "nat m" i] that m by simp
    consider "key (xs ! nat m) < key x" "cmp (xs ! nat m) x < 0" | "key x < key (xs ! nat m)" "0 < cmp (xs ! nat m) x" | "key (xs ! nat m) = key x" "cmp (xs ! nat m) x = 0"
      using assms(2) unfolding by_key_def by (metis linorder_cases)
    then show ?thesis
    proof cases
      case 1
      have "order_loop f l h = order_loop f (m + 1) h" using True f 1(2) by (simp add: order_loop.simps [of f l h] Let_def m_def [symmetric])
      moreover have "key (xs ! i) < key x" if "i < nat (m + 1)" for i
      proof (cases "i = nat m")
        case False
        then have "i < nat m" using that m(3) by linarith
        then show ?thesis using below 1(1) by (meson less_trans)
      qed (use 1(1) in simp)
      ultimately show ?thesis using less.hyps [of h "m + 1"] less.prems m by auto
    next
      case 2
      have "order_loop f l h = order_loop f l (m - 1)" using True f 2(2) by (simp add: order_loop.simps [of f l h] Let_def m_def [symmetric])
      moreover have "key x < key (xs ! i)" if "m - 1 < int i" "i < length xs" for i
      proof (cases "i = nat m")
        case False
        then have "m < int i" using that(1) m(3) by linarith
        then show ?thesis using above that(2) 2(1) by (meson less_trans)
      qed (use 2(1) in simp)
      ultimately show ?thesis using less.hyps [of "m - 1" l] less.prems m by auto
    next
      case 3
      have "order_loop f l h = Some (m, m)" using True f 3(2) by (simp add: order_loop.simps [of f l h] Let_def m_def [symmetric])
      then show ?thesis using 3(1) below above m by (intro exI [of _ m] exI [of _ "nat m"]) auto
    qed
  qed
qed

lemma indexOrderOf_ok:
  fixes key :: "'a \<Rightarrow> 'k :: linorder"
  assumes v: "holds v h xs" and k: "key_sorted key xs" "by_key cmp key" and c: "unat (mCount v) < 2 ^ 31"
  shows "\<exists>r n. indexOrderOf cmp x v h = Some (r, int n) \<and> n \<le> length xs \<and> (\<forall>i < n. key (xs ! i) < key x) \<and> (\<forall>i. n < i \<longrightarrow> i < length xs \<longrightarrow> key x < key (xs ! i)) \<and>
      (r = int n \<and> n < length xs \<and> key (xs ! n) = key x \<or> r = NAME_NOT_FOUND \<and> (n < length xs \<longrightarrow> key x < key (xs ! n)))"
proof -
  have cnt: "length xs = unat (mCount v)" using v by (simp add: holds_def)
  have s: "sint (mCount v - 1) = int (length xs) - 1"
  proof (cases "mCount v = 0")
    case True
    then show ?thesis using cnt by simp
  next
    case False
    then have "unat (mCount v - 1) = unat (mCount v) - 1" "0 < unat (mCount v)" by (simp_all add: unat_minus_one unat_gt_0)
    then show ?thesis using sint_of_nat_small [of "unat (mCount v - 1)"] c cnt by simp
  qed
  show ?thesis unfolding indexOrderOf_def s
  proof (rule order_loop_ok [OF k])
    fix i assume i: "0 \<le> i" "i < int (length xs)"
    then have "xs \<noteq> []" by auto
    then obtain b q where b: "h (mStorage v) = Some b" "cells b = map Some xs @ q" using v by (auto simp: holds_def stores_def split: if_splits)
    have xs: "xs = take (nat i) xs @ (xs ! nat i) # drop (Suc (nat i)) xs" using i by (intro id_take_nth_drop) simp
    have "read_cells (length (map Some (take (nat i) xs))) (length [xs ! nat i]) (map Some (take (nat i) xs) @ map Some [xs ! nat i] @ map Some (drop (Suc (nat i)) xs) @ q) = Some [xs ! nat i]"
      by (rule read_cells_live)
    moreover have "map Some (take (nat i) xs) @ map Some [xs ! nat i] @ map Some (drop (Suc (nat i)) xs) @ q = cells b" using xs b(2) by (metis append_Cons append_Nil append_assoc list.simps(8,9) map_append)
    moreover have "length (map Some (take (nat i) xs)) = nat i" using i by simp
    ultimately show "map_option (\<lambda>ys. cmp (hd ys) x) (deref (At (mStorage v) (nat i)) 1 h) = Some (cmp (xs ! nat i) x)" using b(1) by simp
  qed auto
qed

section \<open>Sorted vectors as maps\<close>

definition table :: "('a \<Rightarrow> 'k) \<Rightarrow> 'a list \<Rightarrow> ('k \<rightharpoonup> 'a)" where
  "table key xs = map_of (map (\<lambda>x. (key x, x)) xs)"

lemma table_None: "(\<And>y. y \<in> set xs \<Longrightarrow> key y \<noteq> k) \<Longrightarrow> table key xs k = None"
  unfolding table_def map_of_eq_None_iff by fastforce

lemma table_append: "table key (xs @ ys) = table key ys ++ table key xs"
  by (simp add: table_def)

lemma table_Cons: "table key (x # xs) = (table key xs)(key x \<mapsto> x)"
  by (simp add: table_def)

lemma table_change:
  assumes "\<And>y. y \<in> set p \<Longrightarrow> key y \<noteq> k" "\<And>y. y \<in> set q \<Longrightarrow> key y \<noteq> k"
  shows "key x = k \<Longrightarrow> table key (p @ x # q) = (table key (p @ q))(k \<mapsto> x)" "table key (p @ q) k = None"
proof -
  have n: "table key p k = None" "table key q k = None" using assms by (auto intro: table_None)
  show "table key (p @ q) k = None" by (simp add: table_append n map_add_def)
  show "key x = k \<Longrightarrow> table key (p @ x # q) = (table key (p @ q))(k \<mapsto> x)"
    using n by (auto simp: table_append table_Cons map_add_def fun_eq_iff split: option.split)
qed

lemma key_sorted_split:
  fixes key :: "'a \<Rightarrow> 'k :: linorder"
  shows "key_sorted key (p @ x # q) \<longleftrightarrow> key_sorted key (p @ q) \<and> (\<forall>y \<in> set p. key y < key x) \<and> (\<forall>y \<in> set q. key x < key y)"
  by (auto simp: key_sorted_def sorted_wrt_append)

lemma split_search:
  assumes "n \<le> length xs" "\<forall>i < n. key (xs ! i) < (k :: 'k :: linorder)" "\<forall>i. n < i \<longrightarrow> i < length xs \<longrightarrow> k < key (xs ! i)"
  shows "\<forall>y \<in> set (take n xs). key y < k" "\<forall>y \<in> set (drop (Suc n) xs). k < key y" "n < length xs \<longrightarrow> k < key (xs ! n) \<Longrightarrow> \<forall>y \<in> set (drop n xs). k < key y"
proof -
  show "\<forall>y \<in> set (take n xs). key y < k" using assms(1,2) by (auto simp: in_set_conv_nth)
  show "\<forall>y \<in> set (drop (Suc n) xs). k < key y" using assms(3) by (auto simp: in_set_conv_nth)
  show "\<forall>y \<in> set (drop n xs). k < key y" if "n < length xs \<longrightarrow> k < key (xs ! n)"
  proof
    fix y assume "y \<in> set (drop n xs)"
    then obtain i where "i < length xs - n" "y = xs ! (n + i)" by (auto simp: in_set_conv_nth)
    then have i: "n + i < length xs" "y = xs ! (n + i)" by simp_all
    show "k < key y" using assms(3) that i by (cases i) auto
  qed
qed

lemma word_of_nat_unat: "n < 2 ^ 31 \<Longrightarrow> unat (word_of_int (int n) :: u32) = n" "n < 2 ^ 31 \<Longrightarrow> sint (word_of_int (int n) :: u32) = int n"
  using unat_of_nat_u32 [of n] sint_of_nat_small [of n] by simp_all

lemma sorted_add_ok:
  fixes key :: "'a \<Rightarrow> 'k :: linorder"
  assumes v: "vec v h vs xs" and al: "usable al h" "re_usable re v h" and k: "key_sorted key xs" "by_key cmp key" and f: "fits v 1" "unat (mCount v) < 2 ^ 31"
  shows "\<exists>i v' h' ys. sorted_add re al cmp x v h = Some (int i, v', h') \<and> becomes v h vs v' h' ys \<and> key_sorted key ys \<and> table key ys = (table key xs)(key x \<mapsto> x) \<and>
    i < length ys \<and> ys ! i = x"
proof -
  have hv: "holds v h xs" and cnt: "length xs = unat (mCount v)" using v by (simp_all add: vec_def holds_def)
  obtain r n where s: "indexOrderOf cmp x v h = Some (r, int n)" "n \<le> length xs" "\<forall>i < n. key (xs ! i) < key x" "\<forall>i. n < i \<longrightarrow> i < length xs \<longrightarrow> key x < key (xs ! i)"
      and rr: "r = int n \<and> n < length xs \<and> key (xs ! n) = key x \<or> r = NAME_NOT_FOUND \<and> (n < length xs \<longrightarrow> key x < key (xs ! n))"
    using indexOrderOf_ok [OF hv k f(2), of x] by blast
  note sp = split_search [OF s(2-4)]
  have n31: "n < 2 ^ 31" using s(2) f(2) cnt by simp
  note un = word_of_nat_unat [OF n31]
  from rr show ?thesis
  proof
    assume a: "r = int n \<and> n < length xs \<and> key (xs ! n) = key x"
    obtain v' h' where r: "replaceAt al x (Some (Ext [x])) (word_of_int (int n)) v h = Some (sint (word_of_int (int n) :: u32), v', h')" "becomes v h vs v' h' (xs[n := x])"
      using replaceAt_ok [OF v al(1), of "word_of_int (int n)" "Some (Ext [x])" x x] a un(1) by auto
    have xs: "xs = take n xs @ xs ! n # drop (Suc n) xs" "xs[n := x] = take n xs @ x # drop (Suc n) xs" using a by (simp_all add: id_take_nth_drop [symmetric] upd_conv_take_nth_drop)
    have "table key xs = (table key (take n xs @ drop (Suc n) xs))(key x \<mapsto> xs ! n)" "table key (xs[n := x]) = (table key (take n xs @ drop (Suc n) xs))(key x \<mapsto> x)"
      using table_change(1) [of "take n xs" key "key x" "drop (Suc n) xs"] sp(1,2) xs a by (metis less_irrefl)+
    moreover have "key_sorted key (xs[n := x])" using k(1) sp(1,2) unfolding xs(2) key_sorted_split by (metis xs(1) key_sorted_split)
    ultimately show ?thesis using s(1) r un(2) a by (intro exI [of _ n] exI [of _ v'] exI [of _ h'] exI [of _ "xs[n := x]"]) (simp add: sorted_add_def)
  next
    assume a: "r = NAME_NOT_FOUND \<and> (n < length xs \<longrightarrow> key x < key (xs ! n))"
    obtain v' h' where r: "insertAt re al x (Some (Ext [x])) (word_of_int (int n)) 1 v h = Some (sint (word_of_int (int n) :: u32), v', h')"
        "becomes v h vs v' h' (take n xs @ [x] @ drop n xs)"
      using insertAt_ok [OF v al, of 1 "word_of_int (int n)" "Some (Ext [x])" x x] f(1) s(2) un(1) by auto
    have sp2: "\<forall>y \<in> set (drop n xs). key x < key y" by (rule sp(3)) (use a in simp)
    have "table key (take n xs @ x # drop n xs) = (table key xs)(key x \<mapsto> x)"
      using table_change(1) [of "take n xs" key "key x" "drop n xs" x] sp(1) sp2 by (metis append_take_drop_id less_irrefl)
    moreover have "key_sorted key (take n xs @ x # drop n xs)" using k(1) sp(1) sp2 unfolding key_sorted_split by simp
    ultimately show ?thesis using s(1,2) r un(2) a
      by (intro exI [of _ n] exI [of _ v'] exI [of _ h'] exI [of _ "take n xs @ x # drop n xs"]) (simp add: sorted_add_def NAME_NOT_FOUND_def nth_append)
  qed
qed

lemma sorted_remove_ok:
  fixes key :: "'a \<Rightarrow> 'k :: linorder"
  assumes v: "vec v h vs xs" and al: "usable al h" "re_usable re v h" and k: "key_sorted key xs" "by_key cmp key"
    and f: "3 * unat (mCount v) < 2 ^ 32" "4 * unat (mItemSize v) + 16 < 2 ^ 32"
  shows "\<exists>r v' h' ys. sorted_remove_item re al cmp x v h = Some (r, v', h') \<and> becomes v h vs v' h' ys \<and> key_sorted key ys \<and> table key ys = (table key xs)(key x := None) \<and>
    (r = NAME_NOT_FOUND \<longleftrightarrow> table key xs (key x) = None)"
proof -
  have hv: "holds v h xs" and cnt: "length xs = unat (mCount v)" using v by (simp_all add: vec_def holds_def)
  have c: "unat (mCount v) < 2 ^ 31" using f(1) by simp
  obtain r n where s: "indexOrderOf cmp x v h = Some (r, int n)" "n \<le> length xs" "\<forall>i < n. key (xs ! i) < key x" "\<forall>i. n < i \<longrightarrow> i < length xs \<longrightarrow> key x < key (xs ! i)"
      and rr: "r = int n \<and> n < length xs \<and> key (xs ! n) = key x \<or> r = NAME_NOT_FOUND \<and> (n < length xs \<longrightarrow> key x < key (xs ! n))"
    using indexOrderOf_ok [OF hv k c, of x] by blast
  note sp = split_search [OF s(2-4)]
  have n31: "n < 2 ^ 31" using s(2) c cnt by simp
  note un = word_of_nat_unat [OF n31]
  from rr show ?thesis
  proof
    assume a: "r = int n \<and> n < length xs \<and> key (xs ! n) = key x"
    obtain v' h' where r: "removeItemsAt re al (word_of_int (int n)) 1 v h = Some (sint (word_of_int (int n) :: u32), v', h')"
        "becomes v h vs v' h' (take n xs @ drop (Suc n) xs)"
      using removeItemsAt_ok [OF v al, of 1 "word_of_int (int n)"] f a un(1) by auto
    have xs: "xs = take n xs @ xs ! n # drop (Suc n) xs" using a by (simp add: id_take_nth_drop [symmetric])
    have t: "table key xs = (table key (take n xs @ drop (Suc n) xs))(key x \<mapsto> xs ! n)" "table key (take n xs @ drop (Suc n) xs) (key x) = None"
      using table_change [of "take n xs" key "key x" "drop (Suc n) xs"] sp(1,2) xs a by (metis less_irrefl)+
    moreover have "key_sorted key (take n xs @ drop (Suc n) xs)" using k(1) xs key_sorted_split by metis
    ultimately show ?thesis using s(1) r a
      by (intro exI [of _ r] exI [of _ v'] exI [of _ h'] exI [of _ "take n xs @ drop (Suc n) xs"]) (auto simp: sorted_remove_item_def indexOf_def NAME_NOT_FOUND_def fun_eq_iff)
  next
    assume a: "r = NAME_NOT_FOUND \<and> (n < length xs \<longrightarrow> key x < key (xs ! n))"
    have "\<forall>y \<in> set (drop n xs). key x < key y" by (rule sp(3)) (use a in simp)
    then have "table key xs (key x) = None" using table_change(2) [of "take n xs" key "key x" "drop n xs"] sp(1) by (metis append_take_drop_id less_irrefl)
    then show ?thesis using s(1) a becomes_refl [OF v] k(1)
      by (intro exI [of _ r] exI [of _ v] exI [of _ h] exI [of _ xs]) (auto simp: sorted_remove_item_def indexOf_def NAME_NOT_FOUND_def)
  qed
qed

end
