(* ===== verification/Vector_Worlds.thy ===== *)
theory Vector_Worlds
  imports Vector_Values
begin

text \<open>
  Several vectors that share storage are values: a sequence of operations on them has the results and the effects of the operations on independent lists.
  The sequences are handled once in the locale \<open>simulation\<close>.
\<close>

section \<open>Simulation\<close>





section \<open>Assignment\<close>


section \<open>Many vectors\<close>


definition world :: "traits \<Rightarrow> u32 \<Rightarrow> 'a heap \<Rightarrow> VectorImpl list \<Rightarrow> 'a list list \<Rightarrow> bool" where
  "world t z h vs xss = (length vs = length xss \<and> refs h vs \<and>
     (\<forall>j < length vs. holds (vs ! j) h (xss ! j) \<and> mFlags (vs ! j) = t \<and> mItemSize (vs ! j) = z))"






section \<open>Operations\<close>






lemma world_noop: "world t z h vs xss \<Longrightarrow> j < length vs \<Longrightarrow> world t z h (vs[j := vs ! j]) xss"
  by simp



section \<open>Results\<close>


text \<open>
  C22: Sorting is the stable sorting by the key that the comparison follows. It ends without an error when memory is available, changes no other vector, and
  copies shared storage first.
\<close>

theorem vector_sort_stable:
  fixes key :: "'a \<Rightarrow> 'k :: linorder"
  assumes "vec v h vs xs" "usable al h" "unat (mCount v) < 2 ^ 31" "by_key cmp key"
  shows "\<exists>v' h'. vector_sort al True cmp v h = Some (NO_ERROR, v', h') \<and> holds v' h' (sort_key key xs) \<and> keeps h h' vs \<and> refs h' (v' # vs)"
  using vector_sort_ok [OF assms(1-3), of cmp] isort_sort_key [OF assms(4), of xs] by (auto simp: becomes_def vec_def)

text \<open>
  C23: A sorted vector is a map from keys to items. Adding finds the place by binary search, returns the index where the item then is, keeps the order and
  changes the map at the key of the item only; removing deletes the key and returns \<open>NAME_NOT_FOUND\<close> exactly when there was none. Other vectors do not change.
\<close>

theorem sorted_vector_is_map:
  fixes key :: "'a \<Rightarrow> 'k :: linorder"
  assumes "vec v h vs xs" "usable al h" "re_usable re v h" "key_sorted key xs" "by_key cmp key"
    and "fits v 1" "3 * unat (mCount v) < 2 ^ 32" "4 * unat (mItemSize v) + 16 < 2 ^ 32"
  shows "(\<exists>i v' h' ys. sorted_add re al cmp x v h = Some (int i, v', h') \<and> vec v' h' vs ys \<and> keeps h h' vs \<and> key_sorted key ys \<and>
      table key ys = (table key xs)(key x \<mapsto> x) \<and> i < length ys \<and> ys ! i = x) \<and>
    (\<exists>r v' h' ys. sorted_remove_item re al cmp x v h = Some (r, v', h') \<and> vec v' h' vs ys \<and> keeps h h' vs \<and> key_sorted key ys \<and>
      table key ys = (table key xs)(key x := None) \<and> (r = NAME_NOT_FOUND \<longleftrightarrow> table key xs (key x) = None))"
proof
  have c: "unat (mCount v) < 2 ^ 31" using assms(7) by simp
  show "\<exists>i v' h' ys. sorted_add re al cmp x v h = Some (int i, v', h') \<and> vec v' h' vs ys \<and> keeps h h' vs \<and> key_sorted key ys \<and>
      table key ys = (table key xs)(key x \<mapsto> x) \<and> i < length ys \<and> ys ! i = x"
    using sorted_add_ok [OF assms(1-6) c, of x] unfolding becomes_def by (elim exE conjE) (intro exI conjI; assumption)
  show "\<exists>r v' h' ys. sorted_remove_item re al cmp x v h = Some (r, v', h') \<and> vec v' h' vs ys \<and> keeps h h' vs \<and> key_sorted key ys \<and>
      table key ys = (table key xs)(key x := None) \<and> (r = NAME_NOT_FOUND \<longleftrightarrow> table key xs (key x) = None)"
    using sorted_remove_ok [OF assms(1-5,7,8), of x] unfolding becomes_def by (elim exE conjE) (intro exI conjI; assumption)
qed

section \<open>Where the storage shows\<close>

text \<open>Two vectors that share a buffer of four items, of a type with a destructor.\<close>

definition ex_traits :: traits where
  "ex_traits = \<lparr>has_trivial_ctor = False, has_trivial_dtor = False, has_trivial_copy = False, has_trivial_move = False\<rparr>"

definition ex_vec :: "u32 \<Rightarrow> u32 \<Rightarrow> VectorImpl" where
  "ex_vec a n = \<lparr>mStorage = a, mCount = n, mFlags = ex_traits, mItemSize = 4\<rparr>"

definition ex_heap :: "int \<Rightarrow> nat heap" where
  "ex_heap n = [4096 \<mapsto> \<lparr>mRefs = n, mSize = 16, cells = [Some 3, Some 1, None, None]\<rparr>]"

definition ex_cmp :: "nat \<Rightarrow> nat \<Rightarrow> int" where
  "ex_cmp a b = int a - int b"

lemma ex_unat: "unat (16 :: u32) = 16" "unat (4 :: u32) = 4" "unat (2 :: u32) = 2" "unat (1 :: u32) = 1"
  by code_simp+

lemma ex_by_key: "by_key ex_cmp id"
  by (simp add: by_key_def ex_cmp_def)

lemma ex_holds: "holds (ex_vec 4096 2) (ex_heap n) [3, 1]"
  by (simp add: holds_def stores_def ex_vec_def ex_heap_def ex_traits_def ex_unat)

lemma ex_refs: "refs (ex_heap 2) [ex_vec 4096 2, ex_vec 4096 2]" "refs (ex_heap 1) [ex_vec 4096 2]"
  by (simp_all add: refs_def owners_def ex_heap_def ex_vec_def)

lemma ex_world: "world ex_traits 4 (ex_heap 2) [ex_vec 4096 2, ex_vec 4096 2] [[3, 1], [3, 1]]"
  using ex_holds [of 2] ex_refs(1) by (simp add: world_def less_Suc_eq ex_vec_def nth_Cons')

lemma ex_vec_ok: "vec (ex_vec 4096 2) (ex_heap 2) [ex_vec 4096 2] [3, 1]"
  using ex_holds [of 2] ex_refs(1) by (auto simp: vec_def all_hold_def)

text \<open>\<open>replaceAt\<close> when the copy of the storage cannot be allocated: the item is written where the storage is.\<close>

lemma replaceAt_in_place:
  assumes hv: "holds v h xs" and i: "unat i < length xs"
  shows "\<exists>b. h (mStorage v) = Some b \<and> replaceAt 0 ini (Some (Ext [x])) i v h = Some (sint i, v, h(mStorage v \<mapsto> b\<lparr>cells := (cells b)[unat i := Some x]\<rparr>))"
proof -
  have s: "mStorage v \<noteq> 0" and cnt: "length xs = unat (mCount v)" and z: "mItemSize v \<noteq> 0" using hv i by (auto simp: holds_def split: if_splits)
  obtain b q where b: "h (mStorage v) = Some b" "cells b = map Some xs @ q" using hv s by (auto simp: holds_def stores_def)
  note cs = capacity_stored [OF hv s b(1)]
  have "unat i * unat (mItemSize v) \<le> length (cells b) * unat (mItemSize v)" using i cs(4) by (intro mult_le_mono1) simp
  then have "unat i * unat (mItemSize v) < 2 ^ 32" using cs(3) by linarith
  then have cw: "cell v i = unat i" using cell_fits [of v i] z by simp
  have "editArrayImpl 0 v h = Some (v, h)" using b(1) cs(1) by (simp add: editArrayImpl_def attemptEdit_def sb_alloc_def)
  moreover have "i < mSize b div mItemSize v" using cs(2,4) i by (simp add: word_less_nat_alt)
  ultimately have loc: "editItemLocation 0 i v h = Some (True, v, h)" using cs(1) s by (simp add: editItemLocation_def)
  define p1 where "p1 = take (unat i) xs" define y where "y = xs ! unat i" define p2 where "p2 = drop (Suc (unat i)) xs"
  have xs: "xs = p1 @ y # p2" "length p1 = unat i" using i by (simp_all add: p1_def y_def p2_def id_take_nth_drop [symmetric])
  have d: "do_destroy (mStorage v) (unat i) 1 h = Some (h(mStorage v \<mapsto> b\<lparr>cells := map Some p1 @ None # map Some p2 @ q\<rparr>))"
    using destroy_live [of "map Some p1" "[y]" "map Some p2 @ q"] b xs by (simp add: do_destroy_def on_cells_def)
  have w: "do_copy v (mStorage v) (unat i) (Ext [x]) 1 (h(mStorage v \<mapsto> b\<lparr>cells := map Some p1 @ None # map Some p2 @ q\<rparr>)) =
      Some (h(mStorage v \<mapsto> b\<lparr>cells := map Some p1 @ Some x # map Some p2 @ q\<rparr>))"
    using write_cells_dead [of "[x]" "[None]" "mFlags v" "map Some p1" "map Some p2 @ q"] xs(2) by (simp add: do_copy_def on_cells_def)
  have "map Some p1 @ Some x # map Some p2 @ q = (cells b)[unat i := Some x]"
    using b(2) xs by (simp add: list_update_append)
  moreover have "\<not> i \<ge> mCount v" using i cnt by (simp add: word_le_nat_alt)
  ultimately show ?thesis using b(1) loc d w cw by (simp add: replaceAt_def)
qed

lemma holds_written:
  assumes "holds w h ys" "h (mStorage w) = Some b" "mStorage w \<noteq> 0" "i < length ys"
  shows "holds w (h(mStorage w \<mapsto> b\<lparr>cells := (cells b)[i := Some x]\<rparr>)) (ys[i := x])"
  using assms by (auto simp: holds_def stores_def list_update_append map_update)

text \<open>
  C38: When the copy of shared storage cannot be allocated, \<open>editArrayImpl\<close> hands out the shared storage itself: \<open>replaceAt\<close> reports success, and the item is replaced in every vector
  that shares the storage and has the index, not only in the one that was asked to change.
\<close>

theorem shared_storage_written:
  assumes "world t z h vs xss" "j < length vs" "unat i < length (xss ! j)"
  shows "\<exists>h'. replaceAt 0 ini (Some (Ext [x])) i (vs ! j) h = Some (sint i, vs ! j, h') \<and>
    (\<forall>k < length vs. mStorage (vs ! k) = mStorage (vs ! j) \<and> unat i < length (xss ! k) \<longrightarrow> holds (vs ! k) h' ((xss ! k)[unat i := x]))"
proof -
  have hold: "holds (vs ! k) h (xss ! k)" if "k < length vs" for k using assms(1) that by (simp add: world_def)
  obtain b where b: "h (mStorage (vs ! j)) = Some b"
      "replaceAt 0 ini (Some (Ext [x])) i (vs ! j) h = Some (sint i, vs ! j, h(mStorage (vs ! j) \<mapsto> b\<lparr>cells := (cells b)[unat i := Some x]\<rparr>))"
    using replaceAt_in_place [OF hold [OF assms(2)] assms(3)] by blast
  have "mStorage (vs ! j) \<noteq> 0" using hold [OF assms(2)] assms(3) by (auto simp: holds_def)
  moreover have "holds (vs ! k) (h(mStorage (vs ! j) \<mapsto> b\<lparr>cells := (cells b)[unat i := Some x]\<rparr>)) ((xss ! k)[unat i := x])"
    if "k < length vs" "mStorage (vs ! k) = mStorage (vs ! j)" "unat i < length (xss ! k)" for k
    using holds_written [OF hold [OF that(1)], of b "unat i" x] b(1) that calculation by simp
  ultimately show ?thesis using b(2) by blast
qed

theorem shared_storage_written_witness:
  "world ex_traits 4 (ex_heap 2) [ex_vec 4096 2, ex_vec 4096 2] [[3, 1], [3, 1]] \<and>
   (\<exists>h'. replaceAt 0 0 (Some (Ext [7])) 0 (ex_vec 4096 2) (ex_heap 2) = Some (0, ex_vec 4096 2, h') \<and> holds (ex_vec 4096 2) h' [7, 1])"
  using ex_world shared_storage_written [OF ex_world, of 0 0 0 7] by auto

definition items :: "VectorImpl \<Rightarrow> 'a heap \<Rightarrow> 'a list" where
  "items v h = (case h (mStorage v) of None \<Rightarrow> [] | Some b \<Rightarrow> map the (take (unat (mCount v)) (cells b)))"

text \<open>Inserting nothing in the middle constructs every following item over itself and then destroys it.\<close>

lemma empty_insertion_destroys: "insertArrayAt 0 8192 (Ext []) 0 0 (ex_vec 4096 2) (ex_heap 1) = None"
  by code_simp

text \<open>Appending nothing to an empty vector is reported as a lack of memory.\<close>

lemma empty_insertion_fails: "map_option fst (insertArrayAt 0 8192 (Ext []) 0 0 (ex_vec 0 0) (Map.empty :: nat heap)) = Some NO_MEMORY"
  by code_simp

text \<open>Adding an item of the vector itself reads it after the old storage was freed, when the vector is full.\<close>

lemma own_item_dangles:
  "insertAt 0 8192 0 (Some (At 4096 0)) 2 1 (ex_vec 4096 2) [4096 \<mapsto> \<lparr>mRefs = 1, mSize = 8, cells = [Some (3 :: nat), Some 1]\<rparr>] = None"
  by code_simp

text \<open>Merging a sorted vector whose greatest item equals the least one of the other puts the item in twice.\<close>

lemma merge_sorted_duplicates:
  "map_option (\<lambda>(r, v1, h1). items v1 h1) (merge_sorted (\<lambda>_. (0, 16384)) ex_cmp (ex_vec 8192 1) (ex_vec 4096 1)
     [4096 \<mapsto> \<lparr>mRefs = 1, mSize = 16, cells = [Some 5, None, None, None]\<rparr>, 8192 \<mapsto> \<lparr>mRefs = 1, mSize = 16, cells = [Some 5, None, None, None]\<rparr>]) = Some [5, 5]"
  by code_simp

text \<open>Merging a sorted vector into an empty one follows the null pointer of its storage.\<close>

lemma merge_sorted_into_empty:
  "merge_sorted (\<lambda>_. (0, 16384)) ex_cmp (ex_vec 8192 1) (ex_vec 0 0) [8192 \<mapsto> \<lparr>mRefs = 1, mSize = 16, cells = [Some 5, None, None, None]\<rparr>] = None"
  by code_simp

text \<open>Without memory for the smaller storage nothing is removed, and success is reported.\<close>

lemma removal_lost:
  "map_option (\<lambda>(r, v1, h1). (r, items v1 h1)) (removeItemsAt 0 0 0 1 (ex_vec 4096 2)
     [4096 \<mapsto> \<lparr>mRefs = 1, mSize = 32, cells = [Some (3 :: nat), Some 1, None, None, None, None, None, None]\<rparr>]) = Some (0, [3, 1])"
  by code_simp

section \<open>Instances of the results\<close>


lemma ex_words: "unat (0 :: u32) = 0" "(0 :: u32) < 2" "\<not> (2 :: u32) \<le> 1" "sint (1 :: u32) = 1"
  by code_simp+

lemma ex_usable: "usable 8192 (ex_heap n)"
  by (simp add: usable_def ex_heap_def)




theorem vector_sort_stable_witness:
  "\<exists>v' h'. vector_sort 8192 True ex_cmp (ex_vec 4096 2) (ex_heap 2) = Some (NO_ERROR, v', h') \<and> holds v' h' [1, 3] \<and> keeps (ex_heap 2) h' [ex_vec 4096 2] \<and> refs h' [v', ex_vec 4096 2]"
  using vector_sort_stable [OF ex_vec_ok ex_usable _ ex_by_key] by (simp add: ex_vec_def ex_unat)

definition ex_sorted :: "nat heap" where
  "ex_sorted = [4096 \<mapsto> \<lparr>mRefs = 1, mSize = 16, cells = [Some 1, Some 3, None, None]\<rparr>]"

lemma ex_sorted_ok: "vec (ex_vec 4096 2) ex_sorted [] [1, 3]" "usable 8192 ex_sorted" "re_usable 0 (ex_vec 4096 2) ex_sorted" "key_sorted id [1, 3 :: nat]" "fits (ex_vec 4096 2) 1"
  by (simp_all add: vec_def all_hold_def holds_def stores_def refs_def owners_def usable_def re_usable_def key_sorted_def fits_def ex_vec_def ex_sorted_def ex_traits_def ex_unat)

theorem sorted_vector_is_map_witness:
  "(\<exists>i v' h' ys. sorted_add 0 8192 ex_cmp 2 (ex_vec 4096 2) ex_sorted = Some (int i, v', h') \<and> vec v' h' [] ys \<and> keeps ex_sorted h' [] \<and> key_sorted id ys \<and>
      table id ys = (table id [1, 3])(id 2 \<mapsto> 2) \<and> i < length ys \<and> ys ! i = 2) \<and>
   (\<exists>r v' h' ys. sorted_remove_item 0 8192 ex_cmp 2 (ex_vec 4096 2) ex_sorted = Some (r, v', h') \<and> vec v' h' [] ys \<and> keeps ex_sorted h' [] \<and> key_sorted id ys \<and>
      table id ys = (table id [1, 3])(id 2 := None) \<and> (r = NAME_NOT_FOUND \<longleftrightarrow> table id [1, 3] (id (2 :: nat)) = None))"
  by (rule sorted_vector_is_map [OF ex_sorted_ok(1-4) ex_by_key ex_sorted_ok(5)]) (simp_all add: ex_vec_def ex_unat)

end
