(* ===== verification/Binder_Parcel.thy ===== *)
theory Binder_Parcel
  imports Utils_Errors
begin

text \<open>
  \<open>ipc/binder/Parcel.cpp\<close>: the containers of the arguments and results of calls between processes. The memory of a parcel is a list of bytes, with the objects it
  refers to at the offsets in \<open>mObjects\<close>. An access outside of the memory, through a null pointer or after the memory was freed is \<open>None\<close>. What a parcel does to the
  rest of the system is recorded in order in \<open>trace\<close>; what the system answers (whether memory is available, what uninitialised memory contains, which descriptor \<open>dup\<close>
  returns) is an argument of type \<open>sys\<close>, asked with the number of effects before.
\<close>

unbundle bit_operations_syntax

section \<open>Memory\<close>

datatype 'a mem = Null | Mem "'a list" | Dangling

definition load :: "nat \<Rightarrow> nat \<Rightarrow> 'a mem \<Rightarrow> 'a list run" where
  "load i n m = (if n = 0 then Some [] else case m of Mem b \<Rightarrow> if i + n \<le> length b then Some (take n (drop i b)) else None | _ \<Rightarrow> None)"

definition store :: "nat \<Rightarrow> 'a list \<Rightarrow> 'a mem \<Rightarrow> 'a mem run" where
  "store i xs m = (if xs = [] then Some m
     else case m of Mem b \<Rightarrow> if i + length xs \<le> length b then Some (Mem (take i b @ xs @ drop (i + length xs) b)) else None | _ \<Rightarrow> None)"

definition load1 :: "nat \<Rightarrow> 'a mem \<Rightarrow> 'a run" where
  "load1 i m = map_option hd (load i 1 m)"

section \<open>Bytes of numbers\<close>

text \<open>The target is little-endian.\<close>

definition to_le :: "nat \<Rightarrow> 'a :: len word \<Rightarrow> u8 list" where
  "to_le n w = map (\<lambda>i. ucast (drop_bit (8 * i) w)) [0..<n]"

fun from_le :: "u8 list \<Rightarrow> 'a :: len word" where
  "from_le [] = 0"
| "from_le (b # bs) = ucast b OR push_bit 8 (from_le bs)"

definition units_le :: "u16 list \<Rightarrow> u8 list" where
  "units_le us = concat (map (to_le 2) us)"

fun le_units :: "u8 list \<Rightarrow> u16 list" where
  "le_units (a # b # bs) = from_le [a, b] # le_units bs"
| "le_units _ = []"

definition words_le :: "u32 list \<Rightarrow> u8 list" where
  "words_le ws = concat (map (to_le 4) ws)"

fun le_words :: "u8 list \<Rightarrow> u32 list" where
  "le_words (a # b # c # d # bs) = from_le [a, b, c, d] # le_words bs"
| "le_words _ = []"

section \<open>Objects\<close>

definition BINDER_TYPE_BINDER :: u32 where "BINDER_TYPE_BINDER = 0x73622a85"
definition BINDER_TYPE_WEAK_BINDER :: u32 where "BINDER_TYPE_WEAK_BINDER = 0x77622a85"
definition BINDER_TYPE_HANDLE :: u32 where "BINDER_TYPE_HANDLE = 0x73682a85"
definition BINDER_TYPE_WEAK_HANDLE :: u32 where "BINDER_TYPE_WEAK_HANDLE = 0x77682a85"
definition BINDER_TYPE_FD :: u32 where "BINDER_TYPE_FD = 0x66642a85"

text \<open>The field \<open>handle\<close> of the union is the same memory as \<open>binder\<close>.\<close>

record flat_binder_object =
  obj_type :: u32
  obj_flags :: u32
  obj_binder :: u32
  obj_cookie :: u32

definition obj_le :: "flat_binder_object \<Rightarrow> u8 list" where
  "obj_le ob = words_le [obj_type ob, obj_flags ob, obj_binder ob, obj_cookie ob]"

definition le_obj :: "u8 list \<Rightarrow> flat_binder_object" where
  "le_obj bs = \<lparr>obj_type = from_le (take 4 bs), obj_flags = from_le (take 4 (drop 4 bs)), obj_binder = from_le (take 4 (drop 8 bs)), obj_cookie = from_le (take 4 (drop 12 bs))\<rparr>"

section \<open>The system\<close>

text \<open>
  Reference counters belong to local objects, known by their address (\<open>Strong\<close> and \<open>WeakOf\<close>) or by that of their counters (\<open>Weak\<close>), and to the proxies of handles. A change of a counter is an
  access through the address.
\<close>

datatype counter = Strong u32 | Weak u32 | WeakOf u32 | ProxyStrong u32 | ProxyWeak u32

datatype event = Inc counter | Dec counter | Close u32 | Dup u32 s32 | Alloc | OwnerFree | Munmap

record sys =
  mem_ok :: "nat \<Rightarrow> bool"
  in_place :: "nat \<Rightarrow> bool"
  junk8 :: "nat \<Rightarrow> nat \<Rightarrow> u8"
  junk32 :: "nat \<Rightarrow> nat \<Rightarrow> u32"
  proxy :: "u32 \<Rightarrow> bool"
  dup_fd :: "nat \<Rightarrow> s32"

section \<open>Parcels\<close>

record Parcel =
  mError :: s32
  mData :: "u8 mem"
  mDataSize :: u32
  mDataCapacity :: u32
  mDataPos :: u32
  mObjects :: "u32 mem"
  mObjectsSize :: u32
  mObjectsCapacity :: u32
  mNextObjectHint :: u32
  mFdsKnown :: bool
  mHasFds :: bool
  mAllowFds :: bool
  mOwner :: bool

text \<open>A parcel with the counters of all parcels and the effects so far.\<close>

record pstate = Parcel +
  gParcelGlobalAllocSize :: u32
  gParcelGlobalAllocCount :: u32
  trace :: "event list"

definition effects :: "event list \<Rightarrow> pstate \<Rightarrow> pstate" where
  "effects es s = s\<lparr>trace := trace s @ es\<rparr>"

definition now :: "pstate \<Rightarrow> nat" where
  "now s = length (trace s)"

text \<open>\<open>malloc\<close> and \<open>realloc\<close> for \<open>n\<close> bytes; \<open>f\<close> gives the contents of new memory, \<open>z\<close> is the size of an element. The second result of \<open>realloc\<close> is what the old pointer is then.\<close>

definition c_malloc :: "sys \<Rightarrow> (nat \<Rightarrow> nat \<Rightarrow> 'a) \<Rightarrow> nat \<Rightarrow> u32 \<Rightarrow> pstate \<Rightarrow> 'a mem \<times> pstate" where
  "c_malloc y f z n s = (if mem_ok y (now s) then Mem (map (f (now s)) [0..<unat n div z]) else Null, effects [Alloc] s)"

definition c_realloc :: "sys \<Rightarrow> (nat \<Rightarrow> nat \<Rightarrow> 'a) \<Rightarrow> nat \<Rightarrow> 'a mem \<Rightarrow> u32 \<Rightarrow> pstate \<Rightarrow> ('a mem \<times> 'a mem \<times> pstate) run" where
  "c_realloc y f z p n s =
     (case p of
        Dangling \<Rightarrow> None
      | Null \<Rightarrow> (case c_malloc y f z n s of (q, s1) \<Rightarrow> Some (q, Null, s1))
      | Mem b \<Rightarrow>
          if n = 0 then Some (Null, Dangling, effects [Alloc] s)
          else if mem_ok y (now s)
          then (let q = Mem (take (unat n div z) b @ map (f (now s)) [length b..<unat n div z])
            in Some (q, if in_place y (now s) then q else Dangling, effects [Alloc] s))
          else Some (Null, p, effects [Alloc] s))"

definition c_free :: "'a mem \<Rightarrow> 'a mem run" where
  "c_free p = (case p of Null \<Rightarrow> Some Null | Mem _ \<Rightarrow> Some Dangling | Dangling \<Rightarrow> None)"

definition PAD_SIZE :: "u32 \<Rightarrow> u32" where
  "PAD_SIZE n = (n + 3) AND NOT 3"

section \<open>References of objects\<close>

definition acquired :: "sys \<Rightarrow> flat_binder_object \<Rightarrow> event list" where
  "acquired y ob =
     (if obj_type ob = BINDER_TYPE_BINDER then if obj_binder ob \<noteq> 0 then [Inc (Strong (obj_cookie ob))] else []
      else if obj_type ob = BINDER_TYPE_WEAK_BINDER then if obj_binder ob \<noteq> 0 then [Inc (Weak (obj_binder ob))] else []
      else if obj_type ob = BINDER_TYPE_HANDLE then if proxy y (obj_binder ob) then [Inc (ProxyStrong (obj_binder ob))] else []
      else if obj_type ob = BINDER_TYPE_WEAK_HANDLE then if proxy y (obj_binder ob) then [Inc (ProxyWeak (obj_binder ob))] else []
      else [])"

definition acquire_object :: "sys \<Rightarrow> flat_binder_object \<Rightarrow> pstate \<Rightarrow> pstate" where
  "acquire_object y ob s = effects (acquired y ob) s"

definition released :: "sys \<Rightarrow> flat_binder_object \<Rightarrow> event list" where
  "released y ob =
     (if obj_type ob = BINDER_TYPE_BINDER then if obj_binder ob \<noteq> 0 then [Dec (Strong (obj_cookie ob))] else []
      else if obj_type ob = BINDER_TYPE_WEAK_BINDER then if obj_binder ob \<noteq> 0 then [Dec (Weak (obj_binder ob))] else []
      else if obj_type ob = BINDER_TYPE_HANDLE then if proxy y (obj_binder ob) then [Dec (ProxyStrong (obj_binder ob))] else []
      else if obj_type ob = BINDER_TYPE_WEAK_HANDLE then if proxy y (obj_binder ob) then [Dec (ProxyWeak (obj_binder ob))] else []
      else if obj_type ob = BINDER_TYPE_FD then if obj_cookie ob \<noteq> 0 then [Close (obj_binder ob)] else []
      else [])"

definition release_object :: "sys \<Rightarrow> flat_binder_object \<Rightarrow> pstate \<Rightarrow> pstate" where
  "release_object y ob s = effects (released y ob) s"

definition object_at :: "pstate \<Rightarrow> nat \<Rightarrow> flat_binder_object run" where
  "object_at s i = do { off \<leftarrow> load1 i (mObjects s); bs \<leftarrow> load (unat off) 16 (mData s); Some (le_obj bs) }"

text \<open>The loop \<open>while (i > 0) { i--; ... }\<close> over the objects of a parcel.\<close>

primrec objects_down :: "(flat_binder_object \<Rightarrow> pstate \<Rightarrow> pstate) \<Rightarrow> nat \<Rightarrow> pstate \<Rightarrow> pstate run" where
  "objects_down f 0 s = Some s"
| "objects_down f (Suc n) s = do { ob \<leftarrow> object_at s n; objects_down f n (f ob s) }"

definition releaseObjects :: "sys \<Rightarrow> pstate \<Rightarrow> pstate run" where
  "releaseObjects y s = objects_down (release_object y) (unat (mObjectsSize s)) s"

definition acquireObjects :: "sys \<Rightarrow> nat \<Rightarrow> pstate \<Rightarrow> pstate run" where
  "acquireObjects y n s = objects_down (acquire_object y) n s"

definition closeFileDescriptors :: "pstate \<Rightarrow> pstate run" where
  "closeFileDescriptors s =
     objects_down (\<lambda>ob. if obj_type ob = BINDER_TYPE_FD then effects [Close (obj_binder ob)] else id) (unat (mObjectsSize s)) s"

section \<open>Memory of a parcel\<close>

definition initState :: "pstate \<Rightarrow> pstate" where
  "initState s = s\<lparr>mError := NO_ERROR, mData := Null, mDataSize := 0, mDataCapacity := 0, mDataPos := 0, mObjects := Null, mObjectsSize := 0, mObjectsCapacity := 0,
     mNextObjectHint := 0, mHasFds := False, mFdsKnown := True, mAllowFds := True, mOwner := False\<rparr>"

definition freeDataNoInit :: "sys \<Rightarrow> pstate \<Rightarrow> pstate run" where
  "freeDataNoInit y s =
     (if mOwner s then Some (effects [OwnerFree] s)
      else do {
        s1 \<leftarrow> releaseObjects y s;
        d \<leftarrow> c_free (mData s1);
        let s2 = (if mData s1 = Null then s1
          else s1\<lparr>gParcelGlobalAllocSize := gParcelGlobalAllocSize s1 - mDataCapacity s1, gParcelGlobalAllocCount := gParcelGlobalAllocCount s1 - 1\<rparr>);
        obs \<leftarrow> c_free (mObjects s2);
        Some (s2\<lparr>mData := d, mObjects := obs\<rparr>)
      })"

definition freeData :: "sys \<Rightarrow> pstate \<Rightarrow> pstate run" where
  "freeData y s = map_option initState (freeDataNoInit y s)"

text \<open>The number of objects that stay when the data shrinks.\<close>

primrec kept_objects :: "u32 mem \<Rightarrow> u32 \<Rightarrow> nat \<Rightarrow> nat run" where
  "kept_objects m desired 0 = Some 0"
| "kept_objects m desired (Suc n) = do { off \<leftarrow> load1 n m; if off < desired then Some (Suc n) else kept_objects m desired n }"

fun drop_objects :: "sys \<Rightarrow> nat list \<Rightarrow> pstate \<Rightarrow> pstate run" where
  "drop_objects y [] s = Some s"
| "drop_objects y (i # is) s = do {
     ob \<leftarrow> object_at s i;
     drop_objects y is (release_object y ob (if obj_type ob = BINDER_TYPE_FD then s\<lparr>mFdsKnown := False\<rparr> else s))
   }"

text \<open>\<open>continueWrite\<close> for a parcel whose data belongs to another owner.\<close>

definition take_possession :: "sys \<Rightarrow> nat \<Rightarrow> u32 \<Rightarrow> pstate \<Rightarrow> (s32 \<times> pstate) run" where
  "take_possession y n desired s =
     (case c_malloc y (junk8 y) 1 desired s of (data, s1) \<Rightarrow>
      if data = Null then Some (NO_MEMORY, s1\<lparr>mError := NO_MEMORY\<rparr>)
      else (case (if n = 0 then (Null, s1) else c_malloc y (junk32 y) 4 (of_nat n * 4) s1) of (objs, s2) \<Rightarrow>
        if n \<noteq> 0 \<and> objs = Null then Some (NO_MEMORY, s2\<lparr>mError := NO_MEMORY\<rparr>)
        else do {
          s3 \<leftarrow> if n = 0 then Some s2 else acquireObjects y n s2;
          let size = min (mDataSize s) desired;
          data1 \<leftarrow> if mData s = Null then Some data else do { bs \<leftarrow> load 0 (unat size) (mData s); store 0 bs data };
          objs1 \<leftarrow> if objs = Null \<or> mObjects s = Null then Some objs else do { os \<leftarrow> load 0 n (mObjects s); store 0 os objs };
          let s4 = effects [OwnerFree] s3;
          Some (NO_ERROR, s4\<lparr>mOwner := False, gParcelGlobalAllocSize := gParcelGlobalAllocSize s4 + desired,
            gParcelGlobalAllocCount := gParcelGlobalAllocCount s4 + 1, mData := data1, mObjects := objs1, mDataSize := size, mDataCapacity := desired,
            mObjectsSize := of_nat n, mObjectsCapacity := of_nat n, mNextObjectHint := 0\<rparr>)
        }))"

text \<open>\<open>continueWrite\<close> for a parcel that owns its data: the objects behind the new size are released, and the memory grows.\<close>

definition cut_objects :: "sys \<Rightarrow> nat \<Rightarrow> pstate \<Rightarrow> pstate run" where
  "cut_objects y n s =
     (if n < unat (mObjectsSize s) then do {
        s1 \<leftarrow> drop_objects y [n..<unat (mObjectsSize s)] s;
        (objs, old, s2) \<leftarrow> c_realloc y (junk32 y) 4 (mObjects s1) (of_nat n * 4) s1;
        Some (s2\<lparr>mObjects := (if objs = Null then old else objs), mObjectsSize := of_nat n, mNextObjectHint := 0\<rparr>)
      } else Some s)"

definition resize_data :: "sys \<Rightarrow> u32 \<Rightarrow> pstate \<Rightarrow> (s32 \<times> pstate) run" where
  "resize_data y desired s =
     (if mDataCapacity s < desired then do {
        (data, old, s1) \<leftarrow> c_realloc y (junk8 y) 1 (mData s) desired s;
        if data \<noteq> Null
        then Some (NO_ERROR, s1\<lparr>gParcelGlobalAllocSize := gParcelGlobalAllocSize s1 + desired - mDataCapacity s1, mData := data, mDataCapacity := desired\<rparr>)
        else Some (NO_MEMORY, s1\<lparr>mData := old, mError := NO_MEMORY\<rparr>)
      } else Some (NO_ERROR, s\<lparr>mDataSize := min (mDataSize s) desired, mDataPos := min (mDataPos s) desired\<rparr>))"

definition first_data :: "sys \<Rightarrow> u32 \<Rightarrow> pstate \<Rightarrow> s32 \<times> pstate" where
  "first_data y desired s =
     (case c_malloc y (junk8 y) 1 desired s of (data, s1) \<Rightarrow>
      if data = Null then (NO_MEMORY, s1\<lparr>mError := NO_MEMORY\<rparr>)
      else (NO_ERROR, s1\<lparr>gParcelGlobalAllocSize := gParcelGlobalAllocSize s1 + desired, gParcelGlobalAllocCount := gParcelGlobalAllocCount s1 + 1,
        mData := data, mDataSize := 0, mDataPos := 0, mDataCapacity := desired\<rparr>))"

definition continueWrite :: "sys \<Rightarrow> u32 \<Rightarrow> pstate \<Rightarrow> (s32 \<times> pstate) run" where
  "continueWrite y desired s = do {
     n \<leftarrow> if desired < mDataSize s then if desired = 0 then Some 0 else kept_objects (mObjects s) desired (unat (mObjectsSize s))
          else Some (unat (mObjectsSize s));
     if mOwner s then if desired = 0 then map_option (Pair NO_ERROR) (freeData y s) else take_possession y n desired s
     else if mData s \<noteq> Null then do { s1 \<leftarrow> cut_objects y n s; resize_data y desired s1 }
     else Some (first_data y desired s)
   }"

definition growData :: "sys \<Rightarrow> u32 \<Rightarrow> pstate \<Rightarrow> (s32 \<times> pstate) run" where
  "growData y len s = (let newSize = ((mDataSize s + len) * 3) div 2
     in if newSize \<le> mDataSize s then Some (NO_MEMORY, s) else continueWrite y newSize s)"

definition restartWrite :: "sys \<Rightarrow> u32 \<Rightarrow> pstate \<Rightarrow> (s32 \<times> pstate) run" where
  "restartWrite y desired s =
     (if mOwner s then do { s1 \<leftarrow> freeData y s; continueWrite y desired s1 }
      else do {
        (data, old, s1) \<leftarrow> c_realloc y (junk8 y) 1 (mData s) desired s;
        let s2 = s1\<lparr>mData := old\<rparr>;
        if data = Null \<and> mDataCapacity s2 < desired then Some (NO_MEMORY, s2\<lparr>mError := NO_MEMORY\<rparr>)
        else do {
          s3 \<leftarrow> releaseObjects y s2;
          let s4 = (if data = Null then s3
            else s3\<lparr>gParcelGlobalAllocSize := gParcelGlobalAllocSize s3 + desired - mDataCapacity s3, mData := data, mDataCapacity := desired\<rparr>);
          _ \<leftarrow> c_free (mObjects s4);
          Some (NO_ERROR, s4\<lparr>mDataSize := 0, mDataPos := 0, mObjects := Null, mObjectsSize := 0, mObjectsCapacity := 0, mNextObjectHint := 0,
            mHasFds := False, mFdsKnown := True, mAllowFds := True\<rparr>)
        }
      })"

end
