(* ===== verification/Parcel_Ops.thy ===== *)
theory Parcel_Ops
  imports Binder_Parcel
begin

text \<open>The operations of \<open>Parcel.cpp\<close> on top of the memory of a parcel: positions and sizes, writing and reading of numbers, strings, binders and descriptors.\<close>

unbundle bit_operations_syntax

section \<open>Positions and sizes\<close>

definition dataSize :: "pstate \<Rightarrow> u32" where
  "dataSize s = (if mDataPos s < mDataSize s then mDataSize s else mDataPos s)"

definition dataAvail :: "pstate \<Rightarrow> u32" where
  "dataAvail s = dataSize s - mDataPos s"

definition setDataSize :: "sys \<Rightarrow> u32 \<Rightarrow> pstate \<Rightarrow> (s32 \<times> pstate) run" where
  "setDataSize y sz s = do { (err, s1) \<leftarrow> continueWrite y sz s; Some (err, if err = NO_ERROR then s1\<lparr>mDataSize := sz\<rparr> else s1) }"

definition setDataPosition :: "u32 \<Rightarrow> pstate \<Rightarrow> pstate" where
  "setDataPosition pos s = s\<lparr>mDataPos := pos, mNextObjectHint := 0\<rparr>"

definition setDataCapacity :: "sys \<Rightarrow> u32 \<Rightarrow> pstate \<Rightarrow> (s32 \<times> pstate) run" where
  "setDataCapacity y sz s = (if mDataCapacity s < sz then continueWrite y sz s else Some (NO_ERROR, s))"

text \<open>The buffer of the caller is a list of at least \<open>len\<close> bytes.\<close>

definition setData :: "sys \<Rightarrow> u8 list \<Rightarrow> u32 \<Rightarrow> pstate \<Rightarrow> (s32 \<times> pstate) run" where
  "setData y buf len s = do {
     (err, s1) \<leftarrow> restartWrite y len s;
     if err = NO_ERROR then do {
       bs \<leftarrow> load 0 (unat len) (Mem buf);
       d \<leftarrow> store 0 bs (mData s1);
       Some (err, s1\<lparr>mData := d, mDataSize := len, mFdsKnown := False\<rparr>)
     } else Some (err, s1)
   }"

definition pushAllowFds :: "bool \<Rightarrow> pstate \<Rightarrow> bool \<times> pstate" where
  "pushAllowFds allow s = (mAllowFds s, if allow then s else s\<lparr>mAllowFds := False\<rparr>)"

definition restoreAllowFds :: "bool \<Rightarrow> pstate \<Rightarrow> pstate" where
  "restoreAllowFds v s = s\<lparr>mAllowFds := v\<rparr>"

definition setError :: "s32 \<Rightarrow> pstate \<Rightarrow> pstate" where
  "setError err s = s\<lparr>mError := err\<rparr>"

text \<open>The loop of \<open>scanForFds\<close>, over the indices of the objects.\<close>

fun scan_fds :: "pstate \<Rightarrow> nat list \<Rightarrow> bool run" where
  "scan_fds s [] = Some False"
| "scan_fds s (i # is) = do {
     off \<leftarrow> load1 i (mObjects s);
     bs \<leftarrow> load (unat off) 4 (mData s);
     if from_le bs = BINDER_TYPE_FD then Some True else scan_fds s is
   }"

definition scanForFds :: "pstate \<Rightarrow> pstate run" where
  "scanForFds s = do { b \<leftarrow> scan_fds s [0..<unat (mObjectsSize s)]; Some (s\<lparr>mHasFds := b, mFdsKnown := True\<rparr>) }"

definition hasFileDescriptors :: "pstate \<Rightarrow> (bool \<times> pstate) run" where
  "hasFileDescriptors s = do { s1 \<leftarrow> if mFdsKnown s then Some s else scanForFds s; Some (mHasFds s1, s1) }"

section \<open>Writing\<close>

definition finishWrite :: "u32 \<Rightarrow> pstate \<Rightarrow> s32 \<times> pstate" where
  "finishWrite len s = (let pos = mDataPos s + len in (NO_ERROR, s\<lparr>mDataPos := pos, mDataSize := (if mDataSize s < pos then pos else mDataSize s)\<rparr>))"

text \<open>The part behind the label \<open>restart_write\<close>.\<close>

definition put_bytes_at :: "u8 list \<Rightarrow> pstate \<Rightarrow> (s32 \<times> pstate) run" where
  "put_bytes_at bs s = do { d \<leftarrow> store (unat (mDataPos s)) bs (mData s); Some (finishWrite (of_nat (length bs)) (s\<lparr>mData := d\<rparr>)) }"

definition writeAligned :: "sys \<Rightarrow> u8 list \<Rightarrow> pstate \<Rightarrow> (s32 \<times> pstate) run" where
  "writeAligned y bs s =
     (if mDataPos s + of_nat (length bs) \<le> mDataCapacity s then put_bytes_at bs s
      else do { (err, s1) \<leftarrow> growData y (of_nat (length bs)) s; if err = NO_ERROR then put_bytes_at bs s1 else Some (err, s1) })"

definition writeUnpadded :: "sys \<Rightarrow> u8 list \<Rightarrow> u32 \<Rightarrow> pstate \<Rightarrow> (s32 \<times> pstate) run" where
  "writeUnpadded y buf len s =
     (let end_pos = mDataPos s + len; put = (\<lambda>s. do { bs \<leftarrow> load 0 (unat len) (Mem buf); put_bytes_at bs s }) in
      if end_pos < mDataPos s then Some (BAD_VALUE, s)
      else if end_pos \<le> mDataCapacity s then put s
      else do { (err, s1) \<leftarrow> growData y len s; if err = NO_ERROR then put s1 else Some (err, s1) })"

definition pad_mask :: "u32 \<Rightarrow> u32" where
  "pad_mask k = [0, 0x00ffffff, 0x0000ffff, 0x000000ff] ! unat k"

definition apply_pad :: "u32 \<Rightarrow> u32 \<Rightarrow> pstate \<Rightarrow> pstate run" where
  "apply_pad padded len s =
     (if padded = len then Some s
      else if unat (mDataPos s) + unat padded < 4 then None
      else do {
        let i = unat (mDataPos s) + unat padded - 4;
        w \<leftarrow> load i 4 (mData s);
        d \<leftarrow> store i (to_le 4 (from_le w AND pad_mask (padded - len))) (mData s);
        Some (s\<lparr>mData := d\<rparr>)
      })"

text \<open>The pointer \<open>mData + mDataPos\<close> as a result: the offset of the data, or \<open>None\<close> for a null pointer.\<close>

definition data_ptr :: "pstate \<Rightarrow> nat option" where
  "data_ptr s = (if mData s = Null then None else Some (unat (mDataPos s)))"

definition put_inplace :: "u32 \<Rightarrow> u32 \<Rightarrow> pstate \<Rightarrow> (nat option \<times> pstate) run" where
  "put_inplace padded len s = do { s1 \<leftarrow> apply_pad padded len s; Some (data_ptr s, snd (finishWrite padded s1)) }"

definition writeInplace :: "sys \<Rightarrow> u32 \<Rightarrow> pstate \<Rightarrow> (nat option \<times> pstate) run" where
  "writeInplace y len s = (let padded = PAD_SIZE len in
     if mDataPos s + padded < mDataPos s then Some (None, s)
     else if mDataPos s + padded \<le> mDataCapacity s then put_inplace padded len s
     else do { (err, s1) \<leftarrow> growData y padded s; if err = NO_ERROR then put_inplace padded len s1 else Some (None, s1) })"

text \<open>\<open>memcpy\<close> to the place that \<open>writeInplace\<close> returned.\<close>

definition fill :: "nat \<Rightarrow> u8 list \<Rightarrow> pstate \<Rightarrow> pstate run" where
  "fill i bs s = do { d \<leftarrow> store i bs (mData s); Some (s\<lparr>mData := d\<rparr>) }"

definition parcel_write :: "sys \<Rightarrow> u8 list \<Rightarrow> u32 \<Rightarrow> pstate \<Rightarrow> (s32 \<times> pstate) run" where
  "parcel_write y buf len s = do {
     (d, s1) \<leftarrow> writeInplace y len s;
     case d of
       None \<Rightarrow> Some (mError s1, s1)
     | Some i \<Rightarrow> do { bs \<leftarrow> load 0 (unat len) (Mem buf); s2 \<leftarrow> fill i bs s1; Some (NO_ERROR, s2) }
   }"

definition writeInt32 :: "sys \<Rightarrow> u32 \<Rightarrow> pstate \<Rightarrow> (s32 \<times> pstate) run" where
  "writeInt32 y v s = writeAligned y (to_le 4 v) s"

definition writeInt64 :: "sys \<Rightarrow> 64 word \<Rightarrow> pstate \<Rightarrow> (s32 \<times> pstate) run" where
  "writeInt64 y v s = writeAligned y (to_le 8 v) s"

text \<open>\<open>writePointer\<close> and \<open>writeFloat\<close> write 32 bits, \<open>writeDouble\<close> writes 64.\<close>

definition writePointer :: "sys \<Rightarrow> u32 \<Rightarrow> pstate \<Rightarrow> (s32 \<times> pstate) run" where
  "writePointer y v s = writeAligned y (to_le 4 v) s"

definition writeFloat :: "sys \<Rightarrow> u32 \<Rightarrow> pstate \<Rightarrow> (s32 \<times> pstate) run" where
  "writeFloat y v s = writeAligned y (to_le 4 v) s"

definition writeDouble :: "sys \<Rightarrow> 64 word \<Rightarrow> pstate \<Rightarrow> (s32 \<times> pstate) run" where
  "writeDouble y v s = writeAligned y (to_le 8 v) s"

text \<open>Arrays; a null pointer is \<open>None\<close>. The number of bytes wraps.\<close>

definition writeByteArray :: "sys \<Rightarrow> u32 \<Rightarrow> u8 list option \<Rightarrow> pstate \<Rightarrow> (s32 \<times> pstate) run" where
  "writeByteArray y len val s =
     (case val of
        None \<Rightarrow> writeInt32 y (-1) s
      | Some v \<Rightarrow> do { (ret, s1) \<leftarrow> writeInt32 y len s; if ret = NO_ERROR then parcel_write y v len s1 else Some (ret, s1) })"

definition writeInt32Array :: "sys \<Rightarrow> u32 \<Rightarrow> u32 list option \<Rightarrow> pstate \<Rightarrow> (s32 \<times> pstate) run" where
  "writeInt32Array y len val s =
     (case val of
        None \<Rightarrow> writeInt32 y (-1) s
      | Some v \<Rightarrow> do { (ret, s1) \<leftarrow> writeInt32 y len s; if ret = NO_ERROR then parcel_write y (words_le v) (len * 4) s1 else Some (ret, s1) })"

text \<open>Strings are lists without the final zero, which the write adds.\<close>

definition writeCString :: "sys \<Rightarrow> u8 list \<Rightarrow> pstate \<Rightarrow> (s32 \<times> pstate) run" where
  "writeCString y str s = parcel_write y (str @ [0]) (of_nat (length str) + 1) s"

definition writeString8 :: "sys \<Rightarrow> u8 list \<Rightarrow> pstate \<Rightarrow> (s32 \<times> pstate) run" where
  "writeString8 y str s = (let n = of_nat (length str) in do {
     (err, s1) \<leftarrow> writeInt32 y n s;
     if 0 < n \<and> err = NO_ERROR then parcel_write y (str @ [0]) (n + 1) s1 else Some (err, s1)
   })"

definition writeString16 :: "sys \<Rightarrow> u16 list option \<Rightarrow> u32 \<Rightarrow> pstate \<Rightarrow> (s32 \<times> pstate) run" where
  "writeString16 y str len s =
     (case str of
        None \<Rightarrow> writeInt32 y (-1) s
      | Some us \<Rightarrow> do {
          (err, s1) \<leftarrow> writeInt32 y len s;
          if err = NO_ERROR then do {
            let n = len * 2;
            (d, s2) \<leftarrow> writeInplace y (n + 2) s1;
            case d of
              None \<Rightarrow> Some (mError s2, s2)
            | Some i \<Rightarrow> do {
                bs \<leftarrow> load 0 (unat n) (Mem (units_le us));
                s3 \<leftarrow> fill i bs s2;
                s4 \<leftarrow> fill (i + unat n) [0, 0] s3;
                Some (NO_ERROR, s4)
              }
          } else Some (err, s1)
        })"

definition writeNoException :: "sys \<Rightarrow> pstate \<Rightarrow> (s32 \<times> pstate) run" where
  "writeNoException y s = writeInt32 y 0 s"

definition STRICT_MODE_PENALTY_GATHER :: u32 where
  "STRICT_MODE_PENALTY_GATHER = 0x100"

definition writeInterfaceToken :: "sys \<Rightarrow> u32 \<Rightarrow> u16 list \<Rightarrow> pstate \<Rightarrow> (s32 \<times> pstate) run" where
  "writeInterfaceToken y policy interface s = do {
     (_, s1) \<leftarrow> writeInt32 y (policy OR STRICT_MODE_PENALTY_GATHER) s;
     writeString16 y (Some interface) (of_nat (length interface)) s1
   }"

section \<open>Writing of objects\<close>

definition put_object :: "sys \<Rightarrow> flat_binder_object \<Rightarrow> bool \<Rightarrow> pstate \<Rightarrow> (s32 \<times> pstate) run" where
  "put_object y val nullMetaData s = do {
     d \<leftarrow> store (unat (mDataPos s)) (obj_le val) (mData s);
     let s1 = s\<lparr>mData := d\<rparr>;
     s2 \<leftarrow> if nullMetaData \<or> obj_binder val \<noteq> 0
          then do {
            os \<leftarrow> store (unat (mObjectsSize s1)) [mDataPos s1] (mObjects s1);
            let s1' = acquire_object y val (s1\<lparr>mObjects := os\<rparr>);
            Some (s1'\<lparr>mObjectsSize := mObjectsSize s1' + 1\<rparr>)
          } else Some s1;
     if obj_type val = BINDER_TYPE_FD
     then if mAllowFds s2 then Some (finishWrite 16 (s2\<lparr>mHasFds := True, mFdsKnown := True\<rparr>)) else Some (FDS_NOT_ALLOWED, s2)
     else Some (finishWrite 16 s2)
   }"

definition grow_objects :: "sys \<Rightarrow> u32 \<Rightarrow> pstate \<Rightarrow> (s32 \<times> pstate) run" where
  "grow_objects y newSize s = do {
     (os, old, s1) \<leftarrow> c_realloc y (junk32 y) 4 (mObjects s) (newSize * 4) s;
     if os = Null then Some (NO_MEMORY, s1\<lparr>mObjects := old\<rparr>) else Some (NO_ERROR, s1\<lparr>mObjects := os, mObjectsCapacity := newSize\<rparr>)
   }"

definition writeObject :: "sys \<Rightarrow> flat_binder_object \<Rightarrow> bool \<Rightarrow> pstate \<Rightarrow> (s32 \<times> pstate) run" where
  "writeObject y val nullMetaData s =
     (let enoughData = (mDataPos s + 16 \<le> mDataCapacity s); enoughObjects = (mObjectsSize s < mObjectsCapacity s) in
      if enoughData \<and> enoughObjects then put_object y val nullMetaData s
      else do {
        (err, s1) \<leftarrow> if enoughData then Some (NO_ERROR, s) else growData y 16 s;
        if err \<noteq> NO_ERROR then Some (err, s1)
        else do {
          (err2, s2) \<leftarrow> if enoughObjects then Some (NO_ERROR, s1) else grow_objects y (((mObjectsSize s1 + 2) * 3) div 2) s1;
          if err2 \<noteq> NO_ERROR then Some (err2, s2) else put_object y val nullMetaData s2
        }
      })"

text \<open>A binder is a local object with the addresses of its counters and of itself, or a proxy with the handle of its remote binder, if there is one.\<close>

datatype IBinder = LocalBinder u32 u32 | RemoteBinder "u32 option"

definition obj_of :: "u32 \<Rightarrow> u32 \<Rightarrow> u32 \<Rightarrow> flat_binder_object" where
  "obj_of t b c = \<lparr>obj_type = t, obj_flags = 0x17f, obj_binder = b, obj_cookie = c\<rparr>"

fun flat_strong :: "IBinder option \<Rightarrow> flat_binder_object" where
  "flat_strong None = obj_of BINDER_TYPE_BINDER 0 0"
| "flat_strong (Some (LocalBinder refs ptr)) = obj_of BINDER_TYPE_BINDER refs ptr"
| "flat_strong (Some (RemoteBinder h)) = obj_of BINDER_TYPE_HANDLE (case h of None \<Rightarrow> 0 | Some n \<Rightarrow> n) 0"

definition writeStrongBinder :: "sys \<Rightarrow> IBinder option \<Rightarrow> pstate \<Rightarrow> (s32 \<times> pstate) run" where
  "writeStrongBinder y b s = writeObject y (flat_strong b) False s"

text \<open>A weak pointer has the addresses of the counters and of the object, and what \<open>promote\<close> returns.\<close>

fun flat_weak :: "(u32 \<times> u32 \<times> IBinder option) option \<Rightarrow> flat_binder_object" where
  "flat_weak None = obj_of BINDER_TYPE_BINDER 0 0"
| "flat_weak (Some (_, _, None)) = obj_of BINDER_TYPE_BINDER 0 0"
| "flat_weak (Some (refs, ptr, Some (LocalBinder _ _))) = obj_of BINDER_TYPE_WEAK_BINDER refs ptr"
| "flat_weak (Some (_, _, Some (RemoteBinder h))) = obj_of BINDER_TYPE_WEAK_HANDLE (case h of None \<Rightarrow> 0 | Some n \<Rightarrow> n) 0"

definition writeWeakBinder :: "sys \<Rightarrow> (u32 \<times> u32 \<times> IBinder option) option \<Rightarrow> pstate \<Rightarrow> (s32 \<times> pstate) run" where
  "writeWeakBinder y b s = writeObject y (flat_weak b) False s"

definition writeFileDescriptor :: "sys \<Rightarrow> u32 \<Rightarrow> bool \<Rightarrow> pstate \<Rightarrow> (s32 \<times> pstate) run" where
  "writeFileDescriptor y fd takeOwnership s = writeObject y (obj_of BINDER_TYPE_FD fd (if takeOwnership then 1 else 0)) True s"

definition c_dup :: "sys \<Rightarrow> u32 \<Rightarrow> pstate \<Rightarrow> s32 \<times> pstate" where
  "c_dup y fd s = (dup_fd y (now s), effects [Dup fd (dup_fd y (now s))] s)"

definition writeDupFileDescriptor :: "sys \<Rightarrow> u32 \<Rightarrow> pstate \<Rightarrow> (s32 \<times> pstate) run" where
  "writeDupFileDescriptor y fd s = (case c_dup y fd s of (dupFd, s1) \<Rightarrow>
     if dupFd < 0 then Some (dupFd, s1)
     else do {
       (err, s2) \<leftarrow> writeFileDescriptor y (word_of_int dupFd) True s1;
       Some (err, if err = 0 then s2 else effects [Close (word_of_int dupFd)] s2)
     })"

definition writeParcelFileDescriptor :: "sys \<Rightarrow> s32 \<Rightarrow> s32 \<Rightarrow> pstate \<Rightarrow> (s32 \<times> pstate) run" where
  "writeParcelFileDescriptor y fd commChannel s =
     (if fd < 0 then writeInt32 y 0 s
      else do {
        (st, s1) \<leftarrow> writeInt32 y 1 s;
        if st \<noteq> 0 then Some (st, s1)
        else do {
          (st2, s2) \<leftarrow> writeDupFileDescriptor y (word_of_int fd) s1;
          if st2 \<noteq> 0 then Some (st2, s2)
          else if commChannel < 0 then writeInt32 y 0 s2
          else do {
            (st3, s3) \<leftarrow> writeInt32 y 1 s2;
            if st3 \<noteq> 0 then Some (st3, s3) else writeDupFileDescriptor y (word_of_int commChannel) s3
          }
        }
      })"

fun write_fds :: "sys \<Rightarrow> u32 list \<Rightarrow> pstate \<Rightarrow> (s32 \<times> pstate) run" where
  "write_fds y [] s = Some (NO_ERROR, s)"
| "write_fds y (fd # fds) s = do { (err, s1) \<leftarrow> writeDupFileDescriptor y fd s; if err = NO_ERROR then write_fds y fds s1 else Some (err, s1) }"

record native_handle =
  version :: u32
  numFds :: s32
  numInts :: s32
  nh_data :: "u32 list"

definition writeNativeHandle :: "sys \<Rightarrow> native_handle option \<Rightarrow> pstate \<Rightarrow> (s32 \<times> pstate) run" where
  "writeNativeHandle y handle s =
     (case handle of
        None \<Rightarrow> Some (BAD_TYPE, s)
      | Some h \<Rightarrow>
          if version h \<noteq> 12 then Some (BAD_TYPE, s)
          else do {
            (err, s1) \<leftarrow> writeInt32 y (word_of_int (numFds h)) s;
            if err \<noteq> NO_ERROR then Some (err, s1)
            else do {
              (err2, s2) \<leftarrow> writeInt32 y (word_of_int (numInts h)) s1;
              if err2 \<noteq> NO_ERROR then Some (err2, s2)
              else do {
                (err3, s3) \<leftarrow> write_fds y (take (nat (numFds h)) (nh_data h)) s2;
                if err3 \<noteq> NO_ERROR then Some (err3, s3)
                else if length (nh_data h) < nat (numFds h) then None
                else parcel_write y (words_le (drop (nat (numFds h)) (nh_data h))) (4 * word_of_int (numInts h)) s3
              }
            }
          })"

section \<open>Reading\<close>

definition can_read :: "u32 \<Rightarrow> pstate \<Rightarrow> bool" where
  "can_read len s = (mDataPos s \<le> mDataPos s + PAD_SIZE len \<and> mDataPos s + PAD_SIZE len \<le> mDataSize s \<and> len \<le> PAD_SIZE len)"

text \<open>The bytes that \<open>read\<close> copies are part of the result.\<close>

definition parcel_read :: "u32 \<Rightarrow> pstate \<Rightarrow> (s32 \<times> u8 list \<times> pstate) run" where
  "parcel_read len s =
     (if can_read len s
      then do { bs \<leftarrow> load (unat (mDataPos s)) (unat len) (mData s); Some (NO_ERROR, bs, s\<lparr>mDataPos := mDataPos s + PAD_SIZE len\<rparr>) }
      else Some (NOT_ENOUGH_DATA, [], s))"

definition readInplace :: "u32 \<Rightarrow> pstate \<Rightarrow> nat option \<times> pstate" where
  "readInplace len s = (if can_read len s then (data_ptr s, s\<lparr>mDataPos := mDataPos s + PAD_SIZE len\<rparr>) else (None, s))"

text \<open>\<open>readAligned\<close> for a type of \<open>n\<close> bytes; the version that returns a value gives 0 on an error.\<close>

definition readAligned :: "nat \<Rightarrow> pstate \<Rightarrow> (s32 \<times> 'a :: len word \<times> pstate) run" where
  "readAligned n s =
     (if mDataPos s + of_nat n \<le> mDataSize s
      then do { bs \<leftarrow> load (unat (mDataPos s)) n (mData s); Some (NO_ERROR, from_le bs, s\<lparr>mDataPos := mDataPos s + of_nat n\<rparr>) }
      else Some (NOT_ENOUGH_DATA, 0, s))"

definition readInt32 :: "pstate \<Rightarrow> (u32 \<times> pstate) run" where
  "readInt32 s = map_option snd (readAligned 4 s)"

definition readInt32_status :: "pstate \<Rightarrow> (s32 \<times> u32 \<times> pstate) run" where
  "readInt32_status s = readAligned 4 s"

definition readInt64 :: "pstate \<Rightarrow> (64 word \<times> pstate) run" where
  "readInt64 s = map_option snd (readAligned 8 s)"

definition readPointer :: "pstate \<Rightarrow> (u32 \<times> pstate) run" where
  "readPointer s = map_option snd (readAligned 4 s)"

definition readFloat :: "pstate \<Rightarrow> (u32 \<times> pstate) run" where
  "readFloat s = map_option snd (readAligned 4 s)"

definition readDouble :: "pstate \<Rightarrow> (64 word \<times> pstate) run" where
  "readDouble s = map_option snd (readAligned 8 s)"

text \<open>\<open>memchr\<close> for zero in \<open>n\<close> bytes; reading behind the memory is \<open>None\<close>.\<close>

fun memchr0 :: "u8 list \<Rightarrow> nat \<Rightarrow> nat option run" where
  "memchr0 [] n = (if n = 0 then Some None else None)"
| "memchr0 (b # bs) n = (if n = 0 then Some None else if b = 0 then Some (Some 0) else map_option (map_option Suc) (memchr0 bs (n - 1)))"

definition bytes_from :: "nat \<Rightarrow> u8 mem \<Rightarrow> u8 list" where
  "bytes_from i m = (case m of Mem b \<Rightarrow> drop i b | _ \<Rightarrow> [])"

definition readCString :: "pstate \<Rightarrow> (u8 list option \<times> pstate) run" where
  "readCString s = (let avail = mDataSize s - mDataPos s; bs = bytes_from (unat (mDataPos s)) (mData s) in
     if 0 < avail then do {
       eos \<leftarrow> memchr0 bs (unat avail);
       case eos of
         None \<Rightarrow> Some (None, s)
       | Some n \<Rightarrow> Some (Some (take n bs), s\<lparr>mDataPos := mDataPos s + PAD_SIZE (of_nat n + 1)\<rparr>)
     } else Some (None, s))"

definition readString8 :: "pstate \<Rightarrow> (u8 list \<times> pstate) run" where
  "readString8 s = do {
     (w, s1) \<leftarrow> readInt32 s;
     let size = sint w;
     if 0 < size \<and> size < 2147483647 then
       (case readInplace (w + 1) s1 of
          (None, s2) \<Rightarrow> Some ([], s2)
        | (Some i, s2) \<Rightarrow> do { bs \<leftarrow> load i (nat size) (mData s2); Some (bs, s2) })
     else Some ([], s1)
   }"

text \<open>The result of \<open>readString16Inplace\<close> is the offset of the string, if any, with its length.\<close>

definition readString16Inplace :: "pstate \<Rightarrow> (nat option \<times> u32 \<times> pstate) run" where
  "readString16Inplace s = do {
     (w, s1) \<leftarrow> readInt32 s;
     let size = sint w;
     if 0 \<le> size \<and> size < 2147483647 then
       (case readInplace ((w + 1) * 2) s1 of
          (None, s2) \<Rightarrow> Some (None, 0, s2)
        | (Some i, s2) \<Rightarrow> Some (Some i, w, s2))
     else Some (None, 0, s1)
   }"

definition readString16 :: "pstate \<Rightarrow> (u16 list \<times> pstate) run" where
  "readString16 s = do {
     (str, len, s1) \<leftarrow> readString16Inplace s;
     case str of
       None \<Rightarrow> Some ([], s1)
     | Some i \<Rightarrow> do { bs \<leftarrow> load i (2 * unat len) (mData s1); Some (le_units bs, s1) }
   }"

text \<open>\<open>enforceInterface\<close> with the flag of a one-way call; the second result is the policy that it sets.\<close>

definition enforceInterface :: "bool \<Rightarrow> u16 list \<Rightarrow> pstate \<Rightarrow> (bool \<times> u32 \<times> pstate) run" where
  "enforceInterface oneway interface s = do {
     (strictPolicy, s1) \<leftarrow> readInt32 s;
     (str, s2) \<leftarrow> readString16 s1;
     Some (str = interface, if oneway then 0 else strictPolicy, s2)
   }"

definition EX_HAS_REPLY_HEADER :: u32 where
  "EX_HAS_REPLY_HEADER = -128"

definition readExceptionCode :: "pstate \<Rightarrow> (u32 \<times> pstate) run" where
  "readExceptionCode s = do {
     (code, s1) \<leftarrow> readInt32 s;
     if code = EX_HAS_REPLY_HEADER then do {
       let header_start = mDataPos s1;
       (header_size, s2) \<leftarrow> readInt32 s1;
       Some (0, setDataPosition (header_start + header_size) s2)
     } else Some (code, s1)
   }"

section \<open>Reading of objects\<close>

text \<open>The two loops of \<open>readObject\<close> over the offsets of the objects.\<close>

fun search_forward :: "u32 mem \<Rightarrow> u32 \<Rightarrow> nat \<Rightarrow> nat \<Rightarrow> nat run" where
  "search_forward objs dpos 0 opos = Some opos"
| "search_forward objs dpos (Suc n) opos = do { v \<leftarrow> load1 opos objs; if v < dpos then search_forward objs dpos n (Suc opos) else Some opos }"

primrec search_backward :: "u32 mem \<Rightarrow> u32 \<Rightarrow> nat \<Rightarrow> nat run" where
  "search_backward objs dpos 0 = Some 0"
| "search_backward objs dpos (Suc n) = do { v \<leftarrow> load1 (Suc n) objs; if dpos < v then search_backward objs dpos n else Some (Suc n) }"

text \<open>The search for an object at \<open>dpos\<close> among \<open>n\<close> objects from the hint; \<open>None\<close> inside when there is none.\<close>

definition find_object :: "u32 mem \<Rightarrow> u32 \<Rightarrow> nat \<Rightarrow> nat \<Rightarrow> nat option run" where
  "find_object objs dpos n hint =
     (if n = 0 then Some None
      else do {
        opos \<leftarrow> if hint < n then search_forward objs dpos (n - 1 - hint) hint else Some (n - 1);
        v \<leftarrow> load1 opos objs;
        if v = dpos then Some (Some opos)
        else do {
          opos2 \<leftarrow> search_backward objs dpos opos;
          v2 \<leftarrow> load1 opos2 objs;
          Some (if v2 = dpos then Some opos2 else None)
        }
      })"

definition readObject :: "bool \<Rightarrow> pstate \<Rightarrow> (flat_binder_object option \<times> pstate) run" where
  "readObject nullMetaData s = (let dpos = mDataPos s in
     if dpos + 16 \<le> mDataSize s then do {
       bs \<leftarrow> load (unat dpos) 16 (mData s);
       let ob = le_obj bs;
       let s1 = s\<lparr>mDataPos := dpos + 16\<rparr>;
       if \<not> nullMetaData \<and> obj_cookie ob = 0 \<and> obj_binder ob = 0 then Some (Some ob, s1)
       else do {
         r \<leftarrow> find_object (mObjects s) dpos (unat (mObjectsSize s)) (unat (mNextObjectHint s));
         case r of
           None \<Rightarrow> Some (None, s1)
         | Some i \<Rightarrow> Some (Some ob, s1\<lparr>mNextObjectHint := of_nat i + 1\<rparr>)
       }
     } else Some (None, s))"

text \<open>What a reader of a binder gets: a pointer to a local object, the proxy of a handle, or nothing.\<close>

datatype binder_ref = NoRef | LocalRef u32 | HandleRef u32

definition local_ref :: "u32 \<Rightarrow> binder_ref" where
  "local_ref ptr = (if ptr = 0 then NoRef else LocalRef ptr)"

text \<open>
  The two forms of \<open>unflatten_binder\<close>: the pointer in the object is assigned to an \<open>sp\<close> or a \<open>wp\<close>, which takes a reference through it unless it is null.
\<close>

definition unflatten_strong :: "flat_binder_object \<Rightarrow> binder_ref \<times> event list" where
  "unflatten_strong ob =
     (if obj_type ob = BINDER_TYPE_BINDER then (local_ref (obj_cookie ob), if obj_cookie ob \<noteq> 0 then [Inc (Strong (obj_cookie ob))] else [])
      else if obj_type ob = BINDER_TYPE_HANDLE then (HandleRef (obj_binder ob), [])
      else (NoRef, []))"

definition unflatten_weak :: "flat_binder_object \<Rightarrow> binder_ref \<times> event list" where
  "unflatten_weak ob =
     (if obj_type ob = BINDER_TYPE_BINDER then (local_ref (obj_cookie ob), if obj_cookie ob \<noteq> 0 then [Inc (WeakOf (obj_cookie ob))] else [])
      else if obj_type ob = BINDER_TYPE_WEAK_BINDER then
        if obj_binder ob \<noteq> 0 then (local_ref (obj_cookie ob), if obj_cookie ob \<noteq> 0 then [Inc (Weak (obj_binder ob))] else []) else (NoRef, [])
      else if obj_type ob = BINDER_TYPE_HANDLE \<or> obj_type ob = BINDER_TYPE_WEAK_HANDLE then (HandleRef (obj_binder ob), [])
      else (NoRef, []))"

definition readStrongBinder :: "pstate \<Rightarrow> (binder_ref \<times> pstate) run" where
  "readStrongBinder s = do {
     (flat, s1) \<leftarrow> readObject False s;
     case flat of
       None \<Rightarrow> Some (NoRef, s1)
     | Some ob \<Rightarrow> (case unflatten_strong ob of (r, es) \<Rightarrow> Some (r, effects es s1))
   }"

definition readWeakBinder :: "pstate \<Rightarrow> (binder_ref \<times> pstate) run" where
  "readWeakBinder s = do {
     (flat, s1) \<leftarrow> readObject False s;
     case flat of
       None \<Rightarrow> Some (NoRef, s1)
     | Some ob \<Rightarrow> (case unflatten_weak ob of (r, es) \<Rightarrow> Some (r, effects es s1))
   }"

definition readFileDescriptor :: "pstate \<Rightarrow> (s32 \<times> pstate) run" where
  "readFileDescriptor s = do {
     (flat, s1) \<leftarrow> readObject True s;
     case flat of
       None \<Rightarrow> Some (BAD_TYPE, s1)
     | Some ob \<Rightarrow> Some (if obj_type ob = BINDER_TYPE_FD then sint (obj_binder ob) else BAD_TYPE, s1)
   }"

text \<open>The results are the descriptor and the one of the channel.\<close>

definition readParcelFileDescriptor :: "pstate \<Rightarrow> (s32 \<times> s32 \<times> pstate) run" where
  "readParcelFileDescriptor s = do {
     (present, s1) \<leftarrow> readInt32 s;
     if present = 0 then Some (-1, -1, s1)
     else do {
       (fd, s2) \<leftarrow> readFileDescriptor s1;
       if fd < 0 then Some (fd, -1, s2)
       else do {
         (comm, s3) \<leftarrow> readInt32 s2;
         if comm = 0 then Some (fd, -1, s3) else do { (ch, s4) \<leftarrow> readFileDescriptor s3; Some (fd, ch, s4) }
       }
     }
   }"

text \<open>The loop that duplicates \<open>n\<close> descriptors of the parcel; it ends at the first failure.\<close>

primrec read_dups :: "sys \<Rightarrow> nat \<Rightarrow> pstate \<Rightarrow> (s32 \<times> s32 list \<times> pstate) run" where
  "read_dups y 0 s = Some (NO_ERROR, [], s)"
| "read_dups y (Suc n) s = do {
     (fd, s1) \<leftarrow> readFileDescriptor s;
     case c_dup y (word_of_int fd) s1 of (d, s2) \<Rightarrow>
       if d < 0 then Some (BAD_VALUE, [d], s2)
       else do { (err, ds, s3) \<leftarrow> read_dups y n s2; Some (err, d # ds, s3) }
   }"

text \<open>\<open>native_handle_create\<close>: the memory behind the header, or \<open>None\<close> without memory.\<close>

definition native_handle_create :: "sys \<Rightarrow> s32 \<Rightarrow> s32 \<Rightarrow> pstate \<Rightarrow> native_handle option \<times> pstate" where
  "native_handle_create y nFds nInts s =
     (let n = (unat (12 + 4 * word_of_int (nFds + nInts) :: u32) - 12) div 4 in
      (if mem_ok y (now s) then Some \<lparr>version = 12, numFds = nFds, numInts = nInts, nh_data = map (junk32 y (now s)) [0..<n]\<rparr> else None, effects [Alloc] s))"

definition native_handle_close :: "native_handle \<Rightarrow> pstate \<Rightarrow> pstate" where
  "native_handle_close h s = effects (map Close (take (nat (numFds h)) (nh_data h))) s"

definition readNativeHandle :: "sys \<Rightarrow> pstate \<Rightarrow> (native_handle option \<times> pstate) run" where
  "readNativeHandle y s = do {
     (err, nf, s1) \<leftarrow> readInt32_status s;
     if err \<noteq> NO_ERROR then Some (None, s1)
     else do {
       (err2, ni, s2) \<leftarrow> readInt32_status s1;
       if err2 \<noteq> NO_ERROR then Some (None, s2)
       else (case native_handle_create y (sint nf) (sint ni) s2 of (h, s3) \<Rightarrow> do {
         (err3, ds, s4) \<leftarrow> read_dups y (nat (sint nf)) s3;
         d \<leftarrow> store 0 (map word_of_int ds) (case h of None \<Rightarrow> Null | Some x \<Rightarrow> Mem (nh_data x));
         (err4, bs, s5) \<leftarrow> parcel_read (4 * ni) s4;
         if err4 \<noteq> NO_ERROR then (case h of None \<Rightarrow> None | Some x \<Rightarrow>
           (case d of Mem xs \<Rightarrow> if length xs < nat (sint nf) then None else Some (None, native_handle_close (x\<lparr>nh_data := xs\<rparr>) s5) | _ \<Rightarrow> None))
         else if sint nf < 0 \<and> bs \<noteq> [] then None
         else do {
           d2 \<leftarrow> store (nat (sint nf)) (le_words bs) d;
           Some (case h of None \<Rightarrow> None | Some x \<Rightarrow> (case d2 of Mem xs \<Rightarrow> Some (x\<lparr>nh_data := xs\<rparr>) | _ \<Rightarrow> None), s5)
         }
       })
     }
   }"

section \<open>Data of other parcels and of the driver\<close>

text \<open>The loop that looks for the objects in a range; the result is the first and the last index.\<close>

fun objects_in_range :: "u32 mem \<Rightarrow> u32 \<Rightarrow> u32 \<Rightarrow> nat list \<Rightarrow> (nat \<times> nat) option \<Rightarrow> (nat \<times> nat) option run" where
  "objects_in_range objs offset len [] r = Some r"
| "objects_in_range objs offset len (i # is) r = do {
     off \<leftarrow> load1 i objs;
     objects_in_range objs offset len is
       (if offset \<le> off \<and> off < offset + len then Some (case r of None \<Rightarrow> i | Some (f, _) \<Rightarrow> f, i) else r)
   }"

fun append_objects :: "sys \<Rightarrow> u32 mem \<Rightarrow> u32 \<Rightarrow> u32 \<Rightarrow> nat list \<Rightarrow> s32 \<Rightarrow> pstate \<Rightarrow> (s32 \<times> pstate) run" where
  "append_objects y objs offset startPos [] err s = Some (err, s)"
| "append_objects y objs offset startPos (i # is) err s = do {
     o1 \<leftarrow> load1 i objs;
     let off = o1 - offset + startPos;
     os \<leftarrow> store (unat (mObjectsSize s)) [off] (mObjects s);
     let s1 = s\<lparr>mObjects := os, mObjectsSize := mObjectsSize s + 1\<rparr>;
     bs \<leftarrow> load (unat off) 16 (mData s1);
     let flat = le_obj bs;
     let s2 = acquire_object y flat s1;
     if obj_type flat = BINDER_TYPE_FD then
       (case c_dup y (obj_binder flat) s2 of (d, s3) \<Rightarrow> do {
          m \<leftarrow> store (unat off) (obj_le (flat\<lparr>obj_binder := word_of_int d, obj_cookie := 1\<rparr>)) (mData s3);
          append_objects y objs offset startPos is (if mAllowFds s3 then err else FDS_NOT_ALLOWED) (s3\<lparr>mData := m, mHasFds := True, mFdsKnown := True\<rparr>)
        })
     else append_objects y objs offset startPos is err s2
   }"

definition appendFrom :: "sys \<Rightarrow> pstate \<Rightarrow> u32 \<Rightarrow> u32 \<Rightarrow> pstate \<Rightarrow> (s32 \<times> pstate) run" where
  "appendFrom y p offset len s =
     (if len = 0 then Some (NO_ERROR, s)
      else if mDataSize p < offset \<or> mDataSize p < len \<or> mDataSize p < offset + len then Some (BAD_VALUE, s)
      else do {
        range \<leftarrow> objects_in_range (mObjects p) offset len [0..<unat (mObjectsSize p)] None;
        let startPos = mDataPos s;
        (err, s1) \<leftarrow> if mDataCapacity s < mDataSize s + len then growData y len s else Some (NO_ERROR, s);
        if err \<noteq> NO_ERROR then Some (err, s1)
        else do {
          bs \<leftarrow> load (unat offset) (unat len) (mData p);
          d \<leftarrow> store (unat (mDataPos s1)) bs (mData s1);
          let s2 = s1\<lparr>mData := d, mDataPos := mDataPos s1 + len, mDataSize := mDataSize s1 + len\<rparr>;
          case range of
            None \<Rightarrow> Some (NO_ERROR, s2)
          | Some (first, final) \<Rightarrow> do {
              let num = of_nat (final - first + 1);
              (err2, s3) \<leftarrow> if mObjectsCapacity s2 < mObjectsSize s2 + num then grow_objects y (((mObjectsSize s2 + num) * 3) div 2) s2 else Some (NO_ERROR, s2);
              if err2 \<noteq> NO_ERROR then Some (err2, s3) else append_objects y (mObjects p) offset startPos [first..<Suc final] NO_ERROR s3
            }
        }
      })"

text \<open>The check that offsets from the driver do not overlap.\<close>

fun check_offsets :: "u32 list \<Rightarrow> u32 \<Rightarrow> bool" where
  "check_offsets [] minOffset = True"
| "check_offsets (off # offs) minOffset = (if off < minOffset then False else check_offsets offs (off + 16))"

definition ipcSetDataReference :: "sys \<Rightarrow> u8 list \<Rightarrow> u32 list \<Rightarrow> pstate \<Rightarrow> pstate run" where
  "ipcSetDataReference y bytes objs s = do {
     s1 \<leftarrow> freeDataNoInit y s;
     let s2 = s1\<lparr>mError := NO_ERROR, mData := Mem bytes, mDataSize := of_nat (length bytes), mDataCapacity := of_nat (length bytes), mDataPos := 0,
       mObjects := Mem objs, mObjectsSize := (if check_offsets objs 0 then of_nat (length objs) else 0), mObjectsCapacity := of_nat (length objs),
       mNextObjectHint := 0, mOwner := True\<rparr>;
     scanForFds s2
   }"

section \<open>Blobs and flattenable objects\<close>

datatype blob = InPlace nat u32 | Mapped u32

definition IN_PLACE_BLOB_LIMIT :: u32 where
  "IN_PLACE_BLOB_LIMIT = 40 * 1024"

text \<open>The results of \<open>ashmem_create_region\<close>, the first \<open>ashmem_set_prot_region\<close>, \<open>mmap\<close> (0 or a negative error number) and the second \<open>ashmem_set_prot_region\<close>.\<close>

definition writeBlob :: "sys \<Rightarrow> s32 \<times> s32 \<times> s32 \<times> s32 \<Rightarrow> u32 \<Rightarrow> pstate \<Rightarrow> (s32 \<times> blob option \<times> pstate) run" where
  "writeBlob y ash len s =
     (if \<not> mAllowFds s \<or> len \<le> IN_PLACE_BLOB_LIMIT then do {
        (st, s1) \<leftarrow> writeInt32 y 0 s;
        if st \<noteq> 0 then Some (st, None, s1)
        else do {
          (p, s2) \<leftarrow> writeInplace y len s1;
          case p of None \<Rightarrow> Some (NO_MEMORY, None, s2) | Some i \<Rightarrow> Some (NO_ERROR, Some (InPlace i len), s2)
        }
      } else (case ash of (fd, prot1, map_err, prot2) \<Rightarrow>
        let done = (\<lambda>st unmap s'. Some (st, None, effects ((if unmap then [Munmap] else []) @ [Close (word_of_int fd)]) s')) in
        if fd < 0 then Some (NO_MEMORY, None, s)
        else if prot1 < 0 then done prot1 False s
        else if map_err \<noteq> 0 then done map_err True s
        else if prot2 < 0 then done prot2 True s
        else do {
          (st, s1) \<leftarrow> writeInt32 y 1 s;
          if st \<noteq> 0 then done st True s1
          else do {
            (st2, s2) \<leftarrow> writeFileDescriptor y (word_of_int fd) True s1;
            if st2 \<noteq> 0 then done st2 True s2 else Some (NO_ERROR, Some (Mapped len), s2)
          }
        }))"

definition readBlob :: "bool \<Rightarrow> u32 \<Rightarrow> pstate \<Rightarrow> (s32 \<times> blob option \<times> pstate) run" where
  "readBlob map_ok len s = do {
     (st, useAshmem, s1) \<leftarrow> readInt32_status s;
     if st \<noteq> 0 then Some (st, None, s1)
     else if useAshmem = 0 then
       (case readInplace len s1 of
          (None, s2) \<Rightarrow> Some (BAD_VALUE, None, s2)
        | (Some i, s2) \<Rightarrow> Some (NO_ERROR, Some (InPlace i len), s2))
     else do {
       (fd, s2) \<leftarrow> readFileDescriptor s1;
       if fd = BAD_TYPE then Some (BAD_VALUE, None, s2)
       else if \<not> map_ok then Some (NO_MEMORY, None, s2)
       else Some (NO_ERROR, Some (Mapped len), s2)
     }
   }"

text \<open>
  The virtual functions of a flattenable object: its size, the number of its descriptors, and what \<open>flatten\<close> returns and writes.
\<close>

record flattenable =
  flattenedSize :: u32
  fdCount :: u32
  flatten_result :: "s32 \<times> u8 list \<times> u32 list"

definition write_flattenable :: "sys \<Rightarrow> flattenable \<Rightarrow> pstate \<Rightarrow> (s32 \<times> pstate) run" where
  "write_flattenable y v s = do {
     (err, s1) \<leftarrow> writeInt32 y (flattenedSize v) s;
     if err \<noteq> 0 then Some (err, s1)
     else do {
       (err2, s2) \<leftarrow> writeInt32 y (fdCount v) s1;
       if err2 \<noteq> 0 then Some (err2, s2)
       else do {
         (buf, s3) \<leftarrow> writeInplace y (PAD_SIZE (flattenedSize v)) s2;
         case buf of
           None \<Rightarrow> Some (BAD_VALUE, s3)
         | Some i \<Rightarrow> (case flatten_result v of (err3, bs, fds) \<Rightarrow> do {
             s4 \<leftarrow> fill i bs s3;
             if err3 = NO_ERROR then write_fds y (take (unat (fdCount v)) fds) s4 else Some (err3, s4)
           })
       }
     }
   }"

text \<open>\<open>read\<close> of a flattenable object; \<open>unflatten\<close> gets the bytes and the descriptors.\<close>

definition read_flattenable :: "sys \<Rightarrow> (u8 list \<Rightarrow> s32 list \<Rightarrow> s32) \<Rightarrow> pstate \<Rightarrow> (s32 \<times> pstate) run" where
  "read_flattenable y unflatten s = do {
     (len, s1) \<leftarrow> readInt32 s;
     (fd_count, s2) \<leftarrow> readInt32 s1;
     case readInplace (PAD_SIZE len) s2 of
       (None, s3) \<Rightarrow> Some (BAD_VALUE, s3)
     | (Some i, s3) \<Rightarrow> do {
         (err, fds, s4) \<leftarrow> read_dups y (unat fd_count) s3;
         if err = NO_ERROR then do { bs \<leftarrow> load i (unat len) (mData s4); Some (unflatten bs fds, s4) } else Some (err, s4)
       }
   }"

end
