(* ===== verification/Parcel_Codec.thy ===== *)
theory Parcel_Codec
  imports Parcel_Ops Bit_Fields
begin

text \<open>Facts about bytes and memory that the proofs about parcels share: numbers and strings as bytes and back, padding, loading and storing, and the search for objects.\<close>

unbundle bit_operations_syntax

section \<open>Numbers\<close>

lemma bit_from_le: "bit (from_le bs :: 'a :: len word) m \<longleftrightarrow> m < LENGTH('a) \<and> m div 8 < length bs \<and> bit (bs ! (m div 8)) (m mod 8)"
proof (induction bs arbitrary: m)
  case (Cons b bs)
  show ?case
  proof (cases "m < 8")
    case True
    then show ?thesis by (auto simp: bit_simps)
  next
    case False
    then have "\<not> bit b m" using bit_imp_le_length [of b m] by auto
    moreover have "m div 8 = Suc ((m - 8) div 8)" "(m - 8) mod 8 = m mod 8" using False by (simp_all add: le_div_geq le_mod_geq)
    ultimately show ?thesis using False Cons.IH [of "m - 8"] by (auto simp: bit_simps)
  qed
qed simp

lemma length_to_le [simp]: "length (to_le n w) = n"
  by (simp add: to_le_def)

lemma nth_to_le: "i < n \<Longrightarrow> to_le n w ! i = ucast (drop_bit (8 * i) w)"
  by (simp add: to_le_def)

lemma from_to_le:
  fixes w :: "'a :: len word"
  assumes "LENGTH('a) \<le> 8 * n"
  shows "from_le (to_le n w) = w"
proof (rule bit_word_eqI)
  fix m assume m: "m < LENGTH('a)"
  then have "m div 8 < n" using assms by (simp add: div_less_iff_less_mult)
  then show "bit (from_le (to_le n w) :: 'a word) m \<longleftrightarrow> bit w m" using m by (auto simp: bit_from_le nth_to_le bit_simps)
qed

lemma from_to_le_32 [simp]: "from_le (to_le 4 w) = (w :: u32)"
  by (rule from_to_le) simp

lemma from_to_le_64 [simp]: "from_le (to_le 8 w) = (w :: 64 word)"
  by (rule from_to_le) simp

lemma from_to_le_16: "from_le (to_le 2 w) = (w :: u16)"
  by (rule from_to_le) simp

lemma to_le_2: "to_le 2 w = [ucast w, ucast (drop_bit 8 w)]"
  by (simp add: to_le_def numeral_2_eq_2)

lemma to_le_4: "to_le 4 w = [ucast w, ucast (drop_bit 8 w), ucast (drop_bit 16 w), ucast (drop_bit 24 w)]"
  by (simp add: to_le_def upt_conv_Cons)

lemma le_units_le [simp]: "le_units (units_le us) = us"
proof (induction us)
  case (Cons u us)
  then show ?case using from_to_le_16 [of u] by (simp add: units_le_def to_le_2)
qed (simp add: units_le_def)

lemma length_units_le [simp]: "length (units_le us) = 2 * length us"
  by (induction us) (simp_all add: units_le_def)

lemma length_words_le [simp]: "length (words_le ws) = 4 * length ws"
  by (induction ws) (simp_all add: words_le_def)

lemma length_obj_le [simp]: "length (obj_le ob) = 16"
  by (simp add: obj_le_def)

lemma le_obj_le [simp]: "le_obj (obj_le ob) = ob"
  by (simp add: le_obj_def obj_le_def words_le_def)

section \<open>Padding\<close>

lemma unat_u32_less: "unat (w :: u32) < 2 ^ 32"
  using unsigned_less [of w] by simp

lemma unat_and_not_3: "unat ((w :: u32) AND NOT 3) = unat w div 4 * 4"
proof -
  have three: "(3 :: u32) = mask 2" by (simp add: mask_eq_exp_minus_1)
  have "w AND NOT 3 = push_bit 2 (drop_bit 2 w)" unfolding three
  proof (rule bit_word_eqI)
    fix n assume n: "n < LENGTH(32)"
    have "2 \<le> n \<Longrightarrow> Suc (Suc (n - 2)) = n" by simp
    then show "bit (w AND NOT (mask 2)) n = bit (push_bit 2 (drop_bit 2 w)) n" using n by (auto simp: bit_simps simp del: Suc_diff_le)
  qed
  also have "\<dots> = drop_bit 2 w * 4" by (simp add: push_bit_eq_mult)
  finally have e: "w AND NOT 3 = drop_bit 2 w * 4" .
  have d: "unat (drop_bit 2 w) = unat w div 4" unfolding unat_drop_bit_eq by (simp add: drop_bit_eq_div)
  have "unat w div 4 * 4 < 2 ^ 32" using unat_u32_less [of w] by simp
  then have "unat (drop_bit 2 w) * unat (4 :: u32) < 2 ^ LENGTH(32)" using d by simp
  then have "unat (drop_bit 2 w * 4) = unat (drop_bit 2 w) * unat (4 :: u32)" by (simp add: unat_word_ariths)
  then show ?thesis using e d by simp
qed

definition padded :: "nat \<Rightarrow> nat" where
  "padded n = (n + 3) div 4 * 4"

lemma padded_bounds: "n \<le> padded n" "padded n < n + 4" "4 dvd padded n"
  by (simp_all add: padded_def)

lemma unat_PAD_SIZE:
  assumes "unat n + 3 < 2 ^ 32"
  shows "unat (PAD_SIZE n) = padded (unat n)"
proof -
  have "unat (n + 3) = unat n + 3" using assms by (simp add: unat_word_ariths)
  then show ?thesis unfolding PAD_SIZE_def unat_and_not_3 padded_def by simp
qed

text \<open>Near the end of the range the padded size wraps to 0.\<close>

lemma PAD_SIZE_wraps: "2 ^ 32 \<le> unat n + 3 \<Longrightarrow> PAD_SIZE n = 0"
proof -
  assume a: "2 ^ 32 \<le> unat n + 3"
  have "unat (n + 3) = (unat n + 3) mod 2 ^ 32" by (simp add: unat_word_ariths)
  also have "\<dots> = (unat n + 3 - 2 ^ 32) mod 2 ^ 32" using a by (rule le_mod_geq)
  also have "\<dots> \<le> unat n + 3 - 2 ^ 32" by (rule mod_less_eq_dividend)
  also have "\<dots> < 4" using unat_u32_less [of n] by simp
  finally have "unat (PAD_SIZE n) = 0" unfolding PAD_SIZE_def unat_and_not_3 by simp
  then show ?thesis by (simp add: unat_eq_0)
qed

lemma pad_masks: "pad_mask 1 = mask 24" "pad_mask 2 = mask 16" "pad_mask 3 = mask 8"
  by code_simp+

lemma pad_mask_take_bit: "0 < k \<Longrightarrow> k < 4 \<Longrightarrow> w AND pad_mask (of_nat k) = take_bit (8 * (4 - k)) w"
proof -
  assume "0 < k" "k < 4"
  then consider "k = 1" | "k = 2" | "k = 3" by linarith
  then show ?thesis by cases (simp_all add: pad_masks take_bit_eq_mask)
qed

lemma to_le_take_bit:
  assumes "length bs = 4" "k \<le> 4"
  shows "to_le 4 (take_bit (8 * k) (from_le bs :: u32)) = take k bs @ replicate (4 - k) 0"
proof (rule nth_equalityI)
  fix i assume "i < length (to_le 4 (take_bit (8 * k) (from_le bs :: u32)))"
  then have i: "i < 4" by simp
  have "ucast (drop_bit (8 * i) (take_bit (8 * k) (from_le bs :: u32))) = (if i < k then bs ! i else 0)"
  proof (rule bit_word_eqI)
    fix m assume m: "m < LENGTH(8)"
    then have "(8 * i + m) div 8 = i" "(8 * i + m) mod 8 = m" by simp_all
    moreover have "8 * i + m < 32" "(8 * i + m < 8 * k) = (i < k)" using i m assms(2) by auto
    ultimately show "bit (ucast (drop_bit (8 * i) (take_bit (8 * k) (from_le bs :: u32))) :: u8) m \<longleftrightarrow> bit (if i < k then bs ! i else 0) m"
      using m i assms(1) by (auto simp: bit_simps bit_from_le)
  qed
  then show "to_le 4 (take_bit (8 * k) (from_le bs :: u32)) ! i = (take k bs @ replicate (4 - k) 0) ! i"
    using i assms by (simp add: nth_to_le nth_append min_def)
qed (use assms in auto)

section \<open>Loading and storing\<close>

lemma load_Mem: "i + n \<le> length b \<Longrightarrow> load i n (Mem b) = Some (take n (drop i b))"
  by (simp add: load_def)

lemma load1_Mem: "i < length b \<Longrightarrow> load1 i (Mem b) = Some (b ! i)"
  by (simp add: load1_def load_Mem hd_drop_conv_nth take_Suc_conv_app_nth flip: hd_conv_nth)

lemma store_Mem: "i + length xs \<le> length b \<Longrightarrow> store i xs (Mem b) = Some (Mem (take i b @ xs @ drop (i + length xs) b))"
  by (simp add: store_def)

section \<open>Search for objects\<close>

lemma search_forward_ok:
  assumes "opos + n < length os"
  shows "\<exists>q. search_forward (Mem os) dpos n opos = Some q \<and> opos \<le> q \<and> q \<le> opos + n \<and> (\<forall>j. opos \<le> j \<and> j < q \<longrightarrow> os ! j < dpos) \<and> (q = opos + n \<or> dpos \<le> os ! q)"
  using assms
proof (induction n arbitrary: opos)
  case (Suc n)
  have l: "load1 opos (Mem os) = Some (os ! opos)" using Suc.prems by (intro load1_Mem) simp
  show ?case
  proof (cases "os ! opos < dpos")
    case True
    obtain q where q: "search_forward (Mem os) dpos n (Suc opos) = Some q" "Suc opos \<le> q" "q \<le> Suc opos + n"
        "\<forall>j. Suc opos \<le> j \<and> j < q \<longrightarrow> os ! j < dpos" "q = Suc opos + n \<or> dpos \<le> os ! q"
      using Suc.IH [of "Suc opos"] Suc.prems by auto
    have "os ! j < dpos" if "opos \<le> j" "j < q" for j using q(4) True that by (cases "j = opos") auto
    then show ?thesis using q True l by auto
  qed (use l in auto)
qed auto

lemma search_backward_ok:
  assumes "n < length os"
  shows "\<exists>q. search_backward (Mem os) dpos n = Some q \<and> q \<le> n \<and> (\<forall>j. q < j \<and> j \<le> n \<longrightarrow> dpos < os ! j) \<and> (q = 0 \<or> os ! q \<le> dpos)"
  using assms
proof (induction n)
  case (Suc n)
  have l: "load1 (Suc n) (Mem os) = Some (os ! Suc n)" using Suc.prems by (rule load1_Mem)
  show ?case
  proof (cases "dpos < os ! Suc n")
    case True
    obtain q where q: "search_backward (Mem os) dpos n = Some q" "q \<le> n" "\<forall>j. q < j \<and> j \<le> n \<longrightarrow> dpos < os ! j" "q = 0 \<or> os ! q \<le> dpos"
      using Suc by auto
    have "dpos < os ! j" if "q < j" "j \<le> Suc n" for j using q(3) True that by (cases "j = Suc n") auto
    then show ?thesis using q True l by auto
  qed (use l in auto)
qed auto

text \<open>For ascending offsets the search finds the object from every hint, and nothing else.\<close>

lemma find_object_ok:
  assumes n: "n \<le> length p" and sorted: "sorted_wrt (<) (take n p)"
  shows "find_object (Mem p) dpos n hint = Some (if dpos \<in> set (take n p) then Some (LEAST i. i < n \<and> p ! i = dpos) else None)"
proof (cases "n = 0")
  case False
  have mono: "p ! i < p ! j" if "i < j" "j < n" for i j using sorted_wrt_nth_less [OF sorted, of i j] that n by simp
  have uniq: "(LEAST i. i < n \<and> p ! i = dpos) = k" if "k < n" "p ! k = dpos" for k
  proof (rule Least_equality)
    fix i assume "i < n \<and> p ! i = dpos"
    then show "k \<le> i" using mono [of i k] that by (cases "i < k") auto
  qed (use that in simp)
  have mem: "dpos \<in> set (take n p) \<longleftrightarrow> (\<exists>k < n. p ! k = dpos)" using n by (auto simp: in_set_conv_nth)
  have found: "dpos \<in> set (take n p)" "(LEAST i. i < n \<and> p ! i = dpos) = k" if "k < n" "p ! k = dpos" for k
    using that mem uniq by auto
  obtain q where q: "(if hint < n then search_forward (Mem p) dpos (n - 1 - hint) hint else Some (n - 1)) = Some q" "q < n" "q < n - 1 \<longrightarrow> dpos \<le> p ! q"
  proof (cases "hint < n")
    case True
    have "hint + (n - 1 - hint) < length p" using True n by simp
    then show ?thesis using search_forward_ok [of hint "n - 1 - hint" p dpos] True that by auto
  next
    case False
    then show ?thesis using that [of "n - 1"] \<open>n \<noteq> 0\<close> by simp
  qed
  obtain r where r: "search_backward (Mem p) dpos q = Some r" "r \<le> q" "\<forall>j. r < j \<and> j \<le> q \<longrightarrow> dpos < p ! j" "r = 0 \<or> p ! r \<le> dpos"
    using search_backward_ok [of q p dpos] q(2) n by auto
  have lq: "load1 q (Mem p) = Some (p ! q)" and lr: "load1 r (Mem p) = Some (p ! r)" using q(2) r(2) n by (simp_all add: load1_Mem)
  have miss: "k = r" if k: "k < n" "p ! k = dpos" "p ! q \<noteq> dpos" for k
  proof -
    have "\<not> q < k" using mono [of q k] k q(2,3) by (auto simp: not_le [symmetric])
    then have "k \<le> q" by simp
    moreover have "\<not> k < r" using mono [of k r] r(2,4) q(2) k(2) by auto
    ultimately show ?thesis using r(3) k(2) by (metis less_irrefl not_less_iff_gr_or_eq)
  qed
  show ?thesis
  proof (cases "p ! q = dpos")
    case True
    then show ?thesis using False q(1,2) lq found [OF q(2) True] by (simp add: find_object_def)
  next
    case ne: False
    have rn: "r < n" using r(2) q(2) by simp
    show ?thesis
    proof (cases "p ! r = dpos")
      case True
      then show ?thesis using False ne q(1) lq lr r(1) found [OF rn True] by (simp add: find_object_def)
    next
      case False
      then have "dpos \<notin> set (take n p)" using mem miss ne by auto
      then show ?thesis using \<open>n \<noteq> 0\<close> False ne q(1) lq lr r(1) by (simp add: find_object_def)
    qed
  qed
qed (simp add: find_object_def)


end
