(* ===== verification/Parcel_Append.thy ===== *)
theory Parcel_Append
  imports Parcel_Codec
begin

text \<open>
  Writing at the end of a parcel. A parcel is well-formed when its capacities are those of its memory; a write that finds memory appends the bytes of the value, padded
  with zeros, and nothing else.
\<close>

section \<open>Well-formed parcels\<close>

definition mem_list :: "'a mem \<Rightarrow> 'a list" where
  "mem_list m = (case m of Mem b \<Rightarrow> b | _ \<Rightarrow> [])"

lemma mem_list_simps [simp]: "mem_list (Mem b) = b" "mem_list Null = []"
  by (simp_all add: mem_list_def)

definition content :: "pstate \<Rightarrow> u8 list" where
  "content s = take (unat (mDataSize s)) (mem_list (mData s))"

definition offsets :: "pstate \<Rightarrow> u32 list" where
  "offsets s = take (unat (mObjectsSize s)) (mem_list (mObjects s))"

definition wf_parcel :: "pstate \<Rightarrow> bool" where
  "wf_parcel s = (mData s \<noteq> Dangling \<and> mObjects s \<noteq> Dangling \<and>
     length (mem_list (mData s)) = unat (mDataCapacity s) \<and> unat (mDataSize s) \<le> unat (mDataCapacity s) \<and>
     length (mem_list (mObjects s)) = unat (mObjectsCapacity s) \<and> unat (mObjectsSize s) \<le> unat (mObjectsCapacity s))"

text \<open>An own parcel whose position is its end.\<close>

definition ready :: "pstate \<Rightarrow> bool" where
  "ready s = (wf_parcel s \<and> \<not> mOwner s \<and> mDataPos s = mDataSize s)"

definition plenty :: "sys \<Rightarrow> bool" where
  "plenty y = (\<forall>t. mem_ok y t)"

lemma length_content: "wf_parcel s \<Longrightarrow> length (content s) = unat (mDataSize s)"
  by (simp add: wf_parcel_def content_def)

lemma length_offsets: "wf_parcel s \<Longrightarrow> length (offsets s) = unat (mObjectsSize s)"
  by (simp add: wf_parcel_def offsets_def)

text \<open>Nothing happened outside of the parcel but allocations.\<close>

definition silent :: "pstate \<Rightarrow> pstate \<Rightarrow> bool" where
  "silent s s1 = (\<exists>es. set es \<subseteq> {Alloc} \<and> trace s1 = trace s @ es)"

lemma silent_refl [simp]: "silent s s"
  by (simp add: silent_def)

lemma silent_trans: "silent s s1 \<Longrightarrow> silent s1 s2 \<Longrightarrow> silent s s2"
  unfolding silent_def by (elim exE conjE) (rule_tac x = "es @ esa" in exI, simp)

lemma silentI: "trace s1 = trace s @ [Alloc] \<Longrightarrow> silent s s1" "trace s1 = trace s \<Longrightarrow> silent s s1"
  by (auto simp: silent_def intro: exI [of _ "[]"])

text \<open>Only the memory, its accounts and the trace of allocations changed.\<close>

definition regrown :: "pstate \<Rightarrow> pstate \<Rightarrow> bool" where
  "regrown s s1 = (ready s1 \<and> content s1 = content s \<and> offsets s1 = offsets s \<and> mDataSize s1 = mDataSize s \<and> mObjects s1 = mObjects s \<and> mObjectsSize s1 = mObjectsSize s \<and>
     mObjectsCapacity s1 = mObjectsCapacity s \<and> mAllowFds s1 = mAllowFds s \<and> mError s1 = mError s \<and> silent s s1)"

definition appended :: "pstate \<Rightarrow> u8 list \<Rightarrow> pstate \<Rightarrow> bool" where
  "appended s bs s1 = (ready s1 \<and> content s1 = content s @ bs \<and> offsets s1 = offsets s \<and> mAllowFds s1 = mAllowFds s \<and> mError s1 = mError s \<and>
     silent s s1)"

lemma appended_trans: "appended s a s1 \<Longrightarrow> appended s1 b s2 \<Longrightarrow> appended s (a @ b) s2"
  using silent_trans by (auto simp: appended_def)

lemma appended_refl: "ready s \<Longrightarrow> appended s [] s"
  by (simp add: appended_def)

lemma regrown_refl: "ready s \<Longrightarrow> regrown s s"
  by (simp add: regrown_def)

lemma regrown_appended: "regrown s s1 \<Longrightarrow> appended s1 bs s2 \<Longrightarrow> appended s bs s2"
  using silent_trans by (auto simp: regrown_def appended_def)

section \<open>Growing\<close>

lemma unat_eq_of_nat: "unat (w :: u32) = k \<Longrightarrow> w = of_nat k"
  by auto

lemma word_size_bound:
  assumes "3 * (unat (a :: u32) + n) < 2 ^ 32"
  shows "unat (((a + of_nat n) * 3) div 2) = 3 * (unat a + n) div 2"
proof -
  have 1: "unat (of_nat n :: u32) = n" using assms by (intro unat_of_nat_u32) simp
  have 2: "unat (a + of_nat n) = unat a + n" using assms 1 by (simp add: unat_word_ariths)
  have "unat ((a + of_nat n) * 3) = (unat (a + of_nat n) * 3) mod 2 ^ 32" unfolding unat_word_ariths(2) by simp
  then have "unat ((a + of_nat n) * 3) = 3 * (unat a + n)" unfolding 2 using assms by simp
  then show ?thesis by (simp add: unat_div)
qed

lemma growData_ok:
  assumes r: "ready s" and m: "mem_ok y (now s)" and n: "unat (mDataCapacity s) < unat (mDataSize s) + n" and b: "3 * (unat (mDataSize s) + n) < 2 ^ 32"
  shows "\<exists>s1. growData y (of_nat n) s = Some (NO_ERROR, s1) \<and> regrown s s1 \<and> unat (mDataSize s) + n \<le> unat (mDataCapacity s1)"
proof -
  define new where "new = ((mDataSize s + of_nat n) * 3) div 2"
  have new: "unat new = 3 * (unat (mDataSize s) + n) div 2" unfolding new_def by (rule word_size_bound [OF b])
  have pos: "0 < unat (mDataSize s) + n" using n by linarith
  have gt: "unat (mDataSize s) + n \<le> unat new" unfolding new using pos by simp
  have wf: "wf_parcel s" "\<not> mOwner s" "mDataPos s = mDataSize s" using r by (simp_all add: ready_def)
  have "unat (mDataSize s) \<le> unat (mDataCapacity s)" using wf(1) by (simp add: wf_parcel_def)
  then have lt: "unat (mDataSize s) < unat new" and cap: "mDataCapacity s < new" using n gt by (simp_all add: word_less_nat_alt)
  have ge: "\<not> new \<le> mDataSize s" "\<not> new < mDataSize s" using lt by (simp_all add: word_le_nat_alt word_less_nat_alt)
  have g: "growData y (of_nat n) s = continueWrite y new s" using ge(1) by (simp add: growData_def Let_def new_def)
  show ?thesis
  proof (cases "mData s = Null")
    case True
    then have z: "mDataSize s = 0" "mDataPos s = 0" using wf by (auto simp: wf_parcel_def unat_eq_0)
    have c: "content s = []" using True by (simp add: content_def)
    show ?thesis using True wf ge(2) m z c gt unfolding g
      by (auto simp: continueWrite_def first_data_def c_malloc_def effects_def regrown_def ready_def wf_parcel_def content_def offsets_def intro!: silentI(1))
  next
    case False
    then obtain d where d: "mData s = Mem d" using wf(1) by (cases "mData s") (simp_all add: wf_parcel_def)
    have "length d = unat (mDataCapacity s)" "new \<noteq> 0" using wf(1) d lt by (auto simp: wf_parcel_def)
    then show ?thesis using d wf ge(2) m cap gt lt unfolding g
      by (auto simp: continueWrite_def cut_objects_def resize_data_def c_realloc_def effects_def regrown_def ready_def wf_parcel_def content_def offsets_def Let_def word_less_nat_alt intro!: silentI(1))
  qed
qed

text \<open>The test for enough memory that precedes a write.\<close>

definition reserve :: "sys \<Rightarrow> nat \<Rightarrow> pstate \<Rightarrow> (s32 \<times> pstate) run" where
  "reserve y n s = (if mDataPos s + of_nat n \<le> mDataCapacity s then Some (NO_ERROR, s) else growData y (of_nat n) s)"

lemma unat_pos_plus: "3 * (unat (a :: u32) + n) < 2 ^ 32 \<Longrightarrow> unat (a + of_nat n) = unat a + n"
proof -
  assume a: "3 * (unat a + n) < 2 ^ 32"
  then have "unat (of_nat n :: u32) = n" by (intro unat_of_nat_u32) simp
  then show ?thesis using a by (simp add: unat_word_ariths)
qed

lemma reserve_ok:
  assumes r: "ready s" and m: "plenty y" and b: "3 * (unat (mDataSize s) + n) < 2 ^ 32"
  shows "\<exists>s1. reserve y n s = Some (NO_ERROR, s1) \<and> regrown s s1 \<and> unat (mDataSize s) + n \<le> unat (mDataCapacity s1)"
proof -
  have u: "unat (mDataPos s + of_nat n) = unat (mDataSize s) + n" using r b by (simp add: ready_def unat_pos_plus)
  show ?thesis
  proof (cases "unat (mDataSize s) + n \<le> unat (mDataCapacity s)")
    case True
    then show ?thesis using u r by (simp add: reserve_def word_le_nat_alt regrown_refl)
  next
    case False
    then have "\<not> mDataPos s + of_nat n \<le> mDataCapacity s" using u by (simp add: word_le_nat_alt)
    then show ?thesis using growData_ok [OF r _ _ b, of y] m False by (simp add: reserve_def plenty_def)
  qed
qed

section \<open>Writing of bytes\<close>

lemma put_bytes_at_ok:
  assumes r: "ready s" and n: "unat (mDataSize s) + length bs \<le> unat (mDataCapacity s)" and ne: "bs \<noteq> []"
  shows "\<exists>s1. put_bytes_at bs s = Some (NO_ERROR, s1) \<and> appended s bs s1"
proof -
  have wf: "wf_parcel s" "\<not> mOwner s" "mDataPos s = mDataSize s" using r by (simp_all add: ready_def)
  have "0 < length bs" using ne by simp
  then obtain d where d: "mData s = Mem d" using wf(1) n by (cases "mData s") (auto simp: wf_parcel_def)
  have l: "length d = unat (mDataCapacity s)" using wf(1) d by (simp add: wf_parcel_def)
  have lb: "unat (mDataSize s) + length bs < 2 ^ 32" using n unat_u32_less [of "mDataCapacity s"] by linarith
  then have "unat (of_nat (length bs) :: u32) = length bs" by (intro unat_of_nat_u32) simp
  then have u: "unat (mDataSize s + of_nat (length bs)) = unat (mDataSize s) + length bs" using lb by (simp add: unat_word_ariths)
  have "mDataSize s < mDataSize s + of_nat (length bs)" using u ne by (simp add: word_less_nat_alt)
  then show ?thesis using wf d l n u
    by (auto simp: put_bytes_at_def store_Mem finishWrite_def Let_def appended_def ready_def wf_parcel_def content_def offsets_def intro!: silentI(2))
qed

lemma writeAligned_reserve:
  "writeAligned y bs s = do { (err, s1) \<leftarrow> reserve y (length bs) s; if err = NO_ERROR then put_bytes_at bs s1 else Some (err, s1) }"
  by (simp add: writeAligned_def reserve_def)

lemma writeAligned_ok:
  assumes r: "ready s" and m: "plenty y" and b: "3 * (length (content s) + length bs) < 2 ^ 32" and ne: "bs \<noteq> []"
  shows "\<exists>s1. writeAligned y bs s = Some (NO_ERROR, s1) \<and> appended s bs s1"
proof -
  have "length (content s) = unat (mDataSize s)" using r by (simp add: ready_def length_content)
  then obtain s1 where s1: "reserve y (length bs) s = Some (NO_ERROR, s1)" "regrown s s1" "unat (mDataSize s) + length bs \<le> unat (mDataCapacity s1)"
    using reserve_ok [OF r m, of "length bs"] b by auto
  then have "ready s1" "mDataSize s1 = mDataSize s" by (simp_all add: regrown_def)
  then obtain s2 where "put_bytes_at bs s1 = Some (NO_ERROR, s2)" "appended s1 bs s2" using put_bytes_at_ok [of s1 bs] s1(3) ne by auto
  then show ?thesis using s1 regrown_appended by (auto simp: writeAligned_reserve)
qed

lemma writeInt32_ok:
  assumes "ready s" "plenty y" "3 * (length (content s) + 4) < 2 ^ 32"
  shows "\<exists>s1. writeInt32 y v s = Some (NO_ERROR, s1) \<and> appended s (to_le 4 v) s1"
  using writeAligned_ok [of s y "to_le 4 v"] assms by (auto simp: writeInt32_def to_le_def)

lemma writeInt64_ok:
  assumes "ready s" "plenty y" "3 * (length (content s) + 8) < 2 ^ 32"
  shows "\<exists>s1. writeInt64 y v s = Some (NO_ERROR, s1) \<and> appended s (to_le 8 v) s1"
  using writeAligned_ok [of s y "to_le 8 v"] assms by (auto simp: writeInt64_def to_le_def)

section \<open>Padding\<close>

definition pad :: "u8 list \<Rightarrow> u8 list" where
  "pad bs = bs @ replicate (padded (length bs) - length bs) 0"

lemma length_pad [simp]: "length (pad bs) = padded (length bs)"
  using padded_bounds(1) [of "length bs"] by (simp add: pad_def)

lemma pad_word:
  assumes "length (w :: u8 list) = 4" "0 < k" "k < 4"
  shows "to_le 4 (from_le w AND pad_mask (of_nat k)) = take (4 - k) w @ replicate k 0"
  using to_le_take_bit [of w "4 - k"] assms by (simp add: pad_mask_take_bit)

lemma apply_pad_ok:
  assumes d: "mData s = Mem d" and n: "n + 3 < 2 ^ 32" and b: "unat (mDataPos s) + padded n \<le> length d"
  shows "apply_pad (PAD_SIZE (of_nat n)) (of_nat n) s =
    Some (s\<lparr>mData := Mem (take (unat (mDataPos s) + n) d @ replicate (padded n - n) 0 @ drop (unat (mDataPos s) + padded n) d)\<rparr>)"
proof -
  have n32: "unat (of_nat n :: u32) = n" using n by (intro unat_of_nat_u32) simp
  have p: "unat (PAD_SIZE (of_nat n)) = padded n" using unat_PAD_SIZE [of "of_nat n"] n n32 by simp
  note pb = padded_bounds [of n]
  show ?thesis
  proof (cases "padded n = n")
    case True
    then have "PAD_SIZE (of_nat n) = (of_nat n :: u32)" using p n32 by (simp add: word_unat_eq_iff)
    then have "apply_pad (PAD_SIZE (of_nat n)) (of_nat n) s = Some s" by (simp add: apply_pad_def)
    moreover have "s\<lparr>mData := Mem d\<rparr> = s" using d by (cases s) simp
    ultimately show ?thesis using True by simp
  next
    case False
    define i k where "i = unat (mDataPos s) + padded n - 4" and "k = padded n - n"
    have k: "0 < k" "k < 4" "4 \<le> padded n" using False pb by (auto simp: k_def padded_def)
    have i: "i + 4 = unat (mDataPos s) + padded n" "i + (4 - k) = unat (mDataPos s) + n" using k pb(1) by (auto simp: i_def k_def)
    have ne: "PAD_SIZE (of_nat n) \<noteq> (of_nat n :: u32)" using False p n32 by auto
    have diff: "PAD_SIZE (of_nat n) - of_nat n = (of_nat k :: u32)"
    proof -
      have "(PAD_SIZE (of_nat n) :: u32) = of_nat (padded n)" by (rule unat_eq_of_nat [OF p])
      then show ?thesis using pb(1) by (simp add: k_def of_nat_diff)
    qed
    define w where "w = take 4 (drop i d)"
    have w: "load i 4 (Mem d) = Some w" "length w = 4" using i(1) b by (simp_all add: load_Mem w_def)
    have tw: "take i d @ take (4 - k) w = take (i + (4 - k)) d" unfolding take_add by (simp add: w_def)
    have "store i (to_le 4 (from_le w AND pad_mask (of_nat k))) (Mem d) = Some (Mem (take i d @ (take (4 - k) w @ replicate k 0) @ drop (i + 4) d))"
      using store_Mem [of i "take (4 - k) w @ replicate k 0" d] i(1) b w(2) k(2) unfolding pad_word [OF w(2) k(1,2)] by simp
    also have "\<dots> = Some (Mem (take (unat (mDataPos s) + n) d @ replicate k 0 @ drop (unat (mDataPos s) + padded n) d))"
      using tw i by (metis append.assoc)
    finally show ?thesis using ne p k w(1) d by (simp add: apply_pad_def diff i_def k_def)
  qed
qed

section \<open>Writing in place\<close>

lemma writeInplace_reserve:
  assumes "unat (PAD_SIZE len) = k" "unat (mDataPos s) + k < 2 ^ 32"
  shows "writeInplace y len s = do { (err, s1) \<leftarrow> reserve y k s; if err = NO_ERROR then put_inplace (PAD_SIZE len) len s1 else Some (None, s1) }"
proof -
  have "(of_nat k :: u32) = PAD_SIZE len" using unat_eq_of_nat [OF assms(1)] by simp
  moreover have "\<not> mDataPos s + PAD_SIZE len < mDataPos s" using assms by (simp add: word_less_nat_alt unat_word_ariths)
  ultimately show ?thesis by (simp add: writeInplace_def reserve_def Let_def)
qed

text \<open>The memory that \<open>writeInplace\<close> hands out is filled by its caller.\<close>

lemma writeInplace_ok:
  assumes r: "ready s" and m: "plenty y" and b: "3 * (length (content s) + padded n) < 2 ^ 32" and n: "0 < n"
  shows "\<exists>s1. writeInplace y (of_nat n) s = Some (Some (length (content s)), s1) \<and>
    (\<forall>bs. length bs = n \<longrightarrow> (\<exists>s2. fill (length (content s)) bs s1 = Some s2 \<and> appended s (pad bs) s2))"
proof -
  have lc: "length (content s) = unat (mDataSize s)" using r by (simp add: ready_def length_content)
  have n3: "n + 3 < 2 ^ 32" using b padded_bounds(1) [of n] by simp
  have n32: "unat (of_nat n :: u32) = n" using n3 by (intro unat_of_nat_u32) simp
  have p: "unat (PAD_SIZE (of_nat n)) = padded n" using unat_PAD_SIZE [of "of_nat n"] n3 n32 by simp
  obtain s1 where s1: "reserve y (padded n) s = Some (NO_ERROR, s1)" "regrown s s1" "unat (mDataSize s) + padded n \<le> unat (mDataCapacity s1)"
    using reserve_ok [OF r m, of "padded n"] b lc by auto
  have r1: "ready s1" "mDataSize s1 = mDataSize s" "content s1 = content s" using s1(2) by (simp_all add: regrown_def)
  have pos: "mDataPos s1 = mDataSize s" using r1 by (simp add: ready_def)
  have "0 < padded n" using n padded_bounds(1) [of n] by simp
  then obtain d where d: "mData s1 = Mem d" using r1(1) s1(3) by (cases "mData s1") (auto simp: ready_def wf_parcel_def)
  have ld: "length d = unat (mDataCapacity s1)" using r1(1) d by (simp add: ready_def wf_parcel_def)
  define d1 where "d1 = take (unat (mDataSize s) + n) d @ replicate (padded n - n) 0 @ drop (unat (mDataSize s) + padded n) d"
  have ap: "apply_pad (PAD_SIZE (of_nat n)) (of_nat n) s1 = Some (s1\<lparr>mData := Mem d1\<rparr>)"
    using apply_pad_ok [OF d n3] pos s1(3) ld by (simp add: d1_def)
  define s2 where "s2 = snd (finishWrite (PAD_SIZE (of_nat n)) (s1\<lparr>mData := Mem d1\<rparr>))"
  have u: "unat (mDataSize s + PAD_SIZE (of_nat n)) = unat (mDataSize s) + padded n" using p b lc by (simp add: unat_word_ariths)
  have s2: "s2 = s1\<lparr>mData := Mem d1, mDataPos := mDataSize s + PAD_SIZE (of_nat n), mDataSize := mDataSize s + PAD_SIZE (of_nat n)\<rparr>"
    using u \<open>0 < padded n\<close> pos r1(2) by (simp add: s2_def finishWrite_def Let_def word_less_nat_alt)
  have "put_inplace (PAD_SIZE (of_nat n)) (of_nat n) s1 = Some (Some (length (content s)), s2)"
    using ap d pos lc by (simp add: put_inplace_def data_ptr_def s2_def)
  then have "writeInplace y (of_nat n) s = Some (Some (length (content s)), s2)"
    using writeInplace_reserve [OF p, of s y] s1(1) r b lc by (simp add: ready_def)
  moreover have "\<exists>s3. fill (length (content s)) bs s2 = Some s3 \<and> appended s (pad bs) s3" if bs: "length bs = n" for bs
  proof -
    have pb: "n \<le> padded n" by (rule padded_bounds)
    have ld1: "length d1 = length d" using s1(3) ld pb by (simp add: d1_def)
    define d2 where "d2 = take (unat (mDataSize s)) d1 @ bs @ drop (unat (mDataSize s) + n) d1"
    have f: "fill (length (content s)) bs s2 = Some (s2\<lparr>mData := Mem d2\<rparr>)"
      using s1(3) ld ld1 pb bs lc by (simp add: fill_def s2 d2_def store_Mem)
    have t: "take (unat (mDataSize s)) d1 = content s" using r1 d s1(3) ld pb by (simp add: d1_def content_def)
    have dr: "drop (unat (mDataSize s) + n) d1 = replicate (padded n - n) 0 @ drop (unat (mDataSize s) + padded n) d"
      using s1(3) ld pb by (simp add: d1_def)
    have d2: "d2 = content s @ pad bs @ drop (unat (mDataSize s) + padded n) d" by (simp add: d2_def t dr pad_def bs)
    have "appended s1 (pad bs) (s2\<lparr>mData := Mem d2\<rparr>)"
      using r1 u lc s1(3) ld bs by (auto simp: appended_def s2 d2 ready_def wf_parcel_def content_def offsets_def intro!: silentI(2))
    then show ?thesis using f regrown_appended [OF s1(2)] by blast
  qed
  ultimately show ?thesis by blast
qed

lemma parcel_write_ok:
  assumes "ready s" "plenty y" "3 * (length (content s) + padded (length bs)) < 2 ^ 32" "bs \<noteq> []"
  shows "\<exists>s1. parcel_write y bs (of_nat (length bs)) s = Some (NO_ERROR, s1) \<and> appended s (pad bs) s1"
proof -
  have "length bs < 2 ^ 32" using assms(3) padded_bounds(1) [of "length bs"] by simp
  then have "unat (of_nat (length bs) :: u32) = length bs" by (rule unat_of_nat_u32)
  then show ?thesis using writeInplace_ok [OF assms(1,2,3)] assms(4) by (fastforce simp: parcel_write_def load_def)
qed

end
