(* ===== verification/Parcel_Items.thy ===== *)
theory Parcel_Items
  imports Parcel_Append
begin

text \<open>Strings and objects at the end of a parcel, and what reading gives at a position where the bytes of a value are.\<close>

section \<open>Strings\<close>

lemma appended_length: "appended s bs s1 \<Longrightarrow> length (content s1) = length (content s) + length bs \<and> ready s1"
  by (simp add: appended_def)

lemma fill_append:
  assumes f: "fill i (as @ bs) s = Some s2" and ne: "bs \<noteq> []"
  shows "\<exists>s1. fill i as s = Some s1 \<and> fill (i + length as) bs s1 = Some s2"
proof -
  obtain d where d: "mData s = Mem d" "i + length as + length bs \<le> length d" using f ne by (auto simp: fill_def store_def split: if_splits mem.splits)
  then have s2: "s2 = s\<lparr>mData := Mem (take i d @ as @ bs @ drop (i + length as + length bs) d)\<rparr>" using f by (simp add: fill_def store_Mem add.assoc)
  have s1: "fill i as s = Some (s\<lparr>mData := Mem (take i d @ as @ drop (i + length as) d)\<rparr>)"
    using d by (cases "as = []") (cases s, simp_all add: fill_def store_def)
  have "fill (i + length as) bs (s\<lparr>mData := Mem (take i d @ as @ drop (i + length as) d)\<rparr>) = Some s2"
    using d(2) by (simp add: fill_def store_Mem s2 add.commute)
  then show ?thesis using s1 by blast
qed

definition str8_bytes :: "u8 list \<Rightarrow> u8 list" where
  "str8_bytes str = to_le 4 (of_nat (length str) :: u32) @ (if str = [] then [] else pad (str @ [0]))"

definition str16_bytes :: "u16 list \<Rightarrow> u8 list" where
  "str16_bytes us = to_le 4 (of_nat (length us) :: u32) @ pad (units_le us @ [0, 0])"

lemma of_nat_pos: "0 < n \<Longrightarrow> n < 2 ^ 32 \<Longrightarrow> 0 < (of_nat n :: u32)"
  by (simp add: word_less_nat_alt unat_of_nat_u32)

lemma writeString8_ok:
  assumes r: "ready s" and m: "plenty y" and b: "3 * (length (content s) + length (str8_bytes str)) < 2 ^ 32"
  shows "\<exists>s1. writeString8 y str s = Some (NO_ERROR, s1) \<and> appended s (str8_bytes str) s1"
proof -
  obtain s1 where s1: "writeInt32 y (of_nat (length str)) s = Some (NO_ERROR, s1)" "appended s (to_le 4 (of_nat (length str) :: u32)) s1"
    using writeInt32_ok [OF r m, of "of_nat (length str)"] b by (auto simp: str8_bytes_def)
  show ?thesis
  proof (cases "str = []")
    case True
    then show ?thesis using s1 by (simp add: writeString8_def str8_bytes_def)
  next
    case False
    have l: "length (content s1) = length (content s) + 4" "ready s1" using appended_length [OF s1(2)] by simp_all
    have "length str < 2 ^ 32" using b False padded_bounds(1) [of "length str + 1"] by (simp add: str8_bytes_def)
    then have p: "0 < (of_nat (length str) :: u32)" using False by (intro of_nat_pos) simp_all
    obtain s2 where "parcel_write y (str @ [0]) (of_nat (length (str @ [0]))) s1 = Some (NO_ERROR, s2)" "appended s1 (pad (str @ [0])) s2"
      using parcel_write_ok [OF l(2) m, of "str @ [0]"] b False l(1) by (auto simp: str8_bytes_def)
    then show ?thesis using s1 p False appended_trans [OF s1(2)] by (simp add: writeString8_def str8_bytes_def add.commute Let_def)
  qed
qed

lemma writeString16_ok:
  assumes r: "ready s" and m: "plenty y" and b: "3 * (length (content s) + length (str16_bytes us)) < 2 ^ 32"
  shows "\<exists>s1. writeString16 y (Some us) (of_nat (length us)) s = Some (NO_ERROR, s1) \<and> appended s (str16_bytes us) s1"
proof -
  let ?n = "of_nat (length us) :: u32"
  obtain s1 where s1: "writeInt32 y ?n s = Some (NO_ERROR, s1)" "appended s (to_le 4 ?n) s1"
    using writeInt32_ok [OF r m, of ?n] b by (auto simp: str16_bytes_def)
  have l: "length (content s1) = length (content s) + 4" "ready s1" using appended_length [OF s1(2)] by simp_all
  have lu: "2 * length us + 2 < 2 ^ 32" using b padded_bounds(1) [of "2 * length us + 2"] by (simp add: str16_bytes_def)
  have e: "?n * 2 + 2 = of_nat (2 * length us + 2)" by (simp add: mult.commute)
  have u: "unat (?n * 2) = 2 * length us" using unat_of_nat_u32 [of "2 * length us"] lu by (simp add: mult.commute)
  obtain s2 where s2: "writeInplace y (of_nat (2 * length us + 2)) s1 = Some (Some (length (content s1)), s2)"
      "\<And>bs. length bs = 2 * length us + 2 \<Longrightarrow> \<exists>s3. fill (length (content s1)) bs s2 = Some s3 \<and> appended s1 (pad bs) s3"
    using writeInplace_ok [OF l(2) m, of "2 * length us + 2"] b l(1) by (auto simp: str16_bytes_def)
  obtain s4 where s4: "fill (length (content s1)) (units_le us @ [0, 0]) s2 = Some s4" "appended s1 (pad (units_le us @ [0, 0])) s4"
    using s2(2) [of "units_le us @ [0, 0]"] by auto
  obtain s3 where s3: "fill (length (content s1)) (units_le us) s2 = Some s3" "fill (length (content s1) + 2 * length us) [0, 0] s3 = Some s4"
    using fill_append [OF s4(1)] by auto
  have "writeString16 y (Some us) ?n s = Some (NO_ERROR, s4)"
    using s1(1) s2(1) s3 load_Mem [of 0 "2 * length us" "units_le us"] by (simp add: writeString16_def e u Let_def)
  then show ?thesis using appended_trans [OF s1(2) s4(2)] by (simp add: str16_bytes_def)
qed

section \<open>Objects\<close>

text \<open>The effects that are more than allocations and duplications of descriptors.\<close>

definition visible :: "event list \<Rightarrow> event list" where
  "visible es = filter (\<lambda>e. case e of Alloc \<Rightarrow> False | Dup _ _ \<Rightarrow> False | _ \<Rightarrow> True) es"

lemma visible_append [simp]: "visible (as @ bs) = visible as @ visible bs"
  by (simp add: visible_def)

lemma visible_Alloc: "set es \<subseteq> {Alloc} \<Longrightarrow> visible es = []"
  by (induction es) (auto simp: visible_def)

lemma visible_acquired [simp]: "visible (acquired y ob) = acquired y ob"
  by (simp add: visible_def acquired_def)

lemma visible_released [simp]: "visible (released y ob) = released y ob"
  by (simp add: visible_def released_def)

text \<open>A write that appends bytes and records the objects \<open>obs\<close> (one or none) at their beginning.\<close>

definition wrote :: "sys \<Rightarrow> pstate \<Rightarrow> u8 list \<Rightarrow> flat_binder_object list \<Rightarrow> pstate \<Rightarrow> bool" where
  "wrote y s bs obs s1 = (ready s1 \<and> content s1 = content s @ bs \<and> offsets s1 = offsets s @ map (\<lambda>_. of_nat (length (content s))) obs \<and>
     mAllowFds s1 = mAllowFds s \<and> visible (trace s1) = visible (trace s) @ concat (map (acquired y) obs))"

lemma silent_visible: "silent s s1 \<Longrightarrow> visible (trace s1) = visible (trace s)"
  by (auto simp: silent_def visible_Alloc)

lemma appended_wrote: "appended s bs s1 \<Longrightarrow> wrote y s bs [] s1"
  by (simp add: appended_def wrote_def silent_visible)

lemma writeObject_reserve:
  "writeObject y val nm s = do {
     (err, s1) \<leftarrow> reserve y 16 s;
     if err \<noteq> NO_ERROR then Some (err, s1)
     else do {
       (err2, s2) \<leftarrow> if mObjectsSize s < mObjectsCapacity s then Some (NO_ERROR, s1) else grow_objects y (((mObjectsSize s1 + 2) * 3) div 2) s1;
       if err2 \<noteq> NO_ERROR then Some (err2, s2) else put_object y val nm s2
     }
   }"
  by (simp add: writeObject_def reserve_def Let_def)

lemma grow_objects_ok:
  assumes r: "ready s" and m: "plenty y" and n: "unat (mObjectsSize s) < 2 ^ 28"
  shows "\<exists>s1. grow_objects y (((mObjectsSize s + 2) * 3) div 2) s = Some (NO_ERROR, s1) \<and> ready s1 \<and> content s1 = content s \<and> offsets s1 = offsets s \<and>
    mDataSize s1 = mDataSize s \<and> mDataCapacity s1 = mDataCapacity s \<and> mObjectsSize s1 = mObjectsSize s \<and> mAllowFds s1 = mAllowFds s \<and> silent s s1 \<and> mObjectsSize s1 < mObjectsCapacity s1"
proof -
  define k where "k = ((mObjectsSize s + 2) * 3) div 2"
  have k: "unat k = 3 * (unat (mObjectsSize s) + 2) div 2" unfolding k_def using word_size_bound [of "mObjectsSize s" 2] n by simp
  then have lt: "unat (mObjectsSize s) < unat k" "unat k * 4 < 2 ^ 32" using n by simp_all
  have u4: "unat (k * 4) = 4 * unat k" using lt(2) by (simp add: unat_word_ariths)
  then have kd: "unat (k * 4) div 4 = unat k" "k * 4 \<noteq> 0" using lt(1) by (auto simp: unat_eq_0 [symmetric])
  have wf: "wf_parcel s" using r by (simp add: ready_def)
  show ?thesis
  proof (cases "mObjects s")
    case (Mem p)
    then show ?thesis using r m kd lt(1) unfolding k_def [symmetric]
      by (auto simp: grow_objects_def c_realloc_def effects_def plenty_def ready_def wf_parcel_def content_def offsets_def word_less_nat_alt Let_def intro!: silentI(1))
  next
    case Null
    then show ?thesis using r m kd lt(1) unfolding k_def [symmetric]
      by (auto simp: grow_objects_def c_realloc_def c_malloc_def effects_def plenty_def ready_def wf_parcel_def content_def offsets_def word_less_nat_alt intro!: silentI(1))
  qed (use wf in \<open>simp add: wf_parcel_def\<close>)
qed

lemma put_object_ok:
  assumes r: "ready s" and n: "unat (mDataSize s) + 16 \<le> unat (mDataCapacity s)" and os: "mObjectsSize s < mObjectsCapacity s"
    and fd: "obj_type val = BINDER_TYPE_FD \<Longrightarrow> mAllowFds s"
  shows "\<exists>s1. put_object y val nm s = Some (NO_ERROR, s1) \<and> wrote y s (obj_le val) (if nm \<or> obj_binder val \<noteq> 0 then [val] else []) s1"
proof -
  have wf: "wf_parcel s" "\<not> mOwner s" "mDataPos s = mDataSize s" using r by (simp_all add: ready_def)
  obtain d where d: "mData s = Mem d" using wf(1) n by (cases "mData s") (auto simp: wf_parcel_def)
  obtain p where p: "mObjects s = Mem p" using wf(1) os by (cases "mObjects s") (auto simp: wf_parcel_def word_less_nat_alt)
  have l: "length d = unat (mDataCapacity s)" "length p = unat (mObjectsCapacity s)" using wf(1) d p by (simp_all add: wf_parcel_def)
  have u: "unat (mDataSize s + 16) = unat (mDataSize s) + 16" using n unat_u32_less [of "mDataCapacity s"] by (simp add: unat_word_ariths)
  have lt: "mDataSize s < mDataSize s + 16" using u by (simp add: word_less_nat_alt)
  have uo: "unat (mObjectsSize s + 1) = unat (mObjectsSize s) + 1" using os unat_u32_less [of "mObjectsCapacity s"] by (simp add: unat_word_ariths word_less_nat_alt)
  have so: "store (unat (mDataSize s)) (obj_le val) (Mem d) = Some (Mem (take (unat (mDataSize s)) d @ obj_le val @ drop (unat (mDataSize s) + 16) d))"
    using n l(1) by (simp add: store_Mem)
  have sp: "store (unat (mObjectsSize s)) [mDataSize s] (Mem p) = Some (Mem (take (unat (mObjectsSize s)) p @ [mDataSize s] @ drop (unat (mObjectsSize s) + 1) p))"
    using os l(2) by (simp add: store_Mem word_less_nat_alt)
  have lc: "(of_nat (length (content s)) :: u32) = mDataSize s" using wf(1) by (simp add: length_content)
  have o1: "unat (mObjectsSize s) < unat (mObjectsCapacity s)" using os by (simp add: word_less_nat_alt)
  show ?thesis using wf d p l n u lt uo so sp fd lc o1
    by (auto simp: put_object_def acquire_object_def effects_def finishWrite_def Let_def wrote_def ready_def wf_parcel_def content_def offsets_def)
qed

lemma writeObject_ok:
  assumes r: "ready s" and m: "plenty y" and b: "3 * (length (content s) + 16) < 2 ^ 32" and n: "length (offsets s) < 2 ^ 28"
    and fd: "obj_type val = BINDER_TYPE_FD \<Longrightarrow> mAllowFds s"
  shows "\<exists>s1. writeObject y val nm s = Some (NO_ERROR, s1) \<and> wrote y s (obj_le val) (if nm \<or> obj_binder val \<noteq> 0 then [val] else []) s1"
proof -
  have lc: "length (content s) = unat (mDataSize s)" "length (offsets s) = unat (mObjectsSize s)" using r by (simp_all add: ready_def length_content length_offsets)
  obtain s1 where s1: "reserve y 16 s = Some (NO_ERROR, s1)" "regrown s s1" "unat (mDataSize s) + 16 \<le> unat (mDataCapacity s1)"
    using reserve_ok [OF r m, of 16] b lc by auto
  have r1: "ready s1" "mDataSize s1 = mDataSize s" "content s1 = content s" "offsets s1 = offsets s" "mObjectsSize s1 = mObjectsSize s"
      "mObjectsCapacity s1 = mObjectsCapacity s" "mAllowFds s1 = mAllowFds s" "silent s s1"
    using s1(2) by (simp_all add: regrown_def)
  obtain s2 where s2: "(if mObjectsSize s < mObjectsCapacity s then Some (NO_ERROR, s1) else grow_objects y (((mObjectsSize s1 + 2) * 3) div 2) s1) = Some (NO_ERROR, s2)"
      "ready s2" "content s2 = content s" "offsets s2 = offsets s" "mDataSize s2 = mDataSize s" "mDataCapacity s2 = mDataCapacity s1" "mAllowFds s2 = mAllowFds s" "silent s s2"
      "mObjectsSize s2 < mObjectsCapacity s2"
  proof (cases "mObjectsSize s < mObjectsCapacity s")
    case True
    then show ?thesis using that [of s1] r1 by simp
  next
    case False
    then show ?thesis using that grow_objects_ok [OF r1(1) m] n lc r1 silent_trans [OF r1(8)] by auto
  qed
  obtain s3 where "put_object y val nm s2 = Some (NO_ERROR, s3)" "wrote y s2 (obj_le val) (if nm \<or> obj_binder val \<noteq> 0 then [val] else []) s3"
    using put_object_ok [of s2 val y nm] s1(3) s2 fd by auto
  moreover from this have "wrote y s (obj_le val) (if nm \<or> obj_binder val \<noteq> 0 then [val] else []) s3"
    using s2 silent_visible by (simp add: wrote_def)
  ultimately show ?thesis using s1(1) s2(1) by (simp add: writeObject_reserve)
qed

end
