(* ===== verification/Parcel_Read.thy ===== *)
theory Parcel_Read
  imports Parcel_Items
begin

text \<open>What the reading operations return at a position where the bytes of a value are, and that no contents make them leave the memory of the parcel.\<close>

section \<open>Positions\<close>

text \<open>A well-formed parcel, own or of another owner, of a moderate size, with the position \<open>k\<close>.\<close>

definition view :: "pstate \<Rightarrow> nat \<Rightarrow> bool" where
  "view s k = (wf_parcel s \<and> unat (mDataPos s) = k \<and> k \<le> length (content s) \<and> 3 * length (content s) < 2 ^ 32)"

definition moved :: "pstate \<Rightarrow> nat \<Rightarrow> pstate \<Rightarrow> bool" where
  "moved s k s1 = (\<exists>h es. s1 = s\<lparr>mDataPos := of_nat k, mNextObjectHint := h, trace := trace s @ es\<rparr>)"

lemma movedI: "moved s k (s\<lparr>mDataPos := of_nat k\<rparr>)"
  unfolding moved_def by (rule exI [of _ "mNextObjectHint s"], rule exI [of _ "[]"]) (cases s, simp)

lemma movedI_hint: "moved s k (s\<lparr>mDataPos := of_nat k, mNextObjectHint := h\<rparr>)"
  unfolding moved_def by (rule exI [of _ h], rule exI [of _ "[]"]) (cases s, simp)

lemma moved_effects: "moved s k s1 \<Longrightarrow> moved s k (effects es s1)"
  unfolding moved_def effects_def by clarsimp blast

lemma moved_simps:
  assumes "moved s k s1"
  shows "content s1 = content s" "offsets s1 = offsets s" "wf_parcel s1 = wf_parcel s" "mDataSize s1 = mDataSize s" "mData s1 = mData s" "mDataPos s1 = of_nat k"
    "\<exists>es. trace s1 = trace s @ es" "mObjects s1 = mObjects s" "mObjectsSize s1 = mObjectsSize s"
  using assms by (auto simp: moved_def content_def offsets_def wf_parcel_def)

lemma moved_view: "moved s k s1 \<Longrightarrow> view s i \<Longrightarrow> k \<le> length (content s) \<Longrightarrow> view s1 k"
  using unat_of_nat_u32 [of k] by (auto simp: view_def moved_simps)

lemma moved_trans: "moved s k s1 \<Longrightarrow> moved s1 n s2 \<Longrightarrow> moved s n s2"
  unfolding moved_def by clarsimp blast

lemma view_pos: "view s k \<Longrightarrow> mDataPos s = of_nat k"
  by (auto simp: view_def)

lemma view_size: "view s k \<Longrightarrow> unat (mDataSize s) = length (content s)"
  by (simp add: view_def length_content)

lemma view_less: "view s k \<Longrightarrow> 3 * length (content s) < 2 ^ 32"
  by (simp add: view_def)

lemma load_content:
  assumes "wf_parcel s" "i + n \<le> length (content s)"
  shows "load i n (mData s) = Some (take n (drop i (content s)))"
proof (cases "mData s")
  case (Mem b)
  have "i + n \<le> unat (mDataSize s)" "unat (mDataSize s) \<le> length b" using assms Mem by (simp_all add: length_content wf_parcel_def)
  then show ?thesis using Mem by (simp add: load_Mem content_def drop_take take_take min_def)
qed (use assms in \<open>auto simp: load_def content_def wf_parcel_def\<close>)

lemma load_at: "wf_parcel s \<Longrightarrow> content s = p @ bs @ q \<Longrightarrow> load (length p) (length bs) (mData s) = Some bs"
  using load_content [of s "length p" "length bs"] by simp

section \<open>Numbers and bytes\<close>

lemma readAligned_at:
  assumes v: "view s (length p)" and c: "content s = p @ bs @ q"
  shows "readAligned (length bs) s = Some (NO_ERROR, from_le bs, s\<lparr>mDataPos := of_nat (length p + length bs)\<rparr>)"
proof -
  have "length p + length bs < 2 ^ 32" using view_less [OF v] c by simp
  then have "unat (of_nat (length p) + of_nat (length bs) :: u32) = length p + length bs" using unat_of_nat_u32 [of "length p + length bs"] by simp
  then have le: "mDataPos s + of_nat (length bs) \<le> mDataSize s" using view_pos [OF v] view_size [OF v] c by (simp add: word_le_nat_alt)
  have "load (unat (mDataPos s)) (length bs) (mData s) = Some bs" using load_at [OF _ c] v by (simp add: view_def)
  then show ?thesis using le view_pos [OF v] by (simp add: readAligned_def)
qed

lemma readInt32_at:
  assumes "view s (length p)" "content s = p @ to_le 4 v @ q"
  shows "readInt32 s = Some (v, s\<lparr>mDataPos := of_nat (length p + 4)\<rparr>)"
  using readAligned_at [OF assms, where 'a = 32] by (simp add: readInt32_def)

lemma readInt64_at:
  assumes "view s (length p)" "content s = p @ to_le 8 v @ q"
  shows "readInt64 s = Some (v, s\<lparr>mDataPos := of_nat (length p + 8)\<rparr>)"
  using readAligned_at [OF assms, where 'a = 64] by (simp add: readInt64_def)

lemma can_read_iff:
  assumes v: "view s k" and n: "unat n + 3 < 2 ^ 32"
  shows "can_read n s \<longleftrightarrow> k + padded (unat n) \<le> length (content s)"
proof -
  have p: "unat (PAD_SIZE n) = padded (unat n)" by (rule unat_PAD_SIZE [OF n])
  have k: "unat (mDataPos s) = k" "k \<le> length (content s)" "3 * length (content s) < 2 ^ 32" using v by (simp_all add: view_def)
  have ps: "unat (mDataPos s + PAD_SIZE n) = (k + padded (unat n)) mod 2 ^ 32" using k p by (simp add: unat_word_ariths)
  have le: "padded (unat n) < 2 ^ 32" using unat_u32_less [of "PAD_SIZE n"] p by simp
  show ?thesis
  proof (cases "k + padded (unat n) < 2 ^ 32")
    case True
    then show ?thesis using ps p k padded_bounds(1) [of "unat n"] view_size [OF v] by (simp add: can_read_def word_le_nat_alt)
  next
    case False
    then have "unat (mDataPos s + PAD_SIZE n) = (k + padded (unat n) - 2 ^ 32) mod 2 ^ 32" using ps le_mod_geq [of "2 ^ 32" "k + padded (unat n)"] by simp
    moreover have "k + padded (unat n) - 2 ^ 32 < k" using le False by linarith
    ultimately have "unat (mDataPos s + PAD_SIZE n) < k" using mod_less_eq_dividend [of "k + padded (unat n) - 2 ^ 32" "2 ^ 32"] by linarith
    moreover have "\<not> k + padded (unat n) \<le> length (content s)" using False k(3) by linarith
    ultimately show ?thesis using k(1) by (simp add: can_read_def word_le_nat_alt)
  qed
qed

lemma PAD_SIZE_of_nat: "n + 3 < 2 ^ 32 \<Longrightarrow> PAD_SIZE (of_nat n) = of_nat (padded n)"
  using unat_PAD_SIZE [of "of_nat n"] unat_of_nat_u32 [of n] by (intro unat_eq_of_nat) simp

lemma can_read_at:
  assumes v: "view s (length p)" and c: "content s = p @ pad bs @ q" and ne: "bs \<noteq> []"
  shows "can_read (of_nat (length bs)) s" "PAD_SIZE (of_nat (length bs)) = of_nat (padded (length bs))" "unat (of_nat (length bs) :: u32) = length bs"
proof -
  have n: "length bs + 3 < 2 ^ 32" using view_less [OF v] c padded_bounds(1) [of "length bs"] by simp
  then show u: "unat (of_nat (length bs) :: u32) = length bs" by (intro unat_of_nat_u32) simp
  show "PAD_SIZE (of_nat (length bs)) = of_nat (padded (length bs))" by (rule PAD_SIZE_of_nat [OF n])
  show "can_read (of_nat (length bs)) s" using can_read_iff [OF v, of "of_nat (length bs)"] u n c by simp
qed

lemma parcel_read_at:
  assumes v: "view s (length p)" and c: "content s = p @ pad bs @ q" and ne: "bs \<noteq> []"
  shows "parcel_read (of_nat (length bs)) s = Some (NO_ERROR, bs, s\<lparr>mDataPos := of_nat (length p + padded (length bs))\<rparr>)"
proof -
  have "content s = p @ bs @ (replicate (padded (length bs) - length bs) 0 @ q)" using c by (simp add: pad_def)
  then have "load (length p) (length bs) (mData s) = Some bs" using v by (intro load_at) (simp_all add: view_def)
  then show ?thesis using can_read_at [OF assms] view_pos [OF v] v by (simp add: parcel_read_def view_def)
qed

lemma readInplace_at:
  assumes v: "view s (length p)" and c: "content s = p @ pad bs @ q" and ne: "bs \<noteq> []"
  shows "readInplace (of_nat (length bs)) s = (Some (length p), s\<lparr>mDataPos := of_nat (length p + padded (length bs))\<rparr>)"
proof -
  have "mData s \<noteq> Null" using c ne by (auto simp: content_def pad_def)
  then show ?thesis using can_read_at [OF assms] view_pos [OF v] v by (simp add: readInplace_def data_ptr_def view_def)
qed

section \<open>Strings\<close>

lemma memchr0_found: "0 \<notin> set str \<Longrightarrow> length str < n \<Longrightarrow> memchr0 (str @ 0 # rest) n = Some (Some (length str))"
  by (induction str arbitrary: n) auto

lemma bytes_from_content: "wf_parcel s \<Longrightarrow> k \<le> length (content s) \<Longrightarrow> content s \<noteq> [] \<Longrightarrow> \<exists>rest. bytes_from k (mData s) = drop k (content s) @ rest"
proof (cases "mData s")
  case (Mem b)
  assume k: "k \<le> length (content s)" and w: "wf_parcel s"
  have "b = content s @ drop (unat (mDataSize s)) b" using Mem by (simp add: content_def)
  then have "drop k b = drop k (content s) @ drop (unat (mDataSize s)) b" using k by (metis drop_append diff_is_0_eq drop_0)
  then show ?thesis using Mem by (simp add: bytes_from_def)
qed (auto simp: content_def wf_parcel_def)

lemma readCString_at:
  assumes v: "view s (length p)" and c: "content s = p @ pad (str @ [0]) @ q" and z: "0 \<notin> set str"
  shows "readCString s = Some (Some str, s\<lparr>mDataPos := of_nat (length p + padded (length str + 1))\<rparr>)"
proof -
  have l: "length str + 1 \<le> length (content s) - length p" using c padded_bounds(1) [of "length str + 1"] by simp
  have av: "unat (mDataSize s - mDataPos s) = length (content s) - length p"
    using view_size [OF v] v by (simp add: view_def unat_sub word_le_nat_alt)
  obtain rest where "bytes_from (length p) (mData s) = drop (length p) (content s) @ rest" using bytes_from_content [of s "length p"] v c by (auto simp: view_def pad_def)
  then have bf: "bytes_from (length p) (mData s) = str @ 0 # (replicate (padded (length str + 1) - (length str + 1)) 0 @ q @ rest)" using c by (simp add: pad_def)
  have m: "memchr0 (bytes_from (length p) (mData s)) (unat (mDataSize s - mDataPos s)) = Some (Some (length str))"
    unfolding bf av using l by (intro memchr0_found [OF z]) simp
  have "0 < mDataSize s - mDataPos s" using av l by (simp add: word_less_nat_alt)
  moreover have "PAD_SIZE (of_nat (length str) + 1) = of_nat (padded (length str + 1))" using can_read_at(2) [OF v c] by (simp add: add.commute)
  ultimately show ?thesis using m bf view_pos [OF v] v by (simp add: readCString_def Let_def view_def)
qed

lemma view_shift: "view s (length p) \<Longrightarrow> content s = p @ a @ q \<Longrightarrow> view (s\<lparr>mDataPos := of_nat (length p + length a)\<rparr>) (length (p @ a))"
  using moved_view [OF movedI [of s "length p + length a"]] by simp

lemma readString8_at:
  assumes v: "view s (length p)" and c: "content s = p @ str8_bytes str @ q"
  shows "readString8 s = Some (str, s\<lparr>mDataPos := of_nat (length p + length (str8_bytes str))\<rparr>)"
proof (cases "str = []")
  case True
  then show ?thesis using readInt32_at [OF v, of 0 q] c by (simp add: readString8_def str8_bytes_def)
next
  case False
  let ?n = "of_nat (length str) :: u32" and ?s = "s\<lparr>mDataPos := of_nat (length p + 4)\<rparr>"
  have c1: "content s = p @ to_le 4 ?n @ pad (str @ [0]) @ q" using c False by (simp add: str8_bytes_def)
  have i: "readInt32 s = Some (?n, ?s)" by (rule readInt32_at [OF v c1])
  have v1: "view ?s (length (p @ to_le 4 ?n))" using view_shift [OF v c1] by simp
  have cs: "content ?s = (p @ to_le 4 ?n) @ pad (str @ [0]) @ q" using c1 by (simp add: content_def)
  have rp: "readInplace (of_nat (length (str @ [0]))) ?s = (Some (length (p @ to_le 4 ?n)), ?s\<lparr>mDataPos := of_nat (length (p @ to_le 4 ?n) + padded (length (str @ [0])))\<rparr>)"
    by (rule readInplace_at [OF v1 cs]) simp
  have len: "length str < 2 ^ 31 - 1" using view_less [OF v] c1 padded_bounds(1) [of "length str + 1"] by simp
  then have si: "sint ?n = int (length str)" by (intro sint_of_nat_small) simp
  have "content s = (p @ to_le 4 ?n) @ str @ ([0] @ replicate (padded (length str + 1) - (length str + 1)) 0 @ q)" using c1 by (simp add: pad_def)
  then have ld: "load (length p + 4) (length str) (mData s) = Some str" using load_at [of s "p @ to_le 4 ?n" str] v by (simp add: view_def)
  have "0 < length str" using False by simp
  then show ?thesis using i rp si len ld False by (simp add: readString8_def str8_bytes_def Let_def add.commute add.left_commute)
qed

lemma readString16_at:
  assumes v: "view s (length p)" and c: "content s = p @ str16_bytes us @ q"
  shows "readString16 s = Some (us, s\<lparr>mDataPos := of_nat (length p + length (str16_bytes us))\<rparr>)"
proof -
  let ?n = "of_nat (length us) :: u32" and ?s = "s\<lparr>mDataPos := of_nat (length p + 4)\<rparr>" and ?b = "units_le us @ [0, 0]"
  have c1: "content s = p @ to_le 4 ?n @ pad ?b @ q" using c by (simp add: str16_bytes_def)
  have i: "readInt32 s = Some (?n, ?s)" by (rule readInt32_at [OF v c1])
  have v1: "view ?s (length (p @ to_le 4 ?n))" using view_shift [OF v c1] by simp
  have cs: "content ?s = (p @ to_le 4 ?n) @ pad ?b @ q" using c1 by (simp add: content_def)
  have rp: "readInplace (of_nat (length ?b)) ?s = (Some (length (p @ to_le 4 ?n)), ?s\<lparr>mDataPos := of_nat (length (p @ to_le 4 ?n) + padded (length ?b))\<rparr>)"
    by (rule readInplace_at [OF v1 cs]) simp
  have len: "length us < 2 ^ 31 - 1" using view_less [OF v] c1 padded_bounds(1) [of "2 * length us + 2"] by simp
  then have si: "sint ?n = int (length us)" and un: "unat ?n = length us" by (auto intro: sint_of_nat_small unat_of_nat_u32)
  have "content s = (p @ to_le 4 ?n) @ units_le us @ ([0, 0] @ replicate (padded (2 * length us + 2) - (2 * length us + 2)) 0 @ q)" using c1 by (simp add: pad_def)
  then have ld: "load (length p + 4) (2 * length us) (mData s) = Some (units_le us)" using load_at [of s "p @ to_le 4 ?n" "units_le us"] v by (simp add: view_def)
  have "readString16Inplace s = Some (Some (length p + 4), ?n, s\<lparr>mDataPos := of_nat (length p + length (str16_bytes us))\<rparr>)"
    unfolding readString16Inplace_def i using rp si len by (simp add: Let_def str16_bytes_def algebra_simps)
  then show ?thesis using ld un by (simp add: readString16_def)
qed

section \<open>Objects\<close>

text \<open>The search of \<open>readObject\<close>, for every hint.\<close>

lemma find_object_offsets:
  assumes "wf_parcel s" "sorted_wrt (<) (offsets s)"
  shows "\<exists>r. find_object (mObjects s) dpos (unat (mObjectsSize s)) hint = Some r \<and> (r = None \<longleftrightarrow> dpos \<notin> set (offsets s))"
proof (cases "mObjects s")
  case (Mem q)
  then show ?thesis using find_object_ok [of "unat (mObjectsSize s)" q dpos hint] assms by (simp add: wf_parcel_def offsets_def)
qed (use assms in \<open>auto simp: wf_parcel_def offsets_def find_object_def\<close>)

lemma readObject_at:
  assumes v: "view s (length p)" and c: "content s = p @ obj_le ob @ q" and sorted: "sorted_wrt (<) (offsets s)"
    and ob: "\<not> nm \<and> obj_cookie ob = 0 \<and> obj_binder ob = 0 \<or> of_nat (length p) \<in> set (offsets s)"
  shows "\<exists>s1. readObject nm s = Some (Some ob, s1) \<and> moved s (length p + 16) s1"
proof -
  have ld: "load (length p) 16 (mData s) = Some (obj_le ob)" using load_at [OF _ c] v by (simp add: view_def)
  have "unat (of_nat (length p + 16) :: u32) = length p + 16" using view_less [OF v] c by (intro unat_of_nat_u32) simp
  then have le: "mDataPos s + 16 \<le> mDataSize s" using view_pos [OF v] view_size [OF v] c by (simp add: word_le_nat_alt)
  obtain r where r: "find_object (mObjects s) (mDataPos s) (unat (mObjectsSize s)) (unat (mNextObjectHint s)) = Some r" "r = None \<longleftrightarrow> mDataPos s \<notin> set (offsets s)"
    using find_object_offsets [OF _ sorted] v by (auto simp: view_def)
  have m: "moved s (length p + 16) (s\<lparr>mDataPos := of_nat (length p) + 16\<rparr>)" using movedI [of s "length p + 16"] by simp
  show ?thesis
  proof (cases "\<not> nm \<and> obj_cookie ob = 0 \<and> obj_binder ob = 0")
    case True
    then show ?thesis using ld le v view_pos [OF v] m by (simp add: readObject_def Let_def view_def)
  next
    case False
    then obtain i where "r = Some i" using ob r(2) view_pos [OF v] by auto
    then show ?thesis using False ld le v view_pos [OF v] r(1) movedI_hint [of s "length p + 16"] by (auto simp: readObject_def Let_def view_def)
  qed
qed

end
