(* ===== verification/Parcel_Stream.thy ===== *)
theory Parcel_Stream
  imports Parcel_Read
begin

text \<open>
  Sequences of values. What is written into a parcel is read back in order, from the parcel itself and from the one that gets its data from the driver; and a parcel gives
  back exactly the references it took. The sequences are handled once in the locale \<open>value_stream\<close>.
\<close>

section \<open>Streams of values\<close>

primrec put_all :: "('i \<Rightarrow> 's \<Rightarrow> (s32 \<times> 's) run) \<Rightarrow> 'i list \<Rightarrow> 's \<Rightarrow> (s32 \<times> 's) run" where
  "put_all put [] s = Some (NO_ERROR, s)"
| "put_all put (x # xs) s = do { (err, s1) \<leftarrow> put x s; if err = NO_ERROR then put_all put xs s1 else Some (err, s1) }"

primrec get_all :: "('i \<Rightarrow> 's \<Rightarrow> ('v \<times> 's) run) \<Rightarrow> 'i list \<Rightarrow> 's \<Rightarrow> ('v list \<times> 's) run" where
  "get_all get [] s = Some ([], s)"
| "get_all get (x # xs) s = do { (v, s1) \<leftarrow> get x s; (vs, s2) \<leftarrow> get_all get xs s1; Some (v # vs, s2) }"

text \<open>\<open>W xs s\<close>: the values \<open>xs\<close> were written. \<open>R xs ys s\<close>: of the values \<open>xs @ ys\<close>, \<open>xs\<close> were read.\<close>

locale value_stream =
  fixes put :: "'i \<Rightarrow> 's \<Rightarrow> (s32 \<times> 's) run" and get :: "'i \<Rightarrow> 's \<Rightarrow> ('v \<times> 's) run" and val :: "'i \<Rightarrow> 'v"
    and W :: "'i list \<Rightarrow> 's \<Rightarrow> bool" and R :: "'i list \<Rightarrow> 'i list \<Rightarrow> 's \<Rightarrow> bool" and ok :: "'i list \<Rightarrow> bool"
  assumes ok_prefix: "ok (xs @ ys) \<Longrightarrow> ok xs"
    and put: "W xs s \<Longrightarrow> ok (xs @ [x]) \<Longrightarrow> \<exists>s'. put x s = Some (NO_ERROR, s') \<and> W (xs @ [x]) s'"
    and get: "R xs (x # ys) s \<Longrightarrow> \<exists>s'. get x s = Some (val x, s') \<and> R (xs @ [x]) ys s'"
begin

lemma put_sequence: "W xs s \<Longrightarrow> ok (xs @ ys) \<Longrightarrow> \<exists>s'. put_all put ys s = Some (NO_ERROR, s') \<and> W (xs @ ys) s'"
proof (induction ys arbitrary: xs s)
  case (Cons y ys)
  have "ok (xs @ [y])" using Cons.prems(2) ok_prefix [of "xs @ [y]" ys] by simp
  then obtain s1 where s1: "put y s = Some (NO_ERROR, s1)" "W (xs @ [y]) s1" using put [OF Cons.prems(1)] by blast
  then show ?case using Cons.IH [of "xs @ [y]" s1] Cons.prems(2) by auto
qed simp

lemma get_sequence: "R xs ys s \<Longrightarrow> \<exists>s'. get_all get ys s = Some (map val ys, s') \<and> R (xs @ ys) [] s'"
proof (induction ys arbitrary: xs s)
  case (Cons y ys)
  obtain s1 where "get y s = Some (val y, s1)" "R (xs @ [y]) ys s1" using get [OF Cons.prems] by blast
  then show ?case using Cons.IH [of "xs @ [y]" s1] by auto
qed simp

lemma round_trip:
  assumes "W [] s" "ok ys" "\<And>s1. W ys s1 \<Longrightarrow> R [] ys (rewind s1)"
  shows "\<exists>s1 s2. put_all put ys s = Some (NO_ERROR, s1) \<and> W ys s1 \<and> get_all get ys (rewind s1) = Some (map val ys, s2)"
proof -
  obtain s1 where s1: "put_all put ys s = Some (NO_ERROR, s1)" "W ys s1" using put_sequence [OF assms(1), of ys] assms(2) by auto
  then obtain s2 where "get_all get ys (rewind s1) = Some (map val ys, s2)" using get_sequence [OF assms(3)] by blast
  then show ?thesis using s1 by blast
qed

end

section \<open>Values of a parcel\<close>

datatype item =
    I32 u32
  | I64 "64 word"
  | IBytes "u8 list"
  | ICStr "u8 list"
  | IStr8 "u8 list"
  | IStr16 "u16 list"
  | IBinder "IBinder option"
  | IFd u32 bool

datatype pvalue = VInt u32 | VLong "64 word" | VBytes "u8 list" | VUnits "u16 list" | VRef binder_ref | VFd s32

fun write_item :: "sys \<Rightarrow> item \<Rightarrow> pstate \<Rightarrow> (s32 \<times> pstate) run" where
  "write_item y (I32 v) s = writeInt32 y v s"
| "write_item y (I64 v) s = writeInt64 y v s"
| "write_item y (IBytes bs) s = parcel_write y bs (of_nat (length bs)) s"
| "write_item y (ICStr str) s = writeCString y str s"
| "write_item y (IStr8 str) s = writeString8 y str s"
| "write_item y (IStr16 us) s = writeString16 y (Some us) (of_nat (length us)) s"
| "write_item y (IBinder b) s = writeStrongBinder y b s"
| "write_item y (IFd fd own) s = writeFileDescriptor y fd own s"

text \<open>Reading with the operation that belongs to the value; for plain bytes the reader knows their number.\<close>

fun read_item :: "item \<Rightarrow> pstate \<Rightarrow> (pvalue \<times> pstate) run" where
  "read_item (I32 _) s = map_option (map_prod VInt id) (readInt32 s)"
| "read_item (I64 _) s = map_option (map_prod VLong id) (readInt64 s)"
| "read_item (IBytes bs) s = map_option (\<lambda>(err, xs, s1). (VBytes xs, s1)) (parcel_read (of_nat (length bs)) s)"
| "read_item (ICStr _) s = map_option (\<lambda>(r, s1). (VBytes (case r of None \<Rightarrow> [] | Some xs \<Rightarrow> xs), s1)) (readCString s)"
| "read_item (IStr8 _) s = map_option (map_prod VBytes id) (readString8 s)"
| "read_item (IStr16 _) s = map_option (map_prod VUnits id) (readString16 s)"
| "read_item (IBinder _) s = map_option (map_prod VRef id) (readStrongBinder s)"
| "read_item (IFd _ _) s = map_option (map_prod VFd id) (readFileDescriptor s)"

fun binder_value :: "IBinder option \<Rightarrow> binder_ref" where
  "binder_value None = NoRef"
| "binder_value (Some (LocalBinder refs ptr)) = LocalRef ptr"
| "binder_value (Some (RemoteBinder h)) = HandleRef (case h of None \<Rightarrow> 0 | Some n \<Rightarrow> n)"

fun item_value :: "item \<Rightarrow> pvalue" where
  "item_value (I32 v) = VInt v"
| "item_value (I64 v) = VLong v"
| "item_value (IBytes bs) = VBytes bs"
| "item_value (ICStr str) = VBytes str"
| "item_value (IStr8 str) = VBytes str"
| "item_value (IStr16 us) = VUnits us"
| "item_value (IBinder b) = VRef (binder_value b)"
| "item_value (IFd fd own) = VFd (sint fd)"

text \<open>The object of a value and whether its place is recorded.\<close>

fun item_flat :: "item \<Rightarrow> flat_binder_object" where
  "item_flat (IBinder b) = flat_strong b"
| "item_flat (IFd fd own) = obj_of BINDER_TYPE_FD fd (if own then 1 else 0)"
| "item_flat _ = obj_of 0 0 0"

fun item_objs :: "item \<Rightarrow> flat_binder_object list" where
  "item_objs (IBinder b) = (if obj_binder (flat_strong b) \<noteq> 0 then [flat_strong b] else [])"
| "item_objs (IFd fd own) = [item_flat (IFd fd own)]"
| "item_objs _ = []"

fun item_bytes :: "item \<Rightarrow> u8 list" where
  "item_bytes (I32 v) = to_le 4 v"
| "item_bytes (I64 v) = to_le 8 v"
| "item_bytes (IBytes bs) = pad bs"
| "item_bytes (ICStr str) = pad (str @ [0])"
| "item_bytes (IStr8 str) = str8_bytes str"
| "item_bytes (IStr16 us) = str16_bytes us"
| "item_bytes it = obj_le (item_flat it)"

text \<open>Strings of C contain no zero, blocks of bytes are not empty, and local binders have addresses.\<close>

fun ok_item :: "item \<Rightarrow> bool" where
  "ok_item (IBytes bs) = (bs \<noteq> [])"
| "ok_item (ICStr str) = (0 \<notin> set str)"
| "ok_item (IBinder b) = (case b of Some (LocalBinder refs ptr) \<Rightarrow> refs \<noteq> 0 \<and> ptr \<noteq> 0 | _ \<Rightarrow> True)"
| "ok_item _ = True"

definition stream_bytes :: "item list \<Rightarrow> u8 list" where
  "stream_bytes xs = concat (map item_bytes xs)"

definition stream_objs :: "item list \<Rightarrow> flat_binder_object list" where
  "stream_objs xs = concat (map item_objs xs)"

text \<open>The offsets of the recorded objects.\<close>

fun stream_offsets :: "nat \<Rightarrow> item list \<Rightarrow> nat list" where
  "stream_offsets k [] = []"
| "stream_offsets k (x # xs) = map (\<lambda>_. k) (item_objs x) @ stream_offsets (k + length (item_bytes x)) xs"

definition ok_items :: "item list \<Rightarrow> bool" where
  "ok_items xs = ((\<forall>x \<in> set xs. ok_item x) \<and> 3 * length (stream_bytes xs) < 2 ^ 32)"

section \<open>Offsets\<close>

lemma item_objs_le: "length (item_objs x) \<le> 1"
  by (cases x rule: item_objs.cases) auto

lemma item_objs_bytes: "item_objs x \<noteq> [] \<Longrightarrow> length (item_bytes x) = 16"
  by (cases x rule: item_objs.cases) auto

lemma stream_bytes_simps [simp]: "stream_bytes [] = []" "stream_bytes (x # xs) = item_bytes x @ stream_bytes xs" "stream_bytes (xs @ ys) = stream_bytes xs @ stream_bytes ys"
  by (simp_all add: stream_bytes_def)

lemma stream_objs_simps [simp]: "stream_objs [] = []" "stream_objs (x # xs) = item_objs x @ stream_objs xs" "stream_objs (xs @ ys) = stream_objs xs @ stream_objs ys"
  by (simp_all add: stream_objs_def)

lemma stream_offsets_append: "stream_offsets k (xs @ ys) = stream_offsets k xs @ stream_offsets (k + length (stream_bytes xs)) ys"
  by (induction xs arbitrary: k) (simp_all add: add.assoc)

lemma stream_offsets_bounds: "j \<in> set (stream_offsets k xs) \<Longrightarrow> k \<le> j \<and> j + 16 \<le> k + length (stream_bytes xs)"
proof (induction xs arbitrary: k)
  case (Cons x xs)
  from Cons.prems consider "item_objs x \<noteq> []" "j = k" | "j \<in> set (stream_offsets (k + length (item_bytes x)) xs)" by (cases "item_objs x") auto
  then show ?case
  proof cases
    case 1
    then show ?thesis using item_objs_bytes [of x] by simp
  next
    case 2
    then show ?thesis using Cons.IH [of "k + length (item_bytes x)"] by simp
  qed
qed simp

lemma stream_offsets_apart: "sorted_wrt (\<lambda>a b. a + 16 \<le> b) (stream_offsets k xs)"
proof (induction xs arbitrary: k)
  case (Cons x xs)
  have "a + 16 \<le> b" if "a \<in> set (map (\<lambda>_. k) (item_objs x))" "b \<in> set (stream_offsets (k + length (item_bytes x)) xs)" for a b
    using that item_objs_bytes [of x] stream_offsets_bounds [OF that(2)] by (cases "item_objs x") auto
  moreover have "sorted_wrt (\<lambda>a b. a + 16 \<le> b) (map (\<lambda>_. k) (item_objs x))" using item_objs_le [of x] by (cases "item_objs x") auto
  ultimately show ?case using Cons.IH by (simp add: sorted_wrt_append)
qed simp

lemma stream_offsets_count: "16 * length (stream_offsets k xs) \<le> length (stream_bytes xs)"
proof (induction xs arbitrary: k)
  case (Cons x xs)
  have "16 * length (item_objs x) \<le> length (item_bytes x)" using item_objs_le [of x] item_objs_bytes [of x] by (cases "item_objs x") auto
  then show ?case using Cons.IH [of "k + length (item_bytes x)"] by simp
qed simp

lemma stream_offsets_words:
  assumes "length (stream_bytes xs) < 2 ^ 32"
  shows "sorted_wrt (<) (map of_nat (stream_offsets 0 xs) :: u32 list)"
proof -
  have "sorted_wrt (\<lambda>a b. (of_nat a :: u32) < of_nat b) (stream_offsets 0 xs)"
  proof (rule sorted_wrt_mono_rel [OF _ stream_offsets_apart])
    fix a b assume "a \<in> set (stream_offsets 0 xs)" "b \<in> set (stream_offsets 0 xs)" "a + 16 \<le> b"
    then show "(of_nat a :: u32) < of_nat b"
      using stream_offsets_bounds [of a 0 xs] stream_offsets_bounds [of b 0 xs] assms by (simp add: word_less_nat_alt unat_of_nat_u32)
  qed
  then show ?thesis by (simp add: sorted_wrt_map)
qed

section \<open>One value\<close>

lemma write_item_ok:
  assumes r: "ready s" and m: "plenty y" and fds: "mAllowFds s" and b: "3 * (length (content s) + length (item_bytes x)) < 2 ^ 32"
    and n: "length (offsets s) < 2 ^ 28" and x: "ok_item x"
  shows "\<exists>s1. write_item y x s = Some (NO_ERROR, s1) \<and> wrote y s (item_bytes x) (item_objs x) s1"
proof (cases x)
  case (I32 v)
  then show ?thesis using writeInt32_ok [OF r m, of v] b by (auto intro: appended_wrote)
next
  case (I64 v)
  then show ?thesis using writeInt64_ok [OF r m, of v] b by (auto intro: appended_wrote)
next
  case (IBytes bs)
  then show ?thesis using parcel_write_ok [OF r m, of bs] b x by (auto intro: appended_wrote)
next
  case (ICStr str)
  then show ?thesis using parcel_write_ok [OF r m, of "str @ [0]"] b by (auto simp: writeCString_def add.commute intro: appended_wrote)
next
  case (IStr8 str)
  then show ?thesis using writeString8_ok [OF r m, of str] b by (auto intro: appended_wrote)
next
  case (IStr16 us)
  then show ?thesis using writeString16_ok [OF r m, of us] b by (auto intro: appended_wrote)
next
  case (IBinder bd)
  then show ?thesis using writeObject_ok [OF r m _ n, of "flat_strong bd" False] b fds by (auto simp: writeStrongBinder_def)
next
  case (IFd fd own)
  then show ?thesis using writeObject_ok [OF r m _ n, of "item_flat x" True] b fds by (auto simp: writeFileDescriptor_def)
qed

lemmas binder_types = BINDER_TYPE_BINDER_def BINDER_TYPE_WEAK_BINDER_def BINDER_TYPE_HANDLE_def BINDER_TYPE_WEAK_HANDLE_def BINDER_TYPE_FD_def

lemma readStrongBinder_at:
  assumes v: "view s (length p)" and c: "content s = p @ obj_le (flat_strong bd) @ q" and so: "sorted_wrt (<) (offsets s)"
    and rec: "item_objs (IBinder bd) \<noteq> [] \<Longrightarrow> of_nat (length p) \<in> set (offsets s)" and ok: "ok_item (IBinder bd)"
  shows "\<exists>s1. readStrongBinder s = Some (binder_value bd, s1) \<and> moved s (length p + 16) s1"
proof -
  have "obj_binder (flat_strong bd) = 0 \<or> of_nat (length p) \<in> set (offsets s)" using rec by (cases "obj_binder (flat_strong bd) = 0") simp_all
  then have "\<not> False \<and> obj_cookie (flat_strong bd) = 0 \<and> obj_binder (flat_strong bd) = 0 \<or> of_nat (length p) \<in> set (offsets s)"
    using ok by (cases bd rule: flat_strong.cases) (auto simp: obj_of_def)
  then obtain s1 where "readObject False s = Some (Some (flat_strong bd), s1)" "moved s (length p + 16) s1" using readObject_at [OF v c so] by blast
  then show ?thesis using ok by (cases bd rule: flat_strong.cases) (simp_all add: readStrongBinder_def unflatten_strong_def obj_of_def binder_types local_ref_def moved_effects)
qed

lemma readFileDescriptor_at:
  assumes v: "view s (length p)" and c: "content s = p @ obj_le (obj_of BINDER_TYPE_FD fd k) @ q" and so: "sorted_wrt (<) (offsets s)" and rec: "of_nat (length p) \<in> set (offsets s)"
  shows "\<exists>s1. readFileDescriptor s = Some (sint fd, s1) \<and> moved s (length p + 16) s1"
  using readObject_at [OF v c so, of True] rec by (auto simp: readFileDescriptor_def obj_of_def)

lemma read_item_ok:
  assumes v: "view s (length p)" and c: "content s = p @ item_bytes x @ q" and so: "sorted_wrt (<) (offsets s)"
    and rec: "item_objs x \<noteq> [] \<Longrightarrow> of_nat (length p) \<in> set (offsets s)" and ok: "ok_item x"
  shows "\<exists>s1. read_item x s = Some (item_value x, s1) \<and> moved s (length p + length (item_bytes x)) s1"
proof (cases x)
  case (I32 w)
  then show ?thesis using readInt32_at [OF v, of w q] c movedI [of s "length p + 4"] by simp
next
  case (I64 w)
  then show ?thesis using readInt64_at [OF v, of w q] c movedI [of s "length p + 8"] by simp
next
  case (IBytes bs)
  then show ?thesis using parcel_read_at [OF v, of bs q] c ok movedI [of s "length p + padded (length bs)"] by simp
next
  case (ICStr str)
  then show ?thesis using readCString_at [OF v, of str q] c ok movedI [of s "length p + padded (length str + 1)"] by simp
next
  case (IStr8 str)
  then show ?thesis using readString8_at [OF v, of str q] c movedI [of s "length p + length (str8_bytes str)"] by simp
next
  case (IStr16 us)
  then show ?thesis using readString16_at [OF v, of us q] c movedI [of s "length p + length (str16_bytes us)"] by simp
next
  case (IBinder bd)
  then show ?thesis using readStrongBinder_at [OF v, of bd q] c so rec ok by auto
next
  case (IFd fd own)
  then show ?thesis using readFileDescriptor_at [OF v, of fd _ q] c so rec by auto
qed


section \<open>The stream of a parcel\<close>

definition writing :: "sys \<Rightarrow> event list \<Rightarrow> item list \<Rightarrow> pstate \<Rightarrow> bool" where
  "writing y es xs s = (ready s \<and> mAllowFds s \<and> plenty y \<and> content s = stream_bytes xs \<and> offsets s = map of_nat (stream_offsets 0 xs) \<and>
     visible (trace s) = es @ concat (map (acquired y) (stream_objs xs)))"

definition reading :: "item list \<Rightarrow> item list \<Rightarrow> pstate \<Rightarrow> bool" where
  "reading xs ys s = (view s (length (stream_bytes xs)) \<and> content s = stream_bytes (xs @ ys) \<and> offsets s = map of_nat (stream_offsets 0 (xs @ ys)) \<and> ok_items (xs @ ys))"

lemma writing_step:
  assumes w: "writing y es xs s" and ok: "ok_items (xs @ [x])"
  shows "\<exists>s'. write_item y x s = Some (NO_ERROR, s') \<and> writing y es (xs @ [x]) s'"
proof -
  have lb: "3 * (length (stream_bytes xs) + length (item_bytes x)) < 2 ^ 32" "ok_item x" using ok by (simp_all add: ok_items_def)
  then have "length (offsets s) < 2 ^ 28" using w stream_offsets_count [of 0 xs] by (simp add: writing_def)
  then obtain s1 where s1: "write_item y x s = Some (NO_ERROR, s1)" "wrote y s (item_bytes x) (item_objs x) s1"
    using write_item_ok [of s y x] w lb by (auto simp: writing_def)
  then have "writing y es (xs @ [x]) s1" using w by (simp add: writing_def wrote_def stream_offsets_append)
  then show ?thesis using s1(1) by blast
qed

lemma reading_step:
  assumes r: "reading xs (x # ys) s"
  shows "\<exists>s'. read_item x s = Some (item_value x, s') \<and> reading (xs @ [x]) ys s'"
proof -
  have v: "view s (length (stream_bytes xs))" and c: "content s = stream_bytes xs @ item_bytes x @ stream_bytes ys" and ok: "ok_item x"
    using r by (simp_all add: reading_def ok_items_def)
  have o: "offsets s = map of_nat (stream_offsets 0 (xs @ x # ys))" using r by (simp add: reading_def)
  have "length (stream_bytes (xs @ x # ys)) < 2 ^ 32" using r by (simp add: reading_def ok_items_def)
  then have so: "sorted_wrt (<) (offsets s)" unfolding o by (rule stream_offsets_words)
  have "of_nat (length (stream_bytes xs)) \<in> set (offsets s)" if "item_objs x \<noteq> []" using that unfolding o stream_offsets_append by (cases "item_objs x") auto
  then obtain s1 where s1: "read_item x s = Some (item_value x, s1)" "moved s (length (stream_bytes xs) + length (item_bytes x)) s1"
    using read_item_ok [OF v c so _ ok] by blast
  have "view s1 (length (stream_bytes (xs @ [x])))" using moved_view [OF s1(2) v] c by simp
  then have "reading (xs @ [x]) ys s1" using r moved_simps [OF s1(2)] by (simp add: reading_def)
  then show ?thesis using s1(1) by blast
qed

interpretation parcel_stream: value_stream "write_item y" read_item item_value "writing y es" reading ok_items for y es
proof (unfold_locales, goal_cases)
  case (1 xs ys)
  then show ?case by (simp add: ok_items_def)
next
  case (2 xs s x)
  then show ?case by (rule writing_step)
next
  case (3 xs x ys s)
  then show ?case by (rule reading_step)
qed

end
