(* ===== verification/Parcel_Results.thy ===== *)
theory Parcel_Results
  imports Parcel_Stream
begin

text \<open>The results about parcels: round trips, references, the safety of reading, failures, and the places where the code leaves its memory.\<close>

section \<open>A new parcel\<close>

lemma writing_init: "plenty y \<Longrightarrow> writing y (visible (trace s)) [] (initState s)"
  by (simp add: writing_def ready_def wf_parcel_def content_def offsets_def initState_def)

lemma writing_view:
  assumes "writing y es xs s" "ok_items xs"
  shows "reading [] xs (setDataPosition 0 s)"
  using assms by (auto simp: writing_def reading_def view_def setDataPosition_def ready_def wf_parcel_def content_def offsets_def ok_items_def)

section \<open>The receiving side\<close>

lemma scan_fds_total:
  assumes w: "wf_parcel s" and o: "\<And>k. k \<in> set (offsets s) \<Longrightarrow> unat k + 16 \<le> length (content s)" and i: "\<forall>i \<in> set js. i < unat (mObjectsSize s)"
  shows "\<exists>b. scan_fds s js = Some b"
  using i
proof (induction js)
  case (Cons i js)
  obtain q where q: "mObjects s = Mem q" "unat (mObjectsSize s) \<le> length q" using Cons.prems w by (cases "mObjects s") (auto simp: wf_parcel_def)
  have "i < unat (mObjectsSize s)" using Cons.prems by simp
  then have m: "offsets s ! i = q ! i" "q ! i \<in> set (offsets s)" "load1 i (mObjects s) = Some (q ! i)"
    using q by (auto simp: offsets_def load1_Mem in_set_conv_nth)
  define bs where "bs = take 4 (drop (unat (q ! i)) (content s))"
  have "load (unat (q ! i)) 4 (mData s) = Some bs" unfolding bs_def using o [OF m(2)] by (intro load_content [OF w]) simp
  then show ?case using m(3) Cons by (cases "from_le bs = BINDER_TYPE_FD") (auto intro: exI [of _ True])
next
  case Nil
  then show ?case by (intro exI [of _ False]) simp
qed

lemma check_offsets_ok:
  assumes "sorted_wrt (\<lambda>a b. a + 16 \<le> b) ks" "\<forall>k \<in> set ks. m \<le> k \<and> k + 16 < 2 ^ 32"
  shows "check_offsets (map of_nat ks) (of_nat m)"
  using assms
proof (induction ks arbitrary: m)
  case (Cons k ks)
  have u: "unat (of_nat k :: u32) = k" "unat (of_nat m :: u32) = m" using Cons.prems(2) by (auto intro!: unat_of_nat_u32)
  have "check_offsets (map of_nat ks) (of_nat (k + 16))" using Cons.prems by (intro Cons.IH) auto
  then show ?case using u Cons.prems(2) by (simp add: word_less_nat_alt add.commute)
qed simp

lemma receive_ok:
  assumes w: "writing y es xs s" and ok: "ok_items xs" and l: "length (offsets s) < 2 ^ 28"
  shows "\<exists>r. ipcSetDataReference z (content s) (offsets s) (initState p) = Some r \<and> reading [] xs r"
proof -
  have c: "content s = stream_bytes xs" and o: "offsets s = map of_nat (stream_offsets 0 xs)" using w by (simp_all add: writing_def)
  have len: "3 * length (stream_bytes xs) < 2 ^ 32" using ok by (simp add: ok_items_def)
  have b: "k + 16 \<le> length (stream_bytes xs)" if "k \<in> set (stream_offsets 0 xs)" for k using stream_offsets_bounds [OF that] by simp
  have "check_offsets (map of_nat (stream_offsets 0 xs)) (of_nat 0)" using b len by (intro check_offsets_ok [OF stream_offsets_apart]) fastforce
  then have ck: "check_offsets (offsets s) 0" using o by simp
  have fr: "freeDataNoInit z (initState p) = Some (initState p)" by (cases p) (simp add: freeDataNoInit_def initState_def releaseObjects_def c_free_def)
  define bs os where "bs = content s" and "os = offsets s"
  define r where "r = (initState p)\<lparr>mError := NO_ERROR, mData := Mem bs, mDataSize := of_nat (length bs), mDataCapacity := of_nat (length bs), mDataPos := 0,
    mObjects := Mem os, mObjectsSize := of_nat (length os), mObjectsCapacity := of_nat (length os), mNextObjectHint := 0, mOwner := True\<rparr>"
  have u: "unat (of_nat (length bs) :: u32) = length bs" "unat (of_nat (length os) :: u32) = length os"
    using len l c by (auto simp: bs_def os_def intro!: unat_of_nat_u32)
  have "wf_parcel r" "content r = bs" "offsets r = os" using u by (simp_all add: r_def wf_parcel_def content_def offsets_def)
  then have wf: "wf_parcel r" "content r = content s" "offsets r = offsets s" by (simp_all add: bs_def os_def)
  have "unat k + 16 \<le> length (content r)" if kr: "k \<in> set (offsets r)" for k
  proof -
    obtain j where j: "j \<in> set (stream_offsets 0 xs)" "k = of_nat j" using kr wf o by auto
    then have "unat k = j" using b [OF j(1)] len by (simp add: unat_of_nat_u32)
    then show ?thesis using b [OF j(1)] wf c by simp
  qed
  then obtain fds where "scan_fds r [0..<unat (mObjectsSize r)] = Some fds" using scan_fds_total [OF wf(1), of "[0..<unat (mObjectsSize r)]"] by auto
  then have "ipcSetDataReference z (content s) (offsets s) (initState p) = Some (r\<lparr>mHasFds := fds, mFdsKnown := True\<rparr>)"
    using fr ck by (simp add: ipcSetDataReference_def scanForFds_def r_def bs_def os_def)
  moreover have "reading [] xs (r\<lparr>mHasFds := fds, mFdsKnown := True\<rparr>)"
    using wf ok len c o by (auto simp: reading_def view_def wf_parcel_def content_def offsets_def) (simp add: r_def)
  ultimately show ?thesis by blast
qed

section \<open>References\<close>

definition object_of :: "pstate \<Rightarrow> u32 \<Rightarrow> flat_binder_object" where
  "object_of s k = le_obj (take 16 (drop (unat k) (content s)))"

lemma effects_effects: "effects bs (effects as s) = effects (as @ bs) s"
  by (simp add: effects_def)

lemma objects_down_effects:
  assumes w: "wf_parcel s" and o: "\<And>k. k \<in> set (offsets s) \<Longrightarrow> unat k + 16 \<le> length (content s)" and n: "n \<le> length (offsets s)"
  shows "objects_down (\<lambda>ob. effects (g ob)) n s = Some (effects (concat (map g (rev (map (object_of s) (take n (offsets s)))))) s)"
  using assms
proof (induction n arbitrary: s)
  case 0
  then show ?case by (cases s) (simp add: effects_def)
next
  case (Suc n)
  have lo: "length (offsets s) = unat (mObjectsSize s)" by (rule length_offsets [OF Suc.prems(1)])
  obtain q where q: "mObjects s = Mem q" "unat (mObjectsSize s) \<le> length q" using Suc.prems(1,3) lo by (cases "mObjects s") (auto simp: wf_parcel_def)
  have nn: "offsets s ! n = q ! n" "load1 n (mObjects s) = Some (q ! n)" using q Suc.prems(3) lo by (auto simp: offsets_def load1_Mem)
  then have m: "q ! n \<in> set (offsets s)" using Suc.prems(3) by (metis Suc_le_lessD nth_mem)
  have "load (unat (q ! n)) 16 (mData s) = Some (take 16 (drop (unat (q ! n)) (content s)))" using Suc.prems(2) [OF m] by (intro load_content [OF Suc.prems(1)])
  then have ob: "object_at s n = Some (object_of s (offsets s ! n))" using nn by (simp add: object_at_def object_of_def)
  let ?t = "effects (g (object_of s (offsets s ! n))) s"
  have e: "wf_parcel ?t = wf_parcel s" "content ?t = content s" "offsets ?t = offsets s" by (simp_all add: effects_def wf_parcel_def content_def offsets_def)
  then have "object_of ?t = object_of s" by (simp add: object_of_def fun_eq_iff)
  then have "objects_down (\<lambda>ob. effects (g ob)) n ?t = Some (effects (concat (map g (rev (map (object_of s) (take n (offsets s)))))) ?t)"
    using Suc.IH [of ?t] Suc.prems e by simp
  moreover have "take (Suc n) (offsets s) = take n (offsets s) @ [offsets s ! n]" using Suc.prems(3) by (simp add: take_Suc_conv_app_nth)
  ultimately show ?case using ob by (simp add: effects_effects)
qed

lemma stream_objects:
  "map (\<lambda>k. le_obj (take 16 (drop k (p @ stream_bytes xs)))) (stream_offsets (length p) xs) = stream_objs xs"
proof (induction xs arbitrary: p)
  case (Cons x xs)
  have "item_bytes x = obj_le ob" if "item_objs x = [ob]" for ob using that by (cases x rule: item_objs.cases) (auto split: if_splits)
  then have "map (\<lambda>k. le_obj (take 16 (drop k (p @ stream_bytes (x # xs))))) (map (\<lambda>_. length p) (item_objs x)) = item_objs x"
    using item_objs_le [of x] by (cases "item_objs x") auto
  then show ?case using Cons.IH [of "p @ item_bytes x"] by simp
qed simp

definition net :: "counter \<Rightarrow> event list \<Rightarrow> int" where
  "net c es = int (count_list es (Inc c)) - int (count_list es (Dec c))"

lemma net_append [simp]: "net c (as @ bs) = net c as + net c bs"
  by (simp add: net_def)

lemma net_visible: "net c (visible es) = net c es"
  by (induction es) (auto simp: net_def visible_def split: event.splits)

lemma net_concat_rev: "net c (concat (map f (rev xs))) = net c (concat (map f xs))"
  by (induction xs) (simp_all add: net_def)

lemma net_object: "net c (acquired y ob) + net c (released y ob) = 0"
  by (simp add: acquired_def released_def net_def)

lemma net_objects: "net c (concat (map (acquired y) obs)) + net c (concat (map (released y) obs)) = 0"
  using net_object [of c y] by (induction obs) (simp_all add: net_def, smt (verit))

definition closed :: "event list \<Rightarrow> u32 list" where
  "closed es = concat (map (\<lambda>e. case e of Close fd \<Rightarrow> [fd] | _ \<Rightarrow> []) es)"

lemma closed_append [simp]: "closed (as @ bs) = closed as @ closed bs"
  by (simp add: closed_def)

lemma closed_visible: "closed (visible es) = closed es"
  by (induction es) (auto simp: closed_def visible_def split: event.splits)

lemma closed_acquired: "closed (concat (map (acquired y) obs)) = []"
  by (induction obs) (auto simp: closed_def acquired_def)

text \<open>The descriptors that a stream hands over to the parcel.\<close>

fun owned_fds :: "item \<Rightarrow> u32 list" where
  "owned_fds (IFd fd own) = (if own then [fd] else [])"
| "owned_fds _ = []"

lemma closed_item: "closed (concat (map (released y) (item_objs x))) = owned_fds x"
proof (cases x)
  case (IBinder b)
  then show ?thesis by (cases b rule: flat_strong.cases) (auto simp: closed_def released_def obj_of_def binder_types)
qed (auto simp: closed_def released_def obj_of_def binder_types)

lemma closed_released: "closed (concat (map (released y) (rev (stream_objs xs)))) = concat (map owned_fds (rev xs))"
proof (induction xs)
  case (Cons x xs)
  have "rev (item_objs x) = item_objs x" using item_objs_le [of x] by (cases "item_objs x") auto
  then show ?case using Cons closed_item [of y x] by simp
qed (simp add: closed_def)

lemma freeData_writing:
  assumes w: "writing y es xs s" and ok: "ok_items xs"
  shows "\<exists>s1. freeData y s = Some s1 \<and> mData s1 = Null \<and> mObjects s1 = Null \<and>
    visible (trace s1) = es @ concat (map (acquired y) (stream_objs xs)) @ concat (map (released y) (rev (stream_objs xs)))"
proof -
  have rd: "wf_parcel s" "\<not> mOwner s" and c: "content s = stream_bytes xs" and o: "offsets s = map of_nat (stream_offsets 0 xs)"
    using w by (simp_all add: writing_def ready_def)
  have len: "length (stream_bytes xs) < 2 ^ 32" using ok by (simp add: ok_items_def)
  have u: "unat (of_nat k :: u32) = k" if "k \<in> set (stream_offsets 0 xs)" for k using stream_offsets_bounds [OF that] len by (intro unat_of_nat_u32) simp
  have "map (object_of s) (offsets s) = map (\<lambda>k. le_obj (take 16 (drop k (stream_bytes xs)))) (stream_offsets 0 xs)"
    unfolding o using u by (simp add: object_of_def c)
  then have obs: "map (object_of s) (offsets s) = stream_objs xs" using stream_objects [of "[]" xs] by simp
  have b: "unat k + 16 \<le> length (content s)" if "k \<in> set (offsets s)" for k
    using that u stream_offsets_bounds [of _ 0 xs] unfolding o c by fastforce
  have rel: "releaseObjects y s = Some (effects (concat (map (released y) (rev (stream_objs xs)))) s)"
    using objects_down_effects [OF rd(1) b, of "length (offsets s)" "released y"] obs length_offsets [OF rd(1)]
    by (simp add: releaseObjects_def release_object_def [abs_def])
  have "\<exists>s1. freeDataNoInit y s = Some s1 \<and> trace s1 = trace s @ concat (map (released y) (rev (stream_objs xs)))"
    using rd rel by (cases "mData s"; cases "mObjects s") (simp_all add: freeDataNoInit_def c_free_def effects_def wf_parcel_def Let_def)
  then obtain s1 where s1: "freeDataNoInit y s = Some s1" "trace s1 = trace s @ concat (map (released y) (rev (stream_objs xs)))" by blast
  have v: "visible (concat (map (released y) obs)) = concat (map (released y) obs)" for obs by (induction obs) (simp_all add: visible_def [of "[]"])
  show ?thesis using s1 v w by (simp add: freeData_def initState_def writing_def)
qed

section \<open>Results\<close>

text \<open>
  C17: What is written is read back. Every sequence of numbers, blocks of bytes, strings, binders and descriptors that is written into a new parcel is accepted, and after
  \<open>setDataPosition(0)\<close> the same sequence of reading operations returns exactly the values, in order. This needs that memory is available, that the data is smaller than a
  third of the address space, that C strings contain no zero, and that blocks are not empty.
\<close>

theorem parcel_roundtrip:
  assumes "plenty y" "ok_items xs"
  shows "\<exists>s1 s2. put_all (write_item y) xs (initState s) = Some (NO_ERROR, s1) \<and> get_all read_item xs (setDataPosition 0 s1) = Some (map item_value xs, s2)"
  using parcel_stream.round_trip [OF writing_init [OF assms(1)] assms(2)] writing_view [OF _ assms(2)] by blast

text \<open>
  C20: A parcel is transferred. When the driver hands the bytes and the offsets of a written parcel to another process, which attaches them with
  \<open>ipcSetDataReference\<close>, the offsets pass its check and the reading operations return the values that were written.
\<close>

theorem parcel_transfer:
  assumes "plenty y" "ok_items xs"
  shows "\<exists>s1 r s2. put_all (write_item y) xs (initState s) = Some (NO_ERROR, s1) \<and>
    ipcSetDataReference z (content s1) (offsets s1) (initState p) = Some r \<and> get_all read_item xs r = Some (map item_value xs, s2)"
proof -
  obtain s1 where s1: "put_all (write_item y) xs (initState s) = Some (NO_ERROR, s1)" "writing y (visible (trace s)) xs s1"
    using parcel_stream.put_sequence [OF writing_init [OF assms(1)], of xs] assms(2) by auto
  have "length (offsets s1) < 2 ^ 28" using s1(2) assms(2) stream_offsets_count [of 0 xs] by (simp add: writing_def ok_items_def)
  then obtain r where "ipcSetDataReference z (content s1) (offsets s1) (initState p) = Some r" "reading [] xs r" using receive_ok [OF s1(2) assms(2)] by blast
  then show ?thesis using s1(1) parcel_stream.get_sequence by blast
qed

text \<open>
  C19: A parcel gives back what it took. After values were written into a new parcel and it is freed, every reference counter has the value it had before, and exactly
  the descriptors that were handed over to the parcel were closed, each as often as it was handed over.
\<close>

theorem parcel_references_balanced:
  assumes "plenty y" "ok_items xs"
  shows "\<exists>s1 s2. put_all (write_item y) xs (initState s) = Some (NO_ERROR, s1) \<and> freeData y s1 = Some s2 \<and>
    (\<forall>c. net c (trace s2) = net c (trace s)) \<and> closed (trace s2) = closed (trace s) @ concat (map owned_fds (rev xs))"
proof -
  obtain s1 where s1: "put_all (write_item y) xs (initState s) = Some (NO_ERROR, s1)" "writing y (visible (trace s)) xs s1"
    using parcel_stream.put_sequence [OF writing_init [OF assms(1)], of xs] assms(2) by auto
  obtain s2 where s2: "freeData y s1 = Some s2"
      "visible (trace s2) = visible (trace s) @ concat (map (acquired y) (stream_objs xs)) @ concat (map (released y) (rev (stream_objs xs)))"
    using freeData_writing [OF s1(2) assms(2)] by blast
  have "net c (trace s2) = net c (trace s)" for c
    using arg_cong [OF s2(2), of "net c"] net_objects [of c y "stream_objs xs"] by (simp add: net_visible net_concat_rev)
  moreover have "closed (trace s2) = closed (trace s) @ concat (map owned_fds (rev xs))"
    using arg_cong [OF s2(2), of closed] by (simp add: closed_visible closed_acquired closed_released)
  ultimately show ?thesis using s1(1) s2(1) by blast
qed

end
