(* ===== verification/Parcel_Safety.thy ===== *)
theory Parcel_Safety
  imports Parcel_Results
begin

text \<open>
  Reading of arbitrary data: whatever the sender put into a parcel, the reading operations that test what they read stay inside of its memory, and follow
  only pointers of objects that the offsets vouch for.
\<close>

section \<open>Advancing\<close>

definition safe :: "pstate \<Rightarrow> bool" where
  "safe s = (view s (unat (mDataPos s)) \<and> 4 dvd unat (mDataPos s) \<and> 4 dvd length (content s))"

text \<open>
  The accesses through pointers in the data that the recorded objects allow. The driver records an object in the offsets of a received parcel, and translates
  the pointers of local objects, which are then its owner's own.
\<close>

definition vouched :: "pstate \<Rightarrow> event set" where
  "vouched s = {e. \<exists>off \<in> set (offsets s). unat off + 16 \<le> length (content s) \<and>
     (obj_type (object_of s off) = BINDER_TYPE_BINDER \<and> e \<in> {Inc (Strong (obj_cookie (object_of s off))), Inc (WeakOf (obj_cookie (object_of s off)))} \<or>
      obj_type (object_of s off) = BINDER_TYPE_WEAK_BINDER \<and> e = Inc (Weak (obj_binder (object_of s off))))}"

definition advanced :: "pstate \<Rightarrow> pstate \<Rightarrow> bool" where
  "advanced s s1 = ((\<exists>k. moved s k s1 \<and> k \<le> length (content s) \<and> 4 dvd k) \<and> (\<exists>es. trace s1 = trace s @ es \<and> set es \<subseteq> vouched s))"

lemma vouched_moved: "moved s k s1 \<Longrightarrow> vouched s1 = vouched s"
  by (simp add: vouched_def object_of_def moved_simps)

lemma safe_view: "safe s \<Longrightarrow> view s (unat (mDataPos s))"
  by (simp add: safe_def)

lemma advanced_safe: "safe s \<Longrightarrow> advanced s s1 \<Longrightarrow> safe s1"
proof -
  assume s: "safe s" and "advanced s s1"
  then obtain k where k: "moved s k s1" "k \<le> length (content s)" "4 dvd k" by (auto simp: advanced_def)
  then have "view s1 k" using moved_view [OF k(1) safe_view [OF s]] by simp
  then show ?thesis using k s moved_simps [OF k(1)] by (auto simp: safe_def view_def)
qed

lemma advanced_trans: "advanced s s1 \<Longrightarrow> advanced s1 s2 \<Longrightarrow> advanced s s2"
proof -
  assume "advanced s s1" "advanced s1 s2"
  then obtain j k es fs where j: "moved s j s1" "trace s1 = trace s @ es" "set es \<subseteq> vouched s"
    and k: "moved s1 k s2" "k \<le> length (content s1)" "4 dvd k" "trace s2 = trace s1 @ fs" "set fs \<subseteq> vouched s1" by (auto simp: advanced_def)
  have "content s1 = content s" "vouched s1 = vouched s" by (rule moved_simps [OF j(1)], rule vouched_moved [OF j(1)])
  then show ?thesis using moved_trans [OF j(1) k(1)] j k unfolding advanced_def by (intro conjI exI [of _ k] exI [of _ "es @ fs"]) auto
qed

lemma advanced_refl: "safe s \<Longrightarrow> advanced s s"
  using movedI [of s "unat (mDataPos s)"] unfolding advanced_def safe_def view_def by (intro conjI exI [of _ "unat (mDataPos s)"] exI [of _ "[]"]) (cases s, simp)+

lemma advancedI: "safe s \<Longrightarrow> k \<le> length (content s) \<Longrightarrow> 4 dvd k \<Longrightarrow> advanced s (s\<lparr>mDataPos := of_nat k\<rparr>)"
  using movedI [of s k] by (auto simp: advanced_def)

lemma advancedI_hint: "k \<le> length (content s) \<Longrightarrow> 4 dvd k \<Longrightarrow> advanced s (s\<lparr>mDataPos := of_nat k, mNextObjectHint := h\<rparr>)"
  using movedI_hint [of s k h] by (auto simp: advanced_def)

lemma advanced_effects: "advanced s s1 \<Longrightarrow> set es \<subseteq> vouched s \<Longrightarrow> advanced s (effects es s1)"
  unfolding advanced_def using moved_effects by (fastforce simp: effects_def)

lemma advanced_content: "advanced s s1 \<Longrightarrow> content s1 = content s \<and> mData s1 = mData s"
  by (auto simp: advanced_def moved_simps)

lemma safe_load: "safe s \<Longrightarrow> i + n \<le> length (content s) \<Longrightarrow> load i n (mData s) = Some (take n (drop i (content s)))"
  by (rule load_content) (simp_all add: safe_def view_def)

section \<open>Reading operations\<close>

lemma readAligned_safe:
  assumes s: "safe s" and n: "4 dvd n" "n \<le> 16"
  shows "\<exists>err w s1. readAligned n s = Some (err, w, s1) \<and> advanced s s1"
proof (cases "unat (mDataPos s) + n \<le> length (content s)")
  case True
  let ?k = "unat (mDataPos s)"
  have less: "3 * length (content s) < 2 ^ 32" using view_less [OF safe_view [OF s]] .
  have "mDataPos s + of_nat n = of_nat (?k + n)" by simp
  then have u: "unat (mDataPos s + of_nat n) = ?k + n" using True less unat_of_nat_u32 [of "?k + n"] by simp
  have le: "mDataPos s + of_nat n \<le> mDataSize s" using u True view_size [OF safe_view [OF s]] by (simp add: word_le_nat_alt)
  have "4 dvd ?k + n" using s n by (simp add: safe_def)
  then have "advanced s (s\<lparr>mDataPos := of_nat (?k + n)\<rparr>)" using advancedI [OF s True] by simp
  then show ?thesis using le safe_load [OF s True] by (simp add: readAligned_def)
next
  case False
  let ?k = "unat (mDataPos s)"
  have less: "3 * length (content s) < 2 ^ 32" "?k \<le> length (content s)" using safe_view [OF s] by (simp_all add: view_def)
  have "mDataPos s + of_nat n = of_nat (?k + n)" by simp
  then have "unat (mDataPos s + of_nat n) = ?k + n" using less n unat_of_nat_u32 [of "?k + n"] by simp
  then have "\<not> mDataPos s + of_nat n \<le> mDataSize s" using False view_size [OF safe_view [OF s]] by (simp add: word_le_nat_alt)
  then show ?thesis using advanced_refl [OF s] by (simp add: readAligned_def)
qed

lemma readInt32_safe: "safe s \<Longrightarrow> \<exists>w s1. readInt32 s = Some (w, s1) \<and> advanced s s1"
  using readAligned_safe [of s 4, where 'a = 32] by (fastforce simp: readInt32_def)

lemma readInt64_safe: "safe s \<Longrightarrow> \<exists>w s1. readInt64 s = Some (w, s1) \<and> advanced s s1"
  using readAligned_safe [of s 8, where 'a = 64] by (fastforce simp: readInt64_def)

lemma can_read_safe:
  assumes s: "safe s" and c: "can_read n s"
  shows "unat (mDataPos s) + padded (unat n) \<le> length (content s)" "PAD_SIZE n = of_nat (padded (unat n))"
proof -
  have n: "unat n + 3 < 2 ^ 32"
  proof (rule ccontr)
    assume a: "\<not> unat n + 3 < 2 ^ 32"
    then have "PAD_SIZE n = 0" by (intro PAD_SIZE_wraps) simp
    then have "n = 0" using c by (simp add: can_read_def)
    then show False using a by simp
  qed
  show "unat (mDataPos s) + padded (unat n) \<le> length (content s)" using can_read_iff [OF safe_view [OF s] n] c by simp
  show "PAD_SIZE n = of_nat (padded (unat n))" using PAD_SIZE_of_nat [OF n] by simp
qed

lemma can_read_advanced:
  assumes s: "safe s" and c: "can_read n s"
  shows "advanced s (s\<lparr>mDataPos := mDataPos s + PAD_SIZE n\<rparr>)" "unat (mDataPos s) + unat n \<le> length (content s)"
proof -
  note r = can_read_safe [OF assms]
  have "4 dvd unat (mDataPos s) + padded (unat n)" using s padded_bounds(3) by (simp add: safe_def)
  then have "advanced s (s\<lparr>mDataPos := of_nat (unat (mDataPos s) + padded (unat n))\<rparr>)" by (rule advancedI [OF s r(1)])
  then show "advanced s (s\<lparr>mDataPos := mDataPos s + PAD_SIZE n\<rparr>)" using r(2) by simp
  show "unat (mDataPos s) + unat n \<le> length (content s)" using r(1) padded_bounds(1) [of "unat n"] by simp
qed

lemma parcel_read_safe: "safe s \<Longrightarrow> \<exists>err bs s1. parcel_read n s = Some (err, bs, s1) \<and> advanced s s1"
  using can_read_advanced [of s n] safe_load [of s "unat (mDataPos s)" "unat n"] advanced_refl [of s] by (cases "can_read n s") (simp_all add: parcel_read_def)

lemma readInplace_safe:
  assumes "safe s" "readInplace n s = (r, s1)"
  shows "advanced s s1" "r = Some i \<Longrightarrow> i + unat n \<le> length (content s)"
  using assms can_read_advanced [of s n] advanced_refl [of s] by (auto simp: readInplace_def data_ptr_def split: if_splits)

lemma memchr0_total: "n \<le> length bs \<Longrightarrow> \<exists>r. memchr0 bs n = Some r \<and> (\<forall>i. r = Some i \<longrightarrow> i < n)"
proof (induction bs arbitrary: n)
  case (Cons b bs)
  then show ?case using Cons.IH [of "n - 1"] by fastforce
qed auto

lemma padded_le: "n < m \<Longrightarrow> 4 dvd m \<Longrightarrow> padded (n + 1) \<le> m"
  by (auto simp: padded_def elim!: dvdE)

lemma readCString_safe:
  assumes s: "safe s"
  shows "\<exists>r s1. readCString s = Some (r, s1) \<and> advanced s s1"
proof (cases "mDataSize s - mDataPos s = 0")
  case True
  then show ?thesis using advanced_refl [OF s] by (simp add: readCString_def)
next
  case False
  let ?k = "unat (mDataPos s)" and ?n = "unat (mDataSize s - mDataPos s)"
  have v: "view s ?k" "?k \<le> length (content s)" using safe_view [OF s] by (simp_all add: view_def)
  have av: "?n = length (content s) - ?k" using view_size [OF v(1)] v(2) by (simp add: unat_sub word_le_nat_alt)
  have pos: "0 < ?n" using False by (simp add: unat_gt_0)
  have "content s \<noteq> []" using av pos by auto
  then obtain rest where "bytes_from ?k (mData s) = drop ?k (content s) @ rest" using bytes_from_content [of s ?k] v by (auto simp: view_def)
  then obtain r where r: "memchr0 (bytes_from ?k (mData s)) ?n = Some r" "\<And>i. r = Some i \<Longrightarrow> i < ?n"
    using memchr0_total [of ?n "bytes_from ?k (mData s)"] av by auto
  show ?thesis
  proof (cases r)
    case None
    then show ?thesis using r(1) False advanced_refl [OF s] by (simp add: readCString_def Let_def word_gt_0)
  next
    case (Some i)
    have d: "4 dvd ?n" using av s by (simp add: safe_def dvd_diff_nat)
    have p: "padded (i + 1) \<le> ?n" by (rule padded_le [OF r(2) [OF Some] d])
    have "i + 1 \<le> padded (i + 1)" by (rule padded_bounds)
    then have small: "i + 1 + 3 < 2 ^ 32" using p av view_less [OF v(1)] by simp
    then have "PAD_SIZE (of_nat i + 1) = of_nat (padded (i + 1))" using PAD_SIZE_of_nat [of "i + 1"] by (simp add: add.commute)
    moreover have "advanced s (s\<lparr>mDataPos := of_nat (?k + padded (i + 1))\<rparr>)"
      using p av v(2) s padded_bounds(3) [of "i + 1"] by (intro advancedI) (auto simp: safe_def)
    ultimately show ?thesis using r(1) Some False by (simp add: readCString_def Let_def word_gt_0)
  qed
qed

lemma sint_pos: "0 \<le> sint (w :: u32) \<Longrightarrow> unat w = nat (sint w)"
proof -
  assume "0 \<le> sint w"
  then have "\<not> bit (uint w) 31" by (simp add: sint_uint)
  then have "sint w = take_bit 31 (uint w)" "take_bit (Suc 31) (uint w) = take_bit 31 (uint w)"
    unfolding take_bit_Suc_from_most by (simp_all add: sint_uint signed_take_bit_eq_if_positive)
  moreover have "uint w < 2 ^ Suc 31" using unsigned_less [of w] by simp
  then have "take_bit (Suc 31) (uint w) = uint w" by (intro take_bit_int_eq_self) simp_all
  ultimately have "sint w = uint w" by argo
  then show ?thesis by simp
qed

lemma readString8_safe:
  assumes s: "safe s"
  shows "\<exists>r s1. readString8 s = Some (r, s1) \<and> advanced s s1"
proof -
  obtain w s1 where s1: "readInt32 s = Some (w, s1)" "advanced s s1" using readInt32_safe [OF s] by blast
  have f1: "safe s1" by (rule advanced_safe [OF s s1(2)])
  show ?thesis
  proof (cases "0 < sint w \<and> sint w < 2147483647")
    case False
    then show ?thesis using s1 by (auto simp: readString8_def Let_def)
  next
    case True
    then have u: "unat w = nat (sint w)" by (intro sint_pos) simp
    moreover have "nat (sint w) < 2147483647" using True by linarith
    ultimately have u1: "unat (w + 1) = nat (sint w) + 1" by (simp add: unat_word_ariths)
    obtain r s2 where r: "readInplace (w + 1) s1 = (r, s2)" by fastforce
    have a: "advanced s s2" using advanced_trans [OF s1(2) readInplace_safe(1) [OF f1 r]] .
    have f2: "safe s2" by (rule advanced_safe [OF s a])
    have c2: "content s2 = content s1" using advanced_content [OF readInplace_safe(1) [OF f1 r]] by simp
    show ?thesis
    proof (cases r)
      case None
      then show ?thesis using s1 r True a by (simp add: readString8_def Let_def)
    next
      case (Some i)
      then have "i + nat (sint w) \<le> length (content s2)" using readInplace_safe(2) [OF f1 r] u1 c2 by simp
      then show ?thesis using s1 r True a Some safe_load [OF f2] by (simp add: readString8_def Let_def)
    qed
  qed
qed

lemma readString16_safe:
  assumes s: "safe s"
  shows "\<exists>r s1. readString16 s = Some (r, s1) \<and> advanced s s1"
proof -
  obtain w s1 where s1: "readInt32 s = Some (w, s1)" "advanced s s1" using readInt32_safe [OF s] by blast
  have f1: "safe s1" by (rule advanced_safe [OF s s1(2)])
  show ?thesis
  proof (cases "0 \<le> sint w \<and> sint w < 2147483647")
    case False
    then show ?thesis using s1 by (auto simp: readString16_def readString16Inplace_def Let_def)
  next
    case True
    then have u: "unat w = nat (sint w)" by (intro sint_pos) simp
    have b: "nat (sint w) < 2147483647" using True by linarith
    then have u1: "unat (w + 1) = nat (sint w) + 1" using u by (simp add: unat_word_ariths)
    have "unat ((w + 1) * 2) = (unat (w + 1) * 2) mod 2 ^ 32" unfolding unat_word_ariths(2) by simp
    then have u2: "unat ((w + 1) * 2) = 2 * nat (sint w) + 2" unfolding u1 using b by simp
    obtain r s2 where r: "readInplace ((w + 1) * 2) s1 = (r, s2)" by fastforce
    have a: "advanced s s2" using advanced_trans [OF s1(2) readInplace_safe(1) [OF f1 r]] .
    have f2: "safe s2" by (rule advanced_safe [OF s a])
    have c2: "content s2 = content s1" using advanced_content [OF readInplace_safe(1) [OF f1 r]] by simp
    show ?thesis
    proof (cases r)
      case None
      then show ?thesis using s1 r True a by (simp add: readString16_def readString16Inplace_def Let_def)
    next
      case (Some i)
      then have "i + 2 * unat w \<le> length (content s2)" using readInplace_safe(2) [OF f1 r] u u2 c2 by simp
      then show ?thesis using s1 r True a Some safe_load [OF f2] by (simp add: readString16_def readString16Inplace_def Let_def)
    qed
  qed
qed

lemma find_object_total:
  assumes "wf_parcel s"
  shows "\<exists>r. find_object (mObjects s) dpos (unat (mObjectsSize s)) hint = Some r \<and> (r \<noteq> None \<longrightarrow> dpos \<in> set (offsets s))"
proof (cases "unat (mObjectsSize s) = 0")
  case False
  let ?n = "unat (mObjectsSize s)"
  obtain q where q: "mObjects s = Mem q" "?n \<le> length q" using assms False by (cases "mObjects s") (auto simp: wf_parcel_def)
  have rec: "q ! i \<in> set (offsets s)" if "i < ?n" for i using that q by (auto simp: offsets_def in_set_conv_nth intro!: exI [of _ i])
  obtain j where j: "(if hint < ?n then search_forward (Mem q) dpos (?n - 1 - hint) hint else Some (?n - 1)) = Some j" "j < ?n"
  proof (cases "hint < ?n")
    case True
    then have "hint + (?n - 1 - hint) < length q" using q(2) by simp
    then show ?thesis using search_forward_ok [of hint "?n - 1 - hint" q dpos] True that by fastforce
  next
    case h: False
    then show ?thesis using that [of "?n - 1"] False by simp
  qed
  have jl: "j < length q" using j(2) q(2) by simp
  obtain i where i: "search_backward (Mem q) dpos j = Some i" "i \<le> j" using search_backward_ok [OF jl] by blast
  then show ?thesis using False j q(1) rec [OF j(2)] rec [of i] jl by (auto simp: find_object_def load1_Mem)
qed (simp add: find_object_def)

text \<open>An object that is returned with a pointer in it is recorded.\<close>

definition recorded :: "pstate \<Rightarrow> flat_binder_object \<Rightarrow> bool" where
  "recorded s ob = (\<exists>off \<in> set (offsets s). unat off + 16 \<le> length (content s) \<and> ob = object_of s off)"

lemma readObject_safe:
  assumes s: "safe s"
  shows "\<exists>r s1. readObject nm s = Some (r, s1) \<and> advanced s s1 \<and> (\<forall>ob. r = Some ob \<longrightarrow> recorded s ob \<or> obj_cookie ob = 0 \<and> obj_binder ob = 0)"
proof (cases "unat (mDataPos s) + 16 \<le> length (content s)")
  case True
  let ?k = "unat (mDataPos s)"
  have less: "3 * length (content s) < 2 ^ 32" using view_less [OF safe_view [OF s]] .
  have e: "mDataPos s + 16 = of_nat (?k + 16)" by simp
  then have "unat (mDataPos s + 16) = ?k + 16" using True less unat_of_nat_u32 [of "?k + 16"] by simp
  then have le: "mDataPos s + 16 \<le> mDataSize s" using True view_size [OF safe_view [OF s]] by (simp add: word_le_nat_alt)
  have "4 dvd ?k + 16" using s by (simp add: safe_def)
  then have a: "advanced s (s\<lparr>mDataPos := mDataPos s + 16, mNextObjectHint := h\<rparr>)" for h
    unfolding e using True by (intro advancedI_hint)
  have a0: "advanced s (s\<lparr>mDataPos := mDataPos s + 16\<rparr>)" using a [of "mNextObjectHint s"] by (cases s) simp
  obtain r where r: "find_object (mObjects s) (mDataPos s) (unat (mObjectsSize s)) (unat (mNextObjectHint s)) = Some r" "r \<noteq> None \<longrightarrow> mDataPos s \<in> set (offsets s)"
    using find_object_total [of s] safe_view [OF s] by (fastforce simp: view_def)
  have "mDataPos s \<in> set (offsets s) \<Longrightarrow> recorded s (le_obj (take 16 (drop ?k (content s))))"
    unfolding recorded_def object_of_def using True by blast
  then show ?thesis using le safe_load [OF s True] a a0 r by (cases r) (auto simp: readObject_def Let_def)
next
  case False
  let ?k = "unat (mDataPos s)"
  have less: "3 * length (content s) < 2 ^ 32" "?k \<le> length (content s)" using safe_view [OF s] by (simp_all add: view_def)
  have "mDataPos s + 16 = of_nat (?k + 16)" by simp
  then have "unat (mDataPos s + 16) = ?k + 16" using less unat_of_nat_u32 [of "?k + 16"] by simp
  then have "\<not> mDataPos s + 16 \<le> mDataSize s" using False view_size [OF safe_view [OF s]] by (simp add: word_le_nat_alt)
  then show ?thesis using advanced_refl [OF s] by (simp add: readObject_def)
qed

lemma unflatten_vouched:
  assumes "recorded s ob \<or> obj_cookie ob = 0 \<and> obj_binder ob = 0"
  shows "set (snd (unflatten_strong ob)) \<subseteq> vouched s" "set (snd (unflatten_weak ob)) \<subseteq> vouched s"
  using assms by (auto simp: unflatten_strong_def unflatten_weak_def vouched_def recorded_def)

lemma readFileDescriptor_safe: "safe s \<Longrightarrow> \<exists>r s1. readFileDescriptor s = Some (r, s1) \<and> advanced s s1"
  using readObject_safe [of s True] by (fastforce simp: readFileDescriptor_def split: option.splits)

lemma readStrongBinder_safe: "safe s \<Longrightarrow> \<exists>r s1. readStrongBinder s = Some (r, s1) \<and> advanced s s1"
  using readObject_safe [of s False] unflatten_vouched(1) advanced_effects by (fastforce simp: readStrongBinder_def split: option.splits prod.splits)

lemma readWeakBinder_safe: "safe s \<Longrightarrow> \<exists>r s1. readWeakBinder s = Some (r, s1) \<and> advanced s s1"
  using readObject_safe [of s False] unflatten_vouched(2) advanced_effects by (fastforce simp: readWeakBinder_def split: option.splits prod.splits)

lemma readParcelFileDescriptor_safe:
  assumes s: "safe s"
  shows "\<exists>fd ch s1. readParcelFileDescriptor s = Some (fd, ch, s1) \<and> advanced s s1"
proof -
  obtain w s1 where s1: "readInt32 s = Some (w, s1)" "advanced s s1" using readInt32_safe [OF s] by blast
  obtain fd s2 where s2: "readFileDescriptor s1 = Some (fd, s2)" "advanced s s2"
    using readFileDescriptor_safe [OF advanced_safe [OF s s1(2)]] advanced_trans [OF s1(2)] by blast
  obtain c s3 where s3: "readInt32 s2 = Some (c, s3)" "advanced s s3" using readInt32_safe [OF advanced_safe [OF s s2(2)]] advanced_trans [OF s2(2)] by blast
  obtain ch s4 where s4: "readFileDescriptor s3 = Some (ch, s4)" "advanced s s4"
    using readFileDescriptor_safe [OF advanced_safe [OF s s3(2)]] advanced_trans [OF s3(2)] by blast
  show ?thesis using s1 s2 s3 s4 by (simp add: readParcelFileDescriptor_def)
qed

lemma readBlob_safe:
  assumes s: "safe s"
  shows "\<exists>st b s1. readBlob map_ok len s = Some (st, b, s1) \<and> advanced s s1 \<and> (\<forall>i n. b = Some (InPlace i n) \<longrightarrow> i + unat n \<le> length (content s))"
proof -
  obtain err w s1 where s1: "readInt32_status s = Some (err, w, s1)" "advanced s s1" using readAligned_safe [OF s, of 4, where 'a = 32] by (auto simp: readInt32_status_def)
  have f1: "safe s1" by (rule advanced_safe [OF s s1(2)])
  obtain fd s2 where s2: "readFileDescriptor s1 = Some (fd, s2)" "advanced s s2" using readFileDescriptor_safe [OF f1] advanced_trans [OF s1(2)] by blast
  obtain r s3 where r: "readInplace len s1 = (r, s3)" by fastforce
  have a: "advanced s s3" "r = Some i \<Longrightarrow> i + unat len \<le> length (content s)" for i
    using advanced_trans [OF s1(2) readInplace_safe(1) [OF f1 r]] readInplace_safe(2) [OF f1 r] advanced_content [OF s1(2)] by auto
  show ?thesis using s1 s2 r a by (cases r) (auto simp: readBlob_def)
qed

section \<open>Sequences of reading operations\<close>

datatype rop = RInt32 | RInt64 | RBytes u32 | RCString | RString8 | RString16 | RStrongBinder | RWeakBinder | RFileDescriptor | RParcelFileDescriptor | RBlob bool u32
  | RInterface bool "u16 list" | RExceptionCode | RNativeHandle | RFlattenable "u8 list \<Rightarrow> s32 list \<Rightarrow> s32"

fun run_rop :: "sys \<Rightarrow> rop \<Rightarrow> pstate \<Rightarrow> pstate run" where
  "run_rop y RInt32 s = map_option snd (readInt32 s)"
| "run_rop y RInt64 s = map_option snd (readInt64 s)"
| "run_rop y (RBytes n) s = map_option (\<lambda>(err, bs, s1). s1) (parcel_read n s)"
| "run_rop y RCString s = map_option snd (readCString s)"
| "run_rop y RString8 s = map_option snd (readString8 s)"
| "run_rop y RString16 s = map_option snd (readString16 s)"
| "run_rop y RStrongBinder s = map_option snd (readStrongBinder s)"
| "run_rop y RWeakBinder s = map_option snd (readWeakBinder s)"
| "run_rop y RFileDescriptor s = map_option snd (readFileDescriptor s)"
| "run_rop y RParcelFileDescriptor s = map_option (\<lambda>(fd, ch, s1). s1) (readParcelFileDescriptor s)"
| "run_rop y (RBlob map_ok n) s = map_option (\<lambda>(st, b, s1). s1) (readBlob map_ok n s)"
| "run_rop y (RInterface oneway i) s = map_option (\<lambda>(b, p, s1). s1) (enforceInterface oneway i s)"
| "run_rop y RExceptionCode s = map_option snd (readExceptionCode s)"
| "run_rop y RNativeHandle s = map_option snd (readNativeHandle y s)"
| "run_rop y (RFlattenable f) s = map_option snd (read_flattenable y f s)"

text \<open>
  The operations that test every size they take from the data. \<open>readExceptionCode\<close>, \<open>readNativeHandle\<close> and the reading of a flattenable object do not:
  the theory \<open>Parcel_Examples\<close> has data on which they leave the memory (\<open>reply_header_escapes\<close>, \<open>native_handle_escapes\<close>, \<open>flattenable_escapes\<close>).
\<close>

fun sizes_tested :: "rop \<Rightarrow> bool" where
  "sizes_tested RExceptionCode = False"
| "sizes_tested RNativeHandle = False"
| "sizes_tested (RFlattenable f) = False"
| "sizes_tested _ = True"

lemma enforceInterface_safe:
  assumes s: "safe s"
  shows "\<exists>b p s1. enforceInterface oneway i s = Some (b, p, s1) \<and> advanced s s1"
proof -
  obtain w s1 where s1: "readInt32 s = Some (w, s1)" "advanced s s1" using readInt32_safe [OF s] by blast
  obtain us s2 where s2: "readString16 s1 = Some (us, s2)" "advanced s1 s2" using readString16_safe [OF advanced_safe [OF s s1(2)]] by blast
  show ?thesis using s1 s2 advanced_trans [OF s1(2) s2(2)] by (simp add: enforceInterface_def)
qed

lemma run_rop_safe: "safe s \<Longrightarrow> sizes_tested op \<Longrightarrow> \<exists>s1. run_rop y op s = Some s1 \<and> advanced s s1"
  using readInt32_safe [of s] readInt64_safe [of s] parcel_read_safe [of s] readCString_safe [of s] readString8_safe [of s] readString16_safe [of s]
    readStrongBinder_safe [of s] readWeakBinder_safe [of s] readFileDescriptor_safe [of s] readParcelFileDescriptor_safe [of s] readBlob_safe [of s] enforceInterface_safe [of s]
  by (cases op) (fastforce)+

text \<open>
  C18: Reading with tested sizes is safe on every input. For a parcel of a size and with a position that are multiples of four and a size below a third of the address space, whose contents and offsets are
  otherwise arbitrary, as received from another process, every sequence of reading operations, except of the three that do not test a size they read, runs to its end without touching memory outside of the
  parcel, leaves the data unchanged and ends at a position inside of it. It follows a pointer in the data, to take a reference through it, only when it is that of a local object whose place is recorded in the offsets.
\<close>

theorem parcel_reads_safe:
  assumes "safe s" and "list_all sizes_tested ops"
  shows "\<exists>s1 es. iter (run_rop y) ops s = Some s1 \<and> content s1 = content s \<and> offsets s1 = offsets s \<and> unat (mDataPos s1) \<le> unat (mDataSize s1) \<and>
    trace s1 = trace s @ es \<and> set es \<subseteq> vouched s"
proof -
  have "\<exists>s1. iter (run_rop y) ops s = Some s1 \<and> advanced s s1"
    using assms
  proof (induction ops arbitrary: s)
    case Nil
    then show ?case using advanced_refl by simp
  next
    case (Cons op ops)
    have t: "sizes_tested op" "list_all sizes_tested ops" using Cons.prems(2) by simp_all
    obtain s1 where s1: "run_rop y op s = Some s1" "advanced s s1" using run_rop_safe [OF Cons.prems(1) t(1)] by blast
    then show ?case using Cons.IH [OF advanced_safe [OF Cons.prems(1) s1(2)] t(2)] advanced_trans by fastforce
  qed
  then obtain s1 where s1: "iter (run_rop y) ops s = Some s1" "advanced s s1" by blast
  have "view s1 (unat (mDataPos s1))" by (rule safe_view [OF advanced_safe [OF assms(1) s1(2)]])
  then have "unat (mDataPos s1) \<le> unat (mDataSize s1)" using view_size [of s1] by (simp add: view_def)
  moreover have "content s1 = content s" "offsets s1 = offsets s" using s1(2) by (auto simp: advanced_def moved_simps)
  ultimately show ?thesis using s1 unfolding advanced_def by blast
qed

end
