(* ===== verification/Parcel_Examples.thy ===== *)
theory Parcel_Examples
  imports Parcel_Safety
begin

text \<open>The search for objects and failures of memory, instances of the results, and inputs on which the code leaves the memory of a parcel, loses data or frees twice.\<close>

section \<open>Search and failure\<close>

text \<open>
  The search of \<open>readObject\<close> from the hint, forward and then backward, finds an object exactly when its place is among the recorded offsets, whatever the hint
  is. An object that is not recorded is not returned, so a sender cannot forge one in plain data.
\<close>

theorem readObject_exact:
  assumes "wf_parcel s" "sorted_wrt (<) (offsets s)" "unat (mDataPos s) + 16 \<le> length (content s)" "3 * length (content s) < 2 ^ 32"
    and "nm \<or> obj_cookie (object_of s (mDataPos s)) \<noteq> 0 \<or> obj_binder (object_of s (mDataPos s)) \<noteq> 0"
  shows "\<exists>s1. readObject nm s = Some (if mDataPos s \<in> set (offsets s) then Some (object_of s (mDataPos s)) else None, s1) \<and> mDataPos s1 = mDataPos s + 16"
proof -
  have ld: "load (unat (mDataPos s)) 16 (mData s) = Some (take 16 (drop (unat (mDataPos s)) (content s)))" by (rule load_content [OF assms(1,3)])
  have "mDataPos s + 16 = of_nat (unat (mDataPos s) + 16)" by simp
  then have "unat (mDataPos s + 16) = unat (mDataPos s) + 16" using assms(3,4) unat_of_nat_u32 [of "unat (mDataPos s) + 16"] by simp
  then have le: "mDataPos s + 16 \<le> mDataSize s" using assms(1,3) by (simp add: word_le_nat_alt length_content)
  obtain r where "find_object (mObjects s) (mDataPos s) (unat (mObjectsSize s)) (unat (mNextObjectHint s)) = Some r" "r = None \<longleftrightarrow> mDataPos s \<notin> set (offsets s)"
    using find_object_offsets [OF assms(1,2)] by blast
  then show ?thesis using ld le assms(5) by (cases r) (auto simp: readObject_def object_of_def Let_def)
qed

text \<open>
  When a write needs more memory and there is none, it returns \<open>NO_MEMORY\<close>, which the parcel also remembers, and the data, the offsets and the position are what
  they were; the parcel stays usable.
\<close>

theorem write_no_memory:
  assumes "ready s" "\<not> mem_ok y (now s)" "unat (mDataCapacity s) < length (content s) + length bs" "3 * (length (content s) + length bs) < 2 ^ 32"
  shows "\<exists>s1. writeAligned y bs s = Some (NO_MEMORY, s1) \<and> ready s1 \<and> content s1 = content s \<and> offsets s1 = offsets s \<and> mError s1 = NO_MEMORY \<and> silent s s1"
proof -
  define new where "new = ((mDataSize s + of_nat (length bs)) * 3) div 2"
  have wf: "wf_parcel s" "\<not> mOwner s" "mDataPos s = mDataSize s" using assms(1) by (simp_all add: ready_def)
  have lc: "length (content s) = unat (mDataSize s)" by (rule length_content [OF wf(1)])
  have new: "unat new = 3 * (unat (mDataSize s) + length bs) div 2" unfolding new_def using assms(4) lc by (intro word_size_bound) simp
  have "unat (mDataSize s) \<le> unat (mDataCapacity s)" "unat (mDataSize s) + length bs \<le> unat new" using wf(1) by (simp_all add: wf_parcel_def new)
  then have gt: "unat (mDataSize s) < unat new" "unat (mDataCapacity s) < unat new" using assms(3) lc by linarith+
  have ge: "\<not> new \<le> mDataSize s" "\<not> new < mDataSize s" "mDataCapacity s < new" "new \<noteq> 0" using gt by (auto simp: word_le_nat_alt word_less_nat_alt)
  have "unat (mDataSize s + of_nat (length bs)) = unat (mDataSize s) + length bs" using assms(4) lc by (intro unat_pos_plus) simp
  then have "\<not> mDataPos s + of_nat (length bs) \<le> mDataCapacity s" using wf(3) assms(3) lc by (simp add: word_le_nat_alt)
  moreover have "growData y (of_nat (length bs)) s = continueWrite y new s" using ge(1) by (simp add: growData_def Let_def new_def)
  moreover have "\<exists>s1. continueWrite y new s = Some (NO_MEMORY, s1) \<and> ready s1 \<and> content s1 = content s \<and> offsets s1 = offsets s \<and> mError s1 = NO_MEMORY \<and> silent s s1"
    using wf ge assms(2) by (cases "mData s")
      (auto simp: continueWrite_def first_data_def c_malloc_def cut_objects_def resize_data_def c_realloc_def effects_def ready_def wf_parcel_def content_def offsets_def Let_def intro!: silentI(1))
  ultimately show ?thesis by (auto simp: writeAligned_def error_defs)
qed

section \<open>Instances\<close>

definition ex_sys :: sys where
  "ex_sys = \<lparr>mem_ok = \<lambda>_. True, in_place = \<lambda>_. False, junk8 = \<lambda>_ _. 0xaa, junk32 = \<lambda>_ _. 0, proxy = \<lambda>_. True, dup_fd = \<lambda>_. 5\<rparr>"

definition ex_parcel :: pstate where
  "ex_parcel = \<lparr>mError = 0, mData = Null, mDataSize = 0, mDataCapacity = 0, mDataPos = 0, mObjects = Null, mObjectsSize = 0, mObjectsCapacity = 0, mNextObjectHint = 0,
     mFdsKnown = True, mHasFds = False, mAllowFds = True, mOwner = False, gParcelGlobalAllocSize = 0, gParcelGlobalAllocCount = 0, trace = []\<rparr>"

definition ex_items :: "item list" where
  "ex_items = [I32 7, IBinder (Some (LocalBinder 4096 8192)), IStr16 [104, 105], IFd 3 True]"

lemma ex_plenty: "plenty ex_sys"
  by (simp add: plenty_def ex_sys_def)

lemma ex_ok: "ok_items ex_items"
  by (simp add: ok_items_def ex_items_def str16_bytes_def padded_def)

theorem parcel_roundtrip_witness:
  "\<exists>s1 s2. put_all (write_item ex_sys) ex_items (initState ex_parcel) = Some (NO_ERROR, s1) \<and>
     get_all read_item ex_items (setDataPosition 0 s1) = Some ([VInt 7, VRef (LocalRef 8192), VUnits [104, 105], VFd 3], s2)"
  using parcel_roundtrip [OF ex_plenty ex_ok, of ex_parcel] by (simp add: ex_items_def)

theorem parcel_transfer_witness:
  "\<exists>s1 r s2. put_all (write_item ex_sys) ex_items (initState ex_parcel) = Some (NO_ERROR, s1) \<and>
     ipcSetDataReference ex_sys (content s1) (offsets s1) (initState ex_parcel) = Some r \<and>
     get_all read_item ex_items r = Some ([VInt 7, VRef (LocalRef 8192), VUnits [104, 105], VFd 3], s2)"
  using parcel_transfer [OF ex_plenty ex_ok, of ex_parcel ex_sys ex_parcel] by (simp add: ex_items_def)

theorem parcel_references_balanced_witness:
  "\<exists>s1 s2. put_all (write_item ex_sys) ex_items (initState ex_parcel) = Some (NO_ERROR, s1) \<and> freeData ex_sys s1 = Some s2 \<and>
     (\<forall>c. net c (trace s2) = 0) \<and> closed (trace s2) = [3]"
proof -
  have "net c (trace ex_parcel) = 0" "closed (trace ex_parcel) = []" for c by (simp_all add: ex_parcel_def net_def closed_def)
  then show ?thesis using parcel_references_balanced [OF ex_plenty ex_ok, of ex_parcel] by (simp add: ex_items_def)
qed

text \<open>A received parcel of eight bytes.\<close>

definition ex_received :: pstate where
  "ex_received = ex_parcel\<lparr>mData := Mem [255, 255, 255, 127, 0, 1, 2, 3], mDataSize := 8, mDataCapacity := 8, mOwner := True\<rparr>"

lemma ex_eight: "unat (8 :: u32) = 8" "unat (16 :: u32) = 16" "unat (0 :: u32) = 0"
  by code_simp+

text \<open>A received local object, recorded at the start of the data.\<close>

definition ex_local :: pstate where
  "ex_local = ex_parcel\<lparr>mData := Mem (obj_le (obj_of BINDER_TYPE_BINDER 4096 8192)), mDataSize := 16, mDataCapacity := 16, mObjects := Mem [0], mObjectsSize := 1, mObjectsCapacity := 1, mOwner := True\<rparr>"

lemma ex_local_facts: "safe ex_local" "vouched ex_local = {Inc (Strong 8192), Inc (WeakOf 8192)}"
proof -
  have c: "content ex_local = obj_le (obj_of BINDER_TYPE_BINDER 4096 8192)" by (simp add: content_def ex_local_def ex_eight)
  have l: "length (content ex_local) = 16" by (simp add: c)
  have f: "wf_parcel ex_local" "offsets ex_local = [0]" "mDataPos ex_local = 0" by (simp_all add: wf_parcel_def offsets_def ex_local_def ex_parcel_def ex_eight)
  show "safe ex_local" using f l by (simp add: safe_def view_def)
  have "object_of ex_local 0 = obj_of BINDER_TYPE_BINDER 4096 8192" using l take_all [of "content ex_local" 16] by (simp add: object_of_def c)
  then show "vouched ex_local = {Inc (Strong 8192), Inc (WeakOf 8192)}" using f l by (auto simp: vouched_def obj_of_def BINDER_TYPE_BINDER_def BINDER_TYPE_WEAK_BINDER_def)
qed

theorem parcel_reads_safe_witness:
  "(\<exists>s1. iter (run_rop ex_sys) [RString16, RCString, RInt64, RStrongBinder, RBlob True 4] ex_received = Some s1 \<and> content s1 = [255, 255, 255, 127, 0, 1, 2, 3] \<and>
     unat (mDataPos s1) \<le> unat (mDataSize s1)) \<and>
   (\<exists>s1. iter (run_rop ex_sys) [RStrongBinder, RInt32, RString16] ex_local = Some s1 \<and> set (trace s1) \<subseteq> {Inc (Strong 8192), Inc (WeakOf 8192)}) \<and>
   map_option (\<lambda>(r, s1). (r, trace s1)) (readStrongBinder ex_local) = Some (LocalRef 8192, [Inc (Strong 8192)])"
proof (intro conjI)
  have c: "content ex_received = [255, 255, 255, 127, 0, 1, 2, 3]" by (simp add: content_def ex_received_def ex_eight)
  have "4 dvd length (content ex_received)" unfolding c by code_simp
  then have "safe ex_received" by (simp add: safe_def view_def c) (simp add: wf_parcel_def ex_received_def ex_parcel_def ex_eight)
  from parcel_reads_safe [OF this, of "[RString16, RCString, RInt64, RStrongBinder, RBlob True 4]" ex_sys]
  show "\<exists>s1. iter (run_rop ex_sys) [RString16, RCString, RInt64, RStrongBinder, RBlob True 4] ex_received = Some s1 \<and> content s1 = [255, 255, 255, 127, 0, 1, 2, 3] \<and>
     unat (mDataPos s1) \<le> unat (mDataSize s1)" unfolding c by auto
  have "trace ex_local = []" by (simp add: ex_local_def ex_parcel_def)
  then show "\<exists>s1. iter (run_rop ex_sys) [RStrongBinder, RInt32, RString16] ex_local = Some s1 \<and> set (trace s1) \<subseteq> {Inc (Strong 8192), Inc (WeakOf 8192)}"
    using parcel_reads_safe [OF ex_local_facts(1), of "[RStrongBinder, RInt32, RString16]" ex_sys] unfolding ex_local_facts(2) by auto
  show "map_option (\<lambda>(r, s1). (r, trace s1)) (readStrongBinder ex_local) = Some (LocalRef 8192, [Inc (Strong 8192)])" by code_simp
qed

definition ex_object :: flat_binder_object where
  "ex_object = obj_of BINDER_TYPE_HANDLE 9 0"

text \<open>The bytes of an object in plain data.\<close>

definition ex_forged :: pstate where
  "ex_forged = ex_parcel\<lparr>mData := Mem (obj_le ex_object), mDataSize := 16, mDataCapacity := 16\<rparr>"

theorem readObject_exact_witness: "\<exists>s1. readObject False ex_forged = Some (None, s1) \<and> mDataPos s1 = mDataPos ex_forged + 16"
proof -
  have c: "content ex_forged = obj_le ex_object" by (simp add: content_def ex_forged_def ex_eight)
  have f: "wf_parcel ex_forged" "offsets ex_forged = []" "mDataPos ex_forged = 0"
    by (simp_all add: wf_parcel_def offsets_def ex_forged_def ex_parcel_def ex_eight)
  have "object_of ex_forged 0 = ex_object" using take_all [of "obj_le ex_object" 16] by (simp add: object_of_def c)
  then show ?thesis using readObject_exact [of ex_forged False] f c by (simp add: ex_object_def obj_of_def)
qed

theorem write_no_memory_witness:
  "\<exists>s1. writeAligned (ex_sys\<lparr>mem_ok := \<lambda>_. False\<rparr>) [1, 2, 3, 4] ex_parcel = Some (NO_MEMORY, s1) \<and> ready s1 \<and> content s1 = [] \<and> mError s1 = NO_MEMORY"
proof -
  have c: "content ex_parcel = []" by (simp add: content_def ex_parcel_def)
  have "ready ex_parcel" by (simp add: ready_def wf_parcel_def ex_parcel_def)
  from write_no_memory [OF this, of "ex_sys\<lparr>mem_ok := \<lambda>_. False\<rparr>" "[1, 2, 3, 4]"] show ?thesis unfolding c by (auto simp: ex_parcel_def)
qed

section \<open>Where the code goes wrong\<close>

text \<open>Operations in sequence, for the examples; the result of the last one, and what was closed.\<close>

definition andthen :: "(s32 \<times> pstate) run \<Rightarrow> (pstate \<Rightarrow> (s32 \<times> pstate) run) \<Rightarrow> (s32 \<times> pstate) run" where
  "andthen r f = (case r of None \<Rightarrow> None | Some (_, s) \<Rightarrow> f s)"

definition ex_binder :: "pstate \<Rightarrow> (s32 \<times> pstate) run" where
  "ex_binder = writeStrongBinder ex_sys (Some (LocalBinder 4096 8192))"

text \<open>
  A position behind the end is not checked when the memory grows: the new size is computed from the size of the data, not from the position, and the write goes
  outside of the memory. The first write succeeds; the second one, at position 1000, leaves the memory.
\<close>

theorem position_overruns:
  "map_option fst (writeInt32 ex_sys 1 ex_parcel) = Some NO_ERROR \<and>
   andthen (writeInt32 ex_sys 1 ex_parcel) (\<lambda>s. writeInt32 ex_sys 2 (setDataPosition 1000 s)) = None"
  by code_simp

text \<open>The sum of position and length wraps, so that a read in front of the memory passes the test.\<close>

lemma unat_minus: "unat (-4 :: u32) = 4294967292" "unat (-3 :: u32) = 4294967293"
  using unat_of_nat_u32 [of 4294967292] unat_of_nat_u32 [of 4294967293] by simp_all

lemma readInt32_wrapped: "mDataPos s = -4 \<Longrightarrow> length (mem_list (mData s)) < 2 ^ 31 \<Longrightarrow> readInt32 s = None"
  by (cases "mData s") (simp_all add: readInt32_def readAligned_def load_def unat_minus)

lemma position_wraps: "readInt32 (setDataPosition (-4) ex_received) = None"
  by (rule readInt32_wrapped) (simp_all add: setDataPosition_def ex_received_def)

text \<open>
  Cutting the data to nothing frees the memory of the offsets but keeps the pointer and the capacity: the next object is written into freed memory.
\<close>

theorem setDataSize_dangles:
  "map_option (\<lambda>(r, s). (r, mObjects s, mObjectsCapacity s)) (andthen (ex_binder ex_parcel) (setDataSize ex_sys 0)) = Some (NO_ERROR, Dangling, 3) \<and>
   andthen (andthen (ex_binder ex_parcel) (setDataSize ex_sys 0)) ex_binder = None"
  by code_simp

text \<open>Cutting the data to one of two objects shrinks the memory of the offsets but not their capacity: the next object is written behind it.\<close>

lemma setDataSize_capacity:
  "map_option (\<lambda>(r, s). (r, mObjects s, mObjectsCapacity s)) (andthen (andthen (ex_binder ex_parcel) ex_binder) (setDataSize ex_sys 16)) = Some (NO_ERROR, Mem [0], 3) \<and>
   andthen (andthen (andthen (ex_binder ex_parcel) ex_binder) (setDataSize ex_sys 16)) (\<lambda>s. ex_binder (setDataPosition 16 s)) = None"
  by code_simp

text \<open>
  A descriptor that may not be sent is recorded before it is refused: \<open>writeDupFileDescriptor\<close> closes its duplicate, and so does the destruction of the parcel. The
  descriptor 5 is closed twice.
\<close>

theorem refused_descriptor_closed_twice:
  "map_option (\<lambda>(r, s). (r, map_option (\<lambda>t. closed (trace t)) (freeData ex_sys s))) (writeDupFileDescriptor ex_sys 3 (snd (pushAllowFds False ex_parcel))) = Some (FDS_NOT_ALLOWED, Some [5, 5])"
  by code_simp

text \<open>A write whose size overflows reports success and writes nothing.\<close>

lemma write_lost:
  "map_option (\<lambda>(r, s). (r, mDataSize s)) (andthen (writeInt64 ex_sys 1 ex_parcel) (parcel_write ex_sys [] 0xfffffff8)) = Some (NO_ERROR, 8)"
  by code_simp

text \<open>Data that does not end at a multiple of four lets \<open>readCString\<close> move behind the end, and the next call searches memory outside of the parcel.\<close>

definition ex_short :: pstate where
  "ex_short = ex_parcel\<lparr>mData := Mem [0], mDataSize := 1, mDataCapacity := 1\<rparr>"

lemma readCString_escapes: "readCString ex_short = Some (Some [], ex_short\<lparr>mDataPos := 4\<rparr>) \<and> readCString (ex_short\<lparr>mDataPos := 4\<rparr>) = None"
proof
  have "PAD_SIZE 1 = 4" by code_simp
  then show "readCString ex_short = Some (Some [], ex_short\<lparr>mDataPos := 4\<rparr>)"
    by (simp add: readCString_def ex_short_def ex_parcel_def bytes_from_def Let_def)
  show "readCString (ex_short\<lparr>mDataPos := 4\<rparr>) = None"
    by (simp add: readCString_def ex_short_def ex_parcel_def bytes_from_def Let_def unat_minus word_gt_0)
qed

text \<open>The size of a reply header comes from the sender and moves the position anywhere.\<close>

definition ex_header :: pstate where
  "ex_header = ex_parcel\<lparr>mData := Mem (to_le 4 EX_HAS_REPLY_HEADER @ to_le 4 (-8 :: u32)), mDataSize := 8, mDataCapacity := 8\<rparr>"

lemma reply_header_escapes: "\<exists>s. readExceptionCode ex_header = Some (0, s) \<and> mDataPos s = -4 \<and> readInt32 s = None"
proof -
  have c: "content ex_header = to_le 4 EX_HAS_REPLY_HEADER @ to_le 4 (-8 :: u32)" by (simp add: content_def ex_header_def ex_eight)
  have v: "view ex_header (length [])" by (simp add: view_def c) (simp add: wf_parcel_def ex_header_def ex_parcel_def ex_eight)
  have r1: "readInt32 ex_header = Some (EX_HAS_REPLY_HEADER, ex_header\<lparr>mDataPos := of_nat (length [] + 4)\<rparr>)" using readInt32_at [OF v] c by simp
  have v2: "view (ex_header\<lparr>mDataPos := 4\<rparr>) (length (to_le 4 EX_HAS_REPLY_HEADER))" using moved_view [OF movedI [of ex_header 4] v] c by simp
  have "readInt32 (ex_header\<lparr>mDataPos := 4\<rparr>) = Some (-8, ex_header\<lparr>mDataPos := 4, mDataPos := of_nat (length (to_le 4 EX_HAS_REPLY_HEADER) + 4)\<rparr>)"
    using c by (intro readInt32_at [OF v2, of _ "[]"]) (simp add: content_def)
  then have "readExceptionCode ex_header = Some (0, setDataPosition (-4) (ex_header\<lparr>mDataPos := 8\<rparr>))" using r1 by (simp add: readExceptionCode_def Let_def)
  moreover have "readInt32 (setDataPosition (-4) (ex_header\<lparr>mDataPos := 8\<rparr>)) = None" by (rule readInt32_wrapped) (simp_all add: setDataPosition_def ex_header_def)
  ultimately show ?thesis by (simp add: setDataPosition_def)
qed

text \<open>Replacing the data of a parcel with objects reads the objects through the pointer that \<open>realloc\<close> has given up.\<close>

lemma restart_uses_freed: "andthen (ex_binder ex_parcel) (setData ex_sys [1, 2, 3, 4] 4) = None"
  by code_simp

text \<open>A descriptor that cannot be duplicated does not fail \<open>readNativeHandle\<close>: the error is overwritten, and the handle contains a negative descriptor.\<close>

lemma native_handle_error_lost:
  "(let y = ex_sys\<lparr>dup_fd := \<lambda>t. if t < 4 then 5 else -24\<rparr>; h = \<lparr>version = 12, numFds = 1, numInts = 0, nh_data = [3]\<rparr> in
    map_option (\<lambda>(r, s). map_option (\<lambda>(h1, _). map_option nh_data h1) (readNativeHandle y (setDataPosition 0 s))) (writeNativeHandle y (Some h) ex_parcel) = Some (Some (Some [-24])))"
  by code_simp

text \<open>A negative number of descriptors makes \<open>readNativeHandle\<close> write in front of the numbers of the handle.\<close>

lemma native_handle_escapes:
  "readNativeHandle ex_sys (ex_parcel\<lparr>mData := Mem [255, 255, 255, 255, 1, 0, 0, 0, 7, 7, 7, 7], mDataSize := 12, mDataCapacity := 12, mOwner := True\<rparr>) = None"
  by code_simp

text \<open>The padded length of a flattenable object wraps around to 0, which passes the test; \<open>unflatten\<close> then gets the whole length.\<close>

lemma flattenable_escapes:
  "read_flattenable ex_sys f (ex_parcel\<lparr>mData := Mem [255, 255, 255, 255, 0, 0, 0, 0], mDataSize := 8, mDataCapacity := 8, mOwner := True\<rparr>) = None"
proof -
  let ?s = "ex_parcel\<lparr>mData := Mem [255, 255, 255, 255, 0, 0, 0, 0], mDataSize := 8, mDataCapacity := 8, mOwner := True\<rparr>"
  have r: "readInt32 ?s = Some (0xffffffff, ?s\<lparr>mDataPos := 4\<rparr>)" "readInt32 (?s\<lparr>mDataPos := 4\<rparr>) = Some (0, ?s\<lparr>mDataPos := 8\<rparr>)" by code_simp+
  have i: "readInplace (PAD_SIZE 0xffffffff) (?s\<lparr>mDataPos := 8\<rparr>) = (Some 8, ?s\<lparr>mDataPos := 8\<rparr>)" by code_simp
  have "load 8 (unat (0xffffffff :: u32)) (mData (?s\<lparr>mDataPos := 8\<rparr>)) = None" by (simp add: load_def)
  then show ?thesis unfolding read_flattenable_def r i by (simp add: i r)
qed

end
