(* ===== verification/Utils_RefBase.thy ===== *)
theory Utils_RefBase
  imports Utils_Errors
begin

text \<open>
  \<open>utils/RefBase.cpp\<close>: objects that are counted by strong and weak references, shared between threads. An object has two parts with lives of their own, the object itself and its counters
  (\<open>weakref_impl\<close>). Every operation is a sequence of atomic steps, each of which accesses the counters once, so that the operations of several threads can be interleaved at
  every access; the place of a thread inside of an operation is its \<open>pc\<close>. A step that touches a part after it was deleted is \<open>None\<close>. Counters are integers; their range is a
  hypothesis of the theorems. The tracing of references is compiled out (\<open>DEBUG_REFS\<close> is 0).
\<close>

section \<open>Counters\<close>

definition INITIAL_STRONG_VALUE :: int where
  "INITIAL_STRONG_VALUE = 2 ^ 28"

text \<open>\<open>extended\<close> is the flag \<open>OBJECT_LIFETIME_WEAK\<close>; \<open>base_alive\<close> and \<open>impl_alive\<close> are the lives of the two parts.\<close>

record weakref_impl =
  mStrong :: int
  mWeak :: int
  extended :: bool
  base_alive :: bool
  impl_alive :: bool

definition new_refs :: weakref_impl where
  "new_refs = \<lparr>mStrong = INITIAL_STRONG_VALUE, mWeak = 0, extended = False, base_alive = True, impl_alive = True\<rparr>"

definition extendObjectLifetime :: "bool \<Rightarrow> weakref_impl \<Rightarrow> weakref_impl" where
  "extendObjectLifetime w r = r\<lparr>extended := extended r \<or> w\<rparr>"

text \<open>An access to the counters, and a step that reads the object too: its field \<open>mRefs\<close> at the start of an operation, or its virtual functions.\<close>

definition on_impl :: "weakref_impl \<Rightarrow> 'a \<Rightarrow> 'a run" where
  "on_impl r x = (if impl_alive r then Some x else None)"

definition on_base :: "weakref_impl \<Rightarrow> 'a \<Rightarrow> 'a run" where
  "on_base r x = (if impl_alive r \<and> base_alive r then Some x else None)"

definition delete_impl :: "weakref_impl \<Rightarrow> weakref_impl run" where
  "delete_impl r = (if impl_alive r then Some (r\<lparr>impl_alive := False\<rparr>) else None)"

text \<open>\<open>delete\<close> of the object, with the destructor \<open>~RefBase\<close>.\<close>

definition delete_base :: "weakref_impl \<Rightarrow> weakref_impl run" where
  "delete_base r =
     (if impl_alive r \<and> base_alive r then
        (let r1 = r\<lparr>base_alive := False\<rparr> in
         if mStrong r = INITIAL_STRONG_VALUE then delete_impl r1
         else if extended r \<and> mWeak r = 0 then delete_impl r1
         else Some r1)
      else None)"

section \<open>Steps\<close>

datatype pc =
    Idle
  | IncStrong_weak | IncStrong_inc | IncStrong_sub | First_ref
  | Force_weak | Force_inc
  | DecStrong_dec | Last_strong | Delete_base
  | DecWeak_dec | DecWeak_last | Last_weak
  | IncWeak_inc
  | Attempt_weak | Attempt_read | Attempt_loop int | Attempt_hard int | Attempt_first int | Attempt_again | Attempt_ask | Attempt_force | Attempt_fix int
  | Fixup_read | Fixup_loop int
  | AttemptWeak_read | AttemptWeak_loop int

text \<open>What a thread has gained at the end of a step.\<close>

datatype gain = Nothing | StrongRef | WeakRef

text \<open>\<open>incStrong\<close>; \<open>forceIncStrong\<close> joins it when it got the first reference.\<close>

fun incStrong_step :: "pc \<Rightarrow> weakref_impl \<Rightarrow> (pc \<times> gain \<times> weakref_impl) run" where
  "incStrong_step IncStrong_weak r = on_base r (IncStrong_inc, Nothing, r\<lparr>mWeak := mWeak r + 1\<rparr>)"
| "incStrong_step IncStrong_inc r =
     on_impl r (if mStrong r = INITIAL_STRONG_VALUE then (IncStrong_sub, Nothing, r\<lparr>mStrong := mStrong r + 1\<rparr>) else (Idle, StrongRef, r\<lparr>mStrong := mStrong r + 1\<rparr>))"
| "incStrong_step IncStrong_sub r = on_impl r (First_ref, Nothing, r\<lparr>mStrong := mStrong r - INITIAL_STRONG_VALUE\<rparr>)"
| "incStrong_step First_ref r = on_base r (Idle, StrongRef, r)"
| "incStrong_step _ r = None"

fun forceIncStrong_step :: "pc \<Rightarrow> weakref_impl \<Rightarrow> (pc \<times> gain \<times> weakref_impl) run" where
  "forceIncStrong_step Force_weak r = on_base r (Force_inc, Nothing, r\<lparr>mWeak := mWeak r + 1\<rparr>)"
| "forceIncStrong_step Force_inc r = (let r1 = r\<lparr>mStrong := mStrong r + 1\<rparr> in
     on_impl r (if mStrong r = INITIAL_STRONG_VALUE then (IncStrong_sub, Nothing, r1)
       else if mStrong r = 0 then (First_ref, Nothing, r1)
       else (Idle, StrongRef, r1)))"
| "forceIncStrong_step _ r = None"

text \<open>\<open>decStrong\<close>, which ends with \<open>decWeak\<close>.\<close>

fun decStrong_step :: "pc \<Rightarrow> weakref_impl \<Rightarrow> (pc \<times> gain \<times> weakref_impl) run" where
  "decStrong_step DecStrong_dec r = on_base r (if mStrong r = 1 then Last_strong else DecWeak_dec, Nothing, r\<lparr>mStrong := mStrong r - 1\<rparr>)"
| "decStrong_step Last_strong r = on_base r (if extended r then DecWeak_dec else Delete_base, Nothing, r)"
| "decStrong_step Delete_base r = map_option (\<lambda>r1. (DecWeak_dec, Nothing, r1)) (delete_base r)"
| "decStrong_step _ r = None"

fun incWeak_step :: "pc \<Rightarrow> weakref_impl \<Rightarrow> (pc \<times> gain \<times> weakref_impl) run" where
  "incWeak_step IncWeak_inc r = on_impl r (Idle, WeakRef, r\<lparr>mWeak := mWeak r + 1\<rparr>)"
| "incWeak_step _ r = None"

fun decWeak_step :: "pc \<Rightarrow> weakref_impl \<Rightarrow> (pc \<times> gain \<times> weakref_impl) run" where
  "decWeak_step DecWeak_dec r =
     on_impl r (if mWeak r \<noteq> 1 then Idle else if extended r then Last_weak else DecWeak_last, Nothing, r\<lparr>mWeak := mWeak r - 1\<rparr>)"
| "decWeak_step DecWeak_last r =
     (if impl_alive r then map_option (\<lambda>r1. (Idle, Nothing, r1)) (if mStrong r = INITIAL_STRONG_VALUE then delete_base r else delete_impl r) else None)"
| "decWeak_step Last_weak r = (if impl_alive r \<and> base_alive r then map_option (\<lambda>r1. (Idle, Nothing, r1)) (if extended r then delete_base r else Some r) else None)"
| "decWeak_step _ r = None"

text \<open>\<open>attemptIncStrong\<close>; \<open>agree\<close> is what \<open>onIncStrongAttempted\<close> returns. A failed attempt ends with \<open>decWeak\<close>.\<close>

fun attemptIncStrong_step :: "bool \<Rightarrow> pc \<Rightarrow> weakref_impl \<Rightarrow> (pc \<times> gain \<times> weakref_impl) run" where
  "attemptIncStrong_step agree Attempt_weak r = on_impl r (Attempt_read, Nothing, r\<lparr>mWeak := mWeak r + 1\<rparr>)"
| "attemptIncStrong_step agree Attempt_read r = on_impl r (Attempt_loop (mStrong r), Nothing, r)"
| "attemptIncStrong_step agree (Attempt_loop cur) r =
     on_impl r (if 0 < cur \<and> cur \<noteq> INITIAL_STRONG_VALUE
       then if mStrong r = cur then (Fixup_read, Nothing, r\<lparr>mStrong := cur + 1\<rparr>) else (Attempt_read, Nothing, r)
       else (Attempt_hard cur, Nothing, r))"
| "attemptIncStrong_step agree (Attempt_hard cur) r =
     on_impl r (if extended r then Attempt_ask else if cur \<le> 0 then DecWeak_dec else Attempt_first cur, Nothing, r)"
| "attemptIncStrong_step agree (Attempt_first cur) r =
     on_impl r (if cur \<le> 0 then (DecWeak_dec, Nothing, r)
       else if mStrong r = cur then (Attempt_fix cur, Nothing, r\<lparr>mStrong := cur + 1\<rparr>)
       else (Attempt_again, Nothing, r))"
| "attemptIncStrong_step agree Attempt_again r = on_impl r (Attempt_first (mStrong r), Nothing, r)"
| "attemptIncStrong_step agree Attempt_ask r = on_base r (if agree then Attempt_force else DecWeak_dec, Nothing, r)"
| "attemptIncStrong_step agree Attempt_force r = on_impl r (Attempt_fix (mStrong r), Nothing, r\<lparr>mStrong := mStrong r + 1\<rparr>)"
| "attemptIncStrong_step agree (Attempt_fix cur) r =
     (if 0 < cur \<and> cur < INITIAL_STRONG_VALUE then on_base r (Fixup_read, Nothing, r) else on_impl r (Fixup_read, Nothing, r))"
| "attemptIncStrong_step agree Fixup_read r = on_impl r (Fixup_loop (mStrong r), Nothing, r)"
| "attemptIncStrong_step agree (Fixup_loop cur) r =
     on_impl r (if INITIAL_STRONG_VALUE \<le> cur
       then if mStrong r = cur then (Idle, StrongRef, r\<lparr>mStrong := cur - INITIAL_STRONG_VALUE\<rparr>) else (Fixup_read, Nothing, r)
       else (Idle, StrongRef, r))"
| "attemptIncStrong_step agree _ r = None"

fun attemptIncWeak_step :: "pc \<Rightarrow> weakref_impl \<Rightarrow> (pc \<times> gain \<times> weakref_impl) run" where
  "attemptIncWeak_step AttemptWeak_read r = on_impl r (AttemptWeak_loop (mWeak r), Nothing, r)"
| "attemptIncWeak_step (AttemptWeak_loop cur) r =
     on_impl r (if 0 < cur then if mWeak r = cur then (Idle, WeakRef, r\<lparr>mWeak := cur + 1\<rparr>) else (AttemptWeak_read, Nothing, r) else (Idle, Nothing, r))"
| "attemptIncWeak_step _ r = None"

definition thread_step :: "bool \<Rightarrow> pc \<Rightarrow> weakref_impl \<Rightarrow> (pc \<times> gain \<times> weakref_impl) run" where
  "thread_step agree p r =
     (case p of
        IncStrong_weak \<Rightarrow> incStrong_step p r | IncStrong_inc \<Rightarrow> incStrong_step p r | IncStrong_sub \<Rightarrow> incStrong_step p r | First_ref \<Rightarrow> incStrong_step p r
      | Force_weak \<Rightarrow> forceIncStrong_step p r | Force_inc \<Rightarrow> forceIncStrong_step p r
      | DecStrong_dec \<Rightarrow> decStrong_step p r | Last_strong \<Rightarrow> decStrong_step p r | Delete_base \<Rightarrow> decStrong_step p r
      | DecWeak_dec \<Rightarrow> decWeak_step p r | DecWeak_last \<Rightarrow> decWeak_step p r | Last_weak \<Rightarrow> decWeak_step p r
      | IncWeak_inc \<Rightarrow> incWeak_step p r
      | AttemptWeak_read \<Rightarrow> attemptIncWeak_step p r | AttemptWeak_loop _ \<Rightarrow> attemptIncWeak_step p r
      | _ \<Rightarrow> attemptIncStrong_step agree p r)"

section \<open>Threads\<close>

text \<open>A thread with the strong and the weak references that it holds.\<close>

record thread =
  at :: pc
  strongs :: nat
  weaks :: nat

datatype refop = IncStrong | ForceIncStrong | DecStrong | IncWeak | DecWeak | AttemptIncStrong | AttemptIncWeak

text \<open>
  Which operations a thread may begin: it needs a strong reference to call the object, and some reference to reach the counters; it gives up a reference when it begins
  to release it.
\<close>

fun may_begin :: "bool \<Rightarrow> refop \<Rightarrow> thread \<Rightarrow> bool" where
  "may_begin ext IncStrong t = (0 < strongs t)"
| "may_begin ext ForceIncStrong t = (0 < strongs t \<or> ext \<and> 0 < weaks t)"
| "may_begin ext DecStrong t = (0 < strongs t)"
| "may_begin ext IncWeak t = (0 < strongs t \<or> 0 < weaks t)"
| "may_begin ext DecWeak t = (0 < weaks t)"
| "may_begin ext AttemptIncStrong t = (0 < strongs t \<or> 0 < weaks t)"
| "may_begin ext AttemptIncWeak t = (0 < strongs t \<or> 0 < weaks t)"

fun begin_op :: "refop \<Rightarrow> thread \<Rightarrow> thread" where
  "begin_op IncStrong t = t\<lparr>at := IncStrong_weak\<rparr>"
| "begin_op ForceIncStrong t = t\<lparr>at := Force_weak\<rparr>"
| "begin_op DecStrong t = t\<lparr>at := DecStrong_dec, strongs := strongs t - 1\<rparr>"
| "begin_op IncWeak t = t\<lparr>at := IncWeak_inc\<rparr>"
| "begin_op DecWeak t = t\<lparr>at := DecWeak_dec, weaks := weaks t - 1\<rparr>"
| "begin_op AttemptIncStrong t = t\<lparr>at := Attempt_weak\<rparr>"
| "begin_op AttemptIncWeak t = t\<lparr>at := AttemptWeak_read\<rparr>"

fun credit :: "gain \<Rightarrow> thread \<Rightarrow> thread" where
  "credit Nothing t = t"
| "credit StrongRef t = t\<lparr>strongs := strongs t + 1\<rparr>"
| "credit WeakRef t = t\<lparr>weaks := weaks t + 1\<rparr>"

definition advance :: "bool \<Rightarrow> thread \<Rightarrow> weakref_impl \<Rightarrow> (thread \<times> weakref_impl) run" where
  "advance agree t r = map_option (\<lambda>(p, g, r1). (credit g (t\<lparr>at := p\<rparr>), r1)) (thread_step agree (at t) r)"

text \<open>A step of the system: some thread begins an operation, hands a reference over to another thread, or does one step.\<close>

type_synonym sysref = "weakref_impl \<times> thread list"

inductive ref_step :: "sysref \<Rightarrow> sysref \<Rightarrow> bool" where
  Begin: "i < length ts \<Longrightarrow> at (ts ! i) = Idle \<Longrightarrow> may_begin (extended r) op (ts ! i) \<Longrightarrow> mWeak r + int (length ts) < INITIAL_STRONG_VALUE \<Longrightarrow>
    ref_step (r, ts) (r, ts[i := begin_op op (ts ! i)])"
| Give_strong: "i < length ts \<Longrightarrow> j < length ts \<Longrightarrow> i \<noteq> j \<Longrightarrow> at (ts ! i) = Idle \<Longrightarrow> 0 < strongs (ts ! i) \<Longrightarrow>
    ref_step (r, ts) (r, ts[i := (ts ! i)\<lparr>strongs := strongs (ts ! i) - 1\<rparr>, j := (ts ! j)\<lparr>strongs := strongs (ts ! j) + 1\<rparr>])"
| Give_weak: "i < length ts \<Longrightarrow> j < length ts \<Longrightarrow> i \<noteq> j \<Longrightarrow> at (ts ! i) = Idle \<Longrightarrow> 0 < weaks (ts ! i) \<Longrightarrow>
    ref_step (r, ts) (r, ts[i := (ts ! i)\<lparr>weaks := weaks (ts ! i) - 1\<rparr>, j := (ts ! j)\<lparr>weaks := weaks (ts ! j) + 1\<rparr>])"
| Step: "i < length ts \<Longrightarrow> at (ts ! i) \<noteq> Idle \<Longrightarrow> advance agree (ts ! i) r = Some (t, r1) \<Longrightarrow> ref_step (r, ts) (r1, ts[i := t])"

text \<open>A thread that runs alone until its operation ends, and threads that run in the order of a schedule.\<close>

fun alone :: "nat \<Rightarrow> bool \<Rightarrow> thread \<Rightarrow> weakref_impl \<Rightarrow> (thread \<times> weakref_impl) run" where
  "alone fuel agree t r =
     (if at t = Idle then Some (t, r)
      else case fuel of 0 \<Rightarrow> None | Suc fuel' \<Rightarrow> (case advance agree t r of None \<Rightarrow> None | Some (t1, r1) \<Rightarrow> alone fuel' agree t1 r1))"

fun run_schedule :: "nat list \<Rightarrow> sysref \<Rightarrow> sysref run" where
  "run_schedule [] s = Some s"
| "run_schedule (i # is) (r, ts) =
     (if i < length ts then case advance True (ts ! i) r of None \<Rightarrow> None | Some (t, r1) \<Rightarrow> run_schedule is (r1, ts[i := t]) else None)"

end
