(* ===== verification/RefBase_Safety.thy ===== *)
theory RefBase_Safety
  imports Utils_RefBase
begin

text \<open>
  The invariant of the reference counts under all interleavings, once the first strong reference exists: the counters are the sums of what the threads hold and of what their
  unfinished operations account for, and each part of the object is deleted once, by one thread, when nothing can reach it any more.
\<close>

section \<open>Accounts\<close>

text \<open>What an unfinished operation accounts for in the two counters, and whether it will still increment the weak one.\<close>

fun pc_strong :: "pc \<Rightarrow> int" where
  "pc_strong First_ref = 1" | "pc_strong IncStrong_sub = 1" | "pc_strong DecStrong_dec = 1" | "pc_strong (Attempt_fix _) = 1"
| "pc_strong Fixup_read = 1" | "pc_strong (Fixup_loop _) = 1" | "pc_strong _ = 0"

fun pc_weak :: "pc \<Rightarrow> int" where
  "pc_weak Idle = 0" | "pc_weak IncStrong_weak = 0" | "pc_weak Force_weak = 0" | "pc_weak DecWeak_last = 0" | "pc_weak Last_weak = 0" | "pc_weak IncWeak_inc = 0"
| "pc_weak Attempt_weak = 0" | "pc_weak AttemptWeak_read = 0" | "pc_weak (AttemptWeak_loop _) = 0" | "pc_weak _ = 1"

fun pc_pending :: "pc \<Rightarrow> int" where
  "pc_pending IncStrong_weak = 1" | "pc_pending Force_weak = 1" | "pc_pending IncWeak_inc = 1" | "pc_pending Attempt_weak = 1"
| "pc_pending AttemptWeak_read = 1" | "pc_pending (AttemptWeak_loop _) = 1" | "pc_pending _ = 0"

text \<open>Threads that are about to delete the object, and the counters.\<close>

fun pc_last_strong :: "pc \<Rightarrow> int" where
  "pc_last_strong Last_strong = 1" | "pc_last_strong Delete_base = 1" | "pc_last_strong _ = 0"

fun pc_last_weak :: "pc \<Rightarrow> int" where
  "pc_last_weak DecWeak_last = 1" | "pc_last_weak Last_weak = 1" | "pc_last_weak _ = 0"

definition strong_of :: "thread \<Rightarrow> int" where
  "strong_of t = int (strongs t) + pc_strong (at t)"

definition weak_of :: "thread \<Rightarrow> int" where
  "weak_of t = int (strongs t) + int (weaks t) + pc_weak (at t)"

text \<open>What a thread knows at a place.\<close>

fun knows :: "bool \<Rightarrow> pc \<Rightarrow> nat \<Rightarrow> nat \<Rightarrow> bool" where
  "knows ext IncStrong_weak st wk = (0 < st)"
| "knows ext IncStrong_inc st wk = (0 < st)"
| "knows ext IncStrong_sub st wk = False"
| "knows ext First_ref st wk = ext"
| "knows ext Force_weak st wk = (0 < st \<or> ext \<and> 0 < wk)"
| "knows ext Force_inc st wk = (0 < st \<or> ext)"
| "knows ext Delete_base st wk = (\<not> ext)"
| "knows ext DecWeak_last st wk = (\<not> ext)"
| "knows ext Last_weak st wk = ext"
| "knows ext IncWeak_inc st wk = (0 < st \<or> 0 < wk)"
| "knows ext Attempt_weak st wk = (0 < st \<or> 0 < wk)"
| "knows ext (Attempt_loop cur) st wk = (cur < INITIAL_STRONG_VALUE)"
| "knows ext (Attempt_hard cur) st wk = (cur \<le> 0)"
| "knows ext (Attempt_first cur) st wk = False"
| "knows ext Attempt_again st wk = False"
| "knows ext Attempt_ask st wk = ext"
| "knows ext Attempt_force st wk = ext"
| "knows ext (Attempt_fix cur) st wk = ext"
| "knows ext (Fixup_loop cur) st wk = (cur < INITIAL_STRONG_VALUE)"
| "knows ext AttemptWeak_read st wk = (0 < st \<or> 0 < wk)"
| "knows ext (AttemptWeak_loop cur) st wk = (0 < st \<or> 0 < wk)"
| "knows ext _ st wk = True"

text \<open>The lives of the parts, with the numbers of threads that are about to delete them.\<close>

definition lives :: "weakref_impl \<Rightarrow> int \<Rightarrow> int \<Rightarrow> bool" where
  "lives r ns nw =
     ((if 0 < mWeak r then impl_alive r \<and> nw = 0 else impl_alive r \<and> nw = 1 \<or> \<not> impl_alive r \<and> nw = 0) \<and>
      (if extended r then base_alive r = impl_alive r
       else if 0 < mStrong r then base_alive r \<and> ns = 0 else base_alive r \<and> ns = 1 \<or> \<not> base_alive r \<and> ns = 0))"

text \<open>The invariant as one thread sees it, next to the sums \<open>a\<close>, \<open>b\<close>, \<open>c\<close>, \<open>d\<close>, \<open>e\<close> of all others.\<close>

definition sees :: "weakref_impl \<Rightarrow> thread \<Rightarrow> int \<Rightarrow> int \<Rightarrow> int \<Rightarrow> int \<Rightarrow> int \<Rightarrow> bool" where
  "sees r t a b c d e = (mStrong r = strong_of t + a \<and> mWeak r = weak_of t + b \<and> 0 \<le> a \<and> a \<le> b \<and> 0 \<le> c \<and> 0 \<le> d \<and> 0 \<le> e \<and>
     knows (extended r) (at t) (strongs t) (weaks t) \<and> mWeak r + pc_pending (at t) + e < INITIAL_STRONG_VALUE \<and>
     lives r (pc_last_strong (at t) + c) (pc_last_weak (at t) + d))"

lemmas step_defs_ref = advance_def thread_step_def on_impl_def on_base_def delete_base_def delete_impl_def Let_def
lemmas sees_defs = sees_def strong_of_def weak_of_def lives_def

lemma sees_step:
  assumes s: "sees r t a b c d e" and ni: "at t \<noteq> Idle"
  shows "\<exists>t' r'. advance agree t r = Some (t', r') \<and> sees r' t' a b c d e \<and> extended r' = extended r"
proof (cases "at t")
  case Idle
  then show ?thesis using ni by simp
next
  case IncStrong_weak
  then show ?thesis using s by (auto simp: step_defs_ref sees_defs split: if_splits)
next
  case IncStrong_inc
  then show ?thesis using s by (auto simp: step_defs_ref sees_defs split: if_splits)
next
  case IncStrong_sub
  then show ?thesis using s by (auto simp: step_defs_ref sees_defs split: if_splits)
next
  case First_ref
  then show ?thesis using s by (auto simp: step_defs_ref sees_defs split: if_splits)
next
  case Force_weak
  then show ?thesis using s by (auto simp: step_defs_ref sees_defs split: if_splits)
next
  case Force_inc
  then show ?thesis using s by (auto simp: step_defs_ref sees_defs split: if_splits)
next
  case DecStrong_dec
  then show ?thesis using s by (auto simp: step_defs_ref sees_defs split: if_splits)
next
  case Last_strong
  then show ?thesis using s by (auto simp: step_defs_ref sees_defs split: if_splits)
next
  case Delete_base
  then show ?thesis using s by (auto simp: step_defs_ref sees_defs split: if_splits)
next
  case DecWeak_dec
  then show ?thesis using s by (auto simp: step_defs_ref sees_defs split: if_splits)
next
  case DecWeak_last
  then show ?thesis using s by (auto simp: step_defs_ref sees_defs split: if_splits)
next
  case Last_weak
  then show ?thesis using s by (auto simp: step_defs_ref sees_defs split: if_splits)
next
  case IncWeak_inc
  then show ?thesis using s by (auto simp: step_defs_ref sees_defs split: if_splits)
next
  case Attempt_weak
  then show ?thesis using s by (auto simp: step_defs_ref sees_defs split: if_splits)
next
  case Attempt_read
  then show ?thesis using s by (auto simp: step_defs_ref sees_defs split: if_splits)
next
  case (Attempt_loop cur)
  then show ?thesis using s by (auto simp: step_defs_ref sees_defs split: if_splits)
next
  case (Attempt_hard cur)
  then show ?thesis using s by (auto simp: step_defs_ref sees_defs split: if_splits)
next
  case (Attempt_first cur)
  then show ?thesis using s by (auto simp: step_defs_ref sees_defs split: if_splits)
next
  case Attempt_again
  then show ?thesis using s by (auto simp: step_defs_ref sees_defs split: if_splits)
next
  case Attempt_ask
  then show ?thesis using s by (auto simp: step_defs_ref sees_defs split: if_splits)
next
  case Attempt_force
  then show ?thesis using s by (auto simp: step_defs_ref sees_defs split: if_splits)
next
  case (Attempt_fix cur)
  then show ?thesis using s by (auto simp: step_defs_ref sees_defs split: if_splits)
next
  case Fixup_read
  then show ?thesis using s by (auto simp: step_defs_ref sees_defs split: if_splits)
next
  case (Fixup_loop cur)
  then show ?thesis using s by (auto simp: step_defs_ref sees_defs split: if_splits)
next
  case AttemptWeak_read
  then show ?thesis using s by (auto simp: step_defs_ref sees_defs split: if_splits)
next
  case (AttemptWeak_loop cur)
  then show ?thesis using s by (auto simp: step_defs_ref sees_defs split: if_splits)
qed

section \<open>The invariant of the system\<close>

definition others :: "(thread \<Rightarrow> int) \<Rightarrow> thread list \<Rightarrow> nat \<Rightarrow> int" where
  "others f ts i = sum_list (map f ts) - f (ts ! i)"

definition pending_of :: "thread \<Rightarrow> int" where
  "pending_of t = pc_pending (at t)"

definition last_strong_of :: "thread \<Rightarrow> int" where
  "last_strong_of t = pc_last_strong (at t)"

definition last_weak_of :: "thread \<Rightarrow> int" where
  "last_weak_of t = pc_last_weak (at t)"

definition knowing :: "bool \<Rightarrow> thread \<Rightarrow> bool" where
  "knowing ext t = knows ext (at t) (strongs t) (weaks t)"

fun ref_inv :: "sysref \<Rightarrow> bool" where
  "ref_inv (r, ts) = (mStrong r = sum_list (map strong_of ts) \<and> mWeak r = sum_list (map weak_of ts) \<and> list_all (knowing (extended r)) ts \<and>
     mWeak r + sum_list (map pending_of ts) < INITIAL_STRONG_VALUE \<and> lives r (sum_list (map last_strong_of ts)) (sum_list (map last_weak_of ts)))"

lemma pc_strong_weak: "0 \<le> pc_strong p \<and> pc_strong p \<le> pc_weak p \<and> pc_weak p \<le> 1"
  by (cases p) auto

lemma pc_flags [simp]: "0 \<le> pc_pending p" "pc_pending p \<le> 1" "0 \<le> pc_last_strong p" "0 \<le> pc_last_weak p"
  by (cases p; simp)+

lemma accounts_nonneg [simp]:
  "0 \<le> strong_of t" "strong_of t \<le> weak_of t" "0 \<le> weak_of t" "0 \<le> pending_of t" "0 \<le> last_strong_of t" "0 \<le> last_weak_of t" "pending_of t \<le> 1"
  using pc_strong_weak [of "at t"] pc_flags [of "at t"]
  by (auto simp: strong_of_def weak_of_def pending_of_def last_strong_of_def last_weak_of_def)

lemma sum_update: "i < length ts \<Longrightarrow> sum_list (map f (ts[i := t])) = f t + others f ts i"
  by (induction ts arbitrary: i) (auto simp: others_def split: nat.split)

lemma sum_focus: "sum_list (map f ts) = f (ts ! i) + others f ts i"
  by (simp add: others_def)

lemma others_Cons [simp]: "others f (t # ts) 0 = sum_list (map f ts)" "others f (t # ts) (Suc i) = f t + others f ts i"
  by (simp_all add: others_def)

lemma others_mono:
  assumes "i < length ts" "\<And>t. f t \<le> g t"
  shows "others f ts i \<le> others g ts i"
  using assms(1)
proof (induction ts arbitrary: i)
  case (Cons t ts)
  then show ?case by (cases i) (auto simp: assms(2) intro: add_mono sum_list_mono)
qed simp

lemma others_nonneg: "i < length ts \<Longrightarrow> (\<And>t. 0 \<le> f t) \<Longrightarrow> 0 \<le> others f ts i"
  using others_mono [of i ts "\<lambda>_. 0" f] by (simp add: others_def)

text \<open>A thread sees the invariant, and a change of one thread that it sees keeps it.\<close>

lemma ref_inv_focus:
  assumes "ref_inv (r, ts)" "i < length ts"
  shows "sees r (ts ! i) (others strong_of ts i) (others weak_of ts i) (others last_strong_of ts i) (others last_weak_of ts i) (others pending_of ts i)"
proof -
  have "knowing (extended r) (ts ! i)"
    using assms by (simp add: list_all_length)
  then show ?thesis
    using assms others_mono [OF assms(2), of strong_of weak_of]
      others_nonneg [OF assms(2), of strong_of] others_nonneg [OF assms(2), of pending_of] others_nonneg [OF assms(2), of last_strong_of] others_nonneg [OF assms(2), of last_weak_of]
    by (simp add: sees_def knowing_def sum_focus [of _ ts i] pending_of_def last_strong_of_def last_weak_of_def)
qed

lemma ref_inv_update:
  assumes "ref_inv (r, ts)" "i < length ts" "extended r' = extended r"
    "sees r' t' (others strong_of ts i) (others weak_of ts i) (others last_strong_of ts i) (others last_weak_of ts i) (others pending_of ts i)"
  shows "ref_inv (r', ts[i := t'])"
proof -
  have "list_all (knowing (extended r')) (ts[i := t'])"
    using assms by (auto simp: list_all_length nth_list_update sees_def knowing_def)
  then show ?thesis
    using assms(4) by (simp add: sum_update assms(2) sees_def pending_of_def last_strong_of_def last_weak_of_def algebra_simps)
qed

section \<open>Preservation\<close>

lemma others_pending_bound: "i < length ts \<Longrightarrow> others pending_of ts i + 1 \<le> int (length ts)"
  using others_mono [of i ts pending_of "\<lambda>_. 1"] by (simp add: others_def sum_list_triv)

lemma sees_begin:
  assumes "sees r t a b c d e" "at t = Idle" "may_begin (extended r) op t" "mWeak r + 1 + e < INITIAL_STRONG_VALUE"
  shows "sees r (begin_op op t) a b c d e"
  using assms by (cases op) (auto simp: sees_defs of_nat_diff)

lemma knows_mono: "knows ext p st wk \<Longrightarrow> st \<le> st' \<Longrightarrow> wk \<le> wk' \<Longrightarrow> knows ext p st' wk'"
  by (cases p) auto

lemma sum_move:
  assumes "i < length ts" "j < length ts" "i \<noteq> j" "f x + f y = f (ts ! i) + f (ts ! j)"
  shows "sum_list (map f (ts[i := x, j := y :: thread])) = (sum_list (map f ts) :: int)"
  using assms sum_update [of j "ts[i := x]" f y] sum_update [of i ts f x] by (simp add: others_def)

lemma ref_inv_move:
  assumes inv: "ref_inv (r, ts)" and ij: "i < length ts" "j < length ts" "i \<noteq> j"
    and places: "at x = at (ts ! i)" "at y = at (ts ! j)" "at x = Idle" "strongs (ts ! j) \<le> strongs y" "weaks (ts ! j) \<le> weaks y"
    and counts: "strongs x + strongs y = strongs (ts ! i) + strongs (ts ! j)" "weaks x + weaks y = weaks (ts ! i) + weaks (ts ! j)"
  shows "ref_inv (r, ts[i := x, j := y])"
proof -
  have eqs: "strong_of x + strong_of y = strong_of (ts ! i) + strong_of (ts ! j)" "weak_of x + weak_of y = weak_of (ts ! i) + weak_of (ts ! j)"
    using places counts by (simp_all add: strong_of_def weak_of_def)
  have "knowing (extended r) y"
    using inv ij(2) places by (auto simp: list_all_length knowing_def intro: knows_mono)
  moreover have "knowing (extended r) x"
    using places by (simp add: knowing_def)
  ultimately have "list_all (knowing (extended r)) (ts[i := x, j := y])"
    using inv ij by (auto simp: list_all_length nth_list_update)
  then show ?thesis
    using inv ij eqs places by (simp add: sum_move pending_of_def last_strong_of_def last_weak_of_def)
qed

lemma ref_inv_step: "ref_step s s' \<Longrightarrow> ref_inv s \<Longrightarrow> ref_inv s'"
proof (induction rule: ref_step.induct)
  case (Begin i ts r op)
  then have "sees r (begin_op op (ts ! i)) (others strong_of ts i) (others weak_of ts i) (others last_strong_of ts i) (others last_weak_of ts i) (others pending_of ts i)"
    using others_pending_bound [of i ts] by (intro sees_begin ref_inv_focus) auto
  then show ?case using Begin by (intro ref_inv_update) auto
next
  case (Give_strong i ts j r)
  then show ?case by (intro ref_inv_move) auto
next
  case (Give_weak i ts j r)
  then show ?case by (intro ref_inv_move) auto
next
  case (Step i ts agree r t r1)
  from sees_step [OF ref_inv_focus [OF Step(4) Step(1)] Step(2), of agree] Step(3)
  have "sees r1 t (others strong_of ts i) (others weak_of ts i) (others last_strong_of ts i) (others last_weak_of ts i) (others pending_of ts i)" "extended r1 = extended r"
    by auto
  then show ?case using Step(1,4) by (intro ref_inv_update)
qed

lemma ref_inv_reachable: "ref_step\<^sup>*\<^sup>* s s' \<Longrightarrow> ref_inv s \<Longrightarrow> ref_inv s'"
  by (induction rule: rtranclp_induct) (auto intro: ref_inv_step)

end
