(* ===== verification/Record_Stream.thy ===== *)
theory Record_Stream
  imports Parcel_Codec "HOL-Library.Sublist"
begin

text \<open>
  \<open>cutils/record_stream.c\<close>: records with a length in front of them, read from a descriptor through one buffer. Pointers are 32-bit addresses, because the code computes the end of a record from a length
  that the other side chose; the buffer is its address and its bytes. What a call of \<open>read\<close> finds is an argument: the bytes that are still to come and how many of them have arrived, or a failure.
\<close>

section \<open>The stream\<close>

definition HEADER_SIZE :: u32 where
  "HEADER_SIZE = 4"

record RecordStream =
  maxRecordLen :: u32
  buffer_ptr :: u32
  buffer_mem :: "u8 list"
  unconsumed :: u32
  read_end :: u32
  buffer_end :: u32

text \<open>\<open>addr\<close> and \<open>junk\<close> are the address and the contents that \<open>malloc\<close> gives.\<close>

definition record_stream_new :: "u32 \<Rightarrow> u8 list \<Rightarrow> u32 \<Rightarrow> RecordStream run" where
  "record_stream_new addr junk maxLen =
     (if maxLen \<le> 0xffff then
        Some \<lparr>maxRecordLen = maxLen, buffer_ptr = addr, buffer_mem = junk, unconsumed = addr, read_end = addr, buffer_end = addr + maxLen + HEADER_SIZE\<rparr>
      else None)"

definition bytes_at :: "RecordStream \<Rightarrow> u32 \<Rightarrow> nat \<Rightarrow> u8 list run" where
  "bytes_at s p n = (let i = unat (p - buffer_ptr s) in if i + n \<le> length (buffer_mem s) then Some (take n (drop i (buffer_mem s))) else None)"

definition put_at :: "u32 \<Rightarrow> u8 list \<Rightarrow> RecordStream \<Rightarrow> RecordStream run" where
  "put_at p bs s = (let i = unat (p - buffer_ptr s) in
     if i + length bs \<le> length (buffer_mem s)
     then Some (s\<lparr>buffer_mem := take i (buffer_mem s) @ bs @ drop (i + length bs) (buffer_mem s)\<rparr>) else None)"

text \<open>The null pointer is 0.\<close>

definition getEndOfRecord :: "RecordStream \<Rightarrow> u32 \<Rightarrow> u32 \<Rightarrow> u32 run" where
  "getEndOfRecord s p_begin p_end =
     (if p_end < p_begin + HEADER_SIZE then Some 0
      else do {
        h \<leftarrow> bytes_at s p_begin 4;
        let p_ret = p_begin + HEADER_SIZE + from_le (rev h);
        Some (if p_end < p_ret then 0 else p_ret) })"

definition getNextRecord :: "RecordStream \<Rightarrow> (u32 \<times> u32 \<times> RecordStream) run" where
  "getNextRecord s = do {
     record_end \<leftarrow> getEndOfRecord s (unconsumed s) (read_end s);
     if record_end \<noteq> 0
     then let record_start = unconsumed s + HEADER_SIZE in Some (record_start, record_end - record_start, s\<lparr>unconsumed := record_end\<rparr>)
     else Some (0, 0, s) }"

text \<open>The part that moves what is left over to the front of the buffer.\<close>

definition move_remainder :: "RecordStream \<Rightarrow> RecordStream run" where
  "move_remainder s =
     (if unconsumed s \<noteq> buffer_ptr s then do {
        let toMove = read_end s - unconsumed s;
        s1 \<leftarrow> if toMove \<noteq> 0 then do { bs \<leftarrow> bytes_at s (unconsumed s) (unat toMove); put_at (buffer_ptr s) bs s } else Some s;
        Some (s1\<lparr>read_end := buffer_ptr s1 + toMove, unconsumed := buffer_ptr s1\<rparr>) }
      else Some s)"

datatype arrival = Arrives nat | Fails
datatype record_result = Record u32 u32 | End_of_stream | Read_error | Try_again

text \<open>\<open>read\<close> returns at least one byte while there are any, and no more than it was asked for.\<close>

definition read_bytes :: "nat \<Rightarrow> nat \<Rightarrow> u8 list \<Rightarrow> u8 list" where
  "read_bytes k room inp = take (min (Suc k) room) inp"

definition record_stream_get_next :: "arrival \<Rightarrow> u8 list \<Rightarrow> RecordStream \<Rightarrow> (record_result \<times> u8 list \<times> RecordStream) run" where
  "record_stream_get_next arr inp s = do {
     (ret, len, s1) \<leftarrow> getNextRecord s;
     if ret \<noteq> 0 then Some (Record ret len, inp, s1)
     else if unconsumed s1 = buffer_ptr s1 \<and> read_end s1 = buffer_end s1 then None
     else do {
       s2 \<leftarrow> move_remainder s1;
       case arr of
         Fails \<Rightarrow> Some (Read_error, inp, s2)
       | Arrives k \<Rightarrow> (let bs = read_bytes k (unat (buffer_end s2 - read_end s2)) inp in
           if bs = [] then Some (End_of_stream, inp, s2)
           else do {
             s3 \<leftarrow> put_at (read_end s2) bs s2;
             (ret1, len1, s4) \<leftarrow> getNextRecord (s3\<lparr>read_end := read_end s3 + of_nat (length bs)\<rparr>);
             Some (if ret1 = 0 then Try_again else Record ret1 len1, drop (length bs) inp, s4) }) } }"

text \<open>A client that calls it again and again and copies each record out of the buffer.\<close>

fun drain :: "arrival list \<Rightarrow> u8 list \<Rightarrow> RecordStream \<Rightarrow> (u8 list list \<times> u8 list \<times> RecordStream) run" where
  "drain [] inp s = Some ([], inp, s)"
| "drain (a # as) inp s = do {
     (res, inp1, s1) \<leftarrow> record_stream_get_next a inp s;
     here \<leftarrow> (case res of Record p n \<Rightarrow> map_option (\<lambda>r. [r]) (bytes_at s1 p (unat n)) | _ \<Rightarrow> Some []);
     (rs, inp2, s2) \<leftarrow> drain as inp1 s1;
     Some (here @ rs, inp2, s2) }"

text \<open>The form in which records are sent.\<close>

definition frame :: "u8 list \<Rightarrow> u8 list" where
  "frame r = rev (to_le 4 (of_nat (length r) :: u32)) @ r"

section \<open>The buffer as bytes that wait\<close>

text \<open>The bytes \<open>pend\<close> wait in the buffer from offset \<open>off\<close> on.\<close>

definition waits :: "RecordStream \<Rightarrow> nat \<Rightarrow> u8 list \<Rightarrow> bool" where
  "waits s off pend \<longleftrightarrow> 0 < unat (buffer_ptr s) \<and> unat (buffer_ptr s) + 2 * length (buffer_mem s) < 2 ^ 32 \<and> buffer_end s = buffer_ptr s + of_nat (length (buffer_mem s)) \<and>
     unconsumed s = buffer_ptr s + of_nat off \<and> read_end s = buffer_ptr s + of_nat (off + length pend) \<and> off + length pend \<le> length (buffer_mem s) \<and>
     take (length pend) (drop off (buffer_mem s)) = pend"

lemma unat_ptr: "unat (p :: u32) + k < 2 ^ 32 \<Longrightarrow> unat (p + of_nat k) = unat p + k"
  by (simp add: unat_word_ariths unat_of_nat_u32)

lemma ptr_less: "unat (p :: u32) + i < 2 ^ 32 \<Longrightarrow> unat p + j < 2 ^ 32 \<Longrightarrow> p + of_nat i < p + of_nat j \<longleftrightarrow> i < j"
  by (simp add: word_less_nat_alt unat_ptr)

lemma ptr_eq: "unat (p :: u32) + i < 2 ^ 32 \<Longrightarrow> unat p + j < 2 ^ 32 \<Longrightarrow> p + of_nat i = p + of_nat j \<longleftrightarrow> i = j"
  by (metis unat_ptr add_left_cancel)

lemma unat_offset: "unat (p :: u32) + k < 2 ^ 32 \<Longrightarrow> unat (p + of_nat k - p) = k"
  by (simp add: unat_of_nat_u32)

lemma bytes_at_off: "unat (buffer_ptr s) + i < 2 ^ 32 \<Longrightarrow> i + n \<le> length (buffer_mem s) \<Longrightarrow> bytes_at s (buffer_ptr s + of_nat i) n = Some (take n (drop i (buffer_mem s)))"
  by (simp add: bytes_at_def unat_of_nat_u32)

lemma put_at_off: "unat (buffer_ptr s) + i < 2 ^ 32 \<Longrightarrow> i + length bs \<le> length (buffer_mem s) \<Longrightarrow>
    put_at (buffer_ptr s + of_nat i) bs s = Some (s\<lparr>buffer_mem := take i (buffer_mem s) @ bs @ drop (i + length bs) (buffer_mem s)\<rparr>)"
  by (simp add: put_at_def unat_of_nat_u32)

lemma length_frame [simp]: "length (frame r) = 4 + length r"
  by (simp add: frame_def)

lemma frame_header: "length r < 2 ^ 32 \<Longrightarrow> 4 \<le> length pend \<Longrightarrow> pend @ inp = frame r @ rest \<Longrightarrow> from_le (rev (take 4 pend)) = (of_nat (length r) :: u32)"
proof -
  assume l: "4 \<le> length pend" and e: "pend @ inp = frame r @ rest"
  from arg_cong [OF e, of "take 4"] l have "take 4 pend = rev (to_le 4 (of_nat (length r) :: u32))"
    by (simp add: frame_def)
  then show ?thesis by simp
qed

lemma getNext_frame:
  assumes w: "waits s off pend" and e: "pend @ inp = frame r @ rest" and l: "length r + 4 \<le> length (buffer_mem s)"
  shows "getNextRecord s =
    Some (if length (frame r) \<le> length pend
          then (buffer_ptr s + of_nat (off + 4), of_nat (length r), s\<lparr>unconsumed := buffer_ptr s + of_nat (off + 4 + length r)\<rparr>) else (0, 0, s))"
proof -
  let ?b = "buffer_ptr s"
  have fits: "unat ?b + (off + 4 + length r) < 2 ^ 32" "unat ?b + (off + length pend) < 2 ^ 32"
    using w l by (auto simp: waits_def)
  have hdr: "unconsumed s + HEADER_SIZE = ?b + of_nat (off + 4)"
    using w by (simp add: waits_def HEADER_SIZE_def)
  have nz: "?b + of_nat (off + 4 + length r) \<noteq> 0"
    using unat_ptr [OF fits(1)] w by (metis add_gr_0 unat_0 waits_def less_irrefl)
  show ?thesis
  proof (cases "length pend < 4")
    case True
    have "read_end s < unconsumed s + HEADER_SIZE"
      unfolding hdr using w fits True ptr_less [of ?b "off + length pend" "off + 4"] by (simp add: waits_def)
    then show ?thesis using True by (simp add: getNextRecord_def getEndOfRecord_def)
  next
    case False
    have nl: "\<not> read_end s < unconsumed s + HEADER_SIZE"
      unfolding hdr using w fits False ptr_less [of ?b "off + length pend" "off + 4"] by (simp add: waits_def)
    have "take 4 (take (length pend) (drop off (buffer_mem s))) = take 4 (drop off (buffer_mem s))"
      using False by simp
    then have "take 4 (drop off (buffer_mem s)) = take 4 pend"
      using w by (simp only: waits_def)
    then have "bytes_at s (unconsumed s) 4 = Some (take 4 pend)"
      using w False fits bytes_at_off [of s off 4] by (simp add: waits_def)
    moreover have "from_le (rev (take 4 pend)) = (of_nat (length r) :: u32)"
      using False e fits by (intro frame_header) auto
    moreover have "read_end s < ?b + of_nat (off + 4 + length r) \<longleftrightarrow> length pend < 4 + length r"
      using w fits ptr_less [of ?b "off + length pend" "off + 4 + length r"] by (simp add: waits_def)
    ultimately show ?thesis
      using nl nz unfolding getNextRecord_def getEndOfRecord_def hdr by (auto simp: algebra_simps)
  qed
qed

section \<open>One call\<close>

lemma waits_consume:
  assumes "waits s off pend" "k \<le> length pend"
  shows "waits (s\<lparr>unconsumed := buffer_ptr s + of_nat (off + k)\<rparr>) (off + k) (drop k pend)"
proof -
  have "take (length pend - k) (drop (off + k) (buffer_mem s)) = drop k (take (length pend) (drop off (buffer_mem s)))"
    by (simp add: drop_take add.commute)
  then show ?thesis using assms by (simp add: waits_def)
qed

lemma waits_move:
  assumes "waits s off pend"
  shows "\<exists>s'. move_remainder s = Some s' \<and> waits s' 0 pend \<and> length (buffer_mem s') = length (buffer_mem s)"
proof (cases "off = 0")
  case True
  then show ?thesis using assms by (simp add: move_remainder_def waits_def)
next
  case False
  have un: "unconsumed s \<noteq> buffer_ptr s"
    using assms False ptr_eq [of "buffer_ptr s" off 0] by (auto simp: waits_def)
  have mv: "read_end s - unconsumed s = of_nat (length pend)" "unat (of_nat (length pend) :: u32) = length pend"
    using assms by (simp_all add: waits_def unat_of_nat_u32)
  have bs: "bytes_at s (unconsumed s) (length pend) = Some pend"
    using assms bytes_at_off [of s off "length pend"] by (simp add: waits_def)
  have put: "put_at (buffer_ptr s) pend s = Some (s\<lparr>buffer_mem := pend @ drop (length pend) (buffer_mem s)\<rparr>)"
    using assms put_at_off [of s 0 pend] by (simp add: waits_def)
  show ?thesis
  proof (cases "pend = []")
    case True
    then show ?thesis using assms un mv by (simp add: move_remainder_def waits_def)
  next
    case ne: False
    then have "(of_nat (length pend) :: u32) \<noteq> 0"
      using mv(2) by (metis length_0_conv unat_0)
    then show ?thesis using assms un mv bs put by (simp add: move_remainder_def waits_def)
  qed
qed

lemma waits_arrive:
  assumes "waits s 0 pend" "length pend + length bs \<le> length (buffer_mem s)"
  shows "\<exists>s'. put_at (read_end s) bs s = Some s' \<and> waits (s'\<lparr>read_end := read_end s' + of_nat (length bs)\<rparr>) 0 (pend @ bs) \<and> length (buffer_mem s') = length (buffer_mem s)"
proof -
  have "put_at (read_end s) bs s = Some (s\<lparr>buffer_mem := take (length pend) (buffer_mem s) @ bs @ drop (length pend + length bs) (buffer_mem s)\<rparr>)"
    using assms put_at_off [of s "length pend" bs] by (simp add: waits_def)
  then show ?thesis using assms by (auto simp: waits_def)
qed

lemma room_left:
  assumes "waits s 0 pend"
  shows "unat (buffer_end s - read_end s) = length (buffer_mem s) - length pend"
proof -
  have eq: "buffer_end s - read_end s = of_nat (length (buffer_mem s) - length pend)"
    using assms by (simp add: waits_def of_nat_diff)
  have "length (buffer_mem s) - length pend < 2 ^ 32"
    using assms unfolding waits_def by linarith
  then show ?thesis unfolding eq by (rule unat_of_nat_u32)
qed

text \<open>A record that is complete in the buffer is returned, otherwise nothing changes.\<close>

lemma getNext_complete:
  assumes w: "waits s off pend" and e: "pend = frame r @ rest"
  shows "\<exists>s'. getNextRecord s = Some (buffer_ptr s + of_nat (off + 4), of_nat (length r), s') \<and> buffer_ptr s + of_nat (off + 4) \<noteq> 0 \<and> waits s' (off + 4 + length r) rest \<and>
    bytes_at s' (buffer_ptr s + of_nat (off + 4)) (unat (of_nat (length r) :: u32)) = Some r \<and> buffer_mem s' = buffer_mem s"
proof -
  let ?s' = "s\<lparr>unconsumed := buffer_ptr s + of_nat (off + 4 + length r)\<rparr>"
  have l: "length r + 4 \<le> length (buffer_mem s)" "off + (4 + length r) \<le> length (buffer_mem s)"
    using w e by (auto simp: waits_def)
  then have nxt: "getNextRecord s = Some (buffer_ptr s + of_nat (off + 4), of_nat (length r), ?s')"
    using getNext_frame [of s off pend "[]" r rest] w e by simp
  have nz: "buffer_ptr s + of_nat (off + 4) \<noteq> 0"
    using w l unat_ptr [of "buffer_ptr s" "off + 4"] by (auto simp: waits_def)
  have "waits ?s' (off + (4 + length r)) (drop (4 + length r) pend)"
    using waits_consume [OF w, of "4 + length r"] e by (simp add: add.assoc)
  then have wr: "waits ?s' (off + 4 + length r) rest"
    using e by (simp add: add.assoc)
  have "take (length r) (drop 4 (take (length pend) (drop off (buffer_mem s)))) = r"
    using w e by (simp only: waits_def) (simp add: frame_def)
  then have "take (length r) (drop (off + 4) (buffer_mem s)) = r"
    using e by (simp add: drop_take add.commute)
  then have "bytes_at ?s' (buffer_ptr s + of_nat (off + 4)) (length r) = Some r"
    using bytes_at_off [of ?s' "off + 4" "length r"] w l by (simp add: waits_def)
  moreover have "unat (of_nat (length r) :: u32) = length r"
    using w l by (intro unat_of_nat_u32) (simp add: waits_def)
  ultimately show ?thesis using nxt nz wr by simp
qed

lemma getNext_partial:
  assumes "waits s off pend" "pend @ inp = frame r @ rest" "length r + 4 \<le> length (buffer_mem s)" "length pend < length (frame r)"
  shows "getNextRecord s = Some (0, 0, s)"
  using getNext_frame [OF assms(1,2,3)] assms(4) by simp

lemma getNext_empty: "waits s off [] \<Longrightarrow> 4 \<le> length (buffer_mem s) \<Longrightarrow> getNextRecord s = Some (0, 0, s)"
  by (rule getNext_partial [of s off "[]" "frame []" "[]" "[]"]) simp_all

text \<open>The records that are still to be delivered, out of the buffer and of what is still to come.\<close>

definition carries :: "RecordStream \<Rightarrow> nat \<Rightarrow> u8 list \<Rightarrow> u8 list \<Rightarrow> u8 list list \<Rightarrow> bool" where
  "carries s off pend inp rs \<longleftrightarrow> waits s off pend \<and> pend @ inp = concat (map frame rs) \<and> 4 \<le> length (buffer_mem s) \<and> list_all (\<lambda>r. length r + 4 \<le> length (buffer_mem s)) rs"

definition delivers :: "u8 list \<Rightarrow> u8 list list \<Rightarrow> u32 \<Rightarrow> u32 \<Rightarrow> RecordStream \<Rightarrow> bool" where
  "delivers inp rs p n s' \<longleftrightarrow> (\<exists>r rs' off' pend'. rs = r # rs' \<and> p \<noteq> 0 \<and> bytes_at s' p (unat n) = Some r \<and> carries s' off' pend' inp rs')"

lemma append_split:
  assumes "xs @ ys = us @ vs" "length us \<le> length xs"
  shows "\<exists>zs. xs = us @ zs \<and> zs @ ys = vs"
proof -
  from arg_cong [OF assms(1), of "take (length us)"] assms(2) have "take (length us) xs = us" by simp
  moreover from arg_cong [OF assms(1), of "drop (length us)"] assms(2) have "drop (length us) xs @ ys = vs" by simp
  ultimately show ?thesis by (metis append_take_drop_id)
qed

lemma read_bytes_prefix: "read_bytes k room inp @ drop (length (read_bytes k room inp)) inp = inp" "length (read_bytes k room inp) \<le> room"
  by (auto simp: read_bytes_def min_def)

lemma next_or_wait:
  assumes c: "carries s off pend inp rs"
  shows "(\<exists>p n s'. getNextRecord s = Some (p, n, s') \<and> p \<noteq> 0 \<and> delivers inp rs p n s') \<or>
    getNextRecord s = Some (0, 0, s) \<and> length pend < length (buffer_mem s) \<and> (inp = [] \<longrightarrow> rs = [])"
proof (cases rs)
  case Nil
  then show ?thesis using c getNext_empty [of s off] by (auto simp: carries_def)
next
  case (Cons r rs')
  have w: "waits s off pend" and e: "pend @ inp = frame r @ concat (map frame rs')" and l: "length r + 4 \<le> length (buffer_mem s)"
    using c Cons by (auto simp: carries_def)
  show ?thesis
  proof (cases "length (frame r) \<le> length pend")
    case True
    then obtain rest where p: "pend = frame r @ rest" and r: "rest @ inp = concat (map frame rs')"
      using append_split [OF e True] by blast
    obtain s' where s': "getNextRecord s = Some (buffer_ptr s + of_nat (off + 4), of_nat (length r), s')" "buffer_ptr s + of_nat (off + 4) \<noteq> 0"
        "waits s' (off + 4 + length r) rest" "bytes_at s' (buffer_ptr s + of_nat (off + 4)) (unat (of_nat (length r) :: u32)) = Some r" "buffer_mem s' = buffer_mem s"
      using getNext_complete [OF w p] by blast
    have "carries s' (off + 4 + length r) rest inp rs'"
      using c Cons s' r by (simp add: carries_def)
    then have "delivers inp rs (buffer_ptr s + of_nat (off + 4)) (of_nat (length r)) s'"
      using s' Cons by (auto simp: delivers_def)
    then show ?thesis using s'(1,2) by blast
  next
    case False
    then have "getNextRecord s = Some (0, 0, s)"
      using getNext_partial [OF w e l] by simp
    moreover have "inp \<noteq> []"
      using e False by auto
    ultimately show ?thesis using False l by auto
  qed
qed

lemma get_next_delivers:
  assumes c: "carries s off pend inp rs"
  shows "\<exists>res inp' s'. record_stream_get_next a inp s = Some (res, inp', s') \<and> length inp' \<le> length inp \<and>
    ((\<exists>p n. res = Record p n \<and> delivers inp' rs p n s') \<or>
     (\<exists>off' pend'. carries s' off' pend' inp' rs) \<and> (res = Read_error \<and> a = Fails \<or> res = Try_again \<and> length inp' < length inp \<or> res = End_of_stream \<and> rs = []))"
  using next_or_wait [OF c]
proof (elim disjE exE conjE)
  fix p n s' assume "getNextRecord s = Some (p, n, s')" "p \<noteq> 0" "delivers inp rs p n s'"
  then show ?thesis by (auto simp: record_stream_get_next_def)
next
  assume nx: "getNextRecord s = Some (0, 0, s)" and part: "length pend < length (buffer_mem s)" and last: "inp = [] \<longrightarrow> rs = []"
  have w: "waits s off pend" using c by (simp add: carries_def)
  have not_full: "\<not> (unconsumed s = buffer_ptr s \<and> read_end s = buffer_end s)"
  proof
    assume full: "unconsumed s = buffer_ptr s \<and> read_end s = buffer_end s"
    then have "off = 0" using w ptr_eq [of "buffer_ptr s" off 0] by (auto simp: waits_def)
    moreover have "buffer_ptr s + of_nat (off + length pend) = buffer_ptr s + of_nat (length (buffer_mem s))"
      using full w unfolding waits_def by metis
    then have "off + length pend = length (buffer_mem s)"
      using w ptr_eq [of "buffer_ptr s" "off + length pend" "length (buffer_mem s)"] unfolding waits_def by linarith
    ultimately show False using part by simp
  qed
  obtain s2 where s2: "move_remainder s = Some s2" "waits s2 0 pend" "length (buffer_mem s2) = length (buffer_mem s)"
    using waits_move [OF w] by blast
  then have c2: "carries s2 0 pend inp rs" using c by (simp add: carries_def)
  show ?thesis
  proof (cases a)
    case Fails
    then show ?thesis using nx not_full s2 c2 by (auto simp: record_stream_get_next_def)
  next
    case (Arrives k)
    define bs where "bs = read_bytes k (unat (buffer_end s2 - read_end s2)) inp"
    show ?thesis
    proof (cases "bs = []")
      case True
      then have "rs = []" using part last s2(3) by (auto simp: bs_def read_bytes_def room_left [OF s2(2)])
      then show ?thesis using True nx not_full s2 c2 Arrives by (auto simp: record_stream_get_next_def bs_def [symmetric])
    next
      case False
      have lb: "length pend + length bs \<le> length (buffer_mem s2)" and bi: "bs @ drop (length bs) inp = inp"
        using part s2(3) read_bytes_prefix [of k "unat (buffer_end s2 - read_end s2)" inp] room_left [OF s2(2)] by (simp_all add: bs_def)
      obtain s3 where s3: "put_at (read_end s2) bs s2 = Some s3" "waits (s3\<lparr>read_end := read_end s3 + of_nat (length bs)\<rparr>) 0 (pend @ bs)" "length (buffer_mem s3) = length (buffer_mem s2)"
        using waits_arrive [OF s2(2) lb] by blast
      then have c3: "carries (s3\<lparr>read_end := read_end s3 + of_nat (length bs)\<rparr>) 0 (pend @ bs) (drop (length bs) inp) rs"
        using c2 bi by (simp add: carries_def)
      have less: "length (drop (length bs) inp) < length inp"
        using False bi by (cases inp) auto
      have run: "record_stream_get_next a inp s =
          map_option (\<lambda>(p, n, s4). (if p = 0 then Try_again else Record p n, drop (length bs) inp, s4)) (getNextRecord (s3\<lparr>read_end := read_end s3 + of_nat (length bs)\<rparr>))"
        using nx not_full s2(1) s3(1) False Arrives
        by (cases "getNextRecord (s3\<lparr>read_end := read_end s3 + of_nat (length bs)\<rparr>)") (auto simp: record_stream_get_next_def bs_def [symmetric])
      show ?thesis
        using next_or_wait [OF c3]
      proof (elim disjE exE conjE)
        fix p n s' assume "getNextRecord (s3\<lparr>read_end := read_end s3 + of_nat (length bs)\<rparr>) = Some (p, n, s')" "p \<noteq> 0" "delivers (drop (length bs) inp) rs p n s'"
        then show ?thesis unfolding run by auto
      next
        assume "getNextRecord (s3\<lparr>read_end := read_end s3 + of_nat (length bs)\<rparr>) = Some (0, 0, s3\<lparr>read_end := read_end s3 + of_nat (length bs)\<rparr>)"
        then show ?thesis unfolding run using c3 less by fastforce
      qed
    qed
  qed
qed

section \<open>All records\<close>

lemma drain_carries:
  assumes "carries s off pend inp rs"
  shows "\<exists>out inp' s'. drain as inp s = Some (out, inp', s') \<and> prefix out rs \<and> (list_all (\<lambda>a. a \<noteq> Fails) as \<and> length rs + length inp \<le> length as \<longrightarrow> out = rs)"
  using assms
proof (induction as arbitrary: s off pend inp rs)
  case (Cons a as)
  obtain res inp1 s1 where call: "record_stream_get_next a inp s = Some (res, inp1, s1)" and le: "length inp1 \<le> length inp"
    and res: "(\<exists>p n. res = Record p n \<and> delivers inp1 rs p n s1) \<or>
      (\<exists>off' pend'. carries s1 off' pend' inp1 rs) \<and> (res = Read_error \<and> a = Fails \<or> res = Try_again \<and> length inp1 < length inp \<or> res = End_of_stream \<and> rs = [])"
    using get_next_delivers [OF Cons.prems, of a] by blast
  from res show ?case
  proof (elim disjE exE conjE)
    fix p n assume rec: "res = Record p n" and d: "delivers inp1 rs p n s1"
    then obtain r rs' off' pend' where r: "rs = r # rs'" "bytes_at s1 p (unat n) = Some r" "carries s1 off' pend' inp1 rs'"
      by (auto simp: delivers_def)
    from Cons.IH [OF r(3)] show ?thesis using call rec r le by fastforce
  next
    fix off' pend' assume c: "carries s1 off' pend' inp1 rs" and "res = Read_error" "a = Fails"
    with Cons.IH [OF c] show ?thesis using call by fastforce
  next
    fix off' pend' assume c: "carries s1 off' pend' inp1 rs" and "res = Try_again" "length inp1 < length inp"
    with Cons.IH [OF c] show ?thesis using call by fastforce
  next
    fix off' pend' assume c: "carries s1 off' pend' inp1 rs" and "res = End_of_stream" "rs = []"
    with Cons.IH [OF c] show ?thesis using call by fastforce
  qed
qed (use assms in auto)

text \<open>
  C24: records that were sent in frames are delivered unchanged and in order, however the bytes arrive: after any number of calls what was delivered is a prefix of what was sent, no
  assertion fails and no access leaves the buffer; when no call of \<open>read\<close> fails, everything was delivered after at most as many calls as there are records and bytes.
\<close>

theorem records_delivered:
  assumes "record_stream_new addr junk maxLen = Some s" "length junk = unat maxLen + 4" "addr \<noteq> 0" "unat addr + 2 * length junk < 2 ^ 32"
    and "list_all (\<lambda>r. length r \<le> unat maxLen) rs"
  shows "\<exists>out inp' s'. drain as (concat (map frame rs)) s = Some (out, inp', s') \<and> prefix out rs \<and>
    (list_all (\<lambda>a. a \<noteq> Fails) as \<and> length rs + length (concat (map frame rs)) \<le> length as \<longrightarrow> out = rs)"
proof -
  have s: "s = \<lparr>maxRecordLen = maxLen, buffer_ptr = addr, buffer_mem = junk, unconsumed = addr, read_end = addr, buffer_end = addr + maxLen + HEADER_SIZE\<rparr>"
    using assms(1) by (auto simp: record_stream_new_def split: if_splits)
  have "waits s 0 []"
    using assms by (simp add: s waits_def HEADER_SIZE_def unat_gt_0)
  then have "carries s 0 [] (concat (map frame rs)) rs"
    using assms(2,5) by (simp add: carries_def s list_all_iff)
  from drain_carries [OF this] show ?thesis .
qed

theorem records_delivered_witness:
  "\<exists>out inp' s'. drain [Arrives 2, Arrives 9, Arrives 0, Arrives 7, Arrives 1, Arrives 1, Arrives 1, Arrives 1, Arrives 1, Arrives 1, Arrives 1, Arrives 1, Arrives 1] (concat (map frame [[1, 2], [3]]))
     \<lparr>maxRecordLen = 2, buffer_ptr = 4096, buffer_mem = replicate 6 0, unconsumed = 4096, read_end = 4096, buffer_end = 4102\<rparr> = Some (out, inp', s') \<and> out = [[1, 2], [3]]"
  using records_delivered [of 4096 "replicate 6 0" 2 "\<lparr>maxRecordLen = 2, buffer_ptr = 4096, buffer_mem = replicate 6 0, unconsumed = 4096, read_end = 4096, buffer_end = 4102\<rparr>" "[[1, 2], [3]]"
    "[Arrives 2, Arrives 9, Arrives 0, Arrives 7, Arrives 1, Arrives 1, Arrives 1, Arrives 1, Arrives 1, Arrives 1, Arrives 1, Arrives 1, Arrives 1]"]
  by (auto simp: record_stream_new_def HEADER_SIZE_def)

section \<open>A hostile length\<close>

text \<open>The end of a record whose length takes it beyond the last address lies before its start.\<close>

lemma wrapped_end:
  fixes p L :: u32
  assumes "unat p + k < 2 ^ 32" "2 ^ 32 < unat p + k + unat L"
  shows "unat (p + of_nat k + L) = unat p + k + unat L - 2 ^ 32"
proof -
  have "unat L < 2 ^ 32" using unsigned_less [of L] by simp
  then show ?thesis using assms unat_ptr [OF assms(1)] by (simp add: unat_word_ariths mod_if)
qed

lemma getNext_wraps:
  assumes w: "waits s off pend" and p: "4 \<le> length pend" and L: "L = from_le (rev (take 4 pend))"
    and far: "2 ^ 32 < unat (buffer_ptr s) + (off + 4) + unat L"
  shows "getNextRecord s = Some (buffer_ptr s + of_nat (off + 4), L, s\<lparr>unconsumed := buffer_ptr s + of_nat (off + 4) + L\<rparr>)"
proof -
  let ?b = "buffer_ptr s"
  have fits: "unat ?b + (off + 4) < 2 ^ 32" "unat ?b + (off + length pend) < 2 ^ 32"
    using w p by (auto simp: waits_def)
  have hdr: "unconsumed s + HEADER_SIZE = ?b + of_nat (off + 4)"
    using w by (simp add: waits_def HEADER_SIZE_def)
  have nl: "\<not> read_end s < unconsumed s + HEADER_SIZE"
    unfolding hdr using w fits p ptr_less [of ?b "off + length pend" "off + 4"] by (simp add: waits_def)
  have "take 4 (take (length pend) (drop off (buffer_mem s))) = take 4 (drop off (buffer_mem s))"
    using p by simp
  then have "take 4 (drop off (buffer_mem s)) = take 4 pend"
    using w by (simp only: waits_def)
  then have hd4: "bytes_at s (unconsumed s) 4 = Some (take 4 pend)"
    using w p fits bytes_at_off [of s off 4] by (simp add: waits_def)
  have e: "unat (?b + of_nat (off + 4) + L) = unat ?b + (off + 4) + unat L - 2 ^ 32"
    by (rule wrapped_end [OF fits(1) far])
  then have nz: "?b + of_nat (off + 4) + L \<noteq> 0"
    using far by (metis unat_0 zero_less_diff less_irrefl)
  have "unat L < 2 ^ 32" using unsigned_less [of L] by simp
  then have "\<not> read_end s < ?b + of_nat (off + 4) + L"
    using w p e unat_ptr [OF fits(2)] by (simp add: word_less_nat_alt waits_def)
  then show ?thesis
    using nl nz hd4 unfolding getNextRecord_def getEndOfRecord_def hdr L by (simp add: Let_def)
qed

text \<open>
  C39: the test that a record is complete compares addresses that wrap around. Whenever at least a header waits in the buffer and its length takes the end of the record beyond the last address, the next call
  returns a record at once, without reading: it starts behind the header, has the length that the other side chose and does not lie in the buffer. With the length \<open>2 ^ 32 - 4\<close> the stream is as before, so that every
  further call returns the same record.
\<close>

theorem record_length_wraps:
  assumes "waits s off pend" "4 \<le> length pend" "L = from_le (rev (take 4 pend))" "2 ^ 32 < unat (buffer_ptr s) + (off + 4) + unat L"
  shows "\<exists>s'. record_stream_get_next a inp s = Some (Record (buffer_ptr s + of_nat (off + 4)) L, inp, s') \<and>
    bytes_at s' (buffer_ptr s + of_nat (off + 4)) (unat L) = None \<and> unconsumed s' = buffer_ptr s + of_nat (off + 4) + L \<and>
    (L = 0xfffffffc \<longrightarrow> s' = s \<and> (\<forall>a' inp'. record_stream_get_next a' inp' s = Some (Record (buffer_ptr s + of_nat (off + 4)) L, inp', s)))"
proof -
  let ?p = "buffer_ptr s + of_nat (off + 4)" and ?s' = "s\<lparr>unconsumed := buffer_ptr s + of_nat (off + 4) + L\<rparr>"
  have fits: "unat (buffer_ptr s) + (off + 4) < 2 ^ 32" "off + 4 \<le> length (buffer_mem s)"
    using assms(1,2) by (auto simp: waits_def)
  have "?p \<noteq> 0"
    using unat_ptr [OF fits(1)] by (metis add_eq_0_iff_both_eq_0 unat_0 zero_neq_numeral)
  then have call: "record_stream_get_next a' inp' s = Some (Record ?p L, inp', ?s')" for a' inp'
    using getNext_wraps [OF assms] by (simp add: record_stream_get_next_def)
  have "length (buffer_mem s) < off + 4 + unat L"
    using assms(1,4) unfolding waits_def by linarith
  then have "bytes_at ?s' ?p (unat L) = None"
    using unat_offset [OF fits(1)] by (simp add: bytes_at_def Let_def)
  moreover have "?s' = s" if "L = 0xfffffffc"
    using assms(1) that by (simp add: waits_def)
  ultimately show ?thesis using call by auto
qed

theorem record_length_wraps_witness:
  "let s = \<lparr>maxRecordLen = 2, buffer_ptr = 4096, buffer_mem = [0xff, 0xff, 0xff, 0xfc, 0, 0], unconsumed = 4096, read_end = 4100, buffer_end = 4102\<rparr> in
   record_stream_get_next (Arrives 3) [0xff, 0xff, 0xff, 0xfc] (s\<lparr>buffer_mem := replicate 6 0, read_end := 4096\<rparr>) = Some (Record 4100 0xfffffffc, [], s) \<and>
   (\<forall>a inp. record_stream_get_next a inp s = Some (Record 4100 0xfffffffc, inp, s))"
proof -
  let ?s = "\<lparr>maxRecordLen = 2, buffer_ptr = 4096, buffer_mem = [0xff, 0xff, 0xff, 0xfc, 0, 0], unconsumed = 4096, read_end = 4100, buffer_end = 4102\<rparr>"
  have "waits ?s 0 [0xff, 0xff, 0xff, 0xfc]" by (simp add: waits_def)
  moreover have "from_le (rev (take 4 [0xff, 0xff, 0xff, 0xfc :: u8])) = (0xfffffffc :: u32)" by code_simp
  ultimately have "\<forall>a inp. record_stream_get_next a inp ?s = Some (Record 4100 0xfffffffc, inp, ?s)"
    using record_length_wraps [of ?s 0 "[0xff, 0xff, 0xff, 0xfc]" "0xfffffffc" "Arrives 0" "[]"] by auto
  moreover have "record_stream_get_next (Arrives 3) [0xff, 0xff, 0xff, 0xfc] (?s\<lparr>buffer_mem := replicate 6 0, read_end := 4096\<rparr>) = Some (Record 4100 0xfffffffc, [], ?s)"
    by code_simp
  ultimately show ?thesis by (simp add: Let_def)
qed

end
