(* ===== verification/Log_Filter.thy ===== *)
theory Log_Filter
  imports Prelude
begin

text \<open>
  The filter rules of \<open>log/liblog/logprint.c\<close>: which log lines are printed, by tag and priority, and the text form in which rules are given. A rule for the tag \<open>*\<close> sets the
  priority of all tags without a rule of their own; of several rules for a tag the last one counts.
\<close>

section \<open>Priorities\<close>

definition ANDROID_LOG_UNKNOWN :: s32 where "ANDROID_LOG_UNKNOWN = 0"
definition ANDROID_LOG_DEFAULT :: s32 where "ANDROID_LOG_DEFAULT = 1"
definition ANDROID_LOG_VERBOSE :: s32 where "ANDROID_LOG_VERBOSE = 2"
definition ANDROID_LOG_DEBUG :: s32 where "ANDROID_LOG_DEBUG = 3"
definition ANDROID_LOG_INFO :: s32 where "ANDROID_LOG_INFO = 4"
definition ANDROID_LOG_WARN :: s32 where "ANDROID_LOG_WARN = 5"
definition ANDROID_LOG_ERROR :: s32 where "ANDROID_LOG_ERROR = 6"
definition ANDROID_LOG_FATAL :: s32 where "ANDROID_LOG_FATAL = 7"
definition ANDROID_LOG_SILENT :: s32 where "ANDROID_LOG_SILENT = 8"

lemmas log_priorities = ANDROID_LOG_UNKNOWN_def ANDROID_LOG_DEFAULT_def ANDROID_LOG_VERBOSE_def ANDROID_LOG_DEBUG_def ANDROID_LOG_INFO_def
  ANDROID_LOG_WARN_def ANDROID_LOG_ERROR_def ANDROID_LOG_FATAL_def ANDROID_LOG_SILENT_def

definition tolower :: "char \<Rightarrow> char" where
  "tolower c = (let n = of_char c :: nat in if 65 \<le> n \<and> n \<le> 90 then char_of (n + 32) else c)"

definition filterCharToPri :: "char \<Rightarrow> s32" where
  "filterCharToPri c0 = (let c = tolower c0; n = of_char c :: int in
     if 48 \<le> n \<and> n \<le> 57 then if n \<ge> 48 + ANDROID_LOG_SILENT then ANDROID_LOG_VERBOSE else n - 48
     else if c = CHR ''v'' then ANDROID_LOG_VERBOSE
     else if c = CHR ''d'' then ANDROID_LOG_DEBUG
     else if c = CHR ''i'' then ANDROID_LOG_INFO
     else if c = CHR ''w'' then ANDROID_LOG_WARN
     else if c = CHR ''e'' then ANDROID_LOG_ERROR
     else if c = CHR ''f'' then ANDROID_LOG_FATAL
     else if c = CHR ''s'' then ANDROID_LOG_SILENT
     else if c = CHR ''*'' then ANDROID_LOG_DEFAULT
     else ANDROID_LOG_UNKNOWN)"

definition filterPriToChar :: "s32 \<Rightarrow> char" where
  "filterPriToChar pri =
     (if pri = ANDROID_LOG_VERBOSE then CHR ''V''
      else if pri = ANDROID_LOG_DEBUG then CHR ''D''
      else if pri = ANDROID_LOG_INFO then CHR ''I''
      else if pri = ANDROID_LOG_WARN then CHR ''W''
      else if pri = ANDROID_LOG_ERROR then CHR ''E''
      else if pri = ANDROID_LOG_FATAL then CHR ''F''
      else if pri = ANDROID_LOG_SILENT then CHR ''S''
      else CHR ''?'')"

section \<open>Formats\<close>

datatype AndroidLogPrintFormat =
    FORMAT_OFF | FORMAT_BRIEF | FORMAT_PROCESS | FORMAT_TAG | FORMAT_THREAD | FORMAT_RAW | FORMAT_TIME | FORMAT_THREADTIME | FORMAT_LONG

record FilterInfo =
  mTag :: string
  mPri :: s32

text \<open>The list of filters starts with the newest.\<close>

record AndroidLogFormat =
  global_pri :: s32
  filters :: "FilterInfo list"
  format :: AndroidLogPrintFormat

definition filterinfo_new :: "string \<Rightarrow> s32 \<Rightarrow> FilterInfo" where
  "filterinfo_new tag pri = \<lparr>mTag = tag, mPri = pri\<rparr>"

fun pri_for_tag :: "s32 \<Rightarrow> FilterInfo list \<Rightarrow> string \<Rightarrow> s32" where
  "pri_for_tag glob [] tag = glob"
| "pri_for_tag glob (f # fs) tag = (if tag = mTag f then if mPri f = ANDROID_LOG_DEFAULT then glob else mPri f else pri_for_tag glob fs tag)"

definition filterPriForTag :: "AndroidLogFormat \<Rightarrow> string \<Rightarrow> s32" where
  "filterPriForTag p_format tag = pri_for_tag (global_pri p_format) (filters p_format) tag"

definition android_log_shouldPrintLine :: "AndroidLogFormat \<Rightarrow> string \<Rightarrow> s32 \<Rightarrow> bool" where
  "android_log_shouldPrintLine p_format tag pri = (pri \<ge> filterPriForTag p_format tag)"

definition android_log_format_new :: AndroidLogFormat where
  "android_log_format_new = \<lparr>global_pri = ANDROID_LOG_ERROR, filters = [], format = FORMAT_BRIEF\<rparr>"

definition android_log_setPrintFormat :: "AndroidLogFormat \<Rightarrow> AndroidLogPrintFormat \<Rightarrow> AndroidLogFormat" where
  "android_log_setPrintFormat p_format f = p_format\<lparr>format := f\<rparr>"

definition android_log_formatFromString :: "string \<Rightarrow> AndroidLogPrintFormat" where
  "android_log_formatFromString s =
     (if s = ''brief'' then FORMAT_BRIEF
      else if s = ''process'' then FORMAT_PROCESS
      else if s = ''tag'' then FORMAT_TAG
      else if s = ''thread'' then FORMAT_THREAD
      else if s = ''raw'' then FORMAT_RAW
      else if s = ''time'' then FORMAT_TIME
      else if s = ''threadtime'' then FORMAT_THREADTIME
      else if s = ''long'' then FORMAT_LONG
      else FORMAT_OFF)"

section \<open>Rules\<close>

text \<open>A string has no zero character; the character behind its end is one.\<close>

definition char_at :: "string \<Rightarrow> nat \<Rightarrow> char" where
  "char_at s i = (if i < length s then s ! i else CHR 0x00)"

definition strcspn_colon :: "string \<Rightarrow> nat" where
  "strcspn_colon s = length (takeWhile (\<lambda>c. c \<noteq> CHR '':'') s)"

definition android_log_addFilterRule :: "string \<Rightarrow> AndroidLogFormat \<Rightarrow> s32 \<times> AndroidLogFormat" where
  "android_log_addFilterRule expr p_format =
     (let tagNameLength = strcspn_colon expr;
          given = char_at expr tagNameLength = CHR '':'';
          pri = if given then filterCharToPri (char_at expr (tagNameLength + 1)) else ANDROID_LOG_DEFAULT
      in if tagNameLength = 0 then (-1, p_format)
         else if given \<and> pri = ANDROID_LOG_UNKNOWN then (-1, p_format)
         else if strncmp_eq tagNameLength ''*'' expr
         then (0, p_format\<lparr>global_pri := if pri = ANDROID_LOG_DEFAULT then ANDROID_LOG_DEBUG else pri\<rparr>)
         else (0, p_format\<lparr>filters := filterinfo_new (take tagNameLength expr) (if pri = ANDROID_LOG_DEFAULT then ANDROID_LOG_VERBOSE else pri) # filters p_format\<rparr>))"

text \<open>The pieces that the calls of \<open>strsep\<close> return one after the other.\<close>

fun strsep_pieces :: "string \<Rightarrow> string \<Rightarrow> string list" where
  "strsep_pieces delim [] = [[]]"
| "strsep_pieces delim (c # cs) =
     (if c \<in> set delim then [] # strsep_pieces delim cs else case strsep_pieces delim cs of [] \<Rightarrow> [[c]] | p # ps \<Rightarrow> (c # p) # ps)"

fun add_rules :: "string list \<Rightarrow> AndroidLogFormat \<Rightarrow> s32 \<times> AndroidLogFormat" where
  "add_rules [] p_format = (0, p_format)"
| "add_rules (p # ps) p_format =
     (if p \<noteq> [] then case android_log_addFilterRule p p_format of (err, f) \<Rightarrow> if err < 0 then (-1, f) else add_rules ps f
      else add_rules ps p_format)"

definition android_log_addFilterString :: "string \<Rightarrow> AndroidLogFormat \<Rightarrow> s32 \<times> AndroidLogFormat" where
  "android_log_addFilterString filterString p_format = add_rules (strsep_pieces [CHR '' '', CHR 0x09, CHR '',''] filterString) p_format"

section \<open>Rules as text\<close>

definition rule_text :: "string \<times> s32 \<Rightarrow> string" where
  "rule_text r = fst r @ '':'' @ [filterPriToChar (snd r)]"

fun rules_text :: "(string \<times> s32) list \<Rightarrow> string" where
  "rules_text [] = ''''"
| "rules_text (r # rs) = rule_text r @ '' '' @ rules_text rs"

definition rule_ok :: "string \<times> s32 \<Rightarrow> bool" where
  "rule_ok r \<longleftrightarrow> fst r \<noteq> [] \<and> list_all (\<lambda>c. c \<noteq> CHR '':'' \<and> c \<noteq> CHR '' '' \<and> c \<noteq> CHR 0x09 \<and> c \<noteq> CHR '','') (fst r) \<and> ANDROID_LOG_VERBOSE \<le> snd r \<and> snd r \<le> ANDROID_LOG_SILENT"

lemma filterCharToPri_inverse: "ANDROID_LOG_VERBOSE \<le> p \<Longrightarrow> p \<le> ANDROID_LOG_SILENT \<Longrightarrow> filterCharToPri (filterPriToChar p) = p"
proof -
  assume "ANDROID_LOG_VERBOSE \<le> p" "p \<le> ANDROID_LOG_SILENT"
  then consider "p = 2" | "p = 3" | "p = 4" | "p = 5" | "p = 6" | "p = 7" | "p = 8" by (fastforce simp: log_priorities)
  then show ?thesis by cases (hypsubst, code_simp)+
qed

lemma filterPriToChar_delim: "filterPriToChar p \<noteq> CHR '' ''" "filterPriToChar p \<noteq> CHR 0x09" "filterPriToChar p \<noteq> CHR '',''"
  by (simp_all add: filterPriToChar_def)

definition after_rule :: "string \<times> s32 \<Rightarrow> AndroidLogFormat \<Rightarrow> AndroidLogFormat" where
  "after_rule r f = (if fst r = ''*'' then f\<lparr>global_pri := snd r\<rparr> else f\<lparr>filters := filterinfo_new (fst r) (snd r) # filters f\<rparr>)"

lemma strcspn_rule: "rule_ok r \<Longrightarrow> strcspn_colon (rule_text r) = length (fst r)"
  by (simp add: strcspn_colon_def rule_text_def rule_ok_def list_all_iff takeWhile_append2)

lemma addFilterRule_text:
  assumes "rule_ok r"
  shows "android_log_addFilterRule (rule_text r) f = (0, after_rule r f)"
proof -
  obtain tag p where r: "r = (tag, p)" by (cases r)
  have tag: "tag \<noteq> []" and p: "ANDROID_LOG_VERBOSE \<le> p" "p \<le> ANDROID_LOG_SILENT"
    using assms by (auto simp: rule_ok_def r)
  have "char_at (rule_text r) (length tag) = CHR '':''" "char_at (rule_text r) (Suc (length tag)) = filterPriToChar p"
    by (simp_all add: char_at_def rule_text_def r nth_append)
  moreover have "p \<noteq> ANDROID_LOG_UNKNOWN" "p \<noteq> ANDROID_LOG_DEFAULT"
    using p by (auto simp: log_priorities)
  moreover have "strncmp_eq (length tag) ''*'' (rule_text r) \<longleftrightarrow> tag = ''*''"
    using tag by (cases tag) (auto simp: strncmp_eq_def rule_text_def r)
  moreover have "take (length tag) (rule_text r) = tag"
    by (simp add: rule_text_def r)
  ultimately show ?thesis
    using tag strcspn_rule [OF assms] filterCharToPri_inverse [OF p]
    by (cases "tag = ''*''") (simp_all add: android_log_addFilterRule_def Let_def after_rule_def r)
qed

lemma strsep_pieces_append: "list_all (\<lambda>c. c \<notin> set delim) xs \<Longrightarrow> d \<in> set delim \<Longrightarrow> strsep_pieces delim (xs @ d # ys) = xs # strsep_pieces delim ys"
  by (induction xs) auto

lemma add_rules_text: "list_all rule_ok rs \<Longrightarrow> add_rules (strsep_pieces [CHR '' '', CHR 0x09, CHR '',''] (rules_text rs)) f = (0, fold after_rule rs f)"
proof (induction rs arbitrary: f)
  case (Cons r rs)
  have "list_all (\<lambda>c. c \<notin> set [CHR '' '', CHR 0x09, CHR '','']) (rule_text r)"
    using Cons.prems by (auto simp: rule_text_def rule_ok_def filterPriToChar_delim elim: list.pred_mono_strong)
  then have "strsep_pieces [CHR '' '', CHR 0x09, CHR '',''] (rules_text (r # rs)) = rule_text r # strsep_pieces [CHR '' '', CHR 0x09, CHR '',''] (rules_text rs)"
    using strsep_pieces_append [of "[CHR '' '', CHR 0x09, CHR '','']" "rule_text r" "CHR '' ''" "rules_text rs"] by simp
  moreover have "rule_text r \<noteq> []"
    by (simp add: rule_text_def)
  ultimately show ?case using Cons addFilterRule_text [of r f] by simp
qed simp

text \<open>The meaning of a sequence of rules: the last rule for a tag, otherwise the last rule for \<open>*\<close>, otherwise the priority given.\<close>

definition last_rule :: "(string \<times> s32) list \<Rightarrow> string \<Rightarrow> s32 option" where
  "last_rule rs tag = map_of (rev rs) tag"

definition least_priority :: "(string \<times> s32) list \<Rightarrow> string \<Rightarrow> s32" where
  "least_priority rs tag = (case last_rule rs tag of Some p \<Rightarrow> p | None \<Rightarrow> (case last_rule rs ''*'' of Some p \<Rightarrow> p | None \<Rightarrow> ANDROID_LOG_ERROR))"

lemma last_rule_snoc [simp]: "last_rule [] tag = None" "last_rule (rs @ [r]) tag = (if fst r = tag then Some (snd r) else last_rule rs tag)"
  by (cases r; simp add: last_rule_def)+

lemma global_after_rules: "global_pri (fold after_rule rs f) = (case last_rule rs ''*'' of Some p \<Rightarrow> p | None \<Rightarrow> global_pri f)"
  by (induction rs rule: rev_induct) (simp_all add: after_rule_def)

lemma filters_after_rules:
  assumes "list_all rule_ok rs" "tag \<noteq> ''*''"
  shows "pri_for_tag g (filters (fold after_rule rs f)) tag = (case last_rule rs tag of Some p \<Rightarrow> p | None \<Rightarrow> pri_for_tag g (filters f) tag)"
  using assms(1)
proof (induction rs rule: rev_induct)
  case (snoc r rs)
  then have "snd r \<noteq> ANDROID_LOG_DEFAULT"
    by (auto simp: rule_ok_def log_priorities)
  then show ?case using snoc assms(2) by (auto simp: after_rule_def filterinfo_new_def)
qed simp

lemma star_not_filtered: "pri_for_tag g (filters (fold after_rule rs android_log_format_new)) ''*'' = g"
proof (induction rs rule: rev_induct)
  case Nil
  show ?case by (simp add: android_log_format_new_def)
next
  case (snoc r rs)
  then show ?case by (cases "fst r = ''*''") (auto simp: after_rule_def filterinfo_new_def)
qed

text \<open>
  C28: filter rules written as text are applied: a line is printed exactly when its priority reaches that of the last rule for its tag, without one that of the last rule for \<open>*\<close>, without any the
  priority of errors, which \<open>android_log_format_new\<close> sets; the usage text of \<open>logcat\<close> promises \<open>*:I\<close> in that case, and no code puts such a rule in.
\<close>

theorem filter_string_rules:
  assumes "list_all rule_ok rs"
  shows "\<exists>f. android_log_addFilterString (rules_text rs) android_log_format_new = (0, f) \<and> android_log_shouldPrintLine f tag pri = (pri \<ge> least_priority rs tag)"
proof -
  have "filterPriForTag (fold after_rule rs android_log_format_new) tag = least_priority rs tag"
    using filters_after_rules [OF assms] star_not_filtered
    by (cases "tag = ''*''") (auto simp: filterPriForTag_def least_priority_def global_after_rules android_log_format_new_def split: option.split)
  then show ?thesis
    using add_rules_text [OF assms] by (simp add: android_log_addFilterString_def android_log_shouldPrintLine_def)
qed

theorem filter_string_rules_witness:
  "rules_text [(''*'', 7), (''NET'', 3)] = ''*:F NET:D '' \<and>
   (\<exists>f. android_log_addFilterString (rules_text [(''*'', 7), (''NET'', 3)]) android_log_format_new = (0, f) \<and> android_log_shouldPrintLine f ''NET'' 4)"
  using filter_string_rules [of "[(''*'', 7), (''NET'', 3)]" "''NET''" 4]
  by (auto simp: rule_ok_def log_priorities least_priority_def last_rule_def rule_text_def filterPriToChar_def)

text \<open>A wrong rule ends the reading of the text; the rules in front of it stay.\<close>

lemma filter_string_error:
  assumes "list_all rule_ok rs" "p \<noteq> []" "list_all (\<lambda>c. c \<notin> set [CHR '' '', CHR 0x09, CHR '','']) p" "fst (android_log_addFilterRule p (fold after_rule rs f)) < 0"
  shows "android_log_addFilterString (rules_text rs @ p) f = (-1, fold after_rule rs f)"
  using assms
proof (induction rs arbitrary: f)
  case Nil
  have "strsep_pieces [CHR '' '', CHR 0x09, CHR '',''] p = [p]"
    using Nil.prems(3) by (induction p) auto
  then show ?case using Nil by (auto simp: android_log_addFilterString_def android_log_addFilterRule_def Let_def split: if_splits)
next
  case (Cons r rs)
  have "list_all (\<lambda>c. c \<notin> set [CHR '' '', CHR 0x09, CHR '','']) (rule_text r)"
    using Cons.prems by (auto simp: rule_text_def rule_ok_def filterPriToChar_delim elim: list.pred_mono_strong)
  then have "strsep_pieces [CHR '' '', CHR 0x09, CHR '',''] (rules_text (r # rs) @ p) = rule_text r # strsep_pieces [CHR '' '', CHR 0x09, CHR '',''] (rules_text rs @ p)"
    using strsep_pieces_append [of "[CHR '' '', CHR 0x09, CHR '','']" "rule_text r" "CHR '' ''" "rules_text rs @ p"] by simp
  moreover have "rule_text r \<noteq> []"
    by (simp add: rule_text_def)
  ultimately show ?case using Cons addFilterRule_text [of r f] by (simp add: android_log_addFilterString_def)
qed

end
