(* ===== verification/Decimal.thy ===== *)
theory Decimal
  imports Prelude
begin

text \<open>Decimal numbers as text, which the log library prints and reads.\<close>

definition digit :: "nat \<Rightarrow> char" where
  "digit d = char_of (48 + d)"

definition isCharDigit :: "char \<Rightarrow> bool" where
  "isCharDigit c = (48 \<le> (of_char c :: nat) \<and> (of_char c :: nat) \<le> 57)"

fun dec :: "nat \<Rightarrow> string" where
  "dec n = (if n < 10 then [digit n] else dec (n div 10) @ [digit (n mod 10)])"

declare dec.simps [simp del]

text \<open>The format \<open>%d\<close>.\<close>

definition dec_int :: "int \<Rightarrow> string" where
  "dec_int i = (if i < 0 then ''-'' @ dec (nat (- i)) else dec (nat i))"

text \<open>The value of digits in \<open>strtoul\<close>, before it is cut to its range.\<close>

definition digits_value :: "string \<Rightarrow> nat" where
  "digits_value s = foldl (\<lambda>v c. 10 * v + (of_char c - 48)) 0 s"

lemma digit_props: "d < 10 \<Longrightarrow> isCharDigit (digit d) \<and> of_char (digit d) - 48 = d"
  by (simp add: isCharDigit_def digit_def)

lemma dec_digits: "list_all isCharDigit (dec n)"
  by (induction n rule: dec.induct) (subst dec.simps, simp add: digit_props)

lemma dec_not_empty [simp]: "dec n \<noteq> []"
  by (subst dec.simps) simp

lemma digits_value_dec [simp]: "digits_value (dec n) = n"
  by (induction n rule: dec.induct) (subst dec.simps, simp add: digits_value_def digit_props)

lemma dec_Cons: "\<exists>c cs. dec n = c # cs \<and> isCharDigit c \<and> list_all isCharDigit cs"
  using dec_digits [of n] dec_not_empty [of n] by (cases "dec n") auto

end
