(* ===== verification/Event_Tags.thy ===== *)
theory Event_Tags
  imports Decimal "HOL-Library.Multiset"
begin

text \<open>
  \<open>log/liblog/event_tag_map.c\<close>: the names of binary log events. A text file is mapped into memory, parsed in place, its names ended with zero characters, and looked up by binary search. The memory of
  the file is a string; a read behind its end is \<open>None\<close>. Opening and mapping the file is not modelled.
\<close>

record EventTag =
  tagIndex :: u32
  tagStr :: nat

record EventTagMap =
  mapMem :: string
  tagArray :: "EventTag list"

section \<open>Lookup\<close>

text \<open>The difference of two unsigned numbers, as an \<open>int\<close>.\<close>

definition index_diff :: "u32 \<Rightarrow> u32 \<Rightarrow> int" where
  "index_diff a b = sint (a - b)"

function lookup_loop :: "EventTag list \<Rightarrow> u32 \<Rightarrow> int \<Rightarrow> int \<Rightarrow> nat option run" where
  "lookup_loop ts tag lo hi =
     (if lo \<le> hi then
        let mid = (lo + hi) div 2 in
        if 0 \<le> mid \<and> nat mid < length ts then
          let cmp = index_diff (tagIndex (ts ! nat mid)) tag in
          if cmp < 0 then lookup_loop ts tag (mid + 1) hi
          else if 0 < cmp then lookup_loop ts tag lo (mid - 1)
          else Some (Some (tagStr (ts ! nat mid)))
        else None
      else Some None)"
  by pat_completeness auto
termination by (relation "measure (\<lambda>(ts, tag, lo, hi). nat (hi - lo + 1))") auto

declare lookup_loop.simps [simp del]

definition android_lookupEventTag :: "EventTagMap \<Rightarrow> u32 \<Rightarrow> nat option run" where
  "android_lookupEventTag m tag = lookup_loop (tagArray m) tag 0 (int (length (tagArray m)) - 1)"

section \<open>Parsing\<close>

definition isCharWhitespace :: "char \<Rightarrow> bool" where
  "isCharWhitespace c = (c = CHR '' '' \<or> c = CHR 0x0A \<or> c = CHR 0x0D \<or> c = CHR 0x09)"

definition isCharValidTag :: "char \<Rightarrow> bool" where
  "isCharValidTag c = (let n = of_char c :: nat in (65 \<le> n \<and> n \<le> 90) \<or> (97 \<le> n \<and> n \<le> 122) \<or> (48 \<le> n \<and> n \<le> 57) \<or> c = CHR ''_'')"

fun count_lines :: "nat \<Rightarrow> bool \<Rightarrow> string \<Rightarrow> nat" where
  "count_lines numTags unknown [] = numTags"
| "count_lines numTags unknown (c # cs) =
     (if c = CHR 0x0A then count_lines numTags True cs
      else if unknown then
        if isCharDigit c then count_lines (numTags + 1) False cs
        else if isCharWhitespace c then count_lines numTags unknown cs
        else count_lines numTags False cs
      else count_lines numTags unknown cs)"

definition countMapLines :: "EventTagMap \<Rightarrow> nat" where
  "countMapLines m = count_lines 0 True (mapMem m)"

text \<open>The loops \<open>while (P( *++cp ))\<close>.\<close>

function scan_while :: "(char \<Rightarrow> bool) \<Rightarrow> string \<Rightarrow> nat \<Rightarrow> nat run" where
  "scan_while P mem i = (if i < length mem then if P (mem ! i) then scan_while P mem (i + 1) else Some i else None)"
  by pat_completeness auto
termination by (relation "measure (\<lambda>(P, mem, i). length mem - i)") auto

declare scan_while.simps [simp del]

datatype scanned = Bad_line string | Scanned string nat EventTag

definition strtoul :: "string \<Rightarrow> u32" where
  "strtoul s = of_nat (min (digits_value s) (2 ^ 32 - 1))"

definition scanTagLine :: "string \<Rightarrow> nat \<Rightarrow> scanned run" where
  "scanTagLine mem startp = do {
     cp \<leftarrow> scan_while isCharDigit mem (startp + 1);
     let mem1 = mem[cp := CHR 0x00];
     let val = strtoul (take (cp - startp) (drop startp mem1));
     cp2 \<leftarrow> scan_while (\<lambda>c. c \<noteq> CHR 0x0A \<and> isCharWhitespace c) mem1 (cp + 1);
     if mem1 ! cp2 = CHR 0x0A then Some (Bad_line mem1)
     else do {
       cp3 \<leftarrow> scan_while isCharValidTag mem1 (cp2 + 1);
       let mem2 = mem1[cp3 := CHR 0x00];
       if mem1 ! cp3 = CHR 0x0A then Some (Scanned mem2 cp3 \<lparr>tagIndex = val, tagStr = cp2\<rparr>)
       else if isCharWhitespace (mem1 ! cp3) then do {
         cp4 \<leftarrow> scan_while (\<lambda>c. c \<noteq> CHR 0x0A) mem2 (cp3 + 1);
         Some (Scanned mem2 cp4 \<lparr>tagIndex = val, tagStr = cp2\<rparr>) }
       else Some (Bad_line mem1) } }"

text \<open>The loop of \<open>parseMapLines\<close>; a number of tags is expected, and more end the loop with an error.\<close>

partial_function (option) parse_loop :: "nat \<Rightarrow> string \<Rightarrow> nat \<Rightarrow> bool \<Rightarrow> EventTag list \<Rightarrow> (s32 \<times> EventTagMap) run" where
  "parse_loop numTags mem cp lineStart tags =
     (if cp < length mem then
        if mem ! cp = CHR 0x0A then parse_loop numTags mem (cp + 1) True tags
        else if lineStart then
          if mem ! cp = CHR ''#'' then parse_loop numTags mem (cp + 1) False tags
          else if isCharDigit (mem ! cp) then
            if numTags \<le> length tags then Some (-1, \<lparr>mapMem = mem, tagArray = tags\<rparr>)
            else case scanTagLine mem cp of
              None \<Rightarrow> None
            | Some (Bad_line mem1) \<Rightarrow> Some (-1, \<lparr>mapMem = mem1, tagArray = tags\<rparr>)
            | Some (Scanned mem1 cp1 tag) \<Rightarrow> parse_loop numTags mem1 (cp1 + 1) True (tags @ [tag])
          else if isCharWhitespace (mem ! cp) then parse_loop numTags mem (cp + 1) True tags
          else Some (-1, \<lparr>mapMem = mem, tagArray = tags\<rparr>)
        else parse_loop numTags mem (cp + 1) False tags
      else Some (if length tags \<noteq> numTags then -1 else 0, \<lparr>mapMem = mem, tagArray = tags\<rparr>))"

definition parseMapLines :: "nat \<Rightarrow> EventTagMap \<Rightarrow> (s32 \<times> EventTagMap) run" where
  "parseMapLines numTags m =
     (if mapMem m = [] then None
      else if last (mapMem m) \<noteq> CHR 0x0A then Some (-1, m)
      else parse_loop numTags (mapMem m) 0 True [])"

definition compareEventTags :: "EventTag \<Rightarrow> EventTag \<Rightarrow> int" where
  "compareEventTags t1 t2 = index_diff (tagIndex t1) (tagIndex t2)"

fun has_duplicates :: "EventTag list \<Rightarrow> bool" where
  "has_duplicates (t # u # ts) = (tagIndex u = tagIndex t \<or> has_duplicates (u # ts))"
| "has_duplicates _ = False"

text \<open>\<open>qsort\<close> is an argument.\<close>

definition sortTags :: "(EventTag list \<Rightarrow> EventTag list) \<Rightarrow> EventTagMap \<Rightarrow> s32 \<times> EventTagMap" where
  "sortTags qsort m = (let m1 = m\<lparr>tagArray := qsort (tagArray m)\<rparr> in (if has_duplicates (tagArray m1) then -1 else 0, m1))"

text \<open>\<open>alloc_ok\<close> is whether \<open>calloc\<close> succeeds.\<close>

definition processFile :: "bool \<Rightarrow> (EventTag list \<Rightarrow> EventTag list) \<Rightarrow> EventTagMap \<Rightarrow> (s32 \<times> EventTagMap) run" where
  "processFile alloc_ok qsort m =
     (if \<not> alloc_ok then Some (-1, m)
      else do {
        (ret, m1) \<leftarrow> parseMapLines (countMapLines m) m;
        Some (if ret \<noteq> 0 then (-1, m1) else case sortTags qsort m1 of (ret2, m2) \<Rightarrow> if ret2 \<noteq> 0 then (-1, m2) else (0, m2)) })"

end
