(* ===== verification/Event_Tags_Proofs.thy ===== *)
theory Event_Tags_Proofs
  imports Event_Tags
begin

text \<open>The table of event names: binary search, and the round trip of a file of lines through parsing, sorting and lookup.\<close>

section \<open>Lookup\<close>

definition small_index :: "EventTag \<Rightarrow> bool" where
  "small_index t = (uint (tagIndex t) < 2 ^ 31)"

definition index_less :: "EventTag \<Rightarrow> EventTag \<Rightarrow> bool" where
  "index_less t u = (tagIndex t < tagIndex u)"

lemma signed_take_bit_small: "- (2 ^ 31) \<le> i \<Longrightarrow> i < 2 ^ 31 \<Longrightarrow> signed_take_bit 31 i = (i :: int)"
  by (rule signed_take_bit_int_eq_self)

lemma sint_small: "uint (a :: u32) < 2 ^ 31 \<Longrightarrow> sint a = uint a"
proof -
  assume "uint a < 2 ^ 31"
  then have "signed_take_bit 31 (uint a) = uint a"
    by (intro signed_take_bit_small order_trans [OF _ uint_ge_0]) simp_all
  then show ?thesis by (simp add: sint_uint)
qed

lemma index_diff_small:
  assumes "uint a < 2 ^ 31" "uint b < 2 ^ 31"
  shows "index_diff a b = uint a - uint b"
proof -
  have "sint (a - b) = signed_take_bit 31 (uint a - uint b)"
    using assms by (simp only: sint_word_ariths sint_small) simp
  also have "\<dots> = uint a - uint b"
    using assms uint_ge_0 [of a] uint_ge_0 [of b] by (intro signed_take_bit_small; linarith)
  finally show ?thesis by (simp add: index_diff_def)
qed

lemma index_diff_zero: "index_diff a b = 0 \<longleftrightarrow> a = b"
proof
  assume "index_diff a b = 0"
  then have "sint (a - b) = sint (0 :: u32)" by (simp add: index_diff_def)
  then have "a - b = 0" by (rule signed_word_eqI)
  then show "a = b" by simp
qed (simp add: index_diff_def)

lemma lookup_present:
  assumes "k < length ts" "tagIndex (ts ! k) = tag" "sorted_wrt index_less ts" "list_all small_index ts" "lo \<le> int k" "int k \<le> hi" "0 \<le> lo" "hi < int (length ts)"
  shows "lookup_loop ts tag lo hi = Some (Some (tagStr (ts ! k)))"
  using assms
proof (induction ts tag lo hi rule: lookup_loop.induct)
  case (1 ts tag lo hi)
  define mid where "mid = (lo + hi) div 2"
  have mid: "lo \<le> mid" "mid \<le> hi" "0 \<le> mid" "nat mid < length ts"
    using 1 by (auto simp: mid_def)
  have diff: "index_diff (tagIndex (ts ! nat mid)) tag = uint (tagIndex (ts ! nat mid)) - uint tag"
    using 1 mid by (intro index_diff_small) (auto simp: list_all_length small_index_def)
  have order: "i < j \<Longrightarrow> j < length ts \<Longrightarrow> uint (tagIndex (ts ! i)) < uint (tagIndex (ts ! j))" for i j
    using 1(5) by (auto simp: sorted_wrt_iff_nth_less index_less_def word_less_def)
  consider "nat mid < k" | "nat mid = k" | "k < nat mid" by linarith
  then show ?case
  proof cases
    case 1
    then have "index_diff (tagIndex (ts ! nat mid)) tag < 0"
      using diff order [of "nat mid" k] "1.prems" by simp
    then show ?thesis using "1.IH"(1) [OF _ mid_def] "1.prems" mid 1
      by (subst lookup_loop.simps) (simp add: mid_def [symmetric] Let_def)
  next
    case 2
    then show ?thesis using "1.prems" mid
      by (subst lookup_loop.simps) (simp add: mid_def [symmetric] Let_def index_diff_def)
  next
    case 3
    then have "0 < index_diff (tagIndex (ts ! nat mid)) tag"
      using diff order [of k "nat mid"] mid "1.prems" by simp
    then show ?thesis using "1.IH"(2) [OF _ mid_def] "1.prems" mid 3
      by (subst lookup_loop.simps) (simp add: mid_def [symmetric] Let_def)
  qed
qed

lemma lookup_absent:
  assumes "tag \<notin> tagIndex ` set ts" "0 \<le> lo" "hi < int (length ts)"
  shows "lookup_loop ts tag lo hi = Some None"
  using assms
proof (induction ts tag lo hi rule: lookup_loop.induct)
  case (1 ts tag lo hi)
  define mid where "mid = (lo + hi) div 2"
  show ?case
  proof (cases "lo \<le> hi")
    case True
    then have mid: "lo \<le> mid" "mid \<le> hi" "0 \<le> mid" "nat mid < length ts"
      using 1 by (auto simp: mid_def)
    then have "index_diff (tagIndex (ts ! nat mid)) tag \<noteq> 0"
      using 1(3) by (auto simp: index_diff_zero)
    then show ?thesis using True "1.IH" [OF True mid_def] "1.prems" mid
      by (subst lookup_loop.simps) (auto simp: mid_def [symmetric] Let_def)
  next
    case False
    then show ?thesis by (subst lookup_loop.simps) simp
  qed
qed

lemma lookup_map_of:
  assumes "sorted_wrt index_less (tagArray m)" "list_all small_index (tagArray m)"
  shows "android_lookupEventTag m tag = Some (map_of (map (\<lambda>t. (tagIndex t, tagStr t)) (tagArray m)) tag)"
proof (cases "tag \<in> tagIndex ` set (tagArray m)")
  case True
  then obtain k where k: "k < length (tagArray m)" "tagIndex (tagArray m ! k) = tag"
    by (auto simp: in_set_conv_nth)
  have "distinct (map tagIndex (tagArray m))"
    using assms(1) by (simp add: distinct_conv_nth sorted_wrt_iff_nth_less index_less_def) (metis less_irrefl linorder_neqE_nat)
  then have "map_of (map (\<lambda>t. (tagIndex t, tagStr t)) (tagArray m)) tag = Some (tagStr (tagArray m ! k))"
    using k by (intro map_of_is_SomeI) (auto simp: comp_def)
  then show ?thesis using lookup_present [OF k assms] k by (simp add: android_lookupEventTag_def)
next
  case False
  then have "map_of (map (\<lambda>t. (tagIndex t, tagStr t)) (tagArray m)) tag = None"
    by (auto simp: map_of_eq_None_iff)
  then show ?thesis using lookup_absent [OF False] by (simp add: android_lookupEventTag_def)
qed

section \<open>Files of lines\<close>

datatype tag_line = Comment_line string | Blank_line string | Tag_line nat string string

text \<open>A line of the file, and what it is in memory after it was parsed.\<close>

fun line_text :: "tag_line \<Rightarrow> string" where
  "line_text (Comment_line s) = ''#'' @ s @ [CHR 0x0A]"
| "line_text (Blank_line w) = w @ [CHR 0x0A]"
| "line_text (Tag_line i name ws) = dec i @ '' '' @ name @ ws @ [CHR 0x0A]"

fun line_done :: "tag_line \<Rightarrow> string" where
  "line_done (Comment_line s) = ''#'' @ s @ [CHR 0x0A]"
| "line_done (Blank_line w) = w @ [CHR 0x0A]"
| "line_done (Tag_line i name ws) = dec i @ [CHR 0x00] @ name @ CHR 0x00 # tl (ws @ [CHR 0x0A])"

fun line_ok :: "tag_line \<Rightarrow> bool" where
  "line_ok (Comment_line s) = list_all (\<lambda>c. c \<noteq> CHR 0x0A) s"
| "line_ok (Blank_line w) = list_all (\<lambda>c. isCharWhitespace c \<and> c \<noteq> CHR 0x0A) w"
| "line_ok (Tag_line i name ws) = (i < 2 ^ 31 \<and> name \<noteq> [] \<and> list_all isCharValidTag name \<and> list_all (\<lambda>c. c \<noteq> CHR 0x0A) ws \<and> (ws = [] \<or> isCharWhitespace (hd ws)))"

fun line_tags :: "nat \<Rightarrow> tag_line \<Rightarrow> EventTag list" where
  "line_tags off (Tag_line i name ws) = [\<lparr>tagIndex = of_nat i, tagStr = off + length (dec i) + 1\<rparr>]"
| "line_tags off _ = []"

lemma char_classes:
  "\<not> isCharDigit (CHR 0x0A)" "\<not> isCharDigit (CHR '' '')" "\<not> isCharDigit (CHR 0x0D)" "\<not> isCharDigit (CHR 0x09)" "\<not> isCharDigit (CHR ''#'')"
  "\<not> isCharValidTag (CHR 0x0A)" "\<not> isCharValidTag (CHR '' '')" "\<not> isCharValidTag (CHR 0x0D)" "\<not> isCharValidTag (CHR 0x09)"
  by (simp_all add: isCharDigit_def isCharValidTag_def)

lemma whitespace_class: "isCharWhitespace c \<Longrightarrow> \<not> isCharDigit c \<and> \<not> isCharValidTag c \<and> c \<noteq> CHR ''#''"
  by (auto simp: isCharWhitespace_def char_classes)

lemma digit_class: "isCharDigit c \<Longrightarrow> c \<noteq> CHR 0x0A \<and> c \<noteq> CHR ''#''"
  by (auto simp: char_classes)

lemma scan_while_run: "list_all P xs \<Longrightarrow> \<not> P y \<Longrightarrow> scan_while P (pre @ xs @ y # rest) (length pre) = Some (length pre + length xs)"
proof (induction xs arbitrary: pre)
  case Nil
  then show ?case by (subst scan_while.simps) simp
next
  case (Cons x xs)
  from Cons.IH [of "pre @ [x]"] Cons.prems show ?case by (subst scan_while.simps) simp
qed

lemma parse_skip: "list_all (\<lambda>c. c \<noteq> CHR 0x0A) s \<Longrightarrow>
    parse_loop n (pre @ s @ CHR 0x0A # rest) (length pre) False tags = parse_loop n (pre @ s @ CHR 0x0A # rest) (length pre + length s + 1) True tags"
proof (induction s arbitrary: pre)
  case Nil
  then show ?case by (subst parse_loop.simps) simp
next
  case (Cons c s)
  from Cons.IH [of "pre @ [c]"] Cons.prems show ?case by (subst parse_loop.simps) simp
qed

lemma parse_blank: "list_all (\<lambda>c. isCharWhitespace c \<and> c \<noteq> CHR 0x0A) w \<Longrightarrow>
    parse_loop n (pre @ w @ CHR 0x0A # rest) (length pre) True tags = parse_loop n (pre @ w @ CHR 0x0A # rest) (length pre + length w + 1) True tags"
proof (induction w arbitrary: pre)
  case Nil
  then show ?case by (subst parse_loop.simps) simp
next
  case (Cons c w)
  from Cons.IH [of "pre @ [c]"] Cons.prems show ?case by (subst parse_loop.simps) (simp add: whitespace_class)
qed

lemma strtoul_dec: "i < 2 ^ 32 \<Longrightarrow> strtoul (dec i) = of_nat i"
  by (simp add: strtoul_def min_def)

lemma scan_tag_line:
  assumes ok: "line_ok (Tag_line i name ws)"
  shows "scanTagLine (pre @ line_text (Tag_line i name ws) @ rest) (length pre) =
    Some (Scanned (pre @ line_done (Tag_line i name ws) @ rest) (length pre + length (line_text (Tag_line i name ws)) - 1) \<lparr>tagIndex = of_nat i, tagStr = length pre + length (dec i) + 1\<rparr>)"
proof -
  obtain d ds where d: "dec i = d # ds" "isCharDigit d" "list_all isCharDigit ds" using dec_Cons by blast
  obtain c cs where c: "name = c # cs" "isCharValidTag c" "list_all isCharValidTag cs" using ok by (cases name) auto
  let ?after = "ws @ CHR 0x0A # rest"
  have s1: "scan_while isCharDigit (pre @ line_text (Tag_line i name ws) @ rest) (length pre + 1) = Some (length pre + length (dec i))"
    using scan_while_run [of isCharDigit ds "CHR '' ''" "pre @ [d]" "name @ ?after"] d by (simp add: char_classes)
  have m1: "(pre @ line_text (Tag_line i name ws) @ rest)[length pre + length (dec i) := CHR 0x00] = (pre @ dec i @ [CHR 0x00]) @ name @ ?after" (is "_ = ?mem1")
    by (simp add: list_update_append)
  have val: "strtoul (take (length pre + length (dec i) - length pre) (drop (length pre) ?mem1)) = of_nat i"
    using ok by (simp add: strtoul_dec)
  have nl: "c \<noteq> CHR 0x0A" "\<not> isCharWhitespace c" using c(2) whitespace_class by (auto simp: char_classes)
  have s2: "scan_while (\<lambda>c. c \<noteq> CHR 0x0A \<and> isCharWhitespace c) ?mem1 (length pre + length (dec i) + 1) = Some (length pre + length (dec i) + 1)"
    using scan_while_run [of "\<lambda>c. c \<noteq> CHR 0x0A \<and> isCharWhitespace c" "[]" c "pre @ dec i @ [CHR 0x00]" "cs @ ?after"] nl c by simp
  have first: "?mem1 ! (length pre + length (dec i) + 1) = c" by (simp add: c nth_append)
  obtain y ys where y: "?after = y # ys" "\<not> isCharValidTag y" "y = CHR 0x0A \<longleftrightarrow> ws = []" "isCharWhitespace y"
    using ok whitespace_class by (cases ws) (auto simp: char_classes isCharWhitespace_def)
  have s3: "scan_while isCharValidTag ?mem1 (length pre + length (dec i) + 1 + 1) = Some (length pre + length (dec i) + 1 + length name)"
    using scan_while_run [of isCharValidTag cs y "pre @ dec i @ [CHR 0x00] @ [c]" ys] c y by simp
  have third: "?mem1 ! (length pre + length (dec i) + 1 + length name) = y" by (simp add: y nth_append)
  have m2: "?mem1[length pre + length (dec i) + 1 + length name := CHR 0x00] = (pre @ dec i @ [CHR 0x00] @ name @ [CHR 0x00]) @ ys" (is "_ = ?mem2")
    by (simp add: list_update_append y)
  have dn: "?mem2 = pre @ line_done (Tag_line i name ws) @ rest" using y(1) by (cases ws) auto
  have s4: "scan_while (\<lambda>c. c \<noteq> CHR 0x0A) ?mem2 (length pre + length (dec i) + 1 + length name + 1) = Some (length pre + length (dec i) + 1 + length name + length ws)" if "ws \<noteq> []"
    using scan_while_run [of "\<lambda>c. c \<noteq> CHR 0x0A" "tl ws" "CHR 0x0A" "pre @ dec i @ [CHR 0x00] @ name @ [CHR 0x00]" rest] that y ok by (cases ws) (auto simp: add.assoc)
  show ?thesis
    unfolding scanTagLine_def s1 m1 Option.bind.bind_lunit Let_def val s2 first s3 third m2
    using y s4 nl dn by (cases "ws = []") auto
qed

lemma length_line_done [simp]: "length (line_done l) = length (line_text l)"
  by (cases l) auto

lemma parse_number:
  "cp < length mem \<Longrightarrow> isCharDigit (mem ! cp) \<Longrightarrow> length tags < n \<Longrightarrow> scanTagLine mem cp = Some (Scanned mem1 cp1 tag) \<Longrightarrow>
   parse_loop n mem cp True tags = parse_loop n mem1 (cp1 + 1) True (tags @ [tag])"
  by (subst parse_loop.simps) (auto dest: digit_class)

lemma parse_tag_line:
  assumes "line_ok (Tag_line i name ws)" "length tags < n"
  shows "parse_loop n (pre @ line_text (Tag_line i name ws) @ rest) (length pre) True tags =
    parse_loop n (pre @ line_done (Tag_line i name ws) @ rest) (length pre + length (line_text (Tag_line i name ws))) True (tags @ line_tags (length pre) (Tag_line i name ws))"
proof -
  obtain d ds where d: "dec i = d # ds" "isCharDigit d" using dec_Cons by blast
  have first: "(pre @ line_text (Tag_line i name ws) @ rest) ! length pre = d" "length pre < length (pre @ line_text (Tag_line i name ws) @ rest)"
    using d by (simp_all add: nth_append)
  show ?thesis
    using parse_number [of "length pre" "pre @ line_text (Tag_line i name ws) @ rest" tags n] first scan_tag_line [OF assms(1), of pre rest] d assms(2) by simp
qed

lemma parse_line:
  assumes "line_ok l" "length tags + length (line_tags (length pre) l) \<le> n"
  shows "parse_loop n (pre @ line_text l @ rest) (length pre) True tags =
    parse_loop n (pre @ line_done l @ rest) (length pre + length (line_text l)) True (tags @ line_tags (length pre) l)"
proof (cases l)
  case (Comment_line s)
  then show ?thesis
    using parse_skip [of s n "pre @ ''#''" rest tags] assms by (subst parse_loop.simps) (simp add: isCharDigit_def)
next
  case (Blank_line w)
  then show ?thesis using parse_blank [of w n pre rest tags] assms by simp
next
  case (Tag_line i name ws)
  then show ?thesis using parse_tag_line [of i name ws tags n pre rest] assms by simp
qed

fun file_tags :: "nat \<Rightarrow> tag_line list \<Rightarrow> EventTag list" where
  "file_tags off [] = []"
| "file_tags off (l # ls) = line_tags off l @ file_tags (off + length (line_text l)) ls"

lemma parse_file:
  "list_all line_ok ls \<Longrightarrow> length tags + length (file_tags (length pre) ls) \<le> n \<Longrightarrow>
   parse_loop n (pre @ concat (map line_text ls)) (length pre) True tags =
     Some (if length tags + length (file_tags (length pre) ls) = n then 0 else -1,
       \<lparr>mapMem = pre @ concat (map line_done ls), tagArray = tags @ file_tags (length pre) ls\<rparr>)"
proof (induction ls arbitrary: pre tags)
  case Nil
  then show ?case by (subst parse_loop.simps) simp
next
  case (Cons l ls)
  from Cons.IH [of "tags @ line_tags (length pre) l" "pre @ line_done l"] Cons.prems
    parse_line [of l tags pre n "concat (map line_text ls)"]
  show ?case by (simp add: add.assoc)
qed

section \<open>Counting\<close>

lemma count_rest: "list_all (\<lambda>c. c \<noteq> CHR 0x0A) s \<Longrightarrow> count_lines n False (s @ CHR 0x0A # rest) = count_lines n True rest"
  by (induction s) auto

lemma count_line: "line_ok l \<Longrightarrow> count_lines n True (line_text l @ rest) = count_lines (n + length (line_tags off l)) True rest"
proof (cases l)
  case (Comment_line s)
  assume "line_ok l"
  then show ?thesis using Comment_line by (simp add: count_rest isCharDigit_def isCharWhitespace_def)
next
  case (Blank_line w)
  assume "line_ok l"
  then have "list_all (\<lambda>c. isCharWhitespace c \<and> c \<noteq> CHR 0x0A) w" using Blank_line by simp
  then have "count_lines n True (w @ CHR 0x0A # rest) = count_lines n True rest"
    by (induction w) (auto simp: whitespace_class)
  then show ?thesis using Blank_line by simp
next
  case (Tag_line i name ws)
  assume ok: "line_ok l"
  obtain d ds where d: "dec i = d # ds" "isCharDigit d" "list_all isCharDigit ds" using dec_Cons by blast
  have "list_all (\<lambda>c. c \<noteq> CHR 0x0A) (ds @ '' '' @ name @ ws)"
    using ok d Tag_line by (auto simp: list_all_iff char_classes)
  from count_rest [OF this, of "n + 1" rest] show ?thesis using Tag_line d digit_class [of d] by simp
qed

lemma count_file: "list_all line_ok ls \<Longrightarrow> count_lines n True (concat (map line_text ls)) = n + length (file_tags off ls)"
proof (induction ls arbitrary: n off)
  case (Cons l ls)
  from count_line [of l n "concat (map line_text ls)" off] Cons.IH [of "n + length (line_tags off l)" "off + length (line_text l)"] Cons.prems
  show ?case by simp
qed simp

lemma last_line: "ls \<noteq> [] \<Longrightarrow> concat (map line_text ls) \<noteq> [] \<and> last (concat (map line_text ls)) = CHR 0x0A"
proof (induction ls)
  case (Cons l ls)
  have "line_text l \<noteq> [] \<and> last (line_text l) = CHR 0x0A" by (cases l) auto
  then show ?case using Cons by (cases "ls = []") auto
qed simp

lemma parse_map_lines:
  assumes "list_all line_ok ls" "ls \<noteq> []"
  shows "parseMapLines (countMapLines \<lparr>mapMem = concat (map line_text ls), tagArray = []\<rparr>) \<lparr>mapMem = concat (map line_text ls), tagArray = []\<rparr> =
    Some (0, \<lparr>mapMem = concat (map line_done ls), tagArray = file_tags 0 ls\<rparr>)"
  using parse_file [OF assms(1), of "[]" "[]" "length (file_tags 0 ls)"] count_file [OF assms(1), of 0 0] last_line [OF assms(2)]
  by (simp add: parseMapLines_def countMapLines_def)

section \<open>Sorting\<close>

definition consistent :: "EventTag list \<Rightarrow> bool" where
  "consistent ts \<longleftrightarrow> (\<forall>t \<in> set ts. \<forall>u \<in> set ts. (compareEventTags t u \<le> 0 \<or> compareEventTags u t \<le> 0) \<and>
     (\<forall>v \<in> set ts. compareEventTags t u \<le> 0 \<longrightarrow> compareEventTags u v \<le> 0 \<longrightarrow> compareEventTags t v \<le> 0))"

text \<open>What \<open>qsort\<close> promises when the comparison is an order.\<close>

definition qsort_ok :: "(EventTag list \<Rightarrow> EventTag list) \<Rightarrow> bool" where
  "qsort_ok qsort \<longleftrightarrow> (\<forall>ts. consistent ts \<longrightarrow> mset (qsort ts) = mset ts \<and> sorted_wrt (\<lambda>t u. compareEventTags t u \<le> 0) (qsort ts))"

lemma compare_small: "small_index t \<Longrightarrow> small_index u \<Longrightarrow> compareEventTags t u \<le> 0 \<longleftrightarrow> tagIndex t \<le> tagIndex u"
  by (simp add: compareEventTags_def small_index_def index_diff_small word_le_def)

lemma small_consistent: "list_all small_index ts \<Longrightarrow> consistent ts"
  by (auto simp: consistent_def list_all_iff compare_small)

lemma no_duplicates: "sorted_wrt index_less ts \<Longrightarrow> \<not> has_duplicates ts"
  by (induction ts rule: has_duplicates.induct) (auto simp: index_less_def)

lemma sorted_strict:
  assumes "sorted_wrt (\<lambda>t u. compareEventTags t u \<le> 0) ts" "list_all small_index ts" "distinct (map tagIndex ts)"
  shows "sorted_wrt index_less ts"
  using assms by (induction ts) (auto simp: index_less_def compare_small list_all_iff image_iff order.strict_iff_order)

lemma sortTags_sorts:
  assumes "qsort_ok qsort" "list_all small_index (tagArray m)" "distinct (map tagIndex (tagArray m))"
  shows "\<exists>ts. sortTags qsort m = (0, m\<lparr>tagArray := ts\<rparr>) \<and> sorted_wrt index_less ts \<and> list_all small_index ts \<and> mset ts = mset (tagArray m)"
proof -
  let ?ts = "qsort (tagArray m)"
  have ms: "mset ?ts = mset (tagArray m)" and so: "sorted_wrt (\<lambda>t u. compareEventTags t u \<le> 0) ?ts"
    using assms(1) small_consistent [OF assms(2)] by (auto simp: qsort_ok_def)
  have sm: "list_all small_index ?ts"
    using assms(2) mset_eq_setD [OF ms] by (simp add: list_all_iff)
  have "mset (map tagIndex ?ts) = mset (map tagIndex (tagArray m))" using ms by simp
  then have "distinct (map tagIndex ?ts)" using assms(3) by (metis mset_eq_imp_distinct_iff)
  then have "sorted_wrt index_less ?ts" by (rule sorted_strict [OF so sm])
  then show ?thesis using sm ms no_duplicates by (auto simp: sortTags_def)
qed

section \<open>Names\<close>

definition cstring :: "string \<Rightarrow> nat \<Rightarrow> string" where
  "cstring mem p = takeWhile (\<lambda>c. c \<noteq> CHR 0x00) (drop p mem)"

fun line_names :: "tag_line \<Rightarrow> (u32 \<times> string) list" where
  "line_names (Tag_line i name ws) = [(of_nat i, name)]"
| "line_names _ = []"

lemma zero_not_tag: "\<not> isCharValidTag (CHR 0x00)"
  by (simp add: isCharValidTag_def)

lemma file_names:
  "list_all line_ok ls \<Longrightarrow> map (\<lambda>t. (tagIndex t, cstring (pre @ concat (map line_done ls)) (tagStr t))) (file_tags (length pre) ls) = concat (map line_names ls)"
proof (induction ls arbitrary: pre)
  case (Cons l ls)
  have "map (\<lambda>t. (tagIndex t, cstring (pre @ concat (map line_done (l # ls))) (tagStr t))) (line_tags (length pre) l) = line_names l"
  proof (cases l)
    case (Tag_line i name ws)
    have "list_all (\<lambda>c. c \<noteq> CHR 0x00) name"
      using Cons.prems Tag_line by (auto simp: zero_not_tag elim!: list.pred_mono_strong)
    then have "takeWhile (\<lambda>c. c \<noteq> CHR 0x00) (name @ CHR 0x00 # rest) = name" for rest
      by (simp add: list_all_iff takeWhile_append2)
    then show ?thesis using Tag_line by (simp add: cstring_def)
  qed auto
  moreover have "map (\<lambda>t. (tagIndex t, cstring (pre @ concat (map line_done (l # ls))) (tagStr t))) (file_tags (length pre + length (line_text l)) ls) = concat (map line_names ls)"
    using Cons.IH [of "pre @ line_done l"] Cons.prems by simp
  ultimately show ?case by simp
qed simp

lemma file_tags_small: "list_all line_ok ls \<Longrightarrow> list_all small_index (file_tags off ls)"
proof (induction ls arbitrary: off)
  case (Cons l ls)
  then show ?case by (cases l) (auto simp: small_index_def unsigned_of_nat take_bit_nat_eq_self)
qed simp

lemma map_of_values: "map_of (map (\<lambda>t. (f t, g (h t))) ts) k = map_option g (map_of (map (\<lambda>t. (f t, h t)) ts) k)"
  by (induction ts) auto

text \<open>
  C25: a file of comments, blank lines and lines with a number and a name, with different numbers below \<open>2 ^ 31\<close>, is parsed, and then every number is looked up: the result is the name on its line, or nothing when
  it is on no line. No read leaves the file.
\<close>

theorem tag_file_lookup:
  assumes "qsort_ok qsort" "list_all line_ok ls" "ls \<noteq> []" "distinct (map fst (concat (map line_names ls)))"
  shows "\<exists>m. processFile True qsort \<lparr>mapMem = concat (map line_text ls), tagArray = []\<rparr> = Some (0, m) \<and>
    (\<exists>r. android_lookupEventTag m tag = Some r \<and> map_option (cstring (mapMem m)) r = map_of (concat (map line_names ls)) tag)"
proof -
  let ?mem = "concat (map line_done ls)" and ?tags = "file_tags 0 ls"
  have names: "map (\<lambda>t. (tagIndex t, cstring ?mem (tagStr t))) ?tags = concat (map line_names ls)"
    using file_names [OF assms(2), of "[]"] by simp
  have "map fst (map (\<lambda>t. (tagIndex t, cstring ?mem (tagStr t))) ?tags) = map tagIndex ?tags" by simp
  then have dist: "distinct (map tagIndex ?tags)" using assms(4) names by metis
  obtain ts where ts: "sortTags qsort \<lparr>mapMem = ?mem, tagArray = ?tags\<rparr> = (0, \<lparr>mapMem = ?mem, tagArray = ts\<rparr>)"
      "sorted_wrt index_less ts" "list_all small_index ts" "mset ts = mset ?tags"
    using sortTags_sorts [OF assms(1), of "\<lparr>mapMem = ?mem, tagArray = ?tags\<rparr>"] dist file_tags_small [OF assms(2)] by auto
  have "map_of (map (\<lambda>t. (tagIndex t, cstring ?mem (tagStr t))) ts) = map_of (map (\<lambda>t. (tagIndex t, cstring ?mem (tagStr t))) ?tags)"
  proof (subst map_of_inject_set)
    have "mset (map tagIndex ts) = mset (map tagIndex ?tags)" using ts(4) by simp
    from mset_eq_imp_distinct_iff [OF this] dist show "distinct (map fst (map (\<lambda>t. (tagIndex t, cstring ?mem (tagStr t))) ts))"
      by (simp add: comp_def)
  qed (use dist mset_eq_setD [OF ts(4)] in \<open>simp_all add: comp_def\<close>)
  then have "map_option (cstring ?mem) (map_of (map (\<lambda>t. (tagIndex t, tagStr t)) ts) tag) = map_of (concat (map line_names ls)) tag"
    using names map_of_values [of tagIndex "cstring ?mem" tagStr ts tag] by simp
  then show ?thesis
    using parse_map_lines [OF assms(2,3)] ts lookup_map_of [of "\<lparr>mapMem = ?mem, tagArray = ts\<rparr>" tag] by (simp add: processFile_def)
qed

section \<open>Instances\<close>

text \<open>Insertion sort keeps the promise of \<open>qsort\<close>.\<close>

fun insert_tag :: "EventTag \<Rightarrow> EventTag list \<Rightarrow> EventTag list" where
  "insert_tag t [] = [t]"
| "insert_tag t (u # us) = (if compareEventTags t u \<le> 0 then t # u # us else u # insert_tag t us)"

definition insertion_sort :: "EventTag list \<Rightarrow> EventTag list" where
  "insertion_sort ts = foldr insert_tag ts []"

lemma mset_insert_tag [simp]: "mset (insert_tag t ts) = add_mset t (mset ts)"
  by (induction ts) auto

lemma set_insert_tag [simp]: "set (insert_tag t ts) = insert t (set ts)"
  by (induction ts) auto

lemma consistent_subset: "consistent ts \<Longrightarrow> set us \<subseteq> set ts \<Longrightarrow> consistent us"
  unfolding consistent_def by (meson subsetD)

lemma consistent_pair: "consistent ts \<Longrightarrow> t \<in> set ts \<Longrightarrow> u \<in> set ts \<Longrightarrow> \<not> compareEventTags t u \<le> 0 \<Longrightarrow> compareEventTags u t \<le> 0"
  unfolding consistent_def by meson

lemma consistent_trans: "consistent ts \<Longrightarrow> t \<in> set ts \<Longrightarrow> u \<in> set ts \<Longrightarrow> v \<in> set ts \<Longrightarrow> compareEventTags t u \<le> 0 \<Longrightarrow> compareEventTags u v \<le> 0 \<Longrightarrow> compareEventTags t v \<le> 0"
  unfolding consistent_def by meson

lemma sorted_insert_tag:
  "consistent (t # ts) \<Longrightarrow> sorted_wrt (\<lambda>t u. compareEventTags t u \<le> 0) ts \<Longrightarrow> sorted_wrt (\<lambda>t u. compareEventTags t u \<le> 0) (insert_tag t ts)"
proof (induction ts)
  case (Cons u us)
  have c: "consistent (t # us)" by (rule consistent_subset [OF Cons.prems(1)]) auto
  show ?case
  proof (cases "compareEventTags t u \<le> 0")
    case True
    then show ?thesis using Cons.prems(2) consistent_trans [OF Cons.prems(1), of t u] by auto
  next
    case False
    then show ?thesis using Cons.IH [OF c] Cons.prems(2) consistent_pair [OF Cons.prems(1), of t u] by auto
  qed
qed simp

lemma insertion_sort_ok: "qsort_ok insertion_sort"
proof -
  have "mset (insertion_sort ts) = mset ts \<and> (consistent ts \<longrightarrow> sorted_wrt (\<lambda>t u. compareEventTags t u \<le> 0) (insertion_sort ts))" for ts
  proof (induction ts)
    case (Cons t ts)
    have "set (insertion_sort ts) = set ts" using Cons.IH by (metis mset_eq_setD)
    then have "consistent (t # ts) \<Longrightarrow> consistent (t # insertion_sort ts)" "consistent (t # ts) \<Longrightarrow> consistent ts"
      by (auto elim: consistent_subset)
    then show ?case using Cons sorted_insert_tag [of t "insertion_sort ts"] by (auto simp: insertion_sort_def)
  qed (simp add: insertion_sort_def)
  then show ?thesis by (simp add: qsort_ok_def)
qed

theorem tag_file_lookup_witness:
  "\<exists>m. processFile True insertion_sort \<lparr>mapMem = concat (map line_text [Comment_line '' tags'', Tag_line 42 ''answer'' '' (x)'', Tag_line 7 ''seven'' []]), tagArray = []\<rparr> = Some (0, m) \<and>
    (\<exists>r. android_lookupEventTag m 7 = Some r \<and> map_option (cstring (mapMem m)) r = Some ''seven'')"
  using tag_file_lookup [OF insertion_sort_ok, of "[Comment_line '' tags'', Tag_line 42 ''answer'' '' (x)'', Tag_line 7 ''seven'' []]" 7]
  by (simp add: isCharWhitespace_def isCharValidTag_def)

text \<open>
  A number at the end of the last line makes the parser read behind the end of the file: it overwrites the end of the line and then looks for it.
\<close>

theorem tag_without_name_overruns: "processFile True qsort \<lparr>mapMem = ''7'' @ [CHR 0x0A], tagArray = []\<rparr> = None"
proof -
  have "scanTagLine (''7'' @ [CHR 0x0A]) 0 = None"
    by (simp add: scanTagLine_def scan_while.simps isCharDigit_def isCharWhitespace_def)
  then have "parse_loop 1 (''7'' @ [CHR 0x0A]) 0 True [] = None"
    by (subst parse_loop.simps) (simp add: isCharDigit_def)
  then show ?thesis by (simp add: processFile_def parseMapLines_def countMapLines_def isCharDigit_def)
qed

text \<open>The comparison of numbers by their difference is not an order when they differ by more than \<open>2 ^ 31\<close>.\<close>

lemma compare_cyclic:
  "compareEventTags \<lparr>tagIndex = 0, tagStr = 0\<rparr> \<lparr>tagIndex = 0x55555555, tagStr = 0\<rparr> < 0 \<and>
   compareEventTags \<lparr>tagIndex = 0x55555555, tagStr = 0\<rparr> \<lparr>tagIndex = 0xAAAAAAAA, tagStr = 0\<rparr> < 0 \<and>
   compareEventTags \<lparr>tagIndex = 0xAAAAAAAA, tagStr = 0\<rparr> \<lparr>tagIndex = 0, tagStr = 0\<rparr> < 0"
  by code_simp

end
