(* ===== verification/Log_Binary.thy ===== *)
theory Log_Binary
  imports Log_Filter Event_Tags_Proofs Parcel_Codec
begin

text \<open>
  The entries of a log as \<open>log/liblog/logprint.c\<close> takes them apart: text entries, and binary events, which are numbers, strings and lists of events and are converted to text. The payload is a
  memory of bytes, a read behind its end is \<open>None\<close>. The output buffer is the text in it and the room that is left. The recursion over nested lists has a bound on the depth; a depth of the length of
  the data is enough.
\<close>

unbundle bit_operations_syntax

section \<open>Events\<close>

definition EVENT_TYPE_INT :: u8 where "EVENT_TYPE_INT = 0"
definition EVENT_TYPE_LONG :: u8 where "EVENT_TYPE_LONG = 1"
definition EVENT_TYPE_STRING :: u8 where "EVENT_TYPE_STRING = 2"
definition EVENT_TYPE_LIST :: u8 where "EVENT_TYPE_LIST = 3"

lemmas event_types = EVENT_TYPE_INT_def EVENT_TYPE_LONG_def EVENT_TYPE_STRING_def EVENT_TYPE_LIST_def

definition get4LE :: "u8 list \<Rightarrow> u32" where
  "get4LE src = ucast (src ! 0) OR push_bit 8 (ucast (src ! 1)) OR push_bit 16 (ucast (src ! 2)) OR push_bit 24 (ucast (src ! 3))"

definition get8LE :: "u8 list \<Rightarrow> 64 word" where
  "get8LE src = push_bit 32 (ucast (get4LE (drop 4 src))) OR ucast (get4LE src)"

definition chars :: "u8 list \<Rightarrow> string" where
  "chars bs = map (\<lambda>b. char_of (unat b)) bs"

definition bytes_in :: "u8 list \<Rightarrow> nat \<Rightarrow> nat \<Rightarrow> u8 list run" where
  "bytes_in mem p n = (if p + n \<le> length mem then Some (take n (drop p mem)) else None)"

record event_state =
  eventData :: nat
  eventDataLen :: nat
  outText :: string
  outBufLen :: nat

definition eat :: "nat \<Rightarrow> event_state \<Rightarrow> event_state" where
  "eat n s = s\<lparr>eventData := eventData s + n, eventDataLen := eventDataLen s - n\<rparr>"

definition emit :: "string \<Rightarrow> event_state \<Rightarrow> event_state" where
  "emit t s = s\<lparr>outText := outText s @ t, outBufLen := outBufLen s - length t\<rparr>"

text \<open>\<open>snprintf\<close> of a number, and the test whether it fitted.\<close>

definition print_number :: "int \<Rightarrow> event_state \<Rightarrow> s32 \<times> event_state" where
  "print_number i s = (if length (dec_int i) < outBufLen s then (0, emit (dec_int i) s) else (1, s))"

definition print_string :: "u8 list \<Rightarrow> event_state \<Rightarrow> (s32 \<times> event_state) run" where
  "print_string mem s0 =
     (if eventDataLen s0 < 4 then Some (-1, s0)
      else do {
        l \<leftarrow> bytes_in mem (eventData s0) 4;
        let strLen = unat (get4LE l);
        let s = eat 4 s0;
        if eventDataLen s < strLen then Some (-1, s0)
        else if strLen < outBufLen s then do { bs \<leftarrow> bytes_in mem (eventData s) strLen; Some (0, eat strLen (emit (chars bs) s)) }
        else if outBufLen s > 0 then do { bs \<leftarrow> bytes_in mem (eventData s) (outBufLen s); Some (1, emit (chars bs) s) }
        else Some (0, eat strLen s) })"

text \<open>A result of \<open>-1\<close> leaves the state of the caller.\<close>

function print_event :: "nat \<Rightarrow> u8 list \<Rightarrow> event_state \<Rightarrow> (s32 \<times> event_state) run"
  and print_items :: "nat \<Rightarrow> u8 list \<Rightarrow> nat \<Rightarrow> event_state \<Rightarrow> (s32 \<times> event_state) run" where
  "print_event 0 mem s = None"
| "print_event (Suc depth) mem s =
     (if eventDataLen s < 1 then Some (-1, s)
      else do {
        ty \<leftarrow> bytes_in mem (eventData s) 1;
        let s1 = eat 1 s;
        if ty ! 0 = EVENT_TYPE_INT then
          if eventDataLen s1 < 4 then Some (-1, s)
          else do { bs \<leftarrow> bytes_in mem (eventData s1) 4; Some (print_number (sint (get4LE bs)) (eat 4 s1)) }
        else if ty ! 0 = EVENT_TYPE_LONG then
          if eventDataLen s1 < 8 then Some (-1, s)
          else do { bs \<leftarrow> bytes_in mem (eventData s1) 8; Some (print_number (sint (get8LE bs)) (eat 8 s1)) }
        else if ty ! 0 = EVENT_TYPE_STRING then
          do { (r, s2) \<leftarrow> print_string mem s1; Some (r, if r < 0 then s else s2) }
        else if ty ! 0 = EVENT_TYPE_LIST then
          if eventDataLen s1 < 1 then Some (-1, s)
          else do {
            count \<leftarrow> bytes_in mem (eventData s1) 1;
            let s2 = eat 1 s1;
            if outBufLen s2 > 0 then do {
              (r, s3) \<leftarrow> print_items depth mem (unat (count ! 0)) (emit ''['' s2);
              if r \<noteq> 0 then Some (r, s3) else if outBufLen s3 > 0 then Some (0, emit '']'' s3) else Some (1, s3) }
            else Some (1, s2) }
        else Some (-1, s) })"
| "print_items depth mem 0 s = Some (0, s)"
| "print_items depth mem (Suc k) s = do {
     (r, s1) \<leftarrow> print_event depth mem s;
     if r \<noteq> 0 then Some (r, s1)
     else if k > 0 then if outBufLen s1 > 0 then print_items depth mem k (emit '','' s1) else Some (1, s1)
     else print_items depth mem k s1 }"
  by pat_completeness auto
termination by (relation "measures [\<lambda>x. case x of Inl (d, _) \<Rightarrow> 2 * d | Inr (d, _) \<Rightarrow> 2 * d + 1, \<lambda>x. case x of Inl _ \<Rightarrow> 0 | Inr (_, _, k, _) \<Rightarrow> k]") auto

definition android_log_printBinaryEvent :: "u8 list \<Rightarrow> event_state \<Rightarrow> (s32 \<times> event_state) run" where
  "android_log_printBinaryEvent mem s = print_event (eventDataLen s + 1) mem s"

section \<open>Entries\<close>

record logger_entry =
  len :: u16
  le_pid :: s32
  le_tid :: s32
  sec :: s32
  nsec :: s32
  msg_bytes :: "u8 list"

text \<open>The message is the memory that starts at its pointer.\<close>

record AndroidLogEntry =
  tv_sec :: s32
  tv_nsec :: s32
  priority :: s32
  pid :: s32
  tid :: s32
  tag :: string
  messageLen :: u32
  message :: string

definition strlen_from :: "nat \<Rightarrow> u8 list \<Rightarrow> nat run" where
  "strlen_from p mem = (if 0 \<in> set (drop p mem) then Some (length (takeWhile (\<lambda>b. b \<noteq> 0) (drop p mem))) else None)"

definition android_log_processLogBuffer :: "logger_entry \<Rightarrow> AndroidLogEntry run" where
  "android_log_processLogBuffer buf = do {
     p \<leftarrow> bytes_in (msg_bytes buf) 0 1;
     tag_len \<leftarrow> strlen_from 1 (msg_bytes buf);
     Some \<lparr>tv_sec = sec buf, tv_nsec = nsec buf, priority = int (unat (p ! 0)), pid = le_pid buf, tid = le_tid buf,
       tag = chars (take tag_len (drop 1 (msg_bytes buf))), messageLen = ucast (len buf) - of_nat tag_len - 3,
       message = chars (drop (tag_len + 2) (msg_bytes buf))\<rparr> }"

text \<open>
  The binary form. The result is the entry and the number of bytes of the message buffer up to the last one written; \<open>messageBufLen\<close> is the size that the caller gives. Without a name the tag is made of its number and
  put at the start of the buffer.
\<close>

definition mark_cut :: "string \<Rightarrow> string" where
  "mark_cut t = (if t \<noteq> [] then butlast t @ ''!'' else ''!'')"

definition size_t :: "int \<Rightarrow> nat" where
  "size_t i = nat (i mod 2 ^ 32)"

definition made_tag :: "u32 \<Rightarrow> string" where
  "made_tag i = ''['' @ dec_int (sint i) @ '']''"

definition event_name :: "EventTagMap option \<Rightarrow> u32 \<Rightarrow> string option run" where
  "event_name tm i = (case tm of None \<Rightarrow> Some None | Some m \<Rightarrow> map_option (map_option (cstring (mapMem m))) (android_lookupEventTag m i))"

definition android_log_processBinaryLogBuffer :: "logger_entry \<Rightarrow> EventTagMap option \<Rightarrow> int \<Rightarrow> (AndroidLogEntry \<times> nat) option run" where
  "android_log_processBinaryLogBuffer buf tm bufLen =
     (if len buf < 4 then Some None
      else do {
        t \<leftarrow> bytes_in (msg_bytes buf) 0 4;
        name \<leftarrow> event_name tm (get4LE t);
        let taglen = (case name of Some n \<Rightarrow> 0 | None \<Rightarrow> length (made_tag (get4LE t)) + 1);
        let etag = (case name of Some n \<Rightarrow> n | None \<Rightarrow> take (nat bufLen - 1) (made_tag (get4LE t)));
        let room = size_t (bufLen - int taglen - 1);
        (result, s) \<leftarrow> android_log_printBinaryEvent (msg_bytes buf) \<lparr>eventData = 4, eventDataLen = unat (len buf) - 4, outText = [], outBufLen = room\<rparr>;
        if result < 0 then Some None
        else do {
          let text = (if result = 1 then mark_cut (outText s) else outText s);
          let left = (if result = 1 \<and> outText s = [] then size_t (int (outBufLen s) - 1) else outBufLen s);
          (if size_t (int (length text)) = size_t (bufLen - int taglen - 1 - int left) then Some () else None);
          Some (Some (\<lparr>tv_sec = sec buf, tv_nsec = nsec buf, priority = ANDROID_LOG_INFO, pid = le_pid buf, tid = le_tid buf, tag = etag,
            messageLen = of_nat (length text), message = text @ [CHR 0x00]\<rparr>, taglen + length text + 1)) } })"

end
