(* ===== verification/Log_Events.thy ===== *)
theory Log_Events
  imports Log_Binary "HOL-Library.Sublist"
begin

text \<open>Binary log events: reading and writing stay in bounds on every input, and well-formed events are printed as they should be.\<close>

section \<open>Safety\<close>

text \<open>How an operation changes the state: it eats data and emits text, within what there is.\<close>

definition within :: "event_state \<Rightarrow> event_state \<Rightarrow> bool" where
  "within s s' \<longleftrightarrow> eventData s' + eventDataLen s' = eventData s + eventDataLen s \<and> eventDataLen s' \<le> eventDataLen s \<and>
     length (outText s') + outBufLen s' = length (outText s) + outBufLen s \<and> prefix (outText s) (outText s')"

definition ends_within :: "event_state \<Rightarrow> (s32 \<times> event_state) run \<Rightarrow> bool" where
  "ends_within s x \<longleftrightarrow> (\<exists>r s'. x = Some (r, s') \<and> -1 \<le> r \<and> r \<le> 1 \<and> within s s')"

lemma within_refl [simp]: "within s s"
  by (simp add: within_def)

lemma within_trans: "within s1 s2 \<Longrightarrow> within s2 s3 \<Longrightarrow> within s1 s3"
  by (auto simp: within_def intro: prefix_order.trans)

lemma within_eat: "n \<le> eventDataLen s \<Longrightarrow> within s (eat n s)"
  by (simp add: within_def eat_def)

lemma within_emit: "length t \<le> outBufLen s \<Longrightarrow> within s (emit t s)"
  by (simp add: within_def emit_def)

lemma ends_within_trans: "within s s1 \<Longrightarrow> ends_within s1 x \<Longrightarrow> ends_within s x"
  by (auto simp: ends_within_def intro: within_trans)

lemma ends_within_Some [simp]: "ends_within s (Some (r, s')) \<longleftrightarrow> -1 \<le> r \<and> r \<le> 1 \<and> within s s'"
  by (simp add: ends_within_def)

lemma state_simps [simp]:
  "eventData (eat n s) = eventData s + n" "eventDataLen (eat n s) = eventDataLen s - n" "outText (eat n s) = outText s" "outBufLen (eat n s) = outBufLen s"
  "eventData (emit t s) = eventData s" "eventDataLen (emit t s) = eventDataLen s" "outText (emit t s) = outText s @ t" "outBufLen (emit t s) = outBufLen s - length t"
  by (simp_all add: eat_def emit_def)

lemma length_chars [simp]: "length (chars bs) = length bs"
  by (simp add: chars_def)

lemma bytes_in_ok: "p + n \<le> length mem \<Longrightarrow> bytes_in mem p n = Some (take n (drop p mem))"
  by (simp add: bytes_in_def)

lemma print_number_within: "ends_within s (Some (print_number i s))"
  by (simp add: print_number_def within_emit)

lemma print_string_within:
  assumes "eventData s + eventDataLen s \<le> length mem"
  shows "ends_within s (print_string mem s)"
proof (cases "eventDataLen s < 4")
  case False
  let ?l = "unat (get4LE (take 4 (drop (eventData s) mem)))" and ?s = "eat 4 s"
  have s: "within s ?s" using False by (simp add: within_eat)
  have "ends_within ?s (if ?l < outBufLen ?s then do { bs \<leftarrow> bytes_in mem (eventData ?s) ?l; Some (0, eat ?l (emit (chars bs) ?s)) }
        else if outBufLen ?s > 0 then do { bs \<leftarrow> bytes_in mem (eventData ?s) (outBufLen ?s); Some (1, emit (chars bs) ?s) }
        else Some (0, eat ?l ?s))" if "\<not> eventDataLen ?s < ?l"
    using assms that False
    by (auto simp: bytes_in_ok intro!: within_eat within_emit within_trans [OF within_emit within_eat])
  from ends_within_trans [OF s this] show ?thesis
    using assms False by (auto simp: print_string_def bytes_in_ok Let_def)
qed (simp add: print_string_def)
lemma event_string_within:
  assumes "eventData s1 + eventDataLen s1 \<le> length mem" "within s s1"
  shows "ends_within s (do { (r, s2) \<leftarrow> print_string mem s1; Some (r, if r < 0 then s else s2) })"
  using print_string_within [OF assms(1)] assms(2) by (auto simp: ends_within_def intro: within_trans)

lemma event_list_within:
  assumes "within s s2" "outBufLen s2 > 0 \<Longrightarrow> ends_within (emit ''['' s2) (print_items depth mem k (emit ''['' s2))"
  shows "ends_within s (if outBufLen s2 > 0 then do {
      (r, s3) \<leftarrow> print_items depth mem k (emit ''['' s2);
      if r \<noteq> 0 then Some (r, s3) else if outBufLen s3 > 0 then Some (0, emit '']'' s3) else Some (1, s3) }
    else Some (1, s2))"
proof (cases "outBufLen s2 > 0")
  case True
  then obtain r s3 where r: "print_items depth mem k (emit ''['' s2) = Some (r, s3)" "-1 \<le> r" "r \<le> 1" "within (emit ''['' s2) s3"
    using assms(2) by (auto simp: ends_within_def)
  have "within s (emit ''['' s2)"
    using within_trans [OF assms(1) within_emit] True by simp
  then have "within s s3" using r(4) by (rule within_trans)
  then show ?thesis using True r within_trans [OF _ within_emit, of s s3 "'']''"] by simp
qed (use assms in simp)

lemma events_within:
  "eventData s + eventDataLen s \<le> length mem \<Longrightarrow> eventDataLen s < depth \<Longrightarrow> ends_within s (print_event depth mem s)"
  "eventData s + eventDataLen s \<le> length mem \<Longrightarrow> eventDataLen s < depth \<Longrightarrow> ends_within s (print_items depth mem k s)"
proof (induction depth mem s and depth mem k s rule: print_event_print_items.induct)
  case (2 depth mem s)
  show ?case
  proof (cases "eventDataLen s < 1")
    case False
    let ?ty = "take 1 (drop (eventData s) mem)" and ?s1 = "eat 1 s"
    have ty: "bytes_in mem (eventData s) 1 = Some ?ty" using 2 False by (simp add: bytes_in_ok)
    have s1: "within s ?s1" using False by (simp add: within_eat)
    have num: "ends_within s (do { bs \<leftarrow> bytes_in mem (eventData ?s1) n; Some (print_number (f bs) (eat n ?s1)) })" if "\<not> eventDataLen ?s1 < n" for n f
    proof -
      have "bytes_in mem (eventData ?s1) n = Some (take n (drop (eventData ?s1) mem))"
        using that 2(2) False by (intro bytes_in_ok) simp
      moreover have "within s (eat n ?s1)" using within_trans [OF s1 within_eat] that by simp
      ultimately show ?thesis using ends_within_trans [OF _ print_number_within] by simp
    qed
    have str: "ends_within s (do { (r, s2) \<leftarrow> print_string mem ?s1; Some (r, if r < 0 then s else s2) })"
      using 2(2) False s1 by (intro event_string_within) auto
    have lst: "ends_within s (do { count \<leftarrow> bytes_in mem (eventData ?s1) 1; let s2 = eat 1 ?s1;
        if outBufLen s2 > 0 then do { (r, s3) \<leftarrow> print_items depth mem (unat (count ! 0)) (emit ''['' s2);
          if r \<noteq> 0 then Some (r, s3) else if outBufLen s3 > 0 then Some (0, emit '']'' s3) else Some (1, s3) }
        else Some (1, s2) })" if "\<not> eventDataLen ?s1 < 1" "?ty ! 0 = EVENT_TYPE_LIST"
    proof -
      let ?c = "take 1 (drop (eventData ?s1) mem)"
      have c: "bytes_in mem (eventData ?s1) 1 = Some ?c"
        using that 2(2) False by (intro bytes_in_ok) simp
      have items: "outBufLen (eat 1 ?s1) > 0 \<Longrightarrow> ends_within (emit ''['' (eat 1 ?s1)) (print_items depth mem (unat (?c ! 0)) (emit ''['' (eat 1 ?s1)))"
        using 2(1) [OF False ty refl _ _ _ _ _ c refl] 2(2,3) \<open>\<not> eventDataLen ?s1 < 1\<close> \<open>?ty ! 0 = EVENT_TYPE_LIST\<close> False by (simp add: event_types)
      have "within s (eat 1 ?s1)" using within_trans [OF s1 within_eat] that by simp
      from event_list_within [OF this items] show ?thesis by (simp only: c Let_def bind.bind_lunit)
    qed
    show ?thesis using False ty num [of 4] num [of 8] str lst by (simp add: Let_def)
  qed simp
next
  case (4 depth mem k s)
  from 4(1) 4(4,5) obtain r s1 where e: "print_event depth mem s = Some (r, s1)" "-1 \<le> r" "r \<le> 1" "within s s1"
    by (auto simp: ends_within_def)
  then have s1: "eventData s1 + eventDataLen s1 \<le> length mem" "eventDataLen s1 < depth"
    using 4(4,5) by (auto simp: within_def)
  show ?case
  proof (cases "r \<noteq> 0")
    case False
    have comma: "0 < k \<Longrightarrow> 0 < outBufLen s1 \<Longrightarrow> ends_within s (print_items depth mem k (emit '','' s1))"
      using 4(2) [OF e(1) refl] False s1 ends_within_trans [OF within_trans [OF e(4) within_emit], of "'',''"] by simp
    have fin: "\<not> 0 < k \<Longrightarrow> ends_within s (print_items depth mem k s1)"
      using e(4) by simp
    show ?thesis using e False comma fin by simp
  qed (use e in simp)
qed simp_all

section \<open>Events as values\<close>

datatype event = EInt u32 | ELong "64 word" | EString "u8 list" | EList "event list"

fun encode :: "event \<Rightarrow> u8 list" where
  "encode (EInt w) = EVENT_TYPE_INT # to_le 4 w"
| "encode (ELong w) = EVENT_TYPE_LONG # to_le 8 w"
| "encode (EString bs) = EVENT_TYPE_STRING # to_le 4 (of_nat (length bs) :: u32) @ bs"
| "encode (EList es) = EVENT_TYPE_LIST # of_nat (length es) # concat (map encode es)"

fun commas :: "string list \<Rightarrow> string" where
  "commas [] = []"
| "commas [t] = t"
| "commas (t # ts) = t @ '','' @ commas ts"

fun event_text :: "event \<Rightarrow> string" where
  "event_text (EInt w) = dec_int (sint w)"
| "event_text (ELong w) = dec_int (sint w)"
| "event_text (EString bs) = chars bs"
| "event_text (EList es) = ''['' @ commas (map event_text es) @ '']''"

fun event_ok :: "event \<Rightarrow> bool" where
  "event_ok (EString bs) = (length bs < 2 ^ 32)"
| "event_ok (EList es) = (length es < 256 \<and> list_all event_ok es)"
| "event_ok _ = True"

lemma get4LE_from_le: "length src = 4 \<Longrightarrow> get4LE src = from_le src"
  by (auto simp: get4LE_def numeral_eq_Suc length_Suc_conv push_bit_or or.assoc)

lemma get4LE_to_le [simp]: "get4LE (to_le 4 w) = w"
  by (simp add: get4LE_from_le)

lemma to_le_8: "to_le 8 w = to_le 4 (ucast w :: u32) @ to_le 4 (ucast (drop_bit 32 w) :: u32)" for w :: "64 word"
proof (rule nth_equalityI)
  fix i assume "i < length (to_le 8 w)"
  then have i: "i < 8" by simp
  show "to_le 8 w ! i = (to_le 4 (ucast w :: u32) @ to_le 4 (ucast (drop_bit 32 w) :: u32)) ! i"
  proof (cases "i < 4")
    case True
    then show ?thesis using i by (auto simp: nth_append nth_to_le bit_simps intro!: bit_word_eqI)
  next
    case False
    then obtain j where j: "i = j + 4" "j < 4" using i by (metis add.commute add_diff_inverse_nat add_less_cancel_right numeral_Bit0)
    then show ?thesis by (auto simp: nth_append nth_to_le bit_simps add.assoc add.left_commute [of _ 32] intro!: bit_word_eqI)
  qed
qed simp

lemma get4LE_append: "length src = 4 \<Longrightarrow> get4LE (src @ rest) = get4LE src"
  by (simp add: get4LE_def nth_append)

lemma get8LE_to_le [simp]: "get8LE (to_le 8 w) = w"
proof -
  have "get8LE (to_le 8 w) = push_bit 32 (ucast (ucast (drop_bit 32 w) :: u32)) OR ucast (ucast w :: u32)"
    by (simp add: get8LE_def to_le_8 get4LE_append)
  also have "\<dots> = w" by (intro bit_word_eqI) (auto simp: bit_simps)
  finally show ?thesis .
qed

text \<open>An event that stands in the data, with enough room for its text, is printed and eaten.\<close>

definition prints :: "nat \<Rightarrow> u8 list \<Rightarrow> event \<Rightarrow> bool" where
  "prints depth mem e \<longleftrightarrow> (\<forall>s rest. eventData s + eventDataLen s \<le> length mem \<longrightarrow> drop (eventData s) mem = encode e @ rest \<longrightarrow> length (encode e) \<le> eventDataLen s \<longrightarrow> length (event_text e) < outBufLen s \<longrightarrow>
     print_event depth mem s = Some (0, eat (length (encode e)) (emit (event_text e) s)))"

lemma eat_eat [simp]: "eat m (eat n s) = eat (n + m) s"
  by (simp add: eat_def)

lemma emit_emit [simp]: "emit u (emit t s) = emit (t @ u) s"
  by (simp add: emit_def)

lemma eat_emit: "eat n (emit t s) = emit t (eat n s)"
  by (simp add: eat_def emit_def)

lemma bytes_in_drop: "p \<le> length mem \<Longrightarrow> drop p mem = bs @ rest \<Longrightarrow> bytes_in mem p (length bs) = Some bs"
proof -
  assume "p \<le> length mem" and e: "drop p mem = bs @ rest"
  moreover from arg_cong [OF e, of length] have "length bs \<le> length mem - p" by simp
  ultimately show ?thesis by (auto simp: bytes_in_def)
qed

lemma bytes_in_one: "p \<le> length mem \<Longrightarrow> drop p mem = b # rest \<Longrightarrow> bytes_in mem p (Suc 0) = Some [b]"
  using bytes_in_drop [of p mem "[b]" rest] by simp

lemma drop_later: "drop p mem = bs @ rest \<Longrightarrow> drop (p + length bs) mem = rest"
  by (metis add.commute append_eq_conv_conj drop_drop)

lemma prints_int: "prints (Suc depth) mem (EInt w)"
  unfolding prints_def
proof (intro allI impI)
  fix s :: event_state and rest assume a: "eventData s + eventDataLen s \<le> length mem" "drop (eventData s) mem = encode (EInt w) @ rest" "length (encode (EInt w)) \<le> eventDataLen s" "length (event_text (EInt w)) < outBufLen s"
  have "bytes_in mem (eventData s) (Suc 0) = Some [EVENT_TYPE_INT]" "bytes_in mem (Suc (eventData s)) 4 = Some (to_le 4 w)"
    using a bytes_in_one [of "eventData s" mem] bytes_in_drop [of "Suc (eventData s)" mem "to_le 4 w" rest] drop_later [of "eventData s" mem "[EVENT_TYPE_INT]"] by simp_all
  moreover have "\<not> eventDataLen s - Suc 0 < 4" using a(3) by simp
  ultimately show "print_event (Suc depth) mem s = Some (0, eat (length (encode (EInt w))) (emit (event_text (EInt w)) s))"
    using a by (simp add: print_number_def eat_emit Let_def)
qed

lemma prints_long: "prints (Suc depth) mem (ELong w)"
  unfolding prints_def
proof (intro allI impI)
  fix s :: event_state and rest assume a: "eventData s + eventDataLen s \<le> length mem" "drop (eventData s) mem = encode (ELong w) @ rest" "length (encode (ELong w)) \<le> eventDataLen s" "length (event_text (ELong w)) < outBufLen s"
  have "bytes_in mem (eventData s) (Suc 0) = Some [EVENT_TYPE_LONG]" "bytes_in mem (Suc (eventData s)) 8 = Some (to_le 8 w)"
    using a bytes_in_one [of "eventData s" mem] bytes_in_drop [of "Suc (eventData s)" mem "to_le 8 w" rest] drop_later [of "eventData s" mem "[EVENT_TYPE_LONG]"] by simp_all
  moreover have "\<not> eventDataLen s - Suc 0 < 8" using a(3) by simp
  ultimately show "print_event (Suc depth) mem s = Some (0, eat (length (encode (ELong w))) (emit (event_text (ELong w)) s))"
    using a by (simp add: print_number_def eat_emit event_types Let_def)
qed

lemma prints_string: "length bs < 2 ^ 32 \<Longrightarrow> prints (Suc depth) mem (EString bs)"
  unfolding prints_def
proof (intro allI impI)
  fix s :: event_state and rest assume l: "length bs < 2 ^ 32" and a: "eventData s + eventDataLen s \<le> length mem" "drop (eventData s) mem = encode (EString bs) @ rest"
    "length (encode (EString bs)) \<le> eventDataLen s" "length (event_text (EString bs)) < outBufLen s"
  let ?n = "to_le 4 (of_nat (length bs) :: u32)"
  have "drop (Suc (eventData s)) mem = ?n @ bs @ rest" "drop (eventData s + 5) mem = bs @ rest"
    using a drop_later [of "eventData s" mem "[EVENT_TYPE_STRING]"] drop_later [of "eventData s" mem "EVENT_TYPE_STRING # ?n" "bs @ rest"] by simp_all
  then have "bytes_in mem (eventData s) (Suc 0) = Some [EVENT_TYPE_STRING]" "bytes_in mem (Suc (eventData s)) 4 = Some ?n" "bytes_in mem (eventData s + 5) (length bs) = Some bs"
    using a bytes_in_one [of "eventData s" mem] bytes_in_drop [of "Suc (eventData s)" mem ?n] bytes_in_drop [of "eventData s + 5" mem bs rest] by simp_all
  moreover have "\<not> eventDataLen s - Suc 0 < 4" "\<not> eventDataLen s - 5 < length bs" using a(3) by simp_all
  ultimately show "print_event (Suc depth) mem s = Some (0, eat (length (encode (EString bs))) (emit (event_text (EString bs)) s))"
    using a l by (simp add: print_string_def Let_def eat_emit event_types unat_of_nat_u32 add.commute)
qed

lemma printsD: "prints depth mem e \<Longrightarrow> eventData s + eventDataLen s \<le> length mem \<Longrightarrow> drop (eventData s) mem = encode e @ rest \<Longrightarrow> length (encode e) \<le> eventDataLen s \<Longrightarrow>
    length (event_text e) < outBufLen s \<Longrightarrow> print_event depth mem s = Some (0, eat (length (encode e)) (emit (event_text e) s))"
  unfolding prints_def by blast

lemma prints_items:
  assumes "\<forall>e \<in> set es. prints depth mem e"
  shows "eventData s + eventDataLen s \<le> length mem \<Longrightarrow> drop (eventData s) mem = concat (map encode es) @ rest \<Longrightarrow> length (concat (map encode es)) \<le> eventDataLen s \<Longrightarrow>
    length (commas (map event_text es)) < outBufLen s \<Longrightarrow>
    print_items depth mem (length es) s = Some (0, eat (length (concat (map encode es))) (emit (commas (map event_text es)) s))"
  using assms
proof (induction es arbitrary: s)
  case Nil
  show ?case by (simp add: eat_def emit_def)
next
  case (Cons e es)
  let ?s1 = "eat (length (encode e)) (emit (event_text e) s)"
  have "length (event_text e) < outBufLen s" using Cons.prems(4) by (cases es) auto
  then have e: "print_event depth mem s = Some (0, ?s1)"
    using Cons.prems by (intro printsD [where rest = "concat (map encode es) @ rest"]) simp_all
  have d: "drop (eventData s + length (encode e)) mem = concat (map encode es) @ rest"
    using Cons.prems(2) by (intro drop_later) simp
  show ?case
  proof (cases es)
    case Nil
    then show ?thesis using e by simp
  next
    case (Cons e2 es2)
    have "print_items depth mem (length es) (emit '','' ?s1) = Some (0, eat (length (concat (map encode es))) (emit (commas (map event_text es)) (emit '','' ?s1)))"
      using Cons.IH d Cons.prems Cons by (intro Cons.IH) auto
    then show ?thesis using e Cons Cons.prems(4) by (simp add: eat_emit)
  qed
qed

lemma prints_list:
  assumes "\<forall>e \<in> set es. prints depth mem e" "length es < 256"
  shows "prints (Suc depth) mem (EList es)"
  unfolding prints_def
proof (intro allI impI)
  fix s :: event_state and rest assume a: "eventData s + eventDataLen s \<le> length mem" "drop (eventData s) mem = encode (EList es) @ rest"
    "length (encode (EList es)) \<le> eventDataLen s" "length (event_text (EList es)) < outBufLen s"
  let ?s2 = "emit ''['' (eat (Suc (Suc 0)) s)" and ?n = "length (concat (map encode es))"
  have d: "drop (Suc (eventData s)) mem = of_nat (length es) # concat (map encode es) @ rest" "drop (eventData s + 2) mem = concat (map encode es) @ rest"
    using a drop_later [of "eventData s" mem "[EVENT_TYPE_LIST]"] drop_later [of "eventData s" mem "[EVENT_TYPE_LIST, of_nat (length es)]" "concat (map encode es) @ rest"] by simp_all
  have b: "bytes_in mem (eventData s) (Suc 0) = Some [EVENT_TYPE_LIST]" "bytes_in mem (Suc (eventData s)) (Suc 0) = Some [of_nat (length es)]"
    using a d(1) bytes_in_one [of "eventData s" mem] bytes_in_one [of "Suc (eventData s)" mem] by simp_all
  have n: "unat (of_nat (length es) :: u8) = length es"
    using assms(2) by (simp add: unsigned_of_nat take_bit_nat_eq_self)
  have items: "print_items depth mem (length es) ?s2 = Some (0, eat ?n (emit (commas (map event_text es)) ?s2))"
    using a d(2) by (intro prints_items [OF assms(1)]) (simp_all add: numeral_2_eq_2 del: length_concat map_map)
  have "\<not> eventDataLen s - Suc 0 < Suc 0" "0 < outBufLen s" "0 < outBufLen s - Suc (length (commas (map event_text es)))"
    using a(3,4) by simp_all
  then show "print_event (Suc depth) mem s = Some (0, eat (length (encode (EList es))) (emit (event_text (EList es)) s))"
    using b n items a(3) by (simp add: event_types Let_def eat_emit del: length_concat map_map)
qed

lemma prints_all: "event_ok e \<Longrightarrow> length (encode e) \<le> depth \<Longrightarrow> prints depth mem e"
proof (induction e arbitrary: depth)
  case (EInt w)
  then show ?case by (cases depth) (simp_all add: prints_int)
next
  case (ELong w)
  then show ?case by (cases depth) (simp_all add: prints_long)
next
  case (EString bs)
  then show ?case by (cases depth) (simp_all add: prints_string)
next
  case (EList es)
  then obtain d where d: "depth = Suc d" by (cases depth) auto
  have "prints d mem e" if e: "e \<in> set es" for e
  proof (rule EList.IH [OF e])
    show "event_ok e" using EList.prems(1) e by (simp add: list_all_iff)
    have "length (encode e) \<le> length (concat (map encode es))"
      using e member_le_sum_list [of "length (encode e)" "map (length \<circ> encode) es"] by (auto simp: length_concat comp_def)
    then show "length (encode e) \<le> d" using EList.prems(2) d by simp
  qed
  then show ?case using EList.prems(1) d by (auto intro: prints_list)
qed

text \<open>C26: a binary event is printed as its text, and all of its bytes are read, when there is room for the text.\<close>

theorem binary_event_text:
  assumes "event_ok e" "drop (eventData s) mem = encode e @ rest" "eventData s + eventDataLen s \<le> length mem" "length (encode e) \<le> eventDataLen s" "length (event_text e) < outBufLen s"
  shows "android_log_printBinaryEvent mem s =
    Some (0, s\<lparr>eventData := eventData s + length (encode e), eventDataLen := eventDataLen s - length (encode e), outText := outText s @ event_text e, outBufLen := outBufLen s - length (event_text e)\<rparr>)"
  using printsD [OF prints_all [OF assms(1), of "eventDataLen s + 1"], of s mem rest] assms by (simp add: android_log_printBinaryEvent_def eat_def emit_def)

theorem binary_event_text_witness:
  "android_log_printBinaryEvent (encode (EList [EInt 7, EString [104, 105]])) \<lparr>eventData = 0, eventDataLen = 14, outText = [], outBufLen = 20\<rparr> =
     Some (0, \<lparr>eventData = 14, eventDataLen = 0, outText = ''[7,hi]'', outBufLen = 14\<rparr>)"
proof -
  have "event_text (EList [EInt 7, EString [104, 105]]) = ''[7,hi]''" by code_simp
  then show ?thesis
    using binary_event_text [of "EList [EInt 7, EString [104, 105]]" "\<lparr>eventData = 0, eventDataLen = 14, outText = [], outBufLen = 20\<rparr>" "encode (EList [EInt 7, EString [104, 105]])" "[]"] by simp
qed

lemma event_ends:
  assumes "eventData s + eventDataLen s \<le> length mem"
  shows "\<exists>r s'. android_log_printBinaryEvent mem s = Some (r, s') \<and> r \<in> {-1, 0, 1} \<and> eventData s' + eventDataLen s' = eventData s + eventDataLen s \<and>
    length (outText s') + outBufLen s' = length (outText s) + outBufLen s"
  unfolding android_log_printBinaryEvent_def using events_within(1) [OF assms, of "eventDataLen s + 1"] by (auto simp: ends_within_def within_def simp del: print_event.simps)

text \<open>
  On every payload, well-formed or not, the conversion ends, reads nothing behind the data, and writes no more text than there is room for.
\<close>

theorem binary_event_safe:
  assumes "eventData s + eventDataLen s \<le> length mem"
  shows "\<exists>r s'. android_log_printBinaryEvent mem s = Some (r, s') \<and> r \<in> {-1, 0, 1} \<and> eventData s' + eventDataLen s' = eventData s + eventDataLen s \<and>
    length (outText s') + outBufLen s' = length (outText s) + outBufLen s"
  using event_ends [OF assms] .

theorem binary_event_safe_witness:
  "\<exists>r s'. android_log_printBinaryEvent [3, 255, 2, 255, 255, 255, 255] \<lparr>eventData = 0, eventDataLen = 7, outText = [], outBufLen = 20\<rparr> = Some (r, s') \<and> r \<in> {-1, 0, 1} \<and> length (outText s') + outBufLen s' = 20"
  using binary_event_safe [of "\<lparr>eventData = 0, eventDataLen = 7, outText = [], outBufLen = 20\<rparr>" "[3, 255, 2, 255, 255, 255, 255]"] by auto

section \<open>Entries\<close>

text \<open>A text entry of a priority, a tag and a message is taken apart into them.\<close>

theorem text_entry_parts:
  assumes "msg_bytes buf = p # t @ 0 # m @ 0 # slack" "0 \<notin> set t" "unat (len buf) = length t + length m + 3"
  shows "\<exists>e. android_log_processLogBuffer buf = Some e \<and> priority e = int (unat p) \<and> tag e = chars t \<and> unat (messageLen e) = length m \<and> take (unat (messageLen e)) (message e) = chars m"
proof -
  have tl: "takeWhile (\<lambda>b. b \<noteq> 0) (t @ 0 # m @ 0 # slack) = t"
    using assms(2) by (induction t) auto
  have bound: "length t + length m + 3 < 2 ^ 16"
    using unat_u16(1) [of "len buf"] assms(3) by simp
  have "unat (ucast (len buf) :: u32) = length t + length m + 3"
    using assms(3) unat_u16(2) [of "len buf"] by simp
  from arg_cong [OF this, of "of_nat :: nat \<Rightarrow> u32"] have "(ucast (len buf) :: u32) = of_nat (length t + length m + 3)"
    by (simp only: of_nat_unat ucast_id)
  then have "(ucast (len buf) :: u32) - of_nat (length t) - 3 = of_nat (length m)"
    by simp
  moreover have "unat (of_nat (length m) :: u32) = length m"
    using bound by (intro unat_of_nat_u32) simp
  ultimately show ?thesis
    using tl assms(1) by (simp add: android_log_processLogBuffer_def bytes_in_def strlen_from_def chars_def)
qed

theorem text_entry_parts_witness:
  "\<exists>e. android_log_processLogBuffer \<lparr>len = 8, le_pid = 1, le_tid = 1, sec = 0, nsec = 0, msg_bytes = 4 # [78, 69, 84] @ 0 # [104, 105] @ 0 # []\<rparr> = Some e \<and>
     tag e = chars [78, 69, 84] \<and> unat (messageLen e) = 2 \<and> take (unat (messageLen e)) (message e) = chars [104, 105]"
  using text_entry_parts [of "\<lparr>len = 8, le_pid = 1, le_tid = 1, sec = 0, nsec = 0, msg_bytes = 4 # [78, 69, 84] @ 0 # [104, 105] @ 0 # []\<rparr>" 4 "[78, 69, 84]" "[104, 105]" "[]"] by auto

text \<open>An entry that is too short gets a message of almost \<open>2 ^ 32\<close> bytes.\<close>

lemma short_entry_wraps:
  "map_option messageLen (android_log_processLogBuffer \<lparr>len = 2, le_pid = 1, le_tid = 1, sec = 0, nsec = 0, msg_bytes = [4, 0, 0]\<rparr>) = Some 0xffffffff"
  by (simp add: android_log_processLogBuffer_def bytes_in_def strlen_from_def)

lemma length_dec: "n < 10 ^ k \<Longrightarrow> 0 < k \<Longrightarrow> length (dec n) \<le> k"
proof (induction k arbitrary: n)
  case (Suc k)
  show ?case
  proof (cases "n < 10")
    case False
    then have "n div 10 < 10 ^ k" "0 < k" using Suc.prems by (auto simp: div_less_iff_less_mult mult.commute) (cases k; simp)
    then show ?thesis using Suc.IH [of "n div 10"] False by (subst dec.simps) simp
  qed (subst dec.simps, simp)
qed simp

lemma length_made_tag: "length (made_tag i) \<le> 13"
proof -
  have "- (2 ^ 31) \<le> sint i" "sint i < 2 ^ 31"
    using sint_ge [of i] sint_less [of i] by simp_all
  then have "nat \<bar>sint i\<bar> < 10 ^ 10" by (simp add: nat_less_iff)
  then have "length (dec (nat \<bar>sint i\<bar>)) \<le> 10" by (rule length_dec) simp
  then show ?thesis by (auto simp: made_tag_def dec_int_def abs_if split: if_splits)
qed

lemma size_t_id: "0 \<le> i \<Longrightarrow> i < 2 ^ 32 \<Longrightarrow> size_t i = nat i"
  by (simp add: size_t_def)

lemma length_mark_cut: "t \<noteq> [] \<Longrightarrow> length (mark_cut t) = length t" "length (mark_cut []) = 1"
  by (simp_all add: mark_cut_def)

text \<open>
  C27: a binary entry of any contents is converted within the message buffer, when that has at least 16 bytes, the payload is as long as its length says and the table of names can be searched: the result is an error or a
  message that ends in a zero byte inside of the buffer.
\<close>

theorem binary_entry_fits:
  assumes "unat (len buf) \<le> length (msg_bytes buf)" "16 \<le> bufLen" "bufLen < 2 ^ 31" "event_name tm (get4LE (take 4 (msg_bytes buf))) \<noteq> None"
  shows "\<exists>x. android_log_processBinaryLogBuffer buf tm bufLen = Some x \<and>
    (case x of None \<Rightarrow> True | Some (e, used) \<Rightarrow> used \<le> nat bufLen \<and> length (message e) = unat (messageLen e) + 1 \<and> message e ! unat (messageLen e) = CHR 0x00)"
proof (cases "len buf < 4")
  case False
  let ?i = "get4LE (take 4 (msg_bytes buf))"
  have l4: "4 \<le> unat (len buf)" using False by (simp add: word_less_nat_alt)
  have t: "bytes_in (msg_bytes buf) 0 4 = Some (take 4 (msg_bytes buf))" using l4 assms(1) by (simp add: bytes_in_def)
  obtain name where name: "event_name tm ?i = Some name" using assms(4) by auto
  define taglen where "taglen = (case name of Some n \<Rightarrow> 0 | None \<Rightarrow> length (made_tag ?i) + 1)"
  have tag14: "taglen \<le> 14" using length_made_tag [of ?i] by (auto simp: taglen_def split: option.split)
  define room where "room = size_t (bufLen - int taglen - 1)"
  have room: "room = nat (bufLen - int taglen - 1)" "0 < room" "int room = bufLen - int taglen - 1"
    using tag14 assms(2,3) by (simp_all add: room_def size_t_id)
  let ?s = "\<lparr>eventData = 4, eventDataLen = unat (len buf) - 4, outText = [], outBufLen = room\<rparr>"
  obtain r s where ev: "android_log_printBinaryEvent (msg_bytes buf) ?s = Some (r, s)" "r \<in> {-1, 0, 1}" "length (outText s) + outBufLen s = room"
    using event_ends [of ?s "msg_bytes buf"] l4 assms(1) by auto
  define shown where "shown = (if r = 1 then mark_cut (outText s) else outText s)"
  define left where "left = (if r = 1 \<and> outText s = [] then size_t (int (outBufLen s) - 1) else outBufLen s)"
  have tl: "length shown + left = room"
    using ev(3) room(2,3) assms(3) by (cases "outText s = []") (auto simp: shown_def left_def length_mark_cut size_t_id)
  have assertion: "size_t (int (length shown)) = size_t (bufLen - int taglen - 1 - int left)"
    using tl room(3) by (intro arg_cong [of _ _ size_t]) linarith
  have small: "unat (of_nat (length shown) :: u32) = length shown"
    using tl room(3) assms(3) by (intro unat_of_nat_u32) simp
  have used: "taglen + length shown + 1 \<le> nat bufLen"
    using tl room(3) by linarith
  show ?thesis
  proof (cases "r < 0")
    case True
    then show ?thesis using False t name ev(1)
      by (simp add: android_log_processBinaryLogBuffer_def taglen_def [symmetric] room_def [symmetric])
  next
    case rn: False
    then show ?thesis using False t name ev(1) assertion small used
      by (simp add: android_log_processBinaryLogBuffer_def taglen_def [symmetric] room_def [symmetric] shown_def [symmetric] left_def [symmetric] nth_append)
  qed
qed (simp add: android_log_processBinaryLogBuffer_def)

theorem binary_entry_fits_witness:
  "\<exists>x. android_log_processBinaryLogBuffer \<lparr>len = 6, le_pid = 1, le_tid = 1, sec = 0, nsec = 0, msg_bytes = [1, 0, 0, 0, 3, 9]\<rparr> None 16 = Some x \<and>
    (case x of None \<Rightarrow> True | Some (e, used) \<Rightarrow> used \<le> 16)"
  using binary_entry_fits [of "\<lparr>len = 6, le_pid = 1, le_tid = 1, sec = 0, nsec = 0, msg_bytes = [1, 0, 0, 0, 3, 9]\<rparr>" 16 None]
  by (auto simp: event_name_def split: option.splits)

end
